(* ===== verification/Prelude.thy ===== *)
theory Prelude
  imports Main "HOL-Library.Word" "HOL-Library.Monad_Syntax"
begin

text \<open>
  Shared vocabulary of the development: the C integer types as words, byte memory with
  fallible block reads and writes (an access outside the object is \<open>None\<close>, so that memory
  safety is a theorem and not an assumption), and the circular view of an array that the ring
  buffer and the mailbox both use to represent a queue.
\<close>

unbundle bit_operations_syntax

section \<open>Machine types\<close>

type_synonym u8 = "8 word"
type_synonym u16 = "16 word"
type_synonym u32 = "32 word"
type_synonym bytes = "u8 list"

named_theorems memory_simps "facts about block reads and writes of byte memory"
named_theorems circular_simps "facts about the circular view of an array"

lemma u16_succ: "v < 0xffff \<Longrightarrow> unat (v + 1 :: u16) = unat v + 1"
  by (simp add: unat_word_ariths word_less_nat_alt)

lemma u16_pred: "v \<noteq> 0 \<Longrightarrow> unat (v - 1 :: u16) + 1 = unat v"
  by (metis Suc_eq_plus1 Suc_pred' unat_gt_0 unat_minus_one)

lemma u16_of_u32: "unat v < 2 ^ 16 \<Longrightarrow> unat (ucast (v :: u32) :: u16) = unat v"
  by (simp add: unsigned_ucast_eq take_bit_nat_eq_self)

lemma u32_align4: "unat ((x :: u32) AND NOT 3) = 4 * (unat x div 4)"
proof -
  have m: "(3 :: u32) = mask 2" by (simp add: mask_eq_exp_minus_1)
  have "unat (x AND NOT (mask 2)) = unat (push_bit 2 (drop_bit 2 x))"
  proof (rule arg_cong [of _ _ unat], rule bit_word_eqI)
    fix n assume "n < LENGTH(32)"
    moreover have "Suc (Suc (n - 2)) = n" if "\<not> n < 2" using that by simp
    ultimately show "bit (x AND NOT (mask 2)) n \<longleftrightarrow> bit (push_bit 2 (drop_bit 2 x)) n"
      by (cases "n < 2") (auto simp: bit_simps)
  qed
  also have "\<dots> = 4 * (unat x div 4)"
  proof -
    have "unat x < 2 ^ LENGTH(32)" by (rule unsigned_less)
    then have "4 * (unat x div 4) < 2 ^ 32" by simp
    moreover have "unat (push_bit 2 (drop_bit 2 x)) = take_bit 32 (push_bit 2 (drop_bit 2 (take_bit 32 (unat x))))"
      by (simp only: unsigned_push_bit_eq unsigned_drop_bit_eq) simp
    ultimately show ?thesis
      by (simp add: push_bit_eq_mult drop_bit_eq_div take_bit_nat_eq_self)
  qed
  finally show ?thesis unfolding m .
qed

lemma u16_below: "a < (b :: u16) \<Longrightarrow> a < 0xffff"
proof -
  assume "a < b"
  moreover have "unat b < 2 ^ LENGTH(16)" by (rule unsigned_less)
  ultimately show ?thesis by (simp add: word_less_nat_alt)
qed

text \<open>Advancing an offset into an array of \<open>n\<close> entries, as the queues of the kernel do.\<close>

lemma u16_advance:
  fixes off n :: u16
  assumes "off < n"
  shows "unat (if n \<le> off + 1 then 0 else off + 1) = (unat off + 1) mod unat n"
proof -
  have s: "unat (off + 1) = unat off + 1" by (rule u16_succ [OF u16_below [OF assms]])
  have "unat off < unat n" using assms by (simp add: word_less_nat_alt)
  then show ?thesis by (cases "unat off + 1 = unat n") (simp_all add: s word_le_nat_alt)
qed

lemma sint_of_u16:
  assumes "0 \<le> a" and "a < 2 ^ 16"
  shows "sint (word_of_int a :: u16) = (if a < 2 ^ 15 then a else a - 2 ^ 16)"
proof (cases "a < 2 ^ 15")
  case True
  then show ?thesis using assms by (simp add: int_word_sint)
next
  case False
  have "(a + 32768) mod 65536 = (a - 32768) mod (65536::int)"
    using mod_add_self2 [of "a - 32768" "65536::int"] by (simp add: algebra_simps)
  also have "\<dots> = a - 32768" using False assms by (simp add: mod_pos_pos_trivial)
  finally show ?thesis using False by (simp add: int_word_sint)
qed

section \<open>Block memory access\<close>

text \<open>
  \<open>mem_read m off n\<close> is the block of \<open>n\<close> cells at \<open>off\<close>, \<open>mem_write m off xs\<close> the memory
  after copying \<open>xs\<close> there (C's \<open>memcpy\<close>); both fail when the block leaves the object.
\<close>

definition mem_read :: "'a list \<Rightarrow> nat \<Rightarrow> nat \<Rightarrow> 'a list option" where
  "mem_read m off n = (if off + n \<le> length m then Some (take n (drop off m)) else None)"

definition mem_write :: "'a list \<Rightarrow> nat \<Rightarrow> 'a list \<Rightarrow> 'a list option" where
  "mem_write m off xs =
     (if off + length xs \<le> length m
      then Some (take off m @ xs @ drop (off + length xs) m) else None)"

definition mem_get :: "'a list \<Rightarrow> nat \<Rightarrow> 'a option" where
  "mem_get m i = (if i < length m then Some (m ! i) else None)"

definition mem_put :: "'a list \<Rightarrow> nat \<Rightarrow> 'a \<Rightarrow> 'a list option" where
  "mem_put m i x = (if i < length m then Some (m[i := x]) else None)"

lemma mem_read_Some [memory_simps]:
  "off + n \<le> length m \<Longrightarrow> mem_read m off n = Some (take n (drop off m))"
  by (simp add: mem_read_def)

lemma mem_write_Some [memory_simps]:
  "off + length xs \<le> length m \<Longrightarrow>
   mem_write m off xs = Some (take off m @ xs @ drop (off + length xs) m)"
  by (simp add: mem_write_def)

lemma mem_get_Some [memory_simps]: "i < length m \<Longrightarrow> mem_get m i = Some (m ! i)"
  by (simp add: mem_get_def)

lemma mem_put_Some [memory_simps]: "i < length m \<Longrightarrow> mem_put m i x = Some (m[i := x])"
  by (simp add: mem_put_def)

lemma mem_write_ex: "off + length xs \<le> length m \<Longrightarrow> \<exists>m'. mem_write m off xs = Some m'"
  by (simp add: mem_write_def)

lemma mem_write_length: "mem_write m off xs = Some m' \<Longrightarrow> length m' = length m"
  by (auto simp: mem_write_def split: if_splits)

lemma mem_write_nth:
  assumes "mem_write m off xs = Some m'" and "j < length m"
  shows "m' ! j = (if off \<le> j \<and> j < off + length xs then xs ! (j - off) else m ! j)"
proof -
  have bound: "off + length xs \<le> length m"
    and m': "m' = take off m @ xs @ drop (off + length xs) m"
    using assms(1) by (auto simp: mem_write_def split: if_splits)
  consider "j < off" | "off \<le> j" "j < off + length xs" | "off + length xs \<le> j" by linarith
  then show ?thesis
  proof cases
    case 1
    then show ?thesis using m' bound by (simp add: nth_append)
  next
    case 2
    then have "j - off < length xs" by linarith
    then show ?thesis using 2 m' bound by (simp add: nth_append min_def)
  next
    case 3
    then have "\<not> j - off < length xs" and "j - off - length xs + (off + length xs) = j"
      by linarith+
    then show ?thesis using 3 m' bound assms(2) by (simp add: nth_append min_def)
  qed
qed

section \<open>The circular view of an array\<close>

text \<open>
  \<open>cview m r d\<close> is the sequence of the \<open>d\<close> cells that start at index \<open>r\<close> and wrap around at
  the end of the array: what a circular queue with read position \<open>r\<close> and fill level \<open>d\<close> holds.
\<close>

definition cview :: "'a list \<Rightarrow> nat \<Rightarrow> nat \<Rightarrow> 'a list" where
  "cview m r d = map (\<lambda>i. m ! ((r + i) mod length m)) [0..<d]"

lemma length_cview [simp]: "length (cview m r d) = d"
  by (simp add: cview_def)

lemma cview_0 [simp]: "cview m r 0 = []"
  by (simp add: cview_def)

lemma cview_nth: "i < d \<Longrightarrow> cview m r d ! i = m ! ((r + i) mod length m)"
  by (simp add: cview_def)

lemma cview_mod [circular_simps]: "cview m (r mod length m) d = cview m r d"
  by (simp add: cview_def mod_simps)

lemma cview_take [circular_simps]: "take n (cview m r d) = cview m r (min n d)"
  by (rule nth_equalityI) (simp_all add: cview_nth)

lemma cview_drop [circular_simps]: "drop n (cview m r d) = cview m (r + n) (d - n)"
  by (rule nth_equalityI) (simp_all add: cview_nth add.assoc)

lemma cview_append: "cview m r (d + e) = cview m r d @ cview m (r + d) e"
  by (rule nth_equalityI) (auto simp: cview_nth nth_append add.assoc)

lemma cview_Suc: "cview m r (Suc d) = m ! (r mod length m) # cview m (Suc r) d"
  by (rule nth_equalityI) (auto simp: cview_nth nth_Cons split: nat.split)

lemma cview_straight:
  assumes "r + d \<le> length m"
  shows "cview m r d = take d (drop r m)"
  using assms by (intro nth_equalityI) (auto simp: cview_nth)

lemma cview_wrap:
  assumes "r < length m" and "length m - r \<le> d" and "d \<le> length m"
  shows "cview m r d = drop r m @ take (d - (length m - r)) m"
proof (rule nth_equalityI)
  show "length (cview m r d) = length (drop r m @ take (d - (length m - r)) m)"
    using assms by simp
next
  fix i assume "i < length (cview m r d)"
  then have i: "i < d" by simp
  show "cview m r d ! i = (drop r m @ take (d - (length m - r)) m) ! i"
  proof (cases "i < length m - r")
    case True
    then show ?thesis using i assms by (simp add: cview_nth nth_append)
  next
    case False
    then have "length m \<le> r + i" and "r + i - length m < length m"
      using i assms by linarith+
    then have "(r + i) mod length m = r + i - length m"
      by (simp add: le_mod_geq)
    then show ?thesis using False i assms
      by (simp add: cview_nth nth_append algebra_simps)
  qed
qed

text \<open>
  The central fact: an array \<open>m'\<close> that agrees with \<open>m\<close> except that the \<open>length xs\<close> cells from
  \<open>w\<close> on hold \<open>xs\<close> shows the old content followed by \<open>xs\<close>.
\<close>

definition cwritten :: "'a list \<Rightarrow> nat \<Rightarrow> 'a list \<Rightarrow> 'a list \<Rightarrow> bool" where
  "cwritten m w xs m' \<longleftrightarrow>
     length m' = length m \<and>
     (\<forall>i < length xs. m' ! ((w + i) mod length m) = xs ! i) \<and>
     (\<forall>j < length m. (\<forall>i < length xs. (w + i) mod length m \<noteq> j) \<longrightarrow> m' ! j = m ! j)"

lemma mod_offset_inj:
  assumes "(r + i) mod n = (r + j) mod n" and "i < n" and "j < (n::nat)"
  shows "i = j"
proof (cases "i \<le> j")
  case True
  then have "n dvd (r + j) - (r + i)"
    using assms(1) mod_eq_dvd_iff_nat [of "r + i" "r + j" n] by simp
  then have "n dvd j - i" by simp
  then show ?thesis using True assms(3) by (auto dest!: dvd_imp_le)
next
  case False
  then have "n dvd (r + i) - (r + j)"
    using assms(1) mod_eq_dvd_iff_nat [of "r + j" "r + i" n] by simp
  then have "n dvd i - j" by simp
  then show ?thesis using False assms(2) by (auto dest!: dvd_imp_le)
qed

lemma cwritten_keep:
  assumes wr: "cwritten m w xs m'" and room: "d + length xs \<le> length m"
    and pos: "w mod length m = (r + d) mod length m"
  shows "cview m' r d = cview m r d"
proof (rule nth_equalityI)
  fix i assume "i < length (cview m' r d)"
  then have i: "i < d" by simp
  then have "0 < length m" using room by linarith
  then have n: "(r + i) mod length m < length m" by (rule mod_less_divisor)
  have "(w + k) mod length m \<noteq> (r + i) mod length m" if "k < length xs" for k
  proof
    assume "(w + k) mod length m = (r + i) mod length m"
    then have "(r + (d + k)) mod length m = (r + i) mod length m"
      using pos by (metis add.assoc mod_add_left_eq)
    then have "d + k = i"
      using mod_offset_inj [of r "d + k" "length m" i] that i room by simp
    then show False using i by simp
  qed
  then show "cview m' r d ! i = cview m r d ! i"
    using wr i n by (simp add: cwritten_def cview_nth)
qed simp

lemma cwritten_append:
  assumes wr: "cwritten m w xs m'" and room: "d + length xs \<le> length m"
    and pos: "w mod length m = (r + d) mod length m"
  shows "cview m' r (d + length xs) = cview m r d @ xs"
proof -
  have "cview m' (r + d) (length xs) = xs"
  proof (rule nth_equalityI)
    fix i assume "i < length (cview m' (r + d) (length xs))"
    moreover have "(r + d + i) mod length m = (w + i) mod length m"
      using pos by (metis mod_add_left_eq)
    ultimately show "cview m' (r + d) (length xs) ! i = xs ! i"
      using wr by (simp add: cwritten_def cview_nth)
  qed simp
  then show ?thesis
    using cwritten_keep [OF assms] by (simp add: cview_append)
qed

text \<open>The three ways the sources write circularly: one block, two blocks, one cell.\<close>

lemma cwritten_block:
  assumes "mem_write m w xs = Some m'"
  shows "cwritten m w xs m'"
proof -
  have b: "w + length xs \<le> length m"
    using assms by (auto simp: mem_write_def split: if_splits)
  have "m' ! ((w + i) mod length m) = xs ! i" if "i < length xs" for i
    using mem_write_nth [OF assms, of "w + i"] that b by simp
  moreover have "m' ! j = m ! j"
    if j: "j < length m" and out: "\<forall>i < length xs. (w + i) mod length m \<noteq> j" for j
  proof -
    have "\<not> (w \<le> j \<and> j < w + length xs)"
    proof
      assume a: "w \<le> j \<and> j < w + length xs"
      then have "(w + (j - w)) mod length m = j" and "j - w < length xs" using j by auto
      then show False using out by blast
    qed
    then show ?thesis using mem_write_nth [OF assms j] by argo
  qed
  ultimately show ?thesis
    using mem_write_length [OF assms] by (simp add: cwritten_def)
qed

lemma cwritten_two_blocks:
  assumes w1: "mem_write m w (take (length m - w) xs) = Some m1"
    and w2: "mem_write m1 0 (drop (length m - w) xs) = Some m'"
    and fits: "w < length m" "length m - w \<le> length xs" "length xs \<le> length m"
  shows "cwritten m w xs m'"
proof -
  let ?n = "length m"
  have l1: "length m1 = ?n" and l2: "length m' = ?n"
    using mem_write_length [OF w1] mem_write_length [OF w2] by simp_all
  have nth: "m' ! j = (if j < length xs - (?n - w) then xs ! (?n - w + j)
                       else if w \<le> j then xs ! (j - w) else m ! j)" if "j < ?n" for j
    using mem_write_nth [OF w1 that] mem_write_nth [OF w2, of j] that l1 fits by auto
  have hit: "m' ! ((w + i) mod ?n) = xs ! i" if i: "i < length xs" for i
  proof (cases "w + i < ?n")
    case True
    then have "\<not> w + i < length xs - (?n - w)" using fits i by linarith
    then show ?thesis using True nth [of "w + i"] by simp
  next
    case False
    then have "(w + i) mod ?n = w + i - ?n"
      using i fits by (simp add: le_mod_geq)
    moreover have "w + i - ?n < length xs - (?n - w)" and "?n - w + (w + i - ?n) = i"
      and "w + i - ?n < ?n"
      using False fits i by linarith+
    ultimately show ?thesis using nth [of "w + i - ?n"] by simp
  qed
  have miss: "m' ! j = m ! j"
    if j: "j < ?n" and out: "\<forall>i < length xs. (w + i) mod ?n \<noteq> j" for j
  proof -
    have "\<not> w \<le> j"
    proof
      assume "w \<le> j"
      then have "(w + (j - w)) mod ?n = j" and "j - w < length xs" using j fits by auto
      then show False using out by blast
    qed
    moreover have "\<not> j < length xs - (?n - w)"
    proof
      assume a: "j < length xs - (?n - w)"
      then have "(w + (?n - w + j)) mod ?n = j" and "?n - w + j < length xs"
        using j fits by auto
      then show False using out by blast
    qed
    ultimately show ?thesis using nth [OF j] by simp
  qed
  show ?thesis unfolding cwritten_def using l2 hit miss by blast
qed

lemma cwritten_cell:
  assumes "w < length m"
  shows "cwritten m w [x] (m[w := x])"
  using assms by (auto simp: cwritten_def)

section \<open>Data refinement\<close>

text \<open>
  The contract between an implementation and its abstract specification: every step from a
  well-formed state succeeds (no failed assertion, no access outside an object), keeps the
  invariant, and gives the output and the state the specification gives. It is stated once, with
  its consequence for whole sequences of operations, and interpreted by every component that
  implements a queue.
\<close>

fun run_impl :: "('c \<Rightarrow> 'op \<Rightarrow> ('out \<times> 'c) option) \<Rightarrow> 'c \<Rightarrow> 'op list \<Rightarrow> ('out list \<times> 'c) option" where
  "run_impl step c [] = Some ([], c)"
| "run_impl step c (x # xs) =
     do { (out, c') \<leftarrow> step c x;
          (outs, c'') \<leftarrow> run_impl step c' xs;
          Some (out # outs, c'') }"

fun run_spec :: "('a \<Rightarrow> 'op \<Rightarrow> 'out \<times> 'a) \<Rightarrow> 'a \<Rightarrow> 'op list \<Rightarrow> 'out list \<times> 'a" where
  "run_spec spec a [] = ([], a)"
| "run_spec spec a (x # xs) =
     (let (out, a') = spec a x; (outs, a'') = run_spec spec a' xs in (out # outs, a''))"

locale data_refinement =
  fixes step :: "'c \<Rightarrow> 'op \<Rightarrow> ('out \<times> 'c) option"
    and spec :: "'a \<Rightarrow> 'op \<Rightarrow> 'out \<times> 'a"
    and inv :: "'c \<Rightarrow> bool"
    and abs :: "'c \<Rightarrow> 'a"
    and ok :: "'op \<Rightarrow> bool"
  assumes simulates: "inv c \<Longrightarrow> ok x \<Longrightarrow>
    \<exists>out c'. step c x = Some (out, c') \<and> inv c' \<and> spec (abs c) x = (out, abs c')"
begin

lemma run_refines:
  assumes "inv c" and "list_all ok xs"
  shows "\<exists>outs c'. run_impl step c xs = Some (outs, c') \<and> inv c' \<and>
           run_spec spec (abs c) xs = (outs, abs c')"
  using assms
proof (induction xs arbitrary: c)
  case Nil
  then show ?case by simp
next
  case (Cons x xs)
  then obtain out c1 where s: "step c x = Some (out, c1)" "inv c1" "spec (abs c) x = (out, abs c1)"
    using simulates [of c x] by auto
  obtain outs c' where "run_impl step c1 xs = Some (outs, c')" "inv c'"
      "run_spec spec (abs c1) xs = (outs, abs c')"
    using Cons.IH [OF s(2)] Cons.prems(2) by auto
  then show ?case using s by simp
qed

lemma run_never_fails: "inv c \<Longrightarrow> list_all ok xs \<Longrightarrow> run_impl step c xs \<noteq> None"
  using run_refines [of c xs] by auto

end

end
