(* ===== verification/RingBuffer.thy ===== *)
theory RingBuffer
  imports Prelude
begin

text \<open>
  The ring buffer of the device drivers
  (\<^verbatim>\<open>rt-thread/components/drivers/ipc/ringbuffer.c\<close> and its header): a byte queue over an
  array with 15-bit read and write indices and one mirror bit each. The record has the fields of
  \<^verbatim>\<open>struct rt_ringbuffer\<close>; \<open>buffer_ptr\<close> is the memory the buffer owns, a mirror bit is a
  truth value, and the 15-bit index fields are natural numbers reduced by \<open>idx15\<close> on every
  assignment. \<open>None\<close> is a failed \<^verbatim>\<open>RT_ASSERT\<close> or an access outside a memory object; that
  it never happens on a well-formed buffer is part of every theorem. The contents are the
  circular view of the array, and the operations refine the obvious operations on lists.
\<close>

section \<open>Data and operations\<close>

record rt_ringbuffer =
  buffer_ptr :: bytes
  read_mirror :: bool
  read_index :: nat
  write_mirror :: bool
  write_index :: nat
  buffer_size :: nat

datatype rt_ringbuffer_state = RT_RINGBUFFER_EMPTY | RT_RINGBUFFER_FULL | RT_RINGBUFFER_HALFFULL

definition idx15 :: "nat \<Rightarrow> nat" where
  "idx15 n = n mod 2 ^ 15"

definition RT_ALIGN_SIZE :: int where
  "RT_ALIGN_SIZE = 4"

definition RT_ALIGN_DOWN :: "int \<Rightarrow> int \<Rightarrow> int" where
  "RT_ALIGN_DOWN sz align = sz AND NOT (align - 1)"

definition rt_ringbuffer_status :: "rt_ringbuffer \<Rightarrow> rt_ringbuffer_state" where
  "rt_ringbuffer_status rb =
     (if read_index rb = write_index rb then
        (if read_mirror rb = write_mirror rb then RT_RINGBUFFER_EMPTY else RT_RINGBUFFER_FULL)
      else RT_RINGBUFFER_HALFFULL)"

text \<open>
  The pool handed to \<^verbatim>\<open>rt_ringbuffer_init\<close> may be longer than the aligned size; the buffer
  owns its first \<open>buffer_size\<close> bytes. A pool shorter than that is a caller error (\<open>None\<close>).
\<close>

definition rt_ringbuffer_init :: "bytes \<Rightarrow> int \<Rightarrow> rt_ringbuffer option" where
  "rt_ringbuffer_init pool sz =
     (if \<not> sz > 0 then None
      else let bs = nat (RT_ALIGN_DOWN sz RT_ALIGN_SIZE) in
        do { mem \<leftarrow> mem_read pool 0 bs;
             Some \<lparr>buffer_ptr = mem, read_mirror = False, read_index = 0,
                   write_mirror = False, write_index = 0, buffer_size = bs\<rparr> })"

definition rt_ringbuffer_data_len :: "rt_ringbuffer \<Rightarrow> nat" where
  "rt_ringbuffer_data_len rb =
     (case rt_ringbuffer_status rb of
        RT_RINGBUFFER_EMPTY \<Rightarrow> 0
      | RT_RINGBUFFER_FULL \<Rightarrow> buffer_size rb
      | RT_RINGBUFFER_HALFFULL \<Rightarrow>
          (let wi = write_index rb; ri = read_index rb
           in if wi > ri then wi - ri else buffer_size rb - (ri - wi)))"

definition rt_ringbuffer_space_len :: "rt_ringbuffer \<Rightarrow> nat" where
  "rt_ringbuffer_space_len rb = buffer_size rb - rt_ringbuffer_data_len rb"

definition rt_ringbuffer_put :: "rt_ringbuffer \<Rightarrow> bytes \<Rightarrow> nat \<Rightarrow> (nat \<times> rt_ringbuffer) option" where
  "rt_ringbuffer_put rb ptr len0 =
     (let size = rt_ringbuffer_space_len rb mod 2 ^ 16
      in if size = 0 then Some (0, rb)
         else let len = (if size < len0 then size else len0)
           in if int (buffer_size rb) - int (write_index rb) > int len then
                do { src \<leftarrow> mem_read ptr 0 len;
                     buf \<leftarrow> mem_write (buffer_ptr rb) (write_index rb) src;
                     Some (len, rb\<lparr>buffer_ptr := buf,
                                   write_index := idx15 (write_index rb + len)\<rparr>) }
              else let n1 = buffer_size rb - write_index rb in
                do { src1 \<leftarrow> mem_read ptr 0 n1;
                     buf1 \<leftarrow> mem_write (buffer_ptr rb) (write_index rb) src1;
                     src2 \<leftarrow> mem_read ptr n1 (len - n1);
                     buf2 \<leftarrow> mem_write buf1 0 src2;
                     Some (len, rb\<lparr>buffer_ptr := buf2, write_mirror := \<not> write_mirror rb,
                                   write_index := idx15 (len - n1)\<rparr>) })"

definition rt_ringbuffer_put_force :: "rt_ringbuffer \<Rightarrow> bytes \<Rightarrow> nat \<Rightarrow> (nat \<times> rt_ringbuffer) option" where
  "rt_ringbuffer_put_force rb ptr len0 =
     (let space_length = rt_ringbuffer_space_len rb mod 2 ^ 16;
          off = (if len0 > buffer_size rb then len0 - buffer_size rb else 0);
          len = (if len0 > buffer_size rb then buffer_size rb else len0)
      in if int (buffer_size rb) - int (write_index rb) > int len then
           do { src \<leftarrow> mem_read ptr off len;
                buf \<leftarrow> mem_write (buffer_ptr rb) (write_index rb) src;
                let wi = idx15 (write_index rb + len) in
                Some (len, rb\<lparr>buffer_ptr := buf, write_index := wi,
                              read_index := (if len > space_length then wi else read_index rb)\<rparr>) }
         else let n1 = buffer_size rb - write_index rb in
           do { src1 \<leftarrow> mem_read ptr off n1;
                buf1 \<leftarrow> mem_write (buffer_ptr rb) (write_index rb) src1;
                src2 \<leftarrow> mem_read ptr (off + n1) (len - n1);
                buf2 \<leftarrow> mem_write buf1 0 src2;
                let wi = idx15 (len - n1);
                    rb1 = rb\<lparr>buffer_ptr := buf2, write_mirror := \<not> write_mirror rb,
                             write_index := wi\<rparr> in
                Some (len,
                  if len > space_length then
                    rb1\<lparr>read_mirror := (if wi \<le> read_index rb then \<not> read_mirror rb
                                        else read_mirror rb),
                        read_index := wi\<rparr>
                  else rb1) })"

text \<open>The reader gets the copied bytes as a list: the first \<open>length\<close> cells of its buffer.\<close>

definition rt_ringbuffer_get :: "rt_ringbuffer \<Rightarrow> nat \<Rightarrow> (nat \<times> bytes \<times> rt_ringbuffer) option" where
  "rt_ringbuffer_get rb len0 =
     (let size = rt_ringbuffer_data_len rb
      in if size = 0 then Some (0, [], rb)
         else let len = (if size < len0 then size else len0)
           in if int (buffer_size rb) - int (read_index rb) > int len then
                do { out \<leftarrow> mem_read (buffer_ptr rb) (read_index rb) len;
                     Some (len, out, rb\<lparr>read_index := idx15 (read_index rb + len)\<rparr>) }
              else let n1 = buffer_size rb - read_index rb in
                do { out1 \<leftarrow> mem_read (buffer_ptr rb) (read_index rb) n1;
                     out2 \<leftarrow> mem_read (buffer_ptr rb) 0 (len - n1);
                     Some (len, out1 @ out2, rb\<lparr>read_mirror := \<not> read_mirror rb,
                                                read_index := idx15 (len - n1)\<rparr>) })"

text \<open>\<^verbatim>\<open>rt_ringbuffer_peek\<close> returns the index that \<^verbatim>\<open>*ptr\<close> points to, \<open>None\<close> for NULL.\<close>

definition rt_ringbuffer_peek :: "rt_ringbuffer \<Rightarrow> nat \<times> nat option \<times> rt_ringbuffer" where
  "rt_ringbuffer_peek rb =
     (let size = rt_ringbuffer_data_len rb
      in if size = 0 then (0, None, rb)
         else if int (buffer_size rb) - int (read_index rb) > int size then
           (size, Some (read_index rb), rb\<lparr>read_index := idx15 (read_index rb + size)\<rparr>)
         else (buffer_size rb - read_index rb, Some (read_index rb),
               rb\<lparr>read_mirror := \<not> read_mirror rb, read_index := 0\<rparr>))"

definition rt_ringbuffer_putchar :: "rt_ringbuffer \<Rightarrow> u8 \<Rightarrow> (nat \<times> rt_ringbuffer) option" where
  "rt_ringbuffer_putchar rb ch =
     (if rt_ringbuffer_space_len rb = 0 then Some (0, rb)
      else do { buf \<leftarrow> mem_put (buffer_ptr rb) (write_index rb) ch;
                let rb1 = rb\<lparr>buffer_ptr := buf\<rparr> in
                Some (1, if int (write_index rb) = int (buffer_size rb) - 1
                         then rb1\<lparr>write_mirror := \<not> write_mirror rb, write_index := 0\<rparr>
                         else rb1\<lparr>write_index := idx15 (write_index rb + 1)\<rparr>) })"

definition rt_ringbuffer_putchar_force :: "rt_ringbuffer \<Rightarrow> u8 \<Rightarrow> (nat \<times> rt_ringbuffer) option" where
  "rt_ringbuffer_putchar_force rb ch =
     (let old_state = rt_ringbuffer_status rb in
      do { buf \<leftarrow> mem_put (buffer_ptr rb) (write_index rb) ch;
           let rb1 = rb\<lparr>buffer_ptr := buf\<rparr> in
           Some (1,
             if int (write_index rb) = int (buffer_size rb) - 1 then
               (let rb2 = rb1\<lparr>write_mirror := \<not> write_mirror rb, write_index := 0\<rparr>
                in if old_state = RT_RINGBUFFER_FULL
                   then rb2\<lparr>read_mirror := \<not> read_mirror rb, read_index := write_index rb2\<rparr>
                   else rb2)
             else
               (let rb2 = rb1\<lparr>write_index := idx15 (write_index rb + 1)\<rparr>
                in if old_state = RT_RINGBUFFER_FULL
                   then rb2\<lparr>read_index := write_index rb2\<rparr> else rb2)) })"

definition rt_ringbuffer_getchar :: "rt_ringbuffer \<Rightarrow> (nat \<times> u8 option \<times> rt_ringbuffer) option" where
  "rt_ringbuffer_getchar rb =
     (if rt_ringbuffer_data_len rb = 0 then Some (0, None, rb)
      else do { ch \<leftarrow> mem_get (buffer_ptr rb) (read_index rb);
                Some (1, Some ch,
                  if int (read_index rb) = int (buffer_size rb) - 1
                  then rb\<lparr>read_mirror := \<not> read_mirror rb, read_index := 0\<rparr>
                  else rb\<lparr>read_index := idx15 (read_index rb + 1)\<rparr>) })"

definition rt_ringbuffer_reset :: "rt_ringbuffer \<Rightarrow> rt_ringbuffer" where
  "rt_ringbuffer_reset rb =
     rb\<lparr>read_mirror := False, read_index := 0, write_mirror := False, write_index := 0\<rparr>"

text \<open>
  \<^verbatim>\<open>rt_ringbuffer_create\<close> asks the heap twice; the outcomes of the two allocations are the
  arguments (\<open>pool\<close> is the second block, \<open>None\<close> when \<^verbatim>\<open>rt_malloc\<close> fails). The outer option
  is a failed assertion, the inner one the NULL result. The aligned unsigned 16-bit size is
  converted to the signed 16-bit parameter of \<^verbatim>\<open>rt_ringbuffer_init\<close>.
\<close>

definition rt_ringbuffer_create :: "u16 \<Rightarrow> bool \<Rightarrow> bytes option \<Rightarrow> rt_ringbuffer option option" where
  "rt_ringbuffer_create sz rb_ok pool =
     (if \<not> sz > 0 then None
      else let size' = RT_ALIGN_DOWN (uint sz) RT_ALIGN_SIZE
        in if \<not> rb_ok then Some None
           else case pool of None \<Rightarrow> Some None
             | Some mem \<Rightarrow> map_option Some
                 (rt_ringbuffer_init mem (sint (word_of_int size' :: u16))))"

section \<open>Well-formed buffers and their contents\<close>

definition rb_inv :: "rt_ringbuffer \<Rightarrow> bool" where
  "rb_inv rb \<longleftrightarrow>
     buffer_size rb = length (buffer_ptr rb) \<and> 0 < buffer_size rb \<and> buffer_size rb < 2 ^ 15 \<and>
     read_index rb < buffer_size rb \<and> write_index rb < buffer_size rb \<and>
     (if read_mirror rb = write_mirror rb then read_index rb \<le> write_index rb
      else write_index rb \<le> read_index rb)"

definition rb_contents :: "rt_ringbuffer \<Rightarrow> bytes" where
  "rb_contents rb = cview (buffer_ptr rb) (read_index rb) (rt_ringbuffer_data_len rb)"

text \<open>
  Moving an index forward by \<open>n\<close> cells, crossing into the other mirror at the end of the array:
  what every operation does with the write index (after a write) or the read index.
\<close>

definition advance_write :: "nat \<Rightarrow> rt_ringbuffer \<Rightarrow> rt_ringbuffer" where
  "advance_write n rb =
     (if write_index rb + n < buffer_size rb then rb\<lparr>write_index := write_index rb + n\<rparr>
      else rb\<lparr>write_mirror := \<not> write_mirror rb,
              write_index := write_index rb + n - buffer_size rb\<rparr>)"

definition advance_read :: "nat \<Rightarrow> rt_ringbuffer \<Rightarrow> rt_ringbuffer" where
  "advance_read n rb =
     (if read_index rb + n < buffer_size rb then rb\<lparr>read_index := read_index rb + n\<rparr>
      else rb\<lparr>read_mirror := \<not> read_mirror rb,
              read_index := read_index rb + n - buffer_size rb\<rparr>)"

named_theorems rb_simps "the ring buffer operations in terms of the invariant"

lemma advance_read_frame [simp]:
  "buffer_ptr (advance_read n rb) = buffer_ptr rb" "buffer_size (advance_read n rb) = buffer_size rb"
  "write_index (advance_read n rb) = write_index rb"
  by (simp_all add: advance_read_def)

lemma advance_write_frame [simp]:
  "buffer_ptr (advance_write n rb) = buffer_ptr rb" "buffer_size (advance_write n rb) = buffer_size rb"
  "read_index (advance_write n rb) = read_index rb"
  by (simp_all add: advance_write_def)

lemma idx15_id [simp]: "n < 2 ^ 15 \<Longrightarrow> idx15 n = n"
  by (simp add: idx15_def)

lemma data_len_inv [rb_simps]:
  "rb_inv rb \<Longrightarrow> rt_ringbuffer_data_len rb =
     (if read_mirror rb = write_mirror rb then write_index rb - read_index rb
      else buffer_size rb - (read_index rb - write_index rb))"
  by (auto simp: rb_inv_def rt_ringbuffer_data_len_def rt_ringbuffer_status_def Let_def
      split: if_splits)

lemma data_len_le: "rb_inv rb \<Longrightarrow> rt_ringbuffer_data_len rb \<le> buffer_size rb"
  by (auto simp: data_len_inv rb_inv_def)

lemma status_full: "rb_inv rb \<Longrightarrow>
  rt_ringbuffer_status rb = RT_RINGBUFFER_FULL \<longleftrightarrow> rt_ringbuffer_space_len rb = 0"
  by (auto simp: rt_ringbuffer_status_def rt_ringbuffer_space_len_def data_len_inv rb_inv_def
      split: if_splits)

lemma length_contents [simp]: "length (rb_contents rb) = rt_ringbuffer_data_len rb"
  by (simp add: rb_contents_def)

lemma write_pos:
  assumes "rb_inv rb"
  shows "write_index rb mod length (buffer_ptr rb) =
         (read_index rb + rt_ringbuffer_data_len rb) mod length (buffer_ptr rb)"
proof (cases "read_mirror rb = write_mirror rb")
  case True
  then show ?thesis using data_len_inv [OF assms] assms by (simp add: rb_inv_def)
next
  case False
  then have "read_index rb + rt_ringbuffer_data_len rb = write_index rb + buffer_size rb"
    using data_len_inv [OF assms] assms by (simp add: rb_inv_def)
  then show ?thesis using assms by (simp add: rb_inv_def)
qed

lemma advance_write_inv:
  "rb_inv rb \<Longrightarrow> n \<le> rt_ringbuffer_space_len rb \<Longrightarrow> rb_inv (advance_write n rb)"
  by (auto simp: advance_write_def rb_inv_def rt_ringbuffer_space_len_def data_len_inv
      split: if_splits)

lemma advance_write_len:
  assumes "rb_inv rb" and "n \<le> rt_ringbuffer_space_len rb"
  shows "rt_ringbuffer_data_len (advance_write n rb) = rt_ringbuffer_data_len rb + n"
  using assms advance_write_inv [OF assms]
  by (auto simp: data_len_inv advance_write_def rb_inv_def rt_ringbuffer_space_len_def
      split: if_splits)

lemma advance_read_inv:
  "rb_inv rb \<Longrightarrow> n \<le> rt_ringbuffer_data_len rb \<Longrightarrow> rb_inv (advance_read n rb)"
  by (auto simp: advance_read_def rb_inv_def data_len_inv split: if_splits)

lemma advance_read_len:
  assumes "rb_inv rb" and "n \<le> rt_ringbuffer_data_len rb"
  shows "rt_ringbuffer_data_len (advance_read n rb) = rt_ringbuffer_data_len rb - n"
  using assms advance_read_inv [OF assms]
  by (auto simp: data_len_inv advance_read_def rb_inv_def split: if_splits)

lemma advance_read_contents:
  assumes "rb_inv rb" and "n \<le> rt_ringbuffer_data_len rb"
  shows "rb_contents (advance_read n rb) = drop n (rb_contents rb)"
proof -
  have "read_index (advance_read n rb) = (read_index rb + n) mod length (buffer_ptr rb)"
    using assms data_len_le [OF assms(1)]
    by (auto simp: advance_read_def rb_inv_def le_mod_geq)
  moreover have "buffer_ptr (advance_read n rb) = buffer_ptr rb"
    by (simp add: advance_read_def)
  ultimately show ?thesis
    using advance_read_len [OF assms] by (simp add: rb_contents_def circular_simps)
qed

text \<open>Writing \<open>xs\<close> at the write position and advancing over it appends \<open>xs\<close>.\<close>

lemma advance_write_contents:
  assumes inv: "rb_inv rb" and room: "length xs \<le> rt_ringbuffer_space_len rb"
    and wr: "cwritten (buffer_ptr rb) (write_index rb) xs buf"
  defines "rb' \<equiv> advance_write (length xs) (rb\<lparr>buffer_ptr := buf\<rparr>)"
  shows "rb_inv rb' \<and> rb_contents rb' = rb_contents rb @ xs"
proof -
  let ?rb1 = "rb\<lparr>buffer_ptr := buf\<rparr>"
  have len: "length buf = length (buffer_ptr rb)" using wr by (simp add: cwritten_def)
  have dl: "rt_ringbuffer_data_len ?rb1 = rt_ringbuffer_data_len rb"
    by (simp add: rt_ringbuffer_data_len_def rt_ringbuffer_status_def Let_def)
  have inv1: "rb_inv ?rb1" using inv len by (auto simp: rb_inv_def)
  have room1: "length xs \<le> rt_ringbuffer_space_len ?rb1"
    using room dl by (simp add: rt_ringbuffer_space_len_def)
  have fields: "read_index rb' = read_index rb" "buffer_ptr rb' = buf"
    by (simp_all add: rb'_def advance_write_def)
  have "rt_ringbuffer_data_len rb + length xs \<le> length (buffer_ptr rb)"
    using room data_len_le [OF inv] inv by (simp add: rt_ringbuffer_space_len_def rb_inv_def)
  from cwritten_append [OF wr this write_pos [OF inv]]
  have "rb_contents rb' = rb_contents rb @ xs"
    using advance_write_len [OF inv1 room1] fields dl by (simp add: rb_contents_def rb'_def)
  then show ?thesis using advance_write_inv [OF inv1 room1] by (simp add: rb'_def)
qed

section \<open>The operations on well-formed buffers\<close>

lemma space_len_u16 [simp]: "rb_inv rb \<Longrightarrow>
  rt_ringbuffer_space_len rb mod 65536 = rt_ringbuffer_space_len rb"
  unfolding rb_inv_def rt_ringbuffer_space_len_def by (intro mod_less) (simp; linarith)

text \<open>The two-step copy of \<^verbatim>\<open>put\<close> and \<^verbatim>\<open>put_force\<close>, in both branches, is one circular write.\<close>

lemma put_copy:
  assumes inv: "rb_inv rb" and n: "n \<le> buffer_size rb"
    and src: "off + n \<le> length ptr"
  obtains buf where
    "cwritten (buffer_ptr rb) (write_index rb) (take n (drop off ptr)) buf"
    and "write_index rb + n < buffer_size rb \<Longrightarrow>
         mem_write (buffer_ptr rb) (write_index rb) (take n (drop off ptr)) = Some buf"
    and "\<not> write_index rb + n < buffer_size rb \<Longrightarrow>
         \<exists>buf1. mem_write (buffer_ptr rb) (write_index rb)
                  (take (buffer_size rb - write_index rb) (drop off ptr)) = Some buf1 \<and>
                mem_write buf1 0 (take (n - (buffer_size rb - write_index rb))
                  (drop (off + (buffer_size rb - write_index rb)) ptr)) = Some buf"
proof (cases "write_index rb + n < buffer_size rb")
  case True
  then obtain buf where
    b: "mem_write (buffer_ptr rb) (write_index rb) (take n (drop off ptr)) = Some buf"
    using inv src by (simp add: rb_inv_def mem_write_def)
  then show thesis using that [of buf] True cwritten_block [OF b] by simp
next
  case False
  let ?n1 = "buffer_size rb - write_index rb" and ?xs = "take n (drop off ptr)"
  have bs: "buffer_size rb = length (buffer_ptr rb)" "write_index rb < buffer_size rb"
    using inv by (simp_all add: rb_inv_def)
  have t: "take ?n1 ?xs = take ?n1 (drop off ptr)"
    and d: "drop ?n1 ?xs = take (n - ?n1) (drop (off + ?n1) ptr)"
    using False by (simp_all add: min_def drop_take add.commute)
  have "length (take ?n1 ?xs) \<le> ?n1" by simp
  then have "write_index rb + length (take ?n1 ?xs) \<le> length (buffer_ptr rb)"
    using bs by linarith
  then obtain buf1 where b1: "mem_write (buffer_ptr rb) (write_index rb) (take ?n1 ?xs) = Some buf1"
    using mem_write_ex [of "write_index rb" "take ?n1 ?xs" "buffer_ptr rb"] bs by auto
  have "0 + length (drop ?n1 ?xs) \<le> length buf1"
    using bs n mem_write_length [OF b1] by simp
  then obtain buf where b2: "mem_write buf1 0 (drop ?n1 ?xs) = Some buf"
    using mem_write_ex [of 0 "drop ?n1 ?xs" buf1] by blast
  have "cwritten (buffer_ptr rb) (write_index rb) ?xs buf"
    using cwritten_two_blocks [of "buffer_ptr rb" "write_index rb" ?xs buf1 buf] b1 b2 bs False n src
    by simp
  then show thesis using that [of buf] b1 b2 False unfolding t d by blast
qed

lemma put_eq:
  assumes inv: "rb_inv rb" and src: "len0 \<le> length ptr"
  defines "n \<equiv> min len0 (rt_ringbuffer_space_len rb)"
  shows "\<exists>buf. cwritten (buffer_ptr rb) (write_index rb) (take n ptr) buf \<and>
    rt_ringbuffer_put rb ptr len0 = Some (n,
      if rt_ringbuffer_space_len rb = 0 then rb else advance_write n (rb\<lparr>buffer_ptr := buf\<rparr>))"
proof -
  have n: "n \<le> buffer_size rb" "0 + n \<le> length ptr"
    using src by (auto simp: n_def rt_ringbuffer_space_len_def)
  obtain buf where wr: "cwritten (buffer_ptr rb) (write_index rb) (take n ptr) buf"
    and one: "write_index rb + n < buffer_size rb \<Longrightarrow>
         mem_write (buffer_ptr rb) (write_index rb) (take n ptr) = Some buf"
    and two: "\<not> write_index rb + n < buffer_size rb \<Longrightarrow>
         \<exists>buf1. mem_write (buffer_ptr rb) (write_index rb)
                  (take (buffer_size rb - write_index rb) ptr) = Some buf1 \<and>
                mem_write buf1 0 (take (n - (buffer_size rb - write_index rb))
                  (drop (buffer_size rb - write_index rb) ptr)) = Some buf"
    using put_copy [OF inv n] by auto
  have len: "(if rt_ringbuffer_space_len rb < len0 then rt_ringbuffer_space_len rb else len0) = n"
    by (simp add: n_def)
  have small: "write_index rb + n < buffer_size rb \<Longrightarrow> idx15 (write_index rb + n) = write_index rb + n"
    and small2: "idx15 (n - (buffer_size rb - write_index rb)) = n - (buffer_size rb - write_index rb)"
    using inv n by (auto intro!: idx15_id simp: rb_inv_def)
  have "rt_ringbuffer_put rb ptr len0 = Some (n,
      if rt_ringbuffer_space_len rb = 0 then rb else advance_write n (rb\<lparr>buffer_ptr := buf\<rparr>))"
  proof (cases "rt_ringbuffer_space_len rb = 0")
    case True
    then show ?thesis using inv by (simp add: rt_ringbuffer_put_def n_def)
  next
    case space: False
    show ?thesis
    proof (cases "write_index rb + n < buffer_size rb")
      case True
      then have "int (buffer_size rb) - int (write_index rb) > int n" by linarith
      then show ?thesis
        using inv space True one [OF True] n(2) small [OF True]
        by (simp add: rt_ringbuffer_put_def Let_def len mem_read_Some advance_write_def)
    next
      case False
      then have c: "\<not> int (buffer_size rb) - int (write_index rb) > int n"
        and r: "buffer_size rb - write_index rb \<le> n"
        and e: "write_index rb + n - buffer_size rb = n - (buffer_size rb - write_index rb)"
        using inv by (auto simp: rb_inv_def)
      obtain buf1 where b: "mem_write (buffer_ptr rb) (write_index rb)
                  (take (buffer_size rb - write_index rb) ptr) = Some buf1"
          "mem_write buf1 0 (take (n - (buffer_size rb - write_index rb))
                  (drop (buffer_size rb - write_index rb) ptr)) = Some buf"
        using two [OF False] by blast
      have rd: "mem_read ptr 0 (buffer_size rb - write_index rb)
                  = Some (take (buffer_size rb - write_index rb) ptr)"
        "mem_read ptr (buffer_size rb - write_index rb) (n - (buffer_size rb - write_index rb))
                  = Some (take (n - (buffer_size rb - write_index rb))
                           (drop (buffer_size rb - write_index rb) ptr))"
        using r n(2) by (auto simp: mem_read_def)
      show ?thesis
        using inv space False c b rd small2 e
        by (simp add: rt_ringbuffer_put_def Let_def len advance_write_def)
    qed
  qed
  then show ?thesis using wr by blast
qed

lemma put_refines:
  assumes inv: "rb_inv rb" and src: "len0 \<le> length ptr"
  shows "\<exists>rb'. rt_ringbuffer_put rb ptr len0 = Some (min len0 (rt_ringbuffer_space_len rb), rb') \<and>
    rb_inv rb' \<and> buffer_size rb' = buffer_size rb \<and>
    rb_contents rb' = rb_contents rb @ take (min len0 (rt_ringbuffer_space_len rb)) ptr"
proof -
  let ?n = "min len0 (rt_ringbuffer_space_len rb)"
  obtain buf where wr: "cwritten (buffer_ptr rb) (write_index rb) (take ?n ptr) buf"
    and eq: "rt_ringbuffer_put rb ptr len0 = Some (?n,
      if rt_ringbuffer_space_len rb = 0 then rb else advance_write ?n (rb\<lparr>buffer_ptr := buf\<rparr>))"
    using put_eq [OF assms] by blast
  have "length (take ?n ptr) = ?n" using src by simp
  then show ?thesis
    using advance_write_contents [OF inv _ wr] eq inv
    by (cases "rt_ringbuffer_space_len rb = 0") (auto simp: advance_write_def)
qed

text \<open>Overwriting drops as many of the oldest bytes as the new data needs.\<close>

lemma advance_read_0 [simp]: "rb_inv rb \<Longrightarrow> advance_read 0 rb = rb"
  by (simp add: advance_read_def rb_inv_def)

lemma advance_read_overrun_straight:
  assumes inv: "rb_inv rb" and over: "rt_ringbuffer_space_len rb < n"
    and straight: "write_index rb + n < buffer_size rb"
  shows "advance_read (n - rt_ringbuffer_space_len rb) rb = rb\<lparr>read_index := write_index rb + n\<rparr>"
proof -
  have "read_mirror rb \<noteq> write_mirror rb"
  proof
    assume "read_mirror rb = write_mirror rb"
    then have "rt_ringbuffer_space_len rb = buffer_size rb - (write_index rb - read_index rb)"
      using inv by (simp add: rt_ringbuffer_space_len_def data_len_inv)
    then show False using over straight by linarith
  qed
  then have "rt_ringbuffer_space_len rb = read_index rb - write_index rb"
    and "write_index rb \<le> read_index rb"
    using inv by (auto simp: rt_ringbuffer_space_len_def data_len_inv rb_inv_def)
  then have "read_index rb + (n - rt_ringbuffer_space_len rb) = write_index rb + n"
    using over by linarith
  then show ?thesis using straight by (simp add: advance_read_def)
qed

lemma advance_read_overrun_wrap:
  assumes inv: "rb_inv rb" and over: "rt_ringbuffer_space_len rb < n" and n: "n \<le> buffer_size rb"
    and wrap: "\<not> write_index rb + n < buffer_size rb"
  defines "wi \<equiv> n - (buffer_size rb - write_index rb)"
  shows "advance_read (n - rt_ringbuffer_space_len rb) rb =
    rb\<lparr>read_mirror := (if wi \<le> read_index rb then \<not> read_mirror rb else read_mirror rb),
       read_index := wi\<rparr>"
proof (cases "read_mirror rb = write_mirror rb")
  case True
  then have "rt_ringbuffer_space_len rb = buffer_size rb - (write_index rb - read_index rb)"
    and "read_index rb \<le> write_index rb" "write_index rb < buffer_size rb"
    using inv by (auto simp: rt_ringbuffer_space_len_def data_len_inv rb_inv_def)
  then have "read_index rb + (n - rt_ringbuffer_space_len rb) = wi"
    and "wi < buffer_size rb" and "read_index rb < wi"
    using over n wrap unfolding wi_def by linarith+
  then show ?thesis by (simp add: advance_read_def)
next
  case False
  then have "rt_ringbuffer_space_len rb = read_index rb - write_index rb"
    and "write_index rb \<le> read_index rb" "read_index rb < buffer_size rb"
    using inv by (auto simp: rt_ringbuffer_space_len_def data_len_inv rb_inv_def)
  then have "read_index rb + (n - rt_ringbuffer_space_len rb) - buffer_size rb = wi"
    and "\<not> read_index rb + (n - rt_ringbuffer_space_len rb) < buffer_size rb"
    and "wi \<le> read_index rb"
    using over n wrap unfolding wi_def by linarith+
  then show ?thesis by (simp add: advance_read_def)
qed

lemma put_force_eq:
  assumes inv: "rb_inv rb" and src: "len0 \<le> length ptr"
  defines "n \<equiv> min len0 (buffer_size rb)"
  defines "k \<equiv> n - rt_ringbuffer_space_len rb"
  shows "\<exists>buf. cwritten (buffer_ptr rb) (write_index rb) (drop (len0 - n) (take len0 ptr)) buf \<and>
    rt_ringbuffer_put_force rb ptr len0 =
      Some (n, advance_write n ((advance_read k rb)\<lparr>buffer_ptr := buf\<rparr>))"
proof -
  let ?w = "write_index rb" and ?bs = "buffer_size rb" and ?off = "len0 - n"
  let ?n1 = "?bs - ?w"
  have n: "n \<le> ?bs" "?off + n \<le> length ptr"
    using src by (auto simp: n_def)
  have xs: "take n (drop ?off ptr) = drop ?off (take len0 ptr)"
    by (simp add: drop_take n_def)
  have off: "(if len0 > ?bs then len0 - ?bs else 0) = ?off"
    and len: "(if len0 > ?bs then ?bs else len0) = n"
    by (auto simp: n_def)
  obtain buf where wr: "cwritten (buffer_ptr rb) ?w (take n (drop ?off ptr)) buf"
    and one: "?w + n < ?bs \<Longrightarrow> mem_write (buffer_ptr rb) ?w (take n (drop ?off ptr)) = Some buf"
    and two: "\<not> ?w + n < ?bs \<Longrightarrow>
         \<exists>buf1. mem_write (buffer_ptr rb) ?w (take ?n1 (drop ?off ptr)) = Some buf1 \<and>
                mem_write buf1 0 (take (n - ?n1) (drop (?off + ?n1) ptr)) = Some buf"
    using put_copy [OF inv n] by auto
  have small: "?w + n < ?bs \<Longrightarrow> idx15 (?w + n) = ?w + n" and small2: "idx15 (n - ?n1) = n - ?n1"
    using inv n by (auto intro!: idx15_id simp: rb_inv_def)
  have "rt_ringbuffer_put_force rb ptr len0 =
      Some (n, advance_write n ((advance_read k rb)\<lparr>buffer_ptr := buf\<rparr>))"
  proof (cases "?w + n < ?bs")
    case True
    then have c: "int ?bs - int ?w > int n" by linarith
    have "advance_write n ((advance_read k rb)\<lparr>buffer_ptr := buf\<rparr>) =
        rb\<lparr>buffer_ptr := buf, write_index := ?w + n,
           read_index := (if n > rt_ringbuffer_space_len rb then ?w + n else read_index rb)\<rparr>"
      using True inv advance_read_overrun_straight [OF inv _ True]
      by (cases "n > rt_ringbuffer_space_len rb") (simp_all add: advance_write_def k_def)
    then show ?thesis
      using c inv True one [OF True] n(2) small [OF True]
      by (simp add: rt_ringbuffer_put_force_def Let_def off len mem_read_Some)
  next
    case False
    then have c: "\<not> int ?bs - int ?w > int n" and r: "?n1 \<le> n" and e: "?w + n - ?bs = n - ?n1"
      using inv by (auto simp: rb_inv_def)
    obtain buf1 where b: "mem_write (buffer_ptr rb) ?w (take ?n1 (drop ?off ptr)) = Some buf1"
      "mem_write buf1 0 (take (n - ?n1) (drop (?off + ?n1) ptr)) = Some buf"
      using two [OF False] by blast
    have rd: "mem_read ptr ?off ?n1 = Some (take ?n1 (drop ?off ptr))"
      "mem_read ptr (?off + ?n1) (n - ?n1) = Some (take (n - ?n1) (drop (?off + ?n1) ptr))"
      using r n(2) by (auto simp: mem_read_def)
    have "advance_write n ((advance_read k rb)\<lparr>buffer_ptr := buf\<rparr>) =
       (let rb1 = rb\<lparr>buffer_ptr := buf, write_mirror := \<not> write_mirror rb, write_index := n - ?n1\<rparr>
        in if n > rt_ringbuffer_space_len rb then
             rb1\<lparr>read_mirror := (if n - ?n1 \<le> read_index rb then \<not> read_mirror rb else read_mirror rb),
                 read_index := n - ?n1\<rparr> else rb1)"
      using False inv e advance_read_overrun_wrap [OF inv _ n(1) False]
      by (cases "n > rt_ringbuffer_space_len rb") (simp_all add: advance_write_def k_def)
    then show ?thesis
      using c inv False b rd small2
      by (simp add: rt_ringbuffer_put_force_def Let_def off len)
  qed
  then show ?thesis using wr xs by auto
qed

lemma put_force_refines:
  assumes inv: "rb_inv rb" and src: "len0 \<le> length ptr"
  shows "\<exists>rb'. rt_ringbuffer_put_force rb ptr len0 = Some (min len0 (buffer_size rb), rb') \<and>
    rb_inv rb' \<and> buffer_size rb' = buffer_size rb \<and>
    rb_contents rb' =
      drop (length (rb_contents rb) + len0 - buffer_size rb) (rb_contents rb @ take len0 ptr)"
proof -
  let ?n = "min len0 (buffer_size rb)"
  let ?k = "?n - rt_ringbuffer_space_len rb"
  let ?xs = "drop (len0 - ?n) (take len0 ptr)"
  let ?rb1 = "advance_read ?k rb"
  obtain buf where wr: "cwritten (buffer_ptr rb) (write_index rb) ?xs buf"
    and eq: "rt_ringbuffer_put_force rb ptr len0 =
      Some (?n, advance_write ?n (?rb1\<lparr>buffer_ptr := buf\<rparr>))"
    using put_force_eq [OF assms] by blast
  have len: "length ?xs = ?n" using src by simp
  have k: "?k \<le> rt_ringbuffer_data_len rb"
    using data_len_le [OF inv] by (simp add: rt_ringbuffer_space_len_def)
  have inv1: "rb_inv ?rb1" by (rule advance_read_inv [OF inv k])
  have frame: "buffer_ptr ?rb1 = buffer_ptr rb" "write_index ?rb1 = write_index rb"
      "buffer_size ?rb1 = buffer_size rb"
    by (simp_all add: advance_read_def)
  have "rt_ringbuffer_space_len ?rb1 = buffer_size rb - (rt_ringbuffer_data_len rb - ?k)"
    using advance_read_len [OF inv k] frame by (simp only: rt_ringbuffer_space_len_def)
  moreover have "rt_ringbuffer_space_len rb = buffer_size rb - rt_ringbuffer_data_len rb"
    by (simp only: rt_ringbuffer_space_len_def)
  moreover have "?n \<le> buffer_size rb" by simp
  ultimately have "length ?xs \<le> rt_ringbuffer_space_len ?rb1"
    using len k data_len_le [OF inv] by linarith
  from advance_write_contents [OF inv1 this, of buf] wr frame len
  have "rb_inv (advance_write ?n (?rb1\<lparr>buffer_ptr := buf\<rparr>))"
    and "rb_contents (advance_write ?n (?rb1\<lparr>buffer_ptr := buf\<rparr>)) = rb_contents ?rb1 @ ?xs"
    by simp_all
  moreover have "rb_contents ?rb1 @ ?xs =
      drop (length (rb_contents rb) + len0 - buffer_size rb) (rb_contents rb @ take len0 ptr)"
    using advance_read_contents [OF inv k] data_len_le [OF inv]
    by (auto simp: min_def rt_ringbuffer_space_len_def add.commute)
  moreover have "buffer_size (advance_write ?n (?rb1\<lparr>buffer_ptr := buf\<rparr>)) = buffer_size rb"
    by simp
  ultimately show ?thesis using eq by simp
qed

lemma get_refines:
  fixes len0 :: nat
  assumes inv: "rb_inv rb"
  defines "n \<equiv> min len0 (rt_ringbuffer_data_len rb)"
  shows "\<exists>rb'. rt_ringbuffer_get rb len0 = Some (n, take n (rb_contents rb), rb') \<and>
    rb_inv rb' \<and> buffer_size rb' = buffer_size rb \<and> rb_contents rb' = drop n (rb_contents rb)"
proof -
  let ?r = "read_index rb" and ?bs = "buffer_size rb" and ?m = "buffer_ptr rb"
  have bs: "?bs = length ?m" "?r < ?bs" "?bs < 2 ^ 15" using inv by (simp_all add: rb_inv_def)
  have n: "n \<le> rt_ringbuffer_data_len rb" "n \<le> ?bs" using data_len_le [OF inv] by (auto simp: n_def)
  have len: "(if rt_ringbuffer_data_len rb < len0 then rt_ringbuffer_data_len rb else len0) = n"
    by (simp add: n_def)
  have view: "take n (rb_contents rb) = cview ?m ?r n"
    using n by (simp add: rb_contents_def circular_simps)
  have "rt_ringbuffer_get rb len0 = Some (n, cview ?m ?r n, advance_read n rb)"
  proof (cases "rt_ringbuffer_data_len rb = 0")
    case True
    then show ?thesis using inv by (simp add: rt_ringbuffer_get_def n_def)
  next
    case data: False
    show ?thesis
    proof (cases "?r + n < ?bs")
      case True
      then have "int ?bs - int ?r > int n" "idx15 (?r + n) = ?r + n" using bs by simp_all
      then show ?thesis using data True bs
        by (simp add: rt_ringbuffer_get_def Let_def len mem_read_Some cview_straight advance_read_def)
    next
      case False
      let ?n1 = "?bs - ?r"
      have c: "\<not> int ?bs - int ?r > int n" and e: "?r + n - ?bs = n - ?n1"
        and i: "idx15 (n - ?n1) = n - ?n1"
        using False bs n by (auto intro!: idx15_id)
      have rd: "mem_read ?m ?r ?n1 = Some (drop ?r ?m)"
        "mem_read ?m 0 (n - ?n1) = Some (take (n - ?n1) ?m)"
        using bs n by (simp_all add: mem_read_def)
      have "cview ?m ?r n = drop ?r ?m @ take (n - ?n1) ?m"
        using cview_wrap [of ?r ?m n] False bs n by simp
      then show ?thesis using data False c e i rd
        by (simp add: rt_ringbuffer_get_def Let_def len advance_read_def)
    qed
  qed
  then show ?thesis
    using view advance_read_inv [OF inv n(1)] advance_read_contents [OF inv n(1)]
    by (simp add: advance_read_def)
qed

lemma putchar_refines:
  assumes inv: "rb_inv rb"
  shows "\<exists>rb'. rt_ringbuffer_putchar rb ch =
      Some (if length (rb_contents rb) = buffer_size rb then 0 else 1, rb') \<and>
    rb_inv rb' \<and> buffer_size rb' = buffer_size rb \<and>
    rb_contents rb' = (if length (rb_contents rb) = buffer_size rb then rb_contents rb
                       else rb_contents rb @ [ch])"
proof (cases "rt_ringbuffer_space_len rb = 0")
  case True
  then have "length (rb_contents rb) = buffer_size rb"
    using data_len_le [OF inv] by (simp add: rt_ringbuffer_space_len_def)
  then show ?thesis using True inv by (simp add: rt_ringbuffer_putchar_def)
next
  case False
  let ?buf = "(buffer_ptr rb)[write_index rb := ch]"
  have w: "write_index rb < length (buffer_ptr rb)" using inv by (simp add: rb_inv_def)
  have "rt_ringbuffer_putchar rb ch = Some (1, advance_write (length [ch]) (rb\<lparr>buffer_ptr := ?buf\<rparr>))"
    using False inv w by (auto simp: rt_ringbuffer_putchar_def mem_put_Some advance_write_def rb_inv_def)
  moreover have "length (rb_contents rb) \<noteq> buffer_size rb"
    using False by (simp add: rt_ringbuffer_space_len_def)
  ultimately show ?thesis
    using advance_write_contents [OF inv _ cwritten_cell [OF w, of ch]] False
    by (auto simp: advance_write_def)
qed

lemma putchar_force_refines:
  assumes inv: "rb_inv rb"
  shows "\<exists>rb'. rt_ringbuffer_putchar_force rb ch = Some (1, rb') \<and>
    rb_inv rb' \<and> buffer_size rb' = buffer_size rb \<and>
    rb_contents rb' =
      drop (Suc (length (rb_contents rb)) - buffer_size rb) (rb_contents rb @ [ch])"
proof -
  let ?full = "rt_ringbuffer_space_len rb = 0"
  let ?k = "if ?full then 1 else 0 :: nat"
  let ?buf = "(buffer_ptr rb)[write_index rb := ch]"
  let ?rb1 = "advance_read ?k rb"
  have w: "write_index rb < length (buffer_ptr rb)" using inv by (simp add: rb_inv_def)
  have k: "?k \<le> rt_ringbuffer_data_len rb"
    using data_len_le [OF inv] inv by (auto simp: rt_ringbuffer_space_len_def rb_inv_def)
  have inv1: "rb_inv ?rb1" by (rule advance_read_inv [OF inv k])
  have frame: "buffer_ptr ?rb1 = buffer_ptr rb" "write_index ?rb1 = write_index rb"
      "buffer_size ?rb1 = buffer_size rb"
    by (simp_all add: advance_read_def)
  have full: "?full \<Longrightarrow> read_index rb = write_index rb \<and> read_mirror rb \<noteq> write_mirror rb"
    using status_full [OF inv] by (auto simp: rt_ringbuffer_status_def split: if_splits)
  have "rt_ringbuffer_putchar_force rb ch =
      Some (1, advance_write (length [ch]) (?rb1\<lparr>buffer_ptr := ?buf\<rparr>))"
    using full inv w status_full [OF inv]
    by (auto simp: rt_ringbuffer_putchar_force_def mem_put_Some advance_write_def advance_read_def
        rb_inv_def Let_def)
  moreover have "length [ch] \<le> rt_ringbuffer_space_len ?rb1"
    using k advance_read_len [OF inv k] data_len_le [OF inv]
    by (auto simp: rt_ringbuffer_space_len_def)
  moreover have "rb_contents ?rb1 @ [ch] =
      drop (Suc (length (rb_contents rb)) - buffer_size rb) (rb_contents rb @ [ch])"
    using advance_read_contents [OF inv k] data_len_le [OF inv] k
    by (auto simp: rt_ringbuffer_space_len_def)
  ultimately show ?thesis
    using advance_write_contents [OF inv1, of "[ch]" ?buf] cwritten_cell [OF w, of ch] frame
    by (auto simp: advance_write_def)
qed

lemma getchar_refines:
  assumes inv: "rb_inv rb"
  shows "\<exists>rb'. rt_ringbuffer_getchar rb =
      Some (case rb_contents rb of [] \<Rightarrow> (0, None, rb') | c # _ \<Rightarrow> (1, Some c, rb')) \<and>
    rb_inv rb' \<and> buffer_size rb' = buffer_size rb \<and> rb_contents rb' = tl (rb_contents rb)"
proof (cases "rt_ringbuffer_data_len rb = 0")
  case True
  then have "rb_contents rb = []" by (simp add: rb_contents_def)
  then show ?thesis using True inv by (simp add: rt_ringbuffer_getchar_def)
next
  case False
  then have one: "1 \<le> rt_ringbuffer_data_len rb" by simp
  have r: "read_index rb < length (buffer_ptr rb)" using inv by (simp add: rb_inv_def)
  have c: "rb_contents rb = buffer_ptr rb ! read_index rb # tl (rb_contents rb)"
    using one r by (cases "rt_ringbuffer_data_len rb") (simp_all add: rb_contents_def cview_Suc)
  have "rt_ringbuffer_getchar rb = Some (1, Some (buffer_ptr rb ! read_index rb), advance_read 1 rb)"
    using False inv r by (auto simp: rt_ringbuffer_getchar_def mem_get_Some advance_read_def rb_inv_def)
  moreover have "rb_contents (advance_read 1 rb) = tl (rb_contents rb)"
    using advance_read_contents [OF inv one] by (simp add: drop_Suc)
  moreover have "(case rb_contents rb of [] \<Rightarrow> (0::nat, None, advance_read 1 rb)
      | c # _ \<Rightarrow> (1, Some c, advance_read 1 rb)) =
      (1, Some (buffer_ptr rb ! read_index rb), advance_read 1 rb)"
    by (subst c) simp
  ultimately show ?thesis
    using advance_read_inv [OF inv one] by (intro exI [of _ "advance_read 1 rb"]) simp
qed

text \<open>
  \<^verbatim>\<open>peek\<close> hands out a pointer to the contiguous run of readable bytes and consumes that run:
  a prefix of the contents, the whole of it unless it wraps.
\<close>

lemma peek_refines:
  assumes inv: "rb_inv rb"
  obtains n rb' where
    "rt_ringbuffer_peek rb =
       (n, if rb_contents rb = [] then None else Some (read_index rb), rb')"
    and "rb_inv rb'" and "rb_contents rb' = drop n (rb_contents rb)"
    and "mem_read (buffer_ptr rb) (read_index rb) n = Some (take n (rb_contents rb))"
    and "rb_contents rb \<noteq> [] \<Longrightarrow> 0 < n"
proof -
  let ?d = "rt_ringbuffer_data_len rb" and ?r = "read_index rb" and ?bs = "buffer_size rb"
  let ?n = "min ?d (?bs - ?r)"
  have bs: "?bs = length (buffer_ptr rb)" "?r < ?bs" "?bs < 2 ^ 15" using inv by (simp_all add: rb_inv_def)
  have n: "?n \<le> ?d" by simp
  have "rt_ringbuffer_peek rb =
      (?n, if rb_contents rb = [] then None else Some ?r, advance_read ?n rb)"
  proof (cases "?d = 0")
    case True
    then have "rb_contents rb = []" by (simp add: rb_contents_def)
    then show ?thesis using True inv by (simp add: rt_ringbuffer_peek_def)
  next
    case False
    then have "rb_contents rb \<noteq> []" by (simp add: rb_contents_def flip: length_0_conv)
    then show ?thesis using False bs
      by (auto simp: rt_ringbuffer_peek_def advance_read_def min_def Let_def)
  qed
  moreover have "take ?n (rb_contents rb) = take ?n (drop ?r (buffer_ptr rb))"
    using bs by (simp add: rb_contents_def circular_simps cview_straight)
  moreover have "rb_contents rb \<noteq> [] \<Longrightarrow> 0 < ?n"
    using bs by (simp add: rb_contents_def flip: length_0_conv)
  ultimately show thesis
    using that [of ?n "advance_read ?n rb"] advance_read_inv [OF inv n]
      advance_read_contents [OF inv n] bs
    by (simp add: mem_read_def)
qed

lemma align_down_4: "RT_ALIGN_DOWN n RT_ALIGN_SIZE = n - n mod 4"
proof -
  have "NOT n AND take_bit 2 n = 0"
    by (rule bit_eqI) (auto simp: bit_simps)
  then have "n - take_bit 2 n = n AND NOT (take_bit 2 n)"
    by (rule disjunctive_diff_eq_and_not)
  also have "n AND NOT (take_bit 2 n) = n AND NOT (mask 2)"
    by (rule bit_eqI) (auto simp: bit_simps)
  finally have "n AND NOT (mask 2) = n - take_bit 2 n" by simp
  then show ?thesis
    by (simp add: RT_ALIGN_DOWN_def RT_ALIGN_SIZE_def mask_eq_exp_minus_1 take_bit_eq_mod)
qed

lemma init_empty:
  assumes "4 \<le> sz" "sz < 2 ^ 15" "nat sz \<le> length pool"
  shows "\<exists>rb. rt_ringbuffer_init pool sz = Some rb \<and> rb_inv rb \<and> rb_contents rb = [] \<and>
           buffer_size rb = nat (sz - sz mod 4)"
proof -
  have b: "nat (sz - sz mod 4) \<le> length pool" "0 < sz - sz mod 4" "nat (sz - sz mod 4) < 2 ^ 15"
    using assms by (simp_all add: pos_mod_bound; presburger)+
  then show ?thesis
    using assms
    by (auto simp: rt_ringbuffer_init_def align_down_4 Let_def mem_read_def rb_inv_def
        rb_contents_def rt_ringbuffer_data_len_def rt_ringbuffer_status_def)
qed

lemma reset_empty: "rb_inv rb \<Longrightarrow> rb_inv (rt_ringbuffer_reset rb) \<and> rb_contents (rt_ringbuffer_reset rb) = []"
  by (auto simp: rb_inv_def rt_ringbuffer_reset_def rb_contents_def rt_ringbuffer_data_len_def
      rt_ringbuffer_status_def)

section \<open>Refinement of a bounded byte queue\<close>

datatype rb_op =
    Put bytes nat | Put_force bytes nat | Get nat
  | Putchar u8 | Putchar_force u8 | Getchar | Reset

text \<open>
  One call on the implementation: its return value, the bytes handed to the caller, and the new
  buffer.
\<close>

fun rb_step :: "rt_ringbuffer \<Rightarrow> rb_op \<Rightarrow> ((nat \<times> bytes) \<times> rt_ringbuffer) option" where
  "rb_step rb (Put xs n) = map_option (\<lambda>(k, rb'). ((k, []), rb')) (rt_ringbuffer_put rb xs n)"
| "rb_step rb (Put_force xs n) = map_option (\<lambda>(k, rb'). ((k, []), rb')) (rt_ringbuffer_put_force rb xs n)"
| "rb_step rb (Get n) = map_option (\<lambda>(k, out, rb'). ((k, out), rb')) (rt_ringbuffer_get rb n)"
| "rb_step rb (Putchar c) = map_option (\<lambda>(k, rb'). ((k, []), rb')) (rt_ringbuffer_putchar rb c)"
| "rb_step rb (Putchar_force c) =
     map_option (\<lambda>(k, rb'). ((k, []), rb')) (rt_ringbuffer_putchar_force rb c)"
| "rb_step rb Getchar =
     map_option (\<lambda>(k, c, rb'). ((k, case c of None \<Rightarrow> [] | Some x \<Rightarrow> [x]), rb'))
       (rt_ringbuffer_getchar rb)"
| "rb_step rb Reset = Some ((0, []), rt_ringbuffer_reset rb)"

text \<open>The same call on the specification: a capacity and a list of bytes, oldest first.\<close>

fun queue_step :: "nat \<times> bytes \<Rightarrow> rb_op \<Rightarrow> (nat \<times> bytes) \<times> (nat \<times> bytes)" where
  "queue_step (cap, q) (Put xs n) =
     (let k = min n (cap - length q) in ((k, []), (cap, q @ take k xs)))"
| "queue_step (cap, q) (Put_force xs n) =
     ((min n cap, []), (cap, drop (length q + n - cap) (q @ take n xs)))"
| "queue_step (cap, q) (Get n) =
     (let k = min n (length q) in ((k, take k q), (cap, drop k q)))"
| "queue_step (cap, q) (Putchar c) =
     (if length q = cap then ((0, []), (cap, q)) else ((1, []), (cap, q @ [c])))"
| "queue_step (cap, q) (Putchar_force c) =
     ((1, []), (cap, drop (Suc (length q) - cap) (q @ [c])))"
| "queue_step (cap, q) Getchar =
     (case q of [] \<Rightarrow> ((0, []), (cap, [])) | c # cs \<Rightarrow> ((1, [c]), (cap, cs)))"
| "queue_step (cap, q) Reset = ((0, []), (cap, []))"

text \<open>The caller passes a source block at least as long as the length it announces.\<close>

fun rb_op_ok :: "rb_op \<Rightarrow> bool" where
  "rb_op_ok (Put xs n) = (n \<le> length xs)"
| "rb_op_ok (Put_force xs n) = (n \<le> length xs)"
| "rb_op_ok _ = True"

definition rb_abs :: "rt_ringbuffer \<Rightarrow> nat \<times> bytes" where
  "rb_abs rb = (buffer_size rb, rb_contents rb)"

lemma rb_step_simulates:
  assumes inv: "rb_inv rb" and "rb_op_ok x"
  shows "\<exists>out rb'. rb_step rb x = Some (out, rb') \<and> rb_inv rb' \<and>
           queue_step (rb_abs rb) x = (out, rb_abs rb')"
proof (cases x)
  case (Put xs n)
  then show ?thesis using assms put_refines [OF inv, of n xs]
    by (auto simp: rb_abs_def rt_ringbuffer_space_len_def Let_def)
next
  case (Put_force xs n)
  then show ?thesis using assms put_force_refines [OF inv, of n xs] by (auto simp: rb_abs_def)
next
  case (Get n)
  then show ?thesis using get_refines [OF inv, of n] by (auto simp: rb_abs_def Let_def)
next
  case (Putchar c)
  then show ?thesis using putchar_refines [OF inv, of c] by (auto simp: rb_abs_def)
next
  case (Putchar_force c)
  then show ?thesis using putchar_force_refines [OF inv, of c] by (auto simp: rb_abs_def)
next
  case Getchar
  then show ?thesis using getchar_refines [OF inv] by (auto simp: rb_abs_def split: list.splits)
next
  case Reset
  then show ?thesis using reset_empty [OF inv] by (auto simp: rb_abs_def rt_ringbuffer_reset_def)
qed

interpretation rbq: data_refinement rb_step queue_step rb_inv rb_abs rb_op_ok
  by unfold_locales (rule rb_step_simulates)

section \<open>Properties\<close>

text \<open>
  Property C15. The ring buffer refines a bounded byte queue: from a well-formed buffer, every
  sequence of calls (block and single-byte put, the overwriting variants, get, reset) runs
  without a failed assertion and without touching memory outside the pool, ends in a well-formed
  buffer, and returns, call by call, exactly the counts and bytes a first-in first-out queue of
  the same capacity returns.
\<close>

theorem ringbuffer_refines_queue:
  assumes "rb_inv rb" and "list_all rb_op_ok ops"
  shows "\<exists>outs rb'. run_impl rb_step rb ops = Some (outs, rb') \<and> rb_inv rb' \<and>
           run_spec queue_step (buffer_size rb, rb_contents rb) ops =
             (outs, (buffer_size rb', rb_contents rb'))"
  using rbq.run_refines [OF assms] by (simp add: rb_abs_def)

theorem ringbuffer_refines_queue_witness:
  defines "rb \<equiv> \<lparr>buffer_ptr = [0, 0, 0, 0], read_mirror = False, read_index = 0,
                  write_mirror = False, write_index = 0, buffer_size = 4\<rparr>"
  shows "rb_inv rb \<and>
    (\<exists>outs rb'. run_impl rb_step rb [Put [1, 2, 3] 3, Get 2, Put_force [4, 5, 6, 7] 4, Get 9] =
        Some (outs, rb') \<and> rb_inv rb' \<and>
      run_spec queue_step (4, []) [Put [1, 2, 3] 3, Get 2, Put_force [4, 5, 6, 7] 4, Get 9] =
        (outs, (buffer_size rb', rb_contents rb')))"
proof -
  have inv: "rb_inv rb" by (simp add: rb_inv_def rb_def)
  have c: "buffer_size rb = 4" "rb_contents rb = []"
    by (simp_all add: rb_def rb_contents_def rt_ringbuffer_data_len_def rt_ringbuffer_status_def)
  show ?thesis
    using ringbuffer_refines_queue [OF inv, of "[Put [1, 2, 3] 3, Get 2, Put_force [4, 5, 6, 7] 4, Get 9]"]
      inv unfolding c by simp
qed

text \<open>
  \<^verbatim>\<open>rt_ringbuffer_init\<close> with a usable size (at least one aligned unit, below the
  15-bit index range, and backed by a pool of that size) gives a well-formed empty buffer whose
  capacity is the size rounded down to the alignment.
\<close>

theorem ringbuffer_init_empty:
  assumes "4 \<le> sz" and "sz < 2 ^ 15" and "nat sz \<le> length pool"
  shows "\<exists>rb. rt_ringbuffer_init pool sz = Some rb \<and> rb_inv rb \<and> rb_contents rb = [] \<and>
           buffer_size rb = nat (sz - sz mod 4)"
  using assms by (rule init_empty)

theorem ringbuffer_init_empty_witness:
  "\<exists>rb. rt_ringbuffer_init [1, 2, 3, 4, 5, 6] 6 = Some rb \<and> rb_inv rb \<and> rb_contents rb = [] \<and>
        buffer_size rb = 4"
  using ringbuffer_init_empty [of 6 "[1, 2, 3, 4, 5, 6]"] by simp

text \<open>
  With both allocations successful, \<^verbatim>\<open>rt_ringbuffer_create\<close> does not return (it
  stops in an assertion) exactly for the sizes below one alignment unit and for the sizes from
  32768 on, whose conversion to the signed parameter of \<^verbatim>\<open>rt_ringbuffer_init\<close> is negative; for
  all other sizes it returns a well-formed empty buffer.
\<close>

theorem ringbuffer_create_range:
  assumes "unat sz \<le> length pool"
  shows "(rt_ringbuffer_create sz True (Some pool) = None \<longleftrightarrow> unat sz < 4 \<or> 2 ^ 15 \<le> unat sz) \<and>
    (\<forall>r. rt_ringbuffer_create sz True (Some pool) = Some r \<longrightarrow>
       (\<exists>rb. r = Some rb \<and> rb_inv rb \<and> rb_contents rb = []))"
proof -
  define a where "a = uint sz - uint sz mod 4"
  have "0 \<le> uint sz mod 4" "uint sz mod 4 < 4" "uint sz mod 4 \<le> uint sz" "uint sz < 2 ^ 16"
    using uint_lt2p [of sz] by (simp_all add: zmod_le_nonneg_dividend)
  then have a: "0 \<le> a" "a < 2 ^ 16" "a \<le> uint sz" "uint sz - a < 4"
    unfolding a_def by linarith+
  obtain k where k: "a = 4 * k" unfolding a_def minus_mod_eq_mult_div by blast
  note s = sint_of_u16 [OF a(1,2)]
  have c: "rt_ringbuffer_create sz True (Some pool) =
     (if sz = 0 then None else map_option Some (rt_ringbuffer_init pool (sint (word_of_int a :: u16))))"
    by (simp add: rt_ringbuffer_create_def align_down_4 Let_def word_gt_0 a_def)
  obtain v where v: "unat sz = v" and u: "uint sz = int v" by simp
  show ?thesis
  proof (cases "unat sz < 4 \<or> 2 ^ 15 \<le> unat sz")
    case True
    then have "a < 4 \<or> 2 ^ 15 - 4 < a" using a u unfolding v by auto
    then have "a = 0 \<or> 2 ^ 15 \<le> a" using a(1) k by auto
    then have "\<not> 0 < sint (word_of_int a :: u16)" using a(2) by (auto simp: s)
    then show ?thesis using True by (simp add: c rt_ringbuffer_init_def)
  next
    case False
    then have "0 < a" and f: "a < 2 ^ 15" "nat a \<le> length pool" "sz \<noteq> 0"
      using a u assms unfolding v by auto
    then have "4 \<le> a" using k by simp
    then show ?thesis using init_empty [of a pool] f False by (auto simp: c s)
  qed
qed

theorem ringbuffer_create_range_witness:
  "rt_ringbuffer_create 3 True (Some [0, 0, 0]) = None \<and> unat (3::u16) \<le> length [0, 0, 0 :: u8]"
  using ringbuffer_create_range [of 3 "[0, 0, 0]"] by simp

end
