(* ===== verification/RingBlock.thy ===== *)
theory RingBlock
  imports Prelude
begin

text \<open>
  The ring block buffer of the device drivers (\<^verbatim>\<open>components/drivers/ipc/ringblk_buf.c\<close>): blocks of different
  sizes in one circular memory, allocated at the tail, put by the producer, got by the consumer and freed in any
  order. A block is named by its index in the set of descriptors; \<^verbatim>\<open>buf\<close> pointers are offsets into the memory of
  the buffer, with the wrap-around of the address arithmetic. The theorems show that blocks never overlap for
  the sizes the code is meant for, that every refused allocation loses a descriptor, and that
  a block of size 0 breaks the layout.
\<close>

section \<open>Operations\<close>

datatype rt_rbb_status = RT_RBB_BLK_UNUSED | RT_RBB_BLK_INITED | RT_RBB_BLK_PUT | RT_RBB_BLK_GET

record rt_rbb_blk =
  blk_status :: rt_rbb_status
  blk_size :: u32
  blk_buf :: u32

text \<open>The lists hold the blocks in the order of their links; \<open>tail = None\<close> is the head of the list itself.\<close>

record rt_rbb =
  rbb_buf_size :: u32
  blk_set :: "nat \<Rightarrow> rt_rbb_blk"
  blk_max_num :: nat
  blk_list :: "nat list"
  rbb_tail :: "nat option"
  rbb_free_list :: "nat list"

record rt_rbb_blk_queue =
  blocks :: nat
  blk_num :: nat

definition upd_blk :: "nat \<Rightarrow> (rt_rbb_blk \<Rightarrow> rt_rbb_blk) \<Rightarrow> rt_rbb \<Rightarrow> rt_rbb" where
  "upd_blk i f r = r\<lparr>blk_set := (blk_set r)(i := f (blk_set r i))\<rparr>"

fun rbb_init_loop :: "nat \<Rightarrow> nat \<Rightarrow> rt_rbb \<Rightarrow> rt_rbb" where
  "rbb_init_loop i 0 r = r"
| "rbb_init_loop i (Suc n) r =
     rbb_init_loop (i + 1) n
       ((upd_blk i (\<lambda>b. b\<lparr>blk_status := RT_RBB_BLK_UNUSED\<rparr>) r)\<lparr>rbb_free_list := i # rbb_free_list r\<rparr>)"

text \<open>\<open>s\<close> is what the memory of the descriptors contains before.\<close>

definition rt_rbb_init :: "u32 \<Rightarrow> (nat \<Rightarrow> rt_rbb_blk) \<Rightarrow> nat \<Rightarrow> rt_rbb" where
  "rt_rbb_init buf_size s max_num =
     rbb_init_loop 0 max_num
       \<lparr>rbb_buf_size = buf_size, blk_set = s, blk_max_num = max_num, blk_list = [], rbb_tail = None, rbb_free_list = []\<rparr>"

text \<open>The three allocations of \<^verbatim>\<open>rt_rbb_create\<close>; each tells whether memory was found.\<close>

definition rt_rbb_create :: "u32 \<Rightarrow> nat \<Rightarrow> (nat \<Rightarrow> bool) \<Rightarrow> (nat \<Rightarrow> rt_rbb_blk) \<Rightarrow> rt_rbb option" where
  "rt_rbb_create buf_size max_num malloc_ok s =
     (if \<not> malloc_ok 0 then None else if \<not> malloc_ok 1 then None else if \<not> malloc_ok 2 then None
      else Some (rt_rbb_init buf_size s max_num))"

text \<open>The outer option is the assertion, the inner one the null pointer.\<close>

definition find_empty_blk_in_set :: "rt_rbb \<Rightarrow> (nat option \<times> rt_rbb) option" where
  "find_empty_blk_in_set r =
     (case rbb_free_list r of
        [] \<Rightarrow> Some (None, r)
      | i # rest \<Rightarrow>
          if blk_status (blk_set r i) = RT_RBB_BLK_UNUSED then Some (Some i, r\<lparr>rbb_free_list := rest\<rparr>) else None)"

text \<open>The node goes behind the tail, and it ends the list.\<close>

definition rbb_list_append :: "nat \<Rightarrow> rt_rbb \<Rightarrow> rt_rbb" where
  "rbb_list_append n r =
     r\<lparr>blk_list := (case rbb_tail r of None \<Rightarrow> [n] | Some t \<Rightarrow> takeWhile (\<lambda>i. i \<noteq> t) (blk_list r) @ [t, n]),
       rbb_tail := Some n\<rparr>"

text \<open>The loop of \<^verbatim>\<open>list_remove\<close>: the nodes without \<open>n\<close>, and the node before it (\<open>prev\<close> at the start).\<close>

fun remove_loop :: "nat option \<Rightarrow> nat \<Rightarrow> nat list \<Rightarrow> (nat list \<times> nat option) option" where
  "remove_loop prev n [] = None"
| "remove_loop prev n (i # is) =
     (if i = n then Some (is, prev) else map_option (\<lambda>(rest, p). (i # rest, p)) (remove_loop (Some i) n is))"

definition rbb_list_remove :: "nat \<Rightarrow> rt_rbb \<Rightarrow> rt_rbb" where
  "rbb_list_remove n r =
     (case remove_loop None n (blk_list r) of
        None \<Rightarrow> r
      | Some (rest, node) \<Rightarrow> r\<lparr>blk_list := rest, rbb_tail := (if rbb_tail r = Some n then node else rbb_tail r)\<rparr>)"

text \<open>Linking a new block and setting its fields, as in the four branches of \<^verbatim>\<open>rt_rbb_blk_alloc\<close>.\<close>

definition rbb_place :: "nat \<Rightarrow> u32 \<Rightarrow> u32 \<Rightarrow> rt_rbb \<Rightarrow> rt_rbb" where
  "rbb_place n at sz r =
     upd_blk n (\<lambda>b. b\<lparr>blk_status := RT_RBB_BLK_INITED, blk_buf := at, blk_size := sz\<rparr>) (rbb_list_append n r)"

definition rt_rbb_blk_alloc :: "u32 \<Rightarrow> rt_rbb \<Rightarrow> (nat option \<times> rt_rbb) option" where
  "rt_rbb_blk_alloc sz r =
     (if sz < 2 ^ 24 then
        do { (new, r1) \<leftarrow> find_empty_blk_in_set r;
             case new of
               None \<Rightarrow> Some (None, r1)
             | Some n \<Rightarrow>
                 (case (blk_list r1, rbb_tail r1) of
                    ([], _) \<Rightarrow> Some (Some n, rbb_place n 0 sz r1)
                  | (_, None) \<Rightarrow> None
                  | (h # _, Some t) \<Rightarrow>
                      let head = blk_set r1 h; tail = blk_set r1 t; tail_end = blk_buf tail + blk_size tail
                      in if blk_buf head \<le> blk_buf tail then
                           let empty1 = rbb_buf_size r1 - tail_end; empty2 = blk_buf head
                           in if empty1 \<ge> sz then Some (Some n, rbb_place n tail_end sz r1)
                              else if empty2 \<ge> sz then Some (Some n, rbb_place n 0 sz r1)
                              else Some (None, r1)
                         else
                           let empty1 = blk_buf head - tail_end
                           in if empty1 \<ge> sz then Some (Some n, rbb_place n tail_end sz r1) else Some (None, r1)) }
      else None)"

definition rt_rbb_blk_put :: "nat \<Rightarrow> rt_rbb \<Rightarrow> rt_rbb option" where
  "rt_rbb_blk_put i r =
     (if blk_status (blk_set r i) = RT_RBB_BLK_INITED then Some (upd_blk i (\<lambda>b. b\<lparr>blk_status := RT_RBB_BLK_PUT\<rparr>) r) else None)"

fun get_loop :: "nat list \<Rightarrow> rt_rbb \<Rightarrow> nat option \<times> rt_rbb" where
  "get_loop [] r = (None, r)"
| "get_loop (i # is) r =
     (if blk_status (blk_set r i) = RT_RBB_BLK_PUT then (Some i, upd_blk i (\<lambda>b. b\<lparr>blk_status := RT_RBB_BLK_GET\<rparr>) r)
      else get_loop is r)"

definition rt_rbb_blk_get :: "rt_rbb \<Rightarrow> nat option \<times> rt_rbb" where
  "rt_rbb_blk_get r = (if blk_list r = [] then (None, r) else get_loop (blk_list r) r)"

definition rt_rbb_blk_size :: "nat \<Rightarrow> rt_rbb \<Rightarrow> u32" where
  "rt_rbb_blk_size i r = blk_size (blk_set r i)"

definition rt_rbb_blk_buf :: "nat \<Rightarrow> rt_rbb \<Rightarrow> u32" where
  "rt_rbb_blk_buf i r = blk_buf (blk_set r i)"

definition rt_rbb_blk_free :: "nat \<Rightarrow> rt_rbb \<Rightarrow> rt_rbb option" where
  "rt_rbb_blk_free i r =
     (if blk_status (blk_set r i) \<noteq> RT_RBB_BLK_UNUSED then
        let r1 = upd_blk i (\<lambda>b. b\<lparr>blk_status := RT_RBB_BLK_UNUSED\<rparr>) (rbb_list_remove i r)
        in Some (r1\<lparr>rbb_free_list := i # rbb_free_list r1\<rparr>)
      else None)"

text \<open>
  The loop of \<^verbatim>\<open>rt_rbb_blk_queue_get\<close>. The advance \<^verbatim>\<open>node = tmp, tmp = rt_slist_next(node)\<close> behind the last
  node dereferences a null pointer, so only a \<^verbatim>\<open>break\<close> ends the loop properly. \<open>last_block\<close> is the last block
  taken; the queue is \<open>None\<close> until the first one.
\<close>

fun queue_get_loop ::
  "u32 \<Rightarrow> nat list \<Rightarrow> nat option \<Rightarrow> u32 \<Rightarrow> rt_rbb_blk_queue option \<Rightarrow> rt_rbb \<Rightarrow> (u32 \<times> rt_rbb_blk_queue option \<times> rt_rbb) option" where
  "queue_get_loop max_len [] last_block data_size q r = None"
| "queue_get_loop max_len (i # is) last_block data_size q r =
     (let taken = (\<lambda>q'. queue_get_loop max_len is (Some i) (data_size + blk_size (blk_set r i))
                          (Some (q'\<lparr>blk_num := blk_num q' + 1\<rparr>)) (upd_blk i (\<lambda>b. b\<lparr>blk_status := RT_RBB_BLK_GET\<rparr>) r))
      in case last_block of
           None \<Rightarrow>
             if blk_status (blk_set r i) = RT_RBB_BLK_PUT then taken \<lparr>blocks = i, blk_num = 0\<rparr>
             else queue_get_loop max_len is None data_size q r
         | Some l \<Rightarrow>
             if blk_status (blk_set r i) \<noteq> RT_RBB_BLK_PUT \<or> blk_buf (blk_set r l) > blk_buf (blk_set r i) \<or>
                data_size + blk_size (blk_set r i) > max_len
             then Some (data_size, q, r)
             else (case q of None \<Rightarrow> None | Some q' \<Rightarrow> taken q'))"

definition rt_rbb_blk_queue_get :: "u32 \<Rightarrow> rt_rbb \<Rightarrow> (u32 \<times> rt_rbb_blk_queue option \<times> rt_rbb) option" where
  "rt_rbb_blk_queue_get max_len r =
     (if blk_list r = [] then Some (0, None, r) else queue_get_loop max_len (blk_list r) None 0 None r)"

text \<open>The block behind \<open>i\<close> on the list; at the end the code has no block, which must not be used.\<close>

fun next_on :: "nat list \<Rightarrow> nat \<Rightarrow> nat option" where
  "next_on (i # j # is) n = (if i = n then Some j else next_on (j # is) n)"
| "next_on is n = None"

fun queue_len_loop :: "nat \<Rightarrow> nat option \<Rightarrow> u32 \<Rightarrow> rt_rbb \<Rightarrow> u32 option" where
  "queue_len_loop 0 blk data_size r = Some data_size"
| "queue_len_loop (Suc k) blk data_size r =
     do { i \<leftarrow> blk; queue_len_loop k (next_on (blk_list r) i) (data_size + blk_size (blk_set r i)) r }"

definition rt_rbb_blk_queue_len :: "rt_rbb_blk_queue \<Rightarrow> rt_rbb \<Rightarrow> u32 option" where
  "rt_rbb_blk_queue_len q r = queue_len_loop (blk_num q) (Some (blocks q)) 0 r"

definition rt_rbb_blk_queue_buf :: "rt_rbb_blk_queue \<Rightarrow> rt_rbb \<Rightarrow> u32" where
  "rt_rbb_blk_queue_buf q r = blk_buf (blk_set r (blocks q))"

fun queue_free_loop :: "nat \<Rightarrow> nat option \<Rightarrow> rt_rbb \<Rightarrow> rt_rbb option" where
  "queue_free_loop 0 blk r = Some r"
| "queue_free_loop (Suc k) blk r =
     do { i \<leftarrow> blk;
          let next_blk = next_on (blk_list r) i;
          r1 \<leftarrow> rt_rbb_blk_free i r;
          queue_free_loop k next_blk r1 }"

definition rt_rbb_blk_queue_free :: "rt_rbb_blk_queue \<Rightarrow> rt_rbb \<Rightarrow> rt_rbb option" where
  "rt_rbb_blk_queue_free q r = queue_free_loop (blk_num q) (Some (blocks q)) r"

fun next_queue_len_loop :: "nat list \<Rightarrow> nat option \<Rightarrow> u32 \<Rightarrow> rt_rbb \<Rightarrow> u32" where
  "next_queue_len_loop [] last_block len r = len"
| "next_queue_len_loop (i # is) last_block len r =
     (case last_block of
        None \<Rightarrow>
          if blk_status (blk_set r i) \<noteq> RT_RBB_BLK_PUT then next_queue_len_loop is None len r
          else next_queue_len_loop is (Some i) (len + blk_size (blk_set r i)) r
      | Some l \<Rightarrow>
          if blk_status (blk_set r i) \<noteq> RT_RBB_BLK_PUT \<or> blk_buf (blk_set r l) > blk_buf (blk_set r i) then len
          else next_queue_len_loop is (Some i) (len + blk_size (blk_set r i)) r)"

definition rt_rbb_next_blk_queue_len :: "rt_rbb \<Rightarrow> u32" where
  "rt_rbb_next_blk_queue_len r = (if blk_list r = [] then 0 else next_queue_len_loop (blk_list r) None 0 r)"

definition rt_rbb_get_buf_size :: "rt_rbb \<Rightarrow> u32" where
  "rt_rbb_get_buf_size r = rbb_buf_size r"

section \<open>Runs of blocks\<close>

text \<open>Blocks that follow each other between two offsets; \<open>s\<close> and \<open>e\<close> give where a block starts and ends.\<close>

fun blk_run :: "(nat \<Rightarrow> nat) \<Rightarrow> (nat \<Rightarrow> nat) \<Rightarrow> nat \<Rightarrow> nat list \<Rightarrow> nat \<Rightarrow> bool" where
  "blk_run s e lo [] hi \<longleftrightarrow> lo \<le> hi"
| "blk_run s e lo (i # is) hi \<longleftrightarrow> lo \<le> s i \<and> s i < e i \<and> blk_run s e (e i) is hi"

lemma run_weaken: "blk_run s e lo xs hi \<Longrightarrow> lo' \<le> lo \<Longrightarrow> hi \<le> hi' \<Longrightarrow> blk_run s e lo' xs hi'"
  by (induction xs arbitrary: lo lo') auto

lemma run_bounds: "blk_run s e lo xs hi \<Longrightarrow> lo \<le> hi \<and> (\<forall>i \<in> set xs. lo \<le> s i \<and> s i < e i \<and> e i \<le> hi)"
  by (induction xs arbitrary: lo) fastforce+

lemma run_cong:
  "(\<And>i. i \<in> set xs \<Longrightarrow> s i = s' i \<and> e i = e' i) \<Longrightarrow> blk_run s e lo xs hi = blk_run s' e' lo xs hi"
  by (induction xs arbitrary: lo) auto

lemma run_remove1: "blk_run s e lo xs hi \<Longrightarrow> blk_run s e lo (remove1 n xs) hi"
  by (induction xs arbitrary: lo) (auto intro: run_weaken)

lemma run_snoc:
  "blk_run s e lo (xs @ [n]) hi \<longleftrightarrow>
     blk_run s e lo xs (s n) \<and> s n < e n \<and> e n \<le> hi"
  by (induction xs arbitrary: lo) auto

lemma run_last: "blk_run s e lo xs hi \<Longrightarrow> xs \<noteq> [] \<Longrightarrow> blk_run s e lo xs (e (last xs))"
  by (induction xs arbitrary: lo) auto

lemma run_disjoint:
  "blk_run s e lo xs hi \<Longrightarrow> i \<in> set xs \<Longrightarrow> j \<in> set xs \<Longrightarrow> i \<noteq> j \<Longrightarrow> e i \<le> s j \<or> e j \<le> s i"
proof (induction xs arbitrary: lo)
  case (Cons k ks)
  then show ?case using run_bounds [of s e "e k" ks hi] by auto
qed simp

section \<open>Well-formed buffers\<close>

abbreviation blk_start :: "rt_rbb \<Rightarrow> nat \<Rightarrow> nat" where "blk_start r i \<equiv> unat (blk_buf (blk_set r i))"
abbreviation blk_end :: "rt_rbb \<Rightarrow> nat \<Rightarrow> nat" where "blk_end r i \<equiv> blk_start r i + unat (blk_size (blk_set r i))"

text \<open>
  The blocks form an upper run \<open>xs\<close> up to the end of the memory, and possibly, behind the turn, a lower run \<open>ys\<close>
  from the beginning of the memory to some \<open>m\<close> below the upper one.
\<close>

definition rbb_layout :: "rt_rbb \<Rightarrow> bool" where
  "rbb_layout r \<longleftrightarrow>
     (\<exists>xs ys m. blk_list r = xs @ ys \<and> (xs = [] \<longrightarrow> ys = []) \<and>
        blk_run (blk_start r) (blk_end r) m xs (unat (rbb_buf_size r)) \<and> blk_run (blk_start r) (blk_end r) 0 ys m)"

definition rbb_wf :: "rt_rbb \<Rightarrow> bool" where
  "rbb_wf r \<longleftrightarrow>
     distinct (blk_list r @ rbb_free_list r) \<and>
     rbb_tail r = (if blk_list r = [] then None else Some (last (blk_list r))) \<and>
     (\<forall>i \<in> set (rbb_free_list r). blk_status (blk_set r i) = RT_RBB_BLK_UNUSED) \<and>
     (\<forall>i \<in> set (blk_list r). blk_status (blk_set r i) \<noteq> RT_RBB_BLK_UNUSED) \<and> rbb_layout r"

lemma upd_blk_simps [simp]:
  "blk_set (upd_blk i f r) j = (if j = i then f (blk_set r i) else blk_set r j)"
  "blk_list (upd_blk i f r) = blk_list r" "rbb_tail (upd_blk i f r) = rbb_tail r"
  "rbb_free_list (upd_blk i f r) = rbb_free_list r" "rbb_buf_size (upd_blk i f r) = rbb_buf_size r"
  "blk_max_num (upd_blk i f r) = blk_max_num r"
  by (simp_all add: upd_blk_def)

lemma layoutI:
  "blk_list r = xs @ ys \<Longrightarrow> (xs = [] \<Longrightarrow> ys = []) \<Longrightarrow> blk_run (blk_start r) (blk_end r) m xs (unat (rbb_buf_size r)) \<Longrightarrow>
   blk_run (blk_start r) (blk_end r) 0 ys m \<Longrightarrow> rbb_layout r"
  by (auto simp: rbb_layout_def)

lemma layout_cong:
  assumes "rbb_layout r" and "blk_list r' = blk_list r" and "rbb_buf_size r' = rbb_buf_size r"
    and "\<And>i. i \<in> set (blk_list r) \<Longrightarrow> blk_buf (blk_set r' i) = blk_buf (blk_set r i) \<and> blk_size (blk_set r' i) = blk_size (blk_set r i)"
  shows "rbb_layout r'"
proof -
  obtain xs ys m where l: "blk_list r = xs @ ys" "xs = [] \<longrightarrow> ys = []"
      "blk_run (blk_start r) (blk_end r) m xs (unat (rbb_buf_size r))" "blk_run (blk_start r) (blk_end r) 0 ys m"
    using assms(1) by (auto simp: rbb_layout_def)
  have "blk_run (blk_start r') (blk_end r') lo zs hi = blk_run (blk_start r) (blk_end r) lo zs hi"
    if "set zs \<subseteq> set (blk_list r)" for lo zs hi
    by (rule run_cong) (use assms(4) that in auto)
  then show ?thesis using l assms(2,3) by (intro layoutI [of r' xs ys m]) auto
qed

text \<open>The blocks of a layout are inside the memory and pairwise disjoint.\<close>

lemma layout_disjoint:
  assumes "rbb_layout r" and "i \<in> set (blk_list r)"
  shows "blk_end r i \<le> unat (rbb_buf_size r)"
    and "j \<in> set (blk_list r) \<Longrightarrow> i \<noteq> j \<Longrightarrow> blk_end r i \<le> blk_start r j \<or> blk_end r j \<le> blk_start r i"
proof -
  obtain xs ys m where l: "blk_list r = xs @ ys"
      "blk_run (blk_start r) (blk_end r) m xs (unat (rbb_buf_size r))" "blk_run (blk_start r) (blk_end r) 0 ys m"
    using assms(1) by (auto simp: rbb_layout_def)
  note b = run_bounds [OF l(2)] run_bounds [OF l(3)]
  show "blk_end r i \<le> unat (rbb_buf_size r)" using b assms(2) l(1) by fastforce
  have "blk_end r y \<le> blk_start r x" if "x \<in> set xs" "y \<in> set ys" for x y
    using b that by (meson le_trans)
  then show "j \<in> set (blk_list r) \<Longrightarrow> i \<noteq> j \<Longrightarrow> blk_end r i \<le> blk_start r j \<or> blk_end r j \<le> blk_start r i"
    using run_disjoint [OF l(2), of i j] run_disjoint [OF l(3), of i j] assms(2) l(1) by auto
qed

section \<open>Every operation keeps the buffer well formed\<close>

lemma remove1_eq_Nil: "remove1 n xs = [] \<longleftrightarrow> xs = [] \<or> xs = [n]"
  by (cases xs) auto

lemma remove_loop_ok:
  "distinct xs \<Longrightarrow> n \<in> set xs \<Longrightarrow>
   \<exists>node. remove_loop prev n xs = Some (remove1 n xs, node) \<and>
     (n = last xs \<longrightarrow> node = (if remove1 n xs = [] then prev else Some (last (remove1 n xs))))"
proof (induction xs arbitrary: prev)
  case (Cons i xs)
  show ?case
  proof (cases "i = n")
    case True
    then show ?thesis using Cons.prems by (cases xs) auto
  next
    case False
    then obtain node where "remove_loop (Some i) n xs = Some (remove1 n xs, node)"
        "n = last xs \<longrightarrow> node = (if remove1 n xs = [] then Some i else Some (last (remove1 n xs)))"
      using Cons.IH [of "Some i"] Cons.prems by auto
    then show ?thesis using False Cons.prems by auto
  qed
qed simp

lemma layout_remove:
  assumes "rbb_layout r" and "blk_list r' = remove1 n (blk_list r)" and "rbb_buf_size r' = rbb_buf_size r"
    and "distinct (blk_list r)"
    and "\<And>i. i \<noteq> n \<Longrightarrow> blk_set r' i = blk_set r i"
  shows "rbb_layout r'"
proof -
  obtain xs ys m where l: "blk_list r = xs @ ys" "xs = [] \<longrightarrow> ys = []"
      "blk_run (blk_start r) (blk_end r) m xs (unat (rbb_buf_size r))" "blk_run (blk_start r) (blk_end r) 0 ys m"
    using assms(1) by (auto simp: rbb_layout_def)
  have d: "distinct xs" "distinct ys" "set xs \<inter> set ys = {}" using assms(4) l(1) by auto
  have split: "remove1 n (xs @ ys) = remove1 n xs @ remove1 n ys"
    using d(3) by (metis remove1_append remove1_idem disjoint_iff)
  have r: "blk_run (blk_start r') (blk_end r') lo (remove1 n zs) hi" if "blk_run (blk_start r) (blk_end r) lo zs hi" "distinct zs" for lo zs hi
    using run_remove1 [OF that(1), of n] that(2) assms(5)
      run_cong [of "remove1 n zs" "blk_start r" "blk_start r'" "blk_end r" "blk_end r'" lo hi] by auto
  note rx = r [OF l(3) d(1)] and ry = r [OF l(4) d(2)]
  show ?thesis
  proof (cases "remove1 n xs = []")
    case True
    have "m \<le> unat (rbb_buf_size r)" using run_bounds [OF l(3)] by simp
    then have "blk_run (blk_start r') (blk_end r') 0 (remove1 n ys) (unat (rbb_buf_size r'))"
      using run_weaken [OF ry order_refl] assms(3) by simp
    then show ?thesis using assms(2) l(1) split True by (intro layoutI [of r' "remove1 n ys" "[]" 0]) auto
  next
    case False
    then show ?thesis using assms(2,3) l(1) split rx ry by (intro layoutI [of r' "remove1 n xs" "remove1 n ys" m]) auto
  qed
qed

lemma free_wf:
  assumes "rbb_wf r" and "i \<in> set (blk_list r)"
  shows "\<exists>r'. rt_rbb_blk_free i r = Some r' \<and> rbb_wf r' \<and> blk_list r' = remove1 i (blk_list r) \<and>
    rbb_free_list r' = i # rbb_free_list r \<and> rbb_buf_size r' = rbb_buf_size r"
proof -
  have d: "distinct (blk_list r)" "distinct (blk_list r @ rbb_free_list r)" using assms(1) by (auto simp: rbb_wf_def)
  obtain node where node: "remove_loop None i (blk_list r) = Some (remove1 i (blk_list r), node)"
      "i = last (blk_list r) \<longrightarrow> node = (if remove1 i (blk_list r) = [] then None else Some (last (remove1 i (blk_list r))))"
    using remove_loop_ok [OF d(1) assms(2)] by blast
  have last: "last (remove1 i xs) = last xs" if "i \<noteq> last xs" "i \<in> set xs" for xs :: "nat list"
    using that by (induction xs) (auto simp: remove1_eq_Nil split: if_splits)
  define r' where "r' = (upd_blk i (\<lambda>b. b\<lparr>blk_status := RT_RBB_BLK_UNUSED\<rparr>) (rbb_list_remove i r))\<lparr>rbb_free_list := i # rbb_free_list r\<rparr>"
  have st: "blk_status (blk_set r i) \<noteq> RT_RBB_BLK_UNUSED" using assms by (auto simp: rbb_wf_def)
  have f: "rt_rbb_blk_free i r = Some r'"
    using st node(1) by (simp add: rt_rbb_blk_free_def r'_def rbb_list_remove_def Let_def)
  have r': "blk_list r' = remove1 i (blk_list r)" "rbb_free_list r' = i # rbb_free_list r" "rbb_buf_size r' = rbb_buf_size r"
      "\<And>j. j \<noteq> i \<Longrightarrow> blk_set r' j = blk_set r j" "blk_status (blk_set r' i) = RT_RBB_BLK_UNUSED"
      "rbb_tail r' = (if rbb_tail r = Some i then node else rbb_tail r)"
    using node(1) by (simp_all add: r'_def rbb_list_remove_def)
  have lay: "rbb_layout r'" by (rule layout_remove [OF _ r'(1,3) d(1) r'(4)]) (use assms(1) in \<open>simp_all add: rbb_wf_def\<close>)
  have tail: "rbb_tail r' = (if blk_list r' = [] then None else Some (last (blk_list r')))"
  proof (cases "i = last (blk_list r)")
    case True
    then show ?thesis using assms node(2) r'(1,6) by (auto simp: rbb_wf_def)
  next
    case False
    then have "blk_list r' \<noteq> []" using assms(2) r'(1) by (cases "blk_list r") (auto simp: remove1_eq_Nil split: if_splits)
    then show ?thesis using False last [OF False assms(2)] assms r'(1,6) by (auto simp: rbb_wf_def)
  qed
  have "blk_status (blk_set r' j) = RT_RBB_BLK_UNUSED" if "j \<in> set (rbb_free_list r')" for j
    using that assms r'(2,4,5) by (cases "j = i") (auto simp: rbb_wf_def)
  then have "rbb_wf r'"
    using assms d(2) r'(1-5) lay tail by (auto simp: rbb_wf_def set_remove1_eq [OF d(1)])
  then show ?thesis using f r'(1-3) by blast
qed

lemma list_append_tail:
  assumes "distinct (blk_list r)" and "rbb_tail r = (if blk_list r = [] then None else Some (last (blk_list r)))"
  shows "blk_list (rbb_list_append n r) = blk_list r @ [n]"
proof (cases "blk_list r" rule: rev_cases)
  case (snoc xs t)
  then have "t \<notin> set xs" using assms(1) by simp
  then have "takeWhile (\<lambda>i. i \<noteq> t) (xs @ [t]) = xs" by (induction xs) auto
  then show ?thesis using snoc assms(2) by (simp add: rbb_list_append_def)
qed (use assms(2) in \<open>simp add: rbb_list_append_def\<close>)

lemma place_fields:
  assumes "rbb_wf r"
  shows "blk_list (rbb_place n at sz (r\<lparr>rbb_free_list := rest\<rparr>)) = blk_list r @ [n]"
    and "rbb_tail (rbb_place n at sz (r\<lparr>rbb_free_list := rest\<rparr>)) = Some n"
    and "rbb_free_list (rbb_place n at sz (r\<lparr>rbb_free_list := rest\<rparr>)) = rest"
    and "rbb_buf_size (rbb_place n at sz (r\<lparr>rbb_free_list := rest\<rparr>)) = rbb_buf_size r"
    and "blk_set (rbb_place n at sz (r\<lparr>rbb_free_list := rest\<rparr>)) =
      (blk_set r)(n := (blk_set r n)\<lparr>blk_status := RT_RBB_BLK_INITED, blk_buf := at, blk_size := sz\<rparr>)"
proof -
  show "blk_list (rbb_place n at sz (r\<lparr>rbb_free_list := rest\<rparr>)) = blk_list r @ [n]"
    using list_append_tail [of "r\<lparr>rbb_free_list := rest\<rparr>" n] assms by (simp add: rbb_place_def rbb_wf_def)
qed (auto simp: rbb_place_def rbb_list_append_def fun_eq_iff)

text \<open>Placing a free block behind the others, in the upper or in the lower run.\<close>

lemma place_wf:
  assumes wf: "rbb_wf r" and free: "rbb_free_list r = n # rest" and split: "blk_list r = xs @ ys"
    and room: "blk_run (blk_start r) (blk_end r) m xs hi" "blk_run (blk_start r) (blk_end r) 0 ys lo"
    and at: "0 < sz" "unat at + unat sz \<le> (if up then unat (rbb_buf_size r) else m)"
      "(if up then ys = [] \<and> hi = unat at else xs \<noteq> [] \<and> hi = unat (rbb_buf_size r) \<and> lo = unat at)"
    and low: "up \<longrightarrow> lo = m"
  shows "rbb_wf (rbb_place n at sz (r\<lparr>rbb_free_list := rest\<rparr>))"
proof -
  let ?r = "rbb_place n at sz (r\<lparr>rbb_free_list := rest\<rparr>)"
  have n: "n \<notin> set (blk_list r)" "n \<notin> set rest" using wf free by (auto simp: rbb_wf_def)
  note l = place_fields(1) [OF wf, of n at sz rest] and s = place_fields(2-) [OF wf, of n at sz rest]
  have run: "blk_run (blk_start ?r) (blk_end ?r) a zs b = blk_run (blk_start r) (blk_end r) a zs b" if "set zs \<subseteq> set (blk_list r)" for a zs b
    by (rule run_cong) (use n(1) that in \<open>auto simp: s\<close>)
  have new: "blk_buf (blk_set ?r n) = at" "blk_size (blk_set ?r n) = sz" by (simp_all add: s)
  have pos: "0 < unat sz" using at(1) by (simp add: word_less_nat_alt)
  have "rbb_layout ?r"
  proof (cases up)
    case True
    then have "blk_run (blk_start ?r) (blk_end ?r) m (xs @ [n]) (unat (rbb_buf_size ?r))"
      using room(1) at run [of xs m "unat at"] split pos by (simp add: run_snoc new s(3))
    moreover have "0 \<le> m" by simp
    ultimately show ?thesis using True at(3) split l by (intro layoutI [of ?r "xs @ [n]" "[]" m]) auto
  next
    case False
    then have "blk_run (blk_start ?r) (blk_end ?r) 0 (ys @ [n]) m"
      using room(2) at run [of ys 0 "unat at"] split pos by (simp add: run_snoc new)
    moreover have "blk_run (blk_start ?r) (blk_end ?r) m xs (unat (rbb_buf_size ?r))"
      using False room(1) at(3) run [of xs] split by (simp add: s(3))
    ultimately show ?thesis using False at(3) split l by (intro layoutI [of ?r xs "ys @ [n]" m]) auto
  qed
  then show ?thesis using wf free n l by (auto simp: rbb_wf_def s)
qed

text \<open>What an allocation does: it appends a free block of the given size, or it drops the free block.\<close>

definition alloc_post :: "u32 \<Rightarrow> rt_rbb \<Rightarrow> nat option \<Rightarrow> rt_rbb \<Rightarrow> bool" where
  "alloc_post sz r res r' \<longleftrightarrow>
     rbb_wf r' \<and> rbb_buf_size r' = rbb_buf_size r \<and> rbb_free_list r' = tl (rbb_free_list r) \<and>
     (case res of None \<Rightarrow> blk_list r' = blk_list r
      | Some n \<Rightarrow> rbb_free_list r \<noteq> [] \<and> n = hd (rbb_free_list r) \<and> blk_list r' = blk_list r @ [n] \<and> blk_size (blk_set r' n) = sz)"

lemma place_post:
  assumes "rbb_wf r" and "rbb_free_list r = n # rest" and "rbb_wf (rbb_place n at sz (r\<lparr>rbb_free_list := rest\<rparr>))"
  shows "alloc_post sz r (Some n) (rbb_place n at sz (r\<lparr>rbb_free_list := rest\<rparr>))"
  using assms(2,3) by (simp add: alloc_post_def place_fields [OF assms(1)])

lemma drop_post:
  assumes "rbb_wf r" and "rbb_free_list r = n # rest"
  shows "alloc_post sz r None (r\<lparr>rbb_free_list := rest\<rparr>)"
proof -
  have lay: "rbb_layout r" using assms(1) by (simp add: rbb_wf_def)
  have "rbb_layout (r\<lparr>rbb_free_list := rest\<rparr>)" by (rule layout_cong [OF lay]) simp_all
  then have "rbb_wf (r\<lparr>rbb_free_list := rest\<rparr>)" using assms by (simp add: rbb_wf_def)
  then show ?thesis using assms(2) by (simp add: alloc_post_def)
qed

lemma unat_room:
  assumes "a + b \<le> unat (c :: u32)" and "unat (x :: u32) = a" and "unat (y :: u32) = b"
  shows "unat (x + y) = a + b" and "(z \<le> c - (x + y)) = (a + b + unat z \<le> unat c)"
proof -
  have l: "unat x + unat y < 2 ^ 32" using assms unsigned_less [of c, where 'a = nat] by simp
  show s: "unat (x + y) = a + b" using l assms by (simp add: unat_plus_if_size word_size)
  then have "x + y \<le> c" using assms(1) by (simp add: word_le_nat_alt)
  then have "unat (c - (x + y)) = unat c - (a + b)" using s by (simp add: unat_sub)
  then show "(z \<le> c - (x + y)) = (a + b + unat z \<le> unat c)" using assms(1) by (auto simp: word_le_nat_alt)
qed

lemma alloc_ok:
  assumes wf: "rbb_wf r" and sz: "0 < sz" "sz \<le> rbb_buf_size r" "sz < 2 ^ 24"
  shows "\<exists>res r'. rt_rbb_blk_alloc sz r = Some (res, r') \<and> alloc_post sz r res r'"
proof (cases "rbb_free_list r")
  case Nil
  then show ?thesis using wf sz(3) by (simp add: rt_rbb_blk_alloc_def find_empty_blk_in_set_def alloc_post_def)
next
  case (Cons n rest)
  let ?r = "r\<lparr>rbb_free_list := rest\<rparr>"
  have find: "find_empty_blk_in_set r = Some (Some n, ?r)"
    using wf Cons by (simp add: find_empty_blk_in_set_def rbb_wf_def)
  note place = place_post [OF wf Cons] and fail = drop_post [OF wf Cons]
  obtain xs ys m where l: "blk_list r = xs @ ys" "xs = [] \<longrightarrow> ys = []"
      "blk_run (blk_start r) (blk_end r) m xs (unat (rbb_buf_size r))" "blk_run (blk_start r) (blk_end r) 0 ys m"
    using wf by (auto simp: rbb_wf_def rbb_layout_def)
  show ?thesis
  proof (cases xs)
    case Nil
    have "rbb_wf (rbb_place n 0 sz ?r)"
      by (rule place_wf [OF wf Cons l(1), where m = 0 and hi = 0 and lo = 0 and up = True])
        (use sz l Nil in \<open>auto simp: word_le_nat_alt\<close>)
    then show ?thesis
      using place find sz(3) l Nil by (simp add: rt_rbb_blk_alloc_def)
  next
    case (Cons h hs)
    define t where "t = last (blk_list r)"
    have tail: "rbb_tail r = Some t" using wf l(1) Cons by (simp add: rbb_wf_def t_def)
    have lr: "blk_list r = h # hs @ ys" using l(1) Cons by simp
    have mh: "m \<le> blk_start r h" using l(3) Cons by simp
    have xh: "blk_run (blk_start r) (blk_end r) (blk_start r h) xs (unat (rbb_buf_size r))" using l(3) Cons by simp
    show ?thesis
    proof (cases "ys = []")
      case True
      have tx: "t = last xs" "t \<in> set xs" using Cons l(1) True by (simp_all add: t_def)
      have up: "blk_run (blk_start r) (blk_end r) (blk_start r h) xs (blk_end r t)" using run_last [OF xh] Cons tx(1) by simp
      have e: "blk_end r t \<le> unat (rbb_buf_size r)" "blk_start r h \<le> blk_start r t" using run_bounds [OF xh] tx(2) by auto
      note u = unat_room [OF e(1) refl refl]
      have "rbb_wf (rbb_place n (blk_buf (blk_set r t) + blk_size (blk_set r t)) sz ?r)"
        if "sz \<le> rbb_buf_size r - (blk_buf (blk_set r t) + blk_size (blk_set r t))"
        by (rule place_wf [OF wf \<open>rbb_free_list r = n # rest\<close> l(1) up, where lo = "blk_start r h" and up = True])
          (use that u True sz(1) in auto)
      moreover have "rbb_wf (rbb_place n 0 sz ?r)" if "sz \<le> blk_buf (blk_set r h)"
        by (rule place_wf [OF wf \<open>rbb_free_list r = n # rest\<close> l(1) xh, where lo = 0 and up = False])
          (use that True sz(1) Cons in \<open>auto simp: word_le_nat_alt\<close>)
      ultimately show ?thesis
        using find sz(3) lr tail e(2) place fail
        by (simp add: rt_rbb_blk_alloc_def Let_def word_le_nat_alt [of "blk_buf (blk_set r h)" "blk_buf (blk_set r t)"])
    next
      case False
      have ty: "t = last ys" "t \<in> set ys" using False l(1) by (simp_all add: t_def)
      have lo: "blk_run (blk_start r) (blk_end r) 0 ys (blk_end r t)" using run_last [OF l(4) False] ty(1) by simp
      have e: "blk_end r t \<le> blk_start r h" "blk_start r t < blk_end r t" using run_bounds [OF l(4)] ty(2) mh by auto
      note u = unat_room [OF e(1) refl refl]
      have "rbb_wf (rbb_place n (blk_buf (blk_set r t) + blk_size (blk_set r t)) sz ?r)"
        if "sz \<le> blk_buf (blk_set r h) - (blk_buf (blk_set r t) + blk_size (blk_set r t))"
        by (rule place_wf [OF wf \<open>rbb_free_list r = n # rest\<close> l(1) xh lo, where up = False])
          (use that u sz(1) Cons in auto)
      moreover have "\<not> blk_buf (blk_set r h) \<le> blk_buf (blk_set r t)" using e by (simp add: word_le_nat_alt)
      ultimately show ?thesis
        using find sz(3) lr tail place fail by (simp add: rt_rbb_blk_alloc_def Let_def)
    qed
  qed
qed

lemma status_wf:
  assumes "rbb_wf r" and "i \<in> set (blk_list r)" and "st \<noteq> RT_RBB_BLK_UNUSED"
  shows "rbb_wf (upd_blk i (\<lambda>b. b\<lparr>blk_status := st\<rparr>) r)"
proof -
  have "rbb_layout r" "i \<notin> set (rbb_free_list r)" using assms by (auto simp: rbb_wf_def)
  moreover from this(1) have "rbb_layout (upd_blk i (\<lambda>b. b\<lparr>blk_status := st\<rparr>) r)" by (rule layout_cong) simp_all
  ultimately show ?thesis using assms by (auto simp: rbb_wf_def)
qed

lemma get_loop_find:
  "get_loop is r = (case find (\<lambda>i. blk_status (blk_set r i) = RT_RBB_BLK_PUT) is of None \<Rightarrow> (None, r)
     | Some i \<Rightarrow> (Some i, upd_blk i (\<lambda>b. b\<lparr>blk_status := RT_RBB_BLK_GET\<rparr>) r))"
  by (induction "is") auto

text \<open>\<^verbatim>\<open>rt_rbb_blk_get\<close> takes the oldest block that was put.\<close>

lemma get_oldest:
  "rt_rbb_blk_get r = (case find (\<lambda>i. blk_status (blk_set r i) = RT_RBB_BLK_PUT) (blk_list r) of None \<Rightarrow> (None, r)
     | Some i \<Rightarrow> (Some i, upd_blk i (\<lambda>b. b\<lparr>blk_status := RT_RBB_BLK_GET\<rparr>) r))"
  by (simp add: rt_rbb_blk_get_def get_loop_find)

lemma get_wf:
  assumes "rbb_wf r" and "rt_rbb_blk_get r = (res, r')"
  shows "rbb_wf r' \<and> blk_list r' = blk_list r \<and> rbb_free_list r' = rbb_free_list r \<and> rbb_buf_size r' = rbb_buf_size r"
  using assms status_wf [OF assms(1), of _ RT_RBB_BLK_GET] by (auto simp: get_oldest find_Some_iff split: option.splits)

lemma put_wf:
  assumes "rbb_wf r" and "i \<in> set (blk_list r)" and "rt_rbb_blk_put i r = Some r'"
  shows "rbb_wf r' \<and> blk_list r' = blk_list r \<and> rbb_free_list r' = rbb_free_list r \<and> rbb_buf_size r' = rbb_buf_size r"
  using assms status_wf [OF assms(1,2), of RT_RBB_BLK_PUT] by (auto simp: rt_rbb_blk_put_def split: if_splits)

lemma init_loop_ok:
  "rbb_free_list (rbb_init_loop i n r) = rev [i..<i + n] @ rbb_free_list r"
  "blk_list (rbb_init_loop i n r) = blk_list r" "rbb_tail (rbb_init_loop i n r) = rbb_tail r"
  "rbb_buf_size (rbb_init_loop i n r) = rbb_buf_size r"
  "blk_status (blk_set (rbb_init_loop i n r) j) = (if i \<le> j \<and> j < i + n then RT_RBB_BLK_UNUSED else blk_status (blk_set r j))"
  by (induction n arbitrary: i r) (auto simp: upt_conv_Cons simp del: upt_Suc)

lemma init_wf:
  "rbb_wf (rt_rbb_init bs s n)" "blk_list (rt_rbb_init bs s n) = []" "length (rbb_free_list (rt_rbb_init bs s n)) = n"
  "rbb_buf_size (rt_rbb_init bs s n) = bs"
  by (auto simp: rt_rbb_init_def rbb_wf_def init_loop_ok rbb_layout_def)

text \<open>
  \<^verbatim>\<open>rt_rbb_blk_queue_get\<close> runs off the end of a list without a block that was put: behind the last node it
  dereferences a null pointer.
\<close>

lemma queue_get_runs_off:
  assumes "blk_list r \<noteq> []" and "\<forall>i \<in> set (blk_list r). blk_status (blk_set r i) \<noteq> RT_RBB_BLK_PUT"
  shows "rt_rbb_blk_queue_get len r = None"
proof -
  have "queue_get_loop len is None t q r = None" if "\<forall>i \<in> set is. blk_status (blk_set r i) \<noteq> RT_RBB_BLK_PUT" for "is" t q
    using that by (induction "is") auto
  then show ?thesis using assms by (simp add: rt_rbb_blk_queue_get_def)
qed

section \<open>Runs of the buffer\<close>

text \<open>
  What producer and consumer do with a buffer of \<open>n\<close> descriptors: blocks of a positive size up to that of the
  memory, put and free of blocks that are in use. The last argument counts the allocations that found a
  descriptor and no room.
\<close>

inductive rbb_run :: "u32 \<Rightarrow> (nat \<Rightarrow> rt_rbb_blk) \<Rightarrow> nat \<Rightarrow> rt_rbb \<Rightarrow> nat \<Rightarrow> bool" for bs s n where
  rbb_run_init: "rbb_run bs s n (rt_rbb_init bs s n) 0"
| rbb_run_alloc: "rbb_run bs s n r k \<Longrightarrow> 0 < sz \<Longrightarrow> sz \<le> bs \<Longrightarrow> sz < 2 ^ 24 \<Longrightarrow> rt_rbb_blk_alloc sz r = Some (res, r') \<Longrightarrow>
    rbb_run bs s n r' (if res = None \<and> rbb_free_list r \<noteq> [] then k + 1 else k)"
| rbb_run_put: "rbb_run bs s n r k \<Longrightarrow> i \<in> set (blk_list r) \<Longrightarrow> rt_rbb_blk_put i r = Some r' \<Longrightarrow> rbb_run bs s n r' k"
| rbb_run_get: "rbb_run bs s n r k \<Longrightarrow> rt_rbb_blk_get r = (res, r') \<Longrightarrow> rbb_run bs s n r' k"
| rbb_run_free: "rbb_run bs s n r k \<Longrightarrow> i \<in> set (blk_list r) \<Longrightarrow> rt_rbb_blk_free i r = Some r' \<Longrightarrow> rbb_run bs s n r' k"

lemma rbb_run_inv:
  "rbb_run bs s n r k \<Longrightarrow>
   rbb_wf r \<and> rbb_buf_size r = bs \<and> length (blk_list r) + length (rbb_free_list r) + k = n"
proof (induction rule: rbb_run.induct)
  case rbb_run_init
  then show ?case by (simp add: init_wf)
next
  case (rbb_run_alloc r k sz res r')
  then have "alloc_post sz r res r'" using alloc_ok [of r sz] by auto
  then show ?case
    using rbb_run_alloc.IH by (cases "rbb_free_list r") (auto simp: alloc_post_def split: option.splits)
next
  case (rbb_run_put r k i r')
  then show ?case using put_wf [of r i r'] by simp
next
  case (rbb_run_get r k res r')
  then show ?case using get_wf [of r res r'] by simp
next
  case (rbb_run_free r k i r')
  then obtain "rbb_wf r'" "blk_list r' = remove1 i (blk_list r)" "rbb_free_list r' = i # rbb_free_list r" "rbb_buf_size r' = rbb_buf_size r"
    using free_wf [of r i] by auto
  moreover have "length (remove1 i (blk_list r)) + 1 = length (blk_list r)"
    using rbb_run_free.hyps(2) length_pos_if_in_set [of i "blk_list r"] by (simp add: length_remove1)
  ultimately show ?case using rbb_run_free.IH by simp
qed

section \<open>Properties\<close>

text \<open>
  Property C30. Blocks of the ring block buffer never overlap: in every run of allocations, puts, gets and frees in
  any order, where the size of every allocation is positive, at most the size of the buffer and below 2^24, the blocks in
  use lie inside the memory and are pairwise disjoint, an allocation of such a size returns (no assertion fails) and what
  it hands out is a block of the requested size that was not in use, and freeing a block in use succeeds. Other sizes
  are not refused by the code, see \<open>rbb_unchecked_sizes\<close>.
\<close>

theorem rbb_blocks_disjoint:
  assumes "rbb_run bs s n r k"
  shows "(\<forall>i \<in> set (blk_list r). blk_end r i \<le> unat bs \<and>
       (\<forall>j \<in> set (blk_list r). i \<noteq> j \<longrightarrow> blk_end r i \<le> blk_start r j \<or> blk_end r j \<le> blk_start r i)) \<and>
    (\<forall>sz. 0 < sz \<and> sz \<le> bs \<and> sz < 2 ^ 24 \<longrightarrow> (\<exists>res r'. rt_rbb_blk_alloc sz r = Some (res, r') \<and>
       (\<forall>i. res = Some i \<longrightarrow> i \<notin> set (blk_list r) \<and> blk_list r' = blk_list r @ [i] \<and> rt_rbb_blk_size i r' = sz))) \<and>
    (\<forall>i \<in> set (blk_list r). \<exists>r'. rt_rbb_blk_free i r = Some r' \<and> i \<notin> set (blk_list r'))"
proof (intro conjI ballI allI impI)
  have wf: "rbb_wf r" "rbb_buf_size r = bs" using rbb_run_inv [OF assms] by auto
  then have lay: "rbb_layout r" "distinct (blk_list r)" by (auto simp: rbb_wf_def)
  show "blk_end r i \<le> unat bs" if "i \<in> set (blk_list r)" for i using layout_disjoint(1) [OF lay(1) that] wf(2) by simp
  show "blk_end r i \<le> blk_start r j \<or> blk_end r j \<le> blk_start r i"
    if "i \<in> set (blk_list r)" "j \<in> set (blk_list r)" "i \<noteq> j" for i j
    using layout_disjoint(2) [OF lay(1) that] .
  show "\<exists>res r'. rt_rbb_blk_alloc sz r = Some (res, r') \<and>
      (\<forall>i. res = Some i \<longrightarrow> i \<notin> set (blk_list r) \<and> blk_list r' = blk_list r @ [i] \<and> rt_rbb_blk_size i r' = sz)"
    if sz: "0 < sz \<and> sz \<le> bs \<and> sz < 2 ^ 24" for sz
  proof -
    obtain res r' where a: "rt_rbb_blk_alloc sz r = Some (res, r')" "alloc_post sz r res r'"
      using alloc_ok [OF wf(1), of sz] sz wf(2) by auto
    then have "\<forall>i. res = Some i \<longrightarrow> i \<notin> set (blk_list r) \<and> blk_list r' = blk_list r @ [i] \<and> rt_rbb_blk_size i r' = sz"
      by (auto simp: alloc_post_def rbb_wf_def rt_rbb_blk_size_def)
    then show ?thesis using a(1) by blast
  qed
  show "\<exists>r'. rt_rbb_blk_free i r = Some r' \<and> i \<notin> set (blk_list r')" if "i \<in> set (blk_list r)" for i
    using free_wf [OF wf(1) that] lay(2) by auto
qed

definition demo_blks :: "nat \<Rightarrow> rt_rbb_blk" where
  "demo_blks i = \<lparr>blk_status = RT_RBB_BLK_UNUSED, blk_size = 0, blk_buf = 0\<rparr>"

text \<open>A buffer of 10 bytes: blocks of 4 and 4 bytes, the first is freed, and a block of 3 bytes turns around.\<close>

definition demo_state :: "u32 \<Rightarrow> rt_rbb \<Rightarrow> rt_rbb" where
  "demo_state sz r = snd (the (rt_rbb_blk_alloc sz r))"

definition demo_two :: rt_rbb where
  "demo_two = demo_state 4 (demo_state 4 (rt_rbb_init 10 demo_blks 4))"

definition demo_rbb :: rt_rbb where
  "demo_rbb = demo_state 3 (the (rt_rbb_blk_free 3 demo_two))"

lemma demo_alloc: "map_option fst (rt_rbb_blk_alloc sz r) = Some b \<Longrightarrow> rt_rbb_blk_alloc sz r = Some (b, demo_state sz r)"
  by (cases "rt_rbb_blk_alloc sz r") (auto simp: demo_state_def)

lemma demo_rbb_run: "rbb_run 10 demo_blks 4 demo_rbb 0"
proof -
  have a: "rt_rbb_blk_alloc 4 (rt_rbb_init 10 demo_blks 4) = Some (Some 3, demo_state 4 (rt_rbb_init 10 demo_blks 4))"
    by (rule demo_alloc) code_simp
  have b: "rt_rbb_blk_alloc 4 (demo_state 4 (rt_rbb_init 10 demo_blks 4)) = Some (Some 2, demo_two)"
    unfolding demo_two_def by (rule demo_alloc) code_simp
  have c: "rt_rbb_blk_alloc 3 (the (rt_rbb_blk_free 3 demo_two)) = Some (Some 3, demo_rbb)"
    unfolding demo_rbb_def by (rule demo_alloc) code_simp
  have two: "rbb_run 10 demo_blks 4 demo_two 0"
    using rbb_run_alloc [OF rbb_run_alloc [OF rbb_run_init _ _ _ a] _ _ _ b] by simp
  have "3 \<in> set (blk_list demo_two)" by code_simp
  moreover have "rt_rbb_blk_free 3 demo_two = Some (the (rt_rbb_blk_free 3 demo_two))"
    using free_wf [of demo_two 3] rbb_run_inv [OF two] calculation by auto
  ultimately show ?thesis
    using rbb_run_alloc [OF rbb_run_free [OF two] _ _ _ c] by simp
qed

theorem rbb_blocks_disjoint_witness:
  "blk_list demo_rbb = [2, 3] \<and>
    (\<exists>res r'. rt_rbb_blk_alloc 2 demo_rbb = Some (res, r') \<and> (\<forall>i. res = Some i \<longrightarrow> i \<notin> set (blk_list demo_rbb)))"
proof -
  have l: "blk_list demo_rbb = [2, 3]" by code_simp
  have "0 < (2 :: u32) \<and> (2 :: u32) \<le> 10 \<and> (2 :: u32) < 2 ^ 24" by simp
  then obtain res r' where "rt_rbb_blk_alloc 2 demo_rbb = Some (res, r')" "\<forall>i. res = Some i \<longrightarrow> i \<notin> set (blk_list demo_rbb)"
    using rbb_blocks_disjoint [OF demo_rbb_run] by blast
  then show ?thesis using l by blast
qed

text \<open>
  A refused allocation loses a descriptor: in every run, the descriptors in use and those
  on the free list number \<open>n\<close> less the allocations refused for lack of room, so that after \<open>n\<close> refusals every
  allocation fails for ever, although no block is in use.
\<close>

theorem rbb_refusals_lose_descriptors:
  assumes "rbb_run bs s n r k"
  shows "length (blk_list r) + length (rbb_free_list r) + k = n \<and>
    (k = n \<and> sz < 2 ^ 24 \<longrightarrow> blk_list r = [] \<and> rt_rbb_blk_alloc sz r = Some (None, r))"
  using rbb_run_inv [OF assms] by (auto simp: rt_rbb_blk_alloc_def find_empty_blk_in_set_def)

text \<open>Two refusals of a buffer with three descriptors, whose block is then freed.\<close>

definition full_rbb :: rt_rbb where
  "full_rbb = demo_state 8 (demo_state 8 (demo_state 8 (rt_rbb_init 10 demo_blks 3)))"

lemma full_rbb_run: "rbb_run 10 demo_blks 3 full_rbb 2"
proof -
  let ?a = "demo_state 8 (rt_rbb_init 10 demo_blks 3)"
  have a: "rt_rbb_blk_alloc 8 (rt_rbb_init 10 demo_blks 3) = Some (Some 2, ?a)" by (rule demo_alloc) code_simp
  have b: "rt_rbb_blk_alloc 8 ?a = Some (None, demo_state 8 ?a)" by (rule demo_alloc) code_simp
  have c: "rt_rbb_blk_alloc 8 (demo_state 8 ?a) = Some (None, full_rbb)" unfolding full_rbb_def by (rule demo_alloc) code_simp
  have f: "rbb_free_list ?a \<noteq> []" "rbb_free_list (demo_state 8 ?a) \<noteq> []" by code_simp+
  have "rbb_run 10 demo_blks 3 full_rbb (Suc (Suc 0))"
    using rbb_run_alloc [OF rbb_run_alloc [OF rbb_run_alloc [OF rbb_run_init _ _ _ a] _ _ _ b] _ _ _ c] f by simp
  then show ?thesis by (simp only: numeral_2_eq_2)
qed

theorem rbb_refusals_lose_descriptors_witness:
  "length (blk_list full_rbb) + length (rbb_free_list full_rbb) + 2 = 3"
  using rbb_refusals_lose_descriptors [OF full_rbb_run] by blast

text \<open>A block of size 0 behind the turn, then one of size 2.\<close>

definition zero_rbb :: rt_rbb where
  "zero_rbb = demo_state 2 (demo_state 0 (demo_state 4 (the (rt_rbb_blk_free 3 demo_two))))"

text \<open>
  Sizes that \<^verbatim>\<open>rt_rbb_blk_alloc\<close> does not check: an empty buffer hands out a block of any size below
  2^24, also one larger than its memory; and a block of size 0 that ends where the oldest block starts makes the
  next allocation overlap the oldest block (here 4 bytes at offset 4 in a memory of 10 bytes).
\<close>

theorem rbb_unchecked_sizes:
  "(rbb_wf r \<and> blk_list r = [] \<and> rbb_free_list r \<noteq> [] \<and> sz < 2 ^ 24 \<longrightarrow>
      (\<exists>i r'. rt_rbb_blk_alloc sz r = Some (Some i, r') \<and> blk_end r' i = unat sz)) \<and>
   blk_list zero_rbb = [2, 3, 1, 0] \<and> blk_start zero_rbb 2 = 4 \<and> blk_end zero_rbb 2 = 8 \<and>
   blk_start zero_rbb 0 = 4 \<and> blk_end zero_rbb 0 = 6"
proof (intro conjI impI)
  assume a: "rbb_wf r \<and> blk_list r = [] \<and> rbb_free_list r \<noteq> [] \<and> sz < 2 ^ 24"
  then obtain n rest where n: "rbb_free_list r = n # rest" by (cases "rbb_free_list r") auto
  then have "rt_rbb_blk_alloc sz r = Some (Some n, rbb_place n 0 sz (r\<lparr>rbb_free_list := rest\<rparr>))"
    using a by (simp add: rt_rbb_blk_alloc_def find_empty_blk_in_set_def rbb_wf_def)
  then show "\<exists>i r'. rt_rbb_blk_alloc sz r = Some (Some i, r') \<and> blk_end r' i = unat sz"
    using a by (simp add: place_fields)
next
  show "blk_list zero_rbb = [2, 3, 1, 0]" "blk_start zero_rbb 2 = 4" "blk_end zero_rbb 2 = 8"
    "blk_start zero_rbb 0 = 4" "blk_end zero_rbb 0 = 6" by code_simp+
qed

theorem rbb_unchecked_sizes_witness:
  "\<exists>i r'. rt_rbb_blk_alloc 100 (rt_rbb_init 10 demo_blks 4) = Some (Some i, r') \<and> blk_end r' i = unat (100 :: u32)"
proof -
  have "rbb_free_list (rt_rbb_init 10 demo_blks 4) \<noteq> []" by code_simp
  then show ?thesis using rbb_unchecked_sizes [of "rt_rbb_init 10 demo_blks 4" 100] init_wf(1,2) [of 10 demo_blks 4] by simp
qed

end
