(* ===== verification/MqttPacket.thy ===== *)
theory MqttPacket
  imports Prelude "HOL-Library.Signed_Division"
begin

text \<open>
  The primitives of the MQTT packet codec (\<^verbatim>\<open>kawaii-mqtt-latest/mqtt/MQTTPacket.c\<close> and
  \<^verbatim>\<open>MQTTPacket.h\<close>): the variable-length remaining length, two-byte integers, length-delimited
  strings and the header byte. A C buffer is a byte list and a pointer into it an index; a read
  or write outside the buffer is \<open>None\<close>. C \<^verbatim>\<open>int\<close> values are integers (lengths of objects in
  memory, far below the overflow range), conversions to \<^verbatim>\<open>unsigned char\<close> wrap. The writers are
  characterised by the bytes they emit (\<open>emits\<close>), which is what the serializers of the packet
  types are built from; the reader of the remaining length is verified once for every byte
  source in the locale \<open>byte_source\<close>, which the buffer reader interprets.
\<close>

section \<open>Data\<close>

text \<open>
  A C string is the list of its characters, implicitly followed by the terminating zero; a null
  pointer is \<open>None\<close>.
\<close>

record MQTTString =
  cstring :: "bytes option"
  lenstring_len :: int
  lenstring_data :: "bytes option"

definition MQTTString_initializer :: MQTTString where
  "MQTTString_initializer = \<lparr>cstring = None, lenstring_len = 0, lenstring_data = None\<rparr>"

definition MQTTPACKET_BUFFER_TOO_SHORT :: int where
  "MQTTPACKET_BUFFER_TOO_SHORT = -2"

definition MQTTPACKET_READ_ERROR :: int where
  "MQTTPACKET_READ_ERROR = -1"

text \<open>\<^verbatim>\<open>enum msgTypes\<close>: the packet type nibble.\<close>

definition CONNECT :: u8 where "CONNECT = 1"
definition CONNACK :: u8 where "CONNACK = 2"
definition PUBLISH :: u8 where "PUBLISH = 3"
definition PUBACK :: u8 where "PUBACK = 4"
definition PUBREC :: u8 where "PUBREC = 5"
definition PUBREL :: u8 where "PUBREL = 6"
definition PUBCOMP :: u8 where "PUBCOMP = 7"
definition SUBSCRIBE :: u8 where "SUBSCRIBE = 8"
definition SUBACK :: u8 where "SUBACK = 9"
definition UNSUBSCRIBE :: u8 where "UNSUBSCRIBE = 10"
definition UNSUBACK :: u8 where "UNSUBACK = 11"
definition PINGREQ :: u8 where "PINGREQ = 12"
definition PINGRESP :: u8 where "PINGRESP = 13"
definition DISCONNECT :: u8 where "DISCONNECT = 14"

lemmas msgTypes_defs = CONNECT_def CONNACK_def PUBLISH_def PUBACK_def PUBREC_def PUBREL_def
  PUBCOMP_def SUBSCRIBE_def SUBACK_def UNSUBSCRIBE_def UNSUBACK_def PINGREQ_def PINGRESP_def
  DISCONNECT_def

text \<open>
  The bit-fields of \<^verbatim>\<open>MQTTHeader\<close>: retain (bit 0), qos (bits 1 and 2), dup (bit 3), type (bits 4
  to 7). Assigning to a bit-field keeps its low bits.
\<close>

definition MQTTHeader :: "u8 \<Rightarrow> u8 \<Rightarrow> u8 \<Rightarrow> u8 \<Rightarrow> u8" where
  "MQTTHeader type dup qos retain =
     push_bit 4 (take_bit 4 type) OR push_bit 3 (take_bit 1 dup) OR
     push_bit 1 (take_bit 2 qos) OR take_bit 1 retain"

definition header_type :: "u8 \<Rightarrow> u8" where
  "header_type b = take_bit 4 (drop_bit 4 b)"

definition header_dup :: "u8 \<Rightarrow> u8" where
  "header_dup b = take_bit 1 (drop_bit 3 b)"

definition header_qos :: "u8 \<Rightarrow> u8" where
  "header_qos b = take_bit 2 (drop_bit 1 b)"

definition header_retain :: "u8 \<Rightarrow> u8" where
  "header_retain b = take_bit 1 b"

section \<open>Operations\<close>

definition strlen :: "bytes \<Rightarrow> nat" where
  "strlen s = length (takeWhile (\<lambda>c. c \<noteq> 0) s)"

text \<open>
  \<^verbatim>\<open>MQTTPacket_encode\<close>: the do-while loop over the base-128 digits. The result is the number of
  bytes written from \<open>p\<close> on and the buffer.
\<close>

function encode_loop :: "int \<Rightarrow> nat \<Rightarrow> bytes \<Rightarrow> nat \<Rightarrow> (nat \<times> bytes) option" where
  "encode_loop len rc buf p =
     (let d = word_of_int (len smod 128) :: u8;
          len' = len sdiv 128;
          d' = (if len' > 0 then d OR 0x80 else d)
      in do { buf' \<leftarrow> mem_put buf (p + rc) d';
              if len' > 0 then encode_loop len' (rc + 1) buf' p else Some (rc + 1, buf') })"
  by pat_completeness auto
termination
  by (relation "measure (\<lambda>(len, rc, buf, p). nat len)")
    (auto simp: signed_divide_int_def sgn_if split: if_splits)

definition MQTTPacket_encode :: "int \<Rightarrow> bytes \<Rightarrow> nat \<Rightarrow> (nat \<times> bytes) option" where
  "MQTTPacket_encode len buf p = encode_loop len 0 buf p"

definition MAX_NO_OF_REMAINING_LENGTH_BYTES :: nat where
  "MAX_NO_OF_REMAINING_LENGTH_BYTES = 4"

text \<open>
  \<^verbatim>\<open>MQTTPacket_decode\<close>: the byte source is a function that returns its result code, the byte it
  stored, and its next state. The result is the number of bytes asked for and the value.
\<close>

function decode_loop ::
  "('s \<Rightarrow> (int \<times> u8 \<times> 's) option) \<Rightarrow> nat \<Rightarrow> int \<Rightarrow> int \<Rightarrow> 's \<Rightarrow> (nat \<times> int \<times> 's) option" where
  "decode_loop getcharfn len multiplier val s =
     (if len + 1 > MAX_NO_OF_REMAINING_LENGTH_BYTES then Some (len + 1, val, s)
      else do { (rc, c, s') \<leftarrow> getcharfn s;
                if rc \<noteq> 1 then Some (len + 1, val, s')
                else let val' = val + uint (c AND 127) * multiplier
                     in if c AND 128 \<noteq> 0
                        then decode_loop getcharfn (len + 1) (multiplier * 128) val' s'
                        else Some (len + 1, val', s') })"
  by pat_completeness auto
termination
  by (relation "measure (\<lambda>(g, len, m, v, s). MAX_NO_OF_REMAINING_LENGTH_BYTES - len)") auto

definition MQTTPacket_decode ::
  "('s \<Rightarrow> (int \<times> u8 \<times> 's) option) \<Rightarrow> 's \<Rightarrow> (nat \<times> int \<times> 's) option" where
  "MQTTPacket_decode getcharfn s = decode_loop getcharfn 0 1 0 s"

definition MQTTPacket_len :: "int \<Rightarrow> int" where
  "MQTTPacket_len rem_len0 =
     (let rem_len = rem_len0 + 1
      in if rem_len < 128 then rem_len + 1
         else if rem_len < 16384 then rem_len + 2
         else if rem_len < 2097151 then rem_len + 3
         else rem_len + 4)"

text \<open>\<^verbatim>\<open>bufchar\<close> for a count of 1: the global \<^verbatim>\<open>bufptr\<close> is the buffer and an index into it.\<close>

definition bufchar :: "bytes \<times> nat \<Rightarrow> (int \<times> u8 \<times> (bytes \<times> nat)) option" where
  "bufchar s = (case s of (buf, p) \<Rightarrow> map_option (\<lambda>c. (1, c, (buf, p + 1))) (mem_get buf p))"

definition MQTTPacket_decodeBuf :: "bytes \<Rightarrow> nat \<Rightarrow> (nat \<times> int) option" where
  "MQTTPacket_decodeBuf buf p =
     map_option (\<lambda>(len, val, _). (len, val)) (MQTTPacket_decode bufchar (buf, p))"

definition readInt :: "bytes \<Rightarrow> nat \<Rightarrow> (int \<times> nat) option" where
  "readInt buf p =
     do { a \<leftarrow> mem_get buf p; b \<leftarrow> mem_get buf (p + 1);
          Some (256 * uint a + uint b, p + 2) }"

definition readChar :: "bytes \<Rightarrow> nat \<Rightarrow> (u8 \<times> nat) option" where
  "readChar buf p = map_option (\<lambda>c. (c, p + 1)) (mem_get buf p)"

definition writeChar :: "u8 \<Rightarrow> bytes \<times> nat \<Rightarrow> (bytes \<times> nat) option" where
  "writeChar c = (\<lambda>(buf, p). map_option (\<lambda>b. (b, p + 1)) (mem_put buf p c))"

definition writeInt :: "int \<Rightarrow> bytes \<times> nat \<Rightarrow> (bytes \<times> nat) option" where
  "writeInt anInt cur =
     do { cur \<leftarrow> writeChar (word_of_int (anInt sdiv 256)) cur;
          writeChar (word_of_int (anInt smod 256)) cur }"

text \<open>\<^verbatim>\<open>memcpy(*pptr, data, len); *pptr += len\<close>.\<close>

definition writeBlock :: "bytes \<Rightarrow> bytes \<times> nat \<Rightarrow> (bytes \<times> nat) option" where
  "writeBlock xs = (\<lambda>(buf, p). map_option (\<lambda>b. (b, p + length xs)) (mem_write buf p xs))"

definition writeCString :: "bytes \<Rightarrow> bytes \<times> nat \<Rightarrow> (bytes \<times> nat) option" where
  "writeCString str cur =
     (let len = strlen str in
      do { cur \<leftarrow> writeInt (int len) cur; writeBlock (take len str) cur })"

definition getLenStringLen :: "bytes \<Rightarrow> int option" where
  "getLenStringLen ptr =
     do { a \<leftarrow> mem_get ptr 0; b \<leftarrow> mem_get ptr 1; Some (256 * uint a + uint b) }"

definition writeMQTTString :: "MQTTString \<Rightarrow> bytes \<times> nat \<Rightarrow> (bytes \<times> nat) option" where
  "writeMQTTString ms cur =
     (if lenstring_len ms > 0 then
        do { cur \<leftarrow> writeInt (lenstring_len ms) cur;
             dat \<leftarrow> lenstring_data ms;
             src \<leftarrow> mem_read dat 0 (nat (lenstring_len ms));
             writeBlock src cur }
      else case cstring ms of
          Some str \<Rightarrow> writeCString str cur
        | None \<Rightarrow> writeInt 0 cur)"

text \<open>The string read is the \<open>len\<close> bytes that \<^verbatim>\<open>lenstring.data\<close> points to.\<close>

definition readMQTTLenString ::
  "MQTTString \<Rightarrow> bytes \<Rightarrow> nat \<Rightarrow> int \<Rightarrow> (int \<times> MQTTString \<times> nat) option" where
  "readMQTTLenString ms buf p enddata =
     (if enddata - int p > 1 then
        do { (len, p') \<leftarrow> readInt buf p;
             let ms1 = ms\<lparr>lenstring_len := len, cstring := None\<rparr> in
             if int p' + len \<le> enddata then
               Some (1, ms1\<lparr>lenstring_data := Some (take (nat len) (drop p' buf))\<rparr>, p' + nat len)
             else Some (0, ms1, p') }
      else Some (0, ms\<lparr>cstring := None\<rparr>, p))"

definition MQTTstrlen :: "MQTTString \<Rightarrow> int" where
  "MQTTstrlen ms =
     (case cstring ms of Some str \<Rightarrow> int (strlen str) | None \<Rightarrow> lenstring_len ms)"

text \<open>\<^verbatim>\<open>strncmp(a, b, n) == 0\<close>: equal up to \<open>n\<close> characters or a common terminating zero.\<close>

fun strncmp_eq :: "bytes \<Rightarrow> bytes \<Rightarrow> nat \<Rightarrow> bool" where
  "strncmp_eq a b 0 = True"
| "strncmp_eq a b (Suc n) =
     (let x = (case a of [] \<Rightarrow> 0 | c # _ \<Rightarrow> c); y = (case b of [] \<Rightarrow> 0 | c # _ \<Rightarrow> c)
      in x = y \<and> (x = 0 \<or> strncmp_eq (tl a) (tl b) n))"

definition MQTTPacket_equals :: "MQTTString \<Rightarrow> bytes \<Rightarrow> bool" where
  "MQTTPacket_equals a bptr =
     (let (aptr, alen) = (case cstring a of
              Some str \<Rightarrow> (str, int (strlen str))
            | None \<Rightarrow> (case lenstring_data a of Some d \<Rightarrow> d | None \<Rightarrow> [], lenstring_len a));
          blen = int (strlen bptr)
      in alen = blen \<and> strncmp_eq aptr bptr (nat alen))"

text \<open>\<^verbatim>\<open>ptr += MQTTPacket_encode(ptr, len)\<close>, as every serializer writes it.\<close>

definition writeRemLen :: "int \<Rightarrow> bytes \<times> nat \<Rightarrow> (bytes \<times> nat) option" where
  "writeRemLen len = (\<lambda>(buf, p). map_option (\<lambda>(n, b). (b, p + n)) (MQTTPacket_encode len buf p))"

text \<open>\<^verbatim>\<open>rc = ptr - buf\<close> at the end of a serializer.\<close>

definition serialized :: "(bytes \<times> nat) option \<Rightarrow> (int \<times> bytes) option" where
  "serialized cur = map_option (\<lambda>(buf, p). (int p, buf)) cur"

declare encode_loop.simps [simp del] decode_loop.simps [simp del]

section \<open>What the primitives put on the wire\<close>

text \<open>The wire formats of MQTT 3.1.1: remaining length, two-byte integer, string.\<close>

fun enc :: "nat \<Rightarrow> bytes" where
  "enc n = (if n < 128 then [of_nat n] else of_nat (n mod 128 + 128) # enc (n div 128))"

definition enc16 :: "nat \<Rightarrow> bytes" where
  "enc16 n = [of_nat (n div 256), of_nat (n mod 256)]"

definition enc_str :: "bytes \<Rightarrow> bytes" where
  "enc_str s = enc16 (length s) @ s"

declare enc.simps [simp del]

lemma length_enc16 [simp]: "length (enc16 n) = 2"
  by (simp add: enc16_def)

lemma length_enc_str [simp]: "length (enc_str s) = length s + 2"
  by (simp add: enc_str_def)

text \<open>A writer that writes the bytes \<open>xs\<close> at the cursor and moves the cursor behind them.\<close>

definition emits :: "(bytes \<times> nat \<Rightarrow> (bytes \<times> nat) option) \<Rightarrow> bytes \<Rightarrow> bool" where
  "emits w xs \<longleftrightarrow> (\<forall>buf p. p \<le> length buf \<longrightarrow>
     w (buf, p) = map_option (\<lambda>b. (b, p + length xs)) (mem_write buf p xs))"

named_theorems emission "what each writer emits"

lemma mem_write_append:
  "mem_write buf p (xs @ ys) = mem_write buf p xs \<bind> (\<lambda>b. mem_write b (p + length xs) ys)"
  by (auto simp: mem_write_def bind_eq_Some_conv add_ac)

lemma mem_write_single: "mem_write buf p [c] = mem_put buf p c"
  by (simp add: mem_write_def mem_put_def upd_conv_take_nth_drop Suc_le_eq)

lemma emits_bind [emission]:
  assumes "emits w xs" and "emits w' ys"
  shows "emits (\<lambda>cur. w cur \<bind> w') (xs @ ys)"
  unfolding emits_def
proof (intro allI impI)
  fix buf :: bytes and p
  assume p: "p \<le> length buf"
  show "w (buf, p) \<bind> w' = map_option (\<lambda>b. (b, p + length (xs @ ys))) (mem_write buf p (xs @ ys))"
  proof (cases "mem_write buf p xs")
    case None
    then show ?thesis using assms(1) p by (simp add: emits_def mem_write_append)
  next
    case (Some b)
    then have "p + length xs \<le> length b"
      by (auto simp: mem_write_def split: if_splits)
    then show ?thesis using assms p Some
      by (simp add: emits_def mem_write_append add.assoc)
  qed
qed

lemma emits_Some [emission]: "emits Some []"
  by (simp add: emits_def mem_write_def)

lemma emits_if [emission]:
  assumes "b \<Longrightarrow> emits w xs" and "\<not> b \<Longrightarrow> emits w' ys"
  shows "emits (\<lambda>cur. if b then w cur else w' cur) (if b then xs else ys)"
  using assms by (cases b) simp_all

lemma emits_writeBlock [emission]: "emits (writeBlock xs) xs"
  by (simp add: emits_def writeBlock_def)

lemma emits_writeChar [emission]: "emits (writeChar c) [c]"
  by (simp add: emits_def writeChar_def mem_write_single)

lemma emits_writeInt [emission]:
  shows "emits (writeInt (int n)) (enc16 n)"
proof -
  have "int n sdiv 256 = int (n div 256)" and "int n smod 256 = int (n mod 256)"
    by (simp_all add: signed_divide_int_def signed_modulo_int_def sgn_if zdiv_int zmod_int)
  moreover have "emits (\<lambda>cur. writeChar (of_nat (n div 256)) cur \<bind> writeChar (of_nat (n mod 256)))
      ([of_nat (n div 256)] @ [of_nat (n mod 256)])"
    by (intro emission)
  ultimately show ?thesis
    by (simp add: writeInt_def [abs_def] enc16_def)
qed

lemma emits_writeInt_u16 [emission]: "emits (writeInt (uint (i :: u16))) (enc16 (unat i))"
  unfolding uint_nat by (rule emits_writeInt)

lemma encode_step:
  "encode_loop (int n) rc buf p =
     (if n < 128 then map_option (\<lambda>b. (rc + 1, b)) (mem_put buf (p + rc) (of_nat n))
      else mem_put buf (p + rc) (of_nat (n mod 128 + 128)) \<bind>
             (\<lambda>b. encode_loop (int (n div 128)) (rc + 1) b p))"
proof -
  have q: "int n sdiv 128 = int (n div 128)" and r: "int n smod 128 = int (n mod 128)"
    by (simp_all add: signed_divide_int_def signed_modulo_int_def sgn_if zdiv_int zmod_int)
  have "of_nat m OR (0x80::u8) = of_nat (m + 128)" if "m < 128" for m
  proof -
    have "m \<in> set [0..<128]" using that by simp
    moreover have "\<forall>m \<in> set [0..<128]. of_nat m OR (0x80::u8) = of_nat (m + 128)"
      by code_simp
    ultimately show ?thesis by blast
  qed
  then have d: "of_nat (n mod 128) OR (0x80::u8) = of_nat (n mod 128 + 128)" by simp
  have pos: "0 < int (n div 128) \<longleftrightarrow> \<not> n < 128"
    by (simp add: div_greater_zero_iff not_less)
  show ?thesis
  proof (cases "n < 128")
    case True
    then show ?thesis
      by (subst encode_loop.simps) (simp add: q r Let_def map_option_case split: option.splits)
  next
    case False
    then show ?thesis
      by (subst encode_loop.simps) (simp only: q r Let_def pos if_True if_False not_False_eq_True of_int_of_nat_eq d)
  qed
qed

lemma encode_loop_writes:
  "p + rc \<le> length buf \<Longrightarrow> encode_loop (int n) rc buf p =
     map_option (\<lambda>b. (rc + length (enc n), b)) (mem_write buf (p + rc) (enc n))"
proof (induction n arbitrary: rc buf rule: enc.induct)
  case (1 n)
  show ?case
  proof (cases "n < 128")
    case True
    then show ?thesis by (simp add: encode_step enc.simps [of n] mem_write_single)
  next
    case False
    have split: "mem_write buf (p + rc) (enc n) =
        mem_put buf (p + rc) (of_nat (n mod 128 + 128)) \<bind> (\<lambda>b. mem_write b (p + (rc + 1)) (enc (n div 128)))"
      using mem_write_append [of buf "p + rc" "[of_nat (n mod 128 + 128)]" "enc (n div 128)"] False
      by (simp add: enc.simps [of n] mem_write_single add.assoc)
    show ?thesis
    proof (cases "p + rc < length buf")
      case True
      let ?b = "buf[p + rc := of_nat (n mod 128 + 128)]"
      have "encode_loop (int (n div 128)) (rc + 1) ?b p =
          map_option (\<lambda>b. (rc + 1 + length (enc (n div 128)), b))
            (mem_write ?b (p + (rc + 1)) (enc (n div 128)))"
        using 1(1) [OF False, of "rc + 1" ?b] True by simp
      moreover have "length (enc n) = Suc (length (enc (n div 128)))"
        using False by (simp add: enc.simps [of n])
      ultimately show ?thesis
        using True False by (simp add: encode_step [of n] split mem_put_def)
    next
      case out: False
      then show ?thesis using False by (simp add: encode_step split mem_put_def)
    qed
  qed
qed

lemma emits_writeRemLen [emission]: "emits (writeRemLen (int n)) (enc n)"
  using encode_loop_writes [of _ 0]
  by (simp add: emits_def writeRemLen_def MQTTPacket_encode_def option.map_comp comp_def)

lemma emits_writeCString [emission]: "emits (writeCString str) (enc_str (takeWhile (\<lambda>c. c \<noteq> 0) str))"
proof -
  have "takeWhile (\<lambda>c. c \<noteq> 0) str = take (strlen str) str"
    unfolding strlen_def by (rule takeWhile_eq_take)
  moreover have "length (take (strlen str) str) = strlen str"
    by (simp add: strlen_def length_takeWhile_le)
  moreover have "emits (\<lambda>cur. writeInt (int (strlen str)) cur \<bind> writeBlock (take (strlen str) str))
      (enc16 (strlen str) @ take (strlen str) str)"
    by (intro emission)
  ultimately show ?thesis
    by (simp add: writeCString_def [abs_def] Let_def enc_str_def)
qed

text \<open>The text an \<^verbatim>\<open>MQTTString\<close> stands for, and the strings the codec is meant for.\<close>

definition mqtt_text :: "MQTTString \<Rightarrow> bytes" where
  "mqtt_text ms =
     (if lenstring_len ms > 0
      then take (nat (lenstring_len ms)) (case lenstring_data ms of Some d \<Rightarrow> d | None \<Rightarrow> [])
      else case cstring ms of Some str \<Rightarrow> takeWhile (\<lambda>c. c \<noteq> 0) str | None \<Rightarrow> [])"

definition MQTTString_wf :: "MQTTString \<Rightarrow> bool" where
  "MQTTString_wf ms \<longleftrightarrow>
     0 \<le> lenstring_len ms \<and> length (mqtt_text ms) < 65536 \<and>
     (0 < lenstring_len ms \<longrightarrow> cstring ms = None \<and>
        (case lenstring_data ms of Some d \<Rightarrow> lenstring_len ms \<le> int (length d) | None \<Rightarrow> False))"

definition lenstring :: "bytes \<Rightarrow> MQTTString" where
  "lenstring s = \<lparr>cstring = None, lenstring_len = int (length s), lenstring_data = Some s\<rparr>"

lemma MQTTstrlen_text: "MQTTString_wf ms \<Longrightarrow> MQTTstrlen ms = int (length (mqtt_text ms))"
  by (auto simp: MQTTString_wf_def MQTTstrlen_def mqtt_text_def strlen_def split: option.splits)

lemma emits_writeMQTTString [emission]:
  assumes "MQTTString_wf ms"
  shows "emits (writeMQTTString ms) (enc_str (mqtt_text ms))"
proof (cases "lenstring_len ms > 0")
  case True
  then obtain d where d: "lenstring_data ms = Some d" "lenstring_len ms \<le> int (length d)"
    using assms by (auto simp: MQTTString_wf_def split: option.splits)
  define n where "n = nat (lenstring_len ms)"
  have len: "lenstring_len ms = int n" "n \<le> length d" using True d by (auto simp: n_def)
  have "emits (\<lambda>cur. writeInt (int n) cur \<bind> writeBlock (take n d)) (enc16 n @ take n d)"
    by (intro emission)
  then show ?thesis
    using True d len by (simp add: writeMQTTString_def [abs_def] mqtt_text_def enc_str_def mem_read_def)
next
  case False
  then show ?thesis
    using emits_writeCString emits_writeInt [of 0]
    by (auto simp: writeMQTTString_def [abs_def] mqtt_text_def enc_str_def enc16_def
        split: option.splits)
qed

text \<open>A serializer that starts at the beginning of the buffer.\<close>

lemma emits_run:
  assumes "emits w xs" and "length xs \<le> length buf"
  shows "serialized (w (buf, 0)) = Some (int (length xs), xs @ drop (length xs) buf)"
  using assms by (simp add: emits_def mem_write_def serialized_def)

lemma emits_overrun:
  assumes "emits w xs" and "length buf < length xs"
  shows "serialized (w (buf, 0)) = None"
  using assms by (simp add: emits_def mem_write_def serialized_def)

section \<open>Reading back\<close>

lemma length_enc:
  "length (enc n) = (if n < 128 then 1 else 1 + length (enc (n div 128)))"
  by (simp add: enc.simps [of n])

lemma length_enc_cases:
  assumes "n < 268435456"
  shows "length (enc n) =
    (if n < 128 then 1 else if n < 16384 then 2 else if n < 2097152 then 3 else 4)"
proof -
  have "n div 128 < 128 \<longleftrightarrow> n < 16384" "n div 128 div 128 < 128 \<longleftrightarrow> n < 2097152"
    "n div 128 div 128 div 128 < 128"
    using assms by (simp_all add: div_less_iff_less_mult)
  then show ?thesis
    by (simp add: length_enc [of n] length_enc [of "n div 128"] length_enc [of "n div 128 div 128"]
        length_enc [of "n div 128 div 128 div 128"])
qed

lemma MQTTPacket_len_bound:
  assumes "n < 268435456"
  shows "int (1 + length (enc n) + n) \<le> MQTTPacket_len (int n)"
  by (auto simp: length_enc_cases [OF assms] MQTTPacket_len_def Let_def)

lemma digit_masks:
  fixes m :: nat
  assumes "m < 128"
  shows "uint (of_nat m AND 127 :: u8) = int m" and "of_nat m AND 128 = (0 :: u8)"
    and "uint (of_nat (m + 128) AND 127 :: u8) = int m" and "of_nat (m + 128) AND 128 \<noteq> (0 :: u8)"
proof -
  have all: "\<forall>m \<in> set [0..<128]. uint (of_nat m AND 127 :: u8) = int m \<and> of_nat m AND 128 = (0 :: u8) \<and>
      uint (of_nat (m + 128) AND 127 :: u8) = int m \<and> of_nat (m + 128) AND 128 \<noteq> (0 :: u8)"
    by code_simp
  have "m \<in> set [0..<128]" using assms by simp
  with all show "uint (of_nat m AND 127 :: u8) = int m" and "of_nat m AND 128 = (0 :: u8)"
    and "uint (of_nat (m + 128) AND 127 :: u8) = int m" and "of_nat (m + 128) AND 128 \<noteq> (0 :: u8)"
    by blast+
qed

text \<open>
  The contract of the byte source that \<^verbatim>\<open>MQTTPacket_decode\<close> is given: it delivers the bytes that
  are pending, one per call, with result code 1.
\<close>

locale byte_source =
  fixes getcharfn :: "'s \<Rightarrow> (int \<times> u8 \<times> 's) option"
    and pending :: "'s \<Rightarrow> bytes"
  assumes delivers: "pending s = c # rest \<Longrightarrow>
    \<exists>s'. getcharfn s = Some (1, c, s') \<and> pending s' = rest"
begin

lemma decode_loop_enc:
  "pending s = enc n @ rest \<Longrightarrow> len < 4 \<Longrightarrow> n < 128 ^ (4 - len) \<Longrightarrow>
   \<exists>s'. decode_loop getcharfn len k v s = Some (len + length (enc n), v + int n * k, s') \<and>
        pending s' = rest"
proof (induction n arbitrary: s len k v rule: enc.induct)
  case (1 n)
  show ?case
  proof (cases "n < 128")
    case True
    then obtain s' where "getcharfn s = Some (1, of_nat n, s')" "pending s' = rest"
      using delivers [of s "of_nat n" rest] 1(2) by (auto simp: enc.simps [of n])
    then show ?thesis
      using True 1(3) digit_masks [OF True]
      by (subst decode_loop.simps)
        (simp add: MAX_NO_OF_REMAINING_LENGTH_BYTES_def enc.simps [of n])
  next
    case False
    let ?c = "of_nat (n mod 128 + 128) :: u8"
    obtain s1 where s1: "getcharfn s = Some (1, ?c, s1)" "pending s1 = enc (n div 128) @ rest"
      using delivers [of s ?c "enc (n div 128) @ rest"] 1(2) False by (auto simp: enc.simps [of n])
    have len: "len + 1 < 4" using False 1(3,4) by (cases "len = 3") auto
    have "(128::nat) ^ (4 - len) = 128 ^ (4 - (len + 1)) * 128"
      using 1(3) by (metis Suc_diff_Suc Suc_eq_plus1 power_Suc mult.commute)
    then have "n div 128 < 128 ^ (4 - (len + 1))"
      using 1(4) by (simp add: div_less_iff_less_mult)
    from 1(1) [OF False s1(2) len this, of "k * 128" "v + int (n mod 128) * k"] obtain s' where
      s': "decode_loop getcharfn (len + 1) (k * 128) (v + int (n mod 128) * k) s1 =
          Some (len + 1 + length (enc (n div 128)),
                v + int (n mod 128) * k + int (n div 128) * (k * 128), s')" "pending s' = rest"
      by blast
    have "int n = int (n mod 128) + 128 * int (n div 128)"
      by (metis mod_mult_div_eq of_nat_add of_nat_mult of_nat_numeral)
    then have "v + int (n mod 128) * k + int (n div 128) * (k * 128) = v + int n * k"
      by (simp add: algebra_simps)
    moreover have "decode_loop getcharfn len k v s =
        decode_loop getcharfn (len + 1) (k * 128) (v + int (n mod 128) * k) s1"
      using s1(1) len digit_masks [of "n mod 128"]
      by (subst decode_loop.simps) (simp add: MAX_NO_OF_REMAINING_LENGTH_BYTES_def Let_def)
    ultimately show ?thesis
      using s' False by (simp add: length_enc [of n])
  qed
qed

lemma decode_enc:
  assumes "pending s = enc n @ rest" and "n < 268435456"
  shows "\<exists>s'. MQTTPacket_decode getcharfn s = Some (length (enc n), int n, s') \<and> pending s' = rest"
  using decode_loop_enc [OF assms(1), of 0 1 0] assms(2) by (simp add: MQTTPacket_decode_def)

end

interpretation bufsrc: byte_source bufchar "\<lambda>(buf, p). drop p buf"
proof
  fix s :: "bytes \<times> nat" and c rest
  assume a: "(case s of (buf, p) \<Rightarrow> drop p buf) = c # rest"
  obtain buf p where s: "s = (buf, p)" by fastforce
  have "p < length buf" using a s by (auto simp: not_le [symmetric])
  then show "\<exists>s'. bufchar s = Some (1, c, s') \<and> (case s' of (buf, p) \<Rightarrow> drop p buf) = rest"
    using a s by (auto simp: bufchar_def mem_get_def Cons_nth_drop_Suc [symmetric])
qed

text \<open>The bytes \<open>xs\<close> stand at index \<open>p\<close> of the buffer.\<close>

definition holds_at :: "bytes \<Rightarrow> nat \<Rightarrow> bytes \<Rightarrow> bool" where
  "holds_at buf p xs \<longleftrightarrow> take (length xs) (drop p buf) = xs"

named_theorems reading "what each reader returns on bytes that stand in the buffer"

lemma holds_at_Cons: "holds_at buf p (c # ys) \<longleftrightarrow> p < length buf \<and> buf ! p = c \<and> holds_at buf (p + 1) ys"
proof (cases "p < length buf")
  case True
  then show ?thesis by (simp add: holds_at_def Cons_nth_drop_Suc [symmetric])
qed (simp add: holds_at_def)

lemma holds_at_Nil [reading]: "holds_at buf p []"
  by (simp add: holds_at_def)

lemma holds_at_append [reading]:
  "holds_at buf p (xs @ ys) \<longleftrightarrow> holds_at buf p xs \<and> holds_at buf (p + length xs) ys"
  by (induction xs arbitrary: p) (auto simp: holds_at_Cons holds_at_Nil)

lemma holds_at_prefix [reading]: "holds_at (xs @ ys) 0 xs"
  by (simp add: holds_at_def)

lemma holds_at_bound: "holds_at buf p xs \<Longrightarrow> xs \<noteq> [] \<Longrightarrow> p + length xs \<le> length buf"
proof (induction xs arbitrary: p)
  case (Cons c xs)
  then show ?case using Cons.IH [of "p + 1"] by (cases "xs = []") (auto simp: holds_at_Cons)
qed simp

lemma readChar_holds [reading]: "holds_at buf p [c] \<Longrightarrow> readChar buf p = Some (c, p + 1)"
  by (simp add: holds_at_Cons readChar_def mem_get_def)

lemma readInt_holds [reading]:
  assumes "holds_at buf p (enc16 n)" and "n < 65536"
  shows "readInt buf p = Some (int n, p + 2)"
proof -
  have "n div 256 < 256" using assms(2) by (simp add: div_less_iff_less_mult)
  then have "256 * uint (of_nat (n div 256) :: u8) + uint (of_nat (n mod 256) :: u8) = int n"
    by (simp add: uint_nat unat_of_nat zdiv_int zmod_int)
  then show ?thesis
    using assms(1) by (simp add: enc16_def holds_at_Cons readInt_def mem_get_def)
qed

lemma readInt_u16 [reading]:
  fixes i :: u16
  assumes "holds_at buf p (enc16 (unat i))"
  shows "readInt buf p = Some (uint i, p + 2)"
proof -
  have "unat i < 65536" using unsigned_less [of i] by simp
  then show ?thesis unfolding uint_nat by (rule readInt_holds [OF assms])
qed

lemma decodeBuf_holds [reading]:
  assumes "holds_at buf p (enc n)" and "n < 268435456"
  shows "MQTTPacket_decodeBuf buf p = Some (length (enc n), int n)"
proof -
  have "(case (buf, p) of (buf, p) \<Rightarrow> drop p buf) = enc n @ drop (length (enc n)) (drop p buf)"
    using assms(1) unfolding holds_at_def by (metis append_take_drop_id case_prod_conv)
  then show ?thesis
    using bufsrc.decode_enc [of "(buf, p)" n] assms(2) by (auto simp: MQTTPacket_decodeBuf_def)
qed

lemma readMQTTLenString_holds [reading]:
  assumes "holds_at buf p (enc_str s)" and "length s < 65536"
    and "int (p + length s + 2) \<le> enddata"
  shows "readMQTTLenString ms buf p enddata = Some (1, lenstring s, p + length s + 2)"
proof -
  have "holds_at buf p (enc16 (length s))" and text_at: "take (length s) (drop (p + 2) buf) = s"
    using assms(1) by (auto simp: enc_str_def reading holds_at_def [of _ _ s])
  then have "readInt buf p = Some (int (length s), p + 2)"
    using assms(2) by (intro reading)
  then show ?thesis
    using assms(3) text_at by (simp add: readMQTTLenString_def lenstring_def Let_def)
qed

section \<open>The header byte\<close>

lemmas header_bit_simps = MQTTHeader_def header_type_def header_dup_def header_qos_def
  header_retain_def bit_or_iff bit_push_bit_iff bit_take_bit_iff bit_drop_bit_eq comp_def

lemma header_bits:
  assumes "n < 8"
  shows "bit (MQTTHeader t d q r) n \<longleftrightarrow>
     (if n = 0 then bit r 0 else if n < 3 then bit q (n - 1) else if n = 3 then bit d 0
      else bit t (n - 4))"
proof -
  have "n \<in> {0, 1, 2, 3, 4, 5, 6, 7}" using assms by auto
  then show ?thesis
    unfolding header_bit_simps by (elim insertE emptyE; simp only:; simp)
qed

lemma MQTTHeader_type [simp]: "header_type (MQTTHeader t d q r) = take_bit 4 t"
proof (rule bit_word_eqI)
  fix n assume "n < LENGTH(8)"
  then show "bit (header_type (MQTTHeader t d q r)) n \<longleftrightarrow> bit (take_bit 4 t) n"
    using header_bits [of "n + 4" t d q r]
    by (auto simp: header_type_def bit_take_bit_iff bit_drop_bit_eq add.commute)
qed

lemma MQTTHeader_qos [simp]: "header_qos (MQTTHeader t d q r) = take_bit 2 q"
proof (rule bit_word_eqI)
  fix n assume "n < LENGTH(8)"
  then show "bit (header_qos (MQTTHeader t d q r)) n \<longleftrightarrow> bit (take_bit 2 q) n"
    using header_bits [of "n + 1" t d q r]
    by (auto simp: header_qos_def bit_take_bit_iff bit_drop_bit_eq add.commute)
qed

lemma MQTTHeader_dup [simp]: "header_dup (MQTTHeader t d q r) = take_bit 1 d"
proof (rule bit_word_eqI)
  fix n assume "n < LENGTH(8)"
  show "bit (header_dup (MQTTHeader t d q r)) n \<longleftrightarrow> bit (take_bit 1 d) n"
    using header_bits [of 3 t d q r]
    by (cases n) (simp_all only: header_dup_def bit_take_bit_iff bit_drop_bit_eq comp_def, simp_all)
qed

lemma MQTTHeader_retain [simp]: "header_retain (MQTTHeader t d q r) = take_bit 1 r"
proof (rule bit_word_eqI)
  fix n assume "n < LENGTH(8)"
  show "bit (header_retain (MQTTHeader t d q r)) n \<longleftrightarrow> bit (take_bit 1 r) n"
    using header_bits [of 0 t d q r]
    by (cases n) (simp_all only: header_retain_def bit_take_bit_iff, simp_all)
qed

lemma MQTTHeader_id: "MQTTHeader (header_type b) (header_dup b) (header_qos b) (header_retain b) = b"
proof (rule bit_word_eqI)
  fix n assume "n < LENGTH(8)"
  then have n: "n \<in> {0, 1, 2, 3, 4, 5, 6, 7}" by auto
  then have "n < 8" by auto
  show "bit (MQTTHeader (header_type b) (header_dup b) (header_qos b) (header_retain b)) n = bit b n"
    unfolding header_bits [OF \<open>n < 8\<close>] header_type_def header_dup_def header_qos_def
      header_retain_def bit_take_bit_iff bit_drop_bit_eq comp_def
    using n by (elim insertE emptyE; simp only:; simp add: numeral_2_eq_2)
qed

section \<open>Arbitrary input\<close>

lemma mask127_bound: "uint (c AND 127 :: u8) < 128"
  using AND_upper2 [of 127 "uint c"] by (simp add: uint_and)

lemma decode_loop_bound:
  "decode_loop g len k v s = Some (l, w, s') \<Longrightarrow> len \<le> 4 \<Longrightarrow> 0 < k \<Longrightarrow>
   len < l \<and> l \<le> 5 \<and> v \<le> w \<and> w + k \<le> v + k * 128 ^ (4 - len)"
proof (induction "4 - len" arbitrary: len k v s)
  case 0
  then show ?case
    by (subst (asm) decode_loop.simps) (simp add: MAX_NO_OF_REMAINING_LENGTH_BYTES_def)
next
  case (Suc m)
  then have len: "len < 4" and m: "4 - len = Suc m" "m = 4 - (len + 1)" by linarith+
  obtain rc c s1 where g: "g s = Some (rc, c, s1)"
    using Suc.prems(1) len
    by (subst (asm) decode_loop.simps)
      (auto simp: MAX_NO_OF_REMAINING_LENGTH_BYTES_def bind_eq_Some_conv)
  let ?d = "uint (c AND 127)"
  have d: "0 \<le> ?d * k" "?d * k \<le> 127 * k"
    using mask127_bound [of c] Suc.prems(3) by simp_all
  have pw: "k * 128 ^ (4 - len) = k * 128 * 128 ^ m" "k * 128 \<le> k * 128 * 128 ^ m" "k \<le> k * 128"
    using m Suc.prems(3) by simp_all
  have one: "0 \<le> ?d * k" "?d * k + k \<le> k * 128 ^ (4 - len)" "k \<le> k * 128 ^ (4 - len)"
    using d pw by linarith+
  show ?case
  proof (cases "rc = 1 \<and> c AND 128 \<noteq> 0")
    case False
    then show ?thesis
      using Suc.prems(1) len g one
      by (subst (asm) decode_loop.simps)
        (auto simp: MAX_NO_OF_REMAINING_LENGTH_BYTES_def Let_def split: if_splits)
  next
    case True
    then have step: "decode_loop g (len + 1) (k * 128) (v + ?d * k) s1 = Some (l, w, s')"
      using Suc.prems(1) len g
      by (subst (asm) decode_loop.simps) (simp add: MAX_NO_OF_REMAINING_LENGTH_BYTES_def Let_def)
    have "len + 1 < l \<and> l \<le> 5 \<and> v + ?d * k \<le> w \<and>
        w + k * 128 \<le> v + ?d * k + k * 128 * 128 ^ (4 - (len + 1))"
      using Suc.hyps(1) [OF m(2) step] len Suc.prems(3) by simp
    then show ?thesis
      unfolding m(2) [symmetric] pw(1) using d by linarith
  qed
qed

lemma decode_loop_in_bounds:
  "p + (4 - len) \<le> length buf \<Longrightarrow> decode_loop bufchar len k v (buf, p) \<noteq> None"
proof (induction "4 - len" arbitrary: len k v p)
  case 0
  then show ?case by (subst decode_loop.simps) (simp add: MAX_NO_OF_REMAINING_LENGTH_BYTES_def)
next
  case (Suc m)
  then have p: "p < length buf" and step: "m = 4 - (len + 1)" "p + 1 + (4 - (len + 1)) \<le> length buf"
    by linarith+
  show ?case
    using Suc.hyps(1) [OF step] p Suc.hyps(2)
    by (subst decode_loop.simps)
      (simp add: MAX_NO_OF_REMAINING_LENGTH_BYTES_def bufchar_def mem_get_def Let_def)
qed

section \<open>Comparing strings\<close>

lemma strncmp_eq_take:
  "n \<le> length a \<Longrightarrow> n \<le> length (takeWhile (\<lambda>c. c \<noteq> 0) b) \<Longrightarrow>
   strncmp_eq a b n \<longleftrightarrow> take n a = take n (takeWhile (\<lambda>c. c \<noteq> 0) b)"
proof (induction n arbitrary: a b)
  case (Suc n)
  then obtain x a' y b' where "a = x # a'" "b = y # b'"
    by (cases a; cases b) auto
  then show ?case using Suc by (auto split: if_splits)
qed simp

lemma MQTTPacket_equals_text:
  assumes "MQTTString_wf a"
  shows "MQTTPacket_equals a b \<longleftrightarrow> mqtt_text a = takeWhile (\<lambda>c. c \<noteq> 0) b"
proof -
  let ?b = "takeWhile (\<lambda>c. c \<noteq> 0) b"
  obtain aptr where aptr: "length (mqtt_text a) \<le> length aptr"
      "mqtt_text a = take (length (mqtt_text a)) aptr"
    and eq: "MQTTPacket_equals a b \<longleftrightarrow> length (mqtt_text a) = length ?b \<and>
      strncmp_eq aptr b (length (mqtt_text a))"
  proof (cases "cstring a")
    case (Some str)
    then have "mqtt_text a = takeWhile (\<lambda>c. c \<noteq> 0) str"
      using assms by (auto simp: MQTTString_wf_def mqtt_text_def)
    then show ?thesis using Some that [of str]
      by (simp add: MQTTPacket_equals_def strlen_def length_takeWhile_le takeWhile_eq_take [symmetric])
  next
    case None
    let ?d = "case lenstring_data a of Some d \<Rightarrow> d | None \<Rightarrow> []"
    have "MQTTPacket_equals a b \<longleftrightarrow> length (mqtt_text a) = length ?b \<and>
        strncmp_eq ?d b (length (mqtt_text a))"
      using None MQTTstrlen_text [OF assms] by (simp add: MQTTPacket_equals_def strlen_def MQTTstrlen_def)
    moreover have "length (mqtt_text a) \<le> length ?d" "mqtt_text a = take (length (mqtt_text a)) ?d"
      using None assms by (auto simp: MQTTString_wf_def mqtt_text_def min_def)
    ultimately show ?thesis using that by blast
  qed
  show ?thesis
    using aptr strncmp_eq_take [of "length (mqtt_text a)" aptr b] by (auto simp: eq)
qed

section \<open>The contract of a packet codec\<close>

text \<open>
  What a serializer and the deserializer of the same packet type owe each other. \<open>wire m\<close> is the
  packet of message \<open>m\<close>, \<open>need m\<close> the buffer size the serializer asks for, \<open>wf\<close> the messages
  MQTT can express, \<open>fits m out\<close> says that the output arrays of the caller have room for \<open>m\<close>, and
  \<open>view m out\<close> is the output parameters after reading \<open>m\<close> when they held \<open>out\<close> before.
\<close>

locale packet_codec =
  fixes serialize :: "bytes \<Rightarrow> int \<Rightarrow> 'm \<Rightarrow> (int \<times> bytes) option"
    and deserialize :: "bytes \<Rightarrow> int \<Rightarrow> 'o \<Rightarrow> (int \<times> 'o) option"
    and wf :: "'m \<Rightarrow> bool" and wire :: "'m \<Rightarrow> bytes" and need :: "'m \<Rightarrow> int"
    and fits :: "'m \<Rightarrow> 'o \<Rightarrow> bool" and view :: "'m \<Rightarrow> 'o \<Rightarrow> 'o"
  assumes refused: "wf m \<Longrightarrow> buflen < need m \<Longrightarrow>
      serialize buf buflen m = Some (MQTTPACKET_BUFFER_TOO_SHORT, buf)"
    and emitted: "wf m \<Longrightarrow> need m \<le> buflen \<Longrightarrow> buflen \<le> int (length buf) \<Longrightarrow>
      serialize buf buflen m = Some (int (length (wire m)), wire m @ drop (length (wire m)) buf)"
    and sized: "wf m \<Longrightarrow> int (length (wire m)) \<le> need m"
    and parsed: "wf m \<Longrightarrow> fits m out \<Longrightarrow> holds_at buf 0 (wire m) \<Longrightarrow>
      deserialize buf (int (length (wire m))) out = Some (1, view m out)"
begin

lemma roundtrip:
  assumes "wf m" and "buflen \<le> int (length buf)" and "fits m out"
  shows "\<exists>rc buf'. serialize buf buflen m = Some (rc, buf') \<and> length buf' = length buf \<and>
    (if buflen < need m then rc = MQTTPACKET_BUFFER_TOO_SHORT \<and> buf' = buf
     else 0 \<le> rc \<and> rc \<le> buflen \<and> drop (nat rc) buf' = drop (nat rc) buf \<and>
          deserialize buf' rc out = Some (1, view m out))"
proof (cases "buflen < need m")
  case True
  then show ?thesis using refused [OF assms(1) True] by simp
next
  case False
  let ?n = "length (wire m)" and ?buf' = "wire m @ drop (length (wire m)) buf"
  have "int ?n \<le> need m" using sized [OF assms(1)] .
  moreover from this have "int ?n \<le> buflen" "?n \<le> length buf" using False assms(2) by linarith+
  moreover have "deserialize ?buf' (int ?n) out = Some (1, view m out)"
    by (rule parsed [OF assms(1,3)]) (rule reading)
  ultimately show ?thesis using False emitted [OF assms(1), of buflen buf] assms(2) by simp
qed

end

section \<open>Properties\<close>

text \<open>
  Property C21. Round trip of the remaining length: for every length the protocol allows,
  \<^verbatim>\<open>MQTTPacket_encode\<close> writes between one and four bytes inside the buffer, leaves every other
  byte alone, and \<^verbatim>\<open>MQTTPacket_decodeBuf\<close> reads back the same number of bytes and the same length.
\<close>

theorem remaining_length_roundtrip:
  assumes "0 \<le> n" and "n < 268435456" and "p + 4 \<le> length buf"
  shows "\<exists>k buf'. MQTTPacket_encode n buf p = Some (k, buf') \<and> 1 \<le> k \<and> k \<le> 4 \<and>
           MQTTPacket_decodeBuf buf' p = Some (k, n) \<and> length buf' = length buf \<and>
           (\<forall>j < length buf. j < p \<or> p + k \<le> j \<longrightarrow> buf' ! j = buf ! j)"
proof -
  define m where "m = nat n"
  have m: "n = int m" "m < 268435456" using assms by (auto simp: m_def)
  have k: "1 \<le> length (enc m)" "length (enc m) \<le> 4" by (simp_all add: length_enc_cases [OF m(2)])
  obtain buf' where w: "mem_write buf p (enc m) = Some buf'"
    using mem_write_ex [of p "enc m" buf] k assms(3) by auto
  then have "buf' = take p buf @ enc m @ drop (p + length (enc m)) buf"
    by (auto simp: mem_write_def split: if_splits)
  then have "holds_at buf' p (enc m)" using assms(3) by (simp add: holds_at_def)
  from decodeBuf_holds [OF this m(2)] show ?thesis
    using encode_loop_writes [of p 0 buf m] w k m assms(3) mem_write_length [OF w] mem_write_nth [OF w]
    by (auto simp: MQTTPacket_encode_def)
qed

theorem remaining_length_roundtrip_witness:
  "\<exists>k buf'. MQTTPacket_encode 321 (replicate 6 0) 1 = Some (k, buf') \<and> 1 \<le> k \<and> k \<le> 4 \<and>
     MQTTPacket_decodeBuf buf' 1 = Some (k, 321) \<and> length buf' = length (replicate 6 (0::u8)) \<and>
     (\<forall>j < length (replicate 6 (0::u8)). j < 1 \<or> 1 + k \<le> j \<longrightarrow> buf' ! j = replicate 6 0 ! j)"
  by (rule remaining_length_roundtrip) simp_all

text \<open>
  Decoding arbitrary bytes: \<^verbatim>\<open>MQTTPacket_decodeBuf\<close> reads at most four bytes whatever
  they are, so it stays inside a buffer with four bytes left, reports between one and five
  (five being the error of a fourth continuation bit), and the length is below 2 to the 28.
\<close>

theorem remaining_length_any_input:
  assumes "p + 4 \<le> length buf"
  shows "\<exists>len val. MQTTPacket_decodeBuf buf p = Some (len, val) \<and> 1 \<le> len \<and> len \<le> 5 \<and>
           0 \<le> val \<and> val < 268435456"
proof -
  obtain l w s' where d: "decode_loop bufchar 0 1 0 (buf, p) = Some (l, w, s')"
    using decode_loop_in_bounds [of p 0 buf 1 0] assms by auto
  then show ?thesis
    using decode_loop_bound [OF d] by (auto simp: MQTTPacket_decodeBuf_def MQTTPacket_decode_def)
qed

theorem remaining_length_any_input_witness:
  "\<exists>len val. MQTTPacket_decodeBuf [0xff, 0xff, 0xff, 0xff] 0 = Some (len, val) \<and> 1 \<le> len \<and> len \<le> 5 \<and>
     0 \<le> val \<and> val < 268435456"
  by (rule remaining_length_any_input) simp

text \<open>
  \<^verbatim>\<open>MQTTPacket_len\<close> is the size of the whole packet (header byte, length bytes and
  remaining length), except for the four remaining lengths 127, 16383, 2097150 and 2097151, where
  it asks for one byte more than the packet has.
\<close>

theorem MQTTPacket_len_exact:
  assumes "0 \<le> n" and "n < 268435456"
  shows "MQTTPacket_len n = 1 + int (length (enc (nat n))) + n +
           (if n \<in> {127, 16383, 2097150, 2097151} then 1 else 0)"
proof -
  define m where "m = nat n"
  have m: "n = int m" "m < 268435456" using assms by (auto simp: m_def)
  show ?thesis by (auto simp: m(1) length_enc_cases [OF m(2)] MQTTPacket_len_def Let_def)
qed

theorem MQTTPacket_len_exact_witness:
  "MQTTPacket_len 127 = 1 + int (length (enc (nat 127))) + 127 +
     (if (127::int) \<in> {127, 16383, 2097150, 2097151} then 1 else 0)"
  by (rule MQTTPacket_len_exact) simp_all

text \<open>
  The header byte: the four fields written by \<^verbatim>\<open>MQTTHeader\<close> are read back reduced to
  their widths, and every byte is the header of its own fields.
\<close>

theorem header_byte_roundtrip:
  "header_type (MQTTHeader t d q r) = take_bit 4 t \<and> header_dup (MQTTHeader t d q r) = take_bit 1 d \<and>
   header_qos (MQTTHeader t d q r) = take_bit 2 q \<and> header_retain (MQTTHeader t d q r) = take_bit 1 r \<and>
   MQTTHeader (header_type b) (header_dup b) (header_qos b) (header_retain b) = b"
  by (simp only: MQTTHeader_type MQTTHeader_dup MQTTHeader_qos MQTTHeader_retain MQTTHeader_id)

end
