(* ===== verification/MqttRead.thy ===== *)
theory MqttRead
  imports MqttPacket
begin

text \<open>
  The readers of \<^verbatim>\<open>mqtt/MQTTPacket.c\<close> that take the bytes of a packet from a callback: \<^verbatim>\<open>MQTTPacket_read\<close>, and the
  resumable \<^verbatim>\<open>MQTTPacket_readnb\<close> with \<^verbatim>\<open>MQTTPacket_decodenb\<close>. The callback is a parameter: applied to its state and
  to the number of bytes asked for, it gives its result, the bytes it stored and its next state. The
  theorem shows that polling the resumable reader reassembles a packet however its bytes arrive.
\<close>

section \<open>Operations\<close>

type_synonym 's getfn = "'s \<Rightarrow> nat \<Rightarrow> int \<times> bytes \<times> 's"

definition getfn_char :: "'s getfn \<Rightarrow> 's \<Rightarrow> (int \<times> u8 \<times> 's) option" where
  "getfn_char g s = (case g s 1 of (rc, bs, s') \<Rightarrow> Some (rc, case bs of [] \<Rightarrow> 0 | c # _ \<Rightarrow> c, s'))"

definition MQTTPacket_read :: "bytes \<Rightarrow> int \<Rightarrow> 's getfn \<Rightarrow> 's \<Rightarrow> (int \<times> bytes \<times> 's) option" where
  "MQTTPacket_read buf buflen g s =
     (let (rc, bs, s1) = g s 1 in
      do { buf1 \<leftarrow> mem_write buf 0 bs;
           if rc \<noteq> 1 then Some (- 1, buf1, s1)
           else do {
             (_, rem_len, s2) \<leftarrow> MQTTPacket_decode (getfn_char g) s1;
             (n, buf2) \<leftarrow> MQTTPacket_encode rem_len buf1 1;
             let len = 1 + int n;
             if rem_len + len > buflen then Some (- 1, buf2, s2)
             else do {
               let (rc, bs, s3) = (if rem_len \<noteq> 0 then g s2 (nat rem_len) else (rem_len, [], s2));
               buf3 \<leftarrow> mem_write buf2 (nat len) bs;
               if rem_len \<noteq> 0 \<and> rc \<noteq> rem_len then Some (- 1, buf3, s3)
               else do { header \<leftarrow> mem_get buf3 0; Some (uint (header_type header), buf3, s3) } } } })"

record MQTTTransport =
  trp_multiplier :: int
  trp_rem_len :: int
  trp_len :: nat
  trp_state :: int

function decodenb_loop :: "'s getfn \<Rightarrow> MQTTTransport \<Rightarrow> 's \<Rightarrow> int \<times> MQTTTransport \<times> 's" where
  "decodenb_loop g trp s =
     (if trp_len trp \<ge> MAX_NO_OF_REMAINING_LENGTH_BYTES then (MQTTPACKET_READ_ERROR, trp, s)
      else let (frc, bs, s1) = g s 1 in
        if frc = - 1 then (MQTTPACKET_READ_ERROR, trp, s1)
        else if frc = 0 then (0, trp, s1)
        else let c = (case bs of [] \<Rightarrow> 0 | c # _ \<Rightarrow> c);
                 trp1 = trp\<lparr>trp_len := trp_len trp + 1, trp_rem_len := trp_rem_len trp + uint (c AND 127) * trp_multiplier trp,
                            trp_multiplier := trp_multiplier trp * 128\<rparr>
          in if c AND 128 \<noteq> 0 then decodenb_loop g trp1 s1 else (int (trp_len trp1), trp1, s1))"
  by pat_completeness auto
termination
  by (relation "measure (\<lambda>(g, trp, s). MAX_NO_OF_REMAINING_LENGTH_BYTES - trp_len trp)") auto

declare decodenb_loop.simps [simp del]

definition MQTTPacket_decodenb :: "'s getfn \<Rightarrow> MQTTTransport \<Rightarrow> 's \<Rightarrow> int \<times> MQTTTransport \<times> 's" where
  "MQTTPacket_decodenb g trp s =
     decodenb_loop g (if trp_len trp = 0 then trp\<lparr>trp_multiplier := 1, trp_rem_len := 0\<rparr> else trp) s"

text \<open>
  The three states of \<^verbatim>\<open>MQTTPacket_readnb\<close>, each going on to the next; the label \<^verbatim>\<open>exit\<close> resets the state. The
  result is \<^verbatim>\<open>rc\<close>, the buffer, the transport and the state of the callback.
\<close>

definition readnb_exit :: "int \<Rightarrow> bytes \<Rightarrow> MQTTTransport \<Rightarrow> 's \<Rightarrow> (int \<times> bytes \<times> MQTTTransport \<times> 's) option" where
  "readnb_exit rc buf trp s = Some (rc, buf, trp\<lparr>trp_state := 0\<rparr>, s)"

definition readnb_done :: "bytes \<Rightarrow> MQTTTransport \<Rightarrow> 's \<Rightarrow> (int \<times> bytes \<times> MQTTTransport \<times> 's) option" where
  "readnb_done buf trp s = do { header \<leftarrow> mem_get buf 0; readnb_exit (uint (header_type header)) buf trp s }"

definition readnb_body :: "'s getfn \<Rightarrow> bytes \<Rightarrow> MQTTTransport \<Rightarrow> 's \<Rightarrow> (int \<times> bytes \<times> MQTTTransport \<times> 's) option" where
  "readnb_body g buf trp s =
     (if trp_rem_len trp \<noteq> 0 then
        let (frc, bs, s1) = g s (nat (trp_rem_len trp)) in
        do { buf1 \<leftarrow> mem_write buf (trp_len trp) bs;
             if frc = - 1 then readnb_exit (- 1) buf1 trp s1
             else if frc = 0 then Some (0, buf1, trp, s1)
             else let trp1 = trp\<lparr>trp_rem_len := trp_rem_len trp - frc, trp_len := nat (int (trp_len trp) + frc)\<rparr>
               in if trp_rem_len trp1 \<noteq> 0 then Some (0, buf1, trp1, s1) else readnb_done buf1 trp1 s1 }
      else readnb_done buf trp s)"

definition readnb_length :: "'s getfn \<Rightarrow> int \<Rightarrow> bytes \<Rightarrow> MQTTTransport \<Rightarrow> 's \<Rightarrow> (int \<times> bytes \<times> MQTTTransport \<times> 's) option" where
  "readnb_length g buflen buf trp s =
     (let (frc, trp1, s1) = MQTTPacket_decodenb g trp s in
      if frc = MQTTPACKET_READ_ERROR then readnb_exit (- 1) buf trp1 s1
      else if frc = 0 then Some (0, buf, trp1, s1)
      else do {
        (n, buf1) \<leftarrow> MQTTPacket_encode (trp_rem_len trp1) buf 1;
        let trp2 = trp1\<lparr>trp_len := 1 + n\<rparr>;
        if trp_rem_len trp2 + int (trp_len trp2) > buflen then readnb_exit (- 1) buf1 trp2 s1
        else readnb_body g buf1 (trp2\<lparr>trp_state := trp_state trp2 + 1\<rparr>) s1 })"

definition MQTTPacket_readnb ::
  "'s getfn \<Rightarrow> int \<Rightarrow> bytes \<Rightarrow> MQTTTransport \<Rightarrow> 's \<Rightarrow> (int \<times> bytes \<times> MQTTTransport \<times> 's) option" where
  "MQTTPacket_readnb g buflen buf trp s =
     (if trp_state trp = 1 then readnb_length g buflen buf trp s
      else if trp_state trp = 2 then readnb_body g buf trp s
      else let trp0 = trp\<lparr>trp_state := 0\<rparr>; (frc, bs, s1) = g s 1 in
        do { buf1 \<leftarrow> mem_write buf 0 bs;
             if frc = - 1 then readnb_exit (- 1) buf1 trp0 s1
             else if frc = 0 then Some (0, buf1, trp0, s1)
             else readnb_length g buflen buf1 (trp0\<lparr>trp_len := 0, trp_state := trp_state trp0 + 1\<rparr>) s1 })"

section \<open>Sources of bytes\<close>

text \<open>
  A callback that delivers the bytes \<open>pending s\<close> in pieces of its own choice and asks to be called again only
  finitely often, as measured by \<open>patience\<close>: the documented contract of \<^verbatim>\<open>getfn\<close> without an error.
\<close>

definition nb_source :: "'s getfn \<Rightarrow> ('s \<Rightarrow> bytes) \<Rightarrow> ('s \<Rightarrow> nat) \<Rightarrow> bool" where
  "nb_source g pending patience \<longleftrightarrow>
     (\<forall>s n. 0 < n \<and> pending s \<noteq> [] \<longrightarrow>
        (\<exists>s'. g s n = (0, [], s') \<and> pending s' = pending s \<and> patience s' < patience s) \<or>
        (\<exists>k s'. 0 < k \<and> k \<le> n \<and> k \<le> length (pending s) \<and> g s n = (int k, take k (pending s), s') \<and>
           pending s' = drop k (pending s) \<and> patience s' \<le> patience s))"

text \<open>The number of bytes and of pauses that are left.\<close>

definition nb_left :: "('s \<Rightarrow> bytes) \<Rightarrow> ('s \<Rightarrow> nat) \<Rightarrow> 's \<Rightarrow> nat" where
  "nb_left pending patience s = length (pending s) + patience s"

lemma nb_source_cases:
  assumes "nb_source g pending patience" and "0 < n" and "pending s \<noteq> []"
  obtains (again) s' where "g s n = (0, [], s')" "pending s' = pending s" "nb_left pending patience s' < nb_left pending patience s"
  | (bytes) k s' where "0 < k" "k \<le> n" "k \<le> length (pending s)" "g s n = (int k, take k (pending s), s')"
      "pending s' = drop k (pending s)" "nb_left pending patience s' < nb_left pending patience s"
proof -
  have "(\<exists>s'. g s n = (0, [], s') \<and> pending s' = pending s \<and> patience s' < patience s) \<or>
      (\<exists>k s'. 0 < k \<and> k \<le> n \<and> k \<le> length (pending s) \<and> g s n = (int k, take k (pending s), s') \<and>
         pending s' = drop k (pending s) \<and> patience s' \<le> patience s)"
    using assms unfolding nb_source_def by blast
  then show thesis
  proof (elim disjE exE conjE)
    fix s' assume "g s n = (0, [], s')" "pending s' = pending s" "patience s' < patience s"
    then show thesis by (intro again [of s']) (simp_all add: nb_left_def)
  next
    fix k s' assume "0 < k" "k \<le> n" "k \<le> length (pending s)" "g s n = (int k, take k (pending s), s')"
      "pending s' = drop k (pending s)" "patience s' \<le> patience s"
    then show thesis by (intro bytes [of k s']) (simp_all add: nb_left_def)
  qed
qed

lemma nb_source_byte:
  assumes "nb_source g pending patience" and "pending s = c # cs"
  obtains (again) s' where "g s 1 = (0, [], s')" "pending s' = c # cs" "nb_left pending patience s' < nb_left pending patience s"
  | (byte) s' where "g s 1 = (1, [c], s')" "pending s' = cs" "nb_left pending patience s' < nb_left pending patience s"
proof (rule nb_source_cases [OF assms(1), of 1 s])
  fix k s' assume k: "0 < k" "k \<le> 1" "g s 1 = (int k, take k (pending s), s')" "pending s' = drop k (pending s)"
    "nb_left pending patience s' < nb_left pending patience s"
  then have k1: "k = 1" by simp
  show thesis using k(3-5) assms(2) byte [of s'] unfolding k1 by simp
qed (use assms(2) again in auto)

text \<open>The rest of a remaining length, \<open>m\<close>, is still to be decoded.\<close>

lemma decodenb_loop_ok:
  assumes src: "nb_source g pending patience"
  shows "pending s = enc m @ rest \<Longrightarrow> trp_len trp + length (enc m) \<le> 4 \<Longrightarrow>
    \<exists>rc trp' s'. decodenb_loop g trp s = (rc, trp', s') \<and> trp_state trp' = trp_state trp \<and>
      nb_left pending patience s' < nb_left pending patience s \<and>
      ((\<exists>m'. rc = 0 \<and> pending s' = enc m' @ rest \<and> trp_len trp' + length (enc m') = trp_len trp + length (enc m) \<and>
          trp_rem_len trp' + int m' * trp_multiplier trp' = trp_rem_len trp + int m * trp_multiplier trp \<and>
          trp_len trp \<le> trp_len trp' \<and> (trp_len trp' = trp_len trp \<longrightarrow> m' = m)) \<or>
       (rc = int (trp_len trp + length (enc m)) \<and> pending s' = rest \<and>
          trp_rem_len trp' = trp_rem_len trp + int m * trp_multiplier trp))"
proof (induction m arbitrary: s trp rule: enc.induct)
  case (1 m)
  let ?c = "hd (enc m)" and ?cs = "tl (enc m) @ rest"
  have e: "enc m = ?c # tl (enc m)" by (subst (1 2 3) enc.simps) auto
  have p: "pending s = ?c # ?cs" using "1.prems"(1) e by (metis append_Cons)
  have len: "\<not> trp_len trp \<ge> MAX_NO_OF_REMAINING_LENGTH_BYTES"
    using "1.prems"(2) length_enc [of m] by (auto simp: MAX_NO_OF_REMAINING_LENGTH_BYTES_def split: if_splits)
  show ?case
  proof (rule nb_source_byte [OF src p])
    fix s' assume a: "g s 1 = (0, [], s')" "pending s' = ?c # ?cs" "nb_left pending patience s' < nb_left pending patience s"
    have "decodenb_loop g trp s = (0, trp, s')" using a(1) len by (subst decodenb_loop.simps) simp
    moreover have "pending s' = enc m @ rest" using a(2) p "1.prems"(1) by simp
    ultimately show ?thesis using a(3) by auto
  next
    fix s' assume b: "g s 1 = (1, [?c], s')" "pending s' = ?cs" "nb_left pending patience s' < nb_left pending patience s"
    define trp1 where "trp1 = trp\<lparr>trp_len := trp_len trp + 1,
      trp_rem_len := trp_rem_len trp + uint (?c AND 127) * trp_multiplier trp, trp_multiplier := trp_multiplier trp * 128\<rparr>"
    have step: "decodenb_loop g trp s = (if ?c AND 128 \<noteq> 0 then decodenb_loop g trp1 s' else (int (trp_len trp1), trp1, s'))"
      using b(1) len by (subst decodenb_loop.simps) (simp add: trp1_def Let_def)
    show ?thesis
    proof (cases "m < 128")
      case True
      then have c: "?c = of_nat m" "tl (enc m) = []" "length (enc m) = 1" by (simp_all add: enc.simps [of m])
      then show ?thesis using step digit_masks [OF True] b by (simp add: trp1_def)
    next
      case False
      have c: "?c = of_nat (m mod 128 + 128)" "tl (enc m) = enc (m div 128)" "length (enc m) = 1 + length (enc (m div 128))"
        using False by (simp_all add: enc.simps [of m])
      have d: "uint (?c AND 127) = int (m mod 128)" "?c AND 128 \<noteq> 0" using digit_masks(3,4) [of "m mod 128"] c(1) by simp_all
      have v: "trp_rem_len trp1 + int (m div 128) * trp_multiplier trp1 = trp_rem_len trp + int m * trp_multiplier trp"
      proof -
        have "int m = int (m mod 128) + 128 * int (m div 128)"
          by (metis mod_mult_div_eq of_nat_add of_nat_mult of_nat_numeral)
        then show ?thesis unfolding trp1_def d(1) by (simp add: algebra_simps)
      qed
      have l: "trp_len trp1 = trp_len trp + 1" "trp_state trp1 = trp_state trp" by (simp_all add: trp1_def)
      have n: "trp_len trp1 + length (enc (m div 128)) = trp_len trp + length (enc m)" using l(1) c(3) by simp
      obtain rc trp' s2 where IH: "decodenb_loop g trp1 s' = (rc, trp', s2)" "trp_state trp' = trp_state trp1"
          "nb_left pending patience s2 < nb_left pending patience s'"
          "(\<exists>m'. rc = 0 \<and> pending s2 = enc m' @ rest \<and> trp_len trp' + length (enc m') = trp_len trp + length (enc m) \<and>
             trp_rem_len trp' + int m' * trp_multiplier trp' = trp_rem_len trp + int m * trp_multiplier trp \<and>
             trp_len trp1 \<le> trp_len trp') \<or>
           (rc = int (trp_len trp + length (enc m)) \<and> pending s2 = rest \<and>
             trp_rem_len trp' = trp_rem_len trp + int m * trp_multiplier trp)"
        using "1.IH" [OF False, of s' trp1] b(2) c(2) "1.prems"(2) unfolding n v by auto
      show ?thesis using step d(2) IH l b(3) by auto
    qed
  qed
qed

section \<open>Reassembly\<close>

text \<open>
  Where the reader is in the packet \<open>h # enc n @ body\<close>, which \<open>rest\<close> follows: in the body with \<open>b\<close> missing, in the
  remaining length with \<open>m\<close> missing, or before the header. \<open>buf0\<close> is the buffer at the start.
\<close>

definition nb_in_body ::
  "u8 \<Rightarrow> bytes \<Rightarrow> bytes \<Rightarrow> bytes \<Rightarrow> ('s \<Rightarrow> bytes) \<Rightarrow> bytes \<Rightarrow> MQTTTransport \<Rightarrow> 's \<Rightarrow> bool" where
  "nb_in_body h body rest buf0 pending buf trp s \<longleftrightarrow>
     (\<exists>d b. body = d @ b \<and> pending s = b @ rest \<and> trp_rem_len trp = int (length b) \<and>
        trp_len trp = length (h # enc (length body) @ d) \<and>
        buf = (h # enc (length body) @ d) @ drop (length (h # enc (length body) @ d)) buf0)"

definition nb_in_length ::
  "u8 \<Rightarrow> bytes \<Rightarrow> bytes \<Rightarrow> bytes \<Rightarrow> ('s \<Rightarrow> bytes) \<Rightarrow> bytes \<Rightarrow> MQTTTransport \<Rightarrow> 's \<Rightarrow> bool" where
  "nb_in_length h body rest buf0 pending buf trp s \<longleftrightarrow>
     (\<exists>m. pending s = enc m @ body @ rest \<and> trp_len trp + length (enc m) = length (enc (length body)) \<and>
        (if trp_len trp = 0 then m = length body
         else trp_rem_len trp + int m * trp_multiplier trp = int (length body)) \<and> buf = h # drop 1 buf0)"

definition nb_reading ::
  "u8 \<Rightarrow> bytes \<Rightarrow> bytes \<Rightarrow> bytes \<Rightarrow> ('s \<Rightarrow> bytes) \<Rightarrow> bytes \<Rightarrow> MQTTTransport \<Rightarrow> 's \<Rightarrow> bool" where
  "nb_reading h body rest buf0 pending buf trp s \<longleftrightarrow>
     (if trp_state trp = 1 then nb_in_length h body rest buf0 pending buf trp s
      else if trp_state trp = 2 then nb_in_body h body rest buf0 pending buf trp s
      else pending s = h # enc (length body) @ body @ rest \<and> buf = buf0)"

text \<open>What one call does: it makes progress and asks to be called again, or it has the packet.\<close>

definition nb_outcome ::
  "u8 \<Rightarrow> bytes \<Rightarrow> bytes \<Rightarrow> bytes \<Rightarrow> ('s \<Rightarrow> bytes) \<Rightarrow> ('s \<Rightarrow> nat) \<Rightarrow> 's \<Rightarrow> (int \<times> bytes \<times> MQTTTransport \<times> 's) option \<Rightarrow> bool" where
  "nb_outcome h body rest buf0 pending patience s res \<longleftrightarrow>
     (\<exists>rc buf' trp' s'. res = Some (rc, buf', trp', s') \<and>
        (rc = 0 \<and> nb_left pending patience s' < nb_left pending patience s \<and> nb_reading h body rest buf0 pending buf' trp' s' \<or>
         rc = uint (header_type h) \<and> pending s' = rest \<and> trp_state trp' = 0 \<and>
         buf' = (h # enc (length body) @ body) @ drop (length (h # enc (length body) @ body)) buf0))"

lemma outcome_mono:
  "nb_outcome h body rest buf0 pending patience s1 res \<Longrightarrow> nb_left pending patience s1 \<le> nb_left pending patience s \<Longrightarrow>
   nb_outcome h body rest buf0 pending patience s res"
  unfolding nb_outcome_def by (elim exE conjE disjE) (auto intro: order_less_le_trans)

lemma drop_write:
  assumes "length xs + length ys \<le> length buf0"
  shows "mem_write (xs @ drop (length xs) buf0) (length xs) ys = Some ((xs @ ys) @ drop (length (xs @ ys)) buf0)"
  using assms by (simp add: mem_write_Some add.commute)

lemma readnb_done_ok:
  assumes "pending s = rest"
  shows "nb_outcome h body rest buf0 pending patience s'
    (readnb_done ((h # enc (length body) @ body) @ drop (length (h # enc (length body) @ body)) buf0) trp s)"
  using assms by (simp add: nb_outcome_def readnb_done_def readnb_exit_def mem_get_def)

lemma readnb_body_ok:
  assumes src: "nb_source g pending patience" and st: "trp_state trp = 2"
    and fit: "length (h # enc (length body) @ body) \<le> length buf0" and inv: "nb_in_body h body rest buf0 pending buf trp s"
  shows "nb_outcome h body rest buf0 pending patience s (readnb_body g buf trp s)"
proof -
  obtain d b where i: "body = d @ b" "pending s = b @ rest" "trp_rem_len trp = int (length b)"
      "trp_len trp = length (h # enc (length body) @ d)"
      "buf = (h # enc (length body) @ d) @ drop (length (h # enc (length body) @ d)) buf0"
    using inv unfolding nb_in_body_def by blast
  show ?thesis
  proof (cases "b = []")
    case True
    then show ?thesis using readnb_done_ok [of pending s rest h body buf0 patience s trp] i by (simp add: readnb_body_def)
  next
    case False
    show ?thesis
    proof (rule nb_source_cases [OF src, of "nat (trp_rem_len trp)" s])
      fix s' assume a: "g s (nat (trp_rem_len trp)) = (0, [], s')" "pending s' = pending s" "nb_left pending patience s' < nb_left pending patience s"
      have "mem_write buf (trp_len trp) [] = Some buf" using i(4,5) fit i(1) by (simp add: mem_write_Some)
      then have "readnb_body g buf trp s = Some (0, buf, trp, s')" using a(1) i(3) False by (simp add: readnb_body_def)
      moreover have "nb_in_body h body rest buf0 pending buf trp s'" using i a(2) unfolding nb_in_body_def by metis
      ultimately show ?thesis using a(3) st by (simp add: nb_outcome_def nb_reading_def)
    next
      fix k s' assume k: "0 < k" "k \<le> nat (trp_rem_len trp)" "g s (nat (trp_rem_len trp)) = (int k, take k (pending s), s')"
        "pending s' = drop k (pending s)" "nb_left pending patience s' < nb_left pending patience s"
      have kb: "k \<le> length b" using k(2) i(3) by simp
      let ?d = "d @ take k b"
      define buf1 where "buf1 = (h # enc (length body) @ ?d) @ drop (length (h # enc (length body) @ ?d)) buf0"
      define trp1 where "trp1 = trp\<lparr>trp_rem_len := trp_rem_len trp - int k, trp_len := nat (int (trp_len trp) + int k)\<rparr>"
      have w: "mem_write buf (trp_len trp) (take k b) = Some buf1"
        using drop_write [of "h # enc (length body) @ d" "take k b" buf0] fit i(1,4,5) by (simp add: buf1_def)
      have step: "readnb_body g buf trp s = (if trp_rem_len trp1 \<noteq> 0 then Some (0, buf1, trp1, s') else readnb_done buf1 trp1 s')"
        using k(1,3) kb i(2,3) False w by (simp add: readnb_body_def trp1_def Let_def)
      have p: "pending s' = drop k b @ rest" "trp_rem_len trp1 = int (length (drop k b))" using k(4) i(2,3) kb by (simp_all add: trp1_def)
      show ?thesis
      proof (cases "k = length b")
        case True
        then have "buf1 = (h # enc (length body) @ body) @ drop (length (h # enc (length body) @ body)) buf0"
          using i(1) by (simp add: buf1_def)
        then show ?thesis using step p True readnb_done_ok [of pending s' rest h body buf0 patience s trp1] by simp
      next
        case C: False
        have "nb_in_body h body rest buf0 pending buf1 trp1 s'"
          unfolding nb_in_body_def
          by (rule exI [of _ ?d], rule exI [of _ "drop k b"]) (use p i kb in \<open>simp add: buf1_def trp1_def\<close>)
        then show ?thesis using step p(2) C kb k(5) st by (simp add: nb_outcome_def nb_reading_def trp1_def)
      qed
    qed (use False i in auto)
  qed
qed

lemma readnb_length_ok:
  assumes src: "nb_source g pending patience" and st: "trp_state trp = 1" and n: "length body < 268435456"
    and fit: "length (h # enc (length body) @ body) \<le> length buf0" "int (length (h # enc (length body) @ body)) \<le> buflen"
    and inv: "nb_in_length h body rest buf0 pending buf trp s"
  shows "nb_outcome h body rest buf0 pending patience s (readnb_length g buflen buf trp s)"
proof -
  let ?n = "length body"
  obtain m where i: "pending s = enc m @ body @ rest" "trp_len trp + length (enc m) = length (enc ?n)"
      "if trp_len trp = 0 then m = ?n else trp_rem_len trp + int m * trp_multiplier trp = int ?n" "buf = h # drop 1 buf0"
    using inv unfolding nb_in_length_def by blast
  define trp0 where "trp0 = (if trp_len trp = 0 then trp\<lparr>trp_multiplier := 1, trp_rem_len := 0\<rparr> else trp)"
  have t0: "trp_len trp0 = trp_len trp" "trp_state trp0 = 1" "trp_rem_len trp0 + int m * trp_multiplier trp0 = int ?n"
    using i(3) st by (auto simp: trp0_def)
  have e4: "length (enc ?n) \<le> 4" using length_enc_cases [OF n] by simp
  obtain rc trp1 s1 where d: "MQTTPacket_decodenb g trp s = (rc, trp1, s1)" "trp_state trp1 = 1"
      "nb_left pending patience s1 < nb_left pending patience s"
      "(\<exists>m'. rc = 0 \<and> pending s1 = enc m' @ body @ rest \<and> trp_len trp1 + length (enc m') = length (enc ?n) \<and>
          trp_rem_len trp1 + int m' * trp_multiplier trp1 = int ?n \<and> trp_len trp \<le> trp_len trp1 \<and> (trp_len trp1 = trp_len trp \<longrightarrow> m' = m)) \<or>
       (rc = int (length (enc ?n)) \<and> pending s1 = body @ rest \<and> trp_rem_len trp1 = int ?n)"
    using decodenb_loop_ok [OF src i(1), of trp0] i(2) e4 t0 by (auto simp: MQTTPacket_decodenb_def trp0_def)
  show ?thesis
  proof (cases "rc = 0")
    case True
    have "length (enc ?n) \<noteq> 0" by (subst length_enc) simp
    then obtain m' where "pending s1 = enc m' @ body @ rest" "trp_len trp1 + length (enc m') = length (enc ?n)"
        "trp_rem_len trp1 + int m' * trp_multiplier trp1 = int ?n" "trp_len trp1 = 0 \<longrightarrow> m' = ?n"
      using d(4) True i(3) by auto
    then have "nb_in_length h body rest buf0 pending buf trp1 s1" using i(4) unfolding nb_in_length_def by auto
    then show ?thesis using d(1,2,3) True by (simp add: readnb_length_def nb_outcome_def nb_reading_def MQTTPACKET_READ_ERROR_def)
  next
    case False
    then have r: "rc = int (length (enc ?n))" "pending s1 = body @ rest" "trp_rem_len trp1 = int ?n" using d(4) by auto
    let ?buf1 = "(h # enc ?n) @ drop (length (h # enc ?n)) buf0"
    have b: "buf = [h] @ drop (length [h]) buf0" using i(4) by simp
    have enc: "MQTTPacket_encode (int ?n) buf 1 = Some (length (enc ?n), ?buf1)"
      using drop_write [of "[h]" "enc ?n" buf0] fit(1) encode_loop_writes [of 1 0 buf ?n] unfolding b
      by (simp add: MQTTPacket_encode_def)
    define trp2 where "trp2 = trp1\<lparr>trp_len := 1 + length (enc ?n), trp_state := 2\<rparr>"
    have "nb_in_body h body rest buf0 pending ?buf1 trp2 s1"
      unfolding nb_in_body_def
      by (rule exI [of _ "[]"], rule exI [of _ body]) (use r in \<open>simp add: trp2_def\<close>)
    then have "nb_outcome h body rest buf0 pending patience s1 (readnb_body g ?buf1 trp2 s1)"
      using readnb_body_ok [OF src _ fit(1), of trp2] by (simp add: trp2_def)
    moreover have "readnb_length g buflen buf trp s = readnb_body g ?buf1 trp2 s1"
      using d(1,2) r False enc fit(2) by (simp add: readnb_length_def trp2_def MQTTPACKET_READ_ERROR_def)
    ultimately show ?thesis using outcome_mono d(3) by fastforce
  qed
qed

lemma readnb_step:
  assumes src: "nb_source g pending patience" and n: "length body < 268435456"
    and fit: "length (h # enc (length body) @ body) \<le> length buf0" "int (length (h # enc (length body) @ body)) \<le> buflen"
    and inv: "nb_reading h body rest buf0 pending buf trp s"
  shows "nb_outcome h body rest buf0 pending patience s (MQTTPacket_readnb g buflen buf trp s)"
proof (cases "trp_state trp = 1 \<or> trp_state trp = 2")
  case True
  then show ?thesis
    using inv readnb_length_ok [OF src _ n fit, of trp] readnb_body_ok [OF src _ fit(1), of trp]
    by (auto simp: MQTTPacket_readnb_def nb_reading_def split: if_splits)
next
  case False
  then have p: "pending s = h # (enc (length body) @ body @ rest)" "buf = buf0" using inv by (auto simp: nb_reading_def)
  show ?thesis
  proof (rule nb_source_byte [OF src p(1)])
    fix s' assume a: "g s 1 = (0, [], s')" "pending s' = h # (enc (length body) @ body @ rest)" "nb_left pending patience s' < nb_left pending patience s"
    then show ?thesis using False p(2) by (simp add: MQTTPacket_readnb_def mem_write_Some nb_outcome_def nb_reading_def Let_def)
  next
    fix s' assume b: "g s 1 = (1, [h], s')" "pending s' = enc (length body) @ body @ rest" "nb_left pending patience s' < nb_left pending patience s"
    let ?trp = "trp\<lparr>trp_len := 0, trp_state := 1\<rparr>"
    have "mem_write buf0 0 [h] = Some (h # drop 1 buf0)" using fit(1) by (simp add: mem_write_Some)
    then have "MQTTPacket_readnb g buflen buf trp s = readnb_length g buflen (h # drop 1 buf0) ?trp s'"
      using False p(2) b(1) by (simp add: MQTTPacket_readnb_def Let_def)
    moreover have "nb_in_length h body rest buf0 pending (h # drop 1 buf0) ?trp s'" using b(2) by (simp add: nb_in_length_def)
    ultimately show ?thesis using readnb_length_ok [OF src _ n fit, of ?trp] outcome_mono b(3) by fastforce
  qed
qed

text \<open>Calling the reader until it does not ask to be called again.\<close>

fun readnb_poll ::
  "nat \<Rightarrow> 's getfn \<Rightarrow> int \<Rightarrow> bytes \<Rightarrow> MQTTTransport \<Rightarrow> 's \<Rightarrow> (int \<times> bytes \<times> MQTTTransport \<times> 's) option" where
  "readnb_poll 0 g buflen buf trp s = None"
| "readnb_poll (Suc calls) g buflen buf trp s =
     do { (rc, buf1, trp1, s1) \<leftarrow> MQTTPacket_readnb g buflen buf trp s;
          if rc = 0 then readnb_poll calls g buflen buf1 trp1 s1 else Some (rc, buf1, trp1, s1) }"

lemma readnb_poll_ok:
  assumes src: "nb_source g pending patience" and n: "length body < 268435456" and h: "header_type h \<noteq> 0"
    and fit: "length (h # enc (length body) @ body) \<le> length buf0" "int (length (h # enc (length body) @ body)) \<le> buflen"
  shows "nb_reading h body rest buf0 pending buf trp s \<Longrightarrow> nb_left pending patience s < calls \<Longrightarrow>
    \<exists>trp' s'. readnb_poll calls g buflen buf trp s =
      Some (uint (header_type h), (h # enc (length body) @ body) @ drop (length (h # enc (length body) @ body)) buf0, trp', s') \<and>
      pending s' = rest \<and> trp_state trp' = 0"
proof (induction calls arbitrary: buf trp s)
  case (Suc calls)
  obtain rc buf' trp' s' where o: "MQTTPacket_readnb g buflen buf trp s = Some (rc, buf', trp', s')"
      "rc = 0 \<and> nb_left pending patience s' < nb_left pending patience s \<and> nb_reading h body rest buf0 pending buf' trp' s' \<or>
       rc = uint (header_type h) \<and> pending s' = rest \<and> trp_state trp' = 0 \<and>
       buf' = (h # enc (length body) @ body) @ drop (length (h # enc (length body) @ body)) buf0"
    using readnb_step [OF src n fit Suc.prems(1)] unfolding nb_outcome_def by blast
  show ?case
  proof (cases "rc = 0")
    case True
    then show ?thesis using o h Suc.IH [of buf' trp' s'] Suc.prems(2) by (auto simp: uint_0_iff)
  next
    case False
    then show ?thesis using o by auto
  qed
qed simp

section \<open>Properties\<close>

text \<open>
  Property C31. The resumable reader reassembles packets: whatever the pieces in which the callback
  delivers a packet and however often it asks to be called again in between, in the header, in the remaining
  length or in the body, polling \<^verbatim>\<open>MQTTPacket_readnb\<close> returns the type of the packet after at most as many
  calls as there are bytes and pauses, with exactly the packet in the buffer, nothing else changed, the
  bytes behind the packet not taken, and the transport ready for the next packet.
\<close>

theorem readnb_reassembles:
  assumes "nb_source g pending patience" and "pending s = h # enc (length body) @ body @ rest"
    and "length body < 268435456" and "header_type h \<noteq> 0" and "trp_state trp = 0"
    and "1 + length (enc (length body)) + length body \<le> length buf" and "int (1 + length (enc (length body)) + length body) \<le> buflen"
  shows "\<exists>trp' s'. readnb_poll (1 + length (pending s) + patience s) g buflen buf trp s =
      Some (uint (header_type h), h # enc (length body) @ body @ drop (1 + length (enc (length body)) + length body) buf, trp', s') \<and>
    pending s' = rest \<and> trp_state trp' = 0"
proof -
  have "nb_reading h body rest buf pending buf trp s" using assms(2,5) by (simp add: nb_reading_def)
  from readnb_poll_ok [OF assms(1,3,4) _ _ this, of buflen "1 + length (pending s) + patience s"]
  show ?thesis using assms(6,7) by (simp add: nb_left_def)
qed

text \<open>A callback that delivers the chunks of a list, an empty one being a pause; at the end it fails.\<close>

fun chunk_getfn :: "bytes list getfn" where
  "chunk_getfn [] n = (- 1, [], [])"
| "chunk_getfn ([] # cs) n = (0, [], cs)"
| "chunk_getfn (c # cs) n = (int (length (take n c)), take n c, if length c \<le> n then cs else drop n c # cs)"

lemma chunk_source: "nb_source chunk_getfn concat length"
proof -
  have "(\<exists>s'. chunk_getfn s n = (0, [], s') \<and> concat s' = concat s \<and> length s' < length s) \<or>
      (\<exists>k s'. 0 < k \<and> k \<le> n \<and> k \<le> length (concat s) \<and> chunk_getfn s n = (int k, take k (concat s), s') \<and>
         concat s' = drop k (concat s) \<and> length s' \<le> length s)" if n: "0 < n" "concat s \<noteq> []" for n and s :: "bytes list"
  proof (cases s)
    case (Cons c cs)
    show ?thesis
    proof (cases c)
      case (Cons x xs)
      let ?k = "min n (length c)"
      have "0 < ?k" "?k \<le> n" "?k \<le> length (concat s)" using n(1) Cons \<open>s = c # cs\<close> by auto
      moreover have "chunk_getfn s n = (int ?k, take ?k (concat s), if length c \<le> n then cs else drop n c # cs)"
        using Cons \<open>s = c # cs\<close> by (auto simp: min_def take_Cons')
      moreover have "concat (if length c \<le> n then cs else drop n c # cs) = drop ?k (concat s)"
        using \<open>s = c # cs\<close> by (simp add: min_def)
      moreover have "length (if length c \<le> n then cs else drop n c # cs) \<le> length s" using \<open>s = c # cs\<close> by simp
      ultimately show ?thesis by blast
    qed (use Cons in auto)
  qed (use n(2) in simp)
  then show ?thesis unfolding nb_source_def by blast
qed

theorem readnb_reassembles_witness:
  "\<exists>trp' s'. readnb_poll (1 + length (concat [[], [0x40], [], [2, 7], [], [8, 9]]) + length [[], [0x40], [], [2, 7], [], [8, 9 :: u8]])
      chunk_getfn 6 [1, 1, 1, 1, 1, 1] \<lparr>trp_multiplier = 0, trp_rem_len = 0, trp_len = 0, trp_state = 0\<rparr>
      [[], [0x40], [], [2, 7], [], [8, 9]] =
    Some (4, [0x40, 2, 7, 8, 1, 1], trp', s') \<and> concat s' = [9]"
proof -
  have e: "enc 2 = [2]" "enc (Suc (Suc 0)) = [2]" by (simp_all add: enc.simps)
  have h: "uint (header_type 0x40) = 4" by code_simp
  have h0: "header_type 0x40 \<noteq> 0" using h by auto
  show ?thesis
    using readnb_reassembles [OF chunk_source, of "[[], [0x40], [], [2, 7], [], [8, 9]]" "0x40" "[7, 8]" "[9]"
      "\<lparr>trp_multiplier = 0, trp_rem_len = 0, trp_len = 0, trp_state = 0\<rparr>" "[1, 1, 1, 1, 1, 1]" 6] h0
    by (auto simp: e h)
qed

end
