(* ===== verification/MqttPublish.thy ===== *)
theory MqttPublish
  imports MqttPacket
begin

text \<open>
  PUBLISH packets and the four acknowledgements (\<^verbatim>\<open>MQTTSerializePublish.c\<close> and
  \<^verbatim>\<open>MQTTDeserializePublish.c\<close>): serializers, deserializers, their interpretation as packet codecs,
  and what the deserializers do with packets that are too short.
\<close>

section \<open>Operations\<close>

definition MQTTSerialize_publishLength :: "int \<Rightarrow> MQTTString \<Rightarrow> int \<Rightarrow> int" where
  "MQTTSerialize_publishLength qos topicName payloadlen =
     (let len = 2 + MQTTstrlen topicName + payloadlen in if qos > 0 then len + 2 else len)"

definition MQTTSerialize_publish ::
  "bytes \<Rightarrow> int \<Rightarrow> u8 \<Rightarrow> int \<Rightarrow> u8 \<Rightarrow> u16 \<Rightarrow> MQTTString \<Rightarrow> bytes \<Rightarrow> int \<Rightarrow> (int \<times> bytes) option" where
  "MQTTSerialize_publish buf buflen dup qos retained packetid topicName payload payloadlen =
     (let rem_len = MQTTSerialize_publishLength qos topicName payloadlen in
      if MQTTPacket_len rem_len > buflen then Some (MQTTPACKET_BUFFER_TOO_SHORT, buf)
      else serialized (do {
        cur \<leftarrow> writeChar (MQTTHeader PUBLISH dup (word_of_int qos) retained) (buf, 0);
        cur \<leftarrow> writeRemLen rem_len cur;
        cur \<leftarrow> writeMQTTString topicName cur;
        cur \<leftarrow> (if qos > 0 then writeInt (uint packetid) cur else Some cur);
        src \<leftarrow> (if payloadlen < 0 then None else mem_read payload 0 (nat payloadlen));
        writeBlock src cur }))"

definition MQTTSerialize_ack :: "bytes \<Rightarrow> int \<Rightarrow> u8 \<Rightarrow> u8 \<Rightarrow> u16 \<Rightarrow> (int \<times> bytes) option" where
  "MQTTSerialize_ack buf buflen packettype dup packetid =
     (if buflen < 4 then Some (MQTTPACKET_BUFFER_TOO_SHORT, buf)
      else serialized (do {
        cur \<leftarrow> writeChar (MQTTHeader packettype dup (if packettype = PUBREL then 1 else 0) 0) (buf, 0);
        cur \<leftarrow> writeRemLen 2 cur;
        writeInt (uint packetid) cur }))"

definition MQTTSerialize_puback :: "bytes \<Rightarrow> int \<Rightarrow> u16 \<Rightarrow> (int \<times> bytes) option" where
  "MQTTSerialize_puback buf buflen packetid = MQTTSerialize_ack buf buflen PUBACK 0 packetid"

definition MQTTSerialize_pubrel :: "bytes \<Rightarrow> int \<Rightarrow> u8 \<Rightarrow> u16 \<Rightarrow> (int \<times> bytes) option" where
  "MQTTSerialize_pubrel buf buflen dup packetid = MQTTSerialize_ack buf buflen PUBREL dup packetid"

definition MQTTSerialize_pubcomp :: "bytes \<Rightarrow> int \<Rightarrow> u16 \<Rightarrow> (int \<times> bytes) option" where
  "MQTTSerialize_pubcomp buf buflen packetid = MQTTSerialize_ack buf buflen PUBCOMP 0 packetid"

text \<open>The output parameters; \<^verbatim>\<open>*payload\<close> is the index of the payload in the packet buffer.\<close>

record publish_out =
  pub_dup :: u8
  pub_qos :: int
  pub_retained :: u8
  pub_packetid :: u16
  pub_topicName :: MQTTString
  pub_payload :: nat
  pub_payloadlen :: int

definition MQTTDeserialize_publish :: "bytes \<Rightarrow> int \<Rightarrow> publish_out \<Rightarrow> (int \<times> publish_out) option" where
  "MQTTDeserialize_publish buf buflen out0 =
     do { (header, cur0) \<leftarrow> readChar buf 0;
          if header_type header \<noteq> PUBLISH then Some (0, out0)
          else do {
            let out1 = out0\<lparr>pub_dup := header_dup header, pub_qos := uint (header_qos header),
                            pub_retained := header_retain header\<rparr>;
            (rc, mylen) \<leftarrow> MQTTPacket_decodeBuf buf cur0;
            let cur1 = cur0 + rc;
            let enddata = int cur1 + mylen;
            (ok, topic, cur2) \<leftarrow> readMQTTLenString (pub_topicName out1) buf cur1 enddata;
            let out2 = out1\<lparr>pub_topicName := topic\<rparr>;
            if ok = 0 \<or> enddata - int cur2 < 0 then Some (int rc, out2)
            else do {
              (out3, cur3) \<leftarrow>
                (if pub_qos out2 > 0
                 then do { (i, c) \<leftarrow> readInt buf cur2; Some (out2\<lparr>pub_packetid := word_of_int i\<rparr>, c) }
                 else Some (out2, cur2));
              Some (1, out3\<lparr>pub_payloadlen := enddata - int cur3, pub_payload := cur3\<rparr>) } } }"

record ack_out =
  ack_packettype :: u8
  ack_dup :: u8
  ack_packetid :: u16

definition MQTTDeserialize_ack :: "bytes \<Rightarrow> int \<Rightarrow> ack_out \<Rightarrow> (int \<times> ack_out) option" where
  "MQTTDeserialize_ack buf buflen out0 =
     do { (header, cur0) \<leftarrow> readChar buf 0;
          let out1 = out0\<lparr>ack_dup := header_dup header, ack_packettype := header_type header\<rparr>;
          (rc, mylen) \<leftarrow> MQTTPacket_decodeBuf buf cur0;
          let cur1 = cur0 + rc;
          let enddata = int cur1 + mylen;
          if enddata - int cur1 < 2 then Some (int rc, out1)
          else do { (i, c) \<leftarrow> readInt buf cur1;
                    Some (1, out1\<lparr>ack_packetid := word_of_int i\<rparr>) } }"

section \<open>The packets\<close>

definition publish_rem :: "int \<Rightarrow> MQTTString \<Rightarrow> bytes \<Rightarrow> nat" where
  "publish_rem qos topic payload =
     2 + length (mqtt_text topic) + (if qos > 0 then 2 else 0) + length payload"

fun publish_wire :: "u8 \<times> int \<times> u8 \<times> u16 \<times> MQTTString \<times> bytes \<Rightarrow> bytes" where
  "publish_wire (dup, qos, retained, packetid, topic, payload) =
     [MQTTHeader PUBLISH dup (word_of_int qos) retained] @ enc (publish_rem qos topic payload) @
     enc_str (mqtt_text topic) @ (if qos > 0 then enc16 (unat packetid) else []) @ payload"

fun publish_wf :: "u8 \<times> int \<times> u8 \<times> u16 \<times> MQTTString \<times> bytes \<Rightarrow> bool" where
  "publish_wf (dup, qos, retained, packetid, topic, payload) \<longleftrightarrow>
     0 \<le> qos \<and> qos \<le> 2 \<and> MQTTString_wf topic \<and> publish_rem qos topic payload < 268435456"

fun publish_need :: "u8 \<times> int \<times> u8 \<times> u16 \<times> MQTTString \<times> bytes \<Rightarrow> int" where
  "publish_need (dup, qos, retained, packetid, topic, payload) =
     MQTTPacket_len (int (publish_rem qos topic payload))"

fun publish_view ::
  "u8 \<times> int \<times> u8 \<times> u16 \<times> MQTTString \<times> bytes \<Rightarrow> publish_out \<Rightarrow> publish_out" where
  "publish_view (dup, qos, retained, packetid, topic, payload) out =
     out\<lparr>pub_dup := take_bit 1 dup, pub_qos := qos, pub_retained := take_bit 1 retained,
         pub_packetid := (if qos > 0 then packetid else pub_packetid out),
         pub_topicName := lenstring (mqtt_text topic),
         pub_payload := 1 + length (enc (publish_rem qos topic payload)) +
           (2 + length (mqtt_text topic)) + (if qos > 0 then 2 else 0),
         pub_payloadlen := int (length payload)\<rparr>"

fun publish_serialize ::
  "bytes \<Rightarrow> int \<Rightarrow> u8 \<times> int \<times> u8 \<times> u16 \<times> MQTTString \<times> bytes \<Rightarrow> (int \<times> bytes) option" where
  "publish_serialize buf buflen (dup, qos, retained, packetid, topic, payload) =
     MQTTSerialize_publish buf buflen dup qos retained packetid topic payload (int (length payload))"

lemma publishLength_rem:
  "MQTTString_wf topic \<Longrightarrow>
   MQTTSerialize_publishLength qos topic (int (length payload)) = int (publish_rem qos topic payload)"
  by (simp add: MQTTSerialize_publishLength_def publish_rem_def MQTTstrlen_text)

lemma length_publish_wire:
  "length (publish_wire (dup, qos, retained, packetid, topic, payload)) =
     1 + length (enc (publish_rem qos topic payload)) + publish_rem qos topic payload"
  by (simp add: publish_rem_def)

lemma emits_publish:
  assumes "MQTTString_wf topic"
  shows "emits (\<lambda>cur. do {
        cur \<leftarrow> writeChar (MQTTHeader PUBLISH dup (word_of_int qos) retained) cur;
        cur \<leftarrow> writeRemLen (int (publish_rem qos topic payload)) cur;
        cur \<leftarrow> writeMQTTString topic cur;
        cur \<leftarrow> (if qos > 0 then writeInt (uint packetid) cur else Some cur);
        writeBlock payload cur })
      (publish_wire (dup, qos, retained, packetid, topic, payload))"
  unfolding publish_wire.simps by (intro emission assms)

lemma uint_qos: "0 \<le> qos \<Longrightarrow> qos \<le> 2 \<Longrightarrow> uint (take_bit 2 (word_of_int qos :: u8)) = qos"
proof -
  assume "0 \<le> qos" and "qos \<le> 2"
  then have "qos = 0 \<or> qos = 1 \<or> qos = 2" by auto
  then show ?thesis by auto
qed

lemma take_bit_msgTypes [simp]:
  "take_bit 4 CONNECT = CONNECT" "take_bit 4 CONNACK = CONNACK" "take_bit 4 PUBLISH = PUBLISH"
  "take_bit 4 SUBSCRIBE = SUBSCRIBE" "take_bit 4 SUBACK = SUBACK"
  "take_bit 4 UNSUBSCRIBE = UNSUBSCRIBE" "take_bit 4 UNSUBACK = UNSUBACK"
  by (simp_all add: msgTypes_defs)

interpretation publish: packet_codec publish_serialize MQTTDeserialize_publish
  publish_wf publish_wire publish_need "\<lambda>_ _. True" publish_view
proof (unfold_locales, goal_cases)
  case (1 m buflen buf)
  then show ?case by (cases m) (simp add: MQTTSerialize_publish_def publishLength_rem Let_def)
next
  case (2 m buflen buf)
  obtain dup qos retained packetid topic payload
    where m: "m = (dup, qos, retained, packetid, topic, payload)" by (cases m) blast
  have wf: "MQTTString_wf topic" and len: "length (publish_wire m) \<le> length buf"
    using 2 MQTTPacket_len_bound [of "publish_rem qos topic payload"]
    by (simp_all add: m length_publish_wire del: publish_wire.simps)
  show ?case
    using emits_run [OF emits_publish [OF wf] len [unfolded m]] 2
    by (simp add: m MQTTSerialize_publish_def publishLength_rem Let_def mem_read_def)
next
  case (3 m)
  then show ?case
    using MQTTPacket_len_bound by (cases m) (simp add: length_publish_wire del: publish_wire.simps)
next
  case (4 m out buf)
  obtain dup qos retained packetid topic payload
    where m: "m = (dup, qos, retained, packetid, topic, payload)" by (cases m) blast
  let ?rem = "publish_rem qos topic payload"
  let ?n = "1 + length (enc ?rem)"
  have wf: "0 \<le> qos" "qos \<le> 2" "MQTTString_wf topic" "?rem < 268435456" using 4(1) by (auto simp: m)
  have at: "holds_at buf 0 [MQTTHeader PUBLISH dup (word_of_int qos) retained]"
      "holds_at buf 1 (enc ?rem)" "holds_at buf ?n (enc_str (mqtt_text topic))"
      "qos > 0 \<Longrightarrow> holds_at buf (?n + length (mqtt_text topic) + 2) (enc16 (unat packetid))"
    using 4(3) by (auto simp: m holds_at_append holds_at_Cons holds_at_Nil add.assoc)
  have "length (mqtt_text topic) < 65536"
      "int (?n + length (mqtt_text topic) + 2) \<le> int ?n + int ?rem"
    using wf(3) by (auto simp: MQTTString_wf_def publish_rem_def)
  then have topic: "readMQTTLenString ms buf ?n (int ?n + int ?rem) =
      Some (1, lenstring (mqtt_text topic), ?n + length (mqtt_text topic) + 2)" for ms
    using at(3) by (intro reading)
  show ?case
    using readChar_holds [OF at(1)] decodeBuf_holds [OF at(2) wf(4)] topic uint_qos [OF wf(1,2)]
      readInt_u16 [OF at(4)]
    by (cases "qos > 0") (auto simp: MQTTDeserialize_publish_def m Let_def publish_rem_def algebra_simps)
qed

fun ack_wire :: "u8 \<times> u8 \<times> u16 \<Rightarrow> bytes" where
  "ack_wire (packettype, dup, packetid) =
     [MQTTHeader packettype dup (if packettype = PUBREL then 1 else 0) 0] @ enc 2 @ enc16 (unat packetid)"

fun ack_wf :: "u8 \<times> u8 \<times> u16 \<Rightarrow> bool" where
  "ack_wf (packettype, dup, packetid) \<longleftrightarrow> packettype < 16"

fun ack_view :: "u8 \<times> u8 \<times> u16 \<Rightarrow> ack_out \<Rightarrow> ack_out" where
  "ack_view (packettype, dup, packetid) out =
     out\<lparr>ack_packettype := packettype, ack_dup := take_bit 1 dup, ack_packetid := packetid\<rparr>"

fun ack_serialize :: "bytes \<Rightarrow> int \<Rightarrow> u8 \<times> u8 \<times> u16 \<Rightarrow> (int \<times> bytes) option" where
  "ack_serialize buf buflen (packettype, dup, packetid) =
     MQTTSerialize_ack buf buflen packettype dup packetid"

lemma take_bit_4_small: "(t :: u8) < 16 \<Longrightarrow> take_bit 4 t = t"
  by (simp add: take_bit_eq_mod word_less_def uint_mod word_mod_def)

lemma length_ack_wire: "length (ack_wire m) = 4"
  by (cases m) (simp add: length_enc [of 2])

lemma emits_ack:
  "emits (\<lambda>cur. do {
      cur \<leftarrow> writeChar (MQTTHeader packettype dup (if packettype = PUBREL then 1 else 0) 0) cur;
      cur \<leftarrow> writeRemLen (int 2) cur;
      writeInt (uint packetid) cur })
    (ack_wire (packettype, dup, packetid))"
  unfolding ack_wire.simps by (intro emission)

interpretation ack: packet_codec ack_serialize MQTTDeserialize_ack ack_wf ack_wire
  "\<lambda>_. 4" "\<lambda>_ _. True" ack_view
proof (unfold_locales, goal_cases)
  case (1 m buflen buf)
  then show ?case by (cases m) (simp add: MQTTSerialize_ack_def)
next
  case (2 m buflen buf)
  obtain packettype dup packetid where m: "m = (packettype, dup, packetid)" by (cases m) blast
  have "length (ack_wire m) \<le> length buf" using 2 by (simp add: length_ack_wire)
  from emits_run [OF emits_ack this [unfolded m]] show ?case
    using 2 by (simp add: m MQTTSerialize_ack_def)
next
  case (3 m)
  then show ?case by (simp add: length_ack_wire)
next
  case (4 m out buf)
  obtain packettype dup packetid where m: "m = (packettype, dup, packetid)" by (cases m) blast
  have at: "holds_at buf 0 [MQTTHeader packettype dup (if packettype = PUBREL then 1 else 0) 0]"
      "holds_at buf 1 (enc 2)" "holds_at buf (1 + length (enc 2)) (enc16 (unat packetid))"
    using 4(3) by (auto simp: m holds_at_append holds_at_Cons holds_at_Nil)
  show ?case
    using 4(1) readChar_holds [OF at(1)] decodeBuf_holds [OF at(2)] readInt_u16 [OF at(3)]
    by (simp add: MQTTDeserialize_ack_def m Let_def take_bit_4_small)
qed

text \<open>The locals of a caller before the call.\<close>

definition publish_locals :: publish_out where
  "publish_locals = \<lparr>pub_dup = 0, pub_qos = 0, pub_retained = 0, pub_packetid = 0,
     pub_topicName = MQTTString_initializer, pub_payload = 0, pub_payloadlen = 0\<rparr>"

section \<open>Properties\<close>

text \<open>
  Property C16. PUBLISH round trip: for every well-formed message and every buffer that is as long
  as the caller says, \<^verbatim>\<open>MQTTSerialize_publish\<close> either refuses a buffer that is too short without
  touching it, or writes a packet inside the first \<^verbatim>\<open>buflen\<close> bytes; \<^verbatim>\<open>MQTTDeserialize_publish\<close> of
  that packet succeeds and returns the same flags, quality of service, packet id (for quality of
  service 1 and 2), topic, and a payload pointer and length at which the payload bytes stand.
\<close>

theorem publish_roundtrip:
  assumes "0 \<le> qos" and "qos \<le> 2" and "MQTTString_wf topic"
    and "publish_rem qos topic payload < 268435456" and "buflen \<le> int (length buf)"
  shows "\<exists>rc buf'.
    MQTTSerialize_publish buf buflen dup qos retained packetid topic payload (int (length payload)) =
      Some (rc, buf') \<and> length buf' = length buf \<and>
    (if buflen < MQTTPacket_len (int (publish_rem qos topic payload))
     then rc = MQTTPACKET_BUFFER_TOO_SHORT \<and> buf' = buf
     else 0 \<le> rc \<and> rc \<le> buflen \<and> drop (nat rc) buf' = drop (nat rc) buf \<and>
       (\<exists>pout. MQTTDeserialize_publish buf' rc out = Some (1, pout) \<and>
          pub_dup pout = take_bit 1 dup \<and> pub_qos pout = qos \<and>
          pub_retained pout = take_bit 1 retained \<and>
          (qos > 0 \<longrightarrow> pub_packetid pout = packetid) \<and>
          pub_topicName pout = lenstring (mqtt_text topic) \<and>
          pub_payloadlen pout = int (length payload) \<and>
          take (nat (pub_payloadlen pout)) (drop (pub_payload pout) buf') = payload))"
proof -
  let ?m = "(dup, qos, retained, packetid, topic, payload)"
  have wf: "publish_wf ?m" using assms by simp
  obtain rc buf' where rc: "publish_serialize buf buflen ?m = Some (rc, buf')" "length buf' = length buf"
      "if buflen < publish_need ?m then rc = MQTTPACKET_BUFFER_TOO_SHORT \<and> buf' = buf
       else 0 \<le> rc \<and> rc \<le> buflen \<and> drop (nat rc) buf' = drop (nat rc) buf \<and>
            MQTTDeserialize_publish buf' rc out = Some (1, publish_view ?m out)"
    using publish.roundtrip [OF wf assms(5) TrueI, of out] by blast
  have "take (length payload) (drop (pub_payload (publish_view ?m out)) buf') = payload"
    if "\<not> buflen < publish_need ?m"
  proof -
    have "holds_at buf' 0 (publish_wire ?m)"
      using publish.emitted [OF wf _ assms(5)] that rc(1)
      by (auto simp del: publish_wire.simps intro: reading)
    then have "holds_at buf' (pub_payload (publish_view ?m out)) payload"
      by (auto simp: holds_at_append holds_at_Cons holds_at_Nil split: if_splits)
    then show ?thesis by (simp only: holds_at_def)
  qed
  then show ?thesis using rc by (intro exI [of _ rc] exI [of _ buf']) auto
qed

theorem publish_roundtrip_witness:
  "\<exists>rc buf'.
    MQTTSerialize_publish (replicate 16 0) 16 0 1 0 7 (lenstring [0x61, 0x2f, 0x62]) [1, 2, 3]
      (int (length [1, 2, 3 :: u8])) = Some (rc, buf') \<and> length buf' = length (replicate 16 (0::u8)) \<and>
    (if 16 < MQTTPacket_len (int (publish_rem 1 (lenstring [0x61, 0x2f, 0x62]) [1, 2, 3]))
     then rc = MQTTPACKET_BUFFER_TOO_SHORT \<and> buf' = replicate 16 0
     else 0 \<le> rc \<and> rc \<le> 16 \<and> drop (nat rc) buf' = drop (nat rc) (replicate 16 0) \<and>
       (\<exists>pout. MQTTDeserialize_publish buf' rc publish_locals = Some (1, pout) \<and>
          pub_dup pout = take_bit 1 0 \<and> pub_qos pout = 1 \<and> pub_retained pout = take_bit 1 0 \<and>
          ((1::int) > 0 \<longrightarrow> pub_packetid pout = 7) \<and>
          pub_topicName pout = lenstring (mqtt_text (lenstring [0x61, 0x2f, 0x62])) \<and>
          pub_payloadlen pout = int (length [1, 2, 3 :: u8]) \<and>
          take (nat (pub_payloadlen pout)) (drop (pub_payload pout) buf') = [1, 2, 3]))"
  by (rule publish_roundtrip) (simp_all add: MQTTString_wf_def lenstring_def mqtt_text_def publish_rem_def)


text \<open>
  Acknowledgement round trip: \<^verbatim>\<open>MQTTSerialize_ack\<close> refuses a buffer of less than four
  bytes and otherwise writes a four-byte packet from which \<^verbatim>\<open>MQTTDeserialize_ack\<close> recovers the
  packet type, the dup bit and the packet id.
\<close>

theorem ack_roundtrip:
  assumes "packettype < 16" and "buflen \<le> int (length buf)"
  shows "\<exists>rc buf'. MQTTSerialize_ack buf buflen packettype dup packetid = Some (rc, buf') \<and>
    length buf' = length buf \<and>
    (if buflen < 4 then rc = MQTTPACKET_BUFFER_TOO_SHORT \<and> buf' = buf
     else rc = 4 \<and> drop 4 buf' = drop 4 buf \<and>
       MQTTDeserialize_ack buf' rc out =
         Some (1, out\<lparr>ack_packettype := packettype, ack_dup := take_bit 1 dup, ack_packetid := packetid\<rparr>))"
proof (cases "buflen < 4")
  case True
  then show ?thesis by (simp add: MQTTSerialize_ack_def)
next
  case False
  let ?m = "(packettype, dup, packetid)"
  have wf: "ack_wf ?m" using assms(1) by simp
  have "ack_serialize buf buflen ?m = Some (4, ack_wire ?m @ drop 4 buf)"
    using ack.emitted [OF wf _ assms(2)] False by (simp add: length_ack_wire del: ack_wire.simps)
  then show ?thesis
    using ack.roundtrip [OF wf assms(2) TrueI, of out] False by auto
qed

theorem ack_roundtrip_witness:
  "\<exists>rc buf'. MQTTSerialize_ack (replicate 5 0) 5 PUBREL 1 513 = Some (rc, buf') \<and>
    length buf' = length (replicate 5 (0::u8)) \<and>
    (if (5::int) < 4 then rc = MQTTPACKET_BUFFER_TOO_SHORT \<and> buf' = replicate 5 0
     else rc = 4 \<and> drop 4 buf' = drop 4 (replicate 5 0) \<and>
       MQTTDeserialize_ack buf' rc \<lparr>ack_packettype = 0, ack_dup = 0, ack_packetid = 0\<rparr> =
         Some (1, \<lparr>ack_packettype = 0, ack_dup = 0, ack_packetid = 0\<rparr>
           \<lparr>ack_packettype := PUBREL, ack_dup := take_bit 1 1, ack_packetid := 513\<rparr>))"
  by (rule ack_roundtrip) (simp_all add: msgTypes_defs)

text \<open>
  A truncated acknowledgement is reported as a success: when the remaining length is
  0 or 1, \<^verbatim>\<open>MQTTDeserialize_ack\<close> returns 1, the number of length bytes left in \<^verbatim>\<open>rc\<close>, which is the
  value its comment reserves for success, and leaves the packet id of the caller unchanged.
\<close>

theorem ack_truncated_accepted:
  assumes "n < 2"
  shows "MQTTDeserialize_ack ([header, n] @ rest) buflen out =
           Some (1, out\<lparr>ack_dup := header_dup header, ack_packettype := header_type header\<rparr>)"
proof -
  have "unat n = 0 \<or> unat n = 1" using assms by (auto simp: word_less_nat_alt)
  then have n: "n = 0 \<or> n = 1" by (metis unat_0 unat_1 word_unat_eq_iff)
  have "holds_at ([header, n] @ rest) 1 (enc (unat n))"
    using n by (elim disjE) (simp_all add: holds_at_Cons holds_at_Nil enc.simps [of 0] enc.simps [of "Suc 0"])
  from decodeBuf_holds [OF this] show ?thesis
    using n by (elim disjE) (simp_all add: MQTTDeserialize_ack_def readChar_def mem_get_def length_enc)
qed

theorem ack_truncated_accepted_witness:
  "MQTTDeserialize_ack ([MQTTHeader PUBACK 0 0 0, 0] @ []) 2
      \<lparr>ack_packettype = 0, ack_dup = 0, ack_packetid = 9\<rparr> =
   Some (1, \<lparr>ack_packettype = 0, ack_dup = 0, ack_packetid = 9\<rparr>
      \<lparr>ack_dup := header_dup (MQTTHeader PUBACK 0 0 0),
        ack_packettype := header_type (MQTTHeader PUBACK 0 0 0)\<rparr>)"
  by (rule ack_truncated_accepted) simp

text \<open>
  A PUBLISH packet of quality of service 1 or 2 whose topic fills the remaining length
  has no room for the packet id, but \<^verbatim>\<open>MQTTDeserialize_publish\<close> accepts it: it reads the two bytes
  behind the packet as the id and returns success with a payload length of minus two.
\<close>

theorem publish_missing_id_accepted:
  assumes "length topic < 65536" and "qos \<in> {1, 2}"
  shows "\<exists>pout. MQTTDeserialize_publish
      ([MQTTHeader PUBLISH dup qos retained] @ enc (length topic + 2) @ enc_str topic @ [a, b] @ rest)
      buflen out = Some (1, pout) \<and>
    pub_payloadlen pout = -2 \<and> pub_packetid pout = word_of_int (256 * uint a + uint b)"
proof -
  let ?buf = "[MQTTHeader PUBLISH dup qos retained] @ enc (length topic + 2) @ enc_str topic @ [a, b] @ rest"
  let ?n = "1 + length (enc (length topic + 2))"
  have "holds_at ?buf 0 ?buf" by (simp only: holds_at_def drop_0 take_all_iff order_refl)
  then have at: "holds_at ?buf 0 [MQTTHeader PUBLISH dup qos retained]"
      "holds_at ?buf 1 (enc (length topic + 2))" "holds_at ?buf ?n (enc_str topic)"
      "holds_at ?buf (?n + length topic + 2) [a, b]"
    by (simp_all only: holds_at_append) (simp_all add: add_ac)
  have topic: "readMQTTLenString ms ?buf ?n (int ?n + int (length topic + 2)) =
      Some (1, lenstring topic, ?n + length topic + 2)" for ms
    using at(3) assms(1) by (intro reading) simp_all
  have pid: "readInt ?buf (?n + length topic + 2) =
      Some (256 * uint a + uint b, ?n + length topic + 2 + 2)"
    using at(4) by (simp only: holds_at_Cons readInt_def mem_get_def) simp
  have q: "0 < uint (take_bit 2 qos)" using assms(2) by auto
  show ?thesis
    unfolding MQTTDeserialize_publish_def
    using readChar_holds [OF at(1)] decodeBuf_holds [OF at(2)] assms(1) topic pid q
    by (simp del: append.simps add: Let_def)
qed

theorem publish_missing_id_accepted_witness:
  "\<exists>pout. MQTTDeserialize_publish
      ([MQTTHeader PUBLISH 0 1 0] @ enc (length [0x61::u8] + 2) @ enc_str [0x61] @ [1, 2] @ [])
      5 publish_locals = Some (1, pout) \<and>
    pub_payloadlen pout = -2 \<and> pub_packetid pout = word_of_int (256 * uint (1::u8) + uint (2::u8))"
  by (rule publish_missing_id_accepted) simp_all

end
