(* ===== verification/MqttConnect.thy ===== *)
theory MqttConnect
  imports MqttPublish
begin

text \<open>
  CONNECT, CONNACK, PINGREQ and DISCONNECT packets (\<^verbatim>\<open>MQTTConnect.h\<close>, \<^verbatim>\<open>MQTTConnectClient.c\<close> and
  \<^verbatim>\<open>MQTTConnectServer.c\<close>). The theorems are the round trip of CONNECT with its will, user name and
  password options, the round trip of CONNACK, and the buffer overrun of the CONNACK serializer.
\<close>

section \<open>Data\<close>

record MQTTPacket_willOptions =
  topicName :: MQTTString
  will_message :: MQTTString
  will_retained :: u8
  will_qos :: u8

record MQTTPacket_connectData =
  MQTTVersion :: u8
  clientID :: MQTTString
  keepAliveInterval :: u16
  cleansession :: u8
  willFlag :: u8
  will :: MQTTPacket_willOptions
  username :: MQTTString
  password :: MQTTString

text \<open>
  The eyecatchers and structure versions of the two C structures are set by the initializers and
  never read; they have no field here.
\<close>

definition MQTTPacket_willOptions_initializer :: MQTTPacket_willOptions where
  "MQTTPacket_willOptions_initializer =
     \<lparr>topicName = MQTTString_initializer, will_message = MQTTString_initializer,
      will_retained = 0, will_qos = 0\<rparr>"

definition MQTTPacket_connectData_initializer :: MQTTPacket_connectData where
  "MQTTPacket_connectData_initializer =
     \<lparr>MQTTVersion = 4, clientID = MQTTString_initializer, keepAliveInterval = 60, cleansession = 1,
      willFlag = 0, will = MQTTPacket_willOptions_initializer, username = MQTTString_initializer,
      password = MQTTString_initializer\<rparr>"

text \<open>
  The bit-fields of the connect flags byte: clean session (bit 1), will (2), will quality of
  service (3 and 4), will retain (5), password (6), user name (7).
\<close>

definition MQTTConnectFlags :: "u8 \<Rightarrow> u8 \<Rightarrow> u8 \<Rightarrow> u8 \<Rightarrow> u8 \<Rightarrow> u8 \<Rightarrow> u8" where
  "MQTTConnectFlags clean wil willQoS willRetain passw usern =
     push_bit 1 (take_bit 1 clean) OR push_bit 2 (take_bit 1 wil) OR push_bit 3 (take_bit 2 willQoS) OR
     push_bit 5 (take_bit 1 willRetain) OR push_bit 6 (take_bit 1 passw) OR push_bit 7 (take_bit 1 usern)"

definition flags_cleansession :: "u8 \<Rightarrow> u8" where "flags_cleansession b = take_bit 1 (drop_bit 1 b)"
definition flags_will :: "u8 \<Rightarrow> u8" where "flags_will b = take_bit 1 (drop_bit 2 b)"
definition flags_willQoS :: "u8 \<Rightarrow> u8" where "flags_willQoS b = take_bit 2 (drop_bit 3 b)"
definition flags_willRetain :: "u8 \<Rightarrow> u8" where "flags_willRetain b = take_bit 1 (drop_bit 5 b)"
definition flags_password :: "u8 \<Rightarrow> u8" where "flags_password b = take_bit 1 (drop_bit 6 b)"
definition flags_username :: "u8 \<Rightarrow> u8" where "flags_username b = take_bit 1 (drop_bit 7 b)"

lemmas connect_flags_defs = flags_cleansession_def flags_will_def flags_willQoS_def
  flags_willRetain_def flags_password_def flags_username_def

definition str_MQTT :: bytes where "str_MQTT = [0x4d, 0x51, 0x54, 0x54]"
definition str_MQIsdp :: bytes where "str_MQIsdp = [0x4d, 0x51, 0x49, 0x73, 0x64, 0x70]"

section \<open>Operations\<close>

text \<open>\<^verbatim>\<open>s.cstring || s.lenstring.data\<close>.\<close>

definition MQTTString_given :: "MQTTString \<Rightarrow> bool" where
  "MQTTString_given s \<longleftrightarrow> cstring s \<noteq> None \<or> lenstring_data s \<noteq> None"

definition MQTTSerialize_connectLength :: "MQTTPacket_connectData \<Rightarrow> int" where
  "MQTTSerialize_connectLength options =
     (if MQTTVersion options = 3 then 12 else if MQTTVersion options = 4 then 10 else 0) +
     (MQTTstrlen (clientID options) + 2) +
     (if willFlag options \<noteq> 0
      then MQTTstrlen (topicName (will options)) + 2 + MQTTstrlen (will_message (will options)) + 2
      else 0) +
     (if MQTTString_given (username options) then MQTTstrlen (username options) + 2 else 0) +
     (if MQTTString_given (password options) then MQTTstrlen (password options) + 2 else 0)"

definition connect_flags :: "MQTTPacket_connectData \<Rightarrow> u8" where
  "connect_flags options =
     (let w = (if willFlag options \<noteq> 0 then 1 else 0) in
      MQTTConnectFlags (cleansession options) w
        (if w \<noteq> 0 then will_qos (will options) else 0)
        (if w \<noteq> 0 then will_retained (will options) else 0)
        (if MQTTString_given (password options) then 1 else 0)
        (if MQTTString_given (username options) then 1 else 0))"

definition MQTTSerialize_connect ::
  "bytes \<Rightarrow> int \<Rightarrow> MQTTPacket_connectData \<Rightarrow> (int \<times> bytes) option" where
  "MQTTSerialize_connect buf buflen options =
     (let len = MQTTSerialize_connectLength options; flags = connect_flags options in
      if MQTTPacket_len len > buflen then Some (MQTTPACKET_BUFFER_TOO_SHORT, buf)
      else serialized (do {
        cur \<leftarrow> writeChar (MQTTHeader CONNECT 0 0 0) (buf, 0);
        cur \<leftarrow> writeRemLen len cur;
        cur \<leftarrow> (if MQTTVersion options = 4
                then do { cur \<leftarrow> writeCString str_MQTT cur; writeChar 4 cur }
                else do { cur \<leftarrow> writeCString str_MQIsdp cur; writeChar 3 cur });
        cur \<leftarrow> writeChar flags cur;
        cur \<leftarrow> writeInt (uint (keepAliveInterval options)) cur;
        cur \<leftarrow> writeMQTTString (clientID options) cur;
        cur \<leftarrow> (if willFlag options \<noteq> 0
                then do { cur \<leftarrow> writeMQTTString (topicName (will options)) cur;
                          writeMQTTString (will_message (will options)) cur }
                else Some cur);
        cur \<leftarrow> (if flags_username flags \<noteq> 0 then writeMQTTString (username options) cur else Some cur);
        (if flags_password flags \<noteq> 0 then writeMQTTString (password options) cur else Some cur) }))"

text \<open>\<^verbatim>\<open>memcmp(data, s, min(|s|, len)) == 0\<close>; the protocol name has been read from the packet.\<close>

definition MQTTPacket_checkVersion :: "MQTTString \<Rightarrow> int \<Rightarrow> bool" where
  "MQTTPacket_checkVersion protocol version =
     (let dat = (case lenstring_data protocol of Some d \<Rightarrow> d | None \<Rightarrow> []);
          same = (\<lambda>s. let n = nat (min (int (length s)) (lenstring_len protocol))
                      in take n dat = take n s)
      in version = 3 \<and> same str_MQIsdp \<or> version = 4 \<and> same str_MQTT)"

text \<open>
  The will and the credentials of a connect packet: the result is whether the parse goes on, the
  data and the position.
\<close>

definition connect_read_will ::
  "u8 \<Rightarrow> MQTTPacket_connectData \<Rightarrow> bytes \<Rightarrow> nat \<Rightarrow> int \<Rightarrow> (bool \<times> MQTTPacket_connectData \<times> nat) option" where
  "connect_read_will flags data0 buf cur0 enddata =
     (let data1 = data0\<lparr>willFlag := flags_will flags\<rparr> in
      if flags_will flags \<noteq> 0 then do {
        let w1 = (will data1)\<lparr>will_qos := flags_willQoS flags, will_retained := flags_willRetain flags\<rparr>;
        (ok, s, cur1) \<leftarrow> readMQTTLenString (topicName w1) buf cur0 enddata;
        let w2 = w1\<lparr>topicName := s\<rparr>;
        if ok = 0 then Some (False, data1\<lparr>will := w2\<rparr>, cur1)
        else do {
          (ok2, s2, cur2) \<leftarrow> readMQTTLenString (will_message w2) buf cur1 enddata;
          Some (ok2 \<noteq> 0, data1\<lparr>will := w2\<lparr>will_message := s2\<rparr>\<rparr>, cur2) } }
      else Some (True, data1, cur0))"

definition connect_read_credentials ::
  "u8 \<Rightarrow> MQTTPacket_connectData \<Rightarrow> bytes \<Rightarrow> nat \<Rightarrow> int \<Rightarrow> (bool \<times> MQTTPacket_connectData) option" where
  "connect_read_credentials flags data0 buf cur0 enddata =
     (if flags_username flags \<noteq> 0 then
        (if enddata - int cur0 < 3 then Some (False, data0)
         else do {
           (ok, s, cur1) \<leftarrow> readMQTTLenString (username data0) buf cur0 enddata;
           let data1 = data0\<lparr>username := s\<rparr>;
           if ok = 0 then Some (False, data1)
           else if flags_password flags \<noteq> 0 then
             (if enddata - int cur1 < 3 then Some (False, data1)
              else do {
                (ok2, s2, cur2) \<leftarrow> readMQTTLenString (password data1) buf cur1 enddata;
                Some (ok2 \<noteq> 0, data1\<lparr>password := s2\<rparr>) })
           else Some (True, data1) })
      else if flags_password flags \<noteq> 0 then Some (False, data0)
      else Some (True, data0))"

text \<open>
  \<^verbatim>\<open>MQTTDeserialize_connect\<close>. The local \<^verbatim>\<open>Protocol\<close> is not initialised in C; its value before the
  read is never used.
\<close>

definition MQTTDeserialize_connect ::
  "bytes \<Rightarrow> int \<Rightarrow> MQTTPacket_connectData \<Rightarrow> (int \<times> MQTTPacket_connectData) option" where
  "MQTTDeserialize_connect buf len data0 =
     do { let enddata = len;
          (header, cur0) \<leftarrow> readChar buf 0;
          if header_type header \<noteq> CONNECT then Some (0, data0)
          else do {
            (n, mylen) \<leftarrow> MQTTPacket_decodeBuf buf cur0;
            (ok, Protocol, cur1) \<leftarrow> readMQTTLenString MQTTString_initializer buf (cur0 + n) enddata;
            if ok = 0 \<or> enddata - int cur1 < 0 then Some (0, data0)
            else do {
              (version, cur2) \<leftarrow> readChar buf cur1;
              if \<not> MQTTPacket_checkVersion Protocol (uint version) then Some (0, data0)
              else do {
                (flags, cur3) \<leftarrow> readChar buf cur2;
                (k, cur4) \<leftarrow> readInt buf cur3;
                let data1 = data0\<lparr>cleansession := flags_cleansession flags,
                                  keepAliveInterval := word_of_int k\<rparr>;
                (ok2, s, cur5) \<leftarrow> readMQTTLenString (clientID data1) buf cur4 enddata;
                let data2 = data1\<lparr>clientID := s\<rparr>;
                if ok2 = 0 then Some (0, data2)
                else do {
                  (go, data3, cur6) \<leftarrow> connect_read_will flags data2 buf cur5 enddata;
                  if \<not> go then Some (0, data3)
                  else do {
                    (go2, data4) \<leftarrow> connect_read_credentials flags data3 buf cur6 enddata;
                    Some (if go2 then 1 else 0, data4) } } } } } }"

record connack_out =
  sessionPresent :: u8
  connack_rc :: u8

definition MQTTConnackFlags_sessionpresent :: "u8 \<Rightarrow> u8" where
  "MQTTConnackFlags_sessionpresent b = take_bit 1 b"

definition MQTTDeserialize_connack :: "bytes \<Rightarrow> int \<Rightarrow> connack_out \<Rightarrow> (int \<times> connack_out) option" where
  "MQTTDeserialize_connack buf buflen out0 =
     do { (header, cur0) \<leftarrow> readChar buf 0;
          if header_type header \<noteq> CONNACK then Some (0, out0)
          else do {
            (rc, mylen) \<leftarrow> MQTTPacket_decodeBuf buf cur0;
            let cur1 = cur0 + rc;
            let enddata = int cur1 + mylen;
            if enddata - int cur1 < 2 then Some (int rc, out0)
            else do {
              (flags, cur2) \<leftarrow> readChar buf cur1;
              let out1 = out0\<lparr>sessionPresent := MQTTConnackFlags_sessionpresent flags\<rparr>;
              (code, cur3) \<leftarrow> readChar buf cur2;
              Some (1, out1\<lparr>connack_rc := code\<rparr>) } } }"

definition MQTTSerialize_connack :: "bytes \<Rightarrow> int \<Rightarrow> u8 \<Rightarrow> u8 \<Rightarrow> (int \<times> bytes) option" where
  "MQTTSerialize_connack buf buflen rc session =
     (if buflen < 2 then Some (MQTTPACKET_BUFFER_TOO_SHORT, buf)
      else serialized (do {
        cur \<leftarrow> writeChar (MQTTHeader CONNACK 0 0 0) (buf, 0);
        cur \<leftarrow> writeRemLen 2 cur;
        cur \<leftarrow> writeChar (take_bit 1 session) cur;
        writeChar rc cur }))"

definition MQTTSerialize_zero :: "bytes \<Rightarrow> int \<Rightarrow> u8 \<Rightarrow> (int \<times> bytes) option" where
  "MQTTSerialize_zero buf buflen packettype =
     (if buflen < 2 then Some (MQTTPACKET_BUFFER_TOO_SHORT, buf)
      else serialized (do {
        cur \<leftarrow> writeChar (MQTTHeader packettype 0 0 0) (buf, 0);
        writeRemLen 0 cur }))"

definition MQTTSerialize_disconnect :: "bytes \<Rightarrow> int \<Rightarrow> (int \<times> bytes) option" where
  "MQTTSerialize_disconnect buf buflen = MQTTSerialize_zero buf buflen DISCONNECT"

definition MQTTSerialize_pingreq :: "bytes \<Rightarrow> int \<Rightarrow> (int \<times> bytes) option" where
  "MQTTSerialize_pingreq buf buflen = MQTTSerialize_zero buf buflen PINGREQ"

section \<open>The flags byte\<close>

lemma connect_flags_bits:
  assumes "n < 8"
  shows "bit (MQTTConnectFlags c w q r p u) n \<longleftrightarrow>
    n = 1 \<and> bit c 0 \<or> n = 2 \<and> bit w 0 \<or> n = 3 \<and> bit q 0 \<or> n = 4 \<and> bit q 1 \<or> n = 5 \<and> bit r 0 \<or>
    n = 6 \<and> bit p 0 \<or> n = 7 \<and> bit u 0"
proof -
  have "n \<in> {0, 1, 2, 3, 4, 5, 6, 7}" using assms by auto
  then show ?thesis
    unfolding MQTTConnectFlags_def bit_or_iff bit_push_bit_iff bit_take_bit_iff
    by (elim insertE emptyE; simp only:; simp)
qed

lemma take_bit_1_drop_bit:
  "take_bit 1 (drop_bit k b) = take_bit 1 (c :: u8) \<longleftrightarrow> (bit b k = bit c 0)"
  unfolding One_nat_def take_bit_Suc_0 mod_2_eq_odd bit_0 even_drop_bit_iff_not_bit by simp

lemma MQTTConnectFlags_fields [simp]:
  "flags_cleansession (MQTTConnectFlags c w q r p u) = take_bit 1 c"
  "flags_will (MQTTConnectFlags c w q r p u) = take_bit 1 w"
  "flags_willRetain (MQTTConnectFlags c w q r p u) = take_bit 1 r"
  "flags_password (MQTTConnectFlags c w q r p u) = take_bit 1 p"
  "flags_username (MQTTConnectFlags c w q r p u) = take_bit 1 u"
  by (simp_all only: connect_flags_defs take_bit_1_drop_bit connect_flags_bits) simp_all

lemma MQTTConnectFlags_willQoS [simp]:
  "flags_willQoS (MQTTConnectFlags c w q r p u) = take_bit 2 q"
proof (rule bit_word_eqI)
  fix n assume "n < LENGTH(8)"
  then show "bit (flags_willQoS (MQTTConnectFlags c w q r p u)) n \<longleftrightarrow> bit (take_bit 2 q) n"
    using connect_flags_bits [of "n + 3" c w q r p u]
    by (cases "n = 0"; cases "n = 1")
      (simp_all add: flags_willQoS_def bit_take_bit_iff bit_drop_bit_eq add.commute)
qed

section \<open>The packets\<close>

definition connect_rem :: "MQTTPacket_connectData \<Rightarrow> nat" where
  "connect_rem d =
     (if MQTTVersion d = 4 then 10 else 12) + (length (mqtt_text (clientID d)) + 2) +
     (if willFlag d \<noteq> 0
      then length (mqtt_text (topicName (will d))) + 2 + length (mqtt_text (will_message (will d))) + 2
      else 0) +
     (if MQTTString_given (username d) then length (mqtt_text (username d)) + 2 else 0) +
     (if MQTTString_given (password d) then length (mqtt_text (password d)) + 2 else 0)"

definition connect_wire :: "MQTTPacket_connectData \<Rightarrow> bytes" where
  "connect_wire d =
     [MQTTHeader CONNECT 0 0 0] @ enc (connect_rem d) @
     (if MQTTVersion d = 4 then enc_str str_MQTT @ [4] else enc_str str_MQIsdp @ [3]) @
     [connect_flags d] @ enc16 (unat (keepAliveInterval d)) @ enc_str (mqtt_text (clientID d)) @
     (if willFlag d \<noteq> 0
      then enc_str (mqtt_text (topicName (will d))) @ enc_str (mqtt_text (will_message (will d)))
      else []) @
     (if flags_username (connect_flags d) \<noteq> 0 then enc_str (mqtt_text (username d)) else []) @
     (if flags_password (connect_flags d) \<noteq> 0 then enc_str (mqtt_text (password d)) else [])"

text \<open>
  The options MQTT can express: version 3 or 4, strings of at most 65535 bytes, a password only
  together with a user name. The deserializer wants at least three bytes for the user name and what
  follows, and for the password, so it cannot read an empty string at the end of the packet.
\<close>

definition connect_wf :: "MQTTPacket_connectData \<Rightarrow> bool" where
  "connect_wf d \<longleftrightarrow>
     (MQTTVersion d = 3 \<or> MQTTVersion d = 4) \<and> MQTTString_wf (clientID d) \<and>
     (willFlag d \<noteq> 0 \<longrightarrow> MQTTString_wf (topicName (will d)) \<and> MQTTString_wf (will_message (will d))) \<and>
     (MQTTString_given (username d) \<longrightarrow> MQTTString_wf (username d)) \<and>
     (MQTTString_given (password d) \<longrightarrow> MQTTString_wf (password d) \<and> MQTTString_given (username d))"

definition credentials_readable :: "MQTTPacket_connectData \<Rightarrow> bool" where
  "credentials_readable d \<longleftrightarrow>
     (if MQTTString_given (password d) then mqtt_text (password d) \<noteq> []
      else MQTTString_given (username d) \<longrightarrow> mqtt_text (username d) \<noteq> [])"

definition connect_view ::
  "MQTTPacket_connectData \<Rightarrow> MQTTPacket_connectData \<Rightarrow> MQTTPacket_connectData" where
  "connect_view d out =
     out\<lparr>clientID := lenstring (mqtt_text (clientID d)), keepAliveInterval := keepAliveInterval d,
         cleansession := take_bit 1 (cleansession d), willFlag := (if willFlag d \<noteq> 0 then 1 else 0),
         will := (if willFlag d \<noteq> 0
                  then \<lparr>topicName = lenstring (mqtt_text (topicName (will d))),
                        will_message = lenstring (mqtt_text (will_message (will d))),
                        will_retained = take_bit 1 (will_retained (will d)),
                        will_qos = take_bit 2 (will_qos (will d))\<rparr>
                  else will out),
         username := (if MQTTString_given (username d) then lenstring (mqtt_text (username d))
                      else username out),
         password := (if MQTTString_given (password d) then lenstring (mqtt_text (password d))
                      else password out)\<rparr>"

lemma connect_flags_fields [simp]:
  "flags_cleansession (connect_flags d) = take_bit 1 (cleansession d)"
  "flags_will (connect_flags d) = (if willFlag d \<noteq> 0 then 1 else 0)"
  "flags_willQoS (connect_flags d) = (if willFlag d \<noteq> 0 then take_bit 2 (will_qos (will d)) else 0)"
  "flags_willRetain (connect_flags d) =
     (if willFlag d \<noteq> 0 then take_bit 1 (will_retained (will d)) else 0)"
  "flags_password (connect_flags d) = (if MQTTString_given (password d) then 1 else 0)"
  "flags_username (connect_flags d) = (if MQTTString_given (username d) then 1 else 0)"
  by (simp_all add: connect_flags_def Let_def)

lemma connectLength_rem: "connect_wf d \<Longrightarrow> MQTTSerialize_connectLength d = int (connect_rem d)"
  by (auto simp: connect_wf_def MQTTSerialize_connectLength_def connect_rem_def MQTTstrlen_text)

lemma length_connect_wire: "length (connect_wire d) = 1 + length (enc (connect_rem d)) + connect_rem d"
  by (simp add: connect_wire_def connect_rem_def str_MQTT_def str_MQIsdp_def)

lemma connect_rem_bound:
  assumes "connect_wf d"
  shows "connect_rem d < 268435456"
proof -
  have "length (mqtt_text s) < 65536" if "MQTTString_wf s" for s
    using that by (simp add: MQTTString_wf_def)
  then have "length (mqtt_text (clientID d)) < 65536"
      "willFlag d \<noteq> 0 \<Longrightarrow> length (mqtt_text (topicName (will d))) < 65536"
      "willFlag d \<noteq> 0 \<Longrightarrow> length (mqtt_text (will_message (will d))) < 65536"
      "MQTTString_given (username d) \<Longrightarrow> length (mqtt_text (username d)) < 65536"
      "MQTTString_given (password d) \<Longrightarrow> length (mqtt_text (password d)) < 65536"
    using assms by (auto simp: connect_wf_def)
  then show ?thesis by (auto simp: connect_rem_def)
qed

lemma emits_connect:
  assumes "connect_wf d"
  shows "emits (\<lambda>cur. do {
        cur \<leftarrow> writeChar (MQTTHeader CONNECT 0 0 0) cur;
        cur \<leftarrow> writeRemLen (int (connect_rem d)) cur;
        cur \<leftarrow> (if MQTTVersion d = 4
                then do { cur \<leftarrow> writeCString str_MQTT cur; writeChar 4 cur }
                else do { cur \<leftarrow> writeCString str_MQIsdp cur; writeChar 3 cur });
        cur \<leftarrow> writeChar (connect_flags d) cur;
        cur \<leftarrow> writeInt (uint (keepAliveInterval d)) cur;
        cur \<leftarrow> writeMQTTString (clientID d) cur;
        cur \<leftarrow> (if willFlag d \<noteq> 0
                then do { cur \<leftarrow> writeMQTTString (topicName (will d)) cur;
                          writeMQTTString (will_message (will d)) cur }
                else Some cur);
        cur \<leftarrow> (if flags_username (connect_flags d) \<noteq> 0 then writeMQTTString (username d) cur
                else Some cur);
        (if flags_password (connect_flags d) \<noteq> 0 then writeMQTTString (password d) cur
         else Some cur) }) (connect_wire d)"
proof -
  have "emits (writeCString str_MQTT) (enc_str str_MQTT)"
      "emits (writeCString str_MQIsdp) (enc_str str_MQIsdp)"
    using emits_writeCString [of str_MQTT] emits_writeCString [of str_MQIsdp]
    by (simp_all add: str_MQTT_def str_MQIsdp_def)
  then show ?thesis
    unfolding connect_wire_def using assms
    by (intro emission) (auto simp: connect_wf_def split: if_splits)
qed

definition will_wire :: "MQTTPacket_connectData \<Rightarrow> bytes" where
  "will_wire d =
     (if willFlag d \<noteq> 0
      then enc_str (mqtt_text (topicName (will d))) @ enc_str (mqtt_text (will_message (will d)))
      else [])"

definition credentials_wire :: "MQTTPacket_connectData \<Rightarrow> bytes" where
  "credentials_wire d =
     (if flags_username (connect_flags d) \<noteq> 0 then enc_str (mqtt_text (username d)) else []) @
     (if flags_password (connect_flags d) \<noteq> 0 then enc_str (mqtt_text (password d)) else [])"

lemma connect_read_will_holds:
  assumes "connect_wf d" and "holds_at buf p (will_wire d)" and "int (p + length (will_wire d)) \<le> enddata"
  shows "connect_read_will (connect_flags d) out buf p enddata =
    Some (True, out\<lparr>willFlag := willFlag (connect_view d out), will := will (connect_view d out)\<rparr>,
          p + length (will_wire d))"
proof (cases "willFlag d = 0")
  case True
  then show ?thesis by (simp add: connect_read_will_def connect_view_def will_wire_def Let_def)
next
  case False
  let ?t = "mqtt_text (topicName (will d))" and ?m = "mqtt_text (will_message (will d))"
  have at: "holds_at buf p (enc_str ?t)" "holds_at buf (p + length ?t + 2) (enc_str ?m)"
    using assms(2) False by (simp_all add: will_wire_def holds_at_append add.assoc)
  have len: "length ?t < 65536" "length ?m < 65536"
    using assms(1) False by (auto simp: connect_wf_def MQTTString_wf_def)
  have room: "int (p + length ?t + 2) \<le> enddata" "int (p + length ?t + 2 + length ?m + 2) \<le> enddata"
    using assms(3) False by (simp_all add: will_wire_def)
  have "readMQTTLenString ms buf p enddata = Some (1, lenstring ?t, p + length ?t + 2)"
      "readMQTTLenString ms buf (p + length ?t + 2) enddata =
         Some (1, lenstring ?m, p + length ?t + 2 + length ?m + 2)" for ms
    using readMQTTLenString_holds [OF at(1) len(1) room(1)] readMQTTLenString_holds [OF at(2) len(2) room(2)]
    by (simp_all only:)
  then show ?thesis
    using False by (simp add: connect_read_will_def connect_view_def will_wire_def Let_def)
qed

lemma connect_read_credentials_holds:
  assumes "connect_wf d" and "holds_at buf p (credentials_wire d)"
    and "int (p + length (credentials_wire d)) \<le> enddata" and readable: "credentials_readable d"
  shows "connect_read_credentials (connect_flags d) out buf p enddata =
    Some (True, out\<lparr>username := username (connect_view d out), password := password (connect_view d out)\<rparr>)"
proof (cases "MQTTString_given (username d)")
  case False
  then show ?thesis
    using assms(1) by (simp add: connect_read_credentials_def connect_view_def connect_wf_def)
next
  case True
  let ?u = "mqtt_text (username d)" and ?pw = "mqtt_text (password d)"
  have ne: "length ?u < 65536" using assms(1) True by (auto simp: connect_wf_def MQTTString_wf_def)
  have at: "holds_at buf p (enc_str ?u)"
      "MQTTString_given (password d) \<Longrightarrow> holds_at buf (p + length ?u + 2) (enc_str ?pw)"
    using assms(2) True by (simp_all add: credentials_wire_def holds_at_append add.assoc)
  have room: "int (p + length ?u + 2) \<le> enddata" "3 \<le> enddata - int p"
    using assms(3) True readable
    by (auto simp: credentials_wire_def credentials_readable_def Suc_le_eq split: if_splits simp flip: length_greater_0_conv)
  have u: "readMQTTLenString ms buf p enddata = Some (1, lenstring ?u, p + length ?u + 2)" for ms
    using readMQTTLenString_holds [OF at(1) ne room(1)] .
  show ?thesis
  proof (cases "MQTTString_given (password d)")
    case False
    then show ?thesis
      using True u room by (simp add: connect_read_credentials_def connect_view_def)
  next
    case pw: True
    have ne': "?pw \<noteq> []" "length ?pw < 65536"
      using assms(1) pw readable by (auto simp: connect_wf_def MQTTString_wf_def credentials_readable_def)
    have room': "int (p + length ?u + 2 + length ?pw + 2) \<le> enddata"
      using assms(3) True pw by (simp add: credentials_wire_def)
    moreover have "0 < length ?pw" using ne' by simp
    ultimately have "3 \<le> enddata - int (p + length ?u + 2)" by linarith
    moreover have "readMQTTLenString ms buf (p + length ?u + 2) enddata =
        Some (1, lenstring ?pw, p + length ?u + 2 + length ?pw + 2)" for ms
      using readMQTTLenString_holds [OF at(2) [OF pw] ne'(2) room'] .
    ultimately show ?thesis
      using True pw u room by (simp add: connect_read_credentials_def connect_view_def)
  qed
qed

text \<open>An empty string at the end is refused.\<close>

lemma connect_read_credentials_refused:
  assumes "connect_wf d" and "holds_at buf p (credentials_wire d)"
    and "enddata = int (p + length (credentials_wire d))" and "\<not> credentials_readable d"
  shows "\<exists>data. connect_read_credentials (connect_flags d) out buf p enddata = Some (False, data)"
proof -
  let ?u = "mqtt_text (username d)"
  have un: "MQTTString_given (username d)" using assms(1,4) by (auto simp: connect_wf_def credentials_readable_def split: if_splits)
  show ?thesis
  proof (cases "MQTTString_given (password d)")
    case False
    then show ?thesis using un assms(3,4) by (simp add: connect_read_credentials_def credentials_wire_def credentials_readable_def)
  next
    case True
    then have pw: "mqtt_text (password d) = []" using assms(4) by (simp add: credentials_readable_def)
    have "holds_at buf p (enc_str ?u)" "length ?u < 65536" "int (p + length ?u + 2) \<le> enddata"
      using assms(1-3) un by (auto simp: credentials_wire_def holds_at_append connect_wf_def MQTTString_wf_def)
    then have "readMQTTLenString ms buf p enddata = Some (1, lenstring ?u, p + length ?u + 2)" for ms
      by (rule readMQTTLenString_holds)
    then show ?thesis using un True pw assms(3) by (simp add: connect_read_credentials_def credentials_wire_def)
  qed
qed

definition proto_wire :: "MQTTPacket_connectData \<Rightarrow> bytes" where
  "proto_wire d = (if MQTTVersion d = 4 then str_MQTT else str_MQIsdp)"

lemma checkVersion_proto:
  "connect_wf d \<Longrightarrow> MQTTPacket_checkVersion (lenstring (proto_wire d)) (uint (MQTTVersion d))"
  by (auto simp: connect_wf_def MQTTPacket_checkVersion_def proto_wire_def lenstring_def Let_def)

lemma connect_wire_parts:
  assumes "connect_wf d"
  shows "connect_wire d =
     [MQTTHeader CONNECT 0 0 0] @ enc (connect_rem d) @ enc_str (proto_wire d) @ [MQTTVersion d] @
     [connect_flags d] @ enc16 (unat (keepAliveInterval d)) @ enc_str (mqtt_text (clientID d)) @
     will_wire d @ credentials_wire d"
  using assms by (auto simp: connect_wire_def proto_wire_def will_wire_def credentials_wire_def connect_wf_def)

lemma connect_view_version: "MQTTVersion (connect_view d out) = MQTTVersion out"
  by (simp add: connect_view_def)

text \<open>Everything before the credentials is read back.\<close>

definition connect_head :: "MQTTPacket_connectData \<Rightarrow> MQTTPacket_connectData \<Rightarrow> MQTTPacket_connectData" where
  "connect_head d out = (connect_view d out)\<lparr>username := username out, password := password out\<rparr>"

lemma connect_parsed_head:
  assumes wf: "connect_wf d" and buf: "holds_at buf 0 (connect_wire d)"
  shows "\<exists>pc. holds_at buf pc (credentials_wire d) \<and>
    int (length (connect_wire d)) = int (pc + length (credentials_wire d)) \<and>
    MQTTDeserialize_connect buf (int (length (connect_wire d))) out =
      do { (go2, data4) \<leftarrow> connect_read_credentials (connect_flags d) (connect_head d out) buf pc (int (length (connect_wire d)));
           Some (if go2 then 1 else 0, data4) }"
proof -
  let ?e = "int (length (connect_wire d))" and ?n = "length (enc (connect_rem d))"
  let ?pr = "proto_wire d" and ?id = "mqtt_text (clientID d)"
  define p1 where "p1 = 1 + ?n + length ?pr + 2"
  define p2 where "p2 = p1 + 1 + 1 + 2"
  define p3 where "p3 = p2 + length ?id + 2"
  have fin: "?e = int (p3 + length (will_wire d) + length (credentials_wire d))"
    by (simp add: connect_wire_parts [OF wf] p1_def p2_def p3_def)
  have at: "holds_at buf 0 [MQTTHeader CONNECT 0 0 0]" "holds_at buf 1 (enc (connect_rem d))"
      "holds_at buf (1 + ?n) (enc_str ?pr)" "holds_at buf p1 [MQTTVersion d]"
      "holds_at buf (p1 + 1) [connect_flags d]" "holds_at buf (p1 + 1 + 1) (enc16 (unat (keepAliveInterval d)))"
      "holds_at buf p2 (enc_str ?id)" "holds_at buf p3 (will_wire d)"
      "holds_at buf (p3 + length (will_wire d)) (credentials_wire d)"
    using buf by (simp_all add: connect_wire_parts [OF wf] holds_at_append holds_at_Cons holds_at_Nil
        p1_def p2_def p3_def add.assoc add.commute add.left_commute)
  have len: "length ?pr < 65536" "length ?id < 65536"
    using wf by (auto simp: connect_wf_def MQTTString_wf_def proto_wire_def str_MQTT_def str_MQIsdp_def)
  have "readMQTTLenString ms buf (1 + ?n) ?e = Some (1, lenstring ?pr, p1)"
       "readMQTTLenString ms buf p2 ?e = Some (1, lenstring ?id, p3)" for ms
    using readMQTTLenString_holds [OF at(3) len(1)] readMQTTLenString_holds [OF at(7) len(2)]
    unfolding fin by (simp_all add: p1_def p2_def p3_def)
  moreover have "connect_read_will (connect_flags d) o' buf p3 ?e =
      Some (True, o'\<lparr>willFlag := willFlag (connect_view d o'), will := will (connect_view d o')\<rparr>,
        p3 + length (will_wire d))" for o'
    by (rule connect_read_will_holds [OF wf at(8)]) (simp add: fin)
  moreover have "p1 \<le> p3" by (simp add: p2_def p3_def)
  ultimately have "MQTTDeserialize_connect buf ?e out =
      do { (go2, data4) \<leftarrow> connect_read_credentials (connect_flags d) (connect_head d out) buf (p3 + length (will_wire d)) ?e;
           Some (if go2 then 1 else 0, data4) }"
    unfolding MQTTDeserialize_connect_def
    using readChar_holds [OF at(1)] decodeBuf_holds [OF at(2) connect_rem_bound [OF wf]]
      readChar_holds [OF at(4)] readChar_holds [OF at(5)] readInt_u16 [OF at(6)]
      checkVersion_proto [OF wf] fin
    by (cases out) (simp add: Let_def p2_def connect_view_def connect_head_def)
  then show ?thesis using at(9) fin by blast
qed

lemma connect_parsed:
  assumes "connect_wf d" and "credentials_readable d" and "holds_at buf 0 (connect_wire d)"
  shows "MQTTDeserialize_connect buf (int (length (connect_wire d))) out = Some (1, connect_view d out)"
proof -
  obtain pc where pc: "holds_at buf pc (credentials_wire d)" "int (length (connect_wire d)) = int (pc + length (credentials_wire d))"
    "MQTTDeserialize_connect buf (int (length (connect_wire d))) out =
      do { (go2, data4) \<leftarrow> connect_read_credentials (connect_flags d) (connect_head d out) buf pc (int (length (connect_wire d)));
           Some (if go2 then 1 else 0, data4) }" using connect_parsed_head [OF assms(1,3)] by blast
  show ?thesis unfolding pc(3)
    using connect_read_credentials_holds [OF assms(1) pc(1) _ assms(2)] pc(2) by (simp add: connect_head_def connect_view_def)
qed

lemma connect_refused:
  assumes "connect_wf d" and "\<not> credentials_readable d" and "holds_at buf 0 (connect_wire d)"
  shows "\<exists>data. MQTTDeserialize_connect buf (int (length (connect_wire d))) out = Some (0, data)"
proof -
  obtain pc where pc: "holds_at buf pc (credentials_wire d)" "int (length (connect_wire d)) = int (pc + length (credentials_wire d))"
    "MQTTDeserialize_connect buf (int (length (connect_wire d))) out =
      do { (go2, data4) \<leftarrow> connect_read_credentials (connect_flags d) (connect_head d out) buf pc (int (length (connect_wire d)));
           Some (if go2 then 1 else 0, data4) }" using connect_parsed_head [OF assms(1,3)] by blast
  show ?thesis unfolding pc(3)
    using connect_read_credentials_refused [OF assms(1) pc(1,2) assms(2), of "connect_head d out"] by auto
qed

interpretation connect: packet_codec MQTTSerialize_connect MQTTDeserialize_connect connect_wf
  connect_wire "\<lambda>d. MQTTPacket_len (int (connect_rem d))" "\<lambda>d _. credentials_readable d" connect_view
proof (unfold_locales, goal_cases)
  case (1 d buflen buf)
  then show ?case by (simp add: MQTTSerialize_connect_def connectLength_rem Let_def)
next
  case (2 d buflen buf)
  then have "length (connect_wire d) \<le> length buf"
    using MQTTPacket_len_bound [OF connect_rem_bound [OF 2(1)]] by (simp add: length_connect_wire)
  from emits_run [OF emits_connect [OF 2(1)] this] show ?case
    using 2 by (simp add: MQTTSerialize_connect_def connectLength_rem Let_def)
next
  case (3 d)
  then show ?case
    using MQTTPacket_len_bound [OF connect_rem_bound] by (simp add: length_connect_wire)
next
  case (4 d out buf)
  then show ?case by (intro connect_parsed)
qed

definition connack_wire :: "u8 \<Rightarrow> u8 \<Rightarrow> bytes" where
  "connack_wire rc session = [MQTTHeader CONNACK 0 0 0] @ enc 2 @ [take_bit 1 session] @ [rc]"

lemma emits_connack:
  "emits (\<lambda>cur. do {
      cur \<leftarrow> writeChar (MQTTHeader CONNACK 0 0 0) cur;
      cur \<leftarrow> writeRemLen (int 2) cur;
      cur \<leftarrow> writeChar (take_bit 1 session) cur;
      writeChar rc cur }) (connack_wire rc session)"
  unfolding connack_wire_def by (intro emission)

lemma length_connack_wire: "length (connack_wire rc session) = 4"
  by (simp add: connack_wire_def length_enc [of 2])

lemma connack_parsed:
  assumes "holds_at buf 0 (connack_wire rc session)"
  shows "MQTTDeserialize_connack buf buflen out =
    Some (1, out\<lparr>sessionPresent := take_bit 1 session, connack_rc := rc\<rparr>)"
proof -
  let ?n = "1 + length (enc 2)"
  have at: "holds_at buf 0 [MQTTHeader CONNACK 0 0 0]" "holds_at buf 1 (enc 2)"
      "holds_at buf ?n [take_bit 1 session]" "holds_at buf (?n + 1) [rc]"
    using assms by (simp_all add: connack_wire_def holds_at_append holds_at_Cons holds_at_Nil)
  show ?thesis
    using readChar_holds [OF at(1)] decodeBuf_holds [OF at(2)] readChar_holds [OF at(3)]
      readChar_holds [OF at(4)] take_bit_take_bit [of 1 1 session]
    by (simp add: MQTTDeserialize_connack_def MQTTConnackFlags_sessionpresent_def Let_def)
qed

section \<open>Properties\<close>

text \<open>
  Property C17. CONNECT round trip: for every set of options MQTT can express (version 3 or 4, strings of at
  most 65535 bytes, a password only with a user name), \<^verbatim>\<open>MQTTSerialize_connect\<close> either refuses a buffer
  that is too short without touching it or writes a packet inside the first \<^verbatim>\<open>buflen\<close> bytes.
  \<^verbatim>\<open>MQTTDeserialize_connect\<close> of that packet succeeds and recovers the client identifier, keep-alive interval,
  clean-session bit, will and credentials, but not the protocol version: \<^verbatim>\<open>MQTTVersion\<close> keeps the value it
  had. The exception is a packet that ends in an empty string, an empty password or an empty user name
  without a password: MQTT allows it, the serializer writes it and the deserializer refuses it.
\<close>

theorem connect_roundtrip:
  assumes "connect_wf options" and "buflen \<le> int (length buf)"
  shows "\<exists>rc buf'. MQTTSerialize_connect buf buflen options = Some (rc, buf') \<and>
    length buf' = length buf \<and>
    (if buflen < MQTTPacket_len (MQTTSerialize_connectLength options)
     then rc = MQTTPACKET_BUFFER_TOO_SHORT \<and> buf' = buf
     else 0 \<le> rc \<and> rc \<le> buflen \<and> drop (nat rc) buf' = drop (nat rc) buf \<and>
          (if credentials_readable options
           then MQTTDeserialize_connect buf' rc out = Some (1, connect_view options out) \<and>
                MQTTVersion (connect_view options out) = MQTTVersion out
           else \<exists>data. MQTTDeserialize_connect buf' rc out = Some (0, data)))"
proof (cases "credentials_readable options")
  case True
  then show ?thesis
    using connect.roundtrip [OF assms True, of out] unfolding connectLength_rem [OF assms(1)] connect_view_version
    by (simp only: simp_thms if_True)
next
  case False
  note len = connectLength_rem [OF assms(1)]
  show ?thesis
  proof (cases "buflen < MQTTPacket_len (MQTTSerialize_connectLength options)")
    case True
    then show ?thesis using connect.refused [OF assms(1)] len by simp
  next
    case room: False
    let ?w = "connect_wire options"
    let ?buf = "?w @ drop (length ?w) buf"
    have e: "MQTTSerialize_connect buf buflen options = Some (int (length ?w), ?buf)"
      using connect.emitted [OF assms(1) _ assms(2)] room len by simp
    have le: "int (length ?w) \<le> buflen" using connect.sized [OF assms(1)] room len by simp
    moreover obtain data where "MQTTDeserialize_connect ?buf (int (length ?w)) out = Some (0, data)"
      using connect_refused [OF assms(1) False, of ?buf out] reading by blast
    ultimately show ?thesis using e False room assms(2) by simp
  qed
qed

theorem connect_roundtrip_witness:
  "\<exists>rc buf'. MQTTSerialize_connect (replicate 40 0) 40
      (MQTTPacket_connectData_initializer\<lparr>clientID := lenstring [0x61], willFlag := 1,
        username := lenstring [0x75], password := lenstring [0x70]\<rparr>) = Some (rc, buf') \<and> 0 \<le> rc \<and> rc \<le> 40 \<and>
    (\<exists>out. MQTTDeserialize_connect buf' rc MQTTPacket_connectData_initializer = Some (1, out) \<and>
      clientID out = lenstring [0x61] \<and> username out = lenstring [0x75] \<and> password out = lenstring [0x70])"
proof -
  let ?d = "MQTTPacket_connectData_initializer\<lparr>clientID := lenstring [0x61], willFlag := 1,
        username := lenstring [0x75], password := lenstring [0x70]\<rparr>"
  note defs = connect_wf_def MQTTPacket_connectData_initializer_def MQTTString_wf_def lenstring_def
      mqtt_text_def MQTTPacket_willOptions_initializer_def MQTTString_initializer_def MQTTString_given_def credentials_readable_def
  have wf: "connect_wf ?d" "credentials_readable ?d" "(40 :: int) \<le> int (length (replicate 40 (0 :: u8)))"
    by (simp_all add: defs)
  have len: "\<not> 40 < MQTTPacket_len (MQTTSerialize_connectLength ?d)" by code_simp
  have v: "clientID (connect_view ?d out) = lenstring [0x61]" "username (connect_view ?d out) = lenstring [0x75]"
      "password (connect_view ?d out) = lenstring [0x70]" for out by (simp_all add: connect_view_def defs)
  from connect_roundtrip [OF wf(1,3), of MQTTPacket_connectData_initializer] show ?thesis
    using wf(2) len v by auto
qed

text \<open>
  CONNACK: with four bytes of room the packet that \<^verbatim>\<open>MQTTSerialize_connack\<close> writes is
  read back by \<^verbatim>\<open>MQTTDeserialize_connack\<close> with the same return code and session-present bit; with
  two or three bytes of room the size check passes although the packet has four bytes, and the
  write leaves the buffer.
\<close>

theorem connack_room:
  "if length buf < 2
   then MQTTSerialize_connack buf (int (length buf)) rc session = Some (MQTTPACKET_BUFFER_TOO_SHORT, buf)
   else if length buf < 4 then MQTTSerialize_connack buf (int (length buf)) rc session = None
   else \<exists>buf'. MQTTSerialize_connack buf (int (length buf)) rc session = Some (4, buf') \<and>
     length buf' = length buf \<and> drop 4 buf' = drop 4 buf \<and>
     MQTTDeserialize_connack buf' 4 out =
       Some (1, out\<lparr>sessionPresent := take_bit 1 session, connack_rc := rc\<rparr>)"
proof -
  note w = emits_connack [of session rc]
  have "MQTTSerialize_connack buf (int (length buf)) rc session = None"
    if "\<not> length buf < 2" "length buf < 4"
    using emits_overrun [OF w, of buf] that by (simp add: MQTTSerialize_connack_def length_connack_wire)
  moreover have "MQTTSerialize_connack buf (int (length buf)) rc session =
      Some (4, connack_wire rc session @ drop 4 buf)" if "\<not> length buf < 4"
    using emits_run [OF w, of buf] that by (simp add: MQTTSerialize_connack_def length_connack_wire)
  moreover have "MQTTDeserialize_connack (connack_wire rc session @ drop 4 buf) 4 out =
      Some (1, out\<lparr>sessionPresent := take_bit 1 session, connack_rc := rc\<rparr>)"
    by (rule connack_parsed) (rule reading)
  ultimately show ?thesis
    by (simp add: MQTTSerialize_connack_def length_connack_wire)
qed

end
