(* ===== verification/MqttSubscribe.thy ===== *)
theory MqttSubscribe
  imports MqttConnect
begin

text \<open>
  SUBSCRIBE, SUBACK, UNSUBSCRIBE and UNSUBACK packets (\<^verbatim>\<open>MQTTSubscribeClient.c\<close>,
  \<^verbatim>\<open>MQTTSubscribeServer.c\<close>, \<^verbatim>\<open>MQTTUnsubscribeClient.c\<close>, \<^verbatim>\<open>MQTTUnsubscribeServer.c\<close>). C arrays are
  lists of their capacity; a read or write outside one is \<open>None\<close>, so the theorems show where the
  bounds checks of the deserializers are sufficient and where they are not.
\<close>

section \<open>Operations\<close>

text \<open>The \<^verbatim>\<open>for\<close> loops count up to \<^verbatim>\<open>count\<close>; the first argument is the number of rounds left.\<close>

fun topics_length_loop :: "nat \<Rightarrow> nat \<Rightarrow> int \<Rightarrow> MQTTString list \<Rightarrow> int \<Rightarrow> int option" where
  "topics_length_loop 0 i extra topicFilters len = Some len"
| "topics_length_loop (Suc n) i extra topicFilters len =
     do { t \<leftarrow> mem_get topicFilters i;
          topics_length_loop n (i + 1) extra topicFilters (len + (2 + MQTTstrlen t + extra)) }"

definition MQTTSerialize_subscribeLength :: "int \<Rightarrow> MQTTString list \<Rightarrow> int option" where
  "MQTTSerialize_subscribeLength count topicFilters = topics_length_loop (nat count) 0 1 topicFilters 2"

definition MQTTSerialize_unsubscribeLength :: "int \<Rightarrow> MQTTString list \<Rightarrow> int option" where
  "MQTTSerialize_unsubscribeLength count topicFilters = topics_length_loop (nat count) 0 0 topicFilters 2"

fun subscribe_loop :: "nat \<Rightarrow> nat \<Rightarrow> MQTTString list \<Rightarrow> int list \<Rightarrow> bytes \<times> nat \<Rightarrow> (bytes \<times> nat) option" where
  "subscribe_loop 0 i topicFilters requestedQoSs cur = Some cur"
| "subscribe_loop (Suc n) i topicFilters requestedQoSs cur =
     do { t \<leftarrow> mem_get topicFilters i;
          cur \<leftarrow> writeMQTTString t cur;
          q \<leftarrow> mem_get requestedQoSs i;
          cur \<leftarrow> writeChar (word_of_int q) cur;
          subscribe_loop n (i + 1) topicFilters requestedQoSs cur }"

definition MQTTSerialize_subscribe ::
  "bytes \<Rightarrow> int \<Rightarrow> u8 \<Rightarrow> u16 \<Rightarrow> int \<Rightarrow> MQTTString list \<Rightarrow> int list \<Rightarrow> (int \<times> bytes) option" where
  "MQTTSerialize_subscribe buf buflen dup packetid count topicFilters requestedQoSs =
     do { rem_len \<leftarrow> MQTTSerialize_subscribeLength count topicFilters;
          if MQTTPacket_len rem_len > buflen then Some (MQTTPACKET_BUFFER_TOO_SHORT, buf)
          else serialized (do {
            cur \<leftarrow> writeChar (MQTTHeader SUBSCRIBE dup 1 0) (buf, 0);
            cur \<leftarrow> writeRemLen rem_len cur;
            cur \<leftarrow> writeInt (uint packetid) cur;
            subscribe_loop (nat count) 0 topicFilters requestedQoSs cur }) }"

fun unsubscribe_loop :: "nat \<Rightarrow> nat \<Rightarrow> MQTTString list \<Rightarrow> bytes \<times> nat \<Rightarrow> (bytes \<times> nat) option" where
  "unsubscribe_loop 0 i topicFilters cur = Some cur"
| "unsubscribe_loop (Suc n) i topicFilters cur =
     do { t \<leftarrow> mem_get topicFilters i;
          cur \<leftarrow> writeMQTTString t cur;
          unsubscribe_loop n (i + 1) topicFilters cur }"

definition MQTTSerialize_unsubscribe ::
  "bytes \<Rightarrow> int \<Rightarrow> u8 \<Rightarrow> u16 \<Rightarrow> int \<Rightarrow> MQTTString list \<Rightarrow> (int \<times> bytes) option" where
  "MQTTSerialize_unsubscribe buf buflen dup packetid count topicFilters =
     do { rem_len \<leftarrow> MQTTSerialize_unsubscribeLength count topicFilters;
          if MQTTPacket_len rem_len > buflen then Some (MQTTPACKET_BUFFER_TOO_SHORT, buf)
          else serialized (do {
            cur \<leftarrow> writeChar (MQTTHeader UNSUBSCRIBE dup 1 0) (buf, 0);
            cur \<leftarrow> writeRemLen rem_len cur;
            cur \<leftarrow> writeInt (uint packetid) cur;
            unsubscribe_loop (nat count) 0 topicFilters cur }) }"

record suback_out =
  sa_packetid :: u16
  sa_count :: int
  grantedQoSs :: "int list"

text \<open>The loop of \<^verbatim>\<open>MQTTDeserialize_suback\<close>, with the result code of its early exit.\<close>

function suback_loop ::
  "bytes \<Rightarrow> nat \<Rightarrow> int \<Rightarrow> int \<Rightarrow> suback_out \<Rightarrow> (int \<times> suback_out) option" where
  "suback_loop buf cur enddata maxcount out =
     (if int cur < enddata then
        (if sa_count out > maxcount then Some (-1, out)
         else do { c \<leftarrow> mem_get buf cur;
                   granted \<leftarrow> mem_put (grantedQoSs out) (nat (sa_count out)) (uint c);
                   suback_loop buf (cur + 1) enddata maxcount
                     (out\<lparr>grantedQoSs := granted, sa_count := sa_count out + 1\<rparr>) })
      else Some (1, out))"
  by pat_completeness auto
termination
  by (relation "measure (\<lambda>(buf, cur, enddata, maxcount, out). nat (enddata - int cur))") auto

definition MQTTDeserialize_suback ::
  "int \<Rightarrow> bytes \<Rightarrow> int \<Rightarrow> suback_out \<Rightarrow> (int \<times> suback_out) option" where
  "MQTTDeserialize_suback maxcount buf buflen out0 =
     do { (header, cur0) \<leftarrow> readChar buf 0;
          if header_type header \<noteq> SUBACK then Some (0, out0)
          else do {
            (rc, mylen) \<leftarrow> MQTTPacket_decodeBuf buf cur0;
            let cur1 = cur0 + rc;
            let enddata = int cur1 + mylen;
            if enddata - int cur1 < 2 then Some (int rc, out0)
            else do {
              (i, cur2) \<leftarrow> readInt buf cur1;
              suback_loop buf cur2 enddata maxcount
                (out0\<lparr>sa_packetid := word_of_int i, sa_count := 0\<rparr>) } } }"

fun suback_write_loop :: "nat \<Rightarrow> nat \<Rightarrow> int list \<Rightarrow> bytes \<times> nat \<Rightarrow> (bytes \<times> nat) option" where
  "suback_write_loop 0 i granted cur = Some cur"
| "suback_write_loop (Suc n) i granted cur =
     do { q \<leftarrow> mem_get granted i;
          cur \<leftarrow> writeChar (word_of_int q) cur;
          suback_write_loop n (i + 1) granted cur }"

definition MQTTSerialize_suback :: "bytes \<Rightarrow> int \<Rightarrow> u16 \<Rightarrow> int \<Rightarrow> int list \<Rightarrow> (int \<times> bytes) option" where
  "MQTTSerialize_suback buf buflen packetid count granted =
     (if buflen < 2 + count then Some (MQTTPACKET_BUFFER_TOO_SHORT, buf)
      else serialized (do {
        cur \<leftarrow> writeChar (MQTTHeader SUBACK 0 0 0) (buf, 0);
        cur \<leftarrow> writeRemLen (2 + count) cur;
        cur \<leftarrow> writeInt (uint packetid) cur;
        suback_write_loop (nat count) 0 granted cur }))"

definition MQTTSerialize_unsuback :: "bytes \<Rightarrow> int \<Rightarrow> u16 \<Rightarrow> (int \<times> bytes) option" where
  "MQTTSerialize_unsuback buf buflen packetid =
     (if buflen < 2 then Some (MQTTPACKET_BUFFER_TOO_SHORT, buf)
      else serialized (do {
        cur \<leftarrow> writeChar (MQTTHeader UNSUBACK 0 0 0) (buf, 0);
        cur \<leftarrow> writeRemLen 2 cur;
        writeInt (uint packetid) cur }))"

text \<open>\<^verbatim>\<open>MQTTDeserialize_unsuback\<close> returns the packet id only.\<close>

definition MQTTDeserialize_unsuback :: "bytes \<Rightarrow> int \<Rightarrow> u16 \<Rightarrow> (int \<times> u16) option" where
  "MQTTDeserialize_unsuback buf buflen packetid =
     do { (rc, out) \<leftarrow> MQTTDeserialize_ack buf buflen
            \<lparr>ack_packettype = 0, ack_dup = 0, ack_packetid = packetid\<rparr>;
          Some (if ack_packettype out = UNSUBACK then 1 else rc, ack_packetid out) }"

record subscribe_out =
  sub_dup :: u8
  sub_packetid :: u16
  sub_count :: nat
  topicFilters :: "MQTTString list"
  requestedQoSs :: "int list"

text \<open>
  The parsing loops of the server side. \<^verbatim>\<open>readMQTTLenString\<close> writes through the pointer to
  \<^verbatim>\<open>topicFilters[*count]\<close>, so it fails when that is outside the array. Every round consumes at
  least two bytes. The parameter \<^verbatim>\<open>maxcount\<close> of both functions is not used by the code.
\<close>

lemma readMQTTLenString_progress:
  "readMQTTLenString ms buf p e = Some (ok, s, p') \<Longrightarrow> p \<le> p' \<and> (ok \<noteq> 0 \<longrightarrow> p + 2 \<le> p')"
  by (auto simp: readMQTTLenString_def readInt_def bind_eq_Some_conv Let_def split: if_splits)

function subscribe_read_loop ::
  "bytes \<Rightarrow> nat \<Rightarrow> int \<Rightarrow> int \<Rightarrow> subscribe_out \<Rightarrow> (int \<times> subscribe_out) option" where
  "subscribe_read_loop buf cur enddata rc out =
     (if int cur < enddata then
        (case mem_get (topicFilters out) (sub_count out) of
           None \<Rightarrow> None
         | Some slot \<Rightarrow>
           (case readMQTTLenString slot buf cur enddata of
              None \<Rightarrow> None
            | Some (ok, s, cur1) \<Rightarrow>
              (let out1 = out\<lparr>topicFilters := (topicFilters out)[sub_count out := s]\<rparr> in
               if ok = 0 \<or> int cur1 \<ge> enddata then Some (rc, out1)
               else
                 (case mem_get buf cur1 of
                    None \<Rightarrow> None
                  | Some q \<Rightarrow>
                    (case mem_put (requestedQoSs out1) (sub_count out1) (uint q) of
                       None \<Rightarrow> None
                     | Some qs \<Rightarrow>
                       subscribe_read_loop buf (cur1 + 1) enddata rc
                         (out1\<lparr>requestedQoSs := qs, sub_count := sub_count out1 + 1\<rparr>))))))
      else Some (1, out))"
  by pat_completeness auto
termination
  by (relation "measure (\<lambda>(buf, cur, enddata, rc, out). nat (enddata - int cur))")
    (auto dest: readMQTTLenString_progress)

definition MQTTDeserialize_subscribe ::
  "bytes \<Rightarrow> int \<Rightarrow> subscribe_out \<Rightarrow> (int \<times> subscribe_out) option" where
  "MQTTDeserialize_subscribe buf buflen out0 =
     do { (header, cur0) \<leftarrow> readChar buf 0;
          if header_type header \<noteq> SUBSCRIBE then Some (-1, out0)
          else do {
            (rc, mylen) \<leftarrow> MQTTPacket_decodeBuf buf cur0;
            let cur1 = cur0 + rc;
            let enddata = int cur1 + mylen;
            (i, cur2) \<leftarrow> readInt buf cur1;
            subscribe_read_loop buf cur2 enddata (int rc)
              (out0\<lparr>sub_dup := header_dup header, sub_packetid := word_of_int i, sub_count := 0\<rparr>) } }"

function unsubscribe_read_loop ::
  "bytes \<Rightarrow> nat \<Rightarrow> int \<Rightarrow> int \<Rightarrow> subscribe_out \<Rightarrow> (int \<times> subscribe_out) option" where
  "unsubscribe_read_loop buf cur enddata rc out =
     (if int cur < enddata then
        (case mem_get (topicFilters out) (sub_count out) of
           None \<Rightarrow> None
         | Some slot \<Rightarrow>
           (case readMQTTLenString slot buf cur enddata of
              None \<Rightarrow> None
            | Some (ok, s, cur1) \<Rightarrow>
              (let out1 = out\<lparr>topicFilters := (topicFilters out)[sub_count out := s]\<rparr> in
               if ok = 0 then Some (rc, out1)
               else unsubscribe_read_loop buf cur1 enddata rc (out1\<lparr>sub_count := sub_count out1 + 1\<rparr>))))
      else Some (1, out))"
  by pat_completeness auto
termination
  by (relation "measure (\<lambda>(buf, cur, enddata, rc, out). nat (enddata - int cur))")
    (auto dest: readMQTTLenString_progress)

definition MQTTDeserialize_unsubscribe ::
  "bytes \<Rightarrow> int \<Rightarrow> subscribe_out \<Rightarrow> (int \<times> subscribe_out) option" where
  "MQTTDeserialize_unsubscribe buf buflen out0 =
     do { (header, cur0) \<leftarrow> readChar buf 0;
          if header_type header \<noteq> UNSUBSCRIBE then Some (0, out0)
          else do {
            (rc, mylen) \<leftarrow> MQTTPacket_decodeBuf buf cur0;
            let cur1 = cur0 + rc;
            let enddata = int cur1 + mylen;
            (i, cur2) \<leftarrow> readInt buf cur1;
            unsubscribe_read_loop buf cur2 enddata (int rc)
              (out0\<lparr>sub_dup := header_dup header, sub_packetid := word_of_int i, sub_count := 0\<rparr>) } }"

declare suback_loop.simps [simp del] subscribe_read_loop.simps [simp del]
  unsubscribe_read_loop.simps [simp del]

section \<open>The packets\<close>

definition topics_wire :: "(MQTTString \<times> int) list \<Rightarrow> bytes" where
  "topics_wire ts = concat (map (\<lambda>(t, q). enc_str (mqtt_text t) @ [word_of_int q]) ts)"

definition names_wire :: "MQTTString list \<Rightarrow> bytes" where
  "names_wire ts = concat (map (\<lambda>t. enc_str (mqtt_text t)) ts)"

lemma topics_wire_simps [simp]:
  "topics_wire [] = []"
  "topics_wire ((t, q) # ts) = enc_str (mqtt_text t) @ [word_of_int q] @ topics_wire ts"
  by (simp_all add: topics_wire_def)

lemma names_wire_simps [simp]:
  "names_wire [] = []" "names_wire (t # ts) = enc_str (mqtt_text t) @ names_wire ts"
  by (simp_all add: names_wire_def)

lemma length_topics_wire:
  "length (topics_wire ts) = (\<Sum>(t, q)\<leftarrow>ts. length (mqtt_text t) + 3)"
  by (induction ts) auto

lemma length_names_wire: "length (names_wire ts) = (\<Sum>t\<leftarrow>ts. length (mqtt_text t) + 2)"
  by (induction ts) auto

lemma topics_length_loop_sum:
  "i + n = length ts \<Longrightarrow> list_all MQTTString_wf ts \<Longrightarrow>
   topics_length_loop n i extra ts len =
     Some (len + (\<Sum>t\<leftarrow>drop i ts. 2 + int (length (mqtt_text t)) + extra))"
proof (induction n arbitrary: i len)
  case (Suc n)
  then have i: "i < length ts" and "MQTTString_wf (ts ! i)" by (auto simp: list_all_length)
  moreover have "drop i ts = ts ! i # drop (Suc i) ts" using i by (simp add: Cons_nth_drop_Suc)
  ultimately show ?case
    using Suc.IH [of "i + 1"] Suc.prems by (simp add: mem_get_def MQTTstrlen_text)
qed simp

lemma subscribeLength_wire:
  assumes "list_all MQTTString_wf (map fst ts)"
  shows "MQTTSerialize_subscribeLength (int (length ts)) (map fst ts) = Some (int (length (topics_wire ts) + 2))"
proof -
  have "(\<Sum>t\<leftarrow>map fst ts. 2 + int (length (mqtt_text t)) + 1) = int (length (topics_wire ts))"
    by (induction ts) auto
  then show ?thesis
    using topics_length_loop_sum [OF _ assms, of 0 "length ts" 1 2]
    by (simp add: MQTTSerialize_subscribeLength_def)
qed

lemma unsubscribeLength_wire:
  assumes "list_all MQTTString_wf ts"
  shows "MQTTSerialize_unsubscribeLength (int (length ts)) ts = Some (int (length (names_wire ts) + 2))"
proof -
  have "(\<Sum>t\<leftarrow>ts. 2 + int (length (mqtt_text t)) + 0) = int (length (names_wire ts))"
    by (induction ts) auto
  then show ?thesis
    using topics_length_loop_sum [OF _ assms, of 0 "length ts" 0 2]
    by (simp add: MQTTSerialize_unsubscribeLength_def)
qed

lemma emits_subscribe_loop:
  "i + n = length ts \<Longrightarrow> list_all MQTTString_wf (map fst ts) \<Longrightarrow>
   emits (subscribe_loop n i (map fst ts) (map snd ts)) (topics_wire (drop i ts))"
proof (induction n arbitrary: i)
  case 0
  then show ?case using emits_Some by (simp add: emits_def)
next
  case (Suc n)
  then have i: "i < length ts" and wf: "MQTTString_wf (fst (ts ! i))" by (auto simp: list_all_length)
  obtain t q where tq: "ts ! i = (t, q)" by fastforce
  have ts: "topics_wire (drop i ts) = enc_str (mqtt_text t) @ [word_of_int q] @ topics_wire (drop (i + 1) ts)"
    using i tq by (simp add: Cons_nth_drop_Suc [symmetric])
  have "emits (\<lambda>cur. do { cur \<leftarrow> writeMQTTString t cur; cur \<leftarrow> writeChar (word_of_int q) cur;
      subscribe_loop n (i + 1) (map fst ts) (map snd ts) cur }) (topics_wire (drop i ts))"
    unfolding ts using wf tq Suc.prems by (intro emission Suc.IH) simp_all
  then show ?case using i tq by (simp add: emits_def mem_get_def)
qed

lemma emits_unsubscribe_loop:
  "i + n = length ts \<Longrightarrow> list_all MQTTString_wf ts \<Longrightarrow>
   emits (unsubscribe_loop n i ts) (names_wire (drop i ts))"
proof (induction n arbitrary: i)
  case 0
  then show ?case using emits_Some by (simp add: emits_def)
next
  case (Suc n)
  then have i: "i < length ts" and wf: "MQTTString_wf (ts ! i)" by (auto simp: list_all_length)
  have ts: "names_wire (drop i ts) = enc_str (mqtt_text (ts ! i)) @ names_wire (drop (i + 1) ts)"
    using i by (simp add: Cons_nth_drop_Suc [symmetric])
  have "emits (\<lambda>cur. do { cur \<leftarrow> writeMQTTString (ts ! i) cur; unsubscribe_loop n (i + 1) ts cur })
      (names_wire (drop i ts))"
    unfolding ts using wf Suc.prems by (intro emission Suc.IH) simp_all
  then show ?case using i by (simp add: emits_def mem_get_def)
qed

lemma emits_suback_loop:
  "i + n = length qs \<Longrightarrow> emits (suback_write_loop n i qs) (map word_of_int (drop i qs))"
proof (induction n arbitrary: i)
  case 0
  then show ?case using emits_Some by (simp add: emits_def)
next
  case (Suc n)
  then have i: "i < length qs" by simp
  have qs: "map word_of_int (drop i qs) = [word_of_int (qs ! i)] @ map word_of_int (drop (i + 1) qs)"
    using i by (simp add: Cons_nth_drop_Suc [symmetric])
  have "emits (\<lambda>cur. do { cur \<leftarrow> writeChar (word_of_int (qs ! i)) cur; suback_write_loop n (i + 1) qs cur })
      (map word_of_int (drop i qs))"
    unfolding qs using Suc.prems by (intro emission Suc.IH) simp_all
  then show ?case using i by (simp add: emits_def mem_get_def)
qed

text \<open>Filling an array from index \<open>k\<close> on.\<close>

definition fill :: "nat \<Rightarrow> 'a list \<Rightarrow> 'a list \<Rightarrow> 'a list" where
  "fill k xs arr = take k arr @ xs @ drop (k + length xs) arr"

lemma fill_Nil [simp]: "fill k [] arr = arr"
  by (simp add: fill_def)

lemma fill_0: "fill 0 xs arr = xs @ drop (length xs) arr"
  by (simp add: fill_def)

lemma fill_Cons:
  assumes "k < length arr"
  shows "fill (Suc k) xs (arr[k := x]) = fill k (x # xs) arr"
  using assms by (simp add: fill_def take_Suc_conv_app_nth)

lemma suback_loop_reads:
  "holds_at buf cur codes \<Longrightarrow> enddata = int (cur + length codes) \<Longrightarrow> sa_count out = int k \<Longrightarrow>
   k + length codes \<le> length (grantedQoSs out) \<Longrightarrow> int (k + length codes) \<le> maxcount + 1 \<Longrightarrow>
   suback_loop buf cur enddata maxcount out =
     Some (1, out\<lparr>grantedQoSs := fill k (map uint codes) (grantedQoSs out),
                  sa_count := int (k + length codes)\<rparr>)"
proof (induction codes arbitrary: cur k out)
  case Nil
  then show ?case by (subst suback_loop.simps) simp
next
  case (Cons c codes)
  let ?out = "out\<lparr>grantedQoSs := (grantedQoSs out)[k := uint c], sa_count := int (k + 1)\<rparr>"
  have at: "mem_get buf cur = Some c" "holds_at buf (cur + 1) codes"
    using Cons.prems(1) by (auto simp: holds_at_Cons mem_get_def)
  have "suback_loop buf cur enddata maxcount out = suback_loop buf (cur + 1) enddata maxcount ?out"
    using Cons.prems at(1) by (subst suback_loop.simps) (simp add: mem_put_def add.commute)
  also have "\<dots> = Some (1, ?out\<lparr>grantedQoSs := fill (k + 1) (map uint codes) (grantedQoSs ?out),
      sa_count := int (k + 1 + length codes)\<rparr>)"
    using Cons.prems at(2) by (intro Cons.IH) simp_all
  finally show ?case using Cons.prems by (simp add: fill_Cons)
qed

lemma suback_loop_overruns:
  "holds_at buf cur codes \<Longrightarrow> enddata = int (cur + length codes) \<Longrightarrow> sa_count out = int k \<Longrightarrow>
   length (grantedQoSs out) < k + length codes \<Longrightarrow> k \<le> length (grantedQoSs out) \<Longrightarrow>
   int (length (grantedQoSs out)) \<le> maxcount \<Longrightarrow>
   suback_loop buf cur enddata maxcount out = None"
proof (induction codes arbitrary: cur k out)
  case (Cons c codes)
  let ?out = "out\<lparr>grantedQoSs := (grantedQoSs out)[k := uint c], sa_count := int (k + 1)\<rparr>"
  have at: "mem_get buf cur = Some c" "holds_at buf (cur + 1) codes"
    using Cons.prems(1) by (auto simp: holds_at_Cons mem_get_def)
  show ?case
  proof (cases "k < length (grantedQoSs out)")
    case True
    have "suback_loop buf cur enddata maxcount out = suback_loop buf (cur + 1) enddata maxcount ?out"
      using Cons.prems at(1) True by (subst suback_loop.simps) (simp add: mem_put_def add.commute)
    also have "\<dots> = None" using Cons.prems at(2) True by (intro Cons.IH [of _ _ "k + 1"]) simp_all
    finally show ?thesis .
  next
    case False
    then show ?thesis
      using Cons.prems at(1) by (subst suback_loop.simps) (simp add: mem_put_def)
  qed
qed simp

lemma subscribe_loop_reads:
  "holds_at buf cur (topics_wire ts) \<Longrightarrow> enddata = int (cur + length (topics_wire ts)) \<Longrightarrow>
   list_all (\<lambda>(t, q). MQTTString_wf t \<and> 0 \<le> q \<and> q < 256) ts \<Longrightarrow>
   sub_count out + length ts \<le> length (topicFilters out) \<Longrightarrow>
   sub_count out + length ts \<le> length (requestedQoSs out) \<Longrightarrow>
   subscribe_read_loop buf cur enddata rc out =
     Some (1, out\<lparr>topicFilters := fill (sub_count out) (map (\<lambda>(t, q). lenstring (mqtt_text t)) ts) (topicFilters out),
                  requestedQoSs := fill (sub_count out) (map snd ts) (requestedQoSs out),
                  sub_count := sub_count out + length ts\<rparr>)"
proof (induction ts arbitrary: cur out)
  case Nil
  then show ?case by (subst subscribe_read_loop.simps) simp
next
  case (Cons tq ts)
  obtain t q where tq: "tq = (t, q)" by fastforce
  let ?c1 = "cur + length (mqtt_text t) + 2" and ?k = "sub_count out"
  let ?out = "out\<lparr>topicFilters := (topicFilters out)[?k := lenstring (mqtt_text t)],
    requestedQoSs := (requestedQoSs out)[?k := q], sub_count := ?k + 1\<rparr>"
  have at: "holds_at buf cur (enc_str (mqtt_text t))" "holds_at buf ?c1 [word_of_int q]"
      "holds_at buf (?c1 + 1) (topics_wire ts)"
    using Cons.prems(1) by (simp_all add: tq holds_at_append holds_at_Cons holds_at_Nil add.assoc)
  have wf: "length (mqtt_text t) < 65536" "uint (word_of_int q :: u8) = q"
    using Cons.prems(3) by (simp_all add: tq MQTTString_wf_def uint_word_of_int)
  have s: "readMQTTLenString ms buf cur enddata = Some (1, lenstring (mqtt_text t), ?c1)" for ms
    using at(1) wf(1) by (rule readMQTTLenString_holds) (simp add: Cons.prems(2) tq)
  have "mem_get buf ?c1 = Some (word_of_int q)" using at(2) by (simp add: holds_at_Cons mem_get_def)
  then have "subscribe_read_loop buf cur enddata rc out = subscribe_read_loop buf (?c1 + 1) enddata rc ?out"
    using s Cons.prems wf
    by (subst subscribe_read_loop.simps) (simp add: mem_get_Some mem_put_def tq Let_def)
  also have "\<dots> = Some (1, ?out\<lparr>topicFilters := fill (sub_count ?out) (map (\<lambda>(t, q). lenstring (mqtt_text t)) ts) (topicFilters ?out),
                  requestedQoSs := fill (sub_count ?out) (map snd ts) (requestedQoSs ?out),
                  sub_count := sub_count ?out + length ts\<rparr>)"
    using at(3) Cons.prems by (intro Cons.IH) (simp_all add: tq)
  finally show ?case using Cons.prems by (simp add: fill_Cons tq)
qed

lemma unsubscribe_loop_reads:
  "holds_at buf cur (names_wire ts) \<Longrightarrow> enddata = int (cur + length (names_wire ts)) \<Longrightarrow>
   list_all MQTTString_wf ts \<Longrightarrow> sub_count out + length ts \<le> length (topicFilters out) \<Longrightarrow>
   unsubscribe_read_loop buf cur enddata rc out =
     Some (1, out\<lparr>topicFilters := fill (sub_count out) (map (\<lambda>t. lenstring (mqtt_text t)) ts) (topicFilters out),
                  sub_count := sub_count out + length ts\<rparr>)"
proof (induction ts arbitrary: cur out)
  case Nil
  then show ?case by (subst unsubscribe_read_loop.simps) simp
next
  case (Cons t ts)
  let ?c1 = "cur + length (mqtt_text t) + 2" and ?k = "sub_count out"
  let ?out = "out\<lparr>topicFilters := (topicFilters out)[?k := lenstring (mqtt_text t)], sub_count := ?k + 1\<rparr>"
  have at: "holds_at buf cur (enc_str (mqtt_text t))" "holds_at buf ?c1 (names_wire ts)"
    using Cons.prems(1) by (simp_all add: holds_at_append add.assoc)
  have wf: "length (mqtt_text t) < 65536" using Cons.prems(3) by (simp add: MQTTString_wf_def)
  have "readMQTTLenString ms buf cur enddata = Some (1, lenstring (mqtt_text t), ?c1)" for ms
    using at(1) wf by (rule readMQTTLenString_holds) (simp add: Cons.prems(2))
  then have "unsubscribe_read_loop buf cur enddata rc out = unsubscribe_read_loop buf ?c1 enddata rc ?out"
    using Cons.prems by (subst unsubscribe_read_loop.simps) (simp add: mem_get_Some Let_def)
  also have "\<dots> = Some (1, ?out\<lparr>topicFilters := fill (sub_count ?out) (map (\<lambda>t. lenstring (mqtt_text t)) ts) (topicFilters ?out),
                  sub_count := sub_count ?out + length ts\<rparr>)"
    using at(2) Cons.prems by (intro Cons.IH) simp_all
  finally show ?case using Cons.prems by (simp add: fill_Cons)
qed

text \<open>SUBSCRIBE and UNSUBSCRIBE as codecs: the message is the dup bit, the packet id and the topics.\<close>

fun subscribe_wire :: "u8 \<times> u16 \<times> (MQTTString \<times> int) list \<Rightarrow> bytes" where
  "subscribe_wire (dup, packetid, ts) =
     [MQTTHeader SUBSCRIBE dup 1 0] @ enc (length (topics_wire ts) + 2) @ enc16 (unat packetid) @ topics_wire ts"

fun subscribe_wf :: "u8 \<times> u16 \<times> (MQTTString \<times> int) list \<Rightarrow> bool" where
  "subscribe_wf (dup, packetid, ts) \<longleftrightarrow>
     list_all (\<lambda>(t, q). MQTTString_wf t \<and> 0 \<le> q \<and> q < 256) ts \<and> length (topics_wire ts) + 2 < 268435456"

fun subscribe_need :: "u8 \<times> u16 \<times> (MQTTString \<times> int) list \<Rightarrow> int" where
  "subscribe_need (dup, packetid, ts) = MQTTPacket_len (int (length (topics_wire ts) + 2))"

fun subscribe_fits :: "u8 \<times> u16 \<times> (MQTTString \<times> int) list \<Rightarrow> subscribe_out \<Rightarrow> bool" where
  "subscribe_fits (dup, packetid, ts) out \<longleftrightarrow>
     length ts \<le> length (topicFilters out) \<and> length ts \<le> length (requestedQoSs out)"

fun subscribe_view :: "u8 \<times> u16 \<times> (MQTTString \<times> int) list \<Rightarrow> subscribe_out \<Rightarrow> subscribe_out" where
  "subscribe_view (dup, packetid, ts) out =
     out\<lparr>sub_dup := take_bit 1 dup, sub_packetid := packetid, sub_count := length ts,
         topicFilters := map (\<lambda>(t, q). lenstring (mqtt_text t)) ts @ drop (length ts) (topicFilters out),
         requestedQoSs := map snd ts @ drop (length ts) (requestedQoSs out)\<rparr>"

fun subscribe_serialize ::
  "bytes \<Rightarrow> int \<Rightarrow> u8 \<times> u16 \<times> (MQTTString \<times> int) list \<Rightarrow> (int \<times> bytes) option" where
  "subscribe_serialize buf buflen (dup, packetid, ts) =
     MQTTSerialize_subscribe buf buflen dup packetid (int (length ts)) (map fst ts) (map snd ts)"

lemma subscribe_topics_wf:
  "list_all (\<lambda>(t, q). MQTTString_wf t \<and> 0 \<le> q \<and> q < (256 :: int)) ts \<Longrightarrow> list_all MQTTString_wf (map fst ts)"
  by (auto simp: list_all_iff)

lemma emits_subscribe:
  assumes "list_all MQTTString_wf (map fst ts)"
  shows "emits (\<lambda>cur. do {
      cur \<leftarrow> writeChar (MQTTHeader SUBSCRIBE dup 1 0) cur;
      cur \<leftarrow> writeRemLen (int (length (topics_wire ts) + 2)) cur;
      cur \<leftarrow> writeInt (uint packetid) cur;
      subscribe_loop (length ts) 0 (map fst ts) (map snd ts) cur }) (subscribe_wire (dup, packetid, ts))"
proof -
  have "emits (subscribe_loop (length ts) 0 (map fst ts) (map snd ts)) (topics_wire ts)"
    using emits_subscribe_loop [of 0 "length ts" ts] assms by simp
  then show ?thesis unfolding subscribe_wire.simps by (intro emission)
qed

interpretation subscribe: packet_codec subscribe_serialize MQTTDeserialize_subscribe subscribe_wf
  subscribe_wire subscribe_need subscribe_fits subscribe_view
proof (unfold_locales, goal_cases)
  case (1 m buflen buf)
  then show ?case
    by (cases m) (simp add: MQTTSerialize_subscribe_def subscribeLength_wire subscribe_topics_wf)
next
  case (2 m buflen buf)
  obtain dup packetid ts where m: "m = (dup, packetid, ts)" by (cases m) blast
  have wf: "list_all MQTTString_wf (map fst ts)" using 2(1) subscribe_topics_wf by (simp add: m)
  have "length (subscribe_wire m) \<le> length buf"
    using 2 MQTTPacket_len_bound [of "length (topics_wire ts) + 2"] by (simp add: m)
  from emits_run [OF emits_subscribe [OF wf] this [unfolded m]] show ?case
    using 2 by (simp add: m MQTTSerialize_subscribe_def subscribeLength_wire [OF wf])
next
  case (3 m)
  then show ?case
  proof (cases m)
    case (fields dup packetid ts)
    then show ?thesis using 3 MQTTPacket_len_bound [of "length (topics_wire ts) + 2"] by simp
  qed
next
  case (4 m out buf)
  obtain dup packetid ts where m: "m = (dup, packetid, ts)" by (cases m) blast
  let ?n = "1 + length (enc (length (topics_wire ts) + 2))"
  let ?out = "out\<lparr>sub_dup := take_bit 1 dup, sub_packetid := packetid, sub_count := 0\<rparr>"
  have at: "holds_at buf 0 [MQTTHeader SUBSCRIBE dup 1 0]" "holds_at buf 1 (enc (length (topics_wire ts) + 2))"
      "holds_at buf ?n (enc16 (unat packetid))" "holds_at buf (?n + 2) (topics_wire ts)"
    using 4(3) by (simp_all add: m holds_at_append holds_at_Cons holds_at_Nil add.assoc)
  have wf: "list_all (\<lambda>(t, q). MQTTString_wf t \<and> 0 \<le> q \<and> q < 256) ts" "length (topics_wire ts) + 2 < 268435456"
    using 4(1) by (simp_all add: m)
  have "subscribe_read_loop buf (?n + 2) (int (?n + 2 + length (topics_wire ts))) rc ?out =
      Some (1, subscribe_view m out)" for rc
    using subscribe_loop_reads [OF at(4) refl wf(1), of ?out rc] 4(2) by (simp add: m fill_0)
  moreover have "int ?n + int (length (topics_wire ts) + 2) = int (?n + 2 + length (topics_wire ts))"
    by simp
  ultimately show ?case
    using readChar_holds [OF at(1)] decodeBuf_holds [OF at(2) wf(2)] readInt_u16 [OF at(3)]
    by (simp add: MQTTDeserialize_subscribe_def m Let_def algebra_simps)
qed

fun unsubscribe_wire :: "u8 \<times> u16 \<times> MQTTString list \<Rightarrow> bytes" where
  "unsubscribe_wire (dup, packetid, ts) =
     [MQTTHeader UNSUBSCRIBE dup 1 0] @ enc (length (names_wire ts) + 2) @ enc16 (unat packetid) @ names_wire ts"

fun unsubscribe_wf :: "u8 \<times> u16 \<times> MQTTString list \<Rightarrow> bool" where
  "unsubscribe_wf (dup, packetid, ts) \<longleftrightarrow>
     list_all MQTTString_wf ts \<and> length (names_wire ts) + 2 < 268435456"

fun unsubscribe_need :: "u8 \<times> u16 \<times> MQTTString list \<Rightarrow> int" where
  "unsubscribe_need (dup, packetid, ts) = MQTTPacket_len (int (length (names_wire ts) + 2))"

fun unsubscribe_fits :: "u8 \<times> u16 \<times> MQTTString list \<Rightarrow> subscribe_out \<Rightarrow> bool" where
  "unsubscribe_fits (dup, packetid, ts) out \<longleftrightarrow> length ts \<le> length (topicFilters out)"

fun unsubscribe_view :: "u8 \<times> u16 \<times> MQTTString list \<Rightarrow> subscribe_out \<Rightarrow> subscribe_out" where
  "unsubscribe_view (dup, packetid, ts) out =
     out\<lparr>sub_dup := take_bit 1 dup, sub_packetid := packetid, sub_count := length ts,
         topicFilters := map (\<lambda>t. lenstring (mqtt_text t)) ts @ drop (length ts) (topicFilters out)\<rparr>"

fun unsubscribe_serialize :: "bytes \<Rightarrow> int \<Rightarrow> u8 \<times> u16 \<times> MQTTString list \<Rightarrow> (int \<times> bytes) option" where
  "unsubscribe_serialize buf buflen (dup, packetid, ts) =
     MQTTSerialize_unsubscribe buf buflen dup packetid (int (length ts)) ts"

lemma emits_unsubscribe:
  assumes "list_all MQTTString_wf ts"
  shows "emits (\<lambda>cur. do {
      cur \<leftarrow> writeChar (MQTTHeader UNSUBSCRIBE dup 1 0) cur;
      cur \<leftarrow> writeRemLen (int (length (names_wire ts) + 2)) cur;
      cur \<leftarrow> writeInt (uint packetid) cur;
      unsubscribe_loop (length ts) 0 ts cur }) (unsubscribe_wire (dup, packetid, ts))"
proof -
  have "emits (unsubscribe_loop (length ts) 0 ts) (names_wire ts)"
    using emits_unsubscribe_loop [of 0 "length ts" ts] assms by simp
  then show ?thesis unfolding unsubscribe_wire.simps by (intro emission)
qed

interpretation unsubscribe: packet_codec unsubscribe_serialize MQTTDeserialize_unsubscribe
  unsubscribe_wf unsubscribe_wire unsubscribe_need unsubscribe_fits unsubscribe_view
proof (unfold_locales, goal_cases)
  case (1 m buflen buf)
  then show ?case by (cases m) (simp add: MQTTSerialize_unsubscribe_def unsubscribeLength_wire)
next
  case (2 m buflen buf)
  obtain dup packetid ts where m: "m = (dup, packetid, ts)" by (cases m) blast
  have wf: "list_all MQTTString_wf ts" using 2(1) by (simp add: m)
  have "length (unsubscribe_wire m) \<le> length buf"
    using 2 MQTTPacket_len_bound [of "length (names_wire ts) + 2"] by (simp add: m)
  from emits_run [OF emits_unsubscribe [OF wf] this [unfolded m]] show ?case
    using 2 by (simp add: m MQTTSerialize_unsubscribe_def unsubscribeLength_wire [OF wf])
next
  case (3 m)
  then show ?case
  proof (cases m)
    case (fields dup packetid ts)
    then show ?thesis using 3 MQTTPacket_len_bound [of "length (names_wire ts) + 2"] by simp
  qed
next
  case (4 m out buf)
  obtain dup packetid ts where m: "m = (dup, packetid, ts)" by (cases m) blast
  let ?n = "1 + length (enc (length (names_wire ts) + 2))"
  let ?out = "out\<lparr>sub_dup := take_bit 1 dup, sub_packetid := packetid, sub_count := 0\<rparr>"
  have at: "holds_at buf 0 [MQTTHeader UNSUBSCRIBE dup 1 0]" "holds_at buf 1 (enc (length (names_wire ts) + 2))"
      "holds_at buf ?n (enc16 (unat packetid))" "holds_at buf (?n + 2) (names_wire ts)"
    using 4(3) by (simp_all add: m holds_at_append holds_at_Cons holds_at_Nil add.assoc)
  have wf: "list_all MQTTString_wf ts" "length (names_wire ts) + 2 < 268435456"
    using 4(1) by (simp_all add: m)
  have "unsubscribe_read_loop buf (?n + 2) (int (?n + 2 + length (names_wire ts))) rc ?out =
      Some (1, unsubscribe_view m out)" for rc
    using unsubscribe_loop_reads [OF at(4) refl wf(1), of ?out rc] 4(2) by (simp add: m fill_0)
  then show ?case
    using readChar_holds [OF at(1)] decodeBuf_holds [OF at(2) wf(2)] readInt_u16 [OF at(3)]
    by (simp add: MQTTDeserialize_unsubscribe_def m Let_def algebra_simps)
qed

definition suback_wire :: "u16 \<Rightarrow> bytes \<Rightarrow> bytes" where
  "suback_wire packetid codes =
     [MQTTHeader SUBACK 0 0 0] @ enc (length codes + 2) @ enc16 (unat packetid) @ codes"

lemma suback_enters_loop:
  assumes "holds_at buf 0 (suback_wire packetid codes)" and "length codes + 2 < 268435456"
  shows "\<exists>p. holds_at buf p codes \<and> MQTTDeserialize_suback maxcount buf buflen out =
    suback_loop buf p (int (p + length codes)) maxcount (out\<lparr>sa_packetid := packetid, sa_count := 0\<rparr>)"
proof -
  let ?n = "1 + length (enc (length codes + 2))"
  have at: "holds_at buf 0 [MQTTHeader SUBACK 0 0 0]" "holds_at buf 1 (enc (length codes + 2))"
      "holds_at buf ?n (enc16 (unat packetid))" "holds_at buf (?n + 2) codes"
    using assms(1) by (simp_all add: suback_wire_def holds_at_append holds_at_Cons holds_at_Nil add.assoc)
  then show ?thesis
    using readChar_holds [OF at(1)] decodeBuf_holds [OF at(2) assms(2)] readInt_u16 [OF at(3)]
    by (intro exI [of _ "?n + 2"]) (simp add: MQTTDeserialize_suback_def Let_def algebra_simps)
qed

section \<open>Properties\<close>

text \<open>
  Property C20. SUBSCRIBE round trip: for topic filters of at most 65535 bytes and output arrays
  with enough entries, the packet written by \<^verbatim>\<open>MQTTSerialize_subscribe\<close> (or refused, when the
  buffer is too short) is read back by \<^verbatim>\<open>MQTTDeserialize_subscribe\<close> with the same packet id, number
  of topics, topic filters and requested qualities of service, in order.
\<close>

theorem subscribe_roundtrip:
  assumes "list_all (\<lambda>(t, q). MQTTString_wf t \<and> 0 \<le> q \<and> q < 256) ts"
    and "length (topics_wire ts) + 2 < 268435456" and "buflen \<le> int (length buf)"
    and "length ts \<le> length (topicFilters out)" and "length ts \<le> length (requestedQoSs out)"
  shows "\<exists>rc buf'. MQTTSerialize_subscribe buf buflen dup packetid (int (length ts)) (map fst ts) (map snd ts) =
      Some (rc, buf') \<and> length buf' = length buf \<and>
    (if buflen < MQTTPacket_len (int (length (topics_wire ts) + 2))
     then rc = MQTTPACKET_BUFFER_TOO_SHORT \<and> buf' = buf
     else 0 \<le> rc \<and> rc \<le> buflen \<and> drop (nat rc) buf' = drop (nat rc) buf \<and>
       (\<exists>out'. MQTTDeserialize_subscribe buf' rc out = Some (1, out') \<and>
          sub_dup out' = take_bit 1 dup \<and> sub_packetid out' = packetid \<and> sub_count out' = length ts \<and>
          take (length ts) (topicFilters out') = map (\<lambda>(t, q). lenstring (mqtt_text t)) ts \<and>
          take (length ts) (requestedQoSs out') = map snd ts))"
proof -
  let ?m = "(dup, packetid, ts)"
  have "subscribe_wf ?m" and "subscribe_fits ?m out" using assms by simp_all
  from subscribe.roundtrip [OF this(1) assms(3) this(2)] obtain rc buf' where
    "subscribe_serialize buf buflen ?m = Some (rc, buf')" "length buf' = length buf"
    "if buflen < subscribe_need ?m then rc = MQTTPACKET_BUFFER_TOO_SHORT \<and> buf' = buf
     else 0 \<le> rc \<and> rc \<le> buflen \<and> drop (nat rc) buf' = drop (nat rc) buf \<and>
          MQTTDeserialize_subscribe buf' rc out = Some (1, subscribe_view ?m out)"
    by blast
  then show ?thesis by (intro exI [of _ rc] exI [of _ buf']) (auto simp del: subscribe_wire.simps)
qed

theorem subscribe_roundtrip_witness:
  "\<exists>rc buf'. MQTTSerialize_subscribe (replicate 20 0) 20 0 3 (int (length [(lenstring [0x61, 0x2f, 0x23], 1 :: int)]))
      (map fst [(lenstring [0x61, 0x2f, 0x23], 1 :: int)]) (map snd [(lenstring [0x61, 0x2f, 0x23], 1)]) =
      Some (rc, buf') \<and> length buf' = length (replicate 20 (0::u8)) \<and>
    (if 20 < MQTTPacket_len (int (length (topics_wire [(lenstring [0x61, 0x2f, 0x23], 1)]) + 2))
     then rc = MQTTPACKET_BUFFER_TOO_SHORT \<and> buf' = replicate 20 0
     else 0 \<le> rc \<and> rc \<le> 20 \<and> drop (nat rc) buf' = drop (nat rc) (replicate 20 0) \<and>
       (\<exists>out'. MQTTDeserialize_subscribe buf' rc
            \<lparr>sub_dup = 0, sub_packetid = 0, sub_count = 0, topicFilters = [MQTTString_initializer],
             requestedQoSs = [0]\<rparr> = Some (1, out') \<and>
          sub_dup out' = take_bit 1 0 \<and> sub_packetid out' = 3 \<and>
          sub_count out' = length [(lenstring [0x61, 0x2f, 0x23], 1 :: int)] \<and>
          take (length [(lenstring [0x61, 0x2f, 0x23], 1 :: int)]) (topicFilters out') =
            map (\<lambda>(t, q). lenstring (mqtt_text t)) [(lenstring [0x61, 0x2f, 0x23], 1 :: int)] \<and>
          take (length [(lenstring [0x61, 0x2f, 0x23], 1 :: int)]) (requestedQoSs out') =
            map snd [(lenstring [0x61, 0x2f, 0x23], 1)]))"
  by (rule subscribe_roundtrip)
    (simp_all add: MQTTString_wf_def lenstring_def mqtt_text_def)

text \<open>
  SUBACK and the output array: with an array of exactly \<^verbatim>\<open>maxcount\<close> entries, a SUBACK
  packet of at most \<^verbatim>\<open>maxcount\<close> return codes is read back completely, and every longer one is
  written past the end of the array, because \<^verbatim>\<open>MQTTDeserialize_suback\<close> tests \<^verbatim>\<open>*count > maxcount\<close>
  before it stores entry \<^verbatim>\<open>*count\<close>. The client calls it with room for one code.
\<close>

theorem suback_array_bound:
  assumes "holds_at buf 0 (suback_wire packetid codes)" and "length codes + 2 < 268435456"
    and "maxcount = int (length (grantedQoSs out))"
  shows "if int (length codes) \<le> maxcount
    then \<exists>out'. MQTTDeserialize_suback maxcount buf buflen out = Some (1, out') \<and>
      sa_packetid out' = packetid \<and> sa_count out' = int (length codes) \<and>
      take (length codes) (grantedQoSs out') = map uint codes
    else MQTTDeserialize_suback maxcount buf buflen out = None"
proof -
  let ?out = "out\<lparr>sa_packetid := packetid, sa_count := 0\<rparr>"
  obtain p where p: "holds_at buf p codes" "MQTTDeserialize_suback maxcount buf buflen out =
      suback_loop buf p (int (p + length codes)) maxcount ?out"
    using suback_enters_loop [OF assms(1,2)] by blast
  show ?thesis
    using suback_loop_reads [OF p(1) refl, of ?out 0 maxcount]
      suback_loop_overruns [OF p(1) refl, of ?out 0 maxcount] p(2) assms(3)
    by (auto simp: fill_0)
qed

theorem suback_array_bound_witness:
  "if int (length [0, 1 :: u8]) \<le> 1
    then \<exists>out'. MQTTDeserialize_suback 1 (suback_wire 7 [0, 1]) 6 \<lparr>sa_packetid = 0, sa_count = 0, grantedQoSs = [0]\<rparr> =
        Some (1, out') \<and> sa_packetid out' = 7 \<and> sa_count out' = int (length [0, 1 :: u8]) \<and>
      take (length [0, 1 :: u8]) (grantedQoSs out') = map uint [0, 1 :: u8]
    else MQTTDeserialize_suback 1 (suback_wire 7 [0, 1]) 6
      \<lparr>sa_packetid = 0, sa_count = 0, grantedQoSs = [0]\<rparr> = None"
  by (rule suback_array_bound) (simp_all add: holds_at_def)

end
