(* ===== verification/KernelState.thy ===== *)
theory KernelState
  imports Prelude
begin

text \<open>
  The state of the RT-Thread kernel as this firmware configures it (one core, 32 priorities, no
  signals, soft timers, timer skip list of one level; \<^verbatim>\<open>rtconfig.h\<close>). Threads and timers are named
  by identifiers; an intrusive list (\<^verbatim>\<open>rt_list_t\<close>) is the sequence of the nodes linked behind its
  head, and \<^verbatim>\<open>rt_list_remove\<close> of a thread's \<^verbatim>\<open>tlist\<close> node takes it out of whichever list it is in
  (the theory \<open>RtList\<close> justifies this view for the pointer representation). A failed
  \<^verbatim>\<open>RT_ASSERT\<close> and a null pointer dereference are \<open>None\<close>. Interrupt masking makes each kernel
  operation atomic, so the operations are functions from state to state; a function that calls
  \<^verbatim>\<open>rt_schedule\<close> in the middle is split there, because the code after the call runs when the thread is
  scheduled again.
\<close>

section \<open>Constants\<close>

definition RT_EOK :: int where "RT_EOK = 0"
definition RT_ERROR :: int where "RT_ERROR = 1"
definition RT_ETIMEOUT :: int where "RT_ETIMEOUT = 2"
definition RT_EFULL :: int where "RT_EFULL = 3"
definition RT_EEMPTY :: int where "RT_EEMPTY = 4"
definition RT_ENOMEM :: int where "RT_ENOMEM = 5"
definition RT_EBUSY :: int where "RT_EBUSY = 7"
definition RT_EIO :: int where "RT_EIO = 8"
definition RT_EINVAL :: int where "RT_EINVAL = 10"

definition RT_THREAD_INIT :: u8 where "RT_THREAD_INIT = 0"
definition RT_THREAD_READY :: u8 where "RT_THREAD_READY = 1"
definition RT_THREAD_SUSPEND :: u8 where "RT_THREAD_SUSPEND = 2"
definition RT_THREAD_RUNNING :: u8 where "RT_THREAD_RUNNING = 3"
definition RT_THREAD_CLOSE :: u8 where "RT_THREAD_CLOSE = 4"
definition RT_THREAD_STAT_MASK :: u8 where "RT_THREAD_STAT_MASK = 7"
definition RT_THREAD_STAT_YIELD :: u8 where "RT_THREAD_STAT_YIELD = 8"

definition RT_TIMER_FLAG_ACTIVATED :: u8 where "RT_TIMER_FLAG_ACTIVATED = 1"
definition RT_TIMER_FLAG_PERIODIC :: u8 where "RT_TIMER_FLAG_PERIODIC = 2"
definition RT_TIMER_FLAG_SOFT_TIMER :: u8 where "RT_TIMER_FLAG_SOFT_TIMER = 4"

definition RT_THREAD_PRIORITY_MAX :: nat where "RT_THREAD_PRIORITY_MAX = 32"
definition RT_TICK_MAX :: u32 where "RT_TICK_MAX = 0xffffffff"

lemmas thread_stat_defs = RT_THREAD_INIT_def RT_THREAD_READY_def RT_THREAD_SUSPEND_def
  RT_THREAD_RUNNING_def RT_THREAD_CLOSE_def RT_THREAD_STAT_MASK_def RT_THREAD_STAT_YIELD_def

lemmas timer_flag_defs = RT_TIMER_FLAG_ACTIVATED_def RT_TIMER_FLAG_PERIODIC_def
  RT_TIMER_FLAG_SOFT_TIMER_def

section \<open>State\<close>

type_synonym tid = nat

record rt_thread =
  error :: int
  stat :: u8
  current_priority :: nat
  number_mask :: u32
  event_set :: u32
  event_info :: u8
  init_tick :: u32
  remaining_tick :: u32

text \<open>
  A timer is the built-in timer of a thread, whose timeout function is \<^verbatim>\<open>_thread_timeout\<close>, or a timer
  of the application.
\<close>

datatype timer_id = ThreadTimer tid | UserTimer nat

record rt_timer =
  timer_flag :: u8
  timer_init_tick :: u32
  timeout_tick :: u32

text \<open>
  The heads of the lists a thread's \<^verbatim>\<open>tlist\<close> node can be in: the ready list of a priority, the list
  of threads suspended on an IPC object, the second such list of a mailbox or message queue
  (suspended senders), and the list of threads that have ended.
\<close>

datatype list_head = PrioHead nat | SuspHead nat | SenderHead nat | DefunctHead

text \<open>
  \<open>check_list\<close> and \<open>soft_check_list\<close> are the temporary lists of \<^verbatim>\<open>rt_timer_check\<close> and
  \<^verbatim>\<open>rt_soft_timer_check\<close>, which hold the timer whose timeout function is running.
\<close>

record kernel =
  threads :: "tid \<Rightarrow> rt_thread"
  tlists :: "list_head \<Rightarrow> tid list"
  rt_current_thread :: "tid option"
  rt_current_priority :: nat
  rt_thread_ready_priority_group :: u32
  rt_scheduler_lock_nest :: int
  rt_tick :: u32
  timers :: "timer_id \<Rightarrow> rt_timer"
  timer_list :: "timer_id list"
  soft_timer_list :: "timer_id list"
  check_list :: "timer_id list"
  soft_check_list :: "timer_id list"
  soft_timer_busy :: bool
  timer_thread :: tid

definition upd_thread :: "tid \<Rightarrow> (rt_thread \<Rightarrow> rt_thread) \<Rightarrow> kernel \<Rightarrow> kernel" where
  "upd_thread t f k = k\<lparr>threads := (threads k)(t := f (threads k t))\<rparr>"

definition upd_timer :: "timer_id \<Rightarrow> (rt_timer \<Rightarrow> rt_timer) \<Rightarrow> kernel \<Rightarrow> kernel" where
  "upd_timer i f k = k\<lparr>timers := (timers k)(i := f (timers k i))\<rparr>"

text \<open>\<^verbatim>\<open>rt_list_insert_after\<close> and \<^verbatim>\<open>rt_list_insert_before\<close> of a head, \<^verbatim>\<open>rt_list_remove\<close> of a node.\<close>

definition list_insert_after :: "list_head \<Rightarrow> tid \<Rightarrow> kernel \<Rightarrow> kernel" where
  "list_insert_after h t k = k\<lparr>tlists := (tlists k)(h := t # tlists k h)\<rparr>"

definition list_insert_before :: "list_head \<Rightarrow> tid \<Rightarrow> kernel \<Rightarrow> kernel" where
  "list_insert_before h t k = k\<lparr>tlists := (tlists k)(h := tlists k h @ [t])\<rparr>"

definition list_remove :: "tid \<Rightarrow> kernel \<Rightarrow> kernel" where
  "list_remove t k = k\<lparr>tlists := \<lambda>h. removeAll t (tlists k h)\<rparr>"

definition thread_state :: "kernel \<Rightarrow> tid \<Rightarrow> u8" where
  "thread_state k t = stat (threads k t) AND RT_THREAD_STAT_MASK"

text \<open>\<^verbatim>\<open>thread->stat = s | (thread->stat & ~RT_THREAD_STAT_MASK)\<close>.\<close>

definition set_state :: "u8 \<Rightarrow> tid \<Rightarrow> kernel \<Rightarrow> kernel" where
  "set_state s t = upd_thread t (\<lambda>th. th\<lparr>stat := s OR (stat th AND NOT RT_THREAD_STAT_MASK)\<rparr>)"

section \<open>Frame lemmas\<close>

named_theorems kernel_simps "how the elementary updates change the kernel state"

lemma upd_thread_simps [kernel_simps]:
  "threads (upd_thread t f k) = (threads k)(t := f (threads k t))"
  "tlists (upd_thread t f k) = tlists k"
  "rt_current_thread (upd_thread t f k) = rt_current_thread k"
  "rt_thread_ready_priority_group (upd_thread t f k) = rt_thread_ready_priority_group k"
  "rt_scheduler_lock_nest (upd_thread t f k) = rt_scheduler_lock_nest k"
  "timers (upd_thread t f k) = timers k" "timer_list (upd_thread t f k) = timer_list k"
  "soft_timer_list (upd_thread t f k) = soft_timer_list k" "rt_tick (upd_thread t f k) = rt_tick k"
  "soft_timer_busy (upd_thread t f k) = soft_timer_busy k" "timer_thread (upd_thread t f k) = timer_thread k"
  "check_list (upd_thread t f k) = check_list k" "soft_check_list (upd_thread t f k) = soft_check_list k"
  by (simp_all add: upd_thread_def)

lemma upd_timer_simps [kernel_simps]:
  "timers (upd_timer i g k) = (timers k)(i := g (timers k i))"
  "threads (upd_timer i g k) = threads k" "tlists (upd_timer i g k) = tlists k"
  "rt_current_thread (upd_timer i g k) = rt_current_thread k"
  "rt_thread_ready_priority_group (upd_timer i g k) = rt_thread_ready_priority_group k"
  "rt_scheduler_lock_nest (upd_timer i g k) = rt_scheduler_lock_nest k"
  "timer_list (upd_timer i g k) = timer_list k" "soft_timer_list (upd_timer i g k) = soft_timer_list k"
  "rt_tick (upd_timer i g k) = rt_tick k" "soft_timer_busy (upd_timer i g k) = soft_timer_busy k"
  "timer_thread (upd_timer i g k) = timer_thread k"
  "check_list (upd_timer i g k) = check_list k" "soft_check_list (upd_timer i g k) = soft_check_list k"
  by (simp_all add: upd_timer_def)

lemma list_ops_simps [kernel_simps]:
  "tlists (list_insert_after h t k) = (tlists k)(h := t # tlists k h)"
  "tlists (list_insert_before h t k) = (tlists k)(h := tlists k h @ [t])"
  "tlists (list_remove t k) = (\<lambda>h. removeAll t (tlists k h))"
  "threads (list_insert_after h t k) = threads k" "threads (list_insert_before h t k) = threads k"
  "threads (list_remove t k) = threads k"
  "rt_current_thread (list_insert_after h t k) = rt_current_thread k"
  "rt_current_thread (list_insert_before h t k) = rt_current_thread k"
  "rt_current_thread (list_remove t k) = rt_current_thread k"
  "rt_thread_ready_priority_group (list_insert_after h t k) = rt_thread_ready_priority_group k"
  "rt_thread_ready_priority_group (list_insert_before h t k) = rt_thread_ready_priority_group k"
  "rt_thread_ready_priority_group (list_remove t k) = rt_thread_ready_priority_group k"
  "rt_scheduler_lock_nest (list_insert_after h t k) = rt_scheduler_lock_nest k"
  "rt_scheduler_lock_nest (list_insert_before h t k) = rt_scheduler_lock_nest k"
  "rt_scheduler_lock_nest (list_remove t k) = rt_scheduler_lock_nest k"
  "timers (list_insert_after h t k) = timers k" "timers (list_insert_before h t k) = timers k"
  "timers (list_remove t k) = timers k"
  "timer_list (list_insert_after h t k) = timer_list k"
  "timer_list (list_insert_before h t k) = timer_list k" "timer_list (list_remove t k) = timer_list k"
  "soft_timer_list (list_insert_after h t k) = soft_timer_list k"
  "soft_timer_list (list_insert_before h t k) = soft_timer_list k"
  "soft_timer_list (list_remove t k) = soft_timer_list k"
  "rt_tick (list_insert_after h t k) = rt_tick k" "rt_tick (list_insert_before h t k) = rt_tick k"
  "rt_tick (list_remove t k) = rt_tick k"
  "check_list (list_insert_after h t k) = check_list k" "soft_check_list (list_insert_after h t k) = soft_check_list k"
  "check_list (list_insert_before h t k) = check_list k" "soft_check_list (list_insert_before h t k) = soft_check_list k"
  "check_list (list_remove t k) = check_list k" "soft_check_list (list_remove t k) = soft_check_list k"
  "soft_timer_busy (list_insert_after h t k) = soft_timer_busy k"
  "soft_timer_busy (list_insert_before h t k) = soft_timer_busy k"
  "soft_timer_busy (list_remove t k) = soft_timer_busy k"
  "timer_thread (list_insert_after h t k) = timer_thread k"
  "timer_thread (list_insert_before h t k) = timer_thread k"
  "timer_thread (list_remove t k) = timer_thread k"
  by (simp_all add: list_insert_after_def list_insert_before_def list_remove_def)

lemma or_masked_and: "(s OR (x AND NOT m)) AND m = s AND (m :: u8)"
  by (rule bit_word_eqI) (auto simp: bit_simps)

lemma or_unmasked_and:
  assumes "a AND y = 0" and "m AND y = (0 :: u8)"
  shows "(a OR (x AND NOT m)) AND y = x AND y"
proof (rule bit_word_eqI)
  fix n assume "n < LENGTH(8)"
  have "\<not> (bit a n \<and> bit y n)" "\<not> (bit m n \<and> bit y n)"
    using assms by (metis bit_0_eq bit_and_iff bot_apply bot_bool_def)+
  then show "bit ((a OR (x AND NOT m)) AND y) n \<longleftrightarrow> bit (x AND y) n"
    using \<open>n < LENGTH(8)\<close> by (auto simp: bit_simps)
qed

lemma thread_state_set_state [kernel_simps]:
  "thread_state (set_state s t k) u = (if u = t then s AND RT_THREAD_STAT_MASK else thread_state k u)"
  by (simp add: thread_state_def set_state_def kernel_simps or_masked_and)

lemma stat_masks [kernel_simps]:
  "RT_THREAD_INIT AND RT_THREAD_STAT_MASK = RT_THREAD_INIT"
  "RT_THREAD_READY AND RT_THREAD_STAT_MASK = RT_THREAD_READY"
  "RT_THREAD_SUSPEND AND RT_THREAD_STAT_MASK = RT_THREAD_SUSPEND"
  "RT_THREAD_RUNNING AND RT_THREAD_STAT_MASK = RT_THREAD_RUNNING"
  "RT_THREAD_CLOSE AND RT_THREAD_STAT_MASK = RT_THREAD_CLOSE"
  by (simp_all add: thread_stat_defs)

lemma stat_distinct [kernel_simps]:
  "RT_THREAD_READY \<noteq> RT_THREAD_RUNNING" "RT_THREAD_RUNNING \<noteq> RT_THREAD_READY"
  "RT_THREAD_SUSPEND \<noteq> RT_THREAD_RUNNING" "RT_THREAD_RUNNING \<noteq> RT_THREAD_SUSPEND"
  "RT_THREAD_READY \<noteq> RT_THREAD_SUSPEND" "RT_THREAD_SUSPEND \<noteq> RT_THREAD_READY"
  "RT_THREAD_CLOSE \<noteq> RT_THREAD_READY" "RT_THREAD_READY \<noteq> RT_THREAD_CLOSE"
  "RT_THREAD_CLOSE \<noteq> RT_THREAD_RUNNING" "RT_THREAD_RUNNING \<noteq> RT_THREAD_CLOSE"
  "RT_THREAD_CLOSE \<noteq> RT_THREAD_SUSPEND" "RT_THREAD_SUSPEND \<noteq> RT_THREAD_CLOSE"
  "RT_THREAD_INIT \<noteq> RT_THREAD_READY" "RT_THREAD_READY \<noteq> RT_THREAD_INIT"
  "RT_THREAD_INIT \<noteq> RT_THREAD_RUNNING" "RT_THREAD_RUNNING \<noteq> RT_THREAD_INIT"
  "RT_THREAD_INIT \<noteq> RT_THREAD_SUSPEND" "RT_THREAD_SUSPEND \<noteq> RT_THREAD_INIT"
  "RT_THREAD_INIT \<noteq> RT_THREAD_CLOSE" "RT_THREAD_CLOSE \<noteq> RT_THREAD_INIT"
  by (simp_all add: thread_stat_defs)

lemma set_state_simps [kernel_simps]:
  "tlists (set_state s t k) = tlists k"
  "rt_current_thread (set_state s t k) = rt_current_thread k"
  "rt_thread_ready_priority_group (set_state s t k) = rt_thread_ready_priority_group k"
  "rt_scheduler_lock_nest (set_state s t k) = rt_scheduler_lock_nest k"
  "timers (set_state s t k) = timers k" "timer_list (set_state s t k) = timer_list k"
  "soft_timer_list (set_state s t k) = soft_timer_list k" "rt_tick (set_state s t k) = rt_tick k"
  "current_priority (threads (set_state s t k) u) = current_priority (threads k u)"
  "number_mask (threads (set_state s t k) u) = number_mask (threads k u)"
  "error (threads (set_state s t k) u) = error (threads k u)"
  "check_list (set_state s t k) = check_list k" "soft_check_list (set_state s t k) = soft_check_list k"
  "soft_timer_busy (set_state s t k) = soft_timer_busy k" "timer_thread (set_state s t k) = timer_thread k"
  by (simp_all add: set_state_def kernel_simps)

lemma thread_state_cong [kernel_simps]:
  "thread_state (list_insert_after h t k) = thread_state k"
  "thread_state (list_insert_before h t k) = thread_state k"
  "thread_state (list_remove t k) = thread_state k"
  "thread_state (upd_timer i g k) = thread_state k"
  by (simp_all add: thread_state_def kernel_simps fun_eq_iff)

end
