(* ===== verification/Scheduler.thy ===== *)
theory Scheduler
  imports KernelState
begin

text \<open>
  The priority scheduler (\<^verbatim>\<open>rt-thread/src/scheduler.c\<close>, the variant for one core): ready lists per
  priority, the ready bitmap, the choice of the next thread, and the scheduler lock. The invariant
  relates bitmap, lists, thread states and the running thread; the theorems show that every
  operation keeps it, that \<^verbatim>\<open>rt_schedule\<close> runs a thread of the highest ready priority, and what
  yielding does among threads of equal priority.
\<close>

section \<open>Operations\<close>

text \<open>\<^verbatim>\<open>__builtin_ffs\<close>: one plus the index of the lowest set bit, 0 when there is none.\<close>

definition rt_ffs :: "u32 \<Rightarrow> nat" where
  "rt_ffs v = (case find (\<lambda>i. bit v i) [0..<32] of None \<Rightarrow> 0 | Some i \<Rightarrow> i + 1)"

definition scheduler_get_highest_priority_thread :: "kernel \<Rightarrow> (tid \<times> nat) option" where
  "scheduler_get_highest_priority_thread k =
     (let highest_ready_priority = rt_ffs (rt_thread_ready_priority_group k) - 1
      in case tlists k (PrioHead highest_ready_priority) of
           [] \<Rightarrow> None | t # _ \<Rightarrow> Some (t, highest_ready_priority))"

definition rt_system_scheduler_init :: "kernel \<Rightarrow> kernel" where
  "rt_system_scheduler_init k =
     k\<lparr>rt_scheduler_lock_nest := 0,
       tlists := (\<lambda>h. case h of PrioHead p \<Rightarrow> (if p < RT_THREAD_PRIORITY_MAX then [] else tlists k h)
                             | _ \<Rightarrow> tlists k h),
       rt_thread_ready_priority_group := 0\<rparr>"

definition rt_schedule_insert_thread :: "tid \<Rightarrow> kernel \<Rightarrow> kernel" where
  "rt_schedule_insert_thread t k =
     (if rt_current_thread k = Some t then set_state RT_THREAD_RUNNING t k
      else let k1 = set_state RT_THREAD_READY t k;
               h = PrioHead (current_priority (threads k1 t));
               k2 = (if stat (threads k1 t) AND RT_THREAD_STAT_YIELD \<noteq> 0
                     then list_insert_before h t k1 else list_insert_after h t k1)
           in k2\<lparr>rt_thread_ready_priority_group :=
                   rt_thread_ready_priority_group k2 OR number_mask (threads k2 t)\<rparr>)"

definition rt_schedule_remove_thread :: "tid \<Rightarrow> kernel \<Rightarrow> kernel" where
  "rt_schedule_remove_thread t k =
     (let k1 = list_remove t k
      in if tlists k1 (PrioHead (current_priority (threads k1 t))) = []
         then k1\<lparr>rt_thread_ready_priority_group :=
                   rt_thread_ready_priority_group k1 AND NOT (number_mask (threads k1 t))\<rparr>
         else k1)"

definition rt_system_scheduler_start :: "kernel \<Rightarrow> kernel option" where
  "rt_system_scheduler_start k =
     do { (to_thread, p) \<leftarrow> scheduler_get_highest_priority_thread k;
          let k1 = rt_schedule_remove_thread to_thread (k\<lparr>rt_current_thread := Some to_thread\<rparr>);
          Some (upd_thread to_thread (\<lambda>th. th\<lparr>stat := RT_THREAD_RUNNING\<rparr>) k1) }"

text \<open>
  \<^verbatim>\<open>rt_schedule\<close>: the state when the processor continues, in the thread \<open>rt_current_thread\<close> (at once, or
  after the interrupt). The stack check and the hooks only observe.
\<close>

definition rt_schedule :: "kernel \<Rightarrow> kernel option" where
  "rt_schedule k =
     (if rt_scheduler_lock_nest k = 0 \<and> rt_thread_ready_priority_group k \<noteq> 0 then
        do { (top, highest_ready_priority) \<leftarrow> scheduler_get_highest_priority_thread k;
             current \<leftarrow> rt_current_thread k;
             let running = (thread_state k current = RT_THREAD_RUNNING);
             let th = threads k current;
             let keep = (running \<and>
                   (current_priority th < highest_ready_priority \<or>
                    current_priority th = highest_ready_priority \<and> stat th AND RT_THREAD_STAT_YIELD = 0));
             let to_thread = (if keep then current else top);
             let k1 = (if running
                       then upd_thread current (\<lambda>th. th\<lparr>stat := stat th AND NOT RT_THREAD_STAT_YIELD\<rparr>) k
                       else k);
             if to_thread \<noteq> current then
               let k2 = k1\<lparr>rt_current_priority := highest_ready_priority, rt_current_thread := Some to_thread\<rparr>;
                   k3 = (if running \<and> \<not> keep then rt_schedule_insert_thread current k2 else k2)
               in Some (set_state RT_THREAD_RUNNING to_thread (rt_schedule_remove_thread to_thread k3))
             else Some (set_state RT_THREAD_RUNNING current (rt_schedule_remove_thread current k1)) }
      else Some k)"

definition rt_enter_critical :: "kernel \<Rightarrow> kernel" where
  "rt_enter_critical k = k\<lparr>rt_scheduler_lock_nest := rt_scheduler_lock_nest k + 1\<rparr>"

definition rt_exit_critical :: "kernel \<Rightarrow> kernel option" where
  "rt_exit_critical k =
     (let n = rt_scheduler_lock_nest k - 1
      in if n \<le> 0 then
           let k1 = k\<lparr>rt_scheduler_lock_nest := 0\<rparr>
           in if rt_current_thread k1 \<noteq> None then rt_schedule k1 else Some k1
         else Some (k\<lparr>rt_scheduler_lock_nest := n\<rparr>))"

definition rt_critical_level :: "kernel \<Rightarrow> int" where
  "rt_critical_level k = rt_scheduler_lock_nest k"

section \<open>The ready queue invariant\<close>

text \<open>
  \<open>queue_inv X k\<close>: the bitmap shows which ready lists are not empty, every listed thread is ready
  and of the priority of its list, every ready thread is listed, no thread is in two lists. The
  threads in \<open>X\<close> are exempt and not in any ready list: the running thread, and the threads an
  operation is just moving.
\<close>

definition queue_inv :: "tid set \<Rightarrow> kernel \<Rightarrow> bool" where
  "queue_inv X k \<longleftrightarrow>
     (\<forall>p. bit (rt_thread_ready_priority_group k) p \<longleftrightarrow> tlists k (PrioHead p) \<noteq> []) \<and>
     (\<forall>p. \<forall>t \<in> set (tlists k (PrioHead p)).
        current_priority (threads k t) = p \<and> thread_state k t = RT_THREAD_READY \<and> t \<notin> X) \<and>
     (\<forall>t. thread_state k t = RT_THREAD_READY \<longrightarrow> t \<notin> X \<longrightarrow>
        t \<in> set (tlists k (PrioHead (current_priority (threads k t))))) \<and>
     (\<forall>h. distinct (tlists k h)) \<and>
     (\<forall>t h h'. t \<in> set (tlists k h) \<longrightarrow> t \<in> set (tlists k h') \<longrightarrow> h = h') \<and>
     (\<forall>t. thread_state k t \<noteq> RT_THREAD_INIT \<longrightarrow>
        current_priority (threads k t) < 32 \<and>
        number_mask (threads k t) = 2 ^ (current_priority (threads k t)))"

text \<open>Threads in the list of an IPC object are suspended, those in the defunct list closed.\<close>

definition wait_inv :: "kernel \<Rightarrow> bool" where
  "wait_inv k \<longleftrightarrow>
     (\<forall>i t. t \<in> set (tlists k (SuspHead i)) \<longrightarrow> thread_state k t = RT_THREAD_SUSPEND) \<and>
     (\<forall>i t. t \<in> set (tlists k (SenderHead i)) \<longrightarrow> thread_state k t = RT_THREAD_SUSPEND) \<and>
     (\<forall>t. t \<in> set (tlists k DefunctHead) \<longrightarrow> thread_state k t = RT_THREAD_CLOSE)"

definition ready_inv :: "kernel \<Rightarrow> bool" where
  "ready_inv k \<longleftrightarrow>
     queue_inv (set_option (rt_current_thread k)) k \<and> wait_inv k \<and>
     (\<forall>t. thread_state k t = RT_THREAD_RUNNING \<longrightarrow> rt_current_thread k = Some t) \<and>
     (\<forall>c. rt_current_thread k = Some c \<longrightarrow>
        thread_state k c \<noteq> RT_THREAD_READY \<and> thread_state k c \<noteq> RT_THREAD_INIT)"

lemma wait_inv_sub:
  assumes "wait_inv k"
    and sub: "\<And>h u. (\<And>p. h \<noteq> PrioHead p) \<Longrightarrow> u \<in> set (tlists k' h) \<Longrightarrow>
      u \<in> set (tlists k h) \<and> thread_state k' u = thread_state k u"
  shows "wait_inv k'"
  using assms(1) sub [of "SuspHead _"] sub [of "SenderHead _"] sub [of DefunctHead]
  unfolding wait_inv_def by (metis list_head.distinct(1,3,5))

lemma queue_invD:
  assumes "queue_inv X k"
  shows queue_bitmap: "bit (rt_thread_ready_priority_group k) p \<longleftrightarrow> tlists k (PrioHead p) \<noteq> []"
    and queue_listed: "t \<in> set (tlists k (PrioHead p)) \<Longrightarrow>
      current_priority (threads k t) = p \<and> thread_state k t = RT_THREAD_READY \<and> t \<notin> X"
    and queue_complete: "thread_state k t = RT_THREAD_READY \<Longrightarrow> t \<notin> X \<Longrightarrow>
      t \<in> set (tlists k (PrioHead (current_priority (threads k t))))"
    and queue_distinct: "distinct (tlists k h)"
    and queue_disjoint: "t \<in> set (tlists k h) \<Longrightarrow> t \<in> set (tlists k h') \<Longrightarrow> h = h'"
    and queue_mask: "thread_state k t \<noteq> RT_THREAD_INIT \<Longrightarrow> current_priority (threads k t) < 32 \<and>
      number_mask (threads k t) = 2 ^ (current_priority (threads k t))"
  using assms unfolding queue_inv_def by blast+

lemma rt_ffs_nonzero:
  assumes "v \<noteq> 0"
  shows "bit v (rt_ffs v - 1)" and "j < rt_ffs v - 1 \<Longrightarrow> \<not> bit v j"
proof -
  obtain n where n: "bit v n" using assms by (metis bit_0_eq bit_eq_iff bot_apply bot_bool_def)
  then have "n < 32" using bit_imp_le_length [of v n] by simp
  then obtain i where i: "find (bit v) [0..<32] = Some i"
    using n by (cases "find (bit v) [0..<32]") (auto simp: find_None_iff)
  then have *: "bit v i \<and> (\<forall>j < i. \<not> bit v j)"
    by (auto simp: find_Some_iff)
  show "bit v (rt_ffs v - 1)" and "j < rt_ffs v - 1 \<Longrightarrow> \<not> bit v j"
    using i * by (simp_all add: rt_ffs_def)
qed

text \<open>The highest ready thread exists whenever the bitmap is not zero, and is the head of its list.\<close>

lemma get_highest:
  assumes inv: "queue_inv X k" and "rt_thread_ready_priority_group k \<noteq> 0"
  obtains t p ts where "scheduler_get_highest_priority_thread k = Some (t, p)"
    and "tlists k (PrioHead p) = t # ts"
    and "\<And>u q. u \<in> set (tlists k (PrioHead q)) \<Longrightarrow> p \<le> q"
proof -
  let ?p = "rt_ffs (rt_thread_ready_priority_group k) - 1"
  obtain t ts where ts: "tlists k (PrioHead ?p) = t # ts"
    using rt_ffs_nonzero(1) [OF assms(2)] queue_bitmap [OF inv] by (metis neq_Nil_conv)
  have "?p \<le> q" if "u \<in> set (tlists k (PrioHead q))" for u q
    using that queue_bitmap [OF inv, of q] rt_ffs_nonzero(2) [OF assms(2), of q]
    by (metis empty_iff empty_set not_le)
  with ts show thesis
    by (intro that [of t ?p ts]) (simp_all add: scheduler_get_highest_priority_thread_def)
qed

section \<open>Moving threads in and out of the ready lists\<close>

lemma bit_mask_bit: "p < 32 \<Longrightarrow> bit (2 ^ p :: u32) q \<longleftrightarrow> q = p"
  by (auto simp: bit_exp_iff)

definition unlisted :: "tid \<Rightarrow> kernel \<Rightarrow> bool" where
  "unlisted t k \<longleftrightarrow> (\<forall>h. t \<notin> set (tlists k h))"

lemma unlisted_simps [kernel_simps]:
  "unlisted u (list_remove t k) \<longleftrightarrow> u = t \<or> unlisted u k"
  "unlisted u (upd_thread t f k) \<longleftrightarrow> unlisted u k"
  "unlisted u (set_state s t k) \<longleftrightarrow> unlisted u k"
  "unlisted u (upd_timer i g k) \<longleftrightarrow> unlisted u k"
  by (auto simp: unlisted_def kernel_simps)

lemma insert_thread_effect:
  assumes "rt_current_thread k \<noteq> Some t"
  defines "k' \<equiv> rt_schedule_insert_thread t k"
  defines "p \<equiv> current_priority (threads k t)"
  shows "rt_thread_ready_priority_group k' = rt_thread_ready_priority_group k OR number_mask (threads k t)"
    and "tlists k' = (tlists k)(PrioHead p :=
      if stat (threads k t) AND RT_THREAD_STAT_YIELD \<noteq> 0 then tlists k (PrioHead p) @ [t]
      else t # tlists k (PrioHead p))"
    and "thread_state k' = (thread_state k)(t := RT_THREAD_READY)"
    and "current_priority (threads k' u) = current_priority (threads k u)"
    and "number_mask (threads k' u) = number_mask (threads k u)"
    and "rt_current_thread k' = rt_current_thread k"
    and "rt_scheduler_lock_nest k' = rt_scheduler_lock_nest k"
proof -
  have yield: "(RT_THREAD_READY OR (x AND NOT RT_THREAD_STAT_MASK)) AND RT_THREAD_STAT_YIELD =
      x AND RT_THREAD_STAT_YIELD" for x
    by (rule or_unmasked_and) (simp_all add: thread_stat_defs)
  show "rt_thread_ready_priority_group k' = rt_thread_ready_priority_group k OR number_mask (threads k t)"
    and "thread_state k' = (thread_state k)(t := RT_THREAD_READY)"
    and "current_priority (threads k' u) = current_priority (threads k u)"
    and "number_mask (threads k' u) = number_mask (threads k u)"
    and "rt_current_thread k' = rt_current_thread k"
    and "rt_scheduler_lock_nest k' = rt_scheduler_lock_nest k"
    using assms
    by (auto simp: rt_schedule_insert_thread_def Let_def kernel_simps thread_state_def fun_eq_iff
        set_state_def or_masked_and)
  show "tlists k' = (tlists k)(PrioHead p :=
      if stat (threads k t) AND RT_THREAD_STAT_YIELD \<noteq> 0 then tlists k (PrioHead p) @ [t]
      else t # tlists k (PrioHead p))"
    using assms by (simp add: rt_schedule_insert_thread_def Let_def kernel_simps set_state_def yield)
qed

lemma remove_thread_effect:
  fixes t :: tid and k :: kernel
  defines "k' \<equiv> rt_schedule_remove_thread t k"
  defines "p \<equiv> current_priority (threads k t)"
  shows "rt_thread_ready_priority_group k' =
      (if removeAll t (tlists k (PrioHead p)) = []
       then rt_thread_ready_priority_group k AND NOT (number_mask (threads k t))
       else rt_thread_ready_priority_group k)"
    and "tlists k' = (\<lambda>h. removeAll t (tlists k h))"
    and "threads k' = threads k" and "thread_state k' = thread_state k"
    and "rt_current_thread k' = rt_current_thread k"
    and "rt_scheduler_lock_nest k' = rt_scheduler_lock_nest k"
    and "timers k' = timers k" and "timer_list k' = timer_list k"
    and "soft_timer_list k' = soft_timer_list k" and "rt_tick k' = rt_tick k"
    and "check_list k' = check_list k" and "soft_check_list k' = soft_check_list k"
    and "soft_timer_busy k' = soft_timer_busy k" and "timer_thread k' = timer_thread k"
  by (simp_all add: k'_def p_def rt_schedule_remove_thread_def Let_def kernel_simps thread_state_def fun_eq_iff)

lemma queue_inv_insert:
  assumes inv: "queue_inv X k" and un: "unlisted t k" and nc: "rt_current_thread k \<noteq> Some t"
    and st: "thread_state k t \<noteq> RT_THREAD_INIT"
  shows "queue_inv (X - {t}) (rt_schedule_insert_thread t k)"
proof -
  let ?k = "rt_schedule_insert_thread t k" and ?p = "current_priority (threads k t)"
  note eff = insert_thread_effect [OF nc]
  have mask: "?p < 32" "number_mask (threads k t) = 2 ^ ?p" using queue_mask [OF inv st] by auto
  have un': "t \<notin> set (tlists k h)" for h using un by (simp add: unlisted_def)
  have lists: "set (tlists ?k h) = (if h = PrioHead ?p then insert t (set (tlists k h)) else set (tlists k h))" for h
    by (simp add: eff)
  have "bit (rt_thread_ready_priority_group ?k) q \<longleftrightarrow> tlists ?k (PrioHead q) \<noteq> []" for q
    using queue_bitmap [OF inv, of q] mask by (simp add: eff bit_or_iff bit_mask_bit)
  moreover have "current_priority (threads ?k u) = q \<and> thread_state ?k u = RT_THREAD_READY \<and> u \<notin> X - {t}"
    if "u \<in> set (tlists ?k (PrioHead q))" for u q
    using that queue_listed [OF inv, of u q] un' by (auto simp: lists eff split: if_splits)
  moreover have "u \<in> set (tlists ?k (PrioHead (current_priority (threads ?k u))))"
    if "thread_state ?k u = RT_THREAD_READY" "u \<notin> X - {t}" for u
    using that queue_complete [OF inv, of u] by (auto simp: lists eff split: if_splits)
  moreover have "distinct (tlists ?k h)" for h
    using queue_distinct [OF inv] un' by (simp add: eff)
  moreover have "h = h'" if "u \<in> set (tlists ?k h)" "u \<in> set (tlists ?k h')" for u h h'
    using that queue_disjoint [OF inv, of u h h'] un' by (auto simp: lists split: if_splits)
  moreover have "current_priority (threads ?k u) < 32 \<and>
      number_mask (threads ?k u) = 2 ^ (current_priority (threads ?k u))"
    if "thread_state ?k u \<noteq> RT_THREAD_INIT" for u
    using that queue_mask [OF inv, of u] mask by (auto simp: eff split: if_splits)
  ultimately show ?thesis unfolding queue_inv_def by blast
qed

lemma queue_inv_remove:
  assumes inv: "queue_inv X k" and st: "thread_state k t \<noteq> RT_THREAD_INIT"
  shows "queue_inv (insert t X) (rt_schedule_remove_thread t k)"
proof -
  let ?k = "rt_schedule_remove_thread t k" and ?p = "current_priority (threads k t)"
  note eff = remove_thread_effect [of t k]
  have mask: "?p < 32" "number_mask (threads k t) = 2 ^ ?p" using queue_mask [OF inv st] by auto
  have "bit (rt_thread_ready_priority_group ?k) q \<longleftrightarrow> tlists ?k (PrioHead q) \<noteq> []" for q
  proof (cases "q = ?p")
    case True
    then show ?thesis
      using queue_bitmap [OF inv, of ?p] mask by (auto simp: eff bit_and_iff bit_not_iff bit_mask_bit)
  next
    case False
    then have "t \<notin> set (tlists k (PrioHead q))" using queue_listed [OF inv, of t q] by blast
    moreover have "bit (rt_thread_ready_priority_group ?k) q \<longleftrightarrow> bit (rt_thread_ready_priority_group k) q"
      using False mask bit_imp_le_length [of "rt_thread_ready_priority_group k" q]
      by (auto simp: eff bit_and_iff bit_not_iff bit_mask_bit)
    ultimately show ?thesis using queue_bitmap [OF inv, of q] by (simp add: eff)
  qed
  moreover have "current_priority (threads ?k u) = q \<and> thread_state ?k u = RT_THREAD_READY \<and> u \<notin> insert t X"
    if "u \<in> set (tlists ?k (PrioHead q))" for u q
    using that queue_listed [OF inv, of u q] by (auto simp: eff)
  moreover have "u \<in> set (tlists ?k (PrioHead (current_priority (threads ?k u))))"
    if "thread_state ?k u = RT_THREAD_READY" "u \<notin> insert t X" for u
    using that queue_complete [OF inv, of u] by (auto simp: eff)
  moreover have "distinct (tlists ?k h)" for h
    using queue_distinct [OF inv, of h] by (simp add: eff distinct_removeAll)
  moreover have "h = h'" if "u \<in> set (tlists ?k h)" "u \<in> set (tlists ?k h')" for u h h'
    using that queue_disjoint [OF inv, of u h h'] by (auto simp: eff)
  moreover have "current_priority (threads ?k u) < 32 \<and>
      number_mask (threads ?k u) = 2 ^ (current_priority (threads ?k u))"
    if "thread_state ?k u \<noteq> RT_THREAD_INIT" for u
    using that queue_mask [OF inv, of u] by (auto simp: eff)
  ultimately show ?thesis unfolding queue_inv_def by blast
qed

lemma unlisted_remove: "unlisted t (rt_schedule_remove_thread t k)"
  by (simp add: unlisted_def remove_thread_effect)

text \<open>An exempt thread may change its state; a thread that is not ready need not be exempt.\<close>

lemma queue_inv_set_state:
  assumes "queue_inv X k" and "t \<in> X" and "thread_state k t \<noteq> RT_THREAD_INIT"
  shows "queue_inv X (set_state s t k)"
proof -
  have "thread_state (set_state s t k) u = RT_THREAD_INIT \<Longrightarrow> u \<noteq> t \<Longrightarrow> thread_state k u = RT_THREAD_INIT" for u
    by (simp add: kernel_simps)
  then show ?thesis
    using assms unfolding queue_inv_def by (auto simp: kernel_simps)
qed

lemma queue_inv_upd_exempt:
  assumes "queue_inv X k" and "t \<in> X"
    and "current_priority (f (threads k t)) < 32"
    and "number_mask (f (threads k t)) = 2 ^ current_priority (f (threads k t))"
  shows "queue_inv X (upd_thread t f k)"
  using assms unfolding queue_inv_def thread_state_def by (auto simp: kernel_simps)

lemma queue_inv_upd_thread:
  assumes "queue_inv X k" and "t \<in> X" and "thread_state k t \<noteq> RT_THREAD_INIT"
    and "current_priority (f (threads k t)) = current_priority (threads k t)"
    and "number_mask (f (threads k t)) = number_mask (threads k t)"
  shows "queue_inv X (upd_thread t f k)"
  using assms queue_mask [OF assms(1,3)] by (intro queue_inv_upd_exempt) simp_all

lemma queue_inv_grow:
  assumes "queue_inv X k" and "thread_state k t \<noteq> RT_THREAD_READY"
  shows "queue_inv (insert t X) k"
  using assms unfolding queue_inv_def by auto

text \<open>Linking a thread into a list that is not a ready list.\<close>

lemma queue_inv_enlist:
  assumes inv: "queue_inv X k" and "unlisted t k" and "\<And>p. h \<noteq> PrioHead p"
    and "distinct xs" and "set xs = insert t (set (tlists k h))"
  shows "queue_inv X (k\<lparr>tlists := (tlists k)(h := xs)\<rparr>)"
proof -
  have old: "u \<in> set (tlists k g) \<or> u = t \<and> g = h" if "u \<in> set (((tlists k)(h := xs)) g)" for u g
    using that assms(5) by (auto split: if_splits)
  let ?k' = "k\<lparr>tlists := (tlists k)(h := xs)\<rparr>"
  have one: "g = g'" if "u \<in> set (tlists ?k' g)" "u \<in> set (tlists ?k' g')" for u g g'
    using old [of u g] old [of u g'] that assms(2) queue_disjoint [OF inv] unfolding unlisted_def by auto
  have prio: "tlists ?k' (PrioHead p) = tlists k (PrioHead p)" for p using assms(3) by auto
  have st: "thread_state ?k' = thread_state k" by (simp add: thread_state_def fun_eq_iff)
  show ?thesis
    unfolding queue_inv_def prio st
  proof (intro conjI)
    show "\<forall>u g g'. u \<in> set (tlists ?k' g) \<longrightarrow> u \<in> set (tlists ?k' g') \<longrightarrow> g = g'" using one by blast
    show "\<forall>g. distinct (tlists ?k' g)" using queue_distinct [OF inv] assms(4) by simp
  qed (use inv in \<open>simp_all add: queue_inv_def\<close>)
qed

lemma queue_inv_shrink:
  assumes "queue_inv (insert t X) k" and "thread_state k t \<noteq> RT_THREAD_READY"
  shows "queue_inv X k"
  using assms unfolding queue_inv_def by auto

lemma queue_inv_cong:
  assumes "queue_inv X k" and "tlists k' = tlists k"
    and "rt_thread_ready_priority_group k' = rt_thread_ready_priority_group k"
    and "\<And>u. thread_state k' u = thread_state k u"
    and "\<And>u. current_priority (threads k' u) = current_priority (threads k u)"
    and "\<And>u. number_mask (threads k' u) = number_mask (threads k u)"
  shows "queue_inv X k'"
  using assms unfolding queue_inv_def by simp

section \<open>rt_schedule\<close>

lemma clear_yield:
  fixes k :: kernel and c :: tid
  defines "k1 \<equiv> upd_thread c (\<lambda>th. th\<lparr>stat := stat th AND NOT RT_THREAD_STAT_YIELD\<rparr>) k"
  shows "thread_state k1 = thread_state k"
    and "current_priority (threads k1 u) = current_priority (threads k u)"
    and "number_mask (threads k1 u) = number_mask (threads k u)"
    and "stat (threads k1 c) AND RT_THREAD_STAT_YIELD = 0"
proof -
  have "(x AND NOT RT_THREAD_STAT_YIELD) AND RT_THREAD_STAT_MASK = x AND RT_THREAD_STAT_MASK" for x
    by (rule or_unmasked_and [of 0, simplified]) (simp add: thread_stat_defs)
  then show "thread_state k1 = thread_state k"
    by (auto simp: k1_def thread_state_def kernel_simps fun_eq_iff)
  show "current_priority (threads k1 u) = current_priority (threads k u)"
    and "number_mask (threads k1 u) = number_mask (threads k u)"
    and "stat (threads k1 c) AND RT_THREAD_STAT_YIELD = 0"
    by (simp_all add: k1_def kernel_simps and.assoc)
qed

text \<open>The three outcomes of \<^verbatim>\<open>rt_schedule\<close> when it is not locked and some thread is ready.\<close>

definition schedule_keeps :: "kernel \<Rightarrow> tid \<Rightarrow> nat \<Rightarrow> bool" where
  "schedule_keeps k c p \<longleftrightarrow> thread_state k c = RT_THREAD_RUNNING \<and>
     (current_priority (threads k c) < p \<or>
      current_priority (threads k c) = p \<and> stat (threads k c) AND RT_THREAD_STAT_YIELD = 0)"

lemma rt_schedule_keep:
  assumes inv: "ready_inv k" and c: "rt_current_thread k = Some c"
    and top: "scheduler_get_highest_priority_thread k = Some (t, p)"
    and free: "rt_scheduler_lock_nest k = 0" "rt_thread_ready_priority_group k \<noteq> 0"
    and keep: "schedule_keeps k c p"
  shows "\<exists>k'. rt_schedule k = Some k' \<and> ready_inv k' \<and> rt_current_thread k' = Some c \<and>
    thread_state k' = thread_state k \<and>
    (\<forall>u. current_priority (threads k' u) = current_priority (threads k u))"
proof -
  let ?k1 = "upd_thread c (\<lambda>th. th\<lparr>stat := stat th AND NOT RT_THREAD_STAT_YIELD\<rparr>) k"
  define k' where "k' = set_state RT_THREAD_RUNNING c (rt_schedule_remove_thread c ?k1)"
  have run: "thread_state k c = RT_THREAD_RUNNING" using keep by (simp add: schedule_keeps_def)
  have sched: "rt_schedule k = Some k'"
    using c top free keep by (simp add: k'_def rt_schedule_def schedule_keeps_def Let_def)
  have q1: "queue_inv {c} ?k1"
    by (rule queue_inv_cong [of _ k]) (use inv c in \<open>simp_all add: ready_inv_def kernel_simps clear_yield\<close>)
  have "queue_inv {c} (rt_schedule_remove_thread c ?k1)"
    using queue_inv_remove [OF q1, of c] run by (simp add: clear_yield kernel_simps)
  then have "queue_inv {c} k'"
    unfolding k'_def by (rule queue_inv_set_state) (simp_all add: remove_thread_effect clear_yield run kernel_simps)
  moreover have st: "thread_state k' = thread_state k"
    using run by (simp add: k'_def fun_eq_iff kernel_simps remove_thread_effect clear_yield)
  moreover have cur: "rt_current_thread k' = Some c"
    using c by (simp add: k'_def kernel_simps remove_thread_effect)
  moreover have "wait_inv k'"
    using inv by (auto simp: ready_inv_def wait_inv_def st k'_def kernel_simps remove_thread_effect clear_yield)
  ultimately have "ready_inv k'" using inv c by (simp add: ready_inv_def)
  then show ?thesis using sched st cur by (simp add: k'_def kernel_simps remove_thread_effect clear_yield)
qed

lemma rt_schedule_switch:
  assumes inv: "ready_inv k" and c: "rt_current_thread k = Some c"
    and top: "scheduler_get_highest_priority_thread k = Some (t, p)" "tlists k (PrioHead p) = t # ts"
    and free: "rt_scheduler_lock_nest k = 0" "rt_thread_ready_priority_group k \<noteq> 0"
    and leave: "\<not> schedule_keeps k c p"
  shows "\<exists>k'. rt_schedule k = Some k' \<and> ready_inv k' \<and> rt_current_thread k' = Some t \<and>
    thread_state k' = (thread_state k)
      (c := if thread_state k c = RT_THREAD_RUNNING then RT_THREAD_READY else thread_state k c,
       t := RT_THREAD_RUNNING) \<and>
    (\<forall>u. current_priority (threads k' u) = current_priority (threads k u)) \<and>
    tlists k' = (\<lambda>h. removeAll t
      (if thread_state k c = RT_THREAD_RUNNING \<and> h = PrioHead (current_priority (threads k c))
       then c # tlists k h else tlists k h))"
proof -
  let ?run = "thread_state k c = RT_THREAD_RUNNING"
  define k1 where "k1 = (if ?run
    then upd_thread c (\<lambda>th. th\<lparr>stat := stat th AND NOT RT_THREAD_STAT_YIELD\<rparr>) k else k)"
  define k2 where "k2 = k1\<lparr>rt_current_priority := p, rt_current_thread := Some t\<rparr>"
  define k3 where "k3 = (if ?run then rt_schedule_insert_thread c k2 else k2)"
  define k' where "k' = set_state RT_THREAD_RUNNING t (rt_schedule_remove_thread t k3)"
  have q: "queue_inv {c} k" and nr: "thread_state k c \<noteq> RT_THREAD_READY" "thread_state k c \<noteq> RT_THREAD_INIT"
    and only: "\<And>u. thread_state k u = RT_THREAD_RUNNING \<Longrightarrow> u = c"
    using inv c by (auto simp: ready_inv_def)
  have t: "thread_state k t = RT_THREAD_READY" "t \<noteq> c"
    using queue_listed [OF q, of t p] top(2) by auto
  have sched: "rt_schedule k = Some k'"
    using c top free leave t(2)
    by (cases ?run) (auto simp: rt_schedule_def schedule_keeps_def Let_def k1_def k2_def k3_def k'_def)
  have k2: "thread_state k2 = thread_state k" "tlists k2 = tlists k" "rt_current_thread k2 = Some t"
      "rt_thread_ready_priority_group k2 = rt_thread_ready_priority_group k"
      "current_priority (threads k2 u) = current_priority (threads k u)"
      "number_mask (threads k2 u) = number_mask (threads k u)" for u
    using clear_yield [of c k]
    by (auto simp: k1_def k2_def kernel_simps thread_state_def fun_eq_iff split: if_splits)
  have q2: "queue_inv {c} k2" by (rule queue_inv_cong [OF q]) (simp_all add: k2)
  have un: "unlisted c k2" if ?run
  proof -
    have "c \<notin> set (tlists k h)" for h
      using inv that queue_listed [OF q, of c] by (cases h) (auto simp: ready_inv_def wait_inv_def kernel_simps)
    then show ?thesis by (simp add: unlisted_def k2)
  qed
  have c2: "rt_current_thread k2 \<noteq> Some c" using t(2) by (simp add: k2)
  have st3: "thread_state k3 = (thread_state k)(c := if ?run then RT_THREAD_READY else thread_state k c)"
    and cur3: "rt_current_thread k3 = Some t"
    using insert_thread_effect [OF c2] by (auto simp: k3_def k2)
  have lists3: "set (tlists k3 h) \<subseteq> insert c (set (tlists k h))"
      "h = PrioHead (current_priority (threads k c)) \<or> set (tlists k3 h) = set (tlists k h)" for h
    using insert_thread_effect [OF c2] by (auto simp: k3_def k2)
  have "queue_inv (if ?run then {} else {c}) k3"
    using queue_inv_insert [OF q2 un c2] nr q2 by (auto simp: k3_def k2)
  then have "queue_inv (if ?run then {t} else {t, c}) (rt_schedule_remove_thread t k3)"
    using queue_inv_remove [of "if ?run then {} else {c}" k3 t] t
    by (auto simp: st3 kernel_simps split: if_splits)
  then have "queue_inv (if ?run then {t} else {t, c}) k'"
    unfolding k'_def
    by (rule queue_inv_set_state) (use t in \<open>auto simp: remove_thread_effect st3 kernel_simps\<close>)
  moreover have st: "thread_state k' = (thread_state k)
      (c := if ?run then RT_THREAD_READY else thread_state k c, t := RT_THREAD_RUNNING)"
    by (auto simp: k'_def kernel_simps remove_thread_effect st3 fun_eq_iff)
  ultimately have q': "queue_inv {t} k'"
    using queue_inv_shrink [of c "{t}" k'] nr t(2) by (auto simp: insert_commute split: if_splits)
  have w': "wait_inv k'"
  proof -
    have "u \<in> set (tlists k h) \<and> u \<noteq> t \<and> (?run \<longrightarrow> u \<noteq> c)"
      if "u \<in> set (tlists k' h)" "\<And>p. h \<noteq> PrioHead p" for u h
      using that lists3(2) [of h] un by (auto simp: k'_def kernel_simps remove_thread_effect unlisted_def k2)
    then show ?thesis using inv wait_inv_sub [of k k'] by (simp add: ready_inv_def st)
  qed
  have cur': "rt_current_thread k' = Some t"
    by (simp add: k'_def kernel_simps remove_thread_effect cur3)
  have prio': "current_priority (threads k' u) = current_priority (threads k u)" for u
    using insert_thread_effect [OF c2] k2 by (simp add: k'_def kernel_simps remove_thread_effect k3_def)
  have "stat (threads k2 c) AND RT_THREAD_STAT_YIELD = 0" if ?run
    using clear_yield(4) [of c k] that by (simp add: k1_def k2_def)
  then have lists': "tlists k' = (\<lambda>h. removeAll t
      (if ?run \<and> h = PrioHead (current_priority (threads k c)) then c # tlists k h else tlists k h))"
    using insert_thread_effect(2) [OF c2]
    by (auto simp: k'_def kernel_simps remove_thread_effect k3_def k2 fun_eq_iff)
  have only': "u = t" if "thread_state k' u = RT_THREAD_RUNNING" for u
    using that only [of u] by (auto simp: st kernel_simps split: if_splits)
  have run': "thread_state k' t = RT_THREAD_RUNNING" by (simp add: st)
  have "ready_inv k'"
    unfolding ready_inv_def cur'
  proof (intro conjI allI impI)
    show "queue_inv (set_option (Some t)) k'" using q' by simp
    show "wait_inv k'" by (fact w')
    show "Some t = Some u" if "thread_state k' u = RT_THREAD_RUNNING" for u using only' [OF that] by simp
    show "thread_state k' u \<noteq> RT_THREAD_READY" if "Some t = Some u" for u
      using that run' by (auto simp: kernel_simps)
    show "thread_state k' u \<noteq> RT_THREAD_INIT" if "Some t = Some u" for u
      using that run' by (auto simp: kernel_simps)
  qed
  then show ?thesis using sched st cur' prio' lists' by blast
qed

lemma rt_schedule_idle:
  "rt_scheduler_lock_nest k \<noteq> 0 \<or> rt_thread_ready_priority_group k = 0 \<Longrightarrow> rt_schedule k = Some k"
  by (auto simp: rt_schedule_def)

lemma group_zero_none_ready:
  assumes "queue_inv X k" and "rt_thread_ready_priority_group k = 0" and "u \<notin> X"
  shows "thread_state k u \<noteq> RT_THREAD_READY"
  using queue_complete [OF assms(1), of u] queue_bitmap [OF assms(1)] assms(2,3) by fastforce

text \<open>The scheduler decision in one statement, for use by every operation that ends in \<^verbatim>\<open>rt_schedule\<close>.\<close>

lemma rt_schedule_ok:
  assumes inv: "ready_inv k" and c: "rt_current_thread k = Some c"
  shows "\<exists>k' c'. rt_schedule k = Some k' \<and> ready_inv k' \<and> rt_current_thread k' = Some c' \<and>
    (\<forall>u. current_priority (threads k' u) = current_priority (threads k u)) \<and>
    (\<forall>u. thread_state k' u \<in> {RT_THREAD_READY, RT_THREAD_RUNNING} \<longleftrightarrow>
         thread_state k u \<in> {RT_THREAD_READY, RT_THREAD_RUNNING}) \<and>
    (rt_scheduler_lock_nest k = 0 \<longrightarrow>
     rt_thread_ready_priority_group k \<noteq> 0 \<or> thread_state k c = RT_THREAD_RUNNING \<longrightarrow>
       thread_state k' c' = RT_THREAD_RUNNING \<and>
       (\<forall>u. thread_state k' u = RT_THREAD_READY \<longrightarrow>
            current_priority (threads k' c') \<le> current_priority (threads k' u)))"
proof (cases "rt_scheduler_lock_nest k = 0 \<and> rt_thread_ready_priority_group k \<noteq> 0")
  case False
  then have "rt_schedule k = Some k" by (intro rt_schedule_idle) blast
  moreover have "thread_state k u \<noteq> RT_THREAD_READY" if "rt_scheduler_lock_nest k = 0" for u
    using that False group_zero_none_ready [of "{c}" k u] inv c by (cases "u = c") (auto simp: ready_inv_def)
  ultimately show ?thesis
    using inv c False by (intro exI [of _ k] exI [of _ c]) simp
next
  case True
  have q: "queue_inv {c} k" using inv c by (simp add: ready_inv_def)
  obtain t p ts where top: "scheduler_get_highest_priority_thread k = Some (t, p)"
      "tlists k (PrioHead p) = t # ts" and low: "\<And>u q. u \<in> set (tlists k (PrioHead q)) \<Longrightarrow> p \<le> q"
    using get_highest [OF q] True by blast
  have ready: "p \<le> current_priority (threads k u)" if "thread_state k u = RT_THREAD_READY" "u \<noteq> c" for u
    using that queue_complete [OF q, of u] low by auto
  have t: "current_priority (threads k t) = p" "thread_state k t = RT_THREAD_READY" "t \<noteq> c"
    using queue_listed [OF q, of t p] top(2) by auto
  have nr: "thread_state k c \<noteq> RT_THREAD_READY" using inv c by (simp add: ready_inv_def)
  show ?thesis
  proof (cases "schedule_keeps k c p")
    case keep: True
    then have c': "current_priority (threads k c) \<le> p" "thread_state k c = RT_THREAD_RUNNING"
      by (auto simp: schedule_keeps_def)
    obtain k' where "rt_schedule k = Some k'" "ready_inv k'" "rt_current_thread k' = Some c"
        "thread_state k' = thread_state k" "\<forall>u. current_priority (threads k' u) = current_priority (threads k u)"
      using rt_schedule_keep [OF inv c top(1) _ _ keep] True by blast
    then show ?thesis using c' ready nr order_trans by (intro exI [of _ k'] exI [of _ c]) fastforce
  next
    case False
    then have cp: "thread_state k c = RT_THREAD_RUNNING \<Longrightarrow> p \<le> current_priority (threads k c)"
      by (auto simp: schedule_keeps_def)
    obtain k' where "rt_schedule k = Some k'" "ready_inv k'" "rt_current_thread k' = Some t"
        "thread_state k' = (thread_state k)
          (c := if thread_state k c = RT_THREAD_RUNNING then RT_THREAD_READY else thread_state k c,
           t := RT_THREAD_RUNNING)"
        "\<forall>u. current_priority (threads k' u) = current_priority (threads k u)"
      using rt_schedule_switch [OF inv c top _ _ False] True by blast
    then show ?thesis using t ready nr cp by (intro exI [of _ k'] exI [of _ t]) auto
  qed
qed

section \<open>A sample configuration\<close>

text \<open>
  Thread 0 runs at priority 10, threads 1 and 2 are ready at the same priority, thread 3 is the idle
  thread at priority 31, thread 5 waits for IPC object 0 at priority 8. The witnesses are stated on it.
\<close>

definition sample_thread :: "u8 \<Rightarrow> nat \<Rightarrow> rt_thread" where
  "sample_thread s p = \<lparr>error = 0, stat = s, current_priority = p, number_mask = 2 ^ p, event_set = 0,
     event_info = 0, init_tick = 20, remaining_tick = 20\<rparr>"

definition sample_kernel :: kernel where
  "sample_kernel =
     \<lparr>threads = (\<lambda>t. if t = 0 then sample_thread RT_THREAD_RUNNING 10
                    else if t = 1 \<or> t = 2 then sample_thread RT_THREAD_READY 10
                    else if t = 3 then sample_thread RT_THREAD_READY 31
                    else if t = 5 then sample_thread RT_THREAD_SUSPEND 8
                    else sample_thread RT_THREAD_INIT 20),
      tlists = (\<lambda>h. if h = PrioHead 10 then [1, 2] else if h = PrioHead 31 then [3]
                    else if h = SuspHead 0 then [5] else []),
      rt_current_thread = Some 0, rt_current_priority = 10,
      rt_thread_ready_priority_group = 2 ^ 10 OR 2 ^ 31, rt_scheduler_lock_nest = 0, rt_tick = 0,
      timers = (\<lambda>_. \<lparr>timer_flag = 0, timer_init_tick = 0, timeout_tick = 0\<rparr>),
      timer_list = [], soft_timer_list = [], check_list = [], soft_check_list = [],
      soft_timer_busy = False, timer_thread = 4\<rparr>"

lemma sample_states:
  "thread_state sample_kernel t =
     (if t = 0 then RT_THREAD_RUNNING else if t \<le> 3 then RT_THREAD_READY
      else if t = 5 then RT_THREAD_SUSPEND else RT_THREAD_INIT)"
  by (auto simp: thread_state_def sample_kernel_def sample_thread_def thread_stat_defs)

lemma sample_ready_inv: "ready_inv sample_kernel"
proof -
  have bits: "bit (2 ^ 10 OR 2 ^ 31 :: u32) p \<longleftrightarrow> p = 10 \<or> p = 31" for p
    by (simp only: bit_or_iff bit_mask_bit)
  have grp: "bit (rt_thread_ready_priority_group sample_kernel) p \<longleftrightarrow> p = 10 \<or> p = 31" for p
    by (simp only: sample_kernel_def kernel.simps bits)
  have cur: "rt_current_thread sample_kernel = Some 0" by (simp add: sample_kernel_def)
  have prio: "current_priority (threads sample_kernel t) = (if t \<le> 2 then 10 else if t = 3 then 31 else if t = 5 then 8 else 20)"
      "number_mask (threads sample_kernel t) = 2 ^ current_priority (threads sample_kernel t)" for t
    by (auto simp: sample_kernel_def sample_thread_def)
  have lists: "tlists sample_kernel h = (if h = PrioHead 10 then [1, 2] else if h = PrioHead 31 then [3]
      else if h = SuspHead 0 then [5] else [])" for h
    by (simp add: sample_kernel_def)
  have "queue_inv {0} sample_kernel"
    unfolding queue_inv_def
    by (auto simp: sample_states prio lists kernel_simps grp split: if_splits)
  then show ?thesis
    by (auto simp: ready_inv_def wait_inv_def sample_states lists kernel_simps cur)
qed

section \<open>Properties\<close>

text \<open>
  Property C5. \<^verbatim>\<open>rt_schedule\<close> never dereferences an empty ready list and keeps the scheduler
  invariant (bitmap and lists agree, at most one thread runs, no ready thread is lost); afterwards
  the processor runs a thread in state RUNNING whose priority is at least as high (numerically at
  most) as that of every ready thread.
\<close>

theorem rt_schedule_highest:
  assumes "ready_inv k" and "rt_current_thread k = Some c" and "rt_scheduler_lock_nest k = 0"
    and "rt_thread_ready_priority_group k \<noteq> 0 \<or> thread_state k c = RT_THREAD_RUNNING"
  shows "\<exists>k' c'. rt_schedule k = Some k' \<and> ready_inv k' \<and> rt_current_thread k' = Some c' \<and>
    thread_state k' c' = RT_THREAD_RUNNING \<and>
    (\<forall>u. thread_state k' u = RT_THREAD_READY \<longrightarrow>
         current_priority (threads k' c') \<le> current_priority (threads k' u)) \<and>
    (\<forall>u. thread_state k' u \<in> {RT_THREAD_READY, RT_THREAD_RUNNING} \<longleftrightarrow>
         thread_state k u \<in> {RT_THREAD_READY, RT_THREAD_RUNNING})"
  using rt_schedule_ok [OF assms(1,2)] assms(3,4) by blast

theorem rt_schedule_highest_witness:
  "\<exists>k' c'. rt_schedule sample_kernel = Some k' \<and> ready_inv k' \<and> rt_current_thread k' = Some c' \<and>
    thread_state k' c' = RT_THREAD_RUNNING \<and>
    (\<forall>u. thread_state k' u = RT_THREAD_READY \<longrightarrow>
         current_priority (threads k' c') \<le> current_priority (threads k' u)) \<and>
    (\<forall>u. thread_state k' u \<in> {RT_THREAD_READY, RT_THREAD_RUNNING} \<longleftrightarrow>
         thread_state sample_kernel u \<in> {RT_THREAD_READY, RT_THREAD_RUNNING})"
  using sample_ready_inv
  by (rule rt_schedule_highest [where c = 0]) (simp_all add: sample_states, simp_all add: sample_kernel_def)

end
