(* ===== verification/Thread.thy ===== *)
theory Thread
  imports Scheduler
begin

text \<open>
  Thread management (\<^verbatim>\<open>rt-thread/src/thread.c\<close>) and the timer operations it needs
  (\<^verbatim>\<open>rt-thread/src/timer.c\<close>: initialise, stop, detach, control). The object container that
  \<^verbatim>\<open>rt_object_init\<close> and \<^verbatim>\<open>rt_object_detach\<close> maintain, the stack contents and the debug hooks are
  not part of the state. The theorems show that every operation keeps the scheduler invariant and
  what it does to the thread it is applied to.
\<close>

section \<open>Timer operations\<close>

definition timer_init :: "timer_id \<Rightarrow> u32 \<Rightarrow> u8 \<Rightarrow> kernel \<Rightarrow> kernel" where
  "timer_init i time flag =
     upd_timer i (\<lambda>_. \<lparr>timer_flag = flag AND NOT RT_TIMER_FLAG_ACTIVATED, timer_init_tick = time,
                       timeout_tick = 0\<rparr>)"

definition timer_remove :: "timer_id \<Rightarrow> kernel \<Rightarrow> kernel" where
  "timer_remove i k =
     k\<lparr>timer_list := removeAll i (timer_list k), soft_timer_list := removeAll i (soft_timer_list k),
       check_list := removeAll i (check_list k), soft_check_list := removeAll i (soft_check_list k)\<rparr>"

definition timer_deactivate :: "timer_id \<Rightarrow> kernel \<Rightarrow> kernel" where
  "timer_deactivate i =
     upd_timer i (\<lambda>tm. tm\<lparr>timer_flag := timer_flag tm AND NOT RT_TIMER_FLAG_ACTIVATED\<rparr>)"

definition timer_active :: "kernel \<Rightarrow> timer_id \<Rightarrow> bool" where
  "timer_active k i \<longleftrightarrow> timer_flag (timers k i) AND RT_TIMER_FLAG_ACTIVATED \<noteq> 0"

definition rt_timer_init :: "timer_id \<Rightarrow> u32 \<Rightarrow> u8 \<Rightarrow> kernel \<Rightarrow> kernel option" where
  "rt_timer_init i time flag k =
     (if time < RT_TICK_MAX div 2 then Some (timer_init i time flag k) else None)"

definition rt_timer_detach :: "timer_id \<Rightarrow> kernel \<Rightarrow> kernel" where
  "rt_timer_detach i k = timer_deactivate i (timer_remove i k)"

definition rt_timer_stop :: "timer_id \<Rightarrow> kernel \<Rightarrow> int \<times> kernel" where
  "rt_timer_stop i k =
     (if \<not> timer_active k i then (- RT_ERROR, k)
      else (RT_EOK, timer_deactivate i (timer_remove i k)))"

text \<open>The commands of \<^verbatim>\<open>rt_timer_control\<close>; the result is the value of \<^verbatim>\<open>*arg\<close> after the call.\<close>

datatype timer_ctrl = TIMER_SET_TIME | TIMER_GET_TIME | TIMER_SET_ONESHOT | TIMER_SET_PERIODIC
  | TIMER_GET_STATE | TIMER_GET_REMAIN_TIME

fun rt_timer_control :: "timer_id \<Rightarrow> timer_ctrl \<Rightarrow> u32 \<Rightarrow> kernel \<Rightarrow> (u32 \<times> kernel) option" where
  "rt_timer_control i TIMER_GET_TIME arg k = Some (timer_init_tick (timers k i), k)"
| "rt_timer_control i TIMER_SET_TIME arg k =
     (if arg < RT_TICK_MAX div 2 then Some (arg, upd_timer i (\<lambda>tm. tm\<lparr>timer_init_tick := arg\<rparr>) k) else None)"
| "rt_timer_control i TIMER_SET_ONESHOT arg k =
     Some (arg, upd_timer i (\<lambda>tm. tm\<lparr>timer_flag := timer_flag tm AND NOT RT_TIMER_FLAG_PERIODIC\<rparr>) k)"
| "rt_timer_control i TIMER_SET_PERIODIC arg k =
     Some (arg, upd_timer i (\<lambda>tm. tm\<lparr>timer_flag := timer_flag tm OR RT_TIMER_FLAG_PERIODIC\<rparr>) k)"
| "rt_timer_control i TIMER_GET_STATE arg k = Some (if timer_active k i then 1 else 0, k)"
| "rt_timer_control i TIMER_GET_REMAIN_TIME arg k = Some (timeout_tick (timers k i), k)"

section \<open>Thread operations\<close>

definition rt_thread_self :: "kernel \<Rightarrow> tid option" where
  "rt_thread_self k = rt_current_thread k"

definition rt_thread_init :: "tid \<Rightarrow> nat \<Rightarrow> u32 \<Rightarrow> kernel \<Rightarrow> kernel option" where
  "rt_thread_init t priority tick k =
     (if priority < RT_THREAD_PRIORITY_MAX then
        Some (timer_init (ThreadTimer t) 0 0 (upd_thread t (\<lambda>_.
          \<lparr>error = RT_EOK, stat = RT_THREAD_INIT, current_priority = priority, number_mask = 0,
           event_set = 0, event_info = 0, init_tick = tick, remaining_tick = tick\<rparr>) k))
      else None)"

definition rt_thread_resume :: "tid \<Rightarrow> kernel \<Rightarrow> int \<times> kernel" where
  "rt_thread_resume t k =
     (if thread_state k t \<noteq> RT_THREAD_SUSPEND then (- RT_ERROR, k)
      else (RT_EOK, rt_schedule_insert_thread t (snd (rt_timer_stop (ThreadTimer t) (list_remove t k)))))"

definition rt_thread_suspend :: "tid \<Rightarrow> kernel \<Rightarrow> (int \<times> kernel) option" where
  "rt_thread_suspend t k =
     (if rt_thread_self k \<noteq> Some t then None
      else if thread_state k t \<noteq> RT_THREAD_READY \<and> thread_state k t \<noteq> RT_THREAD_RUNNING
      then Some (- RT_ERROR, k)
      else Some (RT_EOK, snd (rt_timer_stop (ThreadTimer t)
             (set_state RT_THREAD_SUSPEND t (rt_schedule_remove_thread t k)))))"

definition rt_thread_startup :: "tid \<Rightarrow> kernel \<Rightarrow> (int \<times> kernel) option" where
  "rt_thread_startup t k =
     (if thread_state k t \<noteq> RT_THREAD_INIT then None
      else do {
        let k1 = upd_thread t (\<lambda>th. th\<lparr>number_mask := push_bit (current_priority th) 1,
                                       stat := RT_THREAD_SUSPEND\<rparr>) k;
        let k2 = snd (rt_thread_resume t k1);
        k3 \<leftarrow> (if rt_thread_self k2 \<noteq> None then rt_schedule k2 else Some k2);
        Some (RT_EOK, k3) })"

definition rt_thread_defunct_enqueue :: "tid \<Rightarrow> kernel \<Rightarrow> kernel" where
  "rt_thread_defunct_enqueue t k = list_insert_after DefunctHead t k"

definition rt_thread_defunct_dequeue :: "kernel \<Rightarrow> tid option \<times> kernel" where
  "rt_thread_defunct_dequeue k =
     (case tlists k DefunctHead of [] \<Rightarrow> (None, k) | t # _ \<Rightarrow> (Some t, list_remove t k))"

text \<open>
  \<^verbatim>\<open>rt_thread_detach\<close> and \<^verbatim>\<open>rt_thread_delete\<close> have the same body; they differ in the assertion on
  where the object lives.
\<close>

definition rt_thread_detach :: "tid \<Rightarrow> kernel \<Rightarrow> int \<times> kernel" where
  "rt_thread_detach t k =
     (if thread_state k t = RT_THREAD_CLOSE then (RT_EOK, k)
      else let k1 = (if thread_state k t \<noteq> RT_THREAD_INIT then rt_schedule_remove_thread t k else k);
               k2 = rt_timer_detach (ThreadTimer t) k1;
               k3 = upd_thread t (\<lambda>th. th\<lparr>stat := RT_THREAD_CLOSE\<rparr>) k2
           in (RT_EOK, rt_thread_defunct_enqueue t k3))"

definition rt_thread_delete :: "tid \<Rightarrow> kernel \<Rightarrow> int \<times> kernel" where
  "rt_thread_delete t k = rt_thread_detach t k"

definition thread_exit :: "kernel \<Rightarrow> kernel option" where
  "thread_exit k =
     do { t \<leftarrow> rt_thread_self k;
          let k1 = rt_timer_detach (ThreadTimer t) (rt_schedule_remove_thread t k);
          let k2 = upd_thread t (\<lambda>th. th\<lparr>stat := RT_THREAD_CLOSE\<rparr>) k1;
          rt_schedule (rt_thread_defunct_enqueue t k2) }"

definition rt_thread_yield :: "kernel \<Rightarrow> kernel option" where
  "rt_thread_yield k =
     do { t \<leftarrow> rt_thread_self k;
          rt_schedule (upd_thread t (\<lambda>th. th\<lparr>remaining_tick := init_tick th,
                                            stat := stat th OR RT_THREAD_STAT_YIELD\<rparr>) k) }"

definition thread_timeout :: "tid \<Rightarrow> kernel \<Rightarrow> kernel option" where
  "thread_timeout t k =
     (if thread_state k t \<noteq> RT_THREAD_SUSPEND then None
      else rt_schedule (rt_schedule_insert_thread t
             (list_remove t (upd_thread t (\<lambda>th. th\<lparr>error := - RT_ETIMEOUT\<rparr>) k))))"

text \<open>\<^verbatim>\<open>rt_thread_control\<close> with \<^verbatim>\<open>RT_THREAD_CTRL_CHANGE_PRIORITY\<close>.\<close>

definition rt_thread_change_priority :: "tid \<Rightarrow> nat \<Rightarrow> kernel \<Rightarrow> kernel" where
  "rt_thread_change_priority t p k =
     (let set_prio = upd_thread t (\<lambda>th. th\<lparr>current_priority := p, number_mask := push_bit p 1\<rparr>)
      in if thread_state k t = RT_THREAD_READY
         then rt_schedule_insert_thread t (set_prio (rt_schedule_remove_thread t k))
         else set_prio k)"

section \<open>Frames\<close>

lemma timer_op_simps [kernel_simps]:
  "threads (timer_remove i k) = threads k" "tlists (timer_remove i k) = tlists k"
  "rt_current_thread (timer_remove i k) = rt_current_thread k"
  "rt_thread_ready_priority_group (timer_remove i k) = rt_thread_ready_priority_group k"
  "rt_scheduler_lock_nest (timer_remove i k) = rt_scheduler_lock_nest k"
  "timers (timer_remove i k) = timers k" "rt_tick (timer_remove i k) = rt_tick k"
  "timer_list (timer_remove i k) = removeAll i (timer_list k)"
  "soft_timer_list (timer_remove i k) = removeAll i (soft_timer_list k)"
  "check_list (timer_remove i k) = removeAll i (check_list k)"
  "soft_check_list (timer_remove i k) = removeAll i (soft_check_list k)"
  "soft_timer_busy (timer_remove i k) = soft_timer_busy k" "timer_thread (timer_remove i k) = timer_thread k"
  "thread_state (timer_remove i k) = thread_state k"
  by (simp_all add: timer_remove_def thread_state_def fun_eq_iff)

lemma timer_stop_frame [kernel_simps]:
  "threads (snd (rt_timer_stop i k)) = threads k" "tlists (snd (rt_timer_stop i k)) = tlists k"
  "rt_current_thread (snd (rt_timer_stop i k)) = rt_current_thread k"
  "rt_thread_ready_priority_group (snd (rt_timer_stop i k)) = rt_thread_ready_priority_group k"
  "rt_scheduler_lock_nest (snd (rt_timer_stop i k)) = rt_scheduler_lock_nest k"
  "rt_tick (snd (rt_timer_stop i k)) = rt_tick k"
  "thread_state (snd (rt_timer_stop i k)) = thread_state k"
  by (simp_all add: rt_timer_stop_def timer_deactivate_def kernel_simps thread_state_def fun_eq_iff)

lemma timer_detach_frame [kernel_simps]:
  "threads (rt_timer_detach i k) = threads k" "tlists (rt_timer_detach i k) = tlists k"
  "rt_current_thread (rt_timer_detach i k) = rt_current_thread k"
  "rt_thread_ready_priority_group (rt_timer_detach i k) = rt_thread_ready_priority_group k"
  "rt_scheduler_lock_nest (rt_timer_detach i k) = rt_scheduler_lock_nest k"
  "thread_state (rt_timer_detach i k) = thread_state k"
  by (simp_all add: rt_timer_detach_def timer_deactivate_def kernel_simps thread_state_def fun_eq_iff)

text \<open>Timer operations do not touch what the scheduler invariant speaks about.\<close>

lemma queue_inv_same:
  assumes "threads k' = threads k" and "tlists k' = tlists k"
    and "rt_thread_ready_priority_group k' = rt_thread_ready_priority_group k"
  shows "queue_inv X k' \<longleftrightarrow> queue_inv X k" and "wait_inv k' \<longleftrightarrow> wait_inv k"
  using assms by (simp_all add: queue_inv_def wait_inv_def thread_state_def)

lemma ready_inv_same:
  assumes "threads k' = threads k" and "tlists k' = tlists k"
    and "rt_thread_ready_priority_group k' = rt_thread_ready_priority_group k"
    and "rt_current_thread k' = rt_current_thread k"
  shows "ready_inv k' \<longleftrightarrow> ready_inv k"
  using assms queue_inv_same [of k' k] by (simp add: ready_inv_def thread_state_def)

lemma ready_invI:
  assumes "queue_inv (set_option (rt_current_thread k)) k" and "wait_inv k"
    and "\<And>u. thread_state k u = RT_THREAD_RUNNING \<Longrightarrow> rt_current_thread k = Some u"
    and "\<And>c. rt_current_thread k = Some c \<Longrightarrow>
      thread_state k c \<noteq> RT_THREAD_READY \<and> thread_state k c \<noteq> RT_THREAD_INIT"
  shows "ready_inv k"
  using assms unfolding ready_inv_def by blast

lemma ready_invD:
  assumes "ready_inv k"
  shows ready_queue: "queue_inv (set_option (rt_current_thread k)) k"
    and ready_wait: "wait_inv k"
    and ready_only: "thread_state k u = RT_THREAD_RUNNING \<Longrightarrow> rt_current_thread k = Some u"
    and ready_current: "rt_current_thread k = Some c \<Longrightarrow>
      thread_state k c \<noteq> RT_THREAD_READY \<and> thread_state k c \<noteq> RT_THREAD_INIT"
  using assms unfolding ready_inv_def by blast+

text \<open>The invariant after an operation that changes the state of one thread.\<close>

lemma ready_inv_change:
  assumes "ready_inv k" and "queue_inv (set_option (rt_current_thread k)) k'" and "wait_inv k'"
    and "rt_current_thread k' = rt_current_thread k" and "thread_state k' = (thread_state k)(t := s)"
    and "s = RT_THREAD_RUNNING \<Longrightarrow> rt_current_thread k = Some t"
    and "rt_current_thread k = Some t \<Longrightarrow> s \<noteq> RT_THREAD_READY \<and> s \<noteq> RT_THREAD_INIT"
  shows "ready_inv k'"
proof (rule ready_invI)
  show "queue_inv (set_option (rt_current_thread k')) k'" and "wait_inv k'" using assms(2-4) by simp_all
  show "rt_current_thread k' = Some u" if "thread_state k' u = RT_THREAD_RUNNING" for u
    using that assms(6) ready_only [OF assms(1), of u] by (auto simp: assms(4,5) split: if_splits)
  show "thread_state k' c \<noteq> RT_THREAD_READY \<and> thread_state k' c \<noteq> RT_THREAD_INIT"
    if "rt_current_thread k' = Some c" for c
    using that assms(7) ready_current [OF assms(1), of c] by (auto simp: assms(4,5))
qed

lemma ready_inv_relist:
  assumes "ready_inv k" and "queue_inv (set_option (rt_current_thread k)) k'" and "wait_inv k'"
    and "rt_current_thread k' = rt_current_thread k" and "thread_state k' = thread_state k"
  shows "ready_inv k'"
  using assms by (simp add: ready_inv_def)

lemma queue_inv_list_remove:
  assumes "queue_inv X k" and "thread_state k t \<noteq> RT_THREAD_READY"
  shows "queue_inv X (list_remove t k)"
proof -
  have "removeAll t (tlists k (PrioHead p)) = tlists k (PrioHead p)" for p
    using queue_listed [OF assms(1), of t p] assms(2) by (metis removeAll_id)
  then show ?thesis
    using assms unfolding queue_inv_def by (auto simp: kernel_simps distinct_removeAll)
qed

text \<open>A thread that is neither ready, suspended nor closed is in no list.\<close>

lemma unlisted_by_state:
  assumes "ready_inv k" and "thread_state k t \<notin> {RT_THREAD_READY, RT_THREAD_SUSPEND, RT_THREAD_CLOSE}"
  shows "unlisted t k"
proof -
  have "t \<notin> set (tlists k h)" for h
    using assms(2) queue_listed [OF ready_queue [OF assms(1)], of t] ready_wait [OF assms(1)]
    by (cases h) (auto simp: wait_inv_def)
  then show ?thesis by (simp add: unlisted_def)
qed

lemma unlisted_current_running:
  "ready_inv k \<Longrightarrow> thread_state k t = RT_THREAD_RUNNING \<Longrightarrow> unlisted t k"
  by (rule unlisted_by_state) (simp_all add: kernel_simps)

section \<open>Resume and suspend\<close>

lemma insert_unlisted_ready_inv:
  assumes inv: "ready_inv k" and un: "unlisted t k" and st: "thread_state k t = RT_THREAD_SUSPEND"
  defines "k' \<equiv> rt_schedule_insert_thread t k"
  shows "ready_inv k'"
    and "thread_state k' = (thread_state k)(t := if rt_current_thread k = Some t then RT_THREAD_RUNNING else RT_THREAD_READY)"
    and "rt_current_thread k' = rt_current_thread k"
proof -
  show st': "thread_state k' = (thread_state k)
      (t := if rt_current_thread k = Some t then RT_THREAD_RUNNING else RT_THREAD_READY)"
    using insert_thread_effect(3) [of k t]
    by (auto simp: k'_def rt_schedule_insert_thread_def kernel_simps fun_eq_iff)
  show cur: "rt_current_thread k' = rt_current_thread k"
    using insert_thread_effect(6) [of k t] by (auto simp: k'_def rt_schedule_insert_thread_def kernel_simps)
  have lists: "(\<And>p. h \<noteq> PrioHead p) \<Longrightarrow> tlists k' h = tlists k h" for h
    using insert_thread_effect(2) [of k t]
    by (cases "rt_current_thread k = Some t") (auto simp: k'_def rt_schedule_insert_thread_def kernel_simps)
  have "queue_inv (set_option (rt_current_thread k)) k'"
  proof (cases "rt_current_thread k = Some t")
    case True
    then show ?thesis
      using queue_inv_set_state [OF ready_queue [OF inv], of t RT_THREAD_RUNNING] st
      by (simp add: k'_def rt_schedule_insert_thread_def kernel_simps)
  next
    case False
    then have "set_option (rt_current_thread k) - {t} = set_option (rt_current_thread k)" by auto
    then show ?thesis
      using queue_inv_insert [OF ready_queue [OF inv] un False] st by (simp add: k'_def kernel_simps)
  qed
  moreover have "wait_inv k'"
    by (rule wait_inv_sub [OF ready_wait [OF inv]]) (use un in \<open>auto simp: lists unlisted_def st'\<close>)
  ultimately show "ready_inv k'"
    by (rule ready_inv_change [OF inv _ _ cur st']) (auto simp: kernel_simps split: if_splits)
qed

lemma rt_thread_resume_ok:
  assumes inv: "ready_inv k" and st: "thread_state k t = RT_THREAD_SUSPEND"
  defines "k' \<equiv> snd (rt_thread_resume t k)"
  shows "fst (rt_thread_resume t k) = RT_EOK" and "ready_inv k'"
    and "thread_state k' = (thread_state k)(t := if rt_current_thread k = Some t then RT_THREAD_RUNNING else RT_THREAD_READY)"
    and "rt_current_thread k' = rt_current_thread k"
proof -
  let ?k1 = "snd (rt_timer_stop (ThreadTimer t) (list_remove t k))"
  have st1: "thread_state ?k1 = thread_state k" by (simp add: kernel_simps fun_eq_iff)
  have "queue_inv (set_option (rt_current_thread k)) ?k1"
    using queue_inv_list_remove [OF ready_queue [OF inv], of t] st
    by (subst queue_inv_same(1) [of _ "list_remove t k"]) (simp_all add: kernel_simps)
  moreover have "wait_inv ?k1"
    by (rule wait_inv_sub [OF ready_wait [OF inv]]) (simp_all add: kernel_simps)
  ultimately have inv1: "ready_inv ?k1"
    by (rule ready_inv_relist [OF inv]) (simp_all add: kernel_simps)
  have un1: "unlisted t ?k1" by (simp add: unlisted_def kernel_simps)
  have k': "k' = rt_schedule_insert_thread t ?k1"
    using st by (simp add: k'_def rt_thread_resume_def)
  show "fst (rt_thread_resume t k) = RT_EOK" using st by (simp add: rt_thread_resume_def)
  show "ready_inv k'"
    and "thread_state k' = (thread_state k)(t := if rt_current_thread k = Some t then RT_THREAD_RUNNING else RT_THREAD_READY)"
    and "rt_current_thread k' = rt_current_thread k"
    using insert_unlisted_ready_inv [OF inv1 un1] st by (simp_all add: k' st1 kernel_simps)
qed

lemma remove_current_queue:
  assumes inv: "ready_inv k" and cur: "rt_current_thread k = Some t"
  shows "queue_inv {t} (rt_schedule_remove_thread t k)" and "wait_inv (rt_schedule_remove_thread t k)"
proof -
  show "queue_inv {t} (rt_schedule_remove_thread t k)"
    using queue_inv_remove [OF ready_queue [OF inv], of t] ready_current [OF inv cur] cur by simp
  show "wait_inv (rt_schedule_remove_thread t k)"
    by (rule wait_inv_sub [OF ready_wait [OF inv]]) (simp_all add: remove_thread_effect)
qed

lemma rt_thread_suspend_ok:
  assumes inv: "ready_inv k" and cur: "rt_current_thread k = Some t"
    and st: "thread_state k t = RT_THREAD_RUNNING"
  shows "\<exists>k'. rt_thread_suspend t k = Some (RT_EOK, k') \<and> ready_inv k' \<and>
    thread_state k' = (thread_state k)(t := RT_THREAD_SUSPEND) \<and> rt_current_thread k' = Some t \<and>
    unlisted t k' \<and> \<not> timer_active k' (ThreadTimer t) \<and>
    tlists k' = tlists k \<and> rt_tick k' = rt_tick k \<and>
    (\<forall>u. current_priority (threads k' u) = current_priority (threads k u))"
proof -
  let ?k1 = "set_state RT_THREAD_SUSPEND t (rt_schedule_remove_thread t k)"
  define k' where "k' = snd (rt_timer_stop (ThreadTimer t) ?k1)"
  have un: "unlisted t k" using unlisted_current_running [OF inv st] .
  have susp: "rt_thread_suspend t k = Some (RT_EOK, k')"
    using cur st by (simp add: rt_thread_suspend_def rt_thread_self_def k'_def)
  have st': "thread_state k' = (thread_state k)(t := RT_THREAD_SUSPEND)"
    by (simp add: k'_def kernel_simps remove_thread_effect fun_eq_iff)
  have lists: "tlists k' = tlists k"
    using un by (simp add: k'_def kernel_simps remove_thread_effect unlisted_def fun_eq_iff)
  have "queue_inv {t} ?k1"
    using remove_current_queue(1) [OF inv cur] st
    by (intro queue_inv_set_state) (simp_all add: remove_thread_effect kernel_simps)
  then have "queue_inv {t} k'"
    by (subst queue_inv_same(1) [of _ ?k1]) (simp_all add: k'_def kernel_simps)
  moreover have "wait_inv k'"
    by (rule wait_inv_sub [OF ready_wait [OF inv]]) (use un in \<open>auto simp: lists st' unlisted_def\<close>)
  moreover have cur': "rt_current_thread k' = Some t"
    using cur by (simp add: k'_def kernel_simps remove_thread_effect)
  ultimately have "ready_inv k'"
    using cur by (intro ready_inv_change [OF inv _ _ _ st']) (simp_all add: kernel_simps)
  moreover have "\<not> timer_active k' (ThreadTimer t)"
    by (simp add: k'_def rt_timer_stop_def timer_active_def timer_deactivate_def kernel_simps and.assoc)
  ultimately show ?thesis
    using susp st' cur' un lists
    by (simp add: unlisted_def k'_def kernel_simps remove_thread_effect)
qed

text \<open>Ending a thread: it leaves every ready list and ends up closed in the defunct list.\<close>

lemma close_thread_ok:
  assumes inv: "ready_inv k" and st: "thread_state k t \<noteq> RT_THREAD_INIT" "thread_state k t \<noteq> RT_THREAD_CLOSE"
  defines "k' \<equiv> rt_thread_defunct_enqueue t (upd_thread t (\<lambda>th. th\<lparr>stat := RT_THREAD_CLOSE\<rparr>)
    (rt_timer_detach (ThreadTimer t) (rt_schedule_remove_thread t k)))"
  shows "ready_inv k'" and "thread_state k' = (thread_state k)(t := RT_THREAD_CLOSE)"
    and "rt_current_thread k' = rt_current_thread k" and "t \<in> set (tlists k' DefunctHead)"
proof -
  let ?X = "set_option (rt_current_thread k)" and ?k1 = "rt_schedule_remove_thread t k"
  show st': "thread_state k' = (thread_state k)(t := RT_THREAD_CLOSE)"
    by (auto simp: k'_def rt_thread_defunct_enqueue_def kernel_simps remove_thread_effect thread_state_def
        fun_eq_iff stat_masks)
  show cur: "rt_current_thread k' = rt_current_thread k"
    by (simp add: k'_def rt_thread_defunct_enqueue_def kernel_simps remove_thread_effect)
  have lists: "tlists k' h = (if h = DefunctHead then t # removeAll t (tlists k h) else removeAll t (tlists k h))" for h
    by (simp add: k'_def rt_thread_defunct_enqueue_def kernel_simps remove_thread_effect)
  show "t \<in> set (tlists k' DefunctHead)" by (simp add: lists)
  have q: "queue_inv (insert t ?X) ?k1"
    using queue_inv_remove [OF ready_queue [OF inv] st(1)] .
  let ?k2 = "upd_thread t (\<lambda>th. th\<lparr>stat := RT_THREAD_CLOSE\<rparr>) (rt_timer_detach (ThreadTimer t) ?k1)"
  have "queue_inv (insert t ?X) (rt_timer_detach (ThreadTimer t) ?k1)"
    using q by (subst queue_inv_same(1) [of _ ?k1]) (simp_all add: kernel_simps)
  then have "queue_inv (insert t ?X) ?k2"
    by (rule queue_inv_upd_thread) (use st in \<open>simp_all add: kernel_simps remove_thread_effect\<close>)
  moreover have un: "unlisted t ?k2" by (simp add: unlisted_def kernel_simps remove_thread_effect)
  moreover have "distinct (t # tlists ?k2 DefunctHead)"
    using un queue_distinct [OF q, of DefunctHead] by (simp add: unlisted_def kernel_simps)
  ultimately have "queue_inv (insert t ?X) k'"
    unfolding k'_def rt_thread_defunct_enqueue_def list_insert_after_def
    by (intro queue_inv_enlist) simp_all
  then have "queue_inv ?X k'"
    by (rule queue_inv_shrink) (simp add: st' kernel_simps)
  moreover have "wait_inv k'"
    using ready_wait [OF inv] by (auto simp: wait_inv_def lists st' split: if_splits)
  ultimately show "ready_inv k'"
    by (intro ready_inv_change [OF inv _ _ cur st']) (simp_all add: kernel_simps)
qed

lemma current_not_init: "ready_inv k \<Longrightarrow> rt_current_thread k = Some c \<Longrightarrow> thread_state k c \<noteq> RT_THREAD_INIT"
  using ready_current by blast

section \<open>Startup, yield, timeout, priority change\<close>

lemma rt_thread_startup_prepared:
  assumes inv: "ready_inv k" and st: "thread_state k t = RT_THREAD_INIT"
    and p: "current_priority (threads k t) < 32"
  defines "k1 \<equiv> upd_thread t (\<lambda>th. th\<lparr>number_mask := push_bit (current_priority th) 1,
                                       stat := RT_THREAD_SUSPEND\<rparr>) k"
  shows "ready_inv k1" and "thread_state k1 = (thread_state k)(t := RT_THREAD_SUSPEND)"
    and "rt_current_thread k1 = rt_current_thread k"
proof -
  let ?X = "set_option (rt_current_thread k)"
  show st1: "thread_state k1 = (thread_state k)(t := RT_THREAD_SUSPEND)"
    by (auto simp: k1_def thread_state_def kernel_simps fun_eq_iff)
  show cur: "rt_current_thread k1 = rt_current_thread k" by (simp add: k1_def kernel_simps)
  have un: "unlisted t k" using inv st by (intro unlisted_by_state) (simp_all add: kernel_simps)
  have "queue_inv (insert t ?X) k"
    using queue_inv_grow [OF ready_queue [OF inv], of t] st by (simp add: kernel_simps)
  then have "queue_inv (insert t ?X) k1"
    unfolding k1_def by (rule queue_inv_upd_exempt) (use p in simp_all)
  then have "queue_inv ?X k1" by (rule queue_inv_shrink) (simp add: st1 kernel_simps)
  moreover have lists: "tlists k1 = tlists k" by (simp add: k1_def kernel_simps)
  moreover have "wait_inv k1"
    by (rule wait_inv_sub [OF ready_wait [OF inv]]) (use un in \<open>auto simp: st1 lists unlisted_def\<close>)
  ultimately show "ready_inv k1"
    by (intro ready_inv_change [OF inv _ _ cur st1]) (simp_all add: kernel_simps)
qed

lemma rt_schedule_keeps_inv:
  assumes "ready_inv k" and "rt_current_thread k \<noteq> None"
  shows "\<exists>k'. rt_schedule k = Some k' \<and> ready_inv k' \<and> rt_current_thread k' \<noteq> None"
  using assms rt_schedule_ok [of k] by fastforce

lemma rt_thread_startup_ok:
  assumes "ready_inv k" and "thread_state k t = RT_THREAD_INIT" and "current_priority (threads k t) < 32"
  shows "\<exists>k'. rt_thread_startup t k = Some (RT_EOK, k') \<and> ready_inv k'"
proof -
  note prep = rt_thread_startup_prepared [OF assms]
  note res = rt_thread_resume_ok [OF prep(1), of t]
  have "ready_inv (snd (rt_thread_resume t (upd_thread t (\<lambda>th. th\<lparr>number_mask := push_bit (current_priority th) 1,
      stat := RT_THREAD_SUSPEND\<rparr>) k)))"
    using res(2) prep(2) by simp
  then show ?thesis
    using rt_schedule_keeps_inv assms(2)
    by (fastforce simp: rt_thread_startup_def rt_thread_self_def Let_def)
qed

lemma yield_prepared:
  assumes inv: "ready_inv k" and c: "rt_current_thread k = Some c"
  defines "k1 \<equiv> upd_thread c (\<lambda>th. th\<lparr>remaining_tick := init_tick th, stat := stat th OR RT_THREAD_STAT_YIELD\<rparr>) k"
  shows "ready_inv k1" and "thread_state k1 = thread_state k" and "rt_current_thread k1 = Some c"
    and "rt_thread_ready_priority_group k1 = rt_thread_ready_priority_group k" and "tlists k1 = tlists k"
    and "rt_scheduler_lock_nest k1 = rt_scheduler_lock_nest k"
    and "current_priority (threads k1 u) = current_priority (threads k u)"
    and "stat (threads k1 c) AND RT_THREAD_STAT_YIELD \<noteq> 0"
proof -
  have "(x OR RT_THREAD_STAT_YIELD) AND RT_THREAD_STAT_MASK = x AND RT_THREAD_STAT_MASK" for x
  proof (rule bit_word_eqI)
    fix n assume "n < LENGTH(8)"
    have "RT_THREAD_STAT_YIELD AND RT_THREAD_STAT_MASK = 0" by (simp add: thread_stat_defs)
    then have "\<not> (bit RT_THREAD_STAT_YIELD n \<and> bit RT_THREAD_STAT_MASK n)"
      by (metis bit_0_eq bit_and_iff bot_apply bot_bool_def)
    then show "bit ((x OR RT_THREAD_STAT_YIELD) AND RT_THREAD_STAT_MASK) n \<longleftrightarrow> bit (x AND RT_THREAD_STAT_MASK) n"
      by (auto simp: bit_and_iff bit_or_iff)
  qed
  then show st: "thread_state k1 = thread_state k"
    by (auto simp: k1_def thread_state_def kernel_simps fun_eq_iff)
  show cur: "rt_current_thread k1 = Some c" and "rt_thread_ready_priority_group k1 = rt_thread_ready_priority_group k"
    and "tlists k1 = tlists k" and "rt_scheduler_lock_nest k1 = rt_scheduler_lock_nest k"
    and "current_priority (threads k1 u) = current_priority (threads k u)"
    using c by (simp_all add: k1_def kernel_simps)
  have "queue_inv (set_option (rt_current_thread k)) k1"
    unfolding k1_def
    by (rule queue_inv_upd_thread [OF ready_queue [OF inv]]) (use c ready_current [OF inv c] in simp_all)
  moreover have "wait_inv k1"
    by (rule wait_inv_sub [OF ready_wait [OF inv]]) (simp add: st, simp add: k1_def kernel_simps)
  ultimately show "ready_inv k1"
    using cur c by (intro ready_inv_relist [OF inv _ _ _ st]) simp_all
  have "(x OR RT_THREAD_STAT_YIELD) AND RT_THREAD_STAT_YIELD = RT_THREAD_STAT_YIELD" for x
    by (simp add: or.commute)
  then show "stat (threads k1 c) AND RT_THREAD_STAT_YIELD \<noteq> 0"
    by (simp add: k1_def kernel_simps RT_THREAD_STAT_YIELD_def)
qed

lemma rt_thread_yield_ok:
  assumes "ready_inv k" and "rt_current_thread k = Some c"
  shows "\<exists>k'. rt_thread_yield k = Some k' \<and> ready_inv k' \<and> rt_current_thread k' \<noteq> None"
  using rt_schedule_keeps_inv [OF yield_prepared(1) [OF assms]] yield_prepared(3) [OF assms] assms(2)
  by (simp add: rt_thread_yield_def rt_thread_self_def)

text \<open>What the scheduler never touches: the lock, the tick and the timers.\<close>

lemma insert_thread_frame [kernel_simps]:
  "rt_scheduler_lock_nest (rt_schedule_insert_thread t k) = rt_scheduler_lock_nest k"
  "rt_tick (rt_schedule_insert_thread t k) = rt_tick k"
  "timers (rt_schedule_insert_thread t k) = timers k"
  "timer_list (rt_schedule_insert_thread t k) = timer_list k"
  "soft_timer_list (rt_schedule_insert_thread t k) = soft_timer_list k"
  "rt_current_thread (rt_schedule_insert_thread t k) = rt_current_thread k"
  "check_list (rt_schedule_insert_thread t k) = check_list k"
  "soft_check_list (rt_schedule_insert_thread t k) = soft_check_list k"
  "soft_timer_busy (rt_schedule_insert_thread t k) = soft_timer_busy k"
  "timer_thread (rt_schedule_insert_thread t k) = timer_thread k"
  by (simp_all add: rt_schedule_insert_thread_def Let_def kernel_simps)

lemma rt_schedule_frame:
  assumes "rt_schedule k = Some k'"
  shows "rt_scheduler_lock_nest k' = rt_scheduler_lock_nest k" and "rt_tick k' = rt_tick k"
    and "timers k' = timers k" and "timer_list k' = timer_list k"
    and "soft_timer_list k' = soft_timer_list k" and "check_list k' = check_list k"
    and "soft_check_list k' = soft_check_list k" and "soft_timer_busy k' = soft_timer_busy k"
    and "timer_thread k' = timer_thread k"
  using assms
  by (auto simp: rt_schedule_def Let_def kernel_simps remove_thread_effect bind_eq_Some_conv split: if_splits)

lemma rt_schedule_error:
  assumes "rt_schedule k = Some k'"
  shows "error (threads k' u) = error (threads k u)"
  using assms
  by (auto simp: rt_schedule_def rt_schedule_insert_thread_def Let_def kernel_simps remove_thread_effect
      bind_eq_Some_conv split: if_splits)

lemma rt_thread_suspend_lock:
  "rt_thread_suspend t k = Some (r, k') \<Longrightarrow> rt_scheduler_lock_nest k' = rt_scheduler_lock_nest k"
  by (auto simp: rt_thread_suspend_def kernel_simps remove_thread_effect split: if_splits)

text \<open>A suspended thread stays suspended when the scheduler runs.\<close>

lemma rt_schedule_suspended:
  assumes inv: "ready_inv k" and c: "rt_current_thread k = Some c" and k': "rt_schedule k = Some k'"
    and st: "thread_state k t = RT_THREAD_SUSPEND"
  shows "thread_state k' t = RT_THREAD_SUSPEND"
proof (cases "rt_scheduler_lock_nest k = 0 \<and> rt_thread_ready_priority_group k \<noteq> 0")
  case False
  then have "k' = k" using rt_schedule_idle [of k] k' by auto
  then show ?thesis using st by simp
next
  case True
  have q: "queue_inv {c} k" using ready_queue [OF inv] c by simp
  obtain u p ts where top: "scheduler_get_highest_priority_thread k = Some (u, p)"
      "tlists k (PrioHead p) = u # ts" and "\<And>v r. v \<in> set (tlists k (PrioHead r)) \<Longrightarrow> p \<le> r"
    using get_highest [OF q] True by blast
  have u: "thread_state k u = RT_THREAD_READY" using queue_listed [OF q, of u p] top(2) by simp
  show ?thesis
  proof (cases "schedule_keeps k c p")
    case keep: True
    have "thread_state k' = thread_state k"
      using rt_schedule_keep [OF inv c top(1) _ _ keep] True k' by (metis option.inject)
    then show ?thesis using st by simp
  next
    case leave: False
    have "thread_state k' = (thread_state k)
        (c := if thread_state k c = RT_THREAD_RUNNING then RT_THREAD_READY else thread_state k c,
         u := RT_THREAD_RUNNING)"
      using rt_schedule_switch [OF inv c top _ _ leave] True k' by (metis option.inject)
    moreover have "t \<noteq> u" using st u by (auto simp: kernel_simps)
    ultimately show ?thesis using st by (auto simp: kernel_simps)
  qed
qed

text \<open>
  The running thread \<open>x\<close> of the highest ready priority \<open>p\<close>, with the ready threads \<open>y # rest\<close> of the
  same priority behind it.
\<close>

definition rotation :: "nat \<Rightarrow> tid \<Rightarrow> tid list \<Rightarrow> kernel \<Rightarrow> bool" where
  "rotation p x ys k \<longleftrightarrow>
     ready_inv k \<and> rt_current_thread k = Some x \<and> thread_state k x = RT_THREAD_RUNNING \<and>
     rt_scheduler_lock_nest k = 0 \<and> current_priority (threads k x) = p \<and>
     tlists k (PrioHead p) = ys \<and> (\<forall>q < p. tlists k (PrioHead q) = [])"

lemma rotation_yield:
  assumes "rotation p x (y # rest) k"
  shows "\<exists>k'. rt_thread_yield k = Some k' \<and> rotation p y (x # rest) k'"
proof -
  define k1 where "k1 = upd_thread x (\<lambda>th. th\<lparr>remaining_tick := init_tick th, stat := stat th OR RT_THREAD_STAT_YIELD\<rparr>) k"
  have r: "ready_inv k" "rt_current_thread k = Some x" "thread_state k x = RT_THREAD_RUNNING"
      "rt_scheduler_lock_nest k = 0" "current_priority (threads k x) = p" "tlists k (PrioHead p) = y # rest"
      "\<And>q. q < p \<Longrightarrow> tlists k (PrioHead q) = []"
    using assms by (auto simp: rotation_def)
  note y = yield_prepared [OF r(1,2), folded k1_def]
  have q: "queue_inv {x} k1" using ready_queue [OF y(1)] y(3) by simp
  have grp: "rt_thread_ready_priority_group k1 \<noteq> 0"
    using queue_bitmap [OF q, of p] r(6) y(5) by auto
  obtain t p' ts where top: "scheduler_get_highest_priority_thread k1 = Some (t, p')"
      "tlists k1 (PrioHead p') = t # ts" and low: "\<And>u q. u \<in> set (tlists k1 (PrioHead q)) \<Longrightarrow> p' \<le> q"
    using get_highest [OF q grp] by blast
  have "p' \<le> p" using low [of y p] r(6) y(5) by simp
  moreover have "\<not> p' < p" using r(7) [of p'] top(2) y(5) by auto
  ultimately have p': "p' = p" by simp
  then have t: "t = y" "ts = rest" using top(2) r(6) y(5) by auto
  have yx: "y \<noteq> x" and yp: "current_priority (threads k1 y) = p" and xr: "y \<notin> set rest"
    using queue_listed [OF q, of y p] queue_distinct [OF q, of "PrioHead p"] r(6) y(5) by auto
  have leave: "\<not> schedule_keeps k1 x p"
    using y(8) r(5) y(7) [of x] by (simp add: schedule_keeps_def)
  obtain k' where k': "rt_schedule k1 = Some k'" "ready_inv k'" "rt_current_thread k' = Some y"
      "thread_state k' = (thread_state k1)
        (x := if thread_state k1 x = RT_THREAD_RUNNING then RT_THREAD_READY else thread_state k1 x,
         y := RT_THREAD_RUNNING)"
      "\<forall>u. current_priority (threads k' u) = current_priority (threads k1 u)"
      "tlists k' = (\<lambda>h. removeAll y
        (if thread_state k1 x = RT_THREAD_RUNNING \<and> h = PrioHead (current_priority (threads k1 x))
         then x # tlists k1 h else tlists k1 h))"
    using rt_schedule_switch [OF y(1,3) top(1) [unfolded p' t] top(2) [unfolded p' t] _ grp leave] r(4) y(6) by auto
  have "rotation p y (x # rest) k'"
    using k' rt_schedule_frame(1) [OF k'(1)] r y yx yp xr
    by (auto simp: rotation_def)
  then show ?thesis
    using k'(1) r(2) by (simp add: rt_thread_yield_def rt_thread_self_def k1_def)
qed

text \<open>The state after the running threads have yielded \<open>n\<close> times.\<close>

fun yield_times :: "nat \<Rightarrow> kernel \<Rightarrow> kernel option" where
  "yield_times 0 k = Some k"
| "yield_times (Suc n) k = do { k' \<leftarrow> rt_thread_yield k; yield_times n k' }"

lemma rotation_yield_times:
  "rotation p x (y # rest) k \<Longrightarrow>
   \<exists>k'. yield_times n k = Some k' \<and> rotation p (if even n then x else y) ((if even n then y else x) # rest) k'"
proof (induction n arbitrary: k x y)
  case (Suc n)
  obtain k1 where "rt_thread_yield k = Some k1" "rotation p y (x # rest) k1"
    using rotation_yield [OF Suc.prems] by blast
  then show ?case using Suc.IH [of y x k1] by auto
qed simp

text \<open>The state \<^verbatim>\<open>_thread_timeout\<close> hands to the scheduler.\<close>

definition timeout_ready :: "tid \<Rightarrow> kernel \<Rightarrow> kernel" where
  "timeout_ready t k = rt_schedule_insert_thread t
     (list_remove t (upd_thread t (\<lambda>th. th\<lparr>error := - RT_ETIMEOUT\<rparr>) k))"

lemma timeout_prepared:
  assumes inv: "ready_inv k" and st: "thread_state k t = RT_THREAD_SUSPEND"
  shows "ready_inv (timeout_ready t k)"
    and "thread_state (timeout_ready t k) = (thread_state k)
      (t := if rt_current_thread k = Some t then RT_THREAD_RUNNING else RT_THREAD_READY)"
    and "rt_current_thread (timeout_ready t k) = rt_current_thread k"
    and "error (threads (timeout_ready t k) t) = - RT_ETIMEOUT"
proof -
  let ?k0 = "upd_thread t (\<lambda>th. th\<lparr>error := - RT_ETIMEOUT\<rparr>) k"
  let ?k1 = "list_remove t ?k0"
  let ?X = "set_option (rt_current_thread k)"
  have st0: "thread_state ?k0 = thread_state k" by (auto simp: thread_state_def kernel_simps fun_eq_iff)
  have st1: "thread_state ?k1 = thread_state k" using st0 by (simp add: kernel_simps)
  have "queue_inv (insert t ?X) ?k0"
    using queue_inv_grow [OF ready_queue [OF inv], of t] st
    by (intro queue_inv_upd_thread) (simp_all add: kernel_simps)
  then have "queue_inv ?X ?k0"
    by (rule queue_inv_shrink) (use st in \<open>simp add: st0 kernel_simps\<close>)
  then have "queue_inv ?X ?k1"
    by (rule queue_inv_list_remove) (use st in \<open>simp add: st0 kernel_simps\<close>)
  moreover have "wait_inv ?k1"
    by (rule wait_inv_sub [OF ready_wait [OF inv]]) (unfold st1, simp add: kernel_simps)
  ultimately have inv1: "ready_inv ?k1"
    by (intro ready_inv_relist [OF inv _ _ _ st1]) (simp_all add: kernel_simps)
  have un: "unlisted t ?k1" by (simp add: unlisted_def kernel_simps)
  have st': "thread_state ?k1 t = RT_THREAD_SUSPEND" using st by (simp add: st1)
  note ins = insert_unlisted_ready_inv [OF inv1 un st', folded timeout_ready_def]
  show "ready_inv (timeout_ready t k)"
    and "thread_state (timeout_ready t k) = (thread_state k)
      (t := if rt_current_thread k = Some t then RT_THREAD_RUNNING else RT_THREAD_READY)"
    and "rt_current_thread (timeout_ready t k) = rt_current_thread k"
    using ins by (simp_all add: st1) (simp_all add: kernel_simps)
  show "error (threads (timeout_ready t k) t) = - RT_ETIMEOUT"
    by (simp add: timeout_ready_def rt_schedule_insert_thread_def Let_def kernel_simps)
qed

lemma thread_timeout_ok:
  assumes inv: "ready_inv k" and st: "thread_state k t = RT_THREAD_SUSPEND"
    and cur: "rt_current_thread k \<noteq> None"
  shows "\<exists>k'. thread_timeout t k = Some k' \<and> ready_inv k' \<and> error (threads k' t) = - RT_ETIMEOUT \<and>
    thread_state k' t \<in> {RT_THREAD_READY, RT_THREAD_RUNNING} \<and> rt_current_thread k' \<noteq> None"
proof -
  note prep = timeout_prepared [OF inv st]
  obtain c where c: "rt_current_thread (timeout_ready t k) = Some c" using cur prep(3) by auto
  obtain k' where k': "rt_schedule (timeout_ready t k) = Some k'" "ready_inv k'" "rt_current_thread k' \<noteq> None"
      "\<forall>u. thread_state k' u \<in> {RT_THREAD_READY, RT_THREAD_RUNNING} \<longleftrightarrow>
           thread_state (timeout_ready t k) u \<in> {RT_THREAD_READY, RT_THREAD_RUNNING}"
    using rt_schedule_ok [OF prep(1) c] by blast
  have "error (threads k' t) = - RT_ETIMEOUT" using rt_schedule_error [OF k'(1)] prep(4) by simp
  then show ?thesis
    using k' st prep(2) by (simp add: thread_timeout_def flip: timeout_ready_def)
qed

section \<open>Properties\<close>

text \<open>
  Resuming a suspended thread succeeds, keeps the scheduler invariant and makes the
  thread ready (running, if it is the thread that is being executed): it is linked at the head of
  the ready list of its priority, out of every waiting list, and its timer is stopped.
\<close>

theorem thread_resume_makes_ready:
  assumes "ready_inv k" and "thread_state k t = RT_THREAD_SUSPEND" and "rt_current_thread k \<noteq> Some t"
  shows "\<exists>k'. rt_thread_resume t k = (RT_EOK, k') \<and> ready_inv k' \<and>
    thread_state k' = (thread_state k)(t := RT_THREAD_READY) \<and>
    t \<in> set (tlists k' (PrioHead (current_priority (threads k t)))) \<and>
    (\<forall>i. t \<notin> set (tlists k' (SuspHead i)) \<and> t \<notin> set (tlists k' (SenderHead i))) \<and>
    \<not> timer_active k' (ThreadTimer t)"
proof -
  let ?k' = "snd (rt_thread_resume t k)"
  note r = rt_thread_resume_ok [OF assms(1,2)]
  have q: "queue_inv (set_option (rt_current_thread k)) ?k'" using ready_queue [OF r(2)] r(4) by simp
  have st: "thread_state ?k' t = RT_THREAD_READY" using r(3) assms(3) by simp
  have t: "t \<in> set (tlists ?k' (PrioHead (current_priority (threads ?k' t))))"
    by (rule queue_complete [OF q st]) (use assms(3) in simp)
  have "current_priority (threads ?k' t) = current_priority (threads k t)"
    using assms(2) by (simp add: rt_thread_resume_def rt_schedule_insert_thread_def Let_def kernel_simps)
  moreover have "t \<notin> set (tlists ?k' (SuspHead i)) \<and> t \<notin> set (tlists ?k' (SenderHead i))" for i
    using queue_disjoint [OF q t] by blast
  moreover have "\<not> timer_active ?k' (ThreadTimer t)"
    using assms(2) by (simp add: rt_thread_resume_def timer_active_def kernel_simps rt_timer_stop_def
        timer_deactivate_def and.assoc)
  ultimately show ?thesis
    using r t assms(3) by (intro exI [of _ ?k']) (simp add: prod_eq_iff)
qed

theorem thread_resume_makes_ready_witness:
  "\<exists>k'. rt_thread_resume 5 sample_kernel = (RT_EOK, k') \<and> ready_inv k' \<and>
    thread_state k' = (thread_state sample_kernel)(5 := RT_THREAD_READY) \<and>
    5 \<in> set (tlists k' (PrioHead (current_priority (threads sample_kernel 5)))) \<and>
    (\<forall>i. 5 \<notin> set (tlists k' (SuspHead i)) \<and> 5 \<notin> set (tlists k' (SenderHead i))) \<and>
    \<not> timer_active k' (ThreadTimer 5)"
  using sample_ready_inv
  by (rule thread_resume_makes_ready) (simp_all add: sample_states, simp_all add: sample_kernel_def)

text \<open>
  Suspending the running thread and rescheduling: \<^verbatim>\<open>rt_thread_suspend\<close> of the current
  thread succeeds with its timer stopped, and after the following \<^verbatim>\<open>rt_schedule\<close> (there is always a
  ready thread, the idle thread) another thread of the highest ready priority runs, the invariant
  holds, and the suspended thread is neither ready nor running.
\<close>

theorem thread_suspend_switches:
  assumes "ready_inv k" and "rt_current_thread k = Some t" and "thread_state k t = RT_THREAD_RUNNING"
    and "rt_scheduler_lock_nest k = 0" and "thread_state k idle = RT_THREAD_READY"
  shows "\<exists>k1 k2 c. rt_thread_suspend t k = Some (RT_EOK, k1) \<and> \<not> timer_active k1 (ThreadTimer t) \<and>
    rt_schedule k1 = Some k2 \<and> ready_inv k2 \<and> rt_current_thread k2 = Some c \<and> c \<noteq> t \<and>
    thread_state k2 c = RT_THREAD_RUNNING \<and> thread_state k2 t = RT_THREAD_SUSPEND \<and>
    (\<forall>u. thread_state k2 u = RT_THREAD_READY \<longrightarrow>
         current_priority (threads k2 c) \<le> current_priority (threads k2 u))"
proof -
  obtain k1 where k1: "rt_thread_suspend t k = Some (RT_EOK, k1)" "ready_inv k1"
      "thread_state k1 = (thread_state k)(t := RT_THREAD_SUSPEND)" "rt_current_thread k1 = Some t"
      "\<not> timer_active k1 (ThreadTimer t)" "rt_scheduler_lock_nest k1 = 0"
    using rt_thread_suspend_ok [OF assms(1-3)] rt_thread_suspend_lock assms(4) by metis
  have idle: "idle \<noteq> t" using assms(3,5) by (auto simp: kernel_simps)
  have "thread_state k1 idle = RT_THREAD_READY" using assms(5) idle by (simp add: k1(3))
  then have "rt_thread_ready_priority_group k1 \<noteq> 0"
    using group_zero_none_ready [OF ready_queue [OF k1(2)], of idle] k1(4) idle by auto
  then obtain k2 c where k2: "rt_schedule k1 = Some k2" "ready_inv k2" "rt_current_thread k2 = Some c"
      "thread_state k2 c = RT_THREAD_RUNNING"
      "\<forall>u. thread_state k2 u = RT_THREAD_READY \<longrightarrow> current_priority (threads k2 c) \<le> current_priority (threads k2 u)"
    using rt_schedule_ok [OF k1(2,4)] k1(6) by blast
  have "thread_state k2 t = RT_THREAD_SUSPEND"
    using rt_schedule_suspended [OF k1(2,4) k2(1)] by (simp add: k1(3))
  then show ?thesis using k1 k2 by (auto simp: kernel_simps)
qed

theorem thread_suspend_switches_witness:
  "\<exists>k1 k2 c. rt_thread_suspend 0 sample_kernel = Some (RT_EOK, k1) \<and> \<not> timer_active k1 (ThreadTimer 0) \<and>
    rt_schedule k1 = Some k2 \<and> ready_inv k2 \<and> rt_current_thread k2 = Some c \<and> c \<noteq> 0 \<and>
    thread_state k2 c = RT_THREAD_RUNNING \<and> thread_state k2 0 = RT_THREAD_SUSPEND \<and>
    (\<forall>u. thread_state k2 u = RT_THREAD_READY \<longrightarrow>
         current_priority (threads k2 c) \<le> current_priority (threads k2 u))"
  using sample_ready_inv
  by (rule thread_suspend_switches [where idle = 3]) (simp_all add: sample_states, simp_all add: sample_kernel_def)

text \<open>
  Yielding among threads of equal priority is not round robin: \<^verbatim>\<open>rt_schedule\<close> clears the
  yield flag before it links the yielding thread into its ready list, so the thread goes to the
  front of the list. When the running thread and the first ready thread of its priority keep
  yielding, they alternate for ever, and the other ready threads of that priority never run.
\<close>

theorem yield_starves:
  assumes "rotation p x (y # rest) k"
  shows "\<exists>k'. yield_times n k = Some k' \<and>
    rt_current_thread k' = Some (if even n then x else y) \<and>
    tlists k' (PrioHead p) = (if even n then y else x) # rest"
  using rotation_yield_times [OF assms, of n] by (auto simp: rotation_def)

theorem yield_starves_witness:
  "\<exists>k'. yield_times 1000 sample_kernel = Some k' \<and>
    rt_current_thread k' = Some (if even (1000::nat) then 0 else 1) \<and>
    tlists k' (PrioHead 10) = (if even (1000::nat) then 1 else 0) # [2]"
proof (rule yield_starves)
  show "rotation 10 0 (1 # [2]) sample_kernel"
    unfolding rotation_def using sample_ready_inv
    by (simp add: sample_states) (simp add: sample_kernel_def sample_thread_def)
qed

end
