(* ===== verification/KService.thy ===== *)
theory KService
  imports Thread
begin

unbundle bit_operations_syntax

text \<open>
  The memory functions of the kernel (\<^verbatim>\<open>rt-thread/src/kservice.c\<close>), which all other parts use, and its error number. The
  memory is one array of bytes and pointers are offsets into it, so that source and destination can overlap; a
  \<^verbatim>\<open>long\<close> has four bytes, the least significant first. The theorem shows that the loops over words and
  blocks of words agree with copying at once, and for which overlaps.
\<close>

section \<open>Filling and copying\<close>

text \<open>The bytes of a word in memory.\<close>

definition long_bytes :: "u32 \<Rightarrow> bytes" where
  "long_bytes w = [ucast w, ucast (drop_bit 8 w), ucast (drop_bit 16 w), ucast (drop_bit 24 w)]"

definition store_long :: "bytes \<Rightarrow> nat \<Rightarrow> u32 \<Rightarrow> bytes option" where
  "store_long m a w = mem_write m a (long_bytes w)"

definition memset_buffer :: "u32 \<Rightarrow> u32" where
  "memset_buffer d = (let buffer = push_bit 8 d OR d in buffer OR push_bit 16 buffer)"

text \<open>The three loops of \<^verbatim>\<open>rt_memset\<close>; each gives the memory, the address behind, and the count left.\<close>

function memset_blocks :: "bytes \<Rightarrow> nat \<Rightarrow> u32 \<Rightarrow> nat \<Rightarrow> (bytes \<times> nat \<times> nat) option" where
  "memset_blocks m a w count =
     (if count \<ge> 16 then
        do { m1 \<leftarrow> store_long m a w; m2 \<leftarrow> store_long m1 (a + 4) w; m3 \<leftarrow> store_long m2 (a + 8) w;
             m4 \<leftarrow> store_long m3 (a + 12) w; memset_blocks m4 (a + 16) w (count - 16) }
      else Some (m, a, count))"
  by pat_completeness auto
termination by (relation "measure (\<lambda>(m, a, w, count). count)") auto

function memset_longs :: "bytes \<Rightarrow> nat \<Rightarrow> u32 \<Rightarrow> nat \<Rightarrow> (bytes \<times> nat \<times> nat) option" where
  "memset_longs m a w count =
     (if count \<ge> 4 then do { m1 \<leftarrow> store_long m a w; memset_longs m1 (a + 4) w (count - 4) }
      else Some (m, a, count))"
  by pat_completeness auto
termination by (relation "measure (\<lambda>(m, a, w, count). count)") auto

fun memset_bytes :: "bytes \<Rightarrow> nat \<Rightarrow> u8 \<Rightarrow> nat \<Rightarrow> bytes option" where
  "memset_bytes m a d 0 = Some m"
| "memset_bytes m a d (Suc count) = do { m1 \<leftarrow> mem_put m a d; memset_bytes m1 (a + 1) d count }"

definition rt_memset :: "bytes \<Rightarrow> nat \<Rightarrow> u32 \<Rightarrow> nat \<Rightarrow> bytes option" where
  "rt_memset m s c count =
     (let d = c AND 0xff in
      if \<not> count < 4 \<and> s mod 4 = 0 then
        do { (m1, a1, n1) \<leftarrow> memset_blocks m s (memset_buffer d) count;
             (m2, a2, n2) \<leftarrow> memset_longs m1 a1 (memset_buffer d) n1;
             memset_bytes m2 a2 (ucast d) n2 }
      else memset_bytes m s (ucast d) count)"

text \<open>One word, read as a whole and then stored.\<close>

definition copy_long :: "bytes \<Rightarrow> nat \<Rightarrow> nat \<Rightarrow> bytes option" where
  "copy_long m dst src = do { w \<leftarrow> mem_read m src 4; mem_write m dst w }"

function memcpy_blocks :: "bytes \<Rightarrow> nat \<Rightarrow> nat \<Rightarrow> nat \<Rightarrow> (bytes \<times> nat \<times> nat \<times> nat) option" where
  "memcpy_blocks m dst src len =
     (if len \<ge> 16 then
        do { m1 \<leftarrow> copy_long m dst src; m2 \<leftarrow> copy_long m1 (dst + 4) (src + 4); m3 \<leftarrow> copy_long m2 (dst + 8) (src + 8);
             m4 \<leftarrow> copy_long m3 (dst + 12) (src + 12); memcpy_blocks m4 (dst + 16) (src + 16) (len - 16) }
      else Some (m, dst, src, len))"
  by pat_completeness auto
termination by (relation "measure (\<lambda>(m, dst, src, len). len)") auto

function memcpy_longs :: "bytes \<Rightarrow> nat \<Rightarrow> nat \<Rightarrow> nat \<Rightarrow> (bytes \<times> nat \<times> nat \<times> nat) option" where
  "memcpy_longs m dst src len =
     (if len \<ge> 4 then do { m1 \<leftarrow> copy_long m dst src; memcpy_longs m1 (dst + 4) (src + 4) (len - 4) }
      else Some (m, dst, src, len))"
  by pat_completeness auto
termination by (relation "measure (\<lambda>(m, dst, src, len). len)") auto

fun memcpy_bytes :: "bytes \<Rightarrow> nat \<Rightarrow> nat \<Rightarrow> nat \<Rightarrow> bytes option" where
  "memcpy_bytes m dst src 0 = Some m"
| "memcpy_bytes m dst src (Suc len) =
     do { c \<leftarrow> mem_get m src; m1 \<leftarrow> mem_put m dst c; memcpy_bytes m1 (dst + 1) (src + 1) len }"

definition rt_memcpy :: "bytes \<Rightarrow> nat \<Rightarrow> nat \<Rightarrow> nat \<Rightarrow> bytes option" where
  "rt_memcpy m dst src count =
     (if \<not> count < 16 \<and> src mod 4 = 0 \<and> dst mod 4 = 0 then
        do { (m1, d1, s1, n1) \<leftarrow> memcpy_blocks m dst src count;
             (m2, d2, s2, n2) \<leftarrow> memcpy_longs m1 d1 s1 n1;
             memcpy_bytes m2 d2 s2 n2 }
      else memcpy_bytes m dst src count)"

text \<open>The loop of \<^verbatim>\<open>rt_memmove\<close> that copies from the end; \<open>tmp\<close> and \<open>s\<close> point behind the part left.\<close>

fun memmove_back :: "bytes \<Rightarrow> nat \<Rightarrow> nat \<Rightarrow> nat \<Rightarrow> bytes option" where
  "memmove_back m tmp s 0 = Some m"
| "memmove_back m tmp s (Suc n) =
     do { c \<leftarrow> mem_get m (s - 1); m1 \<leftarrow> mem_put m (tmp - 1) c; memmove_back m1 (tmp - 1) (s - 1) n }"

definition rt_memmove :: "bytes \<Rightarrow> nat \<Rightarrow> nat \<Rightarrow> nat \<Rightarrow> bytes option" where
  "rt_memmove m dest src n =
     (if src < dest \<and> dest < src + n then memmove_back m (dest + n) (src + n) n else memcpy_bytes m dest src n)"

fun rt_memcmp :: "bytes \<Rightarrow> nat \<Rightarrow> nat \<Rightarrow> nat \<Rightarrow> int option" where
  "rt_memcmp m cs ct 0 = Some 0"
| "rt_memcmp m cs ct (Suc count) =
     do { a \<leftarrow> mem_get m cs; b \<leftarrow> mem_get m ct;
          if uint a - uint b \<noteq> 0 then Some (uint a - uint b) else rt_memcmp m (cs + 1) (ct + 1) count }"

section \<open>Error numbers\<close>

text \<open>\<open>nest\<close> is the depth of interrupts; the global number is used in interrupts and before the first thread.\<close>

definition rt_get_errno :: "nat \<Rightarrow> int \<Rightarrow> kernel \<Rightarrow> int" where
  "rt_get_errno nest rt_errno k =
     (if nest \<noteq> 0 then rt_errno else case rt_thread_self k of None \<Rightarrow> rt_errno | Some t \<Rightarrow> error (threads k t))"

definition rt_set_errno :: "int \<Rightarrow> nat \<Rightarrow> int \<Rightarrow> kernel \<Rightarrow> int \<times> kernel" where
  "rt_set_errno e nest rt_errno k =
     (if nest \<noteq> 0 then (e, k)
      else case rt_thread_self k of None \<Rightarrow> (e, k) | Some t \<Rightarrow> (rt_errno, upd_thread t (\<lambda>th. th\<lparr>error := e\<rparr>) k))"

text \<open>The index into the table of the texts; negating the least integer overflows.\<close>

definition rt_strerror :: "int \<Rightarrow> nat option" where
  "rt_strerror e =
     (if e = - (2 ^ 31) then None
      else let e = (if e < 0 then - e else e) in Some (if e > 11 then 11 else nat e))"

lemma rt_get_set_errno: "rt_set_errno e nest g k = (g', k') \<Longrightarrow> rt_get_errno nest g' k' = e"
  by (auto simp: rt_set_errno_def rt_get_errno_def rt_thread_self_def upd_thread_def split: if_splits option.splits)

section \<open>Copying at once\<close>

definition copied :: "bytes \<Rightarrow> nat \<Rightarrow> nat \<Rightarrow> nat \<Rightarrow> bytes" where
  "copied m dst src n = take dst m @ take n (drop src m) @ drop (dst + n) m"

definition filled :: "bytes \<Rightarrow> nat \<Rightarrow> u8 \<Rightarrow> nat \<Rightarrow> bytes" where
  "filled m a d n = take a m @ replicate n d @ drop (a + n) m"

lemma length_copied [simp]: "dst + n \<le> length m \<Longrightarrow> src + n \<le> length m \<Longrightarrow> length (copied m dst src n) = length m"
  by (simp add: copied_def)

lemma length_filled [simp]: "a + n \<le> length m \<Longrightarrow> length (filled m a d n) = length m"
  by (simp add: filled_def)

lemma copied_nth:
  "dst + n \<le> length m \<Longrightarrow> src + n \<le> length m \<Longrightarrow> i < length m \<Longrightarrow>
   copied m dst src n ! i = (if dst \<le> i \<and> i < dst + n then m ! (src + (i - dst)) else m ! i)"
  by (auto simp: copied_def nth_append)

lemma filled_nth:
  "a + n \<le> length m \<Longrightarrow> i < length m \<Longrightarrow> filled m a d n ! i = (if a \<le> i \<and> i < a + n then d else m ! i)"
  by (auto simp: filled_def nth_append)

text \<open>Copying in two parts, the front first or the back first.\<close>

lemma copied_front:
  assumes "dst \<le> src \<or> src + (a + b) \<le> dst" and "dst + (a + b) \<le> length m" and "src + (a + b) \<le> length m"
  shows "copied (copied m dst src a) (dst + a) (src + a) b = copied m dst src (a + b)"
  using assms by (intro nth_equalityI) (auto simp: copied_nth)

lemma copied_back:
  assumes "src \<le> dst" and "dst + (a + b) \<le> length m" and "src + (a + b) \<le> length m"
  shows "copied (copied m (dst + a) (src + a) b) dst src a = copied m dst src (a + b)"
  using assms by (intro nth_equalityI) (auto simp: copied_nth)

lemma filled_front: "a + (n + k) \<le> length m \<Longrightarrow> filled (filled m a d n) (a + n) d k = filled m a d (n + k)"
  by (intro nth_equalityI) (auto simp: filled_nth)

lemma copied_0 [simp]: "copied m dst src 0 = m" "filled m a d 0 = m"
  by (simp_all add: copied_def filled_def)

text \<open>The single steps.\<close>

lemma copy_long_copied: "dst + 4 \<le> length m \<Longrightarrow> src + 4 \<le> length m \<Longrightarrow> copy_long m dst src = Some (copied m dst src 4)"
  by (simp add: copy_long_def mem_read_def mem_write_def copied_def)

lemma copy_byte_copied:
  "dst < length m \<Longrightarrow> src < length m \<Longrightarrow> mem_get m src \<bind> (\<lambda>c. mem_put m dst c) = Some (copied m dst src 1)"
  by (simp add: mem_get_def mem_put_def copied_def upd_conv_take_nth_drop take_Suc_conv_app_nth hd_drop_conv_nth take_drop)

lemma buffer_bit:
  assumes "i < 32" shows "bit (memset_buffer (take_bit 8 c)) i \<longleftrightarrow> bit c (i mod 8)"
proof -
  have b: "bit (memset_buffer (take_bit 8 c)) i \<longleftrightarrow>
      8 \<le> i \<and> i - 8 < 8 \<and> bit c (i - 8) \<or> i < 8 \<and> bit c i \<or>
      16 \<le> i \<and> (8 \<le> i - 16 \<and> i - 16 - 8 < 8 \<and> bit c (i - 16 - 8) \<or> i - 16 < 8 \<and> bit c (i - 16))"
    using assms unfolding memset_buffer_def Let_def bit_or_iff bit_push_bit_iff bit_take_bit_iff by auto
  consider "i < 8" | "8 \<le> i" "i < 16" | "16 \<le> i" "i < 24" | "24 \<le> i" "i < 32" using assms by linarith
  then show ?thesis unfolding b by cases (auto simp: le_mod_geq)
qed

lemma long_bytes_buffer: "long_bytes (memset_buffer (c AND 0xff)) = replicate 4 (ucast c)"
proof -
  have m: "c AND 0xff = take_bit 8 c" by (simp add: take_bit_eq_mask mask_eq_exp_minus_1)
  have "(ucast (drop_bit (8 * q) (memset_buffer (take_bit 8 c))) :: u8) = ucast c" if "q < 4" for q
  proof (rule bit_eqI)
    fix n assume "possible_bit TYPE(u8) n"
    then have n: "n < 8" by simp
    have "8 * q + n < 32" using that n by linarith
    moreover have "(8 * q + n) mod 8 = n" using n by simp
    ultimately have "bit (memset_buffer (take_bit 8 c)) (8 * q + n) = bit c n" using buffer_bit [of "8 * q + n" c] by simp
    then show "bit (ucast (drop_bit (8 * q) (memset_buffer (take_bit 8 c))) :: u8) n = bit (ucast c :: u8) n"
      using n by (simp add: bit_ucast_iff bit_drop_bit_eq)
  qed
  note byte = this
  have r: "replicate 4 x = [x, x, x, x]" for x :: u8 by (simp add: numeral_eq_Suc)
  show ?thesis using byte [of 0] byte [of 1] byte [of 2] byte [of 3] unfolding m long_bytes_def r by simp
qed

lemma store_long_filled:
  "a + 4 \<le> length m \<Longrightarrow> store_long m a (memset_buffer (c AND 0xff)) = Some (filled m a (ucast c) 4)"
  by (simp add: store_long_def mem_write_def filled_def long_bytes_buffer)

lemma put_byte_filled: "a < length m \<Longrightarrow> mem_put m a d = Some (filled m a d 1)"
  by (simp add: mem_put_def filled_def upd_conv_take_nth_drop)

text \<open>The loops.\<close>

lemma memcpy_bytes_ok:
  "dst \<le> src \<or> src + n \<le> dst \<Longrightarrow> dst + n \<le> length m \<Longrightarrow> src + n \<le> length m \<Longrightarrow>
   memcpy_bytes m dst src n = Some (copied m dst src n)"
proof (induction n arbitrary: m dst src)
  case (Suc n)
  have "memcpy_bytes m dst src (Suc n) = (mem_get m src \<bind> (\<lambda>c. mem_put m dst c)) \<bind> (\<lambda>m1. memcpy_bytes m1 (dst + 1) (src + 1) n)"
    by simp
  also have "\<dots> = memcpy_bytes (copied m dst src 1) (dst + 1) (src + 1) n"
    using Suc.prems by (subst copy_byte_copied) auto
  also have "\<dots> = Some (copied (copied m dst src 1) (dst + 1) (src + 1) n)" using Suc.prems by (intro Suc.IH) auto
  finally show ?case using Suc.prems by (simp add: copied_front [of dst src 1 n m, simplified])
qed simp

lemma memmove_back_ok:
  "src \<le> dst \<Longrightarrow> dst + n \<le> length m \<Longrightarrow> src + n \<le> length m \<Longrightarrow>
   memmove_back m (dst + n) (src + n) n = Some (copied m dst src n)"
proof (induction n arbitrary: m)
  case (Suc n)
  have "memmove_back m (dst + Suc n) (src + Suc n) (Suc n) =
      (mem_get m (src + n) \<bind> (\<lambda>c. mem_put m (dst + n) c)) \<bind> (\<lambda>m1. memmove_back m1 (dst + n) (src + n) n)"
    by simp
  also have "\<dots> = memmove_back (copied m (dst + n) (src + n) 1) (dst + n) (src + n) n"
    using Suc.prems by (subst copy_byte_copied) auto
  also have "\<dots> = Some (copied (copied m (dst + n) (src + n) 1) dst src n)" using Suc.prems by (intro Suc.IH) auto
  finally show ?case using Suc.prems copied_back [of src dst n 1 m] by simp
qed simp

lemma memcpy_longs_ok:
  "dst \<le> src \<or> src + len \<le> dst \<Longrightarrow> dst + len \<le> length m \<Longrightarrow> src + len \<le> length m \<Longrightarrow>
   \<exists>k \<le> len. memcpy_longs m dst src len = Some (copied m dst src k, dst + k, src + k, len - k)"
proof (induction m dst src len rule: memcpy_longs.induct)
  case (1 m dst src len)
  show ?case
  proof (cases "len \<ge> 4")
    case True
    have c: "copy_long m dst src = Some (copied m dst src 4)" using 1(2-4) True by (intro copy_long_copied) auto
    obtain k where k: "k \<le> len - 4" "memcpy_longs (copied m dst src 4) (dst + 4) (src + 4) (len - 4) =
        Some (copied (copied m dst src 4) (dst + 4) (src + 4) k, dst + 4 + k, src + 4 + k, len - 4 - k)"
      using "1.IH" [OF True c] 1(2-4) True by auto
    have "copied (copied m dst src 4) (dst + 4) (src + 4) k = copied m dst src (4 + k)" using 1(2-4) True k(1) by (intro copied_front) auto
    then show ?thesis using c k True by (subst memcpy_longs.simps) (auto intro!: exI [of _ "4 + k"])
  qed (auto intro!: exI [of _ 0])
qed

lemma copy_longs4:
  assumes "dst \<le> src \<or> src + 16 \<le> dst" and "dst + 16 \<le> length m" and "src + 16 \<le> length m"
  shows "copy_long m dst src \<bind> (\<lambda>m1. copy_long m1 (dst + 4) (src + 4) \<bind> (\<lambda>m2. copy_long m2 (dst + 8) (src + 8) \<bind>
    (\<lambda>m3. copy_long m3 (dst + 12) (src + 12) \<bind> f))) = f (copied m dst src 16)"
proof -
  have "copied (copied m dst src 4) (dst + 4) (src + 4) 4 = copied m dst src 8"
    "copied (copied m dst src 8) (dst + 8) (src + 8) 4 = copied m dst src 12"
    "copied (copied m dst src 12) (dst + 12) (src + 12) 4 = copied m dst src 16"
    using assms copied_front [of dst src 4 4 m] copied_front [of dst src 8 4 m] copied_front [of dst src 12 4 m] by auto
  then show ?thesis using assms by (simp add: copy_long_copied)
qed

lemma memcpy_blocks_ok:
  "dst \<le> src \<or> src + len \<le> dst \<Longrightarrow> dst + len \<le> length m \<Longrightarrow> src + len \<le> length m \<Longrightarrow>
   \<exists>k \<le> len. memcpy_blocks m dst src len = Some (copied m dst src k, dst + k, src + k, len - k)"
proof (induction len arbitrary: m dst src rule: less_induct)
  case (less len)
  show ?case
  proof (cases "len \<ge> 16")
    case True
    obtain k where k: "k \<le> len - 16" "memcpy_blocks (copied m dst src 16) (dst + 16) (src + 16) (len - 16) =
        Some (copied (copied m dst src 16) (dst + 16) (src + 16) k, dst + 16 + k, src + 16 + k, len - 16 - k)"
      using less.IH [of "len - 16" "dst + 16" "src + 16" "copied m dst src 16"] less.prems True by auto
    have "memcpy_blocks m dst src len = memcpy_blocks (copied m dst src 16) (dst + 16) (src + 16) (len - 16)"
      using True less.prems by (subst memcpy_blocks.simps) (subst copy_longs4; auto)
    moreover have "copied (copied m dst src 16) (dst + 16) (src + 16) k = copied m dst src (16 + k)"
      using less.prems True k(1) by (intro copied_front) auto
    ultimately show ?thesis using k True by (auto intro!: exI [of _ "16 + k"])
  next
    case False
    then show ?thesis by (subst memcpy_blocks.simps) (auto intro!: exI [of _ 0])
  qed
qed

lemma rt_memcpy_ok:
  assumes "dst \<le> src \<or> src + n \<le> dst" and "dst + n \<le> length m" and "src + n \<le> length m"
  shows "rt_memcpy m dst src n = Some (copied m dst src n)"
proof (cases "\<not> n < 16 \<and> src mod 4 = 0 \<and> dst mod 4 = 0")
  case True
  obtain k where k: "k \<le> n" "memcpy_blocks m dst src n = Some (copied m dst src k, dst + k, src + k, n - k)"
    using memcpy_blocks_ok [OF assms] by blast
  obtain l where l: "l \<le> n - k" "memcpy_longs (copied m dst src k) (dst + k) (src + k) (n - k) =
      Some (copied (copied m dst src k) (dst + k) (src + k) l, dst + k + l, src + k + l, n - k - l)"
    using memcpy_longs_ok [of "dst + k" "src + k" "n - k" "copied m dst src k"] assms k(1) by auto
  have kl: "copied (copied m dst src k) (dst + k) (src + k) l = copied m dst src (k + l)"
    using assms k(1) l(1) by (intro copied_front) auto
  have "memcpy_bytes (copied m dst src (k + l)) (dst + (k + l)) (src + (k + l)) (n - (k + l)) =
      Some (copied (copied m dst src (k + l)) (dst + (k + l)) (src + (k + l)) (n - (k + l)))"
    using assms k(1) l(1) by (intro memcpy_bytes_ok) auto
  also have "\<dots> = Some (copied m dst src n)"
    using assms k(1) l(1) copied_front [of dst src "k + l" "n - (k + l)" m] by simp
  finally show ?thesis using True k(2) l(2) kl by (simp add: rt_memcpy_def add.assoc)
next
  case False
  then show ?thesis using memcpy_bytes_ok [OF assms] by (auto simp: rt_memcpy_def)
qed

lemma rt_memmove_ok:
  assumes "dst + n \<le> length m" and "src + n \<le> length m"
  shows "rt_memmove m dst src n = Some (copied m dst src n)"
  using memcpy_bytes_ok [of dst src n m] memmove_back_ok [of src dst n m] assms by (auto simp: rt_memmove_def)

lemma memset_bytes_ok: "a + n \<le> length m \<Longrightarrow> memset_bytes m a d n = Some (filled m a d n)"
proof (induction n arbitrary: m a)
  case (Suc n)
  have "memset_bytes m a d (Suc n) = memset_bytes (filled m a d 1) (a + 1) d n"
    using Suc.prems by (simp add: put_byte_filled)
  also have "\<dots> = Some (filled (filled m a d 1) (a + 1) d n)" using Suc.prems by (intro Suc.IH) auto
  finally show ?case using Suc.prems filled_front [of a 1 n m d] by simp
qed simp

lemma memset_longs_ok:
  "a + n \<le> length m \<Longrightarrow> \<exists>k \<le> n. memset_longs m a (memset_buffer (c AND 0xff)) n = Some (filled m a (ucast c) k, a + k, n - k)"
proof (induction n arbitrary: m a rule: less_induct)
  case (less n)
  let ?w = "memset_buffer (c AND 0xff)"
  show ?case
  proof (cases "n \<ge> 4")
    case True
    obtain k where k: "k \<le> n - 4" "memset_longs (filled m a (ucast c) 4) (a + 4) ?w (n - 4) =
        Some (filled (filled m a (ucast c) 4) (a + 4) (ucast c) k, a + 4 + k, n - 4 - k)"
      using less.IH [of "n - 4" "a + 4" "filled m a (ucast c) 4"] less.prems True by auto
    have "memset_longs m a ?w n = memset_longs (filled m a (ucast c) 4) (a + 4) ?w (n - 4)"
      using True less.prems by (subst memset_longs.simps) (simp add: store_long_filled)
    moreover have "filled (filled m a (ucast c) 4) (a + 4) (ucast c) k = filled m a (ucast c) (4 + k)"
      using less.prems True k(1) by (intro filled_front) auto
    ultimately show ?thesis using k True by (auto intro!: exI [of _ "4 + k"])
  next
    case False
    then show ?thesis by (subst memset_longs.simps) (auto intro!: exI [of _ 0])
  qed
qed

lemma memset_blocks_ok:
  "a + n \<le> length m \<Longrightarrow> \<exists>k \<le> n. memset_blocks m a (memset_buffer (c AND 0xff)) n = Some (filled m a (ucast c) k, a + k, n - k)"
proof (induction n arbitrary: m a rule: less_induct)
  case (less n)
  let ?w = "memset_buffer (c AND 0xff)"
  show ?case
  proof (cases "n \<ge> 16")
    case True
    obtain k where k: "k \<le> n - 16" "memset_blocks (filled m a (ucast c) 16) (a + 16) ?w (n - 16) =
        Some (filled (filled m a (ucast c) 16) (a + 16) (ucast c) k, a + 16 + k, n - 16 - k)"
      using less.IH [of "n - 16" "a + 16" "filled m a (ucast c) 16"] less.prems True by auto
    have f: "filled (filled m a (ucast c) 4) (a + 4) (ucast c) 4 = filled m a (ucast c) 8"
      "filled (filled m a (ucast c) 8) (a + 8) (ucast c) 4 = filled m a (ucast c) 12"
      "filled (filled m a (ucast c) 12) (a + 12) (ucast c) 4 = filled m a (ucast c) 16"
      using less.prems True filled_front [of a 4 4 m] filled_front [of a 8 4 m] filled_front [of a 12 4 m] by auto
    have "memset_blocks m a ?w n = memset_blocks (filled m a (ucast c) 16) (a + 16) ?w (n - 16)"
      using True less.prems f by (subst memset_blocks.simps) (simp add: store_long_filled)
    moreover have "filled (filled m a (ucast c) 16) (a + 16) (ucast c) k = filled m a (ucast c) (16 + k)"
      using less.prems True k(1) by (intro filled_front) auto
    ultimately show ?thesis using k True by (auto intro!: exI [of _ "16 + k"])
  next
    case False
    then show ?thesis by (subst memset_blocks.simps) (auto intro!: exI [of _ 0])
  qed
qed

lemma rt_memset_ok:
  assumes "a + n \<le> length m"
  shows "rt_memset m a c n = Some (filled m a (ucast c) n)"
proof -
  have u: "(ucast (c AND 0xff) :: u8) = ucast c"
  proof -
    have "c AND 0xff = take_bit 8 c" by (simp add: take_bit_eq_mask mask_eq_exp_minus_1)
    then show ?thesis by (auto intro!: bit_eqI simp: bit_ucast_iff bit_take_bit_iff)
  qed
  show ?thesis
  proof (cases "\<not> n < 4 \<and> a mod 4 = 0")
    case True
    let ?w = "memset_buffer (c AND 0xff)" and ?d = "ucast c :: u8"
    obtain k where k: "k \<le> n" "memset_blocks m a ?w n = Some (filled m a ?d k, a + k, n - k)"
      using memset_blocks_ok [OF assms] by blast
    obtain l where l: "l \<le> n - k" "memset_longs (filled m a ?d k) (a + k) ?w (n - k) =
        Some (filled (filled m a ?d k) (a + k) ?d l, a + k + l, n - k - l)"
      using memset_longs_ok [of "a + k" "n - k" "filled m a ?d k"] assms k(1) by auto
    have kl: "filled (filled m a ?d k) (a + k) ?d l = filled m a ?d (k + l)" using assms k(1) l(1) by (intro filled_front) auto
    have "memset_bytes (filled m a ?d (k + l)) (a + (k + l)) ?d (n - (k + l)) =
        Some (filled (filled m a ?d (k + l)) (a + (k + l)) ?d (n - (k + l)))"
      using assms k(1) l(1) by (intro memset_bytes_ok) auto
    also have "\<dots> = Some (filled m a ?d n)" using assms k(1) l(1) filled_front [of a "k + l" "n - (k + l)" m ?d] by simp
    finally show ?thesis using True k(2) l(2) kl by (simp add: rt_memset_def add.assoc u Let_def)
  next
    case False
    then show ?thesis using memset_bytes_ok [OF assms] by (auto simp: rt_memset_def Let_def u)
  qed
qed

lemma rt_memcmp_ok:
  "cs + n \<le> length m \<Longrightarrow> ct + n \<le> length m \<Longrightarrow>
   \<exists>r. rt_memcmp m cs ct n = Some r \<and> (r = 0 \<longleftrightarrow> take n (drop cs m) = take n (drop ct m)) \<and>
     (r \<noteq> 0 \<longrightarrow> (\<exists>k < n. take k (drop cs m) = take k (drop ct m) \<and> r = uint (m ! (cs + k)) - uint (m ! (ct + k))))"
proof (induction n arbitrary: cs ct)
  case (Suc n)
  have d: "take (Suc j) (drop a m) = m ! a # take j (drop (a + 1) m)" if "a < length m" for a j
    using that by (simp add: Cons_nth_drop_Suc [symmetric])
  show ?case
  proof (cases "m ! cs = m ! ct")
    case True
    obtain r where r: "rt_memcmp m (cs + 1) (ct + 1) n = Some r"
      "r = 0 \<longleftrightarrow> take n (drop (cs + 1) m) = take n (drop (ct + 1) m)"
      "r \<noteq> 0 \<longrightarrow> (\<exists>k < n. take k (drop (cs + 1) m) = take k (drop (ct + 1) m) \<and> r = uint (m ! (cs + 1 + k)) - uint (m ! (ct + 1 + k)))"
      using Suc.IH [of "cs + 1" "ct + 1"] Suc.prems by auto
    have "r \<noteq> 0 \<longrightarrow> (\<exists>k < Suc n. take k (drop cs m) = take k (drop ct m) \<and> r = uint (m ! (cs + k)) - uint (m ! (ct + k)))"
    proof
      assume "r \<noteq> 0"
      then obtain k where "k < n" "take k (drop (cs + 1) m) = take k (drop (ct + 1) m)"
        "r = uint (m ! (cs + 1 + k)) - uint (m ! (ct + 1 + k))" using r(3) by blast
      then show "\<exists>k < Suc n. take k (drop cs m) = take k (drop ct m) \<and> r = uint (m ! (cs + k)) - uint (m ! (ct + k))"
        using Suc.prems True d [of cs k] d [of ct k] by (intro exI [of _ "Suc k"]) simp
    qed
    then show ?thesis using r(1,2) Suc.prems True d [of cs n] d [of ct n] by (simp add: mem_get_def)
  next
    case False
    then have "uint (m ! cs) - uint (m ! ct) \<noteq> 0" by (simp add: word_uint_eq_iff)
    then show ?thesis using Suc.prems False d [of cs n] d [of ct n] by (auto simp: mem_get_def intro!: exI [of _ 0])
  qed
qed simp

section \<open>Properties\<close>

text \<open>
  Property C29. The memory functions agree with filling and copying at once, and touch nothing else: \<^verbatim>\<open>rt_memset\<close>
  for every address and count; \<^verbatim>\<open>rt_memmove\<close> for every overlap; \<^verbatim>\<open>rt_memcpy\<close>, whether it copies blocks of words, words or
  bytes, when the areas are disjoint or the destination does not lie behind the start of the source.
  \<^verbatim>\<open>rt_memcmp\<close> returns 0 exactly for equal areas and otherwise the difference of the first bytes that differ.
\<close>

theorem memory_functions_correct:
  assumes "dst + n \<le> length m" and "src + n \<le> length m"
  shows "rt_memset m dst c n = Some (take dst m @ replicate n (ucast c) @ drop (dst + n) m) \<and>
    rt_memmove m dst src n = Some (take dst m @ take n (drop src m) @ drop (dst + n) m) \<and>
    (dst \<le> src \<or> src + n \<le> dst \<longrightarrow> rt_memcpy m dst src n = Some (take dst m @ take n (drop src m) @ drop (dst + n) m)) \<and>
    (\<exists>r. rt_memcmp m dst src n = Some r \<and> (r = 0 \<longleftrightarrow> take n (drop dst m) = take n (drop src m)) \<and>
      (r \<noteq> 0 \<longrightarrow> (\<exists>k < n. take k (drop dst m) = take k (drop src m) \<and> r = uint (m ! (dst + k)) - uint (m ! (src + k)))))"
  using rt_memset_ok [OF assms(1), of c] rt_memmove_ok [OF assms] rt_memcpy_ok [of dst src n m] rt_memcmp_ok [OF assms] assms
  by (simp add: filled_def copied_def)

theorem memory_functions_correct_witness:
  "rt_memcpy (map of_nat [0..<40]) 20 0 18 = Some (map of_nat ([0..<20] @ [0..<18] @ [38, 39])) \<and>
   rt_memmove (map of_nat [0..<8]) 2 0 4 = Some [0, 1, 0, 1, 2, 3, 6, 7]"
proof -
  let ?m = "map of_nat [0..<40] :: u8 list" and ?l = "map of_nat [0..<8] :: u8 list"
  have "rt_memcpy ?m 20 0 18 = Some (take 20 ?m @ take 18 (drop 0 ?m) @ drop (20 + 18) ?m)"
    using memory_functions_correct [of 20 18 ?m 0 0] by simp
  moreover have "take 20 ?m @ take 18 (drop 0 ?m) @ drop (20 + 18) ?m = map of_nat ([0..<20] @ [0..<18] @ [38, 39])" by code_simp
  moreover have "rt_memmove ?l 2 0 4 = Some (take 2 ?l @ take 4 (drop 0 ?l) @ drop (2 + 4) ?l)"
    using memory_functions_correct [of 2 4 ?l 0 0] by simp
  moreover have "take 2 ?l @ take 4 (drop 0 ?l) @ drop (2 + 4) ?l = [0, 1, 0, 1, 2, 3, 6, 7]" by code_simp
  ultimately show ?thesis by simp
qed

end
