(* ===== verification/RtList.thy ===== *)
theory RtList
  imports Prelude
begin

text \<open>
  The intrusive doubly linked list of the kernel (\<^verbatim>\<open>rt-thread/include/rtservice.h\<close>): nodes linked by
  \<^verbatim>\<open>next\<close> and \<^verbatim>\<open>prev\<close> in a ring through a head node, updated by pointer assignments. \<open>linked s h xs\<close>
  says that the ring of head \<open>h\<close> holds the nodes \<open>xs\<close>; the lemmas show that each pointer operation
  is the list operation on \<open>xs\<close> and leaves every other ring alone. The kernel theories work on these
  lists of nodes.
\<close>

section \<open>Operations\<close>

record 'n rt_list =
  list_next :: "'n \<Rightarrow> 'n"
  list_prev :: "'n \<Rightarrow> 'n"

definition set_next :: "'n \<Rightarrow> 'n \<Rightarrow> 'n rt_list \<Rightarrow> 'n rt_list" where
  "set_next a v s = s\<lparr>list_next := (list_next s)(a := v)\<rparr>"

definition set_prev :: "'n \<Rightarrow> 'n \<Rightarrow> 'n rt_list \<Rightarrow> 'n rt_list" where
  "set_prev a v s = s\<lparr>list_prev := (list_prev s)(a := v)\<rparr>"

definition rt_list_init :: "'n \<Rightarrow> 'n rt_list \<Rightarrow> 'n rt_list" where
  "rt_list_init l s = set_next l l (set_prev l l s)"

definition rt_list_insert_after :: "'n \<Rightarrow> 'n \<Rightarrow> 'n rt_list \<Rightarrow> 'n rt_list" where
  "rt_list_insert_after l n s =
     (let s1 = set_prev (list_next s l) n s;
          s2 = set_next n (list_next s1 l) s1;
          s3 = set_next l n s2
      in set_prev n l s3)"

definition rt_list_insert_before :: "'n \<Rightarrow> 'n \<Rightarrow> 'n rt_list \<Rightarrow> 'n rt_list" where
  "rt_list_insert_before l n s =
     (let s1 = set_next (list_prev s l) n s;
          s2 = set_prev n (list_prev s1 l) s1;
          s3 = set_prev l n s2
      in set_next n l s3)"

definition rt_list_remove :: "'n \<Rightarrow> 'n rt_list \<Rightarrow> 'n rt_list" where
  "rt_list_remove n s =
     (let s1 = set_prev (list_next s n) (list_prev s n) s;
          s2 = set_next (list_prev s1 n) (list_next s1 n) s1
      in set_next n n (set_prev n n s2))"

definition rt_list_isempty :: "'n \<Rightarrow> 'n rt_list \<Rightarrow> bool" where
  "rt_list_isempty l s \<longleftrightarrow> list_next s l = l"

text \<open>The loop of \<^verbatim>\<open>rt_list_len\<close>; on a damaged ring it may not return.\<close>

partial_function (option) list_len_loop :: "'n rt_list \<Rightarrow> 'n \<Rightarrow> 'n \<Rightarrow> nat \<Rightarrow> nat option" where
  "list_len_loop s l p len =
     (if list_next s p \<noteq> l then list_len_loop s l (list_next s p) (len + 1) else Some len)"

definition rt_list_len :: "'n \<Rightarrow> 'n rt_list \<Rightarrow> nat option" where
  "rt_list_len l s = list_len_loop s l l 0"

section \<open>The ring as a list\<close>

fun links :: "'n rt_list \<Rightarrow> 'n \<Rightarrow> 'n list \<Rightarrow> 'n \<Rightarrow> bool" where
  "links s a [] z \<longleftrightarrow> list_next s a = z \<and> list_prev s z = a"
| "links s a (x # xs) z \<longleftrightarrow> list_next s a = x \<and> list_prev s x = a \<and> links s x xs z"

definition linked :: "'n rt_list \<Rightarrow> 'n \<Rightarrow> 'n list \<Rightarrow> bool" where
  "linked s h xs \<longleftrightarrow> links s h xs h \<and> distinct (h # xs)"

named_theorems list_simps "reading the pointers after an assignment"

lemma set_next_prev [list_simps]:
  "list_next (set_next a v s) b = (if b = a then v else list_next s b)"
  "list_prev (set_next a v s) = list_prev s"
  "list_prev (set_prev a v s) b = (if b = a then v else list_prev s b)"
  "list_next (set_prev a v s) = list_next s"
  by (simp_all add: set_next_def set_prev_def)

lemma links_append: "links s a (xs @ y # ys) z \<longleftrightarrow> links s a xs y \<and> links s y ys z"
  by (induction xs arbitrary: a) auto

lemma links_frame:
  assumes "\<And>b. b \<in> set (a # xs) \<Longrightarrow> list_next s' b = list_next s b"
    and "\<And>b. b \<in> set (xs @ [z]) \<Longrightarrow> list_prev s' b = list_prev s b"
  shows "links s' a xs z \<longleftrightarrow> links s a xs z"
  using assms by (induction xs arbitrary: a) auto

lemma linked_frame:
  assumes "\<And>b. b \<in> set (h # xs) \<Longrightarrow> list_next s' b = list_next s b \<and> list_prev s' b = list_prev s b"
  shows "linked s' h xs \<longleftrightarrow> linked s h xs"
proof -
  have "links s' h xs h \<longleftrightarrow> links s h xs h" by (rule links_frame) (use assms in auto)
  then show ?thesis by (simp add: linked_def)
qed

lemma links_next: "links s a xs z \<Longrightarrow> list_next s a = hd (xs @ [z])"
  by (cases xs) auto

lemma links_prev: "links s a xs z \<Longrightarrow> list_prev s z = last (a # xs)"
  by (induction xs arbitrary: a) auto

lemma insert_after_pointers:
  assumes "n \<noteq> l" and "list_next s l \<noteq> n"
  shows "list_next (rt_list_insert_after l n s) b =
      (if b = l then n else if b = n then list_next s l else list_next s b)"
    and "list_prev (rt_list_insert_after l n s) b =
      (if b = n then l else if b = list_next s l then n else list_prev s b)"
  using assms by (simp_all add: rt_list_insert_after_def Let_def list_simps)

lemma links_insert_after:
  assumes l: "links s a xs z" and d: "distinct (a # xs)" "z \<notin> set xs" and n: "n \<notin> set (a # xs @ [z])"
  shows "links (rt_list_insert_after a n s) a (n # xs) z"
proof -
  let ?s = "rt_list_insert_after a n s"
  have ne: "n \<noteq> a" "list_next s a \<noteq> n"
    using n links_next [OF l] by (cases xs, auto)+
  note p = insert_after_pointers [OF ne]
  show ?thesis
  proof (cases xs)
    case Nil
    then show ?thesis using l n by (auto simp: p)
  next
    case (Cons x xs')
    have "links ?s x xs' z \<longleftrightarrow> links s x xs' z"
      by (rule links_frame) (use l d n Cons in \<open>auto simp: p\<close>)
    then show ?thesis using l n Cons by (auto simp: p)
  qed
qed

lemma linked_insert_head:
  assumes "linked s h xs" and "n \<notin> set (h # xs)"
  shows "linked (rt_list_insert_after h n s) h (n # xs)"
  using assms links_insert_after [of s h xs h n] by (auto simp: linked_def)

lemma linked_insert_behind:
  assumes "linked s h (xs @ y # ys)" and "n \<notin> set (h # xs @ y # ys)"
  shows "linked (rt_list_insert_after y n s) h (xs @ y # n # ys)"
proof -
  have l: "links s h xs y" "links s y ys h" and d: "distinct (h # xs @ y # ys)"
    using assms(1) by (auto simp: linked_def links_append)
  have ne: "n \<noteq> y" "list_next s y \<noteq> n" using assms(2) links_next [OF l(2)] by (cases ys, auto)+
  have nx: "list_next s y \<in> set (ys @ [h])" using links_next [OF l(2)] by (cases ys) auto
  have "links (rt_list_insert_after y n s) y (n # ys) h"
    using l(2) d assms(2) by (intro links_insert_after) auto
  moreover have "links (rt_list_insert_after y n s) h xs y \<longleftrightarrow> links s h xs y"
    by (rule links_frame) (use d assms(2) nx in \<open>auto simp: insert_after_pointers [OF ne]\<close>)
  ultimately show ?thesis
    using l d assms(2) by (auto simp: linked_def links_append)
qed

text \<open>Inserting before a node is inserting after its predecessor.\<close>

lemma insert_before_after:
  assumes "list_next s (list_prev s l) = l" and "n \<noteq> l" and "n \<noteq> list_prev s l"
  shows "rt_list_insert_before l n s = rt_list_insert_after (list_prev s l) n s"
  by (rule rt_list.equality)
    (use assms in \<open>auto simp: rt_list_insert_before_def rt_list_insert_after_def Let_def set_next_def
      set_prev_def fun_eq_iff\<close>)

lemma linked_prev:
  assumes "linked s h (xs @ y # ys)"
  shows "list_prev s y = last (h # xs)" and "list_next s (list_prev s y) = y"
proof -
  have "links s h xs y" using assms by (auto simp: linked_def links_append)
  then show p: "list_prev s y = last (h # xs)" by (rule links_prev)
  show "list_next s (list_prev s y) = y"
    using \<open>links s h xs y\<close> unfolding p by (induction xs arbitrary: h) auto
qed

lemma linked_insert_before:
  assumes "linked s h (xs @ y # ys)" and "n \<notin> set (h # xs @ y # ys)"
  shows "linked (rt_list_insert_before y n s) h (xs @ n # y # ys)"
proof -
  note pr = linked_prev [OF assms(1)]
  have "n \<noteq> list_prev s y" using assms(2) pr(1) by auto
  then have eq: "rt_list_insert_before y n s = rt_list_insert_after (last (h # xs)) n s"
    using insert_before_after [OF pr(2)] assms(2) pr(1) by auto
  show ?thesis
  proof (cases xs rule: rev_cases)
    case Nil
    then show ?thesis using assms linked_insert_head [of s h "y # ys" n] by (simp add: eq)
  next
    case (snoc us u)
    then show ?thesis using assms linked_insert_behind [of s h us u "y # ys" n] by (simp add: eq)
  qed
qed

lemma linked_insert_tail:
  assumes "linked s h xs" and "n \<notin> set (h # xs)"
  shows "linked (rt_list_insert_before h n s) h (xs @ [n])"
proof -
  have l: "links s h xs h" and d: "distinct (h # xs)" using assms(1) by (auto simp: linked_def)
  have pr: "list_prev s h = last (h # xs)" using links_prev [OF l] .
  have nx: "list_next s (last (h # xs)) = h"
    using l by (cases xs rule: rev_cases) (auto simp: links_append)
  have "n \<noteq> list_prev s h" using assms(2) pr by (cases xs) auto
  then have eq: "rt_list_insert_before h n s = rt_list_insert_after (last (h # xs)) n s"
    using insert_before_after [of s h n] pr nx assms(2) by auto
  show ?thesis
  proof (cases xs rule: rev_cases)
    case Nil
    then show ?thesis using assms linked_insert_head [of s h "[]" n] by (simp add: eq)
  next
    case (snoc us u)
    then show ?thesis using assms linked_insert_behind [of s h us u "[]" n] by (simp add: eq)
  qed
qed

lemma remove_pointers:
  assumes "list_next s n \<noteq> n" and "list_prev s n \<noteq> n"
  shows "list_next (rt_list_remove n s) b =
      (if b = n then n else if b = list_prev s n then list_next s n else list_next s b)"
    and "list_prev (rt_list_remove n s) b =
      (if b = n then n else if b = list_next s n then list_prev s n else list_prev s b)"
  using assms by (simp_all add: rt_list_remove_def Let_def list_simps)

lemma linked_remove:
  assumes "linked s h (xs @ n # ys)"
  shows "linked (rt_list_remove n s) h (xs @ ys)" and "linked (rt_list_remove n s) n []"
    and "b \<notin> set (h # xs @ n # ys) \<Longrightarrow>
      list_next (rt_list_remove n s) b = list_next s b \<and> list_prev (rt_list_remove n s) b = list_prev s b"
proof -
  let ?s = "rt_list_remove n s" and ?p = "last (h # xs)" and ?q = "hd (ys @ [h])"
  have l: "links s h xs n" "links s n ys h" and d: "distinct (h # xs @ n # ys)"
    using assms by (auto simp: linked_def links_append)
  have q: "list_next s n = ?q" and p: "list_prev s n = ?p"
    using links_next [OF l(2)] links_prev [OF l(1)] by simp_all
  have ne: "list_next s n \<noteq> n" "list_prev s n \<noteq> n"
    using d unfolding q p by (cases ys, auto)
  note ptr = remove_pointers [OF ne, unfolded p q]
  have inp: "?p \<in> set (h # xs)" and inq: "?q \<in> set (ys @ [h])" by (simp, cases ys) auto
  have second: "links ?s ?p ys h"
  proof (cases ys)
    case Nil
    then show ?thesis using d inp by (auto simp: ptr)
  next
    case (Cons y ys')
    have "links ?s y ys' h \<longleftrightarrow> links s y ys' h"
      by (rule links_frame) (use d inp Cons in \<open>auto simp: ptr\<close>)
    then show ?thesis using d inp Cons l(2) by (auto simp: ptr)
  qed
  show "linked ?s h (xs @ ys)"
  proof (cases xs rule: rev_cases)
    case Nil
    then show ?thesis using second d by (auto simp: linked_def)
  next
    case (snoc us u)
    have "links ?s h us u \<longleftrightarrow> links s h us u"
      by (rule links_frame) (use d inq snoc in \<open>auto simp: ptr\<close>)
    then show ?thesis using second d l(1) snoc by (auto simp: linked_def links_append)
  qed
  show "linked ?s n []" by (simp add: linked_def ptr)
  show "b \<notin> set (h # xs @ n # ys) \<Longrightarrow> list_next ?s b = list_next s b \<and> list_prev ?s b = list_prev s b"
    using inp inq by (auto simp: ptr)
qed

lemma linked_init: "linked (rt_list_init h s) h []"
  by (simp add: linked_def rt_list_init_def list_simps)

lemma linked_isempty: "linked s h xs \<Longrightarrow> rt_list_isempty h s \<longleftrightarrow> xs = []"
  by (cases xs) (auto simp: linked_def rt_list_isempty_def)

lemma list_len_loop_links:
  "links s p xs l \<Longrightarrow> l \<notin> set xs \<Longrightarrow> list_len_loop s l p len = Some (len + length xs)"
proof (induction xs arbitrary: p len)
  case Nil
  then show ?case by (subst list_len_loop.simps) simp
next
  case (Cons x xs)
  then show ?case by (subst list_len_loop.simps) auto
qed

section \<open>Properties\<close>

text \<open>
  Property C22. The pointer operations implement the list operations: on a ring of head \<open>h\<close> holding
  the nodes \<open>xs\<close>, inserting an unlinked node after or before the head adds it in front or at the
  end, removing a node takes it out and leaves it alone in its own ring, the emptiness test and the
  length loop (which returns) agree with the list, and a disjoint ring is not affected.
\<close>

theorem rt_list_refines_list:
  assumes "linked s h xs" and "n \<notin> set (h # xs)" and "linked s g zs"
    and "set (g # zs) \<inter> set (h # n # xs) = {}"
  shows "linked (rt_list_insert_after h n s) h (n # xs) \<and>
    linked (rt_list_insert_before h n s) h (xs @ [n]) \<and>
    (\<forall>us y ys. xs = us @ y # ys \<longrightarrow>
       linked (rt_list_remove y s) h (us @ ys) \<and> linked (rt_list_remove y s) y [] \<and>
       linked (rt_list_remove y s) g zs) \<and>
    (rt_list_isempty h s \<longleftrightarrow> xs = []) \<and> rt_list_len h s = Some (length xs) \<and>
    linked (rt_list_insert_after h n s) g zs"
proof -
  have l: "links s h xs h" "h \<notin> set xs" using assms(1) by (auto simp: linked_def)
  have nx: "list_next s h \<in> set (xs @ [h])" using links_next [OF l(1)] by (cases xs) auto
  have ne: "n \<noteq> h" "list_next s h \<noteq> n" using assms(2) nx by auto
  have "linked (rt_list_insert_after h n s) g zs"
    using assms(3,4) nx
    by (subst linked_frame [of _ _ _ s]) (auto simp: insert_after_pointers [OF ne])
  moreover have "linked (rt_list_remove y s) g zs" if "xs = us @ y # ys" for us y ys
  proof -
    have "list_next (rt_list_remove y s) b = list_next s b \<and> list_prev (rt_list_remove y s) b = list_prev s b"
      if "b \<in> set (g # zs)" for b
      by (rule linked_remove(3) [of s h us y ys]) (use assms that \<open>xs = us @ y # ys\<close> in auto)
    then show ?thesis using assms(3) linked_frame [of g zs "rt_list_remove y s" s] by blast
  qed
  moreover have "linked (rt_list_remove y s) h (us @ ys) \<and> linked (rt_list_remove y s) y []"
    if "xs = us @ y # ys" for us y ys
    using linked_remove(1,2) [OF assms(1) [unfolded that]] by simp
  ultimately show ?thesis
    using linked_insert_head [OF assms(1,2)] linked_insert_tail [OF assms(1,2)]
      linked_isempty [OF assms(1)] list_len_loop_links [OF l, of 0]
    by (simp add: rt_list_len_def)
qed

text \<open>A ring of head 0 with the nodes 1 and 2; node 3 is alone.\<close>

definition sample_ring :: "nat rt_list" where
  "sample_ring = rt_list_insert_before 0 2 (rt_list_insert_after 0 1
     (rt_list_init 3 (rt_list_init 4 (rt_list_init 0 \<lparr>list_next = id, list_prev = id\<rparr>))))"

theorem rt_list_refines_list_witness:
  "linked (rt_list_insert_after 0 3 sample_ring) 0 (3 # [1, 2]) \<and>
    linked (rt_list_insert_before 0 3 sample_ring) 0 ([1, 2] @ [3]) \<and>
    linked (rt_list_remove 1 sample_ring) 0 [2] \<and> linked (rt_list_remove 1 sample_ring) 1 [] \<and>
    linked (rt_list_remove 1 sample_ring) 4 [] \<and>
    \<not> rt_list_isempty 0 sample_ring \<and> rt_list_len 0 sample_ring = Some 2 \<and>
    linked (rt_list_insert_after 0 3 sample_ring) 4 []"
proof -
  have "linked sample_ring 0 [1, 2]" "linked sample_ring 4 []"
    by (simp_all add: sample_ring_def linked_def rt_list_insert_before_def rt_list_insert_after_def
      rt_list_init_def Let_def list_simps)
  from rt_list_refines_list [OF this(1) _ this(2), of 3] show ?thesis
    by (auto dest: spec [of _ "[]"])
qed

end
