(* ===== verification/Timer.thy ===== *)
theory Timer
  imports Thread
begin

text \<open>
  The timer service (\<^verbatim>\<open>rt-thread/src/timer.c\<close>), the clock (\<^verbatim>\<open>rt-thread/src/clock.c\<close>) and the sleeping
  calls of \<^verbatim>\<open>thread.c\<close>. Ticks are 32-bit words that wrap around; two ticks are compared by their
  difference. The timeout functions of application timers are a parameter: they act on the variables
  of the application (the environment \<open>e\<close>, of any type) and on the kernel. The theorems show that
  \<^verbatim>\<open>rt_timer_start\<close> keeps the timer list in the order of expiry in spite of wrap-around, that
  \<^verbatim>\<open>rt_timer_check\<close> returns, handles exactly the timers that are due and calls their functions in
  order, and that a sleeping thread wakes up at its tick.
\<close>

section \<open>Operations\<close>

text \<open>The walk of \<^verbatim>\<open>rt_timer_start\<close> along the list (skip list of one level).\<close>

fun timer_insert :: "(timer_id \<Rightarrow> u32) \<Rightarrow> timer_id \<Rightarrow> timer_id list \<Rightarrow> timer_id list" where
  "timer_insert tick i [] = [i]"
| "timer_insert tick i (t # ts) =
     (if tick t - tick i = 0 then t # timer_insert tick i ts
      else if tick t - tick i < RT_TICK_MAX div 2 then i # t # ts
      else t # timer_insert tick i ts)"

text \<open>The part of \<^verbatim>\<open>rt_timer_start\<close> before the timer thread is woken.\<close>

definition timer_link :: "timer_id \<Rightarrow> kernel \<Rightarrow> kernel" where
  "timer_link i k =
     (let k1 = timer_deactivate i (timer_remove i k);
          k2 = upd_timer i (\<lambda>tm. tm\<lparr>timeout_tick := rt_tick k1 + timer_init_tick tm\<rparr>) k1;
          tick = (\<lambda>j. timeout_tick (timers k2 j));
          k3 = (if timer_flag (timers k2 i) AND RT_TIMER_FLAG_SOFT_TIMER \<noteq> 0
                then k2\<lparr>soft_timer_list := timer_insert tick i (soft_timer_list k2)\<rparr>
                else k2\<lparr>timer_list := timer_insert tick i (timer_list k2)\<rparr>)
      in upd_timer i (\<lambda>tm. tm\<lparr>timer_flag := timer_flag tm OR RT_TIMER_FLAG_ACTIVATED\<rparr>) k3)"

definition rt_timer_start :: "timer_id \<Rightarrow> kernel \<Rightarrow> kernel option" where
  "rt_timer_start i k =
     (let k1 = timer_link i k
      in if timer_flag (timers k1 i) AND RT_TIMER_FLAG_SOFT_TIMER \<noteq> 0 \<and>
            \<not> soft_timer_busy k1 \<and> thread_state k1 (timer_thread k1) = RT_THREAD_SUSPEND
         then rt_schedule (snd (rt_thread_resume (timer_thread k1) k1))
         else Some k1)"

text \<open>
  \<^verbatim>\<open>rt_thread_sleep\<close> up to \<^verbatim>\<open>rt_schedule\<close>, and what it does when the thread runs again. The result of
  \<^verbatim>\<open>rt_thread_suspend\<close> is ignored by the code.
\<close>

definition rt_thread_sleep :: "u32 \<Rightarrow> kernel \<Rightarrow> kernel option" where
  "rt_thread_sleep tick k =
     do { t \<leftarrow> rt_thread_self k;
          (r, k1) \<leftarrow> rt_thread_suspend t (upd_thread t (\<lambda>th. th\<lparr>error := RT_EOK\<rparr>) k);
          (_, k2) \<leftarrow> rt_timer_control (ThreadTimer t) TIMER_SET_TIME tick k1;
          k3 \<leftarrow> rt_timer_start (ThreadTimer t) k2;
          rt_schedule k3 }"

definition rt_thread_sleep_wakeup :: "tid \<Rightarrow> kernel \<Rightarrow> int \<times> kernel" where
  "rt_thread_sleep_wakeup t k =
     (let k1 = (if error (threads k t) = - RT_ETIMEOUT
                then upd_thread t (\<lambda>th. th\<lparr>error := RT_EOK\<rparr>) k else k)
      in (error (threads k1 t), k1))"

definition rt_thread_delay :: "u32 \<Rightarrow> kernel \<Rightarrow> kernel option" where
  "rt_thread_delay tick k = rt_thread_sleep tick k"

text \<open>\<^verbatim>\<open>rt_thread_delay_until\<close> up to \<^verbatim>\<open>rt_schedule\<close>; the result is the new \<^verbatim>\<open>*tick\<close>.\<close>

definition rt_thread_delay_until :: "u32 \<Rightarrow> u32 \<Rightarrow> kernel \<Rightarrow> (u32 \<times> kernel) option" where
  "rt_thread_delay_until tick inc_tick k =
     do { t \<leftarrow> rt_thread_self k;
          let k0 = upd_thread t (\<lambda>th. th\<lparr>error := RT_EOK\<rparr>) k;
          let cur_tick = rt_tick k0;
          if cur_tick - tick < inc_tick then do {
            let tick' = tick + inc_tick;
            (r, k1) \<leftarrow> rt_thread_suspend t k0;
            (_, k2) \<leftarrow> rt_timer_control (ThreadTimer t) TIMER_SET_TIME (tick' - cur_tick) k1;
            k3 \<leftarrow> rt_timer_start (ThreadTimer t) k2;
            k4 \<leftarrow> rt_schedule k3;
            Some (tick', k4) }
          else Some (cur_tick, k0) }"

definition rt_tick_get :: "kernel \<Rightarrow> u32" where "rt_tick_get k = rt_tick k"

definition rt_tick_set :: "u32 \<Rightarrow> kernel \<Rightarrow> kernel" where "rt_tick_set tick k = k\<lparr>rt_tick := tick\<rparr>"

definition RT_TICK_PER_SECOND :: nat where "RT_TICK_PER_SECOND = 1000"

text \<open>The argument is a signed 32-bit value.\<close>

definition rt_tick_from_millisecond :: "int \<Rightarrow> u32" where
  "rt_tick_from_millisecond ms =
     (if ms < 0 then 0xffffffff
      else let tick = word_of_int (int RT_TICK_PER_SECOND * (ms div 1000)) :: u32
           in tick + word_of_int ((int RT_TICK_PER_SECOND * (ms mod 1000) + 999) div 1000))"

definition timer_list_next_timeout :: "kernel \<Rightarrow> timer_id list \<Rightarrow> u32 option" where
  "timer_list_next_timeout k ts =
     (case ts of [] \<Rightarrow> None | i # _ \<Rightarrow> Some (timeout_tick (timers k i)))"

definition rt_timer_next_timeout_tick :: "kernel \<Rightarrow> u32" where
  "rt_timer_next_timeout_tick k =
     (case timer_list_next_timeout k (timer_list k) of None \<Rightarrow> RT_TICK_MAX | Some t \<Rightarrow> t)"

text \<open>
  \<^verbatim>\<open>t->timeout_func(t->parameter)\<close>; \<open>cb\<close> are the functions of the application timers. The function of a
  thread's timer is \<^verbatim>\<open>_thread_timeout\<close>.
\<close>

type_synonym 'e callbacks = "nat \<Rightarrow> 'e \<Rightarrow> kernel \<Rightarrow> ('e \<times> kernel) option"

definition timeout_func :: "'e callbacks \<Rightarrow> timer_id \<Rightarrow> 'e \<Rightarrow> kernel \<Rightarrow> ('e \<times> kernel) option" where
  "timeout_func cb i e k =
     (case i of
        ThreadTimer t \<Rightarrow> do { k' \<leftarrow> thread_timeout t k; Some (e, k') }
      | UserTimer n \<Rightarrow> cb n e k)"

definition timer_due :: "u32 \<Rightarrow> kernel \<Rightarrow> timer_id \<Rightarrow> bool" where
  "timer_due now k i \<longleftrightarrow> now - timeout_tick (timers k i) < RT_TICK_MAX div 2"

text \<open>One round of the loop for the timer \<open>i\<close> that is due.\<close>

definition timer_fire :: "'e callbacks \<Rightarrow> timer_id \<Rightarrow> 'e \<Rightarrow> kernel \<Rightarrow> ('e \<times> kernel) option" where
  "timer_fire cb i e k =
     do { let k1 = timer_remove i k;
          let k2 = (if timer_flag (timers k1 i) AND RT_TIMER_FLAG_PERIODIC = 0
                    then timer_deactivate i k1 else k1);
          (e', k4) \<leftarrow> timeout_func cb i e (k2\<lparr>check_list := i # check_list k2\<rparr>);
          if check_list k4 = [] then Some (e', k4)
          else do {
            let k5 = timer_remove i k4;
            if timer_flag (timers k5 i) AND RT_TIMER_FLAG_PERIODIC \<noteq> 0 \<and> timer_active k5 i
            then do { k6 \<leftarrow> rt_timer_start i (timer_deactivate i k5); Some (e', k6) }
            else Some (e', k5) } }"

text \<open>
  \<^verbatim>\<open>rt_timer_check\<close>: the current tick is read at the start and after each timeout function. The loop
  does not end when a periodic timer has period 0.
\<close>

partial_function (option) timer_check_loop ::
  "'e callbacks \<Rightarrow> u32 \<Rightarrow> 'e \<Rightarrow> kernel \<Rightarrow> ('e \<times> kernel) option" where
  "timer_check_loop cb current_tick e k =
     (case timer_list k of
        [] \<Rightarrow> Some (e, k)
      | i # _ \<Rightarrow>
        (if timer_due current_tick k i
         then do { x \<leftarrow> timer_fire cb i e k; timer_check_loop cb (rt_tick (snd x)) (fst x) (snd x) }
         else Some (e, k)))"

definition rt_timer_check :: "'e callbacks \<Rightarrow> 'e \<Rightarrow> kernel \<Rightarrow> ('e \<times> kernel) option" where
  "rt_timer_check cb e k = timer_check_loop cb (rt_tick k) e k"

definition rt_tick_increase :: "'e callbacks \<Rightarrow> 'e \<Rightarrow> kernel \<Rightarrow> ('e \<times> kernel) option" where
  "rt_tick_increase cb e k =
     do { let k1 = k\<lparr>rt_tick := rt_tick k + 1\<rparr>;
          t \<leftarrow> rt_thread_self k1;
          let k2 = upd_thread t (\<lambda>th. th\<lparr>remaining_tick := remaining_tick th - 1\<rparr>) k1;
          k3 \<leftarrow> (if remaining_tick (threads k2 t) = 0
                 then rt_schedule (upd_thread t (\<lambda>th. th\<lparr>remaining_tick := init_tick th,
                        stat := stat th OR RT_THREAD_STAT_YIELD\<rparr>) k2)
                 else Some k2);
          rt_timer_check cb e k3 }"

text \<open>
  The soft timers are checked by the timer thread, with interrupts enabled during the timeout
  function; \<open>cb\<close> stands for all that happens meanwhile.
\<close>

definition soft_timer_fire :: "'e callbacks \<Rightarrow> timer_id \<Rightarrow> 'e \<Rightarrow> kernel \<Rightarrow> ('e \<times> kernel) option" where
  "soft_timer_fire cb i e k =
     do { let k1 = timer_remove i k;
          let k2 = (if timer_flag (timers k1 i) AND RT_TIMER_FLAG_PERIODIC = 0
                    then timer_deactivate i k1 else k1);
          (e', k4) \<leftarrow> timeout_func cb i e
            (k2\<lparr>soft_check_list := i # soft_check_list k2, soft_timer_busy := True\<rparr>);
          let k4' = k4\<lparr>soft_timer_busy := False\<rparr>;
          if soft_check_list k4' = [] then Some (e', k4')
          else do {
            let k5 = timer_remove i k4';
            if timer_flag (timers k5 i) AND RT_TIMER_FLAG_PERIODIC \<noteq> 0 \<and> timer_active k5 i
            then do { k6 \<leftarrow> rt_timer_start i (timer_deactivate i k5); Some (e', k6) }
            else Some (e', k5) } }"

partial_function (option) rt_soft_timer_check ::
  "'e callbacks \<Rightarrow> 'e \<Rightarrow> kernel \<Rightarrow> ('e \<times> kernel) option" where
  "rt_soft_timer_check cb e k =
     (case soft_timer_list k of
        [] \<Rightarrow> Some (e, k)
      | i # _ \<Rightarrow>
        (if timer_due (rt_tick k) k i
         then do { x \<leftarrow> soft_timer_fire cb i e k; rt_soft_timer_check cb (fst x) (snd x) }
         else Some (e, k)))"

text \<open>
  The body of the loop of \<^verbatim>\<open>_timer_thread_entry\<close> up to the point where the timer thread gives up the
  processor; when it runs again it calls \<^verbatim>\<open>rt_soft_timer_check\<close>.
\<close>

definition timer_thread_wait :: "kernel \<Rightarrow> kernel option" where
  "timer_thread_wait k =
     (case timer_list_next_timeout k (soft_timer_list k) of
        None \<Rightarrow> do { t \<leftarrow> rt_thread_self k; (_, k1) \<leftarrow> rt_thread_suspend t k; rt_schedule k1 }
      | Some next_timeout \<Rightarrow>
          (let current_tick = rt_tick k
           in if next_timeout - current_tick < RT_TICK_MAX div 2
              then rt_thread_delay (next_timeout - current_tick) k
              else Some k))"

definition RT_TIMER_THREAD_PRIO :: nat where "RT_TIMER_THREAD_PRIO = 4"

definition rt_system_timer_thread_init :: "kernel \<Rightarrow> kernel option" where
  "rt_system_timer_thread_init k =
     do { k1 \<leftarrow> rt_thread_init (timer_thread k) RT_TIMER_THREAD_PRIO 10 (k\<lparr>soft_timer_list := []\<rparr>);
          (_, k2) \<leftarrow> rt_thread_startup (timer_thread k) k1;
          Some k2 }"

definition rt_system_timer_init :: "kernel \<Rightarrow> kernel" where
  "rt_system_timer_init k = k\<lparr>timer_list := []\<rparr>"

section \<open>Comparing ticks that wrap around\<close>

text \<open>
  \<open>since b tick\<close> is the time from the base \<open>b\<close> to \<open>tick\<close>. Two ticks less than half the range after the
  base compare as numbers by the sign test of the code.
\<close>

definition since :: "u32 \<Rightarrow> u32 \<Rightarrow> nat" where
  "since b tick = unat (tick - b)"

lemma half_range: "RT_TICK_MAX div 2 = 0x7fffffff"
  by (simp add: RT_TICK_MAX_def)

lemma tick_compare:
  assumes "since b t < since b i + 0x7fffffff" and "since b i \<le> since b t + 0x7fffffff"
  shows tick_later: "t - i < RT_TICK_MAX div 2 \<longleftrightarrow> since b i \<le> since b t"
    and tick_same: "t - i = 0 \<longleftrightarrow> since b t = since b i"
proof -
  define x where "x = t - b"
  define y where "y = i - b"
  have eq: "t - i = x - y" by (simp add: x_def y_def)
  have h: "unat x < unat y + 0x7fffffff" "unat y \<le> unat x + 0x7fffffff"
    using assms by (simp_all add: since_def x_def y_def)
  show "t - i = 0 \<longleftrightarrow> since b t = since b i"
    unfolding since_def eq x_def [symmetric] y_def [symmetric] by (metis right_minus_eq word_unat_eq_iff)
  have "unat (x - y) = (if unat y \<le> unat x then unat x - unat y else unat x + 2 ^ 32 - unat y)"
    using unat_sub_if_size [of x y] by (simp add: word_size word_le_nat_alt)
  then have "unat (x - y) < 0x7fffffff \<longleftrightarrow> unat y \<le> unat x"
    using h by auto
  then show "t - i < RT_TICK_MAX div 2 \<longleftrightarrow> since b i \<le> since b t"
    unfolding half_range eq since_def x_def [symmetric] y_def [symmetric]
    by (simp add: word_less_nat_alt)
qed

text \<open>
  The order of a timer list: no timer twice, timeouts ascending, all of them less than half the range
  after \<open>b\<close>.
\<close>

definition timeouts_ordered :: "u32 \<Rightarrow> (timer_id \<Rightarrow> u32) \<Rightarrow> timer_id list \<Rightarrow> bool" where
  "timeouts_ordered b tick ts \<longleftrightarrow>
     distinct ts \<and> sorted (map (\<lambda>i. since b (tick i)) ts) \<and> (\<forall>i \<in> set ts. since b (tick i) < 0x7fffffff)"

lemma timer_insert_step:
  assumes "since b (tick t) < 0x7fffffff" and "since b (tick i) < 0x7fffffff"
  shows "timer_insert tick i (t # ts) =
    (if since b (tick t) \<le> since b (tick i) then t # timer_insert tick i ts else i # t # ts)"
proof -
  have "tick t - tick i < RT_TICK_MAX div 2 \<longleftrightarrow> since b (tick i) \<le> since b (tick t)"
    and "tick t - tick i = 0 \<longleftrightarrow> since b (tick t) = since b (tick i)"
    using assms by (intro tick_later tick_same; simp)+
  then show ?thesis by (simp del: right_minus_eq)
qed

lemma timer_insert_position:
  assumes "\<forall>t \<in> set ts. since b (tick t) < 0x7fffffff" and "since b (tick i) < 0x7fffffff"
  defines "earlier \<equiv> \<lambda>t. since b (tick t) \<le> since b (tick i)"
  shows "timer_insert tick i ts = takeWhile earlier ts @ i # dropWhile earlier ts"
  using assms(1)
proof (induction ts)
  case (Cons t ts)
  then show ?case
    using timer_insert_step [of b tick t i ts] assms(2) by (simp add: earlier_def del: timer_insert.simps)
qed (simp add: earlier_def)

lemma timer_insert_set: "set (timer_insert tick i ts) = insert i (set ts)"
  by (induction ts) auto

lemma timer_insert_distinct: "distinct ts \<Longrightarrow> i \<notin> set ts \<Longrightarrow> distinct (timer_insert tick i ts)"
  by (induction ts) (auto simp: timer_insert_set)

lemma timer_insert_ordered:
  assumes "timeouts_ordered b tick ts" and "i \<notin> set ts" and "since b (tick i) < 0x7fffffff"
  shows "timeouts_ordered b tick (timer_insert tick i ts)"
proof -
  have "sorted (map (\<lambda>i. since b (tick i)) (timer_insert tick i ts))"
    if "sorted (map (\<lambda>i. since b (tick i)) ts)" and "\<forall>t \<in> set ts. since b (tick t) < 0x7fffffff"
    using that
  proof (induction ts)
    case (Cons t ts)
    then show ?case
      using timer_insert_step [of b tick t i ts] assms(3)
      by (auto simp: timer_insert_set simp del: timer_insert.simps)
  qed simp
  then show ?thesis
    using assms by (auto simp: timeouts_ordered_def timer_insert_set timer_insert_distinct)
qed

section \<open>Starting a timer\<close>

lemma flag_activate:
  "((f AND NOT RT_TIMER_FLAG_ACTIVATED) OR RT_TIMER_FLAG_ACTIVATED) AND RT_TIMER_FLAG_SOFT_TIMER =
     f AND RT_TIMER_FLAG_SOFT_TIMER"
  "((f AND NOT RT_TIMER_FLAG_ACTIVATED) OR RT_TIMER_FLAG_ACTIVATED) AND RT_TIMER_FLAG_PERIODIC =
     f AND RT_TIMER_FLAG_PERIODIC"
  "((f AND NOT RT_TIMER_FLAG_ACTIVATED) OR RT_TIMER_FLAG_ACTIVATED) AND RT_TIMER_FLAG_ACTIVATED \<noteq> 0"
  "(f AND NOT RT_TIMER_FLAG_ACTIVATED) AND RT_TIMER_FLAG_SOFT_TIMER = f AND RT_TIMER_FLAG_SOFT_TIMER"
  "(f AND NOT RT_TIMER_FLAG_ACTIVATED) AND RT_TIMER_FLAG_PERIODIC = f AND RT_TIMER_FLAG_PERIODIC"
  "(f AND NOT RT_TIMER_FLAG_ACTIVATED) AND RT_TIMER_FLAG_ACTIVATED = 0"
  "((f AND NOT RT_TIMER_FLAG_ACTIVATED) AND NOT RT_TIMER_FLAG_ACTIVATED) = f AND NOT RT_TIMER_FLAG_ACTIVATED"
proof -
  have *: "RT_TIMER_FLAG_ACTIVATED AND RT_TIMER_FLAG_SOFT_TIMER = 0"
    "RT_TIMER_FLAG_ACTIVATED AND RT_TIMER_FLAG_PERIODIC = 0"
    by (simp_all add: timer_flag_defs)
  show "((f AND NOT RT_TIMER_FLAG_ACTIVATED) OR RT_TIMER_FLAG_ACTIVATED) AND RT_TIMER_FLAG_SOFT_TIMER =
     f AND RT_TIMER_FLAG_SOFT_TIMER"
    "((f AND NOT RT_TIMER_FLAG_ACTIVATED) OR RT_TIMER_FLAG_ACTIVATED) AND RT_TIMER_FLAG_PERIODIC =
     f AND RT_TIMER_FLAG_PERIODIC"
    using or_unmasked_and [OF *(1) *(1)] or_unmasked_and [OF *(2) *(2)] by (simp_all add: or.commute)
  show "(f AND NOT RT_TIMER_FLAG_ACTIVATED) AND RT_TIMER_FLAG_SOFT_TIMER = f AND RT_TIMER_FLAG_SOFT_TIMER"
    "(f AND NOT RT_TIMER_FLAG_ACTIVATED) AND RT_TIMER_FLAG_PERIODIC = f AND RT_TIMER_FLAG_PERIODIC"
    using or_unmasked_and [of 0, OF _ *(1)] or_unmasked_and [of 0, OF _ *(2)] by simp_all
  show "((f AND NOT RT_TIMER_FLAG_ACTIVATED) OR RT_TIMER_FLAG_ACTIVATED) AND RT_TIMER_FLAG_ACTIVATED \<noteq> 0"
    using or_masked_and [of RT_TIMER_FLAG_ACTIVATED f RT_TIMER_FLAG_ACTIVATED]
    by (simp add: or.commute RT_TIMER_FLAG_ACTIVATED_def)
qed (simp_all add: and.assoc)

definition hard_timer :: "kernel \<Rightarrow> timer_id \<Rightarrow> bool" where
  "hard_timer k i \<longleftrightarrow> timer_flag (timers k i) AND RT_TIMER_FLAG_SOFT_TIMER = 0"

definition periodic :: "kernel \<Rightarrow> timer_id \<Rightarrow> bool" where
  "periodic k i \<longleftrightarrow> timer_flag (timers k i) AND RT_TIMER_FLAG_PERIODIC \<noteq> 0"

text \<open>The timer record \<^verbatim>\<open>rt_timer_start\<close> leaves.\<close>

definition started :: "u32 \<Rightarrow> rt_timer \<Rightarrow> rt_timer" where
  "started now tm = tm\<lparr>timeout_tick := now + timer_init_tick tm,
     timer_flag := (timer_flag tm AND NOT RT_TIMER_FLAG_ACTIVATED) OR RT_TIMER_FLAG_ACTIVATED\<rparr>"

lemma timer_link_effect:
  fixes k :: kernel and i :: timer_id
  defines "k' \<equiv> timer_link i k" and "tick \<equiv> \<lambda>j. timeout_tick (((timers k)(i := started (rt_tick k) (timers k i))) j)"
  shows "timers k' = (timers k)(i := started (rt_tick k) (timers k i))"
    and "timer_list k' = (if hard_timer k i then timer_insert tick i (removeAll i (timer_list k))
                          else removeAll i (timer_list k))"
    and "soft_timer_list k' = (if hard_timer k i then removeAll i (soft_timer_list k)
                               else timer_insert tick i (removeAll i (soft_timer_list k)))"
    and "check_list k' = removeAll i (check_list k)" and "soft_check_list k' = removeAll i (soft_check_list k)"
    and "threads k' = threads k" and "tlists k' = tlists k" and "rt_current_thread k' = rt_current_thread k"
    and "rt_thread_ready_priority_group k' = rt_thread_ready_priority_group k"
    and "rt_scheduler_lock_nest k' = rt_scheduler_lock_nest k" and "rt_tick k' = rt_tick k"
    and "soft_timer_busy k' = soft_timer_busy k" and "timer_thread k' = timer_thread k"
proof -
  have ins: "timer_insert f i ts = timer_insert g i ts" if "\<And>j. f j = g j" for f g ts
    using that by (metis ext)
  show "timer_list k' = (if hard_timer k i then timer_insert tick i (removeAll i (timer_list k))
                          else removeAll i (timer_list k))"
    and "soft_timer_list k' = (if hard_timer k i then removeAll i (soft_timer_list k)
                               else timer_insert tick i (removeAll i (soft_timer_list k)))"
    unfolding k'_def timer_link_def Let_def timer_deactivate_def
    by (auto simp: kernel_simps hard_timer_def flag_activate tick_def started_def intro!: ins)
qed (simp_all add: k'_def timer_link_def Let_def timer_deactivate_def kernel_simps started_def flag_activate)

lemma timer_link_active: "timer_active (timer_link i k) i"
proof -
  have "timer_flag (timers (timer_link i k) i) =
      (timer_flag (timers k i) AND NOT RT_TIMER_FLAG_ACTIVATED) OR RT_TIMER_FLAG_ACTIVATED"
    by (simp add: timer_link_effect started_def)
  then show ?thesis using flag_activate(3) unfolding timer_active_def by metis
qed

lemma hard_timer_start:
  assumes "hard_timer k i"
  shows "rt_timer_start i k = Some (timer_link i k)"
  using assms by (simp add: rt_timer_start_def timer_link_effect hard_timer_def started_def flag_activate Let_def)

text \<open>Only the timeout of the timer itself changes, so the order of the other timers is the same.\<close>

lemma timeouts_ordered_cong:
  "(\<And>j. j \<in> set ts \<Longrightarrow> tick j = tick' j) \<Longrightarrow> timeouts_ordered b tick ts = timeouts_ordered b tick' ts"
  unfolding timeouts_ordered_def by (auto cong: map_cong)

lemma timeouts_ordered_remove:
  "timeouts_ordered b tick ts \<Longrightarrow> timeouts_ordered b tick (removeAll i ts)"
  unfolding timeouts_ordered_def removeAll_filter_not_eq by (auto simp: sorted_filter)

lemma timer_link_ordered:
  assumes "timeouts_ordered b (\<lambda>j. timeout_tick (timers k j)) (timer_list k)" and "hard_timer k i"
    and "since b (rt_tick k + timer_init_tick (timers k i)) < 0x7fffffff"
  shows "timeouts_ordered b (\<lambda>j. timeout_tick (timers (timer_link i k) j)) (timer_list (timer_link i k))"
proof -
  let ?tick = "\<lambda>j. timeout_tick (((timers k)(i := started (rt_tick k) (timers k i))) j)"
  have "timeouts_ordered b ?tick (removeAll i (timer_list k))"
    using timeouts_ordered_remove [OF assms(1), of i]
    by (subst timeouts_ordered_cong [of _ _ "\<lambda>j. timeout_tick (timers k j)"]) auto
  then have "timeouts_ordered b ?tick (timer_insert ?tick i (removeAll i (timer_list k)))"
    using assms(3) by (intro timer_insert_ordered) (simp_all add: started_def)
  then show ?thesis using assms(2) by (simp add: timer_link_effect)
qed

section \<open>Checking the timers\<close>

lemma thread_timeout_frame:
  assumes "thread_timeout t k = Some k'"
  shows "rt_tick k' = rt_tick k" and "timers k' = timers k" and "timer_list k' = timer_list k"
    and "check_list k' = check_list k" and "u \<noteq> t \<Longrightarrow> error (threads k' u) = error (threads k u)"
proof -
  let ?k = "rt_schedule_insert_thread t (list_remove t (upd_thread t (\<lambda>th. th\<lparr>error := - RT_ETIMEOUT\<rparr>) k))"
  have k': "rt_schedule ?k = Some k'" using assms by (simp add: thread_timeout_def split: if_splits)
  show "rt_tick k' = rt_tick k" "timers k' = timers k" "timer_list k' = timer_list k" "check_list k' = check_list k"
    using rt_schedule_frame [OF k'] by (simp_all add: kernel_simps)
  have "error (threads ?k u) = error (threads k u)" if "u \<noteq> t"
    using that by (simp add: rt_schedule_insert_thread_def Let_def kernel_simps)
  then show "u \<noteq> t \<Longrightarrow> error (threads k' u) = error (threads k u)"
    using rt_schedule_error [OF k', of u] by simp
qed

lemma thread_timeout_states:
  assumes inv: "ready_inv k" and st: "thread_state k t = RT_THREAD_SUSPEND"
    and cur: "rt_current_thread k \<noteq> None" and k': "thread_timeout t k = Some k'" and "u \<noteq> t"
  shows "thread_state k u = RT_THREAD_SUSPEND \<Longrightarrow> thread_state k' u = RT_THREAD_SUSPEND"
    and "thread_state k' u \<in> {RT_THREAD_READY, RT_THREAD_RUNNING} \<longleftrightarrow>
         thread_state k u \<in> {RT_THREAD_READY, RT_THREAD_RUNNING}"
proof -
  note prep = timeout_prepared [OF inv st]
  obtain c where c: "rt_current_thread k = Some c" using cur by auto
  have s: "rt_schedule (timeout_ready t k) = Some k'"
    using k' by (simp add: thread_timeout_def timeout_ready_def split: if_splits)
  have c': "rt_current_thread (timeout_ready t k) = Some c" using prep(3) c by simp
  have u: "thread_state (timeout_ready t k) u = thread_state k u" using prep(2) \<open>u \<noteq> t\<close> by simp
  show "thread_state k u = RT_THREAD_SUSPEND \<Longrightarrow> thread_state k' u = RT_THREAD_SUSPEND"
    using rt_schedule_suspended [OF prep(1) c' s] u by simp
  show "thread_state k' u \<in> {RT_THREAD_READY, RT_THREAD_RUNNING} \<longleftrightarrow>
         thread_state k u \<in> {RT_THREAD_READY, RT_THREAD_RUNNING}"
    using rt_schedule_ok [OF prep(1) c'] s u by (metis option.inject)
qed

text \<open>
  What is asked of the timeout functions of the application: the function of timer \<open>n\<close> returns, does
  \<open>g n\<close> to the variables of the application, and leaves the scheduler state and the timers as they are.
  \<open>run_callbacks g is\<close> is what the functions of the timers \<open>is\<close> do, one after the other.
\<close>

definition callbacks_passive :: "(nat \<Rightarrow> 'e \<Rightarrow> 'e) \<Rightarrow> 'e callbacks \<Rightarrow> bool" where
  "callbacks_passive g cb \<longleftrightarrow>
     (\<forall>n e k. ready_inv k \<longrightarrow> rt_current_thread k \<noteq> None \<longrightarrow>
        (\<exists>k'. cb n e k = Some (g n e, k') \<and> ready_inv k' \<and> rt_current_thread k' \<noteq> None \<and>
           rt_tick k' = rt_tick k \<and> timers k' = timers k \<and> timer_list k' = timer_list k \<and>
           check_list k' = check_list k \<and> thread_state k' = thread_state k \<and>
           (\<forall>u. error (threads k' u) = error (threads k u))))"

fun run_callbacks :: "(nat \<Rightarrow> 'e \<Rightarrow> 'e) \<Rightarrow> timer_id list \<Rightarrow> 'e \<Rightarrow> 'e" where
  "run_callbacks g [] e = e"
| "run_callbacks g (UserTimer n # is) e = run_callbacks g is (g n e)"
| "run_callbacks g (ThreadTimer t # is) e = run_callbacks g is e"

definition runnable :: "kernel \<Rightarrow> tid \<Rightarrow> bool" where
  "runnable k t \<longleftrightarrow> thread_state k t \<in> {RT_THREAD_READY, RT_THREAD_RUNNING}"

definition timed_out :: "kernel \<Rightarrow> tid \<Rightarrow> bool" where
  "timed_out k t \<longleftrightarrow> runnable k t \<and> error (threads k t) = - RT_ETIMEOUT"

lemma timeout_func_ok:
  assumes "ready_inv k" and "rt_current_thread k \<noteq> None" and "callbacks_passive g cb"
    and "\<And>t. i = ThreadTimer t \<Longrightarrow> thread_state k t = RT_THREAD_SUSPEND"
  shows "\<exists>k'. timeout_func cb i e k = Some (run_callbacks g [i] e, k') \<and> ready_inv k' \<and> rt_current_thread k' \<noteq> None \<and>
    rt_tick k' = rt_tick k \<and> timers k' = timers k \<and> timer_list k' = timer_list k \<and>
    check_list k' = check_list k \<and> (\<forall>u. i = ThreadTimer u \<longrightarrow> timed_out k' u) \<and>
    (\<forall>u. i \<noteq> ThreadTimer u \<longrightarrow> (timed_out k' u \<longleftrightarrow> timed_out k u) \<and>
       (thread_state k u = RT_THREAD_SUSPEND \<longrightarrow> thread_state k' u = RT_THREAD_SUSPEND))"
proof (cases i)
  case (ThreadTimer t)
  note st = assms(4) [OF ThreadTimer]
  obtain k' where k': "thread_timeout t k = Some k'" "ready_inv k'" "error (threads k' t) = - RT_ETIMEOUT"
      "thread_state k' t \<in> {RT_THREAD_READY, RT_THREAD_RUNNING}" "rt_current_thread k' \<noteq> None"
    using thread_timeout_ok [OF assms(1) st assms(2)] by blast
  note frame = thread_timeout_frame [OF k'(1)]
  note states = thread_timeout_states [OF assms(1) st assms(2) k'(1)]
  have "timed_out k' u \<longleftrightarrow> timed_out k u" if "u \<noteq> t" for u
    using states(2) [OF that] frame(5) [OF that] by (simp add: timed_out_def runnable_def)
  moreover have "timed_out k' t" using k' by (simp add: timed_out_def runnable_def)
  ultimately show ?thesis
    using k' frame(1-4) states(1) by (simp add: timeout_func_def ThreadTimer)
next
  case (UserTimer n)
  obtain k' where "cb n e k = Some (g n e, k')" "ready_inv k'" "rt_current_thread k' \<noteq> None"
      "rt_tick k' = rt_tick k" "timers k' = timers k" "timer_list k' = timer_list k"
      "check_list k' = check_list k" "thread_state k' = thread_state k"
      "\<forall>u. error (threads k' u) = error (threads k u)"
    using assms(1-3) unfolding callbacks_passive_def by blast
  then show ?thesis by (simp add: timeout_func_def UserTimer timed_out_def runnable_def)
qed

text \<open>
  The invariant of the loop of \<^verbatim>\<open>rt_timer_check\<close>, relative to a base \<open>b\<close> before the pending timeouts:
  the list is ordered; its timers are active hard timers; a thread whose timer is pending is
  suspended and its timer is one-shot; the period of a periodic timer is not 0.
\<close>

definition check_inv :: "u32 \<Rightarrow> kernel \<Rightarrow> bool" where
  "check_inv b k \<longleftrightarrow>
     ready_inv k \<and> rt_current_thread k \<noteq> None \<and> check_list k = [] \<and> since b (rt_tick k) < 0x7fffffff \<and>
     timeouts_ordered b (\<lambda>i. timeout_tick (timers k i)) (timer_list k) \<and>
     (\<forall>i \<in> set (timer_list k). timer_active k i \<and> hard_timer k i \<and>
        (periodic k i \<longrightarrow> timer_init_tick (timers k i) \<noteq> 0 \<and>
           timer_init_tick (timers k i) < RT_TICK_MAX div 2 \<and>
           since b (rt_tick k + timer_init_tick (timers k i)) < 0x7fffffff)) \<and>
     (\<forall>t. ThreadTimer t \<in> set (timer_list k) \<longrightarrow>
        thread_state k t = RT_THREAD_SUSPEND \<and> \<not> periodic k (ThreadTimer t))"

definition stopped :: "rt_timer \<Rightarrow> rt_timer" where
  "stopped tm = tm\<lparr>timer_flag := timer_flag tm AND NOT RT_TIMER_FLAG_ACTIVATED\<rparr>"

lemma stopped_started: "started now (stopped tm) = started now tm"
  by (simp add: started_def stopped_def flag_activate)

lemma timer_deactivate_simps [kernel_simps]:
  "timers (timer_deactivate i k) = (timers k)(i := stopped (timers k i))"
  "threads (timer_deactivate i k) = threads k" "tlists (timer_deactivate i k) = tlists k"
  "rt_current_thread (timer_deactivate i k) = rt_current_thread k"
  "rt_thread_ready_priority_group (timer_deactivate i k) = rt_thread_ready_priority_group k"
  "rt_scheduler_lock_nest (timer_deactivate i k) = rt_scheduler_lock_nest k"
  "timer_list (timer_deactivate i k) = timer_list k" "soft_timer_list (timer_deactivate i k) = soft_timer_list k"
  "rt_tick (timer_deactivate i k) = rt_tick k" "check_list (timer_deactivate i k) = check_list k"
  "soft_check_list (timer_deactivate i k) = soft_check_list k"
  "thread_state (timer_deactivate i k) = thread_state k"
  by (simp_all add: timer_deactivate_def stopped_def kernel_simps)

lemma timer_fire_effect:
  assumes inv: "ready_inv k" "rt_current_thread k \<noteq> None" and cb: "callbacks_passive g cb"
    and head: "timer_list k = i # ts" "i \<notin> set ts" and check: "check_list k = []"
    and hard: "hard_timer k i" and active: "timer_active k i"
    and susp: "\<And>t. i = ThreadTimer t \<Longrightarrow> thread_state k t = RT_THREAD_SUSPEND"
  shows "\<exists>k'. timer_fire cb i e k = Some (run_callbacks g [i] e, k') \<and> ready_inv k' \<and> rt_current_thread k' \<noteq> None \<and>
    rt_tick k' = rt_tick k \<and> check_list k' = [] \<and>
    timers k' = (timers k)(i := if periodic k i then started (rt_tick k) (timers k i) else stopped (timers k i)) \<and>
    timer_list k' = (if periodic k i then timer_insert (\<lambda>j. timeout_tick (timers k' j)) i ts else ts) \<and>
    (\<forall>u. i = ThreadTimer u \<longrightarrow> timed_out k' u) \<and>
    (\<forall>u. i \<noteq> ThreadTimer u \<longrightarrow> (timed_out k' u \<longleftrightarrow> timed_out k u) \<and>
       (thread_state k u = RT_THREAD_SUSPEND \<longrightarrow> thread_state k' u = RT_THREAD_SUSPEND))"
proof -
  define k1 where "k1 = timer_remove i k"
  define k2 where "k2 = (if periodic k i then k1 else timer_deactivate i k1)"
  define k3 where "k3 = k2\<lparr>check_list := [i]\<rparr>"
  have k3: "threads k3 = threads k" "tlists k3 = tlists k" "rt_current_thread k3 = rt_current_thread k"
      "rt_thread_ready_priority_group k3 = rt_thread_ready_priority_group k"
      "timer_list k3 = ts" "rt_tick k3 = rt_tick k" "check_list k3 = [i]"
      "timers k3 = (timers k)(i := if periodic k i then timers k i else stopped (timers k i))"
    using head by (simp_all add: k3_def k2_def k1_def kernel_simps)
  have st3: "thread_state k3 = thread_state k" by (simp add: thread_state_def k3 fun_eq_iff)
  have inv3: "ready_inv k3" using inv(1) ready_inv_same [of k3 k] k3 by simp
  obtain k4 where k4: "timeout_func cb i e k3 = Some (run_callbacks g [i] e, k4)" "ready_inv k4" "rt_current_thread k4 \<noteq> None"
      "rt_tick k4 = rt_tick k3" "timers k4 = timers k3" "timer_list k4 = timer_list k3"
      "check_list k4 = check_list k3" "\<forall>u. i = ThreadTimer u \<longrightarrow> timed_out k4 u"
      "\<forall>u. i \<noteq> ThreadTimer u \<longrightarrow> (timed_out k4 u \<longleftrightarrow> timed_out k3 u) \<and>
         (thread_state k3 u = RT_THREAD_SUSPEND \<longrightarrow> thread_state k4 u = RT_THREAD_SUSPEND)"
    using timeout_func_ok [OF inv3 _ cb, of i e] inv(2) susp by (auto simp: k3 st3)
  define k5 where "k5 = timer_remove i k4"
  define k' where "k' = (if periodic k i then timer_link i (timer_deactivate i k5) else k5)"
  have fire: "timer_fire cb i e k = (if periodic k5 i \<and> timer_active k5 i
      then do { k6 \<leftarrow> rt_timer_start i (timer_deactivate i k5); Some (run_callbacks g [i] e, k6) }
      else Some (run_callbacks g [i] e, k5))"
  proof -
    let ?k2 = "if timer_flag (timers k1 i) AND RT_TIMER_FLAG_PERIODIC = 0 then timer_deactivate i k1 else k1"
    have "?k2\<lparr>check_list := i # check_list ?k2\<rparr> = k3"
      using check by (simp add: k3_def k2_def k1_def periodic_def kernel_simps)
    then show ?thesis
      using k4(1,7) k3(7) unfolding timer_fire_def Let_def k1_def [symmetric]
      by (simp add: k5_def periodic_def)
  qed
  have k5: "timers k5 = timers k3" "timer_list k5 = ts" "check_list k5 = []" "rt_tick k5 = rt_tick k"
      "threads k5 = threads k4" "tlists k5 = tlists k4" "rt_current_thread k5 = rt_current_thread k4"
      "rt_thread_ready_priority_group k5 = rt_thread_ready_priority_group k4" "thread_state k5 = thread_state k4"
    using k4 k3 head(2) by (simp_all add: k5_def kernel_simps)
  have per: "periodic k5 i \<longleftrightarrow> periodic k i"
    by (simp add: periodic_def k5 k3 stopped_def flag_activate)
  have act: "timer_active k5 i \<longleftrightarrow> periodic k i"
    using active by (simp add: timer_active_def k5 k3 stopped_def flag_activate)
  have "hard_timer (timer_deactivate i k5) i"
    using hard by (simp add: hard_timer_def kernel_simps k5 k3 stopped_def flag_activate)
  then have some: "timer_fire cb i e k = Some (run_callbacks g [i] e, k')"
    by (simp add: fire k'_def per act hard_timer_start)
  have hard5: "hard_timer (timer_deactivate i k5) i"
    using hard by (simp add: hard_timer_def kernel_simps k5 k3 stopped_def flag_activate)
  have timers': "timers k' = (timers k)(i := if periodic k i then started (rt_tick k) (timers k i) else stopped (timers k i))"
    by (simp add: k'_def timer_link_effect kernel_simps k5 k3 stopped_started)
  have list': "timer_list k' = (if periodic k i then timer_insert (\<lambda>j. timeout_tick (timers k' j)) i ts else ts)"
    using hard5 head(2) unfolding timers'
    by (simp add: k'_def timer_link_effect kernel_simps k5 k3 stopped_started)
  have rest: "threads k' = threads k4" "tlists k' = tlists k4" "rt_current_thread k' = rt_current_thread k4"
      "rt_thread_ready_priority_group k' = rt_thread_ready_priority_group k4" "rt_tick k' = rt_tick k" "check_list k' = []"
    by (simp_all add: k'_def timer_link_effect kernel_simps k5)
  have "ready_inv k'" using ready_inv_same [of k' k4] k4(2) rest by simp
  moreover have "timed_out k' = timed_out k4" "timed_out k3 = timed_out k" "thread_state k' = thread_state k4"
    by (simp_all add: timed_out_def runnable_def thread_state_def rest k3 fun_eq_iff)
  ultimately show ?thesis
    using some timers' list' rest k4 st3 by (intro exI [of _ k']) simp
qed

lemma timer_due_since:
  assumes "since b now < 0x7fffffff" and "since b (timeout_tick (timers k i)) < 0x7fffffff"
  shows "timer_due now k i \<longleftrightarrow> since b (timeout_tick (timers k i)) \<le> since b now"
  unfolding timer_due_def by (rule tick_later) (use assms in simp_all)

lemma restarted_not_due:
  assumes "init \<noteq> 0" and "init < RT_TICK_MAX div 2"
  shows "\<not> now - (now + init) < RT_TICK_MAX div 2"
proof -
  have "unat (- init) = 2 ^ 32 - unat init"
    using assms(1) unat_sub_if_size [of 0 init] by (simp add: word_size unat_eq_0)
  moreover have "unat init < 0x7fffffff"
    using assms(2) by (simp add: half_range word_less_nat_alt)
  ultimately show ?thesis by (simp add: half_range word_less_nat_alt)
qed

lemma check_inv_fire:
  assumes inv: "check_inv b k" and cb: "callbacks_passive g cb" and head: "timer_list k = i # ts"
  defines "f \<equiv> (if periodic k i then started (rt_tick k) else stopped)"
  shows "\<exists>k'. timer_fire cb i e k = Some (run_callbacks g [i] e, k') \<and> check_inv b k' \<and> rt_tick k' = rt_tick k \<and>
    timers k' = (timers k)(i := f (timers k i)) \<and>
    set (timer_list k') = (if periodic k i then insert i (set ts) else set ts) \<and>
    (timer_list k' = ts \<or> periodic k i \<and> (\<exists>us vs. ts = us @ vs \<and> timer_list k' = us @ i # vs)) \<and>
    (\<forall>t. timed_out k' t \<longleftrightarrow> i = ThreadTimer t \<or> timed_out k t)"
proof -
  have i: "timer_active k i" "hard_timer k i" "i \<notin> set ts" and chk: "check_list k = []"
    and o: "timeouts_ordered b (\<lambda>j. timeout_tick (timers k j)) ts"
    and per: "periodic k i \<Longrightarrow> since b (rt_tick k + timer_init_tick (timers k i)) < 0x7fffffff"
    and rdy: "ready_inv k" "rt_current_thread k \<noteq> None"
    and susp: "\<And>t. ThreadTimer t \<in> set (timer_list k) \<Longrightarrow> thread_state k t = RT_THREAD_SUSPEND"
    using inv head by (auto simp: check_inv_def timeouts_ordered_def)
  obtain k' where k': "timer_fire cb i e k = Some (run_callbacks g [i] e, k')" "ready_inv k'" "rt_current_thread k' \<noteq> None"
      "rt_tick k' = rt_tick k" "check_list k' = []"
      "timers k' = (timers k)(i := if periodic k i then started (rt_tick k) (timers k i) else stopped (timers k i))"
      "timer_list k' = (if periodic k i then timer_insert (\<lambda>j. timeout_tick (timers k' j)) i ts else ts)"
      "\<forall>u. i = ThreadTimer u \<longrightarrow> timed_out k' u"
      "\<forall>u. i \<noteq> ThreadTimer u \<longrightarrow> (timed_out k' u \<longleftrightarrow> timed_out k u) \<and>
         (thread_state k u = RT_THREAD_SUSPEND \<longrightarrow> thread_state k' u = RT_THREAD_SUSPEND)"
    using timer_fire_effect [OF rdy cb head i(3) chk i(2,1), of e] susp head by auto
  let ?tick = "\<lambda>j. timeout_tick (timers k' j)"
  have tm: "timers k' = (timers k)(i := f (timers k i))" by (simp add: k'(6) f_def)
  have o': "timeouts_ordered b ?tick ts"
    using o i(3) by (subst timeouts_ordered_cong [of _ _ "\<lambda>j. timeout_tick (timers k j)"]) (auto simp: tm)
  have ti: "periodic k i \<Longrightarrow> since b (?tick i) < 0x7fffffff"
    using per by (simp add: tm f_def started_def)
  have ord: "timeouts_ordered b ?tick (timer_list k')"
    unfolding k'(7) using o' timer_insert_ordered [OF o' i(3)] ti by simp
  have lists: "set (timer_list k') = (if periodic k i then insert i (set ts) else set ts)"
    unfolding k'(7) by (simp add: timer_insert_set)
  have flags: "timer_flag (f tm) AND RT_TIMER_FLAG_SOFT_TIMER = timer_flag tm AND RT_TIMER_FLAG_SOFT_TIMER"
      "timer_flag (f tm) AND RT_TIMER_FLAG_PERIODIC = timer_flag tm AND RT_TIMER_FLAG_PERIODIC"
      "periodic k i \<Longrightarrow> timer_flag (f tm) AND RT_TIMER_FLAG_ACTIVATED \<noteq> 0"
      "timer_init_tick (f tm) = timer_init_tick tm" for tm
    by (simp_all add: f_def started_def stopped_def flag_activate) (simp add: RT_TIMER_FLAG_ACTIVATED_def)
  have same: "hard_timer k' j = hard_timer k j" "periodic k' j = periodic k j"
      "timer_init_tick (timers k' j) = timer_init_tick (timers k j)" for j
    by (simp_all add: hard_timer_def periodic_def tm flags)
  have act: "timer_active k' j" if "j \<in> set (timer_list k')" for j
    using that inv head i(3) flags(3) lists
    by (cases "j = i") (auto simp: timer_active_def tm check_inv_def split: if_splits)
  have "check_inv b k'"
    unfolding check_inv_def
  proof (intro conjI ballI allI impI)
    fix j assume "j \<in> set (timer_list k')"
    then have j: "j \<in> set (timer_list k)" using lists head by (auto split: if_splits)
    show "timer_active k' j" using act [OF \<open>j \<in> set (timer_list k')\<close>] .
    show "hard_timer k' j" using inv j by (simp add: same check_inv_def)
    show "timer_init_tick (timers k' j) \<noteq> 0" and "timer_init_tick (timers k' j) < RT_TICK_MAX div 2"
      and "since b (rt_tick k' + timer_init_tick (timers k' j)) < 0x7fffffff" if "periodic k' j"
      using inv j that by (simp_all add: same k'(4) check_inv_def)
  next
    fix t assume t: "ThreadTimer t \<in> set (timer_list k')"
    then have "ThreadTimer t \<in> set (timer_list k)" using lists head by (auto split: if_splits)
    then have np: "\<not> periodic k (ThreadTimer t)" and "thread_state k t = RT_THREAD_SUSPEND"
      using inv by (simp_all add: check_inv_def)
    moreover have "i \<noteq> ThreadTimer t" using t np lists i(3) by auto
    ultimately show "thread_state k' t = RT_THREAD_SUSPEND" and "\<not> periodic k' (ThreadTimer t)"
      using k'(9) by (simp_all add: same)
  qed (use inv k' ord in \<open>simp_all add: check_inv_def\<close>)
  moreover have "timer_list k' = ts \<or> periodic k i \<and> (\<exists>us vs. ts = us @ vs \<and> timer_list k' = us @ i # vs)"
  proof (cases "periodic k i")
    case True
    then have "timer_list k' = takeWhile (\<lambda>t. since b (?tick t) \<le> since b (?tick i)) ts @
        i # dropWhile (\<lambda>t. since b (?tick t) \<le> since b (?tick i)) ts"
      unfolding k'(7) using timer_insert_position [of ts b ?tick i] o' ti by (simp add: timeouts_ordered_def)
    then show ?thesis using True by (metis takeWhile_dropWhile_id)
  qed (simp add: k'(7))
  ultimately show ?thesis using k' tm lists by blast
qed

definition due_timers :: "kernel \<Rightarrow> timer_id list" where
  "due_timers k = filter (timer_due (rt_tick k) k) (timer_list k)"

lemma due_fire:
  assumes inv: "check_inv b k" and head: "timer_list k = i # ts" and due: "timer_due (rt_tick k) k i"
    and tick: "rt_tick k' = rt_tick k"
    and tm: "timers k' = (timers k)(i := (if periodic k i then started (rt_tick k) else stopped) (timers k i))"
    and list: "timer_list k' = ts \<or> periodic k i \<and> (\<exists>us vs. ts = us @ vs \<and> timer_list k' = us @ i # vs)"
  shows "due_timers k = i # due_timers k'"
proof -
  have i: "i \<notin> set ts" using inv head by (simp add: check_inv_def timeouts_ordered_def)
  have other: "timer_due (rt_tick k) k' j \<longleftrightarrow> timer_due (rt_tick k) k j" if "j \<noteq> i" for j
    using that by (simp add: timer_due_def tm)
  have "\<not> timer_due (rt_tick k) k' i" if "periodic k i"
    using restarted_not_due [of "timer_init_tick (timers k i)" "rt_tick k"] inv head that
    by (simp add: timer_due_def tm started_def check_inv_def)
  then have "filter (timer_due (rt_tick k) k') (timer_list k') = filter (timer_due (rt_tick k) k') ts"
    using list by auto
  also have "\<dots> = filter (timer_due (rt_tick k) k) ts"
    using i other by (intro filter_cong refl) metis
  finally show ?thesis using due by (simp add: due_timers_def head tick)
qed

text \<open>
  The loop returns: every round handles one timer that is due, and none becomes due. The state it
  leaves is determined by the timers that were due at the start.
\<close>

lemma timer_check_loop_ok:
  assumes "check_inv b k" and cb: "callbacks_passive g cb"
  shows "\<exists>k'. timer_check_loop cb (rt_tick k) e k = Some (run_callbacks g (due_timers k) e, k') \<and> check_inv b k' \<and> rt_tick k' = rt_tick k \<and>
    due_timers k' = [] \<and>
    (\<forall>i. timers k' i = (if i \<in> set (due_timers k)
        then (if periodic k i then started (rt_tick k) else stopped) (timers k i) else timers k i)) \<and>
    set (timer_list k') = {i \<in> set (timer_list k). i \<in> set (due_timers k) \<longrightarrow> periodic k i} \<and>
    (\<forall>t. timed_out k' t \<longleftrightarrow> ThreadTimer t \<in> set (due_timers k) \<or> timed_out k t)"
  using assms(1)
proof (induction "length (due_timers k)" arbitrary: e k)
  case 0
  have none: "due_timers k = []" using 0 by simp
  have "timer_check_loop cb (rt_tick k) e k = Some (e, k)"
    using none by (subst timer_check_loop.simps) (auto simp: due_timers_def split: list.splits if_splits)
  then show ?case using 0 none by auto
next
  case (Suc n)
  have b: "since b (rt_tick k) < 0x7fffffff" and o: "timeouts_ordered b (\<lambda>i. timeout_tick (timers k i)) (timer_list k)"
    using Suc.prems by (auto simp: check_inv_def)
  obtain d where d: "d \<in> set (timer_list k)" "timer_due (rt_tick k) k d"
    using Suc.hyps(2) by (metis due_timers_def filter_False length_0_conv nat.distinct(1))
  then obtain i ts where head: "timer_list k = i # ts" by (cases "timer_list k") auto
  have o': "since b (timeout_tick (timers k j)) < 0x7fffffff" if "j \<in> set (timer_list k)" for j
    using that o by (simp add: timeouts_ordered_def)
  have "since b (timeout_tick (timers k i)) \<le> since b (timeout_tick (timers k d))"
    using o d(1) by (auto simp: head timeouts_ordered_def)
  moreover have "timer_due (rt_tick k) k d \<longleftrightarrow> since b (timeout_tick (timers k d)) \<le> since b (rt_tick k)"
    "timer_due (rt_tick k) k i \<longleftrightarrow> since b (timeout_tick (timers k i)) \<le> since b (rt_tick k)"
    using b o' [of d] o' [of i] d(1) head by (auto intro!: timer_due_since)
  ultimately have due: "timer_due (rt_tick k) k i" using d(2) by simp
  obtain k1 where k1: "timer_fire cb i e k = Some (run_callbacks g [i] e, k1)" "check_inv b k1" "rt_tick k1 = rt_tick k"
      "timers k1 = (timers k)(i := (if periodic k i then started (rt_tick k) else stopped) (timers k i))"
      "set (timer_list k1) = (if periodic k i then insert i (set ts) else set ts)"
      "timer_list k1 = ts \<or> periodic k i \<and> (\<exists>us vs. ts = us @ vs \<and> timer_list k1 = us @ i # vs)"
      "\<forall>t. timed_out k1 t \<longleftrightarrow> i = ThreadTimer t \<or> timed_out k t"
    using check_inv_fire [OF Suc.prems cb head, of e] by blast
  note D = due_fire [OF Suc.prems head due k1(3,4,6)]
  have "distinct (due_timers k)" using o by (simp add: due_timers_def timeouts_ordered_def)
  then have i: "i \<notin> set ts" "i \<notin> set (due_timers k1)"
    using o D by (simp_all add: head timeouts_ordered_def)
  have per: "periodic k1 j = periodic k j" for j
    by (simp add: periodic_def k1(4) started_def stopped_def flag_activate)
  obtain k' where k': "timer_check_loop cb (rt_tick k1) (run_callbacks g [i] e) k1 =
        Some (run_callbacks g (due_timers k1) (run_callbacks g [i] e), k')" "check_inv b k'" "rt_tick k' = rt_tick k1"
      "due_timers k' = []"
      "\<forall>i. timers k' i = (if i \<in> set (due_timers k1)
        then (if periodic k1 i then started (rt_tick k1) else stopped) (timers k1 i) else timers k1 i)"
      "set (timer_list k') = {i \<in> set (timer_list k1). i \<in> set (due_timers k1) \<longrightarrow> periodic k1 i}"
      "\<forall>t. timed_out k' t \<longleftrightarrow> ThreadTimer t \<in> set (due_timers k1) \<or> timed_out k1 t"
    using Suc.hyps(1) [of k1 "run_callbacks g [i] e"] Suc.hyps(2) D k1(2) by auto
  have "run_callbacks g (due_timers k1) (run_callbacks g [i] e) = run_callbacks g (due_timers k) e"
    unfolding D by (cases i) simp_all
  then have "timer_check_loop cb (rt_tick k) e k = Some (run_callbacks g (due_timers k) e, k')"
    using k1(1) k'(1) due head by (subst timer_check_loop.simps) simp
  moreover have "timers k' j = (if j \<in> set (due_timers k)
        then (if periodic k j then started (rt_tick k) else stopped) (timers k j) else timers k j)" for j
    using k'(5) i(2) by (cases "j = i") (auto simp: D per k1(3,4))
  moreover have "set (timer_list k') = {i \<in> set (timer_list k). i \<in> set (due_timers k) \<longrightarrow> periodic k i}"
    unfolding k'(6) k1(5) head D per using i by auto
  moreover have "timed_out k' t \<longleftrightarrow> ThreadTimer t \<in> set (due_timers k) \<or> timed_out k t" for t
    using k'(7) k1(7) by (auto simp: D)
  ultimately show ?case using k'(2-4) k1(3) by auto
qed

text \<open>A periodic timer of period 0 is due again as soon as it has been restarted.\<close>

definition zero_period :: "nat \<Rightarrow> kernel \<Rightarrow> bool" where
  "zero_period n k \<longleftrightarrow>
     ready_inv k \<and> rt_current_thread k \<noteq> None \<and> check_list k = [] \<and> timer_list k = [UserTimer n] \<and>
     timer_active k (UserTimer n) \<and> hard_timer k (UserTimer n) \<and> periodic k (UserTimer n) \<and>
     timer_init_tick (timers k (UserTimer n)) = 0 \<and> timer_due (rt_tick k) k (UserTimer n)"

lemma zero_period_fire:
  assumes "zero_period n k" and cb: "callbacks_passive g cb"
  shows "\<exists>k'. timer_fire cb (UserTimer n) e k = Some (g n e, k') \<and> zero_period n k'"
proof -
  let ?i = "UserTimer n"
  obtain k' where "timer_fire cb ?i e k = Some (g n e, k')" "ready_inv k'" "rt_current_thread k' \<noteq> None"
      "rt_tick k' = rt_tick k" "check_list k' = []"
      "timers k' = (timers k)(?i := started (rt_tick k) (timers k ?i))" "timer_list k' = [?i]"
    using timer_fire_effect [of k g cb ?i "[]" e] assms unfolding zero_period_def by auto
  moreover have "timer_active k' ?i" "hard_timer k' ?i" "periodic k' ?i"
      "timer_init_tick (timers k' ?i) = 0" "timeout_tick (timers k' ?i) = rt_tick k'"
    using assms calculation(4,6) flag_activate
    by (simp_all add: zero_period_def timer_active_def hard_timer_def periodic_def started_def)
  moreover have "timer_due (rt_tick k') k' ?i"
    using calculation by (simp add: timer_due_def half_range)
  ultimately show ?thesis by (auto simp: zero_period_def)
qed

lemma zero_period_loop:
  assumes "timer_check_loop cb now e k = Some y"
  shows "\<not> (callbacks_passive g cb \<and> zero_period n k \<and> now = rt_tick k)"
proof (rule timer_check_loop.raw_induct
    [where P = "\<lambda>cb now e k _. \<not> (callbacks_passive g cb \<and> zero_period n k \<and> now = rt_tick k)", OF _ assms])
  fix loop cb now e k y
  assume IH: "\<And>cb now e k y. loop cb now e k = Some y \<Longrightarrow> \<not> (callbacks_passive g cb \<and> zero_period n k \<and> now = rt_tick k)"
    and body: "(case timer_list k of [] \<Rightarrow> Some (e, k)
      | i # _ \<Rightarrow> if timer_due now k i then timer_fire cb i e k \<bind> (\<lambda>x. loop cb (rt_tick (snd x)) (fst x) (snd x))
                 else Some (e, k)) = Some y"
  show "\<not> (callbacks_passive g cb \<and> zero_period n k \<and> now = rt_tick k)"
  proof
    assume z: "callbacks_passive g cb \<and> zero_period n k \<and> now = rt_tick k"
    then obtain k1 where k1: "timer_fire cb (UserTimer n) e k = Some (g n e, k1)" "zero_period n k1"
      using zero_period_fire [of n k g cb e] by auto
    then have "loop cb (rt_tick k1) (g n e) k1 = Some y"
      using body z by (simp add: zero_period_def)
    then show False using IH k1(2) z by blast
  qed
qed

section \<open>Sleeping\<close>

lemma rt_thread_suspend_timers:
  assumes "rt_thread_suspend t k = Some (r, k')"
  shows "rt_tick k' = rt_tick k"
    and "timer_flag (timers k' i) AND RT_TIMER_FLAG_SOFT_TIMER = timer_flag (timers k i) AND RT_TIMER_FLAG_SOFT_TIMER"
    and "j \<noteq> ThreadTimer t \<Longrightarrow> timers k' j = timers k j"
  using assms
  by (auto simp: rt_thread_suspend_def rt_timer_stop_def kernel_simps remove_thread_effect stopped_def flag_activate
      split: if_splits)

text \<open>The state a thread that goes to sleep hands to the scheduler: suspended, its timer started.\<close>

lemma sleep_prepared:
  assumes inv: "ready_inv k" and cur: "rt_current_thread k = Some t"
    and run: "thread_state k t = RT_THREAD_RUNNING" and hard: "hard_timer k (ThreadTimer t)"
    and "tick < RT_TICK_MAX div 2"
  shows "\<exists>k1 k2. rt_thread_suspend t (upd_thread t (\<lambda>th. th\<lparr>error := RT_EOK\<rparr>) k) = Some (RT_EOK, k1) \<and>
    rt_timer_control (ThreadTimer t) TIMER_SET_TIME tick k1 = Some (tick, k2) \<and>
    rt_timer_start (ThreadTimer t) k2 = Some (timer_link (ThreadTimer t) k2) \<and>
    ready_inv (timer_link (ThreadTimer t) k2) \<and> rt_current_thread (timer_link (ThreadTimer t) k2) = Some t \<and>
    thread_state (timer_link (ThreadTimer t) k2) = (thread_state k)(t := RT_THREAD_SUSPEND) \<and>
    rt_scheduler_lock_nest (timer_link (ThreadTimer t) k2) = rt_scheduler_lock_nest k \<and>
    rt_tick k2 = rt_tick k \<and> hard_timer k2 (ThreadTimer t) \<and> timer_init_tick (timers k2 (ThreadTimer t)) = tick"
proof -
  let ?i = "ThreadTimer t"
  define k0 where "k0 = upd_thread t (\<lambda>th. th\<lparr>error := RT_EOK\<rparr>) k"
  have st0: "thread_state k0 = thread_state k" by (auto simp: k0_def thread_state_def kernel_simps fun_eq_iff)
  have inv0: "ready_inv k0"
  proof (rule ready_inv_relist [OF inv _ _ _ st0])
    show "queue_inv (set_option (rt_current_thread k)) k0"
      unfolding k0_def by (rule queue_inv_upd_thread [OF ready_queue [OF inv]]) (use cur run in \<open>simp_all add: kernel_simps\<close>)
    show "wait_inv k0"
      by (rule wait_inv_sub [OF ready_wait [OF inv]]) (simp add: st0, simp add: k0_def kernel_simps)
  qed (simp add: k0_def kernel_simps)
  obtain k1 where k1: "rt_thread_suspend t k0 = Some (RT_EOK, k1)" "ready_inv k1"
      "thread_state k1 = (thread_state k)(t := RT_THREAD_SUSPEND)" "rt_current_thread k1 = Some t"
    using rt_thread_suspend_ok [OF inv0, of t] cur run st0 by (auto simp: k0_def kernel_simps)
  define k2 where "k2 = upd_timer ?i (\<lambda>tm. tm\<lparr>timer_init_tick := tick\<rparr>) k1"
  have hard2: "hard_timer k2 ?i"
    using hard rt_thread_suspend_timers(2) [OF k1(1), of ?i] by (simp add: hard_timer_def k2_def k0_def kernel_simps)
  have "ready_inv (timer_link ?i k2)"
    using k1(2) by (subst ready_inv_same [of _ k1]) (simp_all add: timer_link_effect k2_def kernel_simps)
  moreover have "thread_state (timer_link ?i k2) = (thread_state k)(t := RT_THREAD_SUSPEND)"
    using k1(3) by (simp add: thread_state_def timer_link_effect k2_def kernel_simps fun_eq_iff)
  moreover have "rt_scheduler_lock_nest (timer_link ?i k2) = rt_scheduler_lock_nest k" "rt_tick k2 = rt_tick k"
    using rt_thread_suspend_lock [OF k1(1)] rt_thread_suspend_timers(1) [OF k1(1)]
    by (simp_all add: timer_link_effect k2_def k0_def kernel_simps)
  ultimately show ?thesis
    using k1 hard_timer_start [OF hard2] hard2 assms(5)
    by (intro exI [of _ k1] exI [of _ k2]) (simp add: k0_def k2_def timer_link_effect kernel_simps)
qed

section \<open>A sample configuration\<close>

text \<open>
  The sample kernel shortly before the tick counter wraps: the timer of the suspended thread 5 is due
  now, a periodic timer of the application is overdue by two ticks, another one is due after the
  wrap-around.
\<close>

definition sample_timers :: kernel where
  "sample_timers = sample_kernel\<lparr>rt_tick := 0xffffffff,
     timers := (\<lambda>i. case i of
        ThreadTimer t \<Rightarrow> \<lparr>timer_flag = if t = 5 then 1 else 0, timer_init_tick = 10, timeout_tick = 0xffffffff\<rparr>
      | UserTimer n \<Rightarrow> (if n = 0 then \<lparr>timer_flag = 3, timer_init_tick = 20, timeout_tick = 0xfffffffd\<rparr>
                        else \<lparr>timer_flag = if n = 2 then 1 else 0, timer_init_tick = 4, timeout_tick = 5\<rparr>)),
     timer_list := [UserTimer 0, ThreadTimer 5, UserTimer 2]\<rparr>"

lemma sample_timers_inv: "ready_inv sample_timers"
  using sample_ready_inv by (subst ready_inv_same [of _ sample_kernel]) (simp_all add: sample_timers_def)

lemma sample_timers_states: "thread_state sample_timers = thread_state sample_kernel"
  by (simp add: sample_timers_def thread_state_def fun_eq_iff)

lemma sample_ordered:
  "timeouts_ordered 0xfffffff0 (\<lambda>i. timeout_tick (timers sample_timers i)) (timer_list sample_timers)"
  by (simp add: timeouts_ordered_def sample_timers_def since_def)

lemma sample_check_inv: "check_inv 0xfffffff0 sample_timers"
proof -
  have *: "timer_list sample_timers = [UserTimer 0, ThreadTimer 5, UserTimer 2]" "rt_tick sample_timers = 0xffffffff"
    "rt_current_thread sample_timers = Some 0" "check_list sample_timers = []"
    "timers sample_timers (UserTimer 0) = \<lparr>timer_flag = 3, timer_init_tick = 20, timeout_tick = 0xfffffffd\<rparr>"
    "timers sample_timers (ThreadTimer 5) = \<lparr>timer_flag = 1, timer_init_tick = 10, timeout_tick = 0xffffffff\<rparr>"
    "timers sample_timers (UserTimer 2) = \<lparr>timer_flag = 1, timer_init_tick = 4, timeout_tick = 5\<rparr>"
    by (simp_all add: sample_timers_def sample_kernel_def)
  show ?thesis
    unfolding check_inv_def using sample_timers_inv sample_ordered
    by (simp add: * sample_timers_states sample_states)
      (simp add: * timer_active_def hard_timer_def periodic_def timer_flag_defs since_def half_range)
qed

text \<open>Callbacks that only act on the environment, and one that logs the timers it is called for.\<close>

definition env_callbacks :: "(nat \<Rightarrow> 'e \<Rightarrow> 'e) \<Rightarrow> 'e callbacks" where
  "env_callbacks g = (\<lambda>n e k. Some (g n e, k))"

lemma passive_callbacks: "callbacks_passive g (env_callbacks g)"
  by (simp add: callbacks_passive_def env_callbacks_def)

definition log_timer :: "nat \<Rightarrow> nat list \<Rightarrow> nat list" where
  "log_timer n e = e @ [n]"

section \<open>Properties\<close>

text \<open>
  Starting a hard timer links it into the timer list behind every timer that expires
  earlier or at the same tick and before every timer that expires later, keeps the list in the order
  of expiry, activates the timer with its timeout one interval after the current tick, and changes no
  other timer. The order is that of time after a base tick \<open>b\<close>, so it is right across the wrap-around
  of the tick counter as long as the pending timeouts lie within half the range after \<open>b\<close>.
\<close>

theorem timer_start_in_order:
  assumes "hard_timer k i" and "timeouts_ordered b (\<lambda>j. timeout_tick (timers k j)) (timer_list k)"
    and "since b (rt_tick k + timer_init_tick (timers k i)) < 0x7fffffff"
  shows "\<exists>k'. rt_timer_start i k = Some k' \<and>
    timeout_tick (timers k' i) = rt_tick k + timer_init_tick (timers k i) \<and> timer_active k' i \<and>
    (\<forall>j. j \<noteq> i \<longrightarrow> timers k' j = timers k j) \<and>
    timer_list k' =
      takeWhile (\<lambda>j. since b (timeout_tick (timers k' j)) \<le> since b (timeout_tick (timers k' i))) (removeAll i (timer_list k)) @
      i # dropWhile (\<lambda>j. since b (timeout_tick (timers k' j)) \<le> since b (timeout_tick (timers k' i))) (removeAll i (timer_list k)) \<and>
    timeouts_ordered b (\<lambda>j. timeout_tick (timers k' j)) (timer_list k')"
proof (intro exI conjI)
  let ?k' = "timer_link i k" and ?ts = "removeAll i (timer_list k)"
  let ?tick = "\<lambda>j. timeout_tick (timers (timer_link i k) j)"
  have b: "\<forall>j \<in> set ?ts. since b (?tick j) < 0x7fffffff"
    using assms(2) by (auto simp: timeouts_ordered_def timer_link_effect)
  have bi: "since b (?tick i) < 0x7fffffff"
    using assms(3) by (simp add: timer_link_effect started_def)
  show "timer_list ?k' = takeWhile (\<lambda>j. since b (?tick j) \<le> since b (?tick i)) ?ts @
      i # dropWhile (\<lambda>j. since b (?tick j) \<le> since b (?tick i)) ?ts"
    using timer_insert_position [OF b bi] assms(1) timer_link_effect(1,2) [of i k] by simp
  show "timeouts_ordered b ?tick (timer_list ?k')" by (rule timer_link_ordered [OF assms(2,1,3)])
  show "timer_active ?k' i"
    by (rule timer_link_active)
qed (use assms(1) in \<open>simp_all add: hard_timer_start timer_link_effect started_def\<close>)

theorem timer_start_in_order_witness:
  "\<exists>k'. rt_timer_start (UserTimer 7) sample_timers = Some k' \<and>
    timeout_tick (timers k' (UserTimer 7)) = 3 \<and> timer_active k' (UserTimer 7) \<and>
    timer_list k' = [UserTimer 0, ThreadTimer 5, UserTimer 7, UserTimer 2]"
proof -
  have "hard_timer sample_timers (UserTimer 7)"
    "since 0xfffffff0 (rt_tick sample_timers + timer_init_tick (timers sample_timers (UserTimer 7))) < 0x7fffffff"
    by (simp_all add: sample_timers_def hard_timer_def since_def)
  from timer_start_in_order [OF this(1) sample_ordered this(2)] show ?thesis
    by (auto simp: sample_timers_def since_def)
qed

text \<open>
  Property C12. Let the timeout functions of the application leave the scheduler and the timers alone
  (they may change the variables of the application) and let no pending periodic timer have period 0.
  Then \<^verbatim>\<open>rt_timer_check\<close> returns, keeps the scheduler and timer invariants, and handles exactly the
  timers that are due: it calls the function of every due application timer, once each, in the order of
  expiry, and of no other; a one-shot timer is taken out of the list and deactivated, a periodic one is
  linked again one period later, a thread waiting for its timer is made runnable with the error code
  for a timeout, no other timer is touched and no other thread gets this result, and no timer is due
  any more.
\<close>

theorem timer_check_exact:
  assumes "check_inv b k" and "callbacks_passive g cb"
  shows "\<exists>k'. rt_timer_check cb e k = Some (run_callbacks g (due_timers k) e, k') \<and>
    check_inv b k' \<and> due_timers k' = [] \<and>
    set (timer_list k') = {i \<in> set (timer_list k). i \<in> set (due_timers k) \<longrightarrow> periodic k i} \<and>
    (\<forall>i. timers k' i = (if i \<in> set (due_timers k)
        then (if periodic k i then started (rt_tick k) else stopped) (timers k i) else timers k i)) \<and>
    (\<forall>t. timed_out k' t \<longleftrightarrow> ThreadTimer t \<in> set (due_timers k) \<or> timed_out k t)"
  using timer_check_loop_ok [OF assms] unfolding rt_timer_check_def by blast

theorem timer_check_exact_witness:
  "\<exists>k'. rt_timer_check (env_callbacks log_timer) [] sample_timers = Some ([0], k') \<and>
    set (timer_list k') = {UserTimer 0, UserTimer 2} \<and> timeout_tick (timers k' (UserTimer 0)) = 19 \<and>
    timed_out k' 5 \<and> due_timers k' = []"
proof -
  have due: "due_timers sample_timers = [UserTimer 0, ThreadTimer 5]"
    by (simp add: due_timers_def timer_due_def sample_timers_def half_range)
  have per: "periodic sample_timers (UserTimer 0)" "\<not> periodic sample_timers (ThreadTimer 5)"
    and list: "timer_list sample_timers = [UserTimer 0, ThreadTimer 5, UserTimer 2]"
    by (simp_all add: sample_timers_def periodic_def timer_flag_defs)
  from timer_check_exact [OF sample_check_inv passive_callbacks, of log_timer "[]"] show ?thesis
    unfolding due list using per by (auto simp: sample_timers_def started_def log_timer_def)
qed

text \<open>
  A periodic timer of period 0, which \<^verbatim>\<open>rt_timer_init\<close> accepts, is due again as soon as it
  has been handled: the loop of \<^verbatim>\<open>rt_timer_check\<close>, which runs in the tick interrupt, never ends. Every
  round succeeds and leads to a state of the same kind.
\<close>

theorem timer_period_zero_hangs:
  assumes "zero_period n k" and "callbacks_passive g cb"
  shows "(\<exists>k'. timer_fire cb (UserTimer n) e k = Some (g n e, k') \<and> zero_period n k') \<and> rt_timer_check cb e k = None"
  using zero_period_fire [OF assms] zero_period_loop [of cb "rt_tick k" e k _ g n] assms
  by (cases "rt_timer_check cb e k") (auto simp: rt_timer_check_def)

theorem timer_period_zero_hangs_witness:
  "(let k = sample_timers\<lparr>timers := (\<lambda>_. \<lparr>timer_flag = 3, timer_init_tick = 0, timeout_tick = 0xffffffff\<rparr>),
      timer_list := [UserTimer 0]\<rparr>
    in rt_timer_check (env_callbacks log_timer) [] k = None)"
proof -
  let ?k = "sample_timers\<lparr>timers := (\<lambda>_. \<lparr>timer_flag = 3, timer_init_tick = 0, timeout_tick = 0xffffffff\<rparr>),
      timer_list := [UserTimer 0]\<rparr>"
  have "ready_inv ?k" using sample_timers_inv by (subst ready_inv_same [of _ sample_timers]) simp_all
  then have "zero_period 0 ?k"
    by (simp add: zero_period_def sample_timers_def sample_kernel_def timer_active_def hard_timer_def periodic_def
        timer_flag_defs timer_due_def half_range)
  from timer_period_zero_hangs [OF this passive_callbacks, of log_timer "[]"] show ?thesis by simp
qed

text \<open>
  Sleeping: the calling thread is suspended with its timer pending at the current tick
  plus the interval, another thread of the highest ready priority runs, and the invariant holds. An
  interval of half the range of the tick or more stops in an assertion.
\<close>

theorem thread_sleep_blocks:
  assumes "ready_inv k" and "rt_current_thread k = Some t" and "thread_state k t = RT_THREAD_RUNNING"
    and "rt_scheduler_lock_nest k = 0" and "thread_state k idle = RT_THREAD_READY"
    and "hard_timer k (ThreadTimer t)"
  shows "if tick < RT_TICK_MAX div 2
    then \<exists>k' c. rt_thread_sleep tick k = Some k' \<and> ready_inv k' \<and> thread_state k' t = RT_THREAD_SUSPEND \<and>
      ThreadTimer t \<in> set (timer_list k') \<and> timer_active k' (ThreadTimer t) \<and>
      timeout_tick (timers k' (ThreadTimer t)) = rt_tick k + tick \<and>
      rt_current_thread k' = Some c \<and> c \<noteq> t \<and> thread_state k' c = RT_THREAD_RUNNING \<and>
      (\<forall>u. thread_state k' u = RT_THREAD_READY \<longrightarrow>
           current_priority (threads k' c) \<le> current_priority (threads k' u))
    else rt_thread_sleep tick k = None"
proof (cases "tick < RT_TICK_MAX div 2")
  case True
  let ?i = "ThreadTimer t"
  obtain k1 k2 where k2: "rt_thread_suspend t (upd_thread t (\<lambda>th. th\<lparr>error := RT_EOK\<rparr>) k) = Some (RT_EOK, k1)"
    "rt_timer_control ?i TIMER_SET_TIME tick k1 = Some (tick, k2)"
    "rt_timer_start ?i k2 = Some (timer_link ?i k2)" "ready_inv (timer_link ?i k2)"
    "rt_current_thread (timer_link ?i k2) = Some t"
    "thread_state (timer_link ?i k2) = (thread_state k)(t := RT_THREAD_SUSPEND)"
    "rt_scheduler_lock_nest (timer_link ?i k2) = 0" "rt_tick k2 = rt_tick k" "hard_timer k2 ?i"
    "timer_init_tick (timers k2 ?i) = tick"
    using sleep_prepared [OF assms(1-3,6) True] assms(4) by auto
  define k3 where "k3 = timer_link ?i k2"
  note k3 = k2(3-7) [folded k3_def]
  have idle: "idle \<noteq> t" using assms(3,5) by (auto simp: kernel_simps)
  have "thread_state k3 idle = RT_THREAD_READY" using assms(5) idle by (simp add: k3)
  then have grp: "rt_thread_ready_priority_group k3 \<noteq> 0"
    using group_zero_none_ready [OF ready_queue [OF k3(2)], of idle] k3(3) idle by auto
  then obtain k' c where k': "rt_schedule k3 = Some k'" "ready_inv k'" "rt_current_thread k' = Some c"
      "thread_state k' c = RT_THREAD_RUNNING"
      "\<forall>u. thread_state k' u = RT_THREAD_READY \<longrightarrow> current_priority (threads k' c) \<le> current_priority (threads k' u)"
    using rt_schedule_ok [OF k3(2,3)] k3(5) by blast
  have susp: "thread_state k' t = RT_THREAD_SUSPEND"
    using rt_schedule_suspended [OF k3(2,3) k'(1)] by (simp add: k3)
  then have ct: "c \<noteq> t" using k'(4) by (auto simp: kernel_simps)
  have sleep: "rt_thread_sleep tick k = Some k'"
    using assms(2) k2(1,2) k3(1) k'(1) by (simp add: rt_thread_sleep_def rt_thread_self_def del: rt_timer_control.simps)
  note frame = rt_schedule_frame [OF k'(1)]
  have "ThreadTimer t \<in> set (timer_list k')"
    using k2(9) by (simp add: frame k3_def timer_link_effect timer_insert_set)
  moreover have "timeout_tick (timers k' ?i) = rt_tick k + tick"
    using k2(8,10) by (simp add: frame k3_def timer_link_effect started_def)
  moreover have "timer_active k' ?i"
    using timer_link_active [of ?i k2] by (simp add: timer_active_def frame k3_def)
  ultimately show ?thesis using True sleep k' susp ct by auto
next
  case False
  obtain k1 where "rt_thread_suspend t (upd_thread t (\<lambda>th. th\<lparr>error := RT_EOK\<rparr>) k) = Some (RT_EOK, k1)"
    using sleep_prepared [OF assms(1-3,6), of 0] by (auto simp: half_range)
  then show ?thesis
    using False assms(2) by (simp add: rt_thread_sleep_def rt_thread_self_def)
qed

theorem thread_sleep_blocks_witness:
  "\<exists>k' c. rt_thread_sleep 100 sample_timers = Some k' \<and> ready_inv k' \<and> thread_state k' 0 = RT_THREAD_SUSPEND \<and>
      ThreadTimer 0 \<in> set (timer_list k') \<and> timeout_tick (timers k' (ThreadTimer 0)) = 99 \<and>
      rt_current_thread k' = Some c \<and> c \<noteq> 0 \<and> thread_state k' c = RT_THREAD_RUNNING"
proof -
  have *: "rt_current_thread sample_timers = Some 0" "rt_scheduler_lock_nest sample_timers = 0"
    "hard_timer sample_timers (ThreadTimer 0)" "rt_tick sample_timers = 0xffffffff"
    by (simp_all add: sample_timers_def sample_kernel_def hard_timer_def)
  have st: "thread_state sample_timers 0 = RT_THREAD_RUNNING" "thread_state sample_timers 3 = RT_THREAD_READY"
    by (simp_all add: sample_timers_states sample_states)
  from thread_sleep_blocks [OF sample_timers_inv *(1) st(1) *(2) st(2) *(3), of 100]
  show ?thesis by (auto simp: half_range *(4))
qed

text \<open>
  \<^verbatim>\<open>rt_tick_from_millisecond\<close> at the configured 1000 ticks per second: a non-negative
  32-bit number of milliseconds gives as many ticks, without overflow; a negative one gives the
  largest tick, which means to wait for ever.
\<close>

theorem tick_from_millisecond_exact:
  assumes "- (2 ^ 31) \<le> ms" and "ms < 2 ^ 31"
  shows "unat (rt_tick_from_millisecond ms) = (if ms < 0 then 2 ^ 32 - 1 else nat ms)"
proof (cases "ms < 0")
  case False
  have "(1000 * (ms mod 1000) + 999) div 1000 = ms mod 1000" by simp
  moreover have "word_of_int (1000 * (ms div 1000)) + word_of_int (ms mod 1000) = (word_of_int ms :: u32)"
    by (simp only: wi_hom_add mult_div_mod_eq)
  ultimately have "rt_tick_from_millisecond ms = word_of_int ms"
    using False by (simp add: rt_tick_from_millisecond_def RT_TICK_PER_SECOND_def)
  then show ?thesis
    using False assms by (simp add: unat_eq_nat_uint uint_word_of_int take_bit_int_eq_self)
qed (simp add: rt_tick_from_millisecond_def)

theorem tick_from_millisecond_exact_witness:
  "unat (rt_tick_from_millisecond 1500) = 1500 \<and> unat (rt_tick_from_millisecond (- 1)) = 2 ^ 32 - 1"
  using tick_from_millisecond_exact [of 1500] tick_from_millisecond_exact [of "- 1"] by simp

end
