(* ===== verification/Ipc.thy ===== *)
theory Ipc
  imports Timer
begin

text \<open>
  What the inter-thread communication objects (\<^verbatim>\<open>rt-thread/src/ipc.c\<close>) share: the lists of suspended
  threads, how a thread is put into such a list and how the threads in it are resumed. An object is
  a record of its own that carries the identifier of its list heads. A call that blocks ends with the
  outcome \<open>Blocked\<close> and the state in which the next thread runs; the rest of the call is a separate
  definition, applied to the state in which the thread runs again. Calls are made from threads, so
  the checks of the interrupt nesting are not part of the model.
\<close>

section \<open>Operations\<close>

definition RT_IPC_FLAG_FIFO :: u8 where "RT_IPC_FLAG_FIFO = 0"
definition RT_IPC_FLAG_PRIO :: u8 where "RT_IPC_FLAG_PRIO = 1"
definition RT_IPC_CMD_RESET :: nat where "RT_IPC_CMD_RESET = 1"
definition RT_WAITING_FOREVER :: int where "RT_WAITING_FOREVER = - 1"
definition RT_WAITING_NO :: int where "RT_WAITING_NO = 0"

datatype outcome = Returned int | Blocked tid

definition ipc_object_init :: "list_head \<Rightarrow> kernel \<Rightarrow> kernel" where
  "ipc_object_init h k = k\<lparr>tlists := (tlists k)(h := [])\<rparr>"

text \<open>The loop that looks for the first waiting thread of lower priority.\<close>

fun prio_insert :: "(tid \<Rightarrow> nat) \<Rightarrow> tid \<Rightarrow> tid list \<Rightarrow> tid list" where
  "prio_insert prio t [] = [t]"
| "prio_insert prio t (s # ss) = (if prio t < prio s then t # s # ss else s # prio_insert prio t ss)"

definition ipc_list_suspend :: "list_head \<Rightarrow> tid \<Rightarrow> u8 \<Rightarrow> kernel \<Rightarrow> kernel option" where
  "ipc_list_suspend h t flag k =
     do { (_, k1) \<leftarrow> rt_thread_suspend t k;
          if flag = RT_IPC_FLAG_FIFO then Some (list_insert_before h t k1)
          else if flag = RT_IPC_FLAG_PRIO
          then Some (k1\<lparr>tlists := (tlists k1)(h :=
                 prio_insert (\<lambda>u. current_priority (threads k1 u)) t (tlists k1 h))\<rparr>)
          else None }"

definition ipc_list_resume :: "list_head \<Rightarrow> kernel \<Rightarrow> kernel option" where
  "ipc_list_resume h k =
     (case tlists k h of [] \<Rightarrow> None | t # _ \<Rightarrow> Some (snd (rt_thread_resume t k)))"

text \<open>The loop would not end if a thread in the list were not suspended.\<close>

partial_function (option) ipc_list_resume_all :: "list_head \<Rightarrow> kernel \<Rightarrow> kernel option" where
  "ipc_list_resume_all h k =
     (case tlists k h of
        [] \<Rightarrow> Some k
      | t # _ \<Rightarrow> ipc_list_resume_all h
                  (snd (rt_thread_resume t (upd_thread t (\<lambda>th. th\<lparr>error := - RT_ERROR\<rparr>) k))))"

text \<open>\<^verbatim>\<open>RT_DEBUG_SCHEDULER_AVAILABLE\<close>.\<close>

definition scheduler_available :: "kernel \<Rightarrow> bool" where
  "scheduler_available k \<longleftrightarrow> rt_critical_level k = 0 \<and> rt_thread_self k \<noteq> None"

text \<open>The sequence with which every blocking call gives up the processor.\<close>

definition ipc_wait :: "list_head \<Rightarrow> tid \<Rightarrow> u8 \<Rightarrow> int \<Rightarrow> kernel \<Rightarrow> kernel option" where
  "ipc_wait h t flag timeout k =
     do { k1 \<leftarrow> ipc_list_suspend h t flag k;
          k2 \<leftarrow> (if timeout > 0
                 then do { (_, k') \<leftarrow> rt_timer_control (ThreadTimer t) TIMER_SET_TIME (word_of_int timeout) k1;
                           rt_timer_start (ThreadTimer t) k' }
                 else Some k1);
          rt_schedule k2 }"

text \<open>
  The timeout that is left after a wait that started at \<open>start\<close>: 32-bit arithmetic, \<^verbatim>\<open>timeout\<close> is signed.
\<close>

definition timeout_left :: "int \<Rightarrow> u32 \<Rightarrow> u32 \<Rightarrow> int" where
  "timeout_left timeout start now =
     (if timeout > 0 then
        let left = sint (word_of_int timeout - (now - start) :: u32) in if left < 0 then 0 else left
      else timeout)"

section \<open>Frames\<close>

text \<open>The fields of a thread that the scheduler never changes.\<close>

definition same_threads :: "kernel \<Rightarrow> kernel \<Rightarrow> bool" where
  "same_threads k k' \<longleftrightarrow>
     (\<forall>u. error (threads k' u) = error (threads k u) \<and>
          current_priority (threads k' u) = current_priority (threads k u) \<and>
          event_set (threads k' u) = event_set (threads k u) \<and>
          event_info (threads k' u) = event_info (threads k u))"

lemma same_threads_refl [simp]: "same_threads k k"
  by (simp add: same_threads_def)

lemma same_threads_trans: "same_threads k k' \<Longrightarrow> same_threads k' k'' \<Longrightarrow> same_threads k k''"
  by (simp add: same_threads_def)

lemma same_threads_eq: "threads k' = threads k \<Longrightarrow> same_threads k k'"
  by (simp add: same_threads_def)

lemma same_threads_set_state: "same_threads k (set_state s t k)"
  by (simp add: same_threads_def set_state_def kernel_simps)

lemma same_threads_insert: "same_threads k (rt_schedule_insert_thread t k)"
  by (simp add: same_threads_def rt_schedule_insert_thread_def Let_def set_state_def kernel_simps)

lemma same_threads_schedule:
  assumes "rt_schedule k = Some k'"
  shows "same_threads k k'"
  using assms
  by (auto simp: same_threads_def rt_schedule_def rt_schedule_insert_thread_def Let_def set_state_def
      kernel_simps remove_thread_effect bind_eq_Some_conv split: if_splits)

lemma same_threads_suspend:
  "rt_thread_suspend t k = Some (r, k') \<Longrightarrow> same_threads k k'"
  by (auto simp: same_threads_def rt_thread_suspend_def set_state_def kernel_simps remove_thread_effect
      split: if_splits)

lemma same_threads_resume: "same_threads k (snd (rt_thread_resume t k))"
proof -
  have "same_threads k (snd (rt_timer_stop (ThreadTimer t) (list_remove t k)))"
    by (rule same_threads_eq) (simp add: kernel_simps)
  then show ?thesis
    using same_threads_insert same_threads_trans by (auto simp: rt_thread_resume_def)
qed

text \<open>A list of waiting threads is only changed by the operations on that list.\<close>

definition wait_head :: "list_head \<Rightarrow> bool" where
  "wait_head h \<longleftrightarrow> (\<exists>i. h = SuspHead i \<or> h = SenderHead i)"

lemma wait_head_simps [simp]:
  "wait_head (SuspHead i)" "wait_head (SenderHead i)" "\<not> wait_head (PrioHead p)" "\<not> wait_head DefunctHead"
  by (simp_all add: wait_head_def)

lemma waiting_suspended:
  "ready_inv k \<Longrightarrow> wait_head h \<Longrightarrow> t \<in> set (tlists k h) \<Longrightarrow> thread_state k t = RT_THREAD_SUSPEND"
  using ready_wait [of k] by (auto simp: wait_head_def wait_inv_def)

lemma rt_schedule_waits:
  assumes inv: "ready_inv k" and k': "rt_schedule k = Some k'" and h: "wait_head h"
  shows "tlists k' h = tlists k h"
proof -
  have q: "queue_inv (set_option (rt_current_thread k)) k" by (rule ready_queue [OF inv])
  have np: "h \<noteq> PrioHead p" for p using h by auto
  have run: "removeAll t (tlists k h) = tlists k h" if "thread_state k t = RT_THREAD_RUNNING" for t
    using that waiting_suspended [OF inv h, of t] by (intro removeAll_id) (auto simp: kernel_simps)
  have ready: "removeAll t (tlists k h) = tlists k h" if "t \<in> set (tlists k (PrioHead p))" for t p
    using queue_disjoint [OF q that, of h] np by (intro removeAll_id) auto
  have top: "\<exists>p. t \<in> set (tlists k (PrioHead p))"
    if "scheduler_get_highest_priority_thread k = Some (t, p)" for t p
    using that by (auto simp: scheduler_get_highest_priority_thread_def Let_def split: list.splits
        intro: exI [of _ "rt_ffs (rt_thread_ready_priority_group k) - 1"])
  have ins: "tlists (rt_schedule_insert_thread c k1) h = tlists k1 h" for c k1
    using np by (simp add: rt_schedule_insert_thread_def Let_def kernel_simps)
  show ?thesis
    using k'
    by (auto simp: rt_schedule_def Let_def kernel_simps remove_thread_effect ins bind_eq_Some_conv run
        dest!: top intro: ready split: if_splits)
qed

section \<open>Suspending into a waiting list\<close>

lemma prio_insert_position:
  "prio_insert prio t ss = takeWhile (\<lambda>s. prio s \<le> prio t) ss @ t # dropWhile (\<lambda>s. prio s \<le> prio t) ss"
  by (induction ss) auto

lemma prio_insert_set: "set (prio_insert prio t ss) = insert t (set ss)"
  by (induction ss) auto

lemma prio_insert_distinct: "t \<notin> set ss \<Longrightarrow> distinct ss \<Longrightarrow> distinct (prio_insert prio t ss)"
  by (induction ss) (auto simp: prio_insert_set)

lemma prio_insert_sorted: "sorted (map prio ss) \<Longrightarrow> sorted (map prio (prio_insert prio t ss))"
  by (induction ss) (auto simp: prio_insert_set)

text \<open>The waiting list after the thread has been put into it.\<close>

definition enqueued :: "u8 \<Rightarrow> kernel \<Rightarrow> tid \<Rightarrow> tid list \<Rightarrow> tid list" where
  "enqueued flag k t ss =
     (if flag = RT_IPC_FLAG_PRIO then prio_insert (\<lambda>u. current_priority (threads k u)) t ss else ss @ [t])"

lemma enqueued_set [simp]: "set (enqueued flag k t ss) = insert t (set ss)"
  by (auto simp: enqueued_def prio_insert_set)

lemma enqueued_distinct: "t \<notin> set ss \<Longrightarrow> distinct ss \<Longrightarrow> distinct (enqueued flag k t ss)"
  by (simp add: enqueued_def prio_insert_distinct)

lemma enqueued_not_nil [simp]: "enqueued flag k t ss \<noteq> []"
  by (metis enqueued_set insert_not_empty list.set(1))

lemma same_prio_enqueued:
  "same_threads k k' \<Longrightarrow> enqueued flag k' t ss = enqueued flag k t ss"
  by (simp add: enqueued_def same_threads_def)

lemma ipc_list_suspend_ok:
  assumes inv: "ready_inv k" and cur: "rt_current_thread k = Some t"
    and run: "thread_state k t = RT_THREAD_RUNNING" and h: "wait_head h"
    and flag: "flag = RT_IPC_FLAG_FIFO \<or> flag = RT_IPC_FLAG_PRIO"
  shows "\<exists>k'. ipc_list_suspend h t flag k = Some k' \<and> ready_inv k' \<and> rt_current_thread k' = Some t \<and>
    thread_state k' = (thread_state k)(t := RT_THREAD_SUSPEND) \<and>
    tlists k' = (tlists k)(h := enqueued flag k t (tlists k h)) \<and>
    rt_scheduler_lock_nest k' = rt_scheduler_lock_nest k \<and> rt_tick k' = rt_tick k \<and> same_threads k k' \<and>
    (hard_timer k' (ThreadTimer t) \<longleftrightarrow> hard_timer k (ThreadTimer t)) \<and> \<not> timer_active k' (ThreadTimer t)"
proof -
  obtain k1 where k1: "rt_thread_suspend t k = Some (RT_EOK, k1)" "ready_inv k1"
      "thread_state k1 = (thread_state k)(t := RT_THREAD_SUSPEND)" "rt_current_thread k1 = Some t"
      "unlisted t k1" "\<not> timer_active k1 (ThreadTimer t)" "tlists k1 = tlists k" "rt_tick k1 = rt_tick k"
    using rt_thread_suspend_ok [OF inv cur run] by blast
  note same = same_threads_suspend [OF k1(1)]
  define k' where "k' = k1\<lparr>tlists := (tlists k)(h := enqueued flag k t (tlists k h))\<rparr>"
  have susp: "ipc_list_suspend h t flag k = Some k'"
    using flag k1(1) same_prio_enqueued [OF same, of flag t "tlists k h"]
    by (auto simp: ipc_list_suspend_def k'_def enqueued_def list_insert_before_def k1(7)
        RT_IPC_FLAG_FIFO_def RT_IPC_FLAG_PRIO_def)
  have st: "thread_state k' = thread_state k1" by (simp add: k'_def thread_state_def fun_eq_iff)
  have q1: "queue_inv {t} k1" using ready_queue [OF k1(2)] k1(4) by simp
  have new: "t \<notin> set (tlists k h)" using k1(5,7) by (simp add: unlisted_def)
  have "queue_inv {t} (k1\<lparr>tlists := (tlists k1)(h := enqueued flag k t (tlists k h))\<rparr>)"
    using h new queue_distinct [OF q1, of h] k1(7)
    by (intro queue_inv_enlist [OF q1 k1(5)]) (auto intro: enqueued_distinct)
  then have "queue_inv (set_option (rt_current_thread k1)) k'"
    by (simp add: k'_def k1(4,7))
  moreover have "wait_inv k'"
    using ready_wait [OF k1(2)] h k1(3,7) unfolding wait_inv_def st
    by (auto simp: k'_def wait_head_def split: if_splits)
  ultimately have "ready_inv k'"
    by (rule ready_inv_relist [OF k1(2)]) (simp_all add: k'_def k1(4) thread_state_def fun_eq_iff)
  moreover have "same_threads k k'" using same by (simp add: same_threads_def k'_def)
  ultimately show ?thesis
    using susp st k1 rt_thread_suspend_lock [OF k1(1)] rt_thread_suspend_timers(2) [OF k1(1)]
    by (intro exI [of _ k']) (simp add: k'_def hard_timer_def timer_active_def)
qed

text \<open>The effect of a blocking wait, for every object of this file.\<close>

text \<open>The processor runs a thread in state RUNNING.\<close>

definition running :: "kernel \<Rightarrow> bool" where
  "running k \<longleftrightarrow> (\<exists>c. rt_current_thread k = Some c \<and> thread_state k c = RT_THREAD_RUNNING)"

lemma ipc_wait_ok:
  assumes inv: "ready_inv k" and cur: "rt_current_thread k = Some t"
    and run: "thread_state k t = RT_THREAD_RUNNING" and h: "wait_head h"
    and flag: "flag = RT_IPC_FLAG_FIFO \<or> flag = RT_IPC_FLAG_PRIO"
    and hard: "hard_timer k (ThreadTimer t)" and timeout: "timeout < 2 ^ 31 - 1"
  shows "\<exists>k'. ipc_wait h t flag timeout k = Some k' \<and> ready_inv k' \<and> rt_current_thread k' \<noteq> None \<and>
    thread_state k' t = RT_THREAD_SUSPEND \<and>
    (\<forall>g. wait_head g \<longrightarrow> tlists k' g = ((tlists k)(h := enqueued flag k t (tlists k h))) g) \<and>
    same_threads k k' \<and> rt_scheduler_lock_nest k' = rt_scheduler_lock_nest k \<and> rt_tick k' = rt_tick k \<and>
    timer_active k' (ThreadTimer t) = (0 < timeout) \<and>
    (0 < timeout \<longrightarrow> ThreadTimer t \<in> set (timer_list k') \<and>
       timeout_tick (timers k' (ThreadTimer t)) = rt_tick k + word_of_int timeout) \<and>
    (rt_scheduler_lock_nest k = 0 \<longrightarrow> (\<exists>u. u \<noteq> t \<and> thread_state k u = RT_THREAD_READY) \<longrightarrow> running k')"
proof -
  let ?i = "ThreadTimer t"
  obtain k1 where k1: "ipc_list_suspend h t flag k = Some k1" "ready_inv k1" "rt_current_thread k1 = Some t"
      "thread_state k1 = (thread_state k)(t := RT_THREAD_SUSPEND)"
      "tlists k1 = (tlists k)(h := enqueued flag k t (tlists k h))"
      "rt_scheduler_lock_nest k1 = rt_scheduler_lock_nest k" "rt_tick k1 = rt_tick k" "same_threads k k1"
      "hard_timer k1 ?i" "\<not> timer_active k1 ?i"
    using ipc_list_suspend_ok [OF inv cur run h flag] hard by blast
  define k1' where "k1' = upd_timer ?i (\<lambda>tm. tm\<lparr>timer_init_tick := word_of_int timeout\<rparr>) k1"
  define k2 where "k2 = (if 0 < timeout then timer_link ?i k1' else k1)"
  have k2: "threads k2 = threads k1" "tlists k2 = tlists k1" "rt_current_thread k2 = rt_current_thread k1"
      "rt_thread_ready_priority_group k2 = rt_thread_ready_priority_group k1"
      "rt_scheduler_lock_nest k2 = rt_scheduler_lock_nest k1" "rt_tick k2 = rt_tick k1"
    by (simp_all add: k2_def k1'_def timer_link_effect kernel_simps)
  have inv2: "ready_inv k2" using k1(2) ready_inv_same [of k2 k1] k2 by simp
  have st2: "thread_state k2 = thread_state k1" by (simp add: thread_state_def k2 fun_eq_iff)
  have same2: "same_threads k k2" using k1(8) by (simp add: same_threads_def k2)
  have hard': "hard_timer k1' ?i" using k1(9) by (simp add: hard_timer_def k1'_def kernel_simps)
  have "word_of_int timeout < RT_TICK_MAX div 2" if "0 < timeout"
    using that timeout by (simp add: half_range word_less_alt uint_word_of_int take_bit_int_eq_self)
  then have wait: "ipc_wait h t flag timeout k = rt_schedule k2"
    using k1(1) hard_timer_start [OF hard'] by (simp add: ipc_wait_def k2_def k1'_def)
  obtain k' where k': "rt_schedule k2 = Some k'" "ready_inv k'" "rt_current_thread k' \<noteq> None"
    using rt_schedule_keeps_inv [OF inv2] k1(3) k2(3) by auto
  note frame = rt_schedule_frame [OF k'(1)]
  have "thread_state k' t = RT_THREAD_SUSPEND"
    using rt_schedule_suspended [OF inv2 _ k'(1)] k1(3,4) by (simp add: k2 st2)
  moreover have "tlists k' g = ((tlists k)(h := enqueued flag k t (tlists k h))) g" if "wait_head g" for g
    using rt_schedule_waits [OF inv2 k'(1) that] k1(5) by (simp add: k2)
  moreover have "same_threads k k'" using same_threads_trans [OF same2 same_threads_schedule [OF k'(1)]] .
  moreover have "timer_active k' ?i = (0 < timeout)"
    using k1(10) timer_link_active [of ?i k1'] by (simp add: timer_active_def frame k2_def)
  moreover have "ThreadTimer t \<in> set (timer_list k')" "timeout_tick (timers k' ?i) = rt_tick k + word_of_int timeout"
    if "0 < timeout"
    using that hard' k1(7)
    by (simp_all add: frame k2_def timer_link_effect timer_insert_set started_def)
      (simp add: k1'_def kernel_simps)
  moreover have "running k'" if "rt_scheduler_lock_nest k = 0" "u \<noteq> t" "thread_state k u = RT_THREAD_READY" for u
  proof -
    have "rt_thread_ready_priority_group k2 \<noteq> 0"
      using that group_zero_none_ready [OF ready_queue [OF inv2], of u] k1(3,4) by (auto simp: k2 st2)
    then show ?thesis using rt_schedule_ok [OF inv2, of t] k1(3,6) k2(3,5) k'(1) that(1) unfolding running_def by auto
  qed
  ultimately show ?thesis
    using wait k' frame(1,2) k1(6,7) by (auto simp: k2)
qed

section \<open>Resuming from a waiting list\<close>

lemma resume_waits:
  assumes inv: "ready_inv k" and h: "wait_head h" "t \<in> set (tlists k h)" and g: "wait_head g"
  shows "tlists (snd (rt_thread_resume t k)) g = (if g = h then removeAll t (tlists k h) else tlists k g)"
proof -
  have st: "thread_state k t = RT_THREAD_SUSPEND" using waiting_suspended [OF inv h] .
  have np: "g \<noteq> PrioHead p" for p using g by auto
  have "tlists (snd (rt_thread_resume t k)) g = removeAll t (tlists k g)"
    using st np by (simp add: rt_thread_resume_def rt_schedule_insert_thread_def Let_def kernel_simps)
  moreover have "t \<notin> set (tlists k g)" if "g \<noteq> h"
    using queue_disjoint [OF ready_queue [OF inv] h(2), of g] that by blast
  ultimately show ?thesis by simp
qed

lemma removeAll_head: "distinct (t # ts) \<Longrightarrow> removeAll t (t # ts) = ts"
  by simp

lemma ipc_list_resume_ok:
  assumes inv: "ready_inv k" and h: "wait_head h" and ts: "tlists k h = t # ts"
  shows "\<exists>k'. ipc_list_resume h k = Some k' \<and> ready_inv k' \<and> rt_current_thread k' = rt_current_thread k \<and>
    thread_state k' = (thread_state k)(t := if rt_current_thread k = Some t then RT_THREAD_RUNNING else RT_THREAD_READY) \<and>
    (\<forall>g. wait_head g \<longrightarrow> tlists k' g = ((tlists k)(h := ts)) g) \<and> same_threads k k' \<and>
    rt_scheduler_lock_nest k' = rt_scheduler_lock_nest k \<and> rt_tick k' = rt_tick k"
proof -
  have t: "t \<in> set (tlists k h)" using ts by simp
  have st: "thread_state k t = RT_THREAD_SUSPEND" using waiting_suspended [OF inv h t] .
  have d: "distinct (t # ts)" using queue_distinct [OF ready_queue [OF inv], of h] ts by simp
  note r = rt_thread_resume_ok [OF inv st]
  have "tlists (snd (rt_thread_resume t k)) g = ((tlists k)(h := ts)) g" if "wait_head g" for g
    using resume_waits [OF inv h t that] ts d by simp
  moreover have "rt_scheduler_lock_nest (snd (rt_thread_resume t k)) = rt_scheduler_lock_nest k"
    "rt_tick (snd (rt_thread_resume t k)) = rt_tick k"
    by (simp_all add: rt_thread_resume_def kernel_simps)
  ultimately show ?thesis
    using ts r same_threads_resume [of k t] by (simp add: ipc_list_resume_def)
qed

text \<open>Changing fields the scheduler does not look at.\<close>

lemma upd_fields_ready:
  assumes "ready_inv k" and "\<And>th. stat (f th) = stat th \<and> current_priority (f th) = current_priority th \<and>
      number_mask (f th) = number_mask th"
  shows "ready_inv (upd_thread t f k)" and "thread_state (upd_thread t f k) = thread_state k"
proof -
  show st: "thread_state (upd_thread t f k) = thread_state k"
    using assms(2) by (auto simp: thread_state_def kernel_simps fun_eq_iff)
  show "ready_inv (upd_thread t f k)"
  proof (rule ready_inv_relist [OF assms(1) _ _ _ st])
    show "queue_inv (set_option (rt_current_thread k)) (upd_thread t f k)"
      by (rule queue_inv_cong [OF ready_queue [OF assms(1)]]) (use assms(2) in \<open>auto simp: st kernel_simps\<close>)
    show "wait_inv (upd_thread t f k)"
      by (rule wait_inv_sub [OF ready_wait [OF assms(1)]]) (simp add: st, simp add: kernel_simps)
  qed (simp add: kernel_simps)
qed

lemma upd_error_ready: "ready_inv k \<Longrightarrow> ready_inv (upd_thread t (\<lambda>th. th\<lparr>error := e\<rparr>) k)"
  by (rule upd_fields_ready) simp_all

lemma upd_error_frame:
  "thread_state (upd_thread t (\<lambda>th. th\<lparr>error := e\<rparr>) k) = thread_state k"
  "hard_timer (upd_thread t (\<lambda>th. th\<lparr>error := e\<rparr>) k) i = hard_timer k i"
  by (auto simp: thread_state_def hard_timer_def kernel_simps fun_eq_iff)

text \<open>
  \<^verbatim>\<open>_ipc_list_resume_all\<close> returns, empties its list and leaves the other waiting lists alone; the
  threads that waited are runnable with the error code \<^verbatim>\<open>-RT_ERROR\<close>.
\<close>

lemma ipc_list_resume_all_ok:
  assumes "ready_inv k" and h: "wait_head h" and "rt_current_thread k = c"
    and "\<And>u. c = Some u \<Longrightarrow> thread_state k u \<noteq> RT_THREAD_SUSPEND"
  shows "\<exists>k'. ipc_list_resume_all h k = Some k' \<and> ready_inv k' \<and> rt_current_thread k' = c \<and>
    (\<forall>g. wait_head g \<longrightarrow> tlists k' g = ((tlists k)(h := [])) g) \<and>
    (\<forall>u. thread_state k' u = (if u \<in> set (tlists k h) then RT_THREAD_READY else thread_state k u)) \<and>
    (\<forall>u. error (threads k' u) = (if u \<in> set (tlists k h) then - RT_ERROR else error (threads k u))) \<and>
    rt_scheduler_lock_nest k' = rt_scheduler_lock_nest k"
  using assms(1,3,4)
proof (induction "tlists k h" arbitrary: k)
  case Nil
  then have "ipc_list_resume_all h k = Some k" by (subst ipc_list_resume_all.simps) simp
  then show ?case using Nil by (metis (no_types, lifting) empty_iff empty_set fun_upd_triv)
next
  case (Cons t ts)
  have t: "t \<in> set (tlists k h)" using Cons.hyps(2) by (metis list.set_intros(1))
  have st: "thread_state k t = RT_THREAD_SUSPEND" using waiting_suspended [OF Cons.prems(1) h t] .
  have d: "distinct (t # ts)" using queue_distinct [OF ready_queue [OF Cons.prems(1)], of h] Cons.hyps(2) by simp
  have nc: "c \<noteq> Some t" using Cons.prems(3) st by blast
  define k0 where "k0 = upd_thread t (\<lambda>th. th\<lparr>error := - RT_ERROR\<rparr>) k"
  have k0: "ready_inv k0" "thread_state k0 = thread_state k" "tlists k0 = tlists k" "rt_current_thread k0 = c"
    "rt_scheduler_lock_nest k0 = rt_scheduler_lock_nest k"
    using upd_error_ready [OF Cons.prems(1), of t "- RT_ERROR"] Cons.prems(2)
    by (simp_all add: k0_def upd_error_frame kernel_simps)
  have err0: "error (threads k0 u) = (if u = t then - RT_ERROR else error (threads k u))" for u
    by (simp add: k0_def kernel_simps)
  obtain k1 where k1: "ipc_list_resume h k0 = Some k1" "ready_inv k1" "rt_current_thread k1 = c"
      "thread_state k1 = (thread_state k)(t := RT_THREAD_READY)"
      "\<forall>g. wait_head g \<longrightarrow> tlists k1 g = ((tlists k)(h := ts)) g" "same_threads k0 k1"
      "rt_scheduler_lock_nest k1 = rt_scheduler_lock_nest k"
    using ipc_list_resume_ok [OF k0(1) h, of t ts] Cons.hyps(2) nc by (auto simp: k0)
  have r: "snd (rt_thread_resume t k0) = k1"
    using k1(1) Cons.hyps(2) by (simp add: ipc_list_resume_def k0(3) split: list.splits)
  have ts: "ts = tlists k1 h" using k1(5) h by simp
  have c1: "thread_state k1 u \<noteq> RT_THREAD_SUSPEND" if "c = Some u" for u
    using Cons.prems(3) [OF that] nc that by (auto simp: k1(4))
  obtain k' where k': "ipc_list_resume_all h k1 = Some k'" "ready_inv k'" "rt_current_thread k' = c"
      "\<forall>g. wait_head g \<longrightarrow> tlists k' g = ((tlists k1)(h := [])) g"
      "\<forall>u. thread_state k' u = (if u \<in> set (tlists k1 h) then RT_THREAD_READY else thread_state k1 u)"
      "\<forall>u. error (threads k' u) = (if u \<in> set (tlists k1 h) then - RT_ERROR else error (threads k1 u))"
      "rt_scheduler_lock_nest k' = rt_scheduler_lock_nest k1"
    using Cons.hyps(1) [OF ts k1(2,3) c1] by blast
  have list: "tlists k h = t # ts" using Cons.hyps(2) by simp
  have "ipc_list_resume_all h k = Some k'"
    using k'(1) r by (subst ipc_list_resume_all.simps) (simp add: list k0_def)
  moreover have "\<forall>g. wait_head g \<longrightarrow> tlists k' g = ((tlists k)(h := [])) g"
    using k'(4) k1(5) by simp
  moreover have "thread_state k' u = (if u \<in> set (tlists k h) then RT_THREAD_READY else thread_state k u)" for u
    using k'(5) d by (auto simp: list k1(4) simp flip: ts)
  moreover have "error (threads k' u) = (if u \<in> set (tlists k h) then - RT_ERROR else error (threads k u))" for u
    using k'(6) k1(6) err0 [of u] d by (auto simp: list same_threads_def simp flip: ts)
  ultimately show ?case using k' k1(7) by auto
qed

text \<open>The caller of a blocking operation: the running thread, with its timer a hard timer.\<close>

definition caller :: "kernel \<Rightarrow> tid \<Rightarrow> bool" where
  "caller k t \<longleftrightarrow> rt_current_thread k = Some t \<and> thread_state k t = RT_THREAD_RUNNING \<and>
     rt_scheduler_lock_nest k = 0 \<and> hard_timer k (ThreadTimer t)"

lemma caller_available: "caller k t \<Longrightarrow> scheduler_available k \<and> rt_thread_self k = Some t"
  by (simp add: caller_def scheduler_available_def rt_critical_level_def rt_thread_self_def)

lemma upd_error_enqueued:
  "enqueued flag (upd_thread t (\<lambda>th. th\<lparr>error := e\<rparr>) k) u ss = enqueued flag k u ss"
proof -
  have "current_priority (threads (upd_thread t (\<lambda>th. th\<lparr>error := e\<rparr>) k) v) = current_priority (threads k v)" for v
    by (simp add: kernel_simps)
  then show ?thesis by (simp add: enqueued_def)
qed

lemma ipc_wait_reset_ok:
  assumes inv: "ready_inv k" and c: "caller k t" and h: "wait_head h"
    and flag: "flag = RT_IPC_FLAG_FIFO \<or> flag = RT_IPC_FLAG_PRIO" and timeout: "timeout < 2 ^ 31 - 1"
  shows "\<exists>k'. ipc_wait h t flag timeout (upd_thread t (\<lambda>th. th\<lparr>error := RT_EOK\<rparr>) k) = Some k' \<and> ready_inv k' \<and>
    rt_current_thread k' \<noteq> None \<and> thread_state k' t = RT_THREAD_SUSPEND \<and>
    (\<forall>g. wait_head g \<longrightarrow> tlists k' g = ((tlists k)(h := enqueued flag k t (tlists k h))) g) \<and>
    (\<forall>u. error (threads k' u) = (if u = t then RT_EOK else error (threads k u))) \<and>
    (\<forall>u. current_priority (threads k' u) = current_priority (threads k u) \<and>
         event_set (threads k' u) = event_set (threads k u) \<and> event_info (threads k' u) = event_info (threads k u)) \<and>
    timer_active k' (ThreadTimer t) = (0 < timeout) \<and>
    ((\<exists>u. u \<noteq> t \<and> thread_state k u = RT_THREAD_READY) \<longrightarrow> running k')"
proof -
  let ?k0 = "upd_thread t (\<lambda>th. th\<lparr>error := RT_EOK\<rparr>) k"
  have cur: "rt_current_thread k = Some t" and run: "thread_state k t = RT_THREAD_RUNNING"
    and hard: "hard_timer k (ThreadTimer t)"
    using c by (simp_all add: caller_def)
  have r0: "ready_inv ?k0" by (rule upd_error_ready [OF inv])
  obtain k' where k': "ipc_wait h t flag timeout ?k0 = Some k'" "ready_inv k'" "rt_current_thread k' \<noteq> None"
    "thread_state k' t = RT_THREAD_SUSPEND"
    "\<forall>g. wait_head g \<longrightarrow> tlists k' g = ((tlists ?k0)(h := enqueued flag ?k0 t (tlists ?k0 h))) g"
    "same_threads ?k0 k'" "timer_active k' (ThreadTimer t) = (0 < timeout)"
    "rt_scheduler_lock_nest ?k0 = 0 \<longrightarrow> (\<exists>u. u \<noteq> t \<and> thread_state ?k0 u = RT_THREAD_READY) \<longrightarrow> running k'"
    using ipc_wait_ok [OF r0 _ _ h flag _ timeout, of t] cur run hard
    by (auto simp: upd_error_frame kernel_simps)
  have "\<forall>g. wait_head g \<longrightarrow> tlists k' g = ((tlists k)(h := enqueued flag k t (tlists k h))) g"
    using k'(5) unfolding upd_error_enqueued by (simp add: kernel_simps)
  moreover have "(\<exists>u. u \<noteq> t \<and> thread_state k u = RT_THREAD_READY) \<longrightarrow> running k'"
    using k'(8) c by (simp add: upd_error_frame kernel_simps caller_def)
  ultimately show ?thesis
    using k'(1-7) by (simp add: same_threads_def kernel_simps)
qed

text \<open>Rescheduling keeps a thread running.\<close>

lemma rt_schedule_running:
  assumes "ready_inv k" and "running k" and "rt_schedule k = Some k'"
  shows "running k'"
proof (cases "rt_scheduler_lock_nest k = 0")
  case True
  then show ?thesis using rt_schedule_ok [OF assms(1)] assms(2,3) unfolding running_def by fastforce
next
  case False
  then show ?thesis using rt_schedule_idle [of k] assms(2,3) by simp
qed

lemma caller_running: "caller k t \<Longrightarrow> running k"
  by (simp add: caller_def running_def)

text \<open>Resuming the first waiting thread and rescheduling.\<close>

lemma ipc_resume_schedule_ok:
  assumes inv: "ready_inv k" and cur: "rt_current_thread k \<noteq> None" and h: "wait_head h"
    and q: "tlists k h = t # ts" and ct: "rt_current_thread k \<noteq> Some t"
  shows "\<exists>k1 k'. ipc_list_resume h k = Some k1 \<and> rt_schedule k1 = Some k' \<and> ready_inv k' \<and>
    rt_current_thread k' \<noteq> None \<and> runnable k' t \<and>
    (\<forall>u. runnable k' u \<longleftrightarrow> u = t \<or> runnable k u) \<and>
    (\<forall>g. wait_head g \<longrightarrow> tlists k' g = ((tlists k)(h := ts)) g) \<and> same_threads k k' \<and>
    (running k \<longrightarrow> running k') \<and> rt_tick k' = rt_tick k"
proof -
  obtain k1 where k1: "ipc_list_resume h k = Some k1" "ready_inv k1" "rt_current_thread k1 = rt_current_thread k"
      "thread_state k1 = (thread_state k)(t := if rt_current_thread k = Some t then RT_THREAD_RUNNING else RT_THREAD_READY)"
      "\<forall>g. wait_head g \<longrightarrow> tlists k1 g = ((tlists k)(h := ts)) g" "same_threads k k1" "rt_tick k1 = rt_tick k"
    using ipc_list_resume_ok [OF inv h q] by auto
  have run1: "running k \<Longrightarrow> running k1" using k1(3,4) ct by (auto simp: running_def)
  obtain c where c: "rt_current_thread k1 = Some c" using cur k1(3) by auto
  obtain k2 where k2: "rt_schedule k1 = Some k2" "ready_inv k2" "rt_current_thread k2 \<noteq> None"
      "\<forall>u. thread_state k2 u \<in> {RT_THREAD_READY, RT_THREAD_RUNNING} \<longleftrightarrow>
           thread_state k1 u \<in> {RT_THREAD_READY, RT_THREAD_RUNNING}"
    using rt_schedule_ok [OF k1(2) c] by blast
  have run: "runnable k2 u \<longleftrightarrow> u = t \<or> runnable k u" for u
    using k2(4) ct by (simp add: runnable_def k1(4))
  have "tlists k2 g = ((tlists k)(h := ts)) g" if "wait_head g" for g
    using rt_schedule_waits [OF k1(2) k2(1) that] k1(5) that by simp
  then show ?thesis
    using k1(1,7) k2 run same_threads_trans [OF k1(6) same_threads_schedule [OF k2(1)]]
      run1 rt_schedule_running [OF k1(2) _ k2(1)] rt_schedule_frame(2) [OF k2(1)] by (intro exI [of _ k1] exI [of _ k2]) simp
qed

lemma wake_first_ok:
  assumes "ready_inv k" and "running k" and "wait_head h" and q: "tlists k h = t # ts"
  shows "\<exists>k1 k2. ipc_list_resume h k = Some k1 \<and> rt_schedule k1 = Some k2 \<and> ready_inv k2 \<and> running k2 \<and>
    runnable k2 t \<and> (\<forall>g. wait_head g \<longrightarrow> tlists k2 g = ((tlists k)(h := ts)) g) \<and> same_threads k k2"
proof -
  have "thread_state k t = RT_THREAD_SUSPEND" using waiting_suspended [OF assms(1,3), of t] q by simp
  then have "rt_current_thread k \<noteq> Some t" using assms(2) by (auto simp: running_def kernel_simps)
  moreover have "rt_current_thread k \<noteq> None" using assms(2) by (auto simp: running_def)
  ultimately show ?thesis using ipc_resume_schedule_ok [OF assms(1) _ assms(3) q] assms(2) by blast
qed

text \<open>The thread that is woken is the only one that becomes runnable.\<close>

lemma wake_first_exact:
  assumes "ready_inv k" and "running k" and "wait_head h" and q: "tlists k h = t # ts"
  shows "\<exists>k1 k2. ipc_list_resume h k = Some k1 \<and> rt_schedule k1 = Some k2 \<and> ready_inv k2 \<and> running k2 \<and>
    {u. runnable k2 u} = insert t {u. runnable k u} \<and> (\<forall>g. wait_head g \<longrightarrow> tlists k2 g = ((tlists k)(h := ts)) g)"
proof -
  have "thread_state k t = RT_THREAD_SUSPEND" using waiting_suspended [OF assms(1,3), of t] q by simp
  then have "rt_current_thread k \<noteq> Some t" using assms(2) by (auto simp: running_def kernel_simps)
  moreover have "rt_current_thread k \<noteq> None" using assms(2) by (auto simp: running_def)
  ultimately obtain k1 k2 where "ipc_list_resume h k = Some k1" "rt_schedule k1 = Some k2" "ready_inv k2" "running k2"
    "\<forall>u. runnable k2 u \<longleftrightarrow> u = t \<or> runnable k u" "\<forall>g. wait_head g \<longrightarrow> tlists k2 g = ((tlists k)(h := ts)) g"
    using ipc_resume_schedule_ok [OF assms(1) _ assms(3) q] assms(2) by blast
  then show ?thesis by (intro exI [of _ k1] exI [of _ k2]) auto
qed

text \<open>A timeout takes the thread out of its waiting list.\<close>

lemma thread_timeout_waits:
  assumes inv: "ready_inv k" and h: "wait_head h" "t \<in> set (tlists k h)" and k': "thread_timeout t k = Some k'"
    and g: "wait_head g"
  shows "tlists k' g = removeAll t (tlists k g)"
proof -
  have st: "thread_state k t = RT_THREAD_SUSPEND" using waiting_suspended [OF inv h] .
  have s: "rt_schedule (timeout_ready t k) = Some k'"
    using k' st by (simp add: thread_timeout_def timeout_ready_def)
  have np: "g \<noteq> PrioHead p" for p using g by auto
  have "tlists (timeout_ready t k) g = removeAll t (tlists k g)"
    using np by (simp add: timeout_ready_def rt_schedule_insert_thread_def Let_def kernel_simps)
  then show ?thesis using rt_schedule_waits [OF timeout_prepared(1) [OF inv st] s g] by simp
qed

lemma ipc_object_init_ready:
  assumes "ready_inv k" and "tlists k h = []"
  shows "ipc_object_init h k = k"
  using assms(2) by (simp add: ipc_object_init_def fun_upd_idem)

lemma sample_caller: "caller sample_kernel 0"
  by (simp add: caller_def sample_states hard_timer_def) (simp add: sample_kernel_def)

lemma sample_running: "running sample_kernel"
  by (rule caller_running [OF sample_caller])

section \<open>The queues as an abstract data type\<close>

text \<open>
  What a mailbox and a message queue promise when nobody waits: a queue of \<open>n\<close> messages with sends at
  the end, urgent sends at the front, and error codes for full and empty.
\<close>

datatype 'a queue_op = QueueSend 'a | QueueUrgent 'a | QueueRecv

fun queue_step :: "nat \<times> 'a list \<Rightarrow> 'a queue_op \<Rightarrow> (outcome \<times> 'a option) \<times> (nat \<times> 'a list)" where
  "queue_step (n, q) (QueueSend v) =
     (if length q = n then ((Returned (- RT_EFULL), None), (n, q)) else ((Returned RT_EOK, None), (n, q @ [v])))"
| "queue_step (n, q) (QueueUrgent v) =
     (if length q = n then ((Returned (- RT_EFULL), None), (n, q)) else ((Returned RT_EOK, None), (n, v # q)))"
| "queue_step (n, q) QueueRecv =
     (case q of [] \<Rightarrow> ((Returned (- RT_ETIMEOUT), None), (n, q)) | v # q' \<Rightarrow> ((Returned RT_EOK, Some v), (n, q')))"

end
