(* ===== verification/Semaphore.thy ===== *)
theory Semaphore
  imports Ipc
begin

text \<open>
  Semaphores (\<^verbatim>\<open>rt-thread/src/ipc.c\<close>, \<^verbatim>\<open>rt_sem_*\<close>). The invariant says that threads only wait on a
  semaphore of value 0. The theorems show the effect of taking and releasing on every branch, and,
  over all interleavings of takes, releases, timeouts and the activity of other threads, that a
  semaphore never grants more permits than it was given.
\<close>

section \<open>Operations\<close>

record rt_semaphore =
  sem_id :: nat
  sem_flag :: u8
  sem_value :: u16

definition RT_SEM_VALUE_MAX :: u16 where "RT_SEM_VALUE_MAX = 0xffff"

abbreviation sem_head :: "rt_semaphore \<Rightarrow> list_head" where
  "sem_head s \<equiv> SuspHead (sem_id s)"

definition rt_sem_init :: "nat \<Rightarrow> u32 \<Rightarrow> u8 \<Rightarrow> kernel \<Rightarrow> (rt_semaphore \<times> kernel) option" where
  "rt_sem_init i v flag k =
     (if v < 0x10000 \<and> (flag = RT_IPC_FLAG_FIFO \<or> flag = RT_IPC_FLAG_PRIO)
      then Some (\<lparr>sem_id = i, sem_flag = flag, sem_value = ucast v\<rparr>, ipc_object_init (SuspHead i) k)
      else None)"

definition rt_sem_detach :: "rt_semaphore \<Rightarrow> kernel \<Rightarrow> kernel option" where
  "rt_sem_detach s k = ipc_list_resume_all (sem_head s) k"

definition rt_sem_delete :: "rt_semaphore \<Rightarrow> kernel \<Rightarrow> kernel option" where
  "rt_sem_delete s k = ipc_list_resume_all (sem_head s) k"

definition rt_sem_take :: "rt_semaphore \<Rightarrow> int \<Rightarrow> kernel \<Rightarrow> (outcome \<times> rt_semaphore \<times> kernel) option" where
  "rt_sem_take s timeout k =
     (if sem_value s > 0 then Some (Returned RT_EOK, s\<lparr>sem_value := sem_value s - 1\<rparr>, k)
      else if timeout = 0 then Some (Returned (- RT_ETIMEOUT), s, k)
      else if \<not> scheduler_available k then None
      else do {
        t \<leftarrow> rt_thread_self k;
        k1 \<leftarrow> ipc_wait (sem_head s) t (sem_flag s) timeout (upd_thread t (\<lambda>th. th\<lparr>error := RT_EOK\<rparr>) k);
        Some (Blocked t, s, k1) })"

text \<open>The rest of \<^verbatim>\<open>rt_sem_take\<close> when the thread that was blocked runs again.\<close>

definition rt_sem_take_resumed :: "tid \<Rightarrow> kernel \<Rightarrow> int" where
  "rt_sem_take_resumed t k = (if error (threads k t) \<noteq> RT_EOK then error (threads k t) else RT_EOK)"

definition rt_sem_trytake :: "rt_semaphore \<Rightarrow> kernel \<Rightarrow> (outcome \<times> rt_semaphore \<times> kernel) option" where
  "rt_sem_trytake s k = rt_sem_take s RT_WAITING_NO k"

definition rt_sem_release :: "rt_semaphore \<Rightarrow> kernel \<Rightarrow> (int \<times> rt_semaphore \<times> kernel) option" where
  "rt_sem_release s k =
     (if tlists k (sem_head s) \<noteq> [] then
        do { k1 \<leftarrow> ipc_list_resume (sem_head s) k;
             k2 \<leftarrow> rt_schedule k1;
             Some (RT_EOK, s, k2) }
      else if sem_value s < RT_SEM_VALUE_MAX then Some (RT_EOK, s\<lparr>sem_value := sem_value s + 1\<rparr>, k)
      else Some (- RT_EFULL, s, k))"

definition rt_sem_control :: "rt_semaphore \<Rightarrow> nat \<Rightarrow> u32 \<Rightarrow> kernel \<Rightarrow> (int \<times> rt_semaphore \<times> kernel) option" where
  "rt_sem_control s cmd arg k =
     (if cmd = RT_IPC_CMD_RESET then
        do { k1 \<leftarrow> ipc_list_resume_all (sem_head s) k;
             k2 \<leftarrow> rt_schedule k1;
             Some (RT_EOK, s\<lparr>sem_value := ucast arg\<rparr>, k2) }
      else Some (- RT_ERROR, s, k))"

section \<open>Invariant\<close>

text \<open>
  Threads wait only on a semaphore of value 0, and with the error code cleared, so that a thread that
  is resumed by a release returns success.
\<close>

definition sem_inv :: "rt_semaphore \<Rightarrow> kernel \<Rightarrow> bool" where
  "sem_inv s k \<longleftrightarrow>
     ready_inv k \<and> (sem_flag s = RT_IPC_FLAG_FIFO \<or> sem_flag s = RT_IPC_FLAG_PRIO) \<and>
     (sem_value s \<noteq> 0 \<longrightarrow> tlists k (sem_head s) = []) \<and>
     (\<forall>t \<in> set (tlists k (sem_head s)). error (threads k t) = RT_EOK)"

lemma sem_take_blocks:
  assumes inv: "sem_inv s k" and c: "caller k t" and v: "sem_value s = 0"
    and "timeout \<noteq> 0" and "timeout < 2 ^ 31 - 1"
  shows "\<exists>k'. rt_sem_take s timeout k = Some (Blocked t, s, k') \<and> sem_inv s k' \<and> rt_current_thread k' \<noteq> None \<and>
    thread_state k' t = RT_THREAD_SUSPEND \<and>
    tlists k' (sem_head s) = enqueued (sem_flag s) k t (tlists k (sem_head s)) \<and>
    timer_active k' (ThreadTimer t) = (0 < timeout)"
proof -
  have r: "ready_inv k" and f: "sem_flag s = RT_IPC_FLAG_FIFO \<or> sem_flag s = RT_IPC_FLAG_PRIO"
    using inv by (simp_all add: sem_inv_def)
  obtain k' where k': "ipc_wait (sem_head s) t (sem_flag s) timeout (upd_thread t (\<lambda>th. th\<lparr>error := RT_EOK\<rparr>) k) = Some k'"
    "ready_inv k'" "rt_current_thread k' \<noteq> None" "thread_state k' t = RT_THREAD_SUSPEND"
    "tlists k' (sem_head s) = enqueued (sem_flag s) k t (tlists k (sem_head s))"
    "\<forall>u. error (threads k' u) = (if u = t then RT_EOK else error (threads k u))"
    "timer_active k' (ThreadTimer t) = (0 < timeout)"
    using ipc_wait_reset_ok [OF r c _ f assms(5), of "sem_head s"] by auto
  moreover have "sem_inv s k'" using inv k' f v by (simp add: sem_inv_def)
  moreover have "rt_sem_take s timeout k = Some (Blocked t, s, k')"
    using k'(1) caller_available [OF c] v assms(4) by (simp add: rt_sem_take_def)
  ultimately show ?thesis by blast
qed

lemma sem_release_wakes:
  assumes inv: "sem_inv s k" and cur: "rt_current_thread k \<noteq> None" and q: "tlists k (sem_head s) = t # ts"
    and ct: "rt_current_thread k \<noteq> Some t"
  shows "\<exists>k'. rt_sem_release s k = Some (RT_EOK, s, k') \<and> sem_inv s k' \<and> rt_current_thread k' \<noteq> None \<and>
    runnable k' t \<and> rt_sem_take_resumed t k' = RT_EOK \<and> tlists k' (sem_head s) = ts"
proof -
  have r: "ready_inv k" using inv by (simp add: sem_inv_def)
  obtain k1 k2 where k2: "ipc_list_resume (sem_head s) k = Some k1" "rt_schedule k1 = Some k2" "ready_inv k2"
      "rt_current_thread k2 \<noteq> None" "runnable k2 t" "tlists k2 (sem_head s) = ts" "same_threads k k2"
    using ipc_resume_schedule_ok [OF r cur _ q ct] by auto
  have "sem_inv s k2" using inv k2 q by (simp add: sem_inv_def same_threads_def)
  moreover have "error (threads k2 t) = RT_EOK" using inv k2(7) q by (simp add: sem_inv_def same_threads_def)
  ultimately show ?thesis
    using k2 q by (simp add: rt_sem_release_def rt_sem_take_resumed_def)
qed

section \<open>Interleavings\<close>

text \<open>
  The steps of a system with one semaphore: a thread takes it, a thread (or an interrupt) releases
  it, the wait of a thread times out, or anything else happens that does not touch the waiting
  threads. The counters are the permits granted (takes that returned or will return success) and the
  successful releases.
\<close>

type_synonym sem_system = "rt_semaphore \<times> kernel \<times> nat \<times> nat"

inductive sem_step :: "sem_system \<Rightarrow> sem_system \<Rightarrow> bool" where
  sem_step_take:
    "caller k t \<Longrightarrow> timeout < 2 ^ 31 - 1 \<Longrightarrow> rt_sem_take s timeout k = Some (r, s', k') \<Longrightarrow>
     sem_step (s, k, granted, released)
       (s', k', if r = Returned RT_EOK then granted + 1 else granted, released)"
| sem_step_release:
    "rt_current_thread k = Some c \<Longrightarrow> thread_state k c \<noteq> RT_THREAD_SUSPEND \<Longrightarrow>
     rt_sem_release s k = Some (r, s', k') \<Longrightarrow>
     sem_step (s, k, granted, released)
       (s', k',
        if \<exists>t ts. tlists k (sem_head s) = t # ts \<and> rt_sem_take_resumed t k' = RT_EOK then granted + 1 else granted,
        if r = RT_EOK then released + 1 else released)"
| sem_step_timeout:
    "t \<in> set (tlists k (sem_head s)) \<Longrightarrow> rt_current_thread k \<noteq> None \<Longrightarrow> thread_timeout t k = Some k' \<Longrightarrow>
     sem_step (s, k, granted, released) (s, k', granted, released)"
| sem_step_other:
    "ready_inv k' \<Longrightarrow> tlists k' (sem_head s) = tlists k (sem_head s) \<Longrightarrow>
     (\<And>t. t \<in> set (tlists k (sem_head s)) \<Longrightarrow> error (threads k' t) = error (threads k t)) \<Longrightarrow>
     sem_step (s, k, granted, released) (s, k', granted, released)"

inductive_cases sem_stepE: "sem_step (s, k, granted, released) (s', k', granted', released')"

lemma sem_take_keeps:
  assumes inv: "sem_inv s k" and c: "caller k t" and "timeout < 2 ^ 31 - 1"
    and r: "rt_sem_take s timeout k = Some (r, s', k')"
  shows "sem_inv s' k' \<and>
    unat (sem_value s') + (if r = Returned RT_EOK then 1 else 0) = unat (sem_value s)"
proof (cases "sem_value s = 0 \<and> timeout \<noteq> 0")
  case True
  then show ?thesis using sem_take_blocks [OF inv c _ _ assms(3)] r by auto
next
  case False
  show ?thesis
  proof (cases "sem_value s = 0")
    case True
    then show ?thesis using False r inv by (auto simp: rt_sem_take_def RT_EOK_def RT_ETIMEOUT_def)
  next
    case pos: False
    note u16_pred [OF this]
    then show ?thesis using pos r inv by (auto simp: rt_sem_take_def sem_inv_def word_neq_0_conv)
  qed
qed

lemma sem_release_keeps:
  assumes inv: "sem_inv s k" and c: "rt_current_thread k = Some c" "thread_state k c \<noteq> RT_THREAD_SUSPEND"
    and r: "rt_sem_release s k = Some (r, s', k')"
  shows "sem_inv s' k' \<and>
    unat (sem_value s') + (if \<exists>t ts. tlists k (sem_head s) = t # ts \<and> rt_sem_take_resumed t k' = RT_EOK then 1 else 0) =
    unat (sem_value s) + (if r = RT_EOK then 1 else 0)"
proof (cases "tlists k (sem_head s)")
  case (Cons t ts)
  have "thread_state k t = RT_THREAD_SUSPEND"
    using waiting_suspended [of k "sem_head s" t] inv Cons by (simp add: sem_inv_def)
  then have "rt_current_thread k \<noteq> Some t" using c by auto
  from sem_release_wakes [OF inv _ Cons this] c(1) r show ?thesis using Cons by auto
next
  case Nil
  have "unat (sem_value s + 1) = unat (sem_value s) + 1" if "sem_value s < RT_SEM_VALUE_MAX"
    using that by (simp add: RT_SEM_VALUE_MAX_def u16_succ)
  then show ?thesis
    using r inv Nil by (auto simp: rt_sem_release_def sem_inv_def RT_EOK_def RT_EFULL_def split: if_splits)
qed

lemma sem_timeout_keeps:
  assumes inv: "sem_inv s k" and t: "t \<in> set (tlists k (sem_head s))" and c: "rt_current_thread k \<noteq> None"
    and k': "thread_timeout t k = Some k'"
  shows "sem_inv s k'"
proof -
  have r: "ready_inv k" using inv by (simp add: sem_inv_def)
  have "ready_inv k'"
    using thread_timeout_ok [OF r waiting_suspended [OF r _ t] c] k' by auto
  moreover have "tlists k' (sem_head s) = removeAll t (tlists k (sem_head s))"
    by (rule thread_timeout_waits [OF r _ t k']) simp_all
  ultimately show ?thesis
    using inv thread_timeout_frame(5) [OF k'] by (auto simp: sem_inv_def)
qed

text \<open>The invariant of the whole system, by rule induction over the steps.\<close>

definition sem_balanced :: "nat \<Rightarrow> sem_system \<Rightarrow> bool" where
  "sem_balanced init = (\<lambda>(s, k, granted, released).
     sem_inv s k \<and> unat (sem_value s) + granted = init + released)"

lemma sem_step_balanced: "sem_step x y \<Longrightarrow> sem_balanced init x \<Longrightarrow> sem_balanced init y"
proof (induction rule: sem_step.induct)
  case (sem_step_take k t timeout s r s' k' granted released)
  then show ?case using sem_take_keeps [of s k t timeout r s' k'] by (auto simp: sem_balanced_def split: if_splits)
next
  case (sem_step_release k c s r s' k' granted released)
  have inv: "sem_inv s k" and eq: "unat (sem_value s) + granted = init + released"
    using sem_step_release.prems by (simp_all add: sem_balanced_def)
  show ?case
    using sem_release_keeps [OF inv sem_step_release.hyps] eq unfolding sem_balanced_def prod.case
    by (auto split: if_splits)
next
  case (sem_step_timeout t k s k' granted released)
  then show ?case using sem_timeout_keeps [of s k t k'] by (simp add: sem_balanced_def)
next
  case (sem_step_other k' s k granted released)
  then show ?case by (simp add: sem_balanced_def sem_inv_def)
qed

lemma sem_reachable_balanced: "sem_step\<^sup>*\<^sup>* x y \<Longrightarrow> sem_balanced init x \<Longrightarrow> sem_balanced init y"
  by (induction rule: rtranclp_induct) (auto dest: sem_step_balanced)

lemma sem_init_balanced:
  assumes "ready_inv k" and "tlists k (SuspHead i) = []" and "rt_sem_init i v flag k = Some (s, k')"
  shows "sem_balanced (unat v) (s, k', 0, 0)"
proof -
  have v: "v < 0x10000" "flag = RT_IPC_FLAG_FIFO \<or> flag = RT_IPC_FLAG_PRIO"
    and s: "s = \<lparr>sem_id = i, sem_flag = flag, sem_value = ucast v\<rparr>" "k' = k"
    using assms(2,3) ipc_object_init_ready [OF assms(1,2)] by (auto simp: rt_sem_init_def split: if_splits)
  have "unat v < 2 ^ 16" using v(1) by (simp add: word_less_nat_alt)
  note u16_of_u32 [OF this]
  then show ?thesis using assms(1,2) v(2) by (simp add: sem_balanced_def sem_inv_def s)
qed

section \<open>Properties\<close>

text \<open>
  Property C10. No permit is lost or invented: after any interleaving of takes, releases, timeouts and
  unrelated activity, starting from an initialised semaphore, the value plus the number of takes that
  returned (or will return) success is the initial value plus the number of successful releases; and
  threads only wait while the value is 0.
\<close>

theorem sem_permits_conserved:
  assumes "ready_inv k\<^sub>0" and "tlists k\<^sub>0 (SuspHead i) = []" and "rt_sem_init i v flag k\<^sub>0 = Some (s\<^sub>0, k\<^sub>1)"
    and "sem_step\<^sup>*\<^sup>* (s\<^sub>0, k\<^sub>1, 0, 0) (s, k, granted, released)"
  shows "unat (sem_value s) + granted = unat v + released \<and>
    (sem_value s \<noteq> 0 \<longrightarrow> tlists k (sem_head s) = []) \<and> ready_inv k"
  using sem_reachable_balanced [OF assms(4) sem_init_balanced [OF assms(1-3)]]
  by (simp add: sem_balanced_def sem_inv_def)

definition sample_sem :: rt_semaphore where
  "sample_sem = \<lparr>sem_id = 7, sem_flag = RT_IPC_FLAG_PRIO, sem_value = 2\<rparr>"

theorem sem_permits_conserved_witness:
  "\<exists>s k. sem_step\<^sup>*\<^sup>* (sample_sem, sample_kernel, 0, 0) (s, k, 1, 0) \<and>
    unat (sem_value s) + 1 = 2 + 0 \<and> ready_inv k"
proof -
  let ?s = "sample_sem\<lparr>sem_value := 1\<rparr>"
  have "rt_sem_take sample_sem 0 sample_kernel = Some (Returned RT_EOK, ?s, sample_kernel)"
    by (simp add: rt_sem_take_def sample_sem_def)
  from sem_step_take [OF sample_caller _ this, of 0 0]
  have step: "sem_step\<^sup>*\<^sup>* (sample_sem, sample_kernel, 0, 0) (?s, sample_kernel, 1, 0)" by auto
  have fresh: "tlists sample_kernel (SuspHead 7) = []" by (simp add: sample_kernel_def)
  have "rt_sem_init 7 2 RT_IPC_FLAG_PRIO sample_kernel = Some (sample_sem, sample_kernel)"
    using ipc_object_init_ready [OF sample_ready_inv fresh] by (simp add: rt_sem_init_def sample_sem_def)
  from sem_permits_conserved [OF sample_ready_inv fresh this step] step show ?thesis
    by (intro exI [of _ ?s] exI [of _ sample_kernel]) auto
qed

text \<open>
  Releasing a semaphore that threads wait for hands the permit to the first of them: it
  leaves the waiting list, becomes runnable, and its \<^verbatim>\<open>rt_sem_take\<close> returns success; the value stays 0
  and the other threads go on waiting in the same order.
\<close>

theorem sem_release_hands_over:
  assumes "sem_inv s k" and "rt_current_thread k = Some c" and "c \<noteq> t" and "tlists k (sem_head s) = t # ts"
  shows "\<exists>k'. rt_sem_release s k = Some (RT_EOK, s, k') \<and> sem_inv s k' \<and> runnable k' t \<and>
    rt_sem_take_resumed t k' = RT_EOK \<and> tlists k' (sem_head s) = ts"
  using sem_release_wakes [OF assms(1) _ assms(4)] assms(2,3) by auto

theorem sem_release_hands_over_witness:
  "\<exists>k'. rt_sem_release \<lparr>sem_id = 0, sem_flag = 1, sem_value = 0\<rparr> sample_kernel =
      Some (RT_EOK, \<lparr>sem_id = 0, sem_flag = 1, sem_value = 0\<rparr>, k') \<and> runnable k' 5 \<and>
    rt_sem_take_resumed 5 k' = RT_EOK \<and> tlists k' (SuspHead 0) = []"
proof -
  let ?s = "\<lparr>sem_id = 0, sem_flag = 1, sem_value = 0\<rparr>"
  have "tlists sample_kernel (SuspHead 0) = [5]" "rt_current_thread sample_kernel = Some 0"
    "error (threads sample_kernel 5) = 0"
    by (simp_all add: sample_kernel_def sample_thread_def)
  moreover from this have "sem_inv ?s sample_kernel"
    using sample_ready_inv by (simp add: sem_inv_def RT_IPC_FLAG_PRIO_def RT_EOK_def)
  ultimately show ?thesis using sem_release_hands_over [of ?s sample_kernel 0 5 "[]"] by auto
qed

end
