(* ===== verification/Mutex.thy ===== *)
theory Mutex
  imports Ipc
begin

text \<open>
  Mutexes (\<^verbatim>\<open>rt-thread/src/ipc.c\<close>, \<^verbatim>\<open>rt_mutex_*\<close>): recursive, owned, with priority inheritance. The
  theorems show mutual exclusion over all interleavings, that the owner inherits the priority of a
  blocked thread, what releasing does on every branch, and a case in which nested mutexes leave a
  thread at an inherited priority.
\<close>

section \<open>Operations\<close>

record rt_mutex =
  mutex_id :: nat
  mutex_value :: u16
  original_priority :: nat
  hold :: u8
  owner :: "tid option"

definition RT_MUTEX_VALUE_MAX :: u16 where "RT_MUTEX_VALUE_MAX = 0xffff"
definition RT_MUTEX_HOLD_MAX :: u8 where "RT_MUTEX_HOLD_MAX = 0xff"

abbreviation mutex_head :: "rt_mutex \<Rightarrow> list_head" where
  "mutex_head m \<equiv> SuspHead (mutex_id m)"

definition rt_mutex_init :: "nat \<Rightarrow> kernel \<Rightarrow> rt_mutex \<times> kernel" where
  "rt_mutex_init i k =
     (\<lparr>mutex_id = i, mutex_value = 1, original_priority = 0xff, hold = 0, owner = None\<rparr>,
      ipc_object_init (SuspHead i) k)"

definition rt_mutex_detach :: "rt_mutex \<Rightarrow> kernel \<Rightarrow> kernel option" where
  "rt_mutex_detach m k = ipc_list_resume_all (mutex_head m) k"

definition rt_mutex_delete :: "rt_mutex \<Rightarrow> kernel \<Rightarrow> kernel option" where
  "rt_mutex_delete m k = ipc_list_resume_all (mutex_head m) k"

definition rt_mutex_take :: "rt_mutex \<Rightarrow> int \<Rightarrow> kernel \<Rightarrow> (outcome \<times> rt_mutex \<times> kernel) option" where
  "rt_mutex_take m timeout k =
     (if \<not> scheduler_available k then None
      else do {
        t \<leftarrow> rt_thread_self k;
        let k0 = upd_thread t (\<lambda>th. th\<lparr>error := RT_EOK\<rparr>) k;
        if owner m = Some t then
          (if hold m < RT_MUTEX_HOLD_MAX then Some (Returned RT_EOK, m\<lparr>hold := hold m + 1\<rparr>, k0)
           else Some (Returned (- RT_EFULL), m, k0))
        else if mutex_value m > 0 then
          (let m1 = m\<lparr>mutex_value := mutex_value m - 1, owner := Some t,
                      original_priority := current_priority (threads k0 t)\<rparr>
           in if hold m1 < RT_MUTEX_HOLD_MAX then Some (Returned RT_EOK, m1\<lparr>hold := hold m1 + 1\<rparr>, k0)
              else Some (Returned (- RT_EFULL), m1, k0))
        else if timeout = 0 then
          Some (Returned (- RT_ETIMEOUT), m, upd_thread t (\<lambda>th. th\<lparr>error := - RT_ETIMEOUT\<rparr>) k0)
        else do {
          own \<leftarrow> owner m;
          let k1 = (if current_priority (threads k0 t) < current_priority (threads k0 own)
                    then rt_thread_change_priority own (current_priority (threads k0 t)) k0 else k0);
          k2 \<leftarrow> ipc_wait (mutex_head m) t RT_IPC_FLAG_PRIO timeout k1;
          Some (Blocked t, m, k2) } })"

definition rt_mutex_take_resumed :: "tid \<Rightarrow> kernel \<Rightarrow> int" where
  "rt_mutex_take_resumed t k = (if error (threads k t) \<noteq> RT_EOK then error (threads k t) else RT_EOK)"

definition rt_mutex_trytake :: "rt_mutex \<Rightarrow> kernel \<Rightarrow> (outcome \<times> rt_mutex \<times> kernel) option" where
  "rt_mutex_trytake m k = rt_mutex_take m RT_WAITING_NO k"

definition rt_mutex_release :: "rt_mutex \<Rightarrow> kernel \<Rightarrow> (int \<times> rt_mutex \<times> kernel) option" where
  "rt_mutex_release m k =
     do { t \<leftarrow> rt_thread_self k;
          if owner m \<noteq> Some t then
            Some (- RT_ERROR, m, upd_thread t (\<lambda>th. th\<lparr>error := - RT_ERROR\<rparr>) k)
          else do {
            let m1 = m\<lparr>hold := hold m - 1\<rparr>;
            if hold m1 \<noteq> 0 then Some (RT_EOK, m1, k)
            else do {
              let k1 = (if original_priority m1 \<noteq> current_priority (threads k t)
                        then rt_thread_change_priority t (original_priority m1) k else k);
              (case tlists k1 (mutex_head m1) of
                 w # _ \<Rightarrow>
                   (let m2 = m1\<lparr>owner := Some w, original_priority := current_priority (threads k1 w)\<rparr>
                    in if hold m2 < RT_MUTEX_HOLD_MAX then do {
                         k2 \<leftarrow> ipc_list_resume (mutex_head m2) k1;
                         k3 \<leftarrow> rt_schedule k2;
                         Some (RT_EOK, m2\<lparr>hold := hold m2 + 1\<rparr>, k3) }
                       else Some (- RT_EFULL, m2, k1))
               | [] \<Rightarrow>
                   (if mutex_value m1 < RT_MUTEX_VALUE_MAX
                    then Some (RT_EOK, m1\<lparr>mutex_value := mutex_value m1 + 1, owner := None,
                                          original_priority := 0xff\<rparr>, k1)
                    else Some (- RT_EFULL, m1, k1))) } } }"

definition rt_mutex_control :: "rt_mutex \<Rightarrow> nat \<Rightarrow> int" where
  "rt_mutex_control m cmd = - RT_ERROR"

section \<open>Changing a priority\<close>

lemma change_priority_ok:
  fixes t :: tid
  assumes inv: "ready_inv k" and p: "p < 32"
  defines "k' \<equiv> rt_thread_change_priority t p k"
  shows "ready_inv k'" and "thread_state k' = thread_state k" and "rt_current_thread k' = rt_current_thread k"
    and "current_priority (threads k' u) = (if u = t then p else current_priority (threads k u))"
    and "error (threads k' u) = error (threads k u)"
    and "event_set (threads k' u) = event_set (threads k u) \<and> event_info (threads k' u) = event_info (threads k u)"
    and "wait_head h \<Longrightarrow> tlists k' h = tlists k h"
    and "rt_scheduler_lock_nest k' = rt_scheduler_lock_nest k" and "timers k' = timers k"
proof -
  let ?set = "upd_thread t (\<lambda>th. th\<lparr>current_priority := p, number_mask := 2 ^ p\<rparr>)"
  let ?X = "set_option (rt_current_thread k)"
  have set_st: "thread_state (?set k1) = thread_state k1" for k1
    by (auto simp: thread_state_def kernel_simps fun_eq_iff)
  have k'_ready: "k' = rt_schedule_insert_thread t (?set (rt_schedule_remove_thread t k))"
    if "thread_state k t = RT_THREAD_READY"
    using that by (simp add: k'_def rt_thread_change_priority_def)
  have k'_other: "k' = ?set k" if "thread_state k t \<noteq> RT_THREAD_READY"
    using that by (simp add: k'_def rt_thread_change_priority_def)
  have nc: "rt_current_thread k \<noteq> Some t" if "thread_state k t = RT_THREAD_READY"
    using ready_current [OF inv, of t] that by auto
  show st: "thread_state k' = thread_state k"
  proof (cases "thread_state k t = RT_THREAD_READY")
    case True
    have "rt_current_thread (?set (rt_schedule_remove_thread t k)) \<noteq> Some t"
      using nc [OF True] by (simp add: kernel_simps remove_thread_effect)
    from insert_thread_effect(3) [OF this] show ?thesis
      by (simp add: k'_ready [OF True] set_st remove_thread_effect True [symmetric])
  qed (simp add: k'_other set_st)
  show cur: "rt_current_thread k' = rt_current_thread k"
    by (cases "thread_state k t = RT_THREAD_READY") (simp_all add: k'_ready k'_other kernel_simps remove_thread_effect)
  show waits: "wait_head h \<Longrightarrow> tlists k' h = tlists k h" for h
  proof (cases "thread_state k t = RT_THREAD_READY")
    case True
    assume h: "wait_head h"
    have "t \<notin> set (tlists k h)" using waiting_suspended [OF inv h, of t] True by (auto simp: kernel_simps)
    then show ?thesis
      using h by (auto simp: k'_ready [OF True] rt_schedule_insert_thread_def Let_def kernel_simps remove_thread_effect)
  qed (simp add: k'_other kernel_simps)
  show "current_priority (threads k' u) = (if u = t then p else current_priority (threads k u))"
    and "error (threads k' u) = error (threads k u)"
    and "event_set (threads k' u) = event_set (threads k u) \<and> event_info (threads k' u) = event_info (threads k u)"
    by (cases "thread_state k t = RT_THREAD_READY"; simp add: k'_ready k'_other rt_schedule_insert_thread_def Let_def set_state_def
        kernel_simps remove_thread_effect)+
  show "rt_scheduler_lock_nest k' = rt_scheduler_lock_nest k" and "timers k' = timers k"
    by (cases "thread_state k t = RT_THREAD_READY"; simp add: k'_ready k'_other kernel_simps remove_thread_effect)+
  have "queue_inv ?X k'"
  proof (cases "thread_state k t = RT_THREAD_READY")
    case True
    let ?k1 = "rt_schedule_remove_thread t k"
    have "queue_inv (insert t ?X) ?k1"
      by (rule queue_inv_remove [OF ready_queue [OF inv]]) (simp add: True kernel_simps)
    then have "queue_inv (insert t ?X) (?set ?k1)"
      by (rule queue_inv_upd_exempt) (use p in simp_all)
    then have "queue_inv (insert t ?X - {t}) k'"
      unfolding k'_ready [OF True]
      by (rule queue_inv_insert)
        (use nc [OF True] True in \<open>simp_all add: kernel_simps unlisted_remove remove_thread_effect set_st\<close>)
    moreover have "insert t ?X - {t} = ?X" using nc [OF True] by auto
    ultimately show ?thesis by simp
  next
    case False
    have "queue_inv (insert t ?X) k" by (rule queue_inv_grow [OF ready_queue [OF inv] False])
    then have "queue_inv (insert t ?X) (?set k)"
      by (rule queue_inv_upd_exempt) (use p in simp_all)
    then show ?thesis
      unfolding k'_other [OF False] by (rule queue_inv_shrink) (use False in \<open>simp add: set_st\<close>)
  qed
  moreover have "wait_inv k'"
  proof (rule wait_inv_sub [OF ready_wait [OF inv]])
    fix h u assume "\<And>p. h \<noteq> PrioHead p" and u: "u \<in> set (tlists k' h)"
    then have "wait_head h \<or> h = DefunctHead" by (cases h) auto
    moreover have "u \<in> set (tlists k h)" if "h = DefunctHead"
      using u that by (cases "thread_state k t = RT_THREAD_READY")
        (auto simp: k'_ready k'_other rt_schedule_insert_thread_def Let_def kernel_simps remove_thread_effect
          split: if_splits)
    ultimately show "u \<in> set (tlists k h) \<and> thread_state k' u = thread_state k u"
      using u waits st by auto
  qed
  ultimately show "ready_inv k'" by (rule ready_inv_relist [OF inv _ _ cur st])
qed

section \<open>Invariant\<close>

definition mutex_inv :: "rt_mutex \<Rightarrow> kernel \<Rightarrow> bool" where
  "mutex_inv m k \<longleftrightarrow>
     ready_inv k \<and> (\<forall>t \<in> set (tlists k (mutex_head m)). error (threads k t) = RT_EOK) \<and>
     (case owner m of
        None \<Rightarrow> mutex_value m = 1 \<and> hold m = 0 \<and> tlists k (mutex_head m) = []
      | Some t \<Rightarrow> mutex_value m = 0 \<and> hold m \<noteq> 0 \<and> original_priority m < 32 \<and> t \<notin> set (tlists k (mutex_head m)))"

lemma caller_priority:
  assumes "ready_inv k" and "thread_state k t \<noteq> RT_THREAD_INIT"
  shows "current_priority (threads k t) < 32"
  using queue_mask [OF ready_queue [OF assms(1)] assms(2)] by simp

lemma running_not_waiting:
  "ready_inv k \<Longrightarrow> thread_state k t = RT_THREAD_RUNNING \<Longrightarrow> wait_head h \<Longrightarrow> t \<notin> set (tlists k h)"
  using waiting_suspended [of k h t] by (auto simp: kernel_simps)

lemma upd_error_mutex_inv:
  assumes "mutex_inv m k" and "thread_state k t = RT_THREAD_RUNNING"
  shows "mutex_inv m (upd_thread t (\<lambda>th. th\<lparr>error := e\<rparr>) k)"
  using assms upd_error_ready [of k t e] running_not_waiting [of k t "mutex_head m"]
  by (auto simp: mutex_inv_def kernel_simps split: option.splits)

lemma mutex_take_blocks:
  assumes inv: "mutex_inv m k" and c: "caller k t" and own: "owner m = Some own" "own \<noteq> t"
    and "timeout \<noteq> 0" and to: "timeout < 2 ^ 31 - 1"
  shows "\<exists>k'. rt_mutex_take m timeout k = Some (Blocked t, m, k') \<and> mutex_inv m k' \<and> rt_current_thread k' \<noteq> None \<and>
    thread_state k' t = RT_THREAD_SUSPEND \<and>
    (\<forall>u. current_priority (threads k' u) =
       (if u = own then min (current_priority (threads k own)) (current_priority (threads k t))
        else current_priority (threads k u))) \<and>
    set (tlists k' (mutex_head m)) = insert t (set (tlists k (mutex_head m)))"
proof -
  let ?k0 = "upd_thread t (\<lambda>th. th\<lparr>error := RT_EOK\<rparr>) k" and ?h = "mutex_head m"
  let ?p = "current_priority (threads k t)" and ?q = "current_priority (threads k own)"
  have r: "ready_inv k" and cur: "rt_current_thread k = Some t" and run: "thread_state k t = RT_THREAD_RUNNING"
    and hard: "hard_timer k (ThreadTimer t)"
    using inv c by (simp_all add: mutex_inv_def caller_def)
  have p: "?p < 32" using caller_priority [OF r] run by (simp add: kernel_simps)
  have r0: "ready_inv ?k0" by (rule upd_error_ready [OF r])
  have prio0: "current_priority (threads ?k0 u) = current_priority (threads k u)" for u by (simp add: kernel_simps)
  define k1 where "k1 = (if ?p < ?q then rt_thread_change_priority own ?p ?k0 else ?k0)"
  note ch = change_priority_ok [OF r0 p, where t = own]
  have k1: "ready_inv k1" "rt_current_thread k1 = Some t" "thread_state k1 t = RT_THREAD_RUNNING"
      "hard_timer k1 (ThreadTimer t)" "tlists k1 ?h = tlists k ?h"
    using r0 cur run hard ch(1-3) ch(7) [of ?h] ch(9)
    by (simp_all add: k1_def upd_error_frame) (simp_all add: hard_timer_def kernel_simps)
  have prio1: "current_priority (threads k1 u) = (if u = own then min ?q ?p else current_priority (threads k u))" for u
    using ch(4) [of u] prio0 by (auto simp: k1_def)
  have err1: "error (threads k1 u) = (if u = t then RT_EOK else error (threads k u))" for u
    using ch(5) [of u] by (auto simp: k1_def kernel_simps)
  obtain k' where k': "ipc_wait ?h t RT_IPC_FLAG_PRIO timeout k1 = Some k'" "ready_inv k'" "rt_current_thread k' \<noteq> None"
    "thread_state k' t = RT_THREAD_SUSPEND" "tlists k' ?h = enqueued RT_IPC_FLAG_PRIO k1 t (tlists k ?h)"
    "same_threads k1 k'"
    using ipc_wait_ok [OF k1(1-3) _ _ k1(4) to, of ?h RT_IPC_FLAG_PRIO] k1(5) by auto
  have "mutex_inv m k'"
    using inv own k'(2,5,6) err1 by (auto simp: mutex_inv_def same_threads_def)
  moreover have "rt_mutex_take m timeout k = Some (Blocked t, m, k')"
    using caller_available [OF c] own inv assms(5) k'(1)
    by (cases "?p < ?q") (simp_all add: rt_mutex_take_def mutex_inv_def prio0 k1_def Let_def)
  ultimately show ?thesis
    using k' prio1 by (simp add: same_threads_def)
qed

lemma mutex_take_returns:
  assumes inv: "mutex_inv m k" and c: "caller k t" and "owner m = None \<or> owner m = Some t \<or> timeout = 0"
  shows "\<exists>r m' k'. rt_mutex_take m timeout k = Some (Returned r, m', k') \<and> mutex_inv m' k' \<and>
    (if owner m = None then r = RT_EOK \<and> owner m' = Some t \<and> hold m' = 1 \<and>
       original_priority m' = current_priority (threads k t)
     else if owner m = Some t \<and> hold m < RT_MUTEX_HOLD_MAX then r = RT_EOK \<and> m' = m\<lparr>hold := hold m + 1\<rparr>
     else r \<noteq> RT_EOK \<and> m' = m)"
proof -
  have r: "ready_inv k" and run: "thread_state k t = RT_THREAD_RUNNING" using inv c by (simp_all add: mutex_inv_def caller_def)
  have p: "current_priority (threads k t) < 32" using caller_priority [OF r] run by (simp add: kernel_simps)
  have r': "ready_inv (upd_thread t (\<lambda>th. th\<lparr>error := e\<rparr>) k)" for e
    by (rule upd_error_ready [OF r])
  note inv' = upd_error_mutex_inv [OF inv run]
  have err: "upd_thread t (\<lambda>th. th\<lparr>error := a\<rparr>) (upd_thread t (\<lambda>th. th\<lparr>error := b\<rparr>) k) =
      upd_thread t (\<lambda>th. th\<lparr>error := a\<rparr>) k" for a b
    by (simp add: upd_thread_def)
  have h1: "hold m + 1 \<noteq> 0" if "hold m < RT_MUTEX_HOLD_MAX"
  proof
    assume "hold m + 1 = 0"
    then have "hold m = - 1" by (simp add: add_eq_0_iff2)
    then show False using that by (simp add: RT_MUTEX_HOLD_MAX_def)
  qed
  show ?thesis
  proof (cases "owner m")
    case None
    then have "mutex_value m = 1" "hold m = 0" "tlists k (mutex_head m) = []" using inv by (simp_all add: mutex_inv_def)
    then show ?thesis
      using caller_available [OF c] None r' p
      by (simp add: rt_mutex_take_def RT_MUTEX_HOLD_MAX_def mutex_inv_def kernel_simps)
  next
    case (Some o')
    then have v: "mutex_value m = 0" using inv by (simp add: mutex_inv_def)
    show ?thesis
    proof (cases "o' = t")
      case True
      have "mutex_inv (m\<lparr>hold := hold m + 1\<rparr>) (upd_thread t (\<lambda>th. th\<lparr>error := RT_EOK\<rparr>) k)" if "hold m < RT_MUTEX_HOLD_MAX"
        using inv' [of RT_EOK] Some h1 [OF that] by (simp add: mutex_inv_def)
      then show ?thesis
        using caller_available [OF c] Some True inv' [of RT_EOK]
        by (cases "hold m < RT_MUTEX_HOLD_MAX") (simp_all add: rt_mutex_take_def RT_EOK_def RT_EFULL_def)
    next
      case False
      then show ?thesis
        using caller_available [OF c] Some assms(3) v inv' [of "- RT_ETIMEOUT"]
        by (simp add: rt_mutex_take_def err RT_EOK_def RT_ETIMEOUT_def)
    qed
  qed
qed

text \<open>Releasing: not the owner; still held; nobody waits; handed to the first waiting thread.\<close>

lemma mutex_release_other:
  assumes "mutex_inv m k" and c: "caller k t" and "owner m \<noteq> Some t"
  shows "\<exists>k'. rt_mutex_release m k = Some (- RT_ERROR, m, k') \<and> mutex_inv m k' \<and> tlists k' = tlists k"
  using upd_error_mutex_inv [OF assms(1), of t "- RT_ERROR"] c caller_available [OF c] assms(3)
  by (simp add: rt_mutex_release_def caller_def kernel_simps)

lemma mutex_release_nested:
  assumes "mutex_inv m k" and c: "caller k t" and "owner m = Some t" and "hold m \<noteq> 1"
  shows "rt_mutex_release m k = Some (RT_EOK, m\<lparr>hold := hold m - 1\<rparr>, k) \<and> mutex_inv (m\<lparr>hold := hold m - 1\<rparr>) k"
  using assms caller_available [OF c] by (simp add: rt_mutex_release_def mutex_inv_def)

lemma mutex_release_final:
  assumes inv: "mutex_inv m k" and c: "caller k t" and own: "owner m = Some t" "hold m = 1"
  shows "\<exists>m' k'. rt_mutex_release m k = Some (RT_EOK, m', k') \<and> mutex_inv m' k' \<and>
    current_priority (threads k' t) = original_priority m \<and>
    (\<forall>u. u \<noteq> t \<longrightarrow> current_priority (threads k' u) = current_priority (threads k u)) \<and>
    mutex_id m' = mutex_id m \<and> tlists k' (mutex_head m) = tl (tlists k (mutex_head m)) \<and>
    (case tlists k (mutex_head m) of
       [] \<Rightarrow> owner m' = None \<and> hold m' = 0
     | w # _ \<Rightarrow> owner m' = Some w \<and> hold m' = 1 \<and> original_priority m' = current_priority (threads k w) \<and>
                runnable k' w \<and> rt_mutex_take_resumed w k' = RT_EOK)"
proof -
  let ?h = "mutex_head m" and ?p = "original_priority m"
  have r: "ready_inv k" and cur: "rt_current_thread k = Some t" and run: "thread_state k t = RT_THREAD_RUNNING"
    and v: "mutex_value m = 0" and p: "?p < 32"
    using inv c own by (simp_all add: mutex_inv_def caller_def)
  note ch = change_priority_ok [OF r p, where t = t]
  define k1 where "k1 = (if ?p \<noteq> current_priority (threads k t) then rt_thread_change_priority t ?p k else k)"
  have k1: "ready_inv k1" "rt_current_thread k1 = Some t" "thread_state k1 = thread_state k" "tlists k1 ?h = tlists k ?h"
    using r cur ch(1-3) ch(7) [of ?h] by (simp_all add: k1_def)
  have prio1: "current_priority (threads k1 u) = (if u = t then ?p else current_priority (threads k u))" for u
    using ch(4) [of u] by (auto simp: k1_def)
  have err1: "error (threads k1 u) = error (threads k u)" for u using ch(5) [of u] by (simp add: k1_def)
  show ?thesis
  proof (cases "tlists k ?h")
    case Nil
    then have "rt_mutex_release m k =
        Some (RT_EOK, m\<lparr>hold := 0, mutex_value := 1, owner := None, original_priority := 0xff\<rparr>, k1)"
      using caller_available [OF c] own v k1(4) 
      by (cases "?p = current_priority (threads k t)")
        (simp_all add: rt_mutex_release_def k1_def Let_def RT_MUTEX_VALUE_MAX_def)
    then show ?thesis using Nil k1 prio1 by (simp add: mutex_inv_def)
  next
    case (Cons w ws)
    have w: "thread_state k w = RT_THREAD_SUSPEND" using waiting_suspended [OF r, of ?h w] Cons by simp
    then have wt: "w \<noteq> t" using run by (auto simp: kernel_simps)
    obtain k2 k' where k': "ipc_list_resume ?h k1 = Some k2" "rt_schedule k2 = Some k'" "ready_inv k'"
        "runnable k' w" "tlists k' ?h = ws" "same_threads k1 k'"
      using ipc_resume_schedule_ok [OF k1(1), of ?h w ws] k1(2,4) Cons wt by auto
    let ?m' = "m\<lparr>hold := 1, owner := Some w, original_priority := current_priority (threads k w)\<rparr>"
    have rel: "rt_mutex_release m k = Some (RT_EOK, ?m', k')"
      using caller_available [OF c] own k1(4) Cons k'(1,2) wt prio1 [of w]
      by (cases "?p = current_priority (threads k t)")
        (simp_all add: rt_mutex_release_def k1_def Let_def RT_MUTEX_HOLD_MAX_def)
    have d: "distinct (w # ws)" using queue_distinct [OF ready_queue [OF r], of ?h] Cons by simp
    have "current_priority (threads k w) < 32" using caller_priority [OF r, of w] w by (simp add: kernel_simps)
    then have "mutex_inv ?m' k'"
      using inv k'(3,5,6) err1 d v Cons own by (auto simp: mutex_inv_def same_threads_def)
    moreover have "rt_mutex_take_resumed w k' = RT_EOK"
      using inv k'(6) err1 Cons by (simp add: mutex_inv_def same_threads_def rt_mutex_take_resumed_def)
    moreover have "current_priority (threads k' u) = (if u = t then ?p else current_priority (threads k u))" for u
      using k'(6) prio1 [of u] by (simp add: same_threads_def)
    ultimately show ?thesis using rel Cons k'(4,5) by auto
  qed
qed

section \<open>Interleavings\<close>

text \<open>
  The steps of a system with one mutex. The last component counts for every thread how often it has
  taken the mutex successfully and not yet released it; a waiting thread that is resumed by a release
  and will return success counts from there on.
\<close>

type_synonym mutex_system = "rt_mutex \<times> kernel \<times> (tid \<Rightarrow> nat)"

definition handed_over :: "rt_mutex \<Rightarrow> kernel \<Rightarrow> kernel \<Rightarrow> tid \<Rightarrow> bool" where
  "handed_over m k k' w \<longleftrightarrow> w \<in> set (tlists k (mutex_head m)) \<and> w \<notin> set (tlists k' (mutex_head m)) \<and>
     rt_mutex_take_resumed w k' = RT_EOK"

inductive mutex_step :: "mutex_system \<Rightarrow> mutex_system \<Rightarrow> bool" where
  mutex_step_take:
    "caller k t \<Longrightarrow> timeout < 2 ^ 31 - 1 \<Longrightarrow> rt_mutex_take m timeout k = Some (r, m', k') \<Longrightarrow>
     mutex_step (m, k, inside) (m', k', if r = Returned RT_EOK then inside(t := inside t + 1) else inside)"
| mutex_step_release:
    "caller k t \<Longrightarrow> rt_mutex_release m k = Some (r, m', k') \<Longrightarrow>
     mutex_step (m, k, inside)
       (m', k', \<lambda>u. (if u = t \<and> r = RT_EOK then inside u - 1 else inside u) + (if handed_over m k k' u then 1 else 0))"
| mutex_step_timeout:
    "t \<in> set (tlists k (mutex_head m)) \<Longrightarrow> rt_current_thread k \<noteq> None \<Longrightarrow> thread_timeout t k = Some k' \<Longrightarrow>
     mutex_step (m, k, inside) (m, k', inside)"
| mutex_step_other:
    "ready_inv k' \<Longrightarrow> tlists k' (mutex_head m) = tlists k (mutex_head m) \<Longrightarrow>
     (\<And>t. t \<in> set (tlists k (mutex_head m)) \<Longrightarrow> error (threads k' t) = error (threads k t)) \<Longrightarrow>
     mutex_step (m, k, inside) (m, k', inside)"

definition mutex_counted :: "mutex_system \<Rightarrow> bool" where
  "mutex_counted = (\<lambda>(m, k, inside). mutex_inv m k \<and> inside = (\<lambda>t. if owner m = Some t then unat (hold m) else 0))"

lemma u8_succ: "v < 0xff \<Longrightarrow> unat (v + 1 :: u8) = unat v + 1"
  by (simp add: unat_word_ariths word_less_nat_alt)

lemma u8_pred: "v \<noteq> 0 \<Longrightarrow> unat (v - 1 :: u8) = unat v - 1"
  by (simp add: unat_minus_one)

lemma mutex_take_counted:
  assumes "mutex_counted (m, k, inside)" and c: "caller k t" and to: "timeout < 2 ^ 31 - 1"
    and r: "rt_mutex_take m timeout k = Some (r, m', k')"
  shows "mutex_counted (m', k', if r = Returned RT_EOK then inside(t := inside t + 1) else inside)"
proof -
  have inv: "mutex_inv m k" and ins: "inside = (\<lambda>t. if owner m = Some t then unat (hold m) else 0)"
    using assms(1) by (simp_all add: mutex_counted_def)
  show ?thesis
  proof (cases "owner m = None \<or> owner m = Some t \<or> timeout = 0")
    case True
    from mutex_take_returns [OF inv c True] r obtain e where
      e: "r = Returned e" "mutex_inv m' k'"
        "if owner m = None then e = RT_EOK \<and> owner m' = Some t \<and> hold m' = 1 \<and>
           original_priority m' = current_priority (threads k t)
         else if owner m = Some t \<and> hold m < RT_MUTEX_HOLD_MAX then e = RT_EOK \<and> m' = m\<lparr>hold := hold m + 1\<rparr>
         else e \<noteq> RT_EOK \<and> m' = m"
      by auto
    then show ?thesis
      by (auto simp: mutex_counted_def ins fun_eq_iff u8_succ RT_MUTEX_HOLD_MAX_def split: if_splits)
  next
    case False
    then obtain own where "owner m = Some own" "own \<noteq> t" by auto
    then show ?thesis using mutex_take_blocks [OF inv c _ _ _ to] False r ins by (auto simp: mutex_counted_def)
  qed
qed

lemma mutex_release_counted:
  assumes "mutex_counted (m, k, inside)" and c: "caller k t" and r: "rt_mutex_release m k = Some (r, m', k')"
  shows "mutex_counted (m', k', \<lambda>u. (if u = t \<and> r = RT_EOK then inside u - 1 else inside u) +
    (if handed_over m k k' u then 1 else 0))"
proof -
  have inv: "mutex_inv m k" and ins: "inside = (\<lambda>t. if owner m = Some t then unat (hold m) else 0)"
    using assms(1) by (simp_all add: mutex_counted_def)
  have rk: "ready_inv k" and run: "thread_state k t = RT_THREAD_RUNNING"
    using inv c by (simp_all add: mutex_inv_def caller_def)
  consider (other) "owner m \<noteq> Some t" | (nested) "owner m = Some t" "hold m \<noteq> 1" | (final) "owner m = Some t" "hold m = 1"
    by blast
  then show ?thesis
  proof cases
    case other
    then show ?thesis using mutex_release_other [OF inv c other] r
      by (auto simp: mutex_counted_def ins handed_over_def RT_EOK_def RT_ERROR_def)
  next
    case nested
    have "hold m \<noteq> 0" using inv nested by (simp add: mutex_inv_def)
    then show ?thesis using mutex_release_nested [OF inv c nested] r nested
      by (auto simp: mutex_counted_def ins handed_over_def fun_eq_iff u8_pred)
  next
    case final
    from mutex_release_final [OF inv c final] r have
      f: "r = RT_EOK" "mutex_inv m' k'" "tlists k' (mutex_head m) = tl (tlists k (mutex_head m))"
        "case tlists k (mutex_head m) of [] \<Rightarrow> owner m' = None \<and> hold m' = 0
         | w # _ \<Rightarrow> owner m' = Some w \<and> hold m' = 1 \<and> original_priority m' = current_priority (threads k w) \<and>
                runnable k' w \<and> rt_mutex_take_resumed w k' = RT_EOK"
      by auto
    show ?thesis
    proof (cases "tlists k (mutex_head m)")
      case Nil
      then show ?thesis using f final by (auto simp: mutex_counted_def ins handed_over_def)
    next
      case (Cons w ws)
      have d: "distinct (w # ws)" using queue_distinct [OF ready_queue [OF rk], of "mutex_head m"] Cons by simp
      have "w \<noteq> t" using running_not_waiting [OF rk run, of "mutex_head m"] Cons by auto
      moreover have "handed_over m k k' u \<longleftrightarrow> u = w" for u
        using f(3,4) Cons d by (auto simp: handed_over_def)
      ultimately show ?thesis using f Cons final by (auto simp: mutex_counted_def ins fun_eq_iff)
    qed
  qed
qed

lemma mutex_step_counted: "mutex_step x y \<Longrightarrow> mutex_counted x \<Longrightarrow> mutex_counted y"
proof (induction rule: mutex_step.induct)
  case (mutex_step_take k t timeout m r m' k' inside)
  then show ?case using mutex_take_counted by blast
next
  case (mutex_step_release k t m r m' k' inside)
  then show ?case using mutex_release_counted by blast
next
  case (mutex_step_timeout t k m k' inside)
  have inv: "mutex_inv m k" and r: "ready_inv k" using mutex_step_timeout.prems by (auto simp: mutex_counted_def mutex_inv_def)
  have "ready_inv k'"
    using thread_timeout_ok [OF r waiting_suspended [OF r _ mutex_step_timeout.hyps(1)] mutex_step_timeout.hyps(2)]
      mutex_step_timeout.hyps(3) by auto
  moreover have "tlists k' (mutex_head m) = removeAll t (tlists k (mutex_head m))"
    by (rule thread_timeout_waits [OF r _ mutex_step_timeout.hyps(1,3)]) simp_all
  ultimately have "mutex_inv m k'"
    using inv thread_timeout_frame(5) [OF mutex_step_timeout.hyps(3)]
    by (auto simp: mutex_inv_def split: option.splits)
  then show ?case using mutex_step_timeout.prems by (simp add: mutex_counted_def)
next
  case (mutex_step_other k' m k inside)
  then show ?case by (auto simp: mutex_counted_def mutex_inv_def split: option.splits)
qed

lemma mutex_reachable_counted: "mutex_step\<^sup>*\<^sup>* x y \<Longrightarrow> mutex_counted x \<Longrightarrow> mutex_counted y"
  by (induction rule: rtranclp_induct) (auto dest: mutex_step_counted)

section \<open>Properties\<close>

text \<open>
  Property C6. Mutual exclusion: after any interleaving of takes, releases, timeouts and unrelated
  activity, starting from an initialised mutex, at most one thread has taken the mutex and not
  released it; it is the recorded owner, and the hold count is the number of its unreleased takes.
\<close>

theorem mutex_exclusive:
  assumes "ready_inv k\<^sub>0" and "tlists k\<^sub>0 (SuspHead i) = []" and "rt_mutex_init i k\<^sub>0 = (m\<^sub>0, k\<^sub>1)"
    and "mutex_step\<^sup>*\<^sup>* (m\<^sub>0, k\<^sub>1, \<lambda>_. 0) (m, k, inside)"
  shows "(\<forall>t u. 0 < inside t \<longrightarrow> 0 < inside u \<longrightarrow> t = u) \<and>
    (\<forall>t. 0 < inside t \<longleftrightarrow> owner m = Some t) \<and> (\<forall>t. owner m = Some t \<longrightarrow> inside t = unat (hold m))"
proof -
  have m0: "m\<^sub>0 = \<lparr>mutex_id = i, mutex_value = 1, original_priority = 0xff, hold = 0, owner = None\<rparr>" "k\<^sub>1 = k\<^sub>0"
    using assms(3) ipc_object_init_ready [OF assms(1,2)] by (auto simp: rt_mutex_init_def)
  have "mutex_counted (m\<^sub>0, k\<^sub>1, \<lambda>_. 0)"
    using assms(1,2) by (simp add: mutex_counted_def mutex_inv_def m0)
  from mutex_reachable_counted [OF assms(4) this]
  have inv: "mutex_inv m k" and ins: "inside = (\<lambda>t. if owner m = Some t then unat (hold m) else 0)"
    by (simp_all add: mutex_counted_def)
  have "hold m \<noteq> 0" if "owner m = Some t" for t using inv that by (simp add: mutex_inv_def)
  then have "0 < inside t \<longleftrightarrow> owner m = Some t" for t by (auto simp: ins unat_gt_0)
  then show ?thesis by (auto simp: ins)
qed

definition sample_mutex :: rt_mutex where
  "sample_mutex = \<lparr>mutex_id = 7, mutex_value = 1, original_priority = 0xff, hold = 0, owner = None\<rparr>"

theorem mutex_exclusive_witness:
  "\<exists>m k inside. mutex_step\<^sup>*\<^sup>* (sample_mutex, sample_kernel, \<lambda>_. 0) (m, k, inside) \<and> inside 0 = 1 \<and>
    owner m = Some 0 \<and> hold m = 1"
proof -
  have fresh: "tlists sample_kernel (SuspHead 7) = []" by (simp add: sample_kernel_def)
  have inv: "mutex_inv sample_mutex sample_kernel"
    using sample_ready_inv fresh by (simp add: mutex_inv_def sample_mutex_def)
  obtain m k where m: "rt_mutex_take sample_mutex 0 sample_kernel = Some (Returned RT_EOK, m, k)"
      "owner m = Some 0" "hold m = 1"
    using mutex_take_returns [OF inv sample_caller, of 0] by (auto simp: sample_mutex_def)
  from mutex_step_take [OF sample_caller _ m(1), of "\<lambda>_. 0"]
  have step: "mutex_step\<^sup>*\<^sup>* (sample_mutex, sample_kernel, \<lambda>_. 0) (m, k, (\<lambda>_. 0)(0 := 1))" by auto
  have "rt_mutex_init 7 sample_kernel = (sample_mutex, sample_kernel)"
    using ipc_object_init_ready [OF sample_ready_inv fresh] by (simp add: rt_mutex_init_def sample_mutex_def)
  from mutex_exclusive [OF sample_ready_inv fresh this step] m step show ?thesis
    by (intro exI [of _ m] exI [of _ k] exI [of _ "(\<lambda>_. 0)(0 := 1)"]) auto
qed

text \<open>
  Property C23. Priority inheritance: a thread that finds the mutex taken by another thread is
  suspended in the waiting list, and the owner's priority is then at least as high as its own, so a
  thread of a priority in between cannot run before the owner; no other priority changes. When the
  owner releases the mutex for the last time it gets back the priority it had when it took the mutex,
  and the first waiting thread owns the mutex and is runnable.
\<close>

theorem mutex_priority_inheritance:
  assumes "mutex_inv m k" and "caller k t" and "owner m = Some own" and "own \<noteq> t"
    and "timeout \<noteq> 0" and "timeout < 2 ^ 31 - 1"
  shows "\<exists>k'. rt_mutex_take m timeout k = Some (Blocked t, m, k') \<and> mutex_inv m k' \<and>
    thread_state k' t = RT_THREAD_SUSPEND \<and> t \<in> set (tlists k' (mutex_head m)) \<and>
    current_priority (threads k' own) \<le> current_priority (threads k' t) \<and>
    (\<forall>u. u \<noteq> own \<longrightarrow> current_priority (threads k' u) = current_priority (threads k u)) \<and>
    (\<forall>k'' m' k3 r. caller k'' own \<longrightarrow> mutex_inv m k'' \<longrightarrow> hold m = 1 \<longrightarrow>
       tlists k'' (mutex_head m) = tlists k' (mutex_head m) \<longrightarrow> rt_mutex_release m k'' = Some (r, m', k3) \<longrightarrow>
         current_priority (threads k3 own) = original_priority m \<and>
         owner m' = Some (hd (tlists k' (mutex_head m))) \<and> runnable k3 (hd (tlists k' (mutex_head m))))"
proof -
  obtain k' where k': "rt_mutex_take m timeout k = Some (Blocked t, m, k')" "mutex_inv m k'"
    "thread_state k' t = RT_THREAD_SUSPEND"
    "\<forall>u. current_priority (threads k' u) =
       (if u = own then min (current_priority (threads k own)) (current_priority (threads k t))
        else current_priority (threads k u))"
    "set (tlists k' (mutex_head m)) = insert t (set (tlists k (mutex_head m)))"
    using mutex_take_blocks [OF assms] by blast
  obtain w ws where w: "tlists k' (mutex_head m) = w # ws" using k'(5) by (cases "tlists k' (mutex_head m)") auto
  have "current_priority (threads k3 own) = original_priority m \<and> owner m' = Some w \<and> runnable k3 w"
    if "caller k'' own" "mutex_inv m k''" "hold m = 1" "tlists k'' (mutex_head m) = w # ws"
      "rt_mutex_release m k'' = Some (r, m', k3)" for k'' m' k3 r
    using mutex_release_final [OF that(2,1) assms(3) that(3)] that(4,5) by auto
  then show ?thesis using k' w assms(4) by (intro exI [of _ k']) auto
qed

text \<open>Thread 3 (the idle thread, priority 31) owns the mutex; thread 0 (priority 10) takes it.\<close>

definition owned_mutex :: rt_mutex where
  "owned_mutex = \<lparr>mutex_id = 7, mutex_value = 0, original_priority = 31, hold = 1, owner = Some 3\<rparr>"

lemma owned_mutex_inv: "mutex_inv owned_mutex sample_kernel"
  using sample_ready_inv by (simp add: mutex_inv_def owned_mutex_def) (simp add: sample_kernel_def)

theorem mutex_priority_inheritance_witness:
  "\<exists>k'. rt_mutex_take owned_mutex (- 1) sample_kernel = Some (Blocked 0, owned_mutex, k') \<and>
    thread_state k' 0 = RT_THREAD_SUSPEND \<and>
    current_priority (threads k' 3) \<le> current_priority (threads k' 0)"
proof -
  have "owner owned_mutex = Some 3" by (simp add: owned_mutex_def)
  from mutex_priority_inheritance [OF owned_mutex_inv sample_caller this, of "- 1"] show ?thesis
    unfolding Let_def by (auto 0 3)
qed

text \<open>
  Nested mutexes can leave a thread at an inherited priority: a thread that takes a second
  mutex while it runs at a priority inherited through a first one has that priority recorded as its
  original priority. When it releases the second mutex later, after the first, its priority is set to
  the recorded one again, although it owns no mutex and nobody waits for it.
\<close>

theorem mutex_nested_keeps_boost:
  assumes "mutex_inv m k" and "caller k t" and "owner m = None" and "current_priority (threads k t) = boosted"
    and "rt_mutex_take m timeout k = Some (r, m\<^sub>1, k\<^sub>1)"
    and "mutex_inv m\<^sub>1 k\<^sub>2" and "caller k\<^sub>2 t" and "current_priority (threads k\<^sub>2 t) = base"
    and "tlists k\<^sub>2 (mutex_head m\<^sub>1) = []"
  shows "\<exists>m\<^sub>3 k\<^sub>3. rt_mutex_release m\<^sub>1 k\<^sub>2 = Some (RT_EOK, m\<^sub>3, k\<^sub>3) \<and> owner m\<^sub>3 = None \<and>
    current_priority (threads k\<^sub>3 t) = boosted"
proof -
  have "owner m\<^sub>1 = Some t" "hold m\<^sub>1 = 1" "original_priority m\<^sub>1 = boosted"
    using mutex_take_returns [OF assms(1,2), of timeout] assms(3-5) by auto
  then show ?thesis using mutex_release_final [OF assms(6,7)] assms(9) by auto
qed

text \<open>The first state has thread 0 at priority 5, the second at its base priority 10.\<close>

theorem mutex_nested_keeps_boost_witness:
  "let k = rt_thread_change_priority 0 5 sample_kernel in
   \<exists>r m\<^sub>1 k\<^sub>1 m\<^sub>3 k\<^sub>3. rt_mutex_take sample_mutex 0 k = Some (r, m\<^sub>1, k\<^sub>1) \<and>
     rt_mutex_release m\<^sub>1 sample_kernel = Some (RT_EOK, m\<^sub>3, k\<^sub>3) \<and> owner m\<^sub>3 = None \<and>
     current_priority (threads sample_kernel 0) = 10 \<and> current_priority (threads k\<^sub>3 0) = 5"
proof -
  define k where "k = rt_thread_change_priority 0 5 sample_kernel"
  note ch = change_priority_ok [OF sample_ready_inv, of 5, where t = 0, folded k_def]
  have fresh: "tlists sample_kernel (SuspHead 7) = []" "current_priority (threads sample_kernel 0) = 10"
    by (simp_all add: sample_kernel_def sample_thread_def)
  have c: "caller k 0" using sample_caller ch(2,3,8,9) by (simp add: caller_def hard_timer_def)
  have p: "current_priority (threads k 0) = 5" using ch(4) [of 0] by simp
  have inv: "mutex_inv sample_mutex k"
    using ch(1) ch(7) [of "SuspHead 7"] fresh(1) by (simp add: mutex_inv_def sample_mutex_def)
  have own: "owner sample_mutex = None" by (simp add: sample_mutex_def)
  obtain m1 k1 where m1: "rt_mutex_take sample_mutex 0 k = Some (Returned RT_EOK, m1, k1)"
    using mutex_take_returns [OF inv c, of 0] own by auto
  have "m1 = \<lparr>mutex_id = 7, mutex_value = 0, original_priority = 5, hold = 1, owner = Some 0\<rparr>"
    using m1 caller_available [OF c] p
    by (auto simp: rt_mutex_take_def sample_mutex_def RT_MUTEX_HOLD_MAX_def kernel_simps)
  then have "mutex_inv m1 sample_kernel" "tlists sample_kernel (mutex_head m1) = []"
    using sample_ready_inv fresh(1) by (simp_all add: mutex_inv_def)
  from mutex_nested_keeps_boost [OF inv c own p m1 this(1) sample_caller fresh(2) this(2)] m1 fresh(2)
  show ?thesis by (auto simp: Let_def simp flip: k_def)
qed

end
