(* ===== verification/Event.thy ===== *)
theory Event
  imports Ipc
begin

text \<open>
  Event sets (\<^verbatim>\<open>rt-thread/src/ipc.c\<close>, \<^verbatim>\<open>rt_event_*\<close>): threads wait for all or for one of a set of event
  bits, and may clear what they receive. The theorems show that no thread waits while its condition
  holds, and which threads a send resumes.
\<close>

section \<open>Operations\<close>

record rt_event =
  event_id :: nat
  event_flag :: u8
  events :: u32

definition RT_EVENT_FLAG_AND :: u8 where "RT_EVENT_FLAG_AND = 1"
definition RT_EVENT_FLAG_OR :: u8 where "RT_EVENT_FLAG_OR = 2"
definition RT_EVENT_FLAG_CLEAR :: u8 where "RT_EVENT_FLAG_CLEAR = 4"

abbreviation event_head :: "rt_event \<Rightarrow> list_head" where
  "event_head e \<equiv> SuspHead (event_id e)"

definition rt_event_init :: "nat \<Rightarrow> u8 \<Rightarrow> kernel \<Rightarrow> (rt_event \<times> kernel) option" where
  "rt_event_init i flag k =
     (if flag = RT_IPC_FLAG_FIFO \<or> flag = RT_IPC_FLAG_PRIO
      then Some (\<lparr>event_id = i, event_flag = flag, events = 0\<rparr>, ipc_object_init (SuspHead i) k)
      else None)"

definition rt_event_detach :: "rt_event \<Rightarrow> kernel \<Rightarrow> kernel option" where
  "rt_event_detach e k = ipc_list_resume_all (event_head e) k"

definition rt_event_delete :: "rt_event \<Rightarrow> kernel \<Rightarrow> kernel option" where
  "rt_event_delete e k = ipc_list_resume_all (event_head e) k"

text \<open>Resuming a thread whose condition holds; the new event bits and the new state.\<close>

definition event_wake :: "tid \<Rightarrow> u32 \<Rightarrow> kernel \<Rightarrow> u32 \<times> kernel" where
  "event_wake t s k =
     (if event_info (threads k t) AND RT_EVENT_FLAG_CLEAR \<noteq> 0 then s AND NOT (event_set (threads k t)) else s,
      snd (rt_thread_resume t k))"

text \<open>
  The loop of \<^verbatim>\<open>rt_event_send\<close> over the waiting threads (the next node is read before a thread is
  resumed, so it visits the list as it was). The results: whether every thread had a valid option,
  the event bits, the state, and whether to reschedule.
\<close>

fun event_send_loop :: "tid list \<Rightarrow> u32 \<Rightarrow> kernel \<Rightarrow> bool \<Rightarrow> bool \<times> u32 \<times> kernel \<times> bool" where
  "event_send_loop [] s k need_schedule = (True, s, k, need_schedule)"
| "event_send_loop (t # ts) s k need_schedule =
     (let th = threads k t in
      if event_info th AND RT_EVENT_FLAG_AND \<noteq> 0 then
        (if event_set th AND s = event_set th
         then let (s', k') = event_wake t s k in event_send_loop ts s' k' True
         else event_send_loop ts s k need_schedule)
      else if event_info th AND RT_EVENT_FLAG_OR \<noteq> 0 then
        (if event_set th AND s \<noteq> 0
         then let (s', k') = event_wake t s (upd_thread t (\<lambda>th. th\<lparr>event_set := event_set th AND s\<rparr>) k)
              in event_send_loop ts s' k' True
         else event_send_loop ts s k need_schedule)
      else (False, s, k, need_schedule))"

definition rt_event_send :: "rt_event \<Rightarrow> u32 \<Rightarrow> kernel \<Rightarrow> (int \<times> rt_event \<times> kernel) option" where
  "rt_event_send e bits k =
     (if bits = 0 then Some (- RT_ERROR, e, k)
      else let (valid, s, k1, need_schedule) = event_send_loop (tlists k (event_head e)) (events e OR bits) k False
           in if \<not> valid then Some (- RT_EINVAL, e\<lparr>events := s\<rparr>, k1)
              else if need_schedule then do { k2 \<leftarrow> rt_schedule k1; Some (RT_EOK, e\<lparr>events := s\<rparr>, k2) }
              else Some (RT_EOK, e\<lparr>events := s\<rparr>, k1))"

text \<open>The second component of the result is the value stored through \<^verbatim>\<open>recved\<close>.\<close>

definition rt_event_recv ::
  "rt_event \<Rightarrow> u32 \<Rightarrow> u8 \<Rightarrow> int \<Rightarrow> kernel \<Rightarrow> (outcome \<times> u32 option \<times> rt_event \<times> kernel) option" where
  "rt_event_recv e bits option timeout k =
     (if \<not> scheduler_available k then None
      else if bits = 0 then Some (Returned (- RT_ERROR), None, e, k)
      else do {
        t \<leftarrow> rt_thread_self k;
        let k0 = upd_thread t (\<lambda>th. th\<lparr>error := RT_EOK\<rparr>) k;
        status \<leftarrow> (if option AND RT_EVENT_FLAG_AND \<noteq> 0 then Some (events e AND bits = bits)
                   else if option AND RT_EVENT_FLAG_OR \<noteq> 0 then Some (events e AND bits \<noteq> 0)
                   else None);
        if status then
          let k1 = upd_thread t (\<lambda>th. th\<lparr>event_set := events e AND bits, event_info := option\<rparr>) k0;
              e1 = (if option AND RT_EVENT_FLAG_CLEAR \<noteq> 0 then e\<lparr>events := events e AND NOT bits\<rparr> else e)
          in Some (Returned (error (threads k1 t)), Some (events e AND bits), e1, k1)
        else if timeout = 0 then
          Some (Returned (- RT_ETIMEOUT), None, e, upd_thread t (\<lambda>th. th\<lparr>error := - RT_ETIMEOUT\<rparr>) k0)
        else do {
          k2 \<leftarrow> ipc_wait (event_head e) t (event_flag e) timeout
                 (upd_thread t (\<lambda>th. th\<lparr>event_set := bits, event_info := option\<rparr>) k0);
          Some (Blocked t, None, e, k2) } })"

definition rt_event_recv_resumed :: "tid \<Rightarrow> kernel \<Rightarrow> int \<times> u32 option" where
  "rt_event_recv_resumed t k =
     (if error (threads k t) \<noteq> RT_EOK then (error (threads k t), None)
      else (error (threads k t), Some (event_set (threads k t))))"

definition rt_event_control :: "rt_event \<Rightarrow> nat \<Rightarrow> kernel \<Rightarrow> (int \<times> rt_event \<times> kernel) option" where
  "rt_event_control e cmd k =
     (if cmd = RT_IPC_CMD_RESET then
        do { k1 \<leftarrow> ipc_list_resume_all (event_head e) k;
             k2 \<leftarrow> rt_schedule k1;
             Some (RT_EOK, e\<lparr>events := 0\<rparr>, k2) }
      else Some (- RT_ERROR, e, k))"

section \<open>Invariant\<close>

definition valid_option :: "u8 \<Rightarrow> bool" where
  "valid_option info \<longleftrightarrow> info AND RT_EVENT_FLAG_AND \<noteq> 0 \<or> info AND RT_EVENT_FLAG_OR \<noteq> 0"

definition satisfied :: "u32 \<Rightarrow> u32 \<Rightarrow> u8 \<Rightarrow> bool" where
  "satisfied s bits info \<longleftrightarrow>
     (if info AND RT_EVENT_FLAG_AND \<noteq> 0 then bits AND s = bits else bits AND s \<noteq> 0)"

text \<open>A thread waits with a valid option, its error code cleared, and its condition false.\<close>

definition waits_unsatisfied :: "u32 \<Rightarrow> kernel \<Rightarrow> tid \<Rightarrow> bool" where
  "waits_unsatisfied s k t \<longleftrightarrow>
     valid_option (event_info (threads k t)) \<and> error (threads k t) = RT_EOK \<and>
     \<not> satisfied s (event_set (threads k t)) (event_info (threads k t))"

definition event_inv :: "rt_event \<Rightarrow> kernel \<Rightarrow> bool" where
  "event_inv e k \<longleftrightarrow>
     ready_inv k \<and> (event_flag e = RT_IPC_FLAG_FIFO \<or> event_flag e = RT_IPC_FLAG_PRIO) \<and>
     (\<forall>t \<in> set (tlists k (event_head e)). waits_unsatisfied (events e) k t)"

lemma satisfied_mono: "satisfied (s AND x) bits info \<Longrightarrow> satisfied s bits info"
proof (cases "info AND RT_EVENT_FLAG_AND \<noteq> 0")
  case True
  assume "satisfied (s AND x) bits info"
  then have "bits AND (s AND x) = bits" using True by (simp add: satisfied_def)
  then have "bits AND s = bits" by (auto simp: bit_eq_iff bit_and_iff)
  then show ?thesis using True by (simp add: satisfied_def)
next
  case False
  assume "satisfied (s AND x) bits info"
  then have "bits AND (s AND x) \<noteq> 0" using False by (simp add: satisfied_def)
  then have "bits AND s \<noteq> 0" by (metis and.assoc zero_and_eq)
  then show ?thesis using False by (simp add: satisfied_def)
qed

lemma unsatisfied_clear: "waits_unsatisfied s k t \<Longrightarrow> waits_unsatisfied (s AND x) k t"
  using satisfied_mono by (auto simp: waits_unsatisfied_def)

section \<open>Sending\<close>

text \<open>The condition the loop tests, and the thread as it is resumed.\<close>

definition event_ready :: "u32 \<Rightarrow> kernel \<Rightarrow> tid \<Rightarrow> bool" where
  "event_ready s k t \<longleftrightarrow> satisfied s (event_set (threads k t)) (event_info (threads k t))"

definition event_deliver :: "tid \<Rightarrow> u32 \<Rightarrow> kernel \<Rightarrow> kernel" where
  "event_deliver t s k = (if event_info (threads k t) AND RT_EVENT_FLAG_AND \<noteq> 0 then k
     else upd_thread t (\<lambda>th. th\<lparr>event_set := event_set th AND s\<rparr>) k)"

lemma event_send_loop_Cons:
  assumes "valid_option (event_info (threads k t))"
  shows "event_send_loop (t # ts) s k need =
    (if event_ready s k t
     then event_send_loop ts (fst (event_wake t s (event_deliver t s k))) (snd (event_wake t s (event_deliver t s k))) True
     else event_send_loop ts s k need)"
  using assms
  by (auto simp: event_ready_def satisfied_def event_deliver_def valid_option_def Let_def split: prod.splits)

lemma event_deliver_frame:
  assumes "ready_inv k"
  shows "ready_inv (event_deliver t s k)" and "thread_state (event_deliver t s k) = thread_state k"
    and "tlists (event_deliver t s k) = tlists k" and "rt_current_thread (event_deliver t s k) = rt_current_thread k"
    and "rt_scheduler_lock_nest (event_deliver t s k) = rt_scheduler_lock_nest k"
    and "u \<noteq> t \<Longrightarrow> threads (event_deliver t s k) u = threads k u"
    and "error (threads (event_deliver t s k) u) = error (threads k u)"
    and "event_info (threads (event_deliver t s k) u) = event_info (threads k u)"
  using upd_fields_ready [OF assms, of "\<lambda>th. th\<lparr>event_set := event_set th AND s\<rparr>" t] assms
  by (simp_all add: event_deliver_def) (simp_all add: kernel_simps)

text \<open>One thread resumed by the loop.\<close>

lemma event_wake_ok:
  fixes s :: u32
  assumes inv: "ready_inv k" and q: "tlists k (event_head e) = us @ t # ts"
    and c: "rt_current_thread k = Some c" "thread_state k c \<noteq> RT_THREAD_SUSPEND"
  defines "k' \<equiv> snd (event_wake t s (event_deliver t s k))"
  shows "ready_inv k'" and "rt_current_thread k' = Some c" and "thread_state k' = (thread_state k)(t := RT_THREAD_READY)"
    and "tlists k' (event_head e) = us @ ts"
    and "u \<noteq> t \<Longrightarrow> waits_unsatisfied s' k' u \<longleftrightarrow> waits_unsatisfied s' k u"
    and "u \<noteq> t \<Longrightarrow> event_ready s' k' u \<longleftrightarrow> event_ready s' k u"
    and "u \<noteq> t \<Longrightarrow> event_info (threads k' u) = event_info (threads k u)"
    and "error (threads k' u) = error (threads k u)"
proof -
  let ?k = "event_deliver t s k" and ?h = "event_head e"
  note fr = event_deliver_frame [OF inv, where t = t and s = s]
  have t: "t \<in> set (tlists ?k ?h)" using q by (simp add: fr(3))
  have st: "thread_state k t = RT_THREAD_SUSPEND" using waiting_suspended [OF inv, of ?h t] q by simp
  have ct: "c \<noteq> t" using c(2) st by auto
  have k': "k' = snd (rt_thread_resume t ?k)" by (simp add: k'_def event_wake_def)
  note r = rt_thread_resume_ok [OF fr(1), of t, folded k']
  show "ready_inv k'" and "rt_current_thread k' = Some c" and "thread_state k' = (thread_state k)(t := RT_THREAD_READY)"
    using r st c ct by (simp_all add: fr)
  have "distinct (us @ t # ts)" using queue_distinct [OF ready_queue [OF inv], of ?h] q by simp
  then show "tlists k' ?h = us @ ts"
    using resume_waits [OF fr(1) _ t, of ?h] q by (simp add: k' fr(3))
  have same: "same_threads ?k k'" unfolding k' by (rule same_threads_resume)
  show "u \<noteq> t \<Longrightarrow> waits_unsatisfied s' k' u \<longleftrightarrow> waits_unsatisfied s' k u"
    "u \<noteq> t \<Longrightarrow> event_ready s' k' u \<longleftrightarrow> event_ready s' k u"
    "u \<noteq> t \<Longrightarrow> event_info (threads k' u) = event_info (threads k u)"
    using same fr(6) [of u] by (simp_all add: same_threads_def waits_unsatisfied_def event_ready_def)
  show "error (threads k' u) = error (threads k u)"
    using same fr(7) by (simp add: same_threads_def)
qed

lemma event_send_loop_ok:
  assumes "ready_inv k" and "tlists k (event_head e) = us @ ts"
    and "rt_current_thread k = Some c" and "thread_state k c \<noteq> RT_THREAD_SUSPEND"
    and "\<forall>t \<in> set us. waits_unsatisfied s k t"
    and "\<forall>t \<in> set ts. valid_option (event_info (threads k t)) \<and> error (threads k t) = RT_EOK"
  shows "\<exists>s' k' ts'. event_send_loop ts s k need = (True, s', k', need \<or> ts' \<noteq> ts) \<and> ready_inv k' \<and>
    rt_current_thread k' = Some c \<and> tlists k' (event_head e) = us @ ts' \<and> set ts' \<subseteq> set ts \<and>
    (\<forall>t \<in> set (us @ ts'). waits_unsatisfied s' k' t) \<and>
    (\<forall>t \<in> set ts - set ts'. thread_state k' t = RT_THREAD_READY \<and> error (threads k' t) = RT_EOK) \<and>
    (\<forall>t. t \<notin> set ts \<longrightarrow> thread_state k' t = thread_state k t \<and> error (threads k' t) = error (threads k t)) \<and>
    ((\<forall>t \<in> set ts. event_info (threads k t) AND RT_EVENT_FLAG_CLEAR = 0) \<longrightarrow>
       s' = s \<and> ts' = filter (\<lambda>t. \<not> event_ready s k t) ts)"
  using assms
proof (induction ts arbitrary: us s k need)
  case Nil
  then show ?case by simp
next
  case (Cons t ts)
  have d: "distinct (us @ t # ts)"
    using queue_distinct [OF ready_queue [OF Cons.prems(1)], of "event_head e"] Cons.prems(2) by simp
  have v: "valid_option (event_info (threads k t))" "error (threads k t) = RT_EOK" using Cons.prems(6) by simp_all
  show ?case
  proof (cases "event_ready s k t")
    case True
    let ?s = "fst (event_wake t s (event_deliver t s k))" and ?k = "snd (event_wake t s (event_deliver t s k))"
    note w = event_wake_ok [OF Cons.prems(1,2,3,4), where s = s]
    have sub: "\<exists>x. ?s = s AND x"
    proof (cases "event_info (threads (event_deliver t s k) t) AND RT_EVENT_FLAG_CLEAR \<noteq> 0")
      case True then show ?thesis by (auto simp: event_wake_def)
    next
      case False then show ?thesis by (intro exI [of _ s]) (simp add: event_wake_def)
    qed
    have us: "\<forall>u \<in> set us. waits_unsatisfied ?s ?k u"
      using Cons.prems(5) d sub w(5) unsatisfied_clear by (metis disjoint_insert(2) distinct_append list.simps(15))
    have ts: "\<forall>u \<in> set ts. valid_option (event_info (threads ?k u)) \<and> error (threads ?k u) = RT_EOK"
      using Cons.prems(6) d w(7,8) by (metis distinct.simps(2) distinct_append list.set_intros(2))
    have c': "thread_state ?k c \<noteq> RT_THREAD_SUSPEND" using Cons.prems(4) by (simp add: w(3) kernel_simps)
    obtain s' k' ts' where IH: "event_send_loop ts ?s ?k True = (True, s', k', True \<or> ts' \<noteq> ts)" "ready_inv k'"
        "rt_current_thread k' = Some c" "tlists k' (event_head e) = us @ ts'" "set ts' \<subseteq> set ts"
        "\<forall>t \<in> set (us @ ts'). waits_unsatisfied s' k' t"
        "\<forall>t \<in> set ts - set ts'. thread_state k' t = RT_THREAD_READY \<and> error (threads k' t) = RT_EOK"
        "\<forall>t. t \<notin> set ts \<longrightarrow> thread_state k' t = thread_state ?k t \<and> error (threads k' t) = error (threads ?k t)"
        "(\<forall>t \<in> set ts. event_info (threads ?k t) AND RT_EVENT_FLAG_CLEAR = 0) \<longrightarrow>
           s' = ?s \<and> ts' = filter (\<lambda>t. \<not> event_ready ?s ?k t) ts"
      using Cons.IH [OF w(1,4,2) c' us ts, of True] by blast
    have t: "t \<notin> set ts" using d by auto
    then have "ts' \<noteq> t # ts" using IH(5) by auto
    then have loop: "event_send_loop (t # ts) s k need = (True, s', k', need \<or> ts' \<noteq> t # ts)"
      using IH(1) True by (simp add: event_send_loop_Cons [OF v(1)] del: event_send_loop.simps)
    have woken: "\<forall>u \<in> set (t # ts) - set ts'. thread_state k' u = RT_THREAD_READY \<and> error (threads k' u) = RT_EOK"
      using IH(7,8) t v(2) w(3,8) by auto
    have rest: "\<forall>u. u \<notin> set (t # ts) \<longrightarrow> thread_state k' u = thread_state k u \<and> error (threads k' u) = error (threads k u)"
      using IH(8) w(3,8) by auto
    have noclear: "s' = s \<and> ts' = filter (\<lambda>t. \<not> event_ready s k t) (t # ts)"
      if "\<forall>u \<in> set (t # ts). event_info (threads k u) AND RT_EVENT_FLAG_CLEAR = 0"
    proof -
      have "?s = s" using that event_deliver_frame(8) [OF Cons.prems(1)] by (simp add: event_wake_def)
      moreover have "event_ready s ?k u = event_ready s k u" "event_info (threads ?k u) = event_info (threads k u)"
        if "u \<in> set ts" for u using that t w(6,7) by metis+
      ultimately show ?thesis using IH(9) that True by (simp cong: filter_cong)
    qed
    show ?thesis
      using loop IH(2-6) woken rest noclear by (intro exI [of _ s'] exI [of _ k'] exI [of _ ts']) auto
  next
    case False
    have us: "\<forall>u \<in> set (us @ [t]). waits_unsatisfied s k u"
      using Cons.prems(5) v False by (auto simp: waits_unsatisfied_def event_ready_def)
    have q: "tlists k (event_head e) = (us @ [t]) @ ts" using Cons.prems(2) by simp
    have ts: "\<forall>u \<in> set ts. valid_option (event_info (threads k u)) \<and> error (threads k u) = RT_EOK"
      using Cons.prems(6) by simp
    obtain s' k' ts' where IH: "event_send_loop ts s k need = (True, s', k', need \<or> ts' \<noteq> ts)" "ready_inv k'"
        "rt_current_thread k' = Some c" "tlists k' (event_head e) = (us @ [t]) @ ts'" "set ts' \<subseteq> set ts"
        "\<forall>t \<in> set ((us @ [t]) @ ts'). waits_unsatisfied s' k' t"
        "\<forall>t \<in> set ts - set ts'. thread_state k' t = RT_THREAD_READY \<and> error (threads k' t) = RT_EOK"
        "\<forall>t. t \<notin> set ts \<longrightarrow> thread_state k' t = thread_state k t \<and> error (threads k' t) = error (threads k t)"
        "(\<forall>t \<in> set ts. event_info (threads k t) AND RT_EVENT_FLAG_CLEAR = 0) \<longrightarrow>
           s' = s \<and> ts' = filter (\<lambda>t. \<not> event_ready s k t) ts"
      using Cons.IH [OF Cons.prems(1) q Cons.prems(3,4) us ts, of need] by blast
    have "event_send_loop (t # ts) s k need = (True, s', k', need \<or> t # ts' \<noteq> t # ts)"
      using IH(1) False by (simp add: event_send_loop_Cons [OF v(1)] del: event_send_loop.simps)
    then show ?thesis
      using IH(2-9) False by (intro exI [of _ s'] exI [of _ k'] exI [of _ "t # ts'"]) auto
  qed
qed

lemma waits_unsatisfied_same: "same_threads k k' \<Longrightarrow> waits_unsatisfied s k' t \<longleftrightarrow> waits_unsatisfied s k t"
  by (simp add: same_threads_def waits_unsatisfied_def)

lemma upd_fields_event_inv:
  assumes "event_inv e k" and "t \<notin> set (tlists k (event_head e))"
    and "\<And>th. stat (f th) = stat th \<and> current_priority (f th) = current_priority th \<and> number_mask (f th) = number_mask th"
  shows "event_inv e (upd_thread t f k)"
  using assms upd_fields_ready [OF _ assms(3), of k t]
  by (auto simp: event_inv_def waits_unsatisfied_def kernel_simps)

lemma event_recv_blocks:
  assumes inv: "event_inv e k" and c: "caller k t" and opt: "valid_option option"
    and un: "\<not> satisfied (events e) bits option" and to: "timeout < 2 ^ 31 - 1"
  shows "\<exists>k'. ipc_wait (event_head e) t (event_flag e) timeout
      (upd_thread t (\<lambda>th. th\<lparr>event_set := bits, event_info := option\<rparr>)
        (upd_thread t (\<lambda>th. th\<lparr>error := RT_EOK\<rparr>) k)) = Some k' \<and> event_inv e k' \<and>
    thread_state k' t = RT_THREAD_SUSPEND \<and> t \<in> set (tlists k' (event_head e))"
proof -
  let ?k = "upd_thread t (\<lambda>th. th\<lparr>event_set := bits, event_info := option\<rparr>)
        (upd_thread t (\<lambda>th. th\<lparr>error := RT_EOK\<rparr>) k)"
  have r: "ready_inv k" and f: "event_flag e = RT_IPC_FLAG_FIFO \<or> event_flag e = RT_IPC_FLAG_PRIO"
    using inv by (simp_all add: event_inv_def)
  note u0 = upd_fields_ready [OF r, of "\<lambda>th. th\<lparr>error := RT_EOK\<rparr>" t]
  have r1: "ready_inv ?k" and st1: "thread_state ?k = thread_state k"
    using upd_fields_ready [of "upd_thread t (\<lambda>th. th\<lparr>error := RT_EOK\<rparr>) k" "\<lambda>th. th\<lparr>event_set := bits, event_info := option\<rparr>" t] u0
    by simp_all
  obtain k' where k': "ipc_wait (event_head e) t (event_flag e) timeout ?k = Some k'" "ready_inv k'"
    "thread_state k' t = RT_THREAD_SUSPEND"
    "tlists k' (event_head e) = enqueued (event_flag e) ?k t (tlists k (event_head e))" "same_threads ?k k'"
    using ipc_wait_ok [OF r1 _ _ _ f _ to, of t "event_head e"] c st1
    by (auto simp: caller_def kernel_simps hard_timer_def)
  have "waits_unsatisfied (events e) k' u" if "u \<in> set (tlists k' (event_head e))" for u
  proof -
    have "waits_unsatisfied (events e) ?k u"
      using that inv opt un by (cases "u = t") (auto simp: k'(4) event_inv_def waits_unsatisfied_def kernel_simps)
    then show ?thesis using waits_unsatisfied_same [OF k'(5)] by simp
  qed
  then have "event_inv e k'" using k'(2) f by (simp add: event_inv_def)
  then show ?thesis using k'(1,3,4) by auto
qed

section \<open>Properties\<close>

text \<open>
  Property C14. \<^verbatim>\<open>rt_event_send\<close> misses nobody: it succeeds and afterwards no thread is left waiting whose
  condition holds for the event bits that remain; every thread it takes out of the waiting list is
  runnable and returns success. If no waiting thread clears the events it receives, exactly the
  threads whose condition holds for the old bits together with the sent ones are resumed, the others
  keep their order, and the sent bits stay set.
\<close>

theorem event_send_wakes:
  assumes "event_inv e k" and "rt_current_thread k = Some c" and "thread_state k c \<noteq> RT_THREAD_SUSPEND" and "bits \<noteq> 0"
  shows "\<exists>e' k'. rt_event_send e bits k = Some (RT_EOK, e', k') \<and> event_inv e' k' \<and> event_id e' = event_id e \<and>
    (\<forall>t \<in> set (tlists k (event_head e)) - set (tlists k' (event_head e)).
       runnable k' t \<and> fst (rt_event_recv_resumed t k') = RT_EOK) \<and>
    ((\<forall>t \<in> set (tlists k (event_head e)). event_info (threads k t) AND RT_EVENT_FLAG_CLEAR = 0) \<longrightarrow>
       events e' = events e OR bits \<and>
       tlists k' (event_head e) = filter (\<lambda>t. \<not> event_ready (events e OR bits) k t) (tlists k (event_head e)))"
proof -
  let ?h = "event_head e" and ?s = "events e OR bits"
  have r: "ready_inv k" and f: "event_flag e = RT_IPC_FLAG_FIFO \<or> event_flag e = RT_IPC_FLAG_PRIO"
    and w: "\<forall>t \<in> set (tlists k ?h). valid_option (event_info (threads k t)) \<and> error (threads k t) = RT_EOK"
    using assms(1) by (auto simp: event_inv_def waits_unsatisfied_def)
  obtain s' k1 ts' where l: "event_send_loop (tlists k ?h) ?s k False = (True, s', k1, False \<or> ts' \<noteq> tlists k ?h)"
      "ready_inv k1" "rt_current_thread k1 = Some c" "tlists k1 ?h = [] @ ts'" "set ts' \<subseteq> set (tlists k ?h)"
      "\<forall>t \<in> set ([] @ ts'). waits_unsatisfied s' k1 t"
      "\<forall>t \<in> set (tlists k ?h) - set ts'. thread_state k1 t = RT_THREAD_READY \<and> error (threads k1 t) = RT_EOK"
      "(\<forall>t \<in> set (tlists k ?h). event_info (threads k t) AND RT_EVENT_FLAG_CLEAR = 0) \<longrightarrow>
         s' = ?s \<and> ts' = filter (\<lambda>t. \<not> event_ready ?s k t) (tlists k ?h)"
    using event_send_loop_ok [OF r, of e "[]" "tlists k ?h" c ?s False] assms(2,3) w by (simp add: Bex_def) blast
  obtain k2 where k2: "rt_schedule k1 = Some k2" "ready_inv k2"
      "\<forall>u. thread_state k2 u \<in> {RT_THREAD_READY, RT_THREAD_RUNNING} \<longleftrightarrow>
           thread_state k1 u \<in> {RT_THREAD_READY, RT_THREAD_RUNNING}"
    using rt_schedule_ok [OF l(2,3)] by blast
  define k' where "k' = (if ts' \<noteq> tlists k ?h then k2 else k1)"
  let ?e = "e\<lparr>events := s'\<rparr>"
  have send: "rt_event_send e bits k = Some (RT_EOK, ?e, k')"
    using assms(4) l(1) k2(1) by (simp add: rt_event_send_def k'_def)
  have q: "tlists k' ?h = ts'"
    using rt_schedule_waits [OF l(2) k2(1), of ?h] l(4) by (simp add: k'_def)
  have same: "same_threads k1 k'" using same_threads_schedule [OF k2(1)] by (simp add: k'_def)
  have run: "runnable k' t \<longleftrightarrow> runnable k1 t" for t using k2(3) by (simp add: k'_def runnable_def)
  have "event_inv ?e k'"
    using l(2,6) k2(2) f q waits_unsatisfied_same [OF same] by (simp add: event_inv_def k'_def)
  moreover have "runnable k' t \<and> fst (rt_event_recv_resumed t k') = RT_EOK"
    if "t \<in> set (tlists k ?h) - set (tlists k' ?h)" for t
    using l(7) that same unfolding run q by (simp add: runnable_def rt_event_recv_resumed_def same_threads_def)
  ultimately show ?thesis using send q l(8) by (intro exI [of _ ?e] exI [of _ k']) simp
qed

definition sample_event :: rt_event where
  "sample_event = \<lparr>event_id = 0, event_flag = RT_IPC_FLAG_PRIO, events = 4\<rparr>"

definition sample_event_kernel :: kernel where
  "sample_event_kernel = upd_thread 5 (\<lambda>th. th\<lparr>event_set := 3, event_info := RT_EVENT_FLAG_OR\<rparr>) sample_kernel"

lemma sample_event_inv: "event_inv sample_event sample_event_kernel"
proof -
  have "ready_inv sample_event_kernel"
    unfolding sample_event_kernel_def by (rule upd_fields_ready [OF sample_ready_inv]) simp
  moreover have "tlists sample_event_kernel (SuspHead 0) = [5]" "error (threads sample_event_kernel 5) = 0"
    "event_set (threads sample_event_kernel 5) = 3" "event_info (threads sample_event_kernel 5) = RT_EVENT_FLAG_OR"
    by (simp_all add: sample_event_kernel_def kernel_simps) (simp_all add: sample_kernel_def sample_thread_def)
  ultimately show ?thesis
    by (simp add: event_inv_def sample_event_def waits_unsatisfied_def valid_option_def satisfied_def
        RT_EVENT_FLAG_OR_def RT_EVENT_FLAG_AND_def RT_EOK_def)
qed

lemma sample_event_facts:
  "rt_current_thread sample_event_kernel = Some 0" "thread_state sample_event_kernel 0 = RT_THREAD_RUNNING"
  "tlists sample_event_kernel (SuspHead 0) = [5]" "event_info (threads sample_event_kernel 5) = RT_EVENT_FLAG_OR"
  "event_set (threads sample_event_kernel 5) = 3"
  using upd_fields_ready(2) [OF sample_ready_inv, of "\<lambda>th. th\<lparr>event_set := 3, event_info := RT_EVENT_FLAG_OR\<rparr>" 5]
  by (simp_all add: sample_event_kernel_def kernel_simps sample_states)
    (simp_all add: sample_kernel_def)

theorem event_send_wakes_witness:
  "\<exists>e' k'. rt_event_send sample_event 2 sample_event_kernel = Some (RT_EOK, e', k') \<and> event_inv e' k' \<and>
    runnable k' 5 \<and> events e' = 6 \<and> tlists k' (SuspHead 0) = []"
proof -
  have st: "thread_state sample_event_kernel 0 \<noteq> RT_THREAD_SUSPEND" by (simp add: sample_event_facts kernel_simps)
  obtain e' k' where ek: "rt_event_send sample_event 2 sample_event_kernel = Some (RT_EOK, e', k')" "event_inv e' k'"
    "\<forall>t \<in> set (tlists sample_event_kernel (event_head sample_event)) - set (tlists k' (event_head sample_event)).
       runnable k' t \<and> fst (rt_event_recv_resumed t k') = RT_EOK"
    "(\<forall>t \<in> set (tlists sample_event_kernel (event_head sample_event)).
        event_info (threads sample_event_kernel t) AND RT_EVENT_FLAG_CLEAR = 0) \<longrightarrow>
       events e' = events sample_event OR 2 \<and>
       tlists k' (event_head sample_event) = filter (\<lambda>t. \<not> event_ready (events sample_event OR 2) sample_event_kernel t)
         (tlists sample_event_kernel (event_head sample_event))"
    using event_send_wakes [OF sample_event_inv sample_event_facts(1) st, of 2] by auto
  have h: "event_head sample_event = SuspHead 0" "events sample_event = 4" by (simp_all add: sample_event_def)
  have "event_ready 6 sample_event_kernel 5"
    by (simp add: event_ready_def satisfied_def sample_event_facts RT_EVENT_FLAG_OR_def RT_EVENT_FLAG_AND_def)
  then have "events e' = 6" "tlists k' (SuspHead 0) = []"
    using ek(4) unfolding h by (simp_all add: sample_event_facts RT_EVENT_FLAG_OR_def RT_EVENT_FLAG_CLEAR_def)
  then show ?thesis using ek(1-3) unfolding h by (auto simp: sample_event_facts)
qed

text \<open>
  \<^verbatim>\<open>rt_event_recv\<close> on every branch: it returns at once exactly when the condition holds,
  with the received bits, which it clears if asked to; otherwise it reports a timeout or suspends the
  caller in the waiting list. In each case no thread is left waiting whose condition holds.
\<close>

theorem event_recv_contract:
  assumes "event_inv e k" and "caller k t" and "bits \<noteq> 0" and "valid_option option" and "timeout < 2 ^ 31 - 1"
  shows "if satisfied (events e) bits option
    then \<exists>k'. let e' = (if option AND RT_EVENT_FLAG_CLEAR \<noteq> 0 then e\<lparr>events := events e AND NOT bits\<rparr> else e) in
      rt_event_recv e bits option timeout k = Some (Returned RT_EOK, Some (events e AND bits), e', k') \<and> event_inv e' k'
    else if timeout = 0
    then \<exists>k'. rt_event_recv e bits option timeout k = Some (Returned (- RT_ETIMEOUT), None, e, k') \<and> event_inv e k'
    else \<exists>k'. rt_event_recv e bits option timeout k = Some (Blocked t, None, e, k') \<and> event_inv e k' \<and>
      thread_state k' t = RT_THREAD_SUSPEND \<and> t \<in> set (tlists k' (event_head e))"
proof -
  have run: "t \<notin> set (tlists k (event_head e))"
    using assms(1,2) waiting_suspended [of k "event_head e" t] by (auto simp: event_inv_def caller_def kernel_simps)
  let ?k0 = "upd_thread t (\<lambda>th. th\<lparr>error := RT_EOK\<rparr>) k"
  have i0: "event_inv e ?k0" by (rule upd_fields_event_inv [OF assms(1) run]) simp
  have run0: "t \<notin> set (tlists ?k0 (event_head e))" using run by (simp add: kernel_simps)
  have status: "(if option AND RT_EVENT_FLAG_AND \<noteq> 0 then Some (events e AND bits = bits)
       else if option AND RT_EVENT_FLAG_OR \<noteq> 0 then Some (events e AND bits \<noteq> 0) else None) =
      Some (satisfied (events e) bits option)"
    using assms(4) by (auto simp: valid_option_def satisfied_def and.commute)
  note av = caller_available [OF assms(2)]
  consider (now) "satisfied (events e) bits option" | (no) "\<not> satisfied (events e) bits option" "timeout = 0"
    | (wait) "\<not> satisfied (events e) bits option" "timeout \<noteq> 0" by blast
  then show ?thesis
  proof cases
    case now
    have i1: "event_inv e (upd_thread t (\<lambda>th. th\<lparr>event_set := events e AND bits, event_info := option\<rparr>) ?k0)" (is "event_inv e ?k1")
      by (rule upd_fields_event_inv [OF i0 run0]) simp
    then have "event_inv (e\<lparr>events := events e AND NOT bits\<rparr>) ?k1"
      using unsatisfied_clear by (auto simp: event_inv_def)
    then show ?thesis
      using now i1 av assms(3) status by (simp add: rt_event_recv_def Let_def) (simp add: kernel_simps)
  next
    case no
    have "event_inv e (upd_thread t (\<lambda>th. th\<lparr>error := - RT_ETIMEOUT\<rparr>) ?k0)"
      by (rule upd_fields_event_inv [OF i0 run0]) simp
    then show ?thesis using no av assms(3) status by (simp add: rt_event_recv_def Let_def)
  next
    case wait
    obtain k' where k': "ipc_wait (event_head e) t (event_flag e) timeout
        (upd_thread t (\<lambda>th. th\<lparr>event_set := bits, event_info := option\<rparr>) ?k0) = Some k'" "event_inv e k'"
      "thread_state k' t = RT_THREAD_SUSPEND" "t \<in> set (tlists k' (event_head e))"
      using event_recv_blocks [OF assms(1,2,4) wait(1) assms(5)] by blast
    then show ?thesis using wait av assms(3) status by (simp add: rt_event_recv_def Let_def)
  qed
qed

theorem event_recv_contract_witness:
  "(\<exists>k'. rt_event_recv sample_event 12 RT_EVENT_FLAG_OR 0 sample_event_kernel =
      Some (Returned RT_EOK, Some 4, sample_event, k')) \<and>
   (\<exists>k'. rt_event_recv sample_event 12 RT_EVENT_FLAG_AND (- 1) sample_event_kernel = Some (Blocked 0, None, sample_event, k') \<and>
      thread_state k' 0 = RT_THREAD_SUSPEND)"
proof -
  have c: "caller sample_event_kernel 0"
    using sample_caller sample_event_facts(1,2)
    by (simp add: caller_def) (simp add: hard_timer_def sample_event_kernel_def kernel_simps)
  have "satisfied (events sample_event) 12 RT_EVENT_FLAG_OR" "\<not> satisfied (events sample_event) 12 RT_EVENT_FLAG_AND"
    "valid_option RT_EVENT_FLAG_OR" "valid_option RT_EVENT_FLAG_AND"
    by (simp_all add: satisfied_def sample_event_def valid_option_def RT_EVENT_FLAG_OR_def RT_EVENT_FLAG_AND_def)
  from event_recv_contract [OF sample_event_inv c _ this(3), of 12 0] event_recv_contract [OF sample_event_inv c _ this(4), of 12 "- 1"] this(1,2)
  show ?thesis
    by (auto simp: Let_def RT_EVENT_FLAG_CLEAR_def RT_EVENT_FLAG_OR_def) (auto simp: sample_event_def)
qed

end
