(* ===== verification/Mailbox.thy ===== *)
theory Mailbox
  imports Ipc
begin

text \<open>
  Mailboxes (\<^verbatim>\<open>rt-thread/src/ipc.c\<close>, \<^verbatim>\<open>rt_mb_*\<close>): a bounded circular buffer of words with blocking send
  and receive. The theorems show that a mailbox implements a bounded queue (with an urgent send at
  the front), never leaves its pool, and that a blocked sender completes when a message is received.
\<close>

section \<open>Operations\<close>

record rt_mailbox =
  mb_id :: nat
  mb_flag :: u8
  msg_pool :: "u32 list"
  mb_size :: u16
  mb_entry :: u16
  in_offset :: u16
  out_offset :: u16

definition RT_MB_ENTRY_MAX :: u16 where "RT_MB_ENTRY_MAX = 0xffff"

abbreviation mb_receivers :: "rt_mailbox \<Rightarrow> list_head" where
  "mb_receivers mb \<equiv> SuspHead (mb_id mb)"

abbreviation mb_senders :: "rt_mailbox \<Rightarrow> list_head" where
  "mb_senders mb \<equiv> SenderHead (mb_id mb)"

text \<open>The pool is the memory the caller provides; the size is stored in 16 bits.\<close>

definition rt_mb_init :: "nat \<Rightarrow> u32 list \<Rightarrow> u32 \<Rightarrow> u8 \<Rightarrow> kernel \<Rightarrow> (rt_mailbox \<times> kernel) option" where
  "rt_mb_init i pool n flag k =
     (if flag = RT_IPC_FLAG_FIFO \<or> flag = RT_IPC_FLAG_PRIO
      then Some (\<lparr>mb_id = i, mb_flag = flag, msg_pool = pool, mb_size = ucast n, mb_entry = 0,
                  in_offset = 0, out_offset = 0\<rparr>,
                 ipc_object_init (SenderHead i) (ipc_object_init (SuspHead i) k))
      else None)"

definition rt_mb_detach :: "rt_mailbox \<Rightarrow> kernel \<Rightarrow> kernel option" where
  "rt_mb_detach mb k = do { k1 \<leftarrow> ipc_list_resume_all (mb_receivers mb) k; ipc_list_resume_all (mb_senders mb) k1 }"

definition rt_mb_delete :: "rt_mailbox \<Rightarrow> kernel \<Rightarrow> kernel option" where
  "rt_mb_delete mb k = do { k1 \<leftarrow> ipc_list_resume_all (mb_receivers mb) k; ipc_list_resume_all (mb_senders mb) k1 }"

text \<open>Storing a message behind the loop of \<^verbatim>\<open>rt_mb_send_wait\<close>.\<close>

definition mb_store :: "rt_mailbox \<Rightarrow> u32 \<Rightarrow> kernel \<Rightarrow> (outcome \<times> rt_mailbox \<times> kernel) option" where
  "mb_store mb v k =
     do { pool \<leftarrow> mem_put (msg_pool mb) (unat (in_offset mb)) v;
          let off = in_offset mb + 1;
          let mb1 = mb\<lparr>msg_pool := pool, in_offset := (if off \<ge> mb_size mb then 0 else off)\<rparr>;
          if mb_entry mb1 < RT_MB_ENTRY_MAX then do {
            let mb2 = mb1\<lparr>mb_entry := mb_entry mb1 + 1\<rparr>;
            if tlists k (mb_receivers mb2) \<noteq> [] then do {
              k1 \<leftarrow> ipc_list_resume (mb_receivers mb2) k;
              k2 \<leftarrow> rt_schedule k1;
              Some (Returned RT_EOK, mb2, k2) }
            else Some (Returned RT_EOK, mb2, k) }
          else Some (Returned (- RT_EFULL), mb1, k) }"

text \<open>One pass of the loop: the mailbox is full, or the message is stored.\<close>

definition mb_send_try :: "rt_mailbox \<Rightarrow> u32 \<Rightarrow> int \<Rightarrow> kernel \<Rightarrow> (outcome \<times> rt_mailbox \<times> kernel) option" where
  "mb_send_try mb v timeout k =
     (if mb_entry mb = mb_size mb then
        do { t \<leftarrow> rt_thread_self k;
             let k0 = upd_thread t (\<lambda>th. th\<lparr>error := RT_EOK\<rparr>) k;
             if timeout = 0 then Some (Returned (- RT_EFULL), mb, k0)
             else do {
               k1 \<leftarrow> ipc_wait (mb_senders mb) t (mb_flag mb) timeout k0;
               Some (Blocked t, mb, k1) } }
      else mb_store mb v k)"

definition rt_mb_send_wait :: "rt_mailbox \<Rightarrow> u32 \<Rightarrow> int \<Rightarrow> kernel \<Rightarrow> (outcome \<times> rt_mailbox \<times> kernel) option" where
  "rt_mb_send_wait mb v timeout k =
     (if timeout \<noteq> 0 \<and> \<not> scheduler_available k then None
      else if mb_entry mb = mb_size mb \<and> timeout = 0 then Some (Returned (- RT_EFULL), mb, k)
      else mb_send_try mb v timeout k)"

text \<open>The rest of a blocked send when the thread \<open>t\<close> runs again; \<open>start\<close> is the tick at which it blocked.\<close>

definition rt_mb_send_wait_resumed ::
  "rt_mailbox \<Rightarrow> u32 \<Rightarrow> int \<Rightarrow> u32 \<Rightarrow> tid \<Rightarrow> kernel \<Rightarrow> (outcome \<times> rt_mailbox \<times> kernel) option" where
  "rt_mb_send_wait_resumed mb v timeout start t k =
     (if error (threads k t) \<noteq> RT_EOK then Some (Returned (error (threads k t)), mb, k)
      else mb_send_try mb v (timeout_left timeout start (rt_tick k)) k)"

definition rt_mb_send :: "rt_mailbox \<Rightarrow> u32 \<Rightarrow> kernel \<Rightarrow> (outcome \<times> rt_mailbox \<times> kernel) option" where
  "rt_mb_send mb v k = rt_mb_send_wait mb v 0 k"

definition rt_mb_urgent :: "rt_mailbox \<Rightarrow> u32 \<Rightarrow> kernel \<Rightarrow> (int \<times> rt_mailbox \<times> kernel) option" where
  "rt_mb_urgent mb v k =
     (if mb_entry mb = mb_size mb then Some (- RT_EFULL, mb, k)
      else do {
        let off = (if out_offset mb > 0 then out_offset mb - 1 else mb_size mb - 1);
        pool \<leftarrow> mem_put (msg_pool mb) (unat off) v;
        let mb1 = mb\<lparr>out_offset := off, msg_pool := pool, mb_entry := mb_entry mb + 1\<rparr>;
        if tlists k (mb_receivers mb1) \<noteq> [] then do {
          k1 \<leftarrow> ipc_list_resume (mb_receivers mb1) k;
          k2 \<leftarrow> rt_schedule k1;
          Some (RT_EOK, mb1, k2) }
        else Some (RT_EOK, mb1, k) })"

text \<open>Fetching a message behind the loop of \<^verbatim>\<open>rt_mb_recv\<close>; the second component is \<^verbatim>\<open>*value\<close>.\<close>

definition mb_fetch :: "rt_mailbox \<Rightarrow> kernel \<Rightarrow> (outcome \<times> u32 option \<times> rt_mailbox \<times> kernel) option" where
  "mb_fetch mb k =
     do { v \<leftarrow> mem_get (msg_pool mb) (unat (out_offset mb));
          let off = out_offset mb + 1;
          let mb1 = mb\<lparr>out_offset := (if off \<ge> mb_size mb then 0 else off),
                       mb_entry := (if mb_entry mb > 0 then mb_entry mb - 1 else mb_entry mb)\<rparr>;
          if tlists k (mb_senders mb1) \<noteq> [] then do {
            k1 \<leftarrow> ipc_list_resume (mb_senders mb1) k;
            k2 \<leftarrow> rt_schedule k1;
            Some (Returned RT_EOK, Some v, mb1, k2) }
          else Some (Returned RT_EOK, Some v, mb1, k) }"

definition mb_recv_try :: "rt_mailbox \<Rightarrow> int \<Rightarrow> kernel \<Rightarrow> (outcome \<times> u32 option \<times> rt_mailbox \<times> kernel) option" where
  "mb_recv_try mb timeout k =
     (if mb_entry mb = 0 then
        do { t \<leftarrow> rt_thread_self k;
             let k0 = upd_thread t (\<lambda>th. th\<lparr>error := RT_EOK\<rparr>) k;
             if timeout = 0
             then Some (Returned (- RT_ETIMEOUT), None, mb, upd_thread t (\<lambda>th. th\<lparr>error := - RT_ETIMEOUT\<rparr>) k0)
             else do {
               k1 \<leftarrow> ipc_wait (mb_receivers mb) t (mb_flag mb) timeout k0;
               Some (Blocked t, None, mb, k1) } }
      else mb_fetch mb k)"

definition rt_mb_recv :: "rt_mailbox \<Rightarrow> int \<Rightarrow> kernel \<Rightarrow> (outcome \<times> u32 option \<times> rt_mailbox \<times> kernel) option" where
  "rt_mb_recv mb timeout k =
     (if timeout \<noteq> 0 \<and> \<not> scheduler_available k then None
      else if mb_entry mb = 0 \<and> timeout = 0 then Some (Returned (- RT_ETIMEOUT), None, mb, k)
      else mb_recv_try mb timeout k)"

definition rt_mb_recv_resumed ::
  "rt_mailbox \<Rightarrow> int \<Rightarrow> u32 \<Rightarrow> tid \<Rightarrow> kernel \<Rightarrow> (outcome \<times> u32 option \<times> rt_mailbox \<times> kernel) option" where
  "rt_mb_recv_resumed mb timeout start t k =
     (if error (threads k t) \<noteq> RT_EOK then Some (Returned (error (threads k t)), None, mb, k)
      else mb_recv_try mb (timeout_left timeout start (rt_tick k)) k)"

definition rt_mb_control :: "rt_mailbox \<Rightarrow> nat \<Rightarrow> kernel \<Rightarrow> (int \<times> rt_mailbox \<times> kernel) option" where
  "rt_mb_control mb cmd k =
     (if cmd = RT_IPC_CMD_RESET then
        do { k1 \<leftarrow> ipc_list_resume_all (mb_receivers mb) k;
             k2 \<leftarrow> ipc_list_resume_all (mb_senders mb) k1;
             k3 \<leftarrow> rt_schedule k2;
             Some (RT_EOK, mb\<lparr>mb_entry := 0, in_offset := 0, out_offset := 0\<rparr>, k3) }
      else Some (- RT_ERROR, mb, k))"

section \<open>The circular buffer\<close>

definition mb_wf :: "rt_mailbox \<Rightarrow> bool" where
  "mb_wf mb \<longleftrightarrow>
     mb_size mb \<noteq> 0 \<and> length (msg_pool mb) = unat (mb_size mb) \<and> mb_entry mb \<le> mb_size mb \<and>
     out_offset mb < mb_size mb \<and> in_offset mb < mb_size mb \<and>
     unat (in_offset mb) = (unat (out_offset mb) + unat (mb_entry mb)) mod unat (mb_size mb) \<and>
     (mb_flag mb = RT_IPC_FLAG_FIFO \<or> mb_flag mb = RT_IPC_FLAG_PRIO)"

definition mb_messages :: "rt_mailbox \<Rightarrow> u32 list" where
  "mb_messages mb = cview (msg_pool mb) (unat (out_offset mb)) (unat (mb_entry mb))"

lemma mb_messages_length: "length (mb_messages mb) = unat (mb_entry mb)"
  by (simp add: mb_messages_def)

lemma mb_entry_bound: "mb_wf mb \<Longrightarrow> mb_entry mb \<noteq> mb_size mb \<Longrightarrow> mb_entry mb < 0xffff"
  using u16_below [of "mb_entry mb" "mb_size mb"] by (simp add: mb_wf_def order_le_less)

lemma advanced_less: "n \<noteq> (0 :: u16) \<Longrightarrow> (if n \<le> off + 1 then 0 else off + 1) < n"
  by (auto simp: word_neq_0_conv not_le)

text \<open>The three changes of the buffer: a message at the end, one at the front, one taken.\<close>

lemma mb_put_ok:
  fixes v :: u32
  assumes wf: "mb_wf mb" and room: "mb_entry mb \<noteq> mb_size mb"
  defines "mb' \<equiv> mb\<lparr>msg_pool := (msg_pool mb)[unat (in_offset mb) := v],
      in_offset := (if in_offset mb + 1 \<ge> mb_size mb then 0 else in_offset mb + 1), mb_entry := mb_entry mb + 1\<rparr>"
  shows "mb_wf mb'" and "mb_messages mb' = mb_messages mb @ [v]"
proof -
  let ?n = "unat (mb_size mb)" and ?m = "msg_pool mb" and ?r = "unat (out_offset mb)" and ?d = "unat (mb_entry mb)"
  have w: "mb_size mb \<noteq> 0" "length ?m = ?n" "mb_entry mb \<le> mb_size mb" "out_offset mb < mb_size mb" "in_offset mb < mb_size mb"
    "unat (in_offset mb) = (?r + ?d) mod ?n" "mb_flag mb = RT_IPC_FLAG_FIFO \<or> mb_flag mb = RT_IPC_FLAG_PRIO"
    using wf by (simp_all add: mb_wf_def)
  have e: "unat (mb_entry mb + 1) = ?d + 1" using mb_entry_bound [OF wf room] by (rule u16_succ)
  have d: "?d < ?n" using w(3) room by (simp add: word_le_nat_alt le_neq_implies_less word_unat_eq_iff)
  have i: "unat (in_offset mb) < length ?m" using w(2,5) by (simp add: word_less_nat_alt)
  have adv: "unat (in_offset mb') = (?r + (?d + 1)) mod ?n"
    using u16_advance [OF w(5)] w(6) by (simp add: mb'_def mod_simps)
  show "mb_wf mb'"
    unfolding mb_wf_def
  proof (intro conjI)
    show "unat (in_offset mb') = (unat (out_offset mb') + unat (mb_entry mb')) mod unat (mb_size mb')"
      using adv by (simp add: mb'_def e)
    show "mb_entry mb' \<le> mb_size mb'" using d by (simp add: mb'_def word_le_nat_alt e)
    show "in_offset mb' < mb_size mb'" using advanced_less [OF w(1)] by (simp add: mb'_def)
  qed (use w in \<open>simp_all add: mb'_def\<close>)
  have "cview (?m[unat (in_offset mb) := v]) ?r (?d + length [v]) = cview ?m ?r ?d @ [v]"
    using d w(2,6) by (intro cwritten_append [OF cwritten_cell [OF i]]) simp_all
  then show "mb_messages mb' = mb_messages mb @ [v]" by (simp add: mb_messages_def mb'_def e)
qed

lemma mb_push_front_ok:
  fixes v :: u32
  assumes wf: "mb_wf mb" and room: "mb_entry mb \<noteq> mb_size mb"
  defines "off \<equiv> (if out_offset mb > 0 then out_offset mb - 1 else mb_size mb - 1)"
  defines "mb' \<equiv> mb\<lparr>out_offset := off, msg_pool := (msg_pool mb)[unat off := v], mb_entry := mb_entry mb + 1\<rparr>"
  shows "unat off < length (msg_pool mb)" and "mb_wf mb'" and "mb_messages mb' = v # mb_messages mb"
proof -
  let ?n = "unat (mb_size mb)" and ?m = "msg_pool mb" and ?r = "unat (out_offset mb)" and ?d = "unat (mb_entry mb)"
  have w: "mb_size mb \<noteq> 0" "length ?m = ?n" "mb_entry mb \<le> mb_size mb" "out_offset mb < mb_size mb" "in_offset mb < mb_size mb"
    "unat (in_offset mb) = (?r + ?d) mod ?n" "mb_flag mb = RT_IPC_FLAG_FIFO \<or> mb_flag mb = RT_IPC_FLAG_PRIO"
    using wf by (simp_all add: mb_wf_def)
  have e: "unat (mb_entry mb + 1) = ?d + 1" using mb_entry_bound [OF wf room] by (rule u16_succ)
  have d: "?d < ?n" using w(3) room by (simp add: word_le_nat_alt le_neq_implies_less word_unat_eq_iff)
  have rn: "?r < ?n" using w(4) by (simp add: word_less_nat_alt)
  have off: "unat off = (if ?r > 0 then ?r - 1 else ?n - 1)"
    using u16_pred [of "out_offset mb"] u16_pred [OF w(1)]
    by (auto simp: off_def word_less_nat_alt unat_gt_0 simp flip: word_neq_0_conv)
  then have next_off: "(unat off + 1) mod ?n = ?r" "unat off < ?n" using rn d by auto
  then show "unat off < length ?m" using w(2) by simp
  have "(unat off + (?d + 1)) mod ?n = (?r + ?d) mod ?n"
    using next_off(1) by (metis add.commute add.left_commute mod_add_left_eq)
  then show "mb_wf mb'"
    using w d next_off(2)
    by (simp add: mb_wf_def mb'_def e word_le_nat_alt word_less_nat_alt)
  have "cview (?m[unat off := v]) ?r (?n - 1) = cview ?m ?r (?n - 1)"
  proof (rule cwritten_keep [OF cwritten_cell [OF \<open>unat off < length ?m\<close>, of v]])
    show "?n - 1 + length [v] \<le> length ?m" using w(2) d by simp
    have "(?r + (?n - 1)) mod ?n = ?r - 1" if "?r > 0"
    proof -
      have "?r + (?n - 1) = ?r - 1 + ?n" using that d by simp
      then show ?thesis using rn by (simp only: mod_add_self2) simp
    qed
    moreover have "(?r + (?n - 1)) mod ?n = ?n - 1" if "\<not> ?r > 0" using that d by simp
    ultimately have "(?r + (?n - 1)) mod ?n = unat off" unfolding off by presburger
    then show "unat off mod length ?m = (?r + (?n - 1)) mod length ?m"
      unfolding w(2) using next_off(2) by (simp only: mod_less)
  qed
  then have "cview (?m[unat off := v]) ?r ?d = cview ?m ?r ?d"
    using cview_take [of ?d "?m[unat off := v]" ?r "?n - 1"] cview_take [of ?d ?m ?r "?n - 1"] d
    by (simp add: min_absorb1)
  moreover have "cview (?m[unat off := v]) (Suc (unat off)) ?d = cview (?m[unat off := v]) ?r ?d"
    using cview_mod [of "?m[unat off := v]" "Suc (unat off)" ?d] next_off(1) w(2) by simp
  ultimately show "mb_messages mb' = v # mb_messages mb"
    using next_off(2) w(2) by (simp add: mb_messages_def mb'_def e cview_Suc)
qed

lemma mb_take_ok:
  assumes wf: "mb_wf mb" and some: "mb_entry mb \<noteq> 0"
  defines "mb' \<equiv> mb\<lparr>out_offset := (if out_offset mb + 1 \<ge> mb_size mb then 0 else out_offset mb + 1),
      mb_entry := mb_entry mb - 1\<rparr>"
  shows "unat (out_offset mb) < length (msg_pool mb)" and "mb_wf mb'"
    and "mb_messages mb = msg_pool mb ! unat (out_offset mb) # mb_messages mb'"
proof -
  let ?n = "unat (mb_size mb)" and ?m = "msg_pool mb" and ?r = "unat (out_offset mb)" and ?d = "unat (mb_entry mb)"
  have w: "mb_size mb \<noteq> 0" "length ?m = ?n" "mb_entry mb \<le> mb_size mb" "out_offset mb < mb_size mb" "in_offset mb < mb_size mb"
    "unat (in_offset mb) = (?r + ?d) mod ?n" "mb_flag mb = RT_IPC_FLAG_FIFO \<or> mb_flag mb = RT_IPC_FLAG_PRIO"
    using wf by (simp_all add: mb_wf_def)
  have e: "unat (mb_entry mb - 1) + 1 = ?d" using u16_pred [OF some] .
  define off where "off = (if mb_size mb \<le> out_offset mb + 1 then 0 else out_offset mb + 1)"
  have mb': "mb' = mb\<lparr>out_offset := off, mb_entry := mb_entry mb - 1\<rparr>" by (simp add: mb'_def off_def)
  have adv: "unat off = (?r + 1) mod ?n" unfolding off_def by (rule u16_advance [OF w(4)])
  have less: "off < mb_size mb" unfolding off_def by (rule advanced_less [OF w(1)])
  show r: "?r < length ?m" using w(2,4) by (simp add: word_less_nat_alt)
  have "((?r + 1) mod ?n + unat (mb_entry mb - 1)) mod ?n = (?r + ?d) mod ?n"
    unfolding e [symmetric] by (simp add: mod_simps ac_simps)
  moreover have "mb_entry mb - 1 \<le> mb_size mb" using w(3) e by (simp add: word_le_nat_alt)
  ultimately show "mb_wf mb'" using w less by (simp add: mb_wf_def mb' adv)
  have "cview ?m ?r (Suc (unat (mb_entry mb - 1))) = ?m ! ?r # cview ?m (Suc ?r) (unat (mb_entry mb - 1))"
    using r by (simp add: cview_Suc)
  moreover have "cview ?m (Suc ?r mod ?n) (unat (mb_entry mb - 1)) = cview ?m (Suc ?r) (unat (mb_entry mb - 1))"
    using cview_mod [of ?m "Suc ?r"] w(2) by simp
  ultimately show "mb_messages mb = ?m ! ?r # mb_messages mb'"
    using e adv by (simp add: mb_messages_def mb')
qed

section \<open>The mailbox as a bounded queue\<close>

text \<open>Storing and fetching, whichever threads wait.\<close>

lemma mb_store_ok:
  assumes wf: "mb_wf mb" and room: "mb_entry mb \<noteq> mb_size mb" and k: "ready_inv k" "running k"
  shows "\<exists>mb' k'. mb_store mb v k = Some (Returned RT_EOK, mb', k') \<and> mb_wf mb' \<and> ready_inv k' \<and> running k' \<and>
    mb_messages mb' = mb_messages mb @ [v] \<and> mb_size mb' = mb_size mb \<and> mb_id mb' = mb_id mb"
proof -
  let ?mb = "mb\<lparr>msg_pool := (msg_pool mb)[unat (in_offset mb) := v],
      in_offset := (if in_offset mb + 1 \<ge> mb_size mb then 0 else in_offset mb + 1), mb_entry := mb_entry mb + 1\<rparr>"
  have i: "unat (in_offset mb) < length (msg_pool mb)" using wf by (simp add: mb_wf_def word_less_nat_alt)
  have e: "mb_entry mb < RT_MB_ENTRY_MAX" using mb_entry_bound [OF wf room] by (simp add: RT_MB_ENTRY_MAX_def)
  note put = mb_put_ok [OF wf room, of v]
  show ?thesis
  proof (cases "tlists k (mb_receivers mb)")
    case Nil
    then have "mb_store mb v k = Some (Returned RT_EOK, ?mb, k)"
      using i e by (simp add: mb_store_def mem_put_Some Let_def)
    then show ?thesis using put k by simp
  next
    case (Cons t ts)
    obtain k1 k2 where k2: "ipc_list_resume (mb_receivers mb) k = Some k1" "rt_schedule k1 = Some k2"
        "ready_inv k2" "running k2"
      using wake_first_ok [OF k _ Cons] by auto
    then have "mb_store mb v k = Some (Returned RT_EOK, ?mb, k2)"
      using i e Cons by (simp add: mb_store_def mem_put_Some Let_def)
    then show ?thesis using put k2 by simp
  qed
qed

lemma mb_urgent_ok:
  assumes wf: "mb_wf mb" and room: "mb_entry mb \<noteq> mb_size mb" and k: "ready_inv k" "running k"
  shows "\<exists>mb' k'. rt_mb_urgent mb v k = Some (RT_EOK, mb', k') \<and> mb_wf mb' \<and> ready_inv k' \<and> running k' \<and>
    mb_messages mb' = v # mb_messages mb \<and> mb_size mb' = mb_size mb \<and> mb_id mb' = mb_id mb"
proof -
  define off where "off = (if out_offset mb > 0 then out_offset mb - 1 else mb_size mb - 1)"
  let ?mb = "mb\<lparr>out_offset := off, msg_pool := (msg_pool mb)[unat off := v], mb_entry := mb_entry mb + 1\<rparr>"
  note push = mb_push_front_ok(1) [OF wf room, folded off_def] mb_push_front_ok(2,3) [OF wf room, of v, folded off_def]
  show ?thesis
  proof (cases "tlists k (mb_receivers mb)")
    case Nil
    then have "rt_mb_urgent mb v k = Some (RT_EOK, ?mb, k)"
      using push(1) room unfolding rt_mb_urgent_def off_def [symmetric] by (simp add: mem_put_Some)
    then show ?thesis using push k by simp
  next
    case (Cons t ts)
    obtain k1 k2 where k2: "ipc_list_resume (mb_receivers mb) k = Some k1" "rt_schedule k1 = Some k2"
        "ready_inv k2" "running k2"
      using wake_first_ok [OF k _ Cons] by auto
    then have "rt_mb_urgent mb v k = Some (RT_EOK, ?mb, k2)"
      using push(1) room Cons unfolding rt_mb_urgent_def off_def [symmetric] by (simp add: mem_put_Some)
    then show ?thesis using push k2 by simp
  qed
qed

lemma mb_fetch_ok:
  assumes wf: "mb_wf mb" and some: "mb_entry mb \<noteq> 0" and k: "ready_inv k" "running k"
  shows "\<exists>mb' k'. mb_fetch mb k = Some (Returned RT_EOK, Some (hd (mb_messages mb)), mb', k') \<and> mb_wf mb' \<and>
    ready_inv k' \<and> running k' \<and> mb_messages mb' = tl (mb_messages mb) \<and> mb_size mb' = mb_size mb \<and>
    mb_id mb' = mb_id mb \<and> same_threads k k' \<and>
    (\<forall>t ts. tlists k (mb_senders mb) = t # ts \<longrightarrow> runnable k' t \<and> tlists k' (mb_senders mb) = ts)"
proof -
  let ?mb = "mb\<lparr>out_offset := (if out_offset mb + 1 \<ge> mb_size mb then 0 else out_offset mb + 1),
      mb_entry := mb_entry mb - 1\<rparr>"
  note take = mb_take_ok [OF wf some]
  have pos: "0 < mb_entry mb" using some by (simp add: word_neq_0_conv)
  show ?thesis
  proof (cases "tlists k (mb_senders mb)")
    case Nil
    then have "mb_fetch mb k = Some (Returned RT_EOK, Some (hd (mb_messages mb)), ?mb, k)"
      using take(1,3) pos by (simp add: mb_fetch_def mem_get_Some Let_def)
    then show ?thesis using take k Nil by simp
  next
    case (Cons t ts)
    obtain k1 k2 where k2: "ipc_list_resume (mb_senders mb) k = Some k1" "rt_schedule k1 = Some k2"
        "ready_inv k2" "running k2" "runnable k2 t" "tlists k2 (mb_senders mb) = ts" "same_threads k k2"
      using wake_first_ok [OF k _ Cons] by auto
    then have "mb_fetch mb k = Some (Returned RT_EOK, Some (hd (mb_messages mb)), ?mb, k2)"
      using take(1,3) pos Cons by (simp add: mb_fetch_def mem_get_Some Let_def)
    then show ?thesis using take k2 Cons by simp
  qed
qed

text \<open>The non-blocking operations.\<close>

fun mb_step :: "rt_mailbox \<times> kernel \<Rightarrow> u32 queue_op \<Rightarrow> ((outcome \<times> u32 option) \<times> (rt_mailbox \<times> kernel)) option" where
  "mb_step (mb, k) (QueueSend v) = do { (r, mb', k') \<leftarrow> rt_mb_send mb v k; Some ((r, None), (mb', k')) }"
| "mb_step (mb, k) (QueueUrgent v) = do { (r, mb', k') \<leftarrow> rt_mb_urgent mb v k; Some ((Returned r, None), (mb', k')) }"
| "mb_step (mb, k) QueueRecv = do { (r, v, mb', k') \<leftarrow> rt_mb_recv mb 0 k; Some ((r, v), (mb', k')) }"

definition mb_inv :: "rt_mailbox \<times> kernel \<Rightarrow> bool" where
  "mb_inv = (\<lambda>(mb, k). mb_wf mb \<and> ready_inv k \<and> running k)"

definition mb_abs :: "rt_mailbox \<times> kernel \<Rightarrow> nat \<times> u32 list" where
  "mb_abs = (\<lambda>(mb, k). (unat (mb_size mb), mb_messages mb))"

lemma mb_full: "length (mb_messages mb) = unat (mb_size mb) \<longleftrightarrow> mb_entry mb = mb_size mb"
  by (simp add: mb_messages_length word_unat_eq_iff)

lemma mb_empty: "mb_messages mb = [] \<longleftrightarrow> mb_entry mb = 0"
  using mb_messages_length [of mb] by (metis length_0_conv unat_eq_zero)

lemma mb_step_simulates:
  assumes "mb_inv c"
  shows "\<exists>out c'. mb_step c x = Some (out, c') \<and> mb_inv c' \<and> queue_step (mb_abs c) x = (out, mb_abs c')"
proof -
  obtain mb k where c: "c = (mb, k)" by (cases c)
  have i: "mb_wf mb" "ready_inv k" "running k" using assms by (simp_all add: c mb_inv_def)
  show ?thesis
  proof (cases x)
    case (QueueSend v)
    show ?thesis
    proof (cases "mb_entry mb = mb_size mb")
      case True
      then show ?thesis using i by (simp add: c QueueSend rt_mb_send_def rt_mb_send_wait_def mb_inv_def mb_abs_def mb_full)
    next
      case False
      from mb_store_ok [OF i(1) False i(2,3), of v] show ?thesis
        using False by (auto simp: c QueueSend rt_mb_send_def rt_mb_send_wait_def mb_send_try_def mb_inv_def mb_abs_def mb_full)
    qed
  next
    case (QueueUrgent v)
    show ?thesis
    proof (cases "mb_entry mb = mb_size mb")
      case True
      then show ?thesis using i by (simp add: c QueueUrgent rt_mb_urgent_def mb_inv_def mb_abs_def mb_full)
    next
      case False
      from mb_urgent_ok [OF i(1) False i(2,3), of v] show ?thesis
        using False by (auto simp: c QueueUrgent mb_inv_def mb_abs_def mb_full)
    qed
  next
    case QueueRecv
    show ?thesis
    proof (cases "mb_entry mb = 0")
      case True
      then have "mb_messages mb = []" by (simp add: mb_empty)
      then show ?thesis using i True by (simp add: c QueueRecv rt_mb_recv_def mb_inv_def mb_abs_def)
    next
      case False
      then obtain v q where q: "mb_messages mb = v # q" using mb_empty [of mb] by (cases "mb_messages mb") auto
      from mb_fetch_ok [OF i(1) False i(2,3)] show ?thesis
        using False q by (auto simp: c QueueRecv rt_mb_recv_def mb_recv_try_def mb_inv_def mb_abs_def)
    qed
  qed
qed

interpretation mailbox: data_refinement mb_step queue_step mb_inv mb_abs "\<lambda>_. True"
  by unfold_locales (rule mb_step_simulates)

lemma mb_init_ok:
  assumes "ready_inv k" and "running k" and "tlists k (SuspHead i) = []" and "tlists k (SenderHead i) = []"
    and "length pool = unat n" and "0 < n" and "n < 0x10000"
    and "rt_mb_init i pool n flag k = Some (mb, k')"
  shows "mb_inv (mb, k') \<and> mb_abs (mb, k') = (unat n, [])"
proof -
  have f: "flag = RT_IPC_FLAG_FIFO \<or> flag = RT_IPC_FLAG_PRIO"
    and mb: "mb = \<lparr>mb_id = i, mb_flag = flag, msg_pool = pool, mb_size = ucast n, mb_entry = 0, in_offset = 0, out_offset = 0\<rparr>"
    and k': "k' = k"
    using assms(8) ipc_object_init_ready [OF assms(1,3)] ipc_object_init_ready [OF assms(1,4)]
    by (auto simp: rt_mb_init_def split: if_splits)
  have "unat n < 2 ^ 16" using assms(7) by (simp add: word_less_nat_alt)
  then have u: "unat (ucast n :: u16) = unat n" by (rule u16_of_u32)
  moreover have "0 < unat n" using assms(6) by (simp add: word_less_nat_alt)
  ultimately show ?thesis
    using assms(1,2,5) f
    by (simp add: mb_inv_def mb_abs_def mb_wf_def mb_messages_def mb k' word_less_nat_alt word_le_nat_alt word_unat_eq_iff)
qed

section \<open>Properties\<close>

text \<open>
  Property C9. A mailbox is a bounded queue: from an initialised mailbox of \<open>n\<close> words, every sequence
  of sends, urgent sends and receives (without waiting) returns what a queue of capacity \<open>n\<close> returns,
  in first-in first-out order with urgent messages in front, never accesses memory outside the pool,
  and keeps the scheduler invariant whatever threads it resumes.
\<close>

theorem mailbox_refines_queue:
  assumes "ready_inv k" and "running k" and "tlists k (SuspHead i) = []" and "tlists k (SenderHead i) = []"
    and "length pool = unat n" and "0 < n" and "n < 0x10000"
    and "rt_mb_init i pool n flag k = Some (mb, k')"
  shows "\<exists>outs c. run_impl mb_step (mb, k') ops = Some (outs, c) \<and> mb_inv c \<and>
    run_spec queue_step (unat n, []) ops = (outs, mb_abs c)"
  using mailbox.run_refines [of "(mb, k')" ops] mb_init_ok [OF assms] by (simp add: list_all_iff)

theorem mailbox_refines_queue_witness:
  "\<exists>mb c. rt_mb_init 7 [0, 0] 2 RT_IPC_FLAG_PRIO sample_kernel = Some (mb, sample_kernel) \<and>
    run_impl mb_step (mb, sample_kernel) [QueueSend 1, QueueSend 2, QueueSend 3, QueueRecv, QueueUrgent 4, QueueRecv, QueueRecv, QueueRecv] =
      Some ([(Returned RT_EOK, None), (Returned RT_EOK, None), (Returned (- RT_EFULL), None), (Returned RT_EOK, Some 1),
        (Returned RT_EOK, None), (Returned RT_EOK, Some 4), (Returned RT_EOK, Some 2), (Returned (- RT_ETIMEOUT), None)], c)"
proof -
  let ?ops = "[QueueSend 1, QueueSend 2, QueueSend 3, QueueRecv, QueueUrgent 4, QueueRecv, QueueRecv, QueueRecv]"
  have fresh: "tlists sample_kernel (SuspHead 7) = []" "tlists sample_kernel (SenderHead 7) = []"
    by (simp_all add: sample_kernel_def)
  obtain mb where mb: "rt_mb_init 7 [0, 0] 2 RT_IPC_FLAG_PRIO sample_kernel = Some (mb, sample_kernel)"
    using ipc_object_init_ready [OF sample_ready_inv fresh(1)] ipc_object_init_ready [OF sample_ready_inv fresh(2)]
    by (simp add: rt_mb_init_def)
  have "\<exists>outs c. run_impl mb_step (mb, sample_kernel) ?ops = Some (outs, c) \<and> mb_inv c \<and>
      run_spec queue_step (unat (2 :: u32), []) ?ops = (outs, mb_abs c)"
    by (rule mailbox_refines_queue [OF sample_ready_inv sample_running fresh _ _ _ mb]) simp_all
  then show ?thesis using mb by auto
qed

text \<open>
  A blocked sender completes: a thread that sends to a full mailbox with a timeout is
  suspended in the list of senders with its error code cleared. When another thread receives a
  message, the first of the senders becomes runnable; and when it runs again and finds the slot still
  free, its call stores the message at the end of the queue and returns success.
\<close>

theorem mailbox_blocked_sender_completes:
  assumes "mb_wf mb" and "mb_entry mb = mb_size mb" and "ready_inv k" and "caller k t"
    and "timeout \<noteq> 0" and "timeout < 2 ^ 31 - 1"
  shows "\<exists>k'. rt_mb_send_wait mb v timeout k = Some (Blocked t, mb, k') \<and> ready_inv k' \<and>
    thread_state k' t = RT_THREAD_SUSPEND \<and> t \<in> set (tlists k' (mb_senders mb)) \<and> error (threads k' t) = RT_EOK \<and>
    (\<forall>k'' u us. ready_inv k'' \<longrightarrow> running k'' \<longrightarrow> tlists k'' (mb_senders mb) = u # us \<longrightarrow>
      (\<exists>mb' k3. rt_mb_recv mb 0 k'' = Some (Returned RT_EOK, Some (hd (mb_messages mb)), mb', k3) \<and> runnable k3 u \<and>
        tlists k3 (mb_senders mb) = us \<and> error (threads k3 u) = error (threads k'' u) \<and>
        (\<forall>k4. ready_inv k4 \<longrightarrow> running k4 \<longrightarrow> error (threads k4 t) = RT_EOK \<longrightarrow>
          (\<exists>mb'' k5. rt_mb_send_wait_resumed mb' v timeout start t k4 = Some (Returned RT_EOK, mb'', k5) \<and>
            mb_messages mb'' = tl (mb_messages mb) @ [v]))))"
proof -
  have f: "mb_flag mb = RT_IPC_FLAG_FIFO \<or> mb_flag mb = RT_IPC_FLAG_PRIO" using assms(1) by (simp add: mb_wf_def)
  obtain k' where k': "ipc_wait (mb_senders mb) t (mb_flag mb) timeout (upd_thread t (\<lambda>th. th\<lparr>error := RT_EOK\<rparr>) k) = Some k'"
      "ready_inv k'" "thread_state k' t = RT_THREAD_SUSPEND"
      "tlists k' (mb_senders mb) = enqueued (mb_flag mb) k t (tlists k (mb_senders mb))"
      "error (threads k' t) = RT_EOK"
    using ipc_wait_reset_ok [OF assms(3,4) _ f assms(6), of "mb_senders mb"] by auto
  have send: "rt_mb_send_wait mb v timeout k = Some (Blocked t, mb, k')"
    using caller_available [OF assms(4)] assms(2,5) k'(1) by (simp add: rt_mb_send_wait_def mb_send_try_def)
  have ne: "mb_entry mb \<noteq> 0" using assms(1,2) by (simp add: mb_wf_def)
  have "\<exists>mb' k3. rt_mb_recv mb 0 k'' = Some (Returned RT_EOK, Some (hd (mb_messages mb)), mb', k3) \<and> runnable k3 u \<and>
      tlists k3 (mb_senders mb) = us \<and> error (threads k3 u) = error (threads k'' u) \<and>
      (\<forall>k4. ready_inv k4 \<longrightarrow> running k4 \<longrightarrow> error (threads k4 t) = RT_EOK \<longrightarrow>
        (\<exists>mb'' k5. rt_mb_send_wait_resumed mb' v timeout start t k4 = Some (Returned RT_EOK, mb'', k5) \<and>
          mb_messages mb'' = tl (mb_messages mb) @ [v]))"
    if k'': "ready_inv k''" "running k''" "tlists k'' (mb_senders mb) = u # us" for k'' u us
  proof -
    obtain mb' k3 where m: "mb_fetch mb k'' = Some (Returned RT_EOK, Some (hd (mb_messages mb)), mb', k3)" "mb_wf mb'"
        "mb_messages mb' = tl (mb_messages mb)" "mb_size mb' = mb_size mb" "same_threads k'' k3"
        "runnable k3 u" "tlists k3 (mb_senders mb) = us"
      using mb_fetch_ok [OF assms(1) ne k''(1,2)] k''(3) by blast
    have "0 < unat (mb_size mb)" using ne assms(2) by (simp add: unat_gt_0)
    then have "length (mb_messages mb') \<noteq> unat (mb_size mb')"
      using m(3,4) assms(2) mb_messages_length [of mb] by simp
    then have room: "mb_entry mb' \<noteq> mb_size mb'" using mb_full [of mb'] by simp
    have "\<exists>mb'' k5. rt_mb_send_wait_resumed mb' v timeout start t k4 = Some (Returned RT_EOK, mb'', k5) \<and>
        mb_messages mb'' = tl (mb_messages mb) @ [v]"
      if "ready_inv k4" "running k4" "error (threads k4 t) = RT_EOK" for k4
      using mb_store_ok [OF m(2) room that(1,2), of v] that(3) room m(3)
      by (auto simp: rt_mb_send_wait_resumed_def mb_send_try_def)
    moreover have "rt_mb_recv mb 0 k'' = mb_fetch mb k''" using ne by (simp add: rt_mb_recv_def mb_recv_try_def)
    ultimately show ?thesis using m by (auto simp: same_threads_def)
  qed
  then show ?thesis using send k' by auto
qed

definition full_mailbox :: rt_mailbox where
  "full_mailbox = \<lparr>mb_id = 7, mb_flag = 0, msg_pool = [9], mb_size = 1, mb_entry = 1, in_offset = 0, out_offset = 0\<rparr>"

theorem mailbox_blocked_sender_completes_witness:
  "\<exists>k'. rt_mb_send_wait full_mailbox 5 (- 1) sample_kernel = Some (Blocked 0, full_mailbox, k') \<and>
    thread_state k' 0 = RT_THREAD_SUSPEND \<and> 0 \<in> set (tlists k' (mb_senders full_mailbox))"
proof -
  have "mb_wf full_mailbox" "mb_entry full_mailbox = mb_size full_mailbox"
    by (simp_all add: mb_wf_def RT_IPC_FLAG_FIFO_def full_mailbox_def)
  from mailbox_blocked_sender_completes [OF this sample_ready_inv sample_caller, of "- 1" 5]
  show ?thesis by force
qed

end
