(* ===== verification/MessageQueue.thy ===== *)
theory MessageQueue
  imports Ipc
begin

text \<open>
  Message queues (\<^verbatim>\<open>rt-thread/src/ipc.c\<close>, \<^verbatim>\<open>rt_mq_*\<close>): a pool of message nodes, a singly linked list of
  free nodes and one of queued messages. A node is named by its index in the pool (the code uses its
  address \<^verbatim>\<open>msg_pool + temp * (msg_size + sizeof(struct rt_mq_message))\<close>); its next pointer and its
  payload are functions of the index. The theorems show that the two lists never lose or share a node
  and that the queue implements a bounded queue of messages.
\<close>

section \<open>Operations\<close>

record rt_messagequeue =
  mq_id :: nat
  mq_flag :: u8
  msg_size :: u16
  max_msgs :: u16
  mq_entry :: u16
  msg_queue_head :: "nat option"
  msg_queue_tail :: "nat option"
  msg_queue_free :: "nat option"
  msg_next :: "nat \<Rightarrow> nat option"
  msg_data :: "nat \<Rightarrow> bytes"

definition RT_MQ_ENTRY_MAX :: u16 where "RT_MQ_ENTRY_MAX = 0xffff"

abbreviation mq_receivers :: "rt_messagequeue \<Rightarrow> list_head" where
  "mq_receivers mq \<equiv> SuspHead (mq_id mq)"

abbreviation mq_senders :: "rt_messagequeue \<Rightarrow> list_head" where
  "mq_senders mq \<equiv> SenderHead (mq_id mq)"

text \<open>\<^verbatim>\<open>(struct rt_mq_message *)->next = v\<close>.\<close>

definition set_msg_next :: "nat \<Rightarrow> nat option \<Rightarrow> rt_messagequeue \<Rightarrow> rt_messagequeue" where
  "set_msg_next n v mq = mq\<lparr>msg_next := (msg_next mq)(n := v)\<rparr>"

text \<open>The loop that links the nodes 0 to \<open>n - 1\<close> into the free list.\<close>

primrec mq_init_loop :: "nat \<Rightarrow> rt_messagequeue \<Rightarrow> rt_messagequeue" where
  "mq_init_loop 0 mq = mq"
| "mq_init_loop (Suc temp) mq =
     (let mq1 = mq_init_loop temp mq
      in (set_msg_next temp (msg_queue_free mq1) mq1)\<lparr>msg_queue_free := Some temp\<rparr>)"

text \<open>The pool holds arbitrary data at first.\<close>

definition rt_mq_init ::
  "nat \<Rightarrow> (nat \<Rightarrow> nat option) \<Rightarrow> (nat \<Rightarrow> bytes) \<Rightarrow> u32 \<Rightarrow> u32 \<Rightarrow> u8 \<Rightarrow> kernel \<Rightarrow> (rt_messagequeue \<times> kernel) option" where
  "rt_mq_init i nx pool sz pool_size flag k =
     (if flag = RT_IPC_FLAG_FIFO \<or> flag = RT_IPC_FLAG_PRIO then
        let ms = ucast ((sz + 3) AND NOT 3) :: u16;
            mm = ucast (pool_size div (ucast ms + 4)) :: u16
        in Some (mq_init_loop (unat mm)
                   \<lparr>mq_id = i, mq_flag = flag, msg_size = ms, max_msgs = mm, mq_entry = 0,
                    msg_queue_head = None, msg_queue_tail = None, msg_queue_free = None,
                    msg_next = nx, msg_data = pool\<rparr>,
                 ipc_object_init (SenderHead i) (ipc_object_init (SuspHead i) k))
      else None)"

definition rt_mq_detach :: "rt_messagequeue \<Rightarrow> kernel \<Rightarrow> kernel option" where
  "rt_mq_detach mq k = do { k1 \<leftarrow> ipc_list_resume_all (mq_receivers mq) k; ipc_list_resume_all (mq_senders mq) k1 }"

definition rt_mq_delete :: "rt_messagequeue \<Rightarrow> kernel \<Rightarrow> kernel option" where
  "rt_mq_delete mq k = do { k1 \<leftarrow> ipc_list_resume_all (mq_receivers mq) k; ipc_list_resume_all (mq_senders mq) k1 }"

text \<open>\<^verbatim>\<open>rt_memcpy(msg + 1, buffer, size)\<close>.\<close>

definition mq_copy_in :: "nat \<Rightarrow> bytes \<Rightarrow> rt_messagequeue \<Rightarrow> rt_messagequeue option" where
  "mq_copy_in n buffer mq =
     do { d \<leftarrow> mem_write (msg_data mq n) 0 buffer; Some (mq\<lparr>msg_data := (msg_data mq)(n := d)\<rparr>) }"

text \<open>Counting the new message and resuming a receiver, the end of the two sends.\<close>

definition mq_posted :: "rt_messagequeue \<Rightarrow> kernel \<Rightarrow> (outcome \<times> rt_messagequeue \<times> kernel) option" where
  "mq_posted mq k =
     (if mq_entry mq < RT_MQ_ENTRY_MAX then
        let mq1 = mq\<lparr>mq_entry := mq_entry mq + 1\<rparr>
        in if tlists k (mq_receivers mq1) \<noteq> [] then
             do { k1 \<leftarrow> ipc_list_resume (mq_receivers mq1) k;
                  k2 \<leftarrow> rt_schedule k1;
                  Some (Returned RT_EOK, mq1, k2) }
           else Some (Returned RT_EOK, mq1, k)
      else Some (Returned (- RT_EFULL), mq, k))"

text \<open>Taking the free node \<open>n\<close> and linking it at the end of the queue.\<close>

definition mq_link_tail :: "nat \<Rightarrow> bytes \<Rightarrow> rt_messagequeue \<Rightarrow> rt_messagequeue option" where
  "mq_link_tail n buffer mq =
     do { mq1 \<leftarrow> mq_copy_in n buffer (set_msg_next n None (mq\<lparr>msg_queue_free := msg_next mq n\<rparr>));
          let mq2 = (case msg_queue_tail mq1 of Some tail \<Rightarrow> set_msg_next tail (Some n) mq1 | None \<Rightarrow> mq1);
          let mq3 = mq2\<lparr>msg_queue_tail := Some n\<rparr>;
          Some (if msg_queue_head mq3 = None then mq3\<lparr>msg_queue_head := Some n\<rparr> else mq3) }"

definition mq_send_try ::
  "rt_messagequeue \<Rightarrow> bytes \<Rightarrow> int \<Rightarrow> kernel \<Rightarrow> (outcome \<times> rt_messagequeue \<times> kernel) option" where
  "mq_send_try mq buffer timeout k =
     (case msg_queue_free mq of
        None \<Rightarrow>
          do { t \<leftarrow> rt_thread_self k;
               let k0 = upd_thread t (\<lambda>th. th\<lparr>error := RT_EOK\<rparr>) k;
               if timeout = 0 then Some (Returned (- RT_EFULL), mq, k0)
               else do {
                 k1 \<leftarrow> ipc_wait (mq_senders mq) t (mq_flag mq) timeout k0;
                 Some (Blocked t, mq, k1) } }
      | Some n \<Rightarrow> do { mq1 \<leftarrow> mq_link_tail n buffer mq; mq_posted mq1 k })"

definition rt_mq_send_wait ::
  "rt_messagequeue \<Rightarrow> bytes \<Rightarrow> int \<Rightarrow> kernel \<Rightarrow> (outcome \<times> rt_messagequeue \<times> kernel) option" where
  "rt_mq_send_wait mq buffer timeout k =
     (if buffer = [] then None
      else if timeout \<noteq> 0 \<and> \<not> scheduler_available k then None
      else if length buffer > unat (msg_size mq) then Some (Returned (- RT_ERROR), mq, k)
      else if msg_queue_free mq = None \<and> timeout = 0 then Some (Returned (- RT_EFULL), mq, k)
      else mq_send_try mq buffer timeout k)"

definition rt_mq_send_wait_resumed ::
  "rt_messagequeue \<Rightarrow> bytes \<Rightarrow> int \<Rightarrow> u32 \<Rightarrow> tid \<Rightarrow> kernel \<Rightarrow> (outcome \<times> rt_messagequeue \<times> kernel) option" where
  "rt_mq_send_wait_resumed mq buffer timeout start t k =
     (if error (threads k t) \<noteq> RT_EOK then Some (Returned (error (threads k t)), mq, k)
      else mq_send_try mq buffer (timeout_left timeout start (rt_tick k)) k)"

definition rt_mq_send :: "rt_messagequeue \<Rightarrow> bytes \<Rightarrow> kernel \<Rightarrow> (outcome \<times> rt_messagequeue \<times> kernel) option" where
  "rt_mq_send mq buffer k = rt_mq_send_wait mq buffer 0 k"

definition mq_link_head :: "nat \<Rightarrow> bytes \<Rightarrow> rt_messagequeue \<Rightarrow> rt_messagequeue option" where
  "mq_link_head n buffer mq =
     do { mq1 \<leftarrow> mq_copy_in n buffer (mq\<lparr>msg_queue_free := msg_next mq n\<rparr>);
          let mq2 = (set_msg_next n (msg_queue_head mq1) mq1)\<lparr>msg_queue_head := Some n\<rparr>;
          Some (if msg_queue_tail mq2 = None then mq2\<lparr>msg_queue_tail := Some n\<rparr> else mq2) }"

definition rt_mq_urgent :: "rt_messagequeue \<Rightarrow> bytes \<Rightarrow> kernel \<Rightarrow> (outcome \<times> rt_messagequeue \<times> kernel) option" where
  "rt_mq_urgent mq buffer k =
     (if buffer = [] then None
      else if length buffer > unat (msg_size mq) then Some (Returned (- RT_ERROR), mq, k)
      else case msg_queue_free mq of
             None \<Rightarrow> Some (Returned (- RT_EFULL), mq, k)
           | Some n \<Rightarrow> do { mq1 \<leftarrow> mq_link_head n buffer mq; mq_posted mq1 k })"

text \<open>Moving the first message from the queue to the free list.\<close>

definition mq_unlink_head :: "nat \<Rightarrow> rt_messagequeue \<Rightarrow> rt_messagequeue" where
  "mq_unlink_head n mq =
     (let mq1 = mq\<lparr>msg_queue_head := msg_next mq n\<rparr>
      in if msg_queue_tail mq1 = Some n then mq1\<lparr>msg_queue_tail := None\<rparr> else mq1)"

definition mq_free_node :: "nat \<Rightarrow> rt_messagequeue \<Rightarrow> rt_messagequeue" where
  "mq_free_node n mq = (set_msg_next n (msg_queue_free mq) mq)\<lparr>msg_queue_free := Some n\<rparr>"

text \<open>The second component of the result is what is copied to the caller's buffer of \<open>sz\<close> bytes.\<close>

definition mq_fetch ::
  "rt_messagequeue \<Rightarrow> nat \<Rightarrow> kernel \<Rightarrow> (outcome \<times> bytes option \<times> rt_messagequeue \<times> kernel) option" where
  "mq_fetch mq sz k =
     do { n \<leftarrow> msg_queue_head mq;
          let mq1 = mq_unlink_head n mq;
          let mq2 = mq1\<lparr>mq_entry := (if mq_entry mq1 > 0 then mq_entry mq1 - 1 else mq_entry mq1)\<rparr>;
          buffer \<leftarrow> mem_read (msg_data mq2 n) 0 (if sz > unat (msg_size mq2) then unat (msg_size mq2) else sz);
          let mq3 = mq_free_node n mq2;
          if tlists k (mq_senders mq3) \<noteq> [] then do {
            k1 \<leftarrow> ipc_list_resume (mq_senders mq3) k;
            k2 \<leftarrow> rt_schedule k1;
            Some (Returned RT_EOK, Some buffer, mq3, k2) }
          else Some (Returned RT_EOK, Some buffer, mq3, k) }"

definition mq_recv_try ::
  "rt_messagequeue \<Rightarrow> nat \<Rightarrow> int \<Rightarrow> kernel \<Rightarrow> (outcome \<times> bytes option \<times> rt_messagequeue \<times> kernel) option" where
  "mq_recv_try mq sz timeout k =
     (if mq_entry mq = 0 then
        do { t \<leftarrow> rt_thread_self k;
             let k0 = upd_thread t (\<lambda>th. th\<lparr>error := RT_EOK\<rparr>) k;
             if timeout = 0
             then Some (Returned (- RT_ETIMEOUT), None, mq, upd_thread t (\<lambda>th. th\<lparr>error := - RT_ETIMEOUT\<rparr>) k0)
             else do {
               k1 \<leftarrow> ipc_wait (mq_receivers mq) t (mq_flag mq) timeout k0;
               Some (Blocked t, None, mq, k1) } }
      else mq_fetch mq sz k)"

definition rt_mq_recv ::
  "rt_messagequeue \<Rightarrow> nat \<Rightarrow> int \<Rightarrow> kernel \<Rightarrow> (outcome \<times> bytes option \<times> rt_messagequeue \<times> kernel) option" where
  "rt_mq_recv mq sz timeout k =
     (if sz = 0 then None
      else if timeout \<noteq> 0 \<and> \<not> scheduler_available k then None
      else if mq_entry mq = 0 \<and> timeout = 0 then Some (Returned (- RT_ETIMEOUT), None, mq, k)
      else mq_recv_try mq sz timeout k)"

definition rt_mq_recv_resumed ::
  "rt_messagequeue \<Rightarrow> nat \<Rightarrow> int \<Rightarrow> u32 \<Rightarrow> tid \<Rightarrow> kernel \<Rightarrow> (outcome \<times> bytes option \<times> rt_messagequeue \<times> kernel) option" where
  "rt_mq_recv_resumed mq sz timeout start t k =
     (if error (threads k t) \<noteq> RT_EOK then Some (Returned (error (threads k t)), None, mq, k)
      else mq_recv_try mq sz (timeout_left timeout start (rt_tick k)) k)"

text \<open>The loop of \<^verbatim>\<open>rt_mq_control\<close> that releases all messages.\<close>

partial_function (option) mq_release_loop :: "rt_messagequeue \<Rightarrow> rt_messagequeue option" where
  "mq_release_loop mq =
     (case msg_queue_head mq of
        None \<Rightarrow> Some mq
      | Some n \<Rightarrow> mq_release_loop (mq_free_node n (mq_unlink_head n mq)))"

definition rt_mq_control :: "rt_messagequeue \<Rightarrow> nat \<Rightarrow> kernel \<Rightarrow> (int \<times> rt_messagequeue \<times> kernel) option" where
  "rt_mq_control mq cmd k =
     (if cmd = RT_IPC_CMD_RESET then
        do { k1 \<leftarrow> ipc_list_resume_all (mq_receivers mq) k;
             k2 \<leftarrow> ipc_list_resume_all (mq_senders mq) k1;
             mq1 \<leftarrow> mq_release_loop mq;
             k3 \<leftarrow> rt_schedule k2;
             Some (RT_EOK, mq1\<lparr>mq_entry := 0\<rparr>, k3) }
      else Some (- RT_ERROR, mq, k))"

section \<open>The two lists\<close>

fun chain :: "(nat \<Rightarrow> nat option) \<Rightarrow> nat option \<Rightarrow> nat list \<Rightarrow> bool" where
  "chain nx p [] \<longleftrightarrow> p = None"
| "chain nx p (a # xs) \<longleftrightarrow> p = Some a \<and> chain nx (nx a) xs"

lemma chain_upd [simp]: "a \<notin> set xs \<Longrightarrow> chain (nx(a := v)) p xs \<longleftrightarrow> chain nx p xs"
  by (induction xs arbitrary: p) auto

lemma chain_snoc:
  assumes "chain nx p xs" and "n \<notin> set xs" and "distinct xs" and "nx n = None" and "xs \<noteq> []"
  shows "chain (nx(last xs := Some n)) p (xs @ [n])"
  using assms
proof (induction xs arbitrary: p)
  case (Cons a xs)
  then show ?case by (cases "xs = []") auto
qed simp

text \<open>
  \<open>mq_lists mq fs qs\<close>: the free nodes are \<open>fs\<close> and the queued ones \<open>qs\<close>, and each node of the pool is
  in exactly one of the two. \<open>mq_rep\<close> adds that the number of entries agrees.
\<close>

definition mq_lists :: "rt_messagequeue \<Rightarrow> nat list \<Rightarrow> nat list \<Rightarrow> bool" where
  "mq_lists mq fs qs \<longleftrightarrow>
     chain (msg_next mq) (msg_queue_free mq) fs \<and> chain (msg_next mq) (msg_queue_head mq) qs \<and>
     msg_queue_tail mq = (if qs = [] then None else Some (last qs)) \<and>
     distinct (fs @ qs) \<and> set (fs @ qs) = {..< unat (max_msgs mq)} \<and>
     (\<forall>n < unat (max_msgs mq). length (msg_data mq n) = unat (msg_size mq)) \<and>
     (mq_flag mq = RT_IPC_FLAG_FIFO \<or> mq_flag mq = RT_IPC_FLAG_PRIO)"

definition mq_rep :: "rt_messagequeue \<Rightarrow> nat list \<Rightarrow> nat list \<Rightarrow> bool" where
  "mq_rep mq fs qs \<longleftrightarrow> mq_lists mq fs qs \<and> unat (mq_entry mq) = length qs"

lemma mq_lists_entry [simp]: "mq_lists (mq\<lparr>mq_entry := e\<rparr>) fs qs \<longleftrightarrow> mq_lists mq fs qs"
  by (simp add: mq_lists_def)

lemma mq_lists_length: "mq_lists mq fs qs \<Longrightarrow> length fs + length qs = unat (max_msgs mq)"
  unfolding mq_lists_def by (metis card_lessThan distinct_card length_append)

lemma mq_lists_free: "mq_lists mq fs qs \<Longrightarrow> msg_queue_free mq = None \<longleftrightarrow> fs = []"
  by (cases fs) (auto simp: mq_lists_def)

text \<open>The parts of a queue that no operation changes.\<close>

definition mq_same :: "rt_messagequeue \<Rightarrow> rt_messagequeue \<Rightarrow> bool" where
  "mq_same mq mq' \<longleftrightarrow> mq_id mq' = mq_id mq \<and> msg_size mq' = msg_size mq \<and> max_msgs mq' = max_msgs mq"

text \<open>The three moves of a node between the lists.\<close>

lemma mq_link_tail_ok:
  assumes l: "mq_lists mq (n # fs) qs" and b: "length buffer \<le> unat (msg_size mq)"
  shows "\<exists>mq'. mq_link_tail n buffer mq = Some mq' \<and> mq_lists mq' fs (qs @ [n]) \<and>
    msg_data mq' = (msg_data mq)(n := buffer @ drop (length buffer) (msg_data mq n)) \<and>
    mq_entry mq' = mq_entry mq \<and> mq_same mq mq'"
proof -
  let ?d = "buffer @ drop (length buffer) (msg_data mq n)"
  note r = l [unfolded mq_lists_def]
  have n: "n < unat (max_msgs mq)" using r by auto
  define mq1 where "mq1 = mq\<lparr>msg_queue_free := msg_next mq n, msg_next := (msg_next mq)(n := None),
      msg_data := (msg_data mq)(n := ?d)\<rparr>"
  have copy: "mq_copy_in n buffer (set_msg_next n None (mq\<lparr>msg_queue_free := msg_next mq n\<rparr>)) = Some mq1"
    using b r n by (simp add: mq_copy_in_def set_msg_next_def mem_write_Some mq1_def)
  show ?thesis
  proof (cases "qs = []")
    case True
    then have "mq_link_tail n buffer mq = Some (mq1\<lparr>msg_queue_tail := Some n, msg_queue_head := Some n\<rparr>)"
      using copy r by (simp add: mq_link_tail_def mq1_def Let_def)
    then show ?thesis
      using True r b n by (auto simp: mq_lists_def mq_same_def mq1_def)
  next
    case False
    let ?mq' = "(set_msg_next (last qs) (Some n) mq1)\<lparr>msg_queue_tail := Some n\<rparr>"
    obtain h where head: "msg_queue_head mq = Some h" using r False by (cases qs) auto
    have link: "mq_link_tail n buffer mq = Some ?mq'"
      using copy r head False by (simp add: mq_link_tail_def mq1_def set_msg_next_def Let_def)
    have lq: "last qs \<notin> set fs" "last qs \<noteq> n" using False r last_in_set [OF False] by auto
    have "chain ((msg_next mq)(n := None, last qs := Some n)) (msg_queue_head mq) (qs @ [n])"
      using chain_snoc [of "(msg_next mq)(n := None)" "msg_queue_head mq" qs n] r False by auto
    then have "mq_lists ?mq' fs (qs @ [n])"
      using r b n lq False by (auto simp: mq_lists_def mq1_def set_msg_next_def)
    then show ?thesis using link by (simp add: mq1_def mq_same_def set_msg_next_def)
  qed
qed

lemma mq_link_head_ok:
  assumes l: "mq_lists mq (n # fs) qs" and b: "length buffer \<le> unat (msg_size mq)"
  shows "\<exists>mq'. mq_link_head n buffer mq = Some mq' \<and> mq_lists mq' fs (n # qs) \<and>
    msg_data mq' = (msg_data mq)(n := buffer @ drop (length buffer) (msg_data mq n)) \<and>
    mq_entry mq' = mq_entry mq \<and> mq_same mq mq'"
proof -
  let ?d = "buffer @ drop (length buffer) (msg_data mq n)"
  note r = l [unfolded mq_lists_def]
  have n: "n < unat (max_msgs mq)" using r by auto
  define mq' where "mq' = mq\<lparr>msg_queue_free := msg_next mq n, msg_data := (msg_data mq)(n := ?d),
      msg_next := (msg_next mq)(n := msg_queue_head mq), msg_queue_head := Some n,
      msg_queue_tail := (if qs = [] then Some n else Some (last qs))\<rparr>"
  have "mq_link_head n buffer mq = Some mq'"
    using b r n by (simp add: mq_link_head_def mq_copy_in_def mem_write_Some set_msg_next_def mq'_def Let_def)
  moreover have "mq_lists mq' fs (n # qs)"
    using r b n by (auto simp: mq_lists_def mq'_def)
  ultimately show ?thesis by (simp add: mq'_def mq_same_def)
qed

lemma mq_take_ok:
  assumes l: "mq_lists mq fs (n # qs)"
  defines "mq' \<equiv> mq_free_node n (mq_unlink_head n mq)"
  shows "msg_queue_head mq = Some n" and "mq_lists mq' (n # fs) qs"
    and "msg_data mq' = msg_data mq" "mq_entry mq' = mq_entry mq" "mq_same mq mq'"
proof -
  note r = l [unfolded mq_lists_def]
  show "msg_queue_head mq = Some n" using r by simp
  have "last qs \<noteq> n" if "qs \<noteq> []" using last_in_set [OF that] r by auto
  then show "mq_lists mq' (n # fs) qs"
    using r by (auto simp: mq_lists_def mq'_def mq_free_node_def mq_unlink_head_def set_msg_next_def Let_def)
qed (simp_all add: mq'_def mq_free_node_def mq_unlink_head_def set_msg_next_def mq_same_def Let_def)

lemma mq_release_loop_ok:
  assumes "mq_lists mq fs qs"
  shows "\<exists>mq' fs'. mq_release_loop mq = Some mq' \<and> mq_lists mq' fs' [] \<and> mq_same mq mq'"
  using assms
proof (induction qs arbitrary: mq fs)
  case Nil
  then have "mq_release_loop mq = Some mq" by (subst mq_release_loop.simps) (simp add: mq_lists_def)
  then show ?case using Nil by (auto simp: mq_same_def)
next
  case (Cons n qs)
  note t = mq_take_ok [OF Cons.prems]
  from Cons.IH [OF t(2)] show ?case
    using t(1,5) by (subst mq_release_loop.simps) (auto simp: mq_same_def)
qed

lemma mq_init_loop_frame:
  "mq_flag (mq_init_loop n mq) = mq_flag mq" "msg_size (mq_init_loop n mq) = msg_size mq"
  "max_msgs (mq_init_loop n mq) = max_msgs mq" "mq_entry (mq_init_loop n mq) = mq_entry mq"
  "msg_queue_head (mq_init_loop n mq) = msg_queue_head mq" "msg_queue_tail (mq_init_loop n mq) = msg_queue_tail mq"
  "msg_data (mq_init_loop n mq) = msg_data mq"
  by (induction n) (simp_all add: Let_def set_msg_next_def)

lemma mq_init_loop_ok:
  assumes "msg_queue_free mq = None"
  shows "chain (msg_next (mq_init_loop n mq)) (msg_queue_free (mq_init_loop n mq)) (rev [0..<n])"
proof (induction n)
  case (Suc n)
  then show ?case using chain_upd [of n "rev [0..<n]"] by (simp add: Let_def set_msg_next_def fun_upd_def)
qed (use assms in simp)

section \<open>The message queue as a bounded queue\<close>

text \<open>The nodes from a pointer on, \<open>fuel\<close> of them at most; a queue has at most \<open>max_msgs\<close>.\<close>

primrec walk :: "nat \<Rightarrow> (nat \<Rightarrow> nat option) \<Rightarrow> nat option \<Rightarrow> nat list" where
  "walk 0 nx p = []"
| "walk (Suc fuel) nx p = (case p of None \<Rightarrow> [] | Some a \<Rightarrow> a # walk fuel nx (nx a))"

lemma chain_walk: "chain nx p xs \<Longrightarrow> length xs \<le> fuel \<Longrightarrow> walk fuel nx p = xs"
proof (induction xs arbitrary: p fuel)
  case Nil
  then show ?case by (cases fuel) auto
next
  case (Cons a xs)
  then show ?case by (cases fuel) auto
qed

text \<open>The messages, as far as a user with messages of \<open>sz\<close> bytes sees them.\<close>

definition mq_messages :: "nat \<Rightarrow> rt_messagequeue \<Rightarrow> bytes list" where
  "mq_messages sz mq =
     map (\<lambda>n. take sz (msg_data mq n)) (walk (unat (max_msgs mq)) (msg_next mq) (msg_queue_head mq))"

lemma mq_messages_rep:
  assumes "mq_lists mq fs qs"
  shows "mq_messages sz mq = map (\<lambda>n. take sz (msg_data mq n)) qs"
proof -
  have "length qs \<le> unat (max_msgs mq)" using mq_lists_length [OF assms] by simp
  then show ?thesis
    using chain_walk [of "msg_next mq" "msg_queue_head mq" qs] assms by (simp add: mq_messages_def mq_lists_def)
qed

definition mq_wf :: "nat \<Rightarrow> rt_messagequeue \<Rightarrow> bool" where
  "mq_wf sz mq \<longleftrightarrow> 0 < sz \<and> sz \<le> unat (msg_size mq) \<and> (\<exists>fs qs. mq_rep mq fs qs)"

text \<open>Counting a message and waking a receiver.\<close>

lemma mq_posted_ok:
  assumes l: "mq_lists mq fs qs" and e: "unat (mq_entry mq) + 1 = length qs" and k: "ready_inv k" "running k"
  shows "\<exists>k'. mq_posted mq k = Some (Returned RT_EOK, mq\<lparr>mq_entry := mq_entry mq + 1\<rparr>, k') \<and>
    ready_inv k' \<and> running k' \<and> mq_rep (mq\<lparr>mq_entry := mq_entry mq + 1\<rparr>) fs qs"
proof -
  have "mq_entry mq < max_msgs mq" using mq_lists_length [OF l] e by (simp add: word_less_nat_alt)
  then have max: "mq_entry mq < 0xffff" by (rule u16_below)
  have rep: "mq_rep (mq\<lparr>mq_entry := mq_entry mq + 1\<rparr>) fs qs"
    using l e u16_succ [OF max] by (simp add: mq_rep_def)
  show ?thesis
  proof (cases "tlists k (mq_receivers mq)")
    case Nil
    then show ?thesis using max rep k by (simp add: mq_posted_def RT_MQ_ENTRY_MAX_def Let_def)
  next
    case (Cons t ts)
    from wake_first_ok [OF k _ Cons] show ?thesis
      using Cons max rep by (auto simp: mq_posted_def RT_MQ_ENTRY_MAX_def Let_def)
  qed
qed

lemma map_take_upd:
  "n \<notin> set qs \<Longrightarrow> map (\<lambda>m. take sz ((f(n := d)) m)) qs = map (\<lambda>m. take sz (f m)) qs"
  by auto

lemma mq_send_ok:
  assumes rep: "mq_rep mq (n # fs) qs" and sz: "length b = sz" "0 < sz" "sz \<le> unat (msg_size mq)"
    and k: "ready_inv k" "running k"
  shows "\<exists>mq' k'. mq_send_try mq b timeout k = Some (Returned RT_EOK, mq', k') \<and> mq_wf sz mq' \<and> mq_same mq mq' \<and>
    ready_inv k' \<and> running k' \<and> mq_messages sz mq' = mq_messages sz mq @ [b]"
proof -
  have l: "mq_lists mq (n # fs) qs" and e: "unat (mq_entry mq) = length qs" using rep by (simp_all add: mq_rep_def)
  have n: "n \<notin> set qs" "msg_queue_free mq = Some n" using l by (auto simp: mq_lists_def)
  obtain mq1 where mq1: "mq_link_tail n b mq = Some mq1" "mq_lists mq1 fs (qs @ [n])"
      "msg_data mq1 = (msg_data mq)(n := b @ drop (length b) (msg_data mq n))" "mq_entry mq1 = mq_entry mq" "mq_same mq mq1"
    using mq_link_tail_ok [OF l, of b] sz by auto
  let ?mq = "mq1\<lparr>mq_entry := mq_entry mq1 + 1\<rparr>"
  obtain k' where k': "mq_posted mq1 k = Some (Returned RT_EOK, ?mq, k')" "ready_inv k'" "running k'"
      "mq_rep ?mq fs (qs @ [n])"
    using mq_posted_ok [OF mq1(2) _ k] e mq1(4) by auto
  have l': "mq_lists ?mq fs (qs @ [n])" using k'(4) by (simp add: mq_rep_def)
  have "mq_messages sz ?mq = mq_messages sz mq @ [b]"
    unfolding mq_messages_rep [OF l'] mq_messages_rep [OF l] using n(1) sz by (simp add: mq1(3) map_take_upd)
  moreover have "mq_wf sz ?mq" using sz mq1(5) k'(4) by (auto simp: mq_wf_def mq_same_def)
  ultimately show ?thesis using mq1 k' n(2) by (simp add: mq_send_try_def mq_same_def)
qed

lemma mq_urgent_ok:
  assumes rep: "mq_rep mq (n # fs) qs" and sz: "length b = sz" "0 < sz" "sz \<le> unat (msg_size mq)"
    and k: "ready_inv k" "running k"
  shows "\<exists>mq' k'. rt_mq_urgent mq b k = Some (Returned RT_EOK, mq', k') \<and> mq_wf sz mq' \<and> mq_same mq mq' \<and>
    ready_inv k' \<and> running k' \<and> mq_messages sz mq' = b # mq_messages sz mq"
proof -
  have l: "mq_lists mq (n # fs) qs" and e: "unat (mq_entry mq) = length qs" using rep by (simp_all add: mq_rep_def)
  have n: "n \<notin> set qs" "msg_queue_free mq = Some n" using l by (auto simp: mq_lists_def)
  obtain mq1 where mq1: "mq_link_head n b mq = Some mq1" "mq_lists mq1 fs (n # qs)"
      "msg_data mq1 = (msg_data mq)(n := b @ drop (length b) (msg_data mq n))" "mq_entry mq1 = mq_entry mq" "mq_same mq mq1"
    using mq_link_head_ok [OF l, of b] sz by auto
  let ?mq = "mq1\<lparr>mq_entry := mq_entry mq1 + 1\<rparr>"
  obtain k' where k': "mq_posted mq1 k = Some (Returned RT_EOK, ?mq, k')" "ready_inv k'" "running k'"
      "mq_rep ?mq fs (n # qs)"
    using mq_posted_ok [OF mq1(2) _ k] e mq1(4) by auto
  have l': "mq_lists ?mq fs (n # qs)" using k'(4) by (simp add: mq_rep_def)
  have "mq_messages sz ?mq = b # mq_messages sz mq"
    unfolding mq_messages_rep [OF l'] mq_messages_rep [OF l] using n(1) sz by (simp add: mq1(3) map_take_upd)
  moreover have "mq_wf sz ?mq" using sz mq1(5) k'(4) by (auto simp: mq_wf_def mq_same_def)
  moreover have "b \<noteq> []" "\<not> length b > unat (msg_size mq)" using sz by auto
  ultimately show ?thesis using mq1 k' n(2) by (simp add: rt_mq_urgent_def mq_same_def)
qed

lemma mq_fetch_ok:
  assumes rep: "mq_rep mq fs (n # qs)" and sz: "0 < sz" "sz \<le> unat (msg_size mq)" and k: "ready_inv k" "running k"
  shows "\<exists>mq' k'. mq_fetch mq sz k = Some (Returned RT_EOK, Some (hd (mq_messages sz mq)), mq', k') \<and> mq_wf sz mq' \<and>
    mq_same mq mq' \<and> ready_inv k' \<and> running k' \<and> mq_messages sz mq' = tl (mq_messages sz mq)"
proof -
  have l: "mq_lists mq fs (n # qs)" and e: "unat (mq_entry mq) = length (n # qs)" using rep by (simp_all add: mq_rep_def)
  have d: "length (msg_data mq n) = unat (msg_size mq)" using l by (auto simp: mq_lists_def)
  have pos: "mq_entry mq \<noteq> 0" "0 < mq_entry mq" using e by (auto simp: word_less_nat_alt)
  note t = mq_take_ok [OF l]
  let ?mq = "(mq_free_node n (mq_unlink_head n mq))\<lparr>mq_entry := mq_entry mq - 1\<rparr>"
  have l': "mq_lists ?mq (n # fs) qs" using t(2) by simp
  have r': "mq_rep ?mq (n # fs) qs" using l' e u16_pred [OF pos(1)] by (simp add: mq_rep_def)
  have msgs: "mq_messages sz mq = take sz (msg_data mq n) # mq_messages sz ?mq"
    unfolding mq_messages_rep [OF l'] mq_messages_rep [OF l] using t(3) by simp
  have wf: "mq_wf sz ?mq" using r' sz t(5) by (auto simp: mq_wf_def mq_same_def)
  have same: "mq_same mq ?mq" using t(5) by (simp add: mq_same_def)
  have u: "mq_entry (mq_unlink_head n mq) = mq_entry mq" "msg_size (mq_unlink_head n mq) = msg_size mq"
      "msg_data (mq_unlink_head n mq) = msg_data mq" "mq_id (mq_unlink_head n mq) = mq_id mq"
    by (simp_all add: mq_unlink_head_def Let_def)
  have f: "mq_free_node n ((mq_unlink_head n mq)\<lparr>mq_entry := mq_entry mq - 1\<rparr>) = ?mq"
    by (simp add: mq_free_node_def set_msg_next_def)
  have i: "mq_id (mq_free_node n (mq_unlink_head n mq)) = mq_id mq" using t(5) by (simp add: mq_same_def)
  have read: "mem_read (msg_data mq n) 0 sz = Some (take sz (msg_data mq n))" using sz d by (simp add: mem_read_Some)
  show ?thesis
  proof (cases "tlists k (mq_senders mq)")
    case Nil
    then have "mq_fetch mq sz k = Some (Returned RT_EOK, Some (take sz (msg_data mq n)), ?mq, k)"
      using t(1) sz pos read i by (simp add: mq_fetch_def Let_def u f)
    then show ?thesis using msgs wf same k by simp
  next
    case (Cons s ss)
    obtain k1 k2 where k2: "ipc_list_resume (mq_senders mq) k = Some k1" "rt_schedule k1 = Some k2" "ready_inv k2" "running k2"
      using wake_first_ok [OF k _ Cons] by auto
    then have "mq_fetch mq sz k = Some (Returned RT_EOK, Some (take sz (msg_data mq n)), ?mq, k2)"
      using t(1) sz pos read i Cons by (simp add: mq_fetch_def Let_def u f)
    then show ?thesis using msgs wf same k2 by simp
  qed
qed

text \<open>The non-blocking operations, used with messages of \<open>sz\<close> bytes.\<close>

fun mq_step :: "nat \<Rightarrow> rt_messagequeue \<times> kernel \<Rightarrow> bytes queue_op \<Rightarrow>
    ((outcome \<times> bytes option) \<times> (rt_messagequeue \<times> kernel)) option" where
  "mq_step sz (mq, k) (QueueSend b) = do { (r, mq', k') \<leftarrow> rt_mq_send mq b k; Some ((r, None), (mq', k')) }"
| "mq_step sz (mq, k) (QueueUrgent b) = do { (r, mq', k') \<leftarrow> rt_mq_urgent mq b k; Some ((r, None), (mq', k')) }"
| "mq_step sz (mq, k) QueueRecv = do { (r, b, mq', k') \<leftarrow> rt_mq_recv mq sz 0 k; Some ((r, b), (mq', k')) }"

fun mq_op :: "nat \<Rightarrow> bytes queue_op \<Rightarrow> bool" where
  "mq_op sz (QueueSend b) \<longleftrightarrow> length b = sz"
| "mq_op sz (QueueUrgent b) \<longleftrightarrow> length b = sz"
| "mq_op sz QueueRecv \<longleftrightarrow> True"

definition mq_inv :: "nat \<Rightarrow> rt_messagequeue \<times> kernel \<Rightarrow> bool" where
  "mq_inv sz = (\<lambda>(mq, k). mq_wf sz mq \<and> ready_inv k \<and> running k)"

definition mq_abs :: "nat \<Rightarrow> rt_messagequeue \<times> kernel \<Rightarrow> nat \<times> bytes list" where
  "mq_abs sz = (\<lambda>(mq, k). (unat (max_msgs mq), mq_messages sz mq))"

lemma mq_step_simulates:
  assumes "mq_inv sz c" and ok: "mq_op sz x"
  shows "\<exists>out c'. mq_step sz c x = Some (out, c') \<and> mq_inv sz c' \<and> queue_step (mq_abs sz c) x = (out, mq_abs sz c')"
proof -
  obtain mq k where c: "c = (mq, k)" by (cases c)
  have i: "mq_wf sz mq" "ready_inv k" "running k" using assms(1) by (simp_all add: c mq_inv_def)
  then obtain fs qs where rep: "mq_rep mq fs qs" and sz: "0 < sz" "sz \<le> unat (msg_size mq)" by (auto simp: mq_wf_def)
  have l: "mq_lists mq fs qs" and e: "unat (mq_entry mq) = length qs" using rep by (simp_all add: mq_rep_def)
  have msgs: "mq_messages sz mq = map (\<lambda>n. take sz (msg_data mq n)) qs" by (rule mq_messages_rep [OF l])
  have full: "length (mq_messages sz mq) = unat (max_msgs mq) \<longleftrightarrow> fs = []"
    using mq_lists_length [OF l] by (auto simp: msgs)
  note free = mq_lists_free [OF l]
  have b: "b \<noteq> [] \<and> \<not> length b > unat (msg_size mq)" if "length b = sz" for b :: bytes using that sz by auto
  note simps = c mq_inv_def mq_abs_def full
  show ?thesis
  proof (cases x)
    case (QueueSend v)
    then have v: "length v = sz" using ok by simp
    show ?thesis
    proof (cases fs)
      case Nil
      then show ?thesis using i b [OF v] free by (simp add: simps QueueSend rt_mq_send_def rt_mq_send_wait_def)
    next
      case (Cons n ns)
      from mq_send_ok [OF rep [unfolded Cons] v sz i(2,3), of 0] show ?thesis
        using Cons b [OF v] free by (auto simp: simps QueueSend rt_mq_send_def rt_mq_send_wait_def mq_same_def)
    qed
  next
    case (QueueUrgent v)
    then have v: "length v = sz" using ok by simp
    show ?thesis
    proof (cases fs)
      case Nil
      then show ?thesis using i b [OF v] free by (simp add: simps QueueUrgent rt_mq_urgent_def)
    next
      case (Cons n ns)
      from mq_urgent_ok [OF rep [unfolded Cons] v sz i(2,3)] show ?thesis
        using Cons by (auto simp: simps QueueUrgent mq_same_def)
    qed
  next
    case QueueRecv
    show ?thesis
    proof (cases qs)
      case Nil
      then have "mq_messages sz mq = []" "mq_entry mq = 0" using msgs e by (simp_all add: unat_eq_zero)
      then show ?thesis using i sz by (simp add: simps QueueRecv rt_mq_recv_def)
    next
      case (Cons n ns)
      then have "mq_entry mq \<noteq> 0" using e by auto
      with mq_fetch_ok [OF rep [unfolded Cons] sz i(2,3)] show ?thesis
        using sz by (auto simp: simps QueueRecv rt_mq_recv_def mq_recv_try_def mq_same_def msgs Cons)
    qed
  qed
qed

interpretation mqueue: data_refinement "mq_step sz" queue_step "mq_inv sz" "mq_abs sz" "mq_op sz" for sz
  by unfold_locales (rule mq_step_simulates)

lemma mq_init_ok:
  assumes k: "ready_inv k" "running k" and fresh: "tlists k (SuspHead i) = []" "tlists k (SenderHead i) = []"
    and flag: "flag = RT_IPC_FLAG_FIFO \<or> flag = RT_IPC_FLAG_PRIO" and sz: "0 < sz" "sz \<le> 0xfff0"
    and cap: "unat pool_size div (4 * ((unat sz + 3) div 4) + 4) < 2 ^ 16"
    and pool: "\<And>n. length (pool n) = 4 * ((unat sz + 3) div 4)"
  shows "\<exists>mq. rt_mq_init i nx pool sz pool_size flag k = Some (mq, k) \<and> mq_inv (unat sz) (mq, k) \<and>
    mq_abs (unat sz) (mq, k) = (unat pool_size div (4 * ((unat sz + 3) div 4) + 4), [])"
proof -
  define ms where "ms = (ucast ((sz + 3) AND NOT 3) :: u16)"
  define mm where "mm = (ucast (pool_size div (ucast ms + 4)) :: u16)"
  define mq where "mq = mq_init_loop (unat mm)
      \<lparr>mq_id = i, mq_flag = flag, msg_size = ms, max_msgs = mm, mq_entry = 0, msg_queue_head = None,
       msg_queue_tail = None, msg_queue_free = None, msg_next = nx, msg_data = pool\<rparr>"
  have s: "unat sz \<le> 0xfff0" using sz(2) by (simp add: word_le_nat_alt)
  have "unat (sz + 3) = unat sz + 3" using s by (simp add: unat_word_ariths)
  then have a: "unat ((sz + 3) AND NOT 3) = 4 * ((unat sz + 3) div 4)" by (simp only: u32_align4)
  have ms: "unat ms = 4 * ((unat sz + 3) div 4)"
    unfolding ms_def using a s by (subst u16_of_u32) simp_all
  have "unat (ucast ms + 4 :: u32) = unat ms + 4"
    using ms s by (simp add: unat_word_ariths unsigned_ucast_eq take_bit_nat_eq_self)
  then have q: "unat (pool_size div (ucast ms + 4)) = unat pool_size div (unat ms + 4)"
    by (simp add: unat_div)
  have mm: "unat mm = unat pool_size div (4 * ((unat sz + 3) div 4) + 4)"
    unfolding mm_def using cap by (subst u16_of_u32) (simp_all add: q ms)
  have init: "rt_mq_init i nx pool sz pool_size flag k = Some (mq, k)"
    using flag ipc_object_init_ready [OF k(1) fresh(1)] ipc_object_init_ready [OF k(1) fresh(2)]
    by (auto simp: rt_mq_init_def ms_def mm_def mq_def Let_def)
  have "chain (msg_next mq) (msg_queue_free mq) (rev [0..<unat mm])"
    unfolding mq_def by (rule mq_init_loop_ok) simp
  then have l: "mq_lists mq (rev [0..<unat mm]) []"
    using pool ms flag by (simp add: mq_lists_def) (simp add: mq_def mq_init_loop_frame lessThan_atLeast0)
  moreover have "mq_entry mq = 0" "max_msgs mq = mm" "msg_size mq = ms" by (simp_all add: mq_def mq_init_loop_frame)
  moreover have "0 < unat sz" using sz(1) by (simp add: word_less_nat_alt)
  moreover have "unat sz \<le> unat ms" unfolding ms by simp
  ultimately have "mq_inv (unat sz) (mq, k)" "mq_abs (unat sz) (mq, k) = (unat mm, [])"
    using k by (auto simp: mq_inv_def mq_wf_def mq_rep_def mq_abs_def mq_messages_rep [OF l])
  then show ?thesis using init mm by auto
qed

section \<open>Properties\<close>

text \<open>
  Property C11. A message queue is a bounded queue of messages: initialised for messages of \<open>sz\<close> bytes
  in a pool of \<open>pool_size\<close> bytes, it holds as many messages as nodes of the aligned size and a pointer
  fit in the pool; every sequence of sends, urgent sends and receives (without waiting) of such
  messages returns what a queue of that capacity returns, with unchanged contents, and no node is ever
  lost or in both lists.
\<close>

theorem message_queue_refines_queue:
  assumes "ready_inv k" and "running k" and "tlists k (SuspHead i) = []" and "tlists k (SenderHead i) = []"
    and "flag = RT_IPC_FLAG_FIFO \<or> flag = RT_IPC_FLAG_PRIO" and "0 < sz" and "sz \<le> 0xfff0"
    and "unat pool_size div (4 * ((unat sz + 3) div 4) + 4) < 2 ^ 16"
    and "\<And>n. length (pool n) = 4 * ((unat sz + 3) div 4)"
    and "list_all (mq_op (unat sz)) ops"
  shows "\<exists>mq outs c. rt_mq_init i nx pool sz pool_size flag k = Some (mq, k) \<and>
    run_impl (mq_step (unat sz)) (mq, k) ops = Some (outs, c) \<and> mq_inv (unat sz) c \<and>
    run_spec queue_step (unat pool_size div (4 * ((unat sz + 3) div 4) + 4), []) ops = (outs, mq_abs (unat sz) c)"
proof -
  obtain mq where mq: "rt_mq_init i nx pool sz pool_size flag k = Some (mq, k)" "mq_inv (unat sz) (mq, k)"
      "mq_abs (unat sz) (mq, k) = (unat pool_size div (4 * ((unat sz + 3) div 4) + 4), [])"
    using mq_init_ok [where pool = pool and nx = nx, OF assms(1-9)] by blast
  from mqueue.run_refines [OF mq(2) assms(10)] show ?thesis
    unfolding mq(3) using mq(1) by blast
qed

theorem message_queue_refines_queue_witness:
  "\<exists>mq c. rt_mq_init 7 (\<lambda>_. None) (\<lambda>_. [0, 0, 0, 0]) 3 19 RT_IPC_FLAG_FIFO sample_kernel = Some (mq, sample_kernel) \<and>
    run_impl (mq_step 3) (mq, sample_kernel)
      [QueueSend [1, 2, 3], QueueUrgent [4, 5, 6], QueueSend [7, 8, 9], QueueRecv, QueueRecv, QueueRecv] =
      Some ([(Returned RT_EOK, None), (Returned RT_EOK, None), (Returned (- RT_EFULL), None), (Returned RT_EOK, Some [4, 5, 6]),
        (Returned RT_EOK, Some [1, 2, 3]), (Returned (- RT_ETIMEOUT), None)], c)"
proof -
  let ?ops = "[QueueSend [1, 2, 3], QueueUrgent [4, 5, 6], QueueSend [7, 8, 9], QueueRecv, QueueRecv, QueueRecv] :: bytes queue_op list"
  have fresh: "tlists sample_kernel (SuspHead 7) = []" "tlists sample_kernel (SenderHead 7) = []"
    by (simp_all add: sample_kernel_def)
  have "\<exists>mq outs c. rt_mq_init 7 (\<lambda>_. None) (\<lambda>_. [0, 0, 0, 0]) 3 19 RT_IPC_FLAG_FIFO sample_kernel = Some (mq, sample_kernel) \<and>
      run_impl (mq_step (unat (3 :: u32))) (mq, sample_kernel) ?ops = Some (outs, c) \<and> mq_inv (unat (3 :: u32)) c \<and>
      run_spec queue_step (unat (19 :: u32) div (4 * ((unat (3 :: u32) + 3) div 4) + 4), []) ?ops = (outs, mq_abs (unat (3 :: u32)) c)"
    by (rule message_queue_refines_queue [OF sample_ready_inv sample_running fresh]) simp_all
  then show ?thesis by auto
qed

text \<open>
  Resetting a message queue ends and releases everything: the loop that frees the queued
  messages terminates, afterwards the queue is empty with all nodes of the pool free again, no thread
  waits for the queue any more, and each thread that waited is runnable and sees the error code
  \<^verbatim>\<open>-RT_ERROR\<close>.
\<close>

theorem message_queue_reset:
  assumes "mq_wf sz mq" and "ready_inv k" and "running k"
  shows "\<exists>mq' k'. rt_mq_control mq RT_IPC_CMD_RESET k = Some (RT_EOK, mq', k') \<and> mq_wf sz mq' \<and>
    mq_messages sz mq' = [] \<and> mq_entry mq' = 0 \<and> max_msgs mq' = max_msgs mq \<and> ready_inv k' \<and> running k' \<and>
    tlists k' (mq_receivers mq) = [] \<and> tlists k' (mq_senders mq) = [] \<and>
    (\<forall>t \<in> set (tlists k (mq_receivers mq)) \<union> set (tlists k (mq_senders mq)).
       runnable k' t \<and> error (threads k' t) = - RT_ERROR)"
proof -
  obtain fs qs where l: "mq_lists mq fs qs" and sz: "0 < sz" "sz \<le> unat (msg_size mq)"
    using assms(1) by (auto simp: mq_wf_def mq_rep_def)
  obtain mq1 fs' where mq1: "mq_release_loop mq = Some mq1" "mq_lists mq1 fs' []" "mq_same mq mq1"
    using mq_release_loop_ok [OF l] by auto
  obtain c where c: "rt_current_thread k = Some c" "thread_state k c = RT_THREAD_RUNNING"
    using assms(3) by (auto simp: running_def)
  have ns: "RT_THREAD_RUNNING \<noteq> RT_THREAD_SUSPEND" "RT_THREAD_READY \<noteq> RT_THREAD_SUSPEND" by (simp_all add: kernel_simps)
  obtain k1 where k1: "ipc_list_resume_all (mq_receivers mq) k = Some k1" "ready_inv k1" "rt_current_thread k1 = Some c"
      "\<forall>g. wait_head g \<longrightarrow> tlists k1 g = ((tlists k)(mq_receivers mq := [])) g"
      "\<forall>u. thread_state k1 u = (if u \<in> set (tlists k (mq_receivers mq)) then RT_THREAD_READY else thread_state k u)"
      "\<forall>u. error (threads k1 u) = (if u \<in> set (tlists k (mq_receivers mq)) then - RT_ERROR else error (threads k u))"
    using ipc_list_resume_all_ok [OF assms(2) _ c(1), of "mq_receivers mq"] c(2) ns by auto
  have cr: "c \<notin> set (tlists k h)" if "wait_head h" for h
    using waiting_suspended [OF assms(2) that] c(2) ns by auto
  have c1: "thread_state k1 u \<noteq> RT_THREAD_SUSPEND" if "Some c = Some u" for u
    using that k1(5) c(2) ns by simp
  obtain k2 where k2: "ipc_list_resume_all (mq_senders mq) k1 = Some k2" "ready_inv k2" "rt_current_thread k2 = Some c"
      "\<forall>g. wait_head g \<longrightarrow> tlists k2 g = ((tlists k1)(mq_senders mq := [])) g"
      "\<forall>u. thread_state k2 u = (if u \<in> set (tlists k1 (mq_senders mq)) then RT_THREAD_READY else thread_state k1 u)"
      "\<forall>u. error (threads k2 u) = (if u \<in> set (tlists k1 (mq_senders mq)) then - RT_ERROR else error (threads k1 u))"
    using ipc_list_resume_all_ok [OF k1(2) _ k1(3) c1, of "mq_senders mq"] by auto
  have run2: "running k2" using k2(3,5) k1(4,5) c(2) cr by (auto simp: running_def)
  obtain k3 where k3: "rt_schedule k2 = Some k3" "ready_inv k3"
      "\<forall>u. thread_state k3 u \<in> {RT_THREAD_READY, RT_THREAD_RUNNING} \<longleftrightarrow> thread_state k2 u \<in> {RT_THREAD_READY, RT_THREAD_RUNNING}"
    using rt_schedule_ok [OF k2(2,3)] by blast
  have run3: "running k3" by (rule rt_schedule_running [OF k2(2) run2 k3(1)])
  have ready: "runnable k3 t \<and> error (threads k3 t) = - RT_ERROR"
    if "t \<in> set (tlists k (mq_receivers mq)) \<union> set (tlists k (mq_senders mq))" for t
  proof -
    have "thread_state k2 t = RT_THREAD_READY" "error (threads k2 t) = - RT_ERROR"
      using that k1(4,5,6) k2(5,6) by auto
    moreover have "error (threads k3 t) = error (threads k2 t)"
      using same_threads_schedule [OF k3(1)] by (simp add: same_threads_def)
    ultimately show ?thesis using k3(3) by (simp add: runnable_def)
  qed
  have waits: "tlists k3 (mq_receivers mq) = []" "tlists k3 (mq_senders mq) = []"
    using rt_schedule_waits [OF k2(2) k3(1)] k1(4) k2(4) by simp_all
  have rep: "mq_rep (mq1\<lparr>mq_entry := 0\<rparr>) fs' []" using mq1(2) by (simp add: mq_rep_def)
  have "mq_wf sz (mq1\<lparr>mq_entry := 0\<rparr>)" using rep sz mq1(3) by (auto simp: mq_wf_def mq_same_def)
  moreover have "mq_messages sz (mq1\<lparr>mq_entry := 0\<rparr>) = []"
    using mq_messages_rep [of "mq1\<lparr>mq_entry := 0\<rparr>" fs' "[]"] mq1(2) by simp
  moreover have "rt_mq_control mq RT_IPC_CMD_RESET k = Some (RT_EOK, mq1\<lparr>mq_entry := 0\<rparr>, k3)"
    using k1(1) k2(1) k3(1) mq1(1) by (simp add: rt_mq_control_def)
  ultimately show ?thesis using mq1(3) k3(2) run3 waits ready by (simp add: mq_same_def)
qed

definition sample_queue :: rt_messagequeue where
  "sample_queue = \<lparr>mq_id = 7, mq_flag = 0, msg_size = 4, max_msgs = 2, mq_entry = 1, msg_queue_head = Some 1,
     msg_queue_tail = Some 1, msg_queue_free = Some 0, msg_next = (\<lambda>_. None), msg_data = (\<lambda>_. [1, 2, 3, 4])\<rparr>"

theorem message_queue_reset_witness:
  "mq_messages 4 sample_queue = [[1, 2, 3, 4]] \<and>
   (\<exists>mq' k'. rt_mq_control sample_queue RT_IPC_CMD_RESET sample_kernel = Some (RT_EOK, mq', k') \<and> mq_messages 4 mq' = [])"
proof -
  have rep: "mq_rep sample_queue [0] [1]"
    by (auto simp: mq_rep_def mq_lists_def sample_queue_def RT_IPC_FLAG_FIFO_def)
  then have "mq_wf 4 sample_queue" by (auto simp: mq_wf_def sample_queue_def)
  from message_queue_reset [OF this sample_ready_inv sample_running]
  have "\<exists>mq' k'. rt_mq_control sample_queue RT_IPC_CMD_RESET sample_kernel = Some (RT_EOK, mq', k') \<and> mq_messages 4 mq' = []"
    by blast
  moreover have "mq_messages 4 sample_queue = [[1, 2, 3, 4]]"
    using mq_messages_rep [of sample_queue "[0]" "[1]" 4] rep by (simp add: mq_rep_def) (simp add: sample_queue_def)
  ultimately show ?thesis by blast
qed

end
