(* ===== verification/DataQueue.thy ===== *)
theory DataQueue
  imports Ipc
begin

text \<open>
  The data queue of the device drivers (\<^verbatim>\<open>components/drivers/ipc/dataqueue.c\<close>): a circular array of pointers with
  their sizes, with blocking push and pop and a low water mark below which blocked producers are woken. The indices
  are bit fields of 15 bits. The theorems show that it implements a bounded queue, when a blocked producer
  is woken, and that it is not woken by free room alone.
\<close>

section \<open>Operations\<close>

record rt_data_item =
  data_ptr :: u32
  data_size :: u32

text \<open>\<open>evt_notify\<close> tells whether there is a callback; what it is called with is a result of the operations.\<close>

record rt_data_queue =
  dq_id :: nat
  dq_magic :: u32
  dq_size :: u16
  lwm :: u16
  get_index :: nat
  put_index :: nat
  is_empty :: bool
  is_full :: bool
  dq_items :: "rt_data_item list"
  evt_notify :: bool

datatype dq_event = RT_DATAQUEUE_EVENT_POP | RT_DATAQUEUE_EVENT_PUSH | RT_DATAQUEUE_EVENT_LWM

definition DATAQUEUE_MAGIC :: u32 where "DATAQUEUE_MAGIC = 0xbead0e0e"

abbreviation dq_poppers :: "rt_data_queue \<Rightarrow> list_head" where "dq_poppers q \<equiv> SuspHead (dq_id q)"
abbreviation dq_pushers :: "rt_data_queue \<Rightarrow> list_head" where "dq_pushers q \<equiv> SenderHead (dq_id q)"

text \<open>\<open>mem\<close> is the memory \<^verbatim>\<open>rt_malloc\<close> returns, if any.\<close>

definition rt_data_queue_init ::
  "nat \<Rightarrow> u16 \<Rightarrow> u16 \<Rightarrow> bool \<Rightarrow> rt_data_item list option \<Rightarrow> kernel \<Rightarrow> (int \<times> rt_data_queue \<times> kernel) option" where
  "rt_data_queue_init i n low notify mem k =
     (if n > 0 then
        let q = \<lparr>dq_id = i, dq_magic = DATAQUEUE_MAGIC, dq_size = n, lwm = low, get_index = 0, put_index = 0,
                 is_empty = True, is_full = False, dq_items = [], evt_notify = notify\<rparr>;
            k1 = ipc_object_init (SuspHead i) (ipc_object_init (SenderHead i) k)
        in case mem of None \<Rightarrow> Some (- RT_ENOMEM, q, k1) | Some m \<Rightarrow> Some (RT_EOK, q\<lparr>dq_items := m\<rparr>, k1)
      else None)"

text \<open>An index after its increment, in 15 bits.\<close>

definition dq_next :: "rt_data_queue \<Rightarrow> nat \<Rightarrow> nat" where
  "dq_next q i = (let j = (i + 1) mod 2 ^ 15 in if j = unat (dq_size q) then 0 else j)"

definition rt_data_queue_len :: "rt_data_queue \<Rightarrow> u16 option" where
  "rt_data_queue_len q =
     (if dq_magic q \<noteq> DATAQUEUE_MAGIC then None
      else if is_empty q then Some 0
      else if put_index q > get_index q then Some (word_of_int (int (put_index q) - int (get_index q)))
      else Some (word_of_int (uint (dq_size q) + int (put_index q) - int (get_index q))))"

definition dq_event_if :: "rt_data_queue \<Rightarrow> dq_event \<Rightarrow> dq_event list" where
  "dq_event_if q e = (if evt_notify q then [e] else [])"

text \<open>Storing an item, behind the loop of \<^verbatim>\<open>rt_data_queue_push\<close>.\<close>

definition dq_store :: "rt_data_queue \<Rightarrow> rt_data_item \<Rightarrow> kernel \<Rightarrow> (outcome \<times> dq_event list \<times> rt_data_queue \<times> kernel) option" where
  "dq_store q item k =
     do { items \<leftarrow> mem_put (dq_items q) (put_index q) item;
          let p = dq_next q (put_index q);
          let q1 = q\<lparr>dq_items := items, put_index := p, is_empty := False, is_full := (if p = get_index q then True else is_full q)\<rparr>;
          if tlists k (dq_poppers q1) \<noteq> [] then
            do { k1 \<leftarrow> ipc_list_resume (dq_poppers q1) k; k2 \<leftarrow> rt_schedule k1; Some (Returned RT_EOK, [], q1, k2) }
          else Some (Returned RT_EOK, dq_event_if q1 RT_DATAQUEUE_EVENT_PUSH, q1, k) }"

definition dq_push_try ::
  "rt_data_queue \<Rightarrow> rt_data_item \<Rightarrow> int \<Rightarrow> kernel \<Rightarrow> (outcome \<times> dq_event list \<times> rt_data_queue \<times> kernel) option" where
  "dq_push_try q item timeout k =
     (if is_full q then
        if timeout = 0 then Some (Returned (- RT_ETIMEOUT), [], q, k)
        else do { t \<leftarrow> rt_thread_self k;
                  k1 \<leftarrow> ipc_wait (dq_pushers q) t RT_IPC_FLAG_FIFO timeout (upd_thread t (\<lambda>th. th\<lparr>error := RT_EOK\<rparr>) k);
                  Some (Blocked t, [], q, k1) }
      else dq_store q item k)"

definition rt_data_queue_push ::
  "rt_data_queue \<Rightarrow> rt_data_item \<Rightarrow> int \<Rightarrow> kernel \<Rightarrow> (outcome \<times> dq_event list \<times> rt_data_queue \<times> kernel) option" where
  "rt_data_queue_push q item timeout k =
     (if dq_magic q \<noteq> DATAQUEUE_MAGIC \<or> timeout \<noteq> 0 \<and> \<not> scheduler_available k then None else dq_push_try q item timeout k)"

text \<open>The rest of a blocked call when the thread \<open>t\<close> runs again; the timeout is not reduced.\<close>

definition rt_data_queue_push_resumed ::
  "rt_data_queue \<Rightarrow> rt_data_item \<Rightarrow> int \<Rightarrow> tid \<Rightarrow> kernel \<Rightarrow> (outcome \<times> dq_event list \<times> rt_data_queue \<times> kernel) option" where
  "rt_data_queue_push_resumed q item timeout t k =
     (if error (threads k t) \<noteq> RT_EOK then Some (Returned (error (threads k t)), [], q, k) else dq_push_try q item timeout k)"

definition dq_fetch ::
  "rt_data_queue \<Rightarrow> kernel \<Rightarrow> (outcome \<times> rt_data_item option \<times> dq_event list \<times> rt_data_queue \<times> kernel) option" where
  "dq_fetch q k =
     do { item \<leftarrow> mem_get (dq_items q) (get_index q);
          let g = dq_next q (get_index q);
          let q1 = q\<lparr>get_index := g, is_full := False, is_empty := (if put_index q = g then True else is_empty q)\<rparr>;
          len \<leftarrow> rt_data_queue_len q1;
          if len \<le> lwm q1 then
            do { k2 \<leftarrow> (if tlists k (dq_pushers q1) \<noteq> [] then do { k1 \<leftarrow> ipc_list_resume (dq_pushers q1) k; rt_schedule k1 }
                         else Some k);
                 Some (Returned RT_EOK, Some item, dq_event_if q1 RT_DATAQUEUE_EVENT_LWM, q1, k2) }
          else Some (Returned RT_EOK, Some item, dq_event_if q1 RT_DATAQUEUE_EVENT_POP, q1, k) }"

definition dq_pop_try ::
  "rt_data_queue \<Rightarrow> int \<Rightarrow> kernel \<Rightarrow> (outcome \<times> rt_data_item option \<times> dq_event list \<times> rt_data_queue \<times> kernel) option" where
  "dq_pop_try q timeout k =
     (if is_empty q then
        if timeout = 0 then Some (Returned (- RT_ETIMEOUT), None, [], q, k)
        else do { t \<leftarrow> rt_thread_self k;
                  k1 \<leftarrow> ipc_wait (dq_poppers q) t RT_IPC_FLAG_FIFO timeout (upd_thread t (\<lambda>th. th\<lparr>error := RT_EOK\<rparr>) k);
                  Some (Blocked t, None, [], q, k1) }
      else dq_fetch q k)"

definition rt_data_queue_pop ::
  "rt_data_queue \<Rightarrow> int \<Rightarrow> kernel \<Rightarrow> (outcome \<times> rt_data_item option \<times> dq_event list \<times> rt_data_queue \<times> kernel) option" where
  "rt_data_queue_pop q timeout k =
     (if dq_magic q \<noteq> DATAQUEUE_MAGIC \<or> timeout \<noteq> 0 \<and> \<not> scheduler_available k then None else dq_pop_try q timeout k)"

definition rt_data_queue_pop_resumed ::
  "rt_data_queue \<Rightarrow> int \<Rightarrow> tid \<Rightarrow> kernel \<Rightarrow> (outcome \<times> rt_data_item option \<times> dq_event list \<times> rt_data_queue \<times> kernel) option" where
  "rt_data_queue_pop_resumed q timeout t k =
     (if error (threads k t) \<noteq> RT_EOK then Some (Returned (error (threads k t)), None, [], q, k) else dq_pop_try q timeout k)"

definition rt_data_queue_peek :: "rt_data_queue \<Rightarrow> (int \<times> rt_data_item option) option" where
  "rt_data_queue_peek q =
     (if dq_magic q \<noteq> DATAQUEUE_MAGIC then None
      else if is_empty q then Some (- RT_EEMPTY, None)
      else do { item \<leftarrow> mem_get (dq_items q) (get_index q); Some (RT_EOK, Some item) })"

definition rt_data_queue_reset :: "rt_data_queue \<Rightarrow> kernel \<Rightarrow> (rt_data_queue \<times> kernel) option" where
  "rt_data_queue_reset q k =
     (if dq_magic q \<noteq> DATAQUEUE_MAGIC then None
      else do { k1 \<leftarrow> ipc_list_resume_all (dq_poppers q) (rt_enter_critical k);
                k2 \<leftarrow> ipc_list_resume_all (dq_pushers q) k1;
                k3 \<leftarrow> rt_exit_critical k2;
                k4 \<leftarrow> rt_schedule k3;
                Some (q\<lparr>get_index := 0, put_index := 0, is_empty := True, is_full := False\<rparr>, k4) })"

definition rt_data_queue_deinit :: "rt_data_queue \<Rightarrow> kernel \<Rightarrow> (int \<times> rt_data_queue \<times> kernel) option" where
  "rt_data_queue_deinit q k = do { (q1, k1) \<leftarrow> rt_data_queue_reset q k; Some (RT_EOK, q1\<lparr>dq_magic := 0, dq_items := []\<rparr>, k1) }"

section \<open>The circular array\<close>

definition dq_count :: "rt_data_queue \<Rightarrow> nat" where
  "dq_count q = (if is_empty q then 0 else if put_index q > get_index q then put_index q - get_index q
                 else unat (dq_size q) + put_index q - get_index q)"

definition dq_wf :: "rt_data_queue \<Rightarrow> bool" where
  "dq_wf q \<longleftrightarrow> dq_magic q = DATAQUEUE_MAGIC \<and> 0 < dq_size q \<and> unat (dq_size q) \<le> 2 ^ 15 \<and>
     length (dq_items q) = unat (dq_size q) \<and> get_index q < unat (dq_size q) \<and>
     put_index q = (get_index q + dq_count q) mod unat (dq_size q) \<and> dq_count q \<le> unat (dq_size q) \<and>
     is_empty q = (dq_count q = 0) \<and> is_full q = (dq_count q = unat (dq_size q))"

definition dq_contents :: "rt_data_queue \<Rightarrow> rt_data_item list" where
  "dq_contents q = cview (dq_items q) (get_index q) (dq_count q)"

lemma dq_count_unique:
  assumes "get_index q < unat (dq_size q)" and "n \<le> unat (dq_size q)" and "put_index q = (get_index q + n) mod unat (dq_size q)"
    and "is_empty q = (n = 0)"
  shows "dq_count q = n"
proof (cases "get_index q + n < unat (dq_size q)")
  case True
  then show ?thesis using assms by (auto simp: dq_count_def)
next
  case False
  then have "put_index q = get_index q + n - unat (dq_size q)" using assms by (simp add: mod_if)
  then show ?thesis using False assms by (auto simp: dq_count_def)
qed

lemma dq_next_mod:
  assumes "i < unat (dq_size q)" and "unat (dq_size q) \<le> 2 ^ 15"
  shows "dq_next q i = (i + 1) mod unat (dq_size q)"
proof (cases "i + 1 = unat (dq_size q)")
  case True
  then show ?thesis using assms(2) by (cases "unat (dq_size q) = 2 ^ 15") (simp_all add: dq_next_def Let_def)
next
  case False
  then show ?thesis using assms by (simp add: dq_next_def Let_def)
qed

lemma dq_len_ok:
  assumes "dq_wf q"
  shows "\<exists>n. rt_data_queue_len q = Some n \<and> unat n = dq_count q"
proof -
  have c: "dq_count q < 2 ^ 16" using assms by (simp add: dq_wf_def)
  have e: "word_of_int (int n) = (of_nat n :: u16)" for n by simp
  have g: "get_index q \<le> unat (dq_size q) + put_index q" using assms by (simp add: dq_wf_def)
  show ?thesis
  proof (cases "is_empty q \<or> put_index q > get_index q")
    case True
    then show ?thesis using assms c
      by (auto simp: rt_data_queue_len_def dq_wf_def dq_count_def unat_of_nat take_bit_nat_eq_self simp flip: of_nat_diff)
  next
    case False
    have "dq_count q = unat (dq_size q) + put_index q - get_index q" using False by (simp add: dq_count_def)
    then have "int (unat (dq_size q)) + int (put_index q) - int (get_index q) = int (dq_count q)" using g by linarith
    then have "uint (dq_size q) + int (put_index q) - int (get_index q) = int (dq_count q)" by simp
    then show ?thesis using False assms c by (simp add: rt_data_queue_len_def dq_wf_def unat_of_nat take_bit_nat_eq_self)
  qed
qed

lemma mod_same: "g < s \<Longrightarrow> m < s \<Longrightarrow> (g + m) mod s = g \<longleftrightarrow> m = (0 :: nat)"
  by (auto simp: mod_if)

lemma dq_put_ok:
  fixes item :: rt_data_item
  assumes wf: "dq_wf q" and room: "\<not> is_full q"
  defines "p \<equiv> dq_next q (put_index q)"
  defines "q' \<equiv> q\<lparr>dq_items := (dq_items q)[put_index q := item], put_index := p, is_empty := False,
      is_full := (if p = get_index q then True else is_full q)\<rparr>"
  shows "put_index q < length (dq_items q)" and "dq_wf q'" and "dq_contents q' = dq_contents q @ [item]"
proof -
  let ?s = "unat (dq_size q)" and ?g = "get_index q" and ?n = "dq_count q" and ?m = "dq_items q"
  have w: "0 < dq_size q" "?s \<le> 2 ^ 15" "length ?m = ?s" "?g < ?s" "put_index q = (?g + ?n) mod ?s" "?n < ?s"
    using wf room by (auto simp: dq_wf_def)
  then show i: "put_index q < length ?m" by simp
  have p: "p = (?g + (?n + 1)) mod ?s" using w i unfolding p_def by (subst dq_next_mod) (simp_all add: mod_simps)
  have f: "p = ?g \<longleftrightarrow> ?n + 1 = ?s"
  proof (cases "?n + 1 = ?s")
    case True
    then show ?thesis using p w(4) by simp
  next
    case False
    then show ?thesis using mod_same [OF w(4), of "?n + 1"] w(6) unfolding p by simp
  qed
  have c: "dq_count q' = ?n + 1"
    using w p by (intro dq_count_unique) (auto simp: q'_def)
  show "dq_wf q'" using wf w p f c room by (auto simp: dq_wf_def q'_def)
  have "cview (?m[put_index q := item]) ?g (?n + length [item]) = cview ?m ?g ?n @ [item]"
    using w i by (intro cwritten_append [OF cwritten_cell [OF i]]) simp_all
  then show "dq_contents q' = dq_contents q @ [item]" unfolding dq_contents_def c by (simp add: q'_def)
qed

lemma dq_take_ok:
  assumes wf: "dq_wf q" and some: "\<not> is_empty q"
  defines "g \<equiv> dq_next q (get_index q)"
  defines "q' \<equiv> q\<lparr>get_index := g, is_full := False, is_empty := (if put_index q = g then True else is_empty q)\<rparr>"
  shows "get_index q < length (dq_items q)" and "dq_wf q'" and "dq_contents q = dq_items q ! get_index q # dq_contents q'"
    and "dq_count q' = dq_count q - 1"
proof -
  let ?s = "unat (dq_size q)" and ?g = "get_index q" and ?n = "dq_count q" and ?m = "dq_items q"
  have w: "0 < dq_size q" "?s \<le> 2 ^ 15" "length ?m = ?s" "?g < ?s" "put_index q = (?g + ?n) mod ?s" "?n \<le> ?s" "0 < ?n"
    using wf some by (auto simp: dq_wf_def)
  show i: "?g < length ?m" using w by simp
  have g: "g = (?g + 1) mod ?s" using w unfolding g_def by (intro dq_next_mod) simp_all
  then have gs: "g < ?s" using w(4) by simp
  have "?g + 1 + (?n - 1) = ?g + ?n" using w(7) by simp
  then have put: "put_index q = (g + (?n - 1)) mod ?s" using w(5) mod_add_left_eq [of "?g + 1" ?s "?n - 1"] unfolding g by simp
  have e: "put_index q = g \<longleftrightarrow> ?n - 1 = 0" unfolding put using gs w(6,7) by (intro mod_same) simp_all
  show c: "dq_count q' = ?n - 1"
    using w gs put e some by (intro dq_count_unique) (auto simp: q'_def)
  show "dq_wf q'" using wf w gs put e c some by (auto simp: dq_wf_def q'_def)
  have "cview ?m ?g (Suc (?n - 1)) = ?m ! ?g # cview ?m (Suc ?g) (?n - 1)" using w(3,4) by (simp add: cview_Suc)
  moreover have "cview ?m g (?n - 1) = cview ?m (Suc ?g) (?n - 1)" using cview_mod [of ?m "Suc ?g" "?n - 1"] w(3) g by simp
  ultimately show "dq_contents q = ?m ! ?g # dq_contents q'" using w(7) unfolding dq_contents_def c by (simp add: q'_def)
qed

section \<open>The data queue as a bounded queue\<close>

text \<open>
  The specification: a bounded list of items with the threads that wait to pop and to push, the threads
  that are runnable, the low water mark, and whether events are reported. Storing an item wakes the first
  waiting consumer, removing one wakes the first waiting producer when no more items than the mark are left.
\<close>

record dq_state =
  dqs_bound :: nat
  dqs_low :: nat
  dqs_notify :: bool
  dqs_items :: "rt_data_item list"
  dqs_poppers :: "tid list"
  dqs_pushers :: "tid list"
  dqs_runnable :: "tid set"

datatype dq_op = DqPush rt_data_item | DqPop | DqPeek | DqLen

type_synonym dq_out = "outcome \<times> rt_data_item option \<times> dq_event list"

definition wake_popper :: "dq_state \<Rightarrow> dq_state" where
  "wake_popper s = (case dqs_poppers s of [] \<Rightarrow> s
     | t # ts \<Rightarrow> s\<lparr>dqs_poppers := ts, dqs_runnable := insert t (dqs_runnable s)\<rparr>)"

definition wake_pusher :: "dq_state \<Rightarrow> dq_state" where
  "wake_pusher s = (case dqs_pushers s of [] \<Rightarrow> s
     | t # ts \<Rightarrow> s\<lparr>dqs_pushers := ts, dqs_runnable := insert t (dqs_runnable s)\<rparr>)"

definition report :: "dq_state \<Rightarrow> dq_event \<Rightarrow> dq_event list" where
  "report s e = (if dqs_notify s then [e] else [])"

fun dq_spec :: "dq_state \<Rightarrow> dq_op \<Rightarrow> dq_out \<times> dq_state" where
  "dq_spec s (DqPush x) =
     (if length (dqs_items s) = dqs_bound s then ((Returned (- RT_ETIMEOUT), None, []), s)
      else ((Returned RT_EOK, None, if dqs_poppers s = [] then report s RT_DATAQUEUE_EVENT_PUSH else []),
            wake_popper (s\<lparr>dqs_items := dqs_items s @ [x]\<rparr>)))"
| "dq_spec s DqPop =
     (case dqs_items s of
        [] \<Rightarrow> ((Returned (- RT_ETIMEOUT), None, []), s)
      | x # ys \<Rightarrow>
          if length ys \<le> dqs_low s
          then ((Returned RT_EOK, Some x, report s RT_DATAQUEUE_EVENT_LWM), wake_pusher (s\<lparr>dqs_items := ys\<rparr>))
          else ((Returned RT_EOK, Some x, report s RT_DATAQUEUE_EVENT_POP), s\<lparr>dqs_items := ys\<rparr>))"
| "dq_spec s DqPeek =
     (case dqs_items s of
        [] \<Rightarrow> ((Returned (- RT_EEMPTY), None, []), s)
      | x # ys \<Rightarrow> ((Returned RT_EOK, Some x, []), s))"
| "dq_spec s DqLen = ((Returned (int (length (dqs_items s))), None, []), s)"

text \<open>The operations without waiting.\<close>

fun dq_step :: "rt_data_queue \<times> kernel \<Rightarrow> dq_op \<Rightarrow> (dq_out \<times> (rt_data_queue \<times> kernel)) option" where
  "dq_step (q, k) (DqPush x) = do { (r, ev, q', k') \<leftarrow> rt_data_queue_push q x 0 k; Some ((r, None, ev), (q', k')) }"
| "dq_step (q, k) DqPop = do { (r, x, ev, q', k') \<leftarrow> rt_data_queue_pop q 0 k; Some ((r, x, ev), (q', k')) }"
| "dq_step (q, k) DqPeek = do { (r, x) \<leftarrow> rt_data_queue_peek q; Some ((Returned r, x, []), (q, k)) }"
| "dq_step (q, k) DqLen = do { n \<leftarrow> rt_data_queue_len q; Some ((Returned (uint n), None, []), (q, k)) }"

definition dq_inv :: "rt_data_queue \<times> kernel \<Rightarrow> bool" where
  "dq_inv = (\<lambda>(q, k). dq_wf q \<and> ready_inv k \<and> running k)"

definition dq_abs :: "rt_data_queue \<times> kernel \<Rightarrow> dq_state" where
  "dq_abs = (\<lambda>(q, k). \<lparr>dqs_bound = unat (dq_size q), dqs_low = unat (lwm q), dqs_notify = evt_notify q,
     dqs_items = dq_contents q, dqs_poppers = tlists k (dq_poppers q), dqs_pushers = tlists k (dq_pushers q),
     dqs_runnable = {t. runnable k t}\<rparr>)"

lemma dq_contents_length: "length (dq_contents q) = dq_count q"
  by (simp add: dq_contents_def)

lemma dq_contents_empty: "dq_wf q \<Longrightarrow> dq_contents q = [] \<longleftrightarrow> is_empty q"
  using dq_contents_length [of q] by (auto simp: dq_wf_def)

lemma dq_store_ok:
  assumes wf: "dq_wf q" and room: "\<not> is_full q" and k: "ready_inv k" "running k"
  shows "\<exists>ev q' k'. dq_store q x k = Some (Returned RT_EOK, ev, q', k') \<and> dq_inv (q', k') \<and>
    dq_abs (q', k') = wake_popper ((dq_abs (q, k))\<lparr>dqs_items := dq_contents q @ [x]\<rparr>) \<and>
    ev = (if tlists k (dq_poppers q) = [] then dq_event_if q RT_DATAQUEUE_EVENT_PUSH else [])"
proof -
  note put = dq_put_ok(1) [OF wf room] dq_put_ok(2,3) [OF wf room, of x]
  let ?p = "dq_next q (put_index q)"
  let ?q = "q\<lparr>dq_items := (dq_items q)[put_index q := x], put_index := ?p, is_empty := False,
      is_full := (if ?p = get_index q then True else is_full q)\<rparr>"
  show ?thesis
  proof (cases "tlists k (dq_poppers q)")
    case Nil
    then have "dq_store q x k = Some (Returned RT_EOK, dq_event_if q RT_DATAQUEUE_EVENT_PUSH, ?q, k)"
      using put(1) by (simp add: dq_store_def mem_put_Some Let_def dq_event_if_def)
    then show ?thesis using put(2,3) k Nil by (simp add: dq_inv_def dq_abs_def wake_popper_def)
  next
    case (Cons t ts)
    obtain k1 k2 where k2: "ipc_list_resume (dq_poppers q) k = Some k1" "rt_schedule k1 = Some k2" "ready_inv k2" "running k2"
      "{u. runnable k2 u} = insert t {u. runnable k u}" "\<forall>g. wait_head g \<longrightarrow> tlists k2 g = ((tlists k)(dq_poppers q := ts)) g"
      using wake_first_exact [OF k _ Cons] by auto
    then have "dq_store q x k = Some (Returned RT_EOK, [], ?q, k2)"
      using put(1) Cons by (simp add: dq_store_def mem_put_Some Let_def)
    then show ?thesis using put(2,3) k2 Cons by (simp add: dq_inv_def dq_abs_def wake_popper_def)
  qed
qed

lemma dq_fetch_ok:
  assumes wf: "dq_wf q" and some: "\<not> is_empty q" and k: "ready_inv k" "running k"
  shows "\<exists>ev q' k'. dq_fetch q k = Some (Returned RT_EOK, Some (hd (dq_contents q)), ev, q', k') \<and> dq_inv (q', k') \<and>
    \<not> is_full q' \<and>
    (if dq_count q - 1 \<le> unat (lwm q)
     then ev = dq_event_if q RT_DATAQUEUE_EVENT_LWM \<and>
       dq_abs (q', k') = wake_pusher ((dq_abs (q, k))\<lparr>dqs_items := tl (dq_contents q)\<rparr>)
     else ev = dq_event_if q RT_DATAQUEUE_EVENT_POP \<and> k' = k \<and>
       dq_abs (q', k') = (dq_abs (q, k))\<lparr>dqs_items := tl (dq_contents q)\<rparr>)"
proof -
  note take = dq_take_ok [OF wf some]
  let ?g = "dq_next q (get_index q)"
  let ?q = "q\<lparr>get_index := ?g, is_full := False, is_empty := (if put_index q = ?g then True else is_empty q)\<rparr>"
  obtain n where n: "rt_data_queue_len ?q = Some n" "unat n = dq_count q - 1" using dq_len_ok [OF take(2)] take(4) by auto
  have le: "n \<le> lwm q \<longleftrightarrow> dq_count q - 1 \<le> unat (lwm q)" using n(2) by (simp add: word_le_nat_alt)
  have cont: "hd (dq_contents q) = dq_items q ! get_index q" "dq_contents ?q = tl (dq_contents q)" using take(3) by simp_all
  have inv: "dq_inv (?q, k'')" if "ready_inv k''" "running k''" for k'' using take(2) that by (simp add: dq_inv_def)
  show ?thesis
  proof (cases "n \<le> lwm q \<and> tlists k (dq_pushers q) \<noteq> []")
    case False
    then have f: "dq_fetch q k = Some (Returned RT_EOK, Some (hd (dq_contents q)),
        dq_event_if q (if n \<le> lwm q then RT_DATAQUEUE_EVENT_LWM else RT_DATAQUEUE_EVENT_POP), ?q, k)"
      using take(1) n(1) cont(1) by (auto simp: dq_fetch_def mem_get_Some Let_def dq_event_if_def)
    have a: "dq_abs (?q, k) = (dq_abs (q, k))\<lparr>dqs_items := tl (dq_contents q)\<rparr>" using cont(2) by (simp add: dq_abs_def)
    have w: "n \<le> lwm q \<Longrightarrow> wake_pusher ((dq_abs (q, k))\<lparr>dqs_items := tl (dq_contents q)\<rparr>) = (dq_abs (q, k))\<lparr>dqs_items := tl (dq_contents q)\<rparr>"
      using False by (simp add: wake_pusher_def dq_abs_def)
    show ?thesis using f a w inv [OF k] le by (cases "n \<le> lwm q") auto
  next
    case True
    then obtain t ts where t: "tlists k (dq_pushers q) = t # ts" by (cases "tlists k (dq_pushers q)") auto
    obtain k1 k2 where k2: "ipc_list_resume (dq_pushers q) k = Some k1" "rt_schedule k1 = Some k2" "ready_inv k2" "running k2"
      "{u. runnable k2 u} = insert t {u. runnable k u}" "\<forall>g. wait_head g \<longrightarrow> tlists k2 g = ((tlists k)(dq_pushers q := ts)) g"
      using wake_first_exact [OF k _ t] by auto
    then have f: "dq_fetch q k = Some (Returned RT_EOK, Some (hd (dq_contents q)), dq_event_if q RT_DATAQUEUE_EVENT_LWM, ?q, k2)"
      using take(1) n(1) cont(1) True by (simp add: dq_fetch_def mem_get_Some Let_def dq_event_if_def)
    have "dq_abs (?q, k2) = wake_pusher ((dq_abs (q, k))\<lparr>dqs_items := tl (dq_contents q)\<rparr>)"
      using cont(2) k2(5,6) t by (simp add: dq_abs_def wake_pusher_def)
    then show ?thesis using f inv [OF k2(3,4)] le True by auto
  qed
qed

lemma dq_step_simulates:
  assumes "dq_inv c"
  shows "\<exists>out c'. dq_step c x = Some (out, c') \<and> dq_inv c' \<and> dq_spec (dq_abs c) x = (out, dq_abs c')"
proof -
  obtain q k where c: "c = (q, k)" by (cases c)
  have i: "dq_wf q" "ready_inv k" "running k" "dq_magic q = DATAQUEUE_MAGIC" using assms by (simp_all add: c dq_inv_def dq_wf_def)
  have full: "is_full q \<longleftrightarrow> length (dq_contents q) = unat (dq_size q)" using i(1) by (simp add: dq_contents_length dq_wf_def)
  have abs: "dqs_items (dq_abs (q, k)) = dq_contents q" "dqs_bound (dq_abs (q, k)) = unat (dq_size q)"
    "dqs_low (dq_abs (q, k)) = unat (lwm q)" "dqs_poppers (dq_abs (q, k)) = tlists k (dq_poppers q)"
    "report (dq_abs (q, k)) e = dq_event_if q e" for e by (simp_all add: dq_abs_def report_def dq_event_if_def)
  show ?thesis
  proof (cases x)
    case (DqPush v)
    show ?thesis
    proof (cases "is_full q")
      case True
      then show ?thesis using i full assms by (simp add: c DqPush rt_data_queue_push_def dq_push_try_def abs)
    next
      case False
      from dq_store_ok [OF i(1) False i(2,3), of v] show ?thesis
        using False full i by (auto simp: c DqPush rt_data_queue_push_def dq_push_try_def abs)
    qed
  next
    case DqPop
    show ?thesis
    proof (cases "is_empty q")
      case True
      then show ?thesis using i dq_contents_empty [OF i(1)] assms
        by (simp add: c DqPop rt_data_queue_pop_def dq_pop_try_def abs)
    next
      case False
      then obtain v xs where q: "dq_contents q = v # xs" using dq_contents_empty [OF i(1)] by (cases "dq_contents q") auto
      have n: "length xs = dq_count q - 1" using dq_contents_length [of q] q by simp
      from dq_fetch_ok [OF i(1) False i(2,3)] show ?thesis
        using False q i n by (auto simp: c DqPop rt_data_queue_pop_def dq_pop_try_def abs split: if_splits)
    qed
  next
    case DqPeek
    show ?thesis
    proof (cases "is_empty q")
      case True
      then show ?thesis using i dq_contents_empty [OF i(1)] assms by (simp add: c DqPeek rt_data_queue_peek_def abs)
    next
      case False
      then show ?thesis using i dq_take_ok(1,3) [OF i(1) False] assms by (simp add: c DqPeek rt_data_queue_peek_def abs mem_get_Some)
    qed
  next
    case DqLen
    obtain n where n: "rt_data_queue_len q = Some n" "unat n = dq_count q" using dq_len_ok [OF i(1)] by blast
    have "uint n = int (dq_count q)" using n(2) by (metis uint_nat)
    then show ?thesis using n DqLen assms by (simp add: c abs dq_contents_length)
  qed
qed

interpretation dataqueue: data_refinement dq_step dq_spec dq_inv dq_abs "\<lambda>_. True"
  by unfold_locales (rule dq_step_simulates)

lemma dq_init_ok:
  assumes "ready_inv k" and "running k" and "tlists k (SuspHead i) = []" and "tlists k (SenderHead i) = []"
    and "0 < n" and "unat n \<le> 2 ^ 15" and "length mem = unat n"
  shows "\<exists>q. rt_data_queue_init i n low notify (Some mem) k = Some (RT_EOK, q, k) \<and> dq_inv (q, k) \<and>
    dq_abs (q, k) = \<lparr>dqs_bound = unat n, dqs_low = unat low, dqs_notify = notify, dqs_items = [], dqs_poppers = [],
      dqs_pushers = [], dqs_runnable = {t. runnable k t}\<rparr>"
proof -
  let ?q = "\<lparr>dq_id = i, dq_magic = DATAQUEUE_MAGIC, dq_size = n, lwm = low, get_index = 0, put_index = 0,
      is_empty = True, is_full = False, dq_items = mem, evt_notify = notify\<rparr>"
  have "rt_data_queue_init i n low notify (Some mem) k = Some (RT_EOK, ?q, k)"
    using assms(5) ipc_object_init_ready [OF assms(1,3)] ipc_object_init_ready [OF assms(1,4)]
    by (simp add: rt_data_queue_init_def Let_def)
  moreover have c: "dq_count ?q = 0" by (simp add: dq_count_def)
  moreover have "dq_inv (?q, k)" using assms(1,2,5-7) c by (simp add: dq_inv_def dq_wf_def word_less_nat_alt)
  ultimately show ?thesis using assms(3,4) by (intro exI [of _ ?q]) (simp add: dq_abs_def dq_contents_def)
qed

section \<open>Properties\<close>

text \<open>
  Property C32. A data queue is a bounded queue. From any well-formed queue, with any threads waiting to pop
  and to push, every sequence of pushes, pops, peeks and length queries (without waiting) returns the
  results and events of a bounded first-in first-out queue; a push wakes the first thread that waits to
  pop, a pop that leaves no more items than the low water mark wakes the first thread that waits to push,
  and no other thread becomes runnable; the queue stays within its memory although the indices have 15
  bits, and the scheduler invariant is kept. \<^verbatim>\<open>rt_data_queue_init\<close> gives an empty well-formed queue for sizes
  from 1 to 32768.
\<close>

theorem data_queue_refines_queue:
  assumes "ready_inv k" and "running k"
  shows "(dq_wf q \<longrightarrow> (\<exists>outs c. run_impl dq_step (q, k) ops = Some (outs, c) \<and> dq_inv c \<and>
      run_spec dq_spec (dq_abs (q, k)) ops = (outs, dq_abs c))) \<and>
    (tlists k (SuspHead i) = [] \<and> tlists k (SenderHead i) = [] \<and> 0 < n \<and> unat n \<le> 2 ^ 15 \<and> length mem = unat n \<longrightarrow>
      (\<exists>q0. rt_data_queue_init i n low notify (Some mem) k = Some (RT_EOK, q0, k) \<and> dq_wf q0 \<and>
        dq_abs (q0, k) = \<lparr>dqs_bound = unat n, dqs_low = unat low, dqs_notify = notify, dqs_items = [], dqs_poppers = [],
          dqs_pushers = [], dqs_runnable = {t. runnable k t}\<rparr>))"
proof
  show "dq_wf q \<longrightarrow> (\<exists>outs c. run_impl dq_step (q, k) ops = Some (outs, c) \<and> dq_inv c \<and>
      run_spec dq_spec (dq_abs (q, k)) ops = (outs, dq_abs c))"
    using dataqueue.run_refines [of "(q, k)" ops] assms by (simp add: dq_inv_def list_all_iff)
qed (use dq_init_ok [OF assms, of i n mem low notify] in \<open>auto simp: dq_inv_def\<close>)

theorem data_queue_refines_queue_witness:
  "\<exists>c. run_impl dq_step (\<lparr>dq_id = 0, dq_magic = DATAQUEUE_MAGIC, dq_size = 2, lwm = 0, get_index = 1, put_index = 1,
      is_empty = True, is_full = False, dq_items = [\<lparr>data_ptr = 0, data_size = 0\<rparr>, \<lparr>data_ptr = 0, data_size = 0\<rparr>], evt_notify = True\<rparr>,
      sample_kernel)
      [DqPush \<lparr>data_ptr = 1, data_size = 8\<rparr>, DqPush \<lparr>data_ptr = 2, data_size = 9\<rparr>, DqLen, DqPush \<lparr>data_ptr = 3, data_size = 9\<rparr>, DqPop, DqPop, DqPop] =
      Some ([(Returned RT_EOK, None, []), (Returned RT_EOK, None, [RT_DATAQUEUE_EVENT_PUSH]), (Returned 2, None, []),
        (Returned (- RT_ETIMEOUT), None, []), (Returned RT_EOK, Some \<lparr>data_ptr = 1, data_size = 8\<rparr>, [RT_DATAQUEUE_EVENT_POP]),
        (Returned RT_EOK, Some \<lparr>data_ptr = 2, data_size = 9\<rparr>, [RT_DATAQUEUE_EVENT_LWM]), (Returned (- RT_ETIMEOUT), None, [])], c) \<and>
    runnable (snd c) 5 \<and> tlists sample_kernel (SuspHead 0) = [5]"
proof -
  let ?q = "\<lparr>dq_id = 0, dq_magic = DATAQUEUE_MAGIC, dq_size = 2, lwm = 0, get_index = 1, put_index = 1,
      is_empty = True, is_full = False, dq_items = [\<lparr>data_ptr = 0, data_size = 0\<rparr>, \<lparr>data_ptr = 0, data_size = 0\<rparr>], evt_notify = True\<rparr>"
  let ?ops = "[DqPush \<lparr>data_ptr = 1, data_size = 8\<rparr>, DqPush \<lparr>data_ptr = 2, data_size = 9\<rparr>, DqLen,
      DqPush \<lparr>data_ptr = 3, data_size = 9\<rparr>, DqPop, DqPop, DqPop]"
  have wf: "dq_wf ?q" by (simp add: dq_wf_def dq_count_def)
  have w: "tlists sample_kernel (SuspHead 0) = [5]" "tlists sample_kernel (SenderHead 0) = []" by (simp_all add: sample_kernel_def)
  have abs: "dq_abs (?q, sample_kernel) = \<lparr>dqs_bound = 2, dqs_low = 0, dqs_notify = True, dqs_items = [], dqs_poppers = [5],
      dqs_pushers = [], dqs_runnable = {t. runnable sample_kernel t}\<rparr>"
    using w by (simp add: dq_abs_def dq_contents_def dq_count_def)
  obtain outs c where c: "run_impl dq_step (?q, sample_kernel) ?ops = Some (outs, c)"
      "run_spec dq_spec (dq_abs (?q, sample_kernel)) ?ops = (outs, dq_abs c)"
    using data_queue_refines_queue [OF sample_ready_inv sample_running, of ?q ?ops] wf by blast
  have s: "run_spec dq_spec (dq_abs (?q, sample_kernel)) ?ops =
      ([(Returned RT_EOK, None, []), (Returned RT_EOK, None, [RT_DATAQUEUE_EVENT_PUSH]), (Returned 2, None, []),
        (Returned (- RT_ETIMEOUT), None, []), (Returned RT_EOK, Some \<lparr>data_ptr = 1, data_size = 8\<rparr>, [RT_DATAQUEUE_EVENT_POP]),
        (Returned RT_EOK, Some \<lparr>data_ptr = 2, data_size = 9\<rparr>, [RT_DATAQUEUE_EVENT_LWM]), (Returned (- RT_ETIMEOUT), None, [])],
       \<lparr>dqs_bound = 2, dqs_low = 0, dqs_notify = True, dqs_items = [], dqs_poppers = [], dqs_pushers = [],
        dqs_runnable = insert 5 {t. runnable sample_kernel t}\<rparr>)"
    unfolding abs by (simp add: wake_popper_def wake_pusher_def report_def)
  have "dqs_runnable (dq_abs c) = insert 5 {t. runnable sample_kernel t}" using c(2) s by simp
  then have "runnable (snd c) 5" by (cases c) (auto simp: dq_abs_def)
  then show ?thesis using c s w(1) by auto
qed

text \<open>
  A producer that finds the queue full is suspended at the end of the list of producers. A pop
  makes room, but wakes the first producer only when the number of items left is at most the low water mark;
  otherwise it changes nothing in the kernel and the producers stay blocked beside a queue that is not full.
\<close>

theorem data_queue_producer_waits:
  assumes "dq_wf q" and "is_full q" and "ready_inv k" and "caller k t" and "timeout \<noteq> 0" and "timeout < 2 ^ 31 - 1"
  shows "\<exists>k'. rt_data_queue_push q x timeout k = Some (Blocked t, [], q, k') \<and> ready_inv k' \<and>
    thread_state k' t = RT_THREAD_SUSPEND \<and> tlists k' (dq_pushers q) = tlists k (dq_pushers q) @ [t] \<and>
    (\<forall>k'' u us. ready_inv k'' \<longrightarrow> running k'' \<longrightarrow> tlists k'' (dq_pushers q) = u # us \<longrightarrow>
      (\<exists>ev q' k3. rt_data_queue_pop q 0 k'' = Some (Returned RT_EOK, Some (hd (dq_contents q)), ev, q', k3) \<and> \<not> is_full q' \<and>
        (if unat (dq_size q) - 1 \<le> unat (lwm q) then runnable k3 u else k3 = k'')))"
proof -
  have m: "dq_magic q = DATAQUEUE_MAGIC" "\<not> is_empty q" "dq_count q = unat (dq_size q)"
    using assms(1,2) by (auto simp: dq_wf_def word_less_nat_alt)
  obtain k' where k': "ipc_wait (dq_pushers q) t RT_IPC_FLAG_FIFO timeout (upd_thread t (\<lambda>th. th\<lparr>error := RT_EOK\<rparr>) k) = Some k'"
    "ready_inv k'" "thread_state k' t = RT_THREAD_SUSPEND"
    "tlists k' (dq_pushers q) = enqueued RT_IPC_FLAG_FIFO k t (tlists k (dq_pushers q))"
    using ipc_wait_reset_ok [OF assms(3,4) _ _ assms(6), of "dq_pushers q" RT_IPC_FLAG_FIFO] by auto
  have "rt_data_queue_push q x timeout k = Some (Blocked t, [], q, k')"
    using caller_available [OF assms(4)] assms(2,5) k'(1) m(1) by (simp add: rt_data_queue_push_def dq_push_try_def)
  moreover have "\<exists>ev q' k3. rt_data_queue_pop q 0 k'' = Some (Returned RT_EOK, Some (hd (dq_contents q)), ev, q', k3) \<and> \<not> is_full q' \<and>
      (if unat (dq_size q) - 1 \<le> unat (lwm q) then runnable k3 u else k3 = k'')"
    if "ready_inv k''" "running k''" "tlists k'' (dq_pushers q) = u # us" for k'' u us
  proof -
    note k2 = that
    obtain ev q' k3 where f: "dq_fetch q k'' = Some (Returned RT_EOK, Some (hd (dq_contents q)), ev, q', k3)" "\<not> is_full q'"
      "if dq_count q - 1 \<le> unat (lwm q) then dq_abs (q', k3) = wake_pusher ((dq_abs (q, k''))\<lparr>dqs_items := tl (dq_contents q)\<rparr>)
       else k3 = k''" using dq_fetch_ok [OF assms(1) m(2) k2(1,2)] by (auto split: if_splits)
    have "runnable k3 u" if "dq_abs (q', k3) = wake_pusher ((dq_abs (q, k''))\<lparr>dqs_items := tl (dq_contents q)\<rparr>)"
      using arg_cong [OF that, of dqs_runnable] \<open>tlists k'' (dq_pushers q) = u # us\<close> by (auto simp: dq_abs_def wake_pusher_def)
    then show ?thesis using f m by (auto simp: rt_data_queue_pop_def dq_pop_try_def split: if_splits)
  qed
  moreover have "tlists k' (dq_pushers q) = tlists k (dq_pushers q) @ [t]"
    using k'(4) by (simp add: enqueued_def RT_IPC_FLAG_FIFO_def RT_IPC_FLAG_PRIO_def)
  ultimately show ?thesis using k'(2,3) by blast
qed

theorem data_queue_producer_waits_witness:
  "\<exists>k'. rt_data_queue_push \<lparr>dq_id = 7, dq_magic = DATAQUEUE_MAGIC, dq_size = 1, lwm = 0, get_index = 0, put_index = 0,
      is_empty = False, is_full = True, dq_items = [\<lparr>data_ptr = 1, data_size = 8\<rparr>], evt_notify = False\<rparr>
      \<lparr>data_ptr = 2, data_size = 9\<rparr> (- 1) sample_kernel = Some (Blocked 0, [], \<lparr>dq_id = 7, dq_magic = DATAQUEUE_MAGIC, dq_size = 1,
        lwm = 0, get_index = 0, put_index = 0, is_empty = False, is_full = True, dq_items = [\<lparr>data_ptr = 1, data_size = 8\<rparr>],
        evt_notify = False\<rparr>, k') \<and> thread_state k' 0 = RT_THREAD_SUSPEND"
proof -
  let ?q = "\<lparr>dq_id = 7, dq_magic = DATAQUEUE_MAGIC, dq_size = 1, lwm = 0, get_index = 0, put_index = 0,
      is_empty = False, is_full = True, dq_items = [\<lparr>data_ptr = 1, data_size = 8\<rparr>], evt_notify = False\<rparr>"
  have "dq_wf ?q" "is_full ?q" by (simp_all add: dq_wf_def dq_count_def)
  from data_queue_producer_waits [OF this sample_ready_inv sample_caller, of "- 1"] show ?thesis by fastforce
qed

end
