(* ===== verification/Completion.thy ===== *)
theory Completion
  imports Ipc
begin

text \<open>
  Completions (\<^verbatim>\<open>components/drivers/ipc/completion.c\<close>): a flag for which at most one thread waits. The theorem shows
  that a completion before or during the wait is seen, exactly once, and that one that falls between the
  timeout of the wait and the moment the thread runs again is lost.
\<close>

section \<open>Operations\<close>

definition RT_COMPLETED :: nat where "RT_COMPLETED = 1"
definition RT_UNCOMPLETED :: nat where "RT_UNCOMPLETED = 0"

record rt_completion =
  comp_id :: nat
  comp_flag :: nat

abbreviation comp_head :: "rt_completion \<Rightarrow> list_head" where "comp_head c \<equiv> SuspHead (comp_id c)"

definition rt_completion_init :: "nat \<Rightarrow> kernel \<Rightarrow> rt_completion \<times> kernel" where
  "rt_completion_init i k = (\<lparr>comp_id = i, comp_flag = RT_UNCOMPLETED\<rparr>, ipc_object_init (SuspHead i) k)"

definition rt_completion_wait :: "rt_completion \<Rightarrow> int \<Rightarrow> kernel \<Rightarrow> (outcome \<times> rt_completion \<times> kernel) option" where
  "rt_completion_wait c timeout k =
     (if timeout \<noteq> 0 \<and> \<not> scheduler_available k then None
      else if comp_flag c \<noteq> RT_COMPLETED then
        if tlists k (comp_head c) \<noteq> [] then None
        else if timeout = 0 then Some (Returned (- RT_ETIMEOUT), c, k)
        else do { t \<leftarrow> rt_thread_self k;
                  k1 \<leftarrow> ipc_wait (comp_head c) t RT_IPC_FLAG_FIFO timeout (upd_thread t (\<lambda>th. th\<lparr>error := RT_EOK\<rparr>) k);
                  Some (Blocked t, c, k1) }
      else Some (Returned RT_EOK, c\<lparr>comp_flag := RT_UNCOMPLETED\<rparr>, k))"

text \<open>The rest of a blocked wait when the thread runs again.\<close>

definition rt_completion_wait_resumed :: "rt_completion \<Rightarrow> tid \<Rightarrow> kernel \<Rightarrow> int \<times> rt_completion" where
  "rt_completion_wait_resumed c t k = (error (threads k t), c\<lparr>comp_flag := RT_UNCOMPLETED\<rparr>)"

definition rt_completion_done :: "rt_completion \<Rightarrow> kernel \<Rightarrow> (rt_completion \<times> kernel) option" where
  "rt_completion_done c k =
     (if comp_flag c = RT_COMPLETED then Some (c, k)
      else let c1 = c\<lparr>comp_flag := RT_COMPLETED\<rparr> in
        if tlists k (comp_head c1) \<noteq> [] then
          do { k1 \<leftarrow> ipc_list_resume (comp_head c1) k; k2 \<leftarrow> rt_schedule k1; Some (c1, k2) }
        else Some (c1, k))"

section \<open>Properties\<close>

text \<open>
  A later state \<open>k2\<close> of a system in which thread \<open>t\<close> blocked on the completion in state \<open>k1\<close>: it still waits,
  nobody has written its error code, and some other thread runs.
\<close>

definition still_waits :: "rt_completion \<Rightarrow> tid \<Rightarrow> kernel \<Rightarrow> kernel \<Rightarrow> bool" where
  "still_waits c t k1 k2 \<longleftrightarrow> ready_inv k2 \<and> running k2 \<and> tlists k2 (comp_head c) = [t] \<and>
     error (threads k2 t) = error (threads k1 t)"

lemma completion_done_wakes:
  assumes "comp_flag c = RT_UNCOMPLETED" and "still_waits c t k1 k2" and "error (threads k1 t) = RT_EOK"
  shows "\<exists>c3 k3. rt_completion_done c k2 = Some (c3, k3) \<and> runnable k3 t \<and> tlists k3 (comp_head c) = [] \<and>
    rt_completion_wait_resumed c3 t k3 = (RT_EOK, c)"
proof -
  have k2: "ready_inv k2" "running k2" "tlists k2 (comp_head c) = [t]" "error (threads k2 t) = RT_EOK"
    using assms(2,3) by (simp_all add: still_waits_def)
  obtain k' k3 where k3: "ipc_list_resume (comp_head c) k2 = Some k'" "rt_schedule k' = Some k3" "runnable k3 t"
    "tlists k3 (comp_head c) = []" "same_threads k2 k3" using wake_first_ok [OF k2(1,2) _ k2(3)] by auto
  let ?c = "c\<lparr>comp_flag := RT_COMPLETED\<rparr>"
  have "rt_completion_done c k2 = Some (?c, k3)"
    using k3 assms(1) k2(3) by (simp add: rt_completion_done_def Let_def RT_COMPLETED_def RT_UNCOMPLETED_def)
  moreover have "rt_completion_wait_resumed ?c t k3 = (RT_EOK, c)"
    using k3(5) k2(4) assms(1) by (simp add: rt_completion_wait_resumed_def same_threads_def)
  ultimately show ?thesis using k3 by blast
qed

lemma completion_timeout_loses:
  assumes "comp_flag c = RT_UNCOMPLETED" and "still_waits c t k1 k2"
  shows "\<exists>k3 c3. thread_timeout t k2 = Some k3 \<and> runnable k3 t \<and> rt_completion_done c k3 = Some (c3, k3) \<and>
    rt_completion_wait_resumed c3 t k3 = (- RT_ETIMEOUT, c) \<and> rt_completion_wait_resumed c t k3 = (- RT_ETIMEOUT, c) \<and>
    rt_completion_wait c 0 k3 = Some (Returned (- RT_ETIMEOUT), c, k3)"
proof -
  have k2: "ready_inv k2" "rt_current_thread k2 \<noteq> None" "tlists k2 (comp_head c) = [t]"
    using assms(2) by (auto simp: still_waits_def running_def)
  have "thread_state k2 t = RT_THREAD_SUSPEND" using waiting_suspended [OF k2(1), of "comp_head c" t] k2(3) by simp
  then obtain k3 where k3: "thread_timeout t k2 = Some k3" "error (threads k3 t) = - RT_ETIMEOUT" "runnable k3 t"
    using thread_timeout_ok [OF k2(1) _ k2(2)] by (auto simp: runnable_def)
  have "tlists k3 (comp_head c) = []"
    using thread_timeout_waits [OF k2(1) _ _ k3(1), of "comp_head c" "comp_head c"] k2(3) by simp
  then show ?thesis using k3 assms(1)
    by (simp add: rt_completion_done_def rt_completion_wait_resumed_def rt_completion_wait_def Let_def RT_COMPLETED_def RT_UNCOMPLETED_def)
qed

text \<open>
  Property C33. The contract of a completion that is not completed and has no waiter. Before: after
  \<^verbatim>\<open>rt_completion_done\<close> a wait returns success at once, and only one wait does. During: a wait blocks the
  caller as the only waiter, with its error code reset whatever it was before; when \<^verbatim>\<open>rt_completion_done\<close>
  comes while it still waits and nobody else has written its error code, it becomes runnable and returns
  success, with the flag cleared. After a timeout: when \<^verbatim>\<open>_thread_timeout\<close> ends the wait and the completion
  comes before the thread runs, the thread reports the timeout and clears the flag; the completion is lost,
  and the next wait does not see it.
\<close>

theorem completion_contract:
  assumes "ready_inv k" and "caller k t" and "timeout \<noteq> 0" and "timeout < 2 ^ 31 - 1" and "comp_flag c = RT_UNCOMPLETED"
    and "tlists k (comp_head c) = []"
  shows "(\<exists>c1. rt_completion_done c k = Some (c1, k) \<and>
      rt_completion_wait c1 timeout k = Some (Returned RT_EOK, c, k)) \<and>
    (\<exists>k1. rt_completion_wait c timeout k = Some (Blocked t, c, k1) \<and> ready_inv k1 \<and>
      tlists k1 (comp_head c) = [t] \<and> thread_state k1 t = RT_THREAD_SUSPEND \<and>
      ((\<exists>u. u \<noteq> t \<and> thread_state k u = RT_THREAD_READY) \<longrightarrow> still_waits c t k1 k1) \<and>
      (\<forall>k2. still_waits c t k1 k2 \<longrightarrow>
        (\<exists>c3 k3. rt_completion_done c k2 = Some (c3, k3) \<and> runnable k3 t \<and> tlists k3 (comp_head c) = [] \<and>
          rt_completion_wait_resumed c3 t k3 = (RT_EOK, c)) \<and>
        (\<exists>k3 c3. thread_timeout t k2 = Some k3 \<and> runnable k3 t \<and> rt_completion_done c k3 = Some (c3, k3) \<and>
          rt_completion_wait_resumed c3 t k3 = (- RT_ETIMEOUT, c) \<and> rt_completion_wait_resumed c t k3 = (- RT_ETIMEOUT, c) \<and>
          rt_completion_wait c 0 k3 = Some (Returned (- RT_ETIMEOUT), c, k3))))"
proof -
  have c: "c\<lparr>comp_flag := RT_UNCOMPLETED\<rparr> = c" using assms(5) by simp
  have f: "comp_flag c \<noteq> RT_COMPLETED" using assms(5) by (simp add: RT_COMPLETED_def RT_UNCOMPLETED_def)
  let ?c = "c\<lparr>comp_flag := RT_COMPLETED\<rparr>" and ?k0 = "upd_thread t (\<lambda>th. th\<lparr>error := RT_EOK\<rparr>) k"
  have before: "rt_completion_done c k = Some (?c, k)" "rt_completion_wait ?c timeout k = Some (Returned RT_EOK, c, k)"
    using f assms(6) caller_available [OF assms(2)] c by (simp_all add: rt_completion_done_def rt_completion_wait_def Let_def)
  obtain k1 where k1: "ipc_wait (comp_head c) t RT_IPC_FLAG_FIFO timeout ?k0 = Some k1" "ready_inv k1"
    "thread_state k1 t = RT_THREAD_SUSPEND" "tlists k1 (comp_head c) = enqueued RT_IPC_FLAG_FIFO k t []" "error (threads k1 t) = RT_EOK"
    using ipc_wait_reset_ok [OF assms(1,2) _ _ assms(4), of "comp_head c" RT_IPC_FLAG_FIFO] assms(6) by auto
  have q: "tlists k1 (comp_head c) = [t]" using k1(4) by (simp add: enqueued_def)
  have wait: "rt_completion_wait c timeout k = Some (Blocked t, c, k1)"
    using k1(1) f assms(3,6) caller_available [OF assms(2)] by (simp add: rt_completion_wait_def)
  have "running k1" if "u \<noteq> t" "thread_state k u = RT_THREAD_READY" for u
    using ipc_wait_reset_ok [OF assms(1,2) _ _ assms(4), of "comp_head c" RT_IPC_FLAG_FIFO] k1(1) that by auto
  then have self: "(\<exists>u. u \<noteq> t \<and> thread_state k u = RT_THREAD_READY) \<longrightarrow> still_waits c t k1 k1"
    using k1(2) q by (auto simp: still_waits_def)
  show ?thesis
  proof
    show "\<exists>c1. rt_completion_done c k = Some (c1, k) \<and> rt_completion_wait c1 timeout k = Some (Returned RT_EOK, c, k)"
      using before by blast
  qed (use wait k1(2,3) q self completion_done_wakes [OF assms(5) _ k1(5)] completion_timeout_loses [OF assms(5), of t k1] in blast)
qed

theorem completion_contract_witness:
  "\<exists>k1 c3 k3. rt_completion_wait \<lparr>comp_id = 7, comp_flag = RT_UNCOMPLETED\<rparr> 100 sample_kernel =
      Some (Blocked 0, \<lparr>comp_id = 7, comp_flag = RT_UNCOMPLETED\<rparr>, k1) \<and> tlists k1 (SuspHead 7) = [0] \<and>
    rt_completion_done \<lparr>comp_id = 7, comp_flag = RT_UNCOMPLETED\<rparr> k1 = Some (c3, k3) \<and> runnable k3 0 \<and>
    rt_completion_wait_resumed c3 0 k3 = (RT_EOK, \<lparr>comp_id = 7, comp_flag = RT_UNCOMPLETED\<rparr>)"
proof -
  let ?c = "\<lparr>comp_id = 7, comp_flag = RT_UNCOMPLETED\<rparr>"
  have c: "(100 :: int) \<noteq> 0" "(100 :: int) < 2 ^ 31 - 1" "comp_flag ?c = RT_UNCOMPLETED" "tlists sample_kernel (comp_head ?c) = []"
    by (simp_all add: sample_kernel_def)
  have u: "\<exists>u. u \<noteq> 0 \<and> thread_state sample_kernel u = RT_THREAD_READY"
    by (intro exI [of _ 1]) (simp add: sample_states)
  obtain k1 where k1: "rt_completion_wait ?c 100 sample_kernel = Some (Blocked 0, ?c, k1)" "tlists k1 (comp_head ?c) = [0]"
    "still_waits ?c 0 k1 k1" "\<And>k2. still_waits ?c 0 k1 k2 \<Longrightarrow>
        \<exists>c3 k3. rt_completion_done ?c k2 = Some (c3, k3) \<and> runnable k3 0 \<and> rt_completion_wait_resumed c3 0 k3 = (RT_EOK, ?c)"
    using completion_contract [OF sample_ready_inv sample_caller c] u by blast
  from k1(4) [OF k1(3)] k1(1,2) show ?thesis by auto
qed

end
