(* ===== verification/WorkQueue.thy ===== *)
theory WorkQueue
  imports Semaphore
begin

unbundle bit_operations_syntax

text \<open>
  Work queues (\<^verbatim>\<open>components/drivers/ipc/workqueue.c\<close>): a thread executes the work items of a queue one after the
  other; an item may be submitted with a delay, during which a soft timer runs. The work functions are not part of the model:
  the loop of the thread is split where it calls one. The theorems show that over all interleavings no
  wake-up of the thread is lost and no timer finds an item without a queue, provided that no item is
  submitted at once while its delay runs, nor submitted or cancelled while another submission of it is about to start the timer; that without these provisos
  the timeout or the submission stops in an assertion; and that the end of an item wakes everybody who waits for it.
\<close>

section \<open>State\<close>

definition RT_WORK_STATE_PENDING :: u16 where "RT_WORK_STATE_PENDING = 1"
definition RT_WORK_STATE_SUBMITTING :: u16 where "RT_WORK_STATE_SUBMITTING = 2"

text \<open>
  Queues and work items are named by identifiers. The timer of item \<open>w\<close> is \<open>UserTimer w\<close>. The node of an item
  is in at most one list, from which \<^verbatim>\<open>rt_list_remove\<close> takes it. \<open>timer_object\<close> tells whether the timer of the item is
  an object of the class of timers: \<^verbatim>\<open>rt_timer_init\<close> makes it one, \<^verbatim>\<open>rt_timer_detach\<close> clears its type, and
  the operations on timers assert it.
\<close>

type_synonym wid = nat

record rt_work =
  work_flags :: u16
  workqueue :: "nat option"
  timer_object :: bool

record rt_workqueue =
  work_list :: "wid list"
  delayed_list :: "wid list"
  work_current :: "wid option"
  wq_sem :: rt_semaphore
  work_thread :: tid

record workqueues =
  works :: "wid \<Rightarrow> rt_work"
  wqueues :: "nat \<Rightarrow> rt_workqueue"
  sys_workq :: "nat option"

definition upd_work :: "wid \<Rightarrow> (rt_work \<Rightarrow> rt_work) \<Rightarrow> workqueues \<Rightarrow> workqueues" where
  "upd_work w f s = s\<lparr>works := (works s)(w := f (works s w))\<rparr>"

definition upd_queue :: "nat \<Rightarrow> (rt_workqueue \<Rightarrow> rt_workqueue) \<Rightarrow> workqueues \<Rightarrow> workqueues" where
  "upd_queue q f s = s\<lparr>wqueues := (wqueues s)(q := f (wqueues s q))\<rparr>"

definition work_unlink :: "wid \<Rightarrow> workqueues \<Rightarrow> workqueues" where
  "work_unlink w s = s\<lparr>wqueues := \<lambda>q. (wqueues s q)\<lparr>work_list := removeAll w (work_list (wqueues s q)),
     delayed_list := removeAll w (delayed_list (wqueues s q))\<rparr>\<rparr>"

definition clear_flag :: "u16 \<Rightarrow> rt_work \<Rightarrow> rt_work" where
  "clear_flag m x = x\<lparr>work_flags := work_flags x AND NOT m\<rparr>"

definition set_flag :: "u16 \<Rightarrow> rt_work \<Rightarrow> rt_work" where
  "set_flag m x = x\<lparr>work_flags := work_flags x OR m\<rparr>"

section \<open>Operations\<close>

definition rt_work_init :: "wid \<Rightarrow> workqueues \<Rightarrow> workqueues" where
  "rt_work_init w s = upd_work w (\<lambda>x. x\<lparr>work_flags := 0, workqueue := None\<rparr>) s"

text \<open>The test whether the thread of the queue has to be resumed, common to all submissions.\<close>

definition wake_worker :: "nat \<Rightarrow> workqueues \<Rightarrow> kernel \<Rightarrow> kernel option" where
  "wake_worker q s k =
     (let Q = wqueues s q
      in if work_current Q = None \<and> thread_state k (work_thread Q) = RT_THREAD_SUSPEND
         then rt_schedule (snd (rt_thread_resume (work_thread Q) k)) else Some k)"

text \<open>
  A submission with a delay: the part with interrupts disabled, and the call of \<^verbatim>\<open>rt_timer_start\<close> after they are
  enabled again, which asserts that the timer still is a timer.
\<close>

definition submit_delayed_masked :: "nat \<Rightarrow> wid \<Rightarrow> u32 \<Rightarrow> workqueues \<Rightarrow> kernel \<Rightarrow> (workqueues \<times> kernel) option" where
  "submit_delayed_masked q w ticks s k =
     do { let s1 = upd_work w (clear_flag RT_WORK_STATE_PENDING) (work_unlink w s);
          (s2, k2) \<leftarrow>
            (if work_flags (works s1 w) AND RT_WORK_STATE_SUBMITTING \<noteq> 0 then
               if \<not> timer_object (works s1 w) then None
               else do { (_, k1) \<leftarrow> rt_timer_control (UserTimer w) TIMER_SET_TIME ticks (snd (rt_timer_stop (UserTimer w) k));
                         Some (s1, k1) }
             else do { k1 \<leftarrow> rt_timer_init (UserTimer w) ticks RT_TIMER_FLAG_SOFT_TIMER k;
                       Some (upd_work w (\<lambda>x. (set_flag RT_WORK_STATE_SUBMITTING x)\<lparr>timer_object := True\<rparr>) s1, k1) });
          let s3 = upd_work w (\<lambda>x. x\<lparr>workqueue := Some q\<rparr>) s2;
          Some (upd_queue q (\<lambda>Q. Q\<lparr>delayed_list := delayed_list Q @ [w]\<rparr>) s3, k2) }"

definition submit_delayed_start :: "wid \<Rightarrow> workqueues \<Rightarrow> kernel \<Rightarrow> kernel option" where
  "submit_delayed_start w s k = (if timer_object (works s w) then rt_timer_start (UserTimer w) k else None)"

definition workqueue_submit_work :: "nat \<Rightarrow> wid \<Rightarrow> u32 \<Rightarrow> workqueues \<Rightarrow> kernel \<Rightarrow> (int \<times> workqueues \<times> kernel) option" where
  "workqueue_submit_work q w ticks s k =
     (let s1 = upd_work w (clear_flag RT_WORK_STATE_PENDING) (work_unlink w s)
      in if ticks = 0 then
           (if work_current (wqueues s1 q) \<noteq> Some w then
              let s2 = upd_queue q (\<lambda>Q. Q\<lparr>work_list := work_list Q @ [w]\<rparr>) s1;
                  s3 = upd_work w (\<lambda>x. (set_flag RT_WORK_STATE_PENDING x)\<lparr>workqueue := Some q\<rparr>) s2
              in do { k1 \<leftarrow> wake_worker q s3 k; Some (RT_EOK, s3, k1) }
            else do { k1 \<leftarrow> wake_worker q s1 k; Some (- RT_EBUSY, s1, k1) })
         else if ticks < RT_TICK_MAX div 2 then
           do { (s2, k2) \<leftarrow> submit_delayed_masked q w ticks s k;
                k3 \<leftarrow> submit_delayed_start w s2 k2;
                Some (RT_EOK, s2, k3) }
         else Some (- RT_ERROR, s1, k))"

definition workqueue_cancel_work :: "nat \<Rightarrow> wid \<Rightarrow> workqueues \<Rightarrow> kernel \<Rightarrow> int \<times> workqueues \<times> kernel" where
  "workqueue_cancel_work q w s k =
     (let s1 = upd_work w (clear_flag RT_WORK_STATE_PENDING) (work_unlink w s);
          submitting = (work_flags (works s1 w) AND RT_WORK_STATE_SUBMITTING \<noteq> 0);
          k1 = (if submitting then rt_timer_detach (UserTimer w) (snd (rt_timer_stop (UserTimer w) k)) else k);
          s2 = (if submitting then upd_work w (\<lambda>x. (clear_flag RT_WORK_STATE_SUBMITTING x)\<lparr>timer_object := False\<rparr>) s1 else s1);
          err = (if work_current (wqueues s2 q) \<noteq> Some w then RT_EOK else - RT_EBUSY)
      in (err, upd_work w (\<lambda>x. x\<lparr>workqueue := None\<rparr>) s2, k1))"

definition delayed_work_timeout_handler :: "wid \<Rightarrow> workqueues \<Rightarrow> kernel \<Rightarrow> (workqueues \<times> kernel) option" where
  "delayed_work_timeout_handler w s k =
     (case workqueue (works s w) of
        None \<Rightarrow> None
      | Some q \<Rightarrow>
          let k1 = rt_timer_detach (UserTimer w) k;
              s1 = work_unlink w (upd_work w (\<lambda>x. (clear_flag RT_WORK_STATE_SUBMITTING x)\<lparr>timer_object := False\<rparr>) s);
              s2 = (if work_current (wqueues s1 q) \<noteq> Some w
                    then upd_work w (set_flag RT_WORK_STATE_PENDING) (upd_queue q (\<lambda>Q. Q\<lparr>work_list := work_list Q @ [w]\<rparr>) s1)
                    else s1)
          in do { k2 \<leftarrow> wake_worker q s2 k1; Some (s2, k2) })"

text \<open>The loop of \<^verbatim>\<open>_workqueue_work_completion\<close>.\<close>

partial_function (option) completion_loop :: "rt_semaphore \<Rightarrow> kernel \<Rightarrow> (int \<times> rt_semaphore \<times> kernel) option" where
  "completion_loop sem k =
     do { (r, sem1, k1) \<leftarrow> rt_sem_trytake sem k;
          if r = Returned (- RT_ETIMEOUT)
          then do { (_, sem2, k2) \<leftarrow> rt_sem_release sem1 k1; completion_loop sem2 k2 }
          else if r = Returned RT_EOK then Some (RT_EOK, sem1, k1)
          else Some (- RT_ERROR, sem1, k1) }"

definition workqueue_work_completion :: "nat \<Rightarrow> workqueues \<Rightarrow> kernel \<Rightarrow> (int \<times> workqueues \<times> kernel) option" where
  "workqueue_work_completion q s k =
     do { (r, sem, k1) \<leftarrow> completion_loop (wq_sem (wqueues s q)) (rt_enter_critical k);
          k2 \<leftarrow> rt_exit_critical k1;
          Some (r, upd_queue q (\<lambda>Q. Q\<lparr>wq_sem := sem\<rparr>) s, k2) }"

text \<open>
  The body of the loop of \<^verbatim>\<open>_workqueue_thread_entry\<close> up to the call of the work function, with the item to
  be executed (\<open>None\<close> when the thread suspended itself), and what follows the call.
\<close>

definition workqueue_thread_fetch :: "nat \<Rightarrow> workqueues \<Rightarrow> kernel \<Rightarrow> (wid option \<times> workqueues \<times> kernel) option" where
  "workqueue_thread_fetch q s k =
     (case work_list (wqueues s q) of
        [] \<Rightarrow> do { t \<leftarrow> rt_thread_self k; (_, k1) \<leftarrow> rt_thread_suspend t k; k2 \<leftarrow> rt_schedule k1; Some (None, s, k2) }
      | w # _ \<Rightarrow> Some (Some w,
          upd_work w (\<lambda>x. (clear_flag RT_WORK_STATE_PENDING x)\<lparr>workqueue := None\<rparr>)
            (upd_queue q (\<lambda>Q. Q\<lparr>work_current := Some w\<rparr>) (work_unlink w s)), k))"

definition workqueue_thread_done :: "nat \<Rightarrow> workqueues \<Rightarrow> kernel \<Rightarrow> (workqueues \<times> kernel) option" where
  "workqueue_thread_done q s k =
     do { (_, s1, k1) \<leftarrow> workqueue_work_completion q (upd_queue q (\<lambda>Q. Q\<lparr>work_current := None\<rparr>) s) k; Some (s1, k1) }"

text \<open>
  \<open>mem\<close> and \<open>thread\<close> tell whether the memory for the queue and the thread is available; \<open>q\<close>, \<open>i\<close>, \<open>t\<close> are the identifiers
  of the new queue, its semaphore and its thread.
\<close>

definition rt_workqueue_create ::
  "bool \<Rightarrow> bool \<Rightarrow> nat \<Rightarrow> nat \<Rightarrow> tid \<Rightarrow> nat \<Rightarrow> workqueues \<Rightarrow> kernel \<Rightarrow> (nat option \<times> workqueues \<times> kernel) option" where
  "rt_workqueue_create mem thread q i t priority s k =
     (if \<not> mem then Some (None, s, k)
      else do { (sem, k1) \<leftarrow> rt_sem_init i 0 RT_IPC_FLAG_FIFO k;
                let s1 = upd_queue q (\<lambda>_. \<lparr>work_list = [], delayed_list = [], work_current = None, wq_sem = sem, work_thread = t\<rparr>) s;
                if \<not> thread then Some (None, s, k1)
                else do { k2 \<leftarrow> rt_thread_init t priority 10 k1;
                          (_, k3) \<leftarrow> rt_thread_startup t k2;
                          Some (Some q, s1, k3) } })"

definition rt_workqueue_dowork :: "nat \<Rightarrow> wid \<Rightarrow> workqueues \<Rightarrow> kernel \<Rightarrow> (int \<times> workqueues \<times> kernel) option" where
  "rt_workqueue_dowork q w s k = workqueue_submit_work q w 0 s k"

definition rt_workqueue_submit_work :: "nat \<Rightarrow> wid \<Rightarrow> u32 \<Rightarrow> workqueues \<Rightarrow> kernel \<Rightarrow> (int \<times> workqueues \<times> kernel) option" where
  "rt_workqueue_submit_work q w ticks s k = (if ticks < RT_TICK_MAX div 2 then workqueue_submit_work q w ticks s k else None)"

definition rt_workqueue_urgent_work :: "nat \<Rightarrow> wid \<Rightarrow> workqueues \<Rightarrow> kernel \<Rightarrow> (int \<times> workqueues \<times> kernel) option" where
  "rt_workqueue_urgent_work q w s k =
     (let s1 = upd_queue q (\<lambda>Q. Q\<lparr>work_list := w # work_list Q\<rparr>) (work_unlink w s)
      in do { k1 \<leftarrow> wake_worker q s1 k; Some (RT_EOK, s1, k1) })"

definition rt_workqueue_cancel_work :: "nat \<Rightarrow> wid \<Rightarrow> workqueues \<Rightarrow> kernel \<Rightarrow> int \<times> workqueues \<times> kernel" where
  "rt_workqueue_cancel_work q w s k = workqueue_cancel_work q w s k"

text \<open>A blocked call returns success when its thread runs again, whatever the result of the wait.\<close>

definition rt_workqueue_cancel_work_sync :: "nat \<Rightarrow> wid \<Rightarrow> workqueues \<Rightarrow> kernel \<Rightarrow> (outcome \<times> workqueues \<times> kernel) option" where
  "rt_workqueue_cancel_work_sync q w s k =
     (if work_current (wqueues s q) = Some w then
        do { (r, sem, k1) \<leftarrow> rt_sem_take (wq_sem (wqueues s q)) RT_WAITING_FOREVER k;
             let s1 = upd_queue q (\<lambda>Q. Q\<lparr>wq_sem := sem\<rparr>) s;
             Some (case r of Returned _ \<Rightarrow> Returned RT_EOK | Blocked t \<Rightarrow> Blocked t, s1, k1) }
      else let (_, s1, k1) = workqueue_cancel_work q w s k in Some (Returned RT_EOK, s1, k1))"

text \<open>The two loops of \<^verbatim>\<open>rt_workqueue_cancel_all_work\<close>; each round takes the first item out of the list.\<close>

function cancel_pending :: "nat \<Rightarrow> workqueues \<Rightarrow> kernel \<Rightarrow> workqueues \<times> kernel" where
  "cancel_pending q s k =
     (case work_list (wqueues s q) of
        [] \<Rightarrow> (s, k)
      | w # _ \<Rightarrow> let (_, s1, k1) = workqueue_cancel_work q w s k in cancel_pending q s1 k1)"
  by pat_completeness auto

function cancel_delayed :: "nat \<Rightarrow> workqueues \<Rightarrow> kernel \<Rightarrow> workqueues \<times> kernel" where
  "cancel_delayed q s k =
     (case delayed_list (wqueues s q) of
        [] \<Rightarrow> (s, k)
      | w # _ \<Rightarrow> let (_, s1, k1) = workqueue_cancel_work q w s k in cancel_delayed q s1 k1)"
  by pat_completeness auto

lemma cancel_lists:
  assumes "workqueue_cancel_work q w s k = (r, s1, k1)"
  shows "work_list (wqueues s1 p) = removeAll w (work_list (wqueues s p))"
    and "delayed_list (wqueues s1 p) = removeAll w (delayed_list (wqueues s p))"
  using assms by (auto simp: workqueue_cancel_work_def Let_def upd_work_def work_unlink_def)

termination cancel_pending
proof (relation "measure (\<lambda>(q, s, k). length (work_list (wqueues s q)))", goal_cases)
  case (2 q s k w ws x r y s1 k1)
  then have "work_list (wqueues s1 q) = removeAll w ws" using cancel_lists(1) by (metis prod.inject removeAll.simps(2))
  then show ?case using 2 by (cases y) (simp add: less_Suc_eq_le)
qed simp

termination cancel_delayed
proof (relation "measure (\<lambda>(q, s, k). length (delayed_list (wqueues s q)))", goal_cases)
  case (2 q s k w ws x r y s1 k1)
  then have "delayed_list (wqueues s1 q) = removeAll w ws" using cancel_lists(2) by (metis prod.inject removeAll.simps(2))
  then show ?case using 2 by (cases y) (simp add: less_Suc_eq_le)
qed simp

declare cancel_pending.simps [simp del] cancel_delayed.simps [simp del]

definition rt_workqueue_cancel_all_work :: "nat \<Rightarrow> workqueues \<Rightarrow> kernel \<Rightarrow> (int \<times> workqueues \<times> kernel) option" where
  "rt_workqueue_cancel_all_work q s k =
     (let (s1, k1) = cancel_pending q s (rt_enter_critical k);
          (s2, k2) = cancel_delayed q s1 k1
      in do { k3 \<leftarrow> rt_exit_critical k2; Some (RT_EOK, s2, k3) })"

definition rt_workqueue_destroy :: "nat \<Rightarrow> workqueues \<Rightarrow> kernel \<Rightarrow> (int \<times> workqueues \<times> kernel) option" where
  "rt_workqueue_destroy q s k =
     do { (_, s1, k1) \<leftarrow> rt_workqueue_cancel_all_work q s k;
          let k2 = snd (rt_thread_delete (work_thread (wqueues s1 q)) k1);
          k3 \<leftarrow> rt_sem_detach (wq_sem (wqueues s1 q)) k2;
          Some (RT_EOK, s1, k3) }"

text \<open>The system work queue; without one the calls stop in an assertion.\<close>

definition rt_work_submit :: "wid \<Rightarrow> u32 \<Rightarrow> workqueues \<Rightarrow> kernel \<Rightarrow> (int \<times> workqueues \<times> kernel) option" where
  "rt_work_submit w ticks s k = do { q \<leftarrow> sys_workq s; rt_workqueue_submit_work q w ticks s k }"

definition rt_work_urgent :: "wid \<Rightarrow> workqueues \<Rightarrow> kernel \<Rightarrow> (int \<times> workqueues \<times> kernel) option" where
  "rt_work_urgent w s k = do { q \<leftarrow> sys_workq s; rt_workqueue_urgent_work q w s k }"

definition rt_work_cancel :: "wid \<Rightarrow> workqueues \<Rightarrow> kernel \<Rightarrow> (int \<times> workqueues \<times> kernel) option" where
  "rt_work_cancel w s k = do { q \<leftarrow> sys_workq s; Some (rt_workqueue_cancel_work q w s k) }"

definition RT_SYSTEM_WORKQUEUE_PRIORITY :: nat where "RT_SYSTEM_WORKQUEUE_PRIORITY = 23"

definition rt_work_sys_workqueue_init ::
  "bool \<Rightarrow> bool \<Rightarrow> nat \<Rightarrow> nat \<Rightarrow> tid \<Rightarrow> workqueues \<Rightarrow> kernel \<Rightarrow> (int \<times> workqueues \<times> kernel) option" where
  "rt_work_sys_workqueue_init mem thread q i t s k =
     (if sys_workq s \<noteq> None then Some (RT_EOK, s, k)
      else do { (r, s1, k1) \<leftarrow> rt_workqueue_create mem thread q i t RT_SYSTEM_WORKQUEUE_PRIORITY s k;
                q' \<leftarrow> r;
                Some (RT_EOK, s1\<lparr>sys_workq := Some q'\<rparr>, k1) })"

section \<open>Progress of the kernel\<close>

text \<open>What every operation does to the kernel: it keeps the scheduler invariant, and no thread is suspended by it.\<close>

definition progress :: "kernel \<Rightarrow> kernel \<Rightarrow> bool" where
  "progress k k' \<longleftrightarrow> ready_inv k' \<and> running k' \<and> (\<forall>u. runnable k u \<longrightarrow> runnable k' u) \<and>
     (\<forall>u. thread_state k u = RT_THREAD_SUSPEND \<longrightarrow> thread_state k' u = RT_THREAD_SUSPEND \<or> runnable k' u)"

lemma progress_refl: "ready_inv k \<Longrightarrow> running k \<Longrightarrow> progress k k"
  by (simp add: progress_def)

lemma progress_trans: "progress k k' \<Longrightarrow> progress k' k'' \<Longrightarrow> progress k k''"
  by (auto simp: progress_def)

lemma progress_inv: "progress k k' \<Longrightarrow> ready_inv k' \<and> running k'"
  by (simp add: progress_def)

lemma progress_same:
  assumes "ready_inv k" and "running k" and "threads k' = threads k" and "tlists k' = tlists k"
    and "rt_current_thread k' = rt_current_thread k" and "rt_thread_ready_priority_group k' = rt_thread_ready_priority_group k"
  shows "progress k k'"
proof -
  have "thread_state k' = thread_state k" using assms(3) by (simp add: thread_state_def fun_eq_iff)
  moreover have "ready_inv k'" using ready_inv_same [of k' k] assms by simp
  ultimately show ?thesis using assms(2,5) by (simp add: progress_def running_def runnable_def)
qed

lemma schedule_progress:
  assumes "ready_inv k" and "running k"
  shows "\<exists>k'. rt_schedule k = Some k' \<and> progress k k'"
proof -
  obtain c where c: "rt_current_thread k = Some c" using assms(2) by (auto simp: running_def)
  obtain k' where k': "rt_schedule k = Some k'" "ready_inv k'"
    "\<forall>u. thread_state k' u \<in> {RT_THREAD_READY, RT_THREAD_RUNNING} \<longleftrightarrow> thread_state k u \<in> {RT_THREAD_READY, RT_THREAD_RUNNING}"
    using rt_schedule_ok [OF assms(1) c] by blast
  then show ?thesis
    using rt_schedule_running [OF assms k'(1)] rt_schedule_suspended [OF assms(1) c k'(1)]
    by (simp add: progress_def runnable_def)
qed

lemma resume_progress:
  assumes "ready_inv k" and "running k" and "thread_state k t = RT_THREAD_SUSPEND"
  shows "progress k (snd (rt_thread_resume t k))" and "runnable (snd (rt_thread_resume t k)) t"
proof -
  have c: "rt_current_thread k \<noteq> Some t" using assms(2,3) by (auto simp: running_def kernel_simps)
  show "progress k (snd (rt_thread_resume t k))" "runnable (snd (rt_thread_resume t k)) t"
    using rt_thread_resume_ok [OF assms(1,3)] c assms(2) by (auto simp: progress_def runnable_def running_def)
qed

lemma resume_schedule_progress:
  assumes "ready_inv k" and "running k" and "thread_state k t = RT_THREAD_SUSPEND"
  shows "\<exists>k'. rt_schedule (snd (rt_thread_resume t k)) = Some k' \<and> progress k k' \<and> runnable k' t \<and>
    (\<forall>i. i \<noteq> ThreadTimer t \<longrightarrow> timers k' i = timers k i)"
proof -
  note r = resume_progress [OF assms]
  obtain k' where k': "rt_schedule (snd (rt_thread_resume t k)) = Some k'" "progress (snd (rt_thread_resume t k)) k'"
    using schedule_progress progress_inv [OF r(1)] by blast
  have "timers (snd (rt_thread_resume t k)) i = timers k i" if "i \<noteq> ThreadTimer t" for i
    using that by (simp add: rt_thread_resume_def rt_timer_stop_def timer_deactivate_def kernel_simps)
  then show ?thesis
    using k' r progress_trans [OF r(1) k'(2)] rt_schedule_frame(3) [OF k'(1)] by (auto simp: progress_def)
qed

lemma timer_start_progress:
  assumes "ready_inv k" and "running k"
  shows "\<exists>k'. rt_timer_start (UserTimer w) k = Some k' \<and> progress k k' \<and> timer_active k' (UserTimer w)"
proof -
  let ?k = "timer_link (UserTimer w) k"
  have p: "progress k ?k" by (rule progress_same [OF assms]) (simp_all add: timer_link_effect)
  have a: "timer_active ?k (UserTimer w)" by (rule timer_link_active)
  show ?thesis
  proof (cases "timer_flag (timers ?k (UserTimer w)) AND RT_TIMER_FLAG_SOFT_TIMER \<noteq> 0 \<and> \<not> soft_timer_busy ?k \<and>
      thread_state ?k (timer_thread ?k) = RT_THREAD_SUSPEND")
    case True
    then obtain k' where "rt_schedule (snd (rt_thread_resume (timer_thread ?k) ?k)) = Some k'" "progress ?k k'"
      "timers k' (UserTimer w) = timers ?k (UserTimer w)"
      using resume_schedule_progress [of ?k "timer_thread ?k"] progress_inv [OF p] by auto
    then show ?thesis using True a progress_trans [OF p] by (simp add: rt_timer_start_def Let_def timer_active_def)
  next
    case False
    then show ?thesis using p a by (auto simp: rt_timer_start_def Let_def)
  qed
qed

section \<open>The end of a work item\<close>

lemma exit_critical_progress:
  assumes "ready_inv k" and "running k"
  shows "\<exists>k'. rt_exit_critical k = Some k' \<and> progress k k' \<and> (\<forall>h. wait_head h \<longrightarrow> tlists k' h = tlists k h) \<and> same_threads k k'"
proof (cases "rt_scheduler_lock_nest k - 1 \<le> 0")
  case True
  let ?k = "k\<lparr>rt_scheduler_lock_nest := 0\<rparr>"
  have p: "progress k ?k" by (rule progress_same [OF assms]) simp_all
  obtain k' where k': "rt_schedule ?k = Some k'" "progress ?k k'" using schedule_progress progress_inv [OF p] by blast
  have "tlists k' h = tlists k h" if "wait_head h" for h
    using rt_schedule_waits [OF conjunct1 [OF progress_inv [OF p]] k'(1) that] by simp
  moreover have "same_threads k k'" using same_threads_schedule [OF k'(1)] by (simp add: same_threads_def)
  moreover have "rt_current_thread k \<noteq> None" using assms(2) by (auto simp: running_def)
  ultimately show ?thesis using True k' progress_trans [OF p k'(2)] by (simp add: rt_exit_critical_def Let_def)
next
  case False
  then show ?thesis
    using progress_same [OF assms, of "k\<lparr>rt_scheduler_lock_nest := rt_scheduler_lock_nest k - 1\<rparr>"]
    by (simp add: rt_exit_critical_def Let_def same_threads_eq)
qed

lemma completion_loop_ok:
  assumes "ready_inv k" and "running k" and "sem_value sem = 0"
  shows "\<exists>k'. completion_loop sem k = Some (RT_EOK, sem, k') \<and> progress k k' \<and> tlists k' (sem_head sem) = [] \<and>
    (\<forall>t \<in> set (tlists k (sem_head sem)). runnable k' t) \<and> same_threads k k'"
  using assms
proof (induction "tlists k (sem_head sem)" arbitrary: k)
  case Nil
  let ?s = "sem\<lparr>sem_value := 1\<rparr>"
  have full: "?s\<lparr>sem_value := 0\<rparr> = sem" using Nil.prems(3) by simp
  have "completion_loop ?s k = Some (RT_EOK, sem, k)"
    using full by (subst completion_loop.simps) (simp add: rt_sem_trytake_def rt_sem_take_def RT_EOK_def RT_ETIMEOUT_def)
  then have "completion_loop sem k = Some (RT_EOK, sem, k)"
    using Nil by (subst completion_loop.simps)
      (simp add: rt_sem_trytake_def rt_sem_take_def rt_sem_release_def RT_WAITING_NO_def RT_SEM_VALUE_MAX_def)
  then show ?case using Nil progress_refl by (metis empty_iff empty_set same_threads_refl)
next
  case (Cons t ts)
  have q: "tlists k (sem_head sem) = t # ts" using Cons.hyps(2) by simp
  have st: "thread_state k t = RT_THREAD_SUSPEND" using waiting_suspended [OF Cons.prems(1), of "sem_head sem" t] q by simp
  obtain k1 k2 where k2: "ipc_list_resume (sem_head sem) k = Some k1" "rt_schedule k1 = Some k2" "runnable k2 t"
    "tlists k2 (sem_head sem) = ts" "same_threads k k2" using wake_first_ok [OF Cons.prems(1,2) _ q] by auto
  have p: "progress k k2"
    using resume_schedule_progress [OF Cons.prems(1,2) st] k2(1,2) q by (auto simp: ipc_list_resume_def)
  obtain k' where k': "completion_loop sem k2 = Some (RT_EOK, sem, k')" "progress k2 k'" "tlists k' (sem_head sem) = []"
    "\<forall>t \<in> set ts. runnable k' t" "same_threads k2 k'"
    using Cons.hyps(1) [of k2] k2(4) progress_inv [OF p] Cons.prems(3) by auto
  have "completion_loop sem k = Some (RT_EOK, sem, k')"
    using k'(1) k2(1,2) q Cons.prems(3)
    by (subst completion_loop.simps) (simp add: rt_sem_trytake_def rt_sem_take_def rt_sem_release_def RT_WAITING_NO_def)
  then show ?case
    using k' k2(3) progress_trans [OF p k'(2)] same_threads_trans [OF k2(5) k'(5)] q by (auto simp: progress_def)
qed

lemma work_completion_ok:
  assumes "ready_inv k" and "running k" and "sem_value (wq_sem (wqueues s q)) = 0"
  shows "\<exists>k'. workqueue_work_completion q s k = Some (RT_EOK, s, k') \<and> progress k k' \<and>
    tlists k' (sem_head (wq_sem (wqueues s q))) = [] \<and>
    (\<forall>t \<in> set (tlists k (sem_head (wq_sem (wqueues s q)))). runnable k' t) \<and> same_threads k k'"
proof -
  let ?sem = "wq_sem (wqueues s q)" and ?k = "rt_enter_critical k"
  have p: "progress k ?k" by (rule progress_same [OF assms(1,2)]) (simp_all add: rt_enter_critical_def)
  obtain k1 where k1: "completion_loop ?sem ?k = Some (RT_EOK, ?sem, k1)" "progress ?k k1" "tlists k1 (sem_head ?sem) = []"
    "\<forall>t \<in> set (tlists ?k (sem_head ?sem)). runnable k1 t" "same_threads ?k k1"
    using completion_loop_ok [OF _ _ assms(3)] progress_inv [OF p] by blast
  obtain k2 where k2: "rt_exit_critical k1 = Some k2" "progress k1 k2" "\<forall>h. wait_head h \<longrightarrow> tlists k2 h = tlists k1 h"
    "same_threads k1 k2" using exit_critical_progress progress_inv [OF k1(2)] by blast
  have q: "upd_queue q (\<lambda>Q. Q\<lparr>wq_sem := ?sem\<rparr>) s = s" by (simp add: upd_queue_def)
  have "workqueue_work_completion q s k = Some (RT_EOK, s, k2)"
    using k1(1) k2(1) q by (simp add: workqueue_work_completion_def)
  moreover have "progress k k2" by (rule progress_trans [OF progress_trans [OF p k1(2)] k2(2)])
  moreover have "tlists k2 (sem_head ?sem) = []" using k1(3) k2(3) by simp
  moreover have "\<forall>t \<in> set (tlists k (sem_head ?sem)). runnable k2 t"
    using k1(4) k2(2) by (simp add: rt_enter_critical_def progress_def)
  moreover have "same_threads k k2"
    using same_threads_trans [OF k1(5) k2(4)] by (simp add: same_threads_def rt_enter_critical_def)
  ultimately show ?thesis by blast
qed

section \<open>The invariant of a queue\<close>

definition submitting :: "workqueues \<Rightarrow> wid \<Rightarrow> bool" where
  "submitting s w \<longleftrightarrow> work_flags (works s w) AND RT_WORK_STATE_SUBMITTING \<noteq> 0"

lemma flag_submitting:
  "work_flags (clear_flag RT_WORK_STATE_PENDING x) AND RT_WORK_STATE_SUBMITTING = work_flags x AND RT_WORK_STATE_SUBMITTING"
  "work_flags (set_flag RT_WORK_STATE_PENDING x) AND RT_WORK_STATE_SUBMITTING = work_flags x AND RT_WORK_STATE_SUBMITTING"
  "work_flags (clear_flag RT_WORK_STATE_SUBMITTING x) AND RT_WORK_STATE_SUBMITTING = 0"
  "work_flags (set_flag RT_WORK_STATE_SUBMITTING x) AND RT_WORK_STATE_SUBMITTING \<noteq> 0"
proof -
  have "NOT 1 AND 2 = (2 :: u16)" "1 AND 2 = (0 :: u16)" by simp_all
  then show "work_flags (clear_flag RT_WORK_STATE_PENDING x) AND RT_WORK_STATE_SUBMITTING = work_flags x AND RT_WORK_STATE_SUBMITTING"
    "work_flags (set_flag RT_WORK_STATE_PENDING x) AND RT_WORK_STATE_SUBMITTING = work_flags x AND RT_WORK_STATE_SUBMITTING"
    by (simp_all add: clear_flag_def set_flag_def RT_WORK_STATE_PENDING_def RT_WORK_STATE_SUBMITTING_def and.assoc
        bit.conj_disj_distrib2)
  show "work_flags (clear_flag RT_WORK_STATE_SUBMITTING x) AND RT_WORK_STATE_SUBMITTING = 0"
    by (simp add: clear_flag_def and.assoc)
  have "bit ((work_flags x OR 2) AND 2) 1" by (simp add: bit_simps)
  then show "work_flags (set_flag RT_WORK_STATE_SUBMITTING x) AND RT_WORK_STATE_SUBMITTING \<noteq> 0"
    by (auto simp: set_flag_def RT_WORK_STATE_SUBMITTING_def)
qed

lemma wq_simps [simp]:
  "works (upd_work w f s) = (works s)(w := f (works s w))" "wqueues (upd_work w f s) = wqueues s"
  "works (upd_queue q g s) = works s" "wqueues (upd_queue q g s) = (wqueues s)(q := g (wqueues s q))"
  "works (work_unlink w s) = works s"
  "wqueues (work_unlink w s) p = (wqueues s p)\<lparr>work_list := removeAll w (work_list (wqueues s p)),
     delayed_list := removeAll w (delayed_list (wqueues s p))\<rparr>"
  "workqueue (clear_flag m x) = workqueue x" "workqueue (set_flag m x) = workqueue x"
  "timer_object (clear_flag m x) = timer_object x" "timer_object (set_flag m x) = timer_object x"
  by (simp_all add: upd_work_def upd_queue_def work_unlink_def clear_flag_def set_flag_def)

text \<open>
  An item is at most once in the list of pending or delayed items, an item is delayed exactly when its flag says so, and
  then it knows its queue and its timer is a timer object. The thread of the queue is runnable whenever there is an item to be executed
  and none in execution.
\<close>

definition items_inv :: "nat \<Rightarrow> workqueues \<Rightarrow> bool" where
  "items_inv q s \<longleftrightarrow> distinct (work_list (wqueues s q)) \<and> distinct (delayed_list (wqueues s q)) \<and>
     (\<forall>w. submitting s w \<longleftrightarrow> w \<in> set (delayed_list (wqueues s q))) \<and>
     (\<forall>w \<in> set (work_list (wqueues s q)). \<not> submitting s w) \<and>
     (\<forall>w. submitting s w \<longrightarrow> workqueue (works s w) = Some q \<and> timer_object (works s w)) \<and> sem_value (wq_sem (wqueues s q)) = 0 \<and>
     sem_flag (wq_sem (wqueues s q)) = RT_IPC_FLAG_FIFO"

definition worker_inv :: "rt_workqueue \<Rightarrow> kernel \<Rightarrow> bool" where
  "worker_inv Q k \<longleftrightarrow> ready_inv k \<and> running k \<and>
     (thread_state k (work_thread Q) = RT_THREAD_SUSPEND \<or> runnable k (work_thread Q)) \<and>
     (work_list Q \<noteq> [] \<longrightarrow> work_current Q = None \<longrightarrow> runnable k (work_thread Q))"

definition wq_inv :: "nat \<Rightarrow> workqueues \<Rightarrow> kernel \<Rightarrow> bool" where
  "wq_inv q s k \<longleftrightarrow> items_inv q s \<and> worker_inv (wqueues s q) k"

lemma worker_inv_progress: "worker_inv Q k \<Longrightarrow> progress k k' \<Longrightarrow> worker_inv Q k'"
  by (auto simp: worker_inv_def progress_def)

lemma worker_inv_less:
  "worker_inv Q k \<Longrightarrow> work_thread Q' = work_thread Q \<Longrightarrow> work_current Q' = work_current Q \<Longrightarrow>
   (work_list Q = [] \<Longrightarrow> work_list Q' = []) \<Longrightarrow> worker_inv Q' k"
  by (auto simp: worker_inv_def)

lemma wake_worker_ok:
  assumes "worker_inv Q k" and "work_thread (wqueues s q) = work_thread Q" and "work_current (wqueues s q) = work_current Q"
  shows "\<exists>k'. wake_worker q s k = Some k' \<and> progress k k' \<and> worker_inv (wqueues s q) k' \<and>
    (\<forall>n. timers k' (UserTimer n) = timers k (UserTimer n))"
proof (cases "work_current Q = None \<and> thread_state k (work_thread Q) = RT_THREAD_SUSPEND")
  case True
  then obtain k' where "rt_schedule (snd (rt_thread_resume (work_thread Q) k)) = Some k'" "progress k k'" "runnable k' (work_thread Q)"
    "\<forall>n. timers k' (UserTimer n) = timers k (UserTimer n)"
    using resume_schedule_progress [of k "work_thread Q"] assms(1) by (auto simp: worker_inv_def)
  then show ?thesis using True assms by (auto simp: wake_worker_def Let_def worker_inv_def progress_def)
next
  case False
  have p: "progress k k" using assms(1) by (simp add: worker_inv_def progress_refl)
  show ?thesis using False assms p by (auto simp: wake_worker_def Let_def worker_inv_def)
qed

lemma timer_ops_progress:
  assumes "ready_inv k" and "running k"
  shows "progress k (snd (rt_timer_stop i k))" and "progress k (rt_timer_detach i k)" and "progress k (timer_init i t f k)"
    and "progress k (upd_timer i g k)"
  by (rule progress_same [OF assms]; simp add: kernel_simps timer_init_def)+

lemma submit_now_ok:
  assumes "wq_inv q s k" and "\<not> submitting s w"
  shows "\<exists>r s' k'. workqueue_submit_work q w 0 s k = Some (r, s', k') \<and> wq_inv q s' k' \<and> submitting s' = submitting s"
proof -
  define s1 where "s1 = upd_work w (clear_flag RT_WORK_STATE_PENDING) (work_unlink w s)"
  define s3 where "s3 = upd_work w (\<lambda>x. (set_flag RT_WORK_STATE_PENDING x)\<lparr>workqueue := Some q\<rparr>)
    (upd_queue q (\<lambda>Q. Q\<lparr>work_list := work_list Q @ [w]\<rparr>) s1)"
  have i: "items_inv q s" "worker_inv (wqueues s q) k" using assms(1) by (simp_all add: wq_inv_def)
  have "items_inv q s1" "items_inv q s3"
    using i(1) assms(2) by (auto simp: items_inv_def submitting_def s1_def s3_def flag_submitting distinct_removeAll)
  moreover have "submitting s1 = submitting s" "submitting s3 = submitting s"
    by (auto simp: submitting_def fun_eq_iff s1_def s3_def flag_submitting)
  moreover obtain k1 where "wake_worker q s1 k = Some k1" "worker_inv (wqueues s1 q) k1"
    using wake_worker_ok [OF i(2), of s1 q] by (auto simp: s1_def)
  moreover obtain k3 where "wake_worker q s3 k = Some k3" "worker_inv (wqueues s3 q) k3"
    using wake_worker_ok [OF i(2), of s3 q] by (auto simp: s1_def s3_def)
  ultimately show ?thesis
    by (simp add: workqueue_submit_work_def wq_inv_def Let_def flip: s1_def s3_def)
qed

lemma submit_masked_ok:
  assumes "wq_inv q s k" and "ticks < RT_TICK_MAX div 2"
  shows "\<exists>s' k'. submit_delayed_masked q w ticks s k = Some (s', k') \<and> wq_inv q s' k' \<and>
    (\<forall>v. submitting s' v \<longleftrightarrow> v = w \<or> submitting s v) \<and> work_list (wqueues s' q) = removeAll w (work_list (wqueues s q)) \<and>
    work_current (wqueues s' q) = work_current (wqueues s q)"
proof -
  define s1 where "s1 = upd_work w (clear_flag RT_WORK_STATE_PENDING) (work_unlink w s)"
  define s2 where "s2 = (if submitting s1 w then s1
    else upd_work w (\<lambda>x. (set_flag RT_WORK_STATE_SUBMITTING x)\<lparr>timer_object := True\<rparr>) s1)"
  define s4 where "s4 = upd_queue q (\<lambda>Q. Q\<lparr>delayed_list := delayed_list Q @ [w]\<rparr>) (upd_work w (\<lambda>x. x\<lparr>workqueue := Some q\<rparr>) s2)"
  define k2 where "k2 = (if submitting s1 w then upd_timer (UserTimer w) (\<lambda>tm. tm\<lparr>timer_init_tick := ticks\<rparr>) (snd (rt_timer_stop (UserTimer w) k))
    else timer_init (UserTimer w) ticks RT_TIMER_FLAG_SOFT_TIMER k)"
  have i: "items_inv q s" "worker_inv (wqueues s q) k" using assms(1) by (simp_all add: wq_inv_def)
  have k: "ready_inv k" "running k" using i(2) by (simp_all add: worker_inv_def)
  have p: "progress k k2"
    by (rule progress_same [OF k]) (simp_all add: k2_def timer_init_def kernel_simps)
  have "items_inv q s4" "\<forall>v. submitting s4 v \<longleftrightarrow> v = w \<or> submitting s v"
    using i(1) by (auto simp: items_inv_def submitting_def s1_def s2_def s4_def flag_submitting distinct_removeAll)
  moreover have "worker_inv (wqueues s4 q) k2"
    by (rule worker_inv_less [OF worker_inv_progress [OF i(2) p]]) (simp_all add: s1_def s2_def s4_def)
  moreover have "timer_object (works s1 w)" if "submitting s1 w"
    using i(1) that by (auto simp: items_inv_def submitting_def s1_def flag_submitting)
  then have "submit_delayed_masked q w ticks s k = Some (s4, k2)"
    using assms(2) by (auto simp: submit_delayed_masked_def Let_def rt_timer_init_def s2_def s4_def k2_def submitting_def simp flip: s1_def)
  ultimately show ?thesis by (simp add: wq_inv_def s4_def s2_def s1_def)
qed

lemma submit_start_ok:
  assumes "wq_inv q s k" and "submitting s w"
  shows "\<exists>k'. submit_delayed_start w s k = Some k' \<and> wq_inv q s k' \<and> timer_active k' (UserTimer w)"
proof -
  have i: "items_inv q s" "worker_inv (wqueues s q) k" using assms(1) by (simp_all add: wq_inv_def)
  obtain k' where "rt_timer_start (UserTimer w) k = Some k'" "progress k k'" "timer_active k' (UserTimer w)"
    using timer_start_progress i(2) by (auto simp: worker_inv_def)
  then show ?thesis
    using i assms(2) worker_inv_progress by (auto simp: submit_delayed_start_def wq_inv_def items_inv_def)
qed

lemma submit_delayed_ok:
  assumes "wq_inv q s k" and "ticks \<noteq> 0" and "ticks < RT_TICK_MAX div 2"
  shows "\<exists>r s' k'. workqueue_submit_work q w ticks s k = Some (r, s', k') \<and> wq_inv q s' k' \<and> r = RT_EOK \<and>
    submitting s' w \<and> timer_active k' (UserTimer w) \<and> work_list (wqueues s' q) = removeAll w (work_list (wqueues s q)) \<and>
    work_current (wqueues s' q) = work_current (wqueues s q)"
proof -
  obtain s' k1 where s': "submit_delayed_masked q w ticks s k = Some (s', k1)" "wq_inv q s' k1" "submitting s' w"
    "work_list (wqueues s' q) = removeAll w (work_list (wqueues s q))" "work_current (wqueues s' q) = work_current (wqueues s q)"
    using submit_masked_ok [OF assms(1,3), of w] by blast
  obtain k' where k': "submit_delayed_start w s' k1 = Some k'" "wq_inv q s' k'" "timer_active k' (UserTimer w)"
    using submit_start_ok [OF s'(2,3)] by blast
  show ?thesis using s' k' assms(2,3) by (auto simp: workqueue_submit_work_def Let_def)
qed

lemma urgent_ok:
  assumes "wq_inv q s k" and "\<not> submitting s w"
  shows "\<exists>s' k'. rt_workqueue_urgent_work q w s k = Some (RT_EOK, s', k') \<and> wq_inv q s' k' \<and>
    (\<exists>ws. work_list (wqueues s' q) = w # ws) \<and> submitting s' = submitting s"
proof -
  define s1 where "s1 = upd_queue q (\<lambda>Q. Q\<lparr>work_list := w # work_list Q\<rparr>) (work_unlink w s)"
  have i: "items_inv q s" "worker_inv (wqueues s q) k" using assms(1) by (simp_all add: wq_inv_def)
  have "items_inv q s1" using i(1) assms(2) by (auto simp: items_inv_def submitting_def s1_def distinct_removeAll)
  moreover obtain k1 where "wake_worker q s1 k = Some k1" "worker_inv (wqueues s1 q) k1"
    using wake_worker_ok [OF i(2), of s1 q] by (auto simp: s1_def)
  moreover have "\<exists>ws. work_list (wqueues s1 q) = w # ws" "submitting s1 = submitting s"
    by (simp_all add: s1_def submitting_def fun_eq_iff)
  ultimately show ?thesis by (simp add: rt_workqueue_urgent_work_def wq_inv_def Let_def flip: s1_def)
qed

lemma cancel_ok:
  assumes "wq_inv q s k" and "workqueue_cancel_work q w s k = (r, s', k')"
  shows "wq_inv q s' k' \<and> progress k k' \<and> (\<forall>v. submitting s' v \<longleftrightarrow> v \<noteq> w \<and> submitting s v) \<and>
    (submitting s w \<longrightarrow> \<not> timer_object (works s' w))"
proof -
  have i: "items_inv q s" "worker_inv (wqueues s q) k" using assms(1) by (simp_all add: wq_inv_def)
  have k: "ready_inv k" "running k" using i(2) by (simp_all add: worker_inv_def)
  have p: "progress k k'"
    using assms(2) by (intro progress_same [OF k]) (auto simp: workqueue_cancel_work_def Let_def kernel_simps)
  have "items_inv q s'" "\<forall>v. submitting s' v \<longleftrightarrow> v \<noteq> w \<and> submitting s v" "submitting s w \<longrightarrow> \<not> timer_object (works s' w)"
    using i(1) assms(2)
    by (auto simp: workqueue_cancel_work_def Let_def items_inv_def submitting_def flag_submitting distinct_removeAll split: if_splits)
  moreover have "worker_inv (wqueues s' q) k'"
    by (rule worker_inv_less [OF worker_inv_progress [OF i(2) p]]) (use assms(2) in \<open>auto simp: workqueue_cancel_work_def Let_def\<close>)
  ultimately show ?thesis using p by (simp add: wq_inv_def)
qed

lemma expire_ok:
  assumes "wq_inv q s k" and "submitting s w"
  shows "\<exists>s' k'. delayed_work_timeout_handler w s k = Some (s', k') \<and> wq_inv q s' k' \<and>
    (\<forall>v. submitting s' v \<longleftrightarrow> v \<noteq> w \<and> submitting s v) \<and>
    work_list (wqueues s' q) = work_list (wqueues s q) @ (if work_current (wqueues s q) = Some w then [] else [w])"
proof -
  define s1 where "s1 = work_unlink w (upd_work w (\<lambda>x. (clear_flag RT_WORK_STATE_SUBMITTING x)\<lparr>timer_object := False\<rparr>) s)"
  define s2 where "s2 = (if work_current (wqueues s1 q) \<noteq> Some w
    then upd_work w (set_flag RT_WORK_STATE_PENDING) (upd_queue q (\<lambda>Q. Q\<lparr>work_list := work_list Q @ [w]\<rparr>) s1) else s1)"
  have i: "items_inv q s" "worker_inv (wqueues s q) k" using assms(1) by (simp_all add: wq_inv_def)
  have k: "ready_inv k" "running k" using i(2) by (simp_all add: worker_inv_def)
  have n: "workqueue (works s w) = Some q" "w \<notin> set (work_list (wqueues s q))" using i(1) assms(2) by (auto simp: items_inv_def)
  have d: "worker_inv (wqueues s q) (rt_timer_detach (UserTimer w) k)"
    by (rule worker_inv_progress [OF i(2) timer_ops_progress(2) [OF k]])
  have q2: "work_thread (wqueues s2 q) = work_thread (wqueues s q)" "work_current (wqueues s2 q) = work_current (wqueues s q)"
    by (simp_all add: s1_def s2_def)
  have "items_inv q s2" "\<forall>v. submitting s2 v \<longleftrightarrow> v \<noteq> w \<and> submitting s v"
    using i(1) assms(2) by (auto simp: items_inv_def submitting_def s1_def s2_def flag_submitting distinct_removeAll)
  moreover obtain k2 where "wake_worker q s2 (rt_timer_detach (UserTimer w) k) = Some k2" "worker_inv (wqueues s2 q) k2"
    using wake_worker_ok [OF d q2] by blast
  moreover have "work_list (wqueues s2 q) = work_list (wqueues s q) @ (if work_current (wqueues s q) = Some w then [] else [w])"
    using n(2) by (simp add: s1_def s2_def)
  ultimately show ?thesis
    using n(1) by (simp add: delayed_work_timeout_handler_def wq_inv_def Let_def flip: s1_def s2_def)
qed

lemma fetch_ok:
  assumes "wq_inv q s k" and "caller k (work_thread (wqueues s q))"
  shows "\<exists>r s' k'. workqueue_thread_fetch q s k = Some (r, s', k') \<and> (running k' \<longrightarrow> wq_inv q s' k') \<and>
    submitting s' = submitting s"
proof (cases "work_list (wqueues s q)")
  case Nil
  let ?t = "work_thread (wqueues s q)"
  have i: "items_inv q s" "ready_inv k" using assms(1) by (simp_all add: wq_inv_def worker_inv_def)
  have c: "rt_current_thread k = Some ?t" "thread_state k ?t = RT_THREAD_RUNNING" using assms(2) by (simp_all add: caller_def)
  obtain k1 where k1: "rt_thread_suspend ?t k = Some (RT_EOK, k1)" "ready_inv k1" "thread_state k1 ?t = RT_THREAD_SUSPEND"
    "rt_current_thread k1 = Some ?t" using rt_thread_suspend_ok [OF i(2) c] by auto
  obtain k2 where k2: "rt_schedule k1 = Some k2" "ready_inv k2" using rt_schedule_keeps_inv [OF k1(2)] k1(4) by auto
  have "thread_state k2 ?t = RT_THREAD_SUSPEND" by (rule rt_schedule_suspended [OF k1(2,4) k2(1) k1(3)])
  then show ?thesis
    using Nil i k1(1) k2 c(1) by (simp add: workqueue_thread_fetch_def rt_thread_self_def wq_inv_def worker_inv_def)
next
  case (Cons w ws)
  then show ?thesis
    using assms(1) by (auto simp: workqueue_thread_fetch_def wq_inv_def worker_inv_def items_inv_def submitting_def
        flag_submitting distinct_removeAll removeAll_id fun_eq_iff)
qed

lemma done_ok:
  assumes "wq_inv q s k" and "rt_current_thread k = Some (work_thread (wqueues s q))"
  shows "\<exists>s' k'. workqueue_thread_done q s k = Some (s', k') \<and> wq_inv q s' k' \<and> submitting s' = submitting s \<and>
    work_current (wqueues s' q) = None \<and> tlists k' (sem_head (wq_sem (wqueues s q))) = [] \<and>
    (\<forall>t \<in> set (tlists k (sem_head (wq_sem (wqueues s q)))). runnable k' t)"
proof -
  let ?s = "upd_queue q (\<lambda>Q. Q\<lparr>work_current := None\<rparr>) s"
  have i: "items_inv q s" "worker_inv (wqueues s q) k" using assms(1) by (simp_all add: wq_inv_def)
  have k: "ready_inv k" "running k" using i(2) by (simp_all add: worker_inv_def)
  have "sem_value (wq_sem (wqueues ?s q)) = 0" using i(1) by (simp add: items_inv_def)
  from work_completion_ok [OF k this] obtain k' where k': "workqueue_work_completion q ?s k = Some (RT_EOK, ?s, k')" "progress k k'"
    "tlists k' (sem_head (wq_sem (wqueues s q))) = []" "\<forall>t \<in> set (tlists k (sem_head (wq_sem (wqueues s q)))). runnable k' t"
    by auto
  have "runnable k (work_thread (wqueues s q))" using assms(2) k(2) by (simp add: running_def runnable_def)
  then have "worker_inv (wqueues ?s q) k'" using i(2) k'(2) by (auto simp: worker_inv_def progress_def)
  moreover have "items_inv q ?s" "submitting ?s = submitting s" using i(1) by (simp_all add: items_inv_def submitting_def fun_eq_iff)
  ultimately show ?thesis using k' by (simp add: workqueue_thread_done_def wq_inv_def)
qed

text \<open>A thread that waits for ever: the others keep their state, and are suspended only if they were.\<close>

lemma wait_forever_alive:
  assumes "ready_inv k" and "caller k t" and "wait_head h"
  shows "\<exists>k'. ipc_wait h t RT_IPC_FLAG_FIFO RT_WAITING_FOREVER (upd_thread t (\<lambda>th. th\<lparr>error := RT_EOK\<rparr>) k) = Some k' \<and> ready_inv k' \<and>
    (\<forall>u. thread_state k u = RT_THREAD_SUSPEND \<or> runnable k u \<longrightarrow> thread_state k' u = RT_THREAD_SUSPEND \<or> runnable k' u) \<and>
    (\<forall>u. u \<noteq> t \<longrightarrow> runnable k u \<longrightarrow> runnable k' u)"
proof -
  let ?k = "upd_thread t (\<lambda>th. th\<lparr>error := RT_EOK\<rparr>) k"
  have c: "rt_current_thread ?k = Some t" "thread_state ?k t = RT_THREAD_RUNNING" "ready_inv ?k" "thread_state ?k = thread_state k"
    using assms(2) upd_error_ready [OF assms(1)] by (simp_all add: caller_def upd_error_frame kernel_simps)
  obtain k1 where k1: "ipc_list_suspend h t RT_IPC_FLAG_FIFO ?k = Some k1" "ready_inv k1" "rt_current_thread k1 = Some t"
    "thread_state k1 = (thread_state k)(t := RT_THREAD_SUSPEND)"
    using ipc_list_suspend_ok [OF c(3,1,2) assms(3), of RT_IPC_FLAG_FIFO] c(4) by auto
  obtain k2 where k2: "rt_schedule k1 = Some k2" "ready_inv k2"
    "\<forall>u. thread_state k2 u \<in> {RT_THREAD_READY, RT_THREAD_RUNNING} \<longleftrightarrow> thread_state k1 u \<in> {RT_THREAD_READY, RT_THREAD_RUNNING}"
    using rt_schedule_ok [OF k1(2,3)] by blast
  have "thread_state k2 u = RT_THREAD_SUSPEND \<or> runnable k2 u" if "thread_state k u = RT_THREAD_SUSPEND \<or> runnable k u" for u
    using that k2(3) rt_schedule_suspended [OF k1(2,3) k2(1), of u] by (cases "u = t") (auto simp: k1(4) runnable_def)
  moreover have "\<forall>u. u \<noteq> t \<longrightarrow> runnable k u \<longrightarrow> runnable k2 u" using k2(3) by (simp add: k1(4) runnable_def)
  moreover have "ipc_wait h t RT_IPC_FLAG_FIFO RT_WAITING_FOREVER ?k = Some k2"
    using k1(1) k2(1) by (simp add: ipc_wait_def RT_WAITING_FOREVER_def)
  ultimately show ?thesis using k2(2) by blast
qed

text \<open>The wait of \<^verbatim>\<open>rt_workqueue_cancel_work_sync\<close>; the thread of the queue calls it only while it executes an item.\<close>

lemma sync_wait_ok:
  assumes "wq_inv q s k" and "caller k t" and "t = work_thread (wqueues s q) \<Longrightarrow> work_current (wqueues s q) \<noteq> None"
  shows "\<exists>k'. rt_sem_take (wq_sem (wqueues s q)) RT_WAITING_FOREVER k = Some (Blocked t, wq_sem (wqueues s q), k') \<and>
    (running k' \<longrightarrow> wq_inv q s k')"
proof -
  let ?sem = "wq_sem (wqueues s q)"
  have i: "items_inv q s" "worker_inv (wqueues s q) k" using assms(1) by (simp_all add: wq_inv_def)
  then have v: "sem_value ?sem = 0" "sem_flag ?sem = RT_IPC_FLAG_FIFO" "ready_inv k" by (simp_all add: items_inv_def worker_inv_def)
  obtain k' where k': "ipc_wait (sem_head ?sem) t RT_IPC_FLAG_FIFO RT_WAITING_FOREVER (upd_thread t (\<lambda>th. th\<lparr>error := RT_EOK\<rparr>) k) = Some k'"
    "ready_inv k'" "\<forall>u. thread_state k u = RT_THREAD_SUSPEND \<or> runnable k u \<longrightarrow> thread_state k' u = RT_THREAD_SUSPEND \<or> runnable k' u"
    "\<forall>u. u \<noteq> t \<longrightarrow> runnable k u \<longrightarrow> runnable k' u"
    using wait_forever_alive [OF v(3) assms(2), of "sem_head ?sem"] by auto
  have "rt_sem_take ?sem RT_WAITING_FOREVER k = Some (Blocked t, ?sem, k')"
    using v k'(1) caller_available [OF assms(2)] by (simp add: rt_sem_take_def) (simp add: RT_WAITING_FOREVER_def)
  moreover have "t \<noteq> work_thread (wqueues s q)" if "work_current (wqueues s q) = None" using assms(3) that by blast
  then have "running k' \<longrightarrow> wq_inv q s k'" using i k'(2-4) by (auto simp: wq_inv_def worker_inv_def)
  ultimately show ?thesis by blast
qed

lemma cancel_pending_ok:
  "cancel_pending q s k = (s', k') \<Longrightarrow> wq_inv q s k \<Longrightarrow> wq_inv q s' k' \<and> progress k k' \<and> work_list (wqueues s' q) = []"
proof (induction q s k rule: cancel_pending.induct)
  case (1 q s k)
  show ?case
  proof (cases "work_list (wqueues s q)")
    case Nil
    then show ?thesis using 1 by (simp add: cancel_pending.simps [of q s k] wq_inv_def worker_inv_def progress_refl)
  next
    case (Cons w ws)
    obtain r s1 k1 where c: "workqueue_cancel_work q w s k = (r, s1, k1)" by (metis prod_cases3)
    then have "cancel_pending q s1 k1 = (s', k')" using 1(2) Cons by (simp add: cancel_pending.simps [of q s k])
    then show ?thesis
      using 1(1) [OF Cons c [symmetric] refl] cancel_ok [OF 1(3) c] progress_trans by blast
  qed
qed

lemma cancel_delayed_ok:
  "cancel_delayed q s k = (s', k') \<Longrightarrow> wq_inv q s k \<Longrightarrow> work_list (wqueues s q) = [] \<Longrightarrow>
   wq_inv q s' k' \<and> progress k k' \<and> work_list (wqueues s' q) = [] \<and> delayed_list (wqueues s' q) = []"
proof (induction q s k rule: cancel_delayed.induct)
  case (1 q s k)
  show ?case
  proof (cases "delayed_list (wqueues s q)")
    case Nil
    then show ?thesis using 1 by (simp add: cancel_delayed.simps [of q s k] wq_inv_def worker_inv_def progress_refl)
  next
    case (Cons w ws)
    obtain r s1 k1 where c: "workqueue_cancel_work q w s k = (r, s1, k1)" by (metis prod_cases3)
    then have "cancel_delayed q s1 k1 = (s', k')" using 1(2) Cons by (simp add: cancel_delayed.simps [of q s k])
    moreover have "work_list (wqueues s1 q) = []" using cancel_lists(1) [OF c, of q] 1(4) by simp
    ultimately show ?thesis
      using 1(1) [OF Cons c [symmetric] refl] cancel_ok [OF 1(3) c] progress_trans by blast
  qed
qed

lemma cancel_all_ok:
  assumes "wq_inv q s k"
  shows "\<exists>s' k'. rt_workqueue_cancel_all_work q s k = Some (RT_EOK, s', k') \<and> wq_inv q s' k' \<and>
    work_list (wqueues s' q) = [] \<and> delayed_list (wqueues s' q) = [] \<and> (\<forall>w. \<not> submitting s' w)"
proof -
  have k: "ready_inv k" "running k" using assms by (simp_all add: wq_inv_def worker_inv_def)
  have "progress k (rt_enter_critical k)" by (rule progress_same [OF k]) (simp_all add: rt_enter_critical_def)
  then have i: "wq_inv q s (rt_enter_critical k)" using assms worker_inv_progress by (auto simp: wq_inv_def)
  obtain s1 k1 where c1: "cancel_pending q s (rt_enter_critical k) = (s1, k1)" by fastforce
  note i1 = cancel_pending_ok [OF c1 i]
  obtain s2 k2 where c2: "cancel_delayed q s1 k1 = (s2, k2)" by fastforce
  have i2: "wq_inv q s2 k2" "work_list (wqueues s2 q) = []" "delayed_list (wqueues s2 q) = []"
    using cancel_delayed_ok [OF c2] i1 by simp_all
  have "ready_inv k2" "running k2" using i2(1) by (simp_all add: wq_inv_def worker_inv_def)
  then obtain k3 where k3: "rt_exit_critical k2 = Some k3" "progress k2 k3" using exit_critical_progress by blast
  have "wq_inv q s2 k3" using i2(1) worker_inv_progress [OF _ k3(2)] by (simp add: wq_inv_def)
  moreover have "\<not> submitting s2 w" for w using i2(1,3) by (auto simp: wq_inv_def items_inv_def)
  ultimately show ?thesis using i2(2,3) c1 c2 k3(1) by (simp add: rt_workqueue_cancel_all_work_def)
qed

section \<open>Runs\<close>

text \<open>
  The steps of a system with one queue. The last component is the set of the items whose submission with a delay has
  enabled interrupts but not yet called \<^verbatim>\<open>rt_timer_start\<close>; any other step may come between. The steps are submissions
  at once (not while a delay of the item runs), the two halves of a submission with a delay, cancellations, the wait of
  \<^verbatim>\<open>rt_workqueue_cancel_work_sync\<close> (its test of \<^verbatim>\<open>work_current\<close> is not masked, so the wait may begin after the
  item has ended, and so may the cancellation of its other branch), the end of a delay that still runs, the two halves of the loop of the
  thread, and anything else that does not suspend the thread of the queue outside a work function. An item between
  the halves of its submission is not submitted again or cancelled, and its timer, which does not run, does not expire.
  There is always a thread to run (the idle thread).
\<close>

inductive wq_step :: "nat \<Rightarrow> workqueues \<times> kernel \<times> wid set \<Rightarrow> workqueues \<times> kernel \<times> wid set \<Rightarrow> bool" for q where
  wq_submit: "\<not> submitting s w \<Longrightarrow> rt_workqueue_submit_work q w 0 s k = Some (r, s', k') \<Longrightarrow> wq_step q (s, k, W) (s', k', W)"
| wq_masked: "0 < ticks \<Longrightarrow> ticks < RT_TICK_MAX div 2 \<Longrightarrow> w \<notin> W \<Longrightarrow> submit_delayed_masked q w ticks s k = Some (s', k') \<Longrightarrow>
    wq_step q (s, k, W) (s', k', insert w W)"
| wq_start: "w \<in> W \<Longrightarrow> submit_delayed_start w s k = Some k' \<Longrightarrow> wq_step q (s, k, W) (s, k', W - {w})"
| wq_urgent: "\<not> submitting s w \<Longrightarrow> rt_workqueue_urgent_work q w s k = Some (r, s', k') \<Longrightarrow> wq_step q (s, k, W) (s', k', W)"
| wq_cancel: "w \<notin> W \<Longrightarrow> rt_workqueue_cancel_work q w s k = (r, s', k') \<Longrightarrow> wq_step q (s, k, W) (s', k', W)"
| wq_sync_wait: "caller k t \<Longrightarrow> (t = work_thread (wqueues s q) \<Longrightarrow> work_current (wqueues s q) \<noteq> None) \<Longrightarrow>
    rt_sem_take (wq_sem (wqueues s q)) RT_WAITING_FOREVER k = Some (r', sem, k') \<Longrightarrow> running k' \<Longrightarrow>
    wq_step q (s, k, W) (upd_queue q (\<lambda>Q. Q\<lparr>wq_sem := sem\<rparr>) s, k', W)"
| wq_cancel_all: "rt_workqueue_cancel_all_work q s k = Some (r, s', k') \<Longrightarrow> wq_step q (s, k, {}) (s', k', {})"
| wq_expire: "submitting s w \<Longrightarrow> w \<notin> W \<Longrightarrow> delayed_work_timeout_handler w s k = Some (s', k') \<Longrightarrow> wq_step q (s, k, W) (s', k', W)"
| wq_fetch: "caller k (work_thread (wqueues s q)) \<Longrightarrow> work_current (wqueues s q) = None \<Longrightarrow>
    workqueue_thread_fetch q s k = Some (r'', s', k') \<Longrightarrow> running k' \<Longrightarrow> wq_step q (s, k, W) (s', k', W)"
| wq_done: "rt_current_thread k = Some (work_thread (wqueues s q)) \<Longrightarrow> workqueue_thread_done q s k = Some (s', k') \<Longrightarrow>
    wq_step q (s, k, W) (s', k', W)"
| wq_other: "ready_inv k' \<Longrightarrow> running k' \<Longrightarrow>
    thread_state k' (work_thread (wqueues s q)) = RT_THREAD_SUSPEND \<or> runnable k' (work_thread (wqueues s q)) \<Longrightarrow>
    (work_current (wqueues s q) = None \<Longrightarrow> runnable k (work_thread (wqueues s q)) \<Longrightarrow> runnable k' (work_thread (wqueues s q))) \<Longrightarrow>
    wq_step q (s, k, W) (s, k', W)"

text \<open>The steps of \<^verbatim>\<open>rt_workqueue_cancel_work_sync\<close> when nothing comes between its test and what follows.\<close>

lemma cancel_sync_steps:
  assumes "rt_workqueue_cancel_work_sync q w s k = Some (r, s', k')" and "caller k t" and "running k'" and "w \<notin> W"
  shows "wq_step q (s, k, W) (s', k', W)"
proof (cases "work_current (wqueues s q) = Some w")
  case True
  then obtain r' sem where "rt_sem_take (wq_sem (wqueues s q)) RT_WAITING_FOREVER k = Some (r', sem, k')"
    "s' = upd_queue q (\<lambda>Q. Q\<lparr>wq_sem := sem\<rparr>) s"
    using assms(1) by (auto simp: rt_workqueue_cancel_work_sync_def split: bind_splits)
  then show ?thesis using wq_sync_wait [OF assms(2) _ _ assms(3)] True by simp
next
  case False
  then show ?thesis
    using assms(1) wq_cancel [OF assms(4), of q s k] by (auto simp: rt_workqueue_cancel_work_sync_def rt_workqueue_cancel_work_def split: prod.splits)
qed

lemma submit_work_ok:
  assumes "wq_inv q s k" and "ticks = 0 \<longrightarrow> \<not> submitting s w" and "ticks < RT_TICK_MAX div 2"
  shows "\<exists>r s' k'. rt_workqueue_submit_work q w ticks s k = Some (r, s', k') \<and> wq_inv q s' k'"
proof (cases "ticks = 0")
  case True
  then show ?thesis using submit_now_ok [OF assms(1), of w] assms(2,3) by (auto simp: rt_workqueue_submit_work_def)
next
  case False
  then show ?thesis using submit_delayed_ok [OF assms(1) False assms(3), of w] assms(3) by (auto simp: rt_workqueue_submit_work_def)
qed

definition wq_good :: "nat \<Rightarrow> workqueues \<times> kernel \<times> wid set \<Rightarrow> bool" where
  "wq_good q = (\<lambda>(s, k, W). wq_inv q s k \<and> (\<forall>w \<in> W. submitting s w))"

lemma wq_step_good: "wq_step q c c' \<Longrightarrow> wq_good q c \<Longrightarrow> wq_good q c'"
proof (induction rule: wq_step.induct)
  case (wq_submit s w k r s' k' W)
  then show ?case using submit_now_ok [of q s k w]
    by (fastforce simp: wq_good_def rt_workqueue_submit_work_def split: if_splits)
next
  case (wq_masked ticks w W s k s' k')
  then show ?case using submit_masked_ok [of q s k ticks w] by (auto simp: wq_good_def)
next
  case (wq_start w W s k k')
  then show ?case using submit_start_ok [of q s k w] by (auto simp: wq_good_def)
next
  case (wq_other k' s k W)
  then show ?case by (auto simp: wq_good_def wq_inv_def worker_inv_def)
next
  case (wq_urgent s w k r s' k' W)
  then show ?case using urgent_ok [of q s k w] by (fastforce simp: wq_good_def)
next
  case (wq_cancel w W s k r s' k')
  then show ?case using cancel_ok [of q s k w r s' k'] by (auto simp: wq_good_def rt_workqueue_cancel_work_def)
next
  case (wq_sync_wait k t s r' sem k' W)
  have "upd_queue q (\<lambda>Q. Q\<lparr>wq_sem := wq_sem (wqueues s q)\<rparr>) s = s" by (simp add: upd_queue_def)
  then show ?case using wq_sync_wait sync_wait_ok [of q s k t] by (auto simp: wq_good_def)
next
  case (wq_cancel_all s k r s' k')
  then show ?case using cancel_all_ok [of q s k] by (auto simp: wq_good_def)
next
  case (wq_expire s w W k s' k')
  then show ?case using expire_ok [of q s k w] by (fastforce simp: wq_good_def)
next
  case (wq_fetch k s r'' s' k' W)
  then show ?case using fetch_ok [of q s k] by (fastforce simp: wq_good_def)
next
  case (wq_done k s s' k' W)
  then show ?case using done_ok [of q s k] by (fastforce simp: wq_good_def)
qed

lemma wq_run_good: "(wq_step q)\<^sup>*\<^sup>* (s, k, {}) (s', k', W) \<Longrightarrow> wq_inv q s k \<Longrightarrow> wq_good q (s', k', W)"
  using rtranclp_induct [of "wq_step q" "(s, k, {})" "(s', k', W)" "wq_good q"] wq_step_good by (auto simp: wq_good_def)

lemma thread_init_ready:
  assumes "ready_inv k" and "running k" and "thread_state k t = RT_THREAD_INIT" and "p < 32" and "rt_thread_init t p n k = Some k'"
  shows "ready_inv k'" and "running k'" and "thread_state k' = thread_state k" and "current_priority (threads k' t) = p"
proof -
  let ?f = "\<lambda>_. \<lparr>error = RT_EOK, stat = RT_THREAD_INIT, current_priority = p, number_mask = 0, event_set = 0,
    event_info = 0, init_tick = n, remaining_tick = n\<rparr>"
  have k': "k' = timer_init (ThreadTimer t) 0 0 (upd_thread t ?f k)"
    using assms(4,5) by (simp add: rt_thread_init_def RT_THREAD_PRIORITY_MAX_def)
  show st: "thread_state k' = thread_state k"
    using assms(3) by (auto simp: k' timer_init_def thread_state_def kernel_simps fun_eq_iff)
  show "current_priority (threads k' t) = p" by (simp add: k' timer_init_def kernel_simps)
  have th: "threads k' = (threads k)(t := ?f ())" "tlists k' = tlists k" "rt_current_thread k' = rt_current_thread k"
    "rt_thread_ready_priority_group k' = rt_thread_ready_priority_group k" by (simp_all add: k' timer_init_def kernel_simps)
  have "queue_inv (set_option (rt_current_thread k)) k'"
    using ready_queue [OF assms(1)] assms(3) unfolding queue_inv_def st by (auto simp: th kernel_simps)
  moreover have "wait_inv k'" using ready_wait [OF assms(1)] by (simp add: wait_inv_def st th)
  ultimately show "ready_inv k'" by (rule ready_inv_relist [OF assms(1) _ _ th(3) st])
  show "running k'" using assms(2) by (simp add: running_def th st)
qed

lemma create_ok:
  assumes "ready_inv k" and "running k" and "thread_state k t = RT_THREAD_INIT" and "p < 32" and "tlists k (SuspHead i) = []"
    and "\<forall>w. \<not> submitting s w"
  shows "\<exists>s' k'. rt_workqueue_create True True q i t p s k = Some (Some q, s', k') \<and> wq_inv q s' k' \<and> work_thread (wqueues s' q) = t"
proof -
  obtain k2 where k2: "rt_thread_init t p 10 k = Some k2" using assms(4) by (simp add: rt_thread_init_def RT_THREAD_PRIORITY_MAX_def)
  note i = thread_init_ready [OF assms(1-4) k2]
  define k3 where "k3 = upd_thread t (\<lambda>th. th\<lparr>number_mask := push_bit (current_priority th) 1, stat := RT_THREAD_SUSPEND\<rparr>) k2"
  have k3: "ready_inv k3" "thread_state k3 = (thread_state k2)(t := RT_THREAD_SUSPEND)" "rt_current_thread k3 = rt_current_thread k2"
    using rt_thread_startup_prepared [OF i(1), of t] i(3,4) assms(3,4) by (simp_all add: k3_def)
  have "rt_current_thread k2 \<noteq> Some t" using current_not_init [OF i(1)] i(3) assms(3) by metis
  then have "running k3" using i(2) k3(2,3) by (auto simp: running_def)
  then obtain k4 where k4: "rt_schedule (snd (rt_thread_resume t k3)) = Some k4" "progress k3 k4" "runnable k4 t"
    using resume_schedule_progress [OF k3(1), of t] k3(2) by auto
  have c: "rt_current_thread (snd (rt_thread_resume t k3)) \<noteq> None"
    using rt_thread_resume_ok(4) [OF k3(1), of t] k3(2,3) i(2) by (auto simp: running_def)
  have "rt_thread_startup t k2 = Some (RT_EOK, k4)"
    using i(3) assms(3) k4(1) c by (auto simp: rt_thread_startup_def Let_def rt_thread_self_def k3_def)
  moreover have "rt_sem_init i 0 RT_IPC_FLAG_FIFO k = Some (\<lparr>sem_id = i, sem_flag = RT_IPC_FLAG_FIFO, sem_value = 0\<rparr>, k)"
    using ipc_object_init_ready [OF assms(1,5)] by (simp add: rt_sem_init_def)
  ultimately show ?thesis
    using k2 k4 assms(6) progress_inv [OF k4(2)]
    by (simp add: rt_workqueue_create_def wq_inv_def items_inv_def worker_inv_def submitting_def)
qed

section \<open>Properties\<close>

text \<open>
  Property C13. Work queues are safe when no item is submitted at once while its delay runs, and when an item is
  neither submitted nor cancelled, and its timeout handler not entered, between the end of the masked part of a submission
  with a delay and its call of \<^verbatim>\<open>rt_timer_start\<close>. In every run from
  \<^verbatim>\<open>rt_workqueue_create\<close> under these provisos an item is at most once in the lists of the queue; no wake-up is lost: with an
  item in the list and none in execution the thread of the queue is runnable; every submission returns, and a
  delayed one that was interrupted finds its timer and starts it;
  and the timeout handler of an item whose delay has not been cancelled returns without a failed assertion and appends
  the item to the list, unless it is being executed, in which case it is dropped. The second proviso is necessary: if
  an item is cancelled between the two parts of its submission, \<^verbatim>\<open>rt_timer_start\<close> stops in its assertion.
\<close>

theorem workqueue_safe:
  assumes "ready_inv k" and "running k" and "thread_state k t = RT_THREAD_INIT" and "p < 32" and "tlists k (SuspHead i) = []"
    and "\<forall>w. \<not> submitting s w" and "rt_workqueue_create True True q i t p s k = Some (Some q, s0, k0)"
    and "(wq_step q)\<^sup>*\<^sup>* (s0, k0, {}) (s', k', W)"
  shows "distinct (work_list (wqueues s' q) @ delayed_list (wqueues s' q)) \<and> ready_inv k' \<and>
    (work_list (wqueues s' q) \<noteq> [] \<longrightarrow> work_current (wqueues s' q) = None \<longrightarrow> runnable k' (work_thread (wqueues s' q))) \<and>
    (\<forall>w ticks. ticks < RT_TICK_MAX div 2 \<longrightarrow> (ticks = 0 \<longrightarrow> \<not> submitting s' w) \<longrightarrow>
      rt_workqueue_submit_work q w ticks s' k' \<noteq> None) \<and>
    (\<forall>w ticks. ticks < RT_TICK_MAX div 2 \<longrightarrow> submit_delayed_masked q w ticks s' k' \<noteq> None) \<and>
    (\<forall>w \<in> W. (\<exists>k''. submit_delayed_start w s' k' = Some k'' \<and> timer_active k'' (UserTimer w)) \<and>
      (\<forall>r s'' k''. rt_workqueue_cancel_work q w s' k' = (r, s'', k'') \<longrightarrow> submit_delayed_start w s'' k'' = None)) \<and>
    (\<forall>w. submitting s' w \<longrightarrow> (\<exists>s'' k''. delayed_work_timeout_handler w s' k' = Some (s'', k'') \<and>
      work_list (wqueues s'' q) = work_list (wqueues s' q) @ (if work_current (wqueues s' q) = Some w then [] else [w])))"
proof -
  have "wq_inv q s0 k0" using create_ok [OF assms(1-6), of q] assms(7) by auto
  then have "wq_good q (s', k', W)" using wq_run_good [OF assms(8)] by blast
  then have inv: "wq_inv q s' k'" and W: "\<forall>w \<in> W. submitting s' w" by (simp_all add: wq_good_def)
  show ?thesis
  proof (intro conjI allI impI ballI)
    show "distinct (work_list (wqueues s' q) @ delayed_list (wqueues s' q))" "ready_inv k'"
      using inv by (auto simp: wq_inv_def items_inv_def worker_inv_def)
    show "runnable k' (work_thread (wqueues s' q))" if "work_list (wqueues s' q) \<noteq> []" "work_current (wqueues s' q) = None"
      using inv that by (auto simp: wq_inv_def worker_inv_def)
    show "rt_workqueue_submit_work q w ticks s' k' \<noteq> None"
      if "ticks < RT_TICK_MAX div 2" "ticks = 0 \<longrightarrow> \<not> submitting s' w" for w ticks
      using submit_work_ok [OF inv that(2,1)] by auto
    show "submit_delayed_masked q w ticks s' k' \<noteq> None" if "ticks < RT_TICK_MAX div 2" for w ticks
      using submit_masked_ok [OF inv that] by force
    show "\<exists>k''. submit_delayed_start w s' k' = Some k'' \<and> timer_active k'' (UserTimer w)" if "w \<in> W" for w
      using submit_start_ok [OF inv] W that by blast
    show "submit_delayed_start w s'' k'' = None"
      if "w \<in> W" "rt_workqueue_cancel_work q w s' k' = (r, s'', k'')" for w r s'' k''
      using cancel_ok [OF inv that(2) [unfolded rt_workqueue_cancel_work_def]] W that(1) by (simp add: submit_delayed_start_def)
    show "\<exists>s'' k''. delayed_work_timeout_handler w s' k' = Some (s'', k'') \<and>
        work_list (wqueues s'' q) = work_list (wqueues s' q) @ (if work_current (wqueues s' q) = Some w then [] else [w])"
      if "submitting s' w" for w using expire_ok [OF inv that] by blast
  qed
qed

definition no_queues :: workqueues where
  "no_queues = \<lparr>works = \<lambda>_. \<lparr>work_flags = 0, workqueue = None, timer_object = False\<rparr>,
     wqueues = \<lambda>_. \<lparr>work_list = [], delayed_list = [], work_current = None,
       wq_sem = \<lparr>sem_id = 0, sem_flag = 0, sem_value = 0\<rparr>, work_thread = 0\<rparr>, sys_workq = None\<rparr>"

lemma sample_queue:
  "\<exists>s k. rt_workqueue_create True True 0 7 6 23 no_queues sample_kernel = Some (Some 0, s, k) \<and> wq_inv 0 s k \<and>
    work_list (wqueues s 0) = [] \<and> work_current (wqueues s 0) = None"
proof -
  have f: "thread_state sample_kernel 6 = RT_THREAD_INIT" "tlists sample_kernel (SuspHead 7) = []" "\<forall>w. \<not> submitting no_queues w"
    by (simp add: sample_states) (simp_all add: sample_kernel_def submitting_def no_queues_def)
  obtain s k where c: "rt_workqueue_create True True 0 7 6 23 no_queues sample_kernel = Some (Some 0, s, k)" "wq_inv 0 s k"
    using create_ok [OF sample_ready_inv sample_running f(1) _ f(2,3), of 23 0] by auto
  then have "work_list (wqueues s 0) = [] \<and> work_current (wqueues s 0) = None"
    by (auto simp: rt_workqueue_create_def bind_eq_Some_conv)
  then show ?thesis using c by blast
qed

theorem workqueue_safe_witness:
  "\<exists>s k s' k'. rt_workqueue_create True True 0 7 6 23 no_queues sample_kernel = Some (Some 0, s, k) \<and>
    (wq_step 0)\<^sup>*\<^sup>* (s, k, {}) (s', k', {3}) \<and> submitting s' 3 \<and>
    (\<exists>k''. submit_delayed_start 3 s' k' = Some k'' \<and> timer_active k'' (UserTimer 3)) \<and>
    (\<forall>r s'' k''. rt_workqueue_cancel_work 0 3 s' k' = (r, s'', k'') \<longrightarrow> submit_delayed_start 3 s'' k'' = None) \<and>
    (\<exists>s'' k''. delayed_work_timeout_handler 3 s' k' = Some (s'', k'') \<and>
      work_list (wqueues s'' 0) = work_list (wqueues s' 0) @ (if work_current (wqueues s' 0) = Some 3 then [] else [3]))"
proof -
  have f: "thread_state sample_kernel 6 = RT_THREAD_INIT" "tlists sample_kernel (SuspHead 7) = []" "\<forall>w. \<not> submitting no_queues w"
    by (simp add: sample_states) (simp_all add: sample_kernel_def submitting_def no_queues_def)
  obtain s k where c: "rt_workqueue_create True True 0 7 6 23 no_queues sample_kernel = Some (Some 0, s, k)" "wq_inv 0 s k"
    using sample_queue by blast
  have t: "0 < (10 :: u32)" "10 < RT_TICK_MAX div 2" by (simp_all add: RT_TICK_MAX_def)
  obtain s' k' where s': "submit_delayed_masked 0 3 10 s k = Some (s', k')" "submitting s' 3"
    using submit_masked_ok [OF c(2) t(2), of 3] by blast
  have "wq_step 0 (s, k, {}) (s', k', {3})" using wq_masked [OF t _ s'(1), of "{}"] by simp
  then have run: "(wq_step 0)\<^sup>*\<^sup>* (s, k, {}) (s', k', {3})" by (rule r_into_rtranclp)
  note safe = workqueue_safe [OF sample_ready_inv sample_running f(1) _ f(2,3) c(1) run, simplified]
  show ?thesis using safe c(1) s'(2) run by blast
qed

text \<open>
  Property C40. The proviso is necessary. An item is submitted with a delay and then at once, or urgently, to an
  idle queue: the timer goes on; the thread takes the item, which no longer has a queue, and when the
  delay ends \<^verbatim>\<open>_delayed_work_timeout_handler\<close> stops in its assertion.
\<close>

theorem workqueue_stale_timer:
  assumes "wq_inv q s k" and "work_list (wqueues s q) = []" and "work_current (wqueues s q) = None"
    and "0 < ticks" and "ticks < RT_TICK_MAX div 2" and "f \<in> {rt_workqueue_dowork, rt_workqueue_urgent_work}"
  shows "\<exists>s1 k1 s2 k2 s3. rt_workqueue_submit_work q w ticks s k = Some (RT_EOK, s1, k1) \<and>
    f q w s1 k1 = Some (RT_EOK, s2, k2) \<and> timer_active k2 (UserTimer w) \<and>
    workqueue_thread_fetch q s2 k2 = Some (Some w, s3, k2) \<and> delayed_work_timeout_handler w s3 k2 = None"
proof -
  obtain s1 k1 where s1: "workqueue_submit_work q w ticks s k = Some (RT_EOK, s1, k1)" "wq_inv q s1 k1"
    "timer_active k1 (UserTimer w)" "work_list (wqueues s1 q) = []" and cur: "work_current (wqueues s1 q) = None"
    using submit_delayed_ok [OF assms(1) _ assms(5), of w] assms(2,3,4) by auto
  have w: "worker_inv (wqueues s1 q) k1" using s1(2) by (simp add: wq_inv_def)
  define s2 where "s2 = (if f = rt_workqueue_dowork then upd_work w (\<lambda>x. (set_flag RT_WORK_STATE_PENDING x)\<lparr>workqueue := Some q\<rparr>)
      (upd_queue q (\<lambda>Q. Q\<lparr>work_list := work_list Q @ [w]\<rparr>) (upd_work w (clear_flag RT_WORK_STATE_PENDING) (work_unlink w s1)))
    else upd_queue q (\<lambda>Q. Q\<lparr>work_list := w # work_list Q\<rparr>) (work_unlink w s1))"
  have q2: "work_thread (wqueues s2 q) = work_thread (wqueues s1 q)" "work_current (wqueues s2 q) = work_current (wqueues s1 q)"
    "work_list (wqueues s2 q) = [w]" using s1(4) by (simp_all add: s2_def)
  obtain k2 where k2: "wake_worker q s2 k1 = Some k2" "\<forall>n. timers k2 (UserTimer n) = timers k1 (UserTimer n)"
    using wake_worker_ok [OF w q2(1,2)] by blast
  have "f q w s1 k1 = Some (RT_EOK, s2, k2)"
    using assms(6) k2(1) cur
    by (auto simp: rt_workqueue_dowork_def workqueue_submit_work_def rt_workqueue_urgent_work_def s2_def Let_def split: if_splits)
  moreover have "timer_active k2 (UserTimer w)" using s1(3) k2(2) by (simp add: timer_active_def)
  ultimately show ?thesis
    using s1(1) assms(5) q2(3)
    by (auto simp: rt_workqueue_submit_work_def workqueue_thread_fetch_def delayed_work_timeout_handler_def)
qed

theorem workqueue_stale_timer_witness:
  "\<exists>s k s1 k1 s2 k2 s3. rt_workqueue_create True True 0 7 6 23 no_queues sample_kernel = Some (Some 0, s, k) \<and>
    rt_workqueue_submit_work 0 3 10 s k = Some (RT_EOK, s1, k1) \<and> rt_workqueue_dowork 0 3 s1 k1 = Some (RT_EOK, s2, k2) \<and>
    timer_active k2 (UserTimer 3) \<and> workqueue_thread_fetch 0 s2 k2 = Some (Some 3, s3, k2) \<and>
    delayed_work_timeout_handler 3 s3 k2 = None"
proof -
  obtain s k where c: "rt_workqueue_create True True 0 7 6 23 no_queues sample_kernel = Some (Some 0, s, k)" "wq_inv 0 s k"
    "work_list (wqueues s 0) = []" "work_current (wqueues s 0) = None" using sample_queue by blast
  have "0 < (10 :: u32)" "10 < RT_TICK_MAX div 2" by (simp_all add: RT_TICK_MAX_def)
  from workqueue_stale_timer [OF c(2-4) this, of rt_workqueue_dowork 3] c(1) show ?thesis by blast
qed

definition busy_queue :: "tid \<Rightarrow> nat \<Rightarrow> workqueues" where
  "busy_queue t i = upd_queue 0 (\<lambda>Q. Q\<lparr>work_current := Some 3, wq_sem := \<lparr>sem_id = i, sem_flag = RT_IPC_FLAG_FIFO, sem_value = 0\<rparr>,
     work_thread := t\<rparr>) no_queues"

lemma busy_queue_inv: "t = 0 \<or> t = 5 \<Longrightarrow> wq_inv 0 (busy_queue t i) sample_kernel"
  using sample_ready_inv sample_running sample_states
  by (auto simp: wq_inv_def items_inv_def worker_inv_def busy_queue_def no_queues_def submitting_def runnable_def)

text \<open>
  Property C27. Waiting for an item in execution: \<^verbatim>\<open>rt_workqueue_cancel_work_sync\<close> puts the caller at the end of the
  waiting list; when the item ends, the loop of \<^verbatim>\<open>_workqueue_work_completion\<close> returns, everybody in the list is made
  runnable, the list is empty, and the semaphore has the value 0 again, so that a later wait does not return early.
\<close>

theorem workqueue_cancel_sync_completes:
  assumes "wq_inv q s k" and "caller k t" and "work_current (wqueues s q) = Some w"
  shows "\<exists>k1. rt_workqueue_cancel_work_sync q w s k = Some (Blocked t, s, k1) \<and> thread_state k1 t = RT_THREAD_SUSPEND \<and>
    tlists k1 (sem_head (wq_sem (wqueues s q))) = tlists k (sem_head (wq_sem (wqueues s q))) @ [t] \<and>
    (\<forall>s2 k2. wq_inv q s2 k2 \<longrightarrow> rt_current_thread k2 = Some (work_thread (wqueues s2 q)) \<longrightarrow>
      (\<exists>s3 k3. workqueue_thread_done q s2 k2 = Some (s3, k3) \<and> ready_inv k3 \<and> work_current (wqueues s3 q) = None \<and>
        sem_value (wq_sem (wqueues s3 q)) = 0 \<and> tlists k3 (sem_head (wq_sem (wqueues s2 q))) = [] \<and>
        (\<forall>u \<in> set (tlists k2 (sem_head (wq_sem (wqueues s2 q)))). runnable k3 u)))"
proof -
  let ?sem = "wq_sem (wqueues s q)"
  have v: "sem_value ?sem = 0" "sem_flag ?sem = RT_IPC_FLAG_FIFO" "ready_inv k"
    using assms(1) by (simp_all add: wq_inv_def items_inv_def worker_inv_def)
  obtain k1 where k1: "ipc_wait (sem_head ?sem) t RT_IPC_FLAG_FIFO RT_WAITING_FOREVER (upd_thread t (\<lambda>th. th\<lparr>error := RT_EOK\<rparr>) k) = Some k1"
    "thread_state k1 t = RT_THREAD_SUSPEND" "tlists k1 (sem_head ?sem) = enqueued RT_IPC_FLAG_FIFO k t (tlists k (sem_head ?sem))"
    using ipc_wait_reset_ok [OF v(3) assms(2), of "sem_head ?sem" RT_IPC_FLAG_FIFO RT_WAITING_FOREVER]
    by (auto simp: RT_WAITING_FOREVER_def)
  have "upd_queue q (\<lambda>Q. Q\<lparr>wq_sem := ?sem\<rparr>) s = s" by (simp add: upd_queue_def)
  then have "rt_workqueue_cancel_work_sync q w s k = Some (Blocked t, s, k1)"
    using assms(3) v k1(1) caller_available [OF assms(2)]
    by (simp add: rt_workqueue_cancel_work_sync_def rt_sem_take_def) (simp add: RT_WAITING_FOREVER_def)
  moreover have "tlists k1 (sem_head ?sem) = tlists k (sem_head ?sem) @ [t]"
    using k1(3) by (simp add: enqueued_def RT_IPC_FLAG_FIFO_def RT_IPC_FLAG_PRIO_def)
  moreover have "\<exists>s3 k3. workqueue_thread_done q s2 k2 = Some (s3, k3) \<and> ready_inv k3 \<and> work_current (wqueues s3 q) = None \<and>
      sem_value (wq_sem (wqueues s3 q)) = 0 \<and> tlists k3 (sem_head (wq_sem (wqueues s2 q))) = [] \<and>
      (\<forall>u \<in> set (tlists k2 (sem_head (wq_sem (wqueues s2 q)))). runnable k3 u)"
    if "wq_inv q s2 k2" "rt_current_thread k2 = Some (work_thread (wqueues s2 q))" for s2 k2
    using done_ok [OF that] by (auto simp: wq_inv_def items_inv_def worker_inv_def)
  ultimately show ?thesis using k1(2) by blast
qed

theorem workqueue_cancel_sync_completes_witness:
  "\<exists>k1 s3 k3. rt_workqueue_cancel_work_sync 0 3 (busy_queue 5 7) sample_kernel = Some (Blocked 0, busy_queue 5 7, k1) \<and>
    thread_state k1 0 = RT_THREAD_SUSPEND \<and> tlists sample_kernel (SuspHead 0) = [5] \<and>
    workqueue_thread_done 0 (busy_queue 0 0) sample_kernel = Some (s3, k3) \<and> runnable k3 5"
proof -
  have w: "work_current (wqueues (busy_queue 5 7) 0) = Some 3" "tlists sample_kernel (SuspHead 0) = [5]"
    "rt_current_thread sample_kernel = Some (work_thread (wqueues (busy_queue 0 0) 0))"
    "sem_id (wq_sem (wqueues (busy_queue 0 0) 0)) = 0"
    by (simp_all add: busy_queue_def sample_kernel_def)
  show ?thesis
    using workqueue_cancel_sync_completes [OF busy_queue_inv [of 5 7] sample_caller w(1)] busy_queue_inv [of 0 0] w(2-4) by fastforce
qed

end
