(* ===== verification/KObject.thy ===== *)
theory KObject
  imports KernelState
begin

unbundle bit_operations_syntax

text \<open>
  The container of kernel objects (\<^verbatim>\<open>rt-thread/src/object.c\<close>): one list per class of objects, in which every thread,
  semaphore, timer or device is entered with its name. The interface \<open>name_registry\<close> is what the device framework uses of
  it. The theorem shows that every object is in the list of its class and in no other, and that the
  search finds the youngest object whose name has the same first eight characters.
\<close>

section \<open>Names\<close>

definition RT_NAME_MAX :: nat where "RT_NAME_MAX = 8"

text \<open>
  \<^verbatim>\<open>strncpy\<close> and \<^verbatim>\<open>strncmp\<close> of the C library, which this configuration uses (\<^verbatim>\<open>RT_KSERVICE_USING_STDLIB\<close>). A string is the list of
  its characters; behind the end of the list the terminating zero is read.
\<close>

fun rt_strncpy :: "nat \<Rightarrow> u8 list \<Rightarrow> u8 list" where
  "rt_strncpy 0 s = []"
| "rt_strncpy (Suc n) [] = 0 # rt_strncpy n []"
| "rt_strncpy (Suc n) (c # s) = c # (if c = 0 then rt_strncpy n [] else rt_strncpy n s)"

definition char_at :: "u8 list \<Rightarrow> u8" where
  "char_at s = (case s of [] \<Rightarrow> 0 | c # _ \<Rightarrow> c)"

fun rt_strncmp :: "nat \<Rightarrow> u8 list \<Rightarrow> u8 list \<Rightarrow> int" where
  "rt_strncmp 0 cs ct = 0"
| "rt_strncmp (Suc n) cs ct =
     (if char_at cs \<noteq> char_at ct then uint (char_at cs) - uint (char_at ct)
      else if char_at cs = 0 then 0 else rt_strncmp n (tl cs) (tl ct))"

section \<open>Operations\<close>

definition RT_Object_Class_Null :: u8 where "RT_Object_Class_Null = 0x00"
definition RT_Object_Class_Thread :: u8 where "RT_Object_Class_Thread = 0x01"
definition RT_Object_Class_Semaphore :: u8 where "RT_Object_Class_Semaphore = 0x02"
definition RT_Object_Class_Mutex :: u8 where "RT_Object_Class_Mutex = 0x03"
definition RT_Object_Class_Event :: u8 where "RT_Object_Class_Event = 0x04"
definition RT_Object_Class_MailBox :: u8 where "RT_Object_Class_MailBox = 0x05"
definition RT_Object_Class_MessageQueue :: u8 where "RT_Object_Class_MessageQueue = 0x06"
definition RT_Object_Class_MemPool :: u8 where "RT_Object_Class_MemPool = 0x08"
definition RT_Object_Class_Device :: u8 where "RT_Object_Class_Device = 0x09"
definition RT_Object_Class_Timer :: u8 where "RT_Object_Class_Timer = 0x0a"
definition RT_Object_Class_Memory :: u8 where "RT_Object_Class_Memory = 0x0c"
definition RT_Object_Class_Static :: u8 where "RT_Object_Class_Static = 0x80"

lemmas object_class_defs = RT_Object_Class_Null_def RT_Object_Class_Thread_def RT_Object_Class_Semaphore_def
  RT_Object_Class_Mutex_def RT_Object_Class_Event_def RT_Object_Class_MailBox_def RT_Object_Class_MessageQueue_def
  RT_Object_Class_MemPool_def RT_Object_Class_Device_def RT_Object_Class_Timer_def RT_Object_Class_Memory_def
  RT_Object_Class_Static_def

text \<open>
  Objects are named by identifiers. An object that is initialised while it is in the list of another class would destroy that list, which
  the code does not check; the runs below exclude it.
\<close>

type_synonym oid = nat

record rt_object =
  obj_name :: "u8 list"
  obj_type :: u8
  obj_flag :: u8

record registry =
  objects :: "oid \<Rightarrow> rt_object"
  object_list :: "u8 \<Rightarrow> oid list"

text \<open>The classes of \<^verbatim>\<open>_object_container\<close> in this configuration.\<close>

definition object_container :: "u8 list" where
  "object_container = [RT_Object_Class_Thread, RT_Object_Class_Semaphore, RT_Object_Class_Mutex, RT_Object_Class_Event,
     RT_Object_Class_MailBox, RT_Object_Class_MessageQueue, RT_Object_Class_MemPool, RT_Object_Class_Device,
     RT_Object_Class_Timer, RT_Object_Class_Memory]"

definition rt_object_get_information :: "u8 \<Rightarrow> u8 option" where
  "rt_object_get_information ty = find (\<lambda>c. c = ty) object_container"

definition rt_object_get_length :: "u8 \<Rightarrow> registry \<Rightarrow> nat" where
  "rt_object_get_length ty r =
     (case rt_object_get_information ty of None \<Rightarrow> 0 | Some c \<Rightarrow> foldl (\<lambda>count _. count + 1) 0 (object_list r c))"

fun pointers_loop :: "int \<Rightarrow> int \<Rightarrow> oid list \<Rightarrow> oid list" where
  "pointers_loop maxlen index [] = []"
| "pointers_loop maxlen index (ob # obs) = ob # (if index + 1 \<ge> maxlen then [] else pointers_loop maxlen (index + 1) obs)"

definition rt_object_get_pointers :: "u8 \<Rightarrow> int \<Rightarrow> registry \<Rightarrow> oid list" where
  "rt_object_get_pointers ty maxlen r =
     (if maxlen \<le> 0 then []
      else case rt_object_get_information ty of None \<Rightarrow> [] | Some c \<Rightarrow> pointers_loop maxlen 0 (object_list r c))"

definition object_attach :: "oid \<Rightarrow> u8 \<Rightarrow> rt_object \<Rightarrow> registry \<Rightarrow> registry" where
  "object_attach ob c rec r =
     r\<lparr>objects := (objects r)(ob := rec), object_list := (object_list r)(c := ob # object_list r c)\<rparr>"

definition object_unlink :: "oid \<Rightarrow> registry \<Rightarrow> registry" where
  "object_unlink ob r = r\<lparr>object_list := \<lambda>c. removeAll ob (object_list r c)\<rparr>"

definition rt_object_init :: "oid \<Rightarrow> u8 \<Rightarrow> u8 list \<Rightarrow> registry \<Rightarrow> registry option" where
  "rt_object_init ob ty name r =
     do { c \<leftarrow> rt_object_get_information ty;
          if ob \<in> set (object_list r c) then None
          else Some (object_attach ob c ((objects r ob)\<lparr>obj_type := ty OR RT_Object_Class_Static,
                 obj_name := rt_strncpy RT_NAME_MAX name\<rparr>) r) }"

definition rt_object_detach :: "oid \<Rightarrow> registry \<Rightarrow> registry" where
  "rt_object_detach ob r = object_unlink ob (r\<lparr>objects := (objects r)(ob := (objects r ob)\<lparr>obj_type := 0\<rparr>)\<rparr>)"

text \<open>\<open>mem\<close> is the object for which \<^verbatim>\<open>RT_KERNEL_MALLOC\<close> returns memory.\<close>

definition rt_object_allocate :: "oid option \<Rightarrow> u8 \<Rightarrow> u8 list \<Rightarrow> registry \<Rightarrow> (oid option \<times> registry) option" where
  "rt_object_allocate mem ty name r =
     do { c \<leftarrow> rt_object_get_information ty;
          case mem of
            None \<Rightarrow> Some (None, r)
          | Some ob \<Rightarrow> Some (Some ob, object_attach ob c \<lparr>obj_name = rt_strncpy RT_NAME_MAX name, obj_type = ty, obj_flag = 0\<rparr> r) }"

definition rt_object_is_systemobject :: "rt_object \<Rightarrow> bool" where
  "rt_object_is_systemobject rec \<longleftrightarrow> obj_type rec AND RT_Object_Class_Static \<noteq> 0"

definition rt_object_delete :: "oid \<Rightarrow> registry \<Rightarrow> registry option" where
  "rt_object_delete ob r =
     (if obj_type (objects r ob) AND RT_Object_Class_Static \<noteq> 0 then None
      else Some (object_unlink ob (r\<lparr>objects := (objects r)(ob := (objects r ob)\<lparr>obj_type := RT_Object_Class_Null\<rparr>)\<rparr>)))"

definition rt_object_get_type :: "rt_object \<Rightarrow> u8" where
  "rt_object_get_type rec = obj_type rec AND NOT RT_Object_Class_Static"

definition rt_object_find :: "u8 list option \<Rightarrow> u8 \<Rightarrow> registry \<Rightarrow> oid option" where
  "rt_object_find name ty r =
     (case (name, rt_object_get_information ty) of
        (Some s, Some c) \<Rightarrow> find (\<lambda>ob. rt_strncmp RT_NAME_MAX (obj_name (objects r ob)) s = 0) (object_list r c)
      | _ \<Rightarrow> None)"

section \<open>Names are compared by their first eight characters\<close>

definition name_key :: "u8 list \<Rightarrow> u8 list" where
  "name_key s = rt_strncpy RT_NAME_MAX s"

lemma strncmp_strncpy: "rt_strncmp n (rt_strncpy n a) b = 0 \<longleftrightarrow> rt_strncpy n a = rt_strncpy n b"
proof (induction n arbitrary: a b)
  case (Suc n)
  show ?case using Suc by (cases a; cases b) (auto simp: char_at_def uint_0_iff simp flip: word_uint_eq_iff)
qed simp

lemma strncpy_length: "length (rt_strncpy n s) = n"
  by (induction n s rule: rt_strncpy.induct) auto

text \<open>Two names are confused exactly when they agree up to the eighth character.\<close>

lemma name_key_take: "0 \<notin> set s \<Longrightarrow> name_key s = take RT_NAME_MAX s @ replicate (RT_NAME_MAX - length s) 0"
proof -
  have "rt_strncpy n [] = replicate n (0 :: u8)" for n by (induction n) auto
  then have "0 \<notin> set s \<Longrightarrow> rt_strncpy n s = take n s @ replicate (n - length s) 0" for n
    by (induction n s rule: rt_strncpy.induct) auto
  then show "0 \<notin> set s \<Longrightarrow> name_key s = take RT_NAME_MAX s @ replicate (RT_NAME_MAX - length s) 0" by (simp add: name_key_def)
qed

section \<open>Invariant\<close>

lemma container_type:
  assumes "ty \<in> set object_container"
  shows "rt_object_get_information ty = Some ty" and "(ty OR RT_Object_Class_Static) AND NOT RT_Object_Class_Static = ty"
    and "ty AND NOT RT_Object_Class_Static = ty" and "ty AND RT_Object_Class_Static = 0"
  using assms by (auto simp: rt_object_get_information_def object_container_def object_class_defs)

lemma information_type: "rt_object_get_information ty = Some c \<longleftrightarrow> c = ty \<and> ty \<in> set object_container"
proof -
  have "find (\<lambda>c. c = ty) cs = (if ty \<in> set cs then Some ty else None)" for cs by (induction cs) auto
  then show ?thesis by (auto simp: rt_object_get_information_def)
qed

definition reg_inv :: "registry \<Rightarrow> bool" where
  "reg_inv r \<longleftrightarrow> (\<forall>c. distinct (object_list r c)) \<and>
     (\<forall>c. \<forall>ob \<in> set (object_list r c). c \<in> set object_container \<and> rt_object_get_type (objects r ob) = c \<and>
        (\<exists>s. obj_name (objects r ob) = name_key s))"

definition listed :: "registry \<Rightarrow> oid \<Rightarrow> bool" where
  "listed r ob \<longleftrightarrow> (\<exists>c. ob \<in> set (object_list r c))"

text \<open>An object is in one list only, that of its class.\<close>

lemma listed_class: "reg_inv r \<Longrightarrow> ob \<in> set (object_list r c) \<Longrightarrow> listed r ob \<and> c = rt_object_get_type (objects r ob)"
  by (auto simp: reg_inv_def listed_def)

lemma attach_inv:
  assumes "reg_inv r" and "\<not> listed r ob" and "c \<in> set object_container" and "rt_object_get_type rec = c" and "obj_name rec = name_key s"
  shows "reg_inv (object_attach ob c rec r)"
  using assms unfolding reg_inv_def listed_def object_attach_def by auto

lemma unlink_inv:
  assumes "reg_inv r" and "\<forall>x. x \<noteq> ob \<longrightarrow> objects r' x = objects r x" and "object_list r' = object_list r"
  shows "reg_inv (object_unlink ob r')"
  using assms unfolding reg_inv_def object_unlink_def by (auto simp: distinct_removeAll)

lemma init_ok:
  assumes "reg_inv r" and "\<not> listed r ob" and "ty \<in> set object_container"
  shows "\<exists>r'. rt_object_init ob ty name r = Some r' \<and> reg_inv r' \<and>
    object_list r' = (object_list r)(ty := ob # object_list r ty) \<and>
    (\<forall>x. objects r' x = (if x = ob then (objects r ob)\<lparr>obj_type := ty OR RT_Object_Class_Static, obj_name := name_key name\<rparr> else objects r x))"
proof -
  let ?rec = "(objects r ob)\<lparr>obj_type := ty OR RT_Object_Class_Static, obj_name := name_key name\<rparr>"
  have "rt_object_init ob ty name r = Some (object_attach ob ty ?rec r)"
    using assms(2) container_type(1) [OF assms(3)] by (auto simp: rt_object_init_def listed_def name_key_def)
  moreover have "reg_inv (object_attach ob ty ?rec r)"
    by (rule attach_inv [OF assms]) (simp_all add: rt_object_get_type_def container_type(2) [OF assms(3)])
  ultimately show ?thesis by (simp add: object_attach_def)
qed

lemma detach_inv: "reg_inv r \<Longrightarrow> reg_inv (rt_object_detach ob r)"
  unfolding rt_object_detach_def by (rule unlink_inv) auto

lemma delete_inv: "reg_inv r \<Longrightarrow> rt_object_delete ob r = Some r' \<Longrightarrow> reg_inv r'"
  unfolding rt_object_delete_def by (auto split: if_splits intro: unlink_inv)

lemma allocate_inv:
  assumes "reg_inv r" and "\<forall>ob. mem = Some ob \<longrightarrow> \<not> listed r ob" and "rt_object_allocate mem ty name r = Some (x, r')"
  shows "reg_inv r'"
proof -
  have ty: "ty \<in> set object_container" "rt_object_get_information ty = Some ty"
    using assms(3) information_type by (auto simp: rt_object_allocate_def bind_eq_Some_conv)
  show ?thesis
  proof (cases mem)
    case None
    then show ?thesis using assms ty(2) by (simp add: rt_object_allocate_def)
  next
    case (Some ob)
    have "reg_inv (object_attach ob ty \<lparr>obj_name = name_key name, obj_type = ty, obj_flag = 0\<rparr> r)"
      using assms(2) Some by (intro attach_inv [OF assms(1) _ ty(1)]) (simp_all add: rt_object_get_type_def container_type(3) [OF ty(1)])
    then show ?thesis using assms(3) Some ty(2) by (simp add: rt_object_allocate_def name_key_def)
  qed
qed

lemma find_cong_set: "(\<And>x. x \<in> set xs \<Longrightarrow> P x = Q x) \<Longrightarrow> find P xs = find Q xs"
  by (induction xs) auto

lemma find_by_key:
  assumes "reg_inv r" and "ty \<in> set object_container"
  shows "rt_object_find (Some name) ty r = find (\<lambda>ob. obj_name (objects r ob) = name_key name) (object_list r ty)"
proof -
  have "(rt_strncmp RT_NAME_MAX (obj_name (objects r ob)) name = 0) = (obj_name (objects r ob) = name_key name)"
    if ob: "ob \<in> set (object_list r ty)" for ob
  proof -
    obtain s where "obj_name (objects r ob) = name_key s" using ob assms(1) unfolding reg_inv_def by blast
    then show ?thesis using strncmp_strncpy [of RT_NAME_MAX s name] by (simp add: name_key_def)
  qed
  then have "find (\<lambda>ob. rt_strncmp RT_NAME_MAX (obj_name (objects r ob)) name = 0) (object_list r ty) =
      find (\<lambda>ob. obj_name (objects r ob) = name_key name) (object_list r ty)" by (rule find_cong_set)
  then show ?thesis by (simp add: rt_object_find_def container_type(1) [OF assms(2)])
qed

lemma get_length_ok: "rt_object_get_length ty r = (if ty \<in> set object_container then length (object_list r ty) else 0)"
proof -
  have "foldl (\<lambda>count _. count + 1) n xs = n + length xs" for n and xs :: "oid list" by (induction xs arbitrary: n) auto
  moreover have "rt_object_get_information ty = (if ty \<in> set object_container then Some ty else None)"
    using information_type [of ty] by (cases "rt_object_get_information ty") auto
  ultimately show ?thesis by (simp add: rt_object_get_length_def)
qed

lemma pointers_loop_take: "index < maxlen \<Longrightarrow> pointers_loop maxlen index obs = take (nat (maxlen - index)) obs"
proof (induction obs arbitrary: index)
  case (Cons ob obs)
  then have n: "nat (maxlen - index) = Suc (nat (maxlen - (index + 1)))" by linarith
  show ?case using Cons by (cases "index + 1 < maxlen") (simp_all add: n)
qed simp

section \<open>The interface of the device framework\<close>

text \<open>
  Entries under names, of which only the key counts: the laws of entering, removing and searching, and what follows for a client that
  searches for a name before it enters it.
\<close>

locale name_registry =
  fixes attach :: "'o \<Rightarrow> 'n \<Rightarrow> 'r \<Rightarrow> 'r option" and detach :: "'o \<Rightarrow> 'r \<Rightarrow> 'r" and lookup :: "'n \<Rightarrow> 'r \<Rightarrow> 'o option"
    and members :: "'r \<Rightarrow> 'o set" and key_of :: "'r \<Rightarrow> 'o \<Rightarrow> 'k" and key :: "'n \<Rightarrow> 'k" and free :: "'r \<Rightarrow> 'o \<Rightarrow> bool" and invar :: "'r \<Rightarrow> bool"
  assumes attach: "invar r \<Longrightarrow> free r x \<Longrightarrow> \<exists>r'. attach x n r = Some r' \<and> invar r' \<and> members r' = insert x (members r) \<and>
      (\<forall>y. key_of r' y = (if y = x then key n else key_of r y))"
    and detach: "invar r \<Longrightarrow> invar (detach x r) \<and> members (detach x r) = members r - {x} \<and>
      (\<forall>y \<in> members r - {x}. key_of (detach x r) y = key_of r y)"
    and lookup_some: "invar r \<Longrightarrow> lookup n r = Some x \<Longrightarrow> x \<in> members r \<and> key_of r x = key n"
    and lookup_none: "invar r \<Longrightarrow> lookup n r = None \<Longrightarrow> y \<in> members r \<Longrightarrow> key_of r y \<noteq> key n"
    and free_member: "invar r \<Longrightarrow> free r x \<Longrightarrow> x \<notin> members r"
begin

lemma lookup_unique:
  assumes "invar r" and "inj_on (key_of r) (members r)"
  shows "lookup n r = Some x \<longleftrightarrow> x \<in> members r \<and> key_of r x = key n"
  using lookup_some [OF assms(1)] lookup_none [OF assms(1)] inj_onD [OF assms(2)] by (cases "lookup n r") (fastforce+)

lemma attach_unique:
  assumes "invar r" and "inj_on (key_of r) (members r)" and "free r x" and "lookup n r = None"
  shows "\<exists>r'. attach x n r = Some r' \<and> invar r' \<and> inj_on (key_of r') (members r') \<and> lookup n r' = Some x"
proof -
  obtain r' where r': "attach x n r = Some r'" "invar r'" "members r' = insert x (members r)"
    "\<forall>y. key_of r' y = (if y = x then key n else key_of r y)" using attach [OF assms(1,3)] by blast
  have "inj_on (key_of r') (members r')"
    using assms(2) lookup_none [OF assms(1,4)] r'(3,4) unfolding inj_on_def by (metis insert_iff)
  then show ?thesis using r' lookup_unique [OF r'(2), of n x] by auto
qed

lemma detach_unique:
  assumes "invar r" and "inj_on (key_of r) (members r)" and "lookup n r = Some x"
  shows "inj_on (key_of (detach x r)) (members (detach x r)) \<and> lookup n (detach x r) = None"
proof -
  have d: "invar (detach x r)" "members (detach x r) = members r - {x}" "\<forall>y \<in> members r - {x}. key_of (detach x r) y = key_of r y"
    using detach [OF assms(1)] by blast+
  have u: "inj_on (key_of (detach x r)) (members (detach x r))" using assms(2) d(2,3) by (auto simp: inj_on_def)
  have "lookup n (detach x r) \<noteq> Some y" for y
    using lookup_unique [OF d(1) u] lookup_some [OF assms(1,3)] d(2,3) inj_onD [OF assms(2)] by (metis DiffE insertI1)
  then show ?thesis using u by auto
qed

end

interpretation device_registry: name_registry "\<lambda>ob name. rt_object_init ob RT_Object_Class_Device name" rt_object_detach
  "\<lambda>name. rt_object_find (Some name) RT_Object_Class_Device" "\<lambda>r. set (object_list r RT_Object_Class_Device)"
  "\<lambda>r ob. obj_name (objects r ob)" name_key "\<lambda>r ob. \<not> listed r ob" reg_inv
proof -
  have dev: "RT_Object_Class_Device \<in> set object_container" by (simp add: object_container_def)
  show "name_registry (\<lambda>ob name. rt_object_init ob RT_Object_Class_Device name) rt_object_detach
    (\<lambda>name. rt_object_find (Some name) RT_Object_Class_Device) (\<lambda>r. set (object_list r RT_Object_Class_Device))
    (\<lambda>r ob. obj_name (objects r ob)) name_key (\<lambda>r ob. \<not> listed r ob) reg_inv"
  proof
    fix r ob name assume "reg_inv r" "\<not> listed r ob"
    from init_ok [OF this dev, of name]
    show "\<exists>r'. rt_object_init ob RT_Object_Class_Device name r = Some r' \<and> reg_inv r' \<and>
        set (object_list r' RT_Object_Class_Device) = insert ob (set (object_list r RT_Object_Class_Device)) \<and>
        (\<forall>y. obj_name (objects r' y) = (if y = ob then name_key name else obj_name (objects r y)))" by auto
  next
    fix r ob assume "reg_inv r"
    then show "reg_inv (rt_object_detach ob r) \<and>
        set (object_list (rt_object_detach ob r) RT_Object_Class_Device) = set (object_list r RT_Object_Class_Device) - {ob} \<and>
        (\<forall>y \<in> set (object_list r RT_Object_Class_Device) - {ob}. obj_name (objects (rt_object_detach ob r) y) = obj_name (objects r y))"
      by (simp add: detach_inv) (simp add: rt_object_detach_def object_unlink_def)
  qed (auto simp: find_by_key [OF _ dev] find_Some_iff find_None_iff listed_def)
qed

section \<open>Runs\<close>

text \<open>Objects that are in no list are entered, statically or in new memory, and objects are taken out.\<close>

inductive obj_step :: "registry \<Rightarrow> registry \<Rightarrow> bool" where
  obj_init: "\<not> listed r ob \<Longrightarrow> rt_object_init ob ty name r = Some r' \<Longrightarrow> obj_step r r'"
| obj_detach: "obj_step r (rt_object_detach ob r)"
| obj_allocate: "\<forall>ob. mem = Some ob \<longrightarrow> \<not> listed r ob \<Longrightarrow> rt_object_allocate mem ty name r = Some (x, r') \<Longrightarrow> obj_step r r'"
| obj_delete: "rt_object_delete ob r = Some r' \<Longrightarrow> obj_step r r'"

lemma obj_step_inv: "obj_step r r' \<Longrightarrow> reg_inv r \<Longrightarrow> reg_inv r'"
proof (induction rule: obj_step.induct)
  case (obj_init r ob ty name r')
  then have "ty \<in> set object_container" using information_type by (auto simp: rt_object_init_def bind_eq_Some_conv)
  then show ?case using init_ok [OF obj_init(3,1), of ty name] obj_init(2) by auto
next
  case (obj_allocate mem r ty name x r')
  then show ?case using allocate_inv by blast
qed (simp_all add: detach_inv delete_inv)

lemma obj_run_inv: "obj_step\<^sup>*\<^sup>* r r' \<Longrightarrow> reg_inv r \<Longrightarrow> reg_inv r'"
  by (induction rule: rtranclp_induct) (auto intro: obj_step_inv)

section \<open>Properties\<close>

text \<open>
  Property C36. The object container is typed: in every run from empty lists an object is in at most one list and there once, the list
  is the one of its class, and \<^verbatim>\<open>rt_object_get_length\<close> counts it. Entering an object that is in no list never stops in an
  assertion, and \<^verbatim>\<open>rt_object_find\<close> then finds it: it returns the first, that is youngest, object of the class
  whose name agrees with the given one in the first eight characters.
\<close>

theorem object_registry_typed:
  assumes "\<forall>c. object_list r0 c = []" and "obj_step\<^sup>*\<^sup>* r0 r" and "ty \<in> set object_container"
  shows "distinct (object_list r ty) \<and> rt_object_get_length ty r = length (object_list r ty) \<and>
    (\<forall>c ob. ob \<in> set (object_list r c) \<longrightarrow> c \<in> set object_container \<and> rt_object_get_type (objects r ob) = c) \<and>
    (\<forall>name. rt_object_find (Some name) ty r = find (\<lambda>ob. obj_name (objects r ob) = name_key name) (object_list r ty)) \<and>
    (\<forall>ob name. \<not> listed r ob \<longrightarrow> (\<exists>r'. rt_object_init ob ty name r = Some r' \<and> rt_object_find (Some name) ty r' = Some ob \<and>
      rt_object_is_systemobject (objects r' ob)))"
proof -
  have "reg_inv r0" using assms(1) by (simp add: reg_inv_def)
  then have inv: "reg_inv r" by (rule obj_run_inv [OF assms(2)])
  have "\<exists>r'. rt_object_init ob ty name r = Some r' \<and> rt_object_find (Some name) ty r' = Some ob \<and>
      rt_object_is_systemobject (objects r' ob)" if new: "\<not> listed r ob" for ob name
  proof -
    obtain r' where r': "rt_object_init ob ty name r = Some r'" "reg_inv r'" "object_list r' ty = ob # object_list r ty"
      "objects r' ob = (objects r ob)\<lparr>obj_type := ty OR RT_Object_Class_Static, obj_name := name_key name\<rparr>"
      using init_ok [OF inv new assms(3), of name] by auto
    have "(ty OR RT_Object_Class_Static) AND RT_Object_Class_Static \<noteq> 0"
      using container_type(4) [OF assms(3)] by (simp add: bit.conj_disj_distrib2 RT_Object_Class_Static_def)
    then show ?thesis using r' find_by_key [OF r'(2) assms(3)] by (simp add: rt_object_is_systemobject_def)
  qed
  then show ?thesis
    using inv find_by_key [OF inv assms(3)] get_length_ok [of ty r] assms(3) by (auto simp: reg_inv_def)
qed

definition empty_registry :: registry where
  "empty_registry = \<lparr>objects = \<lambda>_. \<lparr>obj_name = replicate 8 0, obj_type = 0, obj_flag = 0\<rparr>, object_list = \<lambda>_. []\<rparr>"

theorem object_registry_typed_witness:
  "\<exists>r. obj_step\<^sup>*\<^sup>* empty_registry r \<and> object_list r RT_Object_Class_Timer = [4] \<and>
    rt_object_get_type (objects r 4) = RT_Object_Class_Timer \<and> rt_object_get_length RT_Object_Class_Timer r = 1 \<and>
    (\<exists>r'. rt_object_init 5 RT_Object_Class_Timer [0x74, 0x31] r = Some r' \<and>
      rt_object_find (Some [0x74, 0x31]) RT_Object_Class_Timer r' = Some 5)"
proof -
  have ty: "RT_Object_Class_Timer \<in> set object_container" by (simp add: object_container_def)
  have e: "reg_inv empty_registry" "\<not> listed empty_registry 4" "\<forall>c. object_list empty_registry c = []"
    by (simp_all add: reg_inv_def listed_def empty_registry_def)
  obtain r where r: "rt_object_init 4 RT_Object_Class_Timer [0x77] empty_registry = Some r"
    "object_list r = (\<lambda>_. [])(RT_Object_Class_Timer := [4])"
    using init_ok [OF e(1,2) ty, of "[0x77]"] by (auto simp: empty_registry_def)
  have run: "obj_step\<^sup>*\<^sup>* empty_registry r" using obj_init [OF e(2) r(1)] by blast
  have "\<not> listed r 5" by (simp add: listed_def r(2))
  note t = object_registry_typed [OF e(3) run ty]
  have l: "object_list r RT_Object_Class_Timer = [4]" by (simp add: r(2))
  then have "rt_object_get_type (objects r 4) = RT_Object_Class_Timer" "rt_object_get_length RT_Object_Class_Timer r = 1"
    using t by simp_all
  moreover obtain r' where "rt_object_init 5 RT_Object_Class_Timer [0x74, 0x31] r = Some r'"
    "rt_object_find (Some [0x74, 0x31]) RT_Object_Class_Timer r' = Some 5" using t \<open>\<not> listed r 5\<close> by blast
  ultimately show ?thesis using run l by blast
qed

end
