(* ===== verification/Device.thy ===== *)
theory Device
  imports KObject
begin

unbundle bit_operations_syntax

text \<open>
  The device framework (\<^verbatim>\<open>rt-thread/src/device.c\<close>). The functions of a driver are parameters, null or a function on the device and
  the state of the hardware; the driver of serial devices (\<^verbatim>\<open>serial.c\<close>) is modelled as far as it changes the device and
  shown to be a driver as the framework expects it. The theorems show that registered devices have different names and are found by them, that
  the reference counter counts the users of a device, which is open as long as there is one; that a standalone device
  whose driver fails to close can never be opened again; and that \<^verbatim>\<open>rt_device_destroy\<close> stops in an assertion for every
  device that was created dynamically.
\<close>

section \<open>State\<close>

definition RT_ENOSYS :: int where "RT_ENOSYS = 6"

definition RT_DEVICE_FLAG_STANDALONE :: u16 where "RT_DEVICE_FLAG_STANDALONE = 0x008"
definition RT_DEVICE_FLAG_ACTIVATED :: u16 where "RT_DEVICE_FLAG_ACTIVATED = 0x010"
definition RT_DEVICE_OFLAG_CLOSE :: u16 where "RT_DEVICE_OFLAG_CLOSE = 0x000"
definition RT_DEVICE_OFLAG_OPEN :: u16 where "RT_DEVICE_OFLAG_OPEN = 0x008"
definition RT_DEVICE_OFLAG_MASK :: u16 where "RT_DEVICE_OFLAG_MASK = 0xf0f"

record rt_device =
  dev_class :: nat
  dev_flag :: u16
  open_flag :: u16
  ref_count :: u8
  rx_indicate :: "nat option"
  tx_complete :: "nat option"

text \<open>A driver function is null or returns its result, the device and the state of the hardware.\<close>

type_synonym ('a, 'h) driver_fun = "(rt_device \<Rightarrow> 'h \<Rightarrow> 'a \<times> rt_device \<times> 'h) option"

record 'h rt_device_ops =
  device_init :: "(int, 'h) driver_fun"
  device_open :: "u16 \<Rightarrow> (int, 'h) driver_fun"
  device_close :: "(int, 'h) driver_fun"
  device_read :: "int \<Rightarrow> nat \<Rightarrow> (u8 list, 'h) driver_fun"
  device_write :: "int \<Rightarrow> u8 list \<Rightarrow> (nat, 'h) driver_fun"
  device_control :: "int \<Rightarrow> nat \<Rightarrow> (int, 'h) driver_fun"

record 'h devices =
  reg :: registry
  devs :: "oid \<Rightarrow> rt_device"
  hw :: 'h
  dev_errno :: int

definition upd_dev :: "oid \<Rightarrow> (rt_device \<Rightarrow> rt_device) \<Rightarrow> 'h devices \<Rightarrow> 'h devices" where
  "upd_dev d f s = s\<lparr>devs := (devs s)(d := f (devs s d))\<rparr>"

definition call_driver :: "(rt_device \<Rightarrow> 'h \<Rightarrow> 'a \<times> rt_device \<times> 'h) \<Rightarrow> oid \<Rightarrow> 'h devices \<Rightarrow> 'a \<times> 'h devices" where
  "call_driver f d s = (let (r, dv, h) = f (devs s d) (hw s) in (r, s\<lparr>devs := (devs s)(d := dv), hw := h\<rparr>))"

definition is_device :: "oid \<Rightarrow> 'h devices \<Rightarrow> bool" where
  "is_device d s \<longleftrightarrow> rt_object_get_type (objects (reg s) d) = RT_Object_Class_Device"

section \<open>Operations\<close>

definition rt_device_find :: "u8 list option \<Rightarrow> 'h devices \<Rightarrow> oid option" where
  "rt_device_find name s = rt_object_find name RT_Object_Class_Device (reg s)"

text \<open>A null name finds no device, and is then copied: a null pointer access.\<close>

definition rt_device_register :: "oid option \<Rightarrow> u8 list option \<Rightarrow> u16 \<Rightarrow> 'h devices \<Rightarrow> (int \<times> 'h devices) option" where
  "rt_device_register dev name flags s =
     (case dev of
        None \<Rightarrow> Some (- RT_ERROR, s)
      | Some d \<Rightarrow>
          if rt_device_find name s \<noteq> None then Some (- RT_ERROR, s)
          else do { n \<leftarrow> name;
                    r \<leftarrow> rt_object_init d RT_Object_Class_Device n (reg s);
                    Some (RT_EOK, upd_dev d (\<lambda>dv. dv\<lparr>dev_flag := flags, ref_count := 0, open_flag := 0\<rparr>) (s\<lparr>reg := r\<rparr>)) })"

definition rt_device_unregister :: "oid \<Rightarrow> 'h devices \<Rightarrow> (int \<times> 'h devices) option" where
  "rt_device_unregister d s =
     (if is_device d s \<and> rt_object_is_systemobject (objects (reg s) d)
      then Some (RT_EOK, s\<lparr>reg := rt_object_detach d (reg s)\<rparr>) else None)"

text \<open>\<open>mem\<close> is the device for which \<^verbatim>\<open>rt_malloc\<close> returns memory.\<close>

definition rt_device_create :: "oid option \<Rightarrow> nat \<Rightarrow> 'h devices \<Rightarrow> oid option \<times> 'h devices" where
  "rt_device_create mem class s =
     (case mem of
        None \<Rightarrow> (None, s)
      | Some d \<Rightarrow> (Some d,
          upd_dev d (\<lambda>_. \<lparr>dev_class = class, dev_flag = 0, open_flag = 0, ref_count = 0, rx_indicate = None, tx_complete = None\<rparr>)
            (s\<lparr>reg := (reg s)\<lparr>objects := (objects (reg s))(d := \<lparr>obj_name = replicate RT_NAME_MAX 0, obj_type = 0, obj_flag = 0\<rparr>)\<rparr>\<rparr>)))"

definition rt_device_destroy :: "oid \<Rightarrow> 'h devices \<Rightarrow> 'h devices option" where
  "rt_device_destroy d s =
     (if is_device d s \<and> \<not> rt_object_is_systemobject (objects (reg s) d)
      then Some (s\<lparr>reg := rt_object_detach d (reg s)\<rparr>) else None)"

definition rt_device_init :: "(oid \<Rightarrow> 'h rt_device_ops) \<Rightarrow> oid \<Rightarrow> 'h devices \<Rightarrow> int \<times> 'h devices" where
  "rt_device_init ops d s =
     (case device_init (ops d) of
        None \<Rightarrow> (RT_EOK, s)
      | Some f \<Rightarrow>
          if dev_flag (devs s d) AND RT_DEVICE_FLAG_ACTIVATED \<noteq> 0 then (RT_EOK, s)
          else let (r, s1) = call_driver f d s
               in (r, if r \<noteq> RT_EOK then s1 else upd_dev d (\<lambda>dv. dv\<lparr>dev_flag := dev_flag dv OR RT_DEVICE_FLAG_ACTIVATED\<rparr>) s1))"

text \<open>\<^verbatim>\<open>rt_device_open\<close>: its initialisation, and the rest for an activated device.\<close>

definition open_activate :: "(oid \<Rightarrow> 'h rt_device_ops) \<Rightarrow> oid \<Rightarrow> 'h devices \<Rightarrow> int \<times> 'h devices" where
  "open_activate ops d s =
     (if dev_flag (devs s d) AND RT_DEVICE_FLAG_ACTIVATED \<noteq> 0 then (RT_EOK, s)
      else let (r, s1) = (case device_init (ops d) of None \<Rightarrow> (RT_EOK, s) | Some f \<Rightarrow> call_driver f d s)
           in if r \<noteq> RT_EOK then (r, s1) else (r, upd_dev d (\<lambda>dv. dv\<lparr>dev_flag := dev_flag dv OR RT_DEVICE_FLAG_ACTIVATED\<rparr>) s1))"

definition open_active :: "(oid \<Rightarrow> 'h rt_device_ops) \<Rightarrow> oid \<Rightarrow> u16 \<Rightarrow> 'h devices \<Rightarrow> (int \<times> 'h devices) option" where
  "open_active ops d oflag s =
     (if dev_flag (devs s d) AND RT_DEVICE_FLAG_STANDALONE \<noteq> 0 \<and> open_flag (devs s d) AND RT_DEVICE_OFLAG_OPEN \<noteq> 0
      then Some (- RT_EBUSY, s)
      else let (r, s1) = (case device_open (ops d) oflag of
                            None \<Rightarrow> (RT_EOK, upd_dev d (\<lambda>dv. dv\<lparr>open_flag := oflag AND RT_DEVICE_OFLAG_MASK\<rparr>) s)
                          | Some f \<Rightarrow> call_driver f d s)
           in if r = RT_EOK \<or> r = - RT_ENOSYS then
                let s2 = upd_dev d (\<lambda>dv. dv\<lparr>open_flag := open_flag dv OR RT_DEVICE_OFLAG_OPEN, ref_count := ref_count dv + 1\<rparr>) s1
                in if ref_count (devs s2 d) \<noteq> 0 then Some (r, s2) else None
              else Some (r, s1))"

definition rt_device_open :: "(oid \<Rightarrow> 'h rt_device_ops) \<Rightarrow> oid \<Rightarrow> u16 \<Rightarrow> 'h devices \<Rightarrow> (int \<times> 'h devices) option" where
  "rt_device_open ops d oflag s =
     (if \<not> is_device d s then None
      else let (r, s1) = open_activate ops d s in if r \<noteq> RT_EOK then Some (r, s1) else open_active ops d oflag s1)"

definition rt_device_close :: "(oid \<Rightarrow> 'h rt_device_ops) \<Rightarrow> oid \<Rightarrow> 'h devices \<Rightarrow> (int \<times> 'h devices) option" where
  "rt_device_close ops d s =
     (if \<not> is_device d s then None
      else if ref_count (devs s d) = 0 then Some (- RT_ERROR, s)
      else let s1 = upd_dev d (\<lambda>dv. dv\<lparr>ref_count := ref_count dv - 1\<rparr>) s
           in if ref_count (devs s1 d) \<noteq> 0 then Some (RT_EOK, s1)
              else let (r, s2) = (case device_close (ops d) of None \<Rightarrow> (RT_EOK, s1) | Some f \<Rightarrow> call_driver f d s1)
                   in Some (r, if r = RT_EOK \<or> r = - RT_ENOSYS
                               then upd_dev d (\<lambda>dv. dv\<lparr>open_flag := RT_DEVICE_OFLAG_CLOSE\<rparr>) s2 else s2))"

text \<open>The bytes read and the number of bytes written; \<^verbatim>\<open>rt_set_errno\<close> records the error.\<close>

definition rt_device_read :: "(oid \<Rightarrow> 'h rt_device_ops) \<Rightarrow> oid \<Rightarrow> int \<Rightarrow> nat \<Rightarrow> 'h devices \<Rightarrow> (u8 list \<times> 'h devices) option" where
  "rt_device_read ops d pos n s =
     (if \<not> is_device d s then None
      else if ref_count (devs s d) = 0 then Some ([], s\<lparr>dev_errno := - RT_ERROR\<rparr>)
      else case device_read (ops d) pos n of
             None \<Rightarrow> Some ([], s\<lparr>dev_errno := - RT_ENOSYS\<rparr>) | Some f \<Rightarrow> Some (call_driver f d s))"

definition rt_device_write :: "(oid \<Rightarrow> 'h rt_device_ops) \<Rightarrow> oid \<Rightarrow> int \<Rightarrow> u8 list \<Rightarrow> 'h devices \<Rightarrow> (nat \<times> 'h devices) option" where
  "rt_device_write ops d pos buf s =
     (if \<not> is_device d s then None
      else if ref_count (devs s d) = 0 then Some (0, s\<lparr>dev_errno := - RT_ERROR\<rparr>)
      else case device_write (ops d) pos buf of
             None \<Rightarrow> Some (0, s\<lparr>dev_errno := - RT_ENOSYS\<rparr>) | Some f \<Rightarrow> Some (call_driver f d s))"

definition rt_device_control :: "(oid \<Rightarrow> 'h rt_device_ops) \<Rightarrow> oid \<Rightarrow> int \<Rightarrow> nat \<Rightarrow> 'h devices \<Rightarrow> (int \<times> 'h devices) option" where
  "rt_device_control ops d cmd arg s =
     (if \<not> is_device d s then None
      else case device_control (ops d) cmd arg of None \<Rightarrow> Some (- RT_ENOSYS, s) | Some f \<Rightarrow> Some (call_driver f d s))"

definition rt_device_set_rx_indicate :: "oid \<Rightarrow> nat option \<Rightarrow> 'h devices \<Rightarrow> (int \<times> 'h devices) option" where
  "rt_device_set_rx_indicate d rx_ind s =
     (if is_device d s then Some (RT_EOK, upd_dev d (\<lambda>dv. dv\<lparr>rx_indicate := rx_ind\<rparr>) s) else None)"

definition rt_device_set_tx_complete :: "oid \<Rightarrow> nat option \<Rightarrow> 'h devices \<Rightarrow> (int \<times> 'h devices) option" where
  "rt_device_set_tx_complete d tx_done s =
     (if is_device d s then Some (RT_EOK, upd_dev d (\<lambda>dv. dv\<lparr>tx_complete := tx_done\<rparr>) s) else None)"

section \<open>Names\<close>

text \<open>Devices that are in no list are registered and registered devices removed; other objects come and go.\<close>

inductive name_step :: "'h devices \<Rightarrow> 'h devices \<Rightarrow> bool" where
  name_register: "\<not> listed (reg s) d \<Longrightarrow> rt_device_register (Some d) (Some name) flags s = Some (r, s') \<Longrightarrow> name_step s s'"
| name_unregister: "rt_device_find (Some name) s = Some d \<Longrightarrow> rt_device_unregister d s = Some (r, s') \<Longrightarrow> name_step s s'"

definition names_inv :: "'h devices \<Rightarrow> bool" where
  "names_inv s \<longleftrightarrow> reg_inv (reg s) \<and>
     inj_on (\<lambda>d. obj_name (objects (reg s) d)) (set (object_list (reg s) RT_Object_Class_Device)) \<and>
     (\<forall>d \<in> set (object_list (reg s) RT_Object_Class_Device). rt_object_is_systemobject (objects (reg s) d))"

lemma device_class: "RT_Object_Class_Device \<in> set object_container"
  by (simp add: object_container_def)

lemma device_static:
  assumes "reg_inv r" and "\<not> listed r d" and "rt_object_init d RT_Object_Class_Device name r = Some r'"
    and "\<forall>x \<in> set (object_list r RT_Object_Class_Device). rt_object_is_systemobject (objects r x)"
  shows "\<forall>x \<in> set (object_list r' RT_Object_Class_Device). rt_object_is_systemobject (objects r' x)"
proof -
  have "(RT_Object_Class_Device OR RT_Object_Class_Static) AND RT_Object_Class_Static \<noteq> 0" by (simp add: object_class_defs)
  then show ?thesis
    using init_ok [OF assms(1,2) device_class, of name] assms(3,4) by (auto simp: rt_object_is_systemobject_def)
qed

lemma register_ok:
  assumes "names_inv s" and "\<not> listed (reg s) d"
  shows "\<exists>r s'. rt_device_register (Some d) (Some name) flags s = Some (r, s') \<and> names_inv s' \<and>
    (if rt_device_find (Some name) s = None
     then r = RT_EOK \<and> rt_device_find (Some name) s' = Some d \<and> ref_count (devs s' d) = 0 \<and> open_flag (devs s' d) = 0 \<and> dev_flag (devs s' d) = flags
     else r = - RT_ERROR \<and> s' = s)"
proof (cases "rt_device_find (Some name) s")
  case None
  then obtain r' where r': "rt_object_init d RT_Object_Class_Device name (reg s) = Some r'" "reg_inv r'"
    "inj_on (\<lambda>x. obj_name (objects r' x)) (set (object_list r' RT_Object_Class_Device))"
    "rt_object_find (Some name) RT_Object_Class_Device r' = Some d"
    using device_registry.attach_unique [of "reg s" d name] assms by (auto simp: names_inv_def rt_device_find_def)
  have "\<forall>x \<in> set (object_list r' RT_Object_Class_Device). rt_object_is_systemobject (objects r' x)"
    using device_static [OF _ assms(2) r'(1)] assms(1) by (simp add: names_inv_def)
  then show ?thesis using None r' by (simp add: rt_device_register_def names_inv_def rt_device_find_def upd_dev_def)
next
  case (Some x)
  then show ?thesis using assms(1) by (simp add: rt_device_register_def)
qed

lemma unregister_inv:
  assumes "names_inv s" and "rt_device_find (Some name) s = Some d" and "rt_device_unregister d s = Some (r, s')"
  shows "names_inv s' \<and> rt_device_find (Some name) s' = None"
proof -
  have r: "reg_inv (reg s)" "inj_on (\<lambda>d. obj_name (objects (reg s) d)) (set (object_list (reg s) RT_Object_Class_Device))"
    "\<forall>d \<in> set (object_list (reg s) RT_Object_Class_Device). rt_object_is_systemobject (objects (reg s) d)"
    "rt_object_find (Some name) RT_Object_Class_Device (reg s) = Some d" "reg s' = rt_object_detach d (reg s)"
    using assms by (auto simp: names_inv_def rt_device_find_def rt_device_unregister_def split: if_splits)
  have "\<forall>x \<in> set (object_list (reg s') RT_Object_Class_Device). rt_object_is_systemobject (objects (reg s') x)"
    using r(3) by (simp add: r(5) rt_object_detach_def object_unlink_def)
  then show ?thesis
    using device_registry.detach_unique [OF r(1,2,4)] detach_inv [OF r(1), of d] by (simp add: names_inv_def rt_device_find_def r(5))
qed

lemma name_step_inv: "name_step s s' \<Longrightarrow> names_inv s \<Longrightarrow> names_inv s'"
proof (induction rule: name_step.induct)
  case (name_register s d name flags r s')
  then show ?case using register_ok [OF name_register(3,1), of name flags] by auto
next
  case (name_unregister name s d r s')
  then show ?case using unregister_inv by blast
qed

lemma name_run_inv: "name_step\<^sup>*\<^sup>* s s' \<Longrightarrow> names_inv s \<Longrightarrow> names_inv s'"
  by (induction rule: rtranclp_induct) (auto intro: name_step_inv)

section \<open>Users\<close>

text \<open>
  What the framework relies on. A driver never changes the reference counter of its device. Its functions
  other than close keep the marks of a standalone and of an activated device, its functions other than open
  and close the mark of an open device, and so does an open that fails; close may change all flags. An
  initialisation does not answer that it is not supported.
\<close>

definition same_marks :: "rt_device \<Rightarrow> rt_device \<Rightarrow> bool" where
  "same_marks dv dv' \<longleftrightarrow> ref_count dv' = ref_count dv \<and>
     dev_flag dv' AND RT_DEVICE_FLAG_STANDALONE = dev_flag dv AND RT_DEVICE_FLAG_STANDALONE \<and>
     dev_flag dv' AND RT_DEVICE_FLAG_ACTIVATED = dev_flag dv AND RT_DEVICE_FLAG_ACTIVATED"

definition driver_keeps :: "(rt_device \<Rightarrow> 'h \<Rightarrow> 'a \<times> rt_device \<times> 'h) \<Rightarrow> bool" where
  "driver_keeps f \<longleftrightarrow> (\<forall>dv h r dv' h'. f dv h = (r, dv', h') \<longrightarrow> same_marks dv dv' \<and>
     open_flag dv' AND RT_DEVICE_OFLAG_OPEN = open_flag dv AND RT_DEVICE_OFLAG_OPEN)"

definition driver_opens :: "(rt_device \<Rightarrow> 'h \<Rightarrow> int \<times> rt_device \<times> 'h) \<Rightarrow> bool" where
  "driver_opens f \<longleftrightarrow> (\<forall>dv h r dv' h'. f dv h = (r, dv', h') \<longrightarrow> same_marks dv dv' \<and>
     (r \<noteq> RT_EOK \<longrightarrow> r \<noteq> - RT_ENOSYS \<longrightarrow> open_flag dv' AND RT_DEVICE_OFLAG_OPEN = open_flag dv AND RT_DEVICE_OFLAG_OPEN))"

definition driver_closes :: "(rt_device \<Rightarrow> 'h \<Rightarrow> int \<times> rt_device \<times> 'h) \<Rightarrow> bool" where
  "driver_closes f \<longleftrightarrow> (\<forall>dv h r dv' h'. f dv h = (r, dv', h') \<longrightarrow> ref_count dv' = ref_count dv)"

definition driver_ok :: "'h rt_device_ops \<Rightarrow> bool" where
  "driver_ok p \<longleftrightarrow> (\<forall>f. device_init p = Some f \<longrightarrow> driver_keeps f \<and> (\<forall>dv h. fst (f dv h) \<noteq> - RT_ENOSYS)) \<and>
     (\<forall>oflag f. device_open p oflag = Some f \<longrightarrow> driver_opens f) \<and> (\<forall>f. device_close p = Some f \<longrightarrow> driver_closes f) \<and>
     (\<forall>pos n f. device_read p pos n = Some f \<longrightarrow> driver_keeps f) \<and> (\<forall>pos buf f. device_write p pos buf = Some f \<longrightarrow> driver_keeps f) \<and>
     (\<forall>cmd arg f. device_control p cmd arg = Some f \<longrightarrow> driver_keeps f)"

lemma driver_okD:
  assumes "driver_ok p"
  shows "device_init p = Some f \<Longrightarrow> driver_keeps f" and "device_open p oflag = Some g \<Longrightarrow> driver_opens g"
    and "device_close p = Some f \<Longrightarrow> driver_closes f" and "device_read p pos n = Some u \<Longrightarrow> driver_keeps u"
    and "device_write p pos buf = Some v \<Longrightarrow> driver_keeps v" and "device_control p cmd arg = Some f \<Longrightarrow> driver_keeps f"
  using assms by (simp_all add: driver_ok_def)

definition dev_opened :: "rt_device \<Rightarrow> bool" where
  "dev_opened dv \<longleftrightarrow> open_flag dv AND RT_DEVICE_OFLAG_OPEN \<noteq> 0"

definition standalone :: "rt_device \<Rightarrow> bool" where
  "standalone dv \<longleftrightarrow> dev_flag dv AND RT_DEVICE_FLAG_STANDALONE \<noteq> 0"

definition activated :: "rt_device \<Rightarrow> bool" where
  "activated dv \<longleftrightarrow> dev_flag dv AND RT_DEVICE_FLAG_ACTIVATED \<noteq> 0"

lemma flag_or_set: "(x OR 0x10) AND 0x10 \<noteq> (0 :: u16)" "(x OR 0x10) AND 0x8 = x AND (0x8 :: u16)" "(x OR 0x8) AND 0x8 \<noteq> (0 :: u16)"
proof -
  have "bit ((x OR 0x10) AND 0x10) 4" "bit ((x OR 0x8) AND 0x8) 3" by (simp_all add: bit_simps)
  then show "(x OR 0x10) AND 0x10 \<noteq> 0" "(x OR 0x8) AND 0x8 \<noteq> 0" by auto
  show "(x OR 0x10) AND 0x8 = x AND 0x8" by (simp add: bit.conj_disj_distrib2)
qed

lemmas device_flag_defs = dev_opened_def standalone_def activated_def RT_DEVICE_OFLAG_OPEN_def RT_DEVICE_FLAG_STANDALONE_def
  RT_DEVICE_FLAG_ACTIVATED_def

text \<open>The counter, and the mark of an open and activated device while there are users; a standalone device has at most one.\<close>

definition use_inv :: "rt_device \<Rightarrow> nat \<Rightarrow> nat \<Rightarrow> bool" where
  "use_inv dv granted returned \<longleftrightarrow> unat (ref_count dv) + returned = granted \<and>
     (ref_count dv \<noteq> 0 \<longrightarrow> dev_opened dv \<and> activated dv) \<and> (standalone dv \<longrightarrow> ref_count dv \<noteq> 0 \<longrightarrow> ref_count dv = 1)"

inductive use_step :: "('h rt_device_ops) \<Rightarrow> oid \<Rightarrow> 'h devices \<times> nat \<times> nat \<Rightarrow> 'h devices \<times> nat \<times> nat \<Rightarrow> bool" for p d where
  use_open: "rt_device_open (\<lambda>_. p) d oflag s = Some (r, s') \<Longrightarrow>
    use_step p d (s, granted, returned) (s', if r = RT_EOK \<or> r = - RT_ENOSYS then granted + 1 else granted, returned)"
| use_close: "rt_device_close (\<lambda>_. p) d s = Some (r, s') \<Longrightarrow>
    use_step p d (s, granted, returned) (s', granted, if ref_count (devs s d) = 0 then returned else returned + 1)"
| use_init: "rt_device_init (\<lambda>_. p) d s = (r, s') \<Longrightarrow> use_step p d (s, granted, returned) (s', granted, returned)"
| use_read: "rt_device_read (\<lambda>_. p) d pos n s = Some (bs, s') \<Longrightarrow> use_step p d (s, granted, returned) (s', granted, returned)"
| use_write: "rt_device_write (\<lambda>_. p) d pos buf s = Some (m, s') \<Longrightarrow> use_step p d (s, granted, returned) (s', granted, returned)"
| use_control: "rt_device_control (\<lambda>_. p) d cmd arg s = Some (r, s') \<Longrightarrow> use_step p d (s, granted, returned) (s', granted, returned)"
| use_other: "devs s' d = devs s d \<Longrightarrow> use_step p d (s, granted, returned) (s', granted, returned)"

lemma call_keeps:
  assumes "driver_keeps f" and "call_driver f d s = (r, s')"
  shows "ref_count (devs s' d) = ref_count (devs s d) \<and> dev_opened (devs s' d) = dev_opened (devs s d) \<and>
    standalone (devs s' d) = standalone (devs s d) \<and> activated (devs s' d) = activated (devs s d) \<and> r = fst (f (devs s d) (hw s))"
proof -
  obtain r1 dv h where f: "f (devs s d) (hw s) = (r1, dv, h)" by (metis prod_cases3)
  then have "same_marks (devs s d) dv" "open_flag dv AND RT_DEVICE_OFLAG_OPEN = open_flag (devs s d) AND RT_DEVICE_OFLAG_OPEN"
    using assms(1) unfolding driver_keeps_def by blast+
  then show ?thesis using assms(2) f by (auto simp: call_driver_def dev_opened_def standalone_def activated_def same_marks_def)
qed

lemma call_opens:
  assumes "driver_opens f" and "call_driver f d s = (r, s')"
  shows "ref_count (devs s' d) = ref_count (devs s d) \<and> standalone (devs s' d) = standalone (devs s d) \<and>
    activated (devs s' d) = activated (devs s d) \<and>
    (r \<noteq> RT_EOK \<longrightarrow> r \<noteq> - RT_ENOSYS \<longrightarrow> dev_opened (devs s' d) = dev_opened (devs s d))"
proof -
  obtain r1 dv h where f: "f (devs s d) (hw s) = (r1, dv, h)" by (metis prod_cases3)
  then have "same_marks (devs s d) dv"
    "r1 \<noteq> RT_EOK \<longrightarrow> r1 \<noteq> - RT_ENOSYS \<longrightarrow> open_flag dv AND RT_DEVICE_OFLAG_OPEN = open_flag (devs s d) AND RT_DEVICE_OFLAG_OPEN"
    using assms(1) unfolding driver_opens_def by blast+
  then show ?thesis using assms(2) f by (auto simp: call_driver_def dev_opened_def standalone_def activated_def same_marks_def)
qed

lemma call_closes:
  assumes "driver_closes f" and "call_driver f d s = (r, s')"
  shows "ref_count (devs s' d) = ref_count (devs s d)"
proof -
  obtain r1 dv h where f: "f (devs s d) (hw s) = (r1, dv, h)" by (metis prod_cases3)
  then have "ref_count dv = ref_count (devs s d)" using assms(1) unfolding driver_closes_def by blast
  then show ?thesis using assms(2) f by (auto simp: call_driver_def)
qed

lemma use_keeps:
  "use_inv dv granted returned \<Longrightarrow> ref_count dv' = ref_count dv \<Longrightarrow> dev_opened dv' = dev_opened dv \<Longrightarrow> standalone dv' = standalone dv \<Longrightarrow>
   activated dv \<longrightarrow> activated dv' \<Longrightarrow> use_inv dv' granted returned"
  by (auto simp: use_inv_def)

lemma activate_keeps:
  assumes "driver_ok p" and "open_activate (\<lambda>_. p) d s = (r, s')"
  shows "ref_count (devs s' d) = ref_count (devs s d) \<and> dev_opened (devs s' d) = dev_opened (devs s d) \<and>
    standalone (devs s' d) = standalone (devs s d) \<and> (activated (devs s d) \<longrightarrow> activated (devs s' d)) \<and>
    (r = RT_EOK \<longrightarrow> activated (devs s' d)) \<and> r \<noteq> - RT_ENOSYS"
proof (cases "activated (devs s d) \<or> device_init p = None")
  case True
  then show ?thesis
    using assms(2) by (auto simp: open_activate_def upd_dev_def device_flag_defs flag_or_set RT_EOK_def RT_ENOSYS_def split: if_splits)
next
  case False
  then obtain f where f: "device_init p = Some f" "driver_keeps f" "\<forall>dv h. fst (f dv h) \<noteq> - RT_ENOSYS"
    using assms(1) by (auto simp: driver_ok_def)
  obtain r1 s1 where c: "call_driver f d s = (r1, s1)" by fastforce
  show ?thesis
    using call_keeps [OF f(2) c] f(3) assms(2) False f(1) c
    by (auto simp: open_activate_def upd_dev_def device_flag_defs flag_or_set split: if_splits)
qed

lemma open_active_use:
  assumes "driver_ok p" and "use_inv (devs s d) granted returned" and "activated (devs s d)"
    and "open_active (\<lambda>_. p) d oflag s = Some (r, s')"
  shows "use_inv (devs s' d) (if r = RT_EOK \<or> r = - RT_ENOSYS then granted + 1 else granted) returned"
proof (cases "standalone (devs s d) \<and> dev_opened (devs s d)")
  case True
  then show ?thesis using assms(2,4) by (auto simp: open_active_def standalone_def dev_opened_def RT_EBUSY_def RT_EOK_def RT_ENOSYS_def)
next
  case False
  obtain r1 s1 where c: "(case device_open p oflag of None \<Rightarrow> (RT_EOK, upd_dev d (\<lambda>dv. dv\<lparr>open_flag := oflag AND RT_DEVICE_OFLAG_MASK\<rparr>) s)
      | Some f \<Rightarrow> call_driver f d s) = (r1, s1)" by fastforce
  have k: "ref_count (devs s1 d) = ref_count (devs s d)" "standalone (devs s1 d) = standalone (devs s d)"
    "activated (devs s1 d) = activated (devs s d)"
    "r1 \<noteq> RT_EOK \<longrightarrow> r1 \<noteq> - RT_ENOSYS \<longrightarrow> dev_opened (devs s1 d) = dev_opened (devs s d)"
    using c call_opens [OF driver_okD(2) [OF assms(1)], of oflag _ d s r1 s1]
    by (auto simp: upd_dev_def standalone_def activated_def split: option.splits)
  have st: "standalone (devs s d) \<longrightarrow> ref_count (devs s d) = 0" using False assms(2) by (auto simp: use_inv_def)
  have n: "unat (ref_count (devs s d) + 1) = Suc (unat (ref_count (devs s d)))" if "ref_count (devs s d) + 1 \<noteq> 0"
    using unatSuc [of "ref_count (devs s d)"] that by (simp add: add.commute)
  show ?thesis
  proof (cases "r1 = RT_EOK \<or> r1 = - RT_ENOSYS")
    case True
    then have "r = r1" "devs s' d = (devs s1 d)\<lparr>open_flag := open_flag (devs s1 d) OR RT_DEVICE_OFLAG_OPEN, ref_count := ref_count (devs s1 d) + 1\<rparr>"
      "ref_count (devs s d) + 1 \<noteq> 0"
      using assms(4) False c k(1) by (auto simp: open_active_def standalone_def dev_opened_def upd_dev_def Let_def split: if_splits)
    then show ?thesis
      using True assms(2,3) k st n by (auto simp: use_inv_def device_flag_defs flag_or_set)
  next
    case err: False
    then have "r = r1" "s' = s1" using assms(4) False c by (auto simp: open_active_def standalone_def dev_opened_def split: if_splits)
    then show ?thesis using err k use_keeps [OF assms(2)] by simp
  qed
qed

lemma close_use:
  assumes "driver_ok p" and "use_inv (devs s d) granted returned" and "rt_device_close (\<lambda>_. p) d s = Some (r, s')"
  shows "use_inv (devs s' d) granted (if ref_count (devs s d) = 0 then returned else returned + 1)"
proof (cases "ref_count (devs s d) = 0")
  case True
  then show ?thesis using assms(2,3) by (simp add: rt_device_close_def split: if_splits)
next
  case False
  define s1 where "s1 = upd_dev d (\<lambda>dv. dv\<lparr>ref_count := ref_count dv - 1\<rparr>) s"
  have n: "Suc (unat (ref_count (devs s d) - 1)) = unat (ref_count (devs s d))"
    using False by (metis Suc_pred' unat_gt_0 unat_minus_one)
  have one: "ref_count (devs s d) = 1" if "standalone (devs s d)" using False that assms(2) by (simp add: use_inv_def)
  show ?thesis
  proof (cases "ref_count (devs s1 d) = 0")
    case True
    obtain r2 s2 where c: "(case device_close p of None \<Rightarrow> (RT_EOK, s1) | Some f \<Rightarrow> call_driver f d s1) = (r2, s2)" by fastforce
    have "ref_count (devs s2 d) = ref_count (devs s1 d)"
      using c assms(1) call_closes [of _ d s1 r2 s2] by (auto simp: driver_ok_def split: option.splits)
    moreover have "ref_count (devs s' d) = ref_count (devs s2 d)"
      using assms(3) False True c unfolding s1_def [symmetric] rt_device_close_def Let_def
      by (auto simp: upd_dev_def s1_def [symmetric] split: if_splits)
    ultimately show ?thesis using True False n assms(2) by (simp add: use_inv_def s1_def upd_dev_def)
  next
    case more: False
    then have "s' = s1" using assms(3) False by (auto simp: rt_device_close_def Let_def s1_def split: if_splits)
    then show ?thesis using more False n one assms(2) by (auto simp: use_inv_def s1_def upd_dev_def device_flag_defs)
  qed
qed

lemma init_use:
  assumes "driver_ok p" and "use_inv (devs s d) granted returned" and "rt_device_init (\<lambda>_. p) d s = (r, s')"
  shows "use_inv (devs s' d) granted returned"
proof (cases "device_init p")
  case None
  then show ?thesis using assms(2,3) by (simp add: rt_device_init_def)
next
  case (Some f)
  obtain r1 s1 where c: "call_driver f d s = (r1, s1)" by fastforce
  have "driver_keeps f" using Some assms(1) by (simp add: driver_ok_def)
  note k = call_keeps [OF this c]
  show ?thesis
  proof (cases "activated (devs s d) \<or> r1 \<noteq> RT_EOK")
    case True
    then have "s' = s \<or> s' = s1" using assms(3) Some c by (auto simp: rt_device_init_def activated_def split: if_splits)
    then show ?thesis using use_keeps [OF assms(2)] k assms(2) by auto
  next
    case False
    then have "devs s' d = (devs s1 d)\<lparr>dev_flag := dev_flag (devs s1 d) OR RT_DEVICE_FLAG_ACTIVATED\<rparr>"
      using assms(3) Some c by (auto simp: rt_device_init_def activated_def upd_dev_def split: if_splits)
    then show ?thesis using k by (intro use_keeps [OF assms(2)]) (auto simp: device_flag_defs flag_or_set)
  qed
qed

lemma open_use:
  assumes "driver_ok p" and "use_inv (devs s d) granted returned" and "rt_device_open (\<lambda>_. p) d oflag s = Some (r, s')"
  shows "use_inv (devs s' d) (if r = RT_EOK \<or> r = - RT_ENOSYS then granted + 1 else granted) returned"
proof -
  obtain r1 s1 where a: "open_activate (\<lambda>_. p) d s = (r1, s1)" by fastforce
  note k = activate_keeps [OF assms(1) a]
  have u: "use_inv (devs s1 d) granted returned" using k by (intro use_keeps [OF assms(2)]) auto
  show ?thesis
  proof (cases "r1 = RT_EOK")
    case True
    then have "open_active (\<lambda>_. p) d oflag s1 = Some (r, s')" "activated (devs s1 d)"
      using k assms(3) a by (auto simp: rt_device_open_def split: if_splits)
    then show ?thesis using open_active_use [OF assms(1) u] by blast
  next
    case False
    then show ?thesis using u k assms(3) a by (auto simp: rt_device_open_def split: if_splits)
  qed
qed

lemma call_use:
  assumes "driver_keeps f" and "use_inv (devs s d) granted returned" and "call_driver f d s = (r, s')"
  shows "use_inv (devs s' d) granted returned"
  using call_keeps [OF assms(1,3)] by (intro use_keeps [OF assms(2)]) auto

lemma use_step_inv: "use_step p d c c' \<Longrightarrow> driver_ok p \<Longrightarrow> (\<lambda>(s, g, t). use_inv (devs s d) g t) c \<Longrightarrow> (\<lambda>(s, g, t). use_inv (devs s d) g t) c'"
proof (induction rule: use_step.induct)
  case (use_open oflag s r s' granted returned)
  have "use_inv (devs s d) granted returned" using use_open(3) by simp
  from open_use [OF use_open(2) this use_open(1)] show ?case by (simp only: prod.case)
next
  case (use_close s r s' granted returned)
  have "use_inv (devs s d) granted returned" using use_close(3) by simp
  from close_use [OF use_close(2) this use_close(1)] show ?case by (simp only: prod.case)
next
  case (use_init s r s' granted returned)
  have "use_inv (devs s d) granted returned" using use_init(3) by simp
  from init_use [OF use_init(2) this use_init(1)] show ?case by simp
next
  case (use_read pos n s bs s' granted returned)
  then show ?case using call_use [OF driver_okD(4)]
    by (auto simp: rt_device_read_def split: if_splits option.splits)
next
  case (use_write pos buf s m s' granted returned)
  then show ?case using call_use [OF driver_okD(5)]
    by (auto simp: rt_device_write_def split: if_splits option.splits)
next
  case (use_control cmd arg s r s' granted returned)
  then show ?case using call_use [OF driver_okD(6)]
    by (auto simp: rt_device_control_def split: if_splits option.splits)
qed simp

lemma use_run_inv:
  assumes "(use_step p d)\<^sup>*\<^sup>* c c'" and "driver_ok p" and "(\<lambda>(s, g, t). use_inv (devs s d) g t) c"
  shows "(\<lambda>(s, g, t). use_inv (devs s d) g t) c'"
  using assms(1,3) by (induction rule: rtranclp_induct) (auto dest: use_step_inv [OF _ assms(2)])

section \<open>The serial driver\<close>

text \<open>
  The driver of serial devices (\<^verbatim>\<open>components/drivers/serial/serial.c\<close>, without DMA, which is not configured)
  as far as it changes the device structure: initialisation, open, close and control. The functions of the
  hardware (\<^verbatim>\<open>struct rt_uart_ops\<close>) and the two transfer functions, which only use the open flag of the device,
  are parameters; \<open>config_at\<close> is what a pointer argument points to. Memory for the buffers is taken to be
  available, as the code asserts, and so are the buffers that close releases. \<open>serial_rx\<close> and \<open>serial_tx\<close> are the
  pointers to the buffers, \<open>line_bits\<close> the small bit fields of the configuration.
\<close>

definition RT_DEVICE_FLAG_SUSPENDED :: u16 where "RT_DEVICE_FLAG_SUSPENDED = 0x020"
definition RT_DEVICE_FLAG_STREAM :: u16 where "RT_DEVICE_FLAG_STREAM = 0x040"
definition RT_DEVICE_FLAG_INT_RX :: u16 where "RT_DEVICE_FLAG_INT_RX = 0x100"
definition RT_DEVICE_FLAG_DMA_RX :: u16 where "RT_DEVICE_FLAG_DMA_RX = 0x200"
definition RT_DEVICE_FLAG_INT_TX :: u16 where "RT_DEVICE_FLAG_INT_TX = 0x400"
definition RT_DEVICE_FLAG_DMA_TX :: u16 where "RT_DEVICE_FLAG_DMA_TX = 0x800"

definition RT_DEVICE_CTRL_RESUME :: int where "RT_DEVICE_CTRL_RESUME = 0x01"
definition RT_DEVICE_CTRL_SUSPEND :: int where "RT_DEVICE_CTRL_SUSPEND = 0x02"
definition RT_DEVICE_CTRL_CONFIG :: int where "RT_DEVICE_CTRL_CONFIG = 0x03"
definition RT_DEVICE_CTRL_CLOSE :: int where "RT_DEVICE_CTRL_CLOSE = 0x04"
definition RT_DEVICE_CTRL_SET_INT :: int where "RT_DEVICE_CTRL_SET_INT = 0x10"
definition RT_DEVICE_CTRL_CLR_INT :: int where "RT_DEVICE_CTRL_CLR_INT = 0x11"

record serial_configure =
  baud_rate :: u32
  line_bits :: u16
  bufsz :: u16

record serial_rx_fifo =
  rx_buffer :: "u8 list"
  rx_put_index :: u16
  rx_get_index :: u16
  rx_is_full :: bool

record 'u rt_serial_device =
  serial_config :: serial_configure
  serial_rx :: "serial_rx_fifo option"
  serial_tx :: bool
  uart :: 'u

record 'u rt_uart_ops =
  uart_configure :: "(serial_configure \<Rightarrow> 'u \<Rightarrow> int \<times> 'u) option"
  uart_control :: "int \<Rightarrow> nat \<Rightarrow> 'u \<Rightarrow> int \<times> 'u"

definition uart_ctrl :: "'u rt_uart_ops \<Rightarrow> int \<Rightarrow> u16 \<Rightarrow> 'u rt_serial_device \<Rightarrow> 'u rt_serial_device" where
  "uart_ctrl uo cmd arg h = h\<lparr>uart := snd (uart_control uo cmd (unat arg) (uart h))\<rparr>"

definition rt_serial_init ::
  "'u rt_uart_ops \<Rightarrow> rt_device \<Rightarrow> 'u rt_serial_device \<Rightarrow> int \<times> rt_device \<times> 'u rt_serial_device" where
  "rt_serial_init uo dv h =
     (let h1 = h\<lparr>serial_rx := None, serial_tx := False\<rparr>
      in case uart_configure uo of
           None \<Rightarrow> (RT_EOK, dv, h1)
         | Some f \<Rightarrow> (case f (serial_config h1) (uart h1) of (r, u) \<Rightarrow> (r, dv, h1\<lparr>uart := u\<rparr>)))"

definition new_rx_fifo :: "u16 \<Rightarrow> serial_rx_fifo" where
  "new_rx_fifo n = \<lparr>rx_buffer = replicate (unat n) 0, rx_put_index = 0, rx_get_index = 0, rx_is_full = False\<rparr>"

definition rt_serial_open ::
  "'u rt_uart_ops \<Rightarrow> u16 \<Rightarrow> rt_device \<Rightarrow> 'u rt_serial_device \<Rightarrow> int \<times> rt_device \<times> 'u rt_serial_device" where
  "rt_serial_open uo oflag dv h =
     (if oflag AND RT_DEVICE_FLAG_DMA_RX \<noteq> 0 \<and> dev_flag dv AND RT_DEVICE_FLAG_DMA_RX = 0 then (- RT_EIO, dv, h)
      else if oflag AND RT_DEVICE_FLAG_DMA_TX \<noteq> 0 \<and> dev_flag dv AND RT_DEVICE_FLAG_DMA_TX = 0 then (- RT_EIO, dv, h)
      else if oflag AND RT_DEVICE_FLAG_INT_RX \<noteq> 0 \<and> dev_flag dv AND RT_DEVICE_FLAG_INT_RX = 0 then (- RT_EIO, dv, h)
      else if oflag AND RT_DEVICE_FLAG_INT_TX \<noteq> 0 \<and> dev_flag dv AND RT_DEVICE_FLAG_INT_TX = 0 then (- RT_EIO, dv, h)
      else let stream_flag = (if oflag AND RT_DEVICE_FLAG_STREAM \<noteq> 0 \<or> open_flag dv AND RT_DEVICE_FLAG_STREAM \<noteq> 0
                              then RT_DEVICE_FLAG_STREAM else 0);
               int_rx = (if oflag AND RT_DEVICE_FLAG_INT_RX \<noteq> 0 then RT_DEVICE_FLAG_INT_RX else 0);
               int_tx = (if oflag AND RT_DEVICE_FLAG_INT_TX \<noteq> 0 then RT_DEVICE_FLAG_INT_TX else 0);
               h1 = (if serial_rx h = None \<and> oflag AND RT_DEVICE_FLAG_INT_RX \<noteq> 0
                     then uart_ctrl uo RT_DEVICE_CTRL_SET_INT RT_DEVICE_FLAG_INT_RX
                            (h\<lparr>serial_rx := Some (new_rx_fifo (bufsz (serial_config h)))\<rparr>) else h);
               h2 = (if \<not> serial_tx h1 \<and> oflag AND RT_DEVICE_FLAG_INT_TX \<noteq> 0
                     then uart_ctrl uo RT_DEVICE_CTRL_SET_INT RT_DEVICE_FLAG_INT_TX (h1\<lparr>serial_tx := True\<rparr>) else h1)
           in (RT_EOK, dv\<lparr>open_flag := (oflag AND 0xff) OR int_rx OR int_tx OR stream_flag\<rparr>, h2))"

definition rt_serial_close ::
  "'u rt_uart_ops \<Rightarrow> rt_device \<Rightarrow> 'u rt_serial_device \<Rightarrow> int \<times> rt_device \<times> 'u rt_serial_device" where
  "rt_serial_close uo dv h =
     (if ref_count dv > 1 then (RT_EOK, dv, h)
      else let (dv1, h1) = (if open_flag dv AND RT_DEVICE_FLAG_INT_RX \<noteq> 0
                  then (dv\<lparr>open_flag := open_flag dv AND NOT RT_DEVICE_FLAG_INT_RX\<rparr>,
                        (uart_ctrl uo RT_DEVICE_CTRL_CLR_INT RT_DEVICE_FLAG_INT_RX h)\<lparr>serial_rx := None\<rparr>) else (dv, h));
               (dv2, h2) = (if open_flag dv1 AND RT_DEVICE_FLAG_INT_TX \<noteq> 0
                  then (dv1\<lparr>open_flag := open_flag dv1 AND NOT RT_DEVICE_FLAG_INT_TX\<rparr>,
                        (uart_ctrl uo RT_DEVICE_CTRL_CLR_INT RT_DEVICE_FLAG_INT_TX h1)\<lparr>serial_tx := False\<rparr>) else (dv1, h1))
           in (RT_EOK, dv2\<lparr>dev_flag := dev_flag dv2 AND NOT RT_DEVICE_FLAG_ACTIVATED\<rparr>, uart_ctrl uo RT_DEVICE_CTRL_CLOSE 0 h2))"

definition rt_serial_control ::
  "'u rt_uart_ops \<Rightarrow> (nat \<Rightarrow> serial_configure option) \<Rightarrow> int \<Rightarrow> nat \<Rightarrow> rt_device \<Rightarrow> 'u rt_serial_device \<Rightarrow>
   int \<times> rt_device \<times> 'u rt_serial_device" where
  "rt_serial_control uo config_at cmd args dv h =
     (if cmd = RT_DEVICE_CTRL_SUSPEND then (RT_EOK, dv\<lparr>dev_flag := dev_flag dv OR RT_DEVICE_FLAG_SUSPENDED\<rparr>, h)
      else if cmd = RT_DEVICE_CTRL_RESUME then (RT_EOK, dv\<lparr>dev_flag := dev_flag dv AND NOT RT_DEVICE_FLAG_SUSPENDED\<rparr>, h)
      else if cmd = RT_DEVICE_CTRL_CONFIG then
        (case config_at args of
           None \<Rightarrow> (RT_EOK, dv, h)
         | Some c \<Rightarrow>
             if bufsz c \<noteq> bufsz (serial_config h) \<and> ref_count dv \<noteq> 0 then (RT_EBUSY, dv, h)
             else let h1 = h\<lparr>serial_config := c\<rparr>
                  in (RT_EOK, dv,
                      if ref_count dv \<noteq> 0 then h1\<lparr>uart := (case uart_configure uo of None \<Rightarrow> uart h1 | Some f \<Rightarrow> snd (f c (uart h1)))\<rparr> else h1))
      else (case uart_control uo cmd args (uart h) of (r, u) \<Rightarrow> (r, dv, h\<lparr>uart := u\<rparr>)))"

definition serial_driver ::
  "'u rt_uart_ops \<Rightarrow> (nat \<Rightarrow> serial_configure option) \<Rightarrow>
   (u16 \<Rightarrow> nat \<Rightarrow> 'u rt_serial_device \<Rightarrow> u8 list \<times> 'u rt_serial_device) \<Rightarrow>
   (u16 \<Rightarrow> u8 list \<Rightarrow> 'u rt_serial_device \<Rightarrow> nat \<times> 'u rt_serial_device) \<Rightarrow> 'u rt_serial_device rt_device_ops" where
  "serial_driver uo config_at rx tx =
     \<lparr>device_init = Some (rt_serial_init uo),
      device_open = (\<lambda>oflag. Some (rt_serial_open uo oflag)),
      device_close = Some (rt_serial_close uo),
      device_read = (\<lambda>pos n. Some (\<lambda>dv h. if n = 0 then ([], dv, h) else case rx (open_flag dv) n h of (bs, h') \<Rightarrow> (bs, dv, h'))),
      device_write = (\<lambda>pos buf. Some (\<lambda>dv h. if buf = [] then (0, dv, h) else case tx (open_flag dv) buf h of (m, h') \<Rightarrow> (m, dv, h'))),
      device_control = (\<lambda>cmd args. Some (rt_serial_control uo config_at cmd args))\<rparr>"

lemmas serial_flag_defs = RT_DEVICE_FLAG_SUSPENDED_def RT_DEVICE_FLAG_STREAM_def RT_DEVICE_FLAG_INT_RX_def RT_DEVICE_FLAG_DMA_RX_def
  RT_DEVICE_FLAG_INT_TX_def RT_DEVICE_FLAG_DMA_TX_def

text \<open>The driver does what the framework relies on, when the hardware is configured or reports another error.\<close>

lemma serial_init_keeps: "driver_keeps (rt_serial_init uo)"
  by (auto simp: driver_keeps_def same_marks_def rt_serial_init_def Let_def split: option.splits prod.splits)

lemma serial_open_opens: "driver_opens (rt_serial_open uo oflag)"
  by (auto simp: driver_opens_def same_marks_def rt_serial_open_def Let_def split: if_splits)

lemma serial_close_closes: "driver_closes (rt_serial_close uo)"
  by (auto simp: driver_closes_def rt_serial_close_def Let_def split: if_splits)

lemma suspend_marks:
  "(x OR 0x20) AND 0x8 = x AND (0x8 :: u16)" "(x OR 0x20) AND 0x10 = x AND (0x10 :: u16)"
  "(x AND - 0x21) AND 0x8 = x AND (0x8 :: u16)" "(x AND - 0x21) AND 0x10 = x AND (0x10 :: u16)"
  by (simp_all add: bit.conj_disj_distrib2 and.assoc)

lemma serial_control_keeps: "driver_keeps (rt_serial_control uo config_at cmd args)"
  by (auto simp: driver_keeps_def same_marks_def rt_serial_control_def Let_def RT_DEVICE_FLAG_STANDALONE_def RT_DEVICE_FLAG_ACTIVATED_def
      RT_DEVICE_FLAG_SUSPENDED_def suspend_marks split: if_splits option.splits prod.splits)

lemma serial_transfer_keeps:
  "driver_keeps (\<lambda>dv h. if c then (a, dv, h) else case t (open_flag dv) b h of (x, h') \<Rightarrow> (x, dv, h'))"
  by (auto simp: driver_keeps_def same_marks_def split: if_splits prod.splits)

lemma serial_driver_ok:
  assumes "\<forall>f c u. uart_configure uo = Some f \<longrightarrow> fst (f c u) \<noteq> - RT_ENOSYS"
  shows "driver_ok (serial_driver uo config_at rx tx)"
proof -
  have "fst (rt_serial_init uo dv h) \<noteq> - RT_ENOSYS" for dv h
    using assms by (auto simp: rt_serial_init_def Let_def RT_EOK_def RT_ENOSYS_def split: option.splits prod.splits) (metis fst_conv)
  then show ?thesis
    by (simp add: driver_ok_def serial_driver_def serial_init_keeps serial_open_opens serial_close_closes serial_control_keeps
        serial_transfer_keeps)
qed

section \<open>Properties\<close>

text \<open>
  Property C35. Device names: in every run of registrations and removals the registered devices have different names (in the first
  eight characters); \<^verbatim>\<open>rt_device_find\<close> finds a device exactly by its name; a registration under a free name succeeds and makes the
  device findable, one under a name that is taken returns \<^verbatim>\<open>-RT_ERROR\<close> and changes nothing; a device that was found can
  be removed, and its name is free again.
\<close>

theorem device_names_unique:
  assumes "\<forall>c. object_list (reg s0) c = []" and "name_step\<^sup>*\<^sup>* s0 s"
  shows "inj_on (\<lambda>d. obj_name (objects (reg s) d)) (set (object_list (reg s) RT_Object_Class_Device)) \<and>
    (\<forall>name d. rt_device_find (Some name) s = Some d \<longleftrightarrow>
      d \<in> set (object_list (reg s) RT_Object_Class_Device) \<and> obj_name (objects (reg s) d) = name_key name) \<and>
    (\<forall>name d flags. \<not> listed (reg s) d \<longrightarrow>
      (if rt_device_find (Some name) s = None
       then \<exists>s'. rt_device_register (Some d) (Some name) flags s = Some (RT_EOK, s') \<and> rt_device_find (Some name) s' = Some d
       else rt_device_register (Some d) (Some name) flags s = Some (- RT_ERROR, s))) \<and>
    (\<forall>name d. rt_device_find (Some name) s = Some d \<longrightarrow>
      (\<exists>s'. rt_device_unregister d s = Some (RT_EOK, s') \<and> rt_device_find (Some name) s' = None))"
proof -
  have "names_inv s0" using assms(1) by (simp add: names_inv_def reg_inv_def)
  then have inv: "names_inv s" by (rule name_run_inv [OF assms(2)])
  then have r: "reg_inv (reg s)" "inj_on (\<lambda>d. obj_name (objects (reg s) d)) (set (object_list (reg s) RT_Object_Class_Device))"
    "\<forall>d \<in> set (object_list (reg s) RT_Object_Class_Device). rt_object_is_systemobject (objects (reg s) d)"
    by (simp_all add: names_inv_def)
  note f = device_registry.lookup_unique [OF r(1,2)]
  have "\<exists>s'. rt_device_unregister d s = Some (RT_EOK, s') \<and> rt_device_find (Some name) s' = None"
    if found: "rt_device_find (Some name) s = Some d" for name d
  proof -
    have "d \<in> set (object_list (reg s) RT_Object_Class_Device)" using found f by (simp add: rt_device_find_def)
    then have "is_device d s" "rt_object_is_systemobject (objects (reg s) d)"
      using listed_class [OF r(1)] r(3) by (simp_all add: is_device_def)
    then have u: "rt_device_unregister d s = Some (RT_EOK, s\<lparr>reg := rt_object_detach d (reg s)\<rparr>)" by (simp add: rt_device_unregister_def)
    then show ?thesis using unregister_inv [OF inv found u] by blast
  qed
  moreover have "if rt_device_find (Some name) s = None
       then \<exists>s'. rt_device_register (Some d) (Some name) flags s = Some (RT_EOK, s') \<and> rt_device_find (Some name) s' = Some d
       else rt_device_register (Some d) (Some name) flags s = Some (- RT_ERROR, s)" if "\<not> listed (reg s) d" for name d flags
    using register_ok [OF inv that, of name flags] by auto
  moreover have "rt_device_find (Some name) s = Some d \<longleftrightarrow>
      d \<in> set (object_list (reg s) RT_Object_Class_Device) \<and> obj_name (objects (reg s) d) = name_key name" for name d
    using f by (simp add: rt_device_find_def)
  ultimately show ?thesis using r(2) by blast
qed

definition no_devices :: "unit devices" where
  "no_devices = \<lparr>reg = empty_registry, devs = \<lambda>_. \<lparr>dev_class = 0, dev_flag = 0, open_flag = 0, ref_count = 0, rx_indicate = None,
     tx_complete = None\<rparr>, hw = (), dev_errno = 0\<rparr>"

lemma no_devices_start: "\<forall>c. object_list (reg no_devices) c = []" "\<not> listed (reg no_devices) d" "names_inv no_devices"
  by (simp_all add: no_devices_def empty_registry_def listed_def names_inv_def reg_inv_def)

theorem device_names_unique_witness:
  "\<exists>s. name_step\<^sup>*\<^sup>* no_devices s \<and> rt_device_find (Some [0x69, 0x32, 0x63]) s = Some 1 \<and>
    rt_device_register (Some 2) (Some [0x69, 0x32, 0x63]) 3 s = Some (- RT_ERROR, s)"
proof -
  have "rt_device_find (Some [0x69, 0x32, 0x63]) no_devices = None"
    by (simp add: rt_device_find_def find_by_key [OF _ device_class] no_devices_def empty_registry_def reg_inv_def)
  then obtain s where s: "rt_device_register (Some 1) (Some [0x69, 0x32, 0x63]) 3 no_devices = Some (RT_EOK, s)"
    "rt_device_find (Some [0x69, 0x32, 0x63]) s = Some 1"
    using register_ok [OF no_devices_start(3,2), of 1 "[0x69, 0x32, 0x63]" 3] by auto
  have run: "name_step\<^sup>*\<^sup>* no_devices s" using name_register [OF no_devices_start(2) s(1)] by blast
  have "set (object_list (reg s) RT_Object_Class_Device) = {1}" "object_list (reg s) c = [] \<or> c = RT_Object_Class_Device" for c
    using s(1) by (auto simp: rt_device_register_def rt_object_init_def object_attach_def upd_dev_def no_devices_def empty_registry_def
        bind_eq_Some_conv information_type RT_EOK_def RT_ERROR_def split: if_splits)
  then have "\<not> listed (reg s) 2" unfolding listed_def by (metis empty_iff empty_set insertE n_not_Suc_n numeral_2_eq_2 One_nat_def)
  then have "if rt_device_find (Some [0x69, 0x32, 0x63]) s = None
      then \<exists>s'. rt_device_register (Some 2) (Some [0x69, 0x32, 0x63]) 3 s = Some (RT_EOK, s') \<and> rt_device_find (Some [0x69, 0x32, 0x63]) s' = Some 2
      else rt_device_register (Some 2) (Some [0x69, 0x32, 0x63]) 3 s = Some (- RT_ERROR, s)"
    using device_names_unique [OF no_devices_start(1) run] by blast
  then show ?thesis using run s(2) by auto
qed

text \<open>
  Property C34. The reference counter of a device. Let the driver leave the reference counter of its device
  alone, keep its marks as an activated, open or standalone device (a successful open may reset the open
  mark, close may change all flags), and not answer an initialisation with \<^verbatim>\<open>-RT_ENOSYS\<close>; the serial driver
  is such a driver. Then in every run of the operations the counter is the number of successful opens minus
  the number of closes; while it is not 0 the device is activated and marked open; a standalone device has at
  most one user; and without users close fails, and reads and writes return nothing and do not reach the
  driver.
\<close>

theorem device_reference_count:
  assumes "driver_ok p" and "ref_count (devs s0 d) = 0" and "(use_step p d)\<^sup>*\<^sup>* (s0, 0, 0) (s, granted, returned)"
  shows "unat (ref_count (devs s d)) + returned = granted \<and> (returned < granted \<longrightarrow> dev_opened (devs s d) \<and> activated (devs s d)) \<and>
    (standalone (devs s d) \<longrightarrow> granted \<le> returned + 1) \<and>
    (is_device d s \<longrightarrow> granted = returned \<longrightarrow> rt_device_close (\<lambda>_. p) d s = Some (- RT_ERROR, s) \<and>
      (\<forall>pos n. rt_device_read (\<lambda>_. p) d pos n s = Some ([], s\<lparr>dev_errno := - RT_ERROR\<rparr>)) \<and>
      (\<forall>pos buf. rt_device_write (\<lambda>_. p) d pos buf s = Some (0, s\<lparr>dev_errno := - RT_ERROR\<rparr>)))"
proof -
  have "use_inv (devs s0 d) 0 0" using assms(2) by (simp add: use_inv_def)
  then have i: "use_inv (devs s d) granted returned" using use_run_inv [OF assms(3,1)] by simp
  then have n: "unat (ref_count (devs s d)) + returned = granted" by (simp add: use_inv_def)
  have "ref_count (devs s d) = 0" if "granted = returned" using n that by (simp add: unat_eq_0)
  moreover have "ref_count (devs s d) \<noteq> 0" if "returned < granted" using n that by (auto simp: unat_eq_0)
  moreover have "granted \<le> returned + 1" if "standalone (devs s d)"
    using i n that by (cases "ref_count (devs s d) = 0") (auto simp: use_inv_def)
  ultimately show ?thesis
    using i by (auto simp: use_inv_def rt_device_close_def rt_device_read_def rt_device_write_def)
qed

text \<open>
  A serial device with its hardware: opened for reception by interrupts, closed, which also clears the
  activation, and opened again, which initialises it anew.
\<close>

definition sample_uart :: "nat rt_uart_ops" where
  "sample_uart = \<lparr>uart_configure = Some (\<lambda>c u. (RT_EOK, u + 1)), uart_control = (\<lambda>cmd arg u. (RT_EOK, u))\<rparr>"

definition sample_serial :: "nat rt_serial_device rt_device_ops" where
  "sample_serial = serial_driver sample_uart (\<lambda>_. None) (\<lambda>_ _ h. ([], h)) (\<lambda>_ buf h. (length buf, h))"

definition serial_devices :: "nat rt_serial_device devices" where
  "serial_devices = \<lparr>reg = \<lparr>objects = (\<lambda>_. \<lparr>obj_name = replicate RT_NAME_MAX 0,
       obj_type = RT_Object_Class_Device OR RT_Object_Class_Static, obj_flag = 0\<rparr>), object_list = (\<lambda>_. [])\<rparr>,
     devs = (\<lambda>_. \<lparr>dev_class = 0, dev_flag = 0x103, open_flag = 0, ref_count = 0, rx_indicate = None, tx_complete = None\<rparr>),
     hw = \<lparr>serial_config = \<lparr>baud_rate = 115200, line_bits = 8, bufsz = 64\<rparr>, serial_rx = None, serial_tx = False, uart = 0\<rparr>, dev_errno = 0\<rparr>"

theorem device_reference_count_witness:
  "\<exists>s1 s2 s3. rt_device_open (\<lambda>_. sample_serial) 1 0x143 serial_devices = Some (RT_EOK, s1) \<and>
    rt_device_close (\<lambda>_. sample_serial) 1 s1 = Some (RT_EOK, s2) \<and> \<not> activated (devs s2 1) \<and>
    rt_device_open (\<lambda>_. sample_serial) 1 0x143 s2 = Some (RT_EOK, s3) \<and> uart (hw s3) = 2 \<and>
    unat (ref_count (devs s3 1)) = 1 \<and> dev_opened (devs s3 1) \<and> activated (devs s3 1)"
proof -
  have dev: "is_device d serial_devices" for d
    by (simp add: is_device_def serial_devices_def rt_object_get_type_def object_class_defs)
  note defs = rt_device_open_def rt_device_close_def open_activate_def open_active_def call_driver_def upd_dev_def Let_def
    sample_serial_def serial_driver_def sample_uart_def rt_serial_init_def rt_serial_open_def rt_serial_close_def uart_ctrl_def
    serial_flag_defs device_flag_defs RT_DEVICE_OFLAG_CLOSE_def RT_EOK_def
  obtain s1 where s1: "rt_device_open (\<lambda>_. sample_serial) 1 0x143 serial_devices = Some (RT_EOK, s1)"
      "reg s1 = reg serial_devices" "devs s1 1 = \<lparr>dev_class = 0, dev_flag = 0x113, open_flag = 0x14b, ref_count = 1, rx_indicate = None, tx_complete = None\<rparr>"
      "uart (hw s1) = 1"
  proof -
    have "devs serial_devices 1 = \<lparr>dev_class = 0, dev_flag = 0x103, open_flag = 0, ref_count = 0, rx_indicate = None, tx_complete = None\<rparr>"
      "uart (hw serial_devices) = 0" "serial_rx (hw serial_devices) = None" by (simp_all add: serial_devices_def)
    then show ?thesis using dev [of 1] that by (simp add: defs)
  qed
  have dev1: "is_device 1 s1" using dev [of 1] s1(2) by (simp add: is_device_def)
  obtain s2 where s2: "rt_device_close (\<lambda>_. sample_serial) 1 s1 = Some (RT_EOK, s2)" "reg s2 = reg s1"
      "devs s2 1 = \<lparr>dev_class = 0, dev_flag = 0x103, open_flag = 0, ref_count = 0, rx_indicate = None, tx_complete = None\<rparr>" "uart (hw s2) = 1"
    using dev1 s1(3,4) by (simp add: defs)
  have dev2: "is_device 1 s2" using dev1 s2(2) by (simp add: is_device_def)
  obtain s3 where s3: "rt_device_open (\<lambda>_. sample_serial) 1 0x143 s2 = Some (RT_EOK, s3)" "uart (hw s3) = 2"
    using dev2 s2(3,4) by (simp add: defs)
  have ok: "driver_ok sample_serial"
    unfolding sample_serial_def by (rule serial_driver_ok) (simp add: sample_uart_def RT_EOK_def RT_ENOSYS_def)
  have "use_step sample_serial 1 (serial_devices, 0, 0) (s1, 1, 0)" "use_step sample_serial 1 (s1, 1, 0) (s2, 1, 1)"
      "use_step sample_serial 1 (s2, 1, 1) (s3, 2, 1)"
    using use_open [OF s1(1), of 0 0] use_close [OF s2(1), of 1 0] use_open [OF s3(1), of 1 1] s1(3)
    by (simp_all add: RT_EOK_def numeral_2_eq_2)
  then have run: "(use_step sample_serial 1)\<^sup>*\<^sup>* (serial_devices, 0, 0) (s3, 2, 1)" by (meson rtranclp.rtrancl_into_rtrancl rtranclp.rtrancl_refl)
  have "ref_count (devs serial_devices 1) = 0" by (simp add: serial_devices_def)
  from device_reference_count [OF ok this run] show ?thesis
    using s1(1) s2(1,3) s3 by (auto simp: activated_def RT_DEVICE_FLAG_ACTIVATED_def)
qed

text \<open>
  A standalone device whose driver fails to close it: the counter is 0 but the device stays marked open, so that every later open
  returns \<^verbatim>\<open>-RT_EBUSY\<close> and every later close \<^verbatim>\<open>-RT_ERROR\<close>, and nothing changes any more.
\<close>

theorem device_close_failure_blocks:
  assumes "is_device d s" and "driver_keeps f" and "standalone (devs s d)" and "activated (devs s d)" and "dev_opened (devs s d)"
    and "ref_count (devs s d) = 1" and "device_close (ops d) = Some f" and "\<forall>dv h. fst (f dv h) \<noteq> RT_EOK \<and> fst (f dv h) \<noteq> - RT_ENOSYS"
  shows "\<exists>r s1. rt_device_close ops d s = Some (r, s1) \<and> ref_count (devs s1 d) = 0 \<and>
    (\<forall>oflag. rt_device_open ops d oflag s1 = Some (- RT_EBUSY, s1)) \<and> rt_device_close ops d s1 = Some (- RT_ERROR, s1)"
proof -
  let ?s = "upd_dev d (\<lambda>dv. dv\<lparr>ref_count := ref_count dv - 1\<rparr>) s"
  obtain r s1 where c: "call_driver f d ?s = (r, s1)" by fastforce
  note k = call_keeps [OF assms(2) c]
  have d: "devs ?s d = (devs s d)\<lparr>ref_count := 0\<rparr>" using assms(6) by (simp add: upd_dev_def)
  have reg: "reg s1 = reg s" using c by (auto simp: call_driver_def upd_dev_def split: prod.splits)
  have s1: "ref_count (devs s1 d) = 0" "dev_opened (devs s1 d)" "standalone (devs s1 d)" "activated (devs s1 d)" "is_device d s1"
    using k assms(1,3-5) d reg by (simp_all add: dev_opened_def standalone_def activated_def is_device_def)
  have "rt_device_close ops d s = Some (r, s1)"
    using assms(1,6,7,8) d c k by (simp add: rt_device_close_def Let_def)
  then show ?thesis
    using s1 by (simp add: rt_device_open_def rt_device_close_def open_activate_def open_active_def dev_opened_def standalone_def activated_def)
qed

text \<open>
  \<^verbatim>\<open>rt_device_destroy\<close> cannot succeed for a device of \<^verbatim>\<open>rt_device_create\<close>: before the registration the object has no class,
  after it the object is marked static; one of the two assertions fails.
\<close>

theorem device_destroy_asserts:
  assumes "rt_device_create (Some d) class s = (Some d, s1)"
  shows "rt_device_destroy d s1 = None \<and>
    (\<forall>name flags s2. rt_device_register (Some d) (Some name) flags s1 = Some (RT_EOK, s2) \<longrightarrow> rt_device_destroy d s2 = None)"
proof -
  have t: "obj_type (objects (reg s1) d) = 0" using assms by (auto simp: rt_device_create_def upd_dev_def)
  have "rt_device_destroy d s1 = None"
    using t by (simp add: rt_device_destroy_def is_device_def rt_object_get_type_def object_class_defs)
  moreover have "rt_object_is_systemobject (objects (reg s2) d)"
    if "rt_device_register (Some d) (Some name) flags s1 = Some (RT_EOK, s2)" for name flags s2
    using that by (auto simp: rt_device_register_def rt_object_init_def object_attach_def upd_dev_def rt_object_is_systemobject_def
        bind_eq_Some_conv object_class_defs RT_EOK_def RT_ERROR_def split: if_splits)
  ultimately show ?thesis by (simp add: rt_device_destroy_def)
qed

end
