(* ===== verification/MqttTransport.thy ===== *)
theory MqttTransport
  imports MqttPacket
begin

text \<open>
  The transport of the MQTT client: \<^verbatim>\<open>platform_timer.c\<close>, \<^verbatim>\<open>platform_net_socket.c\<close>, \<^verbatim>\<open>nettype_tcp.c\<close>,
  \<^verbatim>\<open>network.c\<close>, and the functions of \<^verbatim>\<open>mqttclient.c\<close> that read and send one packet. The socket calls
  \<^verbatim>\<open>recv\<close> and \<^verbatim>\<open>send\<close> are the environment: \<open>recv_result i\<close> and \<open>send_result i\<close> say how many milliseconds
  the \<open>i\<close>-th call takes and what it returns. The theorems therefore hold for every behaviour of the
  network. The time limits handed to the socket only bound how long a call takes, and have no other
  effect here.
\<close>

section \<open>Platform\<close>

text \<open>
  A call of \<^verbatim>\<open>recv\<close> fails (\<open>None\<close>) or returns bytes, at most as many as asked for; a call of \<^verbatim>\<open>send\<close> fails
  (negative) or accepts a number of bytes, at most as many as offered. \<open>wire\<close> is everything accepted.
\<close>

record platform =
  uptime :: u32
  recv_result :: "nat \<Rightarrow> u32 \<times> bytes option"
  recv_no :: nat
  send_result :: "nat \<Rightarrow> u32 \<times> int"
  send_no :: nat
  wire :: bytes

type_synonym platform_timer = u32

definition platform_uptime_ms :: "platform \<Rightarrow> u32" where
  "platform_uptime_ms p = uptime p"

definition platform_timer_init :: platform_timer where
  "platform_timer_init = 0"

definition platform_timer_cutdown :: "u32 \<Rightarrow> platform \<Rightarrow> platform_timer" where
  "platform_timer_cutdown timeout p = platform_uptime_ms p + timeout"

definition platform_timer_is_expired :: "platform_timer \<Rightarrow> platform \<Rightarrow> bool" where
  "platform_timer_is_expired timer p \<longleftrightarrow> platform_uptime_ms p > timer"

definition platform_timer_remain :: "platform_timer \<Rightarrow> platform \<Rightarrow> int" where
  "platform_timer_remain timer p =
     (let now = platform_uptime_ms p in if timer \<le> now then 0 else sint (timer - now))"

definition platform_net_socket_recv :: "nat \<Rightarrow> platform \<Rightarrow> int \<times> bytes \<times> platform" where
  "platform_net_socket_recv len p =
     (let (dt, r) = recv_result p (recv_no p);
          p1 = p\<lparr>uptime := uptime p + dt, recv_no := recv_no p + 1\<rparr>
      in case r of None \<Rightarrow> (- 1, [], p1) | Some bs \<Rightarrow> (int (length (take len bs)), take len bs, p1))"

text \<open>The loop of \<^verbatim>\<open>platform_net_socket_recv_timeout\<close>; it ends with the number of missing bytes or an error.\<close>

function recv_loop :: "nat \<Rightarrow> bytes \<Rightarrow> nat \<Rightarrow> platform \<Rightarrow> (int option \<times> bytes \<times> platform) option" where
  "recv_loop nleft buf ptr p =
     (if nleft = 0 then Some (Some 0, buf, p)
      else let (nread, bs, p1) = platform_net_socket_recv nleft p
        in do { buf1 \<leftarrow> mem_write buf ptr bs;
                if nread < 0 then Some (None, buf1, p1)
                else if nread = 0 then Some (Some (int nleft), buf1, p1)
                else recv_loop (nleft - nat nread) buf1 (ptr + nat nread) p1 })"
  by pat_completeness auto
termination
  by (relation "measure fst") auto

declare recv_loop.simps [simp del]

definition platform_net_socket_recv_timeout :: "bytes \<Rightarrow> nat \<Rightarrow> int \<Rightarrow> platform \<Rightarrow> (int \<times> bytes \<times> platform) option" where
  "platform_net_socket_recv_timeout buf ptr len p =
     do { (r, buf1, p1) \<leftarrow> recv_loop (nat len) buf ptr p;
          Some (case r of None \<Rightarrow> - 1 | Some nleft \<Rightarrow> (if len > 0 then len - nleft else 0), buf1, p1) }"

definition platform_net_socket_write_timeout :: "bytes \<Rightarrow> nat \<Rightarrow> int \<Rightarrow> platform \<Rightarrow> (int \<times> platform) option" where
  "platform_net_socket_write_timeout buf ptr len p =
     do { bs \<leftarrow> mem_read buf ptr (nat len);
          let (dt, r) = send_result p (send_no p);
          let n = min r (int (length bs));
          Some (n, p\<lparr>uptime := uptime p + dt, send_no := send_no p + 1, wire := wire p @ take (nat n) bs\<rparr>) }"

definition network_read :: "bytes \<Rightarrow> nat \<Rightarrow> int \<Rightarrow> platform \<Rightarrow> (int \<times> bytes \<times> platform) option" where
  "network_read buf ptr len p = platform_net_socket_recv_timeout buf ptr len p"

definition network_write :: "bytes \<Rightarrow> nat \<Rightarrow> int \<Rightarrow> platform \<Rightarrow> (int \<times> platform) option" where
  "network_write buf ptr len p = platform_net_socket_write_timeout buf ptr len p"

section \<open>The client\<close>

datatype client_state =
  CLIENT_STATE_INVALID | CLIENT_STATE_INITIALIZED | CLIENT_STATE_CONNECTED | CLIENT_STATE_DISCONNECTED |
  CLIENT_STATE_CLEAN_SESSION

definition QOS0 :: int where "QOS0 = 0"
definition QOS1 :: int where "QOS1 = 1"
definition QOS2 :: int where "QOS2 = 2"
definition SUBFAIL :: int where "SUBFAIL = 0x80"

text \<open>A callback is named by a number.\<close>

record message_handlers =
  mh_qos :: int
  topic_filter :: "bytes option"
  mh_handler :: nat

record ack_handlers =
  ack_timer :: platform_timer
  ack_type :: u8
  ack_packet_id :: u16
  ack_handler :: "message_handlers option"
  ack_payload :: bytes

record mqtt_message =
  msg_qos :: int
  msg_retained :: u8
  msg_dup :: u8
  msg_id :: u16
  msg_payload :: bytes

text \<open>
  The part of \<^verbatim>\<open>mqtt_client_t\<close> that the packet exchange uses, and two observations: whether a socket is
  open, and the calls of the callbacks (the callback, the topic name it gets, and the message).
\<close>

record mqtt_client =
  mqtt_read_buf :: bytes
  mqtt_write_buf :: bytes
  mqtt_keep_alive_interval :: u16
  mqtt_packet_id :: u16
  mqtt_ping_outstanding :: "2 word"
  mqtt_ack_handler_number :: "24 word"
  mqtt_cmd_timeout :: u32
  mqtt_read_buf_size :: u32
  mqtt_write_buf_size :: u32
  mqtt_client_state :: client_state
  mqtt_msg_handler_list :: "message_handlers list"
  mqtt_ack_handler_list :: "ack_handlers list"
  mqtt_last_sent :: platform_timer
  mqtt_last_received :: platform_timer
  mqtt_interceptor_handler :: "nat option"
  socket_open :: bool
  callbacks :: "(nat \<times> bytes \<times> mqtt_message) list"

definition KAWAII_MQTT_SUCCESS_ERROR :: int where "KAWAII_MQTT_SUCCESS_ERROR = 0"
definition KAWAII_MQTT_FAILED_ERROR :: int where "KAWAII_MQTT_FAILED_ERROR = - 1"
definition KAWAII_MQTT_NOTHING_TO_READ_ERROR :: int where "KAWAII_MQTT_NOTHING_TO_READ_ERROR = - 7"
definition KAWAII_MQTT_BUFFER_TOO_SHORT_ERROR :: int where "KAWAII_MQTT_BUFFER_TOO_SHORT_ERROR = - 8"
definition KAWAII_MQTT_SEND_PACKET_ERROR :: int where "KAWAII_MQTT_SEND_PACKET_ERROR = - 0x13"

definition keep_alive_ms :: "mqtt_client \<Rightarrow> u32" where
  "keep_alive_ms c = ucast (mqtt_keep_alive_interval c) * 1000"

section \<open>Reading and sending a packet\<close>

definition read_byte :: "platform \<Rightarrow> (int \<times> u8 \<times> platform) option" where
  "read_byte p = do { (rc, i, p1) \<leftarrow> network_read [0] 0 1 p; Some (rc, i ! 0, p1) }"

text \<open>The loop of \<^verbatim>\<open>mqtt_decode_packet\<close> is that of \<^verbatim>\<open>MQTTPacket_decode\<close> over the network.\<close>

definition mqtt_decode_packet :: "platform \<Rightarrow> (nat \<times> int \<times> platform) option" where
  "mqtt_decode_packet p = decode_loop read_byte 0 1 0 p"

text \<open>The loop of \<^verbatim>\<open>mqtt_packet_drain\<close>: \<open>None\<close> also when it does not end.\<close>

partial_function (option) drain_loop ::
  "u32 \<Rightarrow> int \<Rightarrow> int \<Rightarrow> int \<Rightarrow> bytes \<Rightarrow> platform \<Rightarrow> (bytes \<times> platform) option" where
  "drain_loop buf_size packet_len total_bytes_read bytes2read buf p =
     do { (read_len, buf1, p1) \<leftarrow> network_read buf 0 bytes2read p;
          let total = (if read_len \<noteq> 0 then total_bytes_read + read_len else total_bytes_read);
          let bytes2 = (if read_len \<noteq> 0
                        then (if packet_len - total \<ge> uint buf_size then uint buf_size else packet_len - total)
                        else bytes2read);
          if total < packet_len \<and> read_len \<noteq> 0
          then drain_loop buf_size packet_len total bytes2 buf1 p1
          else Some (buf1, p1) }"

definition mqtt_packet_drain :: "mqtt_client \<Rightarrow> int \<Rightarrow> platform \<Rightarrow> (mqtt_client \<times> platform) option" where
  "mqtt_packet_drain c packet_len p =
     (let bytes2read = (if packet_len < uint (mqtt_read_buf_size c) then packet_len else uint (mqtt_read_buf_size c))
      in do { (buf, p1) \<leftarrow> drain_loop (mqtt_read_buf_size c) packet_len 0 bytes2read (mqtt_read_buf c) p;
              Some (c\<lparr>mqtt_read_buf := buf\<rparr>, p1) })"

text \<open>The second component is \<^verbatim>\<open>*packet_type\<close> if it is set.\<close>

definition mqtt_read_packet ::
  "mqtt_client \<Rightarrow> platform \<Rightarrow> (int \<times> u8 option \<times> mqtt_client \<times> platform) option" where
  "mqtt_read_packet c p =
     do { (rc, buf, p1) \<leftarrow> network_read (mqtt_read_buf c) 0 1 p;
          let c1 = c\<lparr>mqtt_read_buf := buf\<rparr>;
          if rc \<noteq> 1 then Some (KAWAII_MQTT_NOTHING_TO_READ_ERROR, None, c1, p1)
          else do {
            (_, remain_len, p2) \<leftarrow> mqtt_decode_packet p1;
            (n, buf2) \<leftarrow> MQTTPacket_encode remain_len (mqtt_read_buf c1) 1;
            let len = 1 + n;
            let c2 = c1\<lparr>mqtt_read_buf := buf2\<rparr>;
            if int len + remain_len > uint (mqtt_read_buf_size c2) then do {
              (c3, p3) \<leftarrow> mqtt_packet_drain c2 remain_len p2;
              Some (KAWAII_MQTT_BUFFER_TOO_SHORT_ERROR, None, c3, p3) }
            else do {
              (rc, buf3, p3) \<leftarrow> (if remain_len > 0 then network_read (mqtt_read_buf c2) len remain_len p2
                                else Some (remain_len, mqtt_read_buf c2, p2));
              let c3 = c2\<lparr>mqtt_read_buf := buf3\<rparr>;
              if rc \<noteq> remain_len then Some (KAWAII_MQTT_NOTHING_TO_READ_ERROR, None, c3, p3)
              else do {
                b \<leftarrow> mem_get (mqtt_read_buf c3) 0;
                Some (KAWAII_MQTT_SUCCESS_ERROR, Some (header_type b),
                      c3\<lparr>mqtt_last_received := platform_timer_cutdown (keep_alive_ms c3) p3\<rparr>, p3) } } } }"

text \<open>The loop of \<^verbatim>\<open>mqtt_send_packet\<close>; it returns the number of bytes sent.\<close>

function send_loop :: "bytes \<Rightarrow> platform_timer \<Rightarrow> int \<Rightarrow> int \<Rightarrow> platform \<Rightarrow> (int \<times> platform) option" where
  "send_loop buf timer len0 sent p =
     (if sent < len0 \<and> \<not> platform_timer_is_expired timer p then
        do { (len, p1) \<leftarrow> network_write buf (nat sent) len0 p;
             if len \<le> 0 then Some (sent, p1) else send_loop buf timer len0 (sent + len) p1 }
      else Some (sent, p))"
  by pat_completeness auto
termination
  by (relation "measure (\<lambda>(buf, timer, len0, sent, p). nat (len0 - sent))") auto

declare send_loop.simps [simp del]

definition mqtt_send_packet :: "mqtt_client \<Rightarrow> int \<Rightarrow> platform \<Rightarrow> (int \<times> mqtt_client \<times> platform) option" where
  "mqtt_send_packet c len0 p =
     do { let timer = platform_timer_cutdown (mqtt_cmd_timeout c) p;
          (sent, p1) \<leftarrow> send_loop (mqtt_write_buf c) timer len0 0 p;
          if sent = len0
          then Some (KAWAII_MQTT_SUCCESS_ERROR,
                     c\<lparr>mqtt_last_sent := platform_timer_cutdown (keep_alive_ms c) p1\<rparr>, p1)
          else Some (KAWAII_MQTT_SEND_PACKET_ERROR, c, p1) }"

section \<open>Receiving\<close>

text \<open>
  From call number \<open>i\<close> on, the socket returns the non-empty chunks \<open>cs\<close>.
\<close>

definition arrives :: "platform \<Rightarrow> nat \<Rightarrow> bytes list \<Rightarrow> bool" where
  "arrives p i cs \<longleftrightarrow> (\<forall>j < length cs. cs ! j \<noteq> [] \<and> snd (recv_result p (i + j)) = Some (cs ! j))"

lemma arrives_Cons: "arrives p i (c # cs) \<longleftrightarrow> c \<noteq> [] \<and> snd (recv_result p i) = Some c \<and> arrives p (i + 1) cs"
  by (auto simp: arrives_def nth_Cons less_Suc_eq_0_disj split: nat.splits)

lemma arrives_append: "arrives p i (cs @ ds) \<longleftrightarrow> arrives p i cs \<and> arrives p (i + length cs) ds"
  by (induction cs arbitrary: i) (simp_all add: arrives_Cons arrives_def [of p _ "[]"] add.assoc)

lemma arrives_cong: "recv_result p' = recv_result p \<Longrightarrow> arrives p' = arrives p"
  by (simp add: arrives_def fun_eq_iff)

lemma recv_next:
  assumes "snd (recv_result p (recv_no p)) = Some bs" and "length bs \<le> n"
  shows "\<exists>p'. platform_net_socket_recv n p = (int (length bs), bs, p') \<and> recv_no p' = recv_no p + 1 \<and>
    recv_result p' = recv_result p"
  using assms by (cases "recv_result p (recv_no p)") (simp add: platform_net_socket_recv_def)

lemma recv_loop_chunks:
  assumes "arrives p (recv_no p) cs" and "length (concat cs) = n" and "ptr + n \<le> length buf"
  shows "\<exists>p'. recv_loop n buf ptr p = Some (Some 0, take ptr buf @ concat cs @ drop (ptr + n) buf, p') \<and>
    recv_no p' = recv_no p + length cs \<and> recv_result p' = recv_result p"
  using assms
proof (induction cs arbitrary: n ptr buf p)
  case Nil
  then show ?case by (subst recv_loop.simps) simp
next
  case (Cons c cs)
  have c: "c \<noteq> []" "snd (recv_result p (recv_no p)) = Some c" "arrives p (recv_no p + 1) cs"
    using Cons.prems(1) by (simp_all add: arrives_Cons)
  have n: "n = length c + length (concat cs)" using Cons.prems(2) by simp
  obtain p1 where p1: "platform_net_socket_recv n p = (int (length c), c, p1)" "recv_no p1 = recv_no p + 1"
      "recv_result p1 = recv_result p"
    using recv_next [OF c(2), of n] n by auto
  let ?buf = "take ptr buf @ c @ drop (ptr + length c) buf"
  have w: "mem_write buf ptr c = Some ?buf" using Cons.prems(3) n by (simp add: mem_write_Some)
  have a1: "arrives p1 (recv_no p1) cs" using c(3) by (simp add: p1(2) arrives_cong [OF p1(3)])
  have "ptr + length c + length (concat cs) \<le> length ?buf" using Cons.prems(3) n by simp
  from Cons.IH [OF a1 refl this] obtain p' where
    p': "recv_loop (length (concat cs)) ?buf (ptr + length c) p1 =
        Some (Some 0, take (ptr + length c) ?buf @ concat cs @ drop (ptr + length c + length (concat cs)) ?buf, p')"
      "recv_no p' = recv_no p1 + length cs" "recv_result p' = recv_result p1"
    by blast
  have "recv_loop n buf ptr p = recv_loop (length (concat cs)) ?buf (ptr + length c) p1"
    using c(1) n w p1(1) by (subst recv_loop.simps) simp
  moreover have "take (ptr + length c) ?buf = take ptr buf @ c" using Cons.prems(3) n by simp
  moreover have "drop (ptr + length c + length (concat cs)) ?buf = drop (ptr + n) buf"
    using Cons.prems(3) n by (simp add: ac_simps)
  ultimately show ?case using p' p1 by simp
qed

lemma network_read_chunks:
  assumes "arrives p (recv_no p) cs" and "length (concat cs) = nat n" and "0 \<le> n" and "ptr + nat n \<le> length buf"
  shows "\<exists>p'. network_read buf ptr n p = Some (n, take ptr buf @ concat cs @ drop (ptr + nat n) buf, p') \<and>
    recv_no p' = recv_no p + length cs \<and> recv_result p' = recv_result p"
  using recv_loop_chunks [OF assms(1,2,4)] assms(3)
  by (auto simp: network_read_def platform_net_socket_recv_timeout_def)

text \<open>The network as a source of bytes for the remaining length: the bytes that calls before \<open>n\<close> return.\<close>

fun first_byte :: "u32 \<times> bytes option \<Rightarrow> u8 option" where
  "first_byte (dt, Some (b # bs)) = Some b"
| "first_byte _ = None"

definition pending_bytes :: "nat \<Rightarrow> platform \<Rightarrow> bytes" where
  "pending_bytes n p =
     map (\<lambda>i. the (first_byte (recv_result p i))) (takeWhile (\<lambda>i. first_byte (recv_result p i) \<noteq> None) [recv_no p ..< n])"

lemma read_byte_ok:
  assumes "first_byte (recv_result p (recv_no p)) = Some b"
  shows "\<exists>p'. read_byte p = Some (1, b, p') \<and> recv_no p' = recv_no p + 1 \<and> recv_result p' = recv_result p"
proof -
  obtain dt bs where r: "recv_result p (recv_no p) = (dt, Some (b # bs))"
    using assms by (cases "recv_result p (recv_no p)" rule: first_byte.cases) auto
  let ?p = "p\<lparr>uptime := uptime p + dt, recv_no := recv_no p + 1\<rparr>"
  have "platform_net_socket_recv 1 p = (1, [b], ?p)" using r by (simp add: platform_net_socket_recv_def)
  then have "recv_loop 1 [0] 0 p = Some (Some 0, [b], ?p)"
    by (subst recv_loop.simps) (simp add: mem_write_Some recv_loop.simps [of 0])
  then show ?thesis by (simp add: read_byte_def network_read_def platform_net_socket_recv_timeout_def)
qed

interpretation netsrc: byte_source read_byte "pending_bytes n" for n
proof
  fix p :: platform and c rest
  assume a: "pending_bytes n p = c # rest"
  have lt: "recv_no p < n" by (rule ccontr) (use a in \<open>simp add: pending_bytes_def\<close>)
  then have up: "[recv_no p ..< n] = recv_no p # [recv_no p + 1 ..< n]" by (simp add: upt_conv_Cons)
  have b: "first_byte (recv_result p (recv_no p)) = Some c"
    and rest: "rest = map (\<lambda>i. the (first_byte (recv_result p i)))
        (takeWhile (\<lambda>i. first_byte (recv_result p i) \<noteq> None) [recv_no p + 1 ..< n])"
    using a by (auto simp: pending_bytes_def up split: if_splits)
  from read_byte_ok [OF b] show "\<exists>p'. read_byte p = Some (1, c, p') \<and> pending_bytes n p' = rest"
    using rest by (auto simp: pending_bytes_def)
qed

lemma recv_loop_frame:
  "recv_loop n buf ptr p = Some (r, buf', p') \<Longrightarrow> recv_result p' = recv_result p \<and> recv_no p \<le> recv_no p' \<and> wire p' = wire p"
proof (induction n buf ptr p rule: recv_loop.induct)
  case (1 n buf ptr p)
  obtain nread bs p1 where s: "platform_net_socket_recv n p = (nread, bs, p1)" by (cases "platform_net_socket_recv n p")
  then have f: "recv_result p1 = recv_result p \<and> recv_no p \<le> recv_no p1 \<and> wire p1 = wire p"
    by (auto simp: platform_net_socket_recv_def Let_def split: prod.splits option.splits)
  note step = 1(2) [unfolded recv_loop.simps [of n buf ptr p], unfolded s]
  show ?case
  proof (cases "n = 0 \<or> nread \<le> 0")
    case True
    then show ?thesis using step f by (auto split: if_splits bind_splits)
  next
    case False
    then obtain buf1 where b: "mem_write buf ptr bs = Some buf1"
        "recv_loop (n - nat nread) buf1 (ptr + nat nread) p1 = Some (r, buf', p')"
      using step by (auto split: bind_splits)
    then show ?thesis using 1(1) [of "(nread, bs, p1)" nread "(bs, p1)" bs p1 buf1] s False f by simp
  qed
qed

lemma read_byte_frame:
  "read_byte p = Some (rc, b, p') \<Longrightarrow> recv_result p' = recv_result p \<and> recv_no p \<le> recv_no p' \<and> wire p' = wire p"
  using recv_loop_frame
  by (fastforce simp: read_byte_def network_read_def platform_net_socket_recv_timeout_def split: bind_splits)

lemma decode_loop_frame:
  "decode_loop read_byte len k v p = Some (l, w, p') \<Longrightarrow>
   recv_result p' = recv_result p \<and> recv_no p \<le> recv_no p' \<and> wire p' = wire p"
proof (induction read_byte len k v p rule: decode_loop.induct)
  case (1 len k v p)
  show ?case
  proof (cases "len + 1 > MAX_NO_OF_REMAINING_LENGTH_BYTES")
    case True
    then show ?thesis using 1(2) by (subst (asm) decode_loop.simps) simp
  next
    case False
    then obtain rc c p1 where b: "read_byte p = Some (rc, c, p1)"
      using 1(2) by (subst (asm) decode_loop.simps) (auto split: bind_splits)
    note f = read_byte_frame [OF b]
    show ?thesis
    proof (cases "rc = 1 \<and> c AND 128 \<noteq> 0")
      case True
      then show ?thesis
        using 1(1) [OF False, of "(rc, c, p1)" rc "(c, p1)" c p1] 1(2) b f False
        by (subst (asm) decode_loop.simps) (simp add: Let_def)
    next
      case C: False
      then show ?thesis using 1(2) b f False by (subst (asm) decode_loop.simps) (auto simp: Let_def split: if_splits)
    qed
  qed
qed

lemma read_packet_wire:
  assumes "mqtt_read_packet c p = Some (rc, Some t, c', p')"
  shows "wire p' = wire p"
proof -
  have r: "wire p2 = wire p1" if "network_read buf ptr n p1 = Some (r, buf', p2)" for buf ptr n p1 r buf' p2
    using that recv_loop_frame
    by (fastforce simp: network_read_def platform_net_socket_recv_timeout_def split: bind_splits)
  have d: "wire p2 = wire p1" if "mqtt_decode_packet p1 = Some (l, v, p2)" for l v p1 p2
    using that decode_loop_frame by (auto simp: mqtt_decode_packet_def)
  show ?thesis
    using assms unfolding mqtt_read_packet_def by (auto simp: Let_def dest!: r d split: bind_splits if_splits)
qed

text \<open>The remaining length, one byte per call, followed by something.\<close>

lemma mqtt_decode_packet_ok:
  assumes a: "arrives p (recv_no p) (map (\<lambda>b. [b]) (enc n) @ cs)" and n: "n < 268435456"
  shows "\<exists>p'. mqtt_decode_packet p = Some (length (enc n), int n, p') \<and> recv_result p' = recv_result p \<and>
    (cs \<noteq> [] \<longrightarrow> recv_no p' = recv_no p + length (enc n))"
proof -
  let ?n = "recv_no p + length (enc n) + length cs"
  have fb: "first_byte (recv_result p (recv_no p + j)) = Some ((enc n @ map hd cs) ! j)"
    if j: "j < length (enc n) + length cs" for j
  proof -
    let ?c = "(map (\<lambda>b. [b]) (enc n) @ cs) ! j"
    have "?c \<noteq> []" "snd (recv_result p (recv_no p + j)) = Some ?c" using a j by (simp_all add: arrives_def)
    moreover have "hd ?c = (enc n @ map hd cs) ! j" using j by (simp add: nth_append)
    ultimately show ?thesis by (cases "recv_result p (recv_no p + j)"; cases ?c) auto
  qed
  have fi: "first_byte (recv_result p i) = Some ((enc n @ map hd cs) ! (i - recv_no p))" if "recv_no p \<le> i" "i < ?n" for i
    using fb [of "i - recv_no p"] that by simp
  have tw: "takeWhile (\<lambda>i. first_byte (recv_result p i) \<noteq> None) [q ..< ?n] = [q ..< ?n]" if "recv_no p \<le> q" for q
    using fi that by (auto simp: takeWhile_eq_all_conv)
  have "pending_bytes ?n p = enc n @ map hd cs"
    unfolding pending_bytes_def tw [OF order_refl]
    by (rule nth_equalityI) (use fi in \<open>auto\<close>)
  then obtain p' where p': "MQTTPacket_decode read_byte p = Some (length (enc n), int n, p')" "pending_bytes ?n p' = map hd cs"
    using netsrc.decode_enc [OF _ n] by blast
  then have d: "mqtt_decode_packet p = Some (length (enc n), int n, p')"
    by (simp add: mqtt_decode_packet_def MQTTPacket_decode_def)
  then have f: "recv_result p' = recv_result p" "recv_no p \<le> recv_no p'"
    using decode_loop_frame by (auto simp: mqtt_decode_packet_def)
  have "length (pending_bytes ?n p') = ?n - recv_no p'" unfolding pending_bytes_def f(1) tw [OF f(2)] by simp
  then have "recv_no p' = recv_no p + length (enc n)" if "cs \<noteq> []" using p'(2) that by (cases cs) auto
  then show ?thesis using d f(1) by blast
qed

text \<open>
  A connection that reports an error on every call keeps \<^verbatim>\<open>mqtt_packet_drain\<close> in its loop for ever: the
  error counts as a negative number of bytes. The invariant of the iteration is that the number of
  bytes read is never positive.
\<close>

lemma network_read_error:
  assumes "\<And>i. snd (recv_result p i) = None" and "0 < n"
  shows "\<exists>p'. network_read buf 0 n p = Some (- 1, buf, p') \<and> recv_result p' = recv_result p"
proof -
  obtain dt where r: "recv_result p (recv_no p) = (dt, None)" using assms(1) by (metis prod.collapse)
  have w: "mem_write buf 0 [] = Some buf" by (simp add: mem_write_Some)
  show ?thesis
    using r w assms(2)
    by (simp add: network_read_def platform_net_socket_recv_timeout_def recv_loop.simps [of "nat n"]
        platform_net_socket_recv_def)
qed

definition draining :: "u32 \<Rightarrow> int \<Rightarrow> int \<Rightarrow> int \<Rightarrow> platform \<Rightarrow> bool" where
  "draining bs n t r p \<longleftrightarrow> (\<forall>i. snd (recv_result p i) = None) \<and> 0 < bs \<and> 0 < n \<and> t \<le> 0 \<and> 0 < r"

lemma drain_loop_diverges:
  assumes "drain_loop bs n t r buf p = Some res"
  shows "\<not> draining bs n t r p"
proof (rule drain_loop.raw_induct [where P = "\<lambda>bs n t r buf p _. \<not> draining bs n t r p", OF _ assms])
  fix loop bs n t r buf p res
  assume IH: "\<And>bs n t r buf p res. loop bs n t r buf p = Some res \<Longrightarrow> \<not> draining bs n t r p"
    and body: "network_read buf 0 r p \<bind>
      (\<lambda>(read_len, buf1, p1).
          let total = if read_len \<noteq> 0 then t + read_len else t;
              bytes2 = if read_len \<noteq> 0 then if uint bs \<le> n - total then uint bs else n - total else r
          in if total < n \<and> read_len \<noteq> 0 then loop bs n total bytes2 buf1 p1 else Some (buf1, p1)) = Some res"
  show "\<not> draining bs n t r p"
  proof
    assume d: "draining bs n t r p"
    then obtain p1 where p1: "network_read buf 0 r p = Some (- 1, buf, p1)" "recv_result p1 = recv_result p"
      using network_read_error [of p r buf] by (auto simp: draining_def)
    define r1 where "r1 = (if uint bs \<le> n - (t - 1) then uint bs else n - (t - 1))"
    have "loop bs n (t - 1) r1 buf p1 = Some res" using body p1(1) d by (simp add: draining_def r1_def Let_def split: if_splits)
    moreover have "draining bs n (t - 1) r1 p1" using d p1(2) by (auto simp: draining_def r1_def word_less_def)
    ultimately show False using IH by blast
  qed
qed

section \<open>Sending\<close>

lemma network_write_result:
  assumes "ptr + nat len \<le> length buf" and "send_result p (send_no p) = (dt, r)"
  shows "network_write buf ptr len p = Some (min r (int (nat len)),
    p\<lparr>uptime := uptime p + dt, send_no := send_no p + 1,
      wire := wire p @ take (nat (min r (int (nat len)))) (take (nat len) (drop ptr buf))\<rparr>)"
proof -
  have "length (take (nat len) (drop ptr buf)) = nat len" using assms(1) by simp
  then show ?thesis
    using assms by (simp add: network_write_def platform_net_socket_write_timeout_def mem_read_Some Let_def del: length_take)
qed

lemma mqtt_read_packet_ok:
  assumes "arrives p (recv_no p) ([h] # map (\<lambda>b. [b]) (enc n) @ cs)" and "length (concat cs) = n"
    and "n < 268435456" and "length (mqtt_read_buf c) = unat (mqtt_read_buf_size c)"
    and "1 + length (enc n) + n \<le> unat (mqtt_read_buf_size c)"
  shows "\<exists>c' p'. mqtt_read_packet c p = Some (KAWAII_MQTT_SUCCESS_ERROR, Some (header_type h), c', p') \<and>
    mqtt_read_buf c' = h # enc n @ concat cs @ drop (1 + length (enc n) + n) (mqtt_read_buf c) \<and>
    c' = c\<lparr>mqtt_read_buf := mqtt_read_buf c', mqtt_last_received := uptime p' + keep_alive_ms c\<rparr>"
proof -
  let ?buf = "mqtt_read_buf c" and ?m = "length (enc n)"
  have a: "arrives p (recv_no p) [[h]]" "arrives p (recv_no p + 1) (map (\<lambda>b. [b]) (enc n) @ cs)"
    using assms(1) by (simp_all add: arrives_Cons) (simp add: arrives_def)
  have len: "1 + ?m + n \<le> length ?buf" using assms(4,5) by simp
  obtain p1 where p1: "network_read ?buf 0 1 p = Some (1, h # drop 1 ?buf, p1)" "recv_no p1 = recv_no p + 1"
      "recv_result p1 = recv_result p"
    using network_read_chunks [OF a(1), of 1 0 ?buf] len by auto
  have a1: "arrives p1 (recv_no p1) (map (\<lambda>b. [b]) (enc n) @ cs)"
    using a(2) by (simp add: p1(2) arrives_cong [OF p1(3)])
  obtain p2 where p2: "mqtt_decode_packet p1 = Some (?m, int n, p2)" "recv_result p2 = recv_result p1"
      "cs \<noteq> [] \<longrightarrow> recv_no p2 = recv_no p1 + ?m"
    using mqtt_decode_packet_ok [OF a1 assms(3)] by blast
  have a2: "arrives p2 (recv_no p2) cs"
  proof (cases "cs = []")
    case False
    then show ?thesis using a1 p2(3) by (simp add: arrives_append arrives_cong [OF p2(2)])
  qed (simp add: arrives_def)
  let ?buf2 = "h # enc n @ drop (1 + ?m) ?buf"
  have e: "MQTTPacket_encode (int n) (h # drop 1 ?buf) 1 = Some (?m, ?buf2)"
    using encode_loop_writes [of 1 0 "h # drop 1 ?buf" n] len
    by (simp add: MQTTPacket_encode_def mem_write_Some)
  let ?buf3 = "h # enc n @ concat cs @ drop (1 + ?m + n) ?buf"
  have r: "\<exists>p3. (if int n > 0 then network_read ?buf2 (1 + ?m) (int n) p2 else Some (int n, ?buf2, p2)) = Some (int n, ?buf3, p3)"
  proof (cases "n = 0")
    case False
    have td: "take (1 + ?m) ?buf2 = h # enc n" "drop (1 + ?m + n) ?buf2 = drop (1 + ?m + n) ?buf"
      using len by (simp_all add: ac_simps)
    have fit2: "1 + ?m + nat (int n) \<le> length ?buf2" using len by simp
    obtain p3 where "network_read ?buf2 (1 + ?m) (int n) p2 =
        Some (int n, take (1 + ?m) ?buf2 @ concat cs @ drop (1 + ?m + nat (int n)) ?buf2, p3)"
      using network_read_chunks [OF a2 _ _ fit2] assms(2) by auto
    then have "network_read ?buf2 (1 + ?m) (int n) p2 = Some (int n, ?buf3, p3)"
      unfolding nat_int td by simp
    then show ?thesis using False by simp
  qed (use assms(2) in simp)
  then obtain p3 where p3: "(if int n > 0 then network_read ?buf2 (1 + ?m) (int n) p2 else Some (int n, ?buf2, p2)) = Some (int n, ?buf3, p3)"
    by blast
  have empty: "n = 0 \<Longrightarrow> concat cs = []" using assms(2) by (metis length_0_conv)
  have fits: "\<not> int (1 + ?m) + int n > uint (mqtt_read_buf_size c)"
    using assms(5) by (simp only: uint_nat not_less flip: of_nat_add)
  have "mqtt_read_packet c p = Some (KAWAII_MQTT_SUCCESS_ERROR, Some (header_type h),
      c\<lparr>mqtt_read_buf := ?buf3, mqtt_last_received := platform_timer_cutdown (keep_alive_ms (c\<lparr>mqtt_read_buf := ?buf3\<rparr>)) p3\<rparr>, p3)"
    unfolding mqtt_read_packet_def using p1(1) p2(1) e p3 fits empty
    by (cases "n = 0") (simp_all add: mem_get_def Let_def del: of_nat_add concat_eq_Nil_conv)
  then show ?thesis by (simp add: platform_timer_cutdown_def platform_uptime_ms_def keep_alive_ms_def)
qed

lemma mqtt_send_packet_whole:
  assumes n: "0 < n" "n \<le> length (mqtt_write_buf c)" "n \<le> k"
    and t: "uptime p \<le> uptime p + mqtt_cmd_timeout c" and r: "send_result p (send_no p) = (dt, int k)"
  shows "mqtt_send_packet c (int n) p =
    Some (KAWAII_MQTT_SUCCESS_ERROR, c\<lparr>mqtt_last_sent := uptime p + dt + keep_alive_ms c\<rparr>,
      p\<lparr>uptime := uptime p + dt, send_no := send_no p + 1, wire := wire p @ take n (mqtt_write_buf c)\<rparr>)"
proof -
  let ?p = "p\<lparr>uptime := uptime p + dt, send_no := send_no p + 1, wire := wire p @ take n (mqtt_write_buf c)\<rparr>"
  have w: "network_write (mqtt_write_buf c) 0 (int n) p = Some (int n, ?p)"
    using network_write_result [of 0 "int n" "mqtt_write_buf c" p dt "int k"] n r by simp
  have "\<not> platform_timer_is_expired (platform_timer_cutdown (mqtt_cmd_timeout c) p) p"
    using t by (simp add: platform_timer_is_expired_def platform_timer_cutdown_def platform_uptime_ms_def)
  then have "send_loop (mqtt_write_buf c) (platform_timer_cutdown (mqtt_cmd_timeout c) p) (int n) 0 p = Some (int n, ?p)"
    using w n(1) by (subst send_loop.simps, simp) (subst send_loop.simps, simp)
  then show ?thesis by (simp add: mqtt_send_packet_def platform_timer_cutdown_def platform_uptime_ms_def)
qed

section \<open>Properties\<close>

text \<open>
  Property C19. Reassembly of a packet: whenever the header byte, the encoded remaining length (byte by
  byte) and the rest of a packet arrive, the rest cut into chunks in any way, and the packet fits the
  buffer, \<^verbatim>\<open>mqtt_read_packet\<close> succeeds, reports the packet type, leaves the exact packet at the
  beginning of the buffer and the rest of the buffer alone, and restarts the keep-alive timer.
\<close>

theorem read_packet_reassembles:
  assumes "arrives p (recv_no p) ([h] # map (\<lambda>b. [b]) (enc n) @ cs)" and "length (concat cs) = n"
    and "n < 268435456" and "length (mqtt_read_buf c) = unat (mqtt_read_buf_size c)"
    and "1 + length (enc n) + n \<le> unat (mqtt_read_buf_size c)"
  shows "\<exists>c' p'. mqtt_read_packet c p = Some (KAWAII_MQTT_SUCCESS_ERROR, Some (header_type h), c', p') \<and>
    mqtt_read_buf c' = h # enc n @ concat cs @ drop (1 + length (enc n) + n) (mqtt_read_buf c) \<and>
    c' = c\<lparr>mqtt_read_buf := mqtt_read_buf c', mqtt_last_received := uptime p' + keep_alive_ms c\<rparr>"
  using assms by (rule mqtt_read_packet_ok)

definition sample_client :: mqtt_client where
  "sample_client = \<lparr>mqtt_read_buf = replicate 16 0, mqtt_write_buf = [1, 2, 3, 4, 5, 6, 7, 8], mqtt_keep_alive_interval = 100,
     mqtt_packet_id = 1, mqtt_ping_outstanding = 0, mqtt_ack_handler_number = 0, mqtt_cmd_timeout = 4000,
     mqtt_read_buf_size = 16, mqtt_write_buf_size = 8, mqtt_client_state = CLIENT_STATE_CONNECTED,
     mqtt_msg_handler_list = [], mqtt_ack_handler_list = [], mqtt_last_sent = 0, mqtt_last_received = 0,
     mqtt_interceptor_handler = None, socket_open = True, callbacks = []\<rparr>"

definition sample_platform :: platform where
  "sample_platform = \<lparr>uptime = 0,
     recv_result = (\<lambda>i. if i = 0 then (1, Some [0x40]) else if i = 1 then (0, Some [2]) else (7, Some [of_nat i])),
     recv_no = 0, send_result = (\<lambda>i. (1, if i = 0 then 3 else 8)), send_no = 0, wire = []\<rparr>"

theorem read_packet_reassembles_witness:
  "\<exists>c' p'. mqtt_read_packet sample_client sample_platform = Some (KAWAII_MQTT_SUCCESS_ERROR, Some PUBACK, c', p') \<and>
     mqtt_read_buf c' = [0x40, 2, 2, 3] @ replicate 12 0"
proof -
  have e: "enc 2 = [2]" by (simp add: enc.simps)
  have "arrives sample_platform (recv_no sample_platform) ([0x40] # map (\<lambda>b. [b]) (enc 2) @ [[2], [3]])"
    by (simp add: e arrives_Cons) (simp add: arrives_def sample_platform_def)
  from read_packet_reassembles [OF this, of sample_client]
  have "\<exists>c' p'. mqtt_read_packet sample_client sample_platform = Some (KAWAII_MQTT_SUCCESS_ERROR, Some (header_type 0x40), c', p') \<and>
      mqtt_read_buf c' = 0x40 # enc 2 @ concat [[2], [3]] @ drop (1 + length (enc 2) + 2) (mqtt_read_buf sample_client)"
    by (auto simp: sample_client_def e)
  moreover have "header_type 0x40 = PUBACK" by (simp add: header_type_def PUBACK_def)
  ultimately show ?thesis by (simp add: e sample_client_def)
qed

text \<open>
  Sending a packet: when the socket accepts the whole packet in the first call,
  \<^verbatim>\<open>mqtt_send_packet\<close> succeeds, exactly the packet is on the wire and the keep-alive timer is
  restarted. When the first call accepts only \<open>k\<close> bytes, the second is handed the full length from
  position \<open>k\<close> on: it reads outside the write buffer if the packet is longer than what is left of the
  buffer, and otherwise, when the socket accepts it, the packet is followed by \<open>k\<close> bytes that do not
  belong to it and the function reports an error.
\<close>

theorem send_packet_partial_write:
  assumes "0 < n" and "n \<le> length (mqtt_write_buf c)"
    and "uptime p \<le> uptime p + mqtt_cmd_timeout c"
    and "send_result p (send_no p) = (dt, int k)" and "0 < k"
    and "send_result p (send_no p + 1) = (dt', int k')" and "n \<le> k'"
    and "uptime p + dt \<le> uptime p + mqtt_cmd_timeout c"
  shows "(n \<le> k \<longrightarrow> (\<exists>c' p'. mqtt_send_packet c (int n) p = Some (KAWAII_MQTT_SUCCESS_ERROR, c', p') \<and>
      wire p' = wire p @ take n (mqtt_write_buf c) \<and> c' = c\<lparr>mqtt_last_sent := uptime p' + keep_alive_ms c\<rparr>)) \<and>
    (k < n \<longrightarrow> length (mqtt_write_buf c) < k + n \<longrightarrow> mqtt_send_packet c (int n) p = None) \<and>
    (k < n \<longrightarrow> k + n \<le> length (mqtt_write_buf c) \<longrightarrow>
      (\<exists>p'. mqtt_send_packet c (int n) p = Some (KAWAII_MQTT_SEND_PACKET_ERROR, c, p') \<and>
        wire p' = wire p @ take n (mqtt_write_buf c) @ take k (drop n (mqtt_write_buf c))))"
proof -
  let ?buf = "mqtt_write_buf c" and ?timer = "uptime p + mqtt_cmd_timeout c"
  define p1 where "p1 = p\<lparr>uptime := uptime p + dt, send_no := send_no p + 1, wire := wire p @ take (min k n) ?buf\<rparr>"
  have m: "min (int k) (int n) = int (min k n)" by simp
  have w1: "network_write ?buf 0 (int n) p = Some (int (min k n), p1)"
    using network_write_result [of 0 "int n" ?buf p dt "int k"] assms(2,4) by (simp add: p1_def m min.commute)
  have timer: "platform_timer_cutdown (mqtt_cmd_timeout c) p = ?timer"
    by (simp add: platform_timer_cutdown_def platform_uptime_ms_def)
  have alive: "\<not> platform_timer_is_expired ?timer p" "\<not> platform_timer_is_expired ?timer p1"
    using assms(3,8) by (simp_all add: platform_timer_is_expired_def platform_uptime_ms_def p1_def)
  have first: "send_loop ?buf ?timer (int n) 0 p = send_loop ?buf ?timer (int n) (int (min k n)) p1"
    using w1 alive(1) assms(1,5) by (subst send_loop.simps) (simp add: min_def)
  have whole: "\<exists>c' p'. mqtt_send_packet c (int n) p = Some (KAWAII_MQTT_SUCCESS_ERROR, c', p') \<and>
      wire p' = wire p @ take n ?buf \<and> c' = c\<lparr>mqtt_last_sent := uptime p' + keep_alive_ms c\<rparr>" if "n \<le> k"
    using mqtt_send_packet_whole [OF assms(1,2) that assms(3,4)] by simp
  have second: "send_loop ?buf ?timer (int n) (int k) p1 =
      do { (len, p2) \<leftarrow> network_write ?buf k (int n) p1;
           if len \<le> 0 then Some (int k, p2) else send_loop ?buf ?timer (int n) (int k + len) p2 }" if "k < n"
    using that alive(2) by (subst send_loop.simps) simp
  have outside: "mqtt_send_packet c (int n) p = None" if "k < n" "length ?buf < k + n"
  proof -
    have "network_write ?buf k (int n) p1 = None"
      using that by (simp add: network_write_def platform_net_socket_write_timeout_def mem_read_def)
    then have "send_loop ?buf ?timer (int n) 0 p = None" unfolding first using second that(1) by simp
    then show ?thesis using timer by (simp add: mqtt_send_packet_def)
  qed
  have extra: "\<exists>p'. mqtt_send_packet c (int n) p = Some (KAWAII_MQTT_SEND_PACKET_ERROR, c, p') \<and>
      wire p' = wire p @ take n ?buf @ take k (drop n ?buf)" if k: "k < n" and kn: "k + n \<le> length ?buf"
  proof -
    obtain p2 where p2: "network_write ?buf k (int n) p1 = Some (int n, p2)" "wire p2 = wire p1 @ take n (drop k ?buf)"
      using network_write_result [of k "int n" ?buf p1 dt' "int k'"] kn assms(6,7)
      by (simp add: p1_def min_def)
    have "send_loop ?buf ?timer (int n) (int k + int n) p2 = Some (int k + int n, p2)"
      using assms(5) by (subst send_loop.simps) simp
    then have "send_loop ?buf ?timer (int n) 0 p = Some (int k + int n, p2)"
      unfolding first using second [OF k] p2(1) assms(1) k by simp
    moreover have "take k ?buf @ take n (drop k ?buf) = take n ?buf @ take k (drop n ?buf)"
      by (simp add: add.commute flip: take_add)
    ultimately show ?thesis
      using timer p2(2) assms(5) k by (simp add: mqtt_send_packet_def p1_def)
  qed
  show ?thesis using whole outside extra by blast
qed

theorem send_packet_partial_write_witness:
  "(\<exists>p'. mqtt_send_packet sample_client 4 sample_platform = Some (KAWAII_MQTT_SEND_PACKET_ERROR, sample_client, p') \<and>
     wire p' = [1, 2, 3, 4] @ [5, 6, 7]) \<and> mqtt_send_packet sample_client 6 sample_platform = None"
proof -
  have "\<exists>p'. mqtt_send_packet sample_client (int 4) sample_platform = Some (KAWAII_MQTT_SEND_PACKET_ERROR, sample_client, p') \<and>
     wire p' = [1, 2, 3, 4] @ [5, 6, 7]"
    using send_packet_partial_write [of 4 sample_client sample_platform 1 3 1 8]
    by (simp add: sample_client_def sample_platform_def)
  moreover have "mqtt_send_packet sample_client (int 6) sample_platform = None"
    using send_packet_partial_write [of 6 sample_client sample_platform 1 3 1 8]
    by (simp add: sample_client_def sample_platform_def)
  ultimately show ?thesis by simp
qed

end
