(* ===== verification/MqttTopic.thy ===== *)
theory MqttTopic
  imports MqttTransport
begin

text \<open>
  Topic names and filters of the MQTT client (\<^verbatim>\<open>mqtt_is_topic_equals\<close>, \<^verbatim>\<open>mqtt_topic_is_matched\<close> and
  \<^verbatim>\<open>mqtt_get_msg_handler\<close> of \<^verbatim>\<open>mqttclient.c\<close>), compared with the matching rules of the protocol on
  lists of topic levels. A pointer into a string is the part of the string from there on.
\<close>

section \<open>Operations\<close>

abbreviation slash :: u8 where "slash \<equiv> 0x2f"
abbreviation plus_sign :: u8 where "plus_sign \<equiv> 0x2b"
abbreviation hash_sign :: u8 where "hash_sign \<equiv> 0x23"

definition mqtt_is_topic_equals :: "bytes \<Rightarrow> bytes \<Rightarrow> bool" where
  "mqtt_is_topic_equals filt topic \<longleftrightarrow> strlen filt = strlen topic \<and> strncmp_eq filt topic (strlen topic)"

text \<open>
  The inner loop at a plus sign: \<open>curn\<close> points to a character; it is advanced to the last one before
  the next slash or the end.
\<close>

fun plus_loop :: "bytes \<Rightarrow> bytes" where
  "plus_loop (n # m # ns) = (if m \<noteq> slash then plus_loop (m # ns) else n # m # ns)"
| "plus_loop ns = ns"

lemma plus_loop_length: "length (plus_loop ns) \<le> length ns"
  by (induction ns rule: plus_loop.induct) auto

function topic_loop :: "bytes \<Rightarrow> bytes \<Rightarrow> bytes \<times> bytes" where
  "topic_loop curf curn =
     (case (curf, curn) of
        (f # fs, n # ns) \<Rightarrow>
          if n = slash \<and> f \<noteq> slash then (curf, curn)
          else if f \<noteq> plus_sign \<and> f \<noteq> hash_sign \<and> f \<noteq> n then (curf, curn)
          else let curn1 = (if f = plus_sign then plus_loop curn
                            else if f = hash_sign then [last curn] else curn)
            in topic_loop fs (tl curn1)
      | _ \<Rightarrow> (curf, curn))"
  by pat_completeness auto
termination
  by (relation "measure (\<lambda>(f, n). length f)") auto

declare topic_loop.simps [simp del]

text \<open>The topic filter is a C string; the topic name has the given length.\<close>

definition mqtt_topic_is_matched :: "bytes \<Rightarrow> MQTTString \<Rightarrow> bool option" where
  "mqtt_topic_is_matched filt topic_name =
     do { name \<leftarrow> mem_read (case lenstring_data topic_name of Some d \<Rightarrow> d | None \<Rightarrow> []) 0 (nat (lenstring_len topic_name));
          let (curf, curn) = topic_loop (takeWhile (\<lambda>c. c \<noteq> 0) filt) name;
          Some (curn = [] \<and> curf = []) }"

text \<open>The first handler whose filter equals or matches the topic name.\<close>

fun mqtt_get_msg_handler :: "message_handlers list \<Rightarrow> MQTTString \<Rightarrow> message_handlers option option" where
  "mqtt_get_msg_handler [] topic_name = Some None"
| "mqtt_get_msg_handler (h # hs) topic_name =
     (case topic_filter h of
        None \<Rightarrow> mqtt_get_msg_handler hs topic_name
      | Some filt \<Rightarrow>
          if MQTTPacket_equals topic_name filt then Some (Some h)
          else do { m \<leftarrow> mqtt_topic_is_matched filt topic_name;
                    if m then Some (Some h) else mqtt_get_msg_handler hs topic_name })"

section \<open>Matching by levels\<close>

text \<open>The rules of the protocol, on the levels of a filter and of a topic name.\<close>

fun topic_matches :: "bytes list \<Rightarrow> bytes list \<Rightarrow> bool" where
  "topic_matches [] ts \<longleftrightarrow> ts = []"
| "topic_matches (f # fs) ts \<longleftrightarrow>
     f = [hash_sign] \<and> fs = [] \<or>
     (case ts of [] \<Rightarrow> False | t # ts' \<Rightarrow> (f = [plus_sign] \<or> f = t) \<and> topic_matches fs ts')"

fun join_levels :: "bytes list \<Rightarrow> bytes" where
  "join_levels [] = []"
| "join_levels [l] = l"
| "join_levels (l # ls) = l @ slash # join_levels ls"

definition plain_level :: "bytes \<Rightarrow> bool" where
  "plain_level l \<longleftrightarrow> l \<noteq> [] \<and> set l \<inter> {0, slash, plus_sign, hash_sign} = {}"

fun filter_wf :: "bytes list \<Rightarrow> bool" where
  "filter_wf [] \<longleftrightarrow> False"
| "filter_wf [f] \<longleftrightarrow> f = [hash_sign] \<or> f = [plus_sign] \<or> plain_level f"
| "filter_wf (f # fs) \<longleftrightarrow> (f = [plus_sign] \<or> plain_level f) \<and> filter_wf fs"

definition topic_wf :: "bytes list \<Rightarrow> bool" where
  "topic_wf ts \<longleftrightarrow> ts \<noteq> [] \<and> list_all plain_level ts"

definition loop_matches :: "bytes \<Rightarrow> bytes \<Rightarrow> bool" where
  "loop_matches f n \<longleftrightarrow> topic_loop f n = ([], [])"

lemma loop_matches_simps [simp]:
  "loop_matches [] name \<longleftrightarrow> name = []"
  "\<not> loop_matches (f # fs) []"
  "loop_matches (f # fs) (n # ns) \<longleftrightarrow>
     \<not> (n = slash \<and> f \<noteq> slash) \<and>
     (if f = plus_sign then loop_matches fs (tl (plus_loop (n # ns)))
      else if f = hash_sign then loop_matches fs [] else f = n \<and> loop_matches fs ns)"
  by (auto simp: loop_matches_def topic_loop.simps [of "[]"] topic_loop.simps [of "f # fs"] Let_def)

definition level_rest :: "bytes list \<Rightarrow> bytes" where
  "level_rest ls = (if ls = [] then [] else slash # join_levels ls)"

lemma join_Cons: "join_levels (l # ls) = l @ level_rest ls"
  by (cases ls) (simp_all add: level_rest_def)

lemma plus_loop_level:
  "t \<noteq> [] \<Longrightarrow> slash \<notin> set t \<Longrightarrow> tl (plus_loop (t @ level_rest ts)) = level_rest ts"
proof (induction t)
  case (Cons a t)
  then show ?case by (cases t) (auto simp: level_rest_def)
qed simp

lemma plain_levels_match:
  assumes "set f \<inter> {0, slash, plus_sign, hash_sign} = {}" and "slash \<notin> set t"
  shows "loop_matches (f @ level_rest fs) (t @ level_rest ts) \<longleftrightarrow> f = t \<and> loop_matches (level_rest fs) (level_rest ts)"
  using assms
proof (induction f arbitrary: t)
  case Nil
  then show ?case by (cases t; cases "fs = []") (auto simp: level_rest_def)
next
  case (Cons a f)
  then show ?case by (cases t; cases "ts = []") (auto simp: level_rest_def)
qed

lemma level_rest_match:
  "ts \<noteq> [] \<Longrightarrow> fs \<noteq> [] \<Longrightarrow> loop_matches (level_rest fs) (level_rest ts) \<longleftrightarrow> loop_matches (join_levels fs) (join_levels ts)"
  "loop_matches (level_rest fs) [] \<longleftrightarrow> fs = []" "loop_matches [] (level_rest ts) \<longleftrightarrow> ts = []"
  by (auto simp: level_rest_def)

lemma loop_matches_levels:
  assumes "filter_wf fs" and "topic_wf ts"
  shows "loop_matches (join_levels fs) (join_levels ts) \<longleftrightarrow>
    topic_matches fs ts \<and> \<not> (last fs = [hash_sign] \<and> length fs = length ts + 1)"
  using assms
proof (induction fs arbitrary: ts)
  case (Cons f fs)
  obtain t ts' where ts: "ts = t # ts'" and t: "plain_level t" and ts': "list_all plain_level ts'"
    using Cons.prems(2) by (cases ts) (auto simp: topic_wf_def)
  then obtain a t' where t_eq: "t = a # t'" "a \<noteq> slash" and slash_t: "slash \<notin> set t"
    by (cases t) (auto simp: plain_level_def)
  have IH: "loop_matches (level_rest fs) (level_rest ts') \<longleftrightarrow>
      topic_matches fs ts' \<and> \<not> (last (f # fs) = [hash_sign] \<and> length fs = length ts' + 1)"
    if "fs \<noteq> [] \<or> f \<noteq> [hash_sign]"
  proof (cases "fs = [] \<or> ts' = []")
    case True
    then show ?thesis using that Cons.prems(1) by (cases fs) (auto simp: level_rest_match level_rest_def split: if_splits)
  next
    case False
    then have "filter_wf fs" "topic_wf ts'" using Cons.prems(1) ts' by (auto simp: topic_wf_def neq_Nil_conv)
    then show ?thesis using Cons.IH False level_rest_match(1) by simp
  qed
  consider "f = [hash_sign]" "fs = []" | "f = [plus_sign]" | "plain_level f"
    using Cons.prems(1) by (cases fs) auto
  then show ?case
  proof cases
    case 1
    then show ?thesis using t_eq by (simp add: ts join_Cons level_rest_def)
  next
    case 2
    have "loop_matches (join_levels (f # fs)) (join_levels ts) \<longleftrightarrow> loop_matches (level_rest fs) (level_rest ts')"
      using 2 t_eq plus_loop_level [OF _ slash_t, of ts'] by (simp add: ts join_Cons)
    then show ?thesis using IH 2 by (simp add: ts)
  next
    case 3
    then have "loop_matches (join_levels (f # fs)) (join_levels ts) \<longleftrightarrow> f = t \<and> loop_matches (level_rest fs) (level_rest ts')"
      unfolding ts join_Cons using plain_levels_match [OF _ slash_t] by (simp add: plain_level_def)
    moreover have "f \<noteq> [hash_sign]" "f \<noteq> [plus_sign]" using 3 by (auto simp: plain_level_def)
    ultimately show ?thesis using IH by (simp add: ts)
  qed
qed simp

lemma filter_no_zero: "filter_wf fs \<Longrightarrow> takeWhile (\<lambda>c. c \<noteq> 0) (join_levels fs) = join_levels fs"
proof -
  have "0 \<notin> set (join_levels fs)" if "filter_wf fs" using that
    by (induction fs rule: filter_wf.induct) (auto simp: plain_level_def)
  then show "filter_wf fs \<Longrightarrow> ?thesis" by (auto simp: takeWhile_eq_all_conv)
qed

text \<open>
  A single-level wildcard does not match an empty level: neither \<^verbatim>\<open>a/+\<close> matches \<^verbatim>\<open>a/\<close> nor \<^verbatim>\<open>+/a\<close> matches
  \<^verbatim>\<open>/a\<close>, as the protocol demands.
\<close>

lemma topic_empty_levels:
  "mqtt_topic_is_matched [0x61, slash, plus_sign] (lenstring [0x61, slash]) = Some False"
  "topic_matches [[0x61], [plus_sign]] [[0x61], []]"
  "mqtt_topic_is_matched [plus_sign, slash, 0x61] (lenstring [slash, 0x61]) = Some False"
  "topic_matches [[plus_sign], [0x61]] [[], [0x61]]"
  by code_simp+

section \<open>Properties\<close>

text \<open>
  Property C18. Matching a topic name against a filter with wildcards agrees with the rules of the
  protocol for every filter whose wildcards stand for whole levels and every topic name, if no level of
  either is empty, except that a filter that ends in a multi-level wildcard does not match the
  parent level itself, which the protocol demands. With empty levels the two differ, see \<open>topic_empty_levels\<close>.
\<close>

theorem topic_is_matched_levels:
  assumes "filter_wf fs" and "topic_wf ts"
  shows "mqtt_topic_is_matched (join_levels fs) (lenstring (join_levels ts)) =
    Some (topic_matches fs ts \<and> \<not> (last fs = [hash_sign] \<and> length fs = length ts + 1))"
proof -
  have "mqtt_topic_is_matched (join_levels fs) (lenstring (join_levels ts)) =
      Some (loop_matches (join_levels fs) (join_levels ts))"
    by (auto simp: mqtt_topic_is_matched_def lenstring_def mem_read_Some filter_no_zero [OF assms(1)] loop_matches_def split: prod.splits)
  then show ?thesis using loop_matches_levels [OF assms] by simp
qed

theorem topic_is_matched_levels_witness:
  "mqtt_topic_is_matched [0x61, slash, plus_sign, slash, hash_sign] (lenstring [0x61, slash, 0x62, slash, 0x63, slash, 0x64]) = Some True \<and>
   mqtt_topic_is_matched [0x61, slash, hash_sign] (lenstring [0x61]) = Some False \<and> topic_matches [[0x61], [hash_sign]] [[0x61]]"
proof -
  have wf: "filter_wf [[0x61], [plus_sign], [hash_sign]]" "filter_wf [[0x61], [hash_sign]]"
      "topic_wf [[0x61], [0x62], [0x63], [0x64]]" "topic_wf [[0x61]]"
    by (simp_all add: plain_level_def topic_wf_def)
  show ?thesis
    using topic_is_matched_levels [OF wf(1,3)] topic_is_matched_levels [OF wf(2,4)] by simp
qed

end
