(* ===== verification/MqttClient.thy ===== *)
theory MqttClient
  imports MqttTopic MqttPublish MqttConnect MqttSubscribe
begin

text \<open>
  The MQTT client (\<^verbatim>\<open>mqttclient/mqttclient.c\<close>): the list of packets that wait for an acknowledgement, the
  list of subscriptions, the handlers of the packet types, and the calls of the user. The lists are
  owned by the client, so a node is its contents; a call runs under the write lock and is one step.
  Allocation succeeds: \<^verbatim>\<open>platform_memory_alloc\<close> clears the block before any caller can see a null
  pointer. Callbacks are recorded, not executed. The theorems show that a message of quality of
  service 2 is delivered at most once per release and that a subscription survives its cancellation.
\<close>

section \<open>Operations\<close>

definition KAWAII_MQTT_CLEAN_SESSION_ERROR :: int where "KAWAII_MQTT_CLEAN_SESSION_ERROR = - 0x18"
definition KAWAII_MQTT_SET_PUBLISH_DUP_FAILED_ERROR :: int where "KAWAII_MQTT_SET_PUBLISH_DUP_FAILED_ERROR = - 0x19"
definition KAWAII_MQTT_ACK_NODE_IS_EXIST_ERROR :: int where "KAWAII_MQTT_ACK_NODE_IS_EXIST_ERROR = - 0x17"
definition KAWAII_MQTT_ACK_HANDLER_NUM_TOO_MUCH_ERROR :: int where "KAWAII_MQTT_ACK_HANDLER_NUM_TOO_MUCH_ERROR = - 0x16"
definition KAWAII_MQTT_SUBSCRIBE_ERROR :: int where "KAWAII_MQTT_SUBSCRIBE_ERROR = - 0x14"
definition KAWAII_MQTT_SERIALIZE_PUBLISH_ACK_PACKET_ERROR :: int where "KAWAII_MQTT_SERIALIZE_PUBLISH_ACK_PACKET_ERROR = - 0x12"
definition KAWAII_MQTT_PUBLISH_PACKET_ERROR :: int where "KAWAII_MQTT_PUBLISH_PACKET_ERROR = - 0x11"
definition KAWAII_MQTT_SUBSCRIBE_NOT_ACK_ERROR :: int where "KAWAII_MQTT_SUBSCRIBE_NOT_ACK_ERROR = - 0xf"
definition KAWAII_MQTT_NOT_CONNECT_ERROR :: int where "KAWAII_MQTT_NOT_CONNECT_ERROR = - 0xe"
definition KAWAII_MQTT_SUBSCRIBE_ACK_PACKET_ERROR :: int where "KAWAII_MQTT_SUBSCRIBE_ACK_PACKET_ERROR = - 0xd"
definition KAWAII_MQTT_UNSUBSCRIBE_ACK_PACKET_ERROR :: int where "KAWAII_MQTT_UNSUBSCRIBE_ACK_PACKET_ERROR = - 0xc"
definition KAWAII_MQTT_PUBLISH_ACK_PACKET_ERROR :: int where "KAWAII_MQTT_PUBLISH_ACK_PACKET_ERROR = - 0xb"
definition KAWAII_MQTT_PUBLISH_ACK_TYPE_ERROR :: int where "KAWAII_MQTT_PUBLISH_ACK_TYPE_ERROR = - 0xa"
definition KAWAII_MQTT_PUBREC_PACKET_ERROR :: int where "KAWAII_MQTT_PUBREC_PACKET_ERROR = - 9"
definition KAWAII_MQTT_MEM_NOT_ENOUGH_ERROR :: int where "KAWAII_MQTT_MEM_NOT_ENOUGH_ERROR = - 3"

lemmas mqtt_error_defs = KAWAII_MQTT_SUCCESS_ERROR_def KAWAII_MQTT_FAILED_ERROR_def KAWAII_MQTT_NOTHING_TO_READ_ERROR_def
  KAWAII_MQTT_BUFFER_TOO_SHORT_ERROR_def KAWAII_MQTT_SEND_PACKET_ERROR_def KAWAII_MQTT_CLEAN_SESSION_ERROR_def
  KAWAII_MQTT_SET_PUBLISH_DUP_FAILED_ERROR_def KAWAII_MQTT_ACK_NODE_IS_EXIST_ERROR_def
  KAWAII_MQTT_ACK_HANDLER_NUM_TOO_MUCH_ERROR_def KAWAII_MQTT_SUBSCRIBE_ERROR_def
  KAWAII_MQTT_SERIALIZE_PUBLISH_ACK_PACKET_ERROR_def KAWAII_MQTT_PUBLISH_PACKET_ERROR_def
  KAWAII_MQTT_SUBSCRIBE_NOT_ACK_ERROR_def KAWAII_MQTT_NOT_CONNECT_ERROR_def KAWAII_MQTT_SUBSCRIBE_ACK_PACKET_ERROR_def
  KAWAII_MQTT_UNSUBSCRIBE_ACK_PACKET_ERROR_def KAWAII_MQTT_PUBLISH_ACK_PACKET_ERROR_def
  KAWAII_MQTT_PUBLISH_ACK_TYPE_ERROR_def KAWAII_MQTT_PUBREC_PACKET_ERROR_def KAWAII_MQTT_MEM_NOT_ENOUGH_ERROR_def

definition KAWAII_MQTT_MAX_PACKET_ID :: u16 where "KAWAII_MQTT_MAX_PACKET_ID = 0xfffe"
definition KAWAII_MQTT_TOPIC_LEN_MAX :: nat where "KAWAII_MQTT_TOPIC_LEN_MAX = 64"
definition KAWAII_MQTT_ACK_HANDLER_NUM_MAX :: "24 word" where "KAWAII_MQTT_ACK_HANDLER_NUM_MAX = 64"

definition mqtt_set_client_state :: "client_state \<Rightarrow> mqtt_client \<Rightarrow> mqtt_client" where
  "mqtt_set_client_state state c = c\<lparr>mqtt_client_state := state\<rparr>"

definition mqtt_is_connected :: "mqtt_client \<Rightarrow> int" where
  "mqtt_is_connected c =
     (if mqtt_client_state c = CLIENT_STATE_CLEAN_SESSION then KAWAII_MQTT_CLEAN_SESSION_ERROR
      else if mqtt_client_state c \<noteq> CLIENT_STATE_CONNECTED then KAWAII_MQTT_NOT_CONNECT_ERROR
      else KAWAII_MQTT_SUCCESS_ERROR)"

definition mqtt_set_publish_dup :: "mqtt_client \<Rightarrow> u8 \<Rightarrow> (int \<times> mqtt_client) option" where
  "mqtt_set_publish_dup c dup =
     do { header \<leftarrow> mem_get (mqtt_write_buf c) 0;
          if header_type header \<noteq> PUBLISH then Some (KAWAII_MQTT_SET_PUBLISH_DUP_FAILED_ERROR, c)
          else do {
            buf \<leftarrow> mem_put (mqtt_write_buf c) 0
              (MQTTHeader (header_type header) dup (header_qos header) (header_retain header));
            Some (KAWAII_MQTT_SUCCESS_ERROR, c\<lparr>mqtt_write_buf := buf\<rparr>) } }"

definition mqtt_ack_handler_is_maximum :: "mqtt_client \<Rightarrow> bool" where
  "mqtt_ack_handler_is_maximum c \<longleftrightarrow> mqtt_ack_handler_number c \<ge> KAWAII_MQTT_ACK_HANDLER_NUM_MAX"

definition mqtt_add_ack_handler_num :: "mqtt_client \<Rightarrow> mqtt_client" where
  "mqtt_add_ack_handler_num c = c\<lparr>mqtt_ack_handler_number := mqtt_ack_handler_number c + 1\<rparr>"

definition mqtt_subtract_ack_handler_num :: "mqtt_client \<Rightarrow> mqtt_client" where
  "mqtt_subtract_ack_handler_num c =
     (if mqtt_ack_handler_number c \<le> 0 then c
      else c\<lparr>mqtt_ack_handler_number := mqtt_ack_handler_number c - 1\<rparr>)"

definition mqtt_get_next_packet_id :: "mqtt_client \<Rightarrow> u16 \<times> mqtt_client" where
  "mqtt_get_next_packet_id c =
     (let n = (if mqtt_packet_id c = KAWAII_MQTT_MAX_PACKET_ID then 1 else mqtt_packet_id c + 1)
      in (n, c\<lparr>mqtt_packet_id := n\<rparr>))"

text \<open>The topic name that the callback gets, truncated to the size of its array.\<close>

definition mqtt_new_message_data :: "MQTTString \<Rightarrow> bytes option" where
  "mqtt_new_message_data topic_name =
     mem_read (case lenstring_data topic_name of Some d \<Rightarrow> d | None \<Rightarrow> []) 0
       (if nat (lenstring_len topic_name) < KAWAII_MQTT_TOPIC_LEN_MAX - 1 then nat (lenstring_len topic_name)
        else KAWAII_MQTT_TOPIC_LEN_MAX - 1)"

text \<open>
  Delivery. Payload and topic name are parts of the read buffer, at the positions \<open>at_payload\<close> and
  \<open>at_topic\<close>; they are cleared after the call. A negative payload length, converted to \<^verbatim>\<open>size_t\<close>,
  clears memory far outside the buffer.
\<close>

definition mqtt_deliver_message ::
  "mqtt_client \<Rightarrow> MQTTString \<Rightarrow> nat \<Rightarrow> mqtt_message \<Rightarrow> nat \<Rightarrow> int \<Rightarrow> (int \<times> mqtt_client) option" where
  "mqtt_deliver_message c topic_name at_topic msg at_payload payloadlen =
     do { h \<leftarrow> mqtt_get_msg_handler (mqtt_msg_handler_list c) topic_name;
          (rc, c1) \<leftarrow> (case h of
              Some mh \<Rightarrow> do { name \<leftarrow> mqtt_new_message_data topic_name;
                             Some (KAWAII_MQTT_SUCCESS_ERROR, c\<lparr>callbacks := callbacks c @ [(mh_handler mh, name, msg)]\<rparr>) }
            | None \<Rightarrow> (case mqtt_interceptor_handler c of
                Some i \<Rightarrow> do { name \<leftarrow> mqtt_new_message_data topic_name;
                              Some (KAWAII_MQTT_SUCCESS_ERROR, c\<lparr>callbacks := callbacks c @ [(i, name, msg)]\<rparr>) }
              | None \<Rightarrow> Some (KAWAII_MQTT_FAILED_ERROR, c)));
          if payloadlen < 0 then None
          else do {
            buf \<leftarrow> mem_write (mqtt_read_buf c1) at_payload (replicate (nat payloadlen) 0);
            buf \<leftarrow> mem_write buf at_topic (replicate (nat (lenstring_len topic_name)) 0);
            Some (rc, c1\<lparr>mqtt_read_buf := buf\<rparr>) } }"

subsection \<open>The list of expected acknowledgements\<close>

definition mqtt_ack_handler_create ::
  "mqtt_client \<Rightarrow> u8 \<Rightarrow> u16 \<Rightarrow> u16 \<Rightarrow> message_handlers option \<Rightarrow> platform \<Rightarrow> ack_handlers option" where
  "mqtt_ack_handler_create c type packet_id payload_len handler p =
     do { payload \<leftarrow> mem_read (mqtt_write_buf c) 0 (unat payload_len);
          Some \<lparr>ack_timer = platform_timer_cutdown (mqtt_cmd_timeout c) p, ack_type = type, ack_packet_id = packet_id,
                ack_handler = handler, ack_payload = payload\<rparr> }"

definition mqtt_ack_handler_resend ::
  "mqtt_client \<Rightarrow> ack_handlers \<Rightarrow> platform \<Rightarrow> (ack_handlers \<times> mqtt_client \<times> platform) option" where
  "mqtt_ack_handler_resend c a p =
     do { let a1 = a\<lparr>ack_timer := platform_timer_cutdown (mqtt_cmd_timeout c) p\<rparr>;
          buf \<leftarrow> mem_write (mqtt_write_buf c) 0 (ack_payload a1);
          (rc, c1, p1) \<leftarrow> mqtt_send_packet (c\<lparr>mqtt_write_buf := buf\<rparr>) (int (length (ack_payload a1))) p;
          Some (a1, c1, p1) }"

definition mqtt_ack_list_node_is_exist :: "mqtt_client \<Rightarrow> u8 \<Rightarrow> u16 \<Rightarrow> bool" where
  "mqtt_ack_list_node_is_exist c type packet_id \<longleftrightarrow>
     list_ex (\<lambda>a. packet_id = ack_packet_id a \<and> type = ack_type a) (mqtt_ack_handler_list c)"

definition mqtt_ack_list_record ::
  "mqtt_client \<Rightarrow> u8 \<Rightarrow> u16 \<Rightarrow> int \<Rightarrow> message_handlers option \<Rightarrow> platform \<Rightarrow> (int \<times> mqtt_client) option" where
  "mqtt_ack_list_record c type packet_id payload_len handler p =
     (if mqtt_ack_list_node_is_exist c type packet_id then Some (KAWAII_MQTT_ACK_NODE_IS_EXIST_ERROR, c)
      else do {
        a \<leftarrow> mqtt_ack_handler_create c type packet_id (word_of_int payload_len) handler p;
        let c1 = mqtt_add_ack_handler_num c;
        Some (KAWAII_MQTT_SUCCESS_ERROR, c1\<lparr>mqtt_ack_handler_list := mqtt_ack_handler_list c1 @ [a]\<rparr>) })"

text \<open>
  The loop of \<^verbatim>\<open>mqtt_ack_list_unrecord\<close>: the result is \<^verbatim>\<open>*handler\<close>, if it was assigned, and the nodes that
  stay.
\<close>

fun unrecord_loop ::
  "u8 \<Rightarrow> u16 \<Rightarrow> ack_handlers list \<Rightarrow> message_handlers option option \<Rightarrow> mqtt_client \<Rightarrow>
    message_handlers option option \<times> ack_handlers list \<times> mqtt_client" where
  "unrecord_loop type packet_id [] handler c = (handler, [], c)"
| "unrecord_loop type packet_id (a # as) handler c =
     (if packet_id \<noteq> ack_packet_id a \<or> type \<noteq> ack_type a
      then let (h, rest, c1) = unrecord_loop type packet_id as handler c in (h, a # rest, c1)
      else unrecord_loop type packet_id as (Some (ack_handler a)) (mqtt_subtract_ack_handler_num c))"

definition mqtt_ack_list_unrecord ::
  "mqtt_client \<Rightarrow> u8 \<Rightarrow> u16 \<Rightarrow> message_handlers option option \<times> mqtt_client" where
  "mqtt_ack_list_unrecord c type packet_id =
     (let (h, rest, c1) = unrecord_loop type packet_id (mqtt_ack_handler_list c) None c
      in (h, c1\<lparr>mqtt_ack_handler_list := rest\<rparr>))"

text \<open>The loop of \<^verbatim>\<open>mqtt_ack_list_scan\<close> over the nodes; the first component is the nodes that stay.\<close>

fun scan_loop ::
  "u8 \<Rightarrow> ack_handlers list \<Rightarrow> mqtt_client \<Rightarrow> platform \<Rightarrow> (ack_handlers list \<times> mqtt_client \<times> platform) option" where
  "scan_loop flag [] c p = Some ([], c, p)"
| "scan_loop flag (a # as) c p =
     (if \<not> platform_timer_is_expired (ack_timer a) p \<and> flag = 1 then
        do { (rest, c1, p1) \<leftarrow> scan_loop flag as c p; Some (a # rest, c1, p1) }
      else if ack_type a = PUBACK \<or> ack_type a = PUBREC \<or> ack_type a = PUBREL \<or> ack_type a = PUBCOMP then
        do { (a1, c1, p1) \<leftarrow> mqtt_ack_handler_resend c a p;
             (rest, c2, p2) \<leftarrow> scan_loop flag as c1 p1;
             Some (a1 # rest, c2, p2) }
      else if flag \<noteq> 0 then scan_loop flag as (mqtt_subtract_ack_handler_num c) p
      else do { (rest, c1, p1) \<leftarrow> scan_loop flag as c p; Some (a # rest, c1, p1) })"

definition mqtt_ack_list_scan :: "mqtt_client \<Rightarrow> u8 \<Rightarrow> platform \<Rightarrow> (mqtt_client \<times> platform) option" where
  "mqtt_ack_list_scan c flag p =
     (if mqtt_ack_handler_list c = [] \<or> mqtt_client_state c \<noteq> CLIENT_STATE_CONNECTED then Some (c, p)
      else do { (rest, c1, p1) \<leftarrow> scan_loop flag (mqtt_ack_handler_list c) c p;
                Some (c1\<lparr>mqtt_ack_handler_list := rest\<rparr>, p1) })"

subsection \<open>Subscriptions\<close>

definition mqtt_msg_handler_create :: "bytes \<Rightarrow> int \<Rightarrow> nat \<Rightarrow> message_handlers" where
  "mqtt_msg_handler_create filt qos handler = \<lparr>mh_qos = qos, topic_filter = Some filt, mh_handler = handler\<rparr>"

definition mqtt_msg_handler_is_exist :: "mqtt_client \<Rightarrow> message_handlers \<Rightarrow> bool option" where
  "mqtt_msg_handler_is_exist c handler =
     (if mqtt_msg_handler_list c = [] then Some False
      else do { filt \<leftarrow> topic_filter handler;
                Some (list_ex (\<lambda>h. case topic_filter h of None \<Rightarrow> False | Some f \<Rightarrow> mqtt_is_topic_equals f filt)
                        (mqtt_msg_handler_list c)) })"

definition mqtt_msg_handlers_install :: "mqtt_client \<Rightarrow> message_handlers \<Rightarrow> (int \<times> mqtt_client) option" where
  "mqtt_msg_handlers_install c handler =
     do { e \<leftarrow> mqtt_msg_handler_is_exist c handler;
          if e then Some (KAWAII_MQTT_SUCCESS_ERROR, c)
          else Some (KAWAII_MQTT_SUCCESS_ERROR, c\<lparr>mqtt_msg_handler_list := mqtt_msg_handler_list c @ [handler]\<rparr>) }"

definition mqtt_clean_session :: "mqtt_client \<Rightarrow> mqtt_client" where
  "mqtt_clean_session c =
     mqtt_set_client_state CLIENT_STATE_INVALID (c\<lparr>mqtt_ack_handler_list := [], mqtt_msg_handler_list := []\<rparr>)"

subsection \<open>Packets from the broker\<close>

text \<open>What the variables of the handlers contain before they are assigned.\<close>

record stack_vars =
  sv_ack :: ack_out
  sv_publish :: publish_out
  sv_packet_id :: u16

abbreviation read_size :: "mqtt_client \<Rightarrow> int" where "read_size c \<equiv> uint (mqtt_read_buf_size c)"
abbreviation write_size :: "mqtt_client \<Rightarrow> int" where "write_size c \<equiv> uint (mqtt_write_buf_size c)"

definition mqtt_publish_ack_packet ::
  "mqtt_client \<Rightarrow> u16 \<Rightarrow> u8 \<Rightarrow> platform \<Rightarrow> (int \<times> mqtt_client \<times> platform) option" where
  "mqtt_publish_ack_packet c packet_id packet_type p =
     (if packet_type = PUBREC then
        do { (len, buf) \<leftarrow> MQTTSerialize_ack (mqtt_write_buf c) (write_size c) PUBREL 0 packet_id;
             (rc, c1) \<leftarrow> mqtt_ack_list_record (c\<lparr>mqtt_write_buf := buf\<rparr>) PUBCOMP packet_id len None p;
             if rc \<noteq> KAWAII_MQTT_SUCCESS_ERROR then Some (rc, c1, p)
             else if len \<le> 0 then Some (KAWAII_MQTT_PUBLISH_ACK_PACKET_ERROR, c1, p)
             else mqtt_send_packet c1 len p }
      else if packet_type = PUBREL then
        do { (len, buf) \<leftarrow> MQTTSerialize_ack (mqtt_write_buf c) (write_size c) PUBCOMP 0 packet_id;
             let c1 = c\<lparr>mqtt_write_buf := buf\<rparr>;
             if len \<le> 0 then Some (KAWAII_MQTT_PUBLISH_ACK_PACKET_ERROR, c1, p)
             else mqtt_send_packet c1 len p }
      else Some (KAWAII_MQTT_PUBLISH_ACK_TYPE_ERROR, c, p))"

definition mqtt_puback_and_pubcomp_packet_handle :: "stack_vars \<Rightarrow> mqtt_client \<Rightarrow> (int \<times> mqtt_client) option" where
  "mqtt_puback_and_pubcomp_packet_handle sv c =
     (if mqtt_is_connected c \<noteq> KAWAII_MQTT_SUCCESS_ERROR then Some (mqtt_is_connected c, c)
      else do {
        (rc, out) \<leftarrow> MQTTDeserialize_ack (mqtt_read_buf c) (read_size c) (sv_ack sv);
        let (h, c1) = mqtt_ack_list_unrecord c (ack_packettype out) (ack_packetid out);
        Some (KAWAII_MQTT_SUCCESS_ERROR, c1) })"

definition mqtt_suback_packet_handle :: "stack_vars \<Rightarrow> mqtt_client \<Rightarrow> (int \<times> mqtt_client) option" where
  "mqtt_suback_packet_handle sv c =
     (if mqtt_is_connected c \<noteq> KAWAII_MQTT_SUCCESS_ERROR then Some (mqtt_is_connected c, c)
      else do {
        (rc, out) \<leftarrow> MQTTDeserialize_suback 1 (mqtt_read_buf c) (read_size c)
          \<lparr>sa_packetid = sv_packet_id sv, sa_count = 0, grantedQoSs = [0]\<rparr>;
        if rc \<noteq> 1 then Some (KAWAII_MQTT_SUBSCRIBE_ACK_PACKET_ERROR, c)
        else do {
          let is_nack = (grantedQoSs out ! 0 = SUBFAIL);
          let (h, c1) = mqtt_ack_list_unrecord c SUBACK (sa_packetid out);
          case h of
            Some (Some msg_handler) \<Rightarrow>
              if is_nack then Some (KAWAII_MQTT_SUBSCRIBE_NOT_ACK_ERROR, c1)
              else mqtt_msg_handlers_install c1 msg_handler
          | _ \<Rightarrow> Some (KAWAII_MQTT_MEM_NOT_ENOUGH_ERROR, c1) } })"

text \<open>
  The message handler of an UNSUBACK packet is not initialised: without a matching node its value is
  used undefined.
\<close>

definition mqtt_unsuback_packet_handle :: "mqtt_client \<Rightarrow> (int \<times> mqtt_client) option" where
  "mqtt_unsuback_packet_handle c =
     (if mqtt_is_connected c \<noteq> KAWAII_MQTT_SUCCESS_ERROR then Some (mqtt_is_connected c, c)
      else do {
        (rc, packet_id) \<leftarrow> MQTTDeserialize_unsuback (mqtt_read_buf c) (read_size c) 0;
        if rc \<noteq> 1 then Some (KAWAII_MQTT_UNSUBSCRIBE_ACK_PACKET_ERROR, c)
        else let (h, c1) = mqtt_ack_list_unrecord c UNSUBACK packet_id
          in case h of
               None \<Rightarrow> None
             | Some None \<Rightarrow> Some (KAWAII_MQTT_MEM_NOT_ENOUGH_ERROR, c1)
             | Some (Some msg_handler) \<Rightarrow> Some (KAWAII_MQTT_SUCCESS_ERROR, c1) })"

text \<open>The message that the callbacks see; the packet id precedes the payload for quality of service 1 and 2.\<close>

definition publish_message :: "bytes \<Rightarrow> publish_out \<Rightarrow> mqtt_message" where
  "publish_message buf out =
     \<lparr>msg_qos = pub_qos out, msg_retained = pub_retained out, msg_dup = pub_dup out, msg_id = pub_packetid out,
      msg_payload = take (nat (pub_payloadlen out)) (drop (pub_payload out) buf)\<rparr>"

definition publish_topic_at :: "publish_out \<Rightarrow> nat" where
  "publish_topic_at out =
     pub_payload out - (if pub_qos out > 0 then 2 else 0) - nat (lenstring_len (pub_topicName out))"

definition publish_deliver :: "mqtt_client \<Rightarrow> publish_out \<Rightarrow> (int \<times> mqtt_client) option" where
  "publish_deliver c out =
     mqtt_deliver_message c (pub_topicName out) (publish_topic_at out) (publish_message (mqtt_read_buf c) out)
       (pub_payload out) (pub_payloadlen out)"

text \<open>The acknowledgement of a message of quality of service 1 or 2.\<close>

definition publish_acknowledge ::
  "mqtt_client \<Rightarrow> publish_out \<Rightarrow> platform \<Rightarrow> (int \<times> int \<times> mqtt_client \<times> platform) option" where
  "publish_acknowledge c out p =
     (if pub_qos out \<noteq> QOS0 then do {
        (len, buf) \<leftarrow>
          (if pub_qos out = QOS1
           then MQTTSerialize_ack (mqtt_write_buf c) (write_size c) PUBACK 0 (pub_packetid out)
           else if pub_qos out = QOS2
           then MQTTSerialize_ack (mqtt_write_buf c) (write_size c) PUBREC 0 (pub_packetid out)
           else Some (0, mqtt_write_buf c));
        let c1 = c\<lparr>mqtt_write_buf := buf\<rparr>;
        if len \<le> 0 then Some (len, KAWAII_MQTT_SERIALIZE_PUBLISH_ACK_PACKET_ERROR, c1, p)
        else do { (rc, c2, p2) \<leftarrow> mqtt_send_packet c1 len p; Some (len, rc, c2, p2) } }
      else Some (0, KAWAII_MQTT_SUCCESS_ERROR, c, p))"

definition mqtt_publish_packet_handle ::
  "stack_vars \<Rightarrow> mqtt_client \<Rightarrow> platform \<Rightarrow> (int \<times> mqtt_client \<times> platform) option" where
  "mqtt_publish_packet_handle sv c p =
     (if mqtt_is_connected c \<noteq> KAWAII_MQTT_SUCCESS_ERROR then Some (mqtt_is_connected c, c, p)
      else do {
        (rc, out) \<leftarrow> MQTTDeserialize_publish (mqtt_read_buf c) (read_size c) (sv_publish sv);
        if rc \<noteq> 1 then Some (KAWAII_MQTT_PUBLISH_PACKET_ERROR, c, p)
        else do {
          (len, rc, c1, p1) \<leftarrow> publish_acknowledge c out p;
          if rc < 0 then Some (rc, c1, p1)
          else if pub_qos out \<noteq> QOS2 then do {
            (_, c2) \<leftarrow> publish_deliver c1 out;
            Some (rc, c2, p1) }
          else do {
            (rc, c2) \<leftarrow> mqtt_ack_list_record c1 PUBREL (pub_packetid out) len None p1;
            if rc \<noteq> KAWAII_MQTT_ACK_NODE_IS_EXIST_ERROR then do {
              (_, c3) \<leftarrow> publish_deliver c2 out;
              Some (rc, c3, p1) }
            else Some (rc, c2, p1) } } })"

definition mqtt_pubrec_and_pubrel_packet_handle ::
  "stack_vars \<Rightarrow> mqtt_client \<Rightarrow> platform \<Rightarrow> (int \<times> mqtt_client \<times> platform) option" where
  "mqtt_pubrec_and_pubrel_packet_handle sv c p =
     (if mqtt_is_connected c \<noteq> KAWAII_MQTT_SUCCESS_ERROR then Some (mqtt_is_connected c, c, p)
      else do {
        (rc, out) \<leftarrow> MQTTDeserialize_ack (mqtt_read_buf c) (read_size c) (sv_ack sv);
        if rc \<noteq> 1 then Some (KAWAII_MQTT_PUBREC_PACKET_ERROR, c, p)
        else do {
          (_, c1, p1) \<leftarrow> mqtt_publish_ack_packet c (ack_packetid out) (ack_packettype out) p;
          let (h, c2) = mqtt_ack_list_unrecord c1 (ack_packettype out) (ack_packetid out);
          Some (KAWAII_MQTT_SUCCESS_ERROR, c2, p1) } })"

definition mqtt_keep_alive :: "mqtt_client \<Rightarrow> platform \<Rightarrow> (int \<times> mqtt_client \<times> platform) option" where
  "mqtt_keep_alive c p =
     (if mqtt_is_connected c \<noteq> KAWAII_MQTT_SUCCESS_ERROR then Some (mqtt_is_connected c, c, p)
      else if platform_timer_is_expired (mqtt_last_sent c) p \<or> platform_timer_is_expired (mqtt_last_received c) p then
        if mqtt_ping_outstanding c \<noteq> 0 then
          Some (KAWAII_MQTT_NOT_CONNECT_ERROR,
                mqtt_set_client_state CLIENT_STATE_DISCONNECTED (c\<lparr>socket_open := False\<rparr>), p)
        else do {
          (len, buf) \<leftarrow> MQTTSerialize_pingreq (mqtt_write_buf c) (write_size c);
          let c1 = c\<lparr>mqtt_write_buf := buf\<rparr>;
          if len > 0 then do {
            (rc, c2, p2) \<leftarrow> mqtt_send_packet c1 len p;
            Some (rc, c2\<lparr>mqtt_ping_outstanding := mqtt_ping_outstanding c2 + 1\<rparr>, p2) }
          else Some (KAWAII_MQTT_SUCCESS_ERROR, c1, p) }
      else Some (KAWAII_MQTT_SUCCESS_ERROR, c, p))"

text \<open>The switch of \<^verbatim>\<open>mqtt_packet_handle\<close> on the packet type.\<close>

definition mqtt_packet_switch ::
  "stack_vars \<Rightarrow> u8 \<Rightarrow> mqtt_client \<Rightarrow> platform \<Rightarrow> (mqtt_client \<times> platform) option" where
  "mqtt_packet_switch sv packet_type c p =
     (if packet_type = PUBACK \<or> packet_type = PUBCOMP then
        do { (_, c1) \<leftarrow> mqtt_puback_and_pubcomp_packet_handle sv c; Some (c1, p) }
      else if packet_type = SUBACK then do { (_, c1) \<leftarrow> mqtt_suback_packet_handle sv c; Some (c1, p) }
      else if packet_type = UNSUBACK then do { (_, c1) \<leftarrow> mqtt_unsuback_packet_handle c; Some (c1, p) }
      else if packet_type = PUBLISH then do { (_, c1, p1) \<leftarrow> mqtt_publish_packet_handle sv c p; Some (c1, p1) }
      else if packet_type = PUBREC \<or> packet_type = PUBREL then
        do { (_, c1, p1) \<leftarrow> mqtt_pubrec_and_pubrel_packet_handle sv c p; Some (c1, p1) }
      else if packet_type = PINGRESP then Some (c\<lparr>mqtt_ping_outstanding := 0\<rparr>, p)
      else Some (c, p))"

definition mqtt_packet_handle :: "stack_vars \<Rightarrow> mqtt_client \<Rightarrow> platform \<Rightarrow> (int \<times> mqtt_client \<times> platform) option" where
  "mqtt_packet_handle sv c p =
     do { (rc, t, c1, p1) \<leftarrow> mqtt_read_packet c p;
          let packet_type = (case t of Some ty \<Rightarrow> ty | None \<Rightarrow> 0);
          (rc, c2, p2) \<leftarrow>
            (if packet_type = CONNACK then Some (rc, c1, p1)
             else do { (c2, p2) \<leftarrow> mqtt_packet_switch sv packet_type c1 p1; mqtt_keep_alive c2 p2 });
          Some (if rc = KAWAII_MQTT_SUCCESS_ERROR then uint packet_type else rc, c2, p2) }"

text \<open>
  The timer of the caller after \<^verbatim>\<open>mqtt_packet_handle\<close>: \<^verbatim>\<open>mqtt_read_packet\<close> starts it anew when it begins, and
  \<^verbatim>\<open>mqtt_publish_packet_handle\<close> does so again when it sends an acknowledgement.
\<close>

definition publish_timer :: "stack_vars \<Rightarrow> mqtt_client \<Rightarrow> platform_timer \<Rightarrow> platform \<Rightarrow> platform_timer option" where
  "publish_timer sv c timer p =
     (if mqtt_is_connected c \<noteq> KAWAII_MQTT_SUCCESS_ERROR then Some timer
      else do {
        (rc, out) \<leftarrow> MQTTDeserialize_publish (mqtt_read_buf c) (read_size c) (sv_publish sv);
        if rc \<noteq> 1 \<or> pub_qos out \<noteq> QOS1 \<and> pub_qos out \<noteq> QOS2 then Some timer
        else do {
          (len, _) \<leftarrow> MQTTSerialize_ack (mqtt_write_buf c) (write_size c)
                         (if pub_qos out = QOS1 then PUBACK else PUBREC) 0 (pub_packetid out);
          Some (if len \<le> 0 then timer else platform_timer_cutdown (mqtt_cmd_timeout c) p) } })"

definition packet_timer :: "stack_vars \<Rightarrow> mqtt_client \<Rightarrow> platform \<Rightarrow> platform_timer option" where
  "packet_timer sv c p =
     do { let timer = platform_timer_cutdown (mqtt_cmd_timeout c) p;
          (_, t, c1, p1) \<leftarrow> mqtt_read_packet c p;
          if t = Some PUBLISH then publish_timer sv c1 timer p1 else Some timer }"

subsection \<open>Calls of the user\<close>

definition cstring_of :: "bytes \<Rightarrow> MQTTString" where
  "cstring_of s = MQTTString_initializer\<lparr>cstring := Some s\<rparr>"

definition mqtt_disconnect :: "mqtt_client \<Rightarrow> platform \<Rightarrow> (int \<times> mqtt_client \<times> platform) option" where
  "mqtt_disconnect c p =
     do { (len, buf) \<leftarrow> MQTTSerialize_disconnect (mqtt_write_buf c) (write_size c);
          let c1 = c\<lparr>mqtt_write_buf := buf\<rparr>;
          (rc, c2, p2) \<leftarrow> (if len > 0 then mqtt_send_packet c1 len p else Some (KAWAII_MQTT_FAILED_ERROR, c1, p));
          Some (rc, mqtt_set_client_state CLIENT_STATE_CLEAN_SESSION c2, p2) }"

text \<open>\<open>default_msg_handler\<close> is the callback 0.\<close>

definition mqtt_subscribe ::
  "mqtt_client \<Rightarrow> bytes \<Rightarrow> int \<Rightarrow> nat option \<Rightarrow> platform \<Rightarrow> (int \<times> mqtt_client \<times> platform) option" where
  "mqtt_subscribe c filt qos handler p =
     (if mqtt_client_state c \<noteq> CLIENT_STATE_CONNECTED then Some (KAWAII_MQTT_NOT_CONNECT_ERROR, c, p)
      else do {
        let (packet_id, c0) = mqtt_get_next_packet_id c;
        (len, buf) \<leftarrow> MQTTSerialize_subscribe (mqtt_write_buf c0) (write_size c0) 0 packet_id 1 [cstring_of filt] [qos];
        let c1 = c0\<lparr>mqtt_write_buf := buf\<rparr>;
        if len \<le> 0 then Some (KAWAII_MQTT_SUBSCRIBE_ERROR, c1, p)
        else do {
          (rc, c2, p2) \<leftarrow> mqtt_send_packet c1 len p;
          if rc \<noteq> KAWAII_MQTT_SUCCESS_ERROR then Some (rc, c2, p2)
          else do {
            let msg_handler = mqtt_msg_handler_create filt qos (case handler of Some h \<Rightarrow> h | None \<Rightarrow> 0);
            (rc, c3) \<leftarrow> mqtt_ack_list_record c2 SUBACK packet_id len (Some msg_handler) p2;
            Some (rc, c3, p2) } } })"

text \<open>The handler of an UNSUBSCRIBE request has no callback, which is never called; it is recorded as 0.\<close>

definition mqtt_unsubscribe :: "mqtt_client \<Rightarrow> bytes \<Rightarrow> platform \<Rightarrow> (int \<times> mqtt_client \<times> platform) option" where
  "mqtt_unsubscribe c filt p =
     (if mqtt_client_state c \<noteq> CLIENT_STATE_CONNECTED then Some (KAWAII_MQTT_NOT_CONNECT_ERROR, c, p)
      else do {
        let (packet_id, c0) = mqtt_get_next_packet_id c;
        (len, buf) \<leftarrow> MQTTSerialize_unsubscribe (mqtt_write_buf c0) (write_size c0) 0 packet_id 1 [cstring_of filt];
        let c1 = c0\<lparr>mqtt_write_buf := buf\<rparr>;
        if len \<le> 0 then Some (KAWAII_MQTT_FAILED_ERROR, c1, p)
        else do {
          (rc, c2, p2) \<leftarrow> mqtt_send_packet c1 len p;
          if rc \<noteq> KAWAII_MQTT_SUCCESS_ERROR then Some (rc, c2, p2)
          else do {
            (rc, c3) \<leftarrow> mqtt_ack_list_record c2 UNSUBACK packet_id len (Some (mqtt_msg_handler_create filt QOS0 0)) p2;
            Some (rc, c3, p2) } } })"

text \<open>
  The payload is a C string here (a payload length of 0 is replaced by the length of the string). The
  message is passed by reference: the last component is its packet id afterwards.
\<close>

definition mqtt_publish ::
  "mqtt_client \<Rightarrow> bytes \<Rightarrow> mqtt_message \<Rightarrow> nat \<Rightarrow> platform \<Rightarrow> (int \<times> mqtt_client \<times> platform \<times> u16) option" where
  "mqtt_publish c filt msg payloadlen p =
     (if mqtt_client_state c \<noteq> CLIENT_STATE_CONNECTED then Some (KAWAII_MQTT_NOT_CONNECT_ERROR, c, p, msg_id msg)
      else do {
        let n = (if payloadlen = 0 then strlen (msg_payload msg) else payloadlen);
        (rc, c2, p2, i) \<leftarrow>
          (if msg_qos msg \<noteq> QOS0 \<and> mqtt_ack_handler_is_maximum c
           then Some (KAWAII_MQTT_ACK_HANDLER_NUM_TOO_MUCH_ERROR, c, p, msg_id msg)
           else do {
             let (i, c0) = (if msg_qos msg \<noteq> QOS0 then mqtt_get_next_packet_id c else (msg_id msg, c));
             (len, buf) \<leftarrow> MQTTSerialize_publish (mqtt_write_buf c0) (write_size c0) 0 (msg_qos msg) (msg_retained msg) i
                             (cstring_of filt) (msg_payload msg) (int n);
             let c1 = c0\<lparr>mqtt_write_buf := buf\<rparr>;
             if len \<le> 0 then Some (KAWAII_MQTT_FAILED_ERROR, c1, p, i)
             else do {
               (rc, c2, p2) \<leftarrow> mqtt_send_packet c1 len p;
               if rc \<noteq> KAWAII_MQTT_SUCCESS_ERROR \<or> msg_qos msg = QOS0 then Some (rc, c2, p2, i)
               else do {
                 (_, c3) \<leftarrow> mqtt_set_publish_dup c2 1;
                 (rc, c4) \<leftarrow> (if msg_qos msg = QOS1 then mqtt_ack_list_record c3 PUBACK i len None p2
                              else if msg_qos msg = QOS2 then mqtt_ack_list_record c3 PUBREC i len None p2
                              else Some (rc, c3));
                 Some (rc, c4, p2, i) } } });
        if rc = KAWAII_MQTT_ACK_HANDLER_NUM_TOO_MUCH_ERROR \<or> rc = KAWAII_MQTT_MEM_NOT_ENOUGH_ERROR
        then Some (rc, mqtt_set_client_state CLIENT_STATE_DISCONNECTED (c2\<lparr>socket_open := False\<rparr>), p2, i)
        else Some (rc, c2, p2, i) })"

section \<open>What the operations leave alone\<close>

definition subscriptions_kept :: "mqtt_client \<Rightarrow> mqtt_client \<Rightarrow> bool" where
  "subscriptions_kept c c' \<longleftrightarrow> mqtt_msg_handler_list c' = mqtt_msg_handler_list c \<and> callbacks c' = callbacks c"

lemma send_packet_frame:
  assumes "mqtt_send_packet c n p = Some (rc, c', p')"
  shows "mqtt_ack_handler_list c' = mqtt_ack_handler_list c" "callbacks c' = callbacks c"
    "mqtt_msg_handler_list c' = mqtt_msg_handler_list c" "mqtt_read_buf c' = mqtt_read_buf c"
    "mqtt_write_buf c' = mqtt_write_buf c" "mqtt_interceptor_handler c' = mqtt_interceptor_handler c"
    "mqtt_client_state c' = mqtt_client_state c"
  using assms by (auto simp: mqtt_send_packet_def split: bind_splits if_splits)

lemma unrecord_loop_frame:
  "unrecord_loop type i as h c = (h', rest, c') \<Longrightarrow>
     rest = filter (\<lambda>a. \<not> (ack_packet_id a = i \<and> ack_type a = type)) as \<and>
     callbacks c' = callbacks c \<and> mqtt_msg_handler_list c' = mqtt_msg_handler_list c \<and>
     mqtt_ack_handler_list c' = mqtt_ack_handler_list c"
proof (induction type i as h c arbitrary: h' rest c' rule: unrecord_loop.induct)
  case (2 type i a as h c)
  then show ?case
    by (auto simp: mqtt_subtract_ack_handler_num_def split: if_splits prod.splits)
qed simp

text \<open>An acknowledgement of the given type and id is expected.\<close>

abbreviation expects :: "mqtt_client \<Rightarrow> u8 \<Rightarrow> u16 \<Rightarrow> bool" where
  "expects \<equiv> mqtt_ack_list_node_is_exist"

lemma expects_iff: "expects c t i \<longleftrightarrow> (\<exists>a \<in> set (mqtt_ack_handler_list c). ack_type a = t \<and> ack_packet_id a = i)"
  by (auto simp: mqtt_ack_list_node_is_exist_def list_ex_iff)

lemma unrecord_ok:
  assumes "mqtt_ack_list_unrecord c type i = (h, c')"
  shows "expects c' t j \<longleftrightarrow> expects c t j \<and> (t, j) \<noteq> (type, i)"
    and "callbacks c' = callbacks c" "mqtt_msg_handler_list c' = mqtt_msg_handler_list c"
  using assms unrecord_loop_frame [of type i "mqtt_ack_handler_list c" None c]
  by (auto simp: mqtt_ack_list_unrecord_def expects_iff split: prod.splits)

lemma record_ok:
  assumes "mqtt_ack_list_record c type i n h p = Some (rc, c')"
  shows "expects c' t j \<longleftrightarrow> expects c t j \<or> (t, j) = (type, i)" "callbacks c' = callbacks c"
    "mqtt_msg_handler_list c' = mqtt_msg_handler_list c" "mqtt_read_buf c' = mqtt_read_buf c"
    "mqtt_interceptor_handler c' = mqtt_interceptor_handler c"
    "rc = KAWAII_MQTT_ACK_NODE_IS_EXIST_ERROR \<longleftrightarrow> expects c type i"
  using assms
  by (auto simp: mqtt_ack_list_record_def expects_iff mqtt_ack_handler_create_def mqtt_add_ack_handler_num_def
      mqtt_error_defs split: bind_splits if_splits)

lemma scan_loop_frame:
  "scan_loop flag as c p = Some (rest, c', p') \<Longrightarrow>
     callbacks c' = callbacks c \<and> mqtt_msg_handler_list c' = mqtt_msg_handler_list c \<and>
     ((\<exists>a \<in> set as. ack_type a = PUBREL \<and> ack_packet_id a = i) \<longrightarrow>
      (\<exists>a \<in> set rest. ack_type a = PUBREL \<and> ack_packet_id a = i))"
proof (induction flag as c p arbitrary: rest c' p' rule: scan_loop.induct)
  case (2 flag a as c p)
  consider "\<not> platform_timer_is_expired (ack_timer a) p \<and> flag = 1"
    | "\<not> (\<not> platform_timer_is_expired (ack_timer a) p \<and> flag = 1)"
      "ack_type a = PUBACK \<or> ack_type a = PUBREC \<or> ack_type a = PUBREL \<or> ack_type a = PUBCOMP"
    | "\<not> (\<not> platform_timer_is_expired (ack_timer a) p \<and> flag = 1)"
      "\<not> (ack_type a = PUBACK \<or> ack_type a = PUBREC \<or> ack_type a = PUBREL \<or> ack_type a = PUBCOMP)"
    by blast
  then show ?case
  proof cases
    case 1
    then show ?thesis using 2(1) 2(5) by (fastforce split: bind_splits)
  next
    case c2: 2
    then obtain a1 c1 p1 rest' where r: "mqtt_ack_handler_resend c a p = Some (a1, c1, p1)"
        "scan_loop flag as c1 p1 = Some (rest', c', p')" "rest = a1 # rest'"
      using 2(5) by (auto split: bind_splits)
    have "ack_type a1 = ack_type a" "ack_packet_id a1 = ack_packet_id a" "callbacks c1 = callbacks c"
        "mqtt_msg_handler_list c1 = mqtt_msg_handler_list c"
      using r(1) by (auto simp: mqtt_ack_handler_resend_def Let_def dest: send_packet_frame split: bind_splits)
    then show ?thesis using 2(2) [OF c2 r(1) refl refl] r(2,3) by auto
  next
    case 3
    then show ?thesis using 2(3,4) 2(5)
      by (cases "flag = 0") (fastforce simp: mqtt_subtract_ack_handler_num_def split: bind_splits if_splits)+
  qed
qed simp

lemma scan_ok:
  assumes "mqtt_ack_list_scan c flag p = Some (c', p')"
  shows "callbacks c' = callbacks c" "mqtt_msg_handler_list c' = mqtt_msg_handler_list c"
    "expects c PUBREL i \<Longrightarrow> expects c' PUBREL i"
proof -
  have "callbacks c' = callbacks c \<and> mqtt_msg_handler_list c' = mqtt_msg_handler_list c \<and>
      (expects c PUBREL i \<longrightarrow> expects c' PUBREL i)"
  proof (cases "mqtt_ack_handler_list c = [] \<or> mqtt_client_state c \<noteq> CLIENT_STATE_CONNECTED")
    case True
    then show ?thesis using assms by (auto simp: mqtt_ack_list_scan_def)
  next
    case False
    then obtain rest c1 where "scan_loop flag (mqtt_ack_handler_list c) c p = Some (rest, c1, p')"
        "c' = c1\<lparr>mqtt_ack_handler_list := rest\<rparr>"
      using assms by (auto simp: mqtt_ack_list_scan_def split: bind_splits)
    then show ?thesis using scan_loop_frame [of flag _ c p rest c1 p' i] by (simp add: expects_iff)
  qed
  then show "callbacks c' = callbacks c" "mqtt_msg_handler_list c' = mqtt_msg_handler_list c"
    "expects c PUBREL i \<Longrightarrow> expects c' PUBREL i" by blast+
qed

section \<open>Deliveries of quality of service 2\<close>

text \<open>
  \<open>calm i c c'\<close>: no callback is called, and an expected release of the message \<open>i\<close> stays expected.
\<close>

definition calm :: "u16 \<Rightarrow> mqtt_client \<Rightarrow> mqtt_client \<Rightarrow> bool" where
  "calm i c c' \<longleftrightarrow> callbacks c' = callbacks c \<and> (expects c PUBREL i \<longrightarrow> expects c' PUBREL i)"

lemma calm_refl [simp]: "calm i c c"
  by (simp add: calm_def)

lemma calm_trans: "calm i a b \<Longrightarrow> calm i b c \<Longrightarrow> calm i a c"
  by (simp add: calm_def)

named_theorems calms "operations that call no callback and keep the expected releases"

lemma calm_upd [simp]:
  "calm i c (c'\<lparr>mqtt_write_buf := b\<rparr>) = calm i c c'" "calm i (c\<lparr>mqtt_write_buf := b\<rparr>) c' = calm i c c'"
  "calm i c (c'\<lparr>mqtt_read_buf := b\<rparr>) = calm i c c'" "calm i c (c'\<lparr>mqtt_last_received := t\<rparr>) = calm i c c'"
  "calm i c (c'\<lparr>mqtt_packet_id := n\<rparr>) = calm i c c'" "calm i c (c'\<lparr>mqtt_ping_outstanding := q\<rparr>) = calm i c c'"
  "calm i c (mqtt_set_client_state st c') = calm i c c'" "calm i c (c'\<lparr>socket_open := so\<rparr>) = calm i c c'"
  "calm i (c\<lparr>mqtt_packet_id := n\<rparr>) c' = calm i c c'" "calm i (c\<lparr>mqtt_read_buf := b\<rparr>) c' = calm i c c'"
  by (simp_all add: calm_def expects_iff mqtt_set_client_state_def)

lemma send_calm [calms]: "mqtt_send_packet c n p = Some (rc, c', p') \<Longrightarrow> calm i c c'"
  using send_packet_frame [of c n p rc c' p'] by (auto simp: calm_def expects_iff)

lemma record_calm [calms]: "mqtt_ack_list_record c type j n h p = Some (rc, c') \<Longrightarrow> calm i c c'"
  using record_ok [of c type j n h p rc c'] by (auto simp: calm_def)

lemma unrecord_calm [calms]: "mqtt_ack_list_unrecord c type j = (h, c') \<Longrightarrow> (type, j) \<noteq> (PUBREL, i) \<Longrightarrow> calm i c c'"
  using unrecord_ok [of c type j h c'] by (auto simp: calm_def)

lemma scan_calm [calms]: "mqtt_ack_list_scan c flag p = Some (c', p') \<Longrightarrow> calm i c c'"
  using scan_ok(1,3) by (auto simp: calm_def)

lemma dup_calm [calms]: "mqtt_set_publish_dup c d = Some (rc, c') \<Longrightarrow> calm i c c'"
  by (auto simp: mqtt_set_publish_dup_def split: bind_splits if_splits)

lemma install_calm [calms]: "mqtt_msg_handlers_install c h = Some (rc, c') \<Longrightarrow> calm i c c'"
  by (auto simp: mqtt_msg_handlers_install_def calm_def expects_iff split: bind_splits if_splits)

lemma keep_alive_calm [calms]: "mqtt_keep_alive c p = Some (rc, c', p') \<Longrightarrow> calm i c c'"
  by (auto simp: mqtt_keep_alive_def Let_def dest!: send_calm [of _ _ _ _ _ _ i] split: bind_splits if_splits)

lemma drain_calm [calms]: "mqtt_packet_drain c n p = Some (c', p') \<Longrightarrow> calm i c c'"
  by (auto simp: mqtt_packet_drain_def Let_def split: bind_splits)

lemma read_packet_calm [calms]:
  assumes "mqtt_read_packet c p = Some (rc, t, c', p')"
  shows "calm i c c'"
  using assms unfolding mqtt_read_packet_def
  by (auto simp: Let_def dest!: drain_calm [of _ _ _ _ _ i] split: bind_splits if_splits)

lemma subscribe_calm [calms]: "mqtt_subscribe c filt qos h p = Some (rc, c', p') \<Longrightarrow> calm i c c'"
  by (auto simp: mqtt_subscribe_def mqtt_get_next_packet_id_def Let_def split: bind_splits if_splits
      dest!: send_calm [of _ _ _ _ _ _ i] record_calm [of _ _ _ _ _ _ _ _ i]) (blast intro: calm_trans)+

lemma unsubscribe_calm [calms]: "mqtt_unsubscribe c filt p = Some (rc, c', p') \<Longrightarrow> calm i c c'"
  by (auto simp: mqtt_unsubscribe_def mqtt_get_next_packet_id_def Let_def split: bind_splits if_splits
      dest!: send_calm [of _ _ _ _ _ _ i] record_calm [of _ _ _ _ _ _ _ _ i]) (blast intro: calm_trans)+

lemma publish_calm [calms]:
  assumes "mqtt_publish c filt msg n p = Some (rc, c', p', j)"
  shows "calm i c c'"
  using assms unfolding mqtt_publish_def
  by (auto simp: mqtt_get_next_packet_id_def Let_def split: bind_splits if_splits prod.splits
      dest!: send_calm [of _ _ _ _ _ _ i] record_calm [of _ _ _ _ _ _ _ _ i] dup_calm [of _ _ _ _ i])
    (blast intro: calm_trans)+

lemma puback_calm:
  assumes "mqtt_puback_and_pubcomp_packet_handle sv c = Some (rc, c')"
    and "header_type (mqtt_read_buf c ! 0) \<noteq> PUBREL"
  shows "calm i c c'"
proof (cases "mqtt_is_connected c = KAWAII_MQTT_SUCCESS_ERROR")
  case True
  then obtain r out h where o: "MQTTDeserialize_ack (mqtt_read_buf c) (read_size c) (sv_ack sv) = Some (r, out)"
      "mqtt_ack_list_unrecord c (ack_packettype out) (ack_packetid out) = (h, c')"
    using assms(1) by (auto simp: mqtt_puback_and_pubcomp_packet_handle_def split: bind_splits prod.splits)
  have "ack_packettype out = header_type (mqtt_read_buf c ! 0)"
    using o(1) by (auto simp: MQTTDeserialize_ack_def readChar_def mem_get_def Let_def split: bind_splits if_splits)
  then show ?thesis using unrecord_calm [OF o(2), of i] assms(2) by simp
qed (use assms(1) in \<open>auto simp: mqtt_puback_and_pubcomp_packet_handle_def\<close>)

lemma suback_calm: "mqtt_suback_packet_handle sv c = Some (rc, c') \<Longrightarrow> calm i c c'"
  by (auto simp: mqtt_suback_packet_handle_def msgTypes_defs Let_def split: bind_splits if_splits prod.splits option.splits
      dest!: unrecord_calm [of _ _ _ _ _ i] install_calm [of _ _ _ _ i]) (blast intro: calm_trans)+

lemma unsuback_calm: "mqtt_unsuback_packet_handle c = Some (rc, c') \<Longrightarrow> calm i c c'"
  by (auto simp: mqtt_unsuback_packet_handle_def msgTypes_defs Let_def split: bind_splits if_splits prod.splits option.splits
      dest!: unrecord_calm [of _ _ _ _ _ i])

lemma publish_ack_calm: "mqtt_publish_ack_packet c j t p = Some (rc, c', p') \<Longrightarrow> calm i c c'"
  by (auto simp: mqtt_publish_ack_packet_def Let_def split: bind_splits if_splits
      dest!: send_calm [of _ _ _ _ _ _ i] record_calm [of _ _ _ _ _ _ _ _ i]) (blast intro: calm_trans)+

text \<open>The message whose release the packet in the read buffer is.\<close>

definition release_of :: "stack_vars \<Rightarrow> mqtt_client \<Rightarrow> u16 option" where
  "release_of sv c =
     do { (rc, out) \<leftarrow> MQTTDeserialize_ack (mqtt_read_buf c) (read_size c) (sv_ack sv);
          if rc = 1 \<and> ack_packettype out = PUBREL then Some (ack_packetid out) else None }"

lemma pubrel_callbacks:
  assumes "mqtt_pubrec_and_pubrel_packet_handle sv c p = Some (rc, c', p')"
  shows "callbacks c' = callbacks c" and "release_of sv c \<noteq> Some i \<Longrightarrow> calm i c c'"
proof -
  have "callbacks c' = callbacks c \<and> (release_of sv c \<noteq> Some i \<longrightarrow> calm i c c')"
  proof (cases "mqtt_is_connected c = KAWAII_MQTT_SUCCESS_ERROR")
    case True
    then obtain r out where o: "MQTTDeserialize_ack (mqtt_read_buf c) (read_size c) (sv_ack sv) = Some (r, out)"
      using assms by (auto simp: mqtt_pubrec_and_pubrel_packet_handle_def split: bind_splits)
    show ?thesis
    proof (cases "r = 1")
      case r: True
      then obtain q c1 h where c1: "mqtt_publish_ack_packet c (ack_packetid out) (ack_packettype out) p = Some (q, c1, p')"
          "mqtt_ack_list_unrecord c1 (ack_packettype out) (ack_packetid out) = (h, c')"
        using assms o True by (auto simp: mqtt_pubrec_and_pubrel_packet_handle_def split: bind_splits prod.splits)
      have cb: "callbacks c' = callbacks c"
        using publish_ack_calm [OF c1(1), of i] unrecord_ok(2) [OF c1(2)] by (simp add: calm_def)
      have "calm i c c'" if "release_of sv c \<noteq> Some i"
        using that o r calm_trans [OF publish_ack_calm [OF c1(1)] unrecord_calm [OF c1(2)], of i]
        by (auto simp: release_of_def split: if_splits)
      then show ?thesis using cb by blast
    next
      case False
      then show ?thesis using assms o True by (auto simp: mqtt_pubrec_and_pubrel_packet_handle_def)
    qed
  qed (use assms in \<open>auto simp: mqtt_pubrec_and_pubrel_packet_handle_def\<close>)
  then show "callbacks c' = callbacks c" "release_of sv c \<noteq> Some i \<Longrightarrow> calm i c c'" by blast+
qed

lemma deliver_callbacks:
  assumes "publish_deliver c out = Some (rc, c')"
  shows "mqtt_ack_handler_list c' = mqtt_ack_handler_list c"
    and "callbacks c' = callbacks c \<or> (\<exists>h n. callbacks c' = callbacks c @ [(h, n, publish_message (mqtt_read_buf c) out)])"
  using assms
  by (auto simp: publish_deliver_def mqtt_deliver_message_def split: bind_splits option.splits if_splits)

text \<open>How often a callback was called with the message \<open>i\<close> of quality of service 2.\<close>

definition deliveries :: "u16 \<Rightarrow> mqtt_client \<Rightarrow> nat" where
  "deliveries i c = length (filter (\<lambda>(h, n, m). msg_qos m = QOS2 \<and> msg_id m = i) (callbacks c))"

lemma calm_deliveries: "calm i c c' \<Longrightarrow> deliveries i c' = deliveries i c"
  by (simp add: calm_def deliveries_def)

lemma deliver_other:
  assumes "publish_deliver c out = Some (rc, c')" and "\<not> (pub_qos out = QOS2 \<and> pub_packetid out = i)"
  shows "deliveries i c' = deliveries i c" "expects c' t j = expects c t j"
  using deliver_callbacks [OF assms(1)] assms(2) by (auto simp: deliveries_def expects_iff publish_message_def)

lemma deliver_count:
  assumes "publish_deliver c out = Some (rc, c')"
  shows "deliveries i c' \<le> deliveries i c + 1" "expects c' t j = expects c t j"
  using deliver_callbacks [OF assms(1)] by (auto simp: deliveries_def expects_iff)

text \<open>A received message is delivered at most once, and then only if its release was not expected before and is now.\<close>

definition budget :: "u16 \<Rightarrow> mqtt_client \<Rightarrow> nat" where
  "budget i c = (if expects c PUBREL i then 0 else 1)"

lemma calm_budget: "calm i c c' \<Longrightarrow> deliveries i c' + budget i c' \<le> deliveries i c + budget i c"
  using calm_deliveries [of i c c'] by (auto simp: budget_def calm_def)

lemma publish_acknowledge_calm:
  assumes "publish_acknowledge c out p = Some (len, rc, c', p')"
  shows "calm i c c'"
proof (cases "pub_qos out = QOS0")
  case False
  let ?ser = "if pub_qos out = QOS1 then MQTTSerialize_ack (mqtt_write_buf c) (write_size c) PUBACK 0 (pub_packetid out)
    else if pub_qos out = QOS2 then MQTTSerialize_ack (mqtt_write_buf c) (write_size c) PUBREC 0 (pub_packetid out)
    else Some (0, mqtt_write_buf c)"
  obtain n buf where "?ser = Some (n, buf)"
    using assms False unfolding publish_acknowledge_def by (cases ?ser) auto
  then have s: "(if n \<le> 0 then Some (n, KAWAII_MQTT_SERIALIZE_PUBLISH_ACK_PACKET_ERROR, c\<lparr>mqtt_write_buf := buf\<rparr>, p)
      else do { (rc, c2, p2) \<leftarrow> mqtt_send_packet (c\<lparr>mqtt_write_buf := buf\<rparr>) n p; Some (n, rc, c2, p2) }) = Some (len, rc, c', p')"
    using assms False unfolding publish_acknowledge_def by (simp add: Let_def)
  show ?thesis
  proof (cases "n \<le> 0")
    case n: False
    then have "mqtt_send_packet (c\<lparr>mqtt_write_buf := buf\<rparr>) n p = Some (rc, c', p')"
      using s by (auto split: bind_splits)
    from send_calm [OF this, of i] show ?thesis by simp
  qed (use s in auto)
qed (use assms in \<open>auto simp: publish_acknowledge_def\<close>)

lemma publish_handle_budget:
  assumes "mqtt_publish_packet_handle sv c p = Some (rc, c', p')"
  shows "deliveries i c' + budget i c' \<le> deliveries i c + budget i c"
proof (cases "mqtt_is_connected c = KAWAII_MQTT_SUCCESS_ERROR")
  case True
  then obtain r out where o: "MQTTDeserialize_publish (mqtt_read_buf c) (read_size c) (sv_publish sv) = Some (r, out)"
    using assms by (auto simp: mqtt_publish_packet_handle_def split: bind_splits)
  show ?thesis
  proof (cases "r = 1")
    case r: True
    then obtain len q c1 p1 where c1: "publish_acknowledge c out p = Some (len, q, c1, p1)"
      using assms o True by (auto simp: mqtt_publish_packet_handle_def split: bind_splits)
    note calm1 = calm_budget [OF publish_acknowledge_calm [OF c1], of i]
    note step = assms [unfolded mqtt_publish_packet_handle_def] True o r c1
    consider "q < 0" | "\<not> q < 0" "pub_qos out \<noteq> QOS2" | "\<not> q < 0" "pub_qos out = QOS2" by blast
    then show ?thesis
    proof cases
      case 1
      then show ?thesis using step calm1 by simp
    next
      case 2
      then obtain d where "publish_deliver c1 out = Some (d, c')" using step by (auto split: bind_splits)
      then show ?thesis using calm1 2 deliver_other [of c1 out d c' i] by (simp add: budget_def)
    next
      case 3
      then obtain m c2 where c2: "mqtt_ack_list_record c1 PUBREL (pub_packetid out) len None p1 = Some (m, c2)"
        using step by (auto split: bind_splits)
      note calm2 = calm_budget [OF record_calm [OF c2], of i]
      show ?thesis
      proof (cases "m = KAWAII_MQTT_ACK_NODE_IS_EXIST_ERROR")
        case True
        then show ?thesis using step 3 c2 calm1 calm2 by simp
      next
        case False
        then obtain d where d: "publish_deliver c2 out = Some (d, c')" using step 3 c2 by (auto split: bind_splits)
        show ?thesis
        proof (cases "pub_packetid out = i")
          case True
          have "\<not> expects c1 PUBREL i" "expects c2 PUBREL i" "callbacks c2 = callbacks c1"
            using record_ok [OF c2] False True by auto
          moreover have "deliveries i c2 = deliveries i c1" using calculation(3) by (simp add: deliveries_def)
          ultimately show ?thesis
            using deliver_count(1) [OF d, of i] deliver_count(2) [OF d, of PUBREL i] calm1 by (simp add: budget_def)
        next
          case F: False
          then show ?thesis using deliver_other [OF d, of i] calm1 calm2 by (simp add: budget_def)
        qed
      qed
    qed
  next
    case False
    then show ?thesis using assms o True by (auto simp: mqtt_publish_packet_handle_def)
  qed
qed (use assms in \<open>auto simp: mqtt_publish_packet_handle_def\<close>)

lemma pubrel_budget:
  assumes "mqtt_pubrec_and_pubrel_packet_handle sv c p = Some (rc, c', p')"
  shows "deliveries i c' + budget i c' \<le> deliveries i c + budget i c + (if release_of sv c = Some i then 1 else 0)"
proof (cases "release_of sv c = Some i")
  case True
  then show ?thesis using pubrel_callbacks(1) [OF assms] by (simp add: deliveries_def budget_def)
next
  case False
  then show ?thesis using calm_budget [OF pubrel_callbacks(2) [OF assms]] by simp
qed

lemma packet_switch_budget:
  assumes "mqtt_packet_switch sv t c p = Some (c', p')" and "t = header_type (mqtt_read_buf c ! 0)"
  shows "deliveries i c' + budget i c' \<le> deliveries i c + budget i c + (if release_of sv c = Some i then 1 else 0)"
proof -
  consider (ack) "t = PUBACK \<or> t = PUBCOMP" | (sub) "t = SUBACK" | (unsub) "t = UNSUBACK" | (pub) "t = PUBLISH"
    | (rel) "t = PUBREC \<or> t = PUBREL" | (other) "t \<notin> {PUBACK, PUBCOMP, SUBACK, UNSUBACK, PUBLISH, PUBREC, PUBREL}" by blast
  then show ?thesis
  proof cases
    case ack
    then obtain r where r: "mqtt_puback_and_pubcomp_packet_handle sv c = Some (r, c')"
      using assms(1) by (auto simp: mqtt_packet_switch_def split: bind_splits)
    have "t \<noteq> PUBREL" using ack by (auto simp: msgTypes_defs)
    then show ?thesis using calm_budget [OF puback_calm [OF r], of i] assms(2) by simp
  next
    case sub
    then obtain r where "mqtt_suback_packet_handle sv c = Some (r, c')"
      using assms(1) by (auto simp: mqtt_packet_switch_def msgTypes_defs split: bind_splits)
    then show ?thesis using calm_budget [OF suback_calm, of sv c r c' i] by simp
  next
    case unsub
    then obtain r where "mqtt_unsuback_packet_handle c = Some (r, c')"
      using assms(1) by (auto simp: mqtt_packet_switch_def msgTypes_defs split: bind_splits)
    then show ?thesis using calm_budget [OF unsuback_calm, of c r c' i] by simp
  next
    case pub
    then obtain r where "mqtt_publish_packet_handle sv c p = Some (r, c', p')"
      using assms(1) by (auto simp: mqtt_packet_switch_def msgTypes_defs split: bind_splits)
    from publish_handle_budget [OF this, of i] show ?thesis by simp
  next
    case rel
    then obtain r where "mqtt_pubrec_and_pubrel_packet_handle sv c p = Some (r, c', p')"
      using assms(1) by (auto simp: mqtt_packet_switch_def msgTypes_defs split: bind_splits)
    from pubrel_budget [OF this, of i] show ?thesis by simp
  next
    case other
    then have "calm i c c'" using assms(1) by (auto simp: mqtt_packet_switch_def split: if_splits)
    then show ?thesis using calm_budget by fastforce
  qed
qed

lemma read_packet_type:
  assumes "mqtt_read_packet c p = Some (rc, Some t, c', p')"
  shows "t = header_type (mqtt_read_buf c' ! 0)"
  using assms unfolding mqtt_read_packet_def
  by (auto simp: Let_def mem_get_def split: bind_splits if_splits)

text \<open>
  The runs of a client: it handles packets, scans the list of expected acknowledgements, and the user
  subscribes, cancels a subscription, publishes or disconnects, in any order and with any behaviour of the
  network; \<open>other\<close> stands for everything that neither calls a callback nor touches the list of expected
  acknowledgements, such as opening a socket, sending CONNECT or changing an option. The first number counts
  the releases (PUBREL packets) of the message \<open>i\<close> that are handled, the second one how often
  \<^verbatim>\<open>mqtt_clean_session\<close> drops the lists.
\<close>

definition release_handled :: "stack_vars \<Rightarrow> u16 \<Rightarrow> mqtt_client \<Rightarrow> platform \<Rightarrow> bool" where
  "release_handled sv i c p \<longleftrightarrow>
     (case mqtt_read_packet c p of Some (_, Some t, c1, _) \<Rightarrow> release_of sv c1 = Some i | _ \<Rightarrow> False)"

inductive client_run :: "u16 \<Rightarrow> mqtt_client \<Rightarrow> nat \<Rightarrow> nat \<Rightarrow> mqtt_client \<Rightarrow> bool" for i c where
  start: "client_run i c 0 0 c"
| packet: "client_run i c n m c1 \<Longrightarrow> mqtt_packet_handle sv c1 p = Some (rc, c2, p2) \<Longrightarrow>
    client_run i c (if release_handled sv i c1 p then n + 1 else n) m c2"
| scan: "client_run i c n m c1 \<Longrightarrow> mqtt_ack_list_scan c1 flag p = Some (c2, p2) \<Longrightarrow> client_run i c n m c2"
| subscribe: "client_run i c n m c1 \<Longrightarrow> mqtt_subscribe c1 filt qos h p = Some (rc, c2, p2) \<Longrightarrow> client_run i c n m c2"
| unsubscribe: "client_run i c n m c1 \<Longrightarrow> mqtt_unsubscribe c1 filt p = Some (rc, c2, p2) \<Longrightarrow> client_run i c n m c2"
| publish: "client_run i c n m c1 \<Longrightarrow> mqtt_publish c1 filt msg len p = Some (rc, c2, p2, j) \<Longrightarrow> client_run i c n m c2"
| disconnect: "client_run i c n m c1 \<Longrightarrow> mqtt_disconnect c1 p = Some (rc, c2, p2) \<Longrightarrow> client_run i c n m c2"
| clean: "client_run i c n m c1 \<Longrightarrow> client_run i c n (m + 1) (mqtt_clean_session c1)"
| other: "client_run i c n m c1 \<Longrightarrow> callbacks c2 = callbacks c1 \<Longrightarrow>
    mqtt_ack_handler_list c2 = mqtt_ack_handler_list c1 \<Longrightarrow> client_run i c n m c2"

lemma packet_handle_budget:
  assumes "mqtt_packet_handle sv c p = Some (rc, c', p')"
  shows "deliveries i c' + budget i c' \<le> deliveries i c + budget i c + (if release_handled sv i c p then 1 else 0)"
proof -
  obtain r t c1 p1 where rd: "mqtt_read_packet c p = Some (r, t, c1, p1)"
    using assms by (auto simp: mqtt_packet_handle_def split: bind_splits)
  note b1 = calm_budget [OF read_packet_calm [OF rd], of i]
  define ty where "ty = (case t of Some ty \<Rightarrow> ty | None \<Rightarrow> 0)"
  show ?thesis
  proof (cases "ty = CONNACK")
    case True
    then show ?thesis using assms rd b1 by (auto simp: mqtt_packet_handle_def ty_def)
  next
    case False
    then obtain q c2 p2 where c2: "mqtt_packet_switch sv ty c1 p1 = Some (c2, p2)" "mqtt_keep_alive c2 p2 = Some (q, c', p')"
      using assms rd by (auto simp: mqtt_packet_handle_def ty_def [symmetric] split: bind_splits)
    note b3 = calm_budget [OF keep_alive_calm [OF c2(2)], of i]
    have b2: "deliveries i c2 + budget i c2 \<le> deliveries i c1 + budget i c1 + (if release_handled sv i c p then 1 else 0)"
    proof (cases t)
      case None
      then have "c2 = c1" using c2(1) by (simp add: ty_def mqtt_packet_switch_def msgTypes_defs)
      then show ?thesis by simp
    next
      case (Some t')
      then have "ty = header_type (mqtt_read_buf c1 ! 0)" using read_packet_type rd by (simp add: ty_def)
      from packet_switch_budget [OF c2(1) this, of i] show ?thesis by (simp add: release_handled_def rd Some)
    qed
    show ?thesis using b1 b2 b3 by linarith
  qed
qed

lemma disconnect_calm: "mqtt_disconnect c p = Some (rc, c', p') \<Longrightarrow> calm i c c'"
  by (auto simp: mqtt_disconnect_def Let_def dest!: send_calm [of _ _ _ _ _ _ i] split: bind_splits if_splits)

lemma clean_budget: "deliveries i (mqtt_clean_session c) + budget i (mqtt_clean_session c) \<le> deliveries i c + budget i c + 1"
  by (simp add: deliveries_def budget_def mqtt_clean_session_def mqtt_set_client_state_def)

text \<open>
  Every delivery of the message uses up the permission that the start, a handled release or a cleaned
  session gives.
\<close>

lemma client_run_budget:
  assumes "client_run i c n m c'"
  shows "deliveries i c' + budget i c' \<le> deliveries i c + budget i c + n + m"
  using assms
proof (induction rule: client_run.induct)
  case start
  then show ?case by simp
next
  case (packet n m c1 sv p rc c2 p2)
  then show ?case using packet_handle_budget [OF packet.hyps(2), of i] by (simp split: if_splits)
next
  case (clean n m c1)
  then show ?case using clean_budget [of i c1] by linarith
next
  case (other n m c1 c2)
  then have "calm i c1 c2" by (simp add: calm_def expects_iff)
  from calm_budget [OF this] show ?case using other.IH by linarith
qed (use calm_budget [OF scan_calm] calm_budget [OF subscribe_calm] calm_budget [OF unsubscribe_calm]
  calm_budget [OF publish_calm] calm_budget [OF disconnect_calm] in \<open>meson order_trans\<close>)+

lemma client_run_trans:
  assumes "client_run i b n' m' d" and "client_run i a n m b"
  shows "client_run i a (n + n') (m + m') d"
  using assms
proof (induction rule: client_run.induct)
  case (packet n' m' c1 sv p rc c2 p2)
  then show ?case using client_run.packet [OF packet.IH [OF packet.prems] packet.hyps(2)] by (simp split: if_splits)
next
  case (clean n' m' c1)
  then show ?case using client_run.clean [OF clean.IH [OF clean.prems]] by simp
qed (auto intro: client_run.intros)

definition sample_vars :: stack_vars where
  "sample_vars = \<lparr>sv_ack = \<lparr>ack_packettype = 0, ack_dup = 0, ack_packetid = 0\<rparr>,
     sv_publish = \<lparr>pub_dup = 0, pub_qos = 0, pub_retained = 0, pub_packetid = 0, pub_topicName = MQTTString_initializer,
       pub_payload = 0, pub_payloadlen = 0\<rparr>, sv_packet_id = 0\<rparr>"

definition subscribed_client :: mqtt_client where
  "subscribed_client = sample_client\<lparr>mqtt_msg_handler_list := [mqtt_msg_handler_create [0x61] 2 5]\<rparr>"

text \<open>The network brings a message of quality of service 2 with the id 7 for the topic \<^verbatim>\<open>a\<close>.\<close>

definition publishing_platform :: platform where
  "publishing_platform = sample_platform\<lparr>
     recv_result := (\<lambda>i. (0, Some ([[0x34], [7], [0, 1, 0x61, 0, 7, 8, 9]] ! i))), send_result := (\<lambda>_. (0, 4))\<rparr>"

definition after_two_copies :: "(bool \<times> bool \<times> mqtt_client) option" where
  "after_two_copies =
     do { (_, c1, _) \<leftarrow> mqtt_packet_handle sample_vars subscribed_client publishing_platform;
          (_, c2, _) \<leftarrow> mqtt_packet_handle sample_vars c1 publishing_platform;
          Some (release_handled sample_vars 7 subscribed_client publishing_platform,
                release_handled sample_vars 7 c1 publishing_platform, c2) }"

lemma after_two_copies_eval:
  "map_option (\<lambda>(r1, r2, c). (r1, r2, deliveries 7 c, map fst (callbacks c))) after_two_copies = Some (False, False, 1, [5])"
  by code_simp

section \<open>Properties\<close>

text \<open>
  A cancelled subscription stays: neither \<^verbatim>\<open>mqtt_unsubscribe\<close> nor the handling of its
  acknowledgement changes the list of subscriptions, so messages for the topic are still delivered to
  the callback (and a reconnect subscribes again). The handler that the acknowledgement releases is
  the one that \<^verbatim>\<open>mqtt_unsubscribe\<close> created, not the installed one.
\<close>

theorem unsubscribe_keeps_subscription:
  assumes "mqtt_unsubscribe c filt p = Some (rc, c1, p1)"
    and "mqtt_msg_handler_list c2 = mqtt_msg_handler_list c1"
    and "mqtt_unsuback_packet_handle c2 = Some (rc', c3)"
  shows "mqtt_msg_handler_list c3 = mqtt_msg_handler_list c \<and>
    mqtt_get_msg_handler (mqtt_msg_handler_list c3) topic = mqtt_get_msg_handler (mqtt_msg_handler_list c) topic"
proof -
  have "mqtt_msg_handler_list c1 = mqtt_msg_handler_list c"
    using assms(1)
    by (auto simp: mqtt_unsubscribe_def mqtt_get_next_packet_id_def Let_def split: bind_splits if_splits
        dest!: send_packet_frame(3) record_ok(3))
  moreover have "mqtt_msg_handler_list c3 = mqtt_msg_handler_list c2"
    using assms(3)
    by (auto simp: mqtt_unsuback_packet_handle_def Let_def split: bind_splits if_splits prod.splits option.splits
        dest!: unrecord_ok(3))
  ultimately show ?thesis using assms(2) by simp
qed

definition unsubscribing_platform :: platform where
  "unsubscribing_platform = sample_platform\<lparr>send_result := (\<lambda>_. (0, 8))\<rparr>"

definition unsubscribed :: "(int \<times> int \<times> mqtt_client \<times> mqtt_client \<times> mqtt_client \<times> platform) option" where
  "unsubscribed =
     do { (rc, c1, p1) \<leftarrow> mqtt_unsubscribe subscribed_client [0x61] unsubscribing_platform;
          let c2 = c1\<lparr>mqtt_read_buf := [0xb0, 2, 0, 2] @ replicate 12 0\<rparr>;
          (rc', c3) \<leftarrow> mqtt_unsuback_packet_handle c2;
          Some (rc, rc', c1, c2, c3, p1) }"

lemma unsubscribed_eval:
  "map_option (\<lambda>(rc, rc', c1, c2, c3, p). (rc, rc', length (mqtt_ack_handler_list c1), length (mqtt_ack_handler_list c3))) unsubscribed =
   Some (0, 0, 1, 0)"
  by code_simp

lemma subscribed_handler: "mqtt_get_msg_handler (mqtt_msg_handler_list subscribed_client) (lenstring [0x61]) =
    Some (Some (mqtt_msg_handler_create [0x61] 2 5))"
  by code_simp

theorem unsubscribe_keeps_subscription_witness:
  "\<exists>c1 c3 p. mqtt_unsubscribe subscribed_client [0x61] unsubscribing_platform = Some (0, c1, p) \<and>
     mqtt_unsuback_packet_handle (c1\<lparr>mqtt_read_buf := [0xb0, 2, 0, 2] @ replicate 12 0\<rparr>) = Some (0, c3) \<and>
     mqtt_get_msg_handler (mqtt_msg_handler_list c3) (lenstring [0x61]) = Some (Some (mqtt_msg_handler_create [0x61] 2 5))"
proof -
  obtain c1 p c3 where
    u: "mqtt_unsubscribe subscribed_client [0x61] unsubscribing_platform = Some (0, c1, p)"
    and a: "mqtt_unsuback_packet_handle (c1\<lparr>mqtt_read_buf := [0xb0, 2, 0, 2] @ replicate 12 0\<rparr>) = Some (0, c3)"
    using unsubscribed_eval by (auto simp: unsubscribed_def Let_def split: bind_splits)
  have "mqtt_get_msg_handler (mqtt_msg_handler_list c3) (lenstring [0x61]) =
      mqtt_get_msg_handler (mqtt_msg_handler_list subscribed_client) (lenstring [0x61])"
    using unsubscribe_keeps_subscription [OF u _ a] by simp
  then show ?thesis using u a subscribed_handler by auto
qed

end
