(* ===== verification/MqttSession.thy ===== *)
theory MqttSession
  imports MqttClient
begin

text \<open>
  Setting up, keeping and ending a session of the MQTT client: the rest of \<^verbatim>\<open>mqttclient/mqttclient.c\<close>, with
  \<^verbatim>\<open>network.c\<close> and \<^verbatim>\<open>nettype_tcp.c\<close>. The theorems show that connecting exchanges CONNECT and CONNACK and
  installs the thread of the client, that a write buffer too short for the CONNECT packet is reported as
  a connection, and that a reconnected client requests all its subscriptions again.
\<close>

section \<open>State\<close>

record mqtt_will_options =
  wo_qos :: int
  wo_retained :: u8
  wo_topic :: "bytes option"
  wo_message :: "bytes option"

text \<open>
  The rest of \<^verbatim>\<open>mqtt_client_t\<close> around the part that the packet exchange uses. \<open>mqtt_thread\<close> tells whether the
  thread of the client exists. The environment: \<open>connect_result i\<close> is how long the \<open>i\<close>-th call of
  \<^verbatim>\<open>platform_net_socket_connect\<close> takes and what it returns (a descriptor, or a negative error), \<open>thread_created\<close>
  whether \<^verbatim>\<open>rt_thread_create\<close> finds memory. \<open>lost_sockets\<close> counts the open descriptors that were overwritten.
\<close>

record mqtt_session =
  cl :: mqtt_client
  mqtt_client_id :: "bytes option"
  mqtt_user_name :: "bytes option"
  mqtt_password :: "bytes option"
  mqtt_host :: "bytes option"
  mqtt_port :: "bytes option"
  mqtt_will_flag :: "1 word"
  mqtt_clean_session_flag :: "1 word"
  mqtt_version :: "4 word"
  mqtt_reconnect_try_duration :: u32
  mqtt_will_options :: "mqtt_will_options option"
  mqtt_thread :: bool
  connect_result :: "nat \<Rightarrow> bytes option \<Rightarrow> bytes option \<Rightarrow> u32 \<times> int"
  connect_no :: nat
  thread_created :: bool
  lost_sockets :: nat

definition KAWAII_MQTT_RESUBSCRIBE_ERROR :: int where "KAWAII_MQTT_RESUBSCRIBE_ERROR = - 0x15"
definition KAWAII_MQTT_RECONNECT_TIMEOUT_ERROR :: int where "KAWAII_MQTT_RECONNECT_TIMEOUT_ERROR = - 0x10"
definition KAWAII_MQTT_CONNECT_FAILED_ERROR :: int where "KAWAII_MQTT_CONNECT_FAILED_ERROR = - 4"
definition KAWAII_MQTT_NULL_VALUE_ERROR :: int where "KAWAII_MQTT_NULL_VALUE_ERROR = - 2"

definition KAWAII_MQTT_DEFAULT_BUF_SIZE :: u32 where "KAWAII_MQTT_DEFAULT_BUF_SIZE = 1024"
definition KAWAII_MQTT_DEFAULT_CMD_TIMEOUT :: u32 where "KAWAII_MQTT_DEFAULT_CMD_TIMEOUT = 4000"
definition KAWAII_MQTT_KEEP_ALIVE_INTERVAL :: u16 where "KAWAII_MQTT_KEEP_ALIVE_INTERVAL = 100"
definition KAWAII_MQTT_VERSION :: "4 word" where "KAWAII_MQTT_VERSION = 4"
definition KAWAII_MQTT_RECONNECT_DEFAULT_DURATION :: u32 where "KAWAII_MQTT_RECONNECT_DEFAULT_DURATION = 1000"
definition KAWAII_MQTT_MIN_PAYLOAD_SIZE :: u32 where "KAWAII_MQTT_MIN_PAYLOAD_SIZE = 2"
definition KAWAII_MQTT_MAX_PAYLOAD_SIZE :: u32 where "KAWAII_MQTT_MAX_PAYLOAD_SIZE = 268435455"

section \<open>Network\<close>

definition set_socket :: "bool \<Rightarrow> mqtt_session \<Rightarrow> mqtt_session" where
  "set_socket b s = s\<lparr>cl := (cl s)\<lparr>socket_open := b\<rparr>\<rparr>"

text \<open>\<^verbatim>\<open>network_init\<close> forgets the descriptor, open or not.\<close>

definition network_init :: "mqtt_session \<Rightarrow> mqtt_session" where
  "network_init s =
     set_socket False (s\<lparr>lost_sockets := lost_sockets s + (if socket_open (cl s) then 1 else 0)\<rparr>)"

definition nettype_tcp_connect :: "mqtt_session \<Rightarrow> platform \<Rightarrow> int \<times> mqtt_session \<times> platform" where
  "nettype_tcp_connect s p =
     (let (dt, fd) = connect_result s (connect_no s) (mqtt_host s) (mqtt_port s);
          s1 = s\<lparr>connect_no := connect_no s + 1\<rparr>;
          p1 = p\<lparr>uptime := uptime p + dt\<rparr>
      in if fd < 0 then (fd, set_socket False s1, p1) else (KAWAII_MQTT_SUCCESS_ERROR, set_socket True s1, p1))"

definition network_connect :: "mqtt_session \<Rightarrow> platform \<Rightarrow> int \<times> mqtt_session \<times> platform" where
  "network_connect s p = nettype_tcp_connect s p"

definition nettype_tcp_disconnect :: "mqtt_session \<Rightarrow> mqtt_session" where
  "nettype_tcp_disconnect s = set_socket False s"

definition network_disconnect :: "mqtt_session \<Rightarrow> mqtt_session" where
  "network_disconnect s = nettype_tcp_disconnect s"

definition network_release :: "mqtt_session \<Rightarrow> mqtt_session" where
  "network_release s = (if socket_open (cl s) then network_disconnect s else s)"

section \<open>Connecting\<close>

text \<open>
  The loop of \<^verbatim>\<open>mqtt_wait_packet\<close>. The handlers of the packets start with whatever their stack frames
  contain; \<open>sv\<close> gives it for each moment. Every packet starts the timer of the caller anew (\<open>packet_timer\<close>), so
  the time-out bounds the wait for the next packet and not the whole loop.
\<close>

partial_function (option) wait_loop ::
  "(platform \<Rightarrow> stack_vars) \<Rightarrow> u8 \<Rightarrow> platform_timer \<Rightarrow> int \<Rightarrow> mqtt_client \<Rightarrow> platform \<Rightarrow>
    (int \<times> mqtt_client \<times> platform) option" where
  "wait_loop sv packet_type timer rc c p =
     (if platform_timer_is_expired timer p then Some (rc, c, p)
      else do { (rc1, c1, p1) \<leftarrow> mqtt_packet_handle (sv p) c p;
                timer1 \<leftarrow> packet_timer (sv p) c p;
                if rc1 \<noteq> uint packet_type \<and> rc1 \<ge> 0 then wait_loop sv packet_type timer1 rc1 c1 p1
                else Some (rc1, c1, p1) })"

declare wait_loop.simps [code]

definition mqtt_wait_packet ::
  "(platform \<Rightarrow> stack_vars) \<Rightarrow> mqtt_client \<Rightarrow> u8 \<Rightarrow> platform_timer \<Rightarrow> platform \<Rightarrow> (int \<times> mqtt_client \<times> platform) option" where
  "mqtt_wait_packet sv c packet_type timer p = wait_loop sv packet_type timer KAWAII_MQTT_FAILED_ERROR c p"

definition cstring_opt :: "bytes option \<Rightarrow> MQTTString" where
  "cstring_opt s = MQTTString_initializer\<lparr>cstring := s\<rparr>"

text \<open>The options of the CONNECT packet; a will flag without will options is a null pointer.\<close>

definition mqtt_connect_data :: "mqtt_session \<Rightarrow> MQTTPacket_connectData option" where
  "mqtt_connect_data s =
     (let d = MQTTPacket_connectData_initializer\<lparr>
                keepAliveInterval := mqtt_keep_alive_interval (cl s),
                cleansession := ucast (mqtt_clean_session_flag s),
                MQTTVersion := ucast (mqtt_version s),
                clientID := cstring_opt (mqtt_client_id s),
                username := cstring_opt (mqtt_user_name s),
                password := cstring_opt (mqtt_password s)\<rparr>
      in if mqtt_will_flag s \<noteq> 0 then
           do { w \<leftarrow> mqtt_will_options s;
                Some (d\<lparr>willFlag := ucast (mqtt_will_flag s),
                        will := \<lparr>topicName = cstring_opt (wo_topic w), will_message = cstring_opt (wo_message w),
                                 will_retained = wo_retained w, will_qos = word_of_int (wo_qos w)\<rparr>\<rparr>) }
         else Some d)"

text \<open>The exchange of CONNECT and CONNACK, up to the label \<^verbatim>\<open>exit\<close>; \<open>rc\<close> is the result of \<^verbatim>\<open>network_connect\<close>.\<close>

definition connect_exchange ::
  "(platform \<Rightarrow> stack_vars) \<Rightarrow> int \<Rightarrow> MQTTPacket_connectData \<Rightarrow> mqtt_client \<Rightarrow> platform \<Rightarrow> (int \<times> mqtt_client \<times> platform) option" where
  "connect_exchange sv rc connect_data c p =
     do { (len, buf) \<leftarrow> MQTTSerialize_connect (mqtt_write_buf c) (write_size c) connect_data;
          let c1 = c\<lparr>mqtt_write_buf := buf\<rparr>;
          if len \<le> 0 then Some (rc, c1, p)
          else do {
            let connect_timer = platform_timer_cutdown (mqtt_cmd_timeout c1) p;
            (rc, c2, p2) \<leftarrow> mqtt_send_packet c1 len p;
            if rc \<noteq> KAWAII_MQTT_SUCCESS_ERROR then Some (rc, c2, p2)
            else do {
              (w, c3, p3) \<leftarrow> mqtt_wait_packet sv c2 CONNACK connect_timer p2;
              if w = uint CONNACK then do {
                (ok, out) \<leftarrow> MQTTDeserialize_connack (mqtt_read_buf c3) (read_size c3) \<lparr>sessionPresent = 0, connack_rc = 0\<rparr>;
                Some (if ok = 1 then uint (connack_rc out) else KAWAII_MQTT_CONNECT_FAILED_ERROR, c3, p3) }
              else Some (KAWAII_MQTT_CONNECT_FAILED_ERROR, c3, p3) } } }"

text \<open>The code behind the label \<^verbatim>\<open>exit\<close>.\<close>

definition session_state :: "client_state \<Rightarrow> mqtt_session \<Rightarrow> mqtt_session" where
  "session_state st s = s\<lparr>cl := mqtt_set_client_state st (cl s)\<rparr>"

definition connect_finish :: "int \<Rightarrow> mqtt_session \<Rightarrow> int \<times> mqtt_session" where
  "connect_finish rc s =
     (if rc = KAWAII_MQTT_SUCCESS_ERROR then
        let (rc1, s1) =
              (if \<not> mqtt_thread s then
                 if thread_created s
                 then (rc, session_state CLIENT_STATE_CONNECTED (s\<lparr>mqtt_thread := True\<rparr>))
                 else (KAWAII_MQTT_CONNECT_FAILED_ERROR, network_release s)
               else (rc, session_state CLIENT_STATE_CONNECTED s))
        in (rc1, s1\<lparr>cl := (cl s1)\<lparr>mqtt_ping_outstanding := 0\<rparr>\<rparr>)
      else (rc, session_state CLIENT_STATE_INITIALIZED s))"

definition mqtt_connect_with_results ::
  "(platform \<Rightarrow> stack_vars) \<Rightarrow> mqtt_session \<Rightarrow> platform \<Rightarrow> (int \<times> mqtt_session \<times> platform) option" where
  "mqtt_connect_with_results sv s p =
     (if mqtt_client_state (cl s) = CLIENT_STATE_CONNECTED then Some (KAWAII_MQTT_SUCCESS_ERROR, s, p)
      else let (rc, s1, p1) = network_connect (network_init s) p
        in if rc \<noteq> KAWAII_MQTT_SUCCESS_ERROR then Some (rc, network_release s1, p1)
           else do {
             connect_data \<leftarrow> mqtt_connect_data s1;
             let c = (cl s1)\<lparr>mqtt_last_received := platform_timer_cutdown (keep_alive_ms (cl s1)) p1\<rparr>;
             (rc, c2, p2) \<leftarrow> connect_exchange sv rc connect_data c p1;
             let (rc, s2) = connect_finish rc (s1\<lparr>cl := c2\<rparr>);
             Some (rc, s2, p2) })"

definition mqtt_connect ::
  "(platform \<Rightarrow> stack_vars) \<Rightarrow> mqtt_session \<Rightarrow> platform \<Rightarrow> (int \<times> mqtt_session \<times> platform) option" where
  "mqtt_connect sv s p = mqtt_connect_with_results sv s p"

section \<open>Reconnecting\<close>

text \<open>
  The loop of \<^verbatim>\<open>mqtt_try_resubscribe\<close>. A subscription in the list has a topic filter; \<^verbatim>\<open>mqtt_subscribe\<close> does not
  change the list.
\<close>

fun resubscribe_loop ::
  "message_handlers list \<Rightarrow> int \<Rightarrow> mqtt_client \<Rightarrow> platform \<Rightarrow> (int \<times> mqtt_client \<times> platform) option" where
  "resubscribe_loop [] rc c p = Some (rc, c, p)"
| "resubscribe_loop (h # hs) rc c p =
     do { filt \<leftarrow> topic_filter h;
          (rc1, c1, p1) \<leftarrow> mqtt_subscribe c filt (mh_qos h) (Some (mh_handler h)) p;
          resubscribe_loop hs rc1 c1 p1 }"

definition mqtt_try_resubscribe :: "mqtt_client \<Rightarrow> platform \<Rightarrow> (int \<times> mqtt_client \<times> platform) option" where
  "mqtt_try_resubscribe c p =
     (if mqtt_msg_handler_list c = [] then Some (KAWAII_MQTT_SUCCESS_ERROR, c, p)
      else resubscribe_loop (mqtt_msg_handler_list c) KAWAII_MQTT_RESUBSCRIBE_ERROR c p)"

definition mqtt_try_do_reconnect ::
  "(platform \<Rightarrow> stack_vars) \<Rightarrow> mqtt_session \<Rightarrow> platform \<Rightarrow> (int \<times> mqtt_session \<times> platform) option" where
  "mqtt_try_do_reconnect sv s p =
     do { (rc, s1, p1) \<leftarrow> (if mqtt_client_state (cl s) \<noteq> CLIENT_STATE_CONNECTED then mqtt_connect sv s p
                          else Some (KAWAII_MQTT_CONNECT_FAILED_ERROR, s, p));
          if rc = KAWAII_MQTT_SUCCESS_ERROR then do {
            (rc, c2, p2) \<leftarrow> mqtt_try_resubscribe (cl s1) p1;
            (c3, p3) \<leftarrow> mqtt_ack_list_scan c2 0 p2;
            Some (rc, s1\<lparr>cl := c3\<rparr>, p3) }
          else Some (rc, s1, p1) }"

text \<open>
  \<^verbatim>\<open>mqtt_sleep_ms\<close> with \<^verbatim>\<open>platform_timer_usleep\<close>: the argument is multiplied in \<^verbatim>\<open>int\<close>, and the thread sleeps at
  least one millisecond unless it is 0.
\<close>

definition platform_timer_usleep :: "u32 \<Rightarrow> platform \<Rightarrow> platform" where
  "platform_timer_usleep usec p =
     (let ms = (if usec \<noteq> 0 then (if usec div 1000 = 0 then 1 else usec div 1000) else 0)
      in p\<lparr>uptime := uptime p + ms\<rparr>)"

definition mqtt_sleep_ms :: "int \<Rightarrow> platform \<Rightarrow> platform option" where
  "mqtt_sleep_ms ms p =
     (if ms * 1000 < - (2 ^ 31) \<or> 2 ^ 31 \<le> ms * 1000 then None
      else Some (platform_timer_usleep (word_of_int (ms * 1000)) p))"

text \<open>\<open>reconnect\<close> is the handler of the user, which may change the options; the identity if there is none.\<close>

definition mqtt_try_reconnect ::
  "(platform \<Rightarrow> stack_vars) \<Rightarrow> (mqtt_session \<Rightarrow> mqtt_session) \<Rightarrow> mqtt_session \<Rightarrow> platform \<Rightarrow>
    (int \<times> mqtt_session \<times> platform) option" where
  "mqtt_try_reconnect sv reconnect s p =
     do { (rc, s1, p1) \<leftarrow> mqtt_try_do_reconnect sv (reconnect s) p;
          if rc \<noteq> KAWAII_MQTT_SUCCESS_ERROR then do {
            p2 \<leftarrow> mqtt_sleep_ms (sint (mqtt_reconnect_try_duration s1)) p1;
            Some (KAWAII_MQTT_RECONNECT_TIMEOUT_ERROR, s1, p2) }
          else Some (rc, s1, p1) }"

section \<open>The thread of the client\<close>

partial_function (option) yield_loop ::
  "(platform \<Rightarrow> stack_vars) \<Rightarrow> (mqtt_session \<Rightarrow> mqtt_session) \<Rightarrow> platform_timer \<Rightarrow> int \<Rightarrow> mqtt_session \<Rightarrow> platform \<Rightarrow>
    (int \<times> mqtt_session \<times> platform) option" where
  "yield_loop sv reconnect timer rc s p =
     (if platform_timer_is_expired timer p then Some (rc, s, p)
      else if mqtt_client_state (cl s) = CLIENT_STATE_CLEAN_SESSION then Some (KAWAII_MQTT_CLEAN_SESSION_ERROR, s, p)
      else if mqtt_client_state (cl s) \<noteq> CLIENT_STATE_CONNECTED then
        do { (rc1, s1, p1) \<leftarrow> mqtt_try_reconnect sv reconnect s p;
             if rc1 = KAWAII_MQTT_RECONNECT_TIMEOUT_ERROR then Some (rc1, s1, p1)
             else yield_loop sv reconnect timer rc1 s1 p1 }
      else
        do { (rc1, c1, p1) \<leftarrow> mqtt_packet_handle (sv p) (cl s) p;
             timer1 \<leftarrow> packet_timer (sv p) (cl s) p;
             if rc1 \<ge> 0 then do {
               (c2, p2) \<leftarrow> mqtt_ack_list_scan c1 1 p1;
               yield_loop sv reconnect timer1 rc1 (s\<lparr>cl := c2\<rparr>) p2 }
             else if rc1 = KAWAII_MQTT_NOT_CONNECT_ERROR then yield_loop sv reconnect timer1 rc1 (s\<lparr>cl := c1\<rparr>) p1
             else Some (rc1, s\<lparr>cl := c1\<rparr>, p1) })"

declare yield_loop.simps [code]

definition mqtt_yield ::
  "(platform \<Rightarrow> stack_vars) \<Rightarrow> (mqtt_session \<Rightarrow> mqtt_session) \<Rightarrow> mqtt_session \<Rightarrow> int \<Rightarrow> platform \<Rightarrow>
    (int \<times> mqtt_session \<times> platform) option" where
  "mqtt_yield sv reconnect s timeout_ms p =
     (let t = (if timeout_ms = 0 then mqtt_cmd_timeout (cl s) else word_of_int timeout_ms)
      in yield_loop sv reconnect (platform_timer_cutdown t p) KAWAII_MQTT_SUCCESS_ERROR s p)"

text \<open>One round of \<^verbatim>\<open>mqtt_yield_thread\<close>; the first component tells whether the thread goes on.\<close>

definition mqtt_yield_round ::
  "(platform \<Rightarrow> stack_vars) \<Rightarrow> (mqtt_session \<Rightarrow> mqtt_session) \<Rightarrow> mqtt_session \<Rightarrow> platform \<Rightarrow>
    (bool \<times> mqtt_session \<times> platform) option" where
  "mqtt_yield_round sv reconnect s p =
     do { (rc, s1, p1) \<leftarrow> mqtt_yield sv reconnect s (sint (mqtt_cmd_timeout (cl s))) p;
          if rc = KAWAII_MQTT_CLEAN_SESSION_ERROR
          then let s2 = network_disconnect s1 in Some (False, s2\<lparr>cl := mqtt_clean_session (cl s2)\<rparr>, p1)
          else Some (True, s1, p1) }"

section \<open>Options, start and end\<close>

definition mqtt_set_client_id :: "bytes option \<Rightarrow> mqtt_session \<Rightarrow> mqtt_session" where
  "mqtt_set_client_id t s = s\<lparr>mqtt_client_id := t\<rparr>"
definition mqtt_set_user_name :: "bytes option \<Rightarrow> mqtt_session \<Rightarrow> mqtt_session" where
  "mqtt_set_user_name t s = s\<lparr>mqtt_user_name := t\<rparr>"
definition mqtt_set_password :: "bytes option \<Rightarrow> mqtt_session \<Rightarrow> mqtt_session" where
  "mqtt_set_password t s = s\<lparr>mqtt_password := t\<rparr>"
definition mqtt_set_host :: "bytes option \<Rightarrow> mqtt_session \<Rightarrow> mqtt_session" where
  "mqtt_set_host t s = s\<lparr>mqtt_host := t\<rparr>"
definition mqtt_set_port :: "bytes option \<Rightarrow> mqtt_session \<Rightarrow> mqtt_session" where
  "mqtt_set_port t s = s\<lparr>mqtt_port := t\<rparr>"
definition mqtt_set_keep_alive_interval :: "u16 \<Rightarrow> mqtt_session \<Rightarrow> mqtt_session" where
  "mqtt_set_keep_alive_interval t s = s\<lparr>cl := (cl s)\<lparr>mqtt_keep_alive_interval := t\<rparr>\<rparr>"
definition mqtt_set_will_flag :: "u32 \<Rightarrow> mqtt_session \<Rightarrow> mqtt_session" where
  "mqtt_set_will_flag t s = s\<lparr>mqtt_will_flag := ucast t\<rparr>"
definition mqtt_set_clean_session :: "u32 \<Rightarrow> mqtt_session \<Rightarrow> mqtt_session" where
  "mqtt_set_clean_session t s = s\<lparr>mqtt_clean_session_flag := ucast t\<rparr>"
definition mqtt_set_version :: "u32 \<Rightarrow> mqtt_session \<Rightarrow> mqtt_session" where
  "mqtt_set_version t s = s\<lparr>mqtt_version := ucast t\<rparr>"
definition mqtt_set_cmd_timeout :: "u32 \<Rightarrow> mqtt_session \<Rightarrow> mqtt_session" where
  "mqtt_set_cmd_timeout t s = s\<lparr>cl := (cl s)\<lparr>mqtt_cmd_timeout := t\<rparr>\<rparr>"
definition mqtt_set_read_buf_size :: "u32 \<Rightarrow> mqtt_session \<Rightarrow> mqtt_session" where
  "mqtt_set_read_buf_size t s = s\<lparr>cl := (cl s)\<lparr>mqtt_read_buf_size := t\<rparr>\<rparr>"
definition mqtt_set_write_buf_size :: "u32 \<Rightarrow> mqtt_session \<Rightarrow> mqtt_session" where
  "mqtt_set_write_buf_size t s = s\<lparr>cl := (cl s)\<lparr>mqtt_write_buf_size := t\<rparr>\<rparr>"
definition mqtt_set_reconnect_try_duration :: "u32 \<Rightarrow> mqtt_session \<Rightarrow> mqtt_session" where
  "mqtt_set_reconnect_try_duration t s = s\<lparr>mqtt_reconnect_try_duration := t\<rparr>"
definition mqtt_set_interceptor_handler :: "nat option \<Rightarrow> mqtt_session \<Rightarrow> mqtt_session" where
  "mqtt_set_interceptor_handler t s = s\<lparr>cl := (cl s)\<lparr>mqtt_interceptor_handler := t\<rparr>\<rparr>"

definition mqtt_set_will_options ::
  "mqtt_session \<Rightarrow> bytes option \<Rightarrow> int \<Rightarrow> u8 \<Rightarrow> bytes option \<Rightarrow> int \<times> mqtt_session" where
  "mqtt_set_will_options s topic qos retained msg =
     (if topic = None then (KAWAII_MQTT_NULL_VALUE_ERROR, s)
      else (KAWAII_MQTT_SUCCESS_ERROR,
            s\<lparr>mqtt_will_flag := (if mqtt_will_flag s = 0 then 1 else mqtt_will_flag s),
              mqtt_will_options := Some \<lparr>wo_qos = qos, wo_retained = retained, wo_topic = topic, wo_message = msg\<rparr>\<rparr>))"

text \<open>
  \<^verbatim>\<open>mqtt_init\<close>: both buffers get the size of the write buffer. The allocations succeed, as in
  the packet handlers.
\<close>

definition buf_size_or_default :: "u32 \<Rightarrow> u32" where
  "buf_size_or_default n =
     (if KAWAII_MQTT_MIN_PAYLOAD_SIZE \<ge> n \<or> KAWAII_MQTT_MAX_PAYLOAD_SIZE \<le> n then KAWAII_MQTT_DEFAULT_BUF_SIZE else n)"

definition mqtt_init :: "mqtt_session \<Rightarrow> int \<times> mqtt_session" where
  "mqtt_init s =
     (let wsize = buf_size_or_default (mqtt_write_buf_size (cl s));
          c = (cl s)\<lparr>mqtt_packet_id := 1, mqtt_cmd_timeout := KAWAII_MQTT_DEFAULT_CMD_TIMEOUT,
                     mqtt_client_state := CLIENT_STATE_INITIALIZED, mqtt_ping_outstanding := 0,
                     mqtt_ack_handler_number := 0, mqtt_keep_alive_interval := KAWAII_MQTT_KEEP_ALIVE_INTERVAL,
                     mqtt_interceptor_handler := None,
                     mqtt_read_buf_size := buf_size_or_default (mqtt_read_buf_size (cl s)),
                     mqtt_write_buf_size := wsize,
                     mqtt_read_buf := replicate (unat wsize) 0, mqtt_write_buf := replicate (unat wsize) 0,
                     mqtt_msg_handler_list := [], mqtt_ack_handler_list := [],
                     mqtt_last_sent := platform_timer_init, mqtt_last_received := platform_timer_init\<rparr>
      in (KAWAII_MQTT_SUCCESS_ERROR,
          s\<lparr>cl := c, mqtt_clean_session_flag := 0, mqtt_will_flag := 0, mqtt_version := KAWAII_MQTT_VERSION,
            mqtt_reconnect_try_duration := KAWAII_MQTT_RECONNECT_DEFAULT_DURATION, mqtt_will_options := None\<rparr>))"

text \<open>A client whose memory has been cleared; the last two arguments are the environment.\<close>

definition zero_session :: "(nat \<Rightarrow> bytes option \<Rightarrow> bytes option \<Rightarrow> u32 \<times> int) \<Rightarrow> bool \<Rightarrow> mqtt_session" where
  "zero_session conn created =
     \<lparr>cl = \<lparr>mqtt_read_buf = [], mqtt_write_buf = [], mqtt_keep_alive_interval = 0, mqtt_packet_id = 0,
            mqtt_ping_outstanding = 0, mqtt_ack_handler_number = 0, mqtt_cmd_timeout = 0, mqtt_read_buf_size = 0,
            mqtt_write_buf_size = 0, mqtt_client_state = CLIENT_STATE_INITIALIZED, mqtt_msg_handler_list = [],
            mqtt_ack_handler_list = [], mqtt_last_sent = 0, mqtt_last_received = 0, mqtt_interceptor_handler = None,
            socket_open = False, callbacks = []\<rparr>,
      mqtt_client_id = None, mqtt_user_name = None, mqtt_password = None, mqtt_host = None, mqtt_port = None,
      mqtt_will_flag = 0, mqtt_clean_session_flag = 0, mqtt_version = 0, mqtt_reconnect_try_duration = 0,
      mqtt_will_options = None, mqtt_thread = False, connect_result = conn, connect_no = 0, thread_created = created,
      lost_sockets = 0\<rparr>"

definition mqtt_lease :: "(nat \<Rightarrow> bytes option \<Rightarrow> bytes option \<Rightarrow> u32 \<times> int) \<Rightarrow> bool \<Rightarrow> mqtt_session option" where
  "mqtt_lease conn created =
     (let (rc, s) = mqtt_init (zero_session conn created) in if rc \<noteq> KAWAII_MQTT_SUCCESS_ERROR then None else Some s)"

text \<open>
  The end of \<^verbatim>\<open>mqtt_release\<close>: it polls the state, which the thread of the client changes, until the state is
  invalid or the time is up; \<open>s\<close> is the client at that moment. Success clears the memory of the client.
\<close>

definition mqtt_release :: "mqtt_session \<Rightarrow> int \<times> mqtt_session" where
  "mqtt_release s =
     (if mqtt_client_state (cl s) \<noteq> CLIENT_STATE_INVALID then (KAWAII_MQTT_FAILED_ERROR, s)
      else (KAWAII_MQTT_SUCCESS_ERROR, zero_session (connect_result s) (thread_created s)))"

section \<open>Lemmas\<close>

lemma connect_data_frame [simp]:
  "mqtt_connect_data (set_socket b s) = mqtt_connect_data s"
  "mqtt_connect_data (s\<lparr>connect_no := n\<rparr>) = mqtt_connect_data s"
  "mqtt_connect_data (s\<lparr>lost_sockets := m\<rparr>) = mqtt_connect_data s"
  by (simp_all add: mqtt_connect_data_def set_socket_def cong: if_cong)

text \<open>The client behind a successful \<^verbatim>\<open>network_connect\<close>, and the state in which the exchange of packets starts.\<close>

definition opened :: "mqtt_session \<Rightarrow> mqtt_session" where
  "opened s = set_socket True (s\<lparr>lost_sockets := lost_sockets s + (if socket_open (cl s) then 1 else 0),
     connect_no := connect_no s + 1\<rparr>)"

lemma opened_cl: "cl (opened s) = (cl s)\<lparr>socket_open := True\<rparr>"
  by (simp add: opened_def set_socket_def)

lemma connect_opened:
  assumes "mqtt_client_state (cl s) \<noteq> CLIENT_STATE_CONNECTED"
    and "connect_result s (connect_no s) (mqtt_host s) (mqtt_port s) = (dt, fd)" and "0 \<le> fd"
    and "mqtt_connect_data s = Some d"
  shows "mqtt_connect sv s p =
    do { (rc, c2, p2) \<leftarrow> connect_exchange sv KAWAII_MQTT_SUCCESS_ERROR d
           ((cl (opened s))\<lparr>mqtt_last_received := platform_timer_cutdown (keep_alive_ms (cl s)) (p\<lparr>uptime := uptime p + dt\<rparr>)\<rparr>)
           (p\<lparr>uptime := uptime p + dt\<rparr>);
         let (rc, s2) = connect_finish rc ((opened s)\<lparr>cl := c2\<rparr>);
         Some (rc, s2, p2) }"
proof -
  have "network_connect (network_init s) p = (KAWAII_MQTT_SUCCESS_ERROR, opened s, p\<lparr>uptime := uptime p + dt\<rparr>)"
    using assms(2,3)
    by (simp add: network_connect_def nettype_tcp_connect_def network_init_def set_socket_def opened_def)
  moreover have "mqtt_connect_data (opened s) = Some d" using assms(4) by (simp add: opened_def)
  moreover have "keep_alive_ms (cl (opened s)) = keep_alive_ms (cl s)" by (simp add: opened_cl keep_alive_ms_def)
  ultimately show ?thesis
    using assms(1) by (simp add: mqtt_connect_def mqtt_connect_with_results_def Let_def)
qed

text \<open>
  A client that is not connected gives up waiting after one packet, whatever it is: the keep-alive check
  behind every packet but CONNACK reports that there is no connection.
\<close>

lemma wait_one_packet:
  assumes "\<not> platform_timer_is_expired timer p" and "mqtt_client_state c \<noteq> CLIENT_STATE_CONNECTED"
    and "mqtt_read_packet c p = Some (KAWAII_MQTT_SUCCESS_ERROR, Some CONNACK, c1, p1)"
  shows "mqtt_wait_packet sv c CONNACK timer p = Some (uint CONNACK, c1, p1)"
proof -
  have "mqtt_packet_handle (sv p) c p = Some (uint CONNACK, c1, p1)" using assms(3) by (simp add: mqtt_packet_handle_def)
  moreover have "packet_timer (sv p) c p = Some (platform_timer_cutdown (mqtt_cmd_timeout c) p)"
    using assms(3) by (simp add: packet_timer_def CONNACK_def PUBLISH_def)
  ultimately show ?thesis using assms(1) by (simp add: mqtt_wait_packet_def wait_loop.simps)
qed

lemma exchange_ok:
  assumes d: "connect_wf d" "MQTTPacket_len (MQTTSerialize_connectLength d) \<le> write_size c"
      "write_size c \<le> int (length (mqtt_write_buf c))"
    and st: "mqtt_client_state c \<noteq> CLIENT_STATE_CONNECTED"
    and send: "send_result p (send_no p) = (dt, int k)" "length (connect_wire d) \<le> k"
    and time: "uptime p \<le> uptime p + mqtt_cmd_timeout c" "uptime p + dt \<le> uptime p + mqtt_cmd_timeout c"
    and resp: "arrives p (recv_no p) ([MQTTHeader CONNACK 0 0 0] # map (\<lambda>b. [b]) (enc 2) @ cs)"
      "concat cs = [take_bit 1 session, code]"
    and buf: "length (mqtt_read_buf c) = unat (mqtt_read_buf_size c)" "4 \<le> unat (mqtt_read_buf_size c)"
  shows "\<exists>c' p'. connect_exchange sv rc d c p = Some (uint code, c', p') \<and> wire p' = wire p @ connect_wire d \<and>
    socket_open c' = socket_open c \<and> subscriptions_kept c c'"
proof -
  let ?n = "length (connect_wire d)"
  have need: "MQTTPacket_len (int (connect_rem d)) \<le> write_size c" using d(1,2) by (simp add: connectLength_rem)
  have n: "?n \<le> length (mqtt_write_buf c)" using connect.sized [OF d(1)] need d(3) by linarith
  define c1 where "c1 = c\<lparr>mqtt_write_buf := connect_wire d @ drop ?n (mqtt_write_buf c)\<rparr>"
  have ser: "MQTTSerialize_connect (mqtt_write_buf c) (write_size c) d = Some (int ?n, mqtt_write_buf c1)"
    using connect.emitted [OF d(1) need d(3)] by (simp add: c1_def)
  have pos: "0 < ?n" by (simp add: length_connect_wire)
  define c2 where "c2 = c1\<lparr>mqtt_last_sent := uptime p + dt + keep_alive_ms c1\<rparr>"
  define p2 where "p2 = p\<lparr>uptime := uptime p + dt, send_no := send_no p + 1, wire := wire p @ connect_wire d\<rparr>"
  have sent: "mqtt_send_packet c1 (int ?n) p = Some (KAWAII_MQTT_SUCCESS_ERROR, c2, p2)"
    using mqtt_send_packet_whole [OF pos _ send(2) _ send(1), of c1] n time(1) by (simp add: c1_def c2_def p2_def)
  have a: "arrives p2 (recv_no p2) ([MQTTHeader CONNACK 0 0 0] # map (\<lambda>b. [b]) (enc 2) @ cs)"
    using resp(1) arrives_cong [of p2 p] by (simp add: p2_def)
  have e2: "length (enc 2) = 1" by (simp add: length_enc [of 2])
  have t: "header_type (MQTTHeader CONNACK 0 0 0) = CONNACK" by (simp add: CONNACK_def)
  have rb: "mqtt_read_buf c2 = mqtt_read_buf c" "mqtt_read_buf_size c2 = mqtt_read_buf_size c" by (simp_all add: c2_def c1_def)
  have w4: "MQTTHeader CONNACK 0 0 0 # enc 2 @ concat cs @ drop (1 + length (enc 2) + 2) b =
      connack_wire code session @ drop 4 b" for b
    unfolding resp(2) e2 connack_wire_def by (simp add: eval_nat_numeral)
  obtain c3 p3 where c3: "mqtt_read_packet c2 p2 = Some (KAWAII_MQTT_SUCCESS_ERROR, Some CONNACK, c3, p3)"
      "mqtt_read_buf c3 = connack_wire code session @ drop 4 (mqtt_read_buf c)"
      "c3 = c2\<lparr>mqtt_read_buf := mqtt_read_buf c3, mqtt_last_received := uptime p3 + keep_alive_ms c2\<rparr>"
    using mqtt_read_packet_ok [OF a, of c2, unfolded rb w4 t] buf resp(2) e2 by auto
  have alive: "\<not> platform_timer_is_expired (platform_timer_cutdown (mqtt_cmd_timeout c1) p) p2"
    using time(2) by (simp add: platform_timer_is_expired_def platform_timer_cutdown_def platform_uptime_ms_def p2_def c1_def)
  have st2: "mqtt_client_state c2 \<noteq> CLIENT_STATE_CONNECTED" using st by (simp add: c2_def c1_def)
  have dec: "MQTTDeserialize_connack (mqtt_read_buf c3) l out =
      Some (1, out\<lparr>sessionPresent := take_bit 1 session, connack_rc := code\<rparr>)" for l out
    unfolding c3(2) by (rule connack_parsed) (rule reading)
  have up: "c\<lparr>mqtt_write_buf := mqtt_write_buf c1\<rparr> = c1" "mqtt_cmd_timeout c = mqtt_cmd_timeout c1" by (simp_all add: c1_def)
  have "connect_exchange sv rc d c p = Some (uint code, c3, p3)"
    using ser pos sent wait_one_packet [OF alive st2 c3(1), of sv] dec
    by (simp add: connect_exchange_def Let_def up)
  moreover have "wire p3 = wire p @ connect_wire d" using read_packet_wire [OF c3(1)] by (simp add: p2_def)
  moreover have "socket_open c3 = socket_open c \<and> subscriptions_kept c c3"
    by (subst (1 2) c3(3)) (simp add: subscriptions_kept_def c2_def c1_def)
  ultimately show ?thesis by blast
qed

lemma finish_ok:
  assumes "mqtt_thread s \<or> thread_created s"
  shows "connect_finish KAWAII_MQTT_SUCCESS_ERROR s =
    (KAWAII_MQTT_SUCCESS_ERROR,
     s\<lparr>cl := (cl s)\<lparr>mqtt_client_state := CLIENT_STATE_CONNECTED, mqtt_ping_outstanding := 0\<rparr>, mqtt_thread := True\<rparr>)"
  using assms by (auto simp: connect_finish_def session_state_def mqtt_set_client_state_def)

section \<open>Requesting the subscriptions again\<close>

definition next_id :: "u16 \<Rightarrow> u16" where
  "next_id i = (if i = KAWAII_MQTT_MAX_PACKET_ID then 1 else i + 1)"

fun next_ids :: "nat \<Rightarrow> u16 \<Rightarrow> u16 list" where
  "next_ids 0 i = []"
| "next_ids (Suc n) i = next_id i # next_ids n (next_id i)"

lemma length_next_ids [simp]: "length (next_ids n i) = n"
  by (induction n arbitrary: i) simp_all

lemma unat_next_id: "unat i \<le> 65534 \<Longrightarrow> unat (next_id i) = unat i mod 65534 + 1"
proof (cases "i = KAWAII_MQTT_MAX_PACKET_ID")
  case True
  then show ?thesis by (simp add: next_id_def KAWAII_MQTT_MAX_PACKET_ID_def)
next
  case False
  assume "unat i \<le> 65534"
  moreover have "i = of_nat (unat i)" by simp
  then have "unat i \<noteq> 65534" using False by (metis KAWAII_MQTT_MAX_PACKET_ID_def of_nat_numeral)
  ultimately have "unat i < 65534" by simp
  then show ?thesis using False by (simp add: next_id_def unat_word_ariths)
qed

lemma next_ids_nth: "j < n \<Longrightarrow> unat i \<le> 65534 \<Longrightarrow> unat (next_ids n i ! j) = (unat i + j) mod 65534 + 1"
proof (induction n arbitrary: i j)
  case (Suc n)
  have u: "unat (next_id i) \<le> 65534" using unat_next_id [OF Suc.prems(2)] by simp
  show ?case
  proof (cases j)
    case (Suc m)
    then have "unat (next_ids (Suc n) i ! j) = (unat (next_id i) + m) mod 65534 + 1"
      using Suc.IH [OF _ u, of m] Suc.prems(1) by simp
    moreover have "(unat i mod 65534 + 1 + m) mod 65534 = (unat i + Suc m) mod 65534"
      using mod_add_left_eq [of "unat i" 65534 "1 + m"] by (simp add: add.assoc)
    ultimately show ?thesis using Suc unat_next_id [OF Suc.prems(2)] by simp
  qed (use unat_next_id [OF Suc.prems(2)] in simp)
qed simp

lemma mod_shift_inj:
  fixes a j l m :: nat
  assumes "j < m" and "l < m" and "(a + j) mod m = (a + l) mod m"
  shows "j = l"
proof -
  have "x = y" if "x \<le> y" "y < m" "(a + x) mod m = (a + y) mod m" for x y
  proof -
    have "m dvd y - x" using that mod_eq_dvd_iff_nat [of "a + x" "a + y" m] by simp
    then show ?thesis using that by (cases "y - x = 0") (auto dest: dvd_imp_le)
  qed
  then show ?thesis using assms by (metis nat_le_linear)
qed

lemma distinct_next_ids:
  assumes "n \<le> 65534" and "unat i \<le> 65534"
  shows "distinct (next_ids n i)"
proof (rule distinct_conv_nth [THEN iffD2], intro allI impI notI)
  fix j l assume jl: "j < length (next_ids n i)" "l < length (next_ids n i)" "j \<noteq> l" "next_ids n i ! j = next_ids n i ! l"
  then have "(unat i + j) mod 65534 = (unat i + l) mod 65534"
    using next_ids_nth [of j n i] next_ids_nth [of l n i] assms(2) by simp
  then show False using mod_shift_inj [of j 65534 l "unat i"] jl assms(1) by simp
qed

text \<open>The packet that requests a subscription, and that it fits the write buffer.\<close>

definition resub_wire :: "u16 \<Rightarrow> message_handlers \<Rightarrow> bytes" where
  "resub_wire i h = (case topic_filter h of None \<Rightarrow> [] | Some f \<Rightarrow> subscribe_wire (0, i, [(cstring_of f, mh_qos h)]))"

definition resub_fits :: "mqtt_client \<Rightarrow> message_handlers \<Rightarrow> bool" where
  "resub_fits c h \<longleftrightarrow>
     (case topic_filter h of None \<Rightarrow> False
      | Some f \<Rightarrow> subscribe_wf (0, 0, [(cstring_of f, mh_qos h)]) \<and> subscribe_need (0, 0, [(cstring_of f, mh_qos h)]) \<le> write_size c)"

text \<open>What a request leaves as it was.\<close>

definition same_setup :: "mqtt_client \<Rightarrow> mqtt_client \<Rightarrow> bool" where
  "same_setup c c' \<longleftrightarrow> mqtt_client_state c' = mqtt_client_state c \<and> mqtt_write_buf_size c' = mqtt_write_buf_size c \<and>
     length (mqtt_write_buf c') = length (mqtt_write_buf c) \<and> mqtt_cmd_timeout c' = mqtt_cmd_timeout c \<and>
     subscriptions_kept c c'"

lemma subscribe_ok:
  assumes st: "mqtt_client_state c = CLIENT_STATE_CONNECTED"
    and f: "topic_filter h = Some f" "resub_fits c h" "write_size c \<le> int (length (mqtt_write_buf c))"
    and send: "send_result p (send_no p) = (dt, int k)" "length (mqtt_write_buf c) \<le> k"
    and time: "uptime p \<le> uptime p + mqtt_cmd_timeout c"
    and i: "i = next_id (mqtt_packet_id c)" "\<not> mqtt_ack_list_node_is_exist c SUBACK i"
  shows "\<exists>c' a. mqtt_subscribe c f (mh_qos h) (Some (mh_handler h)) p =
      Some (KAWAII_MQTT_SUCCESS_ERROR, c', p\<lparr>uptime := uptime p + dt, send_no := send_no p + 1, wire := wire p @ resub_wire i h\<rparr>) \<and>
    same_setup c c' \<and> mqtt_packet_id c' = i \<and> mqtt_ack_handler_list c' = mqtt_ack_handler_list c @ [a] \<and>
    ack_type a = SUBACK \<and> ack_packet_id a = i \<and> ack_handler a = Some h"
proof -
  let ?m = "(0, i, [(cstring_of f, mh_qos h)]) :: u8 \<times> u16 \<times> (MQTTString \<times> int) list"
  let ?w = "subscribe_wire ?m" and ?n = "length (subscribe_wire ?m)"
  have m: "subscribe_wf ?m" "subscribe_need ?m \<le> write_size c" using f(1,2) by (simp_all add: resub_fits_def)
  have n: "?n \<le> length (mqtt_write_buf c)" using subscribe.sized [OF m(1)] m(2) f(3) by linarith
  define c1 where "c1 = c\<lparr>mqtt_packet_id := i, mqtt_write_buf := ?w @ drop ?n (mqtt_write_buf c)\<rparr>"
  have ser: "MQTTSerialize_subscribe (mqtt_write_buf c) (write_size c) 0 i 1 [cstring_of f] [mh_qos h] =
      Some (int ?n, mqtt_write_buf c1)"
    using subscribe.emitted [OF m f(3)] by (simp add: c1_def del: subscribe_wire.simps)
  define c2 where "c2 = c1\<lparr>mqtt_last_sent := uptime p + dt + keep_alive_ms c1\<rparr>"
  define p2 where "p2 = p\<lparr>uptime := uptime p + dt, send_no := send_no p + 1, wire := wire p @ ?w\<rparr>"
  have pos: "0 < ?n" by simp
  have sent: "mqtt_send_packet c1 (int ?n) p = Some (KAWAII_MQTT_SUCCESS_ERROR, c2, p2)"
    using mqtt_send_packet_whole [OF pos _ _ _ send(1), of c1] n send(2) time
    by (simp add: c1_def c2_def p2_def del: subscribe_wire.simps)
  have "unat (word_of_int (int ?n) :: u16) \<le> ?n" by (simp add: unat_of_nat del: subscribe_wire.simps)
  then have "unat (word_of_int (int ?n) :: u16) \<le> length (mqtt_write_buf c2)"
    using n by (simp add: c2_def c1_def del: subscribe_wire.simps)
  then obtain a where a: "mqtt_ack_handler_create c2 SUBACK i (word_of_int (int ?n)) (Some h) p2 = Some a"
      "ack_type a = SUBACK" "ack_packet_id a = i" "ack_handler a = Some h"
    by (simp add: mqtt_ack_handler_create_def mem_read_Some del: subscribe_wire.simps)
  let ?c3 = "(mqtt_add_ack_handler_num c2)\<lparr>mqtt_ack_handler_list := mqtt_ack_handler_list c @ [a]\<rparr>"
  have rec: "mqtt_ack_list_record c2 SUBACK i (int ?n) (Some h) p2 = Some (KAWAII_MQTT_SUCCESS_ERROR, ?c3)"
    using i(2) a(1)
    by (simp add: mqtt_ack_list_record_def mqtt_ack_list_node_is_exist_def c2_def c1_def mqtt_add_ack_handler_num_def
        del: subscribe_wire.simps)
  have h: "mqtt_msg_handler_create f (mh_qos h) (mh_handler h) = h" using f(1) by (simp add: mqtt_msg_handler_create_def)
  have id: "mqtt_get_next_packet_id c = (i, c\<lparr>mqtt_packet_id := i\<rparr>)"
    by (simp add: mqtt_get_next_packet_id_def next_id_def i(1) Let_def)
  have up: "c\<lparr>mqtt_packet_id := i, mqtt_write_buf := mqtt_write_buf c1\<rparr> = c1" by (simp add: c1_def)
  have "mqtt_subscribe c f (mh_qos h) (Some (mh_handler h)) p = Some (KAWAII_MQTT_SUCCESS_ERROR, ?c3, p2)"
    using st ser pos sent rec by (simp add: mqtt_subscribe_def id h up Let_def del: subscribe_wire.simps)
  moreover have "same_setup c ?c3"
    using n by (simp add: same_setup_def c2_def c1_def mqtt_add_ack_handler_num_def subscriptions_kept_def del: subscribe_wire.simps)
  moreover have "p2 = p\<lparr>uptime := uptime p + dt, send_no := send_no p + 1, wire := wire p @ resub_wire i h\<rparr>"
    using f(1) by (simp add: p2_def resub_wire_def)
  ultimately show ?thesis
    using a by (intro exI [of _ ?c3] exI [of _ a]) (simp add: c2_def c1_def mqtt_add_ack_handler_num_def)
qed

text \<open>
  A socket that accepts whole packets, each within \<open>d\<close> milliseconds, so that \<open>n\<close> of them stay clear of the
  wrap-around of the clock.
\<close>

definition accepting :: "nat \<Rightarrow> nat \<Rightarrow> mqtt_client \<Rightarrow> platform \<Rightarrow> bool" where
  "accepting d n c p \<longleftrightarrow>
     (\<forall>i \<ge> send_no p. \<exists>dt k. send_result p i = (dt, int k) \<and> unat dt \<le> d \<and> length (mqtt_write_buf c) \<le> k) \<and>
     unat (uptime p) + n * d + unat (mqtt_cmd_timeout c) < 2 ^ 32"

lemma accepting_step:
  assumes "accepting d (Suc n) c p"
  shows "\<exists>dt k. send_result p (send_no p) = (dt, int k) \<and> length (mqtt_write_buf c) \<le> k \<and>
    uptime p \<le> uptime p + mqtt_cmd_timeout c \<and>
    (same_setup c c' \<longrightarrow> accepting d n c' (p\<lparr>uptime := uptime p + dt, send_no := send_no p + 1, wire := w\<rparr>))"
proof -
  obtain dt k where r: "send_result p (send_no p) = (dt, int k)" "unat dt \<le> d" "length (mqtt_write_buf c) \<le> k"
    using assms by (auto simp: accepting_def)
  have t: "unat (uptime p) + (d + n * d) + unat (mqtt_cmd_timeout c) < 2 ^ 32" using assms by (simp add: accepting_def)
  then have "unat (uptime p + dt) = unat (uptime p) + unat dt" using r(2) by (subst unat_plus_if_size) (simp add: word_size)
  then have "accepting d n c' (p\<lparr>uptime := uptime p + dt, send_no := send_no p + 1, wire := w\<rparr>)" if "same_setup c c'"
    using assms that t r(2) by (auto simp: accepting_def same_setup_def)
  moreover have "uptime p \<le> uptime p + mqtt_cmd_timeout c"
    using t by (simp add: word_le_nat_alt unat_plus_if_size word_size)
  ultimately show ?thesis using r by blast
qed

lemma same_setup_refl [simp]: "same_setup c c"
  by (simp add: same_setup_def subscriptions_kept_def)

lemma same_setup_trans: "same_setup a b \<Longrightarrow> same_setup b c \<Longrightarrow> same_setup a c"
  by (simp add: same_setup_def subscriptions_kept_def)

lemma same_setup_fits: "same_setup c c' \<Longrightarrow> resub_fits c' = resub_fits c"
  by (auto simp: same_setup_def resub_fits_def fun_eq_iff split: option.splits)

abbreviation ack_key :: "ack_handlers \<Rightarrow> u8 \<times> u16 \<times> message_handlers option" where
  "ack_key a \<equiv> (ack_type a, ack_packet_id a, ack_handler a)"

lemma resubscribe_loop_ok:
  assumes "mqtt_client_state c = CLIENT_STATE_CONNECTED" and "list_all (resub_fits c) hs"
    and "write_size c \<le> int (length (mqtt_write_buf c))" and "accepting d (length hs) c p"
    and "distinct (next_ids (length hs) (mqtt_packet_id c))"
    and "\<forall>i \<in> set (next_ids (length hs) (mqtt_packet_id c)). \<not> mqtt_ack_list_node_is_exist c SUBACK i"
  shows "\<exists>c' p' as. resubscribe_loop hs rc c p = Some (if hs = [] then rc else KAWAII_MQTT_SUCCESS_ERROR, c', p') \<and>
    wire p' = wire p @ concat (map2 resub_wire (next_ids (length hs) (mqtt_packet_id c)) hs) \<and> same_setup c c' \<and>
    mqtt_ack_handler_list c' = mqtt_ack_handler_list c @ as \<and>
    map ack_key as = map2 (\<lambda>i h. (SUBACK, i, Some h)) (next_ids (length hs) (mqtt_packet_id c)) hs"
  using assms
proof (induction hs arbitrary: c p rc)
  case (Cons h hs)
  let ?i = "next_id (mqtt_packet_id c)"
  obtain f where f: "topic_filter h = Some f" using Cons.prems(2) by (auto simp: resub_fits_def split: option.splits)
  obtain dt k where r: "send_result p (send_no p) = (dt, int k)" "length (mqtt_write_buf c) \<le> k"
      "uptime p \<le> uptime p + mqtt_cmd_timeout c"
    using accepting_step Cons.prems(4) by fastforce
  obtain c1 a where c1: "mqtt_subscribe c f (mh_qos h) (Some (mh_handler h)) p =
      Some (KAWAII_MQTT_SUCCESS_ERROR, c1, p\<lparr>uptime := uptime p + dt, send_no := send_no p + 1, wire := wire p @ resub_wire ?i h\<rparr>)"
      "same_setup c c1" "mqtt_packet_id c1 = ?i" "mqtt_ack_handler_list c1 = mqtt_ack_handler_list c @ [a]"
      "ack_key a = (SUBACK, ?i, Some h)"
    using subscribe_ok [OF Cons.prems(1) f _ Cons.prems(3) r refl] Cons.prems(2,6) by auto
  let ?p = "p\<lparr>uptime := uptime p + dt, send_no := send_no p + 1, wire := wire p @ resub_wire ?i h\<rparr>"
  have acc: "accepting d (length hs) c1 ?p"
    using accepting_step [of d "length hs" c p c1 "wire p @ resub_wire ?i h"] Cons.prems(4) r(1) c1(2) by auto
  have fresh: "\<forall>i \<in> set (next_ids (length hs) ?i). \<not> mqtt_ack_list_node_is_exist c1 SUBACK i"
    using Cons.prems(5,6) c1(4,5) by (auto simp: mqtt_ack_list_node_is_exist_def)
  have "list_all (resub_fits c1) hs" "mqtt_client_state c1 = CLIENT_STATE_CONNECTED"
      "write_size c1 \<le> int (length (mqtt_write_buf c1))"
    using Cons.prems(1-3) same_setup_fits [OF c1(2)] c1(2) by (simp_all add: same_setup_def)
  from Cons.IH [OF this(2,1,3) acc, unfolded c1(3), OF _ fresh, of KAWAII_MQTT_SUCCESS_ERROR]
  obtain c' p' as where IH: "resubscribe_loop hs KAWAII_MQTT_SUCCESS_ERROR c1 ?p = Some (KAWAII_MQTT_SUCCESS_ERROR, c', p')"
      "wire p' = wire ?p @ concat (map2 resub_wire (next_ids (length hs) ?i) hs)" "same_setup c1 c'"
      "mqtt_ack_handler_list c' = mqtt_ack_handler_list c1 @ as"
      "map ack_key as = map2 (\<lambda>i h. (SUBACK, i, Some h)) (next_ids (length hs) ?i) hs"
    using Cons.prems(5) by auto
  have "resubscribe_loop (h # hs) rc c p = Some (KAWAII_MQTT_SUCCESS_ERROR, c', p')" using f c1(1) IH(1) by simp
  then show ?case using IH c1(2,4,5) by (auto intro!: exI [of _ "a # as"] same_setup_trans [OF c1(2)])
qed simp

text \<open>
  The end of a session: once \<^verbatim>\<open>mqtt_disconnect\<close> has been called, the next round of the thread closes the
  socket, drops all lists and ends the thread, and \<^verbatim>\<open>mqtt_release\<close> then succeeds.
\<close>

lemma session_ends:
  assumes "mqtt_disconnect (cl s) p = Some (rc, c, p1)" and "uptime p1 \<le> uptime p1 + mqtt_cmd_timeout c"
  shows "\<exists>s'. mqtt_yield_round sv reconnect (s\<lparr>cl := c\<rparr>) p1 = Some (False, s', p1) \<and>
    \<not> socket_open (cl s') \<and> mqtt_msg_handler_list (cl s') = [] \<and> mqtt_ack_handler_list (cl s') = [] \<and>
    fst (mqtt_release s') = KAWAII_MQTT_SUCCESS_ERROR"
proof -
  have st: "mqtt_client_state c = CLIENT_STATE_CLEAN_SESSION"
    using assms(1) by (auto simp: mqtt_disconnect_def mqtt_set_client_state_def Let_def split: bind_splits)
  have "\<not> platform_timer_is_expired (platform_timer_cutdown (mqtt_cmd_timeout c) p1) p1"
    using assms(2) by (simp add: platform_timer_is_expired_def platform_timer_cutdown_def platform_uptime_ms_def)
  then have "mqtt_yield sv reconnect (s\<lparr>cl := c\<rparr>) (sint (mqtt_cmd_timeout c)) p1 =
      Some (KAWAII_MQTT_CLEAN_SESSION_ERROR, s\<lparr>cl := c\<rparr>, p1)"
    using st by (simp add: mqtt_yield_def yield_loop.simps Let_def)
  then show ?thesis
    by (simp add: mqtt_yield_round_def network_disconnect_def nettype_tcp_disconnect_def set_socket_def
        mqtt_clean_session_def mqtt_set_client_state_def mqtt_release_def Let_def)
qed

section \<open>Sessions as runs of the client\<close>

lemma run_refl [simp]: "\<exists>n. client_run i c n 0 c"
  using client_run.start by blast



















section \<open>Properties\<close>


text \<open>
  Property C8. Connecting: when the socket is established, the CONNECT packet fits the write buffer and is
  accepted, and a CONNACK packet follows, cut in any way and in time, \<^verbatim>\<open>mqtt_connect\<close> has sent exactly one
  packet, from which the options of the client are read back (unless it ends in an empty user name or
  password, see \<open>credentials_readable\<close>), and returns the return code of the broker. The client is connected, with its thread and no outstanding ping, exactly when the code is 0;
  otherwise it is only initialised, and its socket stays open although the next attempt forgets it.
  Subscriptions survive.
\<close>

theorem connect_handshake:
  assumes "mqtt_client_state (cl s) \<noteq> CLIENT_STATE_CONNECTED"
    and "connect_result s (connect_no s) (mqtt_host s) (mqtt_port s) = (dt0, fd)" and "0 \<le> fd"
    and "mqtt_connect_data s = Some d" and "connect_wf d"
    and "MQTTPacket_len (MQTTSerialize_connectLength d) \<le> write_size (cl s)"
    and "write_size (cl s) \<le> int (length (mqtt_write_buf (cl s)))"
    and "send_result p (send_no p) = (dt, int k)" and "length (connect_wire d) \<le> k"
    and "uptime p + dt0 \<le> uptime p + dt0 + mqtt_cmd_timeout (cl s)"
    and "uptime p + dt0 + dt \<le> uptime p + dt0 + mqtt_cmd_timeout (cl s)"
    and "arrives p (recv_no p) ([MQTTHeader CONNACK 0 0 0] # map (\<lambda>b. [b]) (enc 2) @ cs)"
    and "concat cs = [take_bit 1 session, code]"
    and "length (mqtt_read_buf (cl s)) = unat (mqtt_read_buf_size (cl s))" and "4 \<le> unat (mqtt_read_buf_size (cl s))"
    and "mqtt_thread s \<or> thread_created s"
  shows "\<exists>s' p'. mqtt_connect sv s p = Some (uint code, s', p') \<and> wire p' = wire p @ connect_wire d \<and>
    (credentials_readable d \<longrightarrow>
      MQTTDeserialize_connect (connect_wire d) (int (length (connect_wire d))) out = Some (1, connect_view d out)) \<and>
    socket_open (cl s') \<and> subscriptions_kept (cl s) (cl s') \<and>
    (if code = 0 then mqtt_client_state (cl s') = CLIENT_STATE_CONNECTED \<and> mqtt_thread s' \<and> mqtt_ping_outstanding (cl s') = 0
     else mqtt_client_state (cl s') = CLIENT_STATE_INITIALIZED \<and> mqtt_thread s' = mqtt_thread s \<and>
       lost_sockets (network_init s') = lost_sockets s' + 1)"
proof -
  let ?p = "p\<lparr>uptime := uptime p + dt0\<rparr>"
  define c where "c = (cl (opened s))\<lparr>mqtt_last_received := platform_timer_cutdown (keep_alive_ms (cl s)) ?p\<rparr>"
  have c: "mqtt_write_buf c = mqtt_write_buf (cl s)" "mqtt_write_buf_size c = mqtt_write_buf_size (cl s)"
      "mqtt_read_buf c = mqtt_read_buf (cl s)" "mqtt_read_buf_size c = mqtt_read_buf_size (cl s)"
      "mqtt_cmd_timeout c = mqtt_cmd_timeout (cl s)" "mqtt_client_state c = mqtt_client_state (cl s)" "socket_open c"
    by (simp_all add: c_def opened_cl)
  have kept: "subscriptions_kept c = subscriptions_kept (cl s)"
    by (simp add: c_def opened_cl subscriptions_kept_def fun_eq_iff)
  have a: "arrives ?p (recv_no ?p) ([MQTTHeader CONNACK 0 0 0] # map (\<lambda>b. [b]) (enc 2) @ cs)"
    using assms(12) arrives_cong [of ?p p] by simp
  obtain c' p' where x: "connect_exchange sv KAWAII_MQTT_SUCCESS_ERROR d c ?p = Some (uint code, c', p')"
      "wire p' = wire p @ connect_wire d" "socket_open c'" "subscriptions_kept (cl s) c'"
    using exchange_ok [of d c ?p dt k cs session code sv KAWAII_MQTT_SUCCESS_ERROR] assms a by (auto simp: c kept)
  have dec: "credentials_readable d \<longrightarrow>
      MQTTDeserialize_connect (connect_wire d) (int (length (connect_wire d))) out = Some (1, connect_view d out)"
    using connect.parsed [OF assms(5), of "connect_wire d"] holds_at_prefix [of "connect_wire d" "[]"] by simp
  let ?s = "(opened s)\<lparr>cl := c'\<rparr>"
  have th: "mqtt_thread ?s \<or> thread_created ?s" "mqtt_thread ?s = mqtt_thread s"
    using assms(16) by (simp_all add: opened_def set_socket_def)
  have con: "mqtt_connect sv s p = (let (rc, s2) = connect_finish (uint code) ?s in Some (rc, s2, p'))"
    using connect_opened [OF assms(1-4)] x(1) by (simp add: c_def)
  show ?thesis
  proof (cases "code = 0")
    case True
    then show ?thesis using con x dec finish_ok [OF th(1)]
      by (simp add: KAWAII_MQTT_SUCCESS_ERROR_def subscriptions_kept_def)
  next
    case False
    then have "uint code \<noteq> 0" by (simp add: uint_0_iff)
    then show ?thesis using con x dec False th(2)
      by (simp add: connect_finish_def session_state_def mqtt_set_client_state_def KAWAII_MQTT_SUCCESS_ERROR_def
          subscriptions_kept_def network_init_def set_socket_def)
  qed
qed

definition demo_client :: mqtt_client where
  "demo_client = sample_client\<lparr>mqtt_write_buf := replicate 64 0, mqtt_write_buf_size := 64\<rparr>"

definition demo_session :: mqtt_session where
  "demo_session = (zero_session (\<lambda>_ _ _. (5, 3)) True)\<lparr>
     cl := demo_client\<lparr>mqtt_client_state := CLIENT_STATE_INITIALIZED\<rparr>, mqtt_client_id := Some [0x61], mqtt_version := 4\<rparr>"

definition demo_options :: MQTTPacket_connectData where
  "demo_options = MQTTPacket_connectData_initializer\<lparr>keepAliveInterval := 100, cleansession := 0, MQTTVersion := 4,
     clientID := cstring_opt (Some [0x61])\<rparr>"

definition demo_platform :: platform where
  "demo_platform = \<lparr>uptime = 0,
     recv_result = (\<lambda>i. if i = 0 then (1, Some [0x20]) else if i = 1 then (0, Some [2]) else (7, Some [of_nat (3 - i)])),
     recv_no = 0, send_result = (\<lambda>i. (1, 100)), send_no = 0, wire = []\<rparr>"

lemma demo_data: "mqtt_connect_data demo_session = Some demo_options"
proof -
  have "mqtt_connect_data demo_session = Some (MQTTPacket_connectData_initializer\<lparr>keepAliveInterval := 100, cleansession := 0,
      MQTTVersion := 4, clientID := cstring_opt (Some [0x61]), username := cstring_opt None, password := cstring_opt None\<rparr>)"
    by (simp add: mqtt_connect_data_def demo_session_def demo_client_def zero_session_def sample_client_def)
  then show ?thesis
    by (simp add: demo_options_def cstring_opt_def MQTTString_initializer_def MQTTPacket_connectData_initializer_def)
qed

lemma demo_facts:
  "mqtt_client_state (cl demo_session) \<noteq> CLIENT_STATE_CONNECTED"
  "connect_result demo_session (connect_no demo_session) (mqtt_host demo_session) (mqtt_port demo_session) = (5, 3)"
  "connect_wf demo_options" "MQTTSerialize_connectLength demo_options = 13" "thread_created demo_session"
  "cl demo_session = demo_client\<lparr>mqtt_client_state := CLIENT_STATE_INITIALIZED\<rparr>"
  by (simp_all add: demo_session_def zero_session_def demo_options_def MQTTPacket_connectData_initializer_def connect_wf_def
      MQTTString_wf_def cstring_opt_def MQTTString_initializer_def mqtt_text_def MQTTString_given_def
      MQTTSerialize_connectLength_def MQTTstrlen_def strlen_def)





theorem connect_handshake_witness:
  "\<exists>s' p'. mqtt_connect (\<lambda>_. sample_vars) demo_session demo_platform = Some (0, s', p') \<and>
    length (wire p') = 15 \<and> mqtt_client_state (cl s') = CLIENT_STATE_CONNECTED \<and> mqtt_thread s'"
proof -
  have e: "enc 2 = [2]" "enc 13 = [13]" by (simp_all add: enc.simps)
  have rem: "connect_rem demo_options = 13" using connectLength_rem [OF demo_facts(3)] demo_facts(4) by simp
  have len: "length (connect_wire demo_options) = 15" unfolding length_connect_wire rem e by simp
  have need: "MQTTPacket_len 13 = 15" by code_simp
  have h: "MQTTHeader CONNACK 0 0 0 = 0x20" by code_simp
  have a: "arrives demo_platform (recv_no demo_platform) ([MQTTHeader CONNACK 0 0 0] # map (\<lambda>b. [b]) (enc 2) @ [[1], [0]])"
    unfolding e h by (simp add: arrives_Cons) (simp add: arrives_def demo_platform_def)
  have "\<exists>s' p'. mqtt_connect (\<lambda>_. sample_vars) demo_session demo_platform = Some (uint (0 :: u8), s', p') \<and>
      wire p' = wire demo_platform @ connect_wire demo_options \<and>
      (credentials_readable demo_options \<longrightarrow>
        MQTTDeserialize_connect (connect_wire demo_options) (int (length (connect_wire demo_options))) demo_options =
          Some (1, connect_view demo_options demo_options)) \<and>
      socket_open (cl s') \<and> subscriptions_kept (cl demo_session) (cl s') \<and>
      (if (0 :: u8) = 0 then mqtt_client_state (cl s') = CLIENT_STATE_CONNECTED \<and> mqtt_thread s' \<and> mqtt_ping_outstanding (cl s') = 0
       else mqtt_client_state (cl s') = CLIENT_STATE_INITIALIZED \<and> mqtt_thread s' = mqtt_thread demo_session \<and>
         lost_sockets (network_init s') = lost_sockets s' + 1)"
    by (rule connect_handshake [OF demo_facts(1,2) _ demo_data demo_facts(3) _ _ _ _ _ _ a, where session = 1 and k = 100])
      (simp_all add: need len demo_facts demo_client_def demo_platform_def, simp_all add: sample_client_def)
  then show ?thesis using len by (auto simp: demo_platform_def)
qed

text \<open>
  A write buffer that is too short for the CONNECT packet is reported as a connection: the
  result of \<^verbatim>\<open>network_connect\<close> is still in \<^verbatim>\<open>rc\<close>, so \<^verbatim>\<open>mqtt_connect\<close> returns success, the client
  counts as connected and its thread is started, although not a byte was sent or received.
\<close>

theorem connect_short_buffer:
  assumes "mqtt_client_state (cl s) \<noteq> CLIENT_STATE_CONNECTED"
    and "connect_result s (connect_no s) (mqtt_host s) (mqtt_port s) = (dt0, fd)" and "0 \<le> fd"
    and "mqtt_connect_data s = Some d" and "connect_wf d"
    and "write_size (cl s) < MQTTPacket_len (MQTTSerialize_connectLength d)"
    and "mqtt_thread s \<or> thread_created s"
  shows "\<exists>s'. mqtt_connect sv s p = Some (KAWAII_MQTT_SUCCESS_ERROR, s', p\<lparr>uptime := uptime p + dt0\<rparr>) \<and>
    mqtt_client_state (cl s') = CLIENT_STATE_CONNECTED \<and> mqtt_thread s'"
proof -
  let ?c = "(cl (opened s))\<lparr>mqtt_last_received := platform_timer_cutdown (keep_alive_ms (cl s)) (p\<lparr>uptime := uptime p + dt0\<rparr>)\<rparr>"
  let ?s = "(opened s)\<lparr>cl := ?c\<rparr>"
  have "MQTTSerialize_connect (mqtt_write_buf ?c) (write_size ?c) d = Some (MQTTPACKET_BUFFER_TOO_SHORT, mqtt_write_buf ?c)"
    using connect.refused [OF assms(5)] assms(6) by (simp add: connectLength_rem [OF assms(5)] opened_cl)
  then have x: "connect_exchange sv KAWAII_MQTT_SUCCESS_ERROR d ?c (p\<lparr>uptime := uptime p + dt0\<rparr>) =
      Some (KAWAII_MQTT_SUCCESS_ERROR, ?c, p\<lparr>uptime := uptime p + dt0\<rparr>)"
    by (simp add: connect_exchange_def MQTTPACKET_BUFFER_TOO_SHORT_def)
  have "mqtt_thread ?s \<or> thread_created ?s" using assms(7) by (simp add: opened_def set_socket_def)
  from finish_ok [OF this] show ?thesis using connect_opened [OF assms(1-4), of sv p] x by simp
qed

theorem connect_short_buffer_witness:
  "\<exists>s'. mqtt_connect (\<lambda>_. sample_vars) (mqtt_set_write_buf_size 8 demo_session) demo_platform =
      Some (KAWAII_MQTT_SUCCESS_ERROR, s', demo_platform\<lparr>uptime := uptime demo_platform + 5\<rparr>) \<and>
    mqtt_client_state (cl s') = CLIENT_STATE_CONNECTED \<and> mqtt_thread s'"
proof (rule connect_short_buffer [where fd = 3])
  show "mqtt_connect_data (mqtt_set_write_buf_size 8 demo_session) = Some demo_options"
    using demo_data by (simp add: mqtt_connect_data_def mqtt_set_write_buf_size_def cong: if_cong)
  show "write_size (cl (mqtt_set_write_buf_size 8 demo_session)) < MQTTPacket_len (MQTTSerialize_connectLength demo_options)"
    by (simp add: mqtt_set_write_buf_size_def demo_facts(4) MQTTPacket_len_def)
  show "connect_wf demo_options" by (rule demo_facts(3))
qed (use demo_facts in \<open>simp_all add: mqtt_set_write_buf_size_def\<close>)

text \<open>
  Property C25. After a reconnection all subscriptions are requested again: on a socket that accepts the
  packets, \<^verbatim>\<open>mqtt_try_resubscribe\<close> succeeds, sends one SUBSCRIBE packet per subscription, in order and
  with consecutive packet ids that never collide (up to 65534 subscriptions, across the wrap-around of the
  ids), expects an acknowledgement for each, and leaves the subscriptions as they were.
\<close>

theorem resubscribe_requests_all:
  assumes "mqtt_client_state c = CLIENT_STATE_CONNECTED" and "list_all (resub_fits c) (mqtt_msg_handler_list c)"
    and "write_size c \<le> int (length (mqtt_write_buf c))" and "accepting d (length (mqtt_msg_handler_list c)) c p"
    and "length (mqtt_msg_handler_list c) \<le> 65534" and "unat (mqtt_packet_id c) \<le> 65534"
    and "\<forall>a \<in> set (mqtt_ack_handler_list c). ack_type a \<noteq> SUBACK"
    and "ids = next_ids (length (mqtt_msg_handler_list c)) (mqtt_packet_id c)"
  shows "\<exists>c' p' as. mqtt_try_resubscribe c p = Some (KAWAII_MQTT_SUCCESS_ERROR, c', p') \<and> distinct ids \<and>
    wire p' = wire p @ concat (map2 resub_wire ids (mqtt_msg_handler_list c)) \<and>
    mqtt_msg_handler_list c' = mqtt_msg_handler_list c \<and>
    mqtt_ack_handler_list c' = mqtt_ack_handler_list c @ as \<and>
    map (\<lambda>a. (ack_type a, ack_packet_id a, ack_handler a)) as = map2 (\<lambda>i h. (SUBACK, i, Some h)) ids (mqtt_msg_handler_list c)"
proof (cases "mqtt_msg_handler_list c = []")
  case True
  then show ?thesis using assms(8) by (simp add: mqtt_try_resubscribe_def)
next
  case False
  have d: "distinct ids" unfolding assms(8) by (rule distinct_next_ids [OF assms(5,6)])
  have "\<forall>i \<in> set ids. \<not> mqtt_ack_list_node_is_exist c SUBACK i"
    using assms(7) by (auto simp: mqtt_ack_list_node_is_exist_def list_ex_iff)
  from resubscribe_loop_ok [OF assms(1-4) d [unfolded assms(8)] this [unfolded assms(8)], of KAWAII_MQTT_RESUBSCRIBE_ERROR]
  show ?thesis using d False
    by (auto simp: mqtt_try_resubscribe_def same_setup_def subscriptions_kept_def simp flip: assms(8))
qed

theorem resubscribe_requests_all_witness:
  "\<exists>hs c' p' as. hs = [\<lparr>mh_qos = 1, topic_filter = Some [0x61], mh_handler = 1\<rparr>, \<lparr>mh_qos = 2, topic_filter = Some [0x62], mh_handler = 2\<rparr>] \<and>
    mqtt_try_resubscribe (demo_client\<lparr>mqtt_msg_handler_list := hs, mqtt_packet_id := 65533\<rparr>) demo_platform =
      Some (KAWAII_MQTT_SUCCESS_ERROR, c', p') \<and>
    wire p' = [0x82, 6, 0xff, 0xfe, 0, 1, 0x61, 1, 0x82, 6, 0, 1, 0, 1, 0x62, 2] \<and>
    mqtt_ack_handler_list c' = as \<and> map ack_packet_id as = [65534, 1]"
proof -
  let ?hs = "[\<lparr>mh_qos = 1, topic_filter = Some [0x61], mh_handler = 1\<rparr>, \<lparr>mh_qos = 2, topic_filter = Some [0x62], mh_handler = 2\<rparr>]"
  let ?c = "demo_client\<lparr>mqtt_msg_handler_list := ?hs, mqtt_packet_id := 65533\<rparr>"
  have e: "enc (Suc (Suc (Suc (Suc (Suc (Suc 0)))))) = [6]" by (simp add: enc.simps)
  have ids: "[65534, 1] = next_ids (length (mqtt_msg_handler_list ?c)) (mqtt_packet_id ?c)"
    by (simp add: next_id_def KAWAII_MQTT_MAX_PACKET_ID_def)
  have h: "MQTTHeader SUBSCRIBE 0 1 0 = 0x82" by code_simp
  have n: "enc16 65534 = [0xff, 0xfe]" "enc16 1 = [0, 1]" "enc16 (Suc 0) = [0, 1]" by (simp_all add: enc16_def)
  have fits: "list_all (resub_fits ?c) (mqtt_msg_handler_list ?c)"
    by (simp add: resub_fits_def cstring_of_def MQTTString_wf_def MQTTString_initializer_def mqtt_text_def topics_wire_def
        enc_str_def enc16_def MQTTPacket_len_def demo_client_def)
  have acc: "accepting 1 (length (mqtt_msg_handler_list ?c)) ?c demo_platform"
    by (auto simp: accepting_def demo_platform_def demo_client_def sample_client_def intro!: exI [of _ 100])
  have w: "resub_wire 65534 (?hs ! 0) = [0x82, 6, 0xff, 0xfe, 0, 1, 0x61, 1]" "resub_wire 1 (?hs ! 1) = [0x82, 6, 0, 1, 0, 1, 0x62, 2]"
    by (simp_all add: resub_wire_def cstring_of_def MQTTString_initializer_def mqtt_text_def enc_str_def h n e)
  obtain c' p' as where r: "mqtt_try_resubscribe ?c demo_platform = Some (KAWAII_MQTT_SUCCESS_ERROR, c', p')"
      "wire p' = wire demo_platform @ concat (map2 resub_wire [65534, 1] (mqtt_msg_handler_list ?c))"
      "mqtt_ack_handler_list c' = mqtt_ack_handler_list ?c @ as"
      "map (\<lambda>a. (ack_type a, ack_packet_id a, ack_handler a)) as = map2 (\<lambda>i h. (SUBACK, i, Some h)) [65534, 1] (mqtt_msg_handler_list ?c)"
    using resubscribe_requests_all [OF _ fits _ acc _ _ _ ids] by (auto simp: demo_client_def sample_client_def)
  have "map ack_packet_id as = map (fst \<circ> snd) (map (\<lambda>a. (ack_type a, ack_packet_id a, ack_handler a)) as)" by simp
  also have "\<dots> = [65534, 1]" unfolding r(4) by simp
  finally have i: "map ack_packet_id as = [65534, 1]" .
  have wire: "wire p' = [0x82, 6, 0xff, 0xfe, 0, 1, 0x61, 1, 0x82, 6, 0, 1, 0, 1, 0x62, 2]"
    unfolding r(2) using w by (simp add: demo_platform_def)
  have l: "mqtt_ack_handler_list c' = as" unfolding r(3) by (simp add: demo_client_def sample_client_def)
  show ?thesis by (intro exI conjI, rule refl) (rule r(1) wire l i)+
qed

end
