(* ===== verification/SmallMem.thy ===== *)
theory SmallMem
  imports Prelude
begin

text \<open>
  The system heap (\<^verbatim>\<open>rt-thread/src/mem.c\<close>, the small memory algorithm): a region tiled by blocks, each
  with a header that holds the offsets of the next and the previous block. An address is its offset
  from the beginning of the heap. Differences of offsets are taken in 32-bit unsigned arithmetic by
  the code; here they are partial, and the theorems show that they never are negative. The theorems
  show that the blocks always tile the heap with no two free blocks adjacent, that allocation is first
  fit and hands out disjoint blocks, and that freeing everything restores a single free block.
\<close>

section \<open>Operations\<close>

text \<open>
  The pool pointer of a header: 0, or the heap object with the lowest bit telling whether the block is
  used.
\<close>

datatype pool_mark = POOL_NULL | MEM_FREED | MEM_USED

record rt_small_mem_item =
  pool_ptr :: pool_mark
  item_next :: nat
  item_prev :: nat

record rt_small_mem =
  heap_items :: "nat \<Rightarrow> rt_small_mem_item"
  heap_end :: nat
  lfree :: nat
  mem_size_aligned :: nat
  mem_used :: int
  mem_max :: int
  heap_bytes :: "nat \<Rightarrow> u8"

definition SIZEOF_STRUCT_MEM :: nat where "SIZEOF_STRUCT_MEM = 12"
definition MIN_SIZE_ALIGNED :: nat where "MIN_SIZE_ALIGNED = 12"
definition MIN_SIZE :: nat where "MIN_SIZE = 12"

definition RT_ALIGN4 :: "u32 \<Rightarrow> u32" where
  "RT_ALIGN4 sz = (sz + 3) AND NOT 3"

definition MEM_ISUSED :: "rt_small_mem \<Rightarrow> nat \<Rightarrow> bool" where
  "MEM_ISUSED m p \<longleftrightarrow> pool_ptr (heap_items m p) = MEM_USED"

definition upd_item :: "nat \<Rightarrow> (rt_small_mem_item \<Rightarrow> rt_small_mem_item) \<Rightarrow> rt_small_mem \<Rightarrow> rt_small_mem" where
  "upd_item p f m = m\<lparr>heap_items := (heap_items m)(p := f (heap_items m p))\<rparr>"

text \<open>The difference of two offsets.\<close>

definition minus_offset :: "nat \<Rightarrow> nat \<Rightarrow> nat option" where
  "minus_offset a b = (if b \<le> a then Some (a - b) else None)"

definition plug_forward :: "nat \<Rightarrow> rt_small_mem \<Rightarrow> rt_small_mem" where
  "plug_forward mem m =
     (let nmem = item_next (heap_items m mem)
      in if mem \<noteq> nmem \<and> \<not> MEM_ISUSED m nmem \<and> nmem \<noteq> heap_end m then
           let m1 = (if lfree m = nmem then m\<lparr>lfree := mem\<rparr> else m);
               m2 = upd_item nmem (\<lambda>i. i\<lparr>pool_ptr := POOL_NULL\<rparr>) m1;
               nn = item_next (heap_items m2 nmem);
               m3 = upd_item mem (\<lambda>i. i\<lparr>item_next := nn\<rparr>) m2
           in upd_item nn (\<lambda>i. i\<lparr>item_prev := mem\<rparr>) m3
         else m)"

definition plug_backward :: "nat \<Rightarrow> rt_small_mem \<Rightarrow> rt_small_mem" where
  "plug_backward mem m =
     (let pmem = item_prev (heap_items m mem)
      in if pmem \<noteq> mem \<and> \<not> MEM_ISUSED m pmem then
           let m1 = (if lfree m = mem then m\<lparr>lfree := pmem\<rparr> else m);
               m2 = upd_item mem (\<lambda>i. i\<lparr>pool_ptr := POOL_NULL\<rparr>) m1;
               nn = item_next (heap_items m2 mem);
               m3 = upd_item pmem (\<lambda>i. i\<lparr>item_next := nn\<rparr>) m2
           in upd_item nn (\<lambda>i. i\<lparr>item_prev := pmem\<rparr>) m3
         else m)"

definition plug_holes :: "nat \<Rightarrow> rt_small_mem \<Rightarrow> rt_small_mem option" where
  "plug_holes mem m = (if mem < heap_end m then Some (plug_backward mem (plug_forward mem m)) else None)"

text \<open>
  Initialisation: the object itself, of \<open>objsize\<close> bytes, lies at the beginning of the memory. The memory
  contents before are arbitrary.
\<close>

definition rt_smem_init :: "u32 \<Rightarrow> u32 \<Rightarrow> u32 \<Rightarrow> rt_small_mem \<Rightarrow> rt_small_mem option" where
  "rt_smem_init objsize begin_addr sz m0 =
     (let small_mem = RT_ALIGN4 begin_addr;
          start_addr = small_mem + objsize;
          begin_align = RT_ALIGN4 start_addr;
          end_align = (begin_addr + sz) AND NOT 3
      in if end_align > 24 \<and> end_align - 24 \<ge> start_addr then
           let mem_size = unat (end_align - begin_align - 24);
               e = mem_size + SIZEOF_STRUCT_MEM;
               m1 = m0\<lparr>mem_size_aligned := mem_size, mem_used := 0, mem_max := 0, heap_end := e, lfree := 0\<rparr>;
               m2 = upd_item 0 (\<lambda>i. \<lparr>pool_ptr = MEM_FREED, item_next = e, item_prev = 0\<rparr>) m1
           in Some (upd_item e (\<lambda>i. \<lparr>pool_ptr = MEM_USED, item_next = e, item_prev = e\<rparr>) m2)
         else None)"

text \<open>Advancing the lowest free block.\<close>

partial_function (option) lfree_loop :: "rt_small_mem \<Rightarrow> rt_small_mem option" where
  "lfree_loop m =
     (if MEM_ISUSED m (lfree m) \<and> lfree m \<noteq> heap_end m
      then lfree_loop (m\<lparr>lfree := item_next (heap_items m (lfree m))\<rparr>)
      else Some m)"

definition count_used :: "nat \<Rightarrow> rt_small_mem \<Rightarrow> rt_small_mem" where
  "count_used n m =
     (let u = mem_used m + int n in m\<lparr>mem_used := u, mem_max := (if mem_max m < u then u else mem_max m)\<rparr>)"

text \<open>Splitting the block at \<open>ptr\<close>, whose user part has \<open>room\<close> bytes, when \<open>sz\<close> bytes leave enough for another, and marking it used.\<close>

definition take_block :: "nat \<Rightarrow> nat \<Rightarrow> nat \<Rightarrow> rt_small_mem \<Rightarrow> rt_small_mem" where
  "take_block ptr room sz m =
     (let m1 = (if room \<ge> sz + SIZEOF_STRUCT_MEM + MIN_SIZE_ALIGNED then
                  let ptr2 = ptr + SIZEOF_STRUCT_MEM + sz;
                      nn = item_next (heap_items m ptr);
                      m2 = upd_item ptr2 (\<lambda>i. i\<lparr>pool_ptr := MEM_FREED, item_next := nn, item_prev := ptr\<rparr>) m;
                      m3 = upd_item ptr (\<lambda>i. i\<lparr>item_next := ptr2\<rparr>) m2;
                      m4 = (if nn \<noteq> mem_size_aligned m3 + SIZEOF_STRUCT_MEM
                            then upd_item nn (\<lambda>i. i\<lparr>item_prev := ptr2\<rparr>) m3 else m3)
                  in count_used (sz + SIZEOF_STRUCT_MEM) m4
                else count_used (room + SIZEOF_STRUCT_MEM) m)
      in upd_item ptr (\<lambda>i. i\<lparr>pool_ptr := MEM_USED\<rparr>) m1)"

definition alloc_block :: "nat \<Rightarrow> nat \<Rightarrow> nat \<Rightarrow> rt_small_mem \<Rightarrow> (nat option \<times> rt_small_mem) option" where
  "alloc_block ptr room sz m =
     (let m5 = take_block ptr room sz m
      in do { m6 \<leftarrow> (if ptr = lfree m5 then
                       do { m6 \<leftarrow> lfree_loop m5;
                            if lfree m6 = heap_end m6 \<or> \<not> MEM_ISUSED m6 (lfree m6) then Some m6 else None }
                     else Some m5);
              if ptr + SIZEOF_STRUCT_MEM + sz \<le> heap_end m6 \<and> ptr mod 4 = 0
              then Some (Some (ptr + SIZEOF_STRUCT_MEM), m6) else None })"

partial_function (option) alloc_loop :: "nat \<Rightarrow> nat \<Rightarrow> rt_small_mem \<Rightarrow> (nat option \<times> rt_small_mem) option" where
  "alloc_loop sz ptr m =
     (if ptr \<le> mem_size_aligned m - sz then
        (if MEM_ISUSED m ptr then alloc_loop sz (item_next (heap_items m ptr)) m
         else do {
           room \<leftarrow> minus_offset (item_next (heap_items m ptr)) (ptr + SIZEOF_STRUCT_MEM);
           if room \<ge> sz then alloc_block ptr room sz m
           else alloc_loop sz (item_next (heap_items m ptr)) m })
      else Some (None, m))"

definition rt_smem_alloc :: "u32 \<Rightarrow> rt_small_mem \<Rightarrow> (nat option \<times> rt_small_mem) option" where
  "rt_smem_alloc size0 m =
     (if size0 = 0 then Some (None, m)
      else let sz = unat (RT_ALIGN4 size0);
               sz = (if sz < MIN_SIZE_ALIGNED then MIN_SIZE_ALIGNED else sz)
           in if sz > mem_size_aligned m then Some (None, m)
              else alloc_loop sz (lfree m) m)"

text \<open>The assertions stop the code for an address that is not the user part of a used block.\<close>

definition rt_smem_free :: "nat option \<Rightarrow> rt_small_mem \<Rightarrow> rt_small_mem option" where
  "rt_smem_free rmem m =
     (case rmem of
        None \<Rightarrow> Some m
      | Some a \<Rightarrow>
          if a mod 4 = 0 \<and> SIZEOF_STRUCT_MEM \<le> a then
            let mem = a - SIZEOF_STRUCT_MEM
            in if MEM_ISUSED m mem \<and> a < heap_end m \<and>
                  pool_ptr (heap_items m (item_next (heap_items m mem))) \<noteq> POOL_NULL then
                 do { let m1 = upd_item mem (\<lambda>i. i\<lparr>pool_ptr := MEM_FREED\<rparr>) m;
                      let m2 = (if mem < lfree m1 then m1\<lparr>lfree := mem\<rparr> else m1);
                      n \<leftarrow> minus_offset (item_next (heap_items m2 mem)) mem;
                      plug_holes mem (m2\<lparr>mem_used := mem_used m2 - int n\<rparr>) }
               else None
          else None)"

text \<open>Cutting the end off a used block, before its free neighbour is considered.\<close>

definition shrink_block :: "nat \<Rightarrow> nat \<Rightarrow> nat \<Rightarrow> rt_small_mem \<Rightarrow> rt_small_mem" where
  "shrink_block ptr sz newsize m =
     (let ptr2 = ptr + SIZEOF_STRUCT_MEM + newsize;
          nn = item_next (heap_items m ptr);
          m1 = upd_item ptr2 (\<lambda>i. i\<lparr>pool_ptr := MEM_FREED, item_next := nn, item_prev := ptr\<rparr>)
                 (m\<lparr>mem_used := mem_used m - int (sz - newsize)\<rparr>);
          m2 = upd_item ptr (\<lambda>i. i\<lparr>item_next := ptr2\<rparr>) m1;
          m3 = (if nn \<noteq> mem_size_aligned m2 + SIZEOF_STRUCT_MEM
                then upd_item nn (\<lambda>i. i\<lparr>item_prev := ptr2\<rparr>) m2 else m2)
      in if ptr2 < lfree m3 then m3\<lparr>lfree := ptr2\<rparr> else m3)"

definition rt_smem_realloc :: "nat option \<Rightarrow> u32 \<Rightarrow> rt_small_mem \<Rightarrow> (nat option \<times> rt_small_mem) option" where
  "rt_smem_realloc rmem newsize0 m =
     (let newsize = unat (RT_ALIGN4 newsize0)
      in if newsize > mem_size_aligned m then Some (None, m)
         else if newsize = 0 then do { m1 \<leftarrow> rt_smem_free rmem m; Some (None, m1) }
         else case rmem of
           None \<Rightarrow> rt_smem_alloc (RT_ALIGN4 newsize0) m
         | Some a \<Rightarrow>
             if a mod 4 = 0 \<and> SIZEOF_STRUCT_MEM \<le> a \<and> a < heap_end m then do {
               let ptr = a - SIZEOF_STRUCT_MEM;
               sz \<leftarrow> minus_offset (item_next (heap_items m ptr)) (ptr + SIZEOF_STRUCT_MEM);
               if sz = newsize then Some (Some a, m)
               else if newsize + SIZEOF_STRUCT_MEM + MIN_SIZE < sz then do {
                 m5 \<leftarrow> plug_holes (ptr + SIZEOF_STRUCT_MEM + newsize) (shrink_block ptr sz newsize m);
                 Some (Some a, m5) }
               else do {
                 (nmem, m1) \<leftarrow> rt_smem_alloc (RT_ALIGN4 newsize0) m;
                 case nmem of
                   None \<Rightarrow> Some (None, m1)
                 | Some b \<Rightarrow> do {
                     let n = (if sz < newsize then sz else newsize);
                     let m2 = m1\<lparr>heap_bytes := (\<lambda>x. if b \<le> x \<and> x < b + n then heap_bytes m1 (x - b + a) else heap_bytes m1 x)\<rparr>;
                     m3 \<leftarrow> rt_smem_free (Some a) m2;
                     Some (Some b, m3) } } }
             else None)"

section \<open>Tilings\<close>

text \<open>
  A heap is represented by the list of its blocks: the size with the header, and whether the block is
  used. \<open>tiles it p a segs e\<close> says that the headers from \<open>a\<close> on, whose predecessor is at \<open>p\<close>, describe the
  blocks \<open>segs\<close> and end at \<open>e\<close>.
\<close>

type_synonym seg = "nat \<times> bool"

fun tiles :: "(nat \<Rightarrow> rt_small_mem_item) \<Rightarrow> nat \<Rightarrow> nat \<Rightarrow> seg list \<Rightarrow> nat \<Rightarrow> bool" where
  "tiles it p a [] e \<longleftrightarrow> a = e"
| "tiles it p a ((n, u) # ss) e \<longleftrightarrow>
     it a = \<lparr>pool_ptr = (if u then MEM_USED else MEM_FREED), item_next = a + n, item_prev = p\<rparr> \<and>
     SIZEOF_STRUCT_MEM \<le> n \<and> 4 dvd n \<and> (u \<longrightarrow> SIZEOF_STRUCT_MEM < n) \<and> tiles it a (a + n) ss e"

definition span :: "seg list \<Rightarrow> nat" where
  "span ss = sum_list (map fst ss)"

fun last_off :: "nat \<Rightarrow> nat \<Rightarrow> seg list \<Rightarrow> nat" where
  "last_off p a [] = p"
| "last_off p a ((n, u) # ss) = last_off a (a + n) ss"

fun first_free :: "nat \<Rightarrow> seg list \<Rightarrow> nat" where
  "first_free a [] = a"
| "first_free a ((n, u) # ss) = (if u then first_free (a + n) ss else a)"

fun coalesced :: "seg list \<Rightarrow> bool" where
  "coalesced ((n, u) # (k, v) # ss) \<longleftrightarrow> (u \<or> v) \<and> coalesced ((k, v) # ss)"
| "coalesced _ \<longleftrightarrow> True"

definition used_bytes :: "seg list \<Rightarrow> int" where
  "used_bytes ss = (\<Sum>(n, u) \<leftarrow> ss. if u then int n else 0)"

text \<open>The live blocks: address and size of their user parts.\<close>

fun live :: "nat \<Rightarrow> seg list \<Rightarrow> (nat \<times> nat) set" where
  "live a [] = {}"
| "live a ((n, u) # ss) = (if u then {(a + SIZEOF_STRUCT_MEM, n - SIZEOF_STRUCT_MEM)} else {}) \<union> live (a + n) ss"

text \<open>
  The headers describe the blocks, the end of the heap is marked used, the lowest free block and the
  number of used bytes are right. All offsets and their sums with two headers fit 32 bits.
\<close>

definition heap_rep :: "rt_small_mem \<Rightarrow> seg list \<Rightarrow> bool" where
  "heap_rep m ss \<longleftrightarrow>
     heap_end m = mem_size_aligned m + SIZEOF_STRUCT_MEM \<and> heap_end m + SIZEOF_STRUCT_MEM < 2 ^ 32 \<and>
     tiles (heap_items m) 0 0 ss (heap_end m) \<and> pool_ptr (heap_items m (heap_end m)) = MEM_USED \<and>
     lfree m = first_free 0 ss \<and> mem_used m = used_bytes ss"

definition heap_inv :: "rt_small_mem \<Rightarrow> seg list \<Rightarrow> bool" where
  "heap_inv m ss \<longleftrightarrow> heap_rep m ss \<and> coalesced ss"

named_theorems heap_simps "facts about tilings"

lemma span_simps [heap_simps, simp]:
  "span [] = 0" "span (s # ss) = fst s + span ss" "span (xs @ ys) = span xs + span ys"
  by (simp_all add: span_def)

lemma used_bytes_simps [heap_simps, simp]:
  "used_bytes [] = 0" "used_bytes ((n, u) # ss) = (if u then int n else 0) + used_bytes ss"
  "used_bytes (xs @ ys) = used_bytes xs + used_bytes ys"
  by (simp_all add: used_bytes_def)

lemma tiles_end: "tiles it p a ss e \<Longrightarrow> e = a + span ss"
  by (induction ss arbitrary: p a) (auto, (metis add.assoc)+)

lemma tiles_append [heap_simps]:
  "tiles it p a (xs @ ys) e \<longleftrightarrow>
     tiles it p a xs (a + span xs) \<and> tiles it (last_off p a xs) (a + span xs) ys e"
  by (induction xs arbitrary: p a) (auto simp: add.assoc)

lemma tiles_upd [heap_simps]:
  assumes "x < a \<or> e \<le> x"
  shows "tiles (it(x := v)) p a ss e \<longleftrightarrow> tiles it p a ss e"
proof (cases "e = a + span ss")
  case True
  then show ?thesis using assms
    by (induction ss arbitrary: p a) (auto simp: SIZEOF_STRUCT_MEM_def)
next
  case False
  then show ?thesis using tiles_end by blast
qed

lemma tiles_set_prev:
  assumes "tiles it p a ss e"
  shows "tiles (it(a := (it a)\<lparr>item_prev := q\<rparr>)) q a ss e"
  using assms by (cases ss) (auto simp: tiles_upd SIZEOF_STRUCT_MEM_def)

lemma last_off_snoc [heap_simps, simp]: "last_off p a (xs @ [(n, u)]) = a + span xs"
  by (induction xs arbitrary: p a) auto

lemma first_free_append [heap_simps]:
  "first_free a (xs @ ys) = (if \<exists>n. (n, False) \<in> set xs then first_free a xs else first_free (a + span xs) ys)"
  by (induction xs arbitrary: a) (auto simp: add.assoc)

lemma first_free_le: "first_free a ss \<le> a + span ss"
  by (induction ss arbitrary: a) (auto simp: add.assoc, metis add.assoc)

lemma first_free_ge: "a \<le> first_free a ss"
  by (induction ss arbitrary: a) (auto, metis add_leD1)

lemma first_free_used: "\<forall>n. (n, False) \<notin> set ss \<Longrightarrow> first_free a ss = a + span ss"
  by (induction ss arbitrary: a) (auto simp: add.assoc)

lemma live_append [heap_simps, simp]: "live a (xs @ ys) = live a xs \<union> live (a + span xs) ys"
  by (induction xs arbitrary: a) (auto simp: add.assoc)

lemma live_range: "(b, n) \<in> live a ss \<Longrightarrow> a \<le> b \<and> b + n \<le> a + span ss + SIZEOF_STRUCT_MEM"
  by (induction ss arbitrary: a) (auto split: if_splits, fastforce+)

text \<open>Marking, splitting and joining blocks on the headers.\<close>

lemma tiles_at:
  assumes "tiles it p 0 (pre @ (n, u) # post) e"
  shows "it (span pre) = \<lparr>pool_ptr = (if u then MEM_USED else MEM_FREED), item_next = span pre + n,
           item_prev = last_off p 0 pre\<rparr>"
    and "SIZEOF_STRUCT_MEM \<le> n" and "4 dvd n" and "span pre + n \<le> e"
    and "span pre + n = e \<longleftrightarrow> post = []" and "u \<longrightarrow> SIZEOF_STRUCT_MEM < n"
proof -
  have t: "tiles it (span pre) (span pre + n) post e" using assms by (simp add: tiles_append)
  show "span pre + n \<le> e" using tiles_end [OF t] by simp
  show "span pre + n = e \<longleftrightarrow> post = []"
    using t tiles_end [OF t] by (cases post) (auto simp: SIZEOF_STRUCT_MEM_def)
qed (use assms in \<open>auto simp: tiles_append\<close>)

lemma tiles_mark:
  assumes "tiles it p 0 (pre @ (n, u) # post) e" and "w \<longrightarrow> SIZEOF_STRUCT_MEM < n"
  shows "tiles (it(span pre := (it (span pre))\<lparr>pool_ptr := (if w then MEM_USED else MEM_FREED)\<rparr>)) p 0
           (pre @ (n, w) # post) e"
  using assms by (auto simp: tiles_append tiles_upd SIZEOF_STRUCT_MEM_def)

lemma tiles_join:
  assumes t: "tiles it p 0 (pre @ (n, u) # (k, v) # post) e"
  shows "tiles (it(span pre + n := x, span pre := (it (span pre))\<lparr>item_next := span pre + n + k\<rparr>,
              span pre + n + k := (it (span pre + n + k))\<lparr>item_prev := span pre\<rparr>)) p 0
           (pre @ (n + k, u) # post) e"
proof -
  let ?a = "span pre"
  have pos: "0 < n" "0 < k" using t by (auto simp: tiles_append SIZEOF_STRUCT_MEM_def)
  have "tiles it (?a + n) (?a + n + k) post e" using t by (simp add: tiles_append)
  from tiles_set_prev [OF this, of ?a] pos
  have "tiles ((it(?a + n + k := (it (?a + n + k))\<lparr>item_prev := ?a\<rparr>))
          (?a + n := x, ?a := (it ?a)\<lparr>item_next := ?a + n + k\<rparr>)) ?a (?a + n + k) post e"
    by (simp add: tiles_upd)
  then show ?thesis using t pos by (simp add: tiles_append tiles_upd fun_upd_twist add.assoc)
qed

lemma tiles_split:
  assumes t: "tiles it p 0 (pre @ (n, u) # post) e"
    and k: "SIZEOF_STRUCT_MEM \<le> k" "k + SIZEOF_STRUCT_MEM \<le> n" "4 dvd k" "u \<longrightarrow> SIZEOF_STRUCT_MEM < k"
    and it1: "it1 = it(span pre + k := \<lparr>pool_ptr = MEM_FREED, item_next = span pre + n, item_prev = span pre\<rparr>,
                     span pre := (it (span pre))\<lparr>item_next := span pre + k\<rparr>)"
  shows "tiles (if span pre + n \<noteq> e then it1(span pre + n := (it1 (span pre + n))\<lparr>item_prev := span pre + k\<rparr>) else it1)
           p 0 (pre @ (k, u) # (n - k, False) # post) e"
proof -
  let ?a = "span pre"
  let ?it2 = "if ?a + n \<noteq> e then it1(?a + n := (it1 (?a + n))\<lparr>item_prev := ?a + k\<rparr>) else it1"
  have pos: "0 < k" "k < n" using k by (auto simp: SIZEOF_STRUCT_MEM_def)
  have "tiles it1 ?a (?a + n) post e" using t pos unfolding it1 by (simp add: tiles_append tiles_upd)
  then have post: "tiles ?it2 (?a + k) (?a + n) post e"
    using tiles_set_prev [of it1] tiles_at(5) [OF t] by auto
  have "tiles it1 p 0 pre ?a" using t unfolding it1 by (simp add: tiles_append tiles_upd)
  then have pre: "tiles ?it2 p 0 pre ?a" by (simp add: tiles_upd)
  have "?it2 ?a = \<lparr>pool_ptr = (if u then MEM_USED else MEM_FREED), item_next = ?a + k, item_prev = last_off p 0 pre\<rparr>"
    "?it2 (?a + k) = \<lparr>pool_ptr = MEM_FREED, item_next = ?a + n, item_prev = ?a\<rparr>"
    using pos tiles_at(1) [OF t] unfolding it1 by simp_all
  moreover have "4 dvd n - k" using tiles_at(3) [OF t] k by simp
  ultimately show ?thesis using pre post k pos by (simp add: tiles_append)
qed

section \<open>Merging free neighbours\<close>

fun merge_next :: "nat \<Rightarrow> seg list \<Rightarrow> seg list" where
  "merge_next n ((k, False) # ss) = (n + k, False) # ss"
| "merge_next n ss = (n, False) # ss"

lemma upd_item_sel [simp]:
  "heap_items (upd_item p f m) = (heap_items m)(p := f (heap_items m p))"
  "heap_end (upd_item p f m) = heap_end m" "lfree (upd_item p f m) = lfree m"
  "mem_size_aligned (upd_item p f m) = mem_size_aligned m" "mem_used (upd_item p f m) = mem_used m"
  "mem_max (upd_item p f m) = mem_max m" "heap_bytes (upd_item p f m) = heap_bytes m"
  by (simp_all add: upd_item_def)

lemma first_free_before:
  assumes "0 < n"
  shows "first_free 0 (pre @ (n, False) # post) < span pre + n"
  using assms first_free_le [of 0 pre] by (auto simp: first_free_append)

lemma first_free_join: "first_free 0 (pre @ (n, False) # (k, False) # post) = first_free 0 (pre @ (n + k, False) # post)"
  by (simp add: first_free_append)

text \<open>Joining the free blocks at \<open>span pre\<close> and \<open>span pre + n\<close> keeps the representation.\<close>

lemma heap_rep_join:
  assumes r: "heap_rep m (pre @ (n, False) # (k, False) # post)" and ne: "x = lfree m"
  shows "heap_rep (upd_item (span pre + n + k) (\<lambda>i. i\<lparr>item_prev := span pre\<rparr>)
           (upd_item (span pre) (\<lambda>i. i\<lparr>item_next := span pre + n + k\<rparr>)
             (upd_item (span pre + n) (\<lambda>i. i\<lparr>pool_ptr := POOL_NULL\<rparr>) (m\<lparr>lfree := x\<rparr>)))) (pre @ (n + k, False) # post)"
proof -
  have t: "tiles (heap_items m) 0 0 (pre @ (n, False) # (k, False) # post) (heap_end m)"
    using r unfolding heap_rep_def by blast
  have pos: "0 < n" "0 < k" using t by (auto simp: tiles_append SIZEOF_STRUCT_MEM_def)
  have le: "span pre + n + k \<le> heap_end m" using tiles_at(4) [of _ _ "pre @ [(n, False)]"] t by simp
  show ?thesis
    using r ne tiles_join [OF t, of "(heap_items m (span pre + n))\<lparr>pool_ptr := POOL_NULL\<rparr>"] pos le
    by (auto simp: heap_rep_def first_free_join)
qed

lemma plug_forward_rep:
  assumes r: "heap_rep m (pre @ (n, False) # post)"
  shows "heap_rep (plug_forward (span pre) m) (pre @ merge_next n post)"
proof -
  have t: "tiles (heap_items m) 0 0 (pre @ (n, False) # post) (heap_end m)"
    and l: "lfree m = first_free 0 (pre @ (n, False) # post)" using r unfolding heap_rep_def by blast+
  note at = tiles_at [OF t]
  have pos: "0 < n" using at(2) by (simp add: SIZEOF_STRUCT_MEM_def)
  consider "post = []" | k ss where "post = (k, True) # ss" | k ss where "post = (k, False) # ss"
    by (metis (full_types) neq_Nil_conv surj_pair)
  then show ?thesis
  proof cases
    case 1
    then show ?thesis using r at pos by (simp add: plug_forward_def)
  next
    case (2 k ss)
    then have "pool_ptr (heap_items m (span pre + n)) = MEM_USED"
      using tiles_at(1) [of "heap_items m" 0 "pre @ [(n, False)]" k True ss] t by simp
    then show ?thesis using r 2 at(1) by (simp add: plug_forward_def MEM_ISUSED_def)
  next
    case (3 k ss)
    let ?p = "pre @ [(n, False)]"
    have t2: "tiles (heap_items m) 0 0 (?p @ (k, False) # ss) (heap_end m)" using t 3 by simp
    have a2: "heap_items m (span pre + n) = \<lparr>pool_ptr = MEM_FREED, item_next = span pre + n + k, item_prev = span pre\<rparr>"
      using tiles_at(1) [OF t2] by simp
    have "span pre + n \<noteq> heap_end m" using at(5) 3 by simp
    moreover have "lfree m \<noteq> span pre + n" using first_free_before [OF pos, of pre post] l by simp
    ultimately show ?thesis
      using heap_rep_join [OF r [unfolded 3] refl] 3 at(1) a2 pos
      by (simp add: plug_forward_def MEM_ISUSED_def Let_def)
  qed
qed

lemma plug_backward_keep:
  assumes r: "heap_rep m (pre @ (n, False) # post)" and p: "pre = [] \<or> snd (last pre)"
  shows "plug_backward (span pre) m = m"
proof -
  have t: "tiles (heap_items m) 0 0 (pre @ (n, False) # post) (heap_end m)"
    using r unfolding heap_rep_def by blast
  show ?thesis
  proof (cases "pre = []")
    case True
    then show ?thesis using tiles_at(1) [OF t] by (simp add: plug_backward_def)
  next
    case False
    then obtain xs k where pre: "pre = xs @ [(k, True)]" using p by (metis append_butlast_last_id prod.collapse)
    then have "pool_ptr (heap_items m (span xs)) = MEM_USED"
      using tiles_at(1) [of "heap_items m" 0 xs k True "(n, False) # post"] t by simp
    then show ?thesis using tiles_at(1) [OF t] pre by (simp add: plug_backward_def MEM_ISUSED_def)
  qed
qed

lemma plug_backward_rep:
  assumes r: "heap_rep m (xs @ (k, False) # (n, False) # post)"
  shows "heap_rep (plug_backward (span xs + k) m) (xs @ (k + n, False) # post)"
proof -
  have t: "tiles (heap_items m) 0 0 (xs @ (k, False) # (n, False) # post) (heap_end m)"
    and l: "lfree m = first_free 0 (xs @ (k, False) # (n, False) # post)" using r unfolding heap_rep_def by blast+
  have t2: "tiles (heap_items m) 0 0 ((xs @ [(k, False)]) @ (n, False) # post) (heap_end m)" using t by simp
  have pos: "0 < k" using tiles_at(2) [OF t] by (simp add: SIZEOF_STRUCT_MEM_def)
  have "heap_items m (span xs + k) = \<lparr>pool_ptr = MEM_FREED, item_next = span xs + k + n, item_prev = span xs\<rparr>"
    using tiles_at(1) [OF t2] by simp
  moreover have "lfree m \<noteq> span xs + k" using first_free_before [OF pos, of xs "(n, False) # post"] l by simp
  ultimately show ?thesis using heap_rep_join [OF r refl] tiles_at(1) [OF t] pos
    by (simp add: plug_backward_def MEM_ISUSED_def Let_def)
qed

lemma coalesced_Cons: "coalesced (x # ys) \<longleftrightarrow> coalesced ys \<and> (ys = [] \<or> snd x \<or> snd (hd ys))"
  by (cases x; cases ys) auto

lemma coalesced_append:
  "coalesced (xs @ ys) \<longleftrightarrow> coalesced xs \<and> coalesced ys \<and> (xs = [] \<or> ys = [] \<or> snd (last xs) \<or> snd (hd ys))"
  by (induction xs) (auto simp: coalesced_Cons)

lemma merge_next_shape:
  assumes "coalesced post"
  shows "\<exists>n' post'. merge_next n post = (n', False) # post' \<and> coalesced ((n', False) # post') \<and>
           n' + span post' = n + span post \<and> live (a + n') post' = live (a + n) post"
proof (cases "(n, post)" rule: merge_next.cases)
  case (1 n' k ss)
  then show ?thesis using assms by (cases ss) (auto simp: add.assoc)
qed (use assms in auto)

lemma plug_keeps [simp]:
  "heap_end (plug_forward p m) = heap_end m" "heap_end (plug_backward p m) = heap_end m"
  "heap_bytes (plug_forward p m) = heap_bytes m" "heap_bytes (plug_backward p m) = heap_bytes m"
  "mem_size_aligned (plug_forward p m) = mem_size_aligned m"
  "mem_size_aligned (plug_backward p m) = mem_size_aligned m"
  by (simp_all add: plug_forward_def plug_backward_def Let_def)

text \<open>
  \<open>plug_holes\<close> restores the invariant after a block was freed: the live blocks and the contents stay.
\<close>

definition same_heap :: "rt_small_mem \<Rightarrow> rt_small_mem \<Rightarrow> bool" where
  "same_heap m m' \<longleftrightarrow> heap_end m' = heap_end m \<and> mem_size_aligned m' = mem_size_aligned m"

lemma plug_holes_inv:
  assumes r: "heap_rep m (pre @ (n, False) # post)" and c: "coalesced pre" "coalesced post"
  shows "\<exists>m' ss. plug_holes (span pre) m = Some m' \<and> heap_inv m' ss \<and>
           live 0 ss = live 0 (pre @ (n, False) # post) \<and> same_heap m m' \<and> heap_bytes m' = heap_bytes m"
proof -
  obtain n' post' where mn: "merge_next n post = (n', False) # post'" "coalesced ((n', False) # post')"
    "live (span pre + n') post' = live (span pre + n) post"
    using merge_next_shape [OF c(2)] by metis
  let ?m1 = "plug_forward (span pre) m"
  have r1: "heap_rep ?m1 (pre @ (n', False) # post')" using plug_forward_rep [OF r] mn(1) by simp
  have t: "tiles (heap_items m) 0 0 (pre @ (n, False) # post) (heap_end m)"
    using r unfolding heap_rep_def by blast
  have h: "plug_holes (span pre) m = Some (plug_backward (span pre) ?m1)"
    using tiles_at(2,4) [OF t] by (simp add: plug_holes_def SIZEOF_STRUCT_MEM_def)
  show ?thesis
  proof (cases "pre = [] \<or> snd (last pre)")
    case True
    then have "heap_inv ?m1 (pre @ (n', False) # post')"
      using r1 c mn(2) by (auto simp: heap_inv_def coalesced_append)
    then show ?thesis
      using h plug_backward_keep [OF r1 True] mn(3) by (intro exI conjI) (assumption | simp add: same_heap_def)+
  next
    case False
    then obtain xs k where pre: "pre = xs @ [(k, False)]" by (metis append_butlast_last_id prod.collapse)
    have "heap_rep (plug_backward (span pre) ?m1) (xs @ (k + n', False) # post')"
      using plug_backward_rep [of ?m1 xs k n' post'] r1 pre by simp
    moreover have "coalesced (xs @ (k + n', False) # post')"
      using c(1) mn(2) pre by (cases post') (auto simp: coalesced_append)
    ultimately have "heap_inv (plug_backward (span pre) ?m1) (xs @ (k + n', False) # post')"
      by (simp add: heap_inv_def)
    moreover have "live 0 (xs @ (k + n', False) # post') = live 0 (pre @ (n, False) # post)"
      using mn(3) pre by (simp add: add.assoc)
    ultimately show ?thesis using h by (intro exI conjI) (assumption | simp add: same_heap_def)+
  qed
qed

section \<open>Freeing\<close>

lemma tiles_sizes: "tiles it p a ss e \<Longrightarrow> (n, u) \<in> set ss \<Longrightarrow> SIZEOF_STRUCT_MEM \<le> n \<and> 4 dvd n"
  by (induction ss arbitrary: p a) auto

lemma tiles_span_dvd: "tiles it p a ss e \<Longrightarrow> 4 dvd span ss"
  by (induction ss arbitrary: p a) auto

lemma live_offsets:
  assumes "(b, l) \<in> live a ss" and "\<forall>(n, u) \<in> set ss. SIZEOF_STRUCT_MEM \<le> n"
  shows "a + SIZEOF_STRUCT_MEM \<le> b \<and> b + l \<le> a + span ss"
  using assms by (induction ss arbitrary: a) (fastforce split: if_splits)+

lemma live_at:
  assumes "(b, l) \<in> live a ss" and "\<forall>(n, u) \<in> set ss. SIZEOF_STRUCT_MEM \<le> n"
  shows "\<exists>pre post. ss = pre @ (l + SIZEOF_STRUCT_MEM, True) # post \<and> b = a + span pre + SIZEOF_STRUCT_MEM"
  using assms
proof (induction ss arbitrary: a)
  case (Cons s ss)
  obtain n u where s: "s = (n, u)" by fastforce
  show ?case
  proof (cases "(b, l) \<in> live (a + n) ss")
    case True
    then obtain pre post where "ss = pre @ (l + SIZEOF_STRUCT_MEM, True) # post"
      "b = (a + n) + span pre + SIZEOF_STRUCT_MEM" using Cons.IH [of "a + n"] Cons.prems(2) by auto
    then show ?thesis using s by (intro exI [of _ "s # pre"] exI [of _ post]) simp
  next
    case False
    then show ?thesis using Cons.prems s by (intro exI [of _ "[]"] exI [of _ ss]) (auto split: if_splits)
  qed
qed simp

lemma heap_inv_sizes: "heap_rep m ss \<Longrightarrow> \<forall>(n, u) \<in> set ss. SIZEOF_STRUCT_MEM \<le> n"
  using tiles_sizes by (fastforce simp: heap_rep_def)

lemma live_remove:
  assumes "\<forall>(n, u) \<in> set (pre @ (l + SIZEOF_STRUCT_MEM, True) # post). SIZEOF_STRUCT_MEM \<le> n"
  shows "live 0 (pre @ (l + SIZEOF_STRUCT_MEM, False) # post) =
         live 0 (pre @ (l + SIZEOF_STRUCT_MEM, True) # post) - {(span pre + SIZEOF_STRUCT_MEM, l)}"
proof -
  let ?b = "span pre + SIZEOF_STRUCT_MEM"
  have "(?b, l) \<notin> live 0 pre" using live_offsets [of ?b l 0 pre] assms by (auto simp: SIZEOF_STRUCT_MEM_def)
  moreover have "(?b, l) \<notin> live (span pre + (l + SIZEOF_STRUCT_MEM)) post"
    using live_offsets [of ?b l "span pre + (l + SIZEOF_STRUCT_MEM)" post] assms
    by (auto simp: SIZEOF_STRUCT_MEM_def)
  ultimately show ?thesis by auto
qed

lemma first_free_release:
  assumes "0 < n"
  shows "first_free 0 (pre @ (n, False) # post) =
         (if span pre < first_free 0 (pre @ (n, True) # post) then span pre else first_free 0 (pre @ (n, True) # post))"
  using assms first_free_le [of 0 pre] first_free_ge [of "span pre + n" post]
  by (auto simp: first_free_append)

text \<open>Marking a live block free, before its neighbours are considered.\<close>

lemma heap_rep_release:
  assumes r: "heap_rep m (pre @ (n, True) # post)"
  shows "heap_rep (let m1 = upd_item (span pre) (\<lambda>i. i\<lparr>pool_ptr := MEM_FREED\<rparr>) m;
                       m2 = (if span pre < lfree m1 then m1\<lparr>lfree := span pre\<rparr> else m1)
                   in m2\<lparr>mem_used := mem_used m2 - int n\<rparr>) (pre @ (n, False) # post)"
proof -
  have t: "tiles (heap_items m) 0 0 (pre @ (n, True) # post) (heap_end m)"
    using r unfolding heap_rep_def by blast
  have pos: "0 < n" using tiles_at(2) [OF t] by (simp add: SIZEOF_STRUCT_MEM_def)
  have "span pre < heap_end m" using tiles_at(4) [OF t] pos by simp
  then show ?thesis using r tiles_mark [OF t, of False] pos
    by (auto simp: heap_rep_def Let_def first_free_release [OF pos])
qed

lemma next_is_pool:
  assumes r: "heap_rep m (pre @ (n, u) # post)"
  shows "pool_ptr (heap_items m (span pre + n)) \<noteq> POOL_NULL"
proof -
  have t: "tiles (heap_items m) 0 0 (pre @ (n, u) # post) (heap_end m)"
    and e: "pool_ptr (heap_items m (heap_end m)) = MEM_USED" using r unfolding heap_rep_def by blast+
  show ?thesis
  proof (cases post)
    case Nil
    then show ?thesis using tiles_at(5) [OF t] e by simp
  next
    case (Cons s ss)
    then show ?thesis using tiles_at(1) [of "heap_items m" 0 "pre @ [(n, u)]" "fst s" "snd s" ss] t by simp
  qed
qed

lemma free_refines:
  assumes i: "heap_inv m ss" and b: "(b, l) \<in> live 0 ss"
  shows "\<exists>m' ss'. rt_smem_free (Some b) m = Some m' \<and> heap_inv m' ss' \<and> live 0 ss' = live 0 ss - {(b, l)} \<and>
           same_heap m m' \<and> heap_bytes m' = heap_bytes m"
proof -
  have r: "heap_rep m ss" and c: "coalesced ss" using i by (auto simp: heap_inv_def)
  obtain pre post where ss: "ss = pre @ (l + SIZEOF_STRUCT_MEM, True) # post" and bp: "b = span pre + SIZEOF_STRUCT_MEM"
    using live_at [OF b heap_inv_sizes [OF r]] by auto
  let ?n = "l + SIZEOF_STRUCT_MEM"
  have t: "tiles (heap_items m) 0 0 (pre @ (?n, True) # post) (heap_end m)"
    using r ss unfolding heap_rep_def by blast
  note at = tiles_at [OF t]
  have d: "4 dvd span pre" using t tiles_span_dvd by (auto simp: tiles_append)
  let ?m2 = "let m1 = upd_item (span pre) (\<lambda>i. i\<lparr>pool_ptr := MEM_FREED\<rparr>) m;
                 m2 = (if span pre < lfree m1 then m1\<lparr>lfree := span pre\<rparr> else m1)
             in m2\<lparr>mem_used := mem_used m2 - int ?n\<rparr>"
  have "b mod 4 = 0" using d bp by (auto simp: SIZEOF_STRUCT_MEM_def)
  moreover have "pool_ptr (heap_items m (span pre + ?n)) \<noteq> POOL_NULL" using next_is_pool r ss by blast
  moreover have "b < heap_end m" using at(4,6) bp by simp
  ultimately have f: "rt_smem_free (Some b) m = plug_holes (span pre) ?m2"
    using at(1) bp by (simp add: rt_smem_free_def MEM_ISUSED_def minus_offset_def Let_def)
  have "coalesced pre" "coalesced post" using c ss by (auto simp: coalesced_append coalesced_Cons)
  from plug_holes_inv [OF heap_rep_release [OF r [unfolded ss]] this]
  obtain m' ss' where "plug_holes (span pre) ?m2 = Some m'" "heap_inv m' ss'"
    "live 0 ss' = live 0 (pre @ (?n, False) # post)" "same_heap ?m2 m'" "heap_bytes m' = heap_bytes ?m2" by blast
  moreover have "same_heap ?m2 m' = same_heap m m'" "heap_bytes ?m2 = heap_bytes m"
    by (simp_all add: same_heap_def Let_def)
  ultimately show ?thesis
    using f live_remove [OF heap_inv_sizes [OF r, unfolded ss]] ss bp by (intro exI conjI) (assumption | simp)+
qed

section \<open>Allocating\<close>

text \<open>First fit, and the blocks that taking \<open>sz\<close> bytes from a free block of \<open>n\<close> bytes leaves.\<close>

fun first_fit :: "nat \<Rightarrow> seg list \<Rightarrow> (seg list \<times> nat \<times> seg list) option" where
  "first_fit sz [] = None"
| "first_fit sz ((n, u) # ss) =
     (if \<not> u \<and> sz + SIZEOF_STRUCT_MEM \<le> n then Some ([], n, ss)
      else map_option (\<lambda>(xs, k, ys). ((n, u) # xs, k, ys)) (first_fit sz ss))"

definition taken :: "nat \<Rightarrow> nat \<Rightarrow> seg list" where
  "taken sz n =
     (if sz + SIZEOF_STRUCT_MEM + (SIZEOF_STRUCT_MEM + MIN_SIZE_ALIGNED) \<le> n
      then [(sz + SIZEOF_STRUCT_MEM, True), (n - (sz + SIZEOF_STRUCT_MEM), False)] else [(n, True)])"

lemma first_fit_Some:
  "first_fit sz ss = Some (xs, n, ys) \<Longrightarrow>
     ss = xs @ (n, False) # ys \<and> sz + SIZEOF_STRUCT_MEM \<le> n \<and>
     (\<forall>k. (k, False) \<in> set xs \<longrightarrow> k < sz + SIZEOF_STRUCT_MEM)"
  by (induction ss arbitrary: xs) (auto split: if_splits)

lemma first_fit_None:
  "first_fit sz ss = None \<longleftrightarrow> (\<forall>k. (k, False) \<in> set ss \<longrightarrow> k < sz + SIZEOF_STRUCT_MEM)"
  by (induction ss) (auto split: if_splits)

lemma first_fit_small: "span ss < sz + SIZEOF_STRUCT_MEM \<Longrightarrow> first_fit sz ss = None"
  by (induction ss) auto

lemma first_free_tile:
  "tiles it p a ss e \<Longrightarrow> first_free a ss = e \<or> pool_ptr (it (first_free a ss)) = MEM_FREED"
  by (induction ss arbitrary: p a) (auto, blast)

text \<open>The search for the next free block ends there.\<close>

lemma lfree_loop_first:
  assumes "tiles (heap_items m) p (lfree m) ss (heap_end m)"
  shows "lfree_loop m = Some (m\<lparr>lfree := first_free (lfree m) ss\<rparr>)"
  using assms
proof (induction ss arbitrary: m p)
  case Nil
  then show ?case by (subst lfree_loop.simps) simp
next
  case (Cons s ss)
  obtain n u where s: "s = (n, u)" by fastforce
  show ?case
  proof (cases u)
    case True
    let ?m = "m\<lparr>lfree := lfree m + n\<rparr>"
    have "lfree m < heap_end m" using Cons.prems s tiles_end [OF Cons.prems] by (simp add: SIZEOF_STRUCT_MEM_def)
    then have "lfree_loop m = lfree_loop ?m" using Cons.prems s True
      by (subst lfree_loop.simps) (simp add: MEM_ISUSED_def)
    moreover have "tiles (heap_items ?m) (lfree m) (lfree ?m) ss (heap_end ?m)" using Cons.prems s by simp
    ultimately show ?thesis using Cons.IH s True by simp
  next
    case False
    then show ?thesis using Cons.prems s by (subst lfree_loop.simps) (simp add: MEM_ISUSED_def)
  qed
qed

lemma heap_rep_span: "heap_rep m ss \<Longrightarrow> span ss = mem_size_aligned m + SIZEOF_STRUCT_MEM"
  unfolding heap_rep_def by (metis tiles_end add_0)

lemma alloc_loop_first_fit:
  assumes "heap_rep m (pre @ post)" and "sz \<le> mem_size_aligned m"
  shows "alloc_loop sz (span pre) m =
    (case first_fit sz post of None \<Rightarrow> Some (None, m)
     | Some (xs, n, ys) \<Rightarrow> alloc_block (span (pre @ xs)) (n - SIZEOF_STRUCT_MEM) sz m)"
  using assms(1)
proof (induction post arbitrary: pre)
  case Nil
  then have "span pre = mem_size_aligned m + SIZEOF_STRUCT_MEM" using heap_rep_span by fastforce
  then have "\<not> span pre \<le> mem_size_aligned m - sz" by (simp add: SIZEOF_STRUCT_MEM_def)
  then show ?case by (subst alloc_loop.simps) simp
next
  case (Cons s ss)
  obtain n u where s: "s = (n, u)" by fastforce
  have t: "tiles (heap_items m) 0 0 (pre @ (n, u) # ss) (heap_end m)"
    using Cons.prems s unfolding heap_rep_def by blast
  have IH: "alloc_loop sz (span pre + n) m = (case first_fit sz ss of None \<Rightarrow> Some (None, m)
     | Some (xs, k, ys) \<Rightarrow> alloc_block (span pre + n + span xs) (k - SIZEOF_STRUCT_MEM) sz m)"
    using Cons.IH [of "pre @ [s]"] Cons.prems s by (simp add: add.assoc split: option.splits)
  show ?case
  proof (cases "span pre \<le> mem_size_aligned m - sz")
    case True
    then show ?thesis using IH tiles_at(1,2) [OF t] s
      by (subst alloc_loop.simps)
        (auto simp: MEM_ISUSED_def minus_offset_def add.assoc split: option.splits)
  next
    case False
    have "span pre + (n + span ss) = mem_size_aligned m + SIZEOF_STRUCT_MEM"
      using heap_rep_span [OF Cons.prems] s by simp
    then have "first_fit sz (s # ss) = None"
      using False s assms(2) by (intro first_fit_small) simp
    then show ?thesis using False by (subst alloc_loop.simps) simp
  qed
qed

lemma count_used_sel [simp]:
  "heap_items (count_used n m) = heap_items m" "heap_end (count_used n m) = heap_end m"
  "lfree (count_used n m) = lfree m" "mem_size_aligned (count_used n m) = mem_size_aligned m"
  "mem_used (count_used n m) = mem_used m + int n" "heap_bytes (count_used n m) = heap_bytes m"
  by (simp_all add: count_used_def Let_def)

lemma take_block_sel [simp]:
  "heap_end (take_block p r sz m) = heap_end m" "lfree (take_block p r sz m) = lfree m"
  "mem_size_aligned (take_block p r sz m) = mem_size_aligned m" "heap_bytes (take_block p r sz m) = heap_bytes m"
  by (simp_all add: take_block_def Let_def)

lemma item_upd_all [simp]:
  "(i :: rt_small_mem_item)\<lparr>pool_ptr := a, item_next := b, item_prev := c\<rparr> =
     \<lparr>pool_ptr = a, item_next = b, item_prev = c\<rparr>"
  by (cases i) simp

lemma take_block_tiles:
  assumes r: "heap_rep m (pre @ (n, False) # post)"
    and sz: "sz + SIZEOF_STRUCT_MEM \<le> n" "0 < sz" "4 dvd sz"
  shows "tiles (heap_items (take_block (span pre) (n - SIZEOF_STRUCT_MEM) sz m)) 0 0 (pre @ taken sz n @ post) (heap_end m)"
    and "mem_used (take_block (span pre) (n - SIZEOF_STRUCT_MEM) sz m) = used_bytes (pre @ taken sz n @ post)"
    and "pool_ptr (heap_items (take_block (span pre) (n - SIZEOF_STRUCT_MEM) sz m) (heap_end m)) = MEM_USED"
proof -
  let ?m = "take_block (span pre) (n - SIZEOF_STRUCT_MEM) sz m"
  let ?k = "sz + SIZEOF_STRUCT_MEM"
  have t: "tiles (heap_items m) 0 0 (pre @ (n, False) # post) (heap_end m)"
    and e: "heap_end m = mem_size_aligned m + SIZEOF_STRUCT_MEM"
    and mu: "mem_used m = used_bytes (pre @ (n, False) # post)"
    and pe: "pool_ptr (heap_items m (heap_end m)) = MEM_USED"
    using r unfolding heap_rep_def by blast+
  note at = tiles_at [OF t]
  show "tiles (heap_items ?m) 0 0 (pre @ taken sz n @ post) (heap_end m)"
  proof (cases "sz + SIZEOF_STRUCT_MEM + (SIZEOF_STRUCT_MEM + MIN_SIZE_ALIGNED) \<le> n")
    case True
    have k: "SIZEOF_STRUCT_MEM \<le> ?k" "?k + SIZEOF_STRUCT_MEM \<le> n" "4 dvd ?k" "False \<longrightarrow> SIZEOF_STRUCT_MEM < ?k"
      using True sz by (auto simp: SIZEOF_STRUCT_MEM_def)
    from tiles_mark [OF tiles_split [OF t k refl], of True] sz(2)
    show ?thesis using True at(1) e sz
      by (auto simp: take_block_def taken_def Let_def ac_simps)
  next
    case False
    then have "\<not> sz + SIZEOF_STRUCT_MEM + MIN_SIZE_ALIGNED \<le> n - SIZEOF_STRUCT_MEM" using sz by linarith
    then show ?thesis using tiles_mark [OF t, of True] sz False
      by (simp add: take_block_def taken_def Let_def)
  qed
  show "mem_used ?m = used_bytes (pre @ taken sz n @ post)"
    using mu sz le_diff_conv2 [of SIZEOF_STRUCT_MEM n] by (simp add: take_block_def taken_def Let_def add.assoc)
  show "pool_ptr (heap_items ?m (heap_end m)) = MEM_USED"
    using pe at(1,2,4) e sz by (auto simp: take_block_def Let_def SIZEOF_STRUCT_MEM_def MIN_SIZE_ALIGNED_def)
qed

lemma taken_simps:
  assumes "sz + SIZEOF_STRUCT_MEM \<le> n"
  shows "span (taken sz n) = n"
    and "live a (taken sz n) =
         {(a + SIZEOF_STRUCT_MEM, if sz + SIZEOF_STRUCT_MEM + (SIZEOF_STRUCT_MEM + MIN_SIZE_ALIGNED) \<le> n
                                  then sz else n - SIZEOF_STRUCT_MEM)}"
  using assms by (auto simp: taken_def)

lemma taken_live:
  assumes "sz + SIZEOF_STRUCT_MEM \<le> n"
  shows "\<exists>k \<ge> sz. k + SIZEOF_STRUCT_MEM \<le> n \<and> k < sz + SIZEOF_STRUCT_MEM + MIN_SIZE_ALIGNED \<and>
           live 0 (pre @ taken sz n @ post) = insert (span pre + SIZEOF_STRUCT_MEM, k) (live 0 (pre @ (n, False) # post))"
proof (cases "sz + SIZEOF_STRUCT_MEM + (SIZEOF_STRUCT_MEM + MIN_SIZE_ALIGNED) \<le> n")
  case True
  then show ?thesis using taken_simps [OF assms] by (intro exI [of _ sz]) (simp add: SIZEOF_STRUCT_MEM_def)
next
  case False
  then show ?thesis using taken_simps [OF assms] assms by (intro exI [of _ "n - SIZEOF_STRUCT_MEM"]) auto
qed

lemma first_free_less:
  assumes "(k, False) \<in> set ss" and "\<forall>(n, u) \<in> set ss. SIZEOF_STRUCT_MEM \<le> n"
  shows "first_free a ss < a + span ss"
  using assms by (induction ss arbitrary: a) (fastforce simp: SIZEOF_STRUCT_MEM_def add.assoc [symmetric])+

lemma alloc_block_rep:
  assumes r: "heap_rep m (pre @ (n, False) # post)"
    and sz: "sz + SIZEOF_STRUCT_MEM \<le> n" "0 < sz" "4 dvd sz"
  shows "\<exists>m'. alloc_block (span pre) (n - SIZEOF_STRUCT_MEM) sz m = Some (Some (span pre + SIZEOF_STRUCT_MEM), m') \<and>
           heap_rep m' (pre @ taken sz n @ post) \<and> same_heap m m' \<and> heap_bytes m' = heap_bytes m"
proof -
  let ?m = "take_block (span pre) (n - SIZEOF_STRUCT_MEM) sz m"
  let ?ss = "pre @ taken sz n @ post"
  note tb = take_block_tiles [OF r sz]
  have t: "tiles (heap_items m) 0 0 (pre @ (n, False) # post) (heap_end m)"
    and l: "lfree m = first_free 0 (pre @ (n, False) # post)" using r unfolding heap_rep_def by blast+
  have s4: "span pre mod 4 = 0" using t tiles_span_dvd by (auto simp: tiles_append)
  have b: "span pre + SIZEOF_STRUCT_MEM + sz \<le> heap_end m" using tiles_at(4) [OF t] sz by simp
  let ?f = "if span pre = lfree ?m then first_free (span pre) (taken sz n @ post) else lfree ?m"
  have tp: "tiles (heap_items ?m) (last_off 0 0 pre) (span pre) (taken sz n @ post) (heap_end ?m)"
    using tb(1) by (simp add: tiles_append [of _ _ _ pre])
  have u: "pool_ptr (heap_items ?m (span pre)) = MEM_USED"
    using tp by (auto simp: taken_def split: if_splits)
  have "alloc_block (span pre) (n - SIZEOF_STRUCT_MEM) sz m =
    Some (Some (span pre + SIZEOF_STRUCT_MEM), ?m\<lparr>lfree := ?f\<rparr>)"
  proof (cases "span pre = lfree ?m")
    case True
    have "lfree_loop ?m = Some (?m\<lparr>lfree := ?f\<rparr>)" using lfree_loop_first [of ?m] tp True by simp
    moreover have "?f = heap_end ?m \<or> pool_ptr (heap_items ?m ?f) = MEM_FREED" using first_free_tile [OF tp] True by simp
    ultimately show ?thesis using True b s4
      by (auto simp: alloc_block_def MEM_ISUSED_def Let_def)
  next
    case False
    then show ?thesis using b s4 by (simp add: alloc_block_def Let_def)
  qed
  moreover have "?f = first_free 0 ?ss"
  proof (cases "\<exists>k. (k, False) \<in> set pre")
    case True
    then have "first_free 0 pre < span pre"
      using first_free_less [of _ pre 0] heap_inv_sizes [OF r] by fastforce
    then show ?thesis using l True by (simp add: first_free_append)
  next
    case False
    then show ?thesis using l by (simp add: first_free_append [of _ pre])
  qed
  then have "heap_rep (?m\<lparr>lfree := ?f\<rparr>) ?ss" using r tb by (simp add: heap_rep_def)
  ultimately show ?thesis by (simp add: same_heap_def)
qed


text \<open>The size that is allocated for a request.\<close>

definition alloc_size :: "u32 \<Rightarrow> nat" where
  "alloc_size s = max MIN_SIZE_ALIGNED (unat (RT_ALIGN4 s))"

lemma alloc_size_props: "0 < alloc_size s" "4 dvd alloc_size s"
  using u32_align4 [of "s + 3"] by (auto simp: alloc_size_def MIN_SIZE_ALIGNED_def RT_ALIGN4_def max_def)

lemma alloc_size_ge:
  assumes "unat s \<le> 2 ^ 32 - 4"
  shows "unat s \<le> alloc_size s"
proof -
  have "unat (s + 3) = unat s + 3" using assms by (simp add: unat_word_ariths)
  then show ?thesis using u32_align4 [of "s + 3"] by (simp add: alloc_size_def RT_ALIGN4_def)
qed

lemma coalesced_taken:
  assumes "coalesced (pre @ (n, False) # post)"
  shows "coalesced (pre @ taken sz n @ post)"
  using assms by (auto simp: taken_def coalesced_append coalesced_Cons)

lemma first_free_split:
  "\<exists>pre post. ss = pre @ post \<and> first_free a ss = a + span pre \<and> (\<forall>k. (k, False) \<notin> set pre)"
proof (induction ss arbitrary: a)
  case (Cons s ss)
  obtain n u where s: "s = (n, u)" by fastforce
  show ?case
  proof (cases u)
    case True
    obtain pre post where "ss = pre @ post" "first_free (a + n) ss = a + n + span pre" "\<forall>k. (k, False) \<notin> set pre"
      using Cons.IH [of "a + n"] by blast
    then show ?thesis using s True by (intro exI [of _ "s # pre"] exI [of _ post]) simp
  next
    case False
    then show ?thesis using s by (intro exI [of _ "[]"] exI [of _ "s # ss"]) simp
  qed
qed simp

lemma first_fit_skip:
  "\<forall>k. (k, False) \<notin> set pre \<Longrightarrow>
     first_fit sz (pre @ post) = map_option (\<lambda>(xs, k, ys). (pre @ xs, k, ys)) (first_fit sz post)"
proof (induction pre)
  case (Cons p pre)
  then show ?case by (cases p) (auto simp: option.map_comp intro!: map_option_cong)
qed (simp add: option.map_ident split_def)

text \<open>Allocation takes the first free block that is large enough, and fails only when there is none.\<close>

lemma alloc_refines:
  assumes i: "heap_inv m ss" and s: "s \<noteq> 0"
  shows "case first_fit (alloc_size s) ss of
           None \<Rightarrow> rt_smem_alloc s m = Some (None, m)
         | Some (pre, n, post) \<Rightarrow>
             \<exists>m'. rt_smem_alloc s m = Some (Some (span pre + SIZEOF_STRUCT_MEM), m') \<and>
               heap_inv m' (pre @ taken (alloc_size s) n @ post) \<and> same_heap m m' \<and> heap_bytes m' = heap_bytes m"
proof -
  let ?sz = "alloc_size s"
  have r: "heap_rep m ss" and c: "coalesced ss" using i by (auto simp: heap_inv_def)
  have a: "rt_smem_alloc s m = (if ?sz > mem_size_aligned m then Some (None, m) else alloc_loop ?sz (lfree m) m)"
    using s by (simp add: rt_smem_alloc_def alloc_size_def Let_def max_def)
  obtain pre post where ss: "ss = pre @ post" and l: "lfree m = span pre" and p: "\<forall>k. (k, False) \<notin> set pre"
    using first_free_split [of ss 0] r by (auto simp: heap_rep_def)
  show ?thesis
  proof (cases "?sz > mem_size_aligned m")
    case True
    then have "first_fit ?sz ss = None" using heap_rep_span [OF r] by (intro first_fit_small) simp
    then show ?thesis using a True by simp
  next
    case False
    then have al: "rt_smem_alloc s m = (case first_fit ?sz post of None \<Rightarrow> Some (None, m)
       | Some (xs, n, ys) \<Rightarrow> alloc_block (span (pre @ xs)) (n - SIZEOF_STRUCT_MEM) ?sz m)"
      using alloc_loop_first_fit [OF r [unfolded ss], of ?sz] a l by simp
    show ?thesis
    proof (cases "first_fit ?sz post")
      case None
      then show ?thesis using al first_fit_skip [OF p, of ?sz post] ss by simp
    next
      case (Some f)
      then obtain xs n ys where f: "first_fit ?sz post = Some (xs, n, ys)" by (cases f) auto
      have sh: "ss = (pre @ xs) @ (n, False) # ys" "?sz + SIZEOF_STRUCT_MEM \<le> n" using first_fit_Some [OF f] ss by auto
      from alloc_block_rep [OF r [unfolded sh(1)] sh(2) alloc_size_props]
      obtain m' where "alloc_block (span (pre @ xs)) (n - SIZEOF_STRUCT_MEM) ?sz m =
          Some (Some (span (pre @ xs) + SIZEOF_STRUCT_MEM), m')"
        "heap_rep m' ((pre @ xs) @ taken ?sz n @ ys)" "same_heap m m'" "heap_bytes m' = heap_bytes m" by blast
      moreover have "coalesced ((pre @ xs) @ taken ?sz n @ ys)" using coalesced_taken c sh(1) by blast
      ultimately show ?thesis using al f first_fit_skip [OF p, of ?sz post] ss by (simp add: heap_inv_def)
    qed
  qed
qed

section \<open>Resizing\<close>

lemma live_disjoint:
  assumes "(b, l) \<in> live a ss" and "(c, k) \<in> live a ss" and "(b, l) \<noteq> (c, k)"
    and "\<forall>(n, u) \<in> set ss. SIZEOF_STRUCT_MEM \<le> n"
  shows "b + l \<le> c \<or> c + k \<le> b"
  using assms
proof (induction ss arbitrary: a)
  case (Cons s ss)
  obtain n u where s: "s = (n, u)" by fastforce
  have sz: "\<forall>(n, u) \<in> set ss. SIZEOF_STRUCT_MEM \<le> n" "SIZEOF_STRUCT_MEM \<le> n" using Cons.prems(4) s by auto
  have far: "a + n + SIZEOF_STRUCT_MEM \<le> x" if "(x, y) \<in> live (a + n) ss" for x y
    using live_offsets [OF that sz(1)] by simp
  show ?case using Cons.IH [of "a + n"] Cons.prems sz far s
    by (auto split: if_splits) (fastforce dest: far)+
qed simp

lemma align_idem: "unat (RT_ALIGN4 (RT_ALIGN4 s)) = unat (RT_ALIGN4 s)"
proof -
  obtain q where q: "unat (RT_ALIGN4 s) = 4 * q" using u32_align4 [of "s + 3"] by (auto simp: RT_ALIGN4_def)
  moreover have "unat (RT_ALIGN4 s) < 2 ^ LENGTH(32)" by (rule unsigned_less)
  ultimately have "unat (RT_ALIGN4 s + 3) = 4 * q + 3" by (simp add: unat_word_ariths)
  then show ?thesis using q u32_align4 [of "RT_ALIGN4 s + 3"] by (simp add: RT_ALIGN4_def [of "RT_ALIGN4 s"])
qed

lemma first_free_shrink:
  assumes "0 < k" "k < n"
  shows "first_free 0 (pre @ (k, True) # (n - k, False) # post) =
         (if span pre + k < first_free 0 (pre @ (n, True) # post) then span pre + k
          else first_free 0 (pre @ (n, True) # post))"
  using assms first_free_le [of 0 pre] first_free_ge [of "span pre + n" post]
  by (auto simp: first_free_append)

lemma shrink_block_rep:
  assumes r: "heap_rep m (pre @ (l + SIZEOF_STRUCT_MEM, True) # post)"
    and nw: "0 < newsize" "4 dvd newsize" "newsize + SIZEOF_STRUCT_MEM + MIN_SIZE < l"
  shows "heap_rep (shrink_block (span pre) l newsize m)
           ((pre @ [(newsize + SIZEOF_STRUCT_MEM, True)]) @ (l - newsize, False) # post)"
proof -
  let ?n = "l + SIZEOF_STRUCT_MEM" and ?k = "newsize + SIZEOF_STRUCT_MEM"
  have t: "tiles (heap_items m) 0 0 (pre @ (?n, True) # post) (heap_end m)"
    and e: "heap_end m = mem_size_aligned m + SIZEOF_STRUCT_MEM"
    and pe: "pool_ptr (heap_items m (heap_end m)) = MEM_USED"
    and lf: "lfree m = first_free 0 (pre @ (?n, True) # post)"
    and mu: "mem_used m = used_bytes (pre @ (?n, True) # post)"
    and b: "heap_end m + SIZEOF_STRUCT_MEM < 2 ^ 32"
    using r unfolding heap_rep_def by blast+
  note at = tiles_at [OF t]
  have k: "SIZEOF_STRUCT_MEM \<le> ?k" "?k + SIZEOF_STRUCT_MEM \<le> ?n" "4 dvd ?k" "True \<longrightarrow> SIZEOF_STRUCT_MEM < ?k"
    using nw by (auto simp: SIZEOF_STRUCT_MEM_def)
  have nk: "?n - ?k = l - newsize" by simp
  let ?m = "shrink_block (span pre) l newsize m"
  have "tiles (heap_items ?m) 0 0 (pre @ (?k, True) # (l - newsize, False) # post) (heap_end m)"
    using tiles_split [OF t k refl] at(1) e nk nw k
    by (auto simp: shrink_block_def Let_def ac_simps)
  moreover have "lfree ?m = first_free 0 (pre @ (?k, True) # (l - newsize, False) # post)"
    using first_free_shrink [of ?k ?n pre post] nw lf nk k
    by (simp add: shrink_block_def Let_def SIZEOF_STRUCT_MEM_def MIN_SIZE_def ac_simps)
  moreover have "pool_ptr (heap_items ?m (heap_end m)) = MEM_USED"
    using pe at(1,4) e nw by (auto simp: shrink_block_def Let_def SIZEOF_STRUCT_MEM_def MIN_SIZE_def)
  moreover have "mem_used ?m = used_bytes (pre @ (?k, True) # (l - newsize, False) # post)"
    using mu nw by (simp add: shrink_block_def Let_def of_nat_diff MIN_SIZE_def)
  moreover have "heap_end ?m = heap_end m" "mem_size_aligned ?m = mem_size_aligned m"
    by (simp_all add: shrink_block_def Let_def)
  ultimately show ?thesis using e b by (simp add: heap_rep_def)
qed

text \<open>
  What resizing guarantees: a null pointer leaves everything as it was; otherwise the block is replaced
  by one that is large enough, with the old contents, and the other blocks keep theirs.
\<close>

definition resized :: "nat \<Rightarrow> nat \<Rightarrow> nat \<Rightarrow> (nat \<times> nat) set \<Rightarrow> rt_small_mem \<Rightarrow> nat option \<Rightarrow> (nat \<times> nat) set \<Rightarrow> rt_small_mem \<Rightarrow> bool" where
  "resized a l newsize B m r B' m' \<longleftrightarrow>
     (case r of None \<Rightarrow> m' = m \<and> B' = B
      | Some b \<Rightarrow> (\<exists>k \<ge> newsize. B' = insert (b, k) (B - {(a, l)})) \<and>
          (\<forall>i < min l newsize. heap_bytes m' (b + i) = heap_bytes m (a + i)) \<and>
          (\<forall>(c, k) \<in> B - {(a, l)}. \<forall>i < k. heap_bytes m' (c + i) = heap_bytes m (c + i)))"

lemma realloc_shrinks:
  assumes i: "heap_inv m (pre @ (l + SIZEOF_STRUCT_MEM, True) # post)"
    and nw: "0 < newsize" "4 dvd newsize" "newsize + SIZEOF_STRUCT_MEM + MIN_SIZE < l"
  defines "a \<equiv> span pre + SIZEOF_STRUCT_MEM" and "ss \<equiv> pre @ (l + SIZEOF_STRUCT_MEM, True) # post"
  shows "\<exists>m' ss'. plug_holes (a + newsize) (shrink_block (span pre) l newsize m) = Some m' \<and> heap_inv m' ss' \<and>
           resized a l newsize (live 0 ss) m (Some a) (live 0 ss') m'"
proof -
  have r: "heap_rep m ss" and c: "coalesced ss" using i by (auto simp: heap_inv_def ss_def)
  let ?m = "shrink_block (span pre) l newsize m"
  let ?pre = "pre @ [(newsize + SIZEOF_STRUCT_MEM, True)]"
  have cs: "coalesced ?pre" "coalesced post" using c by (auto simp: ss_def coalesced_append coalesced_Cons)
  obtain m' ss' where p: "plug_holes (span ?pre) ?m = Some m'" "heap_inv m' ss'"
    "live 0 ss' = live 0 (?pre @ (l - newsize, False) # post)" "heap_bytes m' = heap_bytes ?m"
    using plug_holes_inv [OF shrink_block_rep [OF r [unfolded ss_def] nw] cs] by blast
  have "live 0 ss' = insert (a, newsize) (live 0 (pre @ (l + SIZEOF_STRUCT_MEM, False) # post))"
    using p(3) nw by (simp add: a_def ac_simps)
  then have "live 0 ss' = insert (a, newsize) (live 0 ss - {(a, l)})"
    using live_remove [OF heap_inv_sizes [OF r, unfolded ss_def]] by (simp add: ss_def a_def)
  moreover have "heap_bytes m' = heap_bytes m" using p(4) by (simp add: shrink_block_def Let_def)
  ultimately have "resized a l newsize (live 0 ss) m (Some a) (live 0 ss') m'" by (auto simp: resized_def)
  moreover have "a + newsize = span ?pre" by (simp add: a_def)
  ultimately show ?thesis using p(1,2) by metis
qed

lemma fresh_block:
  assumes "\<forall>(k, u) \<in> set (pre @ (n, False) # post). SIZEOF_STRUCT_MEM \<le> k"
    and "(c, j) \<in> live 0 (pre @ (n, False) # post)"
  shows "c + j \<le> span pre \<or> span pre + n + SIZEOF_STRUCT_MEM \<le> c"
  using assms live_offsets [of c j 0 pre] live_offsets [of c j "span pre + n" post] by auto

text \<open>Moving: the contents are copied to a fresh block and the old one is freed.\<close>

lemma realloc_moves:
  assumes i: "heap_inv m ss" and a: "(a, l) \<in> live 0 ss" and s: "s \<noteq> 0"
    and ff: "first_fit (alloc_size s) ss = Some (pre, n, post)" and nw: "newsize \<le> alloc_size s"
  shows "\<exists>m1 m' ss'. rt_smem_alloc s m = Some (Some (span pre + SIZEOF_STRUCT_MEM), m1) \<and>
           rt_smem_free (Some a) (m1\<lparr>heap_bytes := (\<lambda>x. if span pre + SIZEOF_STRUCT_MEM \<le> x \<and>
               x < span pre + SIZEOF_STRUCT_MEM + min l newsize
             then heap_bytes m1 (x - (span pre + SIZEOF_STRUCT_MEM) + a) else heap_bytes m1 x)\<rparr>) = Some m' \<and>
           heap_inv m' ss' \<and> resized a l newsize (live 0 ss) m (Some (span pre + SIZEOF_STRUCT_MEM)) (live 0 ss') m'"
proof -
  let ?b = "span pre + SIZEOF_STRUCT_MEM" and ?ss = "pre @ taken (alloc_size s) n @ post"
  have sz: "\<forall>(n, u) \<in> set ss. SIZEOF_STRUCT_MEM \<le> n" using i heap_inv_sizes unfolding heap_inv_def by blast
  have sp: "ss = pre @ (n, False) # post" "alloc_size s + SIZEOF_STRUCT_MEM \<le> n" using first_fit_Some [OF ff] by auto
  obtain m1 where al: "rt_smem_alloc s m = Some (Some ?b, m1)" and i1: "heap_inv m1 ?ss"
    and by1: "heap_bytes m1 = heap_bytes m" using alloc_refines [OF i s] ff by auto
  let ?f = "\<lambda>x. if ?b \<le> x \<and> x < ?b + min l newsize then heap_bytes m1 (x - ?b + a) else heap_bytes m1 x"
  let ?m2 = "m1\<lparr>heap_bytes := ?f\<rparr>"
  obtain k where k: "alloc_size s \<le> k" "live 0 ?ss = insert (?b, k) (live 0 ss)"
    using taken_live [OF sp(2)] sp(1) by blast
  have apart: "c + j \<le> span pre \<or> span pre + n + SIZEOF_STRUCT_MEM \<le> c" if "(c, j) \<in> live 0 ss" for c j
    using that fresh_block sz sp(1) by blast
  have "heap_inv ?m2 ?ss" using i1 by (auto simp: heap_inv_def heap_rep_def)
  then obtain m' ss' where fr: "rt_smem_free (Some a) ?m2 = Some m'" "heap_inv m' ss'"
    "live 0 ss' = live 0 ?ss - {(a, l)}" "heap_bytes m' = heap_bytes ?m2"
    using free_refines [of ?m2 ?ss a l] a k by auto
  have "resized a l newsize (live 0 ss) m (Some ?b) (live 0 ss') m'"
    unfolding resized_def option.case
  proof (intro conjI ballI allI impI, goal_cases)
    case 1
    have "a \<noteq> ?b" using apart [OF a] sp(2) by (auto simp: SIZEOF_STRUCT_MEM_def)
    then show ?case using fr(3) k nw by (intro exI [of _ k]) auto
  next
    case (2 j)
    then show ?case using fr(4) by1 by (simp add: add.commute)
  next
    case (3 x)
    obtain c j where x: "x = (c, j)" by fastforce
    have "\<not> (?b \<le> c + q \<and> c + q < ?b + min l newsize)" if "q < j" for q
      using apart [of c j] 3 x that nw sp(2) by auto
    then show ?case using fr(4) by1 x by auto
  qed
  then show ?thesis using al fr by blast
qed

lemma realloc_refines:
  assumes i: "heap_inv m ss" and a: "(a, l) \<in> live 0 ss" and s: "RT_ALIGN4 s \<noteq> 0"
  shows "\<exists>r m' ss'. rt_smem_realloc (Some a) s m = Some (r, m') \<and> heap_inv m' ss' \<and>
           resized a l (unat (RT_ALIGN4 s)) (live 0 ss) m r (live 0 ss') m'"
proof -
  let ?N = "unat (RT_ALIGN4 s)"
  have r: "heap_rep m ss" using i by (simp add: heap_inv_def)
  obtain pre post where ss: "ss = pre @ (l + SIZEOF_STRUCT_MEM, True) # post" and ap: "a = span pre + SIZEOF_STRUCT_MEM"
    using live_at [OF a heap_inv_sizes [OF r]] by auto
  have t: "tiles (heap_items m) 0 0 (pre @ (l + SIZEOF_STRUCT_MEM, True) # post) (heap_end m)"
    using r ss unfolding heap_rep_def by blast
  note at = tiles_at [OF t]
  have "4 dvd span pre" using t tiles_span_dvd by (auto simp: tiles_append)
  then have a4: "a mod 4 = 0" using ap by (auto simp: SIZEOF_STRUCT_MEM_def)
  have ae: "a < heap_end m" using at(4,6) ap by simp
  have N: "0 < ?N" using s by (simp add: unat_gt_0)
  have N4: "4 dvd ?N" using u32_align4 [of "s + 3"] by (simp add: RT_ALIGN4_def)
  have sz: "minus_offset (item_next (heap_items m (span pre))) a = Some l" using at(1) ap by (simp add: minus_offset_def)
  have same: "resized a l l (live 0 ss) m (Some a) (live 0 ss) m" using a by (auto simp: resized_def)
  consider "?N > mem_size_aligned m" | "?N \<le> mem_size_aligned m" "l = ?N"
    | "?N \<le> mem_size_aligned m" "l \<noteq> ?N" "?N + SIZEOF_STRUCT_MEM + MIN_SIZE < l"
    | "?N \<le> mem_size_aligned m" "l \<noteq> ?N" "\<not> ?N + SIZEOF_STRUCT_MEM + MIN_SIZE < l" by linarith
  then show ?thesis
  proof cases
    case 1
    then show ?thesis using i by (auto simp: rt_smem_realloc_def resized_def)
  next
    case 2
    then have "rt_smem_realloc (Some a) s m = Some (Some a, m)"
      using N a4 ae sz ap by (simp add: rt_smem_realloc_def Let_def)
    then show ?thesis using i same 2(2) by blast
  next
    case 3
    obtain m' ss' where "plug_holes (a + ?N) (shrink_block (span pre) l ?N m) = Some m'" "heap_inv m' ss'"
      "resized a l ?N (live 0 ss) m (Some a) (live 0 ss') m'"
      using realloc_shrinks [OF i [unfolded ss] N N4 3(3)] unfolding ap ss by blast
    moreover from this(1) have "rt_smem_realloc (Some a) s m = Some (Some a, m')"
      using N a4 ae sz ap 3 by (simp add: rt_smem_realloc_def Let_def)
    ultimately show ?thesis by blast
  next
    case 4
    let ?s = "RT_ALIGN4 s"
    have nw: "?N \<le> alloc_size ?s" using align_idem [of s] by (simp add: alloc_size_def)
    show ?thesis
    proof (cases "first_fit (alloc_size ?s) ss")
      case None
      then have "rt_smem_alloc ?s m = Some (None, m)" using alloc_refines [OF i s] by simp
      then have "rt_smem_realloc (Some a) s m = Some (None, m)"
        using N a4 ae sz ap 4 by (simp add: rt_smem_realloc_def Let_def)
      then show ?thesis using i by (auto simp: resized_def)
    next
      case (Some f)
      obtain xs n ys where ff: "first_fit (alloc_size ?s) ss = Some (xs, n, ys)" using Some by (cases f) auto
      have mn: "(if l < ?N then l else ?N) = min l ?N" by (simp add: min_def)
      from realloc_moves [OF i a s ff nw] show ?thesis
        using N a4 ae sz ap 4 by (auto simp: rt_smem_realloc_def Let_def mn)
    qed
  qed
qed

section \<open>Initialisation\<close>

lemma align4_exact:
  assumes "4 dvd unat x"
  shows "unat (RT_ALIGN4 x) = unat x"
proof -
  have "unat x < 2 ^ LENGTH(32)" by (rule unsigned_less)
  moreover obtain q where q: "unat x = 4 * q" using assms by blast
  ultimately have "unat (x + 3) = 4 * q + 3" by (simp add: unat_word_ariths)
  then show ?thesis using q u32_align4 [of "x + 3"] by (simp add: RT_ALIGN4_def)
qed

lemma smem_init_inv:
  assumes o: "4 dvd unat objsize" "unat begin_addr + unat objsize + 3 < 2 ^ 32"
    and sz: "unat begin_addr + unat sz < 2 ^ 32"
    and ini: "rt_smem_init objsize begin_addr sz m0 = Some m"
  shows "heap_inv m [(heap_end m, False)] \<and>
         unat (RT_ALIGN4 begin_addr) + unat objsize + heap_end m + SIZEOF_STRUCT_MEM \<le> unat begin_addr + unat sz"
proof -
  let ?st = "RT_ALIGN4 begin_addr + objsize" and ?e = "(begin_addr + sz) AND NOT 3"
  have "unat (begin_addr + 3) = unat begin_addr + 3" using o by (simp add: unat_word_ariths)
  then have al: "unat (RT_ALIGN4 begin_addr) = 4 * ((unat begin_addr + 3) div 4)"
    using u32_align4 [of "begin_addr + 3"] by (simp add: RT_ALIGN4_def)
  then have st: "unat ?st = 4 * ((unat begin_addr + 3) div 4) + unat objsize"
    using o by (simp add: unat_word_ariths)
  then have ba: "RT_ALIGN4 ?st = ?st" using align4_exact [of ?st] o by (simp add: word_unat_eq_iff)
  have ea: "unat ?e = 4 * ((unat begin_addr + unat sz) div 4)"
    using u32_align4 [of "begin_addr + sz"] sz by (simp add: unat_word_ariths)
  have c: "?e > 24" "?e - 24 \<ge> ?st" using ini by (auto simp: rt_smem_init_def Let_def split: if_splits)
  have e24: "unat (?e - 24) = unat ?e - 24" using c(1) by (simp add: unat_sub word_less_nat_alt word_le_nat_alt)
  have "?e - ?st - 24 = (?e - 24) - ?st" by simp
  then have ms: "unat (?e - ?st - 24) = unat ?e - 24 - unat ?st" by (simp only: unat_sub [OF c(2)] e24)
  have le: "unat ?st + 24 \<le> unat ?e" using c e24 by (simp add: word_le_nat_alt word_less_nat_alt)
  have m: "heap_end m = unat ?e - 24 - unat ?st + SIZEOF_STRUCT_MEM" "mem_size_aligned m = unat ?e - 24 - unat ?st"
    "lfree m = 0" "mem_used m = 0"
    "heap_items m 0 = \<lparr>pool_ptr = MEM_FREED, item_next = heap_end m, item_prev = 0\<rparr>"
    "pool_ptr (heap_items m (heap_end m)) = MEM_USED"
    using ini ms ba by (auto simp: rt_smem_init_def Let_def SIZEOF_STRUCT_MEM_def split: if_splits)
  have "4 dvd unat ?st" using st o(1) by simp
  then obtain p r where pq: "unat ?e = 4 * p" "unat ?st = 4 * r" using ea by blast
  have d: "4 dvd heap_end m" unfolding m(1) pq by (simp add: SIZEOF_STRUCT_MEM_def dvd_diff_nat)
  have "unat ?e < 2 ^ LENGTH(32)" by (rule unsigned_less)
  then have "heap_end m + SIZEOF_STRUCT_MEM < 2 ^ 32" "SIZEOF_STRUCT_MEM \<le> heap_end m"
    "heap_end m + SIZEOF_STRUCT_MEM + unat ?st \<le> unat ?e"
    using m(1) le by (simp_all add: SIZEOF_STRUCT_MEM_def)
  moreover have "unat ?e \<le> unat begin_addr + unat sz" using ea by simp
  moreover have "unat ?st = unat (RT_ALIGN4 begin_addr) + unat objsize" using st al by simp
  ultimately show ?thesis using m(2-6) m(1) d by (simp add: heap_inv_def heap_rep_def)
qed

section \<open>The allocator interface\<close>

text \<open>
  What the clients of an allocator rely on: a set of live blocks that only allocation and freeing
  change, pairwise disjoint. \<open>need s\<close> is the number of bytes granted at least for a request \<open>s\<close>.
\<close>

fun free_each :: "(nat option \<Rightarrow> 'm \<Rightarrow> 'm option) \<Rightarrow> nat list \<Rightarrow> 'm \<Rightarrow> 'm option" where
  "free_each free [] m = Some m"
| "free_each free (b # bs) m = do { m' \<leftarrow> free (Some b) m; free_each free bs m' }"

locale allocator =
  fixes holds :: "'m \<Rightarrow> (nat \<times> nat) set \<Rightarrow> bool"
    and alloc :: "u32 \<Rightarrow> 'm \<Rightarrow> (nat option \<times> 'm) option"
    and free :: "nat option \<Rightarrow> 'm \<Rightarrow> 'm option"
    and need :: "u32 \<Rightarrow> nat"
  assumes alloc_law: "holds m B \<Longrightarrow> s \<noteq> 0 \<Longrightarrow>
      \<exists>r m'. alloc s m = Some (r, m') \<and>
        (case r of None \<Rightarrow> m' = m | Some b \<Rightarrow> \<exists>k \<ge> need s. (b, k) \<notin> B \<and> holds m' (insert (b, k) B))"
    and free_law: "holds m B \<Longrightarrow> (b, k) \<in> B \<Longrightarrow> \<exists>m'. free (Some b) m = Some m' \<and> holds m' (B - {(b, k)})"
    and disjoint_law: "holds m B \<Longrightarrow> (b, k) \<in> B \<Longrightarrow> (c, j) \<in> B \<Longrightarrow> (b, k) \<noteq> (c, j) \<Longrightarrow> b + k \<le> c \<or> c + j \<le> b"
begin

lemma free_list:
  assumes "holds m (B \<union> set bs)" and "distinct bs" and "B \<inter> set bs = {}"
  shows "\<exists>m'. free_each free (map fst bs) m = Some m' \<and> holds m' B"
  using assms
proof (induction bs arbitrary: m)
  case (Cons b bs)
  obtain a k where b: "b = (a, k)" by fastforce
  obtain m1 where m1: "free (Some a) m = Some m1" "holds m1 (B \<union> set (b # bs) - {(a, k)})"
    using free_law [OF Cons.prems(1), of a k] b by auto
  moreover have "B \<union> set (b # bs) - {(a, k)} = B \<union> set bs" using Cons.prems(2,3) b by auto
  ultimately show ?case using Cons.IH [of m1] Cons.prems(2,3) b by auto
qed simp

lemma alloc_then_free:
  assumes "holds m B" and "alloc s m = Some (Some b, m1)" and "s \<noteq> 0"
  shows "\<exists>m2. free (Some b) m1 = Some m2 \<and> holds m2 B"
proof -
  obtain k where "(b, k) \<notin> B" "holds m1 (insert (b, k) B)" using alloc_law [OF assms(1,3)] assms(2) by auto
  then show ?thesis using free_law [of m1 "insert (b, k) B" b k] by auto
qed

end

definition heap_holds :: "nat \<Rightarrow> rt_small_mem \<Rightarrow> (nat \<times> nat) set \<Rightarrow> bool" where
  "heap_holds n m B \<longleftrightarrow> (\<exists>ss. heap_inv m ss \<and> live 0 ss = B \<and> mem_size_aligned m = n)"

interpretation smem: allocator "heap_holds n" rt_smem_alloc rt_smem_free alloc_size for n
proof
  fix m B s assume h: "heap_holds n m B" and s: "s \<noteq> (0 :: u32)"
  then obtain ss where ss: "heap_inv m ss" "live 0 ss = B" "mem_size_aligned m = n" by (auto simp: heap_holds_def)
  show "\<exists>r m'. rt_smem_alloc s m = Some (r, m') \<and>
        (case r of None \<Rightarrow> m' = m
         | Some b \<Rightarrow> \<exists>k \<ge> alloc_size s. (b, k) \<notin> B \<and> heap_holds n m' (insert (b, k) B))"
  proof (cases "first_fit (alloc_size s) ss")
    case None
    then show ?thesis using alloc_refines [OF ss(1) s] by simp
  next
    case (Some f)
    then obtain pre k post where f: "first_fit (alloc_size s) ss = Some (pre, k, post)" by (cases f) auto
    note sp = first_fit_Some [OF f]
    have sz: "\<forall>(k, u) \<in> set (pre @ (k, False) # post). SIZEOF_STRUCT_MEM \<le> k"
      using ss(1) heap_inv_sizes sp unfolding heap_inv_def by blast
    obtain j where j: "alloc_size s \<le> j" "live 0 (pre @ taken (alloc_size s) k @ post) =
        insert (span pre + SIZEOF_STRUCT_MEM, j) B" using taken_live [of "alloc_size s" k pre post] sp ss(2) by blast
    have "(span pre + SIZEOF_STRUCT_MEM, j) \<notin> B"
      using fresh_block [OF sz] sp ss(2) by (force simp: SIZEOF_STRUCT_MEM_def)
    then show ?thesis using alloc_refines [OF ss(1) s] f j ss(3) by (force simp: heap_holds_def same_heap_def)
  qed
next
  fix m B b k assume "heap_holds n m B" and "(b, k) \<in> B"
  then show "\<exists>m'. rt_smem_free (Some b) m = Some m' \<and> heap_holds n m' (B - {(b, k)})"
    using free_refines by (fastforce simp: heap_holds_def same_heap_def)
next
  fix m B b k c j
  assume "heap_holds n m B" "(b, k) \<in> B" "(c, j) \<in> B" "(b, k) \<noteq> (c, j)"
  then show "b + k \<le> c \<or> c + j \<le> b"
    using live_disjoint heap_inv_sizes by (fastforce simp: heap_holds_def heap_inv_def)
qed

section \<open>Properties\<close>

lemma heap_only_free:
  assumes "heap_inv m ss" and "live 0 ss = {}"
  shows "ss = [(mem_size_aligned m + SIZEOF_STRUCT_MEM, False)]"
proof -
  have f: "\<forall>n. (n, True) \<notin> set xs" if "live a xs = {}" for a xs
    using that by (induction xs arbitrary: a) (auto split: if_splits)
  have c: "coalesced ss" and sp: "span ss = mem_size_aligned m + SIZEOF_STRUCT_MEM"
    using assms(1) heap_rep_span by (auto simp: heap_inv_def)
  have all: "snd x = False" if "x \<in> set ss" for x using f [OF assms(2)] that by (cases x) auto
  obtain n u ys where ss: "ss = (n, u) # ys" using sp by (cases ss) (auto simp: SIZEOF_STRUCT_MEM_def)
  have "ys = []" using c all [of "(n, u)"] all [of "hd ys"] ss by (cases ys) (auto simp: coalesced_Cons)
  then show ?thesis using ss sp all by simp
qed

lemma align_wraps:
  assumes "2 ^ 32 - 4 < unat (s :: u32)"
  shows "unat (s + 3) < 4"
proof -
  have "unat s < 2 ^ LENGTH(32)" by (rule unsigned_less)
  then have "unat (s + 3) = unat s - 4294967293" using assms by (simp add: unat_word_ariths mod_if)
  then show ?thesis using \<open>unat s < 2 ^ LENGTH(32)\<close> by simp
qed

lemma alloc_size_wraps: "2 ^ 32 - 4 < unat s \<Longrightarrow> alloc_size s = MIN_SIZE_ALIGNED"
  using align_wraps [of s] u32_align4 [of "s + 3"] by (simp add: alloc_size_def RT_ALIGN4_def)

definition sample_smem :: rt_small_mem where
  "sample_smem = \<lparr>heap_items = (\<lambda>_. \<lparr>pool_ptr = POOL_NULL, item_next = 0, item_prev = 0\<rparr>), heap_end = 0, lfree = 0,
     mem_size_aligned = 0, mem_used = 0, mem_max = 0, heap_bytes = (\<lambda>_. 0)\<rparr>"

definition sample_heap :: rt_small_mem where
  "sample_heap = (case rt_smem_init 48 0x20000002 0x100 sample_smem of Some m \<Rightarrow> m | None \<Rightarrow> sample_smem)"

lemma sample_heap_inv:
  shows "heap_inv sample_heap [(heap_end sample_heap, False)]" and "heap_end sample_heap = 192"
proof -
  have i: "rt_smem_init 48 0x20000002 0x100 sample_smem = Some sample_heap"
    by (simp add: sample_heap_def rt_smem_init_def RT_ALIGN4_def Let_def)
  show "heap_inv sample_heap [(heap_end sample_heap, False)]" by (rule conjunct1 [OF smem_init_inv [OF _ _ _ i]]) simp_all
  show "heap_end sample_heap = 192"
    by (simp add: sample_heap_def rt_smem_init_def RT_ALIGN4_def Let_def sample_smem_def SIZEOF_STRUCT_MEM_def)
qed

text \<open>
  Property C3. Allocation is first fit and safe: on a heap with blocks \<open>ss\<close> it either returns a null
  pointer, and then no free block is large enough, or the user part of the first free block that is,
  leaving all other blocks alone; the new block overlaps no live one. The granted size is at least the
  requested one, except that a request above 4294967292 bytes wraps in the alignment and is granted 12 bytes.
\<close>

theorem heap_alloc_first_fit:
  assumes "heap_inv m ss" and "s \<noteq> 0"
  shows "(rt_smem_alloc s m = Some (None, m) \<and> (\<forall>n. (n, False) \<in> set ss \<longrightarrow> n < alloc_size s + SIZEOF_STRUCT_MEM) \<or>
          (\<exists>pre n post k m'. ss = pre @ (n, False) # post \<and> alloc_size s + SIZEOF_STRUCT_MEM \<le> n \<and>
             (\<forall>j. (j, False) \<in> set pre \<longrightarrow> j < alloc_size s + SIZEOF_STRUCT_MEM) \<and>
             rt_smem_alloc s m = Some (Some (span pre + SIZEOF_STRUCT_MEM), m') \<and> alloc_size s \<le> k \<and>
             heap_inv m' (pre @ taken (alloc_size s) n @ post) \<and> heap_bytes m' = heap_bytes m \<and>
             live 0 (pre @ taken (alloc_size s) n @ post) = insert (span pre + SIZEOF_STRUCT_MEM, k) (live 0 ss) \<and>
             (\<forall>(c, j) \<in> live 0 ss. c + j \<le> span pre + SIZEOF_STRUCT_MEM \<or> span pre + SIZEOF_STRUCT_MEM + k \<le> c))) \<and>
         (if unat s \<le> 2 ^ 32 - 4 then unat s \<le> alloc_size s else alloc_size s = MIN_SIZE_ALIGNED)"
proof (intro conjI, goal_cases)
  case 1
  show ?case
  proof (cases "first_fit (alloc_size s) ss")
    case None
    then have "rt_smem_alloc s m = Some (None, m)" using alloc_refines [OF assms] by simp
    then show ?thesis using None first_fit_None by blast
  next
    case (Some f)
    then obtain pre n post where f: "first_fit (alloc_size s) ss = Some (pre, n, post)" by (cases f) auto
    note sp = first_fit_Some [OF f]
    obtain m' where m': "rt_smem_alloc s m = Some (Some (span pre + SIZEOF_STRUCT_MEM), m')"
      "heap_inv m' (pre @ taken (alloc_size s) n @ post)" "heap_bytes m' = heap_bytes m"
      using alloc_refines [OF assms] f by auto
    obtain k where k: "alloc_size s \<le> k"
      "live 0 (pre @ taken (alloc_size s) n @ post) = insert (span pre + SIZEOF_STRUCT_MEM, k) (live 0 ss)"
      "k + SIZEOF_STRUCT_MEM \<le> n"
      using taken_live [of "alloc_size s" n pre post] sp by blast
    have "\<forall>(c, j) \<in> live 0 ss. c + j \<le> span pre + SIZEOF_STRUCT_MEM \<or> span pre + SIZEOF_STRUCT_MEM + k \<le> c"
      using fresh_block [of pre n post] heap_inv_sizes [of m ss] assms(1) sp k(3) by (fastforce simp: heap_inv_def)
    then show ?thesis using sp m' k(1,2) by blast
  qed
next
  case 2
  show ?case using alloc_size_ge [of s] alloc_size_wraps [of s] by simp
qed

theorem heap_alloc_first_fit_witness:
  "\<exists>m'. rt_smem_alloc 20 sample_heap = Some (Some SIZEOF_STRUCT_MEM, m')"
  using heap_alloc_first_fit [OF sample_heap_inv(1), of 20]
  by (auto simp: sample_heap_inv(2) alloc_size_def RT_ALIGN4_def MIN_SIZE_ALIGNED_def SIZEOF_STRUCT_MEM_def Cons_eq_append_conv)

text \<open>
  Property C4. Freeing never fails on live blocks and loses no memory: freeing all of them, in any order,
  leaves the heap as one free block with no byte accounted as used; a block that was just allocated can be
  freed again, which restores the set of live blocks.
\<close>

theorem heap_free_all:
  assumes i: "heap_inv m ss" and d: "distinct bs" and b: "set bs = live 0 ss"
  shows "(\<exists>m'. free_each rt_smem_free (map fst bs) m = Some m' \<and>
            heap_inv m' [(mem_size_aligned m + SIZEOF_STRUCT_MEM, False)] \<and> lfree m' = 0 \<and> mem_used m' = 0) \<and>
         (\<forall>s c m1. s \<noteq> 0 \<longrightarrow> rt_smem_alloc s m = Some (Some c, m1) \<longrightarrow>
            (\<exists>m2 ss2. rt_smem_free (Some c) m1 = Some m2 \<and> heap_inv m2 ss2 \<and> live 0 ss2 = live 0 ss))"
proof (intro conjI allI impI)
  let ?n = "mem_size_aligned m"
  have h: "heap_holds ?n m (live 0 ss)" using i by (auto simp: heap_holds_def)
  then obtain m' where m': "free_each rt_smem_free (map fst bs) m = Some m'" "heap_holds ?n m' {}"
    using smem.free_list [of ?n m "{}" bs] d b by auto
  then obtain ss' where "heap_inv m' ss'" "live 0 ss' = {}" "mem_size_aligned m' = ?n" by (auto simp: heap_holds_def)
  then have "heap_inv m' [(?n + SIZEOF_STRUCT_MEM, False)]" using heap_only_free by metis
  then show "\<exists>m'. free_each rt_smem_free (map fst bs) m = Some m' \<and>
      heap_inv m' [(?n + SIZEOF_STRUCT_MEM, False)] \<and> lfree m' = 0 \<and> mem_used m' = 0"
    using m'(1) by (auto simp: heap_inv_def heap_rep_def)
  fix s c m1 assume "s \<noteq> 0" "rt_smem_alloc s m = Some (Some c, m1)"
  then show "\<exists>m2 ss2. rt_smem_free (Some c) m1 = Some m2 \<and> heap_inv m2 ss2 \<and> live 0 ss2 = live 0 ss"
    using smem.alloc_then_free [OF h] by (force simp: heap_holds_def)
qed

definition sample_blocks :: rt_small_mem where
  "sample_blocks = sample_smem\<lparr>heap_end := 192, mem_size_aligned := 180, lfree := 84, mem_used := 84,
     heap_items := (heap_items sample_smem)(
        0 := \<lparr>pool_ptr = MEM_USED, item_next = 32, item_prev = 0\<rparr>,
       32 := \<lparr>pool_ptr = MEM_USED, item_next = 84, item_prev = 0\<rparr>,
       84 := \<lparr>pool_ptr = MEM_FREED, item_next = 192, item_prev = 32\<rparr>,
      192 := \<lparr>pool_ptr = MEM_USED, item_next = 192, item_prev = 192\<rparr>)\<rparr>"

lemma sample_blocks_inv: "heap_inv sample_blocks [(32, True), (52, True), (108, False)]"
  by (simp add: heap_inv_def heap_rep_def sample_blocks_def sample_smem_def SIZEOF_STRUCT_MEM_def)

theorem heap_free_all_witness:
  "\<exists>m'. free_each rt_smem_free [44, 12] sample_blocks = Some m' \<and> heap_inv m' [(192, False)]"
  using heap_free_all [OF sample_blocks_inv, of "[(44, 40), (12, 20)]"]
  by (auto simp: SIZEOF_STRUCT_MEM_def sample_blocks_def)

text \<open>
  Property C37. Resizing a live block keeps the heap intact. For a size from 1 to 4294967292 either the result is a null
  pointer and nothing has changed, or it is a block of at least the requested size that holds the old contents up
  to the smaller of the two sizes, the old block is gone, and all other blocks keep their contents. A request of 0
  bytes, or above 4294967292 bytes, which is aligned to 0, returns a null pointer and frees the block. The user bytes and
  the headers are separate maps of the model; that the blocks do not overlap the headers is part of \<open>heap_inv\<close>.
\<close>

theorem heap_realloc_contents:
  assumes i: "heap_inv m ss" and a: "(a, l) \<in> live 0 ss"
  shows "if unat s \<le> 2 ^ 32 - 4 \<and> s \<noteq> 0
         then \<exists>r m' ss'. rt_smem_realloc (Some a) s m = Some (r, m') \<and> heap_inv m' ss' \<and>
                resized a l (unat (RT_ALIGN4 s)) (live 0 ss) m r (live 0 ss') m' \<and> unat s \<le> unat (RT_ALIGN4 s)
         else \<exists>m' ss'. rt_smem_realloc (Some a) s m = Some (None, m') \<and> heap_inv m' ss' \<and>
                live 0 ss' = live 0 ss - {(a, l)}"
proof (cases "unat s \<le> 2 ^ 32 - 4 \<and> s \<noteq> 0")
  case True
  have "unat (s + 3) = unat s + 3" using True by (simp add: unat_word_ariths)
  then have g: "unat s \<le> unat (RT_ALIGN4 s)" using u32_align4 [of "s + 3"] by (simp add: RT_ALIGN4_def)
  then have "RT_ALIGN4 s \<noteq> 0" using True unat_gt_0 [of s] by force
  then show ?thesis using realloc_refines [OF i a] g True by auto
next
  case False
  have "RT_ALIGN4 s = 0"
  proof (cases "s = 0")
    case True
    then show ?thesis by (simp add: RT_ALIGN4_def)
  next
    case ns: False
    have "unat (s + 3) < 4" using align_wraps [of s] False ns by simp
    then show ?thesis using u32_align4 [of "s + 3"] by (simp add: RT_ALIGN4_def word_unat_eq_iff)
  qed
  then have "rt_smem_realloc (Some a) s m = do { m1 \<leftarrow> rt_smem_free (Some a) m; Some (None, m1) }"
    by (simp add: rt_smem_realloc_def)
  then show ?thesis using free_refines [OF i a] False by auto
qed

theorem heap_realloc_contents_witness:
  "\<exists>r m' ss'. rt_smem_realloc (Some 12) 60 sample_blocks = Some (r, m') \<and> heap_inv m' ss' \<and>
     resized 12 20 60 {(44, 40), (12, 20)} sample_blocks r (live 0 ss') m'"
  using heap_realloc_contents [OF sample_blocks_inv, of 12 20 60] by (auto simp: SIZEOF_STRUCT_MEM_def RT_ALIGN4_def)

end
