(* ===== verification/MemPool.thy ===== *)
theory MemPool
  imports Ipc SmallMem
begin

text \<open>
  Memory pools (\<^verbatim>\<open>rt-thread/src/mempool.c\<close>): blocks of one size on a linked free list, with threads that wait
  for a block. A block is named by its index (the code uses its address
  \<^verbatim>\<open>start_address + index * (block_size + sizeof(rt_uint8_t *))\<close>); its first word is the link to the next free
  block, or the pool when it is allocated. The theorems show that the pool is a stack of free blocks that
  never hands out an allocated block, and that freeing resumes a waiting thread.
\<close>

section \<open>Operations\<close>

datatype mp_link = LinkNull | LinkBlock nat | LinkPool

record rt_mempool =
  mp_id :: nat
  mp_block_size :: u32
  mp_size :: u32
  block_total_count :: nat
  block_free_count :: nat
  block_list :: mp_link
  block_word :: "nat \<Rightarrow> mp_link"

abbreviation mp_waiters :: "rt_mempool \<Rightarrow> list_head" where "mp_waiters mp \<equiv> SuspHead (mp_id mp)"

text \<open>The loop that links the blocks, and the end of the list. With no block at all the code writes before the pool.\<close>

fun mp_link_blocks :: "nat \<Rightarrow> nat \<Rightarrow> (nat \<Rightarrow> mp_link) \<Rightarrow> nat \<Rightarrow> mp_link" where
  "mp_link_blocks offset 0 w = w"
| "mp_link_blocks offset (Suc n) w = mp_link_blocks (offset + 1) n (w(offset := LinkBlock (offset + 1)))"

definition mp_link_all :: "nat \<Rightarrow> (nat \<Rightarrow> mp_link) \<Rightarrow> (nat \<Rightarrow> mp_link) option" where
  "mp_link_all nblocks w = (if nblocks = 0 then None else Some ((mp_link_blocks 0 nblocks w)(nblocks - 1 := LinkNull)))"

definition rt_mp_init :: "nat \<Rightarrow> u32 \<Rightarrow> u32 \<Rightarrow> (nat \<Rightarrow> mp_link) \<Rightarrow> kernel \<Rightarrow> (rt_mempool \<times> kernel) option" where
  "rt_mp_init i size0 block_size0 w k =
     (if size0 > 0 \<and> block_size0 > 0 \<and> RT_ALIGN4 block_size0 + 4 \<noteq> 0 then
        do { let sz = size0 AND NOT 3;
             let bs = RT_ALIGN4 block_size0;
             let nblocks = unat (sz div (bs + 4));
             w1 \<leftarrow> mp_link_all nblocks w;
             Some (\<lparr>mp_id = i, mp_block_size = bs, mp_size = sz, block_total_count = nblocks, block_free_count = nblocks,
                    block_list = LinkBlock 0, block_word = w1\<rparr>, ipc_object_init (SuspHead i) k) }
      else None)"

text \<open>\<open>room\<close> tells whether \<^verbatim>\<open>rt_malloc\<close> finds the memory.\<close>

definition rt_mp_create :: "nat \<Rightarrow> u32 \<Rightarrow> u32 \<Rightarrow> (u32 \<Rightarrow> bool) \<Rightarrow> (nat \<Rightarrow> mp_link) \<Rightarrow> kernel \<Rightarrow> (rt_mempool option \<times> kernel) option" where
  "rt_mp_create i block_count block_size0 room w k =
     (if block_count > 0 \<and> block_size0 > 0 then
        do { let bs = RT_ALIGN4 block_size0;
             let sz = (bs + 4) * block_count;
             if \<not> room sz then Some (None, k)
             else do {
               w1 \<leftarrow> mp_link_all (unat block_count) w;
               Some (Some \<lparr>mp_id = i, mp_block_size = bs, mp_size = sz, block_total_count = unat block_count,
                       block_free_count = unat block_count, block_list = LinkBlock 0, block_word = w1\<rparr>,
                     ipc_object_init (SuspHead i) k) } }
      else None)"

definition rt_mp_detach :: "rt_mempool \<Rightarrow> kernel \<Rightarrow> kernel option" where
  "rt_mp_detach mp k = ipc_list_resume_all (mp_waiters mp) k"

definition rt_mp_delete :: "rt_mempool \<Rightarrow> kernel \<Rightarrow> kernel option" where
  "rt_mp_delete mp k = ipc_list_resume_all (mp_waiters mp) k"

text \<open>Taking a block behind the loop of \<^verbatim>\<open>rt_mp_alloc\<close>.\<close>

definition mp_take :: "rt_mempool \<Rightarrow> (nat \<times> rt_mempool) option" where
  "mp_take mp =
     (case block_list mp of
        LinkBlock b \<Rightarrow>
          Some (b, mp\<lparr>block_free_count := block_free_count mp - 1, block_list := block_word mp b,
                      block_word := (block_word mp)(b := LinkPool)\<rparr>)
      | _ \<Rightarrow> None)"

text \<open>
  Waiting: the thread is put at the front of the list, unlike in the other communication objects. The
  second component of a result is the block.
\<close>

definition mp_wait :: "rt_mempool \<Rightarrow> tid \<Rightarrow> int \<Rightarrow> kernel \<Rightarrow> kernel option" where
  "mp_wait mp t time k =
     do { (_, k1) \<leftarrow> rt_thread_suspend t k;
          let k2 = list_insert_after (mp_waiters mp) t k1;
          k3 \<leftarrow> (if time > 0
                 then do { (_, k') \<leftarrow> rt_timer_control (ThreadTimer t) TIMER_SET_TIME (word_of_int time) k2;
                           rt_timer_start (ThreadTimer t) k' }
                 else Some k2);
          rt_schedule k3 }"

definition mp_alloc_try :: "rt_mempool \<Rightarrow> int \<Rightarrow> kernel \<Rightarrow> (outcome \<times> nat option \<times> rt_mempool \<times> kernel) option" where
  "mp_alloc_try mp time k =
     do { t \<leftarrow> rt_thread_self k;
          if block_free_count mp = 0 then
            (if time = 0
             then Some (Returned 0, None, mp, upd_thread t (\<lambda>th. th\<lparr>error := - RT_ETIMEOUT\<rparr>) k)
             else do { k1 \<leftarrow> mp_wait mp t time (upd_thread t (\<lambda>th. th\<lparr>error := RT_EOK\<rparr>) k);
                       Some (Blocked t, None, mp, k1) })
          else do { (b, mp1) \<leftarrow> mp_take mp; Some (Returned 0, Some b, mp1, k) } }"

definition rt_mp_alloc :: "rt_mempool \<Rightarrow> int \<Rightarrow> kernel \<Rightarrow> (outcome \<times> nat option \<times> rt_mempool \<times> kernel) option" where
  "rt_mp_alloc mp time k = mp_alloc_try mp time k"

text \<open>The rest of a blocked call when the thread \<open>t\<close> runs again; \<open>start\<close> is the tick at which it blocked.\<close>

definition rt_mp_alloc_resumed ::
  "rt_mempool \<Rightarrow> int \<Rightarrow> u32 \<Rightarrow> tid \<Rightarrow> kernel \<Rightarrow> (outcome \<times> nat option \<times> rt_mempool \<times> kernel) option" where
  "rt_mp_alloc_resumed mp time start t k =
     (if error (threads k t) \<noteq> RT_EOK then Some (Returned 0, None, mp, k)
      else mp_alloc_try mp (timeout_left time start (rt_tick k)) k)"

text \<open>The first word of an allocated block leads back to the pool; any other block is not the caller's to free.\<close>

definition rt_mp_free :: "nat option \<Rightarrow> rt_mempool \<Rightarrow> kernel \<Rightarrow> (rt_mempool \<times> kernel) option" where
  "rt_mp_free block mp k =
     (case block of
        None \<Rightarrow> Some (mp, k)
      | Some b \<Rightarrow>
          if block_word mp b = LinkPool then
            do { let mp1 = mp\<lparr>block_free_count := block_free_count mp + 1,
                              block_word := (block_word mp)(b := block_list mp), block_list := LinkBlock b\<rparr>;
                 case tlists k (mp_waiters mp) of
                   [] \<Rightarrow> Some (mp1, k)
                 | t # _ \<Rightarrow>
                     do { k2 \<leftarrow> rt_schedule (snd (rt_thread_resume t (upd_thread t (\<lambda>th. th\<lparr>error := RT_EOK\<rparr>) k)));
                          Some (mp1, k2) } }
          else None)"

section \<open>The free list\<close>

fun free_chain :: "(nat \<Rightarrow> mp_link) \<Rightarrow> mp_link \<Rightarrow> nat list \<Rightarrow> bool" where
  "free_chain w l [] \<longleftrightarrow> l = LinkNull"
| "free_chain w l (b # bs) \<longleftrightarrow> l = LinkBlock b \<and> free_chain w (w b) bs"

definition mp_wf :: "rt_mempool \<Rightarrow> nat list \<Rightarrow> bool" where
  "mp_wf mp fs \<longleftrightarrow>
     free_chain (block_word mp) (block_list mp) fs \<and> distinct fs \<and> set fs \<subseteq> {..<block_total_count mp} \<and>
     block_free_count mp = length fs \<and>
     (\<forall>b < block_total_count mp. block_word mp b = LinkPool \<longleftrightarrow> b \<notin> set fs)"

lemma free_chain_upd: "b \<notin> set fs \<Longrightarrow> free_chain (w(b := x)) l fs = free_chain w l fs"
  by (induction fs arbitrary: l) auto

lemma free_chain_links: "free_chain w l fs \<Longrightarrow> b \<in> set fs \<Longrightarrow> w b \<noteq> LinkPool"
proof (induction fs arbitrary: l)
  case (Cons c cs)
  then show ?case by (cases cs) auto
qed simp

lemma free_chain_unique: "free_chain w l fs \<Longrightarrow> free_chain w l gs \<Longrightarrow> fs = gs"
proof (induction fs arbitrary: l gs)
  case Nil
  then show ?case by (cases gs) auto
next
  case (Cons b bs)
  then show ?case by (cases gs) auto
qed

lemma mp_link_blocks_word:
  "mp_link_blocks offset n w i = (if offset \<le> i \<and> i < offset + n then LinkBlock (i + 1) else w i)"
  by (induction n arbitrary: offset w) auto

lemma free_chain_upto:
  assumes "\<And>i. a \<le> i \<Longrightarrow> i < a + n \<Longrightarrow> w i = LinkBlock (i + 1)" and "w (a + n) = LinkNull"
  shows "free_chain w (LinkBlock a) [a..<a + n + 1]"
  using assms
proof (induction n arbitrary: a)
  case (Suc n)
  have "free_chain w (LinkBlock (a + 1)) [a + 1..<a + 1 + n + 1]" using Suc.prems by (intro Suc.IH) auto
  then show ?case using Suc.prems(1) [of a] by (simp add: upt_rec)
qed simp

lemma mp_link_all_wf:
  assumes "mp_link_all nblocks w = Some w1"
  shows "free_chain w1 (LinkBlock 0) [0..<nblocks]" and "b < nblocks \<Longrightarrow> w1 b \<noteq> LinkPool"
proof -
  have t: "0 < nblocks" and w1: "w1 = (mp_link_blocks 0 nblocks w)(nblocks - 1 := LinkNull)"
    using assms by (auto simp: mp_link_all_def split: if_splits)
  have "free_chain w1 (LinkBlock 0) [0..<0 + (nblocks - 1) + 1]"
    by (rule free_chain_upto) (use t in \<open>auto simp: w1 mp_link_blocks_word\<close>)
  then show "free_chain w1 (LinkBlock 0) [0..<nblocks]" using t by simp
  show "b < nblocks \<Longrightarrow> w1 b \<noteq> LinkPool" by (simp add: w1 mp_link_blocks_word)
qed

lemma mp_init_wf:
  assumes "rt_mp_init i sz bs w k = Some (mp, k')"
  shows "mp_wf mp [0..<block_total_count mp]" and "0 < block_total_count mp"
    and "block_total_count mp * (unat (mp_block_size mp + 4)) \<le> unat sz"
proof -
  obtain w1 where w1: "mp_link_all (unat ((sz AND NOT 3) div (RT_ALIGN4 bs + 4))) w = Some w1"
    and mp: "mp = \<lparr>mp_id = i, mp_block_size = RT_ALIGN4 bs, mp_size = sz AND NOT 3,
      block_total_count = unat ((sz AND NOT 3) div (RT_ALIGN4 bs + 4)),
      block_free_count = unat ((sz AND NOT 3) div (RT_ALIGN4 bs + 4)), block_list = LinkBlock 0, block_word = w1\<rparr>"
    using assms by (auto simp: rt_mp_init_def Let_def bind_eq_Some_conv split: if_splits)
  show "mp_wf mp [0..<block_total_count mp]" using mp_link_all_wf [OF w1] by (auto simp: mp mp_wf_def)
  show "0 < block_total_count mp" using w1 by (auto simp: mp mp_link_all_def split: if_splits)
  have "unat ((sz AND NOT 3) div (RT_ALIGN4 bs + 4)) * unat (RT_ALIGN4 bs + 4) \<le> unat (sz AND NOT 3)"
    by (simp add: unat_div)
  also have "\<dots> \<le> unat sz" by (subst u32_align4) simp
  finally show "block_total_count mp * (unat (mp_block_size mp + 4)) \<le> unat sz" by (simp add: mp)
qed

section \<open>The pool as a stack of free blocks\<close>

fun mp_chain :: "nat \<Rightarrow> (nat \<Rightarrow> mp_link) \<Rightarrow> mp_link \<Rightarrow> nat list" where
  "mp_chain (Suc n) w (LinkBlock b) = b # mp_chain n w (w b)"
| "mp_chain n w l = []"

definition mp_free_blocks :: "rt_mempool \<Rightarrow> nat list" where
  "mp_free_blocks mp = mp_chain (block_free_count mp) (block_word mp) (block_list mp)"

lemma free_chain_mp_chain: "free_chain w l fs \<Longrightarrow> mp_chain (length fs) w l = fs"
  by (induction fs arbitrary: l) auto

lemma mp_wf_free_blocks: "mp_wf mp fs \<Longrightarrow> mp_free_blocks mp = fs"
  by (auto simp: mp_wf_def mp_free_blocks_def dest: free_chain_mp_chain)

datatype pool_op = PoolAlloc | PoolFree nat

fun pool_spec :: "nat \<times> nat list \<Rightarrow> pool_op \<Rightarrow> nat option \<times> nat \<times> nat list" where
  "pool_spec (n, []) PoolAlloc = (None, n, [])"
| "pool_spec (n, b # bs) PoolAlloc = (Some b, n, bs)"
| "pool_spec (n, fs) (PoolFree b) = (None, n, if b < n \<and> b \<notin> set fs then b # fs else fs)"

text \<open>A client frees only blocks it holds; for the others the step does nothing.\<close>

fun pool_step :: "rt_mempool \<times> kernel \<Rightarrow> pool_op \<Rightarrow> (nat option \<times> rt_mempool \<times> kernel) option" where
  "pool_step (mp, k) PoolAlloc = do { (_, r, mp', k') \<leftarrow> rt_mp_alloc mp 0 k; Some (r, mp', k') }"
| "pool_step (mp, k) (PoolFree b) =
     (if b < block_total_count mp \<and> block_word mp b = LinkPool
      then do { (mp', k') \<leftarrow> rt_mp_free (Some b) mp k; Some (None, mp', k') }
      else Some (None, mp, k))"

definition pool_inv :: "rt_mempool \<times> kernel \<Rightarrow> bool" where
  "pool_inv c \<longleftrightarrow> mp_wf (fst c) (mp_free_blocks (fst c)) \<and> ready_inv (snd c) \<and> running (snd c)"

definition pool_abs :: "rt_mempool \<times> kernel \<Rightarrow> nat \<times> nat list" where
  "pool_abs c = (block_total_count (fst c), mp_free_blocks (fst c))"

lemma mp_take_wf:
  assumes "mp_wf mp (b # fs)"
  shows "\<exists>mp'. mp_take mp = Some (b, mp') \<and> mp_wf mp' fs \<and> block_total_count mp' = block_total_count mp"
proof -
  have "free_chain ((block_word mp)(b := LinkPool)) (block_word mp b) fs"
    using assms free_chain_upd [of b fs] by (simp add: mp_wf_def)
  then show ?thesis using assms by (auto simp: mp_wf_def mp_take_def)
qed

lemma mp_alloc_now:
  assumes "mp_wf mp fs" and "rt_current_thread k = Some t"
  shows "rt_mp_alloc mp 0 k =
    (case fs of
       [] \<Rightarrow> Some (Returned 0, None, mp, upd_thread t (\<lambda>th. th\<lparr>error := - RT_ETIMEOUT\<rparr>) k)
     | b # _ \<Rightarrow> do { (c, mp') \<leftarrow> mp_take mp; Some (Returned 0, Some c, mp', k) })"
  using assms by (cases fs) (auto simp: rt_mp_alloc_def mp_alloc_try_def rt_thread_self_def mp_wf_def)

lemma mp_free_wf:
  assumes "mp_wf mp fs" and "b < block_total_count mp" and "block_word mp b = LinkPool"
  shows "mp_wf (mp\<lparr>block_free_count := block_free_count mp + 1,
      block_word := (block_word mp)(b := block_list mp), block_list := LinkBlock b\<rparr>) (b # fs)"
proof -
  have n: "b \<notin> set fs" using assms by (auto simp: mp_wf_def)
  have "block_list mp \<noteq> LinkPool" using assms(1) by (cases fs) (auto simp: mp_wf_def)
  then show ?thesis using assms n free_chain_upd [OF n] by (auto simp: mp_wf_def)
qed

text \<open>Freeing a block: it becomes the first free one and the waiter at the front can run.\<close>

lemma mp_free_ok:
  assumes wf: "mp_wf mp fs" and b: "b < block_total_count mp" "block_word mp b = LinkPool"
    and inv: "ready_inv k" "running k"
  shows "\<exists>mp' k'. rt_mp_free (Some b) mp k = Some (mp', k') \<and> mp_wf mp' (b # fs) \<and>
    block_total_count mp' = block_total_count mp \<and> ready_inv k' \<and> running k' \<and>
    (\<forall>t ts. tlists k (mp_waiters mp) = t # ts \<longrightarrow> runnable k' t \<and> tlists k' (mp_waiters mp) = ts)"
proof -
  let ?mp = "mp\<lparr>block_free_count := block_free_count mp + 1,
      block_word := (block_word mp)(b := block_list mp), block_list := LinkBlock b\<rparr>"
  have wf': "mp_wf ?mp (b # fs)" by (rule mp_free_wf [OF wf b])
  show ?thesis
  proof (cases "tlists k (mp_waiters mp)")
    case Nil
    then have "rt_mp_free (Some b) mp k = Some (?mp, k)" by (simp add: rt_mp_free_def b Let_def)
    then show ?thesis using wf' inv Nil by auto
  next
    case (Cons t ts)
    let ?k = "upd_thread t (\<lambda>th. th\<lparr>error := RT_EOK\<rparr>) k"
    have r: "ready_inv ?k" "running ?k"
      using upd_error_ready [OF inv(1)] inv(2) by (auto simp: running_def upd_error_frame kernel_simps)
    have q: "tlists ?k (mp_waiters mp) = t # ts" using Cons by (simp add: kernel_simps)
    obtain k1 k2 where k: "ipc_list_resume (mp_waiters mp) ?k = Some k1" "rt_schedule k1 = Some k2" "ready_inv k2"
        "running k2" "runnable k2 t" "tlists k2 (mp_waiters mp) = ts"
      using wake_first_ok [OF r _ q] by auto
    have "snd (rt_thread_resume t ?k) = k1" using k(1) q by (simp add: ipc_list_resume_def)
    then have "rt_mp_free (Some b) mp k = Some (?mp, k2)" using Cons k(2) by (simp add: rt_mp_free_def b Let_def)
    then show ?thesis using wf' k Cons by auto
  qed
qed

lemma pool_step_simulates:
  assumes "pool_inv c"
  shows "\<exists>r c'. pool_step c x = Some (r, c') \<and> pool_inv c' \<and> pool_spec (pool_abs c) x = (r, pool_abs c')"
proof -
  obtain mp k where c: "c = (mp, k)" by (cases c)
  obtain fs where fs: "mp_free_blocks mp = fs" by simp
  have wf: "mp_wf mp fs" and inv: "ready_inv k" "running k" using assms by (auto simp: pool_inv_def c fs)
  show ?thesis
  proof (cases x)
    case PoolAlloc
    obtain t where t: "rt_current_thread k = Some t" using inv(2) by (auto simp: running_def)
    show ?thesis
    proof (cases fs)
      case Nil
      have "running (upd_thread t (\<lambda>th. th\<lparr>error := - RT_ETIMEOUT\<rparr>) k)"
        using inv(2) by (auto simp: running_def upd_error_frame kernel_simps)
      then show ?thesis
        using mp_alloc_now [OF wf t] Nil wf upd_error_ready [OF inv(1)]
        by (simp add: PoolAlloc c pool_inv_def pool_abs_def fs)
    next
      case (Cons b bs)
      obtain mp' where mp': "mp_take mp = Some (b, mp')" "mp_wf mp' bs" "block_total_count mp' = block_total_count mp"
        using mp_take_wf [OF wf [unfolded Cons]] by blast
      then show ?thesis
        using mp_alloc_now [OF wf t] Cons inv mp_wf_free_blocks [OF mp'(2)]
        by (simp add: PoolAlloc c pool_inv_def pool_abs_def fs)
    qed
  next
    case (PoolFree b)
    show ?thesis
    proof (cases "b < block_total_count mp \<and> block_word mp b = LinkPool")
      case True
      obtain mp' k' where k': "rt_mp_free (Some b) mp k = Some (mp', k')" "mp_wf mp' (b # fs)"
          "block_total_count mp' = block_total_count mp" "ready_inv k'" "running k'"
        using mp_free_ok [OF wf _ _ inv, of b] True by blast
      have "b \<notin> set fs" using wf True by (auto simp: mp_wf_def)
      then show ?thesis using True k' mp_wf_free_blocks [OF k'(2)]
        by (simp add: PoolFree c pool_inv_def pool_abs_def fs)
    next
      case False
      then have "\<not> (b < block_total_count mp \<and> b \<notin> set fs)" using wf by (auto simp: mp_wf_def)
      then show ?thesis using False wf inv by (auto simp: PoolFree c pool_inv_def pool_abs_def fs)
    qed
  qed
qed

interpretation pool: data_refinement pool_step pool_spec pool_inv pool_abs "\<lambda>_. True"
  by unfold_locales (rule pool_step_simulates)

text \<open>
  Property C24. A memory pool is a stack of free blocks: from a freshly initialised pool every sequence of
  allocations without waiting and of releases by threads that hold the block runs to its end and returns what
  a stack holding the blocks in address order returns. So no block is handed out twice, a pool with a
  free block never refuses, and a release makes the block available again.
\<close>

theorem mempool_refines_stack:
  assumes "rt_mp_init i sz bs w k0 = Some (mp, k)" and "ready_inv k" and "running k"
  shows "\<exists>outs c. run_impl pool_step (mp, k) xs = Some (outs, c) \<and> pool_inv c \<and>
    run_spec pool_spec (block_total_count mp, [0..<block_total_count mp]) xs = (outs, pool_abs c)"
proof -
  have f: "mp_free_blocks mp = [0..<block_total_count mp]" by (rule mp_wf_free_blocks [OF mp_init_wf(1) [OF assms(1)]])
  then have "pool_inv (mp, k)" using mp_init_wf(1) [OF assms(1)] assms(2,3) by (simp add: pool_inv_def)
  then show ?thesis using pool.run_refines [of "(mp, k)" xs] by (simp add: pool_abs_def f list_all_iff)
qed

theorem mempool_refines_stack_witness:
  "\<exists>mp c. rt_mp_init 7 64 18 (\<lambda>_. LinkNull) sample_kernel = Some (mp, sample_kernel) \<and>
    run_impl pool_step (mp, sample_kernel) [PoolAlloc, PoolAlloc, PoolAlloc, PoolFree 0, PoolFree 0, PoolAlloc, PoolAlloc] =
      Some ([Some 0, Some 1, None, None, None, Some 0, None], c)"
proof -
  let ?ops = "[PoolAlloc, PoolAlloc, PoolAlloc, PoolFree 0, PoolFree 0, PoolAlloc, PoolAlloc]"
  have "ipc_object_init (SuspHead 7) sample_kernel = sample_kernel"
    by (rule ipc_object_init_ready [OF sample_ready_inv]) (simp add: sample_kernel_def)
  moreover have "RT_ALIGN4 18 = 20" "(64 :: u32) AND NOT 3 = 64" by code_simp+
  ultimately obtain mp where mp: "rt_mp_init 7 64 18 (\<lambda>_. LinkNull) sample_kernel = Some (mp, sample_kernel)"
      "block_total_count mp = 2"
    by (simp add: rt_mp_init_def mp_link_all_def)
  obtain outs c where "run_impl pool_step (mp, sample_kernel) ?ops = Some (outs, c)"
      "run_spec pool_spec (block_total_count mp, [0..<block_total_count mp]) ?ops = (outs, pool_abs c)"
    using mempool_refines_stack [OF mp(1) sample_ready_inv sample_running] by blast
  then show ?thesis using mp by (auto simp: upt_rec)
qed

end
