(* ===== verification/I2c.thy ===== *)
theory I2c
  imports Mutex
begin

unbundle bit_operations_syntax

text \<open>
  The I2C master in software (\<^verbatim>\<open>components/drivers/i2c/i2c-bit-ops.c\<close>), the bus core (\<^verbatim>\<open>i2c_core.c\<close>) and the pin
  functions of the board (\<^verbatim>\<open>drivers/drv_soft_i2c.c\<close>), over which the firmware talks to its sensors. The bus
  records what the master does with the two lines; what it reads from them, and the ticks it reads from the clock,
  are an environment. A decoder of the protocol (start and stop conditions, bits) reads the recorded lines.
  The theorems show that a transfer puts exactly the frames of its messages on the bus and returns the bits
  the devices send, and what happens when a device does not acknowledge.
\<close>

section \<open>The bus\<close>

text \<open>What the master does: drive or release a line, wait, or let other threads run.\<close>

datatype bus_event = Sda bool | Scl bool | Udelay u32 | Sleep u32

record i2c_bus =
  wire :: "bus_event list"
  sda_reads :: nat
  scl_reads :: nat
  clk_reads :: nat

text \<open>The levels found by the successive reads of the lines, and the ticks found by the reads of the clock.\<close>

record i2c_env =
  sda_in :: "nat \<Rightarrow> bool"
  scl_in :: "nat \<Rightarrow> bool"
  clk_in :: "nat \<Rightarrow> u32"

definition emit :: "bus_event \<Rightarrow> i2c_bus \<Rightarrow> i2c_bus" where
  "emit e b = b\<lparr>wire := wire b @ [e]\<rparr>"

definition bus_tick_get :: "i2c_env \<Rightarrow> i2c_bus \<Rightarrow> u32 \<times> i2c_bus" where
  "bus_tick_get env b = (clk_in env (clk_reads b), b\<lparr>clk_reads := clk_reads b + 1\<rparr>)"

record rt_i2c_bit_ops =
  set_sda :: "int \<Rightarrow> i2c_bus \<Rightarrow> i2c_bus"
  set_scl :: "int \<Rightarrow> i2c_bus \<Rightarrow> i2c_bus"
  get_sda :: "i2c_bus \<Rightarrow> int \<times> i2c_bus"
  get_scl :: "(i2c_bus \<Rightarrow> int \<times> i2c_bus) option"
  udelay :: "u32 \<Rightarrow> i2c_bus \<Rightarrow> i2c_bus"
  delay_us :: u32
  bit_timeout :: u32

section \<open>Pins of the board\<close>

definition stm32_set_sda :: "int \<Rightarrow> i2c_bus \<Rightarrow> i2c_bus" where
  "stm32_set_sda state b = (if state \<noteq> 0 then emit (Sda True) b else emit (Sda False) b)"

definition stm32_set_scl :: "int \<Rightarrow> i2c_bus \<Rightarrow> i2c_bus" where
  "stm32_set_scl state b = (if state \<noteq> 0 then emit (Scl True) b else emit (Scl False) b)"

definition stm32_get_sda :: "i2c_env \<Rightarrow> i2c_bus \<Rightarrow> int \<times> i2c_bus" where
  "stm32_get_sda env b = (of_bool (sda_in env (sda_reads b)), b\<lparr>sda_reads := sda_reads b + 1\<rparr>)"

definition stm32_get_scl :: "i2c_env \<Rightarrow> i2c_bus \<Rightarrow> int \<times> i2c_bus" where
  "stm32_get_scl env b = (of_bool (scl_in env (scl_reads b)), b\<lparr>scl_reads := scl_reads b + 1\<rparr>)"

text \<open>The busy loop of \<^verbatim>\<open>stm32_udelay\<close> on the system timer only takes time.\<close>

definition stm32_bit_ops_default :: "i2c_env \<Rightarrow> rt_i2c_bit_ops" where
  "stm32_bit_ops_default env =
     \<lparr>set_sda = stm32_set_sda, set_scl = stm32_set_scl, get_sda = stm32_get_sda env, get_scl = Some (stm32_get_scl env),
      udelay = (\<lambda>us. emit (Udelay us)), delay_us = 1, bit_timeout = 100\<rparr>"

text \<open>The pins as \<^verbatim>\<open>stm32_i2c_gpio_init\<close> leaves them: both released.\<close>

definition stm32_i2c_gpio_init :: "i2c_bus \<Rightarrow> i2c_bus" where
  "stm32_i2c_gpio_init b = emit (Sda True) (emit (Scl True) b)"

fun unlock_loop :: "nat \<Rightarrow> i2c_bus \<Rightarrow> i2c_bus" where
  "unlock_loop 0 b = b"
| "unlock_loop (Suc n) b = unlock_loop n (emit (Udelay 100) (emit (Scl False) (emit (Udelay 100) (emit (Scl True) b))))"

definition stm32_i2c_bus_unlock :: "i2c_env \<Rightarrow> i2c_bus \<Rightarrow> int \<times> i2c_bus" where
  "stm32_i2c_bus_unlock env b =
     (let (v, b1) = stm32_get_sda env b;
          b2 = (if v = 0 then unlock_loop 9 b1 else b1);
          (v', b3) = stm32_get_sda env b2
      in if v' = 0 then (- RT_ERROR, b3) else (RT_EOK, b3))"

section \<open>The bits\<close>

definition i2c_delay :: "rt_i2c_bit_ops \<Rightarrow> i2c_bus \<Rightarrow> i2c_bus" where
  "i2c_delay ops b = udelay ops (drop_bit 1 (delay_us ops + 1)) b"

definition i2c_delay2 :: "rt_i2c_bit_ops \<Rightarrow> i2c_bus \<Rightarrow> i2c_bus" where
  "i2c_delay2 ops b = udelay ops (delay_us ops) b"

text \<open>The loop that waits until no device holds the clock line low.\<close>

partial_function (option) scl_wait ::
  "rt_i2c_bit_ops \<Rightarrow> i2c_env \<Rightarrow> (i2c_bus \<Rightarrow> int \<times> i2c_bus) \<Rightarrow> u32 \<Rightarrow> i2c_bus \<Rightarrow> (int \<times> i2c_bus) option" where
  "scl_wait ops env getscl start b =
     (let (v, b1) = getscl b in
      if v \<noteq> 0 then Some (RT_EOK, b1)
      else let (now, b2) = bus_tick_get env b1 in
        if now - start > bit_timeout ops then Some (- RT_ETIMEOUT, b2)
        else scl_wait ops env getscl start (emit (Sleep (drop_bit 1 (bit_timeout ops + 1))) b2))"

definition SCL_H :: "rt_i2c_bit_ops \<Rightarrow> i2c_env \<Rightarrow> i2c_bus \<Rightarrow> (int \<times> i2c_bus) option" where
  "SCL_H ops env b =
     (let b1 = set_scl ops 1 b in
      case get_scl ops of
        None \<Rightarrow> Some (RT_EOK, i2c_delay ops b1)
      | Some getscl \<Rightarrow>
          let (start, b2) = bus_tick_get env b1 in
          do { (rc, b3) \<leftarrow> scl_wait ops env getscl start b2;
               if rc = RT_EOK then Some (RT_EOK, i2c_delay ops b3) else Some (rc, b3) })"

definition i2c_start :: "rt_i2c_bit_ops \<Rightarrow> i2c_bus \<Rightarrow> i2c_bus" where
  "i2c_start ops b = set_scl ops 0 (i2c_delay ops (set_sda ops 0 b))"

definition i2c_restart :: "rt_i2c_bit_ops \<Rightarrow> i2c_env \<Rightarrow> i2c_bus \<Rightarrow> i2c_bus option" where
  "i2c_restart ops env b =
     do { (_, b1) \<leftarrow> SCL_H ops env (set_sda ops 1 b);
          Some (set_scl ops 0 (i2c_delay ops (set_sda ops 0 (i2c_delay ops b1)))) }"

definition i2c_stop :: "rt_i2c_bit_ops \<Rightarrow> i2c_env \<Rightarrow> i2c_bus \<Rightarrow> i2c_bus option" where
  "i2c_stop ops env b =
     do { (_, b1) \<leftarrow> SCL_H ops env (i2c_delay ops (set_sda ops 0 b));
          Some (i2c_delay2 ops (set_sda ops 1 (i2c_delay ops b1))) }"

definition i2c_waitack :: "rt_i2c_bit_ops \<Rightarrow> i2c_env \<Rightarrow> i2c_bus \<Rightarrow> (int \<times> i2c_bus) option" where
  "i2c_waitack ops env b =
     do { (rc, b1) \<leftarrow> SCL_H ops env (i2c_delay ops (set_sda ops 1 b));
          if rc < 0 then Some (- RT_ETIMEOUT, b1)
          else let (v, b2) = get_sda ops b1 in Some (if v = 0 then 1 else 0, set_scl ops 0 b2) }"

text \<open>The loop of \<^verbatim>\<open>i2c_writeb\<close> with \<open>n = i + 1\<close> bits to go; it gives whether the clock line came up.\<close>

fun writeb_loop :: "rt_i2c_bit_ops \<Rightarrow> i2c_env \<Rightarrow> u8 \<Rightarrow> nat \<Rightarrow> i2c_bus \<Rightarrow> (bool \<times> i2c_bus) option" where
  "writeb_loop ops env data 0 b = Some (True, b)"
| "writeb_loop ops env data (Suc i) b =
     do { (rc, b1) \<leftarrow> SCL_H ops env (i2c_delay ops (set_sda ops (uint (drop_bit i data AND 1)) (set_scl ops 0 b)));
          if rc < 0 then Some (False, b1) else writeb_loop ops env data i b1 }"

definition i2c_writeb :: "rt_i2c_bit_ops \<Rightarrow> i2c_env \<Rightarrow> u8 \<Rightarrow> i2c_bus \<Rightarrow> (int \<times> i2c_bus) option" where
  "i2c_writeb ops env data b =
     do { (ok, b1) \<leftarrow> writeb_loop ops env data 8 b;
          if \<not> ok then Some (- RT_ETIMEOUT, b1)
          else i2c_waitack ops env (i2c_delay ops (set_scl ops 0 b1)) }"

fun readb_loop :: "rt_i2c_bit_ops \<Rightarrow> i2c_env \<Rightarrow> nat \<Rightarrow> u8 \<Rightarrow> i2c_bus \<Rightarrow> (int \<times> i2c_bus) option" where
  "readb_loop ops env 0 data b = Some (uint data, b)"
| "readb_loop ops env (Suc n) data b =
     do { (rc, b1) \<leftarrow> SCL_H ops env b;
          if rc < 0 then Some (- RT_ETIMEOUT, b1)
          else let (v, b2) = get_sda ops b1;
                   data1 = push_bit 1 data;
                   data2 = (if v \<noteq> 0 then data1 OR 1 else data1)
            in readb_loop ops env n data2 (i2c_delay2 ops (set_scl ops 0 b2)) }"

definition i2c_readb :: "rt_i2c_bit_ops \<Rightarrow> i2c_env \<Rightarrow> i2c_bus \<Rightarrow> (int \<times> i2c_bus) option" where
  "i2c_readb ops env b = readb_loop ops env 8 0 (i2c_delay ops (set_sda ops 1 b))"

section \<open>Messages\<close>

definition RT_I2C_RD :: u16 where "RT_I2C_RD = 1"
definition RT_I2C_ADDR_10BIT :: u16 where "RT_I2C_ADDR_10BIT = 4"
definition RT_I2C_NO_START :: u16 where "RT_I2C_NO_START = 0x10"
definition RT_I2C_IGNORE_NACK :: u16 where "RT_I2C_IGNORE_NACK = 0x20"
definition RT_I2C_NO_READ_ACK :: u16 where "RT_I2C_NO_READ_ACK = 0x40"
definition RT_I2C_NO_STOP :: u16 where "RT_I2C_NO_STOP = 0x80"

text \<open>\<open>msg_buf\<close> is the memory behind the pointer \<^verbatim>\<open>buf\<close>.\<close>

record rt_i2c_msg =
  msg_addr :: u16
  msg_flags :: u16
  msg_len :: u16
  msg_buf :: bytes

definition flag_set :: "u16 \<Rightarrow> rt_i2c_msg \<Rightarrow> bool" where
  "flag_set f m \<longleftrightarrow> msg_flags m AND f \<noteq> 0"

fun send_loop_bytes ::
  "rt_i2c_bit_ops \<Rightarrow> i2c_env \<Rightarrow> rt_i2c_msg \<Rightarrow> nat \<Rightarrow> nat \<Rightarrow> i2c_bus \<Rightarrow> (int \<times> i2c_bus) option" where
  "send_loop_bytes ops env m ptr 0 b = Some (int ptr, b)"
| "send_loop_bytes ops env m ptr (Suc n) b =
     do { c \<leftarrow> mem_get (msg_buf m) ptr;
          (ret, b1) \<leftarrow> i2c_writeb ops env c b;
          if ret > 0 \<or> flag_set RT_I2C_IGNORE_NACK m \<and> ret = 0 then send_loop_bytes ops env m (ptr + 1) n b1
          else if ret = 0 then Some (0, b1)
          else Some (ret, b1) }"

definition i2c_send_bytes :: "rt_i2c_bit_ops \<Rightarrow> i2c_env \<Rightarrow> rt_i2c_msg \<Rightarrow> i2c_bus \<Rightarrow> (int \<times> i2c_bus) option" where
  "i2c_send_bytes ops env m b = send_loop_bytes ops env m 0 (unat (msg_len m)) b"

definition i2c_send_ack_or_nack :: "rt_i2c_bit_ops \<Rightarrow> i2c_env \<Rightarrow> bool \<Rightarrow> i2c_bus \<Rightarrow> (int \<times> i2c_bus) option" where
  "i2c_send_ack_or_nack ops env ack b =
     do { (rc, b1) \<leftarrow> SCL_H ops env (i2c_delay ops (if ack then set_sda ops 0 b else b));
          if rc < 0 then Some (- RT_ETIMEOUT, b1) else Some (RT_EOK, set_scl ops 0 b1) }"

fun recv_loop_bytes ::
  "rt_i2c_bit_ops \<Rightarrow> i2c_env \<Rightarrow> nat \<Rightarrow> nat \<Rightarrow> rt_i2c_msg \<Rightarrow> i2c_bus \<Rightarrow> (int \<times> rt_i2c_msg \<times> i2c_bus) option" where
  "recv_loop_bytes ops env ptr 0 m b = Some (int ptr, m, b)"
| "recv_loop_bytes ops env ptr (Suc n) m b =
     do { (val, b1) \<leftarrow> i2c_readb ops env b;
          if val \<ge> 0 then
            do { buf \<leftarrow> mem_put (msg_buf m) ptr (word_of_int val);
                 let m1 = m\<lparr>msg_buf := buf\<rparr>;
                 if flag_set RT_I2C_NO_READ_ACK m then recv_loop_bytes ops env (ptr + 1) n m1 b1
                 else do { (rc, b2) \<leftarrow> i2c_send_ack_or_nack ops env (n \<noteq> 0) b1;
                           if rc < 0 then Some (rc, m1, b2) else recv_loop_bytes ops env (ptr + 1) n m1 b2 } }
          else Some (int ptr, m, b1) }"

definition i2c_recv_bytes :: "rt_i2c_bit_ops \<Rightarrow> i2c_env \<Rightarrow> rt_i2c_msg \<Rightarrow> i2c_bus \<Rightarrow> (int \<times> rt_i2c_msg \<times> i2c_bus) option" where
  "i2c_recv_bytes ops env m b = recv_loop_bytes ops env 0 (unat (msg_len m)) m b"

text \<open>\<open>n\<close> retries are left (the number of retries is taken to fit the signed \<^verbatim>\<open>retries\<close>).\<close>

fun i2c_send_address :: "rt_i2c_bit_ops \<Rightarrow> i2c_env \<Rightarrow> u8 \<Rightarrow> nat \<Rightarrow> i2c_bus \<Rightarrow> (int \<times> i2c_bus) option" where
  "i2c_send_address ops env addr 0 b = i2c_writeb ops env addr b"
| "i2c_send_address ops env addr (Suc n) b =
     do { (ret, b1) \<leftarrow> i2c_writeb ops env addr b;
          if ret = 1 then Some (ret, b1)
          else do { b2 \<leftarrow> i2c_stop ops env b1;
                    i2c_send_address ops env addr n (i2c_start ops (i2c_delay2 ops b2)) } }"

definition i2c_bit_send_address :: "rt_i2c_bit_ops \<Rightarrow> i2c_env \<Rightarrow> nat \<Rightarrow> rt_i2c_msg \<Rightarrow> i2c_bus \<Rightarrow> (int \<times> i2c_bus) option" where
  "i2c_bit_send_address ops env bus_retries m b =
     (let ignore_nack = flag_set RT_I2C_IGNORE_NACK m;
          retries = (if ignore_nack then 0 else bus_retries)
      in if flag_set RT_I2C_ADDR_10BIT m then
           let addr1 = 0xf0 OR (ucast (drop_bit 7 (msg_addr m)) AND 0x06) :: u8;
               addr2 = ucast (msg_addr m AND 0xff) :: u8
           in do { (ret, b1) \<leftarrow> i2c_send_address ops env addr1 retries b;
                   if ret \<noteq> 1 \<and> \<not> ignore_nack then Some (- RT_EIO, b1)
                   else do {
                     (ret, b2) \<leftarrow> i2c_writeb ops env addr2 b1;
                     if ret \<noteq> 1 \<and> \<not> ignore_nack then Some (- RT_EIO, b2)
                     else if flag_set RT_I2C_RD m then
                       do { b3 \<leftarrow> i2c_restart ops env b2;
                            (ret, b4) \<leftarrow> i2c_send_address ops env (addr1 OR 0x01) retries b3;
                            if ret \<noteq> 1 \<and> \<not> ignore_nack then Some (- RT_EIO, b4) else Some (RT_EOK, b4) }
                     else Some (RT_EOK, b2) } }
         else
           let addr1 = push_bit 1 (ucast (msg_addr m)) :: u8;
               addr1 = (if flag_set RT_I2C_RD m then addr1 OR 1 else addr1)
           in do { (ret, b1) \<leftarrow> i2c_send_address ops env addr1 retries b;
                   if ret \<noteq> 1 \<and> \<not> ignore_nack then Some (- RT_EIO, b1) else Some (RT_EOK, b1) })"

text \<open>One message, the number \<open>i\<close>: the error when the code jumps to \<^verbatim>\<open>out\<close>.\<close>

definition xfer_start :: "rt_i2c_bit_ops \<Rightarrow> i2c_env \<Rightarrow> nat \<Rightarrow> nat \<Rightarrow> rt_i2c_msg \<Rightarrow> i2c_bus \<Rightarrow> (int \<times> i2c_bus) option" where
  "xfer_start ops env bus_retries i m b =
     (if flag_set RT_I2C_NO_START m then Some (RT_EOK, b)
      else do { b1 \<leftarrow> (if i \<noteq> 0 then i2c_restart ops env b else Some (i2c_start ops b));
                i2c_bit_send_address ops env bus_retries m b1 })"

definition xfer_msg ::
  "rt_i2c_bit_ops \<Rightarrow> i2c_env \<Rightarrow> nat \<Rightarrow> nat \<Rightarrow> rt_i2c_msg \<Rightarrow> i2c_bus \<Rightarrow> (int option \<times> rt_i2c_msg \<times> i2c_bus) option" where
  "xfer_msg ops env bus_retries i m b =
     do { (ret, b1) \<leftarrow> xfer_start ops env bus_retries i m b;
          if ret \<noteq> RT_EOK \<and> \<not> flag_set RT_I2C_IGNORE_NACK m then Some (Some ret, m, b1)
          else if flag_set RT_I2C_RD m then
            do { (ret, m1, b2) \<leftarrow> i2c_recv_bytes ops env m b1;
                 if ret < uint (msg_len m) then Some (Some (if ret \<ge> 0 then - RT_EIO else ret), m1, b2)
                 else Some (None, m1, b2) }
          else
            do { (ret, b2) \<leftarrow> i2c_send_bytes ops env m b1;
                 if ret < uint (msg_len m) then Some (Some (if ret \<ge> 0 then - RT_ERROR else ret), m, b2)
                 else Some (None, m, b2) } }"

text \<open>The result is the code, the message at which the loop ended (\<^verbatim>\<open>msg\<close>), and the messages.\<close>

fun xfer_loop ::
  "rt_i2c_bit_ops \<Rightarrow> i2c_env \<Rightarrow> nat \<Rightarrow> nat \<Rightarrow> rt_i2c_msg \<Rightarrow> rt_i2c_msg list \<Rightarrow> i2c_bus \<Rightarrow>
     (int \<times> rt_i2c_msg \<times> rt_i2c_msg list \<times> i2c_bus) option" where
  "xfer_loop ops env bus_retries i msg [] b = Some (int i, msg, [], b)"
| "xfer_loop ops env bus_retries i msg (m # ms) b =
     do { (err, m1, b1) \<leftarrow> xfer_msg ops env bus_retries i m b;
          case err of
            Some ret \<Rightarrow> Some (ret, m1, m1 # ms, b1)
          | None \<Rightarrow> do { (ret, msg', ms1, b2) \<leftarrow> xfer_loop ops env bus_retries (i + 1) m1 ms b1;
                         Some (ret, msg', m1 # ms1, b2) } }"

definition i2c_bit_xfer ::
  "rt_i2c_bit_ops \<Rightarrow> i2c_env \<Rightarrow> nat \<Rightarrow> rt_i2c_msg list \<Rightarrow> i2c_bus \<Rightarrow> (int \<times> rt_i2c_msg list \<times> i2c_bus) option" where
  "i2c_bit_xfer ops env bus_retries msgs b =
     (if msgs = [] then Some (0, msgs, b)
      else do { (ret, msg, msgs1, b1) \<leftarrow> xfer_loop ops env bus_retries 0 (hd msgs) msgs b;
                b2 \<leftarrow> (if flag_set RT_I2C_NO_STOP msg then Some b1 else i2c_stop ops env b1);
                Some (ret, msgs1, b2) })"

section \<open>The bus core\<close>

text \<open>
  A transfer under the lock of the bus. While it runs other threads may run (it sleeps when a device stretches
  the clock); \<open>meanwhile\<close> is what they do to the kernel. \<open>Inl t\<close> is a thread blocked on the lock. The result
  is converted to the unsigned \<^verbatim>\<open>rt_size_t\<close>.
\<close>

definition rt_i2c_transfer ::
  "rt_i2c_bit_ops \<Rightarrow> i2c_env \<Rightarrow> nat \<Rightarrow> (kernel \<Rightarrow> kernel) \<Rightarrow> rt_i2c_msg list \<Rightarrow> i2c_bus \<Rightarrow> rt_mutex \<Rightarrow> kernel \<Rightarrow>
     ((tid + u32 \<times> rt_i2c_msg list \<times> i2c_bus) \<times> rt_mutex \<times> kernel) option" where
  "rt_i2c_transfer ops env bus_retries meanwhile msgs b lock k =
     do { (res, lock1, k1) \<leftarrow> rt_mutex_take lock RT_WAITING_FOREVER k;
          case res of
            Blocked t \<Rightarrow> Some (Inl t, lock1, k1)
          | Returned _ \<Rightarrow>
              do { (ret, msgs1, b1) \<leftarrow> i2c_bit_xfer ops env bus_retries msgs b;
                   (_, lock2, k2) \<leftarrow> rt_mutex_release lock1 (meanwhile k1);
                   Some (Inr (word_of_int ret, msgs1, b1), lock2, k2) } }"

definition rt_i2c_master_send ::
  "rt_i2c_bit_ops \<Rightarrow> i2c_env \<Rightarrow> nat \<Rightarrow> (kernel \<Rightarrow> kernel) \<Rightarrow> u16 \<Rightarrow> u16 \<Rightarrow> bytes \<Rightarrow> u32 \<Rightarrow> i2c_bus \<Rightarrow> rt_mutex \<Rightarrow> kernel \<Rightarrow>
     ((tid + u32 \<times> rt_i2c_msg list \<times> i2c_bus) \<times> rt_mutex \<times> kernel) option" where
  "rt_i2c_master_send ops env bus_retries meanwhile addr flags buf count b lock k =
     do { (res, lock1, k1) \<leftarrow> rt_i2c_transfer ops env bus_retries meanwhile
            [\<lparr>msg_addr = addr, msg_flags = flags, msg_len = ucast count, msg_buf = buf\<rparr>] b lock k;
          Some (map_sum id (\<lambda>(ret, msgs, b1). (if ret > 0 then count else ret, msgs, b1)) res, lock1, k1) }"

definition rt_i2c_master_recv ::
  "rt_i2c_bit_ops \<Rightarrow> i2c_env \<Rightarrow> nat \<Rightarrow> (kernel \<Rightarrow> kernel) \<Rightarrow> u16 \<Rightarrow> u16 \<Rightarrow> bytes \<Rightarrow> u32 \<Rightarrow> i2c_bus \<Rightarrow> rt_mutex \<Rightarrow> kernel \<Rightarrow>
     ((tid + u32 \<times> rt_i2c_msg list \<times> i2c_bus) \<times> rt_mutex \<times> kernel) option" where
  "rt_i2c_master_recv ops env bus_retries meanwhile addr flags buf count b lock k =
     do { (res, lock1, k1) \<leftarrow> rt_i2c_transfer ops env bus_retries meanwhile
            [\<lparr>msg_addr = addr, msg_flags = flags OR RT_I2C_RD, msg_len = ucast count, msg_buf = buf\<rparr>] b lock k;
          Some (map_sum id (\<lambda>(ret, msgs, b1). (if ret > 0 then count else ret, msgs, b1)) res, lock1, k1) }"

section \<open>What an observer of the lines sees\<close>

datatype i2c_sym = StartCond | StopCond | DataBit bool

text \<open>
  The state of an observer: the two lines, and whether the data line has kept its level since the clock line
  rose. A change of the data line while the clock line is high is a start or stop condition; a bit is
  seen when the clock line falls after a high period without one.
\<close>

fun observe_event :: "bool \<times> bool \<times> bool \<Rightarrow> bus_event \<Rightarrow> (bool \<times> bool \<times> bool) \<times> i2c_sym list" where
  "observe_event (sda, scl, steady) (Sda v) =
     (if v = sda then ((sda, scl, steady), [])
      else if scl then ((v, scl, False), [if v then StopCond else StartCond])
      else ((v, scl, steady), []))"
| "observe_event (sda, scl, steady) (Scl v) =
     (if v = scl then ((sda, scl, steady), [])
      else if v then ((sda, True, True), [])
      else ((sda, False, False), if steady then [DataBit sda] else []))"
| "observe_event st (Udelay us) = (st, [])"
| "observe_event st (Sleep ticks) = (st, [])"

fun observe :: "bool \<times> bool \<times> bool \<Rightarrow> bus_event list \<Rightarrow> (bool \<times> bool \<times> bool) \<times> i2c_sym list" where
  "observe st [] = (st, [])"
| "observe st (e # es) =
     (case observe_event st e of (st1, ss1) \<Rightarrow> case observe st1 es of (st2, ss2) \<Rightarrow> (st2, ss1 @ ss2))"

lemma observe_append:
  "observe st (xs @ ys) = (case observe st xs of (st1, ss1) \<Rightarrow> case observe st1 ys of (st2, ss2) \<Rightarrow> (st2, ss1 @ ss2))"
  by (induction xs arbitrary: st) (auto split: prod.splits)

lemma observe_append_eq:
  "observe st xs = (st1, ss1) \<Longrightarrow> observe st1 ys = (st2, ss2) \<Longrightarrow> observe st (xs @ ys) = (st2, ss1 @ ss2)"
  by (simp add: observe_append)

text \<open>The bus is idle, or in the middle of a transfer with the clock line low, after the symbols \<open>ss\<close> and \<open>n\<close> reads of the data line.\<close>

definition idle_bus :: "i2c_sym list \<Rightarrow> nat \<Rightarrow> i2c_bus \<Rightarrow> bool" where
  "idle_bus ss n b \<longleftrightarrow> observe (True, True, False) (wire b) = ((True, True, False), ss) \<and> sda_reads b = n"

definition busy_bus :: "bool \<Rightarrow> i2c_sym list \<Rightarrow> nat \<Rightarrow> i2c_bus \<Rightarrow> bool" where
  "busy_bus sda ss n b \<longleftrightarrow> observe (True, True, False) (wire b) = ((sda, False, False), ss) \<and> sda_reads b = n"

text \<open>Events without an effect on the lines, and the change of a bus by the line events \<open>es\<close> and \<open>n\<close> reads.\<close>

fun is_line :: "bus_event \<Rightarrow> bool" where
  "is_line (Sda v) = True" | "is_line (Scl v) = True" | "is_line e = False"

definition drives :: "bus_event list \<Rightarrow> nat \<Rightarrow> i2c_bus \<Rightarrow> i2c_bus \<Rightarrow> bool" where
  "drives es n b b' \<longleftrightarrow> filter is_line (wire b') = filter is_line (wire b) @ es \<and> sda_reads b' = sda_reads b + n"

lemma observe_filter: "observe st (filter is_line es) = observe st es"
proof (induction es arbitrary: st)
  case (Cons e es)
  then show ?case by (cases e; cases st) (auto split: prod.splits)
qed simp

lemma drives_observe:
  assumes "drives es n b b'" and "observe (True, True, False) (wire b) = (st, ss)"
  shows "observe (True, True, False) (wire b') = (case observe st es of (st', ss') \<Rightarrow> (st', ss @ ss'))"
  using assms observe_filter [of "(True, True, False)" "wire b"] observe_filter [of "(True, True, False)" "wire b'"]
  by (simp add: drives_def observe_append)

lemma drives_trans [trans]: "drives es n b b1 \<Longrightarrow> drives es' n' b1 b2 \<Longrightarrow> drives (es @ es') (n + n') b b2"
  by (simp add: drives_def)

lemma drives_refl: "drives [] 0 b b"
  by (simp add: drives_def)

lemma busy_from_idle:
  "idle_bus ss n b \<Longrightarrow> drives es m b b' \<Longrightarrow> observe (True, True, False) es = ((sda, False, False), ss') \<Longrightarrow>
   busy_bus sda (ss @ ss') (n + m) b'"
  by (auto simp: idle_bus_def busy_bus_def drives_observe) (simp_all add: drives_def)

lemma busy_from_busy:
  "busy_bus s ss n b \<Longrightarrow> drives es m b b' \<Longrightarrow> observe (s, False, False) es = ((sda, False, False), ss') \<Longrightarrow>
   busy_bus sda (ss @ ss') (n + m) b'"
  by (auto simp: busy_bus_def drives_observe) (simp_all add: drives_def)

lemma idle_from_busy:
  "busy_bus s ss n b \<Longrightarrow> drives es m b b' \<Longrightarrow> observe (s, False, False) es = ((True, True, False), ss') \<Longrightarrow>
   idle_bus (ss @ ss') (n + m) b'"
  by (auto simp: busy_bus_def idle_bus_def drives_observe) (simp_all add: drives_def)

section \<open>Frames\<close>

definition byte_bits :: "u8 \<Rightarrow> bool list" where
  "byte_bits d = map (bit d) (rev [0..<8])"

definition byte_of_bits :: "bool list \<Rightarrow> u8" where
  "byte_of_bits vs = foldl (\<lambda>d v. 2 * d + of_bool v) 0 vs"

text \<open>Reading the bits of a byte is the inverse of sending them.\<close>

lemma bit_shift_in: "bit (2 * d + of_bool v :: u8) i \<longleftrightarrow> i < 8 \<and> (if i = 0 then v else bit d (i - 1))"
proof -
  have e: "2 * d + of_bool v = push_bit 1 d OR of_bool v" by (cases v) (simp_all add: push_bit_eq_mult or_one_eq mult.commute)
  show ?thesis unfolding e bit_or_iff bit_push_bit_iff by (cases v) (auto simp: bit_1_iff)
qed

lemma bit_byte_of_bits: "bit (byte_of_bits vs) i \<longleftrightarrow> i < 8 \<and> i < length vs \<and> rev vs ! i"
proof (induction vs arbitrary: i rule: rev_induct)
  case (snoc v vs)
  have "byte_of_bits (vs @ [v]) = 2 * byte_of_bits vs + of_bool v" by (simp add: byte_of_bits_def)
  then show ?case using snoc.IH [of "i - 1"] by (cases i) (auto simp: bit_shift_in)
qed (simp add: byte_of_bits_def)

lemma byte_bits_of_bits: "length vs = 8 \<Longrightarrow> byte_bits (byte_of_bits vs) = vs"
  by (rule nth_equalityI) (auto simp: byte_bits_def bit_byte_of_bits rev_nth)

text \<open>A byte the master sends, with the ninth bit left to the device; and one it reads, with its own ninth bit.\<close>

definition write_frame :: "u8 \<Rightarrow> i2c_sym list" where
  "write_frame d = map DataBit (byte_bits d) @ [DataBit True]"

definition read_frame :: "bool \<Rightarrow> i2c_sym list" where
  "read_frame ack = replicate 8 (DataBit True) @ [DataBit (\<not> ack)]"

definition write_events :: "bool list \<Rightarrow> bus_event list" where
  "write_events vs = concat (map (\<lambda>v. [Scl False, Sda v, Scl True]) vs)"

lemma observe_write_events:
  "observe (s, h, h) (write_events vs @ [Scl False]) =
     ((last (s # vs), False, False), (if h then [DataBit s] else []) @ map DataBit vs)"
  by (induction vs arbitrary: s h) (auto simp: write_events_def)

lemma observe_pieces:
  "observe (s, False, False) [Sda True, Scl True, Scl False] = ((True, False, False), [DataBit True])"
  "observe (s, False, False) [Sda True, Scl True, Sda False, Scl False] = ((False, False, False), [StartCond])"
  "observe (s, False, False) [Sda False, Scl True, Sda True] = ((True, True, False), [StopCond])"
  "observe (True, True, False) [Sda False, Scl False] = ((False, False, False), [StartCond])"
  by (cases s; simp)+

lemma observe_write_frame:
  "observe (s, False, False) (write_events (byte_bits d) @ [Scl False] @ [Sda True, Scl True, Scl False]) =
     ((True, False, False), write_frame d)"
proof -
  have "observe (s, False, False) ((write_events (byte_bits d) @ [Scl False]) @ [Sda True, Scl True, Scl False]) =
     ((True, False, False), map DataBit (byte_bits d) @ [DataBit True])"
    by (rule observe_append_eq [OF observe_write_events [where h = False, unfolded if_False append_Nil]]) (rule observe_pieces)
  then show ?thesis by (simp add: write_frame_def)
qed

lemma observe_read_bits:
  "observe (True, False, False) (concat (replicate n [Scl True, Scl False])) = ((True, False, False), replicate n (DataBit True))"
  by (induction n) auto

section \<open>The interface of the pins\<close>

text \<open>What the master relies on: every pin function does to its line, and only to it, what its name says.\<close>

locale i2c_lines =
  fixes ops :: rt_i2c_bit_ops and env :: i2c_env
  assumes set_sda_law: "set_sda ops v b = emit (Sda (v \<noteq> 0)) b"
    and set_scl_law: "set_scl ops v b = emit (Scl (v \<noteq> 0)) b"
    and get_sda_law: "get_sda ops b = (of_bool (sda_in env (sda_reads b)), b\<lparr>sda_reads := sda_reads b + 1\<rparr>)"
    and get_scl_law: "get_scl ops = Some (\<lambda>b. (of_bool (scl_in env (scl_reads b)), b\<lparr>scl_reads := scl_reads b + 1\<rparr>))"
    and udelay_law: "udelay ops us b = emit (Udelay us) b"

text \<open>
  No device holds the clock line low for longer than the timeout: whenever the master begins to wait, one of
  its reads finds the line high before the clock shows more than the timeout.
\<close>

definition clock_released :: "u32 \<Rightarrow> i2c_env \<Rightarrow> bool" where
  "clock_released limit env \<longleftrightarrow>
     (\<forall>n m. \<exists>k. scl_in env (n + k) \<and> (\<forall>j < k. clk_in env (m + 1 + j) - clk_in env m \<le> limit))"

context i2c_lines
begin

lemma drives_emit:
  "drives [Sda v] 0 b (emit (Sda v) b)" "drives [Scl v] 0 b (emit (Scl v) b)"
  "drives [] 0 b (emit (Udelay us) b)" "drives [] 0 b (emit (Sleep us) b)"
  by (simp_all add: drives_def emit_def)

lemma drives_ops:
  "drives [Sda (v \<noteq> 0)] 0 b (set_sda ops v b)" "drives [Scl (v \<noteq> 0)] 0 b (set_scl ops v b)"
  "drives [] 0 b (i2c_delay ops b)" "drives [] 0 b (i2c_delay2 ops b)"
  by (simp_all add: set_sda_law set_scl_law udelay_law i2c_delay_def i2c_delay2_def drives_emit)

lemmas line_simps = drives_def emit_def set_sda_law set_scl_law udelay_law i2c_delay_def i2c_delay2_def

lemma scl_wait_ok:
  assumes "get_scl ops = Some g"
  shows "scl_in env (scl_reads b + k) \<Longrightarrow> \<forall>j < k. clk_in env (clk_reads b + j) - start \<le> bit_timeout ops \<Longrightarrow>
    \<exists>b'. scl_wait ops env g start b = Some (RT_EOK, b') \<and> drives [] 0 b b'"
proof (induction k arbitrary: b)
  case 0
  then show ?case using assms get_scl_law by (subst scl_wait.simps) (auto simp: drives_def)
next
  case (Suc k)
  have g: "g b = (of_bool (scl_in env (scl_reads b)), b\<lparr>scl_reads := scl_reads b + 1\<rparr>)" for b
    using assms get_scl_law by auto
  show ?case
  proof (cases "scl_in env (scl_reads b)")
    case True
    then show ?thesis by (subst scl_wait.simps) (auto simp: g drives_def)
  next
    case False
    let ?b = "emit (Sleep (drop_bit 1 (bit_timeout ops + 1)))
      (b\<lparr>scl_reads := scl_reads b + 1, clk_reads := clk_reads b + 1\<rparr>)"
    have now: "clk_in env (clk_reads b) - start \<le> bit_timeout ops" using Suc.prems(2) by auto
    have "\<exists>b'. scl_wait ops env g start ?b = Some (RT_EOK, b') \<and> drives [] 0 ?b b'"
    proof (rule Suc.IH)
      show "scl_in env (scl_reads ?b + k)" using Suc.prems(1) by (simp add: emit_def)
      show "\<forall>j < k. clk_in env (clk_reads ?b + j) - start \<le> bit_timeout ops"
        using Suc.prems(2) by (auto simp: emit_def)
    qed
    then obtain b' where b': "scl_wait ops env g start ?b = Some (RT_EOK, b')" "drives [] 0 ?b b'" by blast
    have "scl_wait ops env g start b = Some (RT_EOK, b')"
      using False now b'(1) by (subst scl_wait.simps) (simp add: g bus_tick_get_def Let_def not_less [symmetric])
    then show ?thesis using b'(2) by (auto simp: drives_def emit_def)
  qed
qed

lemma SCL_H_ok:
  assumes "clock_released (bit_timeout ops) env"
  shows "\<exists>b'. SCL_H ops env b = Some (RT_EOK, b') \<and> drives [Scl True] 0 b b'"
proof -
  let ?b = "set_scl ops 1 b"
  let ?b2 = "?b\<lparr>clk_reads := clk_reads ?b + 1\<rparr>"
  obtain g where g: "get_scl ops = Some g" using get_scl_law by simp
  obtain k where k: "scl_in env (scl_reads ?b + k)"
    "\<forall>j < k. clk_in env (clk_reads ?b + 1 + j) - clk_in env (clk_reads ?b) \<le> bit_timeout ops"
    using assms unfolding clock_released_def by blast
  obtain b' where b': "scl_wait ops env g (clk_in env (clk_reads ?b)) ?b2 = Some (RT_EOK, b')" "drives [] 0 ?b2 b'"
    using scl_wait_ok [OF g, of ?b2 k] k by auto
  have "SCL_H ops env b = Some (RT_EOK, i2c_delay ops b')"
    using b'(1) by (simp add: SCL_H_def g bus_tick_get_def Let_def)
  moreover have "drives [Scl True] 0 b (i2c_delay ops b')" using b'(2) by (simp add: line_simps)
  ultimately show ?thesis by blast
qed

text \<open>What the operations put on the lines.\<close>

lemma i2c_start_drives: "drives [Sda False, Scl False] 0 b (i2c_start ops b)"
  by (simp add: i2c_start_def line_simps)

lemma i2c_restart_drives:
  assumes "clock_released (bit_timeout ops) env"
  shows "\<exists>b'. i2c_restart ops env b = Some b' \<and> drives [Sda True, Scl True, Sda False, Scl False] 0 b b'"
proof -
  obtain b1 where b1: "SCL_H ops env (set_sda ops 1 b) = Some (RT_EOK, b1)" "drives [Scl True] 0 (set_sda ops 1 b) b1"
    using SCL_H_ok [OF assms] by blast
  then show ?thesis by (simp add: i2c_restart_def line_simps)
qed

lemma i2c_stop_drives:
  assumes "clock_released (bit_timeout ops) env"
  shows "\<exists>b'. i2c_stop ops env b = Some b' \<and> drives [Sda False, Scl True, Sda True] 0 b b'"
proof -
  let ?b = "i2c_delay ops (set_sda ops 0 b)"
  obtain b1 where b1: "SCL_H ops env ?b = Some (RT_EOK, b1)" "drives [Scl True] 0 ?b b1" using SCL_H_ok [OF assms] by blast
  then show ?thesis by (simp add: i2c_stop_def line_simps)
qed

lemma i2c_waitack_drives:
  assumes "clock_released (bit_timeout ops) env"
  shows "\<exists>b'. i2c_waitack ops env b = Some (of_bool (\<not> sda_in env (sda_reads b)), b') \<and>
    drives [Sda True, Scl True, Scl False] 1 b b'"
proof -
  let ?b = "i2c_delay ops (set_sda ops 1 b)"
  obtain b1 where b1: "SCL_H ops env ?b = Some (RT_EOK, b1)" "drives [Scl True] 0 ?b b1" using SCL_H_ok [OF assms] by blast
  have "sda_reads b1 = sda_reads b" using b1(2) by (simp add: line_simps)
  then show ?thesis using b1 by (auto simp: i2c_waitack_def line_simps get_sda_law RT_EOK_def)
qed

lemma writeb_loop_drives:
  assumes "clock_released (bit_timeout ops) env"
  shows "\<exists>b'. writeb_loop ops env d n b = Some (True, b') \<and> drives (write_events (map (bit d) (rev [0..<n]))) 0 b b'"
proof (induction n arbitrary: b)
  case (Suc i)
  let ?b = "i2c_delay ops (set_sda ops (uint (drop_bit i d AND 1)) (set_scl ops 0 b))"
  have v: "(uint (drop_bit i d AND 1) \<noteq> 0) = bit d i" by (simp add: and_one_eq mod_2_eq_odd bit_iff_odd_drop_bit)
  obtain b1 where b1: "SCL_H ops env ?b = Some (RT_EOK, b1)" "drives [Scl True] 0 ?b b1" using SCL_H_ok [OF assms] by blast
  obtain b' where b': "writeb_loop ops env d i b1 = Some (True, b')" "drives (write_events (map (bit d) (rev [0..<i]))) 0 b1 b'"
    using Suc.IH by blast
  have "drives [Scl False, Sda (bit d i), Scl True] 0 b b1" using b1(2) v by (simp add: line_simps)
  then have "drives ([Scl False, Sda (bit d i), Scl True] @ write_events (map (bit d) (rev [0..<i]))) (0 + 0) b b'"
    using b'(2) by (rule drives_trans)
  then show ?case using b1(1) b'(1) by (auto simp: RT_EOK_def write_events_def)
qed (simp add: drives_refl write_events_def)

lemma i2c_writeb_drives:
  assumes "clock_released (bit_timeout ops) env"
  shows "\<exists>b'. i2c_writeb ops env d b = Some (of_bool (\<not> sda_in env (sda_reads b)), b') \<and>
    drives (write_events (byte_bits d) @ [Scl False] @ [Sda True, Scl True, Scl False]) 1 b b'"
proof -
  obtain b1 where b1: "writeb_loop ops env d 8 b = Some (True, b1)" "drives (write_events (byte_bits d)) 0 b b1"
    using writeb_loop_drives [OF assms] unfolding byte_bits_def by blast
  let ?b = "i2c_delay ops (set_scl ops 0 b1)"
  have b: "drives (write_events (byte_bits d) @ [Scl False]) 0 b ?b" using b1(2) by (simp add: line_simps)
  obtain b' where b': "i2c_waitack ops env ?b = Some (of_bool (\<not> sda_in env (sda_reads ?b)), b')"
    "drives [Sda True, Scl True, Scl False] 1 ?b b'" using i2c_waitack_drives [OF assms] by blast
  have "sda_reads ?b = sda_reads b" using b by (simp add: drives_def)
  then show ?thesis using b1(1) b'(1) drives_trans [OF b b'(2)] by (auto simp: i2c_writeb_def)
qed

lemma readb_loop_drives:
  assumes "clock_released (bit_timeout ops) env"
  shows "\<exists>b'. readb_loop ops env n d b =
      Some (uint (foldl (\<lambda>d v. 2 * d + of_bool v) d (map (\<lambda>i. sda_in env (sda_reads b + i)) [0..<n])), b') \<and>
    drives (concat (replicate n [Scl True, Scl False])) n b b'"
proof (induction n arbitrary: b d)
  case (Suc n)
  obtain b1 where b1: "SCL_H ops env b = Some (RT_EOK, b1)" "drives [Scl True] 0 b b1" using SCL_H_ok [OF assms] by blast
  let ?v = "sda_in env (sda_reads b)" and ?b = "i2c_delay2 ops (set_scl ops 0 (b1\<lparr>sda_reads := sda_reads b1 + 1\<rparr>))"
  let ?d = "if ?v then push_bit 1 d OR 1 else push_bit 1 d"
  have r: "sda_reads b1 = sda_reads b" using b1(2) by (simp add: drives_def)
  have d: "?d = 2 * d + of_bool ?v" by (auto simp: push_bit_eq_mult or_one_eq mult.commute)
  have b: "drives [Scl True, Scl False] 1 b ?b" using b1(2) by (simp add: line_simps)
  obtain b' where b': "readb_loop ops env n ?d ?b =
      Some (uint (foldl (\<lambda>d v. 2 * d + of_bool v) ?d (map (\<lambda>i. sda_in env (sda_reads ?b + i)) [0..<n])), b')"
    "drives (concat (replicate n [Scl True, Scl False])) n ?b b'" using Suc.IH by blast
  have m: "map (\<lambda>i. sda_in env (sda_reads b + i)) [0..<Suc n] = ?v # map (\<lambda>i. sda_in env (sda_reads ?b + i)) [0..<n]"
    using b by (simp add: map_upt_Suc drives_def del: upt_Suc)
  have "readb_loop ops env (Suc n) d b = readb_loop ops env n ?d ?b"
    using b1(1) r by (simp add: RT_EOK_def get_sda_law Let_def)
  then show ?case using b'(1) drives_trans [OF b b'(2)] by (auto simp: m d simp del: upt_Suc)
qed (simp add: drives_refl)

end

section \<open>Messages on the wire\<close>

text \<open>The byte a device sends in the reads of the data line from \<open>n\<close> on.\<close>

definition byte_in :: "i2c_env \<Rightarrow> nat \<Rightarrow> u8" where
  "byte_in env n = byte_of_bits (map (\<lambda>i. sda_in env (n + i)) [0..<8])"

text \<open>The bytes of an address.\<close>

definition addr7 :: "rt_i2c_msg \<Rightarrow> u8" where
  "addr7 m = 2 * ucast (msg_addr m) + of_bool (flag_set RT_I2C_RD m)"

definition addr10_high :: "rt_i2c_msg \<Rightarrow> u8" where
  "addr10_high m = 0xf0 OR (ucast (drop_bit 7 (msg_addr m)) AND 0x06)"

definition addr10_low :: "rt_i2c_msg \<Rightarrow> u8" where
  "addr10_low m = ucast (msg_addr m AND 0xff)"

definition addr_syms :: "rt_i2c_msg \<Rightarrow> i2c_sym list" where
  "addr_syms m =
     (if flag_set RT_I2C_ADDR_10BIT m then
        write_frame (addr10_high m) @ write_frame (addr10_low m) @
        (if flag_set RT_I2C_RD m then StartCond # write_frame (addr10_high m OR 1) else [])
      else write_frame (addr7 m))"

definition addr_acks :: "rt_i2c_msg \<Rightarrow> nat" where
  "addr_acks m = (if flag_set RT_I2C_ADDR_10BIT m then if flag_set RT_I2C_RD m then 3 else 2 else 1)"

text \<open>The symbols of a message, the reads of the data line it takes, that the device acknowledges, and the memory after it.\<close>

definition msg_syms :: "rt_i2c_msg \<Rightarrow> i2c_sym list" where
  "msg_syms m = StartCond # addr_syms m @
     (if flag_set RT_I2C_RD m then concat (map (\<lambda>i. read_frame (i + 1 < unat (msg_len m))) [0..<unat (msg_len m)])
      else concat (map write_frame (take (unat (msg_len m)) (msg_buf m))))"

definition msg_reads :: "rt_i2c_msg \<Rightarrow> nat" where
  "msg_reads m = addr_acks m + (if flag_set RT_I2C_RD m then 8 * unat (msg_len m) else unat (msg_len m))"

definition msg_acked :: "i2c_env \<Rightarrow> nat \<Rightarrow> rt_i2c_msg \<Rightarrow> bool" where
  "msg_acked env n m \<longleftrightarrow> (\<forall>i < addr_acks m + (if flag_set RT_I2C_RD m then 0 else unat (msg_len m)). \<not> sda_in env (n + i))"

definition msg_after :: "i2c_env \<Rightarrow> nat \<Rightarrow> rt_i2c_msg \<Rightarrow> rt_i2c_msg" where
  "msg_after env n m =
     (if flag_set RT_I2C_RD m then
        m\<lparr>msg_buf := map (\<lambda>i. byte_in env (n + addr_acks m + 8 * i)) [0..<unat (msg_len m)] @ drop (unat (msg_len m)) (msg_buf m)\<rparr>
      else m)"

text \<open>A message without the flags that change the protocol, whose buffer has the length it says.\<close>

definition plain_msg :: "rt_i2c_msg \<Rightarrow> bool" where
  "plain_msg m \<longleftrightarrow> \<not> flag_set RT_I2C_NO_START m \<and> \<not> flag_set RT_I2C_IGNORE_NACK m \<and> \<not> flag_set RT_I2C_NO_READ_ACK m \<and>
     \<not> flag_set RT_I2C_NO_STOP m \<and> unat (msg_len m) \<le> length (msg_buf m)"

fun msgs_acked :: "i2c_env \<Rightarrow> nat \<Rightarrow> rt_i2c_msg list \<Rightarrow> bool" where
  "msgs_acked env n [] \<longleftrightarrow> True"
| "msgs_acked env n (m # ms) \<longleftrightarrow> msg_acked env n m \<and> msgs_acked env (n + msg_reads m) ms"

fun msgs_after :: "i2c_env \<Rightarrow> nat \<Rightarrow> rt_i2c_msg list \<Rightarrow> rt_i2c_msg list" where
  "msgs_after env n [] = []"
| "msgs_after env n (m # ms) = msg_after env n m # msgs_after env (n + msg_reads m) ms"

context i2c_lines
begin

lemma writeb_frame:
  assumes "clock_released (bit_timeout ops) env" and "busy_bus s ss n b"
  shows "\<exists>b'. i2c_writeb ops env d b = Some (of_bool (\<not> sda_in env n), b') \<and> busy_bus True (ss @ write_frame d) (n + 1) b'"
proof -
  obtain b' where b': "i2c_writeb ops env d b = Some (of_bool (\<not> sda_in env (sda_reads b)), b')"
    "drives (write_events (byte_bits d) @ [Scl False] @ [Sda True, Scl True, Scl False]) 1 b b'"
    using i2c_writeb_drives [OF assms(1)] by blast
  then show ?thesis using busy_from_busy [OF assms(2) b'(2) observe_write_frame] assms(2) by (auto simp: busy_bus_def)
qed

lemma readb_frame:
  assumes "clock_released (bit_timeout ops) env" and "busy_bus s ss n b"
  shows "\<exists>b'. i2c_readb ops env b = Some (uint (byte_in env n), b') \<and> busy_bus True (ss @ replicate 8 (DataBit True)) (n + 8) b'"
proof -
  let ?b = "i2c_delay ops (set_sda ops 1 b)"
  have b: "drives [Sda True] 0 b ?b" by (simp add: line_simps)
  have r: "sda_reads ?b = n" using b assms(2) by (simp add: drives_def busy_bus_def)
  obtain b' where b': "readb_loop ops env 8 0 ?b =
      Some (uint (foldl (\<lambda>d v. 2 * d + of_bool v) (0 :: u8) (map (\<lambda>i. sda_in env (sda_reads ?b + i)) [0..<8])), b')"
    "drives (concat (replicate 8 [Scl True, Scl False])) 8 ?b b'"
    using readb_loop_drives [OF assms(1), of 8 0 ?b] by (elim exE conjE) (rule that)
  have o: "observe (s, False, False) ([Sda True] @ concat (replicate 8 [Scl True, Scl False])) =
      ((True, False, False), replicate 8 (DataBit True))"
    using observe_append_eq [OF _ observe_read_bits, of "(s, False, False)" "[Sda True]" "[]" 8] by simp
  have "busy_bus True (ss @ replicate 8 (DataBit True)) (n + (0 + 8)) b'"
    by (rule busy_from_busy [OF assms(2) drives_trans [OF b b'(2)] o])
  then show ?thesis using b'(1) r by (auto simp: i2c_readb_def byte_in_def byte_of_bits_def)
qed

lemma ack_frame:
  assumes "clock_released (bit_timeout ops) env" and "busy_bus True ss n b"
  shows "\<exists>b'. i2c_send_ack_or_nack ops env ack b = Some (RT_EOK, b') \<and> busy_bus (\<not> ack) (ss @ [DataBit (\<not> ack)]) n b'"
proof -
  let ?b = "i2c_delay ops (if ack then set_sda ops 0 b else b)"
  obtain b1 where b1: "SCL_H ops env ?b = Some (RT_EOK, b1)" "drives [Scl True] 0 ?b b1" using SCL_H_ok [OF assms(1)] by blast
  have d: "drives ((if ack then [Sda False] else []) @ [Scl True, Scl False]) 0 b (set_scl ops 0 b1)"
    using b1(2) by (cases ack) (simp_all add: line_simps)
  have "busy_bus (\<not> ack) (ss @ [DataBit (\<not> ack)]) (n + 0) (set_scl ops 0 b1)"
    by (rule busy_from_busy [OF assms(2) d]) (cases ack; simp)
  then show ?thesis using b1(1) by (auto simp: i2c_send_ack_or_nack_def RT_EOK_def)
qed

lemma restart_busy:
  assumes "clock_released (bit_timeout ops) env" and "busy_bus s ss n b"
  shows "\<exists>b'. i2c_restart ops env b = Some b' \<and> busy_bus False (ss @ [StartCond]) n b'"
proof -
  obtain b' where b': "i2c_restart ops env b = Some b'" "drives [Sda True, Scl True, Sda False, Scl False] 0 b b'"
    using i2c_restart_drives [OF assms(1)] by blast
  then show ?thesis using busy_from_busy [OF assms(2) b'(2) observe_pieces(2)] by simp
qed

lemma stop_idle:
  assumes "clock_released (bit_timeout ops) env" and "busy_bus s ss n b"
  shows "\<exists>b'. i2c_stop ops env b = Some b' \<and> idle_bus (ss @ [StopCond]) n b'"
proof -
  obtain b' where b': "i2c_stop ops env b = Some b'" "drives [Sda False, Scl True, Sda True] 0 b b'"
    using i2c_stop_drives [OF assms(1)] by blast
  then show ?thesis using idle_from_busy [OF assms(2) b'(2) observe_pieces(3)] by simp
qed

lemma start_busy: "idle_bus ss n b \<Longrightarrow> busy_bus False (ss @ [StartCond]) n (i2c_start ops b)"
  using busy_from_idle [OF _ i2c_start_drives observe_pieces(4)] by simp

lemma delay_idle: "idle_bus ss n b \<Longrightarrow> idle_bus ss n (i2c_delay2 ops b)"
  using drives_observe [OF drives_ops(4)] by (simp add: idle_bus_def line_simps)

lemma shifted_all: "\<forall>i < Suc k. P (n + i) \<Longrightarrow> \<forall>i < k. P (n + 1 + i)"
  by (metis Suc_less_eq add.assoc plus_1_eq_Suc)

lemma send_bytes_ok:
  assumes "clock_released (bit_timeout ops) env"
  shows "busy_bus s ss n b \<Longrightarrow> ptr + k \<le> length (msg_buf m) \<Longrightarrow> \<forall>i < k. \<not> sda_in env (n + i) \<Longrightarrow>
    \<exists>b' s'. send_loop_bytes ops env m ptr k b = Some (int (ptr + k), b') \<and>
      busy_bus s' (ss @ concat (map write_frame (take k (drop ptr (msg_buf m))))) (n + k) b'"
proof (induction k arbitrary: ptr s ss n b)
  case (Suc k)
  let ?c = "msg_buf m ! ptr"
  obtain b1 where b1: "i2c_writeb ops env ?c b = Some (of_bool (\<not> sda_in env n), b1)"
    "busy_bus True (ss @ write_frame ?c) (n + 1) b1" using writeb_frame [OF assms Suc.prems(1)] by blast
  have t: "take (Suc k) (drop ptr (msg_buf m)) = ?c # take k (drop (Suc ptr) (msg_buf m))"
    using Suc.prems(2) by (simp add: Cons_nth_drop_Suc [symmetric])
  have "\<exists>b' s'. send_loop_bytes ops env m (ptr + 1) k b1 = Some (int (ptr + 1 + k), b') \<and>
      busy_bus s' ((ss @ write_frame ?c) @ concat (map write_frame (take k (drop (ptr + 1) (msg_buf m))))) (n + 1 + k) b'"
    using Suc.IH [OF b1(2), of "ptr + 1"] Suc.prems(2) shifted_all [OF Suc.prems(3)] by auto
  moreover have "\<not> sda_in env n" using Suc.prems(3) by auto
  ultimately show ?case using b1(1) Suc.prems(2) t by (auto simp: memory_simps add_ac)
qed auto

lemma send_bytes_nack:
  assumes "clock_released (bit_timeout ops) env" and "\<not> flag_set RT_I2C_IGNORE_NACK m"
  shows "busy_bus s ss n b \<Longrightarrow> j < k \<Longrightarrow> ptr + k \<le> length (msg_buf m) \<Longrightarrow> \<forall>i < j. \<not> sda_in env (n + i) \<Longrightarrow>
    sda_in env (n + j) \<Longrightarrow>
    \<exists>b'. send_loop_bytes ops env m ptr k b = Some (0, b') \<and>
      busy_bus True (ss @ concat (map write_frame (take (j + 1) (drop ptr (msg_buf m))))) (n + j + 1) b'"
proof (induction j arbitrary: ptr k s ss n b)
  case 0
  let ?c = "msg_buf m ! ptr"
  obtain b1 where b1: "i2c_writeb ops env ?c b = Some (of_bool (\<not> sda_in env n), b1)"
    "busy_bus True (ss @ write_frame ?c) (n + 1) b1" using writeb_frame [OF assms(1) 0(1)] by blast
  then show ?case using 0 assms(2) by (cases k) (auto simp: memory_simps Cons_nth_drop_Suc [symmetric] take_Suc)
next
  case (Suc j)
  let ?c = "msg_buf m ! ptr"
  obtain l where l: "k = Suc l" "j < l" using Suc.prems(2) by (cases k) auto
  obtain b1 where b1: "i2c_writeb ops env ?c b = Some (of_bool (\<not> sda_in env n), b1)"
    "busy_bus True (ss @ write_frame ?c) (n + 1) b1" using writeb_frame [OF assms(1) Suc.prems(1)] by blast
  have t: "take (Suc j + 1) (drop ptr (msg_buf m)) = ?c # take (j + 1) (drop (Suc ptr) (msg_buf m))"
    using Suc.prems(3) l by (simp add: Cons_nth_drop_Suc [symmetric])
  have "\<exists>b'. send_loop_bytes ops env m (ptr + 1) l b1 = Some (0, b') \<and>
      busy_bus True ((ss @ write_frame ?c) @ concat (map write_frame (take (j + 1) (drop (ptr + 1) (msg_buf m))))) (n + 1 + j + 1) b'"
    using Suc.IH [OF b1(2) l(2), of "ptr + 1"] Suc.prems(3,5) shifted_all [OF Suc.prems(4)] l by auto
  moreover have "\<not> sda_in env n" using Suc.prems(4) by auto
  ultimately show ?case using b1(1) Suc.prems(3) l t by (auto simp: memory_simps add_ac)
qed

lemma recv_bytes_ok:
  assumes "clock_released (bit_timeout ops) env"
  shows "busy_bus s ss n b \<Longrightarrow> ptr + k \<le> length (msg_buf m) \<Longrightarrow> \<not> flag_set RT_I2C_NO_READ_ACK m \<Longrightarrow>
    \<exists>b' s'. recv_loop_bytes ops env ptr k m b =
        Some (int (ptr + k), m\<lparr>msg_buf := take ptr (msg_buf m) @ map (\<lambda>i. byte_in env (n + 8 * i)) [0..<k] @ drop (ptr + k) (msg_buf m)\<rparr>, b') \<and>
      busy_bus s' (ss @ concat (map (\<lambda>i. read_frame (i + 1 < k)) [0..<k])) (n + 8 * k) b'"
proof (induction k arbitrary: ptr s ss n m b)
  case (Suc k)
  let ?v = "byte_in env n"
  let ?m = "m\<lparr>msg_buf := (msg_buf m)[ptr := ?v]\<rparr>"
  obtain b1 where b1: "i2c_readb ops env b = Some (uint ?v, b1)" "busy_bus True (ss @ replicate 8 (DataBit True)) (n + 8) b1"
    using readb_frame [OF assms Suc.prems(1)] by blast
  obtain b2 where b2: "i2c_send_ack_or_nack ops env (k \<noteq> 0) b1 = Some (RT_EOK, b2)"
    "busy_bus (k = 0) (ss @ read_frame (k \<noteq> 0)) (n + 8) b2"
    using ack_frame [OF assms b1(2), of "k \<noteq> 0"] by (auto simp: read_frame_def)
  have f: "\<not> flag_set RT_I2C_NO_READ_ACK ?m" using Suc.prems(3) by (simp add: flag_set_def)
  obtain b' s' where b': "recv_loop_bytes ops env (ptr + 1) k ?m b2 =
      Some (int (ptr + 1 + k), ?m\<lparr>msg_buf := take (ptr + 1) (msg_buf ?m) @ map (\<lambda>i. byte_in env (n + 8 + 8 * i)) [0..<k] @
        drop (ptr + 1 + k) (msg_buf ?m)\<rparr>, b')"
    "busy_bus s' ((ss @ read_frame (k \<noteq> 0)) @ concat (map (\<lambda>i. read_frame (i + 1 < k)) [0..<k])) (n + 8 + 8 * k) b'"
    using Suc.IH [OF b2(2), of "ptr + 1" ?m] Suc.prems(2) f by auto
  have buf: "take (ptr + 1) (msg_buf ?m) @ map (\<lambda>i. byte_in env (n + 8 + 8 * i)) [0..<k] @ drop (ptr + 1 + k) (msg_buf ?m) =
      take ptr (msg_buf m) @ map (\<lambda>i. byte_in env (n + 8 * i)) [0..<Suc k] @ drop (ptr + Suc k) (msg_buf m)"
    using Suc.prems(2) by (simp add: map_upt_Suc take_Suc_conv_app_nth add_ac del: upt_Suc)
  have frames: "read_frame (k \<noteq> 0) @ concat (map (\<lambda>i. read_frame (i + 1 < k)) [0..<k]) =
      concat (map (\<lambda>i. read_frame (i + 1 < Suc k)) [0..<Suc k])"
    by (simp add: map_upt_Suc del: upt_Suc)
  have "recv_loop_bytes ops env ptr (Suc k) m b = recv_loop_bytes ops env (ptr + 1) k ?m b2"
    using b1(1) b2(1) Suc.prems(2,3) by (simp add: memory_simps RT_EOK_def Let_def)
  then show ?case using b' buf frames by (auto simp: add_ac)
qed auto

lemma send_address_ok:
  assumes "clock_released (bit_timeout ops) env" and "busy_bus s ss n b" and "\<not> sda_in env n"
  shows "\<exists>b'. i2c_send_address ops env a r b = Some (1, b') \<and> busy_bus True (ss @ write_frame a) (n + 1) b'"
  using writeb_frame [OF assms(1,2), of a] assms(3) by (cases r) auto

lemma send_address_nack:
  assumes "clock_released (bit_timeout ops) env"
  shows "busy_bus s ss n b \<Longrightarrow> \<forall>i < Suc r. sda_in env (n + i) \<Longrightarrow>
    \<exists>b'. i2c_send_address ops env a r b = Some (0, b') \<and>
      busy_bus True (ss @ concat (replicate r (write_frame a @ [StopCond, StartCond])) @ write_frame a) (n + r + 1) b'"
proof (induction r arbitrary: s ss n b)
  case 0
  then show ?case using writeb_frame [OF assms 0(1), of a] by auto
next
  case (Suc r)
  obtain b1 where b1: "i2c_writeb ops env a b = Some (of_bool (\<not> sda_in env n), b1)"
    "busy_bus True (ss @ write_frame a) (n + 1) b1" using writeb_frame [OF assms Suc.prems(1)] by blast
  obtain b2 where b2: "i2c_stop ops env b1 = Some b2" "idle_bus ((ss @ write_frame a) @ [StopCond]) (n + 1) b2"
    using stop_idle [OF assms b1(2)] by blast
  let ?b = "i2c_start ops (i2c_delay2 ops b2)"
  have "busy_bus False (((ss @ write_frame a) @ [StopCond]) @ [StartCond]) (n + 1) ?b"
    by (rule start_busy [OF delay_idle [OF b2(2)]])
  from Suc.IH [OF this shifted_all [OF Suc.prems(2)]]
  show ?case using b1(1) b2(1) Suc.prems(2) by auto
qed

lemma bit_send_address_ok:
  assumes "clock_released (bit_timeout ops) env" and "busy_bus s ss n b" and "\<forall>i < addr_acks m. \<not> sda_in env (n + i)"
    and "\<not> flag_set RT_I2C_IGNORE_NACK m"
  shows "\<exists>b'. i2c_bit_send_address ops env r m b = Some (RT_EOK, b') \<and> busy_bus True (ss @ addr_syms m) (n + addr_acks m) b'"
proof (cases "flag_set RT_I2C_ADDR_10BIT m")
  case False
  have a: "addr7 m = (if flag_set RT_I2C_RD m then push_bit 1 (ucast (msg_addr m)) OR 1 else push_bit 1 (ucast (msg_addr m)))"
    by (simp add: addr7_def push_bit_eq_mult or_one_eq mult.commute)
  show ?thesis using send_address_ok [OF assms(1,2), of "addr7 m" r] assms(3,4) False
    by (auto simp: i2c_bit_send_address_def addr_acks_def addr_syms_def Let_def a cong: if_cong)
next
  case True
  have n: "\<not> sda_in env n" "\<not> sda_in env (n + 1)" using assms(3) [rule_format, of 0] assms(3) [rule_format, of 1] True by (simp_all add: addr_acks_def split: if_splits)
  obtain b1 where b1: "i2c_send_address ops env (addr10_high m) r b = Some (1, b1)"
    "busy_bus True (ss @ write_frame (addr10_high m)) (n + 1) b1" using send_address_ok [OF assms(1,2) n(1)] by blast
  obtain b2 where b2: "i2c_writeb ops env (addr10_low m) b1 = Some (of_bool (\<not> sda_in env (n + 1)), b2)"
    "busy_bus True ((ss @ write_frame (addr10_high m)) @ write_frame (addr10_low m)) (n + 1 + 1) b2"
    using writeb_frame [OF assms(1) b1(2)] by blast
  show ?thesis
  proof (cases "flag_set RT_I2C_RD m")
    case False
    then show ?thesis using True assms(4) b1(1) b2 n
      by (simp add: i2c_bit_send_address_def addr_acks_def addr_syms_def Let_def addr10_high_def addr10_low_def)
  next
    case rd: True
    have n2: "\<not> sda_in env (n + 1 + 1)" using assms(3) [rule_format, of 2] True rd by (simp add: addr_acks_def)
    obtain b3 where b3: "i2c_restart ops env b2 = Some b3"
      "busy_bus False (((ss @ write_frame (addr10_high m)) @ write_frame (addr10_low m)) @ [StartCond]) (n + 1 + 1) b3"
      using restart_busy [OF assms(1) b2(2)] by blast
    obtain b4 where b4: "i2c_send_address ops env (addr10_high m OR 1) r b3 = Some (1, b4)"
      "busy_bus True ((((ss @ write_frame (addr10_high m)) @ write_frame (addr10_low m)) @ [StartCond]) @
         write_frame (addr10_high m OR 1)) (n + 1 + 1 + 1) b4" using send_address_ok [OF assms(1) b3(2) n2] by blast
    show ?thesis using True rd assms(4) b1(1) b2(1) b3(1) b4 n
      by (simp add: i2c_bit_send_address_def addr_acks_def addr_syms_def Let_def addr10_high_def addr10_low_def numeral_3_eq_3)
  qed
qed

lemma xfer_start_ok:
  assumes "clock_released (bit_timeout ops) env" and "if i = 0 then idle_bus ss n b else busy_bus s ss n b"
    and "plain_msg m" and "\<forall>i < addr_acks m. \<not> sda_in env (n + i)"
  shows "\<exists>b'. xfer_start ops env r i m b = Some (RT_EOK, b') \<and> busy_bus True (ss @ StartCond # addr_syms m) (n + addr_acks m) b'"
proof -
  obtain b1 where b1: "(if i \<noteq> 0 then i2c_restart ops env b else Some (i2c_start ops b)) = Some b1"
    "busy_bus False (ss @ [StartCond]) n b1"
    using assms(2) restart_busy [OF assms(1), of s ss n b] start_busy [of ss n b] by (cases "i = 0") auto
  obtain b' where b': "i2c_bit_send_address ops env r m b1 = Some (RT_EOK, b')"
    "busy_bus True ((ss @ [StartCond]) @ addr_syms m) (n + addr_acks m) b'"
    using bit_send_address_ok [OF assms(1) b1(2) assms(4)] assms(3) by (auto simp: plain_msg_def)
  show ?thesis using b1(1) b' assms(3) by (auto simp: xfer_start_def plain_msg_def)
qed

lemma xfer_msg_ok:
  assumes "clock_released (bit_timeout ops) env" and "if i = 0 then idle_bus ss n b else busy_bus s ss n b"
    and "plain_msg m" and "msg_acked env n m"
  shows "\<exists>b' s'. xfer_msg ops env r i m b = Some (None, msg_after env n m, b') \<and> busy_bus s' (ss @ msg_syms m) (n + msg_reads m) b'"
proof -
  let ?l = "unat (msg_len m)"
  obtain b1 where b1: "xfer_start ops env r i m b = Some (RT_EOK, b1)"
    "busy_bus True (ss @ StartCond # addr_syms m) (n + addr_acks m) b1"
    using xfer_start_ok [OF assms(1-3)] assms(4) unfolding msg_acked_def by fastforce
  show ?thesis
  proof (cases "flag_set RT_I2C_RD m")
    case True
    obtain b2 s' where b2: "recv_loop_bytes ops env 0 ?l m b1 = Some (int (0 + ?l), m\<lparr>msg_buf := take 0 (msg_buf m) @
        map (\<lambda>i. byte_in env (n + addr_acks m + 8 * i)) [0..<?l] @ drop (0 + ?l) (msg_buf m)\<rparr>, b2)"
      "busy_bus s' ((ss @ StartCond # addr_syms m) @ concat (map (\<lambda>i. read_frame (i + 1 < ?l)) [0..<?l])) (n + addr_acks m + 8 * ?l) b2"
      using recv_bytes_ok [OF assms(1) b1(2), of 0 ?l m] assms(3) unfolding plain_msg_def by auto
    then show ?thesis using b1(1) True
      by (auto simp: xfer_msg_def i2c_recv_bytes_def msg_after_def msg_syms_def msg_reads_def RT_EOK_def add_ac)
  next
    case False
    have "\<forall>i < ?l. \<not> sda_in env (n + addr_acks m + i)"
      using assms(4) False unfolding msg_acked_def by (auto simp: add.assoc)
    then obtain b2 s' where b2: "send_loop_bytes ops env m 0 ?l b1 = Some (int (0 + ?l), b2)"
      "busy_bus s' ((ss @ StartCond # addr_syms m) @ concat (map write_frame (take ?l (drop 0 (msg_buf m))))) (n + addr_acks m + ?l) b2"
      using send_bytes_ok [OF assms(1) b1(2), of 0 ?l m] assms(3) unfolding plain_msg_def by auto
    then show ?thesis using b1(1) False
      by (auto simp: xfer_msg_def i2c_send_bytes_def msg_after_def msg_syms_def msg_reads_def RT_EOK_def add_ac)
  qed
qed

lemma xfer_loop_ok:
  assumes "clock_released (bit_timeout ops) env"
  shows "if i = 0 then idle_bus ss n b \<and> ms \<noteq> [] else busy_bus s ss n b \<Longrightarrow> list_all plain_msg ms \<Longrightarrow> msgs_acked env n ms \<Longrightarrow>
    \<not> flag_set RT_I2C_NO_STOP msg \<Longrightarrow>
    \<exists>b' s' n' msg'. xfer_loop ops env r i msg ms b = Some (int (i + length ms), msg', msgs_after env n ms, b') \<and>
      \<not> flag_set RT_I2C_NO_STOP msg' \<and> busy_bus s' (ss @ concat (map msg_syms ms)) n' b'"
proof (induction ms arbitrary: i ss n b s msg)
  case (Cons m ms)
  have m: "plain_msg m" "msg_acked env n m" using Cons.prems by auto
  have i: "if i = 0 then idle_bus ss n b else busy_bus s ss n b" using Cons.prems(1) by (auto split: if_splits)
  obtain b1 s1 where b1: "xfer_msg ops env r i m b = Some (None, msg_after env n m, b1)"
    "busy_bus s1 (ss @ msg_syms m) (n + msg_reads m) b1" using xfer_msg_ok [OF assms i m] by blast
  have "\<not> flag_set RT_I2C_NO_STOP (msg_after env n m)" using m(1) by (simp add: msg_after_def plain_msg_def flag_set_def)
  then obtain b' s' n' msg' where b': "xfer_loop ops env r (i + 1) (msg_after env n m) ms b1 =
      Some (int (i + 1 + length ms), msg', msgs_after env (n + msg_reads m) ms, b')"
    "\<not> flag_set RT_I2C_NO_STOP msg'" "busy_bus s' ((ss @ msg_syms m) @ concat (map msg_syms ms)) n' b'"
    using Cons.IH [where i = "i + 1" and s = s1 and ss = "ss @ msg_syms m" and n = "n + msg_reads m" and b = b1 and
      msg = "msg_after env n m"] b1(2) Cons.prems(2,3) by auto
  then show ?case using b1(1) by auto
qed (auto split: if_splits)

lemma i2c_bit_xfer_ok:
  assumes "clock_released (bit_timeout ops) env" and "idle_bus ss n b" and "ms \<noteq> []" and "list_all plain_msg ms" and "msgs_acked env n ms"
  shows "\<exists>b' n'. i2c_bit_xfer ops env r ms b = Some (int (length ms), msgs_after env n ms, b') \<and>
    idle_bus (ss @ concat (map msg_syms ms) @ [StopCond]) n' b'"
proof -
  have "\<not> flag_set RT_I2C_NO_STOP (hd ms)" using assms(3,4) by (cases ms) (auto simp: plain_msg_def)
  then obtain b1 s n' msg where b1: "xfer_loop ops env r 0 (hd ms) ms b = Some (int (length ms), msg, msgs_after env n ms, b1)"
    "\<not> flag_set RT_I2C_NO_STOP msg" "busy_bus s (ss @ concat (map msg_syms ms)) n' b1"
    using xfer_loop_ok [OF assms(1), where i = 0 and ss = ss and n = n and b = b and ms = ms and msg = "hd ms" and r = r] assms(2-5)
    by auto
  obtain b' where "i2c_stop ops env b1 = Some b'" "idle_bus ((ss @ concat (map msg_syms ms)) @ [StopCond]) n' b'"
    using stop_idle [OF assms(1) b1(3)] by blast
  then show ?thesis using b1 assms(3) by (auto simp: i2c_bit_xfer_def)
qed

text \<open>No device answers to the address.\<close>

lemma xfer_no_device:
  assumes "clock_released (bit_timeout ops) env" and "idle_bus ss n b" and "plain_msg m"
    and "\<not> flag_set RT_I2C_ADDR_10BIT m" and "\<forall>i < Suc r. sda_in env (n + i)"
  shows "\<exists>b'. i2c_bit_xfer ops env r [m] b = Some (- RT_EIO, [m], b') \<and>
    idle_bus (ss @ concat (replicate (Suc r) (StartCond # write_frame (addr7 m) @ [StopCond]))) (n + r + 1) b'"
proof -
  let ?a = "addr7 m" and ?b = "i2c_start ops b"
  have a: "addr7 m = (if flag_set RT_I2C_RD m then push_bit 1 (ucast (msg_addr m)) OR 1 else push_bit 1 (ucast (msg_addr m)))"
    by (simp add: addr7_def push_bit_eq_mult or_one_eq mult.commute)
  obtain b1 where b1: "i2c_send_address ops env ?a r ?b = Some (0, b1)"
    "busy_bus True ((ss @ [StartCond]) @ concat (replicate r (write_frame ?a @ [StopCond, StartCond])) @ write_frame ?a) (n + r + 1) b1"
    using send_address_nack [OF assms(1) start_busy [OF assms(2)] assms(5)] by blast
  obtain b' where b': "i2c_stop ops env b1 = Some b'"
    "idle_bus (((ss @ [StartCond]) @ concat (replicate r (write_frame ?a @ [StopCond, StartCond])) @ write_frame ?a) @ [StopCond]) (n + r + 1) b'"
    using stop_idle [OF assms(1) b1(2)] by blast
  have f: "[StartCond] @ concat (replicate r (write_frame ?a @ [StopCond, StartCond])) @ write_frame ?a @ [StopCond] =
      concat (replicate (Suc r) (StartCond # write_frame ?a @ [StopCond]))" for r
    by (induction r) auto
  have "i2c_bit_send_address ops env r m ?b = Some (- RT_EIO, b1)"
    using b1(1) assms(3,4) by (simp add: i2c_bit_send_address_def plain_msg_def Let_def a cong: if_cong)
  then have "i2c_bit_xfer ops env r [m] b = Some (- RT_EIO, [m], b')"
    using b'(1) assms(3) by (simp add: i2c_bit_xfer_def xfer_msg_def xfer_start_def plain_msg_def RT_EIO_def RT_EOK_def)
  moreover have "idle_bus (ss @ concat (replicate (Suc r) (StartCond # write_frame ?a @ [StopCond]))) (n + r + 1) b'"
    using b'(2) unfolding f [symmetric] by simp
  ultimately show ?thesis by blast
qed

text \<open>The device refuses the data byte \<open>j\<close>.\<close>

lemma xfer_data_nack:
  assumes "clock_released (bit_timeout ops) env" and "idle_bus ss n b" and "plain_msg m"
    and "\<not> flag_set RT_I2C_RD m" and "\<forall>i < addr_acks m + j. \<not> sda_in env (n + i)" and "sda_in env (n + addr_acks m + j)"
    and "j < unat (msg_len m)"
  shows "\<exists>b'. i2c_bit_xfer ops env r [m] b = Some (- RT_ERROR, [m], b') \<and>
    idle_bus (ss @ StartCond # addr_syms m @ concat (map write_frame (take (j + 1) (msg_buf m))) @ [StopCond]) (n + addr_acks m + j + 1) b'"
proof -
  obtain b1 where b1: "xfer_start ops env r 0 m b = Some (RT_EOK, b1)"
    "busy_bus True (ss @ StartCond # addr_syms m) (n + addr_acks m) b1"
    using xfer_start_ok [OF assms(1), of 0 ss n b True m] assms(2,3,5) by fastforce
  have j: "\<forall>i < j. \<not> sda_in env (n + addr_acks m + i)" using assms(5) by (auto simp: add.assoc)
  obtain b2 where b2: "i2c_send_bytes ops env m b1 = Some (0, b2)"
    "busy_bus True ((ss @ StartCond # addr_syms m) @ concat (map write_frame (take (j + 1) (drop 0 (msg_buf m))))) (n + addr_acks m + j + 1) b2"
    using send_bytes_nack [OF assms(1) _ b1(2) assms(7), of m 0] j assms(3,6) unfolding i2c_send_bytes_def plain_msg_def by auto
  obtain b' where b': "i2c_stop ops env b2 = Some b'"
    "idle_bus (((ss @ StartCond # addr_syms m) @ concat (map write_frame (take (j + 1) (drop 0 (msg_buf m))))) @ [StopCond]) (n + addr_acks m + j + 1) b'"
    using stop_idle [OF assms(1) b2(2)] by blast
  have l: "0 < uint (msg_len m)" using assms(7) uint_nat [of "msg_len m"] by linarith
  have "xfer_msg ops env r 0 m b = Some (Some (- RT_ERROR), m, b2)"
    using b1(1) b2(1) assms(4) l by (simp add: xfer_msg_def RT_EOK_def)
  then have "i2c_bit_xfer ops env r [m] b = Some (- RT_ERROR, [m], b')"
    using b'(1) assms(3) by (simp add: i2c_bit_xfer_def plain_msg_def)
  then show ?thesis using b'(2) by simp
qed

end

interpretation stm32: i2c_lines "stm32_bit_ops_default env" env for env
  by unfold_locales (simp_all add: stm32_bit_ops_default_def stm32_set_sda_def stm32_set_scl_def stm32_get_sda_def
      stm32_get_scl_def fun_eq_iff)

lemma stm32_timeout: "bit_timeout (stm32_bit_ops_default env) = 100"
  by (simp add: stm32_bit_ops_default_def)

section \<open>The lock of the bus\<close>

lemma caller_upd_error: "caller k t \<Longrightarrow> caller (upd_thread u (\<lambda>th. th\<lparr>error := e\<rparr>) k) t"
  by (auto simp: caller_def hard_timer_def upd_thread_def thread_state_def)

lemma transfer_free_lock:
  assumes "mutex_inv lock k" and "caller k t" and "owner lock = None"
    and "\<forall>m k. mutex_inv m k \<and> caller k t \<longrightarrow> mutex_inv m (meanwhile k) \<and> caller (meanwhile k) t"
    and "i2c_bit_xfer ops env r msgs b = Some (ret, msgs', b')"
  shows "\<exists>lock' k'. rt_i2c_transfer ops env r meanwhile msgs b lock k = Some (Inr (word_of_int ret, msgs', b'), lock', k') \<and>
    mutex_inv lock' k'"
proof -
  let ?k = "upd_thread t (\<lambda>th. th\<lparr>error := RT_EOK\<rparr>) k"
  obtain lock1 k1 where l: "rt_mutex_take lock RT_WAITING_FOREVER k = Some (Returned RT_EOK, lock1, k1)" "mutex_inv lock1 k1"
    "owner lock1 = Some t" "hold lock1 = 1" using mutex_take_returns [OF assms(1,2), of RT_WAITING_FOREVER] assms(3) by auto
  have "k1 = ?k" using l(1) assms(1,3) caller_available [OF assms(2)]
    by (simp add: rt_mutex_take_def mutex_inv_def Let_def split: if_splits)
  then have c: "caller k1 t" using caller_upd_error [OF assms(2)] by simp
  obtain lock2 k2 where "rt_mutex_release lock1 (meanwhile k1) = Some (RT_EOK, lock2, k2)" "mutex_inv lock2 k2"
    using mutex_release_final [of lock1 "meanwhile k1" t] assms(4) l(2-4) c by blast
  then show ?thesis using l(1) assms(5) by (simp add: rt_i2c_transfer_def)
qed

section \<open>Properties\<close>

text \<open>
  Property C26. A transfer is what the protocol prescribes: when the addressed devices acknowledge and no
  device holds the clock line longer than the timeout, \<^verbatim>\<open>i2c_bit_xfer\<close> returns the number of messages, an
  observer of the lines sees for each message a start condition, the frames of its 7 or 10 bit address and
  of its data (most significant bit first, the acknowledge bit released when sending, given for all but the
  last byte when receiving) and one stop condition at the end, and the receive buffers hold the bits the
  devices sent, whatever clock stretching happens in between.
\<close>

theorem i2c_transfer_frames:
  assumes "clock_released 100 env" and "idle_bus ss n b" and "ms \<noteq> []" and "list_all plain_msg ms" and "msgs_acked env n ms"
  shows "\<exists>b' n'. i2c_bit_xfer (stm32_bit_ops_default env) env r ms b = Some (int (length ms), msgs_after env n ms, b') \<and>
    idle_bus (ss @ concat (map msg_syms ms) @ [StopCond]) n' b'"
  using stm32.i2c_bit_xfer_ok assms by (simp add: stm32_timeout)

text \<open>
  Refused transfers: when no device answers to the address, each attempt sends the address between
  a start and a stop condition and \<^verbatim>\<open>i2c_bit_xfer\<close> returns \<^verbatim>\<open>-RT_EIO\<close>; when a data byte is not acknowledged,
  nothing is sent behind it but the stop condition and the result is \<^verbatim>\<open>-RT_ERROR\<close>. In both cases
  \<^verbatim>\<open>rt_i2c_master_send\<close> returns the full count, as after a success, because it compares an unsigned
  result with 0.
\<close>

theorem i2c_nack_hidden:
  assumes "clock_released 100 env" and "idle_bus ss n b" and "mutex_inv lock k" and "caller k t" and "owner lock = None"
    and "\<forall>m k. mutex_inv m k \<and> caller k t \<longrightarrow> mutex_inv m (meanwhile k) \<and> caller (meanwhile k) t"
    and "m = \<lparr>msg_addr = addr, msg_flags = flags, msg_len = ucast count, msg_buf = buf\<rparr>" and "plain_msg m"
    and "\<not> flag_set RT_I2C_ADDR_10BIT m" and "\<not> flag_set RT_I2C_RD m"
  shows "((\<forall>i < Suc r. sda_in env (n + i)) \<longrightarrow>
      (\<exists>b' lock' k'. i2c_bit_xfer (stm32_bit_ops_default env) env r [m] b = Some (- RT_EIO, [m], b') \<and>
         idle_bus (ss @ concat (replicate (Suc r) (StartCond # write_frame (addr7 m) @ [StopCond]))) (n + r + 1) b' \<and>
         rt_i2c_master_send (stm32_bit_ops_default env) env r meanwhile addr flags buf count b lock k =
           Some (Inr (count, [m], b'), lock', k'))) \<and>
    (\<forall>j < unat (msg_len m). (\<forall>i \<le> j. \<not> sda_in env (n + i)) \<and> sda_in env (n + 1 + j) \<longrightarrow>
      (\<exists>b' lock' k'. i2c_bit_xfer (stm32_bit_ops_default env) env r [m] b = Some (- RT_ERROR, [m], b') \<and>
         idle_bus (ss @ StartCond # write_frame (addr7 m) @ concat (map write_frame (take (j + 1) buf)) @ [StopCond]) (n + j + 2) b' \<and>
         rt_i2c_master_send (stm32_bit_ops_default env) env r meanwhile addr flags buf count b lock k =
           Some (Inr (count, [m], b'), lock', k')))"
proof (intro conjI impI allI)
  let ?ops = "stm32_bit_ops_default env"
  have rel: "clock_released (bit_timeout ?ops) env" using assms(1) by (simp add: stm32_timeout)
  have send: "\<exists>lock' k'. rt_i2c_master_send ?ops env r meanwhile addr flags buf count b lock k = Some (Inr (count, [m], b'), lock', k')"
    if x: "i2c_bit_xfer ?ops env r [m] b = Some (ret, [m], b')" "ret = - RT_EIO \<or> ret = - RT_ERROR" for ret b'
  proof -
    obtain lock' k' where "rt_i2c_transfer ?ops env r meanwhile [m] b lock k = Some (Inr (word_of_int ret, [m], b'), lock', k')"
      using transfer_free_lock [OF assms(3-6) x(1)] by blast
    moreover have "(word_of_int ret :: u32) > 0" using x(2) by (auto simp: RT_EIO_def RT_ERROR_def word_greater_zero_iff)
    ultimately show ?thesis unfolding rt_i2c_master_send_def assms(7) by simp
  qed
  show "\<exists>b' lock' k'. i2c_bit_xfer ?ops env r [m] b = Some (- RT_EIO, [m], b') \<and>
      idle_bus (ss @ concat (replicate (Suc r) (StartCond # write_frame (addr7 m) @ [StopCond]))) (n + r + 1) b' \<and>
      rt_i2c_master_send ?ops env r meanwhile addr flags buf count b lock k = Some (Inr (count, [m], b'), lock', k')"
    if "\<forall>i < Suc r. sda_in env (n + i)"
    using stm32.xfer_no_device [OF rel assms(2,8,9) that] send by blast
  show "\<exists>b' lock' k'. i2c_bit_xfer ?ops env r [m] b = Some (- RT_ERROR, [m], b') \<and>
      idle_bus (ss @ StartCond # write_frame (addr7 m) @ concat (map write_frame (take (j + 1) buf)) @ [StopCond]) (n + j + 2) b' \<and>
      rt_i2c_master_send ?ops env r meanwhile addr flags buf count b lock k = Some (Inr (count, [m], b'), lock', k')"
    if j: "j < unat (msg_len m)" "(\<forall>i \<le> j. \<not> sda_in env (n + i)) \<and> sda_in env (n + 1 + j)" for j
  proof -
    have a: "addr_acks m = 1" "addr_syms m = write_frame (addr7 m)" using assms(9) by (simp_all add: addr_acks_def addr_syms_def)
    have b: "msg_buf m = buf" using assms(7) by simp
    have acks: "\<forall>i < addr_acks m + j. \<not> sda_in env (n + i)" "sda_in env (n + addr_acks m + j)"
      using j(2) unfolding a(1) by auto
    have "\<exists>b'. i2c_bit_xfer ?ops env r [m] b = Some (- RT_ERROR, [m], b') \<and>
        idle_bus (ss @ StartCond # write_frame (addr7 m) @ concat (map write_frame (take (j + 1) buf)) @ [StopCond]) (n + 1 + j + 1) b'"
      using stm32.xfer_data_nack [OF rel assms(2,8,10) acks j(1)] unfolding a b .
    moreover have "n + 1 + j + 1 = n + j + 2" by simp
    ultimately show ?thesis using send by metis
  qed
qed

text \<open>A bus without clock stretching, on which one device answers to every frame, or none does.\<close>

definition quiet_env :: "bool \<Rightarrow> i2c_env" where
  "quiet_env level = \<lparr>sda_in = (\<lambda>_. level), scl_in = (\<lambda>_. True), clk_in = (\<lambda>_. 0)\<rparr>"

definition new_bus :: i2c_bus where
  "new_bus = \<lparr>wire = [], sda_reads = 0, scl_reads = 0, clk_reads = 0\<rparr>"

lemma quiet_released: "clock_released limit (quiet_env level)"
  by (simp add: clock_released_def quiet_env_def)

lemma new_bus_idle: "idle_bus [] 0 new_bus"
  by (simp add: idle_bus_def new_bus_def)

text \<open>The pressure sensor at address \<open>0x6d\<close>: its register \<open>0xf6\<close> is written, then three bytes are read.\<close>

definition demo_write :: rt_i2c_msg where
  "demo_write = \<lparr>msg_addr = 0x6d, msg_flags = 0, msg_len = 1, msg_buf = [0xf6]\<rparr>"

definition demo_read :: rt_i2c_msg where
  "demo_read = \<lparr>msg_addr = 0x6d, msg_flags = RT_I2C_RD, msg_len = 3, msg_buf = [1, 2, 3, 4]\<rparr>"

theorem i2c_transfer_frames_witness:
  "\<exists>b' n'. i2c_bit_xfer (stm32_bit_ops_default (quiet_env False)) (quiet_env False) 0 [demo_write, demo_read] new_bus =
      Some (2, [demo_write, demo_read\<lparr>msg_buf := [0, 0, 0, 4]\<rparr>], b') \<and>
    idle_bus (concat (map msg_syms [demo_write, demo_read]) @ [StopCond]) n' b'"
proof -
  have p: "list_all plain_msg [demo_write, demo_read]" by code_simp
  have a: "msgs_acked (quiet_env False) 0 [demo_write, demo_read]" by (simp add: msg_acked_def quiet_env_def)
  have r: "msgs_after (quiet_env False) 0 [demo_write, demo_read] = [demo_write, demo_read\<lparr>msg_buf := [0, 0, 0, 4]\<rparr>]" by code_simp
  show ?thesis using i2c_transfer_frames [OF quiet_released new_bus_idle _ p a, of 0] r by simp
qed

definition free_mutex :: rt_mutex where
  "free_mutex = \<lparr>mutex_id = 7, mutex_value = 1, original_priority = 0, hold = 0, owner = None\<rparr>"

theorem i2c_nack_hidden_witness:
  "\<exists>b' lock' k'. i2c_bit_xfer (stm32_bit_ops_default (quiet_env True)) (quiet_env True) 0 [demo_write] new_bus =
      Some (- RT_EIO, [demo_write], b') \<and>
    rt_i2c_master_send (stm32_bit_ops_default (quiet_env True)) (quiet_env True) 0 (\<lambda>k. k) 0x6d 0 [0xf6] 1 new_bus
      free_mutex sample_kernel = Some (Inr (1, [demo_write], b'), lock', k')"
proof -
  have l: "mutex_inv free_mutex sample_kernel" "owner free_mutex = None"
    using sample_ready_inv by (simp_all add: mutex_inv_def free_mutex_def) (simp add: sample_kernel_def)
  have m: "demo_write = \<lparr>msg_addr = 0x6d, msg_flags = 0, msg_len = ucast (1 :: u32), msg_buf = [0xf6]\<rparr>"
    by (simp add: demo_write_def)
  have f: "plain_msg demo_write" "\<not> flag_set RT_I2C_ADDR_10BIT demo_write" "\<not> flag_set RT_I2C_RD demo_write" by code_simp+
  have "\<forall>i < Suc 0. sda_in (quiet_env True) (0 + i)" by (simp add: quiet_env_def)
  with i2c_nack_hidden [OF quiet_released new_bus_idle l(1) sample_caller l(2) _ m f, of "\<lambda>k. k" 0] show ?thesis by blast
qed

text \<open>
  When a device holds the data line at start-up, \<^verbatim>\<open>stm32_i2c_bus_unlock\<close> leaves the clock line low: the start
  condition of the next transfer is not one.
\<close>

lemma unlock_then_no_start:
  assumes "observe (True, True, False) (wire b) = ((True, True, False), ss)" and "\<not> sda_in env (sda_reads b)"
  shows "StartCond \<notin> set (drop (length ss) (snd (observe (True, True, False)
    (wire (i2c_start (stm32_bit_ops_default env) (snd (stm32_i2c_bus_unlock env b)))))))"
proof -
  have w: "wire (unlock_loop n b) = wire b @ concat (replicate n [Scl True, Udelay 100, Scl False, Udelay 100])" for n b
    by (induction n arbitrary: b) (simp_all add: emit_def)
  let ?es = "concat (replicate 9 [Scl True, Udelay 100, Scl False, Udelay 100]) @ [Sda False, Udelay 1, Scl False]"
  have "wire (i2c_start (stm32_bit_ops_default env) (snd (stm32_i2c_bus_unlock env b))) = wire b @ ?es"
    using assms(2) by (simp add: stm32_i2c_bus_unlock_def stm32_get_sda_def i2c_start_def i2c_delay_def stm32_bit_ops_default_def
        stm32_set_sda_def stm32_set_scl_def emit_def w Let_def)
  then have "observe (True, True, False) (wire (i2c_start (stm32_bit_ops_default env) (snd (stm32_i2c_bus_unlock env b)))) =
      (case observe (True, True, False) ?es of (st, ss') \<Rightarrow> (st, ss @ ss'))"
    using assms(1) by (simp add: observe_append)
  moreover have "StartCond \<notin> set (snd (observe (True, True, False) ?es))" by code_simp
  ultimately show ?thesis by (simp split: prod.splits)
qed

end
