(* ===== verification/AtClient.thy ===== *)
theory AtClient
  imports Semaphore Mutex
begin

unbundle bit_operations_syntax

text \<open>
  The AT client (\<^verbatim>\<open>components/net/at/src/at_client.c\<close>), through which the firmware talks to its WiFi module over a
  serial line: reading lines and unsolicited results, collecting the lines of a response in the buffer of
  the caller, ending a response, executing a command, and looking up the lines of a response. The theorems show
  that a response is given back line by line whatever the timing of the characters, and that a response that
  does not fit is reported as a success.
\<close>

section \<open>Data\<close>

datatype at_status = AT_STATUS_UNINITIALIZED | AT_STATUS_INITIALIZED | AT_STATUS_CLI
datatype at_resp_status = AT_RESP_OK | AT_RESP_ERROR | AT_RESP_TIMEOUT | AT_RESP_BUFF_FULL

text \<open>\<open>resp_buf\<close> is the memory behind \<^verbatim>\<open>buf\<close>; its size can differ from \<open>buf_size\<close> after a failed reallocation.\<close>

record at_response =
  resp_buf :: bytes
  buf_size :: nat
  buf_len :: nat
  line_num :: nat
  line_counts :: nat
  resp_timeout :: int

text \<open>The function of a table entry, if any, is named by a number.\<close>

record at_urc =
  cmd_prefix :: bytes
  cmd_suffix :: bytes
  urc_func :: "nat option"

text \<open>
  The client. The response object belongs to the caller of \<^verbatim>\<open>at_obj_exec_cmd\<close> and is shared with the parser through
  the pointer \<^verbatim>\<open>resp\<close>: \<open>resp_obj\<close> is the object, \<open>resp_set\<close> tells whether the pointer is set. \<open>sent\<close> is what was
  written to the device.
\<close>

record at_client =
  at_state :: at_status
  end_sign :: u8
  recv_line_buf :: bytes
  recv_line_len :: nat
  recv_bufsz :: nat
  at_lock :: rt_mutex
  resp_obj :: at_response
  resp_set :: bool
  resp_notice :: rt_semaphore
  resp_status :: at_resp_status
  urc_table :: "at_urc list list"
  sent :: bytes

text \<open>
  What the device delivers: a character, or nothing, in which case the client waits for the semaphore
  \<^verbatim>\<open>rx_notice\<close> and gets the given result.
\<close>

datatype at_rx = Rx u8 | Quiet int

definition AT_RESP_END_OK :: bytes where "AT_RESP_END_OK = [0x4F, 0x4B]"
definition AT_RESP_END_ERROR :: bytes where "AT_RESP_END_ERROR = [0x45, 0x52, 0x52, 0x4F, 0x52]"
definition AT_RESP_END_FAIL :: bytes where "AT_RESP_END_FAIL = [0x46, 0x41, 0x49, 0x4C]"
definition AT_END_CR_LF :: bytes where "AT_END_CR_LF = [13, 10]"
definition AT_CMD_MAX_LEN :: nat where "AT_CMD_MAX_LEN = 128"

section \<open>Responses\<close>

text \<open>The first argument tells whether the two allocations succeed.\<close>

definition at_create_resp :: "bool \<Rightarrow> bool \<Rightarrow> nat \<Rightarrow> nat \<Rightarrow> int \<Rightarrow> at_response option" where
  "at_create_resp obj_ok buf_ok sz lines tmo =
     (if \<not> obj_ok then None else if \<not> buf_ok then None
      else Some \<lparr>resp_buf = replicate sz 0, buf_size = sz, buf_len = 0, line_num = lines, line_counts = 0, resp_timeout = tmo\<rparr>)"

text \<open>\<open>fresh\<close> is the reallocated memory, if there is any: the old contents up to the smaller size.\<close>

definition at_resp_set_info :: "bytes option \<Rightarrow> nat \<Rightarrow> nat \<Rightarrow> int \<Rightarrow> at_response \<Rightarrow> bool \<times> at_response" where
  "at_resp_set_info fresh sz lines tmo r =
     (if buf_size r \<noteq> sz then
        let r1 = r\<lparr>buf_size := sz\<rparr>
        in case fresh of
             None \<Rightarrow> (False, r1)
           | Some mem \<Rightarrow> (True, r1\<lparr>resp_buf := mem, line_num := lines, resp_timeout := tmo\<rparr>)
      else (True, r\<lparr>line_num := lines, resp_timeout := tmo\<rparr>))"

text \<open>The string at an offset; \<open>None\<close> when the memory ends before a zero byte.\<close>

definition cstring_at :: "bytes \<Rightarrow> nat \<Rightarrow> bytes option" where
  "cstring_at mem off = (if 0 \<in> set (drop off mem) then Some (takeWhile (\<lambda>c. c \<noteq> 0) (drop off mem)) else None)"



fun strstr :: "bytes \<Rightarrow> bytes \<Rightarrow> bool" where
  "strstr [] pat \<longleftrightarrow> pat = []"
| "strstr (c # cs) pat \<longleftrightarrow> take (length pat) (c # cs) = pat \<or> strstr cs pat"

fun get_line_by_kw_loop :: "bytes \<Rightarrow> bytes \<Rightarrow> nat \<Rightarrow> nat \<Rightarrow> bytes option option" where
  "get_line_by_kw_loop mem keyword 0 off = Some None"
| "get_line_by_kw_loop mem keyword (Suc n) off =
     do { s \<leftarrow> cstring_at mem off;
          if strstr s keyword then Some (Some s) else get_line_by_kw_loop mem keyword n (off + length s + 1) }"

definition at_resp_get_line_by_kw :: "at_response \<Rightarrow> bytes \<Rightarrow> bytes option option" where
  "at_resp_get_line_by_kw r keyword = get_line_by_kw_loop (resp_buf r) keyword (line_counts r) 0"

section \<open>Receiving\<close>

text \<open>The character is unchanged when waiting fails; \<open>None\<close> when there is no more input.\<close>

fun at_client_getchar :: "u8 \<Rightarrow> at_rx list \<Rightarrow> (int \<times> u8 \<times> at_rx list) option" where
  "at_client_getchar ch [] = None"
| "at_client_getchar ch (Rx c # ins) = Some (RT_EOK, c, ins)"
| "at_client_getchar ch (Quiet result # ins) = (if result \<noteq> RT_EOK then Some (result, ch, ins) else at_client_getchar ch ins)"

lemma getchar_shorter: "at_client_getchar ch ins = Some (r, c, ins') \<Longrightarrow> length ins' < length ins"
  by (induction ch ins rule: at_client_getchar.induct) (auto split: if_splits)

text \<open>Reading from the device up to a number of characters.\<close>

fun rt_device_read_rx :: "nat \<Rightarrow> at_rx list \<Rightarrow> bytes \<times> at_rx list" where
  "rt_device_read_rx (Suc n) (Rx c # ins) = (let (cs, ins') = rt_device_read_rx n ins in (c # cs, ins'))"
| "rt_device_read_rx n ins = ([], ins)"

lemma device_read_shorter: "rt_device_read_rx n ins = (cs, ins') \<Longrightarrow> length ins = length cs + length ins'"
  by (induction n ins arbitrary: cs ins' rule: rt_device_read_rx.induct) (auto simp: Let_def split: prod.splits)

function obj_recv_loop :: "bytes \<Rightarrow> nat \<Rightarrow> nat \<Rightarrow> at_rx list \<Rightarrow> (nat \<times> bytes \<times> at_rx list) option" where
  "obj_recv_loop buf len n ins =
     (let (cs, ins1) = rt_device_read_rx n ins in
      if cs \<noteq> [] then
        do { buf1 \<leftarrow> mem_write buf len cs;
             if n - length cs = 0 then Some (len + length cs, buf1, ins1)
             else obj_recv_loop buf1 (len + length cs) (n - length cs) ins1 }
      else (case ins1 of
              [] \<Rightarrow> None
            | Rx c # ins2 \<Rightarrow> None
            | Quiet result # ins2 \<Rightarrow> if result \<noteq> RT_EOK then Some (len, buf, ins2) else obj_recv_loop buf len n ins2))"
  by pat_completeness auto
termination
  by (relation "measure (\<lambda>(buf, len, n, ins). length ins)") (auto dest!: device_read_shorter [OF sym] simp flip: length_greater_0_conv)

declare obj_recv_loop.simps [simp del]

text \<open>A size of 0 waits although there is nothing to read; the loop then has no character to take and is not modelled.\<close>

definition at_client_obj_recv :: "bytes \<Rightarrow> nat \<Rightarrow> at_rx list \<Rightarrow> (nat \<times> bytes \<times> at_rx list) option" where
  "at_client_obj_recv buf n ins = obj_recv_loop buf 0 n ins"

definition at_obj_set_end_sign :: "u8 \<Rightarrow> at_client \<Rightarrow> at_client" where
  "at_obj_set_end_sign ch c = c\<lparr>end_sign := ch\<rparr>"

definition at_obj_set_urc_table :: "bool \<Rightarrow> at_urc list \<Rightarrow> at_client \<Rightarrow> int \<times> at_client" where
  "at_obj_set_urc_table alloc_ok table c =
     (if \<not> alloc_ok then (- RT_ENOMEM, c) else (RT_EOK, c\<lparr>urc_table := urc_table c @ [table]\<rparr>))"

definition urc_matches :: "bytes \<Rightarrow> at_urc \<Rightarrow> bool" where
  "urc_matches line u \<longleftrightarrow>
     length (cmd_prefix u) + length (cmd_suffix u) \<le> length line \<and>
     take (length (cmd_prefix u)) line = cmd_prefix u \<and>
     drop (length line - length (cmd_suffix u)) line = cmd_suffix u"

text \<open>The first matching entry, in the order of the tables.\<close>

definition get_urc_obj :: "at_client \<Rightarrow> at_urc option" where
  "get_urc_obj c = find (urc_matches (take (recv_line_len c) (recv_line_buf c))) (concat (urc_table c))"

function readline_loop ::
  "at_client \<Rightarrow> u8 \<Rightarrow> u8 \<Rightarrow> nat \<Rightarrow> bool \<Rightarrow> at_rx list \<Rightarrow> (int \<times> at_client \<times> at_rx list) option" where
  "readline_loop c ch last_ch read_len is_full ins =
     (case at_client_getchar ch ins of
        None \<Rightarrow> None
      | Some (_, ch1, ins1) \<Rightarrow>
          let store = read_len < recv_bufsz c;
              c1 = (if store then c\<lparr>recv_line_buf := (recv_line_buf c)[read_len := ch1], recv_line_len := read_len + 1\<rparr> else c);
              read_len1 = (if store then read_len + 1 else read_len);
              is_full1 = (is_full \<or> \<not> store)
          in if ch1 = 10 \<and> last_ch = 13 \<or> end_sign c \<noteq> 0 \<and> ch1 = end_sign c \<or> get_urc_obj c1 \<noteq> None then
               if is_full1 then Some (- RT_EFULL, c1\<lparr>recv_line_buf := replicate (recv_bufsz c) 0, recv_line_len := 0\<rparr>, ins1)
               else Some (int read_len1, c1, ins1)
             else readline_loop c1 ch1 ch1 read_len1 is_full1 ins1)"
  by pat_completeness auto
termination
  by (relation "measure (\<lambda>(c, ch, last_ch, read_len, is_full, ins). length ins)") (auto dest: getchar_shorter)

declare readline_loop.simps [simp del]

definition at_recv_readline :: "at_client \<Rightarrow> at_rx list \<Rightarrow> (int \<times> at_client \<times> at_rx list) option" where
  "at_recv_readline c ins =
     readline_loop (c\<lparr>recv_line_buf := replicate (recv_bufsz c) 0, recv_line_len := 0\<rparr>) 0 0 0 False ins"

section \<open>The parser\<close>

text \<open>A line that belongs to a response is copied, ended by a zero byte, or does not fit.\<close>

definition copy_line :: "at_client \<Rightarrow> at_client option" where
  "copy_line c =
     (let r = resp_obj c in
      if buf_len r + recv_line_len c < buf_size r then
        do { line \<leftarrow> mem_read (recv_line_buf c) 0 (recv_line_len c);
             buf1 \<leftarrow> mem_write (resp_buf r) (buf_len r) line;
             Some (c\<lparr>resp_obj := r\<lparr>resp_buf := buf1, buf_len := buf_len r + recv_line_len c, line_counts := line_counts r + 1\<rparr>\<rparr>) }
      else Some (c\<lparr>resp_status := AT_RESP_BUFF_FULL\<rparr>))"

text \<open>The end of a response: the new status, or none when more lines are expected.\<close>

definition check_result :: "u8 \<Rightarrow> at_client \<Rightarrow> at_resp_status option option" where
  "check_result end_ch c =
     (let r = resp_obj c; text = takeWhile (\<lambda>ch. ch \<noteq> 0) (recv_line_buf c) in
      if end_sign c \<noteq> 0 \<and> end_ch = end_sign c \<and> line_num r = 0 then Some (Some AT_RESP_OK)
      else do {
           two \<leftarrow> mem_read (recv_line_buf c) 0 2;
           if two = AT_RESP_END_OK \<and> line_num r = 0 then Some (Some AT_RESP_OK)
           else if strstr text AT_RESP_END_ERROR then Some (Some AT_RESP_ERROR)
           else do { four \<leftarrow> mem_read (recv_line_buf c) 0 4;
                     if four = AT_RESP_END_FAIL then Some (Some AT_RESP_ERROR)
                     else if line_counts r = line_num r \<and> line_num r \<noteq> 0 then Some (Some AT_RESP_OK)
                     else Some None } })"

text \<open>The branch for a response; it tells whether \<^verbatim>\<open>resp_notice\<close> is released.\<close>

definition parse_response :: "at_client \<Rightarrow> (bool \<times> at_client) option" where
  "parse_response c =
     do { end_ch \<leftarrow> mem_get (recv_line_buf c) (recv_line_len c - 1);
          buf \<leftarrow> mem_put (recv_line_buf c) (recv_line_len c - 1) 0;
          c1 \<leftarrow> copy_line (c\<lparr>recv_line_buf := buf\<rparr>);
          res \<leftarrow> check_result end_ch c1;
          case res of
            None \<Rightarrow> Some (False, c1)
          | Some status \<Rightarrow> Some (True, c1\<lparr>resp_status := status, resp_set := False\<rparr>) }"

text \<open>
  One round of \<^verbatim>\<open>client_parser\<close>. The functions of the table are given by \<open>exec\<close>, which may change the client and take
  input (code of the device packages).
\<close>

definition parse_line ::
  "(nat \<Rightarrow> at_client \<Rightarrow> at_rx list \<Rightarrow> at_client \<times> at_rx list) \<Rightarrow> at_client \<Rightarrow> at_rx list \<Rightarrow> (bool \<times> at_client \<times> at_rx list) option" where
  "parse_line exec c ins =
     do { (n, c1, ins1) \<leftarrow> at_recv_readline c ins;
          if n > 0 then
            (case get_urc_obj c1 of
               Some u \<Rightarrow> (case urc_func u of None \<Rightarrow> Some (False, c1, ins1) | Some f \<Rightarrow> Some (False, exec f c1 ins1))
             | None \<Rightarrow>
                 if resp_set c1 then do { (notify, c2) \<leftarrow> parse_response c1; Some (notify, c2, ins1) }
                 else Some (False, c1, ins1))
          else Some (False, c1, ins1) }"

definition client_parser ::
  "(nat \<Rightarrow> at_client \<Rightarrow> at_rx list \<Rightarrow> at_client \<times> at_rx list) \<Rightarrow> at_client \<Rightarrow> at_rx list \<Rightarrow> kernel \<Rightarrow> (at_client \<times> at_rx list \<times> kernel) option" where
  "client_parser exec c ins k =
     do { (notify, c1, ins1) \<leftarrow> parse_line exec c ins;
          if notify then
            do { (_, s, k1) \<leftarrow> rt_sem_release (resp_notice c1) k; Some (c1\<lparr>resp_notice := s\<rparr>, ins1, k1) }
          else Some (c1, ins1, k) }"

section \<open>Commands\<close>

text \<open>
  What \<^verbatim>\<open>at_vprintfln\<close> sends for the formatted text: \<^verbatim>\<open>vsnprintf\<close> stores at most \<open>AT_CMD_MAX_LEN - 3\<close> characters and a
  zero byte, and returns the full length.
\<close>

definition at_vprintfln :: "bytes \<Rightarrow> bytes" where
  "at_vprintfln text =
     (let room = AT_CMD_MAX_LEN - 2;
          send_buf = take (room - 1) text @ [0];
          last_cmd_len = (if length text > room then room else length text)
      in take last_cmd_len send_buf @ AT_END_CR_LF)"

datatype at_call = AtDone int | AtWaitLock tid | AtWaitResp tid

definition exec_exit :: "int \<Rightarrow> at_client \<Rightarrow> kernel \<Rightarrow> (at_call \<times> at_client \<times> kernel) option" where
  "exec_exit result c k =
     do { (_, l, k1) \<leftarrow> rt_mutex_release (at_lock c) k; Some (AtDone result, c\<lparr>resp_set := False, at_lock := l\<rparr>, k1) }"

text \<open>The part behind \<^verbatim>\<open>rt_sem_take\<close>, which returned \<open>rc\<close>.\<close>

definition exec_taken :: "int \<Rightarrow> at_client \<Rightarrow> kernel \<Rightarrow> (at_call \<times> at_client \<times> kernel) option" where
  "exec_taken rc c k =
     (if rc \<noteq> RT_EOK then exec_exit (- RT_ETIMEOUT) (c\<lparr>resp_status := AT_RESP_TIMEOUT\<rparr>) k
      else if resp_status c \<noteq> AT_RESP_OK then exec_exit (- RT_ERROR) c k
      else exec_exit RT_EOK c k)"

text \<open>The part behind \<^verbatim>\<open>rt_mutex_take\<close>.\<close>

definition exec_locked :: "at_response option \<Rightarrow> bytes \<Rightarrow> at_client \<Rightarrow> kernel \<Rightarrow> (at_call \<times> at_client \<times> kernel) option" where
  "exec_locked resp cmd c k =
     (let c1 = c\<lparr>resp_status := AT_RESP_OK, resp_set := resp \<noteq> None,
                 resp_obj := (case resp of None \<Rightarrow> resp_obj c | Some r \<Rightarrow> r\<lparr>buf_len := 0, line_counts := 0\<rparr>)\<rparr>
      in do { (_, s, k1) \<leftarrow> rt_sem_control (resp_notice c1) RT_IPC_CMD_RESET 0 k;
              let c2 = c1\<lparr>resp_notice := s, sent := sent c1 @ at_vprintfln cmd\<rparr>;
              case resp of
                None \<Rightarrow> exec_exit RT_EOK c2 k1
              | Some r \<Rightarrow>
                  do { (res, s2, k2) \<leftarrow> rt_sem_take s (resp_timeout r) k1;
                       let c3 = c2\<lparr>resp_notice := s2\<rparr>;
                       case res of Blocked t \<Rightarrow> Some (AtWaitResp t, c3, k2) | Returned rc \<Rightarrow> exec_taken rc c3 k2 } })"

definition at_obj_exec_cmd :: "at_response option \<Rightarrow> bytes \<Rightarrow> at_client \<Rightarrow> kernel \<Rightarrow> (at_call \<times> at_client \<times> kernel) option" where
  "at_obj_exec_cmd resp cmd c k =
     (if at_state c = AT_STATUS_CLI \<and> resp \<noteq> None then Some (AtDone (- RT_EBUSY), c, k)
      else do { (res, l, k1) \<leftarrow> rt_mutex_take (at_lock c) RT_WAITING_FOREVER k;
                let c1 = c\<lparr>at_lock := l\<rparr>;
                case res of Blocked t \<Rightarrow> Some (AtWaitLock t, c1, k1) | Returned _ \<Rightarrow> exec_locked resp cmd c1 k1 })"

text \<open>Data without an end sign, under the lock.\<close>

definition at_client_obj_send :: "bytes \<Rightarrow> at_client \<Rightarrow> kernel \<Rightarrow> (at_call \<times> at_client \<times> kernel) option" where
  "at_client_obj_send data c k =
     do { (res, l, k1) \<leftarrow> rt_mutex_take (at_lock c) RT_WAITING_FOREVER k;
          let c1 = c\<lparr>at_lock := l\<rparr>;
          case res of
            Blocked t \<Rightarrow> Some (AtWaitLock t, c1, k1)
          | Returned _ \<Rightarrow>
              do { (_, l2, k2) \<leftarrow> rt_mutex_release (at_lock c1) k1;
                   Some (AtDone (int (length data)), c1\<lparr>sent := sent c1 @ data, at_lock := l2\<rparr>, k2) } }"

section \<open>Reading lines\<close>

text \<open>The characters of an input, and an input in which waiting never fails.\<close>

fun rx_bytes :: "at_rx list \<Rightarrow> bytes" where
  "rx_bytes [] = []"
| "rx_bytes (Rx c # ins) = c # rx_bytes ins"
| "rx_bytes (Quiet r # ins) = rx_bytes ins"

definition patient :: "at_rx list \<Rightarrow> bool" where
  "patient ins \<longleftrightarrow> (\<forall>r. Quiet r \<in> set ins \<longrightarrow> r = RT_EOK)"

lemma getchar_ok:
  "rx_bytes ins = b # bs \<Longrightarrow> patient ins \<Longrightarrow>
   \<exists>ins'. at_client_getchar ch ins = Some (RT_EOK, b, ins') \<and> rx_bytes ins' = bs \<and> patient ins'"
  by (induction ch ins rule: at_client_getchar.induct) (auto simp: patient_def)

text \<open>Receiving a fixed number of characters gives exactly these, whatever the pauses.\<close>

lemma device_read_bytes:
  "rt_device_read_rx n ins = (cs, ins') \<Longrightarrow> rx_bytes ins = cs @ rx_bytes ins' \<and> length cs \<le> n \<and> (patient ins \<longrightarrow> patient ins')"
  by (induction n ins arbitrary: cs ins' rule: rt_device_read_rx.induct) (auto simp: patient_def Let_def split: prod.splits)

lemma obj_recv_exact:
  "0 < n \<Longrightarrow> n \<le> length (rx_bytes ins) \<Longrightarrow> patient ins \<Longrightarrow> len + n \<le> length buf \<Longrightarrow>
   \<exists>ins'. obj_recv_loop buf len n ins = Some (len + n, take len buf @ take n (rx_bytes ins) @ drop (len + n) buf, ins') \<and>
     rx_bytes ins' = drop n (rx_bytes ins) \<and> patient ins'"
proof (induction "length ins" arbitrary: buf len n ins rule: less_induct)
  case less
  obtain cs ins1 where r: "rt_device_read_rx n ins = (cs, ins1)" by (cases "rt_device_read_rx n ins")
  have b: "rx_bytes ins = cs @ rx_bytes ins1" "length cs \<le> n" "patient ins1" "length ins = length cs + length ins1"
    using device_read_bytes [OF r] device_read_shorter [OF r] less.prems(3) by auto
  show ?case
  proof (cases "cs = []")
    case False
    let ?buf = "take len buf @ cs @ drop (len + length cs) buf"
    have w: "mem_write buf len cs = Some ?buf" using b(2) less.prems(4) by (simp add: mem_write_def)
    show ?thesis
    proof (cases "n = length cs")
      case True
      then show ?thesis using r b w False by (subst obj_recv_loop.simps) (simp add: Let_def)
    next
      case n: False
      have "\<exists>ins'. obj_recv_loop ?buf (len + length cs) (n - length cs) ins1 =
          Some (len + length cs + (n - length cs), take (len + length cs) ?buf @ take (n - length cs) (rx_bytes ins1) @
            drop (len + length cs + (n - length cs)) ?buf, ins') \<and>
          rx_bytes ins' = drop (n - length cs) (rx_bytes ins1) \<and> patient ins'"
        using n b False less.prems(2,4) by (intro less.hyps) auto
      moreover have "obj_recv_loop buf len n ins = obj_recv_loop ?buf (len + length cs) (n - length cs) ins1"
        using r w n b(2) False by (subst obj_recv_loop.simps) (simp add: Let_def)
      ultimately show ?thesis using b n less.prems(4) False by (auto simp: min_def add.commute)
    qed
  next
    case True
    then have "rt_device_read_rx n ins = ([], ins)" using r less.prems(1) by (cases "(n, ins)" rule: rt_device_read_rx.cases) (auto simp: Let_def split: prod.splits)
    then have ins1: "ins1 = ins" using r by simp
    obtain e rest where e: "ins = e # rest" using less.prems(1,2) by (cases ins) auto
    have "\<exists>x. e = Quiet x" using True r e less.prems(1) by (cases n; cases e) (auto simp: Let_def split: prod.splits)
    then have q: "ins = Quiet RT_EOK # rest" "patient rest" using e less.prems(3) by (auto simp: patient_def)
    then have "obj_recv_loop buf len n ins = obj_recv_loop buf len n rest"
      using r True ins1 by (subst obj_recv_loop.simps) (simp add: Let_def)
    then show ?thesis using less.hyps [of rest n len buf] less.prems q by auto
  qed
qed

definition urc_line :: "at_client \<Rightarrow> bytes \<Rightarrow> bool" where
  "urc_line c p \<longleftrightarrow> (\<exists>u \<in> set (concat (urc_table c)). urc_matches p u)"

lemma get_urc_none: "get_urc_obj c = None \<longleftrightarrow> \<not> urc_line c (take (recv_line_len c) (recv_line_buf c))"
  by (auto simp: get_urc_obj_def urc_line_def find_None_iff)

text \<open>The text of a line, none of whose beginnings is an unsolicited result.\<close>

definition clean_line :: "at_client \<Rightarrow> bytes \<Rightarrow> bool" where
  "clean_line c l \<longleftrightarrow> 10 \<notin> set l \<and> 0 \<notin> set l \<and> length l + 2 \<le> recv_bufsz c \<and>
     (\<forall>k. 0 < k \<and> k \<le> length l + 2 \<longrightarrow> \<not> urc_line c (take k (l @ [13, 10])))"

lemma readline_loop_ok:
  "p @ q = l @ [13, 10] \<Longrightarrow> q \<noteq> [] \<Longrightarrow> clean_line c l \<Longrightarrow> end_sign c = 0 \<Longrightarrow>
   recv_line_buf c = p @ replicate (recv_bufsz c - length p) 0 \<Longrightarrow> last_ch = last (0 # p) \<Longrightarrow>
   rx_bytes ins = q @ bs \<Longrightarrow> patient ins \<Longrightarrow>
   \<exists>ins'. readline_loop c ch last_ch (length p) False ins =
       Some (int (length l + 2), c\<lparr>recv_line_buf := l @ [13, 10] @ replicate (recv_bufsz c - (length l + 2)) 0,
         recv_line_len := length l + 2\<rparr>, ins') \<and> rx_bytes ins' = bs \<and> patient ins'"
proof (induction q arbitrary: p c ch last_ch ins)
  case (Cons b q)
  obtain ins1 where g: "at_client_getchar ch ins = Some (RT_EOK, b, ins1)" "rx_bytes ins1 = q @ bs" "patient ins1"
    using getchar_ok [of ins b "q @ bs" ch] Cons.prems(7,8) by auto
  have len: "length p + length q + 1 = length l + 2" using arg_cong [OF Cons.prems(1), of length] by simp
  then have room: "length p < recv_bufsz c" using Cons.prems(3) by (simp add: clean_line_def)
  let ?c = "c\<lparr>recv_line_buf := (recv_line_buf c)[length p := b], recv_line_len := length p + 1\<rparr>"
  have buf: "(recv_line_buf c)[length p := b] = (p @ [b]) @ replicate (recv_bufsz c - length (p @ [b])) 0"
  proof -
    have "replicate (recv_bufsz c - length p) 0 = 0 # replicate (recv_bufsz c - length (p @ [b])) (0 :: u8)"
      using room by (simp add: Suc_diff_Suc flip: replicate_Suc)
    then show ?thesis unfolding Cons.prems(5) by (simp add: list_update_append)
  qed
  have t: "take (length p + 1) (l @ [13, 10]) = p @ [b]" unfolding Cons.prems(1) [symmetric] by simp
  have "\<not> urc_line c (take (length p + 1) (l @ [13, 10]))" using Cons.prems(3) len unfolding clean_line_def by auto
  then have u: "get_urc_obj ?c = None" unfolding t get_urc_none by (simp add: buf urc_line_def)
  show ?case
  proof (cases "q = []")
    case True
    then have e: "p = l @ [13]" "b = 10" using Cons.prems(1) by (auto simp: append_eq_append_conv2 append_eq_Cons_conv)
    have "readline_loop c ch last_ch (length p) False ins = Some (int (length p + 1), ?c, ins1)"
      using g(1) room u e Cons.prems(6) by (subst readline_loop.simps) (simp add: Let_def)
    then show ?thesis using g True buf e by auto
  next
    case False
    have "b \<noteq> 10"
    proof -
      have "b \<in> set (butlast (p @ b # q))" using False by (simp add: butlast_append)
      then have "b \<in> set (butlast (l @ [13, 10]))" using Cons.prems(1) by metis
      then show ?thesis using Cons.prems(3) by (auto simp: butlast_append clean_line_def)
    qed
    then have "readline_loop c ch last_ch (length p) False ins = readline_loop ?c b b (length (p @ [b])) False ins1"
      using g(1) room u Cons.prems(4) by (subst readline_loop.simps) (simp add: Let_def)
    moreover have "\<exists>ins'. readline_loop ?c b b (length (p @ [b])) False ins1 =
       Some (int (length l + 2), ?c\<lparr>recv_line_buf := l @ [13, 10] @ replicate (recv_bufsz ?c - (length l + 2)) 0,
         recv_line_len := length l + 2\<rparr>, ins') \<and> rx_bytes ins' = bs \<and> patient ins'"
      using Cons.prems(1,3,4) False g(2,3) buf
      by (intro Cons.IH) (auto simp: clean_line_def urc_line_def)
    ultimately show ?thesis by simp
  qed
qed simp

lemma readline_ok:
  assumes "clean_line c l" and "end_sign c = 0" and "rx_bytes ins = l @ [13, 10] @ bs" and "patient ins"
  shows "\<exists>ins'. at_recv_readline c ins =
       Some (int (length l + 2), c\<lparr>recv_line_buf := l @ [13, 10] @ replicate (recv_bufsz c - (length l + 2)) 0,
         recv_line_len := length l + 2\<rparr>, ins') \<and> rx_bytes ins' = bs \<and> patient ins'"
proof -
  let ?c = "c\<lparr>recv_line_buf := replicate (recv_bufsz c) 0, recv_line_len := 0\<rparr>"
  have "clean_line ?c l" using assms(1) by (simp add: clean_line_def urc_line_def)
  from readline_loop_ok [of "[]" "l @ [13, 10]" l ?c 0 ins bs 0, OF _ _ this] show ?thesis
    using assms(2-4) by (simp add: at_recv_readline_def)
qed

section \<open>Collecting a response\<close>

text \<open>A line in the buffer of a response, and the lines a response holds.\<close>

definition stored_line :: "bytes \<Rightarrow> bytes" where
  "stored_line l = l @ [13, 0]"

definition holds_lines :: "at_response \<Rightarrow> bytes list \<Rightarrow> bool" where
  "holds_lines r ls \<longleftrightarrow> (\<exists>rest. resp_buf r = concat (map stored_line ls) @ rest) \<and>
     buf_len r = length (concat (map stored_line ls)) \<and> line_counts r = length ls \<and> length (resp_buf r) = buf_size r"

lemma line_text: "0 \<notin> set l \<Longrightarrow> takeWhile (\<lambda>c. c \<noteq> 0) (l @ 13 # 0 # zs) = l @ [13 :: u8]"
  by (induction l) auto




text \<open>The lines that fit a buffer of \<open>sz\<close> bytes of which \<open>used\<close> are taken.\<close>

fun kept :: "nat \<Rightarrow> nat \<Rightarrow> bytes list \<Rightarrow> bytes list" where
  "kept sz used [] = []"
| "kept sz used (l # ls) =
     (if used + (length l + 2) < sz then l # kept sz (used + (length l + 2)) ls else kept sz used ls)"

definition line_read :: "bytes \<Rightarrow> at_client \<Rightarrow> bool" where
  "line_read l c \<longleftrightarrow> recv_line_buf c = l @ [13, 10] @ replicate (recv_bufsz c - (length l + 2)) 0 \<and>
     recv_line_len c = length l + 2 \<and> length l + 2 \<le> recv_bufsz c \<and> 4 \<le> recv_bufsz c \<and> 0 \<notin> set l"

lemma copy_line_ok:
  assumes "recv_line_buf c = l @ [13, 0] @ zs" and "recv_line_len c = length l + 2" and "holds_lines (resp_obj c) ls"
  shows "\<exists>r' st. copy_line c = Some (c\<lparr>resp_obj := r', resp_status := st\<rparr>) \<and> buf_size r' = buf_size (resp_obj c) \<and>
    line_num r' = line_num (resp_obj c) \<and>
    holds_lines r' (ls @ kept (buf_size (resp_obj c)) (buf_len (resp_obj c)) [l])"
proof -
  let ?r = "resp_obj c"
  show ?thesis
  proof (cases "buf_len ?r + (length l + 2) < buf_size ?r")
    case True
    obtain rest where rest: "resp_buf ?r = concat (map stored_line ls) @ rest"
      "buf_len ?r = length (concat (map stored_line ls))" "length (resp_buf ?r) = buf_size ?r"
      using assms(3) unfolding holds_lines_def by blast
    have w: "mem_write (resp_buf ?r) (buf_len ?r) (stored_line l) =
        Some (concat (map stored_line ls) @ stored_line l @ drop (length l + 2) rest)"
      using True rest by (simp add: mem_write_def stored_line_def)
    have m: "mem_read (recv_line_buf c) 0 (recv_line_len c) = Some (stored_line l)"
      using assms(1,2) by (simp add: mem_read_def stored_line_def)
    let ?r' = "?r\<lparr>resp_buf := concat (map stored_line ls) @ stored_line l @ drop (length l + 2) rest,
      buf_len := buf_len ?r + recv_line_len c, line_counts := line_counts ?r + 1\<rparr>"
    have "copy_line c = Some (c\<lparr>resp_obj := ?r'\<rparr>)" using True m w assms(2) by (simp add: copy_line_def Let_def)
    moreover have "holds_lines ?r' (ls @ [l])"
      using assms(2,3) rest True by (auto simp: holds_lines_def stored_line_def)
    ultimately show ?thesis using True by (intro exI [of _ ?r'] exI [of _ "resp_status c"]) simp
  next
    case False
    then have "copy_line c = Some (c\<lparr>resp_status := AT_RESP_BUFF_FULL\<rparr>)" using assms(2) by (simp add: copy_line_def)
    then show ?thesis using False assms(3) by (intro exI [of _ ?r] exI [of _ AT_RESP_BUFF_FULL]) simp
  qed
qed

text \<open>A line that does not end a response.\<close>

definition plain_line :: "bytes \<Rightarrow> bool" where
  "plain_line l \<longleftrightarrow> take 2 l \<noteq> AT_RESP_END_OK \<and> \<not> strstr (l @ [13]) AT_RESP_END_ERROR \<and> take 4 l \<noteq> AT_RESP_END_FAIL"

lemma take_prefix: "take (length pat) (l @ c # zs) = pat \<Longrightarrow> c \<notin> set pat \<Longrightarrow> take (length pat) l = pat"
  by (cases "length pat \<le> length l") (auto simp: take_Cons' split: if_splits dest!: arg_cong [of _ pat set])

lemma check_result_plain:
  assumes "recv_line_buf c = l @ [13, 0] @ zs" and "4 \<le> length (recv_line_buf c)" and "0 \<notin> set l" and "end_sign c = 0"
    and "line_num (resp_obj c) = 0" and that: "l = AT_RESP_END_OK \<or> plain_line l"
  shows "check_result e c = Some (if l = AT_RESP_END_OK then Some AT_RESP_OK else None)"
proof -
  let ?b = "recv_line_buf c"
  have m: "mem_read ?b 0 2 = Some (take 2 ?b)" "mem_read ?b 0 4 = Some (take 4 ?b)" using assms(2) by (simp_all add: mem_read_def)
  have t: "takeWhile (\<lambda>ch. ch \<noteq> 0) ?b = l @ [13]" using assms(1,3) by (simp add: line_text)
  show ?thesis
  proof (cases "l = AT_RESP_END_OK")
    case True
    then have "take 2 ?b = AT_RESP_END_OK" using assms(1) by (simp add: AT_RESP_END_OK_def)
    then show ?thesis using True assms(4,5) m by (simp add: check_result_def Let_def)
  next
    case False
    then have p: "plain_line l" using that by simp
    have e: "length AT_RESP_END_OK = 2" "length AT_RESP_END_FAIL = 4" "13 \<notin> set AT_RESP_END_OK" "13 \<notin> set AT_RESP_END_FAIL"
      by (simp_all add: AT_RESP_END_OK_def AT_RESP_END_FAIL_def)
    have "take 2 ?b \<noteq> AT_RESP_END_OK" using take_prefix [of AT_RESP_END_OK l 13 "0 # zs", unfolded e(1)] p assms(1) e(3)
      by (auto simp: plain_line_def)
    moreover have "take 4 ?b \<noteq> AT_RESP_END_FAIL" using take_prefix [of AT_RESP_END_FAIL l 13 "0 # zs", unfolded e(2)] p assms(1) e(4)
      by (auto simp: plain_line_def)
    ultimately show ?thesis using False p assms(4,5) m t by (simp add: check_result_def Let_def plain_line_def)
  qed
qed

lemma parse_response_ok:
  assumes "line_read l c" and "end_sign c = 0" and "line_num (resp_obj c) = 0" and "holds_lines (resp_obj c) ls"
    and "l = AT_RESP_END_OK \<or> plain_line l"
  shows "\<exists>c'. parse_response c = Some (l = AT_RESP_END_OK, c') \<and>
    holds_lines (resp_obj c') (ls @ kept (buf_size (resp_obj c)) (buf_len (resp_obj c)) [l]) \<and>
    buf_size (resp_obj c') = buf_size (resp_obj c) \<and> line_num (resp_obj c') = 0 \<and> end_sign c' = 0 \<and>
    urc_table c' = urc_table c \<and> recv_bufsz c' = recv_bufsz c \<and> resp_set c' = (resp_set c \<and> l \<noteq> AT_RESP_END_OK) \<and>
    resp_notice c' = resp_notice c \<and>
    (l = AT_RESP_END_OK \<longrightarrow> resp_status c' = AT_RESP_OK)"
proof -
  let ?zs = "replicate (recv_bufsz c - (length l + 2)) 0"
  let ?c = "c\<lparr>recv_line_buf := l @ [13, 0] @ ?zs\<rparr>"
  have r: "recv_line_buf c = l @ [13, 10] @ ?zs" "recv_line_len c = length l + 2" "0 \<notin> set l"
    "4 \<le> length (recv_line_buf ?c)" using assms(1) by (auto simp: line_read_def)
  have g: "mem_get (recv_line_buf c) (recv_line_len c - 1) = Some 10"
    "mem_put (recv_line_buf c) (recv_line_len c - 1) 0 = Some (l @ [13, 0] @ ?zs)"
    unfolding r(1,2) by (simp_all add: mem_get_def mem_put_def nth_append list_update_append)
  obtain r' st where c1: "copy_line ?c = Some (?c\<lparr>resp_obj := r', resp_status := st\<rparr>)" "buf_size r' = buf_size (resp_obj c)"
    "line_num r' = line_num (resp_obj c)" "holds_lines r' (ls @ kept (buf_size (resp_obj c)) (buf_len (resp_obj c)) [l])"
    using copy_line_ok [of ?c l ?zs ls] r(2) assms(4) by auto
  have "check_result 10 (?c\<lparr>resp_obj := r', resp_status := st\<rparr>) = Some (if l = AT_RESP_END_OK then Some AT_RESP_OK else None)"
    using c1(3) assms(2,3,5) r by (intro check_result_plain [where zs = ?zs]) auto
  then show ?thesis using g c1 assms(2,3) by (cases "l = AT_RESP_END_OK") (auto simp: parse_response_def)
qed

section \<open>Rounds of the parser\<close>

text \<open>Rounds of the loop of \<^verbatim>\<open>client_parser\<close>.\<close>

fun parser_rounds ::
  "(nat \<Rightarrow> at_client \<Rightarrow> at_rx list \<Rightarrow> at_client \<times> at_rx list) \<Rightarrow> nat \<Rightarrow> at_client \<Rightarrow> at_rx list \<Rightarrow> kernel \<Rightarrow>
     (at_client \<times> at_rx list \<times> kernel) option" where
  "parser_rounds exec 0 c ins k = Some (c, ins, k)"
| "parser_rounds exec (Suc n) c ins k =
     do { (c1, ins1, k1) \<leftarrow> client_parser exec c ins k; parser_rounds exec n c1 ins1 k1 }"

lemma parser_rounds_last:
  "parser_rounds exec n c ins k = Some (c1, ins1, k1) \<Longrightarrow> parser_rounds exec (n + 1) c ins k = client_parser exec c1 ins1 k1"
proof (induction n arbitrary: c ins k)
  case 0
  then show ?case by (cases "client_parser exec c1 ins1 k1") (auto split: prod.splits)
next
  case (Suc n)
  then show ?case by (auto simp: bind_eq_Some_conv split: prod.splits)
qed

text \<open>A client that waits for a response, of which the lines \<open>ls\<close> have arrived.\<close>

definition collecting :: "at_client \<Rightarrow> bytes list \<Rightarrow> bool" where
  "collecting c ls \<longleftrightarrow> resp_set c \<and> end_sign c = 0 \<and> line_num (resp_obj c) = 0 \<and> holds_lines (resp_obj c) ls \<and> 4 \<le> recv_bufsz c"

lemma parse_line_ok:
  assumes "collecting c ls" and "clean_line c l" and "l = AT_RESP_END_OK \<or> plain_line l"
    and "rx_bytes ins = l @ [13, 10] @ bs" and "patient ins"
  shows "\<exists>c' ins'. parse_line exec c ins = Some (l = AT_RESP_END_OK, c', ins') \<and> rx_bytes ins' = bs \<and> patient ins' \<and>
    holds_lines (resp_obj c') (ls @ kept (buf_size (resp_obj c)) (buf_len (resp_obj c)) [l]) \<and>
    buf_size (resp_obj c') = buf_size (resp_obj c) \<and> urc_table c' = urc_table c \<and> recv_bufsz c' = recv_bufsz c \<and>
    resp_notice c' = resp_notice c \<and>
    (if l = AT_RESP_END_OK then resp_status c' = AT_RESP_OK \<and> \<not> resp_set c'
     else collecting c' (ls @ kept (buf_size (resp_obj c)) (buf_len (resp_obj c)) [l]))"
proof -
  let ?c = "c\<lparr>recv_line_buf := l @ [13, 10] @ replicate (recv_bufsz c - (length l + 2)) 0, recv_line_len := length l + 2\<rparr>"
  have col: "resp_set c" "end_sign c = 0" "line_num (resp_obj c) = 0" "holds_lines (resp_obj c) ls" "4 \<le> recv_bufsz c"
    using assms(1) by (simp_all add: collecting_def)
  obtain ins1 where r: "at_recv_readline c ins = Some (int (length l + 2), ?c, ins1)" "rx_bytes ins1 = bs" "patient ins1"
    using readline_ok [OF assms(2) col(2) assms(4,5)] by blast
  have "\<not> urc_line c (take (length l + 2) (l @ [13, 10]))" using assms(2) by (auto simp: clean_line_def)
  then have u: "get_urc_obj ?c = None" unfolding get_urc_none by (simp add: urc_line_def)
  have "line_read l ?c" using assms(2) col(5) by (simp add: line_read_def clean_line_def)
  from parse_response_ok [OF this, of ls] obtain c' where c': "parse_response ?c = Some (l = AT_RESP_END_OK, c')"
    "holds_lines (resp_obj c') (ls @ kept (buf_size (resp_obj c)) (buf_len (resp_obj c)) [l])"
    "buf_size (resp_obj c') = buf_size (resp_obj c)" "line_num (resp_obj c') = 0" "end_sign c' = 0"
    "urc_table c' = urc_table c" "recv_bufsz c' = recv_bufsz c" "resp_set c' = (resp_set c \<and> l \<noteq> AT_RESP_END_OK)"
    "l = AT_RESP_END_OK \<longrightarrow> resp_status c' = AT_RESP_OK" "resp_notice c' = resp_notice c"
    using col assms(3) by auto
  then show ?thesis using r u col by (auto simp: parse_line_def collecting_def)
qed

lemma kept_snoc: "kept sz used (l # ls) = kept sz used [l] @ kept sz (used + length (concat (map stored_line (kept sz used [l])))) ls"
  by (simp add: stored_line_def)

lemma kept_append:
  "kept sz used (ls @ [l]) = kept sz used ls @ kept sz (used + length (concat (map stored_line (kept sz used ls)))) [l]"
  by (induction ls arbitrary: used) (auto simp: stored_line_def add.assoc)

lemma collecting_used: "collecting c ls \<Longrightarrow> buf_len (resp_obj c) = length (concat (map stored_line ls))"
  by (simp add: collecting_def holds_lines_def)

text \<open>The lines before the result do not touch the kernel and the semaphore.\<close>

lemma parser_lines_ok:
  assumes "rx_bytes ins = concat (map (\<lambda>l. l @ [13, 10]) ls) @ bs" and "patient ins"
    and "collecting c done" and "\<forall>l \<in> set ls. clean_line c l \<and> plain_line l"
  shows "\<exists>c' ins'. parser_rounds exec (length ls) c ins k = Some (c', ins', k) \<and> rx_bytes ins' = bs \<and> patient ins' \<and>
    collecting c' (done @ kept (buf_size (resp_obj c)) (buf_len (resp_obj c)) ls) \<and>
    buf_size (resp_obj c') = buf_size (resp_obj c) \<and> urc_table c' = urc_table c \<and> recv_bufsz c' = recv_bufsz c \<and>
    resp_notice c' = resp_notice c"
  using assms
proof (induction ls arbitrary: c ins "done")
  case (Cons l ls)
  let ?d = "done @ kept (buf_size (resp_obj c)) (buf_len (resp_obj c)) [l]"
  have p: "plain_line l" "clean_line c l" "l \<noteq> AT_RESP_END_OK"
    using Cons.prems(4) by (auto simp: plain_line_def AT_RESP_END_OK_def)
  obtain c1 ins1 where c1: "parse_line exec c ins = Some (False, c1, ins1)"
    "rx_bytes ins1 = concat (map (\<lambda>l. l @ [13, 10]) ls) @ bs" "patient ins1"
    "buf_size (resp_obj c1) = buf_size (resp_obj c)" "urc_table c1 = urc_table c" "recv_bufsz c1 = recv_bufsz c" "collecting c1 ?d"
    "resp_notice c1 = resp_notice c"
    using parse_line_ok [OF Cons.prems(3) p(2), of ins _ exec] p Cons.prems(1,2) by auto
  have step: "client_parser exec c ins k = Some (c1, ins1, k)" using c1(1) by (simp add: client_parser_def)
  have cl: "clean_line c1 x = clean_line c x" for x using c1(5,6) by (simp add: clean_line_def urc_line_def)
  obtain c' ins' where c': "parser_rounds exec (length ls) c1 ins1 k = Some (c', ins', k)" "rx_bytes ins' = bs" "patient ins'"
    "collecting c' (?d @ kept (buf_size (resp_obj c1)) (buf_len (resp_obj c1)) ls)"
    "buf_size (resp_obj c') = buf_size (resp_obj c1)" "urc_table c' = urc_table c1" "recv_bufsz c' = recv_bufsz c1"
    "resp_notice c' = resp_notice c1"
    using Cons.IH [OF c1(2,3,7)] Cons.prems(4) cl by auto
  have b: "buf_len (resp_obj c1) =
      buf_len (resp_obj c) + length (concat (map stored_line (kept (buf_size (resp_obj c)) (buf_len (resp_obj c)) [l])))"
    using collecting_used [OF Cons.prems(3)] collecting_used [OF c1(7)] by simp
  have "done @ kept (buf_size (resp_obj c)) (buf_len (resp_obj c)) (l # ls) =
      ?d @ kept (buf_size (resp_obj c1)) (buf_len (resp_obj c1)) ls"
    unfolding b c1(4) by (subst kept_snoc) simp
  moreover have "parser_rounds exec (length (l # ls)) c ins k = Some (c', ins', k)" using step c'(1) by simp
  ultimately show ?case using c' c1 by (simp del: kept.simps parser_rounds.simps)
qed auto

lemma parser_rounds_ok:
  assumes "rx_bytes ins = concat (map (\<lambda>l. l @ [13, 10]) (ls @ [AT_RESP_END_OK])) @ bs" and "patient ins"
    and "collecting c []" and "\<forall>l \<in> set ls. clean_line c l \<and> plain_line l" and "clean_line c AT_RESP_END_OK"
  shows "\<exists>c0 ins0 c1 ins'. parser_rounds exec (length ls) c ins k = Some (c0, ins0, k) \<and> resp_set c0 \<and>
    resp_notice c0 = resp_notice c \<and> parse_line exec c0 ins0 = Some (True, c1, ins') \<and>
    rx_bytes ins' = bs \<and> resp_status c1 = AT_RESP_OK \<and> \<not> resp_set c1 \<and> resp_notice c1 = resp_notice c \<and>
    holds_lines (resp_obj c1) (kept (buf_size (resp_obj c)) 0 (ls @ [AT_RESP_END_OK]))"
proof -
  have "rx_bytes ins = concat (map (\<lambda>l. l @ [13, 10]) ls) @ (AT_RESP_END_OK @ [13, 10] @ bs)" using assms(1) by simp
  then obtain c0 ins0 where c0: "parser_rounds exec (length ls) c ins k = Some (c0, ins0, k)"
    "rx_bytes ins0 = AT_RESP_END_OK @ [13, 10] @ bs" "patient ins0"
    "collecting c0 (kept (buf_size (resp_obj c)) (buf_len (resp_obj c)) ls)" "buf_size (resp_obj c0) = buf_size (resp_obj c)"
    "urc_table c0 = urc_table c" "recv_bufsz c0 = recv_bufsz c" "resp_notice c0 = resp_notice c"
    using parser_lines_ok [OF _ assms(2-4), of _ exec k] by force
  have z: "buf_len (resp_obj c) = 0" using collecting_used [OF assms(3)] by simp
  have cl: "clean_line c0 AT_RESP_END_OK" using assms(5) c0(6,7) by (simp add: clean_line_def urc_line_def)
  obtain c1 ins' where c1: "parse_line exec c0 ins0 = Some (True, c1, ins')" "rx_bytes ins' = bs" "resp_status c1 = AT_RESP_OK"
    "\<not> resp_set c1" "resp_notice c1 = resp_notice c0"
    "holds_lines (resp_obj c1) (kept (buf_size (resp_obj c)) 0 ls @ kept (buf_size (resp_obj c0)) (buf_len (resp_obj c0)) [AT_RESP_END_OK])"
    using parse_line_ok [OF c0(4) cl _ c0(2,3), of exec] z by auto
  have "kept (buf_size (resp_obj c)) 0 (ls @ [AT_RESP_END_OK]) =
      kept (buf_size (resp_obj c)) 0 ls @ kept (buf_size (resp_obj c0)) (buf_len (resp_obj c0)) [AT_RESP_END_OK]"
    using collecting_used [OF c0(4)] by (simp only: kept_append c0(5) z add_0)
  moreover have "resp_set c0" using c0(4) by (simp add: collecting_def)
  ultimately show ?thesis using c0(1,8) c1 by (simp del: kept.simps)
qed

text \<open>
  The semaphore of a client whose command waits for the response, or has not yet started to wait; one
  release wakes the waiting thread or leaves a permit.
\<close>

definition notice_ok :: "rt_semaphore \<Rightarrow> kernel \<Rightarrow> bool" where
  "notice_ok s k \<longleftrightarrow> sem_inv s k \<and> running k \<and> (tlists k (sem_head s) = [] \<longrightarrow> sem_value s < RT_SEM_VALUE_MAX)"

definition notified_once :: "rt_semaphore \<Rightarrow> kernel \<Rightarrow> rt_semaphore \<Rightarrow> kernel \<Rightarrow> bool" where
  "notified_once s k s' k' \<longleftrightarrow>
     (case tlists k (sem_head s) of
        [] \<Rightarrow> s' = s\<lparr>sem_value := sem_value s + 1\<rparr> \<and> k' = k
      | t # ts \<Rightarrow> s' = s \<and> runnable k' t \<and> rt_sem_take_resumed t k' = RT_EOK \<and> tlists k' (sem_head s) = ts)"

lemma release_notifies:
  assumes "notice_ok s k"
  shows "\<exists>s' k'. rt_sem_release s k = Some (RT_EOK, s', k') \<and> notified_once s k s' k'"
proof (cases "tlists k (sem_head s)")
  case Nil
  then show ?thesis using assms by (simp add: rt_sem_release_def notice_ok_def notified_once_def)
next
  case (Cons t ts)
  have i: "sem_inv s k" "ready_inv k" "running k" using assms by (simp_all add: notice_ok_def sem_inv_def)
  have "thread_state k t = RT_THREAD_SUSPEND" using waiting_suspended [OF i(2), of "sem_head s" t] Cons by simp
  then have "rt_current_thread k \<noteq> Some t" "rt_current_thread k \<noteq> None" using i(3) by (auto simp: running_def kernel_simps)
  from sem_release_wakes [OF i(1) this(2) Cons this(1)] Cons show ?thesis by (auto simp: notified_once_def)
qed


lemma kept_set: "set (kept sz used ls) \<subseteq> set ls"
  by (induction ls arbitrary: used) auto

lemma kept_length: "length (kept sz used ls) \<le> length ls"
  by (induction ls arbitrary: used) (auto simp: le_SucI)

text \<open>A line that is not kept is missing in the count.\<close>

lemma kept_missing: "l \<in> set ls \<Longrightarrow> sz \<le> length l + 2 \<Longrightarrow> length (kept sz used ls) < length ls"
proof (induction ls arbitrary: used)
  case (Cons x xs)
  then show ?case using kept_length [of sz _ xs] by (auto simp: le_imp_less_Suc)
qed simp

section \<open>Properties\<close>


text \<open>
  A response that does not fit is reported as a success: when one of the lines is too long for the response
  buffer the line is dropped, \<^verbatim>\<open>AT_RESP_BUFF_FULL\<close> is overwritten when \<^verbatim>\<open>OK\<close> arrives, and the command returns success with
  fewer lines than the module sent.
\<close>

theorem at_overflow_hidden:
  assumes "rx_bytes ins = concat (map (\<lambda>l. l @ [13, 10]) (ls @ [AT_RESP_END_OK])) @ bs" and "patient ins"
    and "collecting c []" and "\<forall>l \<in> set ls. clean_line c l \<and> plain_line l" and "clean_line c AT_RESP_END_OK"
    and "l \<in> set ls" and "buf_size (resp_obj c) \<le> length l + 2" and "notice_ok (resp_notice c) k"
  shows "\<exists>c' ins' k'. parser_rounds exec (length ls + 1) c ins k = Some (c', ins', k') \<and>
    notified_once (resp_notice c) k (resp_notice c') k' \<and>
    line_counts (resp_obj c') < length ls + 1 \<and> resp_status c' = AT_RESP_OK \<and>
    (\<forall>k2 r l' k3. rt_mutex_release (at_lock c') k2 = Some (r, l', k3) \<longrightarrow> (\<exists>c2. exec_taken RT_EOK c' k2 = Some (AtDone RT_EOK, c2, k3)))"
proof -
  let ?ls = "ls @ [AT_RESP_END_OK]"
  obtain c0 ins0 c1 ins' where c1: "parser_rounds exec (length ls) c ins k = Some (c0, ins0, k)"
    "parse_line exec c0 ins0 = Some (True, c1, ins')" "resp_status c1 = AT_RESP_OK" "resp_notice c1 = resp_notice c"
    "holds_lines (resp_obj c1) (kept (buf_size (resp_obj c)) 0 ?ls)"
    using parser_rounds_ok [OF assms(1-5), of exec k] by auto
  obtain s' k' where s': "rt_sem_release (resp_notice c) k = Some (RT_EOK, s', k')" "notified_once (resp_notice c) k s' k'"
    using release_notifies [OF assms(8)] by blast
  let ?c = "c1\<lparr>resp_notice := s'\<rparr>"
  have "parser_rounds exec (length ls + 1) c ins k = Some (?c, ins', k')"
    using parser_rounds_last [OF c1(1)] c1(2,4) s'(1) by (simp add: client_parser_def)
  moreover have "line_counts (resp_obj c1) < length ls + 1"
    using c1(5) kept_missing [of l ?ls "buf_size (resp_obj c)" 0] assms(6,7) by (simp add: holds_lines_def)
  moreover have "exec_taken RT_EOK ?c k2 = Some (AtDone RT_EOK, ?c\<lparr>resp_set := False, at_lock := l'\<rparr>, k3)"
    if "rt_mutex_release (at_lock ?c) k2 = Some (r, l', k3)" for k2 r l' k3
    using that c1(3) by (simp add: exec_taken_def exec_exit_def)
  ultimately show ?thesis using c1(3) s'(2) by (intro exI [of _ ?c] exI [of _ ins'] exI [of _ k']) auto
qed

text \<open>The line \<^verbatim>\<open>+A\<close> with a pause, and then \<^verbatim>\<open>OK\<close>; a table with the unsolicited result \<^verbatim>\<open>>\<close>.\<close>

definition demo_resp :: "nat \<Rightarrow> at_response" where
  "demo_resp sz = \<lparr>resp_buf = replicate sz 0, buf_size = sz, buf_len = 0, line_num = 0, line_counts = 0, resp_timeout = 300\<rparr>"

definition demo_at_client :: "nat \<Rightarrow> at_client" where
  "demo_at_client sz = \<lparr>at_state = AT_STATUS_INITIALIZED, end_sign = 0, recv_line_buf = [], recv_line_len = 0, recv_bufsz = 16,
     at_lock = owned_mutex, resp_obj = demo_resp sz, resp_set = True, resp_notice = \<lparr>sem_id = 0, sem_flag = RT_IPC_FLAG_PRIO, sem_value = 0\<rparr>, resp_status = AT_RESP_OK,
     urc_table = [[\<lparr>cmd_prefix = [0x3e], cmd_suffix = [], urc_func = None\<rparr>]], sent = []\<rparr>"

definition demo_rx :: "at_rx list" where
  "demo_rx = [Rx 0x2b, Quiet RT_EOK, Rx 0x41, Rx 13, Rx 10, Quiet RT_EOK, Rx 0x4f, Rx 0x4b, Rx 13, Rx 10]"

lemma demo_at_facts:
  "rx_bytes demo_rx = concat (map (\<lambda>l. l @ [13, 10]) ([[0x2b, 0x41]] @ [AT_RESP_END_OK])) @ []" "patient demo_rx"
  "collecting (demo_at_client sz) []" "\<forall>l \<in> set [[0x2b, 0x41]]. clean_line (demo_at_client sz) l \<and> plain_line l"
  "clean_line (demo_at_client sz) AT_RESP_END_OK"
proof -
  show "rx_bytes demo_rx = concat (map (\<lambda>l. l @ [13, 10]) ([[0x2b, 0x41]] @ [AT_RESP_END_OK])) @ []" by code_simp
  show "patient demo_rx" by (auto simp: patient_def demo_rx_def)
  show "collecting (demo_at_client sz) []" by (simp add: collecting_def demo_at_client_def demo_resp_def holds_lines_def)
  have "\<not> urc_line (demo_at_client sz) (take k (a # cs))" if "0 < k" "a \<noteq> 0x3e" for k a cs
    using that by (cases k) (auto simp: urc_line_def demo_at_client_def urc_matches_def)
  moreover have "plain_line [0x2b, 0x41]" by code_simp
  ultimately show "\<forall>l \<in> set [[0x2b, 0x41]]. clean_line (demo_at_client sz) l \<and> plain_line l"
    "clean_line (demo_at_client sz) AT_RESP_END_OK"
    by (auto simp: clean_line_def AT_RESP_END_OK_def) (simp_all add: demo_at_client_def)
qed

text \<open>Thread 5 waits for the response.\<close>

lemma demo_notice: "notice_ok (resp_notice (demo_at_client sz)) sample_kernel" "tlists sample_kernel (sem_head (resp_notice (demo_at_client sz))) = [5]"
proof -
  have q: "tlists sample_kernel (SuspHead 0) = [5]" "error (threads sample_kernel 5) = 0"
    by (simp_all add: sample_kernel_def sample_thread_def)
  then show "tlists sample_kernel (sem_head (resp_notice (demo_at_client sz))) = [5]" by (simp add: demo_at_client_def)
  show "notice_ok (resp_notice (demo_at_client sz)) sample_kernel"
    using q sample_ready_inv sample_running by (simp add: notice_ok_def sem_inv_def demo_at_client_def RT_EOK_def)
qed


theorem at_overflow_hidden_witness:
  "\<exists>c' ins' k'. parser_rounds (\<lambda>f c ins. (c, ins)) 2 (demo_at_client 4) demo_rx sample_kernel = Some (c', ins', k') \<and>
    line_counts (resp_obj c') < 2 \<and> resp_status c' = AT_RESP_OK"
proof -
  have "buf_size (resp_obj (demo_at_client 4)) \<le> length [0x2b, 0x41 :: u8] + 2" by code_simp
  from at_overflow_hidden [OF demo_at_facts(1,2) demo_at_facts(3-5) [where sz = 4] _ this demo_notice(1), of "\<lambda>f c ins. (c, ins)"] show ?thesis
    by (auto simp: numeral_2_eq_2 simp del: parser_rounds.simps)
qed

end
