(* ===== verification/Tick.thy ===== *)
theory Tick
  imports Timer
begin

text \<open>
  The system tick as the application sees it: one call of \<^verbatim>\<open>rt_tick_increase\<close> runs exactly the timers
  whose timeout is the new tick and calls their functions, also when the time slice of the running thread ends and the processor
  is given to another thread. Starting and stopping application timers keep the invariant, so the
  lemmas compose over any sequence of ticks and timer calls.
\<close>

text \<open>
  Between two ticks: the scheduler and timer invariants hold relative to the current tick, and no
  pending timeout is the current tick. A periodic timer may not be as long as half the tick range.
\<close>

definition clock_inv :: "kernel \<Rightarrow> bool" where
  "clock_inv k \<longleftrightarrow> check_inv (rt_tick k) k \<and>
     (\<forall>i \<in> set (timer_list k). timeout_tick (timers k i) \<noteq> rt_tick k \<and>
        (periodic k i \<longrightarrow> unat (timer_init_tick (timers k i)) + 1 < 0x7fffffff))"

lemma since_self [simp]: "since b b = 0"
  by (simp add: since_def)

lemma since_add: "since b (b + x) = unat x"
  by (simp add: since_def)

lemma since_zero: "since b x = 0 \<longleftrightarrow> x = b"
  by (auto simp: since_def unat_eq_0)

lemma since_rebase:
  assumes "x \<noteq> b"
  shows "since (b + 1) x + 1 = since b x"
proof -
  have "x - (b + 1) = (x - b) - 1" by simp
  moreover have "x - b \<noteq> 0" using assms by simp
  ultimately show ?thesis unfolding since_def by (metis Suc_eq_plus1 Suc_pred' unat_gt_0 unat_minus_one)
qed

lemma since_next: "x \<noteq> b \<Longrightarrow> since b x \<le> 1 \<longleftrightarrow> x = b + 1"
  using since_rebase [of x b] since_zero [of "b + 1" x] by auto

text \<open>The part of \<^verbatim>\<open>rt_tick_increase\<close> before the timers: the slice of the running thread.\<close>

lemma slice_inv:
  assumes "ready_inv k" and "rt_current_thread k = Some c"
  shows "ready_inv (upd_thread c (\<lambda>th. th\<lparr>remaining_tick := x\<rparr>) k)"
    and "thread_state (upd_thread c (\<lambda>th. th\<lparr>remaining_tick := x\<rparr>) k) = thread_state k"
proof -
  let ?k = "upd_thread c (\<lambda>th. th\<lparr>remaining_tick := x\<rparr>) k"
  show st: "thread_state ?k = thread_state k" by (auto simp: thread_state_def kernel_simps fun_eq_iff)
  have "queue_inv (set_option (rt_current_thread k)) ?k"
    by (rule queue_inv_upd_thread [OF ready_queue [OF assms(1)]]) (use assms ready_current [OF assms] in simp_all)
  moreover have "wait_inv ?k"
    by (rule wait_inv_sub [OF ready_wait [OF assms(1)]]) (simp add: st, simp add: kernel_simps)
  ultimately show "ready_inv ?k"
    by (intro ready_inv_relist [OF assms(1) _ _ _ st]) (simp_all add: kernel_simps)
qed

lemma tick_increase_slice:
  assumes inv: "ready_inv k" and c: "rt_current_thread k = Some c"
  shows "\<exists>k3. rt_tick_increase cb e k = rt_timer_check cb e k3 \<and> ready_inv k3 \<and> rt_current_thread k3 \<noteq> None \<and>
    rt_tick k3 = rt_tick k + 1 \<and> timers k3 = timers k \<and> timer_list k3 = timer_list k \<and> check_list k3 = check_list k \<and>
    (\<forall>t. thread_state k t = RT_THREAD_SUSPEND \<longrightarrow> thread_state k3 t = RT_THREAD_SUSPEND)"
proof -
  let ?k1 = "k\<lparr>rt_tick := rt_tick k + 1\<rparr>"
  have inv1: "ready_inv ?k1" using inv by (subst ready_inv_same [of _ k]) simp_all
  have c1: "rt_current_thread ?k1 = Some c" using c by simp
  define k2 where "k2 = upd_thread c (\<lambda>th. th\<lparr>remaining_tick := remaining_tick th - 1\<rparr>) ?k1"
  have k2': "k2 = upd_thread c (\<lambda>th. th\<lparr>remaining_tick := remaining_tick (threads k c) - 1\<rparr>) ?k1"
    by (simp add: k2_def upd_thread_def)
  have inv2: "ready_inv k2" and st2: "thread_state k2 = thread_state ?k1"
    unfolding k2' by (rule slice_inv [OF inv1 c1])+
  have f2: "rt_current_thread k2 = Some c" "rt_tick k2 = rt_tick k + 1" "timers k2 = timers k"
    "timer_list k2 = timer_list k" "check_list k2 = check_list k"
    using c by (simp_all add: k2_def kernel_simps)
  have st1: "thread_state ?k1 = thread_state k" by (simp add: thread_state_def fun_eq_iff)
  show ?thesis
  proof (cases "remaining_tick (threads k2 c) = 0")
    case False
    then have "rt_tick_increase cb e k = rt_timer_check cb e k2"
      using c by (simp add: rt_tick_increase_def rt_thread_self_def k2_def)
    then show ?thesis using inv2 f2 st2 st1 by (intro exI [of _ k2]) simp
  next
    case True
    let ?ky = "upd_thread c (\<lambda>th. th\<lparr>remaining_tick := init_tick th, stat := stat th OR RT_THREAD_STAT_YIELD\<rparr>) k2"
    note yp = yield_prepared [OF inv2 f2(1)]
    obtain k3 where k3: "rt_schedule ?ky = Some k3" "ready_inv k3" "rt_current_thread k3 \<noteq> None"
      using rt_schedule_keeps_inv [OF yp(1)] yp(3) by auto
    have "rt_tick_increase cb e k = rt_timer_check cb e k3"
      using True c k3(1) by (simp add: rt_tick_increase_def rt_thread_self_def k2_def)
    moreover have "thread_state k3 t = RT_THREAD_SUSPEND" if "thread_state k t = RT_THREAD_SUSPEND" for t
      using rt_schedule_suspended [OF yp(1,3) k3(1)] that yp(2) st2 st1 by simp
    moreover have "rt_tick k3 = rt_tick k + 1" "timers k3 = timers k" "timer_list k3 = timer_list k" "check_list k3 = check_list k"
      using rt_schedule_frame [OF k3(1)] f2 by (simp_all add: kernel_simps)
    ultimately show ?thesis using k3(2,3) by (intro exI [of _ k3]) simp
  qed
qed

text \<open>The timers that expire at the next tick.\<close>

definition expiring :: "kernel \<Rightarrow> timer_id \<Rightarrow> bool" where
  "expiring k i \<longleftrightarrow> i \<in> set (timer_list k) \<and> timeout_tick (timers k i) = rt_tick k + 1"

lemma due_same:
  "rt_tick k' = rt_tick k \<Longrightarrow> timers k' = timers k \<Longrightarrow> timer_list k' = timer_list k \<Longrightarrow> due_timers k' = due_timers k"
  unfolding due_timers_def timer_due_def by auto

text \<open>The same timers in the order in which they are handled.\<close>

definition next_due :: "kernel \<Rightarrow> timer_id list" where
  "next_due k = due_timers (k\<lparr>rt_tick := rt_tick k + 1\<rparr>)"

lemma expiring_due:
  assumes "clock_inv k" and "rt_tick k3 = rt_tick k + 1" and "timers k3 = timers k" and "timer_list k3 = timer_list k"
  shows "i \<in> set (due_timers k3) \<longleftrightarrow> expiring k i"
proof (cases "i \<in> set (timer_list k)")
  case True
  have "since (rt_tick k) (timeout_tick (timers k i)) < 0x7fffffff" "timeout_tick (timers k i) \<noteq> rt_tick k"
    using assms(1) True by (auto simp: clock_inv_def check_inv_def timeouts_ordered_def)
  moreover have "since (rt_tick k) (rt_tick k + 1) = 1" by (simp add: since_add)
  ultimately have "timer_due (rt_tick k + 1) k i \<longleftrightarrow> timeout_tick (timers k i) = rt_tick k + 1"
    using timer_due_since [of "rt_tick k" "rt_tick k + 1" k i] since_next [of "timeout_tick (timers k i)" "rt_tick k"] by simp
  moreover have "timer_due (rt_tick k + 1) k3 i = timer_due (rt_tick k + 1) k i" using assms(3) by (simp add: timer_due_def)
  ultimately show ?thesis using True assms by (simp add: due_timers_def expiring_def)
qed (use assms in \<open>simp add: due_timers_def expiring_def\<close>)

lemma check_inv_advance:
  assumes "clock_inv k" and k3: "ready_inv k3" "rt_current_thread k3 \<noteq> None" "rt_tick k3 = rt_tick k + 1"
    "timers k3 = timers k" "timer_list k3 = timer_list k" "check_list k3 = check_list k"
    and st: "\<And>t. thread_state k t = RT_THREAD_SUSPEND \<Longrightarrow> thread_state k3 t = RT_THREAD_SUSPEND"
  shows "check_inv (rt_tick k) k3"
proof -
  have p: "since (rt_tick k) (rt_tick k + 1 + timer_init_tick (timers k i)) < 0x7fffffff"
    if "i \<in> set (timer_list k)" "periodic k i" for i
  proof -
    have b: "unat (timer_init_tick (timers k i)) + 1 < 0x7fffffff" using assms(1) that by (simp add: clock_inv_def)
    then have "unat (1 + timer_init_tick (timers k i)) = unat (timer_init_tick (timers k i)) + 1"
      by (simp add: unat_word_ariths)
    then show ?thesis using b since_add [of "rt_tick k" "1 + timer_init_tick (timers k i)"] by (simp add: add.assoc)
  qed
  have "since (rt_tick k) (rt_tick k + 1) = 1" by (simp add: since_add)
  then show ?thesis
    using assms(1) k3 st p unfolding clock_inv_def check_inv_def timer_active_def hard_timer_def periodic_def by auto
qed

lemma clock_inv_rebase:
  assumes c: "check_inv b k" and t: "rt_tick k = b + 1" and d: "due_timers k = []"
    and ne: "\<And>i. i \<in> set (timer_list k) \<Longrightarrow> timeout_tick (timers k i) \<noteq> b"
    and p: "\<And>i. i \<in> set (timer_list k) \<Longrightarrow> periodic k i \<Longrightarrow> unat (timer_init_tick (timers k i)) + 1 < 0x7fffffff"
  shows "clock_inv k"
proof -
  have o: "timeouts_ordered b (\<lambda>i. timeout_tick (timers k i)) (timer_list k)" using c by (simp add: check_inv_def)
  have r: "since (b + 1) (timeout_tick (timers k i)) + 1 = since b (timeout_tick (timers k i))"
    if "i \<in> set (timer_list k)" for i using since_rebase ne [OF that] by blast
  have "map (\<lambda>i. since b (timeout_tick (timers k i))) (timer_list k) =
      map Suc (map (\<lambda>i. since (b + 1) (timeout_tick (timers k i))) (timer_list k))" using r by simp
  then have "sorted (map Suc (map (\<lambda>i. since (b + 1) (timeout_tick (timers k i))) (timer_list k)))"
    using o by (simp only: timeouts_ordered_def)
  then have "timeouts_ordered (b + 1) (\<lambda>i. timeout_tick (timers k i)) (timer_list k)"
    using o r by (fastforce simp: timeouts_ordered_def sorted_map sorted_wrt_map)
  moreover have "since (b + 1) (b + 1 + timer_init_tick (timers k i)) < 0x7fffffff"
    if "i \<in> set (timer_list k)" "periodic k i" for i using p [OF that] by (simp add: since_add)
  ultimately have "check_inv (b + 1) k" using c t by (auto simp: check_inv_def)
  moreover have "timeout_tick (timers k i) \<noteq> b + 1" if "i \<in> set (timer_list k)" for i
    using d that t by (auto simp: due_timers_def timer_due_def filter_empty_conv half_range)
  ultimately show ?thesis using p t by (simp add: clock_inv_def)
qed

lemma tick_increase_ok:
  assumes inv: "clock_inv k" and cb: "callbacks_passive g cb"
  shows "\<exists>k'. rt_tick_increase cb e k = Some (run_callbacks g (next_due k) e, k') \<and> clock_inv k' \<and> rt_tick k' = rt_tick k + 1 \<and>
    (\<forall>i. timers k' i = (if expiring k i
        then (if periodic k i then started (rt_tick k + 1) else stopped) (timers k i) else timers k i)) \<and>
    set (timer_list k') = {i \<in> set (timer_list k). expiring k i \<longrightarrow> periodic k i}"
proof -
  have r: "ready_inv k" "rt_current_thread k \<noteq> None" using inv by (auto simp: clock_inv_def check_inv_def)
  then obtain k3 where k3: "rt_tick_increase cb e k = rt_timer_check cb e k3" "ready_inv k3" "rt_current_thread k3 \<noteq> None"
    "rt_tick k3 = rt_tick k + 1" "timers k3 = timers k" "timer_list k3 = timer_list k" "check_list k3 = check_list k"
    "\<And>t. thread_state k t = RT_THREAD_SUSPEND \<Longrightarrow> thread_state k3 t = RT_THREAD_SUSPEND"
    using tick_increase_slice [of k _ cb e] by (metis not_None_eq)
  note due = expiring_due [OF inv k3(4,5,6)]
  have nd: "due_timers k3 = next_due k" unfolding next_due_def by (rule due_same) (simp_all add: k3)
  have per: "periodic k3 i = periodic k i" for i using k3(5) by (simp add: periodic_def)
  obtain k' where k': "rt_timer_check cb e k3 = Some (run_callbacks g (next_due k) e, k')" "check_inv (rt_tick k) k'" "rt_tick k' = rt_tick k + 1"
    "due_timers k' = []"
    "\<forall>i. timers k' i = (if expiring k i
        then (if periodic k i then started (rt_tick k + 1) else stopped) (timers k i) else timers k i)"
    "set (timer_list k') = {i \<in> set (timer_list k). expiring k i \<longrightarrow> periodic k i}"
    using timer_check_loop_ok [OF check_inv_advance [OF inv k3(2-8)] cb, of e]
    unfolding rt_timer_check_def due per k3(4,5,6) nd [symmetric] by metis
  have bound: "timeout_tick (timers k i) \<noteq> rt_tick k"
    "periodic k i \<Longrightarrow> unat (timer_init_tick (timers k i)) + 1 < 0x7fffffff" if "i \<in> set (timer_list k)" for i
    using inv that by (auto simp: clock_inv_def)
  have init: "timer_init_tick (timers k' i) = timer_init_tick (timers k i)" "periodic k' i = periodic k i" for i
    using k'(5) by (simp_all add: started_def stopped_def periodic_def flag_activate)
  have "timeout_tick (timers k' i) \<noteq> rt_tick k" if "i \<in> set (timer_list k')" for i
  proof (cases "expiring k i")
    case True
    then have p: "periodic k i" "i \<in> set (timer_list k)" using that k'(6) by auto
    have "1 + timer_init_tick (timers k i) \<noteq> 0"
      using bound(2) [OF p(2,1)] by (auto simp: unat_word_ariths word_unat_eq_iff)
    then show ?thesis using k'(5) True p by (simp add: started_def add.assoc)
  next
    case False
    then show ?thesis using that k'(5,6) bound(1) by simp
  qed
  moreover have "unat (timer_init_tick (timers k' i)) + 1 < 0x7fffffff" if "i \<in> set (timer_list k')" "periodic k' i" for i
    using bound(2) [of i] that k'(6) init by simp
  ultimately have "clock_inv k'" using clock_inv_rebase [OF k'(2,3,4)] by blast
  then show ?thesis using k3(1) k' by auto
qed

text \<open>Starting and stopping an application timer between two ticks.\<close>

lemma timer_start_ok:
  assumes inv: "clock_inv k" and h: "hard_timer k (UserTimer n)" and o: "\<not> periodic k (UserTimer n)"
    and t: "0 < timer_init_tick (timers k (UserTimer n))" "timer_init_tick (timers k (UserTimer n)) < 0x7fffffff"
  shows "\<exists>k'. rt_timer_start (UserTimer n) k = Some k' \<and> clock_inv k' \<and> rt_tick k' = rt_tick k \<and>
    timers k' = (timers k)(UserTimer n := started (rt_tick k) (timers k (UserTimer n))) \<and>
    set (timer_list k') = insert (UserTimer n) (set (timer_list k))"
proof -
  let ?i = "UserTimer n"
  let ?k = "timer_link ?i k"
  have b: "since (rt_tick k) (rt_tick k + timer_init_tick (timers k ?i)) < 0x7fffffff"
    using t(2) by (simp add: since_add word_less_nat_alt)
  note eff = timer_link_effect [of ?i k]
  have c: "check_inv (rt_tick k) k" using inv by (simp add: clock_inv_def)
  have ord: "timeouts_ordered (rt_tick k) (\<lambda>j. timeout_tick (timers ?k j)) (timer_list ?k)"
    using timer_link_ordered [OF _ h b] c by (simp add: check_inv_def)
  have set: "set (timer_list ?k) = insert ?i (set (timer_list k))" using eff(2) h by (auto simp: timer_insert_set)
  have rs: "ready_inv ?k" "rt_current_thread ?k \<noteq> None" "check_list ?k = []" "thread_state ?k = thread_state k"
    using c ready_inv_same [of ?k k] eff by (auto simp: check_inv_def thread_state_def fun_eq_iff)
  have other: "timers ?k j = (if j = ?i then started (rt_tick k) (timers k ?i) else timers k j)" for j using eff(1) by simp
  have act: "timer_active ?k ?i" by (rule timer_link_active)
  have pi: "\<not> periodic ?k ?i" "hard_timer ?k ?i" using o h other by (simp_all add: periodic_def hard_timer_def started_def flag_activate)
  have "check_inv (rt_tick k) ?k"
    unfolding check_inv_def
  proof (intro conjI ballI allI impI, goal_cases)
    case (6 i)
    then show ?case using act set c other by (cases "i = ?i") (auto simp: check_inv_def timer_active_def)
  next
    case (7 i)
    then show ?case using pi set c other by (cases "i = ?i") (auto simp: check_inv_def hard_timer_def)
  next
    case (8 i)
    then show ?case using pi set c other by (cases "i = ?i") (auto simp: check_inv_def periodic_def)
  next
    case (9 i)
    then show ?case using pi set c other by (cases "i = ?i") (auto simp: check_inv_def periodic_def)
  next
    case (10 i)
    then show ?case using pi set c other eff(11) by (cases "i = ?i") (auto simp: check_inv_def periodic_def)
  next
    case (11 t)
    then show ?case using set c rs by (auto simp: check_inv_def)
  next
    case (12 t)
    then show ?case using set c other by (auto simp: check_inv_def periodic_def)
  qed (use rs ord eff(11) in simp_all)
  moreover have "timeout_tick (timers ?k i) \<noteq> rt_tick k" if "i \<in> set (timer_list ?k)" for i
    using that set other inv t(1) by (auto simp: clock_inv_def started_def)
  moreover have "unat (timer_init_tick (timers ?k i)) + 1 < 0x7fffffff" if "i \<in> set (timer_list ?k)" "periodic ?k i" for i
    using that set other inv pi by (cases "i = ?i") (auto simp: clock_inv_def periodic_def)
  ultimately have "clock_inv ?k" using eff(11) by (simp add: clock_inv_def)
  then show ?thesis using hard_timer_start [OF h] set eff(1,11) by simp
qed

lemma timer_stop_ok:
  assumes inv: "clock_inv k" and a: "timer_active k (UserTimer n)"
  shows "clock_inv (snd (rt_timer_stop (UserTimer n) k))"
    and "rt_tick (snd (rt_timer_stop (UserTimer n) k)) = rt_tick k"
    and "timers (snd (rt_timer_stop (UserTimer n) k)) = (timers k)(UserTimer n := stopped (timers k (UserTimer n)))"
    and "set (timer_list (snd (rt_timer_stop (UserTimer n) k))) = set (timer_list k) - {UserTimer n}"
proof -
  let ?i = "UserTimer n" and ?k = "snd (rt_timer_stop (UserTimer n) k)"
  show tk: "rt_tick ?k = rt_tick k" and tm: "timers ?k = (timers k)(?i := stopped (timers k ?i))"
    and set: "set (timer_list ?k) = set (timer_list k) - {?i}"
    using a by (simp_all add: rt_timer_stop_def kernel_simps)
  have c: "check_inv (rt_tick k) k" using inv by (simp add: clock_inv_def)
  have rs: "ready_inv ?k" "rt_current_thread ?k \<noteq> None" "check_list ?k = []" "thread_state ?k = thread_state k"
    using c ready_inv_same [of ?k k] a by (auto simp: check_inv_def thread_state_def fun_eq_iff rt_timer_stop_def kernel_simps)
  have "timeouts_ordered (rt_tick k) (\<lambda>j. timeout_tick (timers ?k j)) (timer_list ?k)"
  proof -
    have l: "timer_list ?k = removeAll ?i (timer_list k)" using a by (simp add: rt_timer_stop_def kernel_simps)
    show ?thesis unfolding l
      using timeouts_ordered_remove [of "rt_tick k" "\<lambda>j. timeout_tick (timers k j)" "timer_list k" ?i] c tm
      by (subst timeouts_ordered_cong [of _ _ "\<lambda>j. timeout_tick (timers k j)"]) (auto simp: check_inv_def)
  qed
  then show "clock_inv ?k"
    using inv rs tk tm set
    unfolding clock_inv_def check_inv_def timer_active_def hard_timer_def periodic_def by auto
qed

section \<open>One-shot timers as countdowns\<close>

text \<open>
  The interface the application relies on: a set of one-shot timers that count down with the ticks; 0
  stands for a timer that is not running.
\<close>

fun ticks :: "('k \<Rightarrow> 'k option) \<Rightarrow> nat \<Rightarrow> 'k \<Rightarrow> 'k option" where
  "ticks tick 0 k = Some k"
| "ticks tick (Suc m) k = do { k' \<leftarrow> tick k; ticks tick m k' }"

locale countdown =
  fixes ok :: "'k \<Rightarrow> bool" and oneshot :: "'k \<Rightarrow> nat \<Rightarrow> nat \<Rightarrow> bool" and remaining :: "'k \<Rightarrow> nat \<Rightarrow> nat"
    and funs :: "'c \<Rightarrow> bool" and called :: "'c \<Rightarrow> 'i list \<Rightarrow> 'k \<Rightarrow> 'k \<Rightarrow> bool" and ident :: "nat \<Rightarrow> 'i"
    and tick :: "'c \<Rightarrow> 'k \<Rightarrow> 'k option" and start :: "nat \<Rightarrow> 'k \<Rightarrow> 'k option"
  assumes tick_law: "funs c \<Longrightarrow> ok k \<Longrightarrow> \<exists>k' is. tick c k = Some k' \<and> ok k' \<and> called c is k k' \<and>
      (\<forall>n p. oneshot k n p \<longrightarrow> oneshot k' n p \<and> remaining k' n = remaining k n - 1 \<and>
         count_list is (ident n) = (if remaining k n = 1 then 1 else 0))"
    and start_law: "ok k \<Longrightarrow> oneshot k n p \<Longrightarrow> \<exists>k'. start n k = Some k' \<and> ok k' \<and> remaining k' n = p \<and> called c [] k k' \<and>
      (\<forall>m q. oneshot k m q \<longrightarrow> oneshot k' m q \<and> (m \<noteq> n \<longrightarrow> remaining k' m = remaining k m))"
    and called_nil: "called c [] k k"
    and called_append: "called c xs k k' \<Longrightarrow> called c ys k' k'' \<Longrightarrow> called c (xs @ ys) k k''"
    and oneshot_pos: "oneshot k n p \<Longrightarrow> 0 < p"
begin

lemma ticks_remaining:
  assumes "funs c" and "ok k"
  shows "\<exists>k' is. ticks (tick c) m k = Some k' \<and> ok k' \<and> called c is k k' \<and>
           (\<forall>n p. oneshot k n p \<longrightarrow> oneshot k' n p \<and> remaining k' n = remaining k n - m \<and>
              count_list is (ident n) = (if 0 < remaining k n \<and> remaining k n \<le> m then 1 else 0))"
  using assms(2)
proof (induction m arbitrary: k)
  case 0
  then show ?case using called_nil by (intro exI [of _ k] exI [of _ "[]"]) auto
next
  case (Suc m)
  obtain k1 xs where k1: "tick c k = Some k1" "ok k1" "called c xs k k1"
    "\<And>n p. oneshot k n p \<Longrightarrow> oneshot k1 n p \<and> remaining k1 n = remaining k n - 1 \<and>
       count_list xs (ident n) = (if remaining k n = 1 then 1 else 0)" using tick_law [OF assms(1) Suc.prems] by blast
  obtain k' ys where k': "ticks (tick c) m k1 = Some k'" "ok k'" "called c ys k1 k'"
    "\<And>n p. oneshot k1 n p \<Longrightarrow> oneshot k' n p \<and> remaining k' n = remaining k1 n - m \<and>
       count_list ys (ident n) = (if 0 < remaining k1 n \<and> remaining k1 n \<le> m then 1 else 0)"
    using Suc.IH [OF k1(2)] by blast
  have "oneshot k' n p \<and> remaining k' n = remaining k n - Suc m \<and>
      count_list (xs @ ys) (ident n) = (if 0 < remaining k n \<and> remaining k n \<le> Suc m then 1 else 0)"
    if "oneshot k n p" for n p
    using k1(4) [OF that] k'(4) [of n p] by auto
  then show ?case using k1(1) k'(1,2) called_append [OF k1(3) k'(3)] by (intro exI [of _ k'] exI [of _ "xs @ ys"]) simp
qed

lemma started_runs:
  assumes "funs c" and "ok k" and "oneshot k n p"
  shows "\<exists>k1. start n k = Some k1 \<and> (\<forall>m. \<exists>k' is. ticks (tick c) m k1 = Some k' \<and> ok k' \<and> oneshot k' n p \<and>
    remaining k' n = p - m \<and> called c is k k' \<and> count_list is (ident n) = (if m < p then 0 else 1))"
proof -
  obtain k1 where k1: "start n k = Some k1" "ok k1" "remaining k1 n = p" "oneshot k1 n p" "called c [] k k1"
    using start_law [OF assms(2,3), of c] assms(3) by blast
  have "\<exists>k' is. ticks (tick c) m k1 = Some k' \<and> ok k' \<and> oneshot k' n p \<and> remaining k' n = p - m \<and> called c is k k' \<and>
      count_list is (ident n) = (if m < p then 0 else 1)" for m
    using ticks_remaining [OF assms(1) k1(2), of m] k1(3,4) called_append [OF k1(5)] oneshot_pos [OF assms(3)] by fastforce
  then show ?thesis using k1(1) by blast
qed

end

text \<open>An application timer that is one-shot and handled in the tick interrupt, with its period.\<close>

definition user_timer :: "kernel \<Rightarrow> nat \<Rightarrow> nat \<Rightarrow> bool" where
  "user_timer k n p \<longleftrightarrow> hard_timer k (UserTimer n) \<and> \<not> periodic k (UserTimer n) \<and>
     unat (timer_init_tick (timers k (UserTimer n))) = p \<and> 0 < p \<and> p < 0x7fffffff \<and>
     (timer_active k (UserTimer n) \<longleftrightarrow> UserTimer n \<in> set (timer_list k))"

definition remaining :: "kernel \<Rightarrow> nat \<Rightarrow> nat" where
  "remaining k n = (if UserTimer n \<in> set (timer_list k)
     then since (rt_tick k) (timeout_tick (timers k (UserTimer n))) else 0)"

lemma remaining_active:
  assumes "clock_inv k" and "user_timer k n p"
  shows "timer_active k (UserTimer n) \<longleftrightarrow> 0 < remaining k n"
  using assms by (auto simp: user_timer_def remaining_def clock_inv_def since_zero [symmetric])

lemma remaining_expiring:
  assumes "clock_inv k"
  shows "expiring k (UserTimer n) \<longleftrightarrow> remaining k n = 1"
proof (cases "UserTimer n \<in> set (timer_list k)")
  case True
  let ?x = "timeout_tick (timers k (UserTimer n))"
  have "?x \<noteq> rt_tick k" using assms True by (simp add: clock_inv_def)
  then show ?thesis using True since_next [of ?x "rt_tick k"] since_zero [of "rt_tick k" ?x]
    by (auto simp: expiring_def remaining_def)
qed (simp add: expiring_def remaining_def)

lemma next_due_expiring: "clock_inv k \<Longrightarrow> i \<in> set (next_due k) \<longleftrightarrow> expiring k i"
  unfolding next_due_def by (rule expiring_due) simp_all

lemma next_due_distinct: "clock_inv k \<Longrightarrow> distinct (next_due k)"
  by (simp add: next_due_def due_timers_def clock_inv_def check_inv_def timeouts_ordered_def)

lemma count_list_distinct: "distinct xs \<Longrightarrow> count_list xs x = (if x \<in> set xs then 1 else 0)"
  by (induction xs) auto

lemma next_due_count:
  assumes "clock_inv k"
  shows "count_list (next_due k) (UserTimer n) = (if remaining k n = 1 then 1 else 0)"
  by (simp add: count_list_distinct [OF next_due_distinct [OF assms]] next_due_expiring [OF assms] remaining_expiring [OF assms])

lemma tick_countdown:
  assumes inv: "clock_inv k" and cb: "callbacks_passive g cb"
  shows "\<exists>k'. rt_tick_increase cb e k = Some (run_callbacks g (next_due k) e, k') \<and> clock_inv k' \<and>
    (\<forall>n p. user_timer k n p \<longrightarrow> user_timer k' n p \<and> remaining k' n = remaining k n - 1)"
proof -
  obtain k' where k': "rt_tick_increase cb e k = Some (run_callbacks g (next_due k) e, k')" "clock_inv k'" "rt_tick k' = rt_tick k + 1"
    "\<forall>i. timers k' i = (if expiring k i
        then (if periodic k i then started (rt_tick k + 1) else stopped) (timers k i) else timers k i)"
    "set (timer_list k') = {i \<in> set (timer_list k). expiring k i \<longrightarrow> periodic k i}"
    using tick_increase_ok [OF assms, of e] by blast
  have "user_timer k' n p \<and> remaining k' n = remaining k n - 1" if u: "user_timer k n p" for n p
  proof (cases "expiring k (UserTimer n)")
    case True
    then have "timers k' (UserTimer n) = stopped (timers k (UserTimer n))" "UserTimer n \<notin> set (timer_list k')"
      using k'(4,5) u by (auto simp: user_timer_def)
    then show ?thesis using u True remaining_expiring [OF inv, of n]
      by (simp add: user_timer_def hard_timer_def periodic_def timer_active_def remaining_def stopped_def flag_activate)
  next
    case False
    then have *: "timers k' (UserTimer n) = timers k (UserTimer n)" "UserTimer n \<in> set (timer_list k') \<longleftrightarrow> UserTimer n \<in> set (timer_list k)"
      using k'(4,5) by auto
    moreover have "since (rt_tick k + 1) (timeout_tick (timers k (UserTimer n))) =
        since (rt_tick k) (timeout_tick (timers k (UserTimer n))) - 1" if "UserTimer n \<in> set (timer_list k)"
      using since_rebase [of "timeout_tick (timers k (UserTimer n))" "rt_tick k"] inv that by (auto simp: clock_inv_def)
    ultimately show ?thesis using u k'(3)
      by (auto simp: user_timer_def hard_timer_def periodic_def timer_active_def remaining_def)
  qed
  then show ?thesis using k'(1,2) by blast
qed

lemma start_countdown:
  assumes inv: "clock_inv k" and u: "user_timer k n p"
  shows "\<exists>k'. rt_timer_start (UserTimer n) k = Some k' \<and> clock_inv k' \<and> remaining k' n = p \<and>
    (\<forall>m q. user_timer k m q \<longrightarrow> user_timer k' m q \<and> (m \<noteq> n \<longrightarrow> remaining k' m = remaining k m))"
proof -
  have t: "0 < timer_init_tick (timers k (UserTimer n))" "timer_init_tick (timers k (UserTimer n)) < 0x7fffffff"
    using u by (simp_all add: user_timer_def word_less_nat_alt)
  obtain k' where k': "rt_timer_start (UserTimer n) k = Some k'" "clock_inv k'" "rt_tick k' = rt_tick k"
    "timers k' = (timers k)(UserTimer n := started (rt_tick k) (timers k (UserTimer n)))"
    "set (timer_list k') = insert (UserTimer n) (set (timer_list k))"
    using timer_start_ok [OF inv _ _ t] u by (auto simp: user_timer_def)
  have nz: "RT_TIMER_FLAG_ACTIVATED \<noteq> 0" by (simp add: RT_TIMER_FLAG_ACTIVATED_def)
  have "remaining k' n = p" using k'(3-5) u by (simp add: remaining_def started_def since_add user_timer_def)
  moreover have "user_timer k' m q \<and> (m \<noteq> n \<longrightarrow> remaining k' m = remaining k m)" if "user_timer k m q" for m q
    using that k'(3-5)
    by (cases "m = n") (auto simp: user_timer_def remaining_def hard_timer_def periodic_def timer_active_def started_def flag_activate nz)
  ultimately show ?thesis using k'(1,2) by blast
qed

lemma stop_countdown:
  assumes inv: "clock_inv k" and u: "user_timer k n p"
  shows "clock_inv (snd (rt_timer_stop (UserTimer n) k)) \<and> remaining (snd (rt_timer_stop (UserTimer n) k)) n = 0 \<and>
    (\<forall>m q. user_timer k m q \<longrightarrow> user_timer (snd (rt_timer_stop (UserTimer n) k)) m q \<and>
       (m \<noteq> n \<longrightarrow> remaining (snd (rt_timer_stop (UserTimer n) k)) m = remaining k m))"
proof (cases "timer_active k (UserTimer n)")
  case True
  note s = timer_stop_ok [OF inv True]
  have "user_timer (snd (rt_timer_stop (UserTimer n) k)) m q" if "user_timer k m q" for m q
    using that s(2-4)
    by (cases "m = n") (auto simp: user_timer_def hard_timer_def periodic_def timer_active_def stopped_def flag_activate)
  then show ?thesis using s by (auto simp: remaining_def)
next
  case False
  then show ?thesis using inv u remaining_active [OF inv u] by (simp add: rt_timer_stop_def)
qed

text \<open>
  The state is that of the application and of the kernel; the functions of the timers are callbacks
  together with what they do to the application.
\<close>

definition clock_ok :: "'e \<times> kernel \<Rightarrow> bool" where
  "clock_ok x \<longleftrightarrow> clock_inv (snd x)"

definition clock_timer :: "'e \<times> kernel \<Rightarrow> nat \<Rightarrow> nat \<Rightarrow> bool" where
  "clock_timer x = user_timer (snd x)"

definition clock_remaining :: "'e \<times> kernel \<Rightarrow> nat \<Rightarrow> nat" where
  "clock_remaining x = remaining (snd x)"

definition clock_funs :: "(nat \<Rightarrow> 'e \<Rightarrow> 'e) \<times> 'e callbacks \<Rightarrow> bool" where
  "clock_funs c \<longleftrightarrow> callbacks_passive (fst c) (snd c)"

definition clock_called ::
  "(nat \<Rightarrow> 'e \<Rightarrow> 'e) \<times> 'e callbacks \<Rightarrow> timer_id list \<Rightarrow> 'e \<times> kernel \<Rightarrow> 'e \<times> kernel \<Rightarrow> bool" where
  "clock_called c is x y \<longleftrightarrow> fst y = run_callbacks (fst c) is (fst x)"

definition clock_tick :: "'e callbacks \<Rightarrow> 'e \<times> kernel \<Rightarrow> ('e \<times> kernel) option" where
  "clock_tick cb x = rt_tick_increase cb (fst x) (snd x)"

definition clock_start :: "nat \<Rightarrow> 'e \<times> kernel \<Rightarrow> ('e \<times> kernel) option" where
  "clock_start n x = do { k \<leftarrow> rt_timer_start (UserTimer n) (snd x); Some (fst x, k) }"

lemmas clock_defs = clock_ok_def clock_timer_def clock_remaining_def clock_funs_def clock_called_def
  clock_tick_def clock_start_def

lemma run_callbacks_append: "run_callbacks g (xs @ ys) e = run_callbacks g ys (run_callbacks g xs e)"
  by (induction g xs e rule: run_callbacks.induct) simp_all

lemma clock_tick_law:
  assumes "clock_funs c" and "clock_ok x"
  shows "\<exists>x' is. clock_tick (snd c) x = Some x' \<and> clock_ok x' \<and> clock_called c is x x' \<and>
    (\<forall>n p. clock_timer x n p \<longrightarrow> clock_timer x' n p \<and> clock_remaining x' n = clock_remaining x n - 1 \<and>
       count_list is (UserTimer n) = (if clock_remaining x n = 1 then 1 else 0))"
  using tick_countdown [of "snd x" "fst c" "snd c" "fst x"] next_due_count [of "snd x"] assms
  unfolding clock_defs by fastforce

lemma clock_start_law:
  assumes "clock_ok x" and "clock_timer x n p"
  shows "\<exists>x'. clock_start n x = Some x' \<and> clock_ok x' \<and> clock_remaining x' n = p \<and> clock_called c [] x x' \<and>
    (\<forall>m q. clock_timer x m q \<longrightarrow> clock_timer x' m q \<and> (m \<noteq> n \<longrightarrow> clock_remaining x' m = clock_remaining x m))"
  using start_countdown [of "snd x" n p] assms unfolding clock_defs by fastforce

interpretation clock: countdown clock_ok clock_timer clock_remaining clock_funs clock_called UserTimer
    "\<lambda>c. clock_tick (snd c)" clock_start
proof (unfold_locales, goal_cases)
  case (1 c k)
  then show ?case by (rule clock_tick_law)
next
  case (2 k n p c)
  then show ?case by (rule clock_start_law)
next
  case (5 k n p)
  then show ?case by (simp add: clock_timer_def user_timer_def)
qed (simp_all add: clock_called_def run_callbacks_append)

section \<open>Properties\<close>

text \<open>
  Property C38. A one-shot application timer runs for exactly its period: started between two ticks, it is
  still active after fewer ticks than its period and has expired from then on, and its timeout function
  has been called once by then and not before. The processor may be passed on between threads and other
  timers may expire meanwhile; the tick counter may wrap around. The timeout functions are arbitrary in
  what they do to the variables of the application (\<open>g\<close>), but do not start, stop or change timers or
  threads.
\<close>

theorem timer_runs_its_period:
  assumes "clock_inv k" and "user_timer k n p" and "callbacks_passive g cb"
  shows "\<exists>k1. rt_timer_start (UserTimer n) k = Some k1 \<and>
    (\<forall>m. \<exists>is k'. ticks (clock_tick cb) m (e, k1) = Some (run_callbacks g is e, k') \<and> clock_inv k' \<and>
       (timer_active k' (UserTimer n) \<longleftrightarrow> m < p) \<and>
       count_list is (UserTimer n) = (if m < p then 0 else 1))"
proof -
  have c: "clock_funs (g, cb)" "clock_ok (e, k)" "clock_timer (e, k) n p"
    using assms by (simp_all add: clock_defs)
  obtain x1 where x1: "clock_start n (e, k) = Some x1"
    "\<And>m. \<exists>x' is. ticks (clock_tick cb) m x1 = Some x' \<and> clock_ok x' \<and> clock_timer x' n p \<and>
      clock_remaining x' n = p - m \<and> clock_called (g, cb) is (e, k) x' \<and> count_list is (UserTimer n) = (if m < p then 0 else 1)"
    using clock.started_runs [OF c] by auto
  obtain k1 where k1: "rt_timer_start (UserTimer n) k = Some k1" "x1 = (e, k1)"
    using x1(1) by (auto simp: clock_start_def bind_eq_Some_conv)
  have "\<exists>is k'. ticks (clock_tick cb) m (e, k1) = Some (run_callbacks g is e, k') \<and> clock_inv k' \<and>
       (timer_active k' (UserTimer n) \<longleftrightarrow> m < p) \<and> count_list is (UserTimer n) = (if m < p then 0 else 1)" for m
    using x1(2) [of m] remaining_active [of _ n p] by (auto simp: clock_defs k1(2))
  then show ?thesis using k1(1) by blast
qed

definition sample_clock :: kernel where
  "sample_clock = sample_kernel\<lparr>rt_tick := 0xffffff00,
     timers := (\<lambda>i. \<lparr>timer_flag = 0, timer_init_tick = if i = UserTimer 0 then 1000 else 250, timeout_tick = 0\<rparr>),
     timer_list := []\<rparr>"

lemma sample_clock_inv: "clock_inv sample_clock"
proof -
  have "ready_inv sample_clock"
    using sample_ready_inv by (subst ready_inv_same [of _ sample_kernel]) (simp_all add: sample_clock_def)
  moreover have "rt_current_thread sample_clock = Some 0" "check_list sample_clock = []" "timer_list sample_clock = []"
    by (simp_all add: sample_clock_def sample_kernel_def)
  ultimately show ?thesis by (simp add: clock_inv_def check_inv_def timeouts_ordered_def)
qed

lemma sample_clock_timers: "user_timer sample_clock 0 1000" "user_timer sample_clock 1 250"
  by (simp_all add: user_timer_def hard_timer_def periodic_def timer_active_def sample_clock_def)

theorem timer_runs_its_period_witness:
  "\<exists>k1. rt_timer_start (UserTimer 0) sample_clock = Some k1 \<and>
    (\<exists>e k'. ticks (clock_tick (env_callbacks log_timer)) 999 ([], k1) = Some (e, k') \<and>
       timer_active k' (UserTimer 0) \<and> 0 \<notin> set e) \<and>
    (\<exists>e k'. ticks (clock_tick (env_callbacks log_timer)) 1000 ([], k1) = Some (e, k') \<and>
       \<not> timer_active k' (UserTimer 0) \<and> count_list e 0 = 1)"
proof -
  have log: "count_list (run_callbacks log_timer is e) n = count_list e n + count_list is (UserTimer n)" for "is" e n
    by (induction log_timer "is" e rule: run_callbacks.induct) (simp_all add: log_timer_def)
  obtain k1 where k1: "rt_timer_start (UserTimer 0) sample_clock = Some k1"
    "\<And>m. \<exists>is k'. ticks (clock_tick (env_callbacks log_timer)) m ([], k1) = Some (run_callbacks log_timer is [], k') \<and>
      clock_inv k' \<and> (timer_active k' (UserTimer 0) \<longleftrightarrow> m < 1000) \<and> count_list is (UserTimer 0) = (if m < 1000 then 0 else 1)"
    using timer_runs_its_period [OF sample_clock_inv sample_clock_timers(1) passive_callbacks, of log_timer "[]"] by metis
  have "\<exists>e k'. ticks (clock_tick (env_callbacks log_timer)) m ([], k1) = Some (e, k') \<and>
      (timer_active k' (UserTimer 0) \<longleftrightarrow> m < 1000) \<and> count_list e 0 = (if m < 1000 then 0 else 1)" for m
  proof -
    obtain "is" k' where x: "ticks (clock_tick (env_callbacks log_timer)) m ([], k1) = Some (run_callbacks log_timer is [], k')"
      "timer_active k' (UserTimer 0) \<longleftrightarrow> m < 1000" "count_list is (UserTimer 0) = (if m < 1000 then 0 else 1)" using k1(2) by blast
    then show ?thesis using log [of "is" "[]" 0] by (intro exI [of _ "run_callbacks log_timer is []"] exI [of _ k']) simp
  qed
  note at = this
  obtain e1 k2 e2 k3 where "ticks (clock_tick (env_callbacks log_timer)) 999 ([], k1) = Some (e1, k2)"
    "timer_active k2 (UserTimer 0)" "count_list e1 0 = 0"
    "ticks (clock_tick (env_callbacks log_timer)) 1000 ([], k1) = Some (e2, k3)"
    "\<not> timer_active k3 (UserTimer 0)" "count_list e2 0 = 1" using at [of 999] at [of 1000] by auto
  then show ?thesis using k1(1) unfolding count_list_0_iff by blast
qed

end
