(* ===== verification/Application.thy ===== *)
theory Application
  imports Tick Mailbox Complex_Main
begin

text \<open>
  The application (\<^verbatim>\<open>applications/main.c\<close>, \<^verbatim>\<open>led_control.c\<close>, \<^verbatim>\<open>drv_stepMotor.c\<close>): switching the lamps by
  two claps, the threshold control of fan, lamps and motor, and the commands received over MQTT. The
  variables of the application are a record, its timers are timers of the kernel, its mailbox is a
  mailbox of the kernel; its timeout functions are called by the tick interrupt of the kernel.
  Floating-point numbers are only compared here and are rationals. The theorems show that the interrupt
  handlers, run on the kernel, implement a two-counter specification of clap detection, and what groups
  of two claps and of other numbers of claps do to the lamps.
\<close>

section \<open>Outputs\<close>

text \<open>The output pins with their levels (\<open>True\<close> is \<^verbatim>\<open>PIN_HIGH\<close>), and the PWM output of the motor.\<close>

datatype pin = LED1_PIN | LED2_PIN | LED3_PIN | LED4_PIN | FAN_PIN | STEPMOTOR_EN_PIN | STEPMOTOR_DIR_PIN

record board =
  levels :: "pin \<Rightarrow> bool"
  pwm_enabled :: bool

definition PIN_HIGH :: bool where "PIN_HIGH = True"
definition PIN_LOW :: bool where "PIN_LOW = False"

definition rt_pin_write :: "pin \<Rightarrow> bool \<Rightarrow> board \<Rightarrow> board" where
  "rt_pin_write p v b = b\<lparr>levels := (levels b)(p := v)\<rparr>"

definition init_io_port :: "board \<Rightarrow> board" where
  "init_io_port b =
     rt_pin_write LED4_PIN PIN_HIGH (rt_pin_write LED3_PIN PIN_HIGH
       (rt_pin_write LED2_PIN PIN_HIGH (rt_pin_write LED1_PIN PIN_HIGH b)))"

definition control_led :: "u8 \<Rightarrow> board \<Rightarrow> board" where
  "control_led cmd b =
     (let b1 = rt_pin_write LED1_PIN (if cmd AND 1 \<noteq> 0 then PIN_LOW else PIN_HIGH) b;
          b2 = rt_pin_write LED2_PIN (if cmd AND push_bit 1 1 \<noteq> 0 then PIN_LOW else PIN_HIGH) b1;
          b3 = rt_pin_write LED3_PIN (if cmd AND push_bit 2 1 \<noteq> 0 then PIN_LOW else PIN_HIGH) b2
      in rt_pin_write LED4_PIN (if cmd AND push_bit 3 1 \<noteq> 0 then PIN_LOW else PIN_HIGH) b3)"

definition drv_stepMotor_ctrl :: "int \<Rightarrow> board \<Rightarrow> board" where
  "drv_stepMotor_ctrl dir b =
     (if dir = 0 then rt_pin_write STEPMOTOR_EN_PIN True (b\<lparr>pwm_enabled := False\<rparr>)
      else let b1 = rt_pin_write STEPMOTOR_DIR_PIN (if dir = 1 then False else True) b
           in (rt_pin_write STEPMOTOR_EN_PIN False b1)\<lparr>pwm_enabled := True\<rparr>)"

definition turn :: "int \<Rightarrow> board \<Rightarrow> board" where
  "turn a b =
     (if a = 1 then
        drv_stepMotor_ctrl 1 (rt_pin_write LED4_PIN PIN_LOW (rt_pin_write LED3_PIN PIN_LOW
          (rt_pin_write LED2_PIN PIN_LOW (rt_pin_write LED1_PIN PIN_LOW b))))
      else
        drv_stepMotor_ctrl 0 (rt_pin_write LED4_PIN PIN_HIGH (rt_pin_write LED3_PIN PIN_HIGH
          (rt_pin_write LED2_PIN PIN_HIGH (rt_pin_write LED1_PIN PIN_HIGH b)))))"

text \<open>The running light; \<open>var\<close> is the static variable. The delay at the end is the caller's.\<close>

definition loop_led :: "u8 \<Rightarrow> board \<Rightarrow> u8 \<times> board" where
  "loop_led var b =
     (let b1 = control_led var b; var1 = push_bit 1 var
      in (if var1 = 0x10 then 1 else var1, b1))"

definition fan :: "u32 \<Rightarrow> board \<Rightarrow> board" where
  "fan a b = (if a \<noteq> 0 then rt_pin_write FAN_PIN PIN_HIGH b else rt_pin_write FAN_PIN PIN_LOW b)"

section \<open>Clap detection\<close>

datatype LedStatus = LED_IDLE | LED_CLAP

text \<open>\<open>cnt\<close> is a signed 32-bit variable; an increment beyond its range is a failure (\<open>None\<close>).\<close>

definition INT_MAX :: int where "INT_MAX = 2 ^ 31 - 1"

record app =
  curr_state :: LedStatus
  cnt :: int
  flag_sound_first_pulse :: u32
  flag_led_status :: u32
  flag_clap_timer :: u32
  flag_clap_send :: u32
  tmp_arr :: rat
  lt_arr :: int
  flag_arr :: int
  board :: board

text \<open>The two timers of the application in the kernel.\<close>

definition clap_space_timer :: nat where "clap_space_timer = 0"
definition debounce_timer :: nat where "debounce_timer = 1"

definition app_init :: app where
  "app_init = \<lparr>curr_state = LED_IDLE, cnt = 0, flag_sound_first_pulse = 1, flag_led_status = 0, flag_clap_timer = 0,
     flag_clap_send = 0, tmp_arr = 30, lt_arr = 6000, flag_arr = 0,
     board = init_io_port \<lparr>levels = (\<lambda>_. False), pwm_enabled = False\<rparr>\<rparr>"

definition on_debounce_timer :: "app \<Rightarrow> app" where
  "on_debounce_timer a = a\<lparr>flag_sound_first_pulse := 1\<rparr>"

definition on_clap_space_timer :: "app \<Rightarrow> app" where
  "on_clap_space_timer a0 =
     (let a = a0\<lparr>flag_clap_timer := 1\<rparr>;
          a1 = (if cnt a = 2 then
                  let b = a\<lparr>curr_state := LED_IDLE\<rparr>;
                      c = (if flag_led_status b \<noteq> 0
                           then b\<lparr>flag_led_status := 0, board := control_led 0xf (board b)\<rparr>
                           else b\<lparr>flag_led_status := 0xf, board := control_led 0 (board b)\<rparr>)
                  in c\<lparr>flag_clap_send := 1\<rparr>
                else a\<lparr>curr_state := LED_IDLE\<rparr>)
      in a1\<lparr>cnt := 0\<rparr>)"

definition app_timer_init :: "kernel \<Rightarrow> kernel option" where
  "app_timer_init k =
     do { k1 \<leftarrow> rt_timer_init (UserTimer clap_space_timer) 1000 0 k;
          rt_timer_init (UserTimer debounce_timer) 250 0 k1 }"

definition on_soundlevel :: "app \<times> kernel \<Rightarrow> (app \<times> kernel) option" where
  "on_soundlevel = (\<lambda>(a, k).
     do { k1 \<leftarrow> rt_timer_start (UserTimer debounce_timer) k;
          if flag_sound_first_pulse a \<noteq> 0 then (if cnt a = INT_MAX then None else do {
            let a1 = a\<lparr>cnt := cnt a + 1, flag_sound_first_pulse := 0\<rparr>;
            if curr_state a1 = LED_IDLE then do {
              let a2 = a1\<lparr>curr_state := LED_CLAP\<rparr>;
              k2 \<leftarrow> rt_timer_start (UserTimer clap_space_timer) k1;
              Some (a2, k2) }
            else do {
              k2 \<leftarrow> rt_timer_start (UserTimer clap_space_timer) (snd (rt_timer_stop (UserTimer clap_space_timer) k1));
              Some (a1, k2) } })
          else Some (a, k1) })"

definition on_key1_clicked :: "app \<Rightarrow> app" where
  "on_key1_clicked a = a\<lparr>flag_clap_send := 1\<rparr>"

text \<open>
  The timeout functions \<^verbatim>\<open>timer_init\<close> registers for the two timers; they leave the kernel alone. The tick
  interrupt calls them in \<^verbatim>\<open>rt_timer_check\<close>. The application has no other timers.
\<close>

definition app_timeout :: "nat \<Rightarrow> app \<Rightarrow> app" where
  "app_timeout n a =
     (if n = debounce_timer then on_debounce_timer a
      else if n = clap_space_timer then on_clap_space_timer a else a)"

definition app_tick :: "app \<times> kernel \<Rightarrow> (app \<times> kernel) option" where
  "app_tick = (\<lambda>(a, k). rt_tick_increase (env_callbacks app_timeout) a k)"

datatype app_event = EvTick | EvSound | EvKey

fun app_step :: "app_event \<Rightarrow> app \<times> kernel \<Rightarrow> (app \<times> kernel) option" where
  "app_step EvTick x = app_tick x"
| "app_step EvSound x = on_soundlevel x"
| "app_step EvKey (a, k) = Some (on_key1_clicked a, k)"

fun app_run :: "app_event list \<Rightarrow> app \<times> kernel \<Rightarrow> (app \<times> kernel) option" where
  "app_run [] x = Some x"
| "app_run (e # es) x = do { x' \<leftarrow> app_step e x; app_run es x' }"

section \<open>Commands and threshold control\<close>

text \<open>
  A member of a parsed JSON object: its name and value (\<^verbatim>\<open>valueint\<close> and \<^verbatim>\<open>valuedouble\<close> of a number, or a
  string). \<^verbatim>\<open>cJSON_GetObjectItem\<close> returns the first member whose name is equal up to case.
\<close>

datatype cJSON_value = JNumber int rat | JString string | JOther

type_synonym cJSON = "(string option \<times> cJSON_value) list"

definition to_lower :: "char \<Rightarrow> char" where
  "to_lower c = (if 65 \<le> (of_char c :: nat) \<and> (of_char c :: nat) \<le> 90 then char_of ((of_char c :: nat) + 32) else c)"

fun cJSON_GetObjectItem :: "cJSON \<Rightarrow> string \<Rightarrow> cJSON_value option" where
  "cJSON_GetObjectItem [] name = None"
| "cJSON_GetObjectItem ((n, v) # items) name =
     (case n of
        Some s \<Rightarrow> if map to_lower s = map to_lower name then Some v else cJSON_GetObjectItem items name
      | None \<Rightarrow> cJSON_GetObjectItem items name)"

definition is_string :: "cJSON_value option \<Rightarrow> string \<Rightarrow> bool" where
  "is_string item s \<longleftrightarrow> item = Some (JString s)"

text \<open>The handler of the subscribed topic; \<open>json\<close> is the result of \<^verbatim>\<open>cJSON_Parse\<close>, \<open>to_float\<close> rounds a double.\<close>

definition sub_topic_handle1 :: "(rat \<Rightarrow> rat) \<Rightarrow> cJSON option \<Rightarrow> app \<Rightarrow> app" where
  "sub_topic_handle1 to_float json a =
     (case json of
        None \<Rightarrow> a
      | Some items \<Rightarrow>
          let lt_item = cJSON_GetObjectItem items ''lt'';
              tmp_item = cJSON_GetObjectItem items ''tmp'';
              start_off = cJSON_GetObjectItem items ''msg'';
              step = cJSON_GetObjectItem items ''step'';
              a1 = (if is_string start_off ''start'' then a\<lparr>flag_arr := 1\<rparr> else a);
              a2 = (if is_string start_off ''stop'' then a1\<lparr>flag_arr := 0\<rparr> else a1);
              a3 = (if is_string step ''stop'' then a2\<lparr>board := drv_stepMotor_ctrl 0 (board a2)\<rparr> else a2);
              a4 = (if is_string step ''start'' then a3\<lparr>board := drv_stepMotor_ctrl 1 (board a3)\<rparr> else a3)
          in case (lt_item, tmp_item) of
               (Some (JNumber lt_int lt_double), Some (JNumber tmp_int tmp_double)) \<Rightarrow>
                 a4\<lparr>lt_arr := lt_int, tmp_arr := to_float tmp_double\<rparr>
             | _ \<Rightarrow> a4)"

text \<open>
  One round of the main loop, with the values read from the two sensors, up to the delay; one round of
  the loop of the MQTT thread once \<^verbatim>\<open>rt_mb_recv\<close> has returned: the light value to publish, if any.
\<close>

definition main_round :: "u32 \<Rightarrow> rat \<Rightarrow> app \<times> rt_mailbox \<times> kernel \<Rightarrow> (outcome \<times> app \<times> rt_mailbox \<times> kernel) option" where
  "main_round light tmp = (\<lambda>(a, mb, k).
     do { (uwRet, mb1, k1) \<leftarrow> rt_mb_send mb light k;
          let lt = sint light;
          let a1 = (if flag_arr a = 1 then
                      let b1 = (if tmp \<ge> tmp_arr a then fan 1 (board a) else fan 0 (board a));
                          b2 = (if lt \<le> lt_arr a then turn 1 b1 else turn 0 b1)
                      in a\<lparr>board := b2\<rparr>
                    else a);
          Some (uwRet, a1, mb1, k1) })"

definition mqtt_round :: "outcome \<Rightarrow> u32 \<Rightarrow> app \<Rightarrow> u16 option \<times> app" where
  "mqtt_round r received_data a =
     (if r = Returned RT_EOK \<and> flag_clap_send a = 1
      then (Some (ucast received_data), a\<lparr>flag_clap_send := 0\<rparr>) else (None, a))"

section \<open>The specification of clap detection\<close>

text \<open>
  Two counters of ticks: \<open>clap_quiet\<close> until the sound sensor counts as quiet again, \<open>clap_left\<close> until the group
  of claps ends. A pulse in quiet counts as a clap. When a group of exactly two claps ends, the status
  flag is inverted, all lamps are lit if the flag was set before and put out otherwise, and a report is
  requested.
\<close>

record clap_spec =
  clap_quiet :: nat
  clap_count :: nat
  clap_left :: nat
  clap_flag :: bool
  clap_lit :: "bool list"
  clap_report :: bool

definition leds :: "pin list" where "leds = [LED1_PIN, LED2_PIN, LED3_PIN, LED4_PIN]"

definition spec_pulse :: "clap_spec \<Rightarrow> clap_spec" where
  "spec_pulse s =
     (if clap_quiet s = 0 then s\<lparr>clap_quiet := 250, clap_count := clap_count s + 1, clap_left := 1000\<rparr>
      else s\<lparr>clap_quiet := 250\<rparr>)"

definition spec_switch :: "clap_spec \<Rightarrow> clap_spec" where
  "spec_switch s = s\<lparr>clap_flag := \<not> clap_flag s, clap_lit := map (\<lambda>_. clap_flag s) leds, clap_report := True\<rparr>"

definition spec_tick :: "clap_spec \<Rightarrow> clap_spec" where
  "spec_tick s =
     (let s1 = s\<lparr>clap_quiet := clap_quiet s - 1, clap_left := clap_left s - 1\<rparr>
      in if clap_left s = 1 then (if clap_count s = 2 then spec_switch s1 else s1)\<lparr>clap_count := 0\<rparr> else s1)"

fun spec_step :: "app_event \<Rightarrow> clap_spec \<Rightarrow> clap_spec" where
  "spec_step EvTick s = spec_tick s"
| "spec_step EvSound s = spec_pulse s"
| "spec_step EvKey s = s\<lparr>clap_report := True\<rparr>"

text \<open>No clap is counted beyond the range of a signed 32-bit counter.\<close>

fun no_overflow :: "app_event list \<Rightarrow> clap_spec \<Rightarrow> bool" where
  "no_overflow [] s \<longleftrightarrow> True"
| "no_overflow (e # es) s \<longleftrightarrow>
     (e = EvSound \<and> clap_quiet s = 0 \<longrightarrow> int (clap_count s) < INT_MAX) \<and> no_overflow es (spec_step e s)"

definition clap_abs :: "app \<times> kernel \<Rightarrow> clap_spec" where
  "clap_abs = (\<lambda>(a, k).
     \<lparr>clap_quiet = remaining k debounce_timer, clap_count = nat (cnt a), clap_left = remaining k clap_space_timer,
      clap_flag = (flag_led_status a \<noteq> 0), clap_lit = map (\<lambda>p. levels (board a) p = PIN_LOW) leds,
      clap_report = (flag_clap_send a = 1)\<rparr>)"

text \<open>
  The variables agree with the timers: the first pulse flag with the debounce timer, state and counter
  with the clap timer.
\<close>

definition app_inv :: "app \<times> kernel \<Rightarrow> bool" where
  "app_inv = (\<lambda>(a, k).
     clock_inv k \<and> user_timer k clap_space_timer 1000 \<and> user_timer k debounce_timer 250 \<and>
     flag_sound_first_pulse a = (if remaining k debounce_timer = 0 then 1 else 0) \<and>
     (curr_state a = LED_CLAP \<longleftrightarrow> 0 < remaining k clap_space_timer) \<and>
     (0 < cnt a \<longleftrightarrow> 0 < remaining k clap_space_timer) \<and> 0 \<le> cnt a \<and> cnt a \<le> INT_MAX)"

lemmas timer_names = clap_space_timer_def debounce_timer_def

lemma control_led_lit:
  "p \<in> set leds \<Longrightarrow> \<not> levels (control_led 0xf b) p" "p \<in> set leds \<Longrightarrow> levels (control_led 0 b) p"
  by (auto simp: control_led_def leds_def rt_pin_write_def PIN_LOW_def PIN_HIGH_def Let_def)

lemma run_app_timeout:
  assumes "distinct is"
  shows "run_callbacks app_timeout is a =
    (let a1 = (if UserTimer clap_space_timer \<in> set is then on_clap_space_timer a else a)
     in if UserTimer debounce_timer \<in> set is then on_debounce_timer a1 else a1)"
proof -
  have comm: "on_debounce_timer (on_clap_space_timer x) = on_clap_space_timer (on_debounce_timer x)" for x
    by (simp add: on_debounce_timer_def on_clap_space_timer_def Let_def)
  show ?thesis using assms
    by (induction app_timeout "is" a rule: run_callbacks.induct) (auto simp: app_timeout_def timer_names comm Let_def)
qed

lemma app_tick_refines:
  assumes "app_inv (a, k)"
  shows "\<exists>x'. app_tick (a, k) = Some x' \<and> app_inv x' \<and> clap_abs x' = spec_tick (clap_abs (a, k))"
proof -
  have inv: "clock_inv k" and u: "user_timer k clap_space_timer 1000" "user_timer k debounce_timer 250"
    using assms by (auto simp: app_inv_def)
  obtain k' where k': "rt_tick_increase (env_callbacks app_timeout) a k = Some (run_callbacks app_timeout (next_due k) a, k')"
    "clock_inv k'" "\<And>n p. user_timer k n p \<Longrightarrow> user_timer k' n p \<and> remaining k' n = remaining k n - 1"
    using tick_countdown [OF inv passive_callbacks, of app_timeout a] by blast
  have due: "UserTimer n \<in> set (next_due k) \<longleftrightarrow> remaining k n = 1" for n
    using next_due_expiring [OF inv] remaining_expiring [OF inv] by simp
  define a' where "a' = (let a1 = (if remaining k clap_space_timer = 1 then on_clap_space_timer a else a)
     in if remaining k debounce_timer = 1 then on_debounce_timer a1 else a1)"
  have "app_tick (a, k) = Some (a', k')"
    using k'(1) by (simp add: app_tick_def run_app_timeout [OF next_due_distinct [OF inv]] due a'_def)
  moreover have "app_inv (a', k')"
    using assms k'(2) k'(3) [OF u(1)] k'(3) [OF u(2)]
    by (auto simp: app_inv_def a'_def on_clap_space_timer_def on_debounce_timer_def INT_MAX_def Let_def split: if_splits)
  moreover have "clap_abs (a', k') = spec_tick (clap_abs (a, k))"
    using assms k'(3) [OF u(1)] k'(3) [OF u(2)]
    by (auto simp: clap_abs_def spec_tick_def spec_switch_def app_inv_def a'_def on_clap_space_timer_def
        on_debounce_timer_def Let_def control_led_lit PIN_LOW_def split: if_splits)
  ultimately show ?thesis by blast
qed

lemma on_soundlevel_refines:
  assumes "app_inv (a, k)"
  shows "if clap_quiet (clap_abs (a, k)) = 0 \<and> INT_MAX \<le> int (clap_count (clap_abs (a, k))) then on_soundlevel (a, k) = None
    else \<exists>x'. on_soundlevel (a, k) = Some x' \<and> app_inv x' \<and> clap_abs x' = spec_pulse (clap_abs (a, k))"
proof -
  have inv: "clock_inv k" and u: "user_timer k clap_space_timer 1000" "user_timer k debounce_timer 250"
    using assms by (auto simp: app_inv_def)
  obtain k1 where k1: "rt_timer_start (UserTimer debounce_timer) k = Some k1" "clock_inv k1" "remaining k1 debounce_timer = 250"
    "user_timer k1 clap_space_timer 1000" "user_timer k1 debounce_timer 250" "remaining k1 clap_space_timer = remaining k clap_space_timer"
    using start_countdown [OF inv u(2)] u by (auto simp: timer_names)
  show ?thesis
  proof (cases "remaining k debounce_timer = 0")
    case False
    then show ?thesis using k1 assms
      by (auto simp: on_soundlevel_def app_inv_def clap_abs_def spec_pulse_def)
  next
    case quiet: True
    show ?thesis
    proof (cases "cnt a = INT_MAX")
      case True
      then show ?thesis using k1(1) quiet assms
        by (simp add: on_soundlevel_def app_inv_def clap_abs_def INT_MAX_def)
    next
      case False
      have le: "\<not> INT_MAX \<le> int (nat (cnt a))" using False assms by (simp add: app_inv_def)
      let ?s = "snd (rt_timer_stop (UserTimer clap_space_timer) k1)"
      define kb where "kb = (if curr_state a = LED_IDLE then k1 else ?s)"
      have kb: "clock_inv kb" "user_timer kb clap_space_timer 1000" "user_timer kb debounce_timer 250" "remaining kb debounce_timer = 250"
        using stop_countdown [OF k1(2,4)] k1 by (auto simp: kb_def timer_names)
      obtain k2 where k2: "rt_timer_start (UserTimer clap_space_timer) kb = Some k2" "clock_inv k2"
        "remaining k2 clap_space_timer = 1000" "user_timer k2 clap_space_timer 1000" "user_timer k2 debounce_timer 250"
        "remaining k2 debounce_timer = 250"
        using start_countdown [OF kb(1,2)] kb by (auto simp: timer_names)
      let ?a = "a\<lparr>cnt := cnt a + 1, flag_sound_first_pulse := 0, curr_state := LED_CLAP\<rparr>"
      have st: "curr_state a = LED_IDLE \<or> curr_state a = LED_CLAP" by (cases "curr_state a") auto
      have "on_soundlevel (a, k) = Some (?a, k2)"
        using k1(1) k2(1) quiet False assms st by (auto simp: on_soundlevel_def kb_def app_inv_def)
      moreover have "app_inv (?a, k2)" using k2 assms False by (simp add: app_inv_def)
      moreover have "clap_abs (?a, k2) = spec_pulse (clap_abs (a, k))"
        using k2 quiet assms by (simp add: clap_abs_def spec_pulse_def app_inv_def nat_add_distrib)
      ultimately show ?thesis using le by (auto simp: clap_abs_def)
    qed
  qed
qed

lemma app_step_refines:
  assumes "app_inv x"
  shows "if no_overflow [e] (clap_abs x)
    then \<exists>x'. app_step e x = Some x' \<and> app_inv x' \<and> clap_abs x' = spec_step e (clap_abs x)
    else app_step e x = None"
proof (cases x)
  case (Pair a k)
  show ?thesis
  proof (cases e)
    case EvTick
    then show ?thesis using app_tick_refines [of a k] assms Pair by simp
  next
    case EvSound
    then show ?thesis using on_soundlevel_refines [of a k] assms Pair by (auto split: if_splits)
  next
    case EvKey
    then show ?thesis using assms Pair by (simp add: on_key1_clicked_def app_inv_def clap_abs_def)
  qed
qed

lemma app_run_refines:
  assumes "app_inv x"
  shows "if no_overflow es (clap_abs x)
    then \<exists>x'. app_run es x = Some x' \<and> app_inv x' \<and> clap_abs x' = fold spec_step es (clap_abs x)
    else app_run es x = None"
  using assms
proof (induction es arbitrary: x)
  case (Cons e es)
  show ?case
  proof (cases "no_overflow [e] (clap_abs x)")
    case True
    then obtain x1 where "app_step e x = Some x1" "app_inv x1" "clap_abs x1 = spec_step e (clap_abs x)"
      using app_step_refines [OF Cons.prems, of e] by auto
    then show ?thesis using Cons.IH [of x1] True by auto
  next
    case False
    then show ?thesis using app_step_refines [OF Cons.prems, of e] by auto
  qed
qed simp

text \<open>There is no overflow as long as there are not too many pulses.\<close>

lemma clap_count_step: "clap_count (spec_step e s) \<le> clap_count s + count_list [e] EvSound"
  by (cases e) (auto simp: spec_tick_def spec_pulse_def spec_switch_def Let_def)

lemma no_overflow_pulses:
  "int (clap_count s + count_list es EvSound) \<le> INT_MAX \<Longrightarrow> no_overflow es s"
proof (induction es arbitrary: s)
  case (Cons e es)
  have "no_overflow es (spec_step e s)"
    by (rule Cons.IH) (use Cons.prems clap_count_step [of e s] in \<open>auto split: if_splits\<close>)
  then show ?case using Cons.prems by auto
qed simp

lemma no_overflow_append: "no_overflow (es @ fs) s \<longleftrightarrow> no_overflow es s \<and> no_overflow fs (fold spec_step es s)"
  by (induction es arbitrary: s) auto

lemma no_overflow_ticks: "no_overflow (replicate n EvTick) s"
  by (induction n arbitrary: s) auto

text \<open>Initialisation establishes the invariant.\<close>

lemma app_init_inv:
  assumes inv: "clock_inv k" and n: "UserTimer clap_space_timer \<notin> set (timer_list k)" "UserTimer debounce_timer \<notin> set (timer_list k)"
  shows "\<exists>k'. app_timer_init k = Some k' \<and> app_inv (app_init, k')"
proof -
  let ?k = "timer_init (UserTimer debounce_timer) 250 0 (timer_init (UserTimer clap_space_timer) 1000 0 k)"
  have tm: "timers ?k i = (if i = UserTimer debounce_timer then \<lparr>timer_flag = 0, timer_init_tick = 250, timeout_tick = 0\<rparr>
      else if i = UserTimer clap_space_timer then \<lparr>timer_flag = 0, timer_init_tick = 1000, timeout_tick = 0\<rparr>
      else timers k i)" for i by (simp add: timer_init_def kernel_simps)
  have fr: "rt_tick ?k = rt_tick k" "timer_list ?k = timer_list k" "check_list ?k = check_list k"
    "rt_current_thread ?k = rt_current_thread k" "thread_state ?k = thread_state k"
    by (simp_all add: timer_init_def kernel_simps thread_state_def fun_eq_iff)
  have ri: "ready_inv ?k = ready_inv k" by (rule ready_inv_same) (simp_all add: timer_init_def kernel_simps)
  have same: "timers ?k i = timers k i" if "i \<in> set (timer_list k)" for i using tm n that by auto
  then have "timeouts_ordered (rt_tick k) (\<lambda>i. timeout_tick (timers ?k i)) (timer_list k)"
    using inv timeouts_ordered_cong [of "timer_list k" "\<lambda>i. timeout_tick (timers ?k i)" "\<lambda>i. timeout_tick (timers k i)"]
    by (simp add: clock_inv_def check_inv_def)
  then have "clock_inv ?k" using inv fr ri same
    by (auto simp: clock_inv_def check_inv_def timer_active_def hard_timer_def periodic_def)
  moreover have "user_timer ?k clap_space_timer 1000" "user_timer ?k debounce_timer 250"
    using n fr tm by (simp_all add: user_timer_def hard_timer_def periodic_def timer_active_def timer_names)
  ultimately have "app_inv (app_init, ?k)" using n fr by (simp add: app_inv_def app_init_def remaining_def INT_MAX_def)
  moreover have "app_timer_init k = Some ?k" by (simp add: app_timer_init_def rt_timer_init_def half_range)
  ultimately show ?thesis by blast
qed

section \<open>Claps as bursts of pulses\<close>

text \<open>
  A clap is a burst of pulses less than 250 ticks apart (\<open>ds\<close> are the distances), followed by a pause of
  \<open>g\<close> ticks.
\<close>

definition burst :: "nat list \<Rightarrow> app_event list" where
  "burst ds = EvSound # concat (map (\<lambda>d. replicate d EvTick @ [EvSound]) ds)"

definition clap :: "nat list \<times> nat \<Rightarrow> app_event list" where
  "clap = (\<lambda>(ds, g). burst ds @ replicate g EvTick)"

text \<open>The pause is long enough to separate two claps and short enough to keep them in one group.\<close>

definition spaced :: "nat list \<times> nat \<Rightarrow> bool" where
  "spaced = (\<lambda>(ds, g). (\<forall>d \<in> set ds. d < 250) \<and> 250 \<le> g \<and> sum_list ds + g < 1000)"

lemma spec_ticks:
  assumes "n < clap_left s \<or> clap_left s = 0"
  shows "fold spec_step (replicate n EvTick) s = s\<lparr>clap_quiet := clap_quiet s - n, clap_left := clap_left s - n\<rparr>"
  using assms
proof (induction n arbitrary: s)
  case (Suc n)
  have "spec_tick s = s\<lparr>clap_quiet := clap_quiet s - 1, clap_left := clap_left s - 1\<rparr>"
    using Suc.prems by (auto simp: spec_tick_def)
  then show ?case using Suc.IH [of "spec_tick s"] Suc.prems by auto
qed simp

lemma spec_pulses:
  assumes "clap_quiet s = 250" and "\<forall>d \<in> set ds. d < 250" and "sum_list ds < clap_left s"
  shows "fold spec_step (concat (map (\<lambda>d. replicate d EvTick @ [EvSound]) ds)) s =
         s\<lparr>clap_left := clap_left s - sum_list ds\<rparr>"
  using assms
proof (induction ds arbitrary: s)
  case (Cons d ds)
  let ?s = "s\<lparr>clap_left := clap_left s - d\<rparr>"
  have "fold spec_step (replicate d EvTick @ [EvSound]) s = ?s"
    using spec_ticks [of d s] Cons.prems by (auto simp: spec_pulse_def)
  moreover have "fold spec_step (concat (map (\<lambda>d. replicate d EvTick @ [EvSound]) ds)) ?s =
      ?s\<lparr>clap_left := clap_left ?s - sum_list ds\<rparr>" by (rule Cons.IH) (use Cons.prems in auto)
  ultimately show ?case by (simp add: diff_diff_left)
qed simp

lemma spec_burst:
  assumes "clap_quiet s = 0" and "\<forall>d \<in> set ds. d < 250" and "sum_list ds < 1000"
  shows "fold spec_step (burst ds) s = s\<lparr>clap_quiet := 250, clap_count := clap_count s + 1, clap_left := 1000 - sum_list ds\<rparr>"
  using assms spec_pulses [of "spec_pulse s" ds] by (simp add: burst_def spec_pulse_def)

text \<open>A clap is counted once, so only the number of claps matters for the range of the counter.\<close>

lemma no_overflow_burst:
  assumes "clap_quiet s = 0" and "\<forall>d \<in> set ds. d < 250" and "sum_list ds < 1000" and "int (clap_count s) < INT_MAX"
  shows "no_overflow (burst ds) s"
proof -
  have "no_overflow (concat (map (\<lambda>d. replicate d EvTick @ [EvSound]) ds)) s"
    if "clap_quiet s = 250" "\<forall>d \<in> set ds. d < 250" "sum_list ds < clap_left s" for s
    using that
  proof (induction ds arbitrary: s)
    case (Cons d ds)
    let ?s = "s\<lparr>clap_left := clap_left s - d\<rparr>"
    have t: "fold spec_step (replicate d EvTick) s = s\<lparr>clap_quiet := clap_quiet s - d, clap_left := clap_left s - d\<rparr>"
      using spec_ticks [of d s] Cons.prems by simp
    have q: "s\<lparr>clap_left := x, clap_quiet := 250\<rparr> = s\<lparr>clap_left := x\<rparr>" for x using Cons.prems(1) by (cases s) simp
    have "no_overflow (concat (map (\<lambda>d. replicate d EvTick @ [EvSound]) ds)) ?s" by (rule Cons.IH) (use Cons.prems in auto)
    then show ?case using Cons.prems by (simp add: no_overflow_append no_overflow_ticks t [simplified] spec_pulse_def q)
  qed simp
  from this [of "spec_pulse s"] show ?thesis using assms by (simp add: burst_def spec_pulse_def)
qed

lemma spec_claps:
  assumes "clap_quiet s = 0" and "\<forall>c \<in> set cs. spaced c"
  shows "\<exists>l. fold spec_step (concat (map clap cs)) s = s\<lparr>clap_count := clap_count s + length cs, clap_left := l\<rparr>"
    and "int (clap_count s + length cs) \<le> INT_MAX \<Longrightarrow> no_overflow (concat (map clap cs)) s"
  using assms
proof (induction cs arbitrary: s)
  case Nil
  { case 1 show ?case by (intro exI [of _ "clap_left s"]) simp }
  { case 2 show ?case by simp }
next
  case (Cons c cs)
  have step: "fold spec_step (clap c) s = s\<lparr>clap_count := clap_count s + 1, clap_left := 1000 - sum_list (fst c) - snd c\<rparr>"
      (is "_ = ?s s") "int (clap_count s) < INT_MAX \<Longrightarrow> no_overflow (clap c) s"
    if "clap_quiet s = 0" "spaced c" for s
    using that spec_burst [of s "fst c"] no_overflow_burst [of s "fst c"]
      spec_ticks [of "snd c" "s\<lparr>clap_quiet := 250, clap_count := clap_count s + 1, clap_left := 1000 - sum_list (fst c)\<rparr>"]
    by (auto simp: clap_def spaced_def no_overflow_append no_overflow_ticks split: prod.splits)
  { case 1
    obtain l where "fold spec_step (concat (map clap cs)) (?s s) = (?s s)\<lparr>clap_count := clap_count (?s s) + length cs, clap_left := l\<rparr>"
      using Cons.IH(1) [of "?s s"] 1 by auto
    then show ?case using step(1) [of s] 1 by (intro exI [of _ l]) simp }
  { case 2
    have "no_overflow (concat (map clap cs)) (?s s)" by (rule Cons.IH(2)) (use 2 in simp_all)
    then show ?case using step [of s] 2 by (simp add: no_overflow_append) }
qed

lemma spec_last_clap:
  assumes "clap_quiet s = 0" and "\<forall>d \<in> set ds. d < 250" and "sum_list ds < 1000"
  shows "fold spec_step (burst ds @ replicate 1000 EvTick) s =
    (if clap_count s = 1 then spec_switch s else s)\<lparr>clap_count := 0, clap_left := 0\<rparr>"
proof -
  let ?L = "1000 - sum_list ds"
  let ?s1 = "s\<lparr>clap_quiet := 250, clap_count := clap_count s + 1, clap_left := ?L\<rparr>"
  let ?s2 = "?s1\<lparr>clap_quiet := 250 - (?L - 1), clap_left := 1\<rparr>"
  let ?s3 = "(if clap_count s = 1 then spec_switch s else s)\<lparr>clap_count := 0, clap_left := 0, clap_quiet := 250 - ?L\<rparr>"
  have b: "fold spec_step (burst ds) s = ?s1" by (rule spec_burst [OF assms])
  have r: "replicate 1000 EvTick = replicate (?L - 1) EvTick @ EvTick # replicate (sum_list ds) EvTick"
    using assms(3) by (simp flip: replicate_Suc replicate_add)
  have t1: "fold spec_step (replicate (?L - 1) EvTick) ?s1 = ?s2" using spec_ticks [of "?L - 1" ?s1] assms(3) by simp
  have "spec_tick ?s2 = ?s3" using assms(3) by (auto simp: spec_tick_def spec_switch_def)
  then have "fold spec_step (replicate 1000 EvTick) ?s1 = ?s3\<lparr>clap_quiet := clap_quiet ?s3 - sum_list ds, clap_left := 0\<rparr>"
    using spec_ticks [of "sum_list ds" ?s3] t1 by (simp add: r)
  also have "\<dots> = (if clap_count s = 1 then spec_switch s else s)\<lparr>clap_count := 0, clap_left := 0\<rparr>"
    using assms by (simp add: spec_switch_def)
  finally show ?thesis using b by simp
qed

section \<open>Properties\<close>

text \<open>
  Property C1. The interrupt handlers of the application, running on the timers of the kernel, implement
  the specification of clap detection: after any sequence of ticks, sound pulses and key presses no
  handler has failed, variables and timers agree, and counters, lamps and report request are those of
  the specification. The exception is a group of more than $2^{31} - 1$ claps, where \<^verbatim>\<open>cnt++\<close> overflows: then
  and only then the run fails. It cannot happen with fewer than $2^{31}$ pulses.
\<close>

theorem clap_detection_refines:
  assumes "app_inv x"
  shows "(if no_overflow es (clap_abs x)
      then \<exists>x'. app_run es x = Some x' \<and> app_inv x' \<and> clap_abs x' = fold spec_step es (clap_abs x)
      else app_run es x = None) \<and>
    (clap_count (clap_abs x) + count_list es EvSound < 2 ^ 31 \<longrightarrow> no_overflow es (clap_abs x))"
proof
  show "if no_overflow es (clap_abs x)
      then \<exists>x'. app_run es x = Some x' \<and> app_inv x' \<and> clap_abs x' = fold spec_step es (clap_abs x)
      else app_run es x = None" by (rule app_run_refines [OF assms])
  show "clap_count (clap_abs x) + count_list es EvSound < 2 ^ 31 \<longrightarrow> no_overflow es (clap_abs x)"
    using no_overflow_pulses [of "clap_abs x" es] by (simp add: INT_MAX_def)
qed

lemma sample_app_inv: "app_inv (app_init, sample_clock)"
  using sample_clock_inv sample_clock_timers
  by (simp add: app_inv_def app_init_def remaining_def timer_names INT_MAX_def) (simp add: sample_clock_def)

theorem clap_detection_refines_witness:
  "\<exists>x'. app_run [EvSound, EvTick, EvSound, EvKey] (app_init, sample_clock) = Some x' \<and>
     clap_count (clap_abs x') = 1 \<and> clap_left (clap_abs x') = 999 \<and> clap_quiet (clap_abs x') = 250 \<and> clap_report (clap_abs x')"
proof -
  have i: "clap_quiet (clap_abs (app_init, sample_clock)) = 0" "clap_count (clap_abs (app_init, sample_clock)) = 0"
    by (simp_all add: clap_abs_def app_init_def remaining_def sample_clock_def)
  obtain x' where "app_run [EvSound, EvTick, EvSound, EvKey] (app_init, sample_clock) = Some x'"
    "clap_abs x' = fold spec_step [EvSound, EvTick, EvSound, EvKey] (clap_abs (app_init, sample_clock))"
    using clap_detection_refines [OF sample_app_inv, of "[EvSound, EvTick, EvSound, EvKey]"] i(2) by (auto split: if_splits)
  then show ?thesis using i by (simp add: spec_pulse_def spec_tick_def del: app_run.simps)
qed

text \<open>
  Property C2. Exactly two claps act on the lamps. From rest, after any number of claps (bursts of pulses,
  fewer than $2^{31}$ of them) with pauses of at least 250 ticks and less than 1000 ticks from clap to clap,
  and a silence of 1000 ticks after the last, the application is at rest again. If there were two claps,
  \<open>flag_led_status\<close> has been inverted, a report is requested, and all four lamps are lit if the flag was
  set before and out if it was not; otherwise nothing has changed. The lamps thus show the inverse of the
  new flag: the flag is not the state of the lamps, as the comments of \<^verbatim>\<open>on_clap_space_timer\<close> have it, and
  the first two claps after the start, when flag and lamps are off, set the flag and leave the lamps off.
\<close>

theorem two_claps_switch:
  assumes "app_inv (a, k)" and "remaining k debounce_timer = 0" and "remaining k clap_space_timer = 0"
    and "\<forall>c \<in> set cs. spaced c" and "\<forall>d \<in> set ds. d < 250" and "sum_list ds < 1000" and "length cs + 1 < 2 ^ 31"
  shows "\<exists>x'. app_run (concat (map clap cs) @ burst ds @ replicate 1000 EvTick) (a, k) = Some x' \<and> app_inv x' \<and>
    clap_abs x' = (if length cs = 1
      then (clap_abs (a, k))\<lparr>clap_flag := flag_led_status a = 0,
              clap_lit := replicate 4 (flag_led_status a \<noteq> 0), clap_report := True\<rparr>
      else clap_abs (a, k))"
proof -
  let ?s = "clap_abs (a, k)" and ?es = "concat (map clap cs) @ burst ds @ replicate 1000 EvTick"
  have z: "clap_quiet ?s = 0" "clap_left ?s = 0" "clap_count ?s = 0"
    using assms(1-3) by (auto simp: clap_abs_def app_inv_def)
  obtain l where l: "fold spec_step (concat (map clap cs)) ?s = ?s\<lparr>clap_count := length cs, clap_left := l\<rparr>"
    using spec_claps(1) [OF z(1) assms(4)] z(3) by auto
  have n: "no_overflow ?es ?s"
    using spec_claps(2) [OF z(1) assms(4)] no_overflow_burst [of "?s\<lparr>clap_count := length cs, clap_left := l\<rparr>" ds] z assms(5-7)
    by (simp add: no_overflow_append no_overflow_ticks l INT_MAX_def)
  have "fold spec_step ?es ?s =
      fold spec_step (burst ds @ replicate 1000 EvTick) (?s\<lparr>clap_count := length cs, clap_left := l\<rparr>)"
    by (simp only: fold_append comp_apply l)
  also have "\<dots> = (if length cs = 1 then spec_switch ?s else ?s)\<lparr>clap_count := 0, clap_left := 0\<rparr>"
    using spec_last_clap [of "?s\<lparr>clap_count := length cs, clap_left := l\<rparr>" ds] z(1) assms(5,6)
    by (simp add: spec_switch_def)
  also have "\<dots> = (if length cs = 1 then spec_switch ?s else ?s)"
    using z by (cases ?s) (simp add: spec_switch_def)
  also have "spec_switch ?s = ?s\<lparr>clap_flag := flag_led_status a = 0, clap_lit := replicate 4 (flag_led_status a \<noteq> 0), clap_report := True\<rparr>"
    by (simp add: spec_switch_def clap_abs_def leds_def numeral_eq_Suc)
  finally show ?thesis using app_run_refines [OF assms(1), of ?es] n by metis
qed

theorem two_claps_switch_witness:
  "\<exists>x'. app_run (concat (map clap [([20, 30], 300)]) @ burst [10] @ replicate 1000 EvTick) (app_init, sample_clock) = Some x' \<and>
     clap_flag (clap_abs x') \<and> clap_report (clap_abs x') \<and> clap_lit (clap_abs x') = [False, False, False, False]"
proof -
  have i: "remaining sample_clock debounce_timer = 0" "remaining sample_clock clap_space_timer = 0"
    by (simp_all add: remaining_def sample_clock_def)
  have f: "flag_led_status app_init = 0" by (simp add: app_init_def)
  have "\<forall>c \<in> set [([20, 30], 300)]. spaced c" "\<forall>d \<in> set [10 :: nat]. d < 250" "sum_list [10 :: nat] < 1000"
      "length [([20 :: nat, 30], 300 :: nat)] + 1 < 2 ^ 31"
    by (simp_all add: spaced_def)
  from two_claps_switch [OF sample_app_inv i this] show ?thesis
    using f by (auto simp: numeral_eq_Suc simp del: app_run.simps)
qed

text \<open>With the threshold control on, one round of the main loop sets fan, lamps and motor from the sensors.\<close>

lemma main_round_thresholds:
  assumes "main_round light tmp (a, mb, k) = Some (r, a', mb', k')"
  shows "flag_arr a = 1 \<Longrightarrow> levels (board a') FAN_PIN \<longleftrightarrow> tmp_arr a \<le> tmp"
    and "flag_arr a = 1 \<Longrightarrow> p \<in> set leds \<Longrightarrow> levels (board a') p \<longleftrightarrow> lt_arr a < sint light"
    and "flag_arr a = 1 \<Longrightarrow> pwm_enabled (board a') \<longleftrightarrow> sint light \<le> lt_arr a"
    and "flag_arr a \<noteq> 1 \<Longrightarrow> a' = a"
  using assms
  by (auto simp: main_round_def fan_def turn_def leds_def drv_stepMotor_ctrl_def rt_pin_write_def PIN_LOW_def PIN_HIGH_def
      Let_def bind_eq_Some_conv split: if_splits)

end
