(* ===== verification/Sensors.thy ===== *)
theory Sensors
  imports Prelude
begin

text \<open>
  The sensor drivers of the application: the pressure sensor (\<^verbatim>\<open>applications/fbm320_drv.c\<close>) and the
  humidity sensor (\<^verbatim>\<open>applications/htu21d_drv.c\<close>). \<^verbatim>\<open>long\<close> and \<^verbatim>\<open>int\<close> have 32 bits; a signed overflow, which C
  leaves undefined, is \<open>None\<close>, so that the absence of overflow is a theorem. A right shift of a negative
  number rounds down. The results of the bus transfers are parameters. The theorems show that the
  compensation formula does not overflow in the operating range of the sensor, and what the drivers do
  with a failed transfer.
\<close>

section \<open>32-bit signed arithmetic\<close>

definition s32 :: "int \<Rightarrow> int option" where
  "s32 x = (if - (2 ^ 31) \<le> x \<and> x < 2 ^ 31 then Some x else None)"

definition shr :: "int \<Rightarrow> nat \<Rightarrow> int" where
  "shr x n = x div 2 ^ n"

section \<open>The pressure sensor\<close>

text \<open>The calibration coefficients, with the registers they are read from.\<close>

record fbm320_coeff =
  C0 :: int
  C1 :: int
  C2 :: int
  C3 :: int
  C4 :: int
  C5 :: int
  C6 :: int
  C7 :: int
  C8 :: int
  C9 :: int
  C10 :: int
  C11 :: int
  C12 :: int

definition formula02 :: "u8 \<Rightarrow> bool" where
  "formula02 sel \<longleftrightarrow> sel AND 0xF0 = 0x10 \<or> sel AND 0x0F = 0x01"

definition reg16 :: "u8 \<Rightarrow> u8 \<Rightarrow> u32" where
  "reg16 hi lo = push_bit 8 (ucast hi) OR ucast lo"

text \<open>\<open>d\<close> are the 18 bytes read from register 0xAA, \<open>a4\<close> and \<open>f1\<close> those of the registers 0xA4 and 0xF1.\<close>

definition Coefficient :: "u8 \<Rightarrow> u8 list \<Rightarrow> u8 \<Rightarrow> u8 \<Rightarrow> fbm320_coeff" where
  "Coefficient sel d a4 f1 =
     (let R = (\<lambda>i. if i < 9 then reg16 (d ! (2 * i)) (d ! (2 * i + 1)) else reg16 a4 f1)
      in if formula02 sel then
           \<lparr>C0 = uint (drop_bit 4 (R 0)),
            C1 = uint (drop_bit 5 (R 1 AND 0xFF00) OR (R 2 AND 7)),
            C2 = uint (push_bit 1 (R 1 AND 0xFF) OR (R 4 AND 1)),
            C3 = uint (drop_bit 3 (R 2)),
            C4 = uint (push_bit 2 (R 3) OR (R 0 AND 3)),
            C5 = uint (drop_bit 1 (R 4)),
            C6 = uint (drop_bit 3 (R 5)),
            C7 = uint (push_bit 3 (R 6) OR (R 5 AND 7)),
            C8 = uint (drop_bit 3 (R 7)),
            C9 = uint (drop_bit 2 (R 8)),
            C10 = uint (drop_bit 6 (R 9 AND 0xFF00) OR (R 8 AND 3)),
            C11 = uint (R 9 AND 0xFF),
            C12 = uint (push_bit 1 (R 0 AND 0x0C) OR (R 7 AND 7))\<rparr>
         else
           \<lparr>C0 = uint (drop_bit 4 (R 0)),
            C1 = uint (drop_bit 5 (R 1 AND 0xFF00) OR (R 2 AND 7)),
            C2 = uint (push_bit 1 (R 1 AND 0xFF) OR (R 4 AND 1)),
            C3 = uint (drop_bit 3 (R 2)),
            C4 = uint (push_bit 1 (R 3) OR (R 5 AND 1)),
            C5 = uint (drop_bit 1 (R 4)),
            C6 = uint (drop_bit 3 (R 5)),
            C7 = uint (push_bit 2 (R 6) OR (drop_bit 2 (R 0) AND 3)),
            C8 = uint (drop_bit 3 (R 7)),
            C9 = uint (drop_bit 2 (R 8)),
            C10 = uint (drop_bit 6 (R 9 AND 0xFF00) OR (R 8 AND 3)),
            C11 = uint (R 9 AND 0xFF),
            C12 = uint (push_bit 2 (R 5 AND 6) OR (R 7 AND 7))\<rparr>)"

text \<open>
  The two branches of \<^verbatim>\<open>Calculate\<close> differ in five constants. The temperature part leaves \<open>RT\<close> and \<open>DT2\<close>,
  the pressure part \<open>RP\<close>.
\<close>

definition calc_temperature :: "int \<Rightarrow> fbm320_coeff \<Rightarrow> int \<Rightarrow> (int \<times> int) option" where
  "calc_temperature k1 c UT =
     do { ut \<leftarrow> s32 (UT - 8388608);
          c0 \<leftarrow> s32 (C0 c * 16);
          DT \<leftarrow> s32 (shr ut 4 + c0);
          k \<leftarrow> s32 (C1 c + k1);
          x \<leftarrow> s32 (k * DT);
          let X01 = shr x 1;
          x \<leftarrow> s32 ((C2 c - 256) * DT);
          x \<leftarrow> s32 (shr x 14 * DT);
          let X02 = shr x 4;
          x \<leftarrow> s32 (C3 c * DT);
          x \<leftarrow> s32 (shr x 18 * DT);
          X03 \<leftarrow> s32 (shr x 18 * DT);
          r \<leftarrow> s32 (2500 * 2 ^ 15 - X01);
          r \<leftarrow> s32 (r - X02);
          r \<leftarrow> s32 (r - X03);
          s \<leftarrow> s32 (X01 + X02);
          s \<leftarrow> s32 (s + X03);
          Some (shr r 15, shr s 12) }"

definition calc_scale :: "int \<Rightarrow> int \<Rightarrow> fbm320_coeff \<Rightarrow> int \<Rightarrow> int option" where
  "calc_scale k8 k7 c DT2 =
     do { k \<leftarrow> s32 (C8 c + k8);
          x \<leftarrow> s32 (k * DT2);
          let X21 = shr x 10;
          x \<leftarrow> s32 (C9 c * DT2);
          x \<leftarrow> s32 (shr x 17 * DT2);
          let X22 = shr x 12;
          X23 \<leftarrow> (if X22 \<ge> X21 then s32 (X22 - X21) else s32 (X21 - X22));
          m \<leftarrow> s32 (C7 c + k7);
          X24 \<leftarrow> s32 (shr X23 11 * m);
          x \<leftarrow> s32 ((X23 mod 2048) * m);
          let X25 = shr x 11;
          d \<leftarrow> s32 (X22 - X21);
          y \<leftarrow> (if d < 0 then do { n \<leftarrow> s32 (0 - X24); s32 (n - X25) } else s32 (X24 + X25));
          z \<leftarrow> s32 (shr y 11 + C7 c);
          s32 (z + k7) }"

definition calc_offset :: "int \<Rightarrow> int \<Rightarrow> fbm320_coeff \<Rightarrow> int \<Rightarrow> int option" where
  "calc_offset k5 k4 c DT2 =
     do { k \<leftarrow> s32 (C5 c - k5);
          X11 \<leftarrow> s32 (k * DT2);
          x \<leftarrow> s32 (C6 c * DT2);
          x \<leftarrow> s32 (shr x 16 * DT2);
          let X12 = shr x 2;
          s \<leftarrow> s32 (X11 + X12);
          k \<leftarrow> s32 (C4 c + k4);
          k \<leftarrow> s32 (k * 16);
          s32 (shr s 10 + k) }"

text \<open>The uncompensated pressure \<open>PP1\<close> and the linear part \<open>PP4\<close>.\<close>

definition calc_linear :: "int \<Rightarrow> int \<Rightarrow> int \<Rightarrow> (int \<times> int) option" where
  "calc_linear UP X13 X26 =
     do { u \<leftarrow> s32 (UP - 8388608);
          p \<leftarrow> s32 (u - X13);
          let PP1 = shr p 3;
          PP2 \<leftarrow> s32 (shr X26 11 * PP1);
          x \<leftarrow> s32 ((X26 mod 2048) * PP1);
          let PP3 = shr x 11;
          s \<leftarrow> s32 (PP2 + PP3);
          Some (PP1, shr s 10) }"

definition calc_correction :: "fbm320_coeff \<Rightarrow> int \<Rightarrow> int \<Rightarrow> int option" where
  "calc_correction c DT2 PP4 =
     do { x \<leftarrow> s32 (C12 c * DT2);
          x \<leftarrow> s32 (2097152 + x);
          let CF = shr x 3;
          x \<leftarrow> s32 (CF * C10 c);
          x \<leftarrow> s32 (shr x 17 * PP4);
          let X31 = shr x 2;
          x \<leftarrow> s32 (CF * C11 c);
          x \<leftarrow> s32 (shr x 15 * PP4);
          X32 \<leftarrow> s32 (shr x 18 * PP4);
          s \<leftarrow> s32 (X31 + X32);
          r \<leftarrow> s32 (shr s 15 + PP4);
          s32 (r + 99880) }"

definition calc_formula :: "int \<Rightarrow> int \<Rightarrow> int \<Rightarrow> int \<Rightarrow> int \<Rightarrow> fbm320_coeff \<Rightarrow> int \<Rightarrow> int \<Rightarrow> (int \<times> int) option" where
  "calc_formula k1 k5 k4 k8 k7 c UP UT =
     do { (RT, DT2) \<leftarrow> calc_temperature k1 c UT;
          X13 \<leftarrow> calc_offset k5 k4 c DT2;
          X26 \<leftarrow> calc_scale k8 k7 c DT2;
          (PP1, PP4) \<leftarrow> calc_linear UP X13 X26;
          RP \<leftarrow> calc_correction c DT2 PP4;
          Some (RP, RT) }"

definition formula_constants :: "u8 \<Rightarrow> int \<times> int \<times> int \<times> int \<times> int" where
  "formula_constants sel =
     (if formula02 sel then (4459, 4443, 120586, 7180, 166426) else (4418, 0, 211288, 7209, 285594))"

definition Calculate :: "u8 \<Rightarrow> fbm320_coeff \<Rightarrow> int \<Rightarrow> int \<Rightarrow> (int \<times> int) option" where
  "Calculate sel c UP UT =
     (case formula_constants sel of (k1, k5, k4, k8, k7) \<Rightarrow> calc_formula k1 k5 k4 k8 k7 c UP UT)"

text \<open>
  One measurement: the three data bytes of the two conversions as the transfers left them in
  \<^verbatim>\<open>readData\<close> (zeros, or the previous bytes, after a failed transfer, whose result is ignored).
  The comparison with \<open>-1\<close> is part of the code.
\<close>

definition raw24 :: "u8 \<Rightarrow> u8 \<Rightarrow> u8 \<Rightarrow> int" where
  "raw24 a b c = uint (push_bit 16 (ucast a) OR push_bit 8 (ucast b) OR (ucast c) :: u32)"

definition transfer :: "bytes option \<Rightarrow> bytes \<Rightarrow> bytes" where
  "transfer r buf = (case r of Some d \<Rightarrow> take (length buf) (d @ drop (length d) buf) | None \<Rightarrow> buf)"

definition fbm320_read_data ::
  "u8 \<Rightarrow> fbm320_coeff \<Rightarrow> bytes option \<Rightarrow> bytes option \<Rightarrow> (int \<times> (int \<times> int) option) option" where
  "fbm320_read_data sel c temp_transfer press_transfer =
     (let readData = transfer temp_transfer [0, 0, 0];
          UT_I = raw24 (readData ! 0) (readData ! 1) (readData ! 2);
          readData = transfer press_transfer readData;
          UP_I = raw24 (readData ! 0) (readData ! 1) (readData ! 2)
      in if UT_I = -1 \<or> UP_I = -1 then Some (255, None)
         else do { (RP, RT) \<leftarrow> Calculate sel c UP_I UT_I; Some (0, Some (RP, RT)) })"

text \<open>
  Initialisation with the device found: \<open>ident\<close> is the byte read from the identification register, \<open>fl\<close> the
  conversion of a pressure to \<^verbatim>\<open>float\<close> and back. The coefficients are decoded once, for the first formula;
  the result is the return value, the selected formula and the coefficients.
\<close>

definition FBM320_ID :: u8 where "FBM320_ID = 0x42"

definition fbm320_init ::
  "(int \<Rightarrow> int) \<Rightarrow> u8 \<Rightarrow> u8 list \<Rightarrow> u8 \<Rightarrow> u8 \<Rightarrow> bytes option \<times> bytes option \<Rightarrow> bytes option \<times> bytes option \<Rightarrow>
   (int \<times> u8 \<times> fbm320_coeff option) option" where
  "fbm320_init fl ident d a4 f1 m1 m0 =
     (if FBM320_ID \<noteq> ident then Some (1, 1, None)
      else do {
        let c = Coefficient 1 d a4 f1;
        (_, r1) \<leftarrow> fbm320_read_data 1 c (fst m1) (snd m1);
        let p1 = (case r1 of Some (RP, RT) \<Rightarrow> fl RP | None \<Rightarrow> 0);
        (_, r0) \<leftarrow> fbm320_read_data 0 c (fst m0) (snd m0);
        let p0 = (case r0 of Some (RP, RT) \<Rightarrow> fl RP | None \<Rightarrow> 0);
        Some (0, if \<bar>p1 - 100000\<bar> < \<bar>p0 - 100000\<bar> then 1 else 0, Some c) })"

section \<open>The humidity sensor\<close>

text \<open>The two status bits are masked out of the reading; humidity is computed in integers.\<close>

definition htu21d_raw :: "bytes \<Rightarrow> int" where
  "htu21d_raw temp = uint (reg16 (temp ! 0) (temp ! 1) AND 0xfffc)"

text \<open>\<open>conv\<close> is the floating-point conversion of a reading; the result is \<open>- 1\<close> for a reading of the other kind.\<close>

definition read_temp :: "(int \<Rightarrow> 'f) \<Rightarrow> 'f \<Rightarrow> bytes option \<Rightarrow> 'f" where
  "read_temp conv minus_one r =
     (let temp = transfer r [0, 0]
      in if temp ! 1 AND 0x02 = 0 then conv (htu21d_raw temp) else minus_one)"

definition read_humi :: "bytes option \<Rightarrow> int" where
  "read_humi r =
     (let temp = transfer r [0, 0]
      in if temp ! 1 AND 0x02 = 0x02 then - 6 + 125 * htu21d_raw temp div 2 ^ 16 else - 1)"

section \<open>Ranges of the coefficients\<close>

definition bits_below :: "nat \<Rightarrow> u32 \<Rightarrow> bool" where
  "bits_below n w \<longleftrightarrow> (\<forall>i \<ge> n. \<not> bit w i)"

lemma bits_below_less: "bits_below n w \<Longrightarrow> uint w < 2 ^ n"
proof -
  assume "bits_below n w"
  then have "take_bit n (uint w) = uint w"
    by (intro bit_eqI) (auto simp: bits_below_def bit_take_bit_iff bit_uint_iff, meson not_less)
  then show ?thesis by (metis take_bit_int_less_exp)
qed

lemma less_bits_below: "uint w < 2 ^ n \<Longrightarrow> bits_below n w"
proof -
  assume "uint w < 2 ^ n"
  then have "take_bit n (uint w) = uint w" by (simp add: take_bit_int_eq_self)
  then show ?thesis unfolding bits_below_def by (metis bit_take_bit_iff bit_uint_iff linorder_not_less bit_imp_le_length)
qed

lemma bits_below_ops:
  "bits_below n v \<Longrightarrow> bits_below n w \<Longrightarrow> bits_below n (v OR w)"
  "bits_below n v \<Longrightarrow> bits_below n (v AND w)"
  "bits_below n w \<Longrightarrow> bits_below n (v AND w)"
  "bits_below (n + k) v \<Longrightarrow> bits_below n (drop_bit k v)"
  "bits_below n v \<Longrightarrow> bits_below (n + k) (push_bit k v)"
  "n \<le> m \<Longrightarrow> bits_below n v \<Longrightarrow> bits_below m v"
  by (auto simp: bits_below_def bit_simps)

lemma bits_below_ucast: "bits_below 8 (ucast (x :: u8))"
  by (auto simp: bits_below_def bit_simps dest: bit_imp_le_length)

lemma bits_below_reg16: "bits_below 16 (reg16 hi lo)"
  unfolding reg16_def
  using bits_below_ops(5) [OF bits_below_ucast [of hi], of 8] bits_below_ops(6) [OF _ bits_below_ucast [of lo], of 16]
  by (auto intro!: bits_below_ops(1))

definition coeff_ok :: "fbm320_coeff \<Rightarrow> bool" where
  "coeff_ok c \<longleftrightarrow> 0 \<le> C0 c \<and> C0 c < 2 ^ 12 \<and> 0 \<le> C1 c \<and> C1 c < 2 ^ 11 \<and> 0 \<le> C2 c \<and> C2 c < 2 ^ 9 \<and>
     0 \<le> C3 c \<and> C3 c < 2 ^ 13 \<and> 0 \<le> C4 c \<and> C4 c < 2 ^ 18 \<and> 0 \<le> C5 c \<and> C5 c < 2 ^ 15 \<and> 0 \<le> C6 c \<and> C6 c < 2 ^ 13 \<and>
     0 \<le> C7 c \<and> C7 c < 2 ^ 19 \<and> 0 \<le> C8 c \<and> C8 c < 2 ^ 13 \<and> 0 \<le> C9 c \<and> C9 c < 2 ^ 14 \<and>
     0 \<le> C10 c \<and> C10 c < 2 ^ 11 \<and> 0 \<le> C11 c \<and> C11 c < 2 ^ 8 \<and> 0 \<le> C12 c \<and> C12 c < 2 ^ 5"

lemma coefficient_field:
  assumes "bits_below 16 v" and "bits_below 16 w"
  shows "k \<le> 16 \<Longrightarrow> uint (drop_bit k v) < 2 ^ (16 - k)"
    and "uint m < 2 ^ j \<Longrightarrow> j \<le> 16 - k \<Longrightarrow> k \<le> 16 \<Longrightarrow> uint (drop_bit k (v AND u) OR (w AND m)) < 2 ^ (16 - k)"
    and "uint u < 2 ^ i \<Longrightarrow> uint m < 2 ^ j \<Longrightarrow> j \<le> i + k \<Longrightarrow> uint (push_bit k (v AND u) OR (w AND m)) < 2 ^ (i + k)"
    and "uint m < 2 ^ j \<Longrightarrow> j \<le> 16 + k \<Longrightarrow> uint (push_bit k v OR (w AND m)) < 2 ^ (16 + k)"
proof -
  show "uint (drop_bit k v) < 2 ^ (16 - k)" if "k \<le> 16"
    using that assms by (intro bits_below_less bits_below_ops(4)) simp
  show "uint (drop_bit k (v AND u) OR (w AND m)) < 2 ^ (16 - k)" if "uint m < 2 ^ j" "j \<le> 16 - k" "k \<le> 16"
  proof (intro bits_below_less bits_below_ops(1) bits_below_ops(4))
    show "bits_below (16 - k + k) (v AND u)" using that assms(1) by (simp add: bits_below_ops(2))
    show "bits_below (16 - k) (w AND m)"
      using that by (intro bits_below_ops(6) [OF _ bits_below_ops(3) [OF less_bits_below]]) auto
  qed
  show "uint (push_bit k (v AND u) OR (w AND m)) < 2 ^ (i + k)" if "uint u < 2 ^ i" "uint m < 2 ^ j" "j \<le> i + k"
    using bits_below_ops(5) [OF bits_below_ops(3) [OF less_bits_below [OF that(1)]]]
      bits_below_ops(6) [OF that(3) bits_below_ops(3) [OF less_bits_below [OF that(2)]]]
    by (intro bits_below_less bits_below_ops(1))
  show "uint (push_bit k v OR (w AND m)) < 2 ^ (16 + k)" if "uint m < 2 ^ j" "j \<le> 16 + k"
    using bits_below_ops(5) [OF assms(1)] bits_below_ops(6) [OF that(2) bits_below_ops(3) [OF less_bits_below [OF that(1)]]]
    by (intro bits_below_less bits_below_ops(1))
qed

lemma coefficient_ok: "coeff_ok (Coefficient sel d a4 f1)"
proof -
  define R where "R = (\<lambda>i. if i < 9 then reg16 (d ! (2 * i)) (d ! (2 * i + 1)) else reg16 a4 f1)"
  have r: "bits_below 16 (R i)" for i by (simp add: R_def bits_below_reg16)
  note f = coefficient_field [OF r r]
  have *: "uint (drop_bit 4 (R 0)) < 2 ^ 12" "uint (drop_bit 5 (R 1 AND 0xFF00) OR (R 2 AND 7)) < 2 ^ 11"
    "uint (push_bit 1 (R 1 AND 0xFF) OR (R 4 AND 1)) < 2 ^ 9" "uint (drop_bit 3 (R 2)) < 2 ^ 13"
    "uint (push_bit 2 (R 3) OR (R 0 AND 3)) < 2 ^ 18" "uint (drop_bit 1 (R 4)) < 2 ^ 15" "uint (drop_bit 3 (R 5)) < 2 ^ 13"
    "uint (push_bit 3 (R 6) OR (R 5 AND 7)) < 2 ^ 19" "uint (drop_bit 3 (R 7)) < 2 ^ 13" "uint (drop_bit 2 (R 8)) < 2 ^ 14"
    "uint (drop_bit 6 (R 9 AND 0xFF00) OR (R 8 AND 3)) < 2 ^ 10" "uint (R 9 AND 0xFF) < 2 ^ 8"
    "uint (push_bit 1 (R 0 AND 0x0C) OR (R 7 AND 7)) < 2 ^ 5"
    "uint (push_bit 1 (R 3) OR (R 5 AND 1)) < 2 ^ 17" "uint (push_bit 2 (R 6) OR (drop_bit 2 (R 0) AND 3)) < 2 ^ 18"
    "uint (push_bit 2 (R 5 AND 6) OR (R 7 AND 7)) < 2 ^ 5"
    using f(1) [where k = 4] f(2) [where k = 5 and u = 65280 and m = 7 and j = 3]
      f(3) [where k = 1 and u = 255 and i = 8 and m = 1 and j = 1] f(1) [where k = 3] f(4) [where k = 2 and m = 3 and j = 2]
      f(1) [where k = 1] f(4) [where k = 3 and m = 7 and j = 3] f(1) [where k = 2] f(2) [where k = 6 and u = 65280 and m = 3 and j = 2]
      bits_below_less [OF bits_below_ops(3) [OF less_bits_below [of 255 8]], of "R 9"]
      f(3) [where k = 1 and u = 12 and i = 4 and m = 7 and j = 3] f(4) [where k = 1 and m = 1 and j = 1]
      coefficient_field(4) [OF r bits_below_ops(6) [OF _ bits_below_ops(4) [of 14 2]], where k = 2 and m = 3 and j = 2]
      f(3) [where k = 2 and u = 6 and i = 3 and m = 7 and j = 3]
    by (simp_all add: r)
  show ?thesis
    unfolding Coefficient_def Let_def R_def [symmetric] coeff_ok_def
    using * by (simp del: power_numeral) (simp add: less_trans [OF *(11)] less_trans [OF *(14)] less_trans [OF *(15)])
qed

section \<open>Absence of overflow\<close>

lemma s32_in: "\<bar>x\<bar> \<le> a \<Longrightarrow> a < 2 ^ 31 \<Longrightarrow> s32 x = Some x"
  by (auto simp: s32_def abs_le_iff)

lemma mul_bound: "\<bar>x\<bar> \<le> a \<Longrightarrow> \<bar>y\<bar> \<le> b \<Longrightarrow> \<bar>x * y\<bar> \<le> a * (b :: int)"
  by (simp add: abs_mult mult_mono)

lemma shr_bound:
  assumes "\<bar>x\<bar> \<le> a" and "a < b * 2 ^ n"
  shows "\<bar>shr x n\<bar> \<le> b"
proof -
  have "x \<le> b * 2 ^ n" "(- b) * 2 ^ n \<le> x" using assms by auto
  moreover have "(- b) * 2 ^ n div 2 ^ n = - b" by (rule nonzero_mult_div_cancel_right) simp
  ultimately have "x div 2 ^ n \<le> b" "- b \<le> x div 2 ^ n"
    using zdiv_mono1 [of x "b * 2 ^ n" "2 ^ n"] zdiv_mono1 [of "(- b) * 2 ^ n" x "2 ^ n"] by simp_all
  then show ?thesis by (simp add: shr_def)
qed

lemma calc_temperature_ok:
  assumes c: "coeff_ok c" and k1: "0 \<le> k1" "k1 \<le> 5000" and UT: "0 \<le> UT" "UT < 2 ^ 24"
    and DT: "\<bar>shr (UT - 8388608) 4 + C0 c * 16\<bar> \<le> 2 ^ 17"
  shows "\<exists>s. \<bar>s\<bar> \<le> 747184130 \<and> calc_temperature k1 c UT = Some (shr (81920000 - s) 15, shr s 12)"
proof -
  define D where "D = shr (UT - 8388608) 4 + C0 c * 16"
  have D: "\<bar>D\<bar> \<le> 131072" using DT by (simp add: D_def)
  have cs: "\<bar>C1 c + k1\<bar> \<le> 7047" "\<bar>C2 c - 256\<bar> \<le> 256" "\<bar>C3 c\<bar> \<le> 8191" "\<bar>C0 c * 16\<bar> \<le> 65520"
    using c k1 by (simp_all add: coeff_ok_def abs_le_iff)
  have e: "s32 (UT - 8388608) = Some (UT - 8388608)" "s32 (C0 c * 16) = Some (C0 c * 16)" "s32 D = Some D"
    "s32 (C1 c + k1) = Some (C1 c + k1)"
    using UT s32_in [OF cs(4)] s32_in [OF D] s32_in [OF cs(1)] by (simp_all add: s32_def)
  note m1 = mul_bound [OF cs(1) D] and m2 = mul_bound [OF cs(2) D] and m3 = mul_bound [OF cs(3) D]
  define X01 where "X01 = shr ((C1 c + k1) * D) 1"
  have X01: "\<bar>X01\<bar> \<le> 461832193" unfolding X01_def by (rule shr_bound [OF m1]) simp
  define y where "y = shr ((C2 c - 256) * D) 14"
  have y: "\<bar>y\<bar> \<le> 2049" unfolding y_def by (rule shr_bound [OF m2]) simp
  note m4 = mul_bound [OF y D]
  define X02 where "X02 = shr (y * D) 4"
  have X02: "\<bar>X02\<bar> \<le> 16785409" unfolding X02_def by (rule shr_bound [OF m4]) simp
  define z where "z = shr (C3 c * D) 18"
  have z: "\<bar>z\<bar> \<le> 4096" unfolding z_def by (rule shr_bound [OF m3]) simp
  note m5 = mul_bound [OF z D]
  define w where "w = shr (z * D) 18"
  have w: "\<bar>w\<bar> \<le> 2049" unfolding w_def by (rule shr_bound [OF m5]) simp
  note m6 = mul_bound [OF w D]
  have p: "s32 ((C1 c + k1) * D) = Some ((C1 c + k1) * D)" "s32 ((C2 c - 256) * D) = Some ((C2 c - 256) * D)"
    "s32 (y * D) = Some (y * D)" "s32 (C3 c * D) = Some (C3 c * D)" "s32 (z * D) = Some (z * D)" "s32 (w * D) = Some (w * D)"
    using s32_in [OF m1] s32_in [OF m2] s32_in [OF m4] s32_in [OF m3] s32_in [OF m5] s32_in [OF m6] by simp_all
  have W: "\<bar>w * D\<bar> \<le> 268566528" using m6 by simp
  define S where "S = X01 + X02 + w * D"
  have S: "\<bar>S\<bar> \<le> 747184130" using X01 X02 W unfolding S_def by linarith
  have q: "s32 (81920000 - X01) = Some (81920000 - X01)" "s32 (81920000 - X01 - X02) = Some (81920000 - X01 - X02)"
    "s32 (81920000 - X01 - X02 - w * D) = Some (81920000 - S)" "s32 (X01 + X02) = Some (X01 + X02)" "s32 (X01 + X02 + w * D) = Some S"
    using X01 X02 W unfolding s32_def S_def abs_le_iff by simp_all
  have "calc_temperature k1 c UT = Some (shr (81920000 - S) 15, shr S 12)"
    unfolding calc_temperature_def Let_def e(1,2) bind.bind_lunit D_def [symmetric] e(3,4) p(1) X01_def [symmetric] p(2)
      y_def [symmetric] p(3) X02_def [symmetric] p(4) z_def [symmetric] p(5) w_def [symmetric] p(6)
    by (simp add: q)
  then show ?thesis using S by blast
qed

lemma temperature_range:
  assumes "- 4000 \<le> shr (81920000 - s) 15" and "shr (81920000 - s) 15 \<le> 8500"
  shows "\<bar>shr s 12\<bar> \<le> 52001"
proof (rule shr_bound)
  have "- 4000 * 32768 \<le> 81920000 - s" "81920000 - s < 8501 * 32768" using assms by (simp_all add: shr_def) 
  then show "\<bar>s\<bar> \<le> 212992000" by simp
qed simp

lemma calc_offset_ok:
  assumes c: "coeff_ok c" and d: "\<bar>d\<bar> \<le> 52001" and k: "0 \<le> k5" "k5 \<le> 4443" "0 \<le> k4" "k4 \<le> 211288"
  shows "\<exists>x. calc_offset k5 k4 c d = Some x"
proof -
  have cs: "\<bar>C5 c - k5\<bar> \<le> 32767" "\<bar>C6 c\<bar> \<le> 8191" "\<bar>C4 c + k4\<bar> \<le> 473431"
    using c k by (simp_all add: coeff_ok_def abs_le_iff)
  note m1 = mul_bound [OF cs(1) d] and m2 = mul_bound [OF cs(2) d]
  define y where "y = shr (C6 c * d) 16"
  have y: "\<bar>y\<bar> \<le> 6500" unfolding y_def by (rule shr_bound [OF m2]) simp
  note m3 = mul_bound [OF y d]
  define X12 where "X12 = shr (y * d) 2"
  have X12: "\<bar>X12\<bar> \<le> 84501626" unfolding X12_def by (rule shr_bound [OF m3]) simp
  define X11 where "X11 = (C5 c - k5) * d"
  have X11: "\<bar>X11\<bar> \<le> 1703916767" using m1 by (simp add: X11_def)
  have s: "\<bar>X11 + X12\<bar> \<le> 1788418393" using X11 X12 by linarith
  have t: "\<bar>shr (X11 + X12) 10\<bar> \<le> 1746503" by (rule shr_bound [OF s]) simp
  have e: "s32 (C5 c - k5) = Some (C5 c - k5)" "s32 X11 = Some X11" "s32 (C6 c * d) = Some (C6 c * d)"
    "s32 (y * d) = Some (y * d)" "s32 (X11 + X12) = Some (X11 + X12)" "s32 (C4 c + k4) = Some (C4 c + k4)"
    "s32 ((C4 c + k4) * 16) = Some ((C4 c + k4) * 16)" "\<exists>v. s32 (shr (X11 + X12) 10 + (C4 c + k4) * 16) = Some v"
    using s32_in [OF cs(1)] s32_in [OF X11] s32_in [OF m2] s32_in [OF m3] s32_in [OF s] s32_in [OF cs(3)] cs(3) t
    by (simp_all add: s32_def abs_le_iff)
  show ?thesis
    unfolding calc_offset_def Let_def e(1) bind.bind_lunit X11_def [symmetric] e(2,3) y_def [symmetric] e(4)
      X12_def [symmetric] e(5,6,7)
    by (rule e(8))
qed

lemma calc_scale_ok:
  assumes c: "coeff_ok c" and d: "\<bar>d\<bar> \<le> 52001" and k: "0 \<le> k8" "k8 \<le> 7209" "0 \<le> k7" "k7 \<le> 285594"
  shows "\<exists>x. calc_scale k8 k7 c d = Some x \<and> \<bar>x\<bar> \<le> 2000000"
proof -
  have cs: "\<bar>C8 c + k8\<bar> \<le> 15400" "\<bar>C9 c\<bar> \<le> 16383" "0 \<le> C7 c + k7" "\<bar>C7 c + k7\<bar> \<le> 809881"
    using c k by (simp_all add: coeff_ok_def abs_le_iff)
  note m1 = mul_bound [OF cs(1) d] and m2 = mul_bound [OF cs(2) d]
  define X21 where "X21 = shr ((C8 c + k8) * d) 10"
  have X21: "\<bar>X21\<bar> \<le> 782047" unfolding X21_def by (rule shr_bound [OF m1]) simp
  define y where "y = shr (C9 c * d) 17"
  have y: "\<bar>y\<bar> \<le> 6500" unfolding y_def by (rule shr_bound [OF m2]) simp
  note m3 = mul_bound [OF y d]
  define X22 where "X22 = shr (y * d) 12"
  have X22: "\<bar>X22\<bar> \<le> 82522" unfolding X22_def by (rule shr_bound [OF m3]) simp
  define X23 where "X23 = \<bar>X22 - X21\<bar>"
  have X23: "\<bar>X23\<bar> \<le> 864569" "0 \<le> X23" using X21 X22 by (simp_all add: X23_def)
  have sh: "\<bar>shr X23 11\<bar> \<le> 423" by (rule shr_bound [OF X23(1)]) simp
  have md: "\<bar>X23 mod 2048\<bar> \<le> 2047" by (simp add: abs_le_iff)
  note m4 = mul_bound [OF sh cs(4)] and m5 = mul_bound [OF md cs(4)]
  define X24 where "X24 = shr X23 11 * (C7 c + k7)"
  have X24: "\<bar>X24\<bar> \<le> 342579663" using m4 by (simp add: X24_def)
  define X25 where "X25 = shr ((X23 mod 2048) * (C7 c + k7)) 11"
  have X25: "\<bar>X25\<bar> \<le> 809882" unfolding X25_def by (rule shr_bound [OF m5]) simp
  define v where "v = (if X22 - X21 < 0 then 0 - X24 - X25 else X24 + X25)"
  have v: "\<bar>v\<bar> \<le> 343389545" using X24 X25 by (auto simp: v_def)
  have sv: "\<bar>shr v 11\<bar> \<le> 167671" by (rule shr_bound [OF v]) simp
  have e: "s32 (C8 c + k8) = Some (C8 c + k8)" "s32 ((C8 c + k8) * d) = Some ((C8 c + k8) * d)"
    "s32 (C9 c * d) = Some (C9 c * d)" "s32 (y * d) = Some (y * d)"
    "(if X21 \<le> X22 then s32 (X22 - X21) else s32 (X21 - X22)) = Some X23"
    "s32 (C7 c + k7) = Some (C7 c + k7)" "s32 X24 = Some X24"
    "s32 ((X23 mod 2048) * (C7 c + k7)) = Some ((X23 mod 2048) * (C7 c + k7))" "s32 (X22 - X21) = Some (X22 - X21)"
    "(if X22 - X21 < 0 then do { n \<leftarrow> s32 (0 - X24); s32 (n - X25) } else s32 (X24 + X25)) = Some v"
    using s32_in [OF cs(1)] s32_in [OF m1] s32_in [OF m2] s32_in [OF m3] s32_in [OF cs(4)] s32_in [OF X24] s32_in [OF m5]
      X21 X22 X24 X25
    by (auto simp: s32_def abs_le_iff X23_def v_def)
  have f: "s32 (shr v 11 + C7 c) = Some (shr v 11 + C7 c)" "s32 (shr v 11 + C7 c + k7) = Some (shr v 11 + C7 c + k7)"
    "\<bar>shr v 11 + C7 c + k7\<bar> \<le> 2000000"
    using sv c k by (simp_all add: s32_def abs_le_iff coeff_ok_def)
  have "calc_scale k8 k7 c d = Some (shr v 11 + C7 c + k7)"
    unfolding calc_scale_def Let_def e(1,2) bind.bind_lunit X21_def [symmetric] e(3) y_def [symmetric] e(4)
      X22_def [symmetric]
    unfolding e(5,6) bind.bind_lunit X24_def [symmetric] e(7,8) X25_def [symmetric]
    unfolding e(9) bind.bind_lunit e(10)
    by (simp add: f)
  then show ?thesis using f(3) by blast
qed

lemma calc_linear_ok:
  assumes UP: "0 \<le> UP" "UP < 2 ^ 24" and x: "\<bar>X26\<bar> \<le> 2000000" and p: "\<bar>shr (UP - 8388608 - X13) 3\<bar> \<le> 2 ^ 20"
  shows "\<exists>PP4. calc_linear UP X13 X26 = Some (shr (UP - 8388608 - X13) 3, PP4)"
proof -
  define P where "P = shr (UP - 8388608 - X13) 3"
  have P: "\<bar>P\<bar> \<le> 1048576" using p by (simp add: P_def)
  have "- 1048576 \<le> (UP - 8388608 - X13) div 8" "(UP - 8388608 - X13) div 8 \<le> 1048576"
    using P by (simp_all add: P_def shr_def)
  then have q: "\<bar>UP - 8388608 - X13\<bar> \<le> 8388616" by simp
  have sh: "\<bar>shr X26 11\<bar> \<le> 977" by (rule shr_bound [OF x]) simp
  have md: "\<bar>X26 mod 2048\<bar> \<le> 2047" by (simp add: abs_le_iff)
  note m1 = mul_bound [OF sh P] and m2 = mul_bound [OF md P]
  define y where "y = shr ((X26 mod 2048) * P) 11"
  have y: "\<bar>y\<bar> \<le> 1048577" unfolding y_def by (rule shr_bound [OF m2]) simp
  have m1': "\<bar>shr X26 11 * P\<bar> \<le> 1024458752" using m1 by simp
  have e: "s32 (UP - 8388608) = Some (UP - 8388608)" "s32 (UP - 8388608 - X13) = Some (UP - 8388608 - X13)"
    "s32 (shr X26 11 * P) = Some (shr X26 11 * P)" "s32 ((X26 mod 2048) * P) = Some ((X26 mod 2048) * P)"
    "s32 (shr X26 11 * P + y) = Some (shr X26 11 * P + y)"
    using UP s32_in [OF q] s32_in [OF m1] s32_in [OF m2] m1' y by (simp_all add: s32_def abs_le_iff)
  have "calc_linear UP X13 X26 = Some (P, shr (shr X26 11 * P + y) 10)"
    unfolding calc_linear_def Let_def e(1) bind.bind_lunit e(2) P_def [symmetric] e(3,4) y_def [symmetric] e(5) by simp
  then show ?thesis by (simp add: P_def)
qed

lemma calc_correction_ok:
  assumes c: "coeff_ok c" and d: "\<bar>d\<bar> \<le> 52001" and p: "\<bar>PP4\<bar> \<le> 2 ^ 17"
  shows "\<exists>RP. calc_correction c d PP4 = Some RP"
proof -
  have p': "\<bar>PP4\<bar> \<le> 131072" using p by simp
  have cs: "\<bar>C12 c\<bar> \<le> 31" "\<bar>C10 c\<bar> \<le> 2047" "\<bar>C11 c\<bar> \<le> 255" using c by (simp_all add: coeff_ok_def abs_le_iff)
  note m1 = mul_bound [OF cs(1) d]
  have t: "\<bar>2097152 + C12 c * d\<bar> \<le> 3709183" using m1 by simp
  define CF where "CF = shr (2097152 + C12 c * d) 3"
  have CF: "\<bar>CF\<bar> \<le> 463648" unfolding CF_def by (rule shr_bound [OF t]) simp
  note m2 = mul_bound [OF CF cs(2)] and m3 = mul_bound [OF CF cs(3)]
  define x where "x = shr (CF * C10 c) 17"
  have x: "\<bar>x\<bar> \<le> 7242" unfolding x_def by (rule shr_bound [OF m2]) simp
  define y where "y = shr (CF * C11 c) 15"
  have y: "\<bar>y\<bar> \<le> 3609" unfolding y_def by (rule shr_bound [OF m3]) simp
  note m4 = mul_bound [OF x p'] and m5 = mul_bound [OF y p']
  define X31 where "X31 = shr (x * PP4) 2"
  have X31: "\<bar>X31\<bar> \<le> 237305857" unfolding X31_def by (rule shr_bound [OF m4]) simp
  define z where "z = shr (y * PP4) 18"
  have z: "\<bar>z\<bar> \<le> 1805" unfolding z_def by (rule shr_bound [OF m5]) simp
  note m6 = mul_bound [OF z p']
  have Z: "\<bar>z * PP4\<bar> \<le> 236584960" using m6 by simp
  have s: "\<bar>X31 + z * PP4\<bar> \<le> 473890817" using X31 Z by linarith
  have sh: "\<bar>shr (X31 + z * PP4) 15\<bar> \<le> 14463" by (rule shr_bound [OF s]) simp
  have e: "s32 (C12 c * d) = Some (C12 c * d)" "s32 (2097152 + C12 c * d) = Some (2097152 + C12 c * d)"
    "s32 (CF * C10 c) = Some (CF * C10 c)" "s32 (x * PP4) = Some (x * PP4)" "s32 (CF * C11 c) = Some (CF * C11 c)"
    "s32 (y * PP4) = Some (y * PP4)" "s32 (z * PP4) = Some (z * PP4)" "s32 (X31 + z * PP4) = Some (X31 + z * PP4)"
    "s32 (shr (X31 + z * PP4) 15 + PP4) = Some (shr (X31 + z * PP4) 15 + PP4)"
    "\<exists>v. s32 (shr (X31 + z * PP4) 15 + PP4 + 99880) = Some v"
    using s32_in [OF m1] s32_in [OF t] s32_in [OF m2] s32_in [OF m4] s32_in [OF m3] s32_in [OF m5] s32_in [OF m6] s32_in [OF s] sh p'
    by (simp_all add: s32_def abs_le_iff)
  show ?thesis
    unfolding calc_correction_def Let_def e(1) bind.bind_lunit e(2) CF_def [symmetric] e(3) x_def [symmetric] e(4)
      X31_def [symmetric] e(5) y_def [symmetric] e(6) z_def [symmetric] e(7,8,9)
    by (rule e(10))
qed

text \<open>
  The second formula is used with coefficients decoded for the first; the two layouts differ in \<open>C4\<close>, \<open>C7\<close>
  and \<open>C12\<close>.
\<close>

lemma fbm320_init_layout:
  assumes "fbm320_init fl ident d a4 f1 m1 m0 = Some (0, sel, Some c)"
  shows "c = Coefficient 1 d a4 f1"
  using assms by (auto simp: fbm320_init_def bind_eq_Some_conv Let_def split: if_splits)

lemma coefficient_layouts_differ:
  "C7 (Coefficient 1 (replicate 18 0xff) 0 0) = 524287" "C7 (Coefficient 0 (replicate 18 0xff) 0 0) = 262143"
  by code_simp+

text \<open>A failed transfer reads as -46.85 degrees (raw value 0) and as a humidity of -1.\<close>

lemma htu21d_failed_transfer: "read_temp conv e None = conv 0" "read_humi None = - 1"
  by (simp_all add: read_temp_def read_humi_def transfer_def htu21d_raw_def reg16_def)

lemma read_humi_range: "- 6 \<le> read_humi r \<and> read_humi r \<le> 118"
proof -
  have "uint (w AND 0xfffc :: u32) \<le> 0xfffc" for w
    using word_and_le1 [of w "0xfffc"] by (simp add: word_le_def and.commute)
  then have raw: "0 \<le> htu21d_raw t" "htu21d_raw t \<le> 65532" for t by (simp_all add: htu21d_raw_def)
  have "0 \<le> 125 * htu21d_raw t div 65536" "125 * htu21d_raw t div 65536 \<le> 124" for t
    using raw [of t] by (simp_all add: pos_imp_zdiv_nonneg_iff)
  then show ?thesis by (simp add: read_humi_def Let_def)
qed

section \<open>Properties\<close>

text \<open>
  Property C39. With any calibration registers and any 24-bit readings, the compensation formula does not
  overflow in the operating range: temperature deviation \<open>DT\<close> up to 131072, a temperature between -40 and
  85 degrees, an uncompensated pressure up to 1048576 and a linear pressure deviation up to 131072 Pa.
  Each condition is on a value that the part before it has computed without overflow.
\<close>

theorem fbm320_no_overflow:
  assumes k: "formula_constants sel = (k1, k5, k4, k8, k7)" and c: "c = Coefficient sel0 d a4 f1"
    and UT: "0 \<le> UT" "UT < 2 ^ 24" and UP: "0 \<le> UP" "UP < 2 ^ 24"
    and DT: "\<bar>shr (UT - 8388608) 4 + C0 c * 16\<bar> \<le> 2 ^ 17"
  shows "\<exists>RT DT2. calc_temperature k1 c UT = Some (RT, DT2) \<and>
    (- 4000 \<le> RT \<and> RT \<le> 8500 \<longrightarrow>
      (\<exists>X13 X26. calc_offset k5 k4 c DT2 = Some X13 \<and> calc_scale k8 k7 c DT2 = Some X26 \<and>
        (\<bar>shr (UP - 8388608 - X13) 3\<bar> \<le> 2 ^ 20 \<longrightarrow>
          (\<exists>PP4. calc_linear UP X13 X26 = Some (shr (UP - 8388608 - X13) 3, PP4) \<and>
            (\<bar>PP4\<bar> \<le> 2 ^ 17 \<longrightarrow> (\<exists>RP. Calculate sel c UP UT = Some (RP, RT)))))))"
proof -
  have ck: "coeff_ok c" unfolding c by (rule coefficient_ok)
  have kb: "0 \<le> k1" "k1 \<le> 5000" "0 \<le> k5" "k5 \<le> 4443" "0 \<le> k4" "k4 \<le> 211288" "0 \<le> k8" "k8 \<le> 7209" "0 \<le> k7" "k7 \<le> 285594"
    using k by (auto simp: formula_constants_def split: if_splits)
  obtain s where t: "calc_temperature k1 c UT = Some (shr (81920000 - s) 15, shr s 12)"
    using calc_temperature_ok [OF ck kb(1,2) UT DT] by blast
  show ?thesis
  proof (rule exI, rule exI, rule conjI [OF t], rule impI)
    assume "- 4000 \<le> shr (81920000 - s) 15 \<and> shr (81920000 - s) 15 \<le> 8500"
    then have d: "\<bar>shr s 12\<bar> \<le> 52001" using temperature_range by blast
    obtain X13 where x13: "calc_offset k5 k4 c (shr s 12) = Some X13" using calc_offset_ok [OF ck d kb(3-6)] by blast
    obtain X26 where x26: "calc_scale k8 k7 c (shr s 12) = Some X26" "\<bar>X26\<bar> \<le> 2000000"
      using calc_scale_ok [OF ck d kb(7-10)] by blast
    have "\<exists>PP4. calc_linear UP X13 X26 = Some (shr (UP - 8388608 - X13) 3, PP4) \<and>
        (\<bar>PP4\<bar> \<le> 2 ^ 17 \<longrightarrow> (\<exists>RP. Calculate sel c UP UT = Some (RP, shr (81920000 - s) 15)))"
      if p: "\<bar>shr (UP - 8388608 - X13) 3\<bar> \<le> 2 ^ 20"
    proof -
      obtain PP4 where l: "calc_linear UP X13 X26 = Some (shr (UP - 8388608 - X13) 3, PP4)"
        using calc_linear_ok [OF UP x26(2) p] by blast
      moreover have "\<exists>RP. Calculate sel c UP UT = Some (RP, shr (81920000 - s) 15)" if q: "\<bar>PP4\<bar> \<le> 2 ^ 17"
        using calc_correction_ok [OF ck d q] t x13 x26(1) l k by (auto simp: Calculate_def calc_formula_def)
      ultimately show ?thesis by blast
    qed
    then show "\<exists>X13 X26. calc_offset k5 k4 c (shr s 12) = Some X13 \<and> calc_scale k8 k7 c (shr s 12) = Some X26 \<and>
        (\<bar>shr (UP - 8388608 - X13) 3\<bar> \<le> 2 ^ 20 \<longrightarrow>
          (\<exists>PP4. calc_linear UP X13 X26 = Some (shr (UP - 8388608 - X13) 3, PP4) \<and>
            (\<bar>PP4\<bar> \<le> 2 ^ 17 \<longrightarrow> (\<exists>RP. Calculate sel c UP UT = Some (RP, shr (81920000 - s) 15)))))"
      using x13 x26(1) by blast
  qed
qed

definition sample_registers :: "u8 list" where
  "sample_registers = [0x80, 0, 0x40, 0x80, 0x40, 0, 0x80, 0, 0x60, 0, 0x20, 0, 0x60, 0, 0x40, 0, 0x20, 0]"

definition sample_coeff :: fbm320_coeff where
  "sample_coeff = Coefficient 1 sample_registers 0x20 0"

lemma sample_calculation:
  "C0 sample_coeff = 2048" "calc_temperature 4459 sample_coeff 7864320 = Some (2500, 0)"
  "calc_offset 4443 120586 sample_coeff 0 = Some 4026528" "calc_scale 7180 166426 sample_coeff 0 = Some 363034"
  "calc_linear 12415136 4026528 363034 = Some (0, 0)"
  by code_simp+

theorem fbm320_no_overflow_witness: "\<exists>RP. Calculate 1 sample_coeff 12415136 7864320 = Some (RP, 2500)"
proof -
  have k: "formula_constants 1 = (4459, 4443, 120586, 7180, 166426)" by (simp add: formula_constants_def formula02_def)
  show ?thesis
    using fbm320_no_overflow [OF k sample_coeff_def, of 7864320 12415136] by (simp add: sample_calculation shr_def)
qed

text \<open>
  A failed bus transfer is not detected: \<^verbatim>\<open>fbm320_read_data\<close> never reports an error, whatever
  the transfers return, and a failed temperature transfer, which leaves the reading 0, makes the
  compensation overflow for all coefficients with \<open>C0\<close> up to 2387.
\<close>

theorem fbm320_failed_transfer:
  "(\<forall>t p. fbm320_read_data sel (Coefficient sel0 d a4 f1) t p \<noteq> Some (255, None)) \<and>
   (C0 (Coefficient sel0 d a4 f1) \<le> 2387 \<longrightarrow> (\<forall>p. fbm320_read_data sel (Coefficient sel0 d a4 f1) None p = None))"
proof (intro conjI allI impI)
  let ?c = "Coefficient sel0 d a4 f1"
  have "0 \<le> raw24 x y z" for x y z by (simp add: raw24_def)
  then have nn: "raw24 x y z \<noteq> - 1" for x y z by (metis neg_0_le_iff_le not_one_le_zero)
  show "fbm320_read_data sel ?c t p \<noteq> Some (255, None)" for t p
    using nn by (auto simp: fbm320_read_data_def Let_def bind_eq_Some_conv)
  fix p
  assume C0: "C0 ?c \<le> 2387"
  obtain k1 k5 k4 k8 k7 where k: "formula_constants sel = (k1, k5, k4, k8, k7)" "4418 \<le> k1"
    by (cases "formula02 sel") (simp_all add: formula_constants_def)
  have ck: "coeff_ok ?c" by (rule coefficient_ok)
  define D where "D = - 524288 + C0 ?c * 16"
  have "D \<le> - 486096" using C0 by (simp add: D_def)
  moreover have "4418 \<le> C1 ?c + k1" using ck k(2) by (simp add: coeff_ok_def)
  ultimately have "4418 * 486096 \<le> (C1 ?c + k1) * (- D)" by (intro mult_mono) auto
  then have ov: "s32 ((C1 ?c + k1) * D) = None" by (simp add: s32_def)
  have r: "raw24 0 0 0 = 0" by (simp add: raw24_def)
  have "calc_temperature k1 ?c 0 = None"
  proof (cases "s32 (C1 ?c + k1)")
    case (Some x)
    have x: "x = C1 ?c + k1" using Some by (simp add: s32_def split: if_splits)
    have e: "s32 (0 - 8388608) = Some (- 8388608)" "s32 (C0 ?c * 16) = Some (C0 ?c * 16)" "s32 (shr (- 8388608) 4 + C0 ?c * 16) = Some D"
      using ck by (simp_all add: s32_def shr_def D_def coeff_ok_def)
    show ?thesis unfolding calc_temperature_def e(1) bind.bind_lunit e(2,3) Some using ov x by simp
  qed (simp add: calc_temperature_def bind_eq_None_conv)
  then have "Calculate sel ?c UP 0 = None" for UP using k(1) by (simp add: Calculate_def calc_formula_def)
  then show "fbm320_read_data sel ?c None p = None"
    using nn r by (simp add: fbm320_read_data_def transfer_def Let_def)
qed

theorem fbm320_failed_transfer_witness:
  "C0 (Coefficient 1 sample_registers 0x20 0) \<le> 2387 \<and>
   fbm320_read_data 1 (Coefficient 1 sample_registers 0x20 0) None (Some [0x80, 0, 0]) = None"
  using fbm320_failed_transfer [of 1 1 sample_registers "0x20" 0] sample_calculation(1) by (simp add: sample_coeff_def)

end
