(* ===== verification/Spec2Isabelle.thy ===== *)
theory Spec2Isabelle
  imports Prelude RingBuffer RingBlock MqttPacket MqttRead MqttPublish MqttConnect MqttSubscribe KernelState Scheduler
    Thread KService RtList Timer Ipc Semaphore Mutex Event Mailbox MessageQueue DataQueue Completion WorkQueue KObject Device MqttTransport MqttTopic MqttClient MqttSession
    SmallMem MemPool I2c AtClient Tick Application Sensors
begin

text \<open>
  Verification of the firmware of an environmental sensor node: an STM32F407 board that runs RT-Thread,
  reads light, temperature, humidity and pressure, publishes them over MQTT, obeys commands received over
  MQTT and switches its lamps when it hears two claps (the tree \<^verbatim>\<open>src/electronic\<close>).

  \<^bold>\<open>The program and its parts.\<close> The application (\<^verbatim>\<open>applications/\<close>) has a main loop, a thread for MQTT and
  interrupt handlers. The main loop reads the sensors, sends the light value to a mailbox and controls fan,
  lamps and motor; the MQTT thread waits for the mailbox and publishes a report when one is requested; the
  handlers of the sound sensor, the key and two timers detect claps and request reports. Underneath are the
  RT-Thread kernel (\<^verbatim>\<open>rt-thread/src/\<close>: scheduler, threads, timers, inter-thread communication, heap), the
  ring buffer of the device drivers, and the MQTT client (\<^verbatim>\<open>packages/kawaii-mqtt-latest/\<close>: packet codec,
  transport over sockets, topics, client).

  \<^bold>\<open>Theories and sources.\<close>
  \<^item> \<open>Prelude\<close>: machine words, byte memory with fallible access, circular views, the locale \<open>data_refinement\<close>.
  \<^item> \<open>KernelState\<close>, \<open>Scheduler\<close>, \<open>Thread\<close>, \<open>Timer\<close>, \<open>Tick\<close>: the state of the kernel as one record; \<^verbatim>\<open>scheduler.c\<close>,
    \<^verbatim>\<open>thread.c\<close>, \<^verbatim>\<open>timer.c\<close>, \<^verbatim>\<open>clock.c\<close>. \<open>RtList\<close>: the intrusive lists of \<^verbatim>\<open>rtservice.h\<close> on pointers, which justifies
    that the kernel theories use lists. \<open>KService\<close>: the memory functions of \<^verbatim>\<open>kservice.c\<close>.
    \<open>KObject\<close>, \<open>Device\<close>: the object container \<^verbatim>\<open>object.c\<close> and the device framework \<^verbatim>\<open>device.c\<close>, with the drivers as parameters.
  \<^item> \<open>Ipc\<close>, \<open>Semaphore\<close>, \<open>Mutex\<close>, \<open>Event\<close>, \<open>Mailbox\<close>, \<open>MessageQueue\<close>: \<^verbatim>\<open>ipc.c\<close>. A blocking call is split where it calls
    \<^verbatim>\<open>rt_schedule\<close>; its second half is applied to the state in which the thread runs again, so that any
    activity of other threads may lie between.
  \<^item> \<open>SmallMem\<close>: the heap, \<^verbatim>\<open>mem.c\<close>. \<open>MemPool\<close>: pools of equal blocks, \<^verbatim>\<open>mempool.c\<close>. \<open>RingBuffer\<close> and \<open>RingBlock\<close>:
    \<^verbatim>\<open>ringbuffer.c\<close> and \<^verbatim>\<open>ringblk_buf.c\<close> of \<^verbatim>\<open>components/drivers/ipc\<close>. \<open>DataQueue\<close>, \<open>Completion\<close> and \<open>WorkQueue\<close>: \<^verbatim>\<open>dataqueue.c\<close>,
    \<^verbatim>\<open>completion.c\<close> and \<^verbatim>\<open>workqueue.c\<close> there, on the waiting lists, timers and threads of the kernel.
  \<^item> \<open>I2c\<close>: the I2C master in software, \<^verbatim>\<open>i2c-bit-ops.c\<close>, \<^verbatim>\<open>i2c_core.c\<close>, and the pins of \<^verbatim>\<open>drv_soft_i2c.c\<close>.
  \<^item> \<open>AtClient\<close>: the client of the WiFi module, \<^verbatim>\<open>components/net/at/src/at_client.c\<close>.
  \<^item> \<open>MqttPacket\<close>, \<open>MqttRead\<close>, \<open>MqttPublish\<close>, \<open>MqttConnect\<close>, \<open>MqttSubscribe\<close>: the codec, \<^verbatim>\<open>mqtt/MQTT*.c\<close>. \<open>MqttTransport\<close>: timers,
    sockets and the reading and sending of packets. \<open>MqttTopic\<close>, \<open>MqttClient\<close>, \<open>MqttSession\<close>: \<^verbatim>\<open>mqttclient/mqttclient.c\<close>, the last with \<^verbatim>\<open>network.c\<close>.
  \<^item> \<open>Application\<close>, \<open>Sensors\<close>: \<^verbatim>\<open>main.c\<close>, \<^verbatim>\<open>led_control.c\<close>, \<^verbatim>\<open>drv_stepMotor.c\<close>; \<^verbatim>\<open>fbm320_drv.c\<close>, \<^verbatim>\<open>htu21d_drv.c\<close>.
  Definitions carry the names of the functions, types and constants they model; loops and parts of long
  functions have names of their own.

  \<^bold>\<open>Conventions.\<close> Integers that may wrap are words of their width. \<open>None\<close> is a failed \<^verbatim>\<open>RT_ASSERT\<close>, an access
  outside an object, a null pointer dereference, a signed overflow, or a loop that does not end; that an
  operation returns is therefore part of every theorem about it. Loops that may not end are partial
  functions in the option type (no fuel is used), and their termination is proved: the timer check, the
  heap searches, the transport loops; where it fails the divergence is proved (a periodic timer of period
  0, draining a broken connection). Kernel operations run with interrupts masked and are single steps.
  The results of socket calls, bus transfers and floating-point conversions, the text of JSON messages and
  the timeout functions of application timers are parameters; the theorems hold for all of them, or under
  hypotheses that say what the environment does (a passive timeout function, a network that delivers).

  \<^bold>\<open>What the lemmas show.\<close>
  \<^item> Kernel: the scheduler invariant (bitmap, ready lists, thread states, one running thread) is kept by
    every operation, and the thread of the highest ready priority runs; timers fire exactly when due
    in spite of wrap-around, and one tick runs exactly the timers of that tick; sleeping threads wake. The
    memory functions agree with filling and copying at once. Kernel objects are in the list of their class; devices have unique names
    (locale \<open>name_registry\<close>, interpreted by the object container) and count their users.
  \<^item> Communication: mutual exclusion, conservation of semaphore permits and completeness of event wake-ups
    over all interleavings (inductive runs); mailboxes, message queues, data queues and the ring buffer
    refine bounded queues (locale \<open>data_refinement\<close>, interpreted by each of them); a completion is seen exactly once, unless it
    falls between the timeout of the wait and the run of the waiter. Work queues lose no wake-up over all interleavings, and
    the end of an item wakes all who wait for it; an item submitted at once while its delay runs leads to a failed assertion.
  \<^item> Heap: the blocks tile the heap, allocation is first fit and hands out disjoint blocks, freeing merges,
    resizing keeps the contents (locale \<open>allocator\<close>); a memory pool refines a stack of free blocks; the
    blocks of the ring block buffer are disjoint, and every refused allocation loses a descriptor.
  \<^item> I2C: the lines carry exactly the frames of the messages, under clock stretching (locale \<open>i2c_lines\<close>, interpreted by
    the pin functions of the board); refused transfers are reported as successes by the bus core.
  \<^item> AT client: a response is given back line by line under any timing of the characters; one that does not fit is
    reported as a success.
  \<^item> MQTT: round trips of all packet types (locales \<open>packet_codec\<close> and \<open>byte_source\<close>), reassembly of packets from
    arbitrary chunks, wildcard matching against a level-wise definition, at most one delivery per release
    for quality of service 2, the handshake of a connection and the renewal of subscriptions, and the cases in which packets that are too short are accepted.
  \<^item> Application: the interrupt handlers, run on the kernel's timers, refine a specification with two counters
    (locale \<open>countdown\<close>, interpreted by the tick and timer functions), and exactly two claps switch the lamps;
    the sensor arithmetic does not overflow in the operating range.
  The properties of the development are marked \<^emph>\<open>Property\<close> with their number in the text before them;
  hypotheses are shown satisfiable by the witness after each.

  \<^bold>\<open>Not modelled.\<close> Hardware access (the HAL and CMSIS libraries, \<^verbatim>\<open>drivers/\<close>, \<^verbatim>\<open>libcpu\<close>, start-up code) has no
  meaning without a model of the device. Third-party stacks the firmware only calls (lwIP, mbedTLS, the
  device packages of the AT client and its start-up, FatFs and the file system layer, the C library glue, cJSON apart from
  its lookup) are large programs of their own. The shell and
  the logging and formatting functions carry text, not state the modelled parts depend on;
  the kernel theories name objects by identifiers, so that their operations omit the calls of \<^verbatim>\<open>rt_object_init\<close> and \<^verbatim>\<open>rt_object_detach\<close>, whose effect is the subject of \<open>KObject\<close>. Of the kernel and its drivers, the idle thread, the
  pipes and wait queues behind the file interface, and the SMP variants, which this configuration does not build.
\<close>

end
